(* ===== verification/Prelude.thy ===== *)
theory Prelude
  imports Main "HOL-Library.Word" "HOL-Library.Code_Target_Nat"
begin

text \<open>
  Shared vocabulary of the development: the C integer types, programs over a C state that may
  fail, big-endian numbers, and lemmas on words, lists and bytes that the component theories share.

  A C function that works on an object through a pointer and returns one or zero is a program
  \<open>'s \<Rightarrow> 'a option \<times> 's\<close>: the outputs on success (\<open>None\<close> for a zero return) and the state the
  object is left in, on failure too.
\<close>

unbundle bit_operations_syntax

type_synonym u8 = "8 word"
type_synonym u16 = "16 word"
type_synonym u32 = "32 word"
type_synonym u64 = "64 word"

named_theorems prog_simps "unfolding of the program combinators"
named_theorems codec_intros "read-back laws of the codecs"

definition INT_MAX :: nat where
  "INT_MAX = 2147483647"

subsection \<open>Programs\<close>

type_synonym ('s, 'a) prog = "'s \<Rightarrow> 'a option \<times> 's"

definition oret :: "'a \<Rightarrow> ('s, 'a) prog" where
  "oret a s = (Some a, s)"

definition ofail :: "('s, 'a) prog" where
  "ofail s = (None, s)"

definition obind :: "('s, 'a) prog \<Rightarrow> ('a \<Rightarrow> ('s, 'b) prog) \<Rightarrow> ('s, 'b) prog" where
  "obind m f s = (case m s of (None, s') \<Rightarrow> (None, s') | (Some a, s') \<Rightarrow> f a s')"

definition othen :: "('s, 'a) prog \<Rightarrow> ('s, 'b) prog \<Rightarrow> ('s, 'b) prog" where
  "othen m k = obind m (\<lambda>_. k)"

definition oguard :: "bool \<Rightarrow> ('s, unit) prog" where
  "oguard b s = (if b then Some () else None, s)"

definition oget :: "('s, 's) prog" where
  "oget s = (Some s, s)"

definition succeeds :: "'a option \<times> 's \<Rightarrow> bool" where
  "succeeds r \<longleftrightarrow> fst r \<noteq> None"

lemmas [prog_simps] = oret_def ofail_def othen_def oguard_def oget_def

lemma obind_Some [simp]: "m s = (Some a, s') \<Longrightarrow> obind m f s = f a s'"
  by (simp add: obind_def)

lemma obind_None [simp]: "m s = (None, s') \<Longrightarrow> obind m f s = (None, s')"
  by (simp add: obind_def)

lemma obind_eq_Some:
  "obind m f s = (Some b, t) \<longleftrightarrow> (\<exists>a s'. m s = (Some a, s') \<and> f a s' = (Some b, t))"
  by (auto simp: obind_def split: prod.splits option.splits)

lemma obind_assoc: "obind (obind m f) g = obind m (\<lambda>a. obind (f a) g)"
  by (rule ext) (auto simp: obind_def split: prod.splits option.splits)

lemma oret_obind [simp]: "obind (oret a) f = f a"
  by (rule ext) (simp add: obind_def oret_def)

lemma obind_oret [simp]: "obind m oret = m"
  by (rule ext) (auto simp: obind_def oret_def split: prod.splits option.splits)

lemma oguard_obind [simp]: "obind (oguard b) f s = (if b then f () s else (None, s))"
  by (simp add: obind_def oguard_def)

lemma othen_Some [simp]: "m s = (Some a, s') \<Longrightarrow> othen m k s = k s'"
  by (simp add: othen_def)

lemma othen_None [simp]: "m s = (None, s') \<Longrightarrow> othen m k s = (None, s')"
  by (simp add: othen_def)

lemma othen_eq_Some:
  "othen m k s = (Some b, t) \<longleftrightarrow> (\<exists>a s'. m s = (Some a, s') \<and> k s' = (Some b, t))"
  by (simp add: othen_def obind_eq_Some)

lemma othen_assoc: "othen (othen m k) l = othen m (othen k l)"
  by (simp add: othen_def obind_assoc)

subsection \<open>Words\<close>

lemma unat_or_push_bit:
  fixes v w :: "'a::len word"
  assumes "unat w < 2 ^ k" and "unat v * 2 ^ k + unat w < 2 ^ LENGTH('a)"
  shows "unat (push_bit k v OR w) = unat v * 2 ^ k + unat w"
proof -
  have "unat (push_bit k v) = unat v * 2 ^ k"
  proof -
    have "unat v * 2 ^ k < 2 ^ LENGTH('a)" using assms(2) by simp
    then show ?thesis
      by (simp only: unsigned_push_bit_eq push_bit_nat_def take_bit_nat_eq_self)
  qed
  moreover have "take_bit k (unat w) = unat w"
    using assms(1) by (simp add: take_bit_nat_eq_self)
  then have "\<not> bit (unat w) n" if "k \<le> n" for n
    by (metis bit_take_bit_iff not_less that)
  then have "push_bit k (unat v) OR unat w = push_bit k (unat v) + unat w"
    by (intro disjunctive_add [symmetric]) (auto simp: bit_push_bit_iff not_le)
  ultimately show ?thesis
    by (simp add: unsigned_or_eq push_bit_nat_def)
qed

lemma unat_drop_bit: "unat (drop_bit n w) = unat w div 2 ^ n"
  by (simp only: unat_drop_bit_eq drop_bit_nat_def)

lemma unat_and_mask: "unat (w AND mask n) = unat w mod 2 ^ n"
  by (simp only: take_bit_eq_mask [symmetric] unsigned_take_bit_eq take_bit_nat_def)

lemma unat_ucast_up:
  "LENGTH('a) \<le> LENGTH('b) \<Longrightarrow> unat (ucast (w :: 'a::len word) :: 'b::len word) = unat w"
  by (simp add: unsigned_ucast_eq take_bit_nat_eq_self_iff)
    (meson order_less_le_trans power_increasing one_le_numeral unsigned_less)

lemma unat_ucast_mod:
  "unat (ucast (w :: 'a::len word) :: 'b::len word) = unat w mod 2 ^ LENGTH('b)"
  by (simp add: unsigned_ucast_eq take_bit_eq_mod)

lemma unat_less_256: "unat (b :: u8) < 256"
  using unsigned_less [of b] by simp

lemma unat_less_16: "unat (v :: u16) < 65536"
  using unsigned_less [of v] by simp

lemma unat_less_32: "unat (v :: u32) < 4294967296"
  using unsigned_less [of v] by simp

lemma unat_less_64: "unat (v :: u64) < 18446744073709551616"
  using unsigned_less [of v] by simp

lemma word_of_nat_unat [simp]: "word_of_nat (unat w) = (w :: 'a::len word)"
  by (simp add: word_unat_eq_iff unat_of_nat take_bit_nat_eq_self)

lemma unat_word_of_nat: "unat (word_of_nat n :: 'a::len word) = n mod 2 ^ LENGTH('a)"
  by (simp add: unat_of_nat take_bit_eq_mod)

lemma unat_word_of_nat_less: "n < 2 ^ LENGTH('a) \<Longrightarrow> unat (word_of_nat n :: 'a::len word) = n"
  by (simp add: unat_word_of_nat)

lemma ucast_word_of_nat:
  assumes "LENGTH('b) \<le> LENGTH('a)"
  shows "ucast (word_of_nat n :: 'a::len word) = (word_of_nat n :: 'b::len word)"
proof -
  have "(2::nat) ^ LENGTH('b) dvd 2 ^ LENGTH('a)" using assms by (rule le_imp_power_dvd)
  then show ?thesis
    by (simp add: word_unat_eq_iff unat_ucast_mod unat_word_of_nat mod_mod_cancel)
qed

lemma ucast_ucast_up [simp]:
  "LENGTH('a) \<le> LENGTH('b) \<Longrightarrow> ucast (ucast (v :: 'a::len word) :: 'b::len word) = v"
  by (rule bit_word_eqI) (auto simp: bit_simps)

subsection \<open>Big-endian numbers\<close>

definition be_val :: "u8 list \<Rightarrow> nat" where
  "be_val bs = foldl (\<lambda>a b. a * 256 + unat b) 0 bs"

fun be_bytes :: "nat \<Rightarrow> nat \<Rightarrow> u8 list" where
  "be_bytes 0 v = []"
| "be_bytes (Suc n) v = be_bytes n (v div 256) @ [word_of_nat v]"

lemma be_val_Nil [simp]: "be_val [] = 0"
  by (simp add: be_val_def)

lemma be_val_snoc [simp]: "be_val (bs @ [b]) = be_val bs * 256 + unat b"
  by (simp add: be_val_def)

lemma be_val_append: "be_val (xs @ ys) = be_val xs * 256 ^ length ys + be_val ys"
proof (induction ys rule: rev_induct)
  case (snoc y ys)
  then show ?case by (simp only: append_assoc [symmetric] be_val_snoc) (simp add: algebra_simps)
qed simp

lemma be_val_Cons: "be_val (x # xs) = unat x * 256 ^ length xs + be_val xs"
  using be_val_append [of "[x]" xs] by (simp add: be_val_def)

lemma be_val_zeros: "be_val (replicate k 0) = 0"
  by (induction k) (simp_all add: be_val_Cons)

lemma be_val_ones: "be_val (replicate k 0xff) + 1 = 256 ^ k"
  by (induction k) (simp_all add: be_val_Cons)

lemma length_be_bytes [simp]: "length (be_bytes n v) = n"
  by (induction n arbitrary: v) auto

lemma be_val_less: "be_val bs < 256 ^ length bs"
proof (induction bs rule: rev_induct)
  case (snoc b bs)
  then have "be_val bs + 1 \<le> 256 ^ length bs" by simp
  then have "(be_val bs + 1) * 256 \<le> 256 ^ length bs * 256" by (rule mult_le_mono1)
  then have "be_val bs * 256 + 256 \<le> 256 ^ length (bs @ [b])" by (simp add: mult.commute)
  with unat_less_256 [of b] show ?case by (simp only: be_val_snoc)
qed simp

lemma be_val_bytes: "be_val (be_bytes n v) = v mod 256 ^ n"
proof (induction n arbitrary: v)
  case (Suc n)
  have "v mod 256 ^ Suc n = v div 256 mod 256 ^ n * 256 + v mod 256"
    by (simp add: mod_mult2_eq)
  with Suc show ?case
    by (simp add: unat_of_nat take_bit_eq_mod)
qed simp

lemma be_val_bytes_eq [simp]: "v < 256 ^ n \<Longrightarrow> be_val (be_bytes n v) = v"
  by (simp add: be_val_bytes)

lemma be_bytes_val [simp]: "length bs = n \<Longrightarrow> be_bytes n (be_val bs) = bs"
proof (induction n arbitrary: bs)
  case (Suc n)
  then obtain cs b where bs: "bs = cs @ [b]" and cs: "length cs = n"
    by (metis length_Suc_conv_rev)
  have "(be_val cs * 256 + unat b) div 256 = be_val cs"
    using unat_less_256 [of b] by simp
  moreover have "word_of_nat (be_val cs * 256 + unat b) = b"
    by (simp only: word_unat_eq_iff unat_of_nat)
      (simp add: take_bit_eq_mod unat_less_256 [of b] mod_less)
  ultimately show ?case using bs cs Suc.IH by simp
qed simp

lemma be_bytes_mod: "be_bytes n (v mod 256 ^ n) = be_bytes n v"
  by (metis be_bytes_val be_val_bytes length_be_bytes)

lemma be_bytes_1 [simp]: "be_bytes 1 v = [word_of_nat v]" "be_bytes (Suc 0) v = [word_of_nat v]"
  by simp_all

lemma be_bytes_2: "be_bytes 2 v = [word_of_nat (v div 256), word_of_nat v]"
  by (simp add: numeral_2_eq_2)

lemma be_bytes_3: "be_bytes 3 v = [word_of_nat (v div 65536), word_of_nat (v div 256), word_of_nat v]"
proof -
  have "be_bytes 3 v = be_bytes 2 (v div 256) @ [word_of_nat v]"
    using be_bytes.simps(2) [of 2 v] by simp
  moreover have "v div 256 div 256 = v div 65536"
    using div_mult2_eq [of v 256 256] by simp
  ultimately show ?thesis by (simp add: be_bytes_2)
qed

lemma be_bytes_4: "be_bytes 4 v =
    [word_of_nat (v div 16777216), word_of_nat (v div 65536), word_of_nat (v div 256), word_of_nat v]"
proof -
  have "be_bytes 4 v = be_bytes 3 (v div 256) @ [word_of_nat v]"
    using be_bytes.simps(2) [of 3 v] by simp
  moreover have "v div 256 div 256 = v div 65536" "v div 256 div 65536 = v div 16777216"
    using div_mult2_eq [of v 256 256] div_mult2_eq [of v 256 65536] by simp_all
  ultimately show ?thesis by (simp add: be_bytes_3)
qed

lemma word_of_nat_drop_bit:
  "word_of_nat (unat (v :: 'a::len word) div 2 ^ k) = (ucast (drop_bit k v) :: 'b::len word)"
  by (simp flip: unat_drop_bit)

lemma less_8_iff: "n < 8 \<longleftrightarrow> n \<in> {0, 1, 2, 3, 4, 5, 6, 7 :: nat}"
  by auto

lemma not_bit_32: "32 \<le> n \<Longrightarrow> \<not> bit (v :: u32) n"
  by (auto dest: bit_imp_le_length)

lemma not_bit_8: "8 \<le> n \<Longrightarrow> \<not> bit (v :: u8) n"
  by (auto dest: bit_imp_le_length)

end
