(* ===== verification/Codec.thy ===== *)
theory Codec
  imports Prelude
begin

text \<open>
  The interfaces between byte strings and the programs that read and write them.

  A \<open>stream_codec\<close> is a reader \<open>read\<close> on a stream state together with the encoder \<open>enc\<close> it inverts:
  reading a state whose view starts with an encoding returns the value and leaves exactly the
  rest. Its clients get unique decodability and the repeated reader \<open>read_list\<close> once and for all.
  A \<open>canonical_codec\<close> also accepts nothing else, so that every value has one encoding only.

  A \<open>byte_sink\<close> is a writer of byte strings; a client that writes pieces one after the other
  writes their concatenation.
\<close>

subsection \<open>Reading until the input is empty\<close>

text \<open>
  The loops \<open>while (CBS_len(&cbs) != 0) { ... }\<close> of the readers: \<open>n\<close> bounds the rounds, and each
  round of a progressing reader takes a byte at least, so the length of the input is enough.
\<close>

fun read_list :: "('s \<Rightarrow> bool) \<Rightarrow> ('s, 'a) prog \<Rightarrow> nat \<Rightarrow> ('s, 'a list) prog" where
  "read_list fin read 0 s = (if fin s then Some [] else None, s)"
| "read_list fin read (Suc n) s =
     (if fin s then (Some [], s)
      else (case read s of
              (None, s') \<Rightarrow> (None, s')
            | (Some a, s') \<Rightarrow>
                (case read_list fin read n s' of
                   (None, s'') \<Rightarrow> (None, s'')
                 | (Some as, s'') \<Rightarrow> (Some (a # as), s''))))"

subsection \<open>Codecs\<close>

locale stream_codec =
  fixes view :: "'s \<Rightarrow> u8 list"
    and ok :: "'s \<Rightarrow> bool"
    and mk :: "u8 list \<Rightarrow> 's"
    and read :: "('s, 'a) prog"
    and enc :: "'a \<Rightarrow> u8 list"
    and valid :: "'a \<Rightarrow> bool"
  assumes ok_mk: "ok (mk xs)"
    and view_mk: "view (mk xs) = xs"
    and read_enc: "ok s \<Longrightarrow> valid a \<Longrightarrow> view s = enc a @ rest \<Longrightarrow>
      \<exists>s'. read s = (Some a, s') \<and> ok s' \<and> view s' = rest"
begin

lemma read_mk:
  assumes "valid a"
  obtains s' where "read (mk (enc a @ rest)) = (Some a, s')" "ok s'" "view s' = rest"
  using read_enc [OF ok_mk assms view_mk] by blast

text \<open>No encoding is a proper prefix of another one.\<close>

lemma prefix_free:
  assumes "valid a" "valid b" "enc a @ r = enc b @ r'"
  shows "a = b \<and> r = r'"
proof -
  obtain s where s: "read (mk (enc a @ r)) = (Some a, s)" "view s = r"
    by (rule read_mk [OF assms(1)])
  obtain t where "read (mk (enc b @ r')) = (Some b, t)" "view t = r'"
    by (rule read_mk [OF assms(2)])
  with s assms(3) show ?thesis by auto
qed

lemma enc_inject: "valid a \<Longrightarrow> valid b \<Longrightarrow> enc a = enc b \<Longrightarrow> a = b"
  using prefix_free [of a b "[]" "[]"] by simp

end

locale progressing_codec = stream_codec +
  assumes enc_nonempty: "valid a \<Longrightarrow> enc a \<noteq> []"
begin

lemma concat_unique:
  "\<forall>a\<in>set as. valid a \<Longrightarrow> \<forall>b\<in>set bs. valid b \<Longrightarrow>
   concat (map enc as) = concat (map enc bs) \<Longrightarrow> as = bs"
proof (induction as arbitrary: bs)
  case Nil
  then show ?case by (cases bs) (auto simp: enc_nonempty)
next
  case (Cons a as)
  from Cons.prems(1) have "enc a \<noteq> []" by (simp add: enc_nonempty)
  with Cons.prems(3) obtain b bs' where bs: "bs = b # bs'" by (cases bs) auto
  have "valid a" "valid b" using Cons.prems(1,2) bs by simp_all
  then have "a = b \<and> concat (map enc as) = concat (map enc bs')"
    by (rule prefix_free) (use Cons.prems(3) bs in simp)
  moreover from this have "as = bs'"
    by (intro Cons.IH) (use Cons.prems bs in simp_all)
  ultimately show ?case using bs by simp
qed

lemma read_list_concat:
  assumes fin: "\<And>s. ok s \<Longrightarrow> fin s \<longleftrightarrow> view s = []"
  shows "ok s \<Longrightarrow> \<forall>a\<in>set as. valid a \<Longrightarrow> view s = concat (map enc as) \<Longrightarrow> length as \<le> n \<Longrightarrow>
    \<exists>s'. read_list fin read n s = (Some as, s') \<and> ok s' \<and> view s' = []"
proof (induction as arbitrary: s n)
  case Nil
  then show ?case by (cases n) (auto simp: fin)
next
  case (Cons a as)
  obtain m where n: "n = Suc m" using Cons.prems(4) by (cases n) auto
  have "view s \<noteq> []" using Cons.prems(2,3) by (auto simp: enc_nonempty)
  then have ne: "\<not> fin s" using Cons.prems(1) by (simp add: fin)
  from Cons.prems obtain t where t: "read s = (Some a, t)" "ok t" "view t = concat (map enc as)"
    using read_enc [of s a "concat (map enc as)"] by auto
  from Cons.IH [OF t(2) _ t(3), of m] Cons.prems n obtain u
    where "read_list fin read m t = (Some as, u)" "ok u" "view u = []" by auto
  with ne t n show ?case by auto
qed

end

locale canonical_codec = stream_codec +
  assumes read_sound: "ok s \<Longrightarrow> read s = (Some a, s') \<Longrightarrow>
    valid a \<and> ok s' \<and> view s = enc a @ view s'"
begin

text \<open>The reader accepts exactly the encodings, and the value read has no other encoding.\<close>

lemma read_iff:
  assumes "ok s"
  shows "(\<exists>s'. read s = (Some a, s') \<and> view s' = rest) \<longleftrightarrow> valid a \<and> view s = enc a @ rest"
  using read_sound [OF assms] read_enc [OF assms] by blast

lemma read_view_only:
  assumes "ok s" "ok t" "view s = view t"
  shows "fst (read s) = fst (read t)"
proof -
  have "fst (read u) = Some a \<longleftrightarrow> (\<exists>rest. valid a \<and> view u = enc a @ rest)" if "ok u" for u a
    using read_iff [OF that] by (metis fst_conv prod.collapse)
  with assms show ?thesis by (metis option.exhaust)
qed

end

subsection \<open>Sinks\<close>

fun put_all :: "(u8 list \<Rightarrow> ('s, unit) prog) \<Rightarrow> u8 list list \<Rightarrow> ('s, unit) prog" where
  "put_all put [] = oret ()"
| "put_all put (p # ps) = othen (put p) (put_all put ps)"

locale byte_sink =
  fixes ready :: "'s \<Rightarrow> bool"
    and contents :: "'s \<Rightarrow> u8 list"
    and put :: "u8 list \<Rightarrow> ('s, unit) prog"
  assumes put_ok: "ready s \<Longrightarrow> put bs s = (Some (), s') \<Longrightarrow>
      ready s' \<and> contents s' = contents s @ bs"
begin

lemma put_all_contents:
  "ready s \<Longrightarrow> put_all put ps s = (Some (), s') \<Longrightarrow> ready s' \<and> contents s' = contents s @ concat ps"
proof (induction ps arbitrary: s)
  case Nil
  then show ?case by (simp add: oret_def)
next
  case (Cons p ps)
  then obtain t where t: "put p s = (Some (), t)" "put_all put ps t = (Some (), s')"
    by (auto simp: othen_eq_Some)
  with put_ok [OF Cons.prems(1) t(1)] Cons.IH [of t] show ?case by simp
qed

end

end
