(* ===== verification/Mem.thy ===== *)
theory Mem
  imports Prelude "HOL-Library.List_Lexorder"
begin

text \<open>
  The memory and C-string helpers of \<open>crypto/mem.c\<close> and the inline wrappers of
  \<open>crypto/internal.h\<close>. A pointer to bytes is the list of the bytes from it to the end of its
  object; a C string is such a list with a zero byte in it.

  \<open>malloc\<close> of the C library is a predicate on the requested size that says whether the request is
  met (the parameter \<open>mall\<close> of the allocating functions); fresh memory, whose contents C leaves
  unspecified, is filled with zeros, and no theorem rests on what it holds. The weak symbols
  \<open>OPENSSL_memory_alloc\<close>, \<open>OPENSSL_memory_free\<close> and \<open>sdallocx\<close> are taken as not overridden.
\<close>

type_synonym malloc = "nat \<Rightarrow> bool"

abbreviation size_mod :: nat where
  "size_mod \<equiv> 2 ^ 64"

subsection \<open>Allocation\<close>

definition OPENSSL_MALLOC_PREFIX :: nat where
  "OPENSSL_MALLOC_PREFIX = 8"

definition OPENSSL_malloc :: "malloc \<Rightarrow> nat \<Rightarrow> u8 list option" where
  "OPENSSL_malloc mall sz =
     (if (sz + OPENSSL_MALLOC_PREFIX) mod size_mod < sz then None
      else if mall (sz + OPENSSL_MALLOC_PREFIX) then Some (replicate sz 0)
      else None)"

definition OPENSSL_realloc :: "malloc \<Rightarrow> u8 list option \<Rightarrow> nat \<Rightarrow> u8 list option" where
  "OPENSSL_realloc mall orig new_sz =
     (case orig of
        None \<Rightarrow> OPENSSL_malloc mall new_sz
      | Some old \<Rightarrow>
          (case OPENSSL_malloc mall new_sz of
             None \<Rightarrow> None
           | Some ret \<Rightarrow>
               (let to_copy = (if length old < new_sz then length old else new_sz)
                in Some (take to_copy old @ drop to_copy ret))))"

definition OPENSSL_memdup :: "malloc \<Rightarrow> u8 list \<Rightarrow> nat \<Rightarrow> u8 list option" where
  "OPENSSL_memdup mall data sz =
     (if sz = 0 then None
      else (case OPENSSL_malloc mall sz of
              None \<Rightarrow> None
            | Some ret \<Rightarrow> Some (take sz data @ drop sz ret)))"

lemma length_OPENSSL_malloc: "OPENSSL_malloc mall n = Some p \<Longrightarrow> length p = n"
  by (auto simp: OPENSSL_malloc_def split: if_splits)

lemma length_OPENSSL_realloc: "OPENSSL_realloc mall orig n = Some p \<Longrightarrow> length p = n"
  by (auto simp: OPENSSL_realloc_def Let_def length_OPENSSL_malloc split: option.splits)

text \<open>Growing a block keeps what it held.\<close>

lemma OPENSSL_realloc_keeps:
  "OPENSSL_realloc mall (Some old) n = Some p \<Longrightarrow> length old \<le> n \<Longrightarrow> take (length old) p = old"
  by (auto simp: OPENSSL_realloc_def Let_def split: option.splits if_splits)

lemma OPENSSL_memdup_eq:
  "OPENSSL_memdup mall p n = Some q \<Longrightarrow> n \<le> length p \<Longrightarrow> q = take n p"
  by (auto simp: OPENSSL_memdup_def length_OPENSSL_malloc split: option.splits if_splits)

text \<open>\<open>memcpy\<close> to position \<open>pos\<close> of a buffer.\<close>

definition store :: "u8 list \<Rightarrow> nat \<Rightarrow> u8 list \<Rightarrow> u8 list" where
  "store buf pos xs = take pos buf @ xs @ drop (pos + length xs) buf"

subsection \<open>Comparison\<close>

text \<open>C fixes only the sign of \<open>memcmp\<close>; the model returns -1, 0 or 1.\<close>

fun memcmp :: "u8 list \<Rightarrow> u8 list \<Rightarrow> nat \<Rightarrow> int" where
  "memcmp (x # xs) (y # ys) n =
     (if n = 0 then 0 else if x < y then -1 else if y < x then 1 else memcmp xs ys (n - 1))"
| "memcmp _ _ _ = 0"

definition OPENSSL_memcmp :: "u8 list \<Rightarrow> u8 list \<Rightarrow> nat \<Rightarrow> int" where
  "OPENSSL_memcmp s1 s2 n = (if n = 0 then 0 else memcmp s1 s2 n)"

definition CRYPTO_memcmp :: "u8 list \<Rightarrow> u8 list \<Rightarrow> nat \<Rightarrow> u8" where
  "CRYPTO_memcmp a b len = foldl (\<lambda>x i. x OR (a ! i XOR b ! i)) 0 [0..<len]"

definition OPENSSL_memchr :: "u8 list \<Rightarrow> u8 \<Rightarrow> nat \<Rightarrow> nat option" where
  "OPENSSL_memchr s c n =
     (if n = 0 then None else find (\<lambda>i. s ! i = c) [0..<n])"

lemma word_xor_eq_0: "x XOR y = 0 \<longleftrightarrow> x = (y :: 'a::len word)"
  by (auto simp: bit_eq_iff bit_xor_iff)

lemma CRYPTO_memcmp_0:
  "CRYPTO_memcmp a b len = 0 \<longleftrightarrow> (\<forall>i<len. a ! i = b ! i)"
proof -
  have "foldl (\<lambda>x i. x OR (a ! i XOR b ! i)) 0 [0..<n] = 0 \<longleftrightarrow> (\<forall>i<n. a ! i = b ! i)" for n
    by (induction n) (auto simp: or_eq_0_iff word_xor_eq_0 less_Suc_eq)
  then show ?thesis by (simp add: CRYPTO_memcmp_def)
qed

text \<open>
  The constant-time comparison returns zero exactly when the two buffers agree on
  the compared bytes, however the differences are spread over them.
\<close>

theorem CRYPTO_memcmp_correct:
  assumes "len \<le> length a" "len \<le> length b"
  shows "CRYPTO_memcmp a b len = 0 \<longleftrightarrow> take len a = take len b"
  using assms by (auto simp: CRYPTO_memcmp_0 list_eq_iff_nth_eq)

theorem CRYPTO_memcmp_correct_witness:
  "CRYPTO_memcmp [1, 2, 3] [1, 2, 4] 2 = 0 \<and> CRYPTO_memcmp [1, 2, 3] [1, 2, 4] 3 \<noteq> 0"
  using CRYPTO_memcmp_correct [of 2 "[1, 2, 3]" "[1, 2, 4]"] CRYPTO_memcmp_correct [of 3 "[1, 2, 3]" "[1, 2, 4]"]
  by simp

lemma memcmp_none [simp]: "memcmp a b 0 = 0"
  by (cases "(a, b, 0 :: nat)" rule: memcmp.cases) simp_all

lemma memcmp_0: "memcmp a b n = 0 \<Longrightarrow> n \<le> length a \<Longrightarrow> n \<le> length b \<Longrightarrow> take n a = take n b"
proof (induction a b n rule: memcmp.induct)
  case (1 x xs y ys n)
  then show ?case by (cases n) (auto split: if_splits)
qed simp_all

lemma memcmp_refl [simp]: "memcmp a a n = 0"
proof (induction a arbitrary: n)
  case (Cons x a)
  then show ?case by (cases n) auto
qed simp

lemma memcmp_take: "memcmp (take n a) (take n b) n = memcmp a b n"
proof (induction a b n rule: memcmp.induct)
  case (1 x xs y ys n)
  then show ?case by (cases n) auto
qed simp_all

lemma memcmp_lex:
  "memcmp xs ys (min (length xs) (length ys)) =
    (if take (min (length xs) (length ys)) xs = take (min (length xs) (length ys)) ys then 0
     else if xs < ys then -1 else 1)"
proof (induction xs arbitrary: ys)
  case (Cons x xs)
  show ?case
  proof (cases ys)
    case Nil
    then show ?thesis by simp
  next
    case c: (Cons y ys')
    show ?thesis using Cons.IH [of ys'] by (auto simp: c not_less_iff_gr_or_eq)
  qed
qed simp

lemma prefix_less: "length xs < length ys \<Longrightarrow> take (length xs) ys = xs \<Longrightarrow> xs < (ys :: 'a::linorder list)"
proof (induction xs arbitrary: ys)
  case Nil
  then show ?case by (cases ys) auto
next
  case (Cons x xs)
  then show ?case by (cases ys) auto
qed

text \<open>Comparing the common length and then the lengths is the lexicographic order.\<close>

lemma memcmp_then_length:
  "(let r = memcmp xs ys (min (length xs) (length ys))
    in if r \<noteq> 0 then r else if length xs = length ys then 0 else if length xs < length ys then -1 else 1) =
   (if xs = ys then 0 else if xs < ys then -1 else 1)"
proof -
  define m where "m = min (length xs) (length ys)"
  have c: "memcmp xs ys m = (if take m xs = take m ys then 0 else if xs < ys then -1 else 1)"
    unfolding m_def by (rule memcmp_lex)
  show ?thesis
  proof (cases "take m xs = take m ys")
    case False
    then have "xs \<noteq> ys" by auto
    with False show ?thesis unfolding Let_def m_def [symmetric] c by auto
  next
    case True
    consider "length xs = length ys" | "length xs < length ys" | "length ys < length xs" by linarith
    then show ?thesis
    proof cases
      case 1
      then have "xs = ys" using True by (simp add: m_def)
      with True 1 show ?thesis unfolding Let_def m_def [symmetric] c by simp
    next
      case 2
      then have "xs < ys" using True by (intro prefix_less) (simp_all add: m_def)
      with True 2 show ?thesis unfolding Let_def m_def [symmetric] c by auto
    next
      case 3
      then have "ys < xs" using True by (intro prefix_less) (simp_all add: m_def)
      then have "\<not> xs < ys" "xs \<noteq> ys" by (simp_all add: order_less_not_sym order_less_imp_not_eq2)
      with True 3 show ?thesis unfolding Let_def m_def [symmetric] c by simp
    qed
  qed
qed

subsection \<open>Hashing and strings\<close>

definition OPENSSL_hash32 :: "u8 list \<Rightarrow> nat \<Rightarrow> u32" where
  "OPENSSL_hash32 ptr len =
     foldl (\<lambda>h i. (h XOR ucast (ptr ! i)) * 16777619) 2166136261 [0..<len]"

definition strlen :: "u8 list \<Rightarrow> nat" where
  "strlen s = length (takeWhile (\<lambda>c. c \<noteq> 0) s)"

definition OPENSSL_strhash :: "u8 list \<Rightarrow> u32" where
  "OPENSSL_strhash s = OPENSSL_hash32 s (strlen s)"

function strnlen_from :: "u8 list \<Rightarrow> nat \<Rightarrow> nat \<Rightarrow> nat" where
  "strnlen_from s len i =
     (if i < len then (if s ! i = 0 then i else strnlen_from s len (Suc i)) else len)"
  by pat_completeness auto
termination
  by (relation "measure (\<lambda>(s, len, i). len - i)") auto

declare strnlen_from.simps [simp del]

definition OPENSSL_strnlen :: "u8 list \<Rightarrow> nat \<Rightarrow> nat" where
  "OPENSSL_strnlen s len = strnlen_from s len 0"

definition OPENSSL_strdup :: "malloc \<Rightarrow> u8 list option \<Rightarrow> u8 list option" where
  "OPENSSL_strdup mall s =
     (case s of
        None \<Rightarrow> None
      | Some s \<Rightarrow>
          (let len = strlen s + 1
           in (case OPENSSL_malloc mall len of
                 None \<Rightarrow> None
               | Some ret \<Rightarrow> Some (take len s @ drop len ret))))"

definition OPENSSL_strndup :: "malloc \<Rightarrow> u8 list \<Rightarrow> nat \<Rightarrow> u8 list option" where
  "OPENSSL_strndup mall str sz =
     (let sz = OPENSSL_strnlen str sz;
          alloc_size = (sz + 1) mod size_mod
      in if alloc_size < sz then None
         else (case OPENSSL_malloc mall alloc_size of
                 None \<Rightarrow> None
               | Some ret \<Rightarrow> Some ((take sz str @ drop sz ret)[sz := 0])))"

lemma strnlen_from_eq:
  "i \<le> len \<Longrightarrow> len \<le> length s \<Longrightarrow>
   strnlen_from s len i = i + length (takeWhile (\<lambda>c. c \<noteq> 0) (drop i (take len s)))"
proof (induction s len i rule: strnlen_from.induct)
  case (1 s len i)
  show ?case
  proof (cases "i < len")
    case True
    with 1 have "drop i (take len s) = s ! i # drop (Suc i) (take len s)"
      by (metis Cons_nth_drop_Suc length_take min.absorb2 nth_take)
    with True 1 show ?thesis by (subst strnlen_from.simps) simp
  next
    case False
    with 1 show ?thesis by (subst strnlen_from.simps) simp
  qed
qed

lemma OPENSSL_strnlen_eq:
  "len \<le> length s \<Longrightarrow> OPENSSL_strnlen s len = length (takeWhile (\<lambda>c. c \<noteq> 0) (take len s))"
  by (simp add: OPENSSL_strnlen_def strnlen_from_eq)

subsection \<open>Case-insensitive comparison\<close>

text \<open>
  \<open>char\<close> is signed on the platforms the library is built for. A list that ends before the
  comparison does is a read past the object, \<open>None\<close>.
\<close>

definition OPENSSL_tolower :: "int \<Rightarrow> int" where
  "OPENSSL_tolower c = (if 65 \<le> c \<and> c \<le> 90 then c + (97 - 65) else c)"

fun OPENSSL_strcasecmp :: "u8 list \<Rightarrow> u8 list \<Rightarrow> int option" where
  "OPENSSL_strcasecmp (a # as) (b # bs) =
     (let aa = OPENSSL_tolower (sint a); bb = OPENSSL_tolower (sint b)
      in if aa < bb then Some (-1) else if bb < aa then Some 1
         else if aa = 0 then Some 0 else OPENSSL_strcasecmp as bs)"
| "OPENSSL_strcasecmp _ _ = None"

fun OPENSSL_strncasecmp :: "u8 list \<Rightarrow> u8 list \<Rightarrow> nat \<Rightarrow> int option" where
  "OPENSSL_strncasecmp _ _ 0 = Some 0"
| "OPENSSL_strncasecmp (a # as) (b # bs) (Suc n) =
     (let aa = OPENSSL_tolower (sint a); bb = OPENSSL_tolower (sint b)
      in if aa < bb then Some (-1) else if bb < aa then Some 1
         else if aa = 0 then Some 0 else OPENSSL_strncasecmp as bs n)"
| "OPENSSL_strncasecmp _ _ (Suc n) = None"

subsection \<open>Bounded copies\<close>

text \<open>
  \<open>dst\<close> is the destination from the write position on; the result is its new contents and the
  length the code returns.
\<close>

fun strlcpy_loop :: "u8 list \<Rightarrow> u8 list \<Rightarrow> nat \<Rightarrow> nat \<Rightarrow> u8 list \<times> nat" where
  "strlcpy_loop (d # dst) (c # src) (Suc (Suc n)) l =
     (if c \<noteq> 0
      then (let (dst', r) = strlcpy_loop dst src (Suc n) (l + 1) in (c # dst', r))
      else ((d # dst)[0 := 0], l + strlen (c # src)))"
| "strlcpy_loop dst src n l = (if n \<noteq> 0 then dst[0 := 0] else dst, l + strlen src)"

definition OPENSSL_strlcpy :: "u8 list \<Rightarrow> u8 list \<Rightarrow> nat \<Rightarrow> u8 list \<times> nat" where
  "OPENSSL_strlcpy dst src dst_size = strlcpy_loop dst src dst_size 0"

fun strlcat_loop :: "u8 list \<Rightarrow> u8 list \<Rightarrow> nat \<Rightarrow> nat \<Rightarrow> u8 list \<times> nat" where
  "strlcat_loop (d # dst) src (Suc n) l =
     (if d \<noteq> 0
      then (let (dst', r) = strlcat_loop dst src n (l + 1) in (d # dst', r))
      else (let (dst', r) = OPENSSL_strlcpy (d # dst) src (Suc n) in (dst', l + r)))"
| "strlcat_loop dst src n l = (let (dst', r) = OPENSSL_strlcpy dst src n in (dst', l + r))"

definition OPENSSL_strlcat :: "u8 list \<Rightarrow> u8 list \<Rightarrow> nat \<Rightarrow> u8 list \<times> nat" where
  "OPENSSL_strlcat dst src dst_size = strlcat_loop dst src dst_size 0"

abbreviation cstr :: "u8 list \<Rightarrow> u8 list" where
  "cstr s \<equiv> takeWhile (\<lambda>c. c \<noteq> 0) s"

lemma update_first: "Suc 0 \<le> length xs \<Longrightarrow> xs[0 := x] = x # drop (Suc 0) xs"
  by (cases xs) simp_all

lemma strlcpy_loop_result:
  "0 < n \<Longrightarrow> n \<le> length dst \<Longrightarrow> 0 \<in> set src \<Longrightarrow>
   strlcpy_loop dst src n l =
     (take (n - 1) (cstr src) @ 0 # drop (Suc (length (take (n - 1) (cstr src)))) dst,
      l + strlen src)"
  by (induction dst src n l rule: strlcpy_loop.induct)
    (auto simp: strlen_def update_first split: prod.splits)

end
