(* ===== verification/CBS.thy ===== *)
theory CBS
  imports Codec Mem
begin

text \<open>
  The byte-string reader of \<open>crypto/bytestring/cbs.c\<close>, lines 26 to 225: a \<open>CBS\<close> is a pointer and a
  length. The pointer is the list of the bytes from it to the end of the object it points into,
  so \<open>data[i]\<close> is \<open>cbs_data ! i\<close> and \<open>data += n\<close> is \<open>drop n\<close>; \<open>wf_cbs\<close> says that the length stays
  inside the object. \<open>CBS_view\<close> is the string that the reader still has to read.

  Outputs are given on success; what an output parameter holds after a zero return is not modelled
  (no caller reads it), while the state of the reader after a failure is.
\<close>

record CBS =
  cbs_data :: "u8 list"
  cbs_len :: nat

definition wf_cbs :: "CBS \<Rightarrow> bool" where
  "wf_cbs c \<longleftrightarrow> cbs_len c \<le> length (cbs_data c)"

definition CBS_view :: "CBS \<Rightarrow> u8 list" where
  "CBS_view c = take (cbs_len c) (cbs_data c)"

definition CBS_init :: "u8 list \<Rightarrow> nat \<Rightarrow> CBS" where
  "CBS_init data len = \<lparr>cbs_data = data, cbs_len = len\<rparr>"

definition cbs_of :: "u8 list \<Rightarrow> CBS" where
  "cbs_of xs = CBS_init xs (length xs)"

definition cbs_get :: "nat \<Rightarrow> (CBS, u8 list) prog" where
  "cbs_get n c =
     (if cbs_len c < n then (None, c)
      else (Some (cbs_data c),
            c\<lparr>cbs_data := drop n (cbs_data c), cbs_len := cbs_len c - n\<rparr>))"

definition CBS_skip :: "nat \<Rightarrow> (CBS, unit) prog" where
  "CBS_skip len = obind (cbs_get len) (\<lambda>_. oret ())"

definition CBS_data :: "CBS \<Rightarrow> u8 list" where
  "CBS_data c = cbs_data c"

definition CBS_len :: "CBS \<Rightarrow> nat" where
  "CBS_len c = cbs_len c"

definition CBS_stow :: "malloc \<Rightarrow> CBS \<Rightarrow> (u8 list option \<times> nat) option" where
  "CBS_stow mall c =
     (if cbs_len c = 0 then Some (None, 0)
      else (case OPENSSL_memdup mall (cbs_data c) (cbs_len c) of
              None \<Rightarrow> None
            | Some p \<Rightarrow> Some (Some p, cbs_len c)))"

definition CBS_strdup :: "malloc \<Rightarrow> CBS \<Rightarrow> u8 list option" where
  "CBS_strdup mall c = OPENSSL_strndup mall (cbs_data c) (cbs_len c)"

definition CBS_contains_zero_byte :: "CBS \<Rightarrow> bool" where
  "CBS_contains_zero_byte c \<longleftrightarrow> OPENSSL_memchr (cbs_data c) 0 (cbs_len c) \<noteq> None"

definition CBS_mem_equal :: "CBS \<Rightarrow> u8 list \<Rightarrow> nat \<Rightarrow> bool" where
  "CBS_mem_equal c data len \<longleftrightarrow>
     (if len \<noteq> cbs_len c then False else CRYPTO_memcmp (cbs_data c) data len = 0)"

definition be_fold :: "u8 list \<Rightarrow> nat \<Rightarrow> u64" where
  "be_fold data len = foldl (\<lambda>result i. push_bit 8 result OR ucast (data ! i)) 0 [0..<len]"

definition cbs_get_u :: "nat \<Rightarrow> (CBS, u64) prog" where
  "cbs_get_u len = obind (cbs_get len) (\<lambda>data. oret (be_fold data len))"

definition CBS_get_u8 :: "(CBS, u8) prog" where
  "CBS_get_u8 = obind (cbs_get 1) (\<lambda>v. oret (v ! 0))"

definition CBS_get_u16 :: "(CBS, u16) prog" where
  "CBS_get_u16 = obind (cbs_get_u 2) (\<lambda>v. oret (ucast v))"

definition CBS_get_u24 :: "(CBS, u32) prog" where
  "CBS_get_u24 = obind (cbs_get_u 3) (\<lambda>v. oret (ucast v))"

definition CBS_get_u32 :: "(CBS, u32) prog" where
  "CBS_get_u32 = obind (cbs_get_u 4) (\<lambda>v. oret (ucast v))"

definition CBS_get_u64 :: "(CBS, u64) prog" where
  "CBS_get_u64 = cbs_get_u 8"

subsection \<open>Byte swaps (\<open>crypto/internal.h\<close>)\<close>

definition CRYPTO_bswap2 :: "u16 \<Rightarrow> u16" where
  "CRYPTO_bswap2 x = drop_bit 8 x OR push_bit 8 x"

definition CRYPTO_bswap4 :: "u32 \<Rightarrow> u32" where
  "CRYPTO_bswap4 x =
     (let x = drop_bit 16 x OR push_bit 16 x
      in drop_bit 8 (x AND 0xff00ff00) OR push_bit 8 (x AND 0x00ff00ff))"

definition CRYPTO_bswap8 :: "u64 \<Rightarrow> u64" where
  "CRYPTO_bswap8 x =
     ucast (CRYPTO_bswap4 (ucast (drop_bit 32 x))) OR push_bit 32 (ucast (CRYPTO_bswap4 (ucast x)))"

definition CBS_get_u16le :: "(CBS, u16) prog" where
  "CBS_get_u16le = obind CBS_get_u16 (\<lambda>v. oret (CRYPTO_bswap2 v))"

definition CBS_get_u32le :: "(CBS, u32) prog" where
  "CBS_get_u32le = obind CBS_get_u32 (\<lambda>v. oret (CRYPTO_bswap4 v))"

definition CBS_get_u64le :: "(CBS, u64) prog" where
  "CBS_get_u64le = obind (cbs_get_u 8) (\<lambda>v. oret (CRYPTO_bswap8 v))"

subsection \<open>Sub-strings and length prefixes\<close>

definition CBS_get_last_u8 :: "(CBS, u8) prog" where
  "CBS_get_last_u8 c =
     (if cbs_len c = 0 then (None, c)
      else (Some (cbs_data c ! (cbs_len c - 1)), c\<lparr>cbs_len := cbs_len c - 1\<rparr>))"

definition CBS_get_bytes :: "nat \<Rightarrow> (CBS, CBS) prog" where
  "CBS_get_bytes len = obind (cbs_get len) (\<lambda>v. oret (CBS_init v len))"

definition CBS_copy_bytes :: "nat \<Rightarrow> (CBS, u8 list) prog" where
  "CBS_copy_bytes len = obind (cbs_get len) (\<lambda>v. oret (take len v))"

definition cbs_get_length_prefixed :: "nat \<Rightarrow> (CBS, CBS) prog" where
  "cbs_get_length_prefixed len_len =
     obind (cbs_get_u len_len) (\<lambda>len. CBS_get_bytes (unat len))"

definition CBS_get_u8_length_prefixed :: "(CBS, CBS) prog" where
  "CBS_get_u8_length_prefixed = cbs_get_length_prefixed 1"

definition CBS_get_u16_length_prefixed :: "(CBS, CBS) prog" where
  "CBS_get_u16_length_prefixed = cbs_get_length_prefixed 2"

definition CBS_get_u24_length_prefixed :: "(CBS, CBS) prog" where
  "CBS_get_u24_length_prefixed = cbs_get_length_prefixed 3"

definition CBS_get_until_first :: "u8 \<Rightarrow> (CBS, CBS) prog" where
  "CBS_get_until_first ch c =
     (case OPENSSL_memchr (CBS_data c) ch (CBS_len c) of
        None \<Rightarrow> (None, c)
      | Some split \<Rightarrow> CBS_get_bytes split c)"

subsection \<open>What the primitives do, in terms of the view\<close>

named_theorems cbs_eqs "primitive readers as functions of the view"

definition advance :: "nat \<Rightarrow> CBS \<Rightarrow> CBS" where
  "advance n c = c\<lparr>cbs_data := drop n (cbs_data c), cbs_len := cbs_len c - n\<rparr>"

lemma wf_cbs_of [simp]: "wf_cbs (cbs_of xs)"
  by (simp add: wf_cbs_def cbs_of_def CBS_init_def)

lemma view_cbs_of [simp]: "CBS_view (cbs_of xs) = xs"
  by (simp add: CBS_view_def cbs_of_def CBS_init_def)

lemma length_view [simp]: "wf_cbs c \<Longrightarrow> length (CBS_view c) = cbs_len c"
  by (simp add: wf_cbs_def CBS_view_def)

lemma wf_advance [simp]: "wf_cbs c \<Longrightarrow> wf_cbs (advance n c)"
  by (auto simp: wf_cbs_def advance_def)

lemma view_advance [simp]: "CBS_view (advance n c) = drop n (CBS_view c)"
  by (simp add: CBS_view_def advance_def drop_take)

lemma len_advance [simp]: "cbs_len (advance n c) = cbs_len c - n"
  by (simp add: advance_def)

lemma advance_advance [simp]: "advance m (advance n c) = advance (n + m) c"
  by (simp add: advance_def add.commute)

lemma advance_0 [simp]: "advance 0 c = c"
  by (simp add: advance_def)

lemma nth_view: "i < cbs_len c \<Longrightarrow> cbs_data c ! i = CBS_view c ! i"
  by (simp add: CBS_view_def)

lemma cbs_get_eq [cbs_eqs]:
  "cbs_get n c = (if cbs_len c < n then (None, c) else (Some (cbs_data c), advance n c))"
  by (simp add: cbs_get_def advance_def)

lemma be_fold_val:
  assumes "len \<le> length data" "len \<le> 8"
  shows "unat (be_fold data len) = be_val (take len data)"
  using assms
proof (induction len)
  case 0
  then show ?case by (simp add: be_fold_def)
next
  case (Suc n)
  let ?v = "be_fold data n" and ?w = "ucast (data ! n) :: u64"
  have v: "unat ?v = be_val (take n data)" using Suc by simp
  have "be_val (take n data) < 256 ^ n" using be_val_less [of "take n data"] Suc by simp
  also have "(256::nat) ^ n \<le> 256 ^ 7" using Suc.prems by (intro power_increasing) auto
  finally have bound: "unat ?v < 256 ^ 7" using v by simp
  have w: "unat ?w = unat (data ! n)" by (simp add: unat_ucast_up)
  have "unat (push_bit 8 ?v OR ?w) = unat ?v * 2 ^ 8 + unat ?w"
  proof (rule unat_or_push_bit)
    show "unat ?w < 2 ^ 8" using w unat_less_256 [of "data ! n"] by simp
    show "unat ?v * 2 ^ 8 + unat ?w < 2 ^ LENGTH(64)"
      using bound w unat_less_256 [of "data ! n"] by simp
  qed
  then show ?case
    using Suc.prems v w by (simp add: be_fold_def take_Suc_conv_app_nth)
qed

lemma CBS_skip_eq [cbs_eqs]:
  "CBS_skip n c = (if cbs_len c < n then (None, c) else (Some (), advance n c))"
  by (simp add: CBS_skip_def obind_def oret_def cbs_get_eq)

lemma CBS_get_u8_eq [cbs_eqs]:
  "CBS_get_u8 c =
     (if cbs_len c = 0 then (None, c) else (Some (CBS_view c ! 0), advance 1 c))"
  by (auto simp: CBS_get_u8_def obind_def oret_def cbs_get_eq nth_view)

lemma cbs_get_u_eq [cbs_eqs]:
  assumes "wf_cbs c" "n \<le> 8"
  shows "cbs_get_u n c =
    (if cbs_len c < n then (None, c)
     else (Some (word_of_nat (be_val (take n (CBS_view c)))), advance n c))"
proof (cases "cbs_len c < n")
  case False
  with assms have "n \<le> length (cbs_data c)" by (simp add: wf_cbs_def)
  then have "unat (be_fold (cbs_data c) n) = be_val (take n (cbs_data c))"
    using assms(2) by (rule be_fold_val)
  then have "be_fold (cbs_data c) n = word_of_nat (be_val (take n (cbs_data c)))"
    by (metis word_of_nat_unat)
  moreover have "take n (cbs_data c) = take n (CBS_view c)"
    using False by (simp add: CBS_view_def min_absorb1)
  ultimately show ?thesis
    using False by (simp add: cbs_get_u_def obind_def oret_def cbs_get_eq)
qed (simp add: cbs_get_u_def obind_def cbs_get_eq)

lemma CBS_get_bytes_eq [cbs_eqs]:
  "CBS_get_bytes n c =
     (if cbs_len c < n then (None, c) else (Some (CBS_init (cbs_data c) n), advance n c))"
  by (simp add: CBS_get_bytes_def obind_def oret_def cbs_get_eq)

lemma wf_CBS_init_data: "wf_cbs c \<Longrightarrow> n \<le> cbs_len c \<Longrightarrow> wf_cbs (CBS_init (cbs_data c) n)"
  by (simp add: wf_cbs_def CBS_init_def)

lemma view_CBS_init_data: "n \<le> cbs_len c \<Longrightarrow> CBS_view (CBS_init (cbs_data c) n) = take n (CBS_view c)"
  by (simp add: CBS_view_def CBS_init_def min_absorb1)

lemma len_CBS_init [simp]: "cbs_len (CBS_init d n) = n"
  by (simp add: CBS_init_def)

lemma CBS_copy_bytes_eq [cbs_eqs]:
  "CBS_copy_bytes n c =
     (if cbs_len c < n then (None, c) else (Some (take n (CBS_view c)), advance n c))"
  by (simp add: CBS_copy_bytes_def obind_def oret_def cbs_get_eq CBS_view_def min_absorb1)

lemma CBS_get_last_u8_eq:
  assumes "wf_cbs c"
  shows "CBS_get_last_u8 c =
    (if CBS_view c = [] then (None, c)
     else (Some (last (CBS_view c)), c\<lparr>cbs_len := cbs_len c - 1\<rparr>))"
proof (cases "cbs_len c = 0")
  case False
  then have "CBS_view c \<noteq> []" using assms by (metis length_view list.size(3))
  with False assms show ?thesis
    by (simp add: CBS_get_last_u8_def last_conv_nth nth_view)
qed (simp add: CBS_get_last_u8_def CBS_view_def)

subsection \<open>Fixed-width numbers as codecs\<close>

text \<open>A number read big-endian: exactly its \<open>n\<close> bytes are accepted and consumed.\<close>

lemma canonical_be_number:
  fixes from_u64 :: "u64 \<Rightarrow> 'a" and to_nat :: "'a \<Rightarrow> nat"
  assumes n: "n \<le> 8"
    and lt: "\<And>a. valid a \<Longrightarrow> to_nat a < 256 ^ n"
    and inv: "\<And>a. valid a \<Longrightarrow> from_u64 (word_of_nat (to_nat a)) = a"
    and bck: "\<And>k. k < 256 ^ n \<Longrightarrow>
      valid (from_u64 (word_of_nat k)) \<and> to_nat (from_u64 (word_of_nat k)) = k"
  shows "canonical_codec CBS_view wf_cbs cbs_of
    (obind (cbs_get_u n) (\<lambda>v. oret (from_u64 v))) (\<lambda>a. be_bytes n (to_nat a)) valid"
proof unfold_locales
  fix s rest and a :: 'a
  assume ok: "wf_cbs s" and a: "valid a" and v: "CBS_view s = be_bytes n (to_nat a) @ rest"
  have "cbs_len s = length (CBS_view s)" using ok by simp
  then have "\<not> cbs_len s < n" using v by simp
  then show "\<exists>s'. obind (cbs_get_u n) (\<lambda>v. oret (from_u64 v)) s = (Some a, s') \<and>
      wf_cbs s' \<and> CBS_view s' = rest"
    using ok v n lt [OF a] inv [OF a] by (simp add: obind_def oret_def cbs_get_u_eq)
next
  fix s s' and a :: 'a
  assume ok: "wf_cbs s" and r: "obind (cbs_get_u n) (\<lambda>v. oret (from_u64 v)) s = (Some a, s')"
  then have l: "\<not> cbs_len s < n" and s': "s' = advance n s"
    and a: "a = from_u64 (word_of_nat (be_val (take n (CBS_view s))))"
    using n by (auto simp: obind_def oret_def cbs_get_u_eq split: if_splits)
  have len: "length (take n (CBS_view s)) = n" using ok l by simp
  then have "be_val (take n (CBS_view s)) < 256 ^ n" using be_val_less by metis
  then have "valid a \<and> to_nat a = be_val (take n (CBS_view s))" using a bck by simp
  then show "valid a \<and> wf_cbs s' \<and> CBS_view s = be_bytes n (to_nat a) @ CBS_view s'"
    using ok s' len by simp
qed simp_all

interpretation u8_codec: canonical_codec CBS_view wf_cbs cbs_of CBS_get_u8 "\<lambda>b. [b]" "\<lambda>_. True"
proof unfold_locales
  fix s rest a assume "wf_cbs s" "CBS_view s = [a] @ rest"
  moreover from this have "cbs_len s \<noteq> 0" by (metis length_view length_append_singleton
      append_Cons append_Nil length_Cons nat.distinct(1))
  ultimately show "\<exists>s'. CBS_get_u8 s = (Some a, s') \<and> wf_cbs s' \<and> CBS_view s' = rest"
    by (simp add: CBS_get_u8_eq)
next
  fix s a s' assume "wf_cbs s" "CBS_get_u8 s = (Some a, s')"
  then have "cbs_len s \<noteq> 0" "a = CBS_view s ! 0" "s' = advance 1 s"
    by (auto simp: CBS_get_u8_eq split: if_splits)
  moreover have "CBS_view s \<noteq> []" using \<open>wf_cbs s\<close> \<open>cbs_len s \<noteq> 0\<close> by (metis length_view list.size(3))
  ultimately show "True \<and> wf_cbs s' \<and> CBS_view s = [a] @ CBS_view s'"
    using \<open>wf_cbs s\<close> by (cases "CBS_view s") auto
qed simp_all

interpretation u16_codec: canonical_codec CBS_view wf_cbs cbs_of CBS_get_u16
  "\<lambda>v. be_bytes 2 (unat v)" "\<lambda>_. True"
  unfolding CBS_get_u16_def
  by (rule canonical_be_number [where valid = "\<lambda>_. True"])
    (auto simp: ucast_word_of_nat unat_word_of_nat unat_less_16)

interpretation u24_codec: canonical_codec CBS_view wf_cbs cbs_of CBS_get_u24
  "\<lambda>v. be_bytes 3 (unat v)" "\<lambda>v. unat v < 256 ^ 3"
  unfolding CBS_get_u24_def
  by (rule canonical_be_number) (auto simp: ucast_word_of_nat unat_word_of_nat)

interpretation u32_codec: canonical_codec CBS_view wf_cbs cbs_of CBS_get_u32
  "\<lambda>v. be_bytes 4 (unat v)" "\<lambda>_. True"
  unfolding CBS_get_u32_def
  by (rule canonical_be_number [where valid = "\<lambda>_. True"])
    (auto simp: ucast_word_of_nat unat_word_of_nat unat_less_32)

interpretation u64_codec: canonical_codec CBS_view wf_cbs cbs_of CBS_get_u64
  "\<lambda>v. be_bytes 8 (unat v)" "\<lambda>_. True"
  unfolding CBS_get_u64_def
  by (rule canonical_be_number [where n = 8 and valid = "\<lambda>_. True", of _ "\<lambda>v. v", unfolded obind_oret])
    (auto simp: unat_word_of_nat unat_less_64)

subsection \<open>Length-prefixed strings as codecs\<close>

definition as_view :: "(CBS, CBS) prog \<Rightarrow> (CBS, u8 list) prog" where
  "as_view p = obind p (\<lambda>out. oret (CBS_view out))"

lemma cbs_get_length_prefixed_eq:
  assumes "wf_cbs c" "n \<le> 3"
  shows "cbs_get_length_prefixed n c =
    (let len = be_val (take n (CBS_view c)) in
     if cbs_len c < n then (None, c)
     else if cbs_len c < n + len then (None, advance n c)
     else (Some (CBS_init (drop n (cbs_data c)) len), advance (n + len) c))"
proof (cases "cbs_len c < n")
  case False
  let ?len = "be_val (take n (CBS_view c))"
  have "?len < 256 ^ length (take n (CBS_view c))" by (rule be_val_less)
  also have "\<dots> \<le> (256::nat) ^ 3" using assms by (intro power_increasing) auto
  finally have "unat (word_of_nat ?len :: u64) = ?len" by (simp add: unat_word_of_nat)
  with False assms show ?thesis
    by (auto simp: cbs_get_length_prefixed_def obind_def cbs_get_u_eq CBS_get_bytes_eq Let_def
        advance_def add.commute)
next
  case True
  with assms show ?thesis by (simp add: cbs_get_length_prefixed_def obind_def cbs_get_u_eq)
qed

lemma canonical_length_prefixed:
  assumes n: "n \<le> 3"
  shows "canonical_codec CBS_view wf_cbs cbs_of (as_view (cbs_get_length_prefixed n))
    (\<lambda>xs. be_bytes n (length xs) @ xs) (\<lambda>xs. length xs < 256 ^ n)"
proof unfold_locales
  fix s rest and xs :: "u8 list"
  assume ok: "wf_cbs s" and xs: "length xs < 256 ^ n"
    and v: "CBS_view s = (be_bytes n (length xs) @ xs) @ rest"
  have l: "cbs_len s = n + length xs + length rest" using length_view [OF ok] v by simp
  have "be_val (take n (CBS_view s)) = length xs" using v xs by simp
  moreover have "CBS_view (CBS_init (drop n (cbs_data s)) (length xs)) = xs"
  proof -
    have "take (length xs) (drop n (CBS_view s)) = xs" using v by simp
    then show ?thesis using l by (simp add: CBS_view_def CBS_init_def drop_take min_absorb1)
  qed
  ultimately show "\<exists>s'. as_view (cbs_get_length_prefixed n) s = (Some xs, s') \<and>
      wf_cbs s' \<and> CBS_view s' = rest"
    using ok n l v
    by (simp add: as_view_def obind_def oret_def cbs_get_length_prefixed_eq Let_def)
next
  fix s s' and xs :: "u8 list"
  assume ok: "wf_cbs s" and r: "as_view (cbs_get_length_prefixed n) s = (Some xs, s')"
  let ?len = "be_val (take n (CBS_view s))"
  from r ok n have l: "n + ?len \<le> cbs_len s" and s': "s' = advance (n + ?len) s"
    and xs: "xs = CBS_view (CBS_init (drop n (cbs_data s)) ?len)"
    by (auto simp: as_view_def obind_def oret_def cbs_get_length_prefixed_eq Let_def
        split: if_splits)
  have xs': "xs = take ?len (drop n (CBS_view s))"
    using l xs by (simp add: CBS_view_def CBS_init_def drop_take min_absorb1)
  have lenv: "length (CBS_view s) = cbs_len s" using ok by simp
  have "length xs = ?len" using xs' l lenv by simp
  moreover have "?len < 256 ^ n"
    using be_val_less [of "take n (CBS_view s)"] l lenv by simp
  moreover have "be_bytes n ?len = take n (CBS_view s)"
    using l lenv by simp
  moreover have "CBS_view s = take n (CBS_view s) @ xs @ drop (n + ?len) (CBS_view s)"
    using xs' by (metis add.commute append_take_drop_id drop_drop)
  ultimately show "length xs < 256 ^ n \<and> wf_cbs s' \<and>
      CBS_view s = (be_bytes n (length xs) @ xs) @ CBS_view s'"
    using s' ok by simp
qed simp_all

interpretation u8_prefixed: canonical_codec CBS_view wf_cbs cbs_of
  "as_view CBS_get_u8_length_prefixed" "\<lambda>xs. be_bytes 1 (length xs) @ xs" "\<lambda>xs. length xs < 256 ^ 1"
  unfolding CBS_get_u8_length_prefixed_def by (rule canonical_length_prefixed) simp

interpretation u16_prefixed: canonical_codec CBS_view wf_cbs cbs_of
  "as_view CBS_get_u16_length_prefixed" "\<lambda>xs. be_bytes 2 (length xs) @ xs" "\<lambda>xs. length xs < 256 ^ 2"
  unfolding CBS_get_u16_length_prefixed_def by (rule canonical_length_prefixed) simp

interpretation u24_prefixed: canonical_codec CBS_view wf_cbs cbs_of
  "as_view CBS_get_u24_length_prefixed" "\<lambda>xs. be_bytes 3 (length xs) @ xs" "\<lambda>xs. length xs < 256 ^ 3"
  unfolding CBS_get_u24_length_prefixed_def by (rule canonical_length_prefixed) simp

subsection \<open>Little-endian reads\<close>

lemma be_bytes_16: "be_bytes 2 (unat (v :: u16)) = [ucast (drop_bit 8 v), ucast v]"
  using word_of_nat_drop_bit [of v 8] by (simp add: be_bytes_2)

lemma bswap2_bytes: "be_bytes 2 (unat (CRYPTO_bswap2 v)) = rev (be_bytes 2 (unat v))"
  unfolding be_bytes_16 CRYPTO_bswap2_def
  by (auto intro!: bit_word_eqI simp: bit_simps)

lemma be_bytes_32: "be_bytes 4 (unat (v :: u32)) =
    [ucast (drop_bit 24 v), ucast (drop_bit 16 v), ucast (drop_bit 8 v), ucast v]"
  using word_of_nat_drop_bit [of v 8] word_of_nat_drop_bit [of v 16] word_of_nat_drop_bit [of v 24]
  by (simp add: be_bytes_4)

lemma bswap4_bytes: "be_bytes 4 (unat (CRYPTO_bswap4 v)) = rev (be_bytes 4 (unat v))"
  unfolding be_bytes_32 CRYPTO_bswap4_def Let_def
  by (auto intro!: bit_word_eqI simp: bit_simps less_8_iff not_bit_32)

end
