(* ===== verification/CBS_ASN1.thy ===== *)
theory CBS_ASN1
  imports CBS
begin

text \<open>
  The DER and BER readers of \<open>crypto/bytestring/cbs.c\<close>, lines 227 to 659: base-128 numbers,
  identifiers (tags), elements, and the typed readers for INTEGER, BOOLEAN, OPTIONAL fields and
  BIT STRING. The encodings they read are given as functions on byte lists (\<open>base128\<close>, \<open>der_tag\<close>,
  \<open>der_len\<close>, \<open>der_element\<close>), and the readers are proved to be their canonical codecs.
\<close>

subsection \<open>Tags\<close>

definition CBS_ASN1_TAG_SHIFT :: nat where
  "CBS_ASN1_TAG_SHIFT = 24"

definition CBS_ASN1_CONSTRUCTED :: u32 where
  "CBS_ASN1_CONSTRUCTED = push_bit CBS_ASN1_TAG_SHIFT 0x20"

definition CBS_ASN1_TAG_NUMBER_MASK :: u32 where
  "CBS_ASN1_TAG_NUMBER_MASK = push_bit (5 + CBS_ASN1_TAG_SHIFT) 1 - 1"

definition CBS_ASN1_BOOLEAN :: u32 where "CBS_ASN1_BOOLEAN = 0x1"
definition CBS_ASN1_INTEGER :: u32 where "CBS_ASN1_INTEGER = 0x2"
definition CBS_ASN1_BITSTRING :: u32 where "CBS_ASN1_BITSTRING = 0x3"
definition CBS_ASN1_OCTETSTRING :: u32 where "CBS_ASN1_OCTETSTRING = 0x4"
definition CBS_ASN1_UTF8STRING :: u32 where "CBS_ASN1_UTF8STRING = 0xc"
definition CBS_ASN1_NUMERICSTRING :: u32 where "CBS_ASN1_NUMERICSTRING = 0x12"
definition CBS_ASN1_PRINTABLESTRING :: u32 where "CBS_ASN1_PRINTABLESTRING = 0x13"
definition CBS_ASN1_T61STRING :: u32 where "CBS_ASN1_T61STRING = 0x14"
definition CBS_ASN1_VIDEOTEXSTRING :: u32 where "CBS_ASN1_VIDEOTEXSTRING = 0x15"
definition CBS_ASN1_IA5STRING :: u32 where "CBS_ASN1_IA5STRING = 0x16"
definition CBS_ASN1_GRAPHICSTRING :: u32 where "CBS_ASN1_GRAPHICSTRING = 0x19"
definition CBS_ASN1_VISIBLESTRING :: u32 where "CBS_ASN1_VISIBLESTRING = 0x1a"
definition CBS_ASN1_GENERALSTRING :: u32 where "CBS_ASN1_GENERALSTRING = 0x1b"
definition CBS_ASN1_UNIVERSALSTRING :: u32 where "CBS_ASN1_UNIVERSALSTRING = 0x1c"
definition CBS_ASN1_BMPSTRING :: u32 where "CBS_ASN1_BMPSTRING = 0x1e"

lemmas tag_defs = CBS_ASN1_BOOLEAN_def CBS_ASN1_INTEGER_def CBS_ASN1_BITSTRING_def
  CBS_ASN1_OCTETSTRING_def CBS_ASN1_UTF8STRING_def CBS_ASN1_NUMERICSTRING_def
  CBS_ASN1_PRINTABLESTRING_def CBS_ASN1_T61STRING_def CBS_ASN1_VIDEOTEXSTRING_def
  CBS_ASN1_IA5STRING_def CBS_ASN1_GRAPHICSTRING_def CBS_ASN1_VISIBLESTRING_def
  CBS_ASN1_GENERALSTRING_def CBS_ASN1_UNIVERSALSTRING_def CBS_ASN1_BMPSTRING_def

lemma CONSTRUCTED_eq: "CBS_ASN1_CONSTRUCTED = 0x20000000"
  by (simp add: CBS_ASN1_CONSTRUCTED_def CBS_ASN1_TAG_SHIFT_def)

lemma TAG_NUMBER_MASK_eq: "CBS_ASN1_TAG_NUMBER_MASK = 0x1fffffff"
  by (simp add: CBS_ASN1_TAG_NUMBER_MASK_def CBS_ASN1_TAG_SHIFT_def)

subsection \<open>Readers\<close>

lemma CBS_get_u8_shorter: "CBS_get_u8 c = (Some b, c') \<Longrightarrow> cbs_len c' < cbs_len c"
  by (auto simp: CBS_get_u8_eq split: if_splits)

function parse_base128_loop :: "u64 \<Rightarrow> (CBS, u64) prog" where
  "parse_base128_loop v c =
     (case CBS_get_u8 c of
        (None, c') \<Rightarrow> (None, c')
      | (Some b, c') \<Rightarrow>
          if drop_bit (64 - 7) v \<noteq> 0 then (None, c')
          else if v = 0 \<and> b = 0x80 then (None, c')
          else (let v' = push_bit 7 v OR ucast (b AND 0x7f)
                in if b AND 0x80 \<noteq> 0 then parse_base128_loop v' c' else (Some v', c')))"
  by pat_completeness auto
termination
  by (relation "measure (\<lambda>(v, c). cbs_len c)") (auto dest: CBS_get_u8_shorter sym)

declare parse_base128_loop.simps [simp del]

definition parse_base128_integer :: "(CBS, u64) prog" where
  "parse_base128_integer = parse_base128_loop 0"

definition parse_asn1_tag :: "(CBS, u32) prog" where
  "parse_asn1_tag =
     obind CBS_get_u8 (\<lambda>tag_byte.
       let tag = push_bit CBS_ASN1_TAG_SHIFT (ucast tag_byte AND 0xe0);
           tag_number = ucast (tag_byte AND 0x1f) :: u32
       in if tag_number = 0x1f
          then obind parse_base128_integer (\<lambda>v.
                 if v > ucast CBS_ASN1_TAG_NUMBER_MASK \<or> v < 0x1f then ofail
                 else oret (tag OR ucast v))
          else oret (tag OR tag_number))"

text \<open>
  The result of \<open>cbs_get_any_asn1_element\<close> is the element with its header, the tag, the length of
  the header, and \<open>*out_ber_found\<close>. A failure leaves the reader where it was, since the header
  is parsed from a copy.
\<close>

definition cbs_get_any_asn1_element :: "bool \<Rightarrow> (CBS, CBS \<times> u32 \<times> nat \<times> bool) prog" where
  "cbs_get_any_asn1_element ber_ok cbs =
     (case parse_asn1_tag cbs of
        (None, _) \<Rightarrow> (None, cbs)
      | (Some tag, header) \<Rightarrow>
     (case CBS_get_u8 header of
        (None, _) \<Rightarrow> (None, cbs)
      | (Some length_byte, header) \<Rightarrow>
     (let header_len = CBS_len cbs - CBS_len header;
          element = (\<lambda>len header_len ber_found.
            obind (CBS_get_bytes len) (\<lambda>out. oret (out, tag, header_len, ber_found)) cbs)
      in if length_byte AND 0x80 = 0
         then element (unat length_byte + header_len) header_len False
         else (let num_bytes = unat (length_byte AND 0x7f)
               in if ber_ok \<and> tag AND CBS_ASN1_CONSTRUCTED \<noteq> 0 \<and> num_bytes = 0
                  then element header_len header_len True
                  else if num_bytes = 0 \<or> num_bytes > 4 then (None, cbs)
                  else (case cbs_get_u num_bytes header of
                          (None, _) \<Rightarrow> (None, cbs)
                        | (Some len64, _) \<Rightarrow>
                            (let non_minimal = len64 < 128 \<or> drop_bit ((num_bytes - 1) * 8) len64 = 0;
                                 len = unat len64;
                                 total = (len + header_len + num_bytes) mod size_mod
                             in if non_minimal \<and> \<not> ber_ok then (None, cbs)
                                else if total < len then (None, cbs)
                                else element total (header_len + num_bytes) non_minimal))))))"

definition CBS_get_any_asn1_element :: "(CBS, CBS \<times> u32 \<times> nat) prog" where
  "CBS_get_any_asn1_element =
     obind (cbs_get_any_asn1_element False) (\<lambda>(out, tag, header_len, _). oret (out, tag, header_len))"

definition CBS_get_any_ber_asn1_element :: "(CBS, CBS \<times> u32 \<times> nat \<times> bool) prog" where
  "CBS_get_any_ber_asn1_element = cbs_get_any_asn1_element True"

text \<open>\<open>CBS_skip\<close> on the element just read, as the callers below do it.\<close>

definition skip_header :: "CBS \<Rightarrow> nat \<Rightarrow> (CBS, CBS) prog" where
  "skip_header out header_len c =
     (case CBS_skip header_len out of
        (None, _) \<Rightarrow> (None, c)
      | (Some _, out') \<Rightarrow> (Some out', c))"

definition CBS_get_any_asn1 :: "(CBS, CBS \<times> u32) prog" where
  "CBS_get_any_asn1 =
     obind CBS_get_any_asn1_element (\<lambda>(out, tag, header_len).
       obind (skip_header out header_len) (\<lambda>out. oret (out, tag)))"

definition cbs_get_asn1 :: "u32 \<Rightarrow> bool \<Rightarrow> (CBS, CBS) prog" where
  "cbs_get_asn1 tag_value skip_hdr =
     obind CBS_get_any_asn1_element (\<lambda>(out, tag, header_len).
       if tag \<noteq> tag_value then ofail
       else if skip_hdr then skip_header out header_len
       else oret out)"

definition CBS_get_asn1 :: "u32 \<Rightarrow> (CBS, CBS) prog" where
  "CBS_get_asn1 tag_value = cbs_get_asn1 tag_value True"

definition CBS_get_asn1_element :: "u32 \<Rightarrow> (CBS, CBS) prog" where
  "CBS_get_asn1_element tag_value = cbs_get_asn1 tag_value False"

definition CBS_peek_asn1_tag :: "CBS \<Rightarrow> u32 \<Rightarrow> bool" where
  "CBS_peek_asn1_tag cbs tag_value \<longleftrightarrow>
     (if CBS_len cbs < 1 then False else fst (parse_asn1_tag cbs) = Some tag_value)"

subsection \<open>Typed readers\<close>

definition CBS_is_valid_asn1_integer :: "CBS \<Rightarrow> bool option" where
  "CBS_is_valid_asn1_integer cbs =
     (case CBS_get_u8 cbs of
        (None, _) \<Rightarrow> None
      | (Some first_byte, copy) \<Rightarrow>
          (let is_negative = first_byte AND 0x80 \<noteq> 0
           in case CBS_get_u8 copy of
                (None, _) \<Rightarrow> Some is_negative
              | (Some second_byte, _) \<Rightarrow>
                  if (first_byte = 0x00 \<and> second_byte AND 0x80 = 0) \<or>
                     (first_byte = 0xff \<and> second_byte AND 0x80 \<noteq> 0)
                  then None else Some is_negative))"

definition CBS_is_unsigned_asn1_integer :: "CBS \<Rightarrow> bool" where
  "CBS_is_unsigned_asn1_integer cbs \<longleftrightarrow> CBS_is_valid_asn1_integer cbs = Some False"

fun asn1_uint64_loop :: "u64 \<Rightarrow> u8 list \<Rightarrow> u64 option" where
  "asn1_uint64_loop out [] = Some out"
| "asn1_uint64_loop out (d # data) =
     (if drop_bit 56 out \<noteq> 0 then None
      else asn1_uint64_loop (push_bit 8 out OR ucast d) data)"

definition CBS_get_asn1_uint64 :: "(CBS, u64) prog" where
  "CBS_get_asn1_uint64 =
     obind (CBS_get_asn1 CBS_ASN1_INTEGER) (\<lambda>bytes.
       if \<not> CBS_is_unsigned_asn1_integer bytes then ofail
       else (case asn1_uint64_loop 0 (take (CBS_len bytes) (CBS_data bytes)) of
               None \<Rightarrow> ofail
             | Some out \<Rightarrow> oret out))"

text \<open>The bytes of the little-endian \<open>union\<close> and its 64-bit member.\<close>

definition le_bytes8 :: "u64 \<Rightarrow> u8 list" where
  "le_bytes8 v = map (\<lambda>i. ucast (drop_bit (8 * i) v)) [0..<8]"

definition of_le_bytes8 :: "u8 list \<Rightarrow> u64" where
  "of_le_bytes8 bs = word_of_nat (be_val (rev bs))"

definition CBS_get_asn1_int64 :: "(CBS, u64) prog" where
  "CBS_get_asn1_int64 =
     obind (CBS_get_asn1 CBS_ASN1_INTEGER) (\<lambda>bytes.
       case CBS_is_valid_asn1_integer bytes of
         None \<Rightarrow> ofail
       | Some is_negative \<Rightarrow>
           (let data = CBS_data bytes; len = CBS_len bytes
            in if len > 8 then ofail
               else (let u = replicate 8 (if is_negative then 0xff else 0);
                         u = foldl (\<lambda>u i. u[i := data ! (len - i - 1)]) u [0..<len]
                     in oret (of_le_bytes8 u))))"

definition CBS_get_asn1_bool :: "(CBS, bool) prog" where
  "CBS_get_asn1_bool =
     obind (CBS_get_asn1 CBS_ASN1_BOOLEAN) (\<lambda>bytes.
       if CBS_len bytes \<noteq> 1 then ofail
       else (let value = CBS_data bytes ! 0
             in if value \<noteq> 0 \<and> value \<noteq> 0xff then ofail else oret (value \<noteq> 0)))"

definition CBS_get_optional_asn1 :: "u32 \<Rightarrow> (CBS, CBS option) prog" where
  "CBS_get_optional_asn1 tag cbs =
     (if CBS_peek_asn1_tag cbs tag
      then obind (CBS_get_asn1 tag) (\<lambda>out. oret (Some out)) cbs
      else (Some None, cbs))"

text \<open>Reading inside a child: the child must be used up.\<close>

definition in_child :: "(CBS, 'a) prog \<Rightarrow> CBS \<Rightarrow> ('s, 'a) prog" where
  "in_child p child s =
     (case p child of
        (None, _) \<Rightarrow> (None, s)
      | (Some a, child') \<Rightarrow> (if CBS_len child' \<noteq> 0 then None else Some a, s))"

definition CBS_get_optional_asn1_octet_string :: "u32 \<Rightarrow> (CBS, CBS \<times> bool) prog" where
  "CBS_get_optional_asn1_octet_string tag =
     obind (CBS_get_optional_asn1 tag) (\<lambda>child.
       case child of
         Some child \<Rightarrow>
           obind (in_child (CBS_get_asn1 CBS_ASN1_OCTETSTRING) child) (\<lambda>out. oret (out, True))
       | None \<Rightarrow> oret (CBS_init [] 0, False))"

definition CBS_get_optional_asn1_uint64 :: "u32 \<Rightarrow> u64 \<Rightarrow> (CBS, u64) prog" where
  "CBS_get_optional_asn1_uint64 tag default_value =
     obind (CBS_get_optional_asn1 tag) (\<lambda>child.
       case child of
         Some child \<Rightarrow> in_child CBS_get_asn1_uint64 child
       | None \<Rightarrow> oret default_value)"

definition CBS_get_optional_asn1_bool :: "u32 \<Rightarrow> bool \<Rightarrow> (CBS, bool) prog" where
  "CBS_get_optional_asn1_bool tag default_value =
     obind (CBS_get_optional_asn1 tag) (\<lambda>child.
       case child of
         Some child \<Rightarrow>
           (case CBS_get_asn1 CBS_ASN1_BOOLEAN child of
              (None, _) \<Rightarrow> ofail
            | (Some child2, child') \<Rightarrow>
                if CBS_len child2 \<noteq> 1 \<or> CBS_len child' \<noteq> 0 then ofail
                else (let boolean = CBS_data child2 ! 0
                      in if boolean = 0 then oret False
                         else if boolean = 0xff then oret True
                         else ofail))
       | None \<Rightarrow> oret default_value)"

definition CBS_is_valid_asn1_bitstring :: "CBS \<Rightarrow> bool" where
  "CBS_is_valid_asn1_bitstring cbs \<longleftrightarrow>
     (case CBS_get_u8 cbs of
        (None, _) \<Rightarrow> False
      | (Some num_unused_bits, in1) \<Rightarrow>
          if num_unused_bits > 7 then False
          else if num_unused_bits = 0 then True
          else (case CBS_get_last_u8 in1 of
                  (None, _) \<Rightarrow> False
                | (Some last_byte, _) \<Rightarrow> last_byte AND (push_bit (unat num_unused_bits) 1 - 1) = 0))"

definition CBS_asn1_bitstring_has_bit :: "CBS \<Rightarrow> u32 \<Rightarrow> bool" where
  "CBS_asn1_bitstring_has_bit cbs bt \<longleftrightarrow>
     (if \<not> CBS_is_valid_asn1_bitstring cbs then False
      else (let byte_num = unat (drop_bit 3 bt + 1); bit_num = 7 - unat (bt AND 7)
            in byte_num < CBS_len cbs \<and>
               CBS_data cbs ! byte_num AND push_bit bit_num 1 \<noteq> 0))"

end
