(* ===== verification/CBB.thy ===== *)
theory CBB
  imports CBS_ASN1
begin

text \<open>
  The byte-string builder of \<open>crypto/bytestring/cbb.c\<close>, lines 26 to 588. A top-level \<open>CBB\<close> and the
  chain of its pending children (\<open>cbb->child\<close>, \<open>cbb->child->child\<close>, ...) share one buffer, so the
  state is the buffer with the chain, outermost child first. A \<open>CBB *\<close> argument is its depth \<open>d\<close> in
  the chain: 0 is the top level, \<open>d + 1\<close> the child of \<open>d\<close>. A child that has been flushed or
  discarded (its \<open>base\<close> is NULL in C) has a depth beyond the chain, and every operation on it fails
  as in C.

  A pointer into the buffer is an index. \<open>mall\<close> says which allocations succeed; a NULL \<open>buf\<close> is the
  empty list (\<open>OPENSSL_realloc\<close> treats both alike).
\<close>

record cbb_buffer_st =
  b_buf :: "u8 list"
  b_len :: nat
  b_cap :: nat
  b_can_resize :: bool
  b_error :: bool

record cbb_child =
  offset :: nat
  pending_len_len :: nat
  pending_is_asn1 :: bool

record CBB =
  base :: "cbb_buffer_st option"
  chain :: "cbb_child list"

definition CBB_zero :: CBB where
  "CBB_zero = \<lparr>base = None, chain = []\<rparr>"

definition sizeof_cbb_buffer_st :: nat where
  "sizeof_cbb_buffer_st = 32"

definition cbb_init :: "malloc \<Rightarrow> u8 list \<Rightarrow> nat \<Rightarrow> (CBB, unit) prog" where
  "cbb_init mall buf cap cbb =
     (case OPENSSL_malloc mall sizeof_cbb_buffer_st of
        None \<Rightarrow> (None, cbb)
      | Some _ \<Rightarrow>
          (Some (), cbb\<lparr>base := Some \<lparr>b_buf = buf, b_len = 0, b_cap = cap, b_can_resize = True,
                                     b_error = False\<rparr>\<rparr>))"

definition CBB_init :: "malloc \<Rightarrow> nat \<Rightarrow> (CBB, unit) prog" where
  "CBB_init mall initial_capacity _ =
     (let buf = OPENSSL_malloc mall initial_capacity
      in if initial_capacity > 0 \<and> buf = None then (None, CBB_zero)
         else cbb_init mall (case buf of None \<Rightarrow> [] | Some p \<Rightarrow> p) initial_capacity CBB_zero)"

definition CBB_init_fixed :: "malloc \<Rightarrow> u8 list \<Rightarrow> nat \<Rightarrow> (CBB, unit) prog" where
  "CBB_init_fixed mall buf len _ =
     (case cbb_init mall buf len CBB_zero of
        (None, cbb) \<Rightarrow> (None, cbb)
      | (Some _, cbb) \<Rightarrow> (Some (), cbb\<lparr>base := map_option (\<lambda>b. b\<lparr>b_can_resize := False\<rparr>) (base cbb)\<rparr>))"

definition CBB_cleanup :: "nat \<Rightarrow> CBB \<Rightarrow> CBB" where
  "CBB_cleanup d cbb = (if d > 0 then cbb else cbb\<lparr>base := None\<rparr>)"

subsection \<open>The buffer\<close>

definition b_fail :: "cbb_buffer_st \<Rightarrow> 'a option \<times> cbb_buffer_st" where
  "b_fail b = (None, b\<lparr>b_error := True\<rparr>)"

definition cbb_buffer_reserve :: "malloc \<Rightarrow> nat \<Rightarrow> (cbb_buffer_st, nat) prog" where
  "cbb_buffer_reserve mall len b =
     (let newlen = (b_len b + len) mod size_mod
      in if newlen < b_len b then b_fail b
         else if newlen > b_cap b
         then (if \<not> b_can_resize b then b_fail b
               else (let newcap = b_cap b * 2 mod size_mod;
                         newcap = (if newcap < b_cap b \<or> newcap < newlen then newlen else newcap)
                     in case OPENSSL_realloc mall (Some (b_buf b)) newcap of
                          None \<Rightarrow> b_fail b
                        | Some newbuf \<Rightarrow> (Some (b_len b), b\<lparr>b_buf := newbuf, b_cap := newcap\<rparr>)))
         else (Some (b_len b), b))"

definition cbb_buffer_add :: "malloc \<Rightarrow> nat \<Rightarrow> (cbb_buffer_st, nat) prog" where
  "cbb_buffer_add mall len =
     obind (cbb_buffer_reserve mall len) (\<lambda>out b. (Some out, b\<lparr>b_len := b_len b + len\<rparr>))"

text \<open>
  The loop \<open>for (i = n - 1; i < n; i--) { buf[i] = v; v >>= 8; }\<close>, with \<open>v\<close> as it leaves it.
\<close>

fun write_be :: "u8 list \<Rightarrow> nat \<Rightarrow> nat \<Rightarrow> nat \<Rightarrow> u8 list \<times> nat" where
  "write_be buf pos 0 v = (buf, v)"
| "write_be buf pos (Suc i) v = write_be (buf[pos + i := word_of_nat v]) pos i (v div 256)"

definition cbb_buffer_add_u :: "malloc \<Rightarrow> nat \<Rightarrow> nat \<Rightarrow> (cbb_buffer_st, unit) prog" where
  "cbb_buffer_add_u mall v len_len =
     (if len_len = 0 then oret ()
      else obind (cbb_buffer_add mall len_len) (\<lambda>pos b.
        case write_be (b_buf b) pos len_len v of
          (buf, v') \<Rightarrow>
            (let b = b\<lparr>b_buf := buf\<rparr>
             in if v' \<noteq> 0 then b_fail b else (Some (), b))))"

text \<open>\<open>memmove\<close> inside a buffer.\<close>

definition memmove :: "u8 list \<Rightarrow> nat \<Rightarrow> nat \<Rightarrow> nat \<Rightarrow> u8 list" where
  "memmove buf dst src n = store buf dst (take n (drop src buf))"

subsection \<open>Flushing\<close>

text \<open>
  The DER length of a child: the number of bytes of its length field, and the first of them. The
  remaining bytes are written by the common loop.
\<close>

definition asn1_len_len :: "nat \<Rightarrow> (nat \<times> u8 \<times> nat) option" where
  "asn1_len_len len =
     (if len > 0xfffffffe then None
      else if len > 0xffffff then Some (5, 0x80 OR 4, len)
      else if len > 0xffff then Some (4, 0x80 OR 3, len)
      else if len > 0xff then Some (3, 0x80 OR 2, len)
      else if len > 0x7f then Some (2, 0x80 OR 1, len)
      else Some (1, word_of_nat len, 0))"

text \<open>
  \<open>CBB_flush\<close> on the owner of the chain \<open>fs\<close>: the recursion into \<open>cbb->child\<close>, then the length of the
  child, moving its contents when the length needs more than the one byte that was left for it.
  (\<open>child->offset++\<close> and the new \<open>pending_len_len\<close> of a DER child are the arguments of
  \<open>write_length\<close>: the child is gone when it succeeds, and the buffer unusable when it fails.)
\<close>

definition write_length :: "cbb_child \<Rightarrow> nat \<Rightarrow> nat \<Rightarrow> nat \<Rightarrow> (cbb_buffer_st, unit) prog" where
  "write_length f pos n len b =
     (case write_be (b_buf b) pos n len of
        (buf, rest) \<Rightarrow>
          (let b = b\<lparr>b_buf := buf\<rparr>
           in if rest \<noteq> 0 then b_fail b else (Some (), b)))"

definition flush_asn1 :: "malloc \<Rightarrow> cbb_child \<Rightarrow> nat \<Rightarrow> nat \<Rightarrow> (cbb_buffer_st, unit) prog" where
  "flush_asn1 mall f child_start len b =
     (case asn1_len_len len of
        None \<Rightarrow> b_fail b
      | Some (len_len, initial_length_byte, len') \<Rightarrow>
          obind
            (\<lambda>b. if len_len \<noteq> 1
                 then (let extra_bytes = len_len - 1
                       in case cbb_buffer_add mall extra_bytes b of
                            (None, b) \<Rightarrow> b_fail b
                          | (Some _, b) \<Rightarrow>
                              (Some (), b\<lparr>b_buf := memmove (b_buf b) (child_start + extra_bytes) child_start len\<rparr>))
                 else (Some (), b))
            (\<lambda>_ b. write_length f (offset f + 1) (len_len - 1) len'
                     (b\<lparr>b_buf := (b_buf b)[offset f := initial_length_byte]\<rparr>)) b)"

fun flush_chain :: "malloc \<Rightarrow> cbb_child list \<Rightarrow> cbb_buffer_st \<Rightarrow> bool \<times> cbb_child list \<times> cbb_buffer_st" where
  "flush_chain mall [] b = (\<not> b_error b, [], b)"
| "flush_chain mall (f # fs) b =
     (if b_error b then (False, f # fs, b)
      else if pending_len_len f = 0 then (True, f # fs, b)
      else (let child_start = (offset f + pending_len_len f) mod size_mod
            in case flush_chain mall fs b of
                 (flushed, fs', b') \<Rightarrow>
                   if \<not> flushed \<or> child_start < offset f \<or> b_len b' < child_start
                   then (False, f # fs', b'\<lparr>b_error := True\<rparr>)
                   else (let len = b_len b' - child_start
                         in case (if pending_is_asn1 f then flush_asn1 mall f child_start len b'
                                  else write_length f (offset f) (pending_len_len f) len b') of
                              (None, b'') \<Rightarrow> (False, f # fs', b'')
                            | (Some _, b'') \<Rightarrow> (True, [], b''))))"

definition CBB_flush :: "malloc \<Rightarrow> nat \<Rightarrow> (CBB, unit) prog" where
  "CBB_flush mall d cbb =
     (case base cbb of
        None \<Rightarrow> (None, cbb)
      | Some b \<Rightarrow>
          if length (chain cbb) < d then (None, cbb)
          else (case flush_chain mall (drop d (chain cbb)) b of
                  (flushed, fs, b') \<Rightarrow>
                    (if flushed then Some () else None,
                     \<lparr>base = Some b', chain = take d (chain cbb) @ fs\<rparr>)))"

definition CBB_finish :: "malloc \<Rightarrow> nat \<Rightarrow> bool \<Rightarrow> bool \<Rightarrow> (CBB, u8 list option \<times> nat option) prog" where
  "CBB_finish mall d want_data want_len cbb =
     (if d > 0 then (None, cbb)
      else obind (CBB_flush mall 0) (\<lambda>_ cbb.
        case base cbb of
          None \<Rightarrow> (None, cbb)
        | Some b \<Rightarrow>
            if b_can_resize b \<and> (\<not> want_data \<or> \<not> want_len) then (None, cbb)
            else (Some (if want_data then Some (b_buf b) else None, if want_len then Some (b_len b) else None),
                  CBB_cleanup 0 (cbb\<lparr>base := Some (b\<lparr>b_buf := []\<rparr>)\<rparr>))) cbb)"

subsection \<open>Writing\<close>

text \<open>Running a buffer operation on \<open>cbb->base\<close>.\<close>

definition on_base :: "(cbb_buffer_st, 'a) prog \<Rightarrow> (CBB, 'a) prog" where
  "on_base p cbb =
     (case base cbb of
        None \<Rightarrow> (None, cbb)
      | Some b \<Rightarrow> (case p b of (r, b') \<Rightarrow> (r, cbb\<lparr>base := Some b'\<rparr>)))"

definition child_start_of :: "cbb_child list \<Rightarrow> nat \<Rightarrow> nat" where
  "child_start_of fs d =
     (case d of 0 \<Rightarrow> 0 | Suc i \<Rightarrow> offset (fs ! i) + pending_len_len (fs ! i))"

definition CBB_data :: "nat \<Rightarrow> CBB \<Rightarrow> u8 list" where
  "CBB_data d cbb = drop (child_start_of (chain cbb) d) (b_buf (the (base cbb)))"

definition CBB_len :: "nat \<Rightarrow> CBB \<Rightarrow> nat" where
  "CBB_len d cbb = b_len (the (base cbb)) - child_start_of (chain cbb) d"

text \<open>The new child of \<open>d\<close>, for which \<open>len_len\<close> bytes have been added.\<close>

definition push_child :: "nat \<Rightarrow> nat \<Rightarrow> bool \<Rightarrow> (CBB, unit) prog" where
  "push_child off len_len is_asn1 cbb =
     (Some (), cbb\<lparr>chain := chain cbb @
        [\<lparr>offset = off, pending_len_len = len_len, pending_is_asn1 = is_asn1\<rparr>]\<rparr>)"

definition cbb_add_length_prefixed :: "malloc \<Rightarrow> nat \<Rightarrow> nat \<Rightarrow> (CBB, unit) prog" where
  "cbb_add_length_prefixed mall d len_len =
     othen (CBB_flush mall d)
       (obind (on_base (cbb_buffer_add mall len_len)) (\<lambda>off.
          othen (on_base (\<lambda>b. (Some (), b\<lparr>b_buf := store (b_buf b) off (replicate len_len 0)\<rparr>)))
            (push_child off len_len False)))"

definition CBB_add_u8_length_prefixed :: "malloc \<Rightarrow> nat \<Rightarrow> (CBB, unit) prog" where
  "CBB_add_u8_length_prefixed mall d = cbb_add_length_prefixed mall d 1"

definition CBB_add_u16_length_prefixed :: "malloc \<Rightarrow> nat \<Rightarrow> (CBB, unit) prog" where
  "CBB_add_u16_length_prefixed mall d = cbb_add_length_prefixed mall d 2"

definition CBB_add_u24_length_prefixed :: "malloc \<Rightarrow> nat \<Rightarrow> (CBB, unit) prog" where
  "CBB_add_u24_length_prefixed mall d = cbb_add_length_prefixed mall d 3"

definition CBB_add_bytes :: "malloc \<Rightarrow> nat \<Rightarrow> u8 list \<Rightarrow> nat \<Rightarrow> (CBB, unit) prog" where
  "CBB_add_bytes mall d data len =
     othen (CBB_flush mall d)
       (obind (on_base (cbb_buffer_add mall len)) (\<lambda>dest.
          on_base (\<lambda>b. (Some (), b\<lparr>b_buf := store (b_buf b) dest (take len data)\<rparr>))))"

definition CBB_add_space :: "malloc \<Rightarrow> nat \<Rightarrow> nat \<Rightarrow> (CBB, nat) prog" where
  "CBB_add_space mall d len = othen (CBB_flush mall d) (on_base (cbb_buffer_add mall len))"

definition CBB_add_zeros :: "malloc \<Rightarrow> nat \<Rightarrow> nat \<Rightarrow> (CBB, unit) prog" where
  "CBB_add_zeros mall d len =
     obind (CBB_add_space mall d len) (\<lambda>out.
       on_base (\<lambda>b. (Some (), b\<lparr>b_buf := store (b_buf b) out (replicate len 0)\<rparr>)))"

definition CBB_reserve :: "malloc \<Rightarrow> nat \<Rightarrow> nat \<Rightarrow> (CBB, nat) prog" where
  "CBB_reserve mall d len = othen (CBB_flush mall d) (on_base (cbb_buffer_reserve mall len))"

definition CBB_did_write :: "nat \<Rightarrow> nat \<Rightarrow> (CBB, unit) prog" where
  "CBB_did_write d len cbb =
     on_base (\<lambda>b.
       let newlen = (b_len b + len) mod size_mod
       in if length (chain cbb) > d \<or> newlen < b_len b \<or> newlen > b_cap b then (None, b)
          else (Some (), b\<lparr>b_len := newlen\<rparr>)) cbb"

definition cbb_add_u :: "malloc \<Rightarrow> nat \<Rightarrow> nat \<Rightarrow> nat \<Rightarrow> (CBB, unit) prog" where
  "cbb_add_u mall d v len_len = othen (CBB_flush mall d) (on_base (cbb_buffer_add_u mall v len_len))"

definition CBB_add_u8 :: "malloc \<Rightarrow> nat \<Rightarrow> u8 \<Rightarrow> (CBB, unit) prog" where
  "CBB_add_u8 mall d value = cbb_add_u mall d (unat value) 1"

definition CBB_add_u16 :: "malloc \<Rightarrow> nat \<Rightarrow> u16 \<Rightarrow> (CBB, unit) prog" where
  "CBB_add_u16 mall d value = cbb_add_u mall d (unat value) 2"

definition CBB_add_u16le :: "malloc \<Rightarrow> nat \<Rightarrow> u16 \<Rightarrow> (CBB, unit) prog" where
  "CBB_add_u16le mall d value = CBB_add_u16 mall d (CRYPTO_bswap2 value)"

definition CBB_add_u24 :: "malloc \<Rightarrow> nat \<Rightarrow> u32 \<Rightarrow> (CBB, unit) prog" where
  "CBB_add_u24 mall d value = cbb_add_u mall d (unat value) 3"

definition CBB_add_u32 :: "malloc \<Rightarrow> nat \<Rightarrow> u32 \<Rightarrow> (CBB, unit) prog" where
  "CBB_add_u32 mall d value = cbb_add_u mall d (unat value) 4"

definition CBB_add_u32le :: "malloc \<Rightarrow> nat \<Rightarrow> u32 \<Rightarrow> (CBB, unit) prog" where
  "CBB_add_u32le mall d value = CBB_add_u32 mall d (CRYPTO_bswap4 value)"

definition CBB_add_u64 :: "malloc \<Rightarrow> nat \<Rightarrow> u64 \<Rightarrow> (CBB, unit) prog" where
  "CBB_add_u64 mall d value = cbb_add_u mall d (unat value) 8"

definition CBB_add_u64le :: "malloc \<Rightarrow> nat \<Rightarrow> u64 \<Rightarrow> (CBB, unit) prog" where
  "CBB_add_u64le mall d value = CBB_add_u64 mall d (CRYPTO_bswap8 value)"

definition CBB_discard_child :: "nat \<Rightarrow> CBB \<Rightarrow> CBB" where
  "CBB_discard_child d cbb =
     (if length (chain cbb) \<le> d then cbb
      else \<lparr>base = map_option (\<lambda>b. b\<lparr>b_len := offset (chain cbb ! d)\<rparr>) (base cbb),
            chain = take d (chain cbb)\<rparr>)"

subsection \<open>DER\<close>

function base128_len :: "u64 \<Rightarrow> nat" where
  "base128_len copy = (if copy = 0 then 0 else Suc (base128_len (drop_bit 7 copy)))"
  by pat_completeness auto
termination
  by (relation "measure unat") (auto simp: unat_drop_bit word_unat_eq_iff)

declare base128_len.simps [simp del]

fun add_base128_loop :: "malloc \<Rightarrow> nat \<Rightarrow> u64 \<Rightarrow> nat \<Rightarrow> (CBB, unit) prog" where
  "add_base128_loop mall d v 0 = oret ()"
| "add_base128_loop mall d v (Suc i) =
     (let byte = ucast (drop_bit (7 * i) v) AND 0x7f;
          byte = (if i \<noteq> 0 then byte OR 0x80 else byte)
      in othen (CBB_add_u8 mall d byte) (add_base128_loop mall d v i))"

definition add_base128_integer :: "malloc \<Rightarrow> nat \<Rightarrow> u64 \<Rightarrow> (CBB, unit) prog" where
  "add_base128_integer mall d v =
     (let len_len = base128_len v
      in add_base128_loop mall d v (if len_len = 0 then 1 else len_len))"

definition CBB_add_asn1 :: "malloc \<Rightarrow> nat \<Rightarrow> u32 \<Rightarrow> (CBB, unit) prog" where
  "CBB_add_asn1 mall d tag =
     othen (CBB_flush mall d)
       (let tag_bits = ucast (drop_bit CBS_ASN1_TAG_SHIFT tag) AND 0xe0 :: u8;
            tag_number = tag AND CBS_ASN1_TAG_NUMBER_MASK
        in othen
             (if tag_number \<ge> 0x1f
              then othen (CBB_add_u8 mall d (tag_bits OR 0x1f)) (add_base128_integer mall d (ucast tag_number))
              else CBB_add_u8 mall d (tag_bits OR ucast tag_number))
             (obind (\<lambda>cbb. (map_option b_len (base cbb), cbb)) (\<lambda>off.
                othen (CBB_add_u8 mall d 0) (push_child off 1 True))))"

fun asn1_uint64_bytes :: "malloc \<Rightarrow> nat \<Rightarrow> u64 \<Rightarrow> bool \<Rightarrow> nat list \<Rightarrow> (CBB, bool) prog" where
  "asn1_uint64_bytes mall d value started [] = oret started"
| "asn1_uint64_bytes mall d value started (i # is) =
     (let byte = ucast (drop_bit (8 * (7 - i)) value AND 0xff) :: u8
      in if \<not> started \<and> byte = 0 then asn1_uint64_bytes mall d value started is
         else othen (if \<not> started \<and> byte AND 0x80 \<noteq> 0 then CBB_add_u8 mall d 0 else oret ())
                (othen (CBB_add_u8 mall d byte) (asn1_uint64_bytes mall d value True is)))"

definition CBB_add_asn1_uint64 :: "malloc \<Rightarrow> nat \<Rightarrow> u64 \<Rightarrow> (CBB, unit) prog" where
  "CBB_add_asn1_uint64 mall d value =
     othen (CBB_add_asn1 mall d CBS_ASN1_INTEGER)
       (obind (asn1_uint64_bytes mall (d + 1) value False [0..<8]) (\<lambda>started.
          othen (if \<not> started then CBB_add_u8 mall (d + 1) 0 else oret ()) (CBB_flush mall d)))"

fun skip_sign_bytes :: "u8 list \<Rightarrow> nat \<Rightarrow> nat" where
  "skip_sign_bytes bytes 0 = 0"
| "skip_sign_bytes bytes (Suc s) =
     (if bytes ! Suc s = 0xff \<and> bytes ! s AND 0x80 \<noteq> 0 then skip_sign_bytes bytes s else Suc s)"

fun add_bytes_down :: "malloc \<Rightarrow> nat \<Rightarrow> u8 list \<Rightarrow> nat \<Rightarrow> (CBB, unit) prog" where
  "add_bytes_down mall d bytes 0 = CBB_add_u8 mall d (bytes ! 0)"
| "add_bytes_down mall d bytes (Suc i) =
     othen (CBB_add_u8 mall d (bytes ! Suc i)) (add_bytes_down mall d bytes i)"

definition CBB_add_asn1_int64 :: "malloc \<Rightarrow> nat \<Rightarrow> u64 \<Rightarrow> (CBB, unit) prog" where
  "CBB_add_asn1_int64 mall d value =
     (if sint value \<ge> 0 then CBB_add_asn1_uint64 mall d value
      else (let bytes = le_bytes8 value; start = skip_sign_bytes bytes 7
            in othen (CBB_add_asn1 mall d CBS_ASN1_INTEGER)
                 (othen (add_bytes_down mall (d + 1) bytes start) (CBB_flush mall d))))"

definition CBB_add_asn1_octet_string :: "malloc \<Rightarrow> nat \<Rightarrow> u8 list \<Rightarrow> nat \<Rightarrow> (CBB, unit) prog" where
  "CBB_add_asn1_octet_string mall d data data_len =
     othen (CBB_add_asn1 mall d CBS_ASN1_OCTETSTRING)
       (othen (CBB_add_bytes mall (d + 1) data data_len) (CBB_flush mall d))"

definition CBB_add_asn1_bool :: "malloc \<Rightarrow> nat \<Rightarrow> bool \<Rightarrow> (CBB, unit) prog" where
  "CBB_add_asn1_bool mall d value =
     othen (CBB_add_asn1 mall d CBS_ASN1_BOOLEAN)
       (othen (CBB_add_u8 mall (d + 1) (if value then 0xff else 0)) (CBB_flush mall d))"

end
