(* ===== verification/DER_Codec.thy ===== *)
theory DER_Codec
  imports CBS_ASN1
begin

text \<open>
  The encodings that the DER readers accept, written as functions from values to byte lists, and the
  proof that the readers are their canonical codecs: \<open>parse_base128_integer\<close> of \<open>base128\<close>,
  \<open>parse_asn1_tag\<close> of \<open>der_tag\<close>, \<open>CBS_get_any_asn1\<close> of \<open>der_element\<close>.
\<close>

subsection \<open>Base-128 numbers\<close>

fun b128_hi :: "nat \<Rightarrow> u8 list" where
  "b128_hi v = (if v = 0 then [] else b128_hi (v div 128) @ [word_of_nat (v mod 128 + 128)])"

declare b128_hi.simps [simp del]

definition base128 :: "nat \<Rightarrow> u8 list" where
  "base128 v = b128_hi (v div 128) @ [word_of_nat (v mod 128)]"

lemma b128_hi_0 [simp]: "b128_hi 0 = []"
  by (simp add: b128_hi.simps)

lemma b128_hi_pos: "0 < v \<Longrightarrow> b128_hi v = b128_hi (v div 128) @ [word_of_nat (v mod 128 + 128)]"
  by (simp add: b128_hi.simps [of v])

lemma and_0x7f: "unat (b AND 0x7f :: u8) = unat b mod 128"
  using unat_and_mask [of b 7] by (simp add: mask_eq_exp_minus_1)

lemma bit_unat: "bit (v :: 'a::len word) n \<longleftrightarrow> odd (unat v div 2 ^ n)"
proof -
  have "bit v n \<longleftrightarrow> bit (unat v) n"
    by (auto simp: bit_unsigned_iff)
  then show ?thesis by (simp only: bit_iff_odd)
qed

lemma and_0x80: "(b AND 0x80 :: u8) \<noteq> 0 \<longleftrightarrow> 128 \<le> unat b"
proof -
  have "(b AND 0x80 :: u8) \<noteq> 0 \<longleftrightarrow> bit b 7"
    using and_exp_eq_0_iff_not_bit [of b 7] by simp
  moreover have "odd (n div 128) \<longleftrightarrow> 128 \<le> n" if "n < 256" for n :: nat
  proof (cases "128 \<le> n")
    case True
    then have "n div 128 = 1" using that by (intro div_nat_eqI) auto
    with True show ?thesis by simp
  qed simp
  ultimately show ?thesis
    using unat_less_256 [of b] by (simp add: bit_unat)
qed

lemma mod_128: "128 \<le> n \<Longrightarrow> n < 256 \<Longrightarrow> n mod 128 + 128 = (n :: nat)"
  by (auto simp: le_iff_add)

lemma get_u8_view: "wf_cbs c \<Longrightarrow> CBS_view c = b # rest \<Longrightarrow> CBS_get_u8 c = (Some b, advance 1 c)"
  using length_view [of c] by (auto simp: CBS_get_u8_eq)

lemma get_u8_sound:
  assumes "wf_cbs c" "CBS_get_u8 c = (Some b, c')"
  shows "CBS_view c = b # CBS_view c'" "wf_cbs c'" "c' = advance 1 c"
  using u8_codec.read_sound [OF assms] assms(2) by (auto simp: CBS_get_u8_eq split: if_splits)

lemma parse_base128_more:
  assumes "CBS_get_u8 c = (Some b, d)" "drop_bit 57 v = 0" "\<not> (v = 0 \<and> b = 0x80)" "b AND 0x80 \<noteq> 0"
  shows "parse_base128_loop v c = parse_base128_loop (push_bit 7 v OR ucast (b AND 0x7f)) d"
  using assms by (subst parse_base128_loop.simps) auto

lemma parse_base128_last:
  assumes "CBS_get_u8 c = (Some b, d)" "drop_bit 57 v = 0" "\<not> (v = 0 \<and> b = 0x80)" "b AND 0x80 = 0"
  shows "parse_base128_loop v c = (Some (push_bit 7 v OR ucast (b AND 0x7f)), d)"
  using assms by (subst parse_base128_loop.simps) simp

lemma parse_base128_hi:
  assumes "wf_cbs c" "CBS_view c = b128_hi n @ rest" "n < 2 ^ 57"
  shows "parse_base128_loop 0 c =
    parse_base128_loop (word_of_nat n) (advance (length (b128_hi n)) c)"
  using assms
proof (induction n arbitrary: rest rule: b128_hi.induct)
  case (1 n)
  show ?case
  proof (cases "n = 0")
    case False
    define b :: u8 where "b = word_of_nat (n mod 128 + 128)"
    let ?c = "advance (length (b128_hi (n div 128))) c"
    have hi: "b128_hi n = b128_hi (n div 128) @ [b]" using False by (simp add: b128_hi_pos b_def)
    have view: "CBS_view c = b128_hi (n div 128) @ b # rest" using 1 hi by simp
    have bound: "n div 128 < 2 ^ 50" using 1 by simp
    then have IH: "parse_base128_loop 0 c = parse_base128_loop (word_of_nat (n div 128)) ?c"
      using 1(1) [OF False \<open>wf_cbs c\<close> view] by simp
    have b: "unat b = n mod 128 + 128" unfolding b_def unat_word_of_nat by simp
    have acc: "unat (word_of_nat (n div 128) :: u64) = n div 128"
      using bound by (simp add: unat_word_of_nat)
    have get: "CBS_get_u8 ?c = (Some b, advance 1 ?c)"
      by (rule get_u8_view) (use \<open>wf_cbs c\<close> view in auto)
    have v': "push_bit 7 (word_of_nat (n div 128)) OR ucast (b AND 0x7f) = (word_of_nat n :: u64)"
    proof -
      have low: "unat (ucast (b AND 0x7f) :: u64) = n mod 128"
        by (simp add: unat_ucast_up and_0x7f b)
      have "unat (push_bit 7 (word_of_nat (n div 128)) OR ucast (b AND 0x7f) :: u64) =
          n div 128 * 2 ^ 7 + n mod 128"
        using unat_or_push_bit [of "ucast (b AND 0x7f) :: u64" 7 "word_of_nat (n div 128)"]
          acc low bound by simp
      also have "\<dots> = n" by simp
      finally show ?thesis by (metis word_of_nat_unat)
    qed
    have ok: "\<not> drop_bit 57 (word_of_nat (n div 128) :: u64) \<noteq> 0"
      using bound acc by (simp add: word_unat_eq_iff unat_drop_bit)
    have min: "\<not> ((word_of_nat (n div 128) :: u64) = 0 \<and> b = 0x80)"
    proof
      assume *: "(word_of_nat (n div 128) :: u64) = 0 \<and> b = 0x80"
      then have "n div 128 = 0" using acc by simp
      moreover have "n mod 128 = 0" using * b by simp
      ultimately show False using False by (metis div_mult_mod_eq mult_0 add_0)
    qed
    have more: "b AND 0x80 \<noteq> 0" by (simp add: and_0x80 b)
    have "parse_base128_loop 0 c = parse_base128_loop (word_of_nat n) (advance 1 ?c)"
      unfolding IH using parse_base128_more [OF get _ min more] ok v' by simp
    then show ?thesis using hi by simp
  qed simp
qed

lemma parse_base128_step:
  fixes v :: u64
  assumes "drop_bit 57 v = 0"
  shows "unat (push_bit 7 v OR ucast (b AND 0x7f :: u8)) = unat v * 128 + unat b mod 128"
proof -
  have low: "unat (ucast (b AND 0x7f :: u8) :: u64) = unat b mod 128"
    by (simp add: unat_ucast_up and_0x7f)
  have "unat v div 2 ^ 57 = 0" using assms unat_drop_bit [of 57 v] by simp
  then have "unat v < 2 ^ 57" by (simp add: div_eq_0_iff)
  moreover have "unat b mod 128 < 128" by simp
  ultimately show ?thesis
    using unat_or_push_bit [of "ucast (b AND 0x7f :: u8) :: u64" 7 v] low by simp
qed

lemma parse_base128_complete:
  assumes "wf_cbs c" "CBS_view c = base128 (unat v) @ rest"
  shows "\<exists>c'. parse_base128_integer c = (Some v, c') \<and> wf_cbs c' \<and> CBS_view c' = rest"
proof -
  let ?n = "unat v"
  define b :: u8 where "b = word_of_nat (?n mod 128)"
  let ?c = "advance (length (b128_hi (?n div 128))) c"
  have view: "CBS_view c = b128_hi (?n div 128) @ b # rest" using assms(2) by (simp add: base128_def b_def)
  have bound: "?n div 128 < 2 ^ 57" using unat_less_64 [of v] by simp
  have hi: "parse_base128_integer c = parse_base128_loop (word_of_nat (?n div 128)) ?c"
    unfolding parse_base128_integer_def by (rule parse_base128_hi [OF assms(1) view bound])
  have wf: "wf_cbs ?c" and vc: "CBS_view ?c = b # rest" using assms(1) view by simp_all
  have acc: "unat (word_of_nat (?n div 128) :: u64) = ?n div 128"
    using bound by (simp only: unat_word_of_nat) simp
  have b: "unat b = ?n mod 128" unfolding b_def unat_word_of_nat by simp
  have ok: "drop_bit 57 (word_of_nat (?n div 128) :: u64) = 0"
    using bound acc by (simp add: word_unat_eq_iff unat_drop_bit)
  have "b \<noteq> 0x80"
  proof
    assume "b = 0x80"
    then have "unat b = 128" by simp
    moreover have "?n mod 128 < 128" by simp
    ultimately show False using b by simp
  qed
  moreover have "\<not> b AND 0x80 \<noteq> 0" by (simp add: and_0x80 b)
  moreover have "push_bit 7 (word_of_nat (?n div 128)) OR ucast (b AND 0x7f) = v"
  proof -
    have "unat (push_bit 7 (word_of_nat (?n div 128)) OR ucast (b AND 0x7f) :: u64) = ?n"
      using parse_base128_step [OF ok, of b] acc b by simp
    then show ?thesis by (simp only: word_unat_eq_iff)
  qed
  ultimately have "parse_base128_loop (word_of_nat (?n div 128)) ?c = (Some v, advance 1 ?c)"
    using parse_base128_last [OF get_u8_view [OF wf vc] ok] by simp
  moreover have "wf_cbs (advance 1 ?c)" "CBS_view (advance 1 ?c) = rest"
    using wf_advance [OF wf, of 1] view_advance [of 1 ?c] vc by (simp_all del: advance_advance view_advance)
  ultimately show ?thesis using hi by (metis (no_types))
qed

lemma parse_base128_sound:
  "parse_base128_loop v c = (Some r, c') \<Longrightarrow> wf_cbs c \<Longrightarrow>
   wf_cbs c' \<and> b128_hi (unat v) @ CBS_view c = base128 (unat r) @ CBS_view c'"
proof (induction v c rule: parse_base128_loop.induct)
  case (1 v c)
  from "1.prems" obtain b d where get: "CBS_get_u8 c = (Some b, d)"
    by (subst (asm) parse_base128_loop.simps) (auto split: prod.splits option.splits)
  note snd = get_u8_sound [OF "1.prems"(2) get]
  let ?v = "push_bit 7 v OR ucast (b AND 0x7f)"
  from "1.prems"(1) get have ok: "drop_bit 57 v = 0" and min: "\<not> (v = 0 \<and> b = 0x80)"
    by (subst (asm) parse_base128_loop.simps, auto split: if_splits)+
  have val: "unat ?v = unat v * 128 + unat b mod 128" using parse_base128_step [OF ok] .
  show ?case
  proof (cases "b AND 0x80 \<noteq> 0")
    case True
    then have b: "128 \<le> unat b" by (simp only: and_0x80)
    then have low: "unat b mod 128 + 128 = unat b"
      using unat_less_256 [of b] by (rule mod_128)
    have "unat ?v \<noteq> 0"
    proof
      assume 0: "unat ?v = 0"
      then have "v = 0" "unat b mod 128 = 0" using val by (simp_all add: unat_eq_0)
      then show False using min low by (simp add: word_unat_eq_iff)
    qed
    then have "b128_hi (unat ?v) = b128_hi (unat v) @ [b]"
      using val low by (simp add: b128_hi_pos)
    moreover have "parse_base128_loop ?v d = (Some r, c')"
      using "1.prems"(1) parse_base128_more [OF get ok min True] by simp
    moreover have "wf_cbs d" using snd by simp
    ultimately show ?thesis
      using "1.IH" [OF get [symmetric] refl _ _ refl] get ok min True snd(1) by simp
  next
    case False
    then have "unat b < 128" using and_0x80 [of b] by simp
    then have "unat ?v div 128 = unat v" "unat ?v mod 128 = unat b" using val by simp_all
    moreover have "r = ?v" "c' = d"
      using "1.prems"(1) parse_base128_last [OF get ok min] False by simp_all
    ultimately show ?thesis using snd by (simp add: base128_def)
  qed
qed

interpretation base128_codec: canonical_codec CBS_view wf_cbs cbs_of parse_base128_integer
  "\<lambda>v. base128 (unat v)" "\<lambda>_. True"
  by unfold_locales
    (auto dest: parse_base128_complete parse_base128_sound simp: parse_base128_integer_def)

subsection \<open>Tags\<close>

definition der_tag :: "u32 \<Rightarrow> u8 list" where
  "der_tag tag =
     (let tag_bits = ucast (drop_bit CBS_ASN1_TAG_SHIFT tag) AND 0xe0 :: u8;
          tag_number = tag AND CBS_ASN1_TAG_NUMBER_MASK
      in if tag_number \<ge> 0x1f then (tag_bits OR 0x1f) # base128 (unat tag_number)
         else [tag_bits OR ucast tag_number])"

lemma mask_consts:
  "(0x1f :: u8) = mask 5" "(0xe0 :: u8) = NOT (mask 5)" "(0xe0 :: u32) = push_bit 5 (mask 3)"
  "(0x1fffffff :: u32) = mask 29"
  by (simp_all add: mask_eq_exp_minus_1)

definition tag_bits :: "u32 \<Rightarrow> u8" where
  "tag_bits tag = ucast (drop_bit 24 tag) AND NOT (mask 5)"

lemma der_tag_eq:
  "der_tag tag =
     (if 31 \<le> unat (tag AND mask 29)
      then (tag_bits tag OR mask 5) # base128 (unat (tag AND mask 29))
      else [tag_bits tag OR ucast (tag AND mask 29)])"
  by (simp add: der_tag_def Let_def CBS_ASN1_TAG_SHIFT_def TAG_NUMBER_MASK_eq tag_bits_def
      mask_consts word_le_nat_alt)

lemma parse_asn1_tag_eq:
  "parse_asn1_tag =
     obind CBS_get_u8 (\<lambda>b.
       let tag = push_bit 24 (ucast (b AND NOT (mask 5)));
           k = b AND mask 5
       in if k = mask 5
          then obind parse_base128_integer (\<lambda>v.
                 if unat v \<ge> 2 ^ 29 \<or> unat v < 31 then ofail else oret (tag OR ucast v))
          else oret (tag OR ucast k))"
proof -
  have 1: "ucast b AND 0xe0 = (ucast (b AND NOT (mask 5)) :: u32)" for b :: u8
    by (rule bit_word_eqI) (auto simp: mask_consts bit_simps)
  have 2: "ucast (b AND 0x1f) = (0x1f :: u32) \<longleftrightarrow> b AND mask 5 = mask 5" for b :: u8
    by (simp add: mask_consts(1) word_unat_eq_iff unat_ucast_up) (simp add: mask_eq_exp_minus_1)
  have 3: "(v > ucast (0x1fffffff :: u32) \<or> v < 0x1f) \<longleftrightarrow> unat v \<ge> 2 ^ 29 \<or> unat v < 31" for v :: u64
    by (auto simp: word_less_nat_alt unat_ucast_up)
  show ?thesis
    unfolding parse_asn1_tag_def Let_def TAG_NUMBER_MASK_eq CBS_ASN1_TAG_SHIFT_def 1 2 3
    by (simp only: mask_consts(1) Let_def)
qed

lemma tag_split:
  "push_bit 24 (ucast (tag_bits tag)) OR (tag AND mask 29) = tag"
  by (rule bit_word_eqI) (auto simp: tag_bits_def bit_simps)

lemma tag_bits_and:
  "k AND NOT (mask 5) = 0 \<Longrightarrow> (tag_bits tag OR k) AND NOT (mask 5) = tag_bits tag"
  "k AND NOT (mask 5) = 0 \<Longrightarrow> (tag_bits tag OR k) AND mask 5 = k"
  by (auto simp: tag_bits_def bit_eq_iff bit_simps)

lemma high_bits_zero:
  fixes n :: "'a::len word"
  assumes "unat n < 2 ^ k" "k \<le> i"
  shows "\<not> bit n i"
proof -
  have "(2::nat) ^ k \<le> 2 ^ i" using assms(2) by simp
  then have "unat n div 2 ^ i = 0" using assms(1) by (metis div_less order_less_le_trans)
  then show ?thesis by (simp add: bit_unat)
qed

lemma tag_bits_join:
  fixes n :: u32
  assumes "unat n < 2 ^ 29"
  shows "tag_bits (push_bit 24 (ucast (b AND NOT (mask 5))) OR n) = b AND NOT (mask 5)"
    and "(push_bit 24 (ucast (b AND NOT (mask 5) :: u8)) OR n) AND mask 29 = n"
proof -
  have n: "29 \<le> i \<Longrightarrow> \<not> bit n i" for i by (rule high_bits_zero [OF assms])
  show "tag_bits (push_bit 24 (ucast (b AND NOT (mask 5))) OR n) = b AND NOT (mask 5)"
    by (rule bit_word_eqI) (auto simp: tag_bits_def bit_simps n)
  show "(push_bit 24 (ucast (b AND NOT (mask 5) :: u8)) OR n) AND mask 29 = n"
    by (rule bit_word_eqI) (use n in \<open>auto simp: bit_simps not_less intro: ccontr\<close>)
qed

lemma byte_split: "(b AND NOT (mask 5)) OR (b AND mask 5) = (b :: u8)"
  by (rule bit_word_eqI) (auto simp: bit_simps)

interpretation tag_codec: canonical_codec CBS_view wf_cbs cbs_of parse_asn1_tag der_tag "\<lambda>_. True"
proof unfold_locales
  fix s rest and tag :: u32
  assume wf: "wf_cbs s" and view: "CBS_view s = der_tag tag @ rest"
  let ?n = "tag AND mask 29"
  have n: "unat ?n < 2 ^ 29" by (simp add: unat_and_mask)
  show "\<exists>s'. parse_asn1_tag s = (Some tag, s') \<and> wf_cbs s' \<and> CBS_view s' = rest"
  proof (cases "31 \<le> unat ?n")
    case True
    let ?b = "tag_bits tag OR mask 5"
    have b: "?b AND NOT (mask 5) = tag_bits tag" "?b AND mask 5 = mask 5"
      by (simp_all add: tag_bits_and)
    have v: "CBS_view s = ?b # base128 (unat ?n) @ rest" using view True by (simp add: der_tag_eq)
    have u: "unat (ucast ?n :: u64) = unat ?n" by (simp add: unat_ucast_up)
    have "CBS_view (advance 1 s) = base128 (unat (ucast ?n :: u64)) @ rest" using v u by simp
    then obtain s' where s': "parse_base128_integer (advance 1 s) = (Some (ucast ?n), s')"
      "wf_cbs s'" "CBS_view s' = rest"
      using parse_base128_complete [of "advance 1 s" "ucast ?n"] wf by auto
    have c: "ucast (ucast ?n :: u64) = ?n" by simp
    show ?thesis
      using s' n u True tag_split [of tag]
      by (simp add: parse_asn1_tag_eq Let_def get_u8_view [OF wf v] b c oret_def
        del: One_nat_def)
  next
    case False
    let ?k = "ucast ?n :: u8" and ?b = "tag_bits tag OR ucast ?n"
    have k: "?k AND NOT (mask 5) = 0"
    proof -
      have "unat ?k < 2 ^ 5" using False by (simp add: unat_ucast_mod)
      then have hi: "5 \<le> i \<Longrightarrow> \<not> bit ?k i" for i by (rule high_bits_zero)
      show ?thesis
      proof (rule bit_word_eqI)
        fix i
        show "bit (?k AND NOT (mask 5)) i \<longleftrightarrow> bit (0 :: u8) i"
          using hi [of i] by (cases "5 \<le> i") (auto simp: bit_simps)
      qed
    qed
    have b: "?b AND NOT (mask 5) = tag_bits tag" "?b AND mask 5 = ?k"
      using tag_bits_and [OF k, of tag] by simp_all
    have "unat ?k = unat ?n" using False by (simp add: unat_ucast_mod)
    then have ne: "?k \<noteq> mask 5" and c: "ucast ?k = ?n"
      using False by (auto simp: word_unat_eq_iff unat_ucast_up mask_eq_exp_minus_1)
    have v: "CBS_view s = ?b # rest" using view False by (simp add: der_tag_eq)
    show ?thesis
      using wf v tag_split [of tag] ne c
      by (simp add: parse_asn1_tag_eq Let_def get_u8_view [OF wf v] b oret_def)
  qed
next
  fix s s' and tag :: u32
  assume wf: "wf_cbs s" and r: "parse_asn1_tag s = (Some tag, s')"
  then obtain b s1 where get: "CBS_get_u8 s = (Some b, s1)"
    by (auto simp: parse_asn1_tag_eq obind_eq_Some)
  note s1 = get_u8_sound [OF wf get]
  let ?t = "push_bit 24 (ucast (b AND NOT (mask 5))) :: u32"
  show "True \<and> wf_cbs s' \<and> CBS_view s = der_tag tag @ CBS_view s'"
  proof (cases "b AND mask 5 = mask 5")
    case True
    with r get obtain v where v: "parse_base128_integer s1 = (Some v, s')" "unat v < 2 ^ 29"
        "31 \<le> unat v" "tag = ?t OR ucast v"
      by (auto simp: parse_asn1_tag_eq Let_def obind_eq_Some oret_def ofail_def split: if_splits)
    have u: "unat (ucast v :: u32) = unat v" using v(2) by (simp add: unat_ucast_mod)
    have "tag AND mask 29 = ucast v" "tag_bits tag = b AND NOT (mask 5)"
      using tag_bits_join [of "ucast v" b] u v by simp_all
    then have "der_tag tag = b # base128 (unat v)"
      using v(3) u byte_split [of b] True by (simp add: der_tag_eq)
    then show ?thesis
      using base128_codec.read_sound [OF s1(2) v(1)] s1(1) by simp
  next
    case False
    let ?k = "b AND mask 5"
    have t: "tag = ?t OR ucast ?k" "s' = s1"
      using r get False by (auto simp: parse_asn1_tag_eq Let_def oret_def)
    have u: "unat (ucast ?k :: u32) = unat b mod 32" by (simp add: unat_ucast_up unat_and_mask)
    have "tag AND mask 29 = ucast ?k" "tag_bits tag = b AND NOT (mask 5)"
      using tag_bits_join [of "ucast ?k" b] u t by simp_all
    moreover have "unat b mod 32 \<noteq> 31"
    proof
      assume "unat b mod 32 = 31"
      then have "unat ?k = unat (mask 5 :: u8)"
        using unat_and_mask [of b 5] by (simp add: mask_eq_exp_minus_1)
      then show False using False by (simp only: word_unat_eq_iff)
    qed
    moreover have "ucast (ucast ?k :: u32) = ?k" by simp
    moreover have "unat b mod 32 < 32" by simp
    ultimately have "der_tag tag = [b]"
      using u byte_split [of b] by (auto simp: der_tag_eq)
    then show ?thesis using s1 t by simp
  qed
qed simp_all

subsection \<open>Lengths and elements\<close>

definition der_len :: "nat \<Rightarrow> u8 list" where
  "der_len n =
     (if n < 128 then [word_of_nat n]
      else if n < 2 ^ 8 then 0x81 # be_bytes 1 n
      else if n < 2 ^ 16 then 0x82 # be_bytes 2 n
      else if n < 2 ^ 24 then 0x83 # be_bytes 3 n
      else 0x84 # be_bytes 4 n)"

definition der_element :: "u32 \<times> u8 list \<Rightarrow> u8 list" where
  "der_element e = (case e of (tag, xs) \<Rightarrow> der_tag tag @ der_len (length xs) @ xs)"

lemma der_len_short: "n < 128 \<Longrightarrow> der_len n = [word_of_nat n]"
  by (simp add: der_len_def)

lemma der_len_long:
  assumes "1 \<le> k" "k \<le> 4" "256 ^ (k - 1) \<le> n" "n < 256 ^ k" "128 \<le> n"
  shows "der_len n = word_of_nat (128 + k) # be_bytes k n"
proof -
  from assms(1,2) consider "k = 1" | "k = 2" | "k = 3" | "k = 4" by linarith
  then show ?thesis using assms by cases (auto simp: der_len_def)
qed

lemma der_len_cases:
  assumes "n < 2 ^ 32"
  obtains (short) "n < 128" "der_len n = [word_of_nat n]"
  | (long) k where "1 \<le> k" "k \<le> 4" "256 ^ (k - 1) \<le> n" "n < 256 ^ k" "128 \<le> n"
      "der_len n = word_of_nat (128 + k) # be_bytes k n"
proof (cases "n < 128")
  case True
  then show thesis by (rule short) (simp add: der_len_short True)
next
  case False
  consider "n < 2 ^ 8" | "2 ^ 8 \<le> n" "n < 2 ^ 16" | "2 ^ 16 \<le> n" "n < 2 ^ 24" | "2 ^ 24 \<le> n"
    by linarith
  then show thesis
  proof cases
    case 1 with False show thesis by (intro long [of 1]) (auto simp: der_len_def)
  next
    case 2 with False show thesis by (intro long [of 2]) (auto simp: der_len_def)
  next
    case 3 with False show thesis by (intro long [of 3]) (auto simp: der_len_def)
  next
    case 4 with False assms show thesis by (intro long [of 4]) (auto simp: der_len_def)
  qed
qed

lemma length_b128_hi: "v < 128 ^ k \<Longrightarrow> length (b128_hi v) \<le> k"
proof (induction k arbitrary: v)
  case (Suc k)
  then have "v div 128 < 128 ^ k" by (simp add: less_mult_imp_div_less mult.commute)
  with Suc.IH have "length (b128_hi (v div 128)) \<le> k" .
  then show ?case by (cases "v = 0") (auto simp: b128_hi_pos)
qed simp

lemma length_base128: "v < 128 ^ Suc k \<Longrightarrow> length (base128 v) \<le> Suc k"
  using length_b128_hi [of "v div 128" k]
  by (simp add: base128_def less_mult_imp_div_less mult.commute)

lemma length_der_tag: "length (der_tag tag) \<le> 6"
proof -
  have "unat (tag AND mask 29) < 128 ^ Suc 4" by (simp add: unat_and_mask less_trans [OF mod_less_divisor])
  then have "length (base128 (unat (tag AND mask 29))) \<le> 5" using length_base128 by fastforce
  then show ?thesis by (simp add: der_tag_eq)
qed

lemma der_tag_nonempty: "der_tag tag \<noteq> []"
  by (simp add: der_tag_eq)

lemma length_der_len: "length (der_len n) \<le> 5" "0 < length (der_len n)"
  by (simp_all add: der_len_def)

lemma power_256: "(2::nat) ^ (m * 8) = 256 ^ m"
  using power_mult [of "2::nat" 8 m] by (simp add: mult.commute)

lemma and_0x80_eq_0: "(b AND 0x80 :: u8) = 0 \<longleftrightarrow> unat b < 128"
  using and_0x80 [of b] by auto

text \<open>The reader on an encoding.\<close>

lemma get_element_complete:
  assumes wf: "wf_cbs c" and n: "n < 2 ^ 32" and l: "length xs = n"
    and view: "CBS_view c = der_tag tag @ der_len n @ xs @ rest"
  defines "hl \<equiv> length (der_tag tag @ der_len n)"
  shows "cbs_get_any_asn1_element ber_ok c =
    (Some (CBS_init (cbs_data c) (hl + n), tag, hl, False), advance (hl + n) c)"
proof -
  let ?t = "length (der_tag tag)"
  obtain h where h: "parse_asn1_tag c = (Some tag, h)" "wf_cbs h" "CBS_view h = der_len n @ xs @ rest"
    using tag_codec.read_enc [OF wf _ view] by auto
  have lc: "cbs_len c = hl + n + length rest"
    using length_view [OF wf] view l by (simp add: hl_def)
  have lh: "cbs_len h = length (der_len n) + n + length rest"
    using length_view [OF h(2)] h(3) l by simp
  have get: "CBS_get_bytes (hl + n) c = (Some (CBS_init (cbs_data c) (hl + n)), advance (hl + n) c)"
    using lc by (simp add: CBS_get_bytes_eq)
  have small: "hl \<le> 11" using length_der_tag [of tag] length_der_len(1) [of n] by (simp add: hl_def)
  from n show ?thesis
  proof (cases rule: der_len_cases)
    case short
    define b :: u8 where "b = word_of_nat n"
    have u: "unat b = n" using short by (simp add: b_def unat_word_of_nat)
    have v: "CBS_view h = b # xs @ rest" using h(3) short b_def by simp
    have "b AND 0x80 = 0" using and_0x80 [of b] u short by auto
    moreover have "cbs_len c - cbs_len (advance 1 h) = hl"
      using lc lh short by (simp add: hl_def)
    ultimately show ?thesis
      using get u h(1) by (simp add: cbs_get_any_asn1_element_def get_u8_view [OF h(2) v] CBS_len_def
          Let_def obind_def oret_def add.commute)
  next
    case (long k)
    define b :: u8 where "b = word_of_nat (128 + k)"
    have u: "unat b = 128 + k" unfolding b_def unat_word_of_nat using long by simp
    have v: "CBS_view h = b # be_bytes k n @ xs @ rest" using h(3) long b_def by simp
    have hb: "b AND 0x80 \<noteq> 0" using and_0x80 [of b] u by simp
    have nb: "unat (b AND 0x7f) = k" using u long by (simp add: and_0x7f)
    have lk: "length (der_len n) = Suc k" using long by simp
    let ?len = "word_of_nat n :: u64"
    have ul: "unat ?len = n" using n by (simp add: unat_word_of_nat)
    have gu: "cbs_get_u k (advance 1 h) = (Some ?len, advance k (advance 1 h))"
    proof -
      have "take k (CBS_view (advance 1 h)) = be_bytes k n" using v by simp
      then show ?thesis
        using h(2) long lh lk by (simp add: cbs_get_u_eq)
    qed
    have hl: "cbs_len c - cbs_len (advance 1 h) + k = hl"
      using lc lh lk by (simp add: hl_def)
    have min: "\<not> (?len < 128 \<or> drop_bit ((k - 1) * 8) ?len = 0)"
    proof -
      have "unat (drop_bit ((k - 1) * 8) ?len) = n div 256 ^ (k - 1)"
        using ul power_256 [of "k - 1"] by (simp only: unat_drop_bit)
      then have "drop_bit ((k - 1) * 8) ?len \<noteq> 0"
        using long by (auto simp: div_eq_0_iff simp flip: unat_eq_0)
      then show ?thesis using long ul by (simp add: word_less_nat_alt)
    qed
    let ?tot = "(unat ?len + (cbs_len c - cbs_len (advance 1 h)) + k) mod size_mod"
    have tot: "?tot = hl + n"
      using hl ul small n by simp
    have hdr: "k \<noteq> 0" "\<not> 4 < k" using long by simp_all
    show ?thesis
      unfolding cbs_get_any_asn1_element_def h(1) CBS_len_def Let_def
      using get_u8_view [OF h(2) v] hb nb gu min tot hl ul get hdr
      by (simp add: obind_def oret_def del: len_advance)
  qed
qed

text \<open>What an accepted element looks like.\<close>

lemma get_element_None:
  "parse_asn1_tag c = (None, h) \<Longrightarrow> cbs_get_any_asn1_element ber_ok c = (None, c)"
  "parse_asn1_tag c = (Some t, h) \<Longrightarrow> CBS_get_u8 h = (None, d) \<Longrightarrow>
    cbs_get_any_asn1_element ber_ok c = (None, c)"
  by (simp_all add: cbs_get_any_asn1_element_def)

lemma get_element_sound:
  assumes wf: "wf_cbs c"
    and r: "cbs_get_any_asn1_element False c = (Some (out, tag, hl, ber), c')"
  obtains n where "n < 2 ^ 32" "hl = length (der_tag tag @ der_len n)" "hl + n \<le> cbs_len c"
    "take hl (CBS_view c) = der_tag tag @ der_len n" "\<not> ber"
    "out = CBS_init (cbs_data c) (hl + n)" "c' = advance (hl + n) c"
proof -
  obtain ot h where p0: "parse_asn1_tag c = (ot, h)" by fastforce
  have "ot \<noteq> None" using r p0 get_element_None(1) [of c h False] by (cases ot) simp_all
  then obtain t where p: "parse_asn1_tag c = (Some t, h)" using p0 by auto
  obtain ob d where get0: "CBS_get_u8 h = (ob, d)" by fastforce
  have "ob \<noteq> None" using r get0 get_element_None(2) [OF p, of d False] by (cases ob) simp_all
  then obtain b where get: "CBS_get_u8 h = (Some b, d)" using get0 by auto
  have sh: "wf_cbs h" "CBS_view c = der_tag t @ CBS_view h"
    using tag_codec.read_sound [OF wf p] by simp_all
  note sd = get_u8_sound [OF sh(1) get]
  have view: "CBS_view c = der_tag t @ b # CBS_view d" using sh(2) sd(1) by simp
  have lens: "cbs_len c = length (der_tag t) + 1 + cbs_len d"
    using length_view [OF wf] view length_view [OF sd(2)] by simp
  define h0 where "h0 = length (der_tag t) + 1"
  have h0: "CBS_len c - CBS_len d = h0" "h0 \<le> 7"
    using lens length_der_tag [of t] by (simp_all add: CBS_len_def h0_def)
  show thesis
  proof (cases "b AND 0x80 = 0")
    case True
    then have n: "unat b < 128" using and_0x80 [of b] by auto
    have "der_len (unat b) = [b]" using n by (simp add: der_len_short)
    moreover from r p get True have "tag = t" "hl = h0" "\<not> ber" "h0 + unat b \<le> cbs_len c"
        "out = CBS_init (cbs_data c) (h0 + unat b)" "c' = advance (h0 + unat b) c"
      unfolding cbs_get_any_asn1_element_def
      by (auto simp: Let_def h0 obind_def oret_def CBS_get_bytes_eq add.commute split: if_splits)
    ultimately show thesis
      using n view by (intro that [of "unat b"]) (auto simp: h0_def)
  next
    case False
    define k where "k = unat (b AND 0x7f)"
    have b: "128 \<le> unat b" using False by (simp only: and_0x80)
    have bk: "unat b = 128 + k"
      using mod_128 [OF b unat_less_256] by (simp add: k_def and_0x7f)
    from r p get False have k: "1 \<le> k" "k \<le> 4"
      unfolding cbs_get_any_asn1_element_def
      by (auto simp: Let_def obind_def oret_def k_def split: if_splits)
    from r p get False k obtain v e where gu: "cbs_get_u k d = (Some v, e)"
      unfolding cbs_get_any_asn1_element_def
      by (auto simp: Let_def obind_def oret_def split: if_splits option.splits prod.splits
          simp flip: k_def)
    then have lk: "k \<le> cbs_len d" and v: "v = word_of_nat (be_val (take k (CBS_view d)))"
      using sd(2) k by (auto simp: cbs_get_u_eq split: if_splits)
    have lt: "length (take k (CBS_view d)) = k" using lk sd(2) by simp
    have "be_val (take k (CBS_view d)) < 256 ^ k" using be_val_less lt by metis
    moreover have "(256::nat) ^ k \<le> 256 ^ 4" using k by (intro power_increasing) auto
    ultimately have uv: "unat v = be_val (take k (CBS_view d))" "unat v < 256 ^ k" "unat v < 2 ^ 32"
      using v by (simp_all add: unat_word_of_nat)
    have bytes: "be_bytes k (unat v) = take k (CBS_view d)" using uv(1) lt by simp
    have tot: "(unat v + h0 + k) mod 18446744073709551616 = h0 + k + unat v"
      using uv(3) h0(2) k by simp
    from r p get False k gu have min: "128 \<le> unat v" "drop_bit ((k - 1) * 8) v \<noteq> 0"
      and res: "tag = t" "hl = h0 + k" "\<not> ber" "h0 + k + unat v \<le> cbs_len c"
        "out = CBS_init (cbs_data c) (h0 + k + unat v)" "c' = advance (h0 + k + unat v) c"
      unfolding cbs_get_any_asn1_element_def
      by (auto simp: Let_def h0 tot obind_def oret_def CBS_get_bytes_eq word_less_nat_alt not_less
          split: if_splits simp flip: k_def)
    have "unat (drop_bit ((k - 1) * 8) v) = unat v div 256 ^ (k - 1)"
      using power_256 [of "k - 1"] by (simp only: unat_drop_bit)
    then have "256 ^ (k - 1) \<le> unat v"
      using min(2) by (auto simp: div_eq_0_iff simp flip: unat_eq_0)
    then have "der_len (unat v) = word_of_nat (128 + k) # be_bytes k (unat v)"
      using k uv min by (intro der_len_long) auto
    moreover have "word_of_nat (128 + k) = b" using bk by (metis word_of_nat_unat)
    ultimately have dl: "der_len (unat v) = b # take k (CBS_view d)" using bytes by simp
    have "take hl (CBS_view c) = der_tag t @ der_len (unat v)"
      using view dl res(2) by (simp add: h0_def)
    then show thesis
      using uv res dl lt by (intro that [of "unat v"]) (auto simp: h0_def)
  qed
qed

end
