(* ===== verification/CBB_Spec.thy ===== *)
theory CBB_Spec
  imports CBB DER_Codec
begin

text \<open>
  What a builder promises, and the proof that \<open>CBB\<close> keeps it. Abstractly a builder is a stack of
  open strings; \<open>seal\<close> closes the pending children by putting each child's length in front of its
  contents, and \<open>CBB_contents d\<close> is what the string at depth \<open>d\<close> would then hold. \<open>writes d c xs c'\<close>
  says that going from \<open>c\<close> to \<open>c'\<close> appends \<open>xs\<close> to the string at depth \<open>d\<close> and leaves everything
  written before that string alone. Flushing appends nothing, the primitive writers append
  their bytes, and a child that was given \<open>ys\<close> appends its header and \<open>ys\<close> to its parent.
\<close>

subsection \<open>Well-formed builders\<close>

definition buf_ok :: "cbb_buffer_st \<Rightarrow> bool" where
  "buf_ok b \<longleftrightarrow> length (b_buf b) = b_cap b \<and> b_len b \<le> b_cap b \<and> b_cap b < 2 ^ 64"

definition b_bytes :: "cbb_buffer_st \<Rightarrow> u8 list" where
  "b_bytes b = take (b_len b) (b_buf b)"

fun chain_ok :: "nat \<Rightarrow> cbb_child list \<Rightarrow> nat \<Rightarrow> bool" where
  "chain_ok lo [] n \<longleftrightarrow> lo \<le> n"
| "chain_ok lo (f # fs) n \<longleftrightarrow>
     lo \<le> offset f \<and> 0 < pending_len_len f \<and> pending_len_len f \<le> 3 \<and>
     (pending_is_asn1 f \<longrightarrow> pending_len_len f = 1) \<and>
     chain_ok (offset f + pending_len_len f) fs n"

definition length_prefix :: "cbb_child \<Rightarrow> nat \<Rightarrow> u8 list option" where
  "length_prefix f n =
     (if pending_is_asn1 f then (if n \<le> 0xfffffffe then Some (der_len n) else None)
      else if n < 256 ^ pending_len_len f then Some (be_bytes (pending_len_len f) n) else None)"

fun seal :: "cbb_child list \<Rightarrow> u8 list \<Rightarrow> u8 list option" where
  "seal [] bs = Some bs"
| "seal (f # fs) bs =
     (case seal fs bs of
        None \<Rightarrow> None
      | Some bs' \<Rightarrow>
          map_option (\<lambda>p. take (offset f) bs' @ p @ drop (offset f + pending_len_len f) bs')
            (length_prefix f (length bs' - (offset f + pending_len_len f))))"

definition CBB_ready :: "nat \<Rightarrow> CBB \<Rightarrow> bool" where
  "CBB_ready d c \<longleftrightarrow>
     (\<exists>b. base c = Some b \<and> buf_ok b \<and> \<not> b_error b \<and> d \<le> length (chain c) \<and> chain_ok 0 (chain c) (b_len b))"

definition CBB_bytes :: "CBB \<Rightarrow> u8 list" where
  "CBB_bytes c = b_bytes (the (base c))"

definition CBB_contents :: "nat \<Rightarrow> CBB \<Rightarrow> u8 list option" where
  "CBB_contents d c =
     map_option (drop (child_start_of (chain c) d)) (seal (drop d (chain c)) (CBB_bytes c))"

lemma length_b_bytes [simp]: "buf_ok b \<Longrightarrow> length (b_bytes b) = b_len b"
  by (simp add: buf_ok_def b_bytes_def)

lemma chain_ok_le: "chain_ok lo fs n \<Longrightarrow> lo \<le> n"
  by (induction fs arbitrary: lo) fastforce+

lemma chain_ok_mono: "chain_ok lo fs n \<Longrightarrow> n \<le> m \<Longrightarrow> chain_ok lo fs m"
  by (induction fs arbitrary: lo) auto

lemma chain_ok_lower: "chain_ok lo fs n \<Longrightarrow> lo' \<le> lo \<Longrightarrow> chain_ok lo' fs n"
  by (cases fs) auto

lemma chain_ok_append:
  "chain_ok lo (fs @ gs) n \<longleftrightarrow>
    chain_ok lo fs n \<and> chain_ok (case rev fs of [] \<Rightarrow> lo | f # _ \<Rightarrow> offset f + pending_len_len f) gs n"
proof (induction fs arbitrary: lo)
  case Nil
  then show ?case using chain_ok_le by auto
next
  case (Cons f fs)
  show ?case by (simp add: Cons.IH split: list.split) 
qed

lemma rev_take_start:
  "d \<le> length fs \<Longrightarrow>
    (case rev (take d fs) of [] \<Rightarrow> 0 | f # _ \<Rightarrow> offset f + pending_len_len f) = child_start_of fs d"
  by (cases d) (auto simp: child_start_of_def take_Suc_conv_app_nth)

lemma chain_ok_split:
  assumes "d \<le> length fs"
  shows "chain_ok 0 fs n \<longleftrightarrow> chain_ok 0 (take d fs) n \<and> chain_ok (child_start_of fs d) (drop d fs) n"
  using chain_ok_append [of 0 "take d fs" "drop d fs" n] rev_take_start [OF assms] by simp

lemma child_start_take [simp]: "d \<le> e \<Longrightarrow> d \<le> length fs \<Longrightarrow> child_start_of (take e fs) d = child_start_of fs d"
  by (cases d) (auto simp: child_start_of_def)

lemma child_start_append: "d \<le> length fs \<Longrightarrow> child_start_of (fs @ gs) d = child_start_of fs d"
  by (cases d) (auto simp: child_start_of_def nth_append)


lemma length_prefix_length:
  "length_prefix f n = Some p \<Longrightarrow> 0 < pending_len_len f \<Longrightarrow>
    (pending_is_asn1 f \<longrightarrow> pending_len_len f = 1) \<Longrightarrow> pending_len_len f \<le> length p"
  using length_der_len(2) [of n] by (auto simp: length_prefix_def Suc_leI split: if_splits)

lemma seal_keeps:
  "seal fs bs = Some r \<Longrightarrow> chain_ok lo fs (length bs) \<Longrightarrow> take lo r = take lo bs \<and> length bs \<le> length r"
proof (induction fs arbitrary: lo r)
  case (Cons f fs)
  let ?s = "offset f + pending_len_len f"
  from Cons.prems obtain bs' p where s: "seal fs bs = Some bs'"
    and p: "length_prefix f (length bs' - ?s) = Some p"
    and r: "r = take (offset f) bs' @ p @ drop ?s bs'"
    by (auto split: option.splits)
  have c: "chain_ok ?s fs (length bs)" "lo \<le> offset f" "pending_len_len f \<le> length p"
    using Cons.prems(2) length_prefix_length [OF p] by auto
  have IH: "take ?s bs' = take ?s bs" "length bs \<le> length bs'" using Cons.IH [OF s c(1)] by auto
  have l: "?s \<le> length bs'" using chain_ok_le [OF c(1)] IH(2) by simp
  have "take lo r = take lo bs'" using r l c(2) by simp
  also have "\<dots> = take lo (take ?s bs')" using c(2) by (simp add: min_absorb1)
  also have "\<dots> = take lo bs" unfolding IH(1) using c(2) by (simp add: min_absorb1)
  finally show ?case using r l c(3) IH(2) by simp
qed simp

subsection \<open>Buffer operations\<close>

lemma store_length [simp]: "pos + length xs \<le> length buf \<Longrightarrow> length (store buf pos xs) = length buf"
  by (simp add: store_def)

lemma take_store: "n \<le> pos \<Longrightarrow> pos \<le> length buf \<Longrightarrow> take n (store buf pos xs) = take n buf"
  by (simp add: store_def)

lemma take_store_end:
  "pos + length xs \<le> length buf \<Longrightarrow> n = pos + length xs \<Longrightarrow> take n (store buf pos xs) = take pos buf @ xs"
  by (simp add: store_def)

lemma store_single: "pos < length buf \<Longrightarrow> buf[pos := x] = store buf pos [x]"
  by (simp add: store_def upd_conv_take_nth_drop)

lemma store_store:
  "pos + length xs + length ys \<le> length buf \<Longrightarrow>
    store (store buf (pos + length xs) ys) pos xs = store buf pos (xs @ ys)"
  by (simp add: store_def add.assoc)

lemma write_be_eq:
  "pos + n \<le> length buf \<Longrightarrow> write_be buf pos n v = (store buf pos (be_bytes n v), v div 256 ^ n)"
proof (induction n arbitrary: buf v)
  case (Suc n)
  have "write_be (buf[pos + n := word_of_nat v]) pos n (v div 256) =
      (store (store buf (pos + n) [word_of_nat v]) pos (be_bytes n (v div 256)), v div 256 div 256 ^ n)"
    using Suc by (simp add: store_single)
  moreover have "store (store buf (pos + n) [word_of_nat v]) pos (be_bytes n (v div 256)) =
      store buf pos (be_bytes (Suc n) v)"
    using store_store [of pos "be_bytes n (v div 256)" "[word_of_nat v]" buf] Suc.prems by simp
  ultimately show ?case by (simp add: div_mult2_eq)
qed (simp add: store_def)

definition same_buf :: "cbb_buffer_st \<Rightarrow> cbb_buffer_st \<Rightarrow> bool" where
  "same_buf b b' \<longleftrightarrow> b_can_resize b' = b_can_resize b \<and> b_error b' = b_error b"

lemma add_overflow:
  fixes a n m :: nat
  assumes "a < m" "n < m"
  shows "(a + n) mod m < a \<longleftrightarrow> m \<le> a + n"
  using assms by (auto simp: mod_if [of "a + n"] mod_if [of "a + n - m"])

definition grown_cap :: "cbb_buffer_st \<Rightarrow> nat \<Rightarrow> nat" where
  "grown_cap b n =
     (let newcap = b_cap b * 2 mod size_mod
      in if newcap < b_cap b \<or> newcap < b_len b + n then b_len b + n else newcap)"

lemma reserve_eq:
  assumes "buf_ok b" "n < size_mod"
  shows "cbb_buffer_reserve mall n b =
    (if size_mod \<le> b_len b + n then b_fail b
     else if b_len b + n \<le> b_cap b then (Some (b_len b), b)
     else if \<not> b_can_resize b then b_fail b
     else (case OPENSSL_realloc mall (Some (b_buf b)) (grown_cap b n) of
             None \<Rightarrow> b_fail b
           | Some newbuf \<Rightarrow> (Some (b_len b), b\<lparr>b_buf := newbuf, b_cap := grown_cap b n\<rparr>)))"
proof (cases "size_mod \<le> b_len b + n")
  case True
  have "b_len b < size_mod" using assms(1) unfolding buf_ok_def by linarith
  then have "(b_len b + n) mod size_mod < b_len b" using add_overflow assms(2) True by blast
  with True show ?thesis unfolding cbb_buffer_reserve_def Let_def by (simp only: if_True)
next
  case False
  then have "(b_len b + n) mod size_mod = b_len b + n" by (intro mod_less) linarith
  then show ?thesis using False
    unfolding cbb_buffer_reserve_def grown_cap_def Let_def by (simp only: if_False not_less) simp
qed

lemma grown_cap_bounds:
  assumes "b_len b + n < size_mod" "b_cap b < b_len b + n"
  shows "b_len b + n \<le> grown_cap b n" "grown_cap b n < size_mod" "b_cap b \<le> grown_cap b n"
proof -
  define m where "m = b_cap b * 2 mod size_mod"
  have "m < size_mod" unfolding m_def by simp
  then show "b_len b + n \<le> grown_cap b n" "grown_cap b n < size_mod" "b_cap b \<le> grown_cap b n"
    using assms unfolding grown_cap_def Let_def m_def [symmetric] by (simp_all split: if_split)
qed

lemma grow_sound:
  assumes "buf_ok b" "b_cap b \<le> cap" "cap < size_mod" "OPENSSL_realloc mall (Some (b_buf b)) cap = Some newbuf"
  defines "b' \<equiv> b\<lparr>b_buf := newbuf, b_cap := cap\<rparr>"
  shows "buf_ok b' \<and> b_bytes b' = b_bytes b"
proof -
  have l: "b_len b \<le> b_cap b" "length (b_buf b) = b_cap b"
    using assms(1) by (auto simp: buf_ok_def)
  have "length newbuf = cap" by (rule length_OPENSSL_realloc [OF assms(4)])
  moreover have "take (b_cap b) newbuf = b_buf b"
    using OPENSSL_realloc_keeps [OF assms(4)] assms(2) l(2) by simp
  then have "take (b_len b) newbuf = take (b_len b) (b_buf b)"
    using l(1) by (metis min.absorb1 take_take)
  ultimately show ?thesis using l assms(2,3) by (simp add: b'_def buf_ok_def b_bytes_def)
qed

lemma reserve_sound:
  assumes ok: "buf_ok b" and n: "n < size_mod" and r: "cbb_buffer_reserve mall n b = (Some p, b')"
  shows "p = b_len b \<and> b_len b' = b_len b \<and> buf_ok b' \<and> b_bytes b' = b_bytes b \<and>
    b_len b + n \<le> b_cap b' \<and> same_buf b b'"
proof (cases "b_len b + n \<le> b_cap b")
  case True
  have "\<not> size_mod \<le> b_len b + n" using True ok unfolding buf_ok_def by linarith
  then have "p = b_len b \<and> b' = b"
    using r True unfolding reserve_eq [OF ok n] by auto
  then show ?thesis using True ok by (simp add: same_buf_def)
next
  case False
  then obtain newbuf where g: "OPENSSL_realloc mall (Some (b_buf b)) (grown_cap b n) = Some newbuf"
      "p = b_len b" "b' = b\<lparr>b_buf := newbuf, b_cap := grown_cap b n\<rparr>" "\<not> size_mod \<le> b_len b + n"
    using r unfolding reserve_eq [OF ok n] b_fail_def by (auto split: if_splits option.splits)
  have c: "b_len b + n \<le> grown_cap b n" "grown_cap b n < size_mod" "b_cap b \<le> grown_cap b n"
    using grown_cap_bounds [of b n] g(4) False unfolding not_le by blast+
  show ?thesis using grow_sound [OF ok c(3,2) g(1)] g(2,3) c(1) by (simp add: same_buf_def)
qed

lemma add_sound:
  assumes "buf_ok b" "n < size_mod" "cbb_buffer_add mall n b = (Some p, b')"
  shows "p = b_len b" "b_len b' = b_len b + n" "buf_ok b'" "take (b_len b) (b_buf b') = b_bytes b"
    "same_buf b b'"
proof -
  from assms(3) obtain b1 where r: "cbb_buffer_reserve mall n b = (Some p, b1)"
    and b': "b' = b1\<lparr>b_len := b_len b1 + n\<rparr>"
    by (auto simp: cbb_buffer_add_def obind_eq_Some)
  have s: "p = b_len b" "b_len b1 = b_len b" "buf_ok b1" "b_bytes b1 = b_bytes b"
    "b_len b + n \<le> b_cap b1" "same_buf b b1"
    using reserve_sound [OF assms(1,2) r] by auto
  show "p = b_len b" by (rule s(1))
  show "b_len b' = b_len b + n" using b' s(2) by simp
  show "buf_ok b'" using s(2,3,5) b' by (simp add: buf_ok_def)
  show "take (b_len b) (b_buf b') = b_bytes b" using s(2,4) b' by (simp add: b_bytes_def)
  show "same_buf b b'" using s(6) b' by (simp add: same_buf_def)
qed

text \<open>Storing the bytes just added.\<close>

lemma stored_bytes:
  assumes "buf_ok b'" "b_len b' = n + length xs" "take n (b_buf b') = bs" "length bs = n"
  shows "b_bytes (b'\<lparr>b_buf := store (b_buf b') n xs\<rparr>) = bs @ xs"
    and "buf_ok (b'\<lparr>b_buf := store (b_buf b') n xs\<rparr>)"
  using assms by (auto simp: b_bytes_def buf_ok_def store_def)

lemma add_u_sound:
  assumes "buf_ok b" "n < size_mod" "v < 256 ^ n" "cbb_buffer_add_u mall v n b = (Some u, b')"
  shows "buf_ok b'" "b_bytes b' = b_bytes b @ be_bytes n v" "same_buf b b'" "b_len b' = b_len b + n"
proof -
  have "buf_ok b' \<and> b_bytes b' = b_bytes b @ be_bytes n v \<and> same_buf b b' \<and> b_len b' = b_len b + n"
  proof (cases "n = 0")
    case True
    then show ?thesis using assms by (simp add: cbb_buffer_add_u_def oret_def same_buf_def)
  next
    case False
    with assms(4) obtain pos b1 where a: "cbb_buffer_add mall n b = (Some pos, b1)"
      and w: "(case write_be (b_buf b1) pos n v of (buf, v') \<Rightarrow>
          (let b = b1\<lparr>b_buf := buf\<rparr> in if v' \<noteq> 0 then b_fail b else (Some (), b))) = (Some u, b')"
      by (auto simp: cbb_buffer_add_u_def obind_eq_Some)
    note s = add_sound [OF assms(1,2) a]
    have "pos + n \<le> length (b_buf b1)" using s by (auto simp: buf_ok_def)
    from w [unfolded write_be_eq [OF this]] assms(3)
    have b': "b' = b1\<lparr>b_buf := store (b_buf b1) (b_len b) (be_bytes n v)\<rparr>"
      using s(1) by (simp add: Let_def)
    have "b_bytes b' = b_bytes b @ be_bytes n v" "buf_ok b'"
      unfolding b' using stored_bytes [of b1 "b_len b" "be_bytes n v" "b_bytes b"] s assms(1) by simp_all
    then show ?thesis using s b' by (simp add: same_buf_def)
  qed
  then show "buf_ok b'" "b_bytes b' = b_bytes b @ be_bytes n v" "same_buf b b'" "b_len b' = b_len b + n"
    by simp_all
qed

subsection \<open>Flushing\<close>

definition len_rest :: "nat \<Rightarrow> nat" where
  "len_rest n = (if n < 128 then 0 else n)"

lemma asn1_len_len_eq:
  "asn1_len_len n =
    (if n \<le> 0xfffffffe then Some (length (der_len n), hd (der_len n), len_rest n) else None)"
  by (simp add: asn1_len_len_def der_len_def len_rest_def)

lemma der_len_parts:
  assumes "n \<le> 0xfffffffe"
  shows "der_len n = hd (der_len n) # be_bytes (length (der_len n) - 1) (len_rest n)"
    "len_rest n div 256 ^ (length (der_len n) - 1) = 0"
proof -
  have "n < 2 ^ 32" using assms by simp
  then have "der_len n = hd (der_len n) # be_bytes (length (der_len n) - 1) (len_rest n) \<and>
    len_rest n div 256 ^ (length (der_len n) - 1) = 0"
    by (cases rule: der_len_cases) (simp_all add: len_rest_def)
  then show "der_len n = hd (der_len n) # be_bytes (length (der_len n) - 1) (len_rest n)"
    "len_rest n div 256 ^ (length (der_len n) - 1) = 0" by blast+
qed

lemma write_length_sound:
  assumes "pos + n \<le> length (b_buf b)" "write_length f pos n len b = (Some u, b')"
  shows "b' = b\<lparr>b_buf := store (b_buf b) pos (be_bytes n len)\<rparr>" "len div 256 ^ n = 0"
  using assms by (auto simp: write_length_def write_be_eq Let_def b_fail_def split: if_splits)

text \<open>Putting a longer header in front of contents that leave one byte for it.\<close>

lemma insert_header:
  assumes "length pre = off" "length hdr = k" "length body + k \<le> length (body @ tail)"
  shows "store ((memmove (pre @ z # body @ tail) (off + 1 + k) (off + 1) (length body))[off := h]) (off + 1) hdr
    = pre @ h # hdr @ body @ drop k tail"
proof -
  have m: "memmove (pre @ z # body @ tail) (off + 1 + k) (off + 1) (length body) =
      pre @ z # take k (body @ tail) @ body @ drop k tail"
    using assms by (simp add: memmove_def store_def)
  show ?thesis unfolding m using assms by (simp add: store_def list_update_append)
qed

lemma flush_asn1_eq:
  assumes "len \<le> 0xfffffffe" "length (der_len len) = Suc k"
  shows "flush_asn1 mall f start len b =
    (if k = 0
     then write_length f (offset f + 1) 0 (len_rest len) (b\<lparr>b_buf := (b_buf b)[offset f := hd (der_len len)]\<rparr>)
     else (case cbb_buffer_add mall k b of
             (None, b1) \<Rightarrow> b_fail b1
           | (Some _, b1) \<Rightarrow>
               write_length f (offset f + 1) k (len_rest len)
                 (b1\<lparr>b_buf := (memmove (b_buf b1) (start + k) start len)[offset f := hd (der_len len)]\<rparr>)))"
  using assms
  by (auto simp: flush_asn1_def asn1_len_len_eq obind_def Let_def b_fail_def split: prod.splits option.splits)

lemma memmove_id: "p + n \<le> length xs \<Longrightarrow> memmove xs p p n = xs"
  by (simp add: memmove_def store_def) (metis append_take_drop_id take_add append.assoc)

lemma flush_asn1_sound:
  assumes ok: "buf_ok b" and start: "offset f + 1 \<le> b_len b"
    and r: "flush_asn1 mall f (offset f + 1) (b_len b - (offset f + 1)) b = (Some u, b')"
  shows "b_len b - (offset f + 1) \<le> 0xfffffffe \<and> buf_ok b' \<and> same_buf b b' \<and>
    b_bytes b' = take (offset f) (b_bytes b) @ der_len (b_len b - (offset f + 1)) @ drop (offset f + 1) (b_bytes b)"
proof -
  define off len where "off = offset f" and "len = b_len b - (offset f + 1)"
  define pre body where "pre = take off (b_bytes b)" and "body = drop (off + 1) (b_bytes b)"
  define z where "z = b_bytes b ! off"
  have off: "off < b_len b" using start by (simp add: off_def)
  have bytes: "b_bytes b = pre @ z # body"
    unfolding pre_def body_def z_def using off ok by (simp add: id_take_nth_drop)
  have lens: "length pre = off" "length body = len" "b_len b = off + 1 + len"
    using off ok by (simp_all add: pre_def body_def len_def off_def)
  have le: "len \<le> 0xfffffffe"
    using r by (auto simp: flush_asn1_def asn1_len_len_eq b_fail_def len_def split: if_splits)
  define k h where "k = length (der_len len) - 1" and "h = hd (der_len len)"
  have k: "k \<le> 4" "length (der_len len) = Suc k" using length_der_len [of len] by (auto simp: k_def)
  note parts = der_len_parts [OF le, folded k_def h_def]
  have fin: "buf_ok b' \<and> same_buf b b' \<and> b_bytes b' = pre @ (h # be_bytes k (len_rest len)) @ body"
  proof -
    from r obtain b1 tail where b1: "b_buf b1 = memmove (pre @ z # body @ tail) (off + 1 + k) (off + 1) len"
        "b_len b1 = b_len b + k" "b_cap b1 = length (pre @ z # body @ tail)" "k \<le> length tail" "same_buf b b1"
        "b_cap b1 < size_mod"
      and w: "write_length f (off + 1) k (len_rest len) (b1\<lparr>b_buf := (b_buf b1)[off := h]\<rparr>) = (Some u, b')"
    proof (cases "k = 0")
      case True
      have "b_buf b = pre @ z # body @ drop (b_len b) (b_buf b)"
        using bytes unfolding b_bytes_def by (metis append_Cons append_assoc append_take_drop_id)
      moreover have "off + 1 + len \<le> length (b_buf b)" using lens(3) ok by (simp add: buf_ok_def)
      then have "b_buf b = memmove (b_buf b) (off + 1 + k) (off + 1) len"
        by (simp only: True add_0_right memmove_id)
      moreover have "write_length f (off + 1) k (len_rest len) (b\<lparr>b_buf := (b_buf b)[off := h]\<rparr>) = (Some u, b')"
        using r [folded off_def len_def] unfolding flush_asn1_eq [OF le k(2)] True
        by (simp add: off_def h_def)
      ultimately show thesis using that [of b "drop (b_len b) (b_buf b)"] ok True
        by (simp add: buf_ok_def same_buf_def)
    next
      case False
      have "flush_asn1 mall f (off + 1) len b = (Some u, b')" using r by (simp only: off_def len_def)
      with False obtain p b2 where a: "cbb_buffer_add mall k b = (Some p, b2)"
        and w: "write_length f (off + 1) k (len_rest len)
          (b2\<lparr>b_buf := (memmove (b_buf b2) (off + 1 + k) (off + 1) len)[off := h]\<rparr>) = (Some u, b')"
        unfolding flush_asn1_eq [OF le k(2)]
        by (auto simp: h_def b_fail_def off_def split: prod.splits option.splits)
      have "k < size_mod" using k(1) by simp
      note s = add_sound [OF ok this a]
      let ?tail = "drop (b_len b) (b_buf b2)"
      have "b_buf b2 = pre @ z # body @ ?tail"
        using s(4) bytes by (metis append_Cons append_assoc append_take_drop_id)
      then show thesis using that [of "b2\<lparr>b_buf := memmove (b_buf b2) (off + 1 + k) (off + 1) len\<rparr>" ?tail] w s
        by (auto simp: buf_ok_def same_buf_def)
    qed
    have "off + 1 + k \<le> length ((b_buf b1)[off := h])"
      using b1(1,4) lens by (simp add: memmove_def)
    from write_length_sound(1) [of "off + 1" k "b1\<lparr>b_buf := (b_buf b1)[off := h]\<rparr>", OF _ w] this
    have b': "b' = b1\<lparr>b_buf := store ((b_buf b1)[off := h]) (off + 1) (be_bytes k (len_rest len))\<rparr>" by simp
    have buf: "b_buf b' = pre @ h # be_bytes k (len_rest len) @ body @ drop k tail"
      unfolding b' b1(1) using insert_header [of pre off "be_bytes k (len_rest len)" k body tail z h] lens b1(4)
      by simp
    show ?thesis using buf b' b1 lens by (auto simp: buf_ok_def same_buf_def b_bytes_def)
  qed
  show ?thesis
    using fin le parts(1) unfolding pre_def body_def off_def len_def by simp
qed

lemma write_prefix_sound:
  assumes ok: "buf_ok b" and s: "off + n \<le> b_len b"
    and r: "write_length f off n (b_len b - (off + n)) b = (Some u, b')"
  shows "b_len b - (off + n) < 256 ^ n \<and> buf_ok b' \<and> same_buf b b' \<and>
    b_bytes b' = take off (b_bytes b) @ be_bytes n (b_len b - (off + n)) @ drop (off + n) (b_bytes b)"
proof -
  define len where "len = b_len b - (off + n)"
  have l: "off + n \<le> length (b_buf b)" using ok s by (simp add: buf_ok_def)
  note w = write_length_sound [OF l r [folded len_def]]
  have bl: "b_bytes b = take (b_len b) (b_buf b)" "b_len b \<le> length (b_buf b)"
    using ok by (auto simp: b_bytes_def buf_ok_def)
  have "b_bytes b' = take (b_len b) (store (b_buf b) off (be_bytes n len))"
    using w(1) by (simp add: b_bytes_def)
  also have "\<dots> = take off (b_buf b) @ be_bytes n len @ take (b_len b - (off + n)) (drop (off + n) (b_buf b))"
    using s bl by (simp add: store_def)
  also have "\<dots> = take off (b_bytes b) @ be_bytes n len @ drop (off + n) (b_bytes b)"
    using s by (simp add: bl(1) drop_take)
  finally have "b_bytes b' = take off (b_bytes b) @ be_bytes n len @ drop (off + n) (b_bytes b)" .
  moreover have "len < 256 ^ n" using w(2) by (simp add: div_eq_0_iff)
  ultimately show ?thesis
    using w(1) ok l by (simp add: buf_ok_def same_buf_def len_def [symmetric])
qed

lemma flush_chain_sound:
  "flush_chain mall fs b = (True, fs', b') \<Longrightarrow> buf_ok b \<Longrightarrow> chain_ok lo fs (b_len b) \<Longrightarrow>
    fs' = [] \<and> buf_ok b' \<and> \<not> b_error b \<and> same_buf b b' \<and> seal fs (b_bytes b) = Some (b_bytes b')"
proof (induction fs arbitrary: lo fs' b')
  case Nil
  then show ?case by (auto simp: same_buf_def)
next
  case (Cons f fs)
  let ?s = "offset f + pending_len_len f"
  have c: "chain_ok ?s fs (b_len b)" "pending_len_len f \<noteq> 0" using Cons.prems(3) by auto
  have sb: "?s \<le> b_len b" using chain_ok_le [OF c(1)] .
  then have "?s mod size_mod = ?s" using Cons.prems(2) unfolding buf_ok_def by (intro mod_less) linarith
  then obtain gs b1 where i: "flush_chain mall fs b = (True, gs, b1)" and ne: "\<not> b_error b"
    and w: "(if pending_is_asn1 f then flush_asn1 mall f ?s (b_len b1 - ?s) b1
        else write_length f (offset f) (pending_len_len f) (b_len b1 - ?s) b1) = (Some (), b')"
    and fs': "fs' = []"
    using Cons.prems(1) c(2)
    by (auto simp: Let_def split: if_splits prod.splits option.splits)
  from Cons.IH [OF i Cons.prems(2) c(1)] have IH: "buf_ok b1" "same_buf b b1"
    "seal fs (b_bytes b) = Some (b_bytes b1)" by auto
  have "b_len b \<le> b_len b1"
    using seal_keeps [OF IH(3), of ?s] c(1) Cons.prems(2) IH(1) by simp
  then have s1: "?s \<le> b_len b1" using sb by simp
  let ?len = "b_len b1 - ?s"
  have "(\<exists>p. length_prefix f ?len = Some p \<and>
      b_bytes b' = take (offset f) (b_bytes b1) @ p @ drop ?s (b_bytes b1)) \<and> buf_ok b' \<and> same_buf b1 b'"
  proof (cases "pending_is_asn1 f")
    case True
    then have p: "pending_len_len f = 1" using Cons.prems(3) by simp
    have "flush_asn1 mall f (offset f + 1) (b_len b1 - (offset f + 1)) b1 = (Some (), b')"
      using w True p by simp
    from flush_asn1_sound [OF IH(1) _ this] s1 p
    show ?thesis using True by (simp add: length_prefix_def)
  next
    case False
    with write_prefix_sound [OF IH(1) s1] w show ?thesis by (simp add: length_prefix_def)
  qed
  then show ?case using fs' ne IH s1 by (auto simp: same_buf_def)
qed

subsection \<open>Success\<close>

text \<open>
  A buffer that can hold \<open>n\<close> bytes: large enough as it is, or growable with an allocator that does
  not fail (the bounds keep the doubled capacity below \<open>2 ^ 64\<close>).
\<close>

definition fits :: "malloc \<Rightarrow> nat \<Rightarrow> cbb_buffer_st \<Rightarrow> bool" where
  "fits mall n b \<longleftrightarrow>
     n \<le> b_cap b \<or> b_can_resize b \<and> (\<forall>m. mall m) \<and> b_cap b \<le> 2 ^ 62 \<and> n \<le> 2 ^ 61"

lemma fits_mono: "fits mall n b \<Longrightarrow> m \<le> n \<Longrightarrow> fits mall m b"
  by (auto simp: fits_def)

lemma fits_less: "fits mall n b \<Longrightarrow> buf_ok b \<Longrightarrow> n < size_mod"
  by (auto simp: fits_def buf_ok_def)

lemma malloc_succeeds:
  assumes "\<forall>m. mall m" "sz \<le> 2 ^ 63"
  shows "\<exists>p. OPENSSL_malloc mall sz = Some p"
proof -
  have "sz + OPENSSL_MALLOC_PREFIX < size_mod"
    using assms(2) by (simp add: OPENSSL_MALLOC_PREFIX_def)
  then have "(sz + OPENSSL_MALLOC_PREFIX) mod size_mod = sz + OPENSSL_MALLOC_PREFIX" by (rule mod_less)
  then show ?thesis using assms(1) unfolding OPENSSL_malloc_def by simp
qed

lemma realloc_succeeds:
  assumes "\<forall>m. mall m" "sz \<le> 2 ^ 63"
  shows "\<exists>p. OPENSSL_realloc mall (Some buf) sz = Some p"
  using malloc_succeeds [OF assms] by (auto simp: OPENSSL_realloc_def Let_def)

lemma reserve_complete:
  assumes ok: "buf_ok b" and fit: "fits mall N b" and n: "b_len b + n \<le> N"
  shows "\<exists>b'. cbb_buffer_reserve mall n b = (Some (b_len b), b') \<and> fits mall N b'"
proof -
  have lt: "n < size_mod" "\<not> size_mod \<le> b_len b + n" using fits_less [OF fit ok] n by linarith+
  show ?thesis
  proof (cases "b_len b + n \<le> b_cap b")
    case True
    then show ?thesis using fit lt(2) unfolding reserve_eq [OF ok lt(1)] by simp
  next
    case False
    then have g: "b_can_resize b" "\<forall>m. mall m" "b_cap b \<le> 2 ^ 62" "N \<le> 2 ^ 61"
      using fit n unfolding fits_def by auto
    have "b_cap b * 2 < size_mod" using g(3) by simp
    then have "b_cap b * 2 mod size_mod = b_cap b * 2" by (rule mod_less)
    then have cap: "grown_cap b n \<le> 2 ^ 62"
      using g(4) n False unfolding grown_cap_def Let_def by (simp add: not_le)
    moreover have "(2::nat) ^ 62 \<le> 2 ^ 63" by (rule power_increasing) simp_all
    ultimately obtain p where "OPENSSL_realloc mall (Some (b_buf b)) (grown_cap b n) = Some p"
      using realloc_succeeds [OF g(2)] order_trans by blast
    then show ?thesis using False lt(2) g cap unfolding reserve_eq [OF ok lt(1)]
      by (simp add: fits_def)
  qed
qed

lemma add_complete:
  assumes "buf_ok b" "fits mall N b" "b_len b + n \<le> N"
  shows "\<exists>b'. cbb_buffer_add mall n b = (Some (b_len b), b') \<and> fits mall N b'"
proof -
  from reserve_complete [OF assms] obtain b' where
    "cbb_buffer_reserve mall n b = (Some (b_len b), b')" "fits mall N b'" by blast
  then show ?thesis by (simp add: cbb_buffer_add_def fits_def)
qed

lemma write_length_complete:
  "pos + n \<le> length (b_buf b) \<Longrightarrow> len div 256 ^ n = 0 \<Longrightarrow> fits mall N b \<Longrightarrow>
    \<exists>b'. write_length f pos n len b = (Some (), b') \<and> fits mall N b'"
  by (simp add: write_length_def write_be_eq Let_def fits_def)

lemma flush_asn1_complete:
  assumes ok: "buf_ok b" and fit: "fits mall N b" and s: "offset f + 1 + len = b_len b"
    and le: "len \<le> 0xfffffffe" and N: "offset f + length (der_len len) + len \<le> N"
  shows "\<exists>b'. flush_asn1 mall f (offset f + 1) len b = (Some (), b') \<and> fits mall N b'"
proof -
  define k where "k = length (der_len len) - 1"
  have k: "length (der_len len) = Suc k" "k < size_mod"
    using length_der_len [of len] by (auto simp: k_def)
  note parts = der_len_parts [OF le, folded k_def]
  show ?thesis
  proof (cases "k = 0")
    case True
    then show ?thesis using ok s parts(2) fit
      by (simp add: flush_asn1_eq [OF le k(1)] write_length_def Let_def fits_def)
  next
    case False
    have "b_len b + k \<le> N" using N s k by simp
    from add_complete [OF ok fit this] obtain b1 where
      a: "cbb_buffer_add mall k b = (Some (b_len b), b1)" "fits mall N b1" by blast
    note sn = add_sound [OF ok k(2) a(1)]
    let ?b2 = "b1\<lparr>b_buf := (memmove (b_buf b1) (offset f + 1 + k) (offset f + 1) len)[offset f := hd (der_len len)]\<rparr>"
    have "length (b_buf ?b2) = length (b_buf b1)" "offset f + 1 + k \<le> length (b_buf b1)"
      using sn(2,3) s by (auto simp: memmove_def store_def buf_ok_def)
    moreover have "fits mall N ?b2" using a(2) by (simp add: fits_def)
    ultimately obtain b' where "write_length f (offset f + 1) k (len_rest len) ?b2 = (Some (), b')" "fits mall N b'"
      using write_length_complete [of "offset f + 1" k ?b2 "len_rest len" mall N f] parts(2) by auto
    then show ?thesis using a False by (simp add: flush_asn1_eq [OF le k(1)])
  qed
qed

lemma flush_chain_complete:
  "seal fs (b_bytes b) = Some r \<Longrightarrow> buf_ok b \<Longrightarrow> \<not> b_error b \<Longrightarrow> chain_ok lo fs (b_len b) \<Longrightarrow>
    length r \<le> N \<Longrightarrow> fits mall N b \<Longrightarrow> \<exists>b'. flush_chain mall fs b = (True, [], b') \<and> fits mall N b'"
proof (induction fs arbitrary: lo r)
  case (Cons f fs)
  let ?s = "offset f + pending_len_len f"
  have c: "chain_ok ?s fs (b_len b)" "pending_len_len f \<noteq> 0" using Cons.prems(4) by auto
  have sb: "?s \<le> b_len b" using chain_ok_le [OF c(1)] .
  then have m: "?s mod size_mod = ?s" using Cons.prems(2) unfolding buf_ok_def by (intro mod_less) linarith
  from Cons.prems(1) obtain bs p where bs: "seal fs (b_bytes b) = Some bs"
    and p: "length_prefix f (length bs - ?s) = Some p"
    and r: "r = take (offset f) bs @ p @ drop ?s bs" by (auto split: option.splits)
  have lb: "b_len b \<le> length bs" using seal_keeps [OF bs, of ?s] c(1) Cons.prems(2) by simp
  have lr: "length r = offset f + length p + (length bs - ?s)" using r lb sb by simp
  have "pending_len_len f \<le> length p" using length_prefix_length [OF p] Cons.prems(4) by simp
  then have "length bs \<le> N" using lr Cons.prems(5) by linarith
  from Cons.IH [OF bs Cons.prems(2,3) c(1) this Cons.prems(6)] obtain b1 where
    i: "flush_chain mall fs b = (True, [], b1)" "fits mall N b1" by blast
  from flush_chain_sound [OF i(1) Cons.prems(2) c(1)] bs have b1: "buf_ok b1" "b_bytes b1 = bs" by auto
  then have l1: "b_len b1 = length bs" using length_b_bytes by force
  let ?len = "b_len b1 - ?s"
  have "\<exists>b'. (if pending_is_asn1 f then flush_asn1 mall f ?s ?len b1
      else write_length f (offset f) (pending_len_len f) ?len b1) = (Some (), b') \<and> fits mall N b'"
  proof (cases "pending_is_asn1 f")
    case True
    then have pl: "pending_len_len f = 1" using Cons.prems(4) by simp
    have "?len \<le> 0xfffffffe" "p = der_len ?len"
      using p True l1 by (auto simp: length_prefix_def split: if_splits)
    then show ?thesis
      using flush_asn1_complete [OF b1(1) i(2), of f ?len] True pl l1 lb sb lr Cons.prems(5) by simp
  next
    case False
    then have "?len div 256 ^ pending_len_len f = 0"
      using p l1 by (auto simp: length_prefix_def div_eq_0_iff split: if_splits)
    moreover have "offset f + pending_len_len f \<le> length (b_buf b1)" using b1(1) l1 lb sb by (simp add: buf_ok_def)
    ultimately show ?thesis using write_length_complete [OF _ _ i(2)] False by simp
  qed
  then obtain b' where "(if pending_is_asn1 f then flush_asn1 mall f ?s ?len b1
      else write_length f (offset f) (pending_len_len f) ?len b1) = (Some (), b')" "fits mall N b'" by blast
  then show ?case using i(1) Cons.prems(3) c(2) lb sb l1
    by (cases "pending_is_asn1 f") (auto simp: Let_def m simp del: power_numeral)
qed simp

subsection \<open>Builders as stacks of strings\<close>

definition writes :: "nat \<Rightarrow> CBB \<Rightarrow> u8 list \<Rightarrow> CBB \<Rightarrow> bool" where
  "writes d c xs c' \<longleftrightarrow>
     CBB_ready d c' \<and> take d (chain c') = take d (chain c) \<and>
     take (child_start_of (chain c) d) (CBB_bytes c') = take (child_start_of (chain c) d) (CBB_bytes c) \<and>
     (\<exists>ys. CBB_contents d c = Some ys \<and> CBB_contents d c' = Some (ys @ xs))"

lemma same_child_start:
  "take d fs' = take d fs \<Longrightarrow> d \<le> length fs \<Longrightarrow> d \<le> length fs' \<Longrightarrow> child_start_of fs' d = child_start_of fs d"
  by (metis child_start_take order_refl)

lemma writes_trans [trans]:
  assumes "CBB_ready d c" "writes d c xs c'" "writes d c' ys c''"
  shows "writes d c (xs @ ys) c''"
proof -
  have "child_start_of (chain c') d = child_start_of (chain c) d"
    using assms(1,2) by (intro same_child_start) (auto simp: writes_def CBB_ready_def)
  then show ?thesis using assms(2,3) by (auto simp: writes_def)
qed

lemma writes_ready: "writes d c xs c' \<Longrightarrow> CBB_ready d c'"
  by (simp add: writes_def)

lemma writes_nil: "CBB_ready d c \<Longrightarrow> CBB_contents d c \<noteq> None \<Longrightarrow> writes d c [] c"
  by (auto simp: writes_def)

lemma contents_flat:
  "length (chain c) = d \<Longrightarrow> CBB_contents d c = Some (drop (child_start_of (chain c) d) (CBB_bytes c))"
  by (simp add: CBB_contents_def)

lemma flush_writes:
  assumes "CBB_ready d c" "CBB_flush mall d c = (Some u, c')"
  shows "writes d c [] c'" "length (chain c') = d"
proof -
  from assms(1) obtain b where b: "base c = Some b" "buf_ok b" "\<not> b_error b" "d \<le> length (chain c)"
    "chain_ok 0 (chain c) (b_len b)" by (auto simp: CBB_ready_def)
  from assms(2) b(1,4) obtain gs b' where f: "flush_chain mall (drop d (chain c)) b = (True, gs, b')"
    and c': "c' = \<lparr>base = Some b', chain = take d (chain c) @ gs\<rparr>"
    by (auto simp: CBB_flush_def split: prod.splits if_splits)
  have ck: "chain_ok 0 (take d (chain c)) (b_len b)" "chain_ok (child_start_of (chain c) d) (drop d (chain c)) (b_len b)"
    using chain_ok_split [OF b(4)] b(5) by auto
  from flush_chain_sound [OF f b(2) ck(2)] have s: "gs = []" "buf_ok b'" "same_buf b b'"
    "seal (drop d (chain c)) (b_bytes b) = Some (b_bytes b')" by auto
  from seal_keeps [OF s(4), of "child_start_of (chain c) d"] ck(2) b(2) s(2)
  have k: "take (child_start_of (chain c) d) (b_bytes b') = take (child_start_of (chain c) d) (b_bytes b)"
    "b_len b \<le> b_len b'" by auto
  have "chain_ok 0 (take d (chain c)) (b_len b')" using chain_ok_mono [OF ck(1) k(2)] .
  then show "writes d c [] c'"
    using s k b c' by (simp add: writes_def CBB_ready_def CBB_contents_def CBB_bytes_def same_buf_def)
  show "length (chain c') = d" using c' s(1) b(4) by simp
qed

lemma append_writes:
  assumes r: "CBB_ready d c" and l: "length (chain c) = d" and b: "base c = Some b"
    and b': "buf_ok b'" "same_buf b b'" "b_bytes b' = b_bytes b @ xs"
  shows "writes d c xs (c\<lparr>base := Some b'\<rparr>)"
proof -
  have o: "buf_ok b" "\<not> b_error b" "chain_ok 0 (chain c) (b_len b)"
    using r b by (auto simp: CBB_ready_def)
  have "chain_ok (child_start_of (chain c) d) [] (b_len b)"
    using chain_ok_split [of d "chain c" "b_len b"] o(3) l by simp
  then have s: "child_start_of (chain c) d \<le> length (b_bytes b)" using o(1) by simp
  have "b_len b' = length (b_bytes b')" using b'(1) by simp
  then have "b_len b \<le> b_len b'" using b'(3) o(1) by simp
  with o(3) have "chain_ok 0 (chain c) (b_len b')" by (rule chain_ok_mono)
  with s show ?thesis
    using r b b' l o by (auto simp: writes_def CBB_ready_def CBB_contents_def CBB_bytes_def same_buf_def)
qed

text \<open>The shape that all the writers share: flush, then add bytes to the buffer.\<close>

lemma flush_then_writes:
  assumes "CBB_ready d c" "othen (CBB_flush mall d) (on_base p) c = (Some a, c')"
    and "\<And>b b' a. buf_ok b \<Longrightarrow> p b = (Some a, b') \<Longrightarrow> buf_ok b' \<and> same_buf b b' \<and> b_bytes b' = b_bytes b @ xs"
  shows "writes d c xs c' \<and> length (chain c') = d"
proof -
  from assms(2) obtain u c1 where f: "CBB_flush mall d c = (Some u, c1)" and p: "on_base p c1 = (Some a, c')"
    by (auto simp: othen_eq_Some)
  note w = flush_writes [OF assms(1) f]
  from p obtain b b' where b: "base c1 = Some b" "p b = (Some a, b')" "c' = c1\<lparr>base := Some b'\<rparr>"
    by (auto simp: on_base_def split: option.splits prod.splits)
  have "buf_ok b" using writes_ready [OF w(1)] b(1) by (auto simp: CBB_ready_def)
  with assms(3) b(2) have "writes d c1 xs c'"
    unfolding b(3) using append_writes [OF writes_ready [OF w(1)] w(2) b(1)] by simp
  with writes_trans [OF assms(1) w(1)] b(3) w(2) show ?thesis by auto
qed

lemma add_u_writes:
  assumes "CBB_ready d c" "v < 256 ^ n" "n < size_mod" "cbb_add_u mall d v n c = (Some u, c')"
  shows "writes d c (be_bytes n v) c' \<and> length (chain c') = d"
  using assms(1,4) unfolding cbb_add_u_def
  by (rule flush_then_writes) (use add_u_sound assms(2,3) in metis)

lemma on_base_assoc: "obind (on_base p) (\<lambda>a. on_base (q a)) = on_base (obind p q)"
  by (rule ext) (auto simp: on_base_def obind_def split: prod.splits option.splits)

lemma obind_assoc_othen: "obind (othen m k) f = othen m (obind k f)"
  by (simp add: othen_def obind_assoc)

lemma added_store_sound:
  assumes "buf_ok b" "length xs < size_mod"
    and "obind (cbb_buffer_add mall (length xs)) (\<lambda>p b. (Some (), b\<lparr>b_buf := store (b_buf b) p xs\<rparr>)) b = (Some a, b')"
  shows "buf_ok b' \<and> same_buf b b' \<and> b_bytes b' = b_bytes b @ xs \<and> b_len b' = b_len b + length xs"
proof -
  from assms(3) obtain p b1 where a: "cbb_buffer_add mall (length xs) b = (Some p, b1)"
    and b': "b' = b1\<lparr>b_buf := store (b_buf b1) p xs\<rparr>" by (auto simp: obind_eq_Some)
  note s = add_sound [OF assms(1,2) a]
  show ?thesis unfolding b' s(1)
    using stored_bytes [OF s(3,2,4)] assms(1) s(2,5) by (simp add: same_buf_def)
qed

lemma CBB_add_bytes_writes:
  assumes "CBB_ready d c" "len \<le> length data" "len < size_mod" "CBB_add_bytes mall d data len c = (Some u, c')"
  shows "writes d c (take len data) c' \<and> length (chain c') = d"
proof -
  have l: "length (take len data) = len" using assms(2) by simp
  have a: "buf_ok b' \<and> same_buf b b' \<and> b_bytes b' = b_bytes b @ take len data"
    if "buf_ok b"
      "obind (cbb_buffer_add mall len) (\<lambda>dest b. (Some (), b\<lparr>b_buf := store (b_buf b) dest (take len data)\<rparr>)) b = (Some a, b')"
    for b b' a
    using added_store_sound [OF that(1), of "take len data" mall a b', unfolded l, OF assms(3) that(2)] by blast
  show ?thesis
    by (rule flush_then_writes [OF assms(1) assms(4) [unfolded CBB_add_bytes_def on_base_assoc]])
      (rule a)
qed

lemma CBB_add_zeros_writes:
  assumes "CBB_ready d c" "len < size_mod" "CBB_add_zeros mall d len c = (Some u, c')"
  shows "writes d c (replicate len 0) c' \<and> length (chain c') = d"
proof -
  have a: "buf_ok b' \<and> same_buf b b' \<and> b_bytes b' = b_bytes b @ replicate len 0"
    if "buf_ok b"
      "obind (cbb_buffer_add mall len) (\<lambda>dest b. (Some (), b\<lparr>b_buf := store (b_buf b) dest (replicate len 0)\<rparr>)) b = (Some a, b')"
    for b b' a
    using added_store_sound [OF that(1), of "replicate len 0" mall a b'] assms(2) that(2) by simp
  show ?thesis
    by (rule flush_then_writes [OF assms(1)
          assms(3) [unfolded CBB_add_zeros_def CBB_add_space_def obind_assoc_othen on_base_assoc]])
      (rule a)
qed

end
