(* ===== verification/DER_Types.thy ===== *)
theory DER_Types
  imports DER_Codec
begin

text \<open>
  The element readers as codecs of tag and contents, and the typed readers: INTEGER contents as the
  shortest two's complement form \<open>der_int\<close>, the 64-bit readers, BOOLEAN, and OPTIONAL fields.
\<close>

subsection \<open>Elements\<close>

definition any_asn1_view :: "(CBS, u32 \<times> u8 list) prog" where
  "any_asn1_view = obind CBS_get_any_asn1 (\<lambda>(out, tag). oret (tag, CBS_view out))"

lemma skip_header_eq:
  "skip_header out hl s = (if cbs_len out < hl then None else Some (advance hl out), s)"
  by (simp add: skip_header_def CBS_skip_eq)

lemma wf_CBS_init: "n \<le> length d \<Longrightarrow> wf_cbs (CBS_init d n)"
  by (simp add: wf_cbs_def CBS_init_def)

lemma view_CBS_init: "CBS_view (CBS_init d n) = take n d"
  by (simp add: CBS_view_def CBS_init_def)

lemma take_data: "m \<le> cbs_len c \<Longrightarrow> take m (cbs_data c) = take m (CBS_view c)"
  by (simp add: CBS_view_def min_absorb1)

lemma take_der_element:
  assumes "wf_cbs c" "CBS_view c = der_element (tag, xs) @ rest"
  shows "cbs_len c = length (der_element (tag, xs)) + length rest"
    "CBS_view c = der_tag tag @ der_len (length xs) @ xs @ rest"
  using assms length_view [OF assms(1)] by (simp_all add: der_element_def)

lemma element_read:
  assumes wf: "wf_cbs c" and n: "length xs < 2 ^ 32"
    and view: "CBS_view c = der_element (tag, xs) @ rest"
  defines "hl \<equiv> length (der_tag tag @ der_len (length xs))"
  shows "CBS_get_any_asn1_element c =
      (Some (CBS_init (cbs_data c) (hl + length xs), tag, hl), advance (hl + length xs) c)"
    and "skip_header (CBS_init (cbs_data c) (hl + length xs)) hl s =
      (Some (advance hl (CBS_init (cbs_data c) (hl + length xs))), s)"
    and "CBS_view (advance hl (CBS_init (cbs_data c) (hl + length xs))) = xs"
    and "CBS_view (CBS_init (cbs_data c) (hl + length xs)) = der_element (tag, xs)"
    and "wf_cbs (CBS_init (cbs_data c) (hl + length xs))"
    and "CBS_view (advance (hl + length xs) c) = rest"
proof -
  note v = take_der_element [OF wf view]
  have hl: "hl + length xs = length (der_element (tag, xs))" by (simp add: hl_def der_element_def)
  show "CBS_get_any_asn1_element c =
      (Some (CBS_init (cbs_data c) (hl + length xs), tag, hl), advance (hl + length xs) c)"
    using get_element_complete [OF wf n refl v(2)]
    by (simp add: CBS_get_any_asn1_element_def obind_def oret_def hl_def)
  show "skip_header (CBS_init (cbs_data c) (hl + length xs)) hl s =
      (Some (advance hl (CBS_init (cbs_data c) (hl + length xs))), s)"
    by (simp add: skip_header_def CBS_skip_eq)
  have l: "hl + length xs \<le> cbs_len c" using v(1) hl by simp
  have t: "take (hl + length xs) (cbs_data c) = der_element (tag, xs)"
    using take_data [OF l] view hl by simp
  then show "CBS_view (CBS_init (cbs_data c) (hl + length xs)) = der_element (tag, xs)"
    by (simp add: view_CBS_init)
  then show "CBS_view (advance hl (CBS_init (cbs_data c) (hl + length xs))) = xs"
    by (simp add: der_element_def hl_def)
  show "wf_cbs (CBS_init (cbs_data c) (hl + length xs))"
    using wf l by (intro wf_CBS_init) (simp add: wf_cbs_def)
  show "CBS_view (advance (hl + length xs) c) = rest" using view hl by simp
qed

lemma CBS_get_any_asn1_complete:
  assumes "wf_cbs c" "length xs < 2 ^ 32" "CBS_view c = der_element (tag, xs) @ rest"
  shows "\<exists>out c'. CBS_get_any_asn1 c = (Some (out, tag), c') \<and> wf_cbs out \<and> CBS_view out = xs \<and>
    wf_cbs c' \<and> CBS_view c' = rest"
  using element_read [OF assms] assms(1)
  by (simp add: CBS_get_any_asn1_def obind_def oret_def del: view_advance)

lemma CBS_get_asn1_complete:
  assumes "wf_cbs c" "length xs < 2 ^ 32" "CBS_view c = der_element (tag, xs) @ rest"
  shows "\<exists>out c'. CBS_get_asn1 tag c = (Some out, c') \<and> wf_cbs out \<and> CBS_view out = xs \<and>
    wf_cbs c' \<and> CBS_view c' = rest"
  using element_read [OF assms] assms(1)
  by (simp add: CBS_get_asn1_def cbs_get_asn1_def obind_def oret_def del: view_advance)

lemma CBS_get_asn1_element_complete:
  assumes "wf_cbs c" "length xs < 2 ^ 32" "CBS_view c = der_element (tag, xs) @ rest"
  shows "\<exists>out c'. CBS_get_asn1_element tag c = (Some out, c') \<and> wf_cbs out \<and>
    CBS_view out = der_element (tag, xs) \<and> wf_cbs c' \<and> CBS_view c' = rest"
  using element_read [OF assms] assms(1)
  by (simp add: CBS_get_asn1_element_def cbs_get_asn1_def obind_def oret_def del: view_advance)

lemma element_sound:
  assumes wf: "wf_cbs c" and r: "CBS_get_any_asn1_element c = (Some (out, tag, hl), c')"
  obtains xs where "length xs < 2 ^ 32" "CBS_view c = der_element (tag, xs) @ CBS_view c'" "wf_cbs c'"
    "wf_cbs out" "CBS_view out = der_element (tag, xs)" "CBS_view (advance hl out) = xs" "hl \<le> cbs_len out"
proof -
  from r obtain ber where "cbs_get_any_asn1_element False c = (Some (out, tag, hl, ber), c')"
    by (auto simp: CBS_get_any_asn1_element_def obind_eq_Some oret_def)
  from get_element_sound [OF wf this] obtain n where n: "n < 2 ^ 32"
      "hl = length (der_tag tag @ der_len n)" "hl + n \<le> cbs_len c"
      "take hl (CBS_view c) = der_tag tag @ der_len n"
      "out = CBS_init (cbs_data c) (hl + n)" "c' = advance (hl + n) c" by metis
  define xs where "xs = take n (drop hl (CBS_view c))"
  have l: "length xs = n" using n(3) wf by (simp add: xs_def)
  have v: "take (hl + n) (CBS_view c) = der_element (tag, xs)"
    using n(4) l by (simp add: take_add xs_def der_element_def)
  have view: "CBS_view c = der_element (tag, xs) @ CBS_view c'"
    using v n(6) by (metis append_take_drop_id view_advance)
  have "length xs < 2 ^ 32" using l n(1) by simp
  note e = element_read [OF wf this view]
  show thesis
    using that [OF \<open>length xs < 2 ^ 32\<close> view] e wf n l by (simp del: view_advance)
qed

interpretation element_codec: canonical_codec CBS_view wf_cbs cbs_of any_asn1_view der_element
  "\<lambda>(tag, xs). length xs < 2 ^ 32"
proof unfold_locales
  fix s rest and e :: "u32 \<times> u8 list"
  assume "wf_cbs s" "case e of (tag, xs) \<Rightarrow> length xs < 2 ^ 32" "CBS_view s = der_element e @ rest"
  then show "\<exists>s'. any_asn1_view s = (Some e, s') \<and> wf_cbs s' \<and> CBS_view s' = rest"
    using CBS_get_any_asn1_complete [of s "snd e" "fst e" rest]
    by (cases e) (auto simp: any_asn1_view_def oret_def)
next
  fix s s' and e :: "u32 \<times> u8 list"
  assume wf: "wf_cbs s" and r: "any_asn1_view s = (Some e, s')"
  from r obtain out tag hl out' where g: "CBS_get_any_asn1_element s = (Some (out, tag, hl), s')"
    "skip_header out hl s' = (Some out', s')" and e: "e = (tag, CBS_view out')"
    by (auto simp: any_asn1_view_def CBS_get_any_asn1_def obind_eq_Some oret_def skip_header_eq
        split: prod.splits if_splits)
  from element_sound [OF wf g(1)] obtain xs where xs: "length xs < 2 ^ 32"
    "CBS_view s = der_element (tag, xs) @ CBS_view s'" "wf_cbs s'"
    "CBS_view (advance hl out) = xs" "hl \<le> cbs_len out" by metis
  moreover have "out' = advance hl out"
    using g(2) xs(5) by (auto simp: skip_header_eq)
  ultimately show "(case e of (tag, xs) \<Rightarrow> length xs < 2 ^ 32) \<and> wf_cbs s' \<and>
      CBS_view s = der_element e @ CBS_view s'"
    using e by simp
qed simp_all

interpretation element_stream: progressing_codec CBS_view wf_cbs cbs_of any_asn1_view der_element
  "\<lambda>(tag, xs). length xs < 2 ^ 32"
  by unfold_locales (auto simp: der_element_def der_tag_nonempty)

subsection \<open>INTEGER contents\<close>

definition int_of_bytes :: "u8 list \<Rightarrow> int" where
  "int_of_bytes bs = (case bs of [] \<Rightarrow> 0 | b # cs \<Rightarrow> foldl (\<lambda>a c. a * 256 + uint c) (sint b) cs)"

text \<open>The first nine bits of the contents are not all equal (X.690, 8.3.2).\<close>

definition minimal_int :: "u8 list \<Rightarrow> bool" where
  "minimal_int bs \<longleftrightarrow>
     (case bs of
        [] \<Rightarrow> False
      | [b] \<Rightarrow> True
      | b # c # _ \<Rightarrow> \<not> (b = 0 \<and> unat c < 128 \<or> b = 0xff \<and> 128 \<le> unat c))"

function der_int :: "int \<Rightarrow> u8 list" where
  "der_int i =
     (if -128 \<le> i \<and> i < 128 then [word_of_int i]
      else der_int (i div 256) @ [word_of_int (i mod 256)])"
  by pat_completeness auto
termination
  by (relation "measure (\<lambda>i. nat \<bar>i\<bar>)") (auto simp: nat_less_iff abs_if)

declare der_int.simps [simp del]

lemma int_of_bytes_single [simp]: "int_of_bytes [b] = sint b"
  by (simp add: int_of_bytes_def)

lemma int_of_bytes_snoc: "cs \<noteq> [] \<Longrightarrow> int_of_bytes (cs @ [b]) = int_of_bytes cs * 256 + uint b"
  by (auto simp: int_of_bytes_def split: list.splits)

lemma uint_range_u8: "0 \<le> uint (b :: u8)" "uint (b :: u8) < 256"
  using uint_bounded [of b] by simp_all

lemma sint_range_u8: "-128 \<le> sint (b :: u8)" "sint (b :: u8) < 128"
  using sint_ge [of b] sint_lt [of b] by simp_all

lemma sint_u8: "sint (b :: u8) = (if uint b < 128 then uint b else uint b - 256)"
proof -
  have "sint b = (uint b + 128) mod 256 - 128"
    by (simp add: sint_uint signed_take_bit_eq_take_bit_shift take_bit_eq_mod)
  moreover have "(uint b + 128) mod 256 = (if uint b < 128 then uint b + 128 else uint b - 128)"
  proof (cases "uint b < 128")
    case False
    have e: "uint b + 128 = uint b - 128 + 256" by simp
    have "(uint b + 128) mod 256 = (uint b - 128) mod 256" by (simp only: e mod_add_self2)
    also have "\<dots> = uint b - 128"
      using False uint_range_u8 [of b] by (intro mod_pos_pos_trivial) simp_all
    finally show ?thesis using False by simp
  qed (use uint_range_u8 [of b] in simp)
  ultimately show ?thesis by simp
qed

lemma word_of_int_sint [simp]: "word_of_int (sint b) = (b :: u8)"
  by simp

lemma der_int_small: "-128 \<le> i \<Longrightarrow> i < 128 \<Longrightarrow> der_int i = [word_of_int i]"
  by (simp add: der_int.simps [of i])

lemma der_int_large: "\<not> (-128 \<le> i \<and> i < 128) \<Longrightarrow>
    der_int i = der_int (i div 256) @ [word_of_int (i mod 256)]"
  by (simp only: der_int.simps [of i] if_False)

lemma der_int_nonempty: "der_int i \<noteq> []"
  by (simp add: der_int.simps [of i])

lemma uint_word_of_int_u8: "uint (word_of_int (i mod 256) :: u8) = i mod 256"
  by (simp add: uint_word_of_int)

lemma int_of_der_int: "int_of_bytes (der_int i) = i"
proof (induction i rule: der_int.induct)
  case (1 i)
  show ?case
  proof (cases "-128 \<le> i \<and> i < 128")
    case True
    have "uint (word_of_int i :: u8) = i mod 256" by (simp add: uint_word_of_int)
    also have "\<dots> = (if i < 0 then i + 256 else i)"
    proof (cases "i < 0")
      case neg: True
      have "i mod 256 = (i + 256) mod 256" by simp
      also have "\<dots> = i + 256" using True neg by (intro mod_pos_pos_trivial) auto
      finally show ?thesis using neg by simp
    qed (use True in simp)
    finally have "sint (word_of_int i :: u8) = i" using True by (simp add: sint_u8)
    with True show ?thesis by (simp add: der_int_small)
  next
    case False
    with 1 show ?thesis
      by (simp add: der_int_large int_of_bytes_snoc der_int_nonempty uint_word_of_int_u8)
  qed
qed

lemma minimal_snoc:
  assumes "length cs \<ge> 2"
  shows "minimal_int (cs @ [b]) = minimal_int cs"
  using assms by (cases cs; cases "tl cs") (auto simp: minimal_int_def)

lemma int_range_append: "\<not> (-128 \<le> v \<and> v < 128) \<Longrightarrow> 0 \<le> b \<Longrightarrow> b < 256 \<Longrightarrow> \<not> (-128 \<le> v * 256 + b \<and> v * 256 + b < (128::int))"
  by linarith

lemma two_byte_arith:
  fixes x y :: int
  assumes "0 \<le> y" "y < 256"
  shows "\<not> (x = 0 \<and> y < 128 \<or> x = -1 \<and> 128 \<le> y) \<longleftrightarrow> \<not> (-128 \<le> x * 256 + y \<and> x * 256 + y < 128)"
proof -
  consider "x \<le> -2" | "x = -1" | "x = 0" | "1 \<le> x" by linarith
  then show ?thesis using assms by cases auto
qed

lemma unat_le_u8: "128 \<le> unat b \<longleftrightarrow> 128 \<le> uint b" "unat b < 128 \<longleftrightarrow> uint b < 128" for b :: u8
proof -
  have "int (unat b) = uint b" by simp
  then show "128 \<le> unat b \<longleftrightarrow> 128 \<le> uint b" "unat b < 128 \<longleftrightarrow> uint b < 128" by linarith+
qed

lemma two_byte_range:
  "minimal_int [c, b] \<longleftrightarrow> \<not> (-128 \<le> sint c * 256 + uint b \<and> sint c * 256 + uint b < 128)"
proof -
  have c0: "c = 0 \<longleftrightarrow> sint c = 0"
    using uint_range_u8 [of c] by (auto simp: sint_u8 word_uint_eq_iff split: if_splits)
  have "c = 0xff \<longleftrightarrow> uint c = 255" by (simp add: word_uint_eq_iff)
  moreover have "sint c = -1 \<longleftrightarrow> uint c = 255"
  proof (cases "uint c < 128")
    case True
    then have "sint c = uint c" by (simp add: sint_u8)
    then have "sint c \<noteq> -1" using uint_range_u8(1) [of c] by linarith
    then show ?thesis using True by simp
  next
    case False
    then have "sint c = uint c - 256" by (simp add: sint_u8)
    then show ?thesis by auto
  qed
  ultimately have c255: "c = 0xff \<longleftrightarrow> sint c = -1" by simp
  show ?thesis
    unfolding minimal_int_def list.case c0 c255 unat_le_u8
    by (rule two_byte_arith [OF uint_range_u8])
qed

lemma der_int_of_bytes: "minimal_int bs \<Longrightarrow> der_int (int_of_bytes bs) = bs"
proof (induction bs rule: rev_induct)
  case Nil
  then show ?case by (simp add: minimal_int_def)
next
  case (snoc b cs)
  let ?v = "int_of_bytes cs * 256 + uint b"
  note r = uint_range_u8 [of b]
  have dm: "?v div 256 = int_of_bytes cs" "?v mod 256 = uint b" using r by simp_all
  consider "cs = []" | c where "cs = [c]" | "length cs \<ge> 2"
    by (cases cs; cases "tl cs") auto
  then show ?case
  proof cases
    case 1
    then show ?thesis using sint_range_u8 [of b] by (simp add: der_int_small)
  next
    case 2
    then have v: "int_of_bytes (cs @ [b]) = ?v" using int_of_bytes_snoc [of cs b] by simp
    have "\<not> (-128 \<le> ?v \<and> ?v < 128)"
      using snoc.prems two_byte_range [of c b] 2 by simp
    then show ?thesis
      using 2 sint_range_u8 [of c] dm unfolding v by (simp add: der_int_large der_int_small)
  next
    case 3
    then have min: "minimal_int cs" using snoc.prems by (simp add: minimal_snoc)
    then have IH: "der_int (int_of_bytes cs) = cs" using snoc.IH by simp
    have "\<not> (-128 \<le> int_of_bytes cs \<and> int_of_bytes cs < 128)"
    proof
      assume "-128 \<le> int_of_bytes cs \<and> int_of_bytes cs < 128"
      then have "length (der_int (int_of_bytes cs)) = 1" by (simp add: der_int_small)
      with IH 3 show False by simp
    qed
    then have big: "\<not> (-128 \<le> ?v \<and> ?v < 128)" using r by (rule int_range_append)
    have "cs \<noteq> []" using 3 by auto
    then show ?thesis using IH big dm by (simp add: int_of_bytes_snoc der_int_large)
  qed
qed

lemma minimal_der_int: "minimal_int (der_int i)"
proof (induction i rule: der_int.induct)
  case (1 i)
  show ?case
  proof (cases "-128 \<le> i \<and> i < 128")
    case True
    then show ?thesis by (simp add: der_int_small minimal_int_def)
  next
    case False
    let ?cs = "der_int (i div 256)" and ?b = "word_of_int (i mod 256) :: u8"
    have e: "der_int i = ?cs @ [?b]" using False by (rule der_int_large)
    show ?thesis
    proof (cases "length ?cs \<ge> 2")
      case True
      then show ?thesis using 1 False e by (simp add: minimal_snoc)
    next
      case short: False
      then obtain c where c: "?cs = [c]"
        using der_int_nonempty [of "i div 256"] by (cases ?cs; cases "tl ?cs") auto
      have "sint c * 256 + uint ?b = i"
        using int_of_der_int [of "i div 256"] c by (simp add: uint_word_of_int_u8)
      then show ?thesis using two_byte_range [of c ?b] False e c by simp
    qed
  qed
qed

lemma minimal_int_iff: "minimal_int bs \<longleftrightarrow> bs = der_int (int_of_bytes bs)"
  using der_int_of_bytes minimal_der_int by metis

subsection \<open>The integer checks and readers\<close>

lemma CBS_get_u8_cases:
  assumes "wf_cbs c"
  shows "CBS_get_u8 c = (case CBS_view c of [] \<Rightarrow> (None, c) | b # _ \<Rightarrow> (Some b, advance 1 c))"
  using length_view [OF assms] by (cases "CBS_view c") (auto simp: CBS_get_u8_eq)

lemma scaled_neg: "0 \<le> u \<Longrightarrow> u < 256 \<Longrightarrow> a * 256 + u < 0 \<longleftrightarrow> a < (0 :: int)"
  by (cases "a < 0") auto

lemma int_of_bytes_neg:
  assumes "bs \<noteq> []"
  shows "int_of_bytes bs < 0 \<longleftrightarrow> 128 \<le> unat (hd bs)"
  using assms
proof (induction bs rule: rev_induct)
  case (snoc b cs)
  show ?case
  proof (cases "cs = []")
    case True
    have "128 \<le> unat b \<longleftrightarrow> \<not> uint b < 128" by (simp only: unat_le_u8 not_less)
    moreover have "sint b < 0 \<longleftrightarrow> \<not> uint b < 128"
      using sint_u8 [of b] uint_range_u8 [of b] by (cases "uint b < 128") simp_all
    ultimately show ?thesis using True by simp
  next
    case False
    have "int_of_bytes (cs @ [b]) < 0 \<longleftrightarrow> int_of_bytes cs < 0"
      unfolding int_of_bytes_snoc [OF False] by (rule scaled_neg [OF uint_range_u8])
    then show ?thesis using snoc.IH False by simp
  qed
qed simp

lemma is_valid_asn1_integer_eq:
  assumes "wf_cbs c"
  shows "CBS_is_valid_asn1_integer c =
    (if minimal_int (CBS_view c) then Some (int_of_bytes (CBS_view c) < 0) else None)"
proof (cases "CBS_view c")
  case Nil
  then show ?thesis
    using assms by (simp add: CBS_is_valid_asn1_integer_def CBS_get_u8_cases minimal_int_def)
next
  case (Cons b bs)
  have neg: "int_of_bytes (CBS_view c) < 0 \<longleftrightarrow> b AND 0x80 \<noteq> 0"
    using int_of_bytes_neg [of "CBS_view c"] Cons by (simp add: and_0x80)
  have d: "CBS_view (advance 1 c) = bs" using Cons by simp
  have d': "CBS_get_u8 (advance 1 c) = (case bs of [] \<Rightarrow> (None, advance 1 c) | b # _ \<Rightarrow> (Some b, advance 1 (advance 1 c)))"
    using CBS_get_u8_cases [of "advance 1 c"] assms d by simp
  show ?thesis
    unfolding neg using Cons assms d'
    by (auto simp: CBS_is_valid_asn1_integer_def CBS_get_u8_cases [OF assms] minimal_int_def
        and_0x80_eq_0 not_le split: list.splits)
qed

lemma uint64_loop_eq:
  "asn1_uint64_loop acc bs =
    (if unat acc * 256 ^ length bs + be_val bs < 2 ^ 64
     then Some (word_of_nat (unat acc * 256 ^ length bs + be_val bs)) else None)"
proof (induction bs arbitrary: acc)
  case Nil
  then show ?case using unat_less_64 [of acc] by simp
next
  case (Cons b bs)
  show ?case
  proof (cases "drop_bit 56 acc = 0")
    case True
    have "unat acc div 2 ^ 56 = 0" using True unat_drop_bit [of 56 acc] by simp
    then have "unat acc < 2 ^ 56" by (simp add: div_eq_0_iff)
    then have "unat (push_bit 8 acc OR ucast b) = unat acc * 256 + unat b"
      using unat_or_push_bit [of "ucast b :: u64" 8 acc] unat_less_256 [of b]
      by (simp add: unat_ucast_up)
    then show ?thesis
      using True by (simp add: Cons.IH be_val_Cons algebra_simps)
  next
    case False
    have "unat acc div 2 ^ 56 \<noteq> 0" using False unat_drop_bit [of 56 acc] by (metis unat_eq_0)
    then have "2 ^ 56 \<le> unat acc" by (simp add: div_eq_0_iff)
    then have "2 ^ 56 * 256 \<le> unat acc * 256 ^ length (b # bs)"
      by (intro mult_le_mono) simp_all
    then show ?thesis using False by simp
  qed
qed

lemma CBS_get_asn1_sound:
  assumes wf: "wf_cbs c" and r: "CBS_get_asn1 tag c = (Some out, c')"
  obtains "length (CBS_view out) < 2 ^ 32" "CBS_view c = der_element (tag, CBS_view out) @ CBS_view c'"
    "wf_cbs c'" "wf_cbs out"
proof -
  from r obtain e hl where g: "CBS_get_any_asn1_element c = (Some (e, tag, hl), c')"
    and o: "skip_header e hl c' = (Some out, c')"
    by (auto simp: CBS_get_asn1_def cbs_get_asn1_def obind_eq_Some ofail_def skip_header_eq
        split: if_splits)
  from element_sound [OF wf g] obtain xs where xs: "length xs < 2 ^ 32"
    "CBS_view c = der_element (tag, xs) @ CBS_view c'" "wf_cbs c'" "wf_cbs e"
    "CBS_view (advance hl e) = xs" by metis
  have "out = advance hl e" using o by (auto simp: skip_header_eq split: if_splits)
  with xs that show thesis by simp
qed

lemma length_der_int:
  "-(128 * 256 ^ k) \<le> i \<Longrightarrow> i < 128 * 256 ^ k \<Longrightarrow> length (der_int i) \<le> Suc k"
proof (induction k arbitrary: i)
  case 0
  then show ?case by (simp add: der_int_small)
next
  case (Suc k)
  show ?case
  proof (cases "-128 \<le> i \<and> i < 128")
    case False
    have "-(128 * 256 ^ k) \<le> i div 256" using Suc.prems(1) by simp
    moreover have "i div 256 < 128 * 256 ^ k" using Suc.prems(2) by simp
    ultimately show ?thesis using Suc.IH False by (simp add: der_int_large)
  qed (simp add: der_int_small)
qed

lemma scaled_wrap:
  fixes a v p u :: int
  assumes "a = v - (if a < 0 then p else 0)"
  shows "a * 256 + u = v * 256 + u - (if a < 0 then 256 * p else 0)"
proof (cases "a < 0")
  case True
  then have "a = v - p" using assms by simp
  then have "a * 256 = v * 256 - 256 * p" by algebra
  with True show ?thesis by simp
next
  case False
  then have "a = v" using assms by simp
  with False show ?thesis by simp
qed

lemma int_of_bytes_be_val:
  assumes "bs \<noteq> []"
  shows "int_of_bytes bs = int (be_val bs) - (if int_of_bytes bs < 0 then 256 ^ length bs else 0)"
  using assms
proof (induction bs rule: rev_induct)
  case (snoc b cs)
  have i: "int (be_val (cs @ [b])) = int (be_val cs) * 256 + uint b" by simp
  show ?case
  proof (cases "cs = []")
    case True
    have "sint b = uint b - (if sint b < 0 then 256 else 0)"
      using uint_range_u8 [of b] unfolding sint_u8 by (cases "uint b < 128") simp_all
    then show ?thesis using True i by (cases "sint b < 0") simp_all
  next
    case False
    have s: "int_of_bytes cs * 256 + uint b < 0 \<longleftrightarrow> int_of_bytes cs < 0"
      by (rule scaled_neg [OF uint_range_u8])
    have l: "(256 :: int) ^ length (cs @ [b]) = 256 * 256 ^ length cs" by simp
    show ?thesis
      unfolding int_of_bytes_snoc [OF False] s i l
      by (rule scaled_wrap [OF snoc.IH [OF False]])
  qed
qed simp

lemma be_val_nonneg: "bs \<noteq> [] \<Longrightarrow> 0 \<le> int_of_bytes bs \<Longrightarrow> int (be_val bs) = int_of_bytes bs"
  using int_of_bytes_be_val [of bs] by simp

lemma length_der_int_unat: "length (der_int (int (unat (v :: u64)))) \<le> Suc 8"
proof -
  define i where "i = int (unat v)"
  have "0 \<le> i" "i < 18446744073709551616"
    using unat_less_64 [of v] unfolding i_def by linarith+
  then show ?thesis unfolding i_def [symmetric] by (intro length_der_int) simp_all
qed

lemma take_CBS_view: "take (CBS_len c) (CBS_data c) = CBS_view c"
  by (simp add: CBS_len_def CBS_data_def CBS_view_def)

lemma unsigned_integer_eq:
  "wf_cbs c \<Longrightarrow> CBS_is_unsigned_asn1_integer c \<longleftrightarrow>
    minimal_int (CBS_view c) \<and> 0 \<le> int_of_bytes (CBS_view c)"
  by (auto simp: CBS_is_unsigned_asn1_integer_def is_valid_asn1_integer_eq)

interpretation uint64_codec: canonical_codec CBS_view wf_cbs cbs_of CBS_get_asn1_uint64
  "\<lambda>v. der_element (CBS_ASN1_INTEGER, der_int (int (unat v)))" "\<lambda>_. True"
proof unfold_locales
  fix s rest and v :: u64
  let ?xs = "der_int (int (unat v))"
  assume wf: "wf_cbs s" and view: "CBS_view s = der_element (CBS_ASN1_INTEGER, ?xs) @ rest"
  have "length ?xs \<le> Suc 8" by (rule length_der_int_unat)
  then have "length ?xs < 2 ^ 32" by simp
  from CBS_get_asn1_complete [OF wf this view] obtain out s' where
    o: "CBS_get_asn1 CBS_ASN1_INTEGER s = (Some out, s')" "wf_cbs out" "CBS_view out = ?xs"
      "wf_cbs s'" "CBS_view s' = rest" by auto
  have "int (be_val ?xs) = int (unat v)"
    using be_val_nonneg [OF der_int_nonempty, of "int (unat v)"] by (simp only: int_of_der_int)
  then have "be_val ?xs = unat v" by (simp only: of_nat_eq_iff)
  then have "asn1_uint64_loop 0 ?xs = Some v"
    using unat_less_64 [of v] by (simp add: uint64_loop_eq)
  then show "\<exists>s'. CBS_get_asn1_uint64 s = (Some v, s') \<and> wf_cbs s' \<and> CBS_view s' = rest"
    using o by (simp add: CBS_get_asn1_uint64_def obind_def unsigned_integer_eq minimal_der_int
        int_of_der_int take_CBS_view oret_def)
next
  fix s s' and v :: u64
  assume wf: "wf_cbs s" and r: "CBS_get_asn1_uint64 s = (Some v, s')"
  from r obtain out where g: "CBS_get_asn1 CBS_ASN1_INTEGER s = (Some out, s')"
    and u: "CBS_is_unsigned_asn1_integer out" and l: "asn1_uint64_loop 0 (CBS_view out) = Some v"
    by (auto simp: CBS_get_asn1_uint64_def obind_eq_Some ofail_def oret_def take_CBS_view
        split: if_splits option.splits)
  from CBS_get_asn1_sound [OF wf g] have o: "wf_cbs out" "wf_cbs s'"
    "CBS_view s = der_element (CBS_ASN1_INTEGER, CBS_view out) @ CBS_view s'" by auto
  have m: "minimal_int (CBS_view out)" "0 \<le> int_of_bytes (CBS_view out)"
    using u o(1) by (simp_all add: unsigned_integer_eq)
  have "be_val (CBS_view out) < 2 ^ 64" "v = word_of_nat (be_val (CBS_view out))"
    using l by (simp_all add: uint64_loop_eq split: if_splits)
  then have "unat v = be_val (CBS_view out)" by (simp add: unat_word_of_nat)
  moreover have "int (be_val (CBS_view out)) = int_of_bytes (CBS_view out)"
    using m by (intro be_val_nonneg) (auto simp: minimal_int_def)
  ultimately have "der_int (int (unat v)) = CBS_view out"
    using der_int_of_bytes [OF m(1)] by simp
  then show "True \<and> wf_cbs s' \<and>
      CBS_view s = der_element (CBS_ASN1_INTEGER, der_int (int (unat v))) @ CBS_view s'"
    using o by simp
qed simp_all

text \<open>The signed reader: the bytes of the \<open>union\<close> are the sign-extended contents.\<close>

lemma sign_extend_loop:
  assumes "n \<le> length bs" "length bs \<le> 8" "\<And>j. j < length bs \<Longrightarrow> data ! j = bs ! j"
  shows "foldl (\<lambda>u i. u[i := data ! (length bs - i - 1)]) (replicate 8 fill) [0..<n] =
    rev (drop (length bs - n) bs) @ replicate (8 - n) fill"
  using assms(1)
proof (induction n)
  case (Suc n)
  let ?m = "length bs - Suc n"
  have d: "drop ?m bs = bs ! ?m # drop (length bs - n) bs"
    using Suc.prems Cons_nth_drop_Suc [of ?m bs] by (simp add: Suc_diff_Suc)
  have r: "replicate (8 - n) fill = fill # replicate (8 - Suc n) fill"
    using Suc.prems assms(2) by (metis Suc_diff_Suc Suc_le_lessD order_less_le_trans replicate_Suc)
  have l: "length (rev (drop (length bs - n) bs)) = n" using Suc.prems by simp
  have e: "data ! ?m = bs ! ?m" using Suc.prems by (intro assms(3)) simp
  show ?case
    using Suc l by (simp add: d r e list_update_append)
qed simp

lemma be_val_sign_extend:
  assumes "bs \<noteq> []" "length bs \<le> 8"
  defines "fill \<equiv> if int_of_bytes bs < 0 then 0xff else 0 :: u8"
  shows "word_of_nat (be_val (replicate (8 - length bs) fill @ bs)) = (word_of_int (int_of_bytes bs) :: u64)"
proof -
  let ?k = "8 - length bs"
  let ?n = "be_val (replicate ?k fill @ bs)"
  have n: "int ?n = int_of_bytes bs + (if int_of_bytes bs < 0 then 18446744073709551616 else 0)"
  proof (cases "int_of_bytes bs < 0")
    case False
    then have "fill = 0" by (simp add: fill_def)
    then have "?n = be_val bs" by (simp only: be_val_append be_val_zeros mult_0 add_0)
    then have "int ?n = int_of_bytes bs" using be_val_nonneg [OF assms(1)] False by (simp only: not_less)
    with False show ?thesis by (simp only: if_False add_0_right)
  next
    case True
    define p q where "p = (256 :: nat) ^ length bs" and "q = be_val (replicate ?k 0xff)"
    have "256 ^ ?k * p = (256 :: nat) ^ 8" unfolding p_def using assms(2) by (simp flip: power_add)
    moreover have "q + 1 = 256 ^ ?k" unfolding q_def by (rule be_val_ones)
    ultimately have "(q + 1) * p = 256 ^ 8" by simp
    then have "q * p + p = 18446744073709551616" by simp
    then have "int (q * p) + int p = 18446744073709551616" by (simp only: flip: of_nat_add)
    moreover have "int (be_val bs) = int_of_bytes bs + int p"
      using int_of_bytes_be_val [OF assms(1)] True by (simp add: p_def)
    moreover have "fill = 0xff" using True by (simp add: fill_def)
    then have "?n = q * p + be_val bs" by (simp only: be_val_append p_def q_def)
    ultimately show ?thesis using True by (simp only: if_True of_nat_add)
  qed
  have "(word_of_nat ?n :: u64) = word_of_int (int ?n)" by simp
  also have "\<dots> = word_of_int (int_of_bytes bs)"
    unfolding n by (simp add: word_of_int_eq_iff take_bit_eq_mod)
  finally show ?thesis .
qed

lemma int_of_bytes_range:
  "length bs = Suc k \<Longrightarrow> -(128 * 256 ^ k) \<le> int_of_bytes bs \<and> int_of_bytes bs < 128 * 256 ^ k"
proof (induction k arbitrary: bs)
  case 0
  then obtain b where "bs = [b]" by (metis length_0_conv length_Suc_conv)
  then show ?case using sint_range_u8 [of b] by simp
next
  case (Suc k)
  then obtain cs b where bs: "bs = cs @ [b]" and l: "length cs = Suc k"
    by (metis length_Suc_conv_rev)
  then have ne: "cs \<noteq> []" by auto
  have arith: "-(128 * (256 * p)) \<le> a * 256 + u \<and> a * 256 + u < 128 * (256 * p)"
    if "-(128 * p) \<le> a \<and> a < 128 * p" "0 \<le> u" "u < 256" for a u p :: int
    using that by linarith
  show ?case unfolding bs int_of_bytes_snoc [OF ne] power_Suc
    by (rule arith [OF Suc.IH [OF l] uint_range_u8])
qed

lemma int_of_bytes_range64:
  assumes "bs \<noteq> []" "length bs \<le> 8"
  shows "-(2 ^ 63) \<le> int_of_bytes bs" "int_of_bytes bs < 2 ^ 63"
proof -
  obtain k where k: "length bs = Suc k" using assms(1) by (cases bs) auto
  then have "(256 :: int) ^ k \<le> 256 ^ 7" using assms(2) by (intro power_increasing) auto
  moreover have "128 * 256 ^ 7 = (2 :: int) ^ 63" by simp
  ultimately show "-(2 ^ 63) \<le> int_of_bytes bs" "int_of_bytes bs < 2 ^ 63"
    using int_of_bytes_range [OF k] by linarith+
qed

lemma sint_word_of_int_64: "-(2 ^ 63) \<le> i \<Longrightarrow> i < 2 ^ 63 \<Longrightarrow> sint (word_of_int i :: u64) = i"
  by (subst int_word_sint) (simp add: mod_pos_pos_trivial)

lemma sint_range_64: "-(2 ^ 63) \<le> sint (v :: u64)" "sint v < 2 ^ 63"
  using sint_ge [of v] sint_lt [of v] by simp_all

lemma length_der_int_sint: "length (der_int (sint (v :: u64))) \<le> 8"
  using length_der_int [of 7 "sint v"] sint_range_64 [of v] by simp

lemma asn1_int64_body:
  assumes "wf_cbs bytes" "minimal_int (CBS_view bytes)" "cbs_len bytes \<le> 8"
  shows "of_le_bytes8 (foldl (\<lambda>u i. u[i := CBS_data bytes ! (CBS_len bytes - i - 1)])
      (replicate 8 (if int_of_bytes (CBS_view bytes) < 0 then 0xff else 0)) [0..<CBS_len bytes])
    = word_of_int (int_of_bytes (CBS_view bytes))"
proof -
  let ?bs = "CBS_view bytes"
  let ?fill = "if int_of_bytes ?bs < 0 then 0xff else 0 :: u8"
  have l: "CBS_len bytes = length ?bs" using assms(1) by (simp add: CBS_len_def)
  have "length ?bs \<le> 8" using assms(1,3) by simp
  then have "foldl (\<lambda>u i. u[i := CBS_data bytes ! (length ?bs - i - 1)]) (replicate 8 ?fill) [0..<length ?bs]
      = rev (drop (length ?bs - length ?bs) ?bs) @ replicate (8 - length ?bs) ?fill"
    using assms(1) by (intro sign_extend_loop) (simp_all add: CBS_data_def nth_view)
  moreover have "?bs \<noteq> []" using assms(2) by (auto simp: minimal_int_def)
  ultimately show ?thesis
    using be_val_sign_extend [OF _ \<open>length ?bs \<le> 8\<close>] by (simp add: l of_le_bytes8_def)
qed

lemma CBS_get_asn1_int64_eq:
  assumes "CBS_get_asn1 CBS_ASN1_INTEGER c = (Some bytes, c')" "wf_cbs bytes"
  shows "CBS_get_asn1_int64 c =
    (if minimal_int (CBS_view bytes) \<and> cbs_len bytes \<le> 8
     then Some (word_of_int (int_of_bytes (CBS_view bytes))) else None, c')"
proof (cases "minimal_int (CBS_view bytes) \<and> cbs_len bytes \<le> 8")
  case True
  then show ?thesis
    using assms asn1_int64_body [OF assms(2)]
    by (simp add: CBS_get_asn1_int64_def obind_def is_valid_asn1_integer_eq Let_def CBS_len_def oret_def)
next
  case False
  then show ?thesis
    using assms
    by (auto simp: CBS_get_asn1_int64_def obind_def is_valid_asn1_integer_eq Let_def CBS_len_def ofail_def)
qed

interpretation int64_codec: canonical_codec CBS_view wf_cbs cbs_of CBS_get_asn1_int64
  "\<lambda>v. der_element (CBS_ASN1_INTEGER, der_int (sint v))" "\<lambda>_. True"
proof unfold_locales
  fix s rest and v :: u64
  let ?xs = "der_int (sint v)"
  assume wf: "wf_cbs s" and view: "CBS_view s = der_element (CBS_ASN1_INTEGER, ?xs) @ rest"
  have l: "length ?xs \<le> 8" by (rule length_der_int_sint)
  then have "length ?xs < 2 ^ 32" by simp
  from CBS_get_asn1_complete [OF wf this view] obtain out s' where
    o: "CBS_get_asn1 CBS_ASN1_INTEGER s = (Some out, s')" "wf_cbs out" "CBS_view out = ?xs"
      "wf_cbs s'" "CBS_view s' = rest" by auto
  have "cbs_len out \<le> 8" using l o(2,3) by (metis length_view)
  then show "\<exists>s'. CBS_get_asn1_int64 s = (Some v, s') \<and> wf_cbs s' \<and> CBS_view s' = rest"
    using o by (simp add: CBS_get_asn1_int64_eq [OF o(1,2)] minimal_der_int int_of_der_int)
next
  fix s s' and v :: u64
  assume wf: "wf_cbs s" and r: "CBS_get_asn1_int64 s = (Some v, s')"
  from r obtain out t where g: "CBS_get_asn1 CBS_ASN1_INTEGER s = (Some out, t)"
    unfolding CBS_get_asn1_int64_def obind_eq_Some by blast
  from CBS_get_asn1_sound [OF wf g] have o: "wf_cbs out" "wf_cbs t"
    "CBS_view s = der_element (CBS_ASN1_INTEGER, CBS_view out) @ CBS_view t" by auto
  let ?bs = "CBS_view out"
  have m: "minimal_int ?bs" "cbs_len out \<le> 8" "v = word_of_int (int_of_bytes ?bs)" "t = s'"
    using r unfolding CBS_get_asn1_int64_eq [OF g o(1)] by (auto split: if_splits)
  have "?bs \<noteq> []" "length ?bs \<le> 8" using m o(1) by (auto simp: minimal_int_def)
  then have "sint v = int_of_bytes ?bs"
    using int_of_bytes_range64 [of ?bs] unfolding m(3) by (intro sint_word_of_int_64)
  then show "True \<and> wf_cbs s' \<and>
      CBS_view s = der_element (CBS_ASN1_INTEGER, der_int (sint v)) @ CBS_view s'"
    using o m(4) der_int_of_bytes [OF m(1)] by simp
qed simp_all

end
