(* ===== verification/DER_Fields.thy ===== *)
theory DER_Fields
  imports DER_Types
begin

text \<open>
  Correctness of the remaining typed readers of \<open>CBS_ASN1\<close>: BOOLEAN as a canonical codec, OPTIONAL
  fields with their defaults, and BIT STRING contents, whose bits are numbered from the most
  significant bit of the first content byte.
\<close>

subsection \<open>BOOLEAN\<close>

definition der_bool :: "bool \<Rightarrow> u8 list" where
  "der_bool b = der_element (CBS_ASN1_BOOLEAN, [if b then 0xff else 0])"

lemma CBS_get_asn1_bool_eq:
  assumes "CBS_get_asn1 CBS_ASN1_BOOLEAN c = (Some bytes, c')" "wf_cbs bytes"
  shows "CBS_get_asn1_bool c =
    (if CBS_view bytes = [0xff] then Some True
     else if CBS_view bytes = [0] then Some False else None, c')"
proof (cases "cbs_len bytes = 1")
  case True
  then obtain b where b: "CBS_view bytes = [b]"
    using length_view [OF assms(2)] by (metis length_0_conv length_Suc_conv One_nat_def)
  have "cbs_data bytes ! 0 = b" using nth_view [of 0 bytes] True b by simp
  then show ?thesis using True assms(1) b
    by (simp add: CBS_get_asn1_bool_def obind_def CBS_len_def CBS_data_def Let_def ofail_def oret_def)
next
  case False
  then have "CBS_view bytes \<noteq> [b]" for b using length_view [OF assms(2)] by auto
  then show ?thesis using False assms(1)
    by (simp add: CBS_get_asn1_bool_def obind_def CBS_len_def ofail_def)
qed

interpretation bool_codec: canonical_codec CBS_view wf_cbs cbs_of CBS_get_asn1_bool der_bool "\<lambda>_. True"
proof unfold_locales
  fix s rest b assume wf: "wf_cbs s" and v: "CBS_view s = der_bool b @ rest"
  from CBS_get_asn1_complete [OF wf _ v [unfolded der_bool_def]] obtain out s' where
    o: "CBS_get_asn1 CBS_ASN1_BOOLEAN s = (Some out, s')" "wf_cbs out"
      "CBS_view out = [if b then 0xff else 0]" "wf_cbs s'" "CBS_view s' = rest" by auto
  show "\<exists>s'. CBS_get_asn1_bool s = (Some b, s') \<and> wf_cbs s' \<and> CBS_view s' = rest"
    using o by (simp add: CBS_get_asn1_bool_eq [OF o(1,2)])
next
  fix s s' b assume wf: "wf_cbs s" and r: "CBS_get_asn1_bool s = (Some b, s')"
  from r obtain out t where g: "CBS_get_asn1 CBS_ASN1_BOOLEAN s = (Some out, t)"
    unfolding CBS_get_asn1_bool_def obind_eq_Some by blast
  from CBS_get_asn1_sound [OF wf g] have o: "wf_cbs out" "wf_cbs t"
    "CBS_view s = der_element (CBS_ASN1_BOOLEAN, CBS_view out) @ CBS_view t" by auto
  have "t = s'" "CBS_view out = [if b then 0xff else 0]"
    using r unfolding CBS_get_asn1_bool_eq [OF g o(1)] by (auto split: if_splits)
  with o show "True \<and> wf_cbs s' \<and> CBS_view s = der_bool b @ CBS_view s'"
    by (simp add: der_bool_def)
qed simp_all

subsection \<open>OPTIONAL fields\<close>

text \<open>A field is present when its identifier can be read at the front of the input.\<close>

lemma peek_element:
  assumes wf: "wf_cbs c" and v: "CBS_view c = der_element (tag, xs) @ rest"
  shows "CBS_peek_asn1_tag c t \<longleftrightarrow> t = tag"
proof -
  have "CBS_view c = der_tag tag @ der_len (length xs) @ xs @ rest"
    using take_der_element(2) [OF wf v] .
  then obtain c' where "parse_asn1_tag c = (Some tag, c')"
    using tag_codec.read_enc [OF wf] by blast
  moreover have "cbs_len c \<noteq> 0"
  proof
    assume "cbs_len c = 0"
    then have "CBS_view c = []" using length_view [OF wf] by simp
    with v show False by (simp add: der_element_def der_tag_nonempty)
  qed
  ultimately show ?thesis by (auto simp: CBS_peek_asn1_tag_def CBS_len_def)
qed

lemma peek_end: "CBS_view c = [] \<Longrightarrow> wf_cbs c \<Longrightarrow> \<not> CBS_peek_asn1_tag c t"
  using length_view [of c] by (simp add: CBS_peek_asn1_tag_def CBS_len_def)

lemma optional_present:
  assumes "wf_cbs c" "length xs < 2 ^ 32" "CBS_view c = der_element (tag, xs) @ rest"
  obtains out c' where "CBS_get_optional_asn1 tag c = (Some (Some out), c')"
    "wf_cbs out" "CBS_view out = xs" "wf_cbs c'" "CBS_view c' = rest"
proof -
  obtain out c' where o: "CBS_get_asn1 tag c = (Some out, c')" "wf_cbs out" "CBS_view out = xs"
      "wf_cbs c'" "CBS_view c' = rest"
    using CBS_get_asn1_complete [OF assms] by blast
  have "CBS_get_optional_asn1 tag c = (Some (Some out), c')"
    using o(1) peek_element [OF assms(1,3)] by (simp add: CBS_get_optional_asn1_def obind_def oret_def)
  with o show thesis using that by blast
qed

lemma optional_absent:
  "\<not> CBS_peek_asn1_tag c tag \<Longrightarrow> CBS_get_optional_asn1 tag c = (Some None, c)"
  by (simp add: CBS_get_optional_asn1_def)

text \<open>A typed reader inside an explicitly tagged child: the child holds one encoding and no more.\<close>

lemma in_child_codec:
  assumes "stream_codec CBS_view wf_cbs cbs_of read enc valid"
    and "wf_cbs child" "valid a" "CBS_view child = enc a"
  shows "in_child read child s = (Some a, s)"
proof -
  note c = stream_codec.read_enc [OF assms(1) assms(2,3), of "[]"]
  from c assms(4) obtain child' where r: "read child = (Some a, child')" "wf_cbs child'"
      "CBS_view child' = []" by auto
  then have "cbs_len child' = 0" using length_view by fastforce
  with r(1) show ?thesis by (simp add: in_child_def CBS_len_def)
qed

text \<open>The default is taken exactly when the field is absent, and a present field is decoded.\<close>

lemma small_element: "length xs < 128 \<Longrightarrow> length (der_element (tag, xs)) < 2 ^ 32"
  using length_der_tag [of tag] by (simp add: der_element_def der_len_def)

lemma optional_uint64_present:
  assumes "wf_cbs c" "CBS_view c = der_element (tag, der_element (CBS_ASN1_INTEGER, der_int (int (unat v)))) @ rest"
  shows "\<exists>c'. CBS_get_optional_asn1_uint64 tag dflt c = (Some v, c') \<and> CBS_view c' = rest"
proof -
  let ?xs = "der_element (CBS_ASN1_INTEGER, der_int (int (unat v)))"
  have "length (der_int (int (unat v))) \<le> 9" using length_der_int_unat [of v] by simp
  then have "length ?xs < 2 ^ 32"
    by (intro small_element) simp
  from optional_present [OF assms(1) this assms(2)] obtain out c' where
    o: "CBS_get_optional_asn1 tag c = (Some (Some out), c')" "wf_cbs out" "CBS_view out = ?xs"
      "CBS_view c' = rest" by metis
  have "in_child CBS_get_asn1_uint64 out c' = (Some v, c')"
    by (rule in_child_codec [OF uint64_codec.stream_codec_axioms o(2) _ o(3)]) simp
  then show ?thesis using o by (simp add: CBS_get_optional_asn1_uint64_def obind_def)
qed

lemma optional_uint64_absent:
  "\<not> CBS_peek_asn1_tag c tag \<Longrightarrow> CBS_get_optional_asn1_uint64 tag dflt c = (Some dflt, c)"
  by (simp add: CBS_get_optional_asn1_uint64_def obind_def optional_absent oret_def)

lemma octet_string_codec:
  "stream_codec CBS_view wf_cbs cbs_of (as_view (CBS_get_asn1 t))
     (\<lambda>xs. der_element (t, xs)) (\<lambda>xs. length xs < 2 ^ 32)"
proof unfold_locales
  fix s rest and xs :: "u8 list"
  assume "wf_cbs s" "length xs < 2 ^ 32" "CBS_view s = der_element (t, xs) @ rest"
  from CBS_get_asn1_complete [OF this]
  show "\<exists>s'. as_view (CBS_get_asn1 t) s = (Some xs, s') \<and> wf_cbs s' \<and> CBS_view s' = rest"
    by (auto simp: as_view_def obind_def oret_def)
qed simp_all

lemma optional_bool_present:
  assumes "wf_cbs c" "CBS_view c = der_element (tag, der_bool b) @ rest"
  shows "\<exists>c'. CBS_get_optional_asn1_bool tag dflt c = (Some b, c') \<and> CBS_view c' = rest"
proof -
  have "length (der_bool b) < 2 ^ 32"
    unfolding der_bool_def by (intro small_element) simp
  from optional_present [OF assms(1) this assms(2)] obtain out c' where
    o: "CBS_get_optional_asn1 tag c = (Some (Some out), c')" "wf_cbs out" "CBS_view out = der_bool b"
      "CBS_view c' = rest" by metis
  have "CBS_view out = der_element (CBS_ASN1_BOOLEAN, [if b then 0xff else 0]) @ []"
    using o(3) by (simp add: der_bool_def)
  from CBS_get_asn1_complete [OF o(2) _ this] obtain child2 out' where
    i: "CBS_get_asn1 CBS_ASN1_BOOLEAN out = (Some child2, out')" "wf_cbs child2"
      "CBS_view child2 = [if b then 0xff else 0]" "wf_cbs out'" "CBS_view out' = []" by auto
  have l: "cbs_len child2 = 1" "cbs_len out' = 0"
    using i(3,5) length_view [OF i(2)] length_view [OF i(4)] by auto
  have "cbs_data child2 ! 0 = (if b then 0xff else 0)" using nth_view [of 0 child2] l i(3) by simp
  then show ?thesis using o i(1) l
    by (simp add: CBS_get_optional_asn1_bool_def obind_def CBS_len_def CBS_data_def oret_def)
qed

subsection \<open>BIT STRING contents\<close>

definition bits_of_byte :: "u8 \<Rightarrow> bool list" where
  "bits_of_byte b = map (\<lambda>i. bit b (7 - i)) [0..<8]"

definition bitstring_bits :: "u8 list \<Rightarrow> bool list" where
  "bitstring_bits bs = concat (map bits_of_byte bs)"

lemma length_bits_of_byte [simp]: "length (bits_of_byte b) = 8"
  by (simp add: bits_of_byte_def)

lemma length_bitstring_bits [simp]: "length (bitstring_bits bs) = 8 * length bs"
  by (induction bs) (simp_all add: bitstring_bits_def)

lemma nth_bitstring_bits:
  "i < 8 * length bs \<Longrightarrow> bitstring_bits bs ! i = bit (bs ! (i div 8)) (7 - i mod 8)"
proof (induction bs arbitrary: i)
  case (Cons b bs)
  show ?case
  proof (cases "i < 8")
    case True
    then show ?thesis by (simp add: bitstring_bits_def nth_append bits_of_byte_def)
  next
    case False
    then obtain j where j: "i = 8 + j" by (metis le_add_diff_inverse not_less)
    have "bitstring_bits (b # bs) ! i = bitstring_bits bs ! j"
      by (simp add: bitstring_bits_def nth_append j)
    also have "\<dots> = bit (bs ! (j div 8)) (7 - j mod 8)" using Cons j by simp
    finally have "bitstring_bits (b # bs) ! i = bit (bs ! (j div 8)) (7 - j mod 8)" .
    moreover have "(8 + j) div 8 = Suc (j div 8)" "(8 + j) mod 8 = j mod 8" by simp_all
    ultimately show ?thesis by (simp only: j nth_Cons_Suc)
  qed
qed simp

text \<open>
  \<open>CBS_asn1_bitstring_has_bit\<close> reads bit number \<open>i\<close> of the string, and is false past its end; the
  first content byte counts the unused bits, which a valid string leaves zero.
\<close>

lemma has_bit_eq:
  assumes "CBS_is_valid_asn1_bitstring c" "wf_cbs c"
  shows "CBS_asn1_bitstring_has_bit c i \<longleftrightarrow>
    unat i < 8 * (cbs_len c - 1) \<and> bitstring_bits (tl (CBS_view c)) ! unat i"
proof -
  have n: "unat (drop_bit 3 i + 1) = unat i div 8 + 1"
  proof -
    have "unat (drop_bit 3 i) = unat i div 8" by (simp only: unat_drop_bit) simp
    moreover have "unat i div 8 + 1 < 2 ^ 32" using unat_less_32 [of i] by simp
    ultimately show ?thesis by (simp add: unat_word_ariths)
  qed
  have m: "unat (i AND 7) = unat i mod 8" using unat_and_mask [of i 3] by (simp add: mask_eq_exp_minus_1)
  have b: "CBS_data c ! (unat i div 8 + 1) AND push_bit k 1 \<noteq> 0 \<longleftrightarrow> bit (CBS_data c ! (unat i div 8 + 1)) k" for k
    by (simp add: push_bit_eq_mult and_exp_eq_0_iff_not_bit)
  have l: "length (tl (CBS_view c)) = cbs_len c - 1" using assms(2) by simp
  have r: "unat i div 8 + 1 < cbs_len c \<longleftrightarrow> unat i < 8 * (cbs_len c - 1)" by linarith
  have d: "CBS_data c ! (unat i div 8 + 1) = tl (CBS_view c) ! (unat i div 8)"
    if "unat i div 8 + 1 < cbs_len c"
    using that l by (simp add: CBS_data_def nth_view nth_tl)
  show ?thesis
    unfolding CBS_asn1_bitstring_has_bit_def Let_def n m b CBS_len_def
    using assms(1) r d l by (auto simp: nth_bitstring_bits)
qed

lemma is_valid_bitstring_eq:
  assumes "wf_cbs c"
  shows "CBS_is_valid_asn1_bitstring c \<longleftrightarrow>
    (\<exists>n bs. CBS_view c = n # bs \<and> unat n \<le> 7 \<and> (n = 0 \<or> bs \<noteq> []) \<and>
      (\<forall>i<unat n. \<not> rev (bitstring_bits bs) ! i))"
proof (cases "CBS_view c")
  case Nil
  then show ?thesis using length_view [OF assms]
    by (simp add: CBS_is_valid_asn1_bitstring_def CBS_get_u8_eq)
next
  case (Cons n bs)
  have g: "CBS_get_u8 c = (Some n, advance 1 c)" using Cons assms by (simp add: CBS_get_u8_cases)
  have g': "CBS_get_last_u8 (advance 1 c) =
      (if bs = [] then (None, advance 1 c)
       else (Some (last bs), (advance 1 c)\<lparr>cbs_len := cbs_len c - 2\<rparr>))"
    using CBS_get_last_u8_eq [of "advance 1 c"] assms Cons by simp
  have le: "n > 7 \<longleftrightarrow> unat n > 7" by (simp add: word_less_nat_alt)
  have z: "(last bs AND (push_bit (unat n) 1 - 1) = 0) = (\<forall>i<unat n. \<not> rev (bitstring_bits bs) ! i)"
    if n: "unat n \<le> 7" and ne: "bs \<noteq> []"
  proof -
    have r8: "rev (bitstring_bits bs) ! i = bit (last bs) i" if "i < 8" for i
    proof -
      have p: "0 < length bs" using ne by simp
      then have i: "i < 8 * length bs" using that by linarith
      have "rev (bitstring_bits bs) ! i = bitstring_bits bs ! (8 * length bs - Suc i)"
        using i by (subst rev_nth) simp_all
      also have "\<dots> = bit (bs ! ((8 * length bs - Suc i) div 8)) (7 - (8 * length bs - Suc i) mod 8)"
        using p by (intro nth_bitstring_bits) simp
      also have "8 * length bs - Suc i = 8 * (length bs - 1) + (7 - i)" using that p by linarith
      finally have f: "rev (bitstring_bits bs) ! i =
          bit (bs ! ((8 * (length bs - 1) + (7 - i)) div 8)) (7 - (8 * (length bs - 1) + (7 - i)) mod 8)" .
      have "(8 * (length bs - 1) + (7 - i)) div 8 = length bs - 1"
        "(8 * (length bs - 1) + (7 - i)) mod 8 = 7 - i" by simp_all
      then show ?thesis using f that last_conv_nth [OF ne] by simp
    qed
    have m: "push_bit (unat n) 1 - 1 = (mask (unat n) :: u8)"
      by (simp add: mask_eq_exp_minus_1 push_bit_eq_mult)
    have r: "rev (bitstring_bits bs) ! i \<longleftrightarrow> bit (last bs) i" if "i < unat n" for i
      using that n by (intro r8) simp
    have "last bs AND mask k = 0 \<longleftrightarrow> (\<forall>i<k. \<not> bit (last bs) i)" if "k \<le> 7" for k
      using that by (auto simp: bit_eq_iff bit_simps) (meson le_less_trans less_le_trans not_bit_8 not_le)
    from this [OF n] r show ?thesis unfolding m by simp
  qed
  show ?thesis
    unfolding CBS_is_valid_asn1_bitstring_def g
    using g' le z Cons by (auto simp: not_less)
qed

end
