(* ===== verification/CBB_DER.thy ===== *)
theory CBB_DER
  imports CBB_Spec DER_Fields
begin

text \<open>
  Children, and the DER writers built on them: a child that is given \<open>ys\<close> appends its length
  prefix, or its DER header, and \<open>ys\<close> to its parent, whatever was nested inside it. The typed
  writers append the encodings that the readers of \<open>CBS_ASN1\<close> accept.
\<close>

subsection \<open>Children\<close>

definition opens :: "nat \<Rightarrow> CBB \<Rightarrow> u8 list \<Rightarrow> cbb_child \<Rightarrow> CBB \<Rightarrow> bool" where
  "opens d c xs f c1 \<longleftrightarrow>
     (\<exists>c0. writes d c xs c0 \<and> length (chain c0) = d \<and> chain c1 = chain c0 @ [f] \<and> CBB_ready (Suc d) c1 \<and>
       offset f = length (CBB_bytes c0) \<and> take (offset f) (CBB_bytes c1) = CBB_bytes c0 \<and>
       length (CBB_bytes c1) = offset f + pending_len_len f)"

lemma CBB_ready_bytes: "CBB_ready d c \<Longrightarrow> chain_ok 0 (chain c) (length (CBB_bytes c))"
  by (auto simp: CBB_ready_def CBB_bytes_def)

lemma flat_start:
  assumes "CBB_ready d c" "length (chain c) = d"
  shows "child_start_of (chain c) d \<le> length (CBB_bytes c)"
proof -
  have "chain_ok (child_start_of (chain c) d) (drop d (chain c)) (length (CBB_bytes c))"
    using CBB_ready_bytes [OF assms(1)] chain_ok_split [of d "chain c"] assms(2) by blast
  then show ?thesis using chain_ok_le by blast
qed

lemma child_start_snoc:
  "length fs = d \<Longrightarrow> child_start_of (fs @ f # gs) (Suc d) = offset f + pending_len_len f"
  by (auto simp: child_start_of_def)

lemma opens_contents:
  assumes "opens d c xs f c1"
  shows "CBB_contents (Suc d) c1 = Some []" "CBB_ready (Suc d) c1"
proof -
  from assms [unfolded opens_def] obtain c0 :: CBB where o: "length (chain c0) = d" "chain c1 = chain c0 @ [f]"
    "length (CBB_bytes c1) = offset f + pending_len_len f" "CBB_ready (Suc d) c1"
    by blast
  have "child_start_of (chain c1) (Suc d) = offset f + pending_len_len f"
    unfolding o(2) by (rule child_start_snoc [OF o(1)])
  then show "CBB_contents (Suc d) c1 = Some []" using o contents_flat [of c1 "Suc d"] by simp
  show "CBB_ready (Suc d) c1" by (rule o(4))
qed

lemma child_writes:
  assumes rd: "CBB_ready d c" and op: "opens d c xs f c1" and w: "writes (Suc d) c1 ys c2"
    and fin: "CBB_contents d c2 \<noteq> None"
  shows "\<exists>p. length_prefix f (length ys) = Some p \<and> writes d c (xs @ p @ ys) c2"
proof -
  from op obtain c0 where o: "writes d c xs c0" "length (chain c0) = d" "chain c1 = chain c0 @ [f]"
      "offset f = length (CBB_bytes c0)" "take (offset f) (CBB_bytes c1) = CBB_bytes c0"
    unfolding opens_def by blast
  let ?s = "offset f + pending_len_len f" and ?st = "child_start_of (chain c0) d"
  have r0: "CBB_ready d c0" using o(1) by (rule writes_ready)
  have r2: "CBB_ready (Suc d) c2" using w by (rule writes_ready)
  then have l2: "Suc d \<le> length (chain c2)" by (auto simp: CBB_ready_def)
  have start1: "child_start_of (chain c1) (Suc d) = ?s"
    unfolding o(3) by (rule child_start_snoc [OF o(2)])
  have t: "take (Suc d) (chain c2) = chain c0 @ [f]"
    using w o(2,3) by (simp add: writes_def)
  then have ch2: "chain c2 = chain c0 @ f # drop (Suc d) (chain c2)"
    by (metis append_Cons append_Nil append_assoc append_take_drop_id)
  have d2: "drop d (chain c2) = f # drop (Suc d) (chain c2)" using o(2) by (subst ch2) simp
  have start2: "child_start_of (chain c2) (Suc d) = ?s" "child_start_of (chain c2) d = ?st"
    using child_start_snoc [OF o(2)] ch2 apply metis
    using child_start_append [of d "chain c0"] o(2) ch2 by (metis order_refl)
  have ck: "chain_ok 0 (chain c2) (length (CBB_bytes c2))" using CBB_ready_bytes [OF r2] .
  then have ck': "chain_ok ?s (drop (Suc d) (chain c2)) (length (CBB_bytes c2))"
    using chain_ok_split [OF l2] unfolding start2(1) by blast
  have "CBB_contents (Suc d) c2 = Some ys"
    using w opens_contents(1) [OF op] by (auto simp: writes_def)
  then obtain bs where bs: "seal (drop (Suc d) (chain c2)) (CBB_bytes c2) = Some bs" and ys: "drop ?s bs = ys"
    unfolding CBB_contents_def start2(1) by auto
  have keep: "take ?s bs = take ?s (CBB_bytes c2)" "length (CBB_bytes c2) \<le> length bs"
    using seal_keeps [OF bs ck'] by auto
  have low: "take ?s (CBB_bytes c2) = take ?s (CBB_bytes c1)"
    using w start1 by (simp add: writes_def)
  have "take (offset f) bs = take (offset f) (take ?s bs)" by (simp add: min_absorb1)
  also have "\<dots> = take (offset f) (CBB_bytes c1)" unfolding keep(1) low by (simp add: min_absorb1)
  finally have pre: "take (offset f) bs = CBB_bytes c0" using o(5) by simp
  have len: "length bs - ?s = length ys" using ys by auto
  from fin obtain p where p: "length_prefix f (length ys) = Some p"
    by (auto simp: CBB_contents_def d2 bs len)
  then have "seal (drop d (chain c2)) (CBB_bytes c2) = Some (CBB_bytes c0 @ p @ ys)"
    by (simp add: d2 bs len pre ys)
  moreover have st: "?st \<le> length (CBB_bytes c0)"
    by (rule flat_start [OF r0 o(2)])
  ultimately have "CBB_contents d c2 = Some (drop ?st (CBB_bytes c0) @ p @ ys)"
    by (simp add: CBB_contents_def start2(2))
  moreover have "CBB_contents d c0 = Some (drop ?st (CBB_bytes c0))" using contents_flat [OF o(2)] .
  moreover have "take ?st (CBB_bytes c2) = take ?st (CBB_bytes c0)"
  proof -
    have "take ?st (CBB_bytes c2) = take ?st (take (offset f) (take ?s (CBB_bytes c2)))"
      using st o(4) by (simp add: min_absorb1)
    also have "\<dots> = take ?st (take (offset f) (CBB_bytes c1))" unfolding low using st o(4) by (simp add: min_absorb1)
    also have "\<dots> = take ?st (CBB_bytes c0)" using o(5) by simp
    finally show ?thesis .
  qed
  moreover have "CBB_ready d c2" using r2 by (auto simp: CBB_ready_def)
  ultimately have "writes d c0 (p @ ys) c2"
    using ch2 o(2) by (simp add: writes_def) (metis append_eq_conv_conj)
  from writes_trans [OF rd o(1) this] p show ?thesis by auto
qed

lemma push_opens:
  assumes w: "writes d c xs c0" "length (chain c0) = d"
    and z: "writes d c0 zs c1" "length (chain c1) = d" "length zs = n"
    and n: "0 < n" "n \<le> 3" "asn1 \<longrightarrow> n = 1"
  defines "f \<equiv> \<lparr>offset = length (CBB_bytes c0), pending_len_len = n, pending_is_asn1 = asn1\<rparr>"
  shows "opens d c xs f (c1\<lparr>chain := chain c1 @ [f]\<rparr>)"
proof -
  let ?st = "child_start_of (chain c0) d"
  have r0: "CBB_ready d c0" and r1: "CBB_ready d c1" using w z by (auto dest: writes_ready)
  have ch: "chain c1 = chain c0" using z(1,2) w(2) by (simp add: writes_def)
  have st: "?st \<le> length (CBB_bytes c0)"
    by (rule flat_start [OF r0 w(2)])
  have "drop ?st (CBB_bytes c1) = drop ?st (CBB_bytes c0) @ zs"
    "take ?st (CBB_bytes c1) = take ?st (CBB_bytes c0)"
    using z(1) unfolding writes_def contents_flat [OF w(2)] contents_flat [OF z(2)] ch
    by (simp_all only: option.inject) auto
  then have b: "CBB_bytes c1 = CBB_bytes c0 @ zs"
    using append_take_drop_id [of ?st "CBB_bytes c1"] append_take_drop_id [of ?st "CBB_bytes c0"]
    by (metis append_assoc)
  from r1 obtain b1 where b1: "base c1 = Some b1" "buf_ok b1" "\<not> b_error b1" by (auto simp: CBB_ready_def)
  then have l1: "b_len b1 = length (CBB_bytes c0) + n" using b z(3) by (metis CBB_bytes_def length_append length_b_bytes option.sel)
  have "chain_ok 0 (chain c0 @ [f]) (b_len b1)"
    using chain_ok_append [of 0 "chain c0" "[f]"] rev_take_start [of d "chain c0"] w(2) st l1 n
      CBB_ready_bytes [OF r1] ch b z(3)
    by (simp add: f_def)
  then have "CBB_ready (Suc d) (c1\<lparr>chain := chain c1 @ [f]\<rparr>)"
    using b1 ch w(2) by (simp add: CBB_ready_def)
  then show ?thesis
    unfolding opens_def using w b ch z(3) by (intro exI [of _ c0]) (simp add: f_def CBB_bytes_def)
qed

subsection \<open>The primitive writers\<close>

lemma CBB_add_u8_writes:
  "CBB_ready d c \<Longrightarrow> CBB_add_u8 mall d v c = (Some u, c') \<Longrightarrow> writes d c [v] c' \<and> length (chain c') = d"
  using add_u_writes [of d c "unat v" 1 mall u c'] unat_less_256 [of v] by (simp add: CBB_add_u8_def)

lemma CBB_add_u16_writes:
  "CBB_ready d c \<Longrightarrow> CBB_add_u16 mall d v c = (Some u, c') \<Longrightarrow>
    writes d c (be_bytes 2 (unat v)) c' \<and> length (chain c') = d"
  using add_u_writes [of d c "unat v" 2 mall u c'] unat_less_16 [of v] by (simp add: CBB_add_u16_def)

lemma CBB_add_u24_writes:
  "CBB_ready d c \<Longrightarrow> unat v < 256 ^ 3 \<Longrightarrow> CBB_add_u24 mall d v c = (Some u, c') \<Longrightarrow>
    writes d c (be_bytes 3 (unat v)) c' \<and> length (chain c') = d"
  using add_u_writes [of d c "unat v" 3 mall u c'] by (simp add: CBB_add_u24_def)

lemma CBB_add_u32_writes:
  "CBB_ready d c \<Longrightarrow> CBB_add_u32 mall d v c = (Some u, c') \<Longrightarrow>
    writes d c (be_bytes 4 (unat v)) c' \<and> length (chain c') = d"
  using add_u_writes [of d c "unat v" 4 mall u c'] unat_less_32 [of v] by (simp add: CBB_add_u32_def)

lemma CBB_add_u64_writes:
  "CBB_ready d c \<Longrightarrow> CBB_add_u64 mall d v c = (Some u, c') \<Longrightarrow>
    writes d c (be_bytes 8 (unat v)) c' \<and> length (chain c') = d"
  using add_u_writes [of d c "unat v" 8 mall u c'] unat_less_64 [of v] by (simp add: CBB_add_u64_def)

interpretation cbb_sink: byte_sink "\<lambda>c. CBB_ready d c \<and> CBB_contents d c \<noteq> None"
  "\<lambda>c. the (CBB_contents d c)" "\<lambda>bs. othen (oguard (length bs < size_mod)) (CBB_add_bytes mall d bs (length bs))"
  for d mall
proof unfold_locales
  fix c bs c'
  assume r: "CBB_ready d c \<and> CBB_contents d c \<noteq> None"
    and a: "othen (oguard (length bs < size_mod)) (CBB_add_bytes mall d bs (length bs)) c = (Some (), c')"
  then have "length bs < size_mod" "CBB_add_bytes mall d bs (length bs) c = (Some (), c')"
    by (auto simp: othen_def split: if_splits)
  with r CBB_add_bytes_writes [of d c "length bs" bs mall "()" c']
  show "(CBB_ready d c' \<and> CBB_contents d c' \<noteq> None) \<and>
      the (CBB_contents d c') = the (CBB_contents d c) @ bs"
    by (auto simp: writes_def)
qed

text \<open>Writers in sequence, and the sequence that ends by flushing a child into its parent.\<close>

lemma writes_othen:
  assumes "CBB_ready d c" "othen p q c = (Some u, c')"
    and "\<And>u c1. p c = (Some u, c1) \<Longrightarrow> writes d c xs c1"
    and "\<And>c1 u c2. CBB_ready d c1 \<Longrightarrow> q c1 = (Some u, c2) \<Longrightarrow> writes d c1 ys c2"
  shows "writes d c (xs @ ys) c'"
proof -
  from assms(2) obtain a c1 where p: "p c = (Some a, c1)" and q: "q c1 = (Some u, c')"
    by (auto simp: othen_eq_Some)
  from assms(3) [OF p] have w: "writes d c xs c1" .
  from assms(4) [OF writes_ready [OF w] q] have "writes d c1 ys c'" .
  with writes_trans [OF assms(1) w] show ?thesis .
qed

lemma length_prefixed_opens:
  assumes "CBB_ready d c" "0 < n" "n \<le> 3" "cbb_add_length_prefixed mall d n c = (Some u, c1)"
  shows "\<exists>f. opens d c [] f c1 \<and> pending_len_len f = n \<and> \<not> pending_is_asn1 f"
proof -
  from assms(4) obtain u0 c0 where f: "CBB_flush mall d c = (Some u0, c0)"
    and r: "obind (on_base (cbb_buffer_add mall n)) (\<lambda>off.
        othen (on_base (\<lambda>b. (Some (), b\<lparr>b_buf := store (b_buf b) off (replicate n 0)\<rparr>)))
          (push_child off n False)) c0 = (Some u, c1)"
    unfolding cbb_add_length_prefixed_def othen_eq_Some by blast
  from r obtain off c2 where a: "on_base (cbb_buffer_add mall n) c0 = (Some off, c2)"
    and r2: "othen (on_base (\<lambda>b. (Some (), b\<lparr>b_buf := store (b_buf b) off (replicate n 0)\<rparr>)))
          (push_child off n False) c2 = (Some u, c1)"
    unfolding obind_eq_Some by blast
  from r2 obtain u2 c3 where z: "on_base (\<lambda>b. (Some (), b\<lparr>b_buf := store (b_buf b) off (replicate n 0)\<rparr>)) c2 = (Some u2, c3)"
    and c1: "c1 = c3\<lparr>chain := chain c3 @ [\<lparr>offset = off, pending_len_len = n, pending_is_asn1 = False\<rparr>]\<rparr>"
    unfolding othen_eq_Some push_child_def by blast
  note w = flush_writes [OF assms(1) f]
  note r0 = writes_ready [OF w(1)]
  from a obtain b b1 where b: "base c0 = Some b" "cbb_buffer_add mall n b = (Some off, b1)" "c2 = c0\<lparr>base := Some b1\<rparr>"
    by (auto simp: on_base_def split: option.splits prod.splits)
  have ok: "buf_ok b" using r0 b(1) by (auto simp: CBB_ready_def)
  have nl: "n < size_mod" using assms(3) by simp
  note s = add_sound [OF ok nl b(2)]
  let ?b2 = "b1\<lparr>b_buf := store (b_buf b1) off (replicate n 0)\<rparr>"
  have c3: "c3 = c0\<lparr>base := Some ?b2\<rparr>" using z b(3) by (auto simp: on_base_def)
  have st: "b_bytes ?b2 = b_bytes b @ replicate n 0" "buf_ok ?b2"
    using stored_bytes [OF s(3) _ s(4), of "replicate n 0"] s(1,2) ok by auto
  have "writes d c0 (replicate n 0) c3" unfolding c3
    using append_writes [OF r0 w(2) b(1) st(2) _ st(1)] s(5) by (simp add: same_buf_def)
  moreover have "off = length (CBB_bytes c0)" using s(1) b(1) ok by (simp add: CBB_bytes_def)
  moreover have "length (chain c3) = d" using c3 w(2) by simp
  ultimately have "opens d c [] \<lparr>offset = off, pending_len_len = n, pending_is_asn1 = False\<rparr> c1"
    unfolding c1 using push_opens [OF w, of "replicate n 0" c3 n False] assms(2,3) by simp
  then show ?thesis by (intro exI [of _ "\<lparr>offset = off, pending_len_len = n, pending_is_asn1 = False\<rparr>"]) simp
qed

subsection \<open>Identifiers\<close>

definition b128_digits :: "nat \<Rightarrow> nat \<Rightarrow> u8 list" where
  "b128_digits v n = map (\<lambda>i. word_of_nat (v div 128 ^ i mod 128 + 128)) (rev [0..<n])"

lemma b128_digits_Suc:
  "b128_digits v (Suc n) = b128_digits (v div 128) n @ [word_of_nat (v mod 128 + 128)]"
proof -
  have "rev [0..<Suc n] = rev (0 # [Suc 0..<Suc n])" by (simp add: upt_conv_Cons del: upt_Suc)
  also have "\<dots> = map Suc (rev [0..<n]) @ [0]" by (simp add: map_Suc_upt flip: rev_map del: upt_Suc)
  finally have "rev [0..<Suc n] = map Suc (rev [0..<n]) @ [0]" .
  then show ?thesis by (simp add: b128_digits_def div_mult2_eq)
qed

lemma b128_hi_digits: "b128_hi v = b128_digits v (length (b128_hi v))"
proof (induction v rule: b128_hi.induct)
  case (1 v)
  show ?case
  proof (cases "v = 0")
    case False
    then have p: "b128_hi v = b128_hi (v div 128) @ [word_of_nat (v mod 128 + 128)]"
      by (intro b128_hi_pos) simp
    have "b128_digits v (length (b128_hi v)) =
        b128_digits (v div 128) (length (b128_hi (v div 128))) @ [word_of_nat (v mod 128 + 128)]"
      by (simp add: p b128_digits_Suc)
    with 1 [OF False] p show ?thesis by simp
  qed (simp add: b128_digits_def)
qed

lemma base128_len_eq: "base128_len v = length (b128_hi (unat v))"
proof (induction v rule: base128_len.induct)
  case (1 v)
  show ?case
  proof (cases "v = 0")
    case True
    then show ?thesis by (simp add: base128_len.simps)
  next
    case False
    then have "0 < unat v" by (simp add: word_neq_0_conv unat_gt_0)
    moreover have "unat (drop_bit 7 v) = unat v div 128" by (simp add: unat_drop_bit)
    ultimately show ?thesis using False 1 by (simp add: base128_len.simps [of v] b128_hi_pos)
  qed
qed

lemma b128_byte:
  "unat (ucast (drop_bit (7 * i) (v :: u64)) AND 0x7f :: u8) = unat v div 128 ^ i mod 128"
proof -
  have "unat (ucast (drop_bit (7 * i) v) AND 0x7f :: u8) = unat (drop_bit (7 * i) v) mod 256 mod 128"
    by (simp add: and_0x7f unat_ucast_mod)
  also have "\<dots> = unat v div 2 ^ (7 * i) mod 128"
    by (simp add: unat_drop_bit mod_mod_cancel)
  finally show ?thesis by (simp add: power_mult)
qed

lemma or_0x80: "unat (b :: u8) < 128 \<Longrightarrow> unat (b OR 0x80) = unat b + 128"
  using unat_or_push_bit [of b 7 1] by (simp add: or.commute)

lemma add_base128_loop_writes:
  "CBB_ready d c \<Longrightarrow> CBB_contents d c \<noteq> None \<Longrightarrow> add_base128_loop mall d v n c = (Some u, c') \<Longrightarrow>
    writes d c (case n of 0 \<Rightarrow> [] | Suc m \<Rightarrow> b128_digits (unat v div 128) m @ [word_of_nat (unat v mod 128)]) c' \<and>
    length (chain c') = (if n = 0 then length (chain c) else d)"
proof (induction n arbitrary: c u)
  case 0
  then show ?case by (auto simp: oret_def writes_nil)
next
  case (Suc m)
  define byte :: u8 where "byte = ucast (drop_bit (7 * m) v) AND 0x7f"
  have ub: "unat byte = unat v div 128 ^ m mod 128" unfolding byte_def by (rule b128_byte)
  let ?b = "if m \<noteq> 0 then byte OR 0x80 else byte"
  from Suc.prems(3) have "othen (CBB_add_u8 mall d ?b) (add_base128_loop mall d v m) c = (Some u, c')"
    unfolding add_base128_loop.simps Let_def byte_def .
  then obtain u1 c1 where a: "CBB_add_u8 mall d ?b c = (Some u1, c1)"
    and l: "add_base128_loop mall d v m c1 = (Some u, c')"
    unfolding othen_eq_Some by blast
  have w: "writes d c [?b] c1 \<and> length (chain c1) = d" using CBB_add_u8_writes [OF Suc.prems(1) a] .
  then have "CBB_contents d c1 \<noteq> None" "CBB_ready d c1" by (auto simp: writes_def)
  note w1 = Suc.IH [OF this(2,1) l]
  note w' = writes_trans [OF Suc.prems(1) conjunct1 [OF w] conjunct1 [OF w1]]
  have ch: "length (chain c') = d" using w w1 by simp
  show ?case
  proof (cases m)
    case 0
    then have "byte = word_of_nat (unat v mod 128)" using ub by (metis div_by_1 power_0 word_of_nat_unat)
    then show ?thesis using w' 0 ch by (simp add: b128_digits_def)
  next
    case (Suc k)
    have "unat byte < 128" using ub by simp
    then have "unat (byte OR 0x80) = unat v div 128 ^ m mod 128 + 128" using ub or_0x80 by simp
    then have "byte OR 0x80 = word_of_nat (unat v div 128 ^ m mod 128 + 128)" by (metis word_of_nat_unat)
    moreover have "b128_digits (unat v div 128) (Suc k) =
        word_of_nat (unat v div 128 ^ m mod 128 + 128) # b128_digits (unat v div 128) k"
      by (simp add: b128_digits_def Suc div_mult2_eq)
    ultimately show ?thesis using w' Suc ch by simp
  qed
qed

lemma add_base128_integer_writes:
  assumes "CBB_ready d c" "CBB_contents d c \<noteq> None" "add_base128_integer mall d v c = (Some u, c')"
  shows "writes d c (base128 (unat v)) c' \<and> length (chain c') = d"
proof -
  have hi: "base128 (unat v) = b128_digits (unat v div 128) (length (b128_hi (unat v div 128))) @ [word_of_nat (unat v mod 128)]"
    by (simp add: base128_def flip: b128_hi_digits)
  have "(if base128_len v = 0 then 1 else base128_len v) = Suc (length (b128_hi (unat v div 128)))"
  proof (cases "v = 0")
    case False
    then have "0 < unat v" by (simp add: word_neq_0_conv unat_gt_0)
    then show ?thesis by (simp add: base128_len_eq b128_hi_pos)
  qed (simp add: base128_len_eq)
  then show ?thesis
    using add_base128_loop_writes [OF assms(1,2), of mall v "Suc (length (b128_hi (unat v div 128)))" u c'] assms(3)
    by (simp add: add_base128_integer_def Let_def hi)
qed

lemma CBB_add_asn1_opens:
  assumes rd: "CBB_ready d c" and r: "CBB_add_asn1 mall d tag c = (Some u, c1)"
  shows "\<exists>f. opens d c (der_tag tag) f c1 \<and> pending_len_len f = 1 \<and> pending_is_asn1 f"
proof -
  define tag_bits :: u8 where "tag_bits = ucast (drop_bit CBS_ASN1_TAG_SHIFT tag) AND 0xe0"
  define tag_number where "tag_number = tag AND CBS_ASN1_TAG_NUMBER_MASK"
  let ?id = "if tag_number \<ge> 0x1f
      then othen (CBB_add_u8 mall d (tag_bits OR 0x1f)) (add_base128_integer mall d (ucast tag_number))
      else CBB_add_u8 mall d (tag_bits OR ucast tag_number)"
  from r obtain u0 c0 where f: "CBB_flush mall d c = (Some u0, c0)"
    and r1: "othen ?id (obind (\<lambda>cbb. (map_option b_len (base cbb), cbb)) (\<lambda>off.
                othen (CBB_add_u8 mall d 0) (push_child off 1 True))) c0 = (Some u, c1)"
    unfolding CBB_add_asn1_def othen_eq_Some [of "CBB_flush mall d"] Let_def tag_bits_def tag_number_def by blast
  from r1 obtain u2 c2 where i: "?id c0 = (Some u2, c2)"
    and r2: "obind (\<lambda>cbb. (map_option b_len (base cbb), cbb)) (\<lambda>off.
                othen (CBB_add_u8 mall d 0) (push_child off 1 True)) c2 = (Some u, c1)"
    unfolding othen_eq_Some [of ?id] by blast
  from r2 obtain b off u3 c3 where b: "base c2 = Some b" "off = b_len b"
    and z: "CBB_add_u8 mall d 0 c2 = (Some u3, c3)"
    and c1: "c1 = c3\<lparr>chain := chain c3 @ [\<lparr>offset = off, pending_len_len = 1, pending_is_asn1 = True\<rparr>]\<rparr>"
    by (auto simp: obind_eq_Some othen_eq_Some push_child_def)
  note w0 = flush_writes [OF rd f]
  note r0 = writes_ready [OF w0(1)]
  have ne: "CBB_contents d c0 \<noteq> None" using w0(1) by (auto simp: writes_def)
  have w2: "writes d c0 (der_tag tag) c2 \<and> length (chain c2) = d"
  proof (cases "tag_number \<ge> 0x1f")
    case True
    with i obtain u4 c4 where h: "CBB_add_u8 mall d (tag_bits OR 0x1f) c0 = (Some u4, c4)"
      and n: "add_base128_integer mall d (ucast tag_number) c4 = (Some u2, c2)"
      by (auto simp: othen_eq_Some)
    have w4: "writes d c0 [tag_bits OR 0x1f] c4" using CBB_add_u8_writes [OF r0 h] by simp
    then have "CBB_contents d c4 \<noteq> None" by (auto simp: writes_def)
    from add_base128_integer_writes [OF writes_ready [OF w4] this n]
    have w5: "writes d c4 (base128 (unat tag_number)) c2" "length (chain c2) = d"
      by (simp_all add: unat_ucast_up)
    from writes_trans [OF r0 w4 w5(1)] w5(2) True
    show ?thesis by (simp add: der_tag_def tag_bits_def tag_number_def Let_def)
  next
    case False
    then show ?thesis using CBB_add_u8_writes [OF r0] i
      by (simp add: der_tag_def tag_bits_def tag_number_def Let_def)
  qed
  have r2: "CBB_ready d c2" using w2 by (auto dest: writes_ready)
  then have off: "off = length (CBB_bytes c2)" using b by (simp add: CBB_ready_def CBB_bytes_def)
  have w02: "writes d c (der_tag tag) c2" using writes_trans [OF rd w0(1)] w2 by fastforce
  have "opens d c (der_tag tag) \<lparr>offset = off, pending_len_len = 1, pending_is_asn1 = True\<rparr> c1"
    unfolding c1 off using push_opens [OF w02 _ _ _ , of "[0]" c3 1 True] w2 CBB_add_u8_writes [OF r2 z] by simp
  then show ?thesis
    by (intro exI [of _ "\<lparr>offset = off, pending_len_len = 1, pending_is_asn1 = True\<rparr>"]) simp
qed

subsection \<open>Typed DER writers\<close>

lemma CBB_ready_parent: "CBB_ready (Suc d) c \<Longrightarrow> CBB_ready d c"
  by (auto simp: CBB_ready_def)

lemma flush_contents: "CBB_ready d c \<Longrightarrow> CBB_flush mall d c = (Some u, c') \<Longrightarrow> CBB_contents d c \<noteq> None"
  using flush_writes(1) [of d c mall u c'] by (auto simp: writes_def)

lemma prefixed_child_writes:
  assumes "CBB_ready d c" "0 < n" "n \<le> 3" "cbb_add_length_prefixed mall d n c = (Some u, c1)"
    and w: "writes (Suc d) c1 ys c2" and f: "CBB_flush mall d c2 = (Some v, c')"
  shows "writes d c (be_bytes n (length ys) @ ys) c' \<and> length ys < 256 ^ n \<and> length (chain c') = d"
proof -
  from length_prefixed_opens [OF assms(1-4)] obtain f where
    o: "opens d c [] f c1" "pending_len_len f = n" "\<not> pending_is_asn1 f" by blast
  have r2: "CBB_ready d c2" using CBB_ready_parent [OF writes_ready [OF w]] .
  from child_writes [OF assms(1) o(1) w flush_contents [OF r2 f]] o(2,3)
  have "writes d c (be_bytes n (length ys) @ ys) c2" "length ys < 256 ^ n"
    by (auto simp: length_prefix_def split: if_splits)
  with writes_trans [OF assms(1) _ flush_writes(1) [OF r2 f]] flush_writes(2) [OF r2 f]
  show ?thesis by auto
qed

lemma asn1_child_writes:
  assumes rd: "CBB_ready d c" and a: "CBB_add_asn1 mall d tag c = (Some u, c1)"
    and w: "writes (Suc d) c1 ys c2" and f: "CBB_flush mall d c2 = (Some v, c')"
  shows "writes d c (der_element (tag, ys)) c' \<and> length ys \<le> 0xfffffffe \<and> length (chain c') = d"
proof -
  from CBB_add_asn1_opens [OF rd a] obtain f where
    o: "opens d c (der_tag tag) f c1" "pending_is_asn1 f" by blast
  have r2: "CBB_ready d c2" using CBB_ready_parent [OF writes_ready [OF w]] .
  from child_writes [OF rd o(1) w flush_contents [OF r2 f]] o(2)
  have "writes d c (der_element (tag, ys)) c2" "length ys \<le> 0xfffffffe"
    by (auto simp: length_prefix_def der_element_def split: if_splits)
  with writes_trans [OF rd _ flush_writes(1) [OF r2 f]] flush_writes(2) [OF r2 f]
  show ?thesis by auto
qed

lemma asn1_child_start:
  assumes "CBB_ready d c" "CBB_add_asn1 mall d tag c = (Some u, c1)"
  shows "CBB_ready (Suc d) c1" "CBB_contents (Suc d) c1 = Some []"
  using CBB_add_asn1_opens [OF assms] opens_contents by blast+

text \<open>A typed writer that opens a child, fills it with \<open>body\<close> and flushes.\<close>

lemma asn1_writer:
  assumes rd: "CBB_ready d c"
    and r: "othen (CBB_add_asn1 mall d tag) (othen body (CBB_flush mall d)) c = (Some u, c')"
    and b: "\<And>c1 u c2. CBB_ready (Suc d) c1 \<Longrightarrow> CBB_contents (Suc d) c1 \<noteq> None \<Longrightarrow>
      body c1 = (Some u, c2) \<Longrightarrow> writes (Suc d) c1 ys c2"
  shows "writes d c (der_element (tag, ys)) c' \<and> length ys \<le> 0xfffffffe \<and> length (chain c') = d"
proof -
  from r obtain u1 c1 u2 c2 where a: "CBB_add_asn1 mall d tag c = (Some u1, c1)"
    and y: "body c1 = (Some u2, c2)" and f: "CBB_flush mall d c2 = (Some u, c')"
    unfolding othen_eq_Some by blast
  have "writes (Suc d) c1 ys c2" using b [OF _ _ y] asn1_child_start [OF rd a] by simp
  from asn1_child_writes [OF rd a this f] show ?thesis .
qed

lemma CBB_add_asn1_octet_string_writes:
  assumes "CBB_ready d c" "len \<le> length data" "len < size_mod"
    and "CBB_add_asn1_octet_string mall d data len c = (Some u, c')"
  shows "writes d c (der_element (CBS_ASN1_OCTETSTRING, take len data)) c'"
  using asn1_writer [OF assms(1) assms(4) [unfolded CBB_add_asn1_octet_string_def], of "take len data"]
    CBB_add_bytes_writes [OF _ assms(2,3)] by auto

lemma CBB_add_asn1_bool_writes:
  assumes "CBB_ready d c" "CBB_add_asn1_bool mall d b c = (Some u, c')"
  shows "writes d c (der_bool b) c'"
  using asn1_writer [OF assms(1) assms(2) [unfolded CBB_add_asn1_bool_def], of "[if b then 0xff else 0]"]
    CBB_add_u8_writes by (auto simp: der_bool_def)

subsection \<open>INTEGER\<close>

lemma be_bytes_map: "be_bytes n v = map (\<lambda>i. word_of_nat (v div 256 ^ (n - 1 - i))) [0..<n]"
proof (induction n arbitrary: v)
  case (Suc n)
  have "map (\<lambda>i. word_of_nat (v div 256 div 256 ^ (n - 1 - i))) [0..<n] =
      map (\<lambda>i. word_of_nat (v div 256 ^ (Suc n - 1 - i)) :: u8) [0..<n]"
  proof (rule map_cong [OF refl])
    fix i assume "i \<in> set [0..<n]"
    then have "Suc n - 1 - i = Suc (n - 1 - i)" by auto
    then show "word_of_nat (v div 256 div 256 ^ (n - 1 - i)) = (word_of_nat (v div 256 ^ (Suc n - 1 - i)) :: u8)"
      by (simp add: div_mult2_eq)
  qed
  with Suc show ?case by simp
qed simp

lemma uint64_byte: "ucast (drop_bit (8 * k) (v :: u64) AND 0xff) = (word_of_nat (unat v div 256 ^ k) :: u8)"
proof -
  have "ucast (drop_bit (8 * k) v AND 0xff) = (ucast (drop_bit (8 * k) v) :: u8)"
  proof -
    have m: "(0xff :: u64) = mask 8" by (simp add: mask_eq_exp_minus_1)
    show ?thesis unfolding m by (auto intro!: bit_word_eqI simp: bit_simps)
  qed
  also have "\<dots> = word_of_nat (unat v div 2 ^ (8 * k))" by (rule word_of_nat_drop_bit [symmetric])
  finally show ?thesis by (simp add: power_mult)
qed

text \<open>The bytes that the loop of \<open>CBB_add_asn1_uint64\<close> writes.\<close>

fun unsigned_bytes :: "bool \<Rightarrow> u8 list \<Rightarrow> u8 list" where
  "unsigned_bytes True bs = bs"
| "unsigned_bytes False [] = []"
| "unsigned_bytes False (b # bs) =
     (if b = 0 then unsigned_bytes False bs else if 128 \<le> unat b then 0 # b # bs else b # bs)"

lemma asn1_uint64_bytes_writes:
  "CBB_ready d c \<Longrightarrow> CBB_contents d c \<noteq> None \<Longrightarrow> asn1_uint64_bytes mall d v st is c = (Some st', c') \<Longrightarrow>
    writes d c (unsigned_bytes st (map (\<lambda>i. word_of_nat (unat v div 256 ^ (7 - i))) is)) c' \<and>
    (st' \<longleftrightarrow> st \<or> (\<exists>i\<in>set is. (word_of_nat (unat v div 256 ^ (7 - i)) :: u8) \<noteq> 0))"
proof (induction "is" arbitrary: c st)
  case Nil
  then show ?case by (cases st) (auto simp: oret_def writes_nil)
next
  case (Cons i "is")
  define byte :: u8 where "byte = word_of_nat (unat v div 256 ^ (7 - i))"
  have r: "(if \<not> st \<and> byte = 0 then asn1_uint64_bytes mall d v st is
      else othen (if \<not> st \<and> byte AND 0x80 \<noteq> 0 then CBB_add_u8 mall d 0 else oret ())
             (othen (CBB_add_u8 mall d byte) (asn1_uint64_bytes mall d v True is))) c = (Some st', c')"
    using Cons.prems(3) unfolding asn1_uint64_bytes.simps uint64_byte Let_def byte_def .
  show ?case
  proof (cases "\<not> st \<and> byte = 0")
    case True
    then show ?thesis using Cons.IH [OF Cons.prems(1,2), of st] r by (simp add: byte_def)
  next
    case False
    let ?pad = "if \<not> st \<and> 128 \<le> unat byte then [0] else []"
    from r False obtain u1 c1 u2 c2 where
      p: "(if \<not> st \<and> byte AND 0x80 \<noteq> 0 then CBB_add_u8 mall d 0 else oret ()) c = (Some u1, c1)"
      and a: "CBB_add_u8 mall d byte c1 = (Some u2, c2)"
      and l: "asn1_uint64_bytes mall d v True is c2 = (Some st', c')"
      unfolding othen_eq_Some by (auto simp: othen_eq_Some)
    have w1: "writes d c ?pad c1"
    proof (cases "\<not> st \<and> 128 \<le> unat byte")
      case True
      then show ?thesis using p CBB_add_u8_writes [OF Cons.prems(1)] by (simp add: and_0x80)
    next
      case False
      then have "c1 = c" using p by (auto simp: and_0x80 oret_def)
      then show ?thesis using False writes_nil [OF Cons.prems(1,2)] by (simp only: if_False)
    qed
    have w2: "writes d c1 [byte] c2" using CBB_add_u8_writes [OF writes_ready [OF w1] a] by simp
    then have "CBB_contents d c2 \<noteq> None" by (auto simp: writes_def)
    from Cons.IH [OF writes_ready [OF w2] this l]
    have w3: "writes d c2 (map (\<lambda>i. word_of_nat (unat v div 256 ^ (7 - i))) is) c'" "st'" by simp_all
    have "writes d c (?pad @ [byte] @ map (\<lambda>i. word_of_nat (unat v div 256 ^ (7 - i))) is) c'"
      using writes_trans [OF Cons.prems(1) w1 writes_trans [OF writes_ready [OF w1] w2 w3(1)]] .
    then show ?thesis using w3(2) False by (cases st) (auto simp: byte_def)
  qed
qed

lemma unsigned_bytes_value:
  "be_val (unsigned_bytes st bs) = be_val bs"
  by (induction st bs rule: unsigned_bytes.induct) (simp_all add: be_val_Cons)

lemma unsigned_bytes_minimal:
  "unsigned_bytes False bs = [] \<and> (\<forall>b\<in>set bs. b = 0) \<or>
   minimal_int (unsigned_bytes False bs) \<and> unat (hd (unsigned_bytes False bs)) < 128 \<and> (\<exists>b\<in>set bs. b \<noteq> 0)"
proof (induction bs)
  case (Cons b bs)
  have "b \<noteq> 0xff" if "unat b < 128" using that by auto
  then show ?case using Cons by (auto simp: minimal_int_def not_le split: list.splits)
qed simp

lemma nonneg_value:
  "minimal_int bs \<Longrightarrow> unat (hd bs) < 128 \<Longrightarrow> der_int (int (be_val bs)) = bs"
proof -
  assume m: "minimal_int bs" and h: "unat (hd bs) < 128"
  have ne: "bs \<noteq> []" using m by (auto simp: minimal_int_def)
  then have "0 \<le> int_of_bytes bs" using int_of_bytes_neg [OF ne] h by linarith
  then have "int (be_val bs) = int_of_bytes bs" by (rule be_val_nonneg [OF ne])
  then show "der_int (int (be_val bs)) = bs" using der_int_of_bytes [OF m] by simp
qed

lemma CBB_add_asn1_uint64_writes:
  assumes rd: "CBB_ready d c" and r: "CBB_add_asn1_uint64 mall d v c = (Some u, c')"
  shows "writes d c (der_element (CBS_ASN1_INTEGER, der_int (int (unat v)))) c'"
proof -
  let ?bs = "be_bytes 8 (unat v)"
  let ?tail = "\<lambda>st. if \<not> st then CBB_add_u8 mall (d + 1) 0 else oret ()"
  have r': "othen (CBB_add_asn1 mall d CBS_ASN1_INTEGER)
      (othen (obind (asn1_uint64_bytes mall (d + 1) v False [0..<8]) ?tail) (CBB_flush mall d)) c = (Some u, c')"
    using r unfolding CBB_add_asn1_uint64_def othen_def [of "obind _ _"] obind_assoc
    by (simp add: othen_def)
  have bs: "map (\<lambda>i. word_of_nat (unat v div 256 ^ (7 - i))) [0..<8] = ?bs"
    by (simp only: be_bytes_map) simp
  have val: "be_val ?bs = unat v" using unat_less_64 [of v] by simp
  have "writes (Suc d) c1 (der_int (int (unat v))) c2"
    if c1: "CBB_ready (Suc d) c1" "CBB_contents (Suc d) c1 \<noteq> None"
      and b: "obind (asn1_uint64_bytes mall (d + 1) v False [0..<8]) ?tail c1 = (Some u, c2)" for c1 u c2
  proof -
    from b obtain st cm where l: "asn1_uint64_bytes mall (Suc d) v False [0..<8] c1 = (Some st, cm)"
      and t: "?tail st cm = (Some u, c2)" by (auto simp: obind_eq_Some)
    from asn1_uint64_bytes_writes [OF c1 l] have
      w: "writes (Suc d) c1 (unsigned_bytes False ?bs) cm" "st \<longleftrightarrow> (\<exists>b\<in>set ?bs. b \<noteq> 0)"
      unfolding bs [symmetric] by (simp_all del: upt_Suc)
    show ?thesis
    proof (cases st)
      case True
      then have "minimal_int (unsigned_bytes False ?bs)" "unat (hd (unsigned_bytes False ?bs)) < 128"
        using unsigned_bytes_minimal [of ?bs] w(2) by auto
      from nonneg_value [OF this] have "der_int (int (unat v)) = unsigned_bytes False ?bs"
        by (simp only: unsigned_bytes_value val)
      then show ?thesis using w(1) t True by (simp add: oret_def)
    next
      case False
      then have e: "unsigned_bytes False ?bs = []" using unsigned_bytes_minimal [of ?bs] w(2) by auto
      then have "unat v = 0" using unsigned_bytes_value [of False ?bs] val by simp
      then have "der_int (int (unat v)) = [0]" by (simp add: der_int_small)
      moreover have "writes (Suc d) cm [0] c2"
        using t False CBB_add_u8_writes [OF writes_ready [OF w(1)]] by simp
      ultimately show ?thesis using writes_trans [OF c1(1) w(1)] e by fastforce
    qed
  qed
  from asn1_writer [OF rd r' this] show ?thesis by simp
qed

text \<open>Negative numbers: the sign-extension bytes that the loop drops do not change the value.\<close>

lemma le_bytes8_rev: "le_bytes8 v = rev (be_bytes 8 (unat v))"
proof -
  have "le_bytes8 v = map (\<lambda>i. word_of_nat (unat v div 256 ^ i)) [0..<8]"
    unfolding le_bytes8_def word_of_nat_drop_bit [symmetric] by (simp add: power_mult del: upt_Suc)
  also have "\<dots> = rev (be_bytes 8 (unat v))" by (simp add: be_bytes_map upt_rec)
  finally show ?thesis .
qed

lemma foldl_shift: "foldl (\<lambda>a c. a * 256 + uint (c :: u8)) a xs = a * 256 ^ length xs + int (be_val xs)"
proof (induction xs rule: rev_induct)
  case (snoc x xs)
  then show ?case by (simp add: algebra_simps)
qed simp

lemma int_of_bytes_Cons: "int_of_bytes (b # cs) = sint b * 256 ^ length cs + int (be_val cs)"
  by (simp add: int_of_bytes_def foldl_shift)

lemma drop_sign_byte:
  assumes "128 \<le> unat b"
  shows "int_of_bytes (0xff # b # bs) = int_of_bytes (b # bs)"
proof -
  have "sint b = uint b - 256" using assms by (simp add: sint_u8 unat_le_u8)
  moreover have "sint (0xff :: u8) = -1" by (simp add: sint_u8)
  ultimately show ?thesis
    by (simp only: int_of_bytes_Cons be_val_Cons length_Cons) (simp add: algebra_simps)
qed

lemma skip_sign_bytes_ok:
  assumes "s < length bytes" "128 \<le> unat (bytes ! s)"
  defines "r \<equiv> skip_sign_bytes bytes s"
  shows "r \<le> s \<and> 128 \<le> unat (bytes ! r) \<and> minimal_int (rev (take (Suc r) bytes)) \<and>
    int_of_bytes (rev (take (Suc r) bytes)) = int_of_bytes (rev (take (Suc s) bytes))"
  using assms(1,2) unfolding r_def
proof (induction s)
  case 0
  then show ?case by (simp add: minimal_int_def take_Suc_conv_app_nth)
next
  case (Suc s)
  have rv: "rev (take (Suc (Suc s)) bytes) = bytes ! Suc s # bytes ! s # rev (take s bytes)"
    "rev (take (Suc s) bytes) = bytes ! s # rev (take s bytes)"
    using Suc.prems by (simp_all add: take_Suc_conv_app_nth)
  show ?case
  proof (cases "bytes ! Suc s = 0xff \<and> bytes ! s AND 0x80 \<noteq> 0")
    case True
    then have h: "128 \<le> unat (bytes ! s)" by (simp add: and_0x80)
    then show ?thesis using Suc.IH Suc.prems True rv drop_sign_byte [OF h] by simp
  next
    case False
    then have "minimal_int (rev (take (Suc (Suc s)) bytes))"
      unfolding rv using Suc.prems(2) by (auto simp: minimal_int_def and_0x80)
    then show ?thesis using False Suc.prems by auto
  qed
qed

lemma add_bytes_down_writes:
  "CBB_ready d c \<Longrightarrow> add_bytes_down mall d bytes i c = (Some u, c') \<Longrightarrow> i < length bytes \<Longrightarrow>
    writes d c (rev (take (Suc i) bytes)) c'"
proof (induction i arbitrary: c u)
  case 0
  then show ?case using CBB_add_u8_writes [OF 0(1)] by (auto simp: take_Suc_conv_app_nth)
next
  case (Suc i)
  from Suc.prems(2) obtain u1 c1 where a: "CBB_add_u8 mall d (bytes ! Suc i) c = (Some u1, c1)"
    and l: "add_bytes_down mall d bytes i c1 = (Some u, c')" by (auto simp: othen_eq_Some)
  have w: "writes d c [bytes ! Suc i] c1" using CBB_add_u8_writes [OF Suc.prems(1) a] by simp
  have "writes d c1 (rev (take (Suc i) bytes)) c'"
    using Suc.IH [OF writes_ready [OF w] l] Suc.prems(3) by simp
  from writes_trans [OF Suc.prems(1) w this] show ?case
    using Suc.prems(3) by (simp add: take_Suc_conv_app_nth [of "Suc i"])
qed

lemma sint_64: "sint (v :: u64) = (if uint v < 2 ^ 63 then uint v else uint v - 2 ^ 64)"
proof -
  have "sint v = (uint v + 2 ^ 63) mod 2 ^ 64 - 2 ^ 63"
    using int_word_sint [of "uint v", where 'a = 64] by simp
  moreover have "0 \<le> uint v" "uint v < 2 ^ 64" using uint_bounded [of v] by simp_all
  ultimately show ?thesis
    by (auto simp: mod_pos_pos_trivial mod_if)
      (smt (verit) mod_pos_pos_trivial mod_add_self2 minus_mod_self2)
qed

lemma int_of_be_bytes8:
  assumes "sint (v :: u64) < 0"
  shows "int_of_bytes (be_bytes 8 (unat v)) = sint v" "128 \<le> unat (hd (be_bytes 8 (unat v)))"
proof -
  define n where "n = unat v"
  have nv: "int n = uint v" unfolding n_def by simp
  have ge: "2 ^ 63 \<le> n" "sint v = int n - 2 ^ 64"
    using assms nv uint_bounded [of v] by (auto simp: sint_64 split: if_splits)
  have lt: "n < 256 ^ 8" unfolding n_def using unat_less_64 [of v] by simp
  have hd: "hd (be_bytes 8 n) = word_of_nat (n div 256 ^ 7)"
    by (simp add: be_bytes_map upt_rec)
  have "n div 256 ^ 7 < 256" using lt by (simp add: less_mult_imp_div_less)
  moreover have "128 \<le> n div 256 ^ 7" using ge(1) by (simp add: less_eq_div_iff_mult_less_eq)
  ultimately show h: "128 \<le> unat (hd (be_bytes 8 (unat v)))"
    unfolding n_def [symmetric] hd by (simp add: unat_word_of_nat)
  have ne: "be_bytes 8 n \<noteq> []" by (metis length_be_bytes list.size(3) zero_neq_numeral)
  have "int_of_bytes (be_bytes 8 n) < 0" using h int_of_bytes_neg [OF ne] unfolding n_def by blast
  then show "int_of_bytes (be_bytes 8 (unat v)) = sint v"
    using int_of_bytes_be_val [OF ne] lt ge(2) unfolding n_def by simp
qed

lemma CBB_add_asn1_int64_writes:
  assumes rd: "CBB_ready d c" and r: "CBB_add_asn1_int64 mall d v c = (Some u, c')"
  shows "writes d c (der_element (CBS_ASN1_INTEGER, der_int (sint v))) c'"
proof (cases "sint v \<ge> 0")
  case True
  then have "sint v = int (unat v)" using uint_bounded [of v] by (simp add: sint_64 split: if_splits)
  then show ?thesis using True CBB_add_asn1_uint64_writes [OF rd, of mall v u c'] r
    by (simp add: CBB_add_asn1_int64_def)
next
  case False
  define bytes where "bytes = le_bytes8 v"
  define start where "start = skip_sign_bytes bytes 7"
  have l: "length bytes = 8" by (simp add: bytes_def le_bytes8_def)
  have be: "rev bytes = be_bytes 8 (unat v)" by (simp add: bytes_def le_bytes8_rev)
  have "bytes \<noteq> []" using l by auto
  then have "hd (rev bytes) = bytes ! 7" using l by (simp add: hd_rev last_conv_nth)
  then have h: "128 \<le> unat (bytes ! 7)" using int_of_be_bytes8(2) [of v] False be by simp
  have m: "start \<le> 7" "minimal_int (rev (take (Suc start) bytes))"
    "int_of_bytes (rev (take (Suc start) bytes)) = sint v"
    using skip_sign_bytes_ok [OF _ h] int_of_be_bytes8(1) [of v] False l be
    by (simp_all add: start_def)
  have e: "rev (take (Suc start) bytes) = der_int (sint v)" using der_int_of_bytes [OF m(2)] m(3) by simp
  have r': "othen (CBB_add_asn1 mall d CBS_ASN1_INTEGER)
      (othen (add_bytes_down mall (d + 1) bytes start) (CBB_flush mall d)) c = (Some u, c')"
    using r False by (simp add: CBB_add_asn1_int64_def bytes_def start_def Let_def)
  have "writes (Suc d) c1 (der_int (sint v)) c2"
    if "CBB_ready (Suc d) c1" "add_bytes_down mall (d + 1) bytes start c1 = (Some u, c2)" for c1 u c2
    using add_bytes_down_writes [OF that(1), of mall bytes start u c2] that(2) m(1) l e by simp
  from asn1_writer [OF rd r' this] show ?thesis by simp
qed

end
