(* ===== verification/CBB_Top.thy ===== *)
theory CBB_Top
  imports CBB_DER
begin

text \<open>
  The life of a builder: initialisation, the bytes it hands out at the end, the error flag, and when
  writing succeeds.
\<close>

subsection \<open>From initialisation to the result\<close>

lemma buf_ok_init: "cap < 2 ^ 64 \<Longrightarrow> length buf = cap \<Longrightarrow>
  buf_ok \<lparr>b_buf = buf, b_len = 0, b_cap = cap, b_can_resize = r, b_error = False\<rparr>"
  by (simp add: buf_ok_def)

lemma fresh_ready:
  assumes "base c = Some b" "chain c = []" "buf_ok b" "b_len b = 0" "\<not> b_error b"
  shows "CBB_ready 0 c" "CBB_contents 0 c = Some []"
  using assms by (simp_all add: CBB_ready_def CBB_contents_def CBB_bytes_def b_bytes_def)

lemma CBB_init_ready:
  assumes "n < size_mod" "CBB_init mall n c0 = (Some u, c)"
  shows "CBB_ready 0 c \<and> CBB_contents 0 c = Some [] \<and> chain c = []"
proof -
  define buf where "buf = (case OPENSSL_malloc mall n of None \<Rightarrow> [] | Some p \<Rightarrow> p)"
  from assms(2) have c: "base c = Some \<lparr>b_buf = buf, b_len = 0, b_cap = n, b_can_resize = True, b_error = False\<rparr>"
    "chain c = []" and l: "length buf = n"
    by (auto simp: CBB_init_def cbb_init_def CBB_zero_def buf_def Let_def length_OPENSSL_malloc
        split: if_splits option.splits)
  show ?thesis using fresh_ready [OF c buf_ok_init [OF assms(1) l]] c(2) by simp
qed

lemma CBB_init_fixed_ready:
  assumes "length buf = n" "n < size_mod" "CBB_init_fixed mall buf n c0 = (Some u, c)"
  shows "CBB_ready 0 c \<and> CBB_contents 0 c = Some [] \<and> chain c = []"
proof -
  from assms(3) have c: "base c = Some \<lparr>b_buf = buf, b_len = 0, b_cap = n, b_can_resize = False, b_error = False\<rparr>"
    "chain c = []"
    by (auto simp: CBB_init_fixed_def cbb_init_def CBB_zero_def split: option.splits)
  show ?thesis using fresh_ready [OF c buf_ok_init [OF assms(2,1)]] c(2) by simp
qed

lemma flush_seals:
  assumes "CBB_ready d c" "CBB_flush mall d c = (Some u, c')"
  shows "seal (drop d (chain c)) (CBB_bytes c) = Some (CBB_bytes c') \<and> chain c' = take d (chain c) \<and>
    CBB_ready d c'"
proof -
  from assms(1) obtain b where b: "base c = Some b" "buf_ok b" "d \<le> length (chain c)"
    "chain_ok 0 (chain c) (b_len b)" by (auto simp: CBB_ready_def)
  from assms(2) b(1,3) obtain gs b' where f: "flush_chain mall (drop d (chain c)) b = (True, gs, b')"
    and c': "c' = \<lparr>base = Some b', chain = take d (chain c) @ gs\<rparr>"
    by (auto simp: CBB_flush_def split: prod.splits if_splits)
  have "chain_ok (child_start_of (chain c) d) (drop d (chain c)) (b_len b)"
    using chain_ok_split [OF b(3)] b(4) by auto
  from flush_chain_sound [OF f b(2) this] b c' writes_ready [OF flush_writes(1) [OF assms]]
  show ?thesis by (simp add: CBB_bytes_def)
qed

text \<open>
  Property C7: flushing implements the abstract \<open>seal\<close>. When \<open>CBB_flush\<close> succeeds, the buffer holds
  what it held with the length of every pending descendant of the flushed builder put in front of
  that descendant's contents (moved along where a DER length needs more bytes than were reserved),
  and the descendants are gone.
\<close>

theorem CBB_flush_implements_seal:
  assumes "CBB_ready d c" "CBB_flush mall d c = (Some u, c')"
  shows "seal (drop d (chain c)) (CBB_bytes c) = Some (CBB_bytes c') \<and> chain c' = take d (chain c) \<and>
    CBB_ready d c'"
  by (rule flush_seals [OF assms])

lemma finish_contents:
  assumes "CBB_ready 0 c" "CBB_finish mall 0 True True c = (Some (Some data, Some len), c')"
  shows "CBB_contents 0 c = Some (take len data) \<and> len \<le> length data \<and> base c' = None"
proof -
  obtain r c1 where p: "CBB_flush mall 0 c = (r, c1)" by (cases "CBB_flush mall 0 c")
  with assms(2) obtain u where f: "CBB_flush mall 0 c = (Some u, c1)"
    by (cases r) (auto simp: CBB_finish_def)
  with assms(2) obtain b where b1: "base c1 = Some b"
    by (cases "base c1") (auto simp: CBB_finish_def)
  have b: "base c1 = Some b" "data = b_buf b" "len = b_len b" "base c' = None"
    using assms(2) f b1 by (auto simp: CBB_finish_def CBB_cleanup_def)
  from flush_seals [OF assms(1) f] have
    s: "seal (drop 0 (chain c)) (CBB_bytes c) = Some (CBB_bytes c1)" "CBB_ready 0 c1" by blast+
  then have "b_len b \<le> length (b_buf b)" using b(1) by (auto simp: CBB_ready_def buf_ok_def)
  moreover have "CBB_contents 0 c = Some (CBB_bytes c1)"
    unfolding CBB_contents_def s(1) by (simp add: child_start_of_def)
  moreover have "CBB_bytes c1 = take (b_len b) (b_buf b)"
    unfolding CBB_bytes_def b_bytes_def b(1) by simp
  ultimately show ?thesis unfolding b(2,3) using b(4) by simp
qed

text \<open>
  : \<open>CBB_finish\<close> hands out exactly what the writers appended: its first \<open>len\<close> bytes are the
  contents of the top-level builder with every pending child sealed, and the builder is reset.
\<close>

theorem CBB_finish_returns_contents:
  assumes "CBB_ready 0 c" "CBB_finish mall 0 True True c = (Some (Some data, Some len), c')"
  shows "CBB_contents 0 c = Some (take len data) \<and> len \<le> length data \<and> base c' = None"
  by (rule finish_contents [OF assms])

text \<open>A builder with a pending DER child of 130 bytes, whose length needs a second byte.\<close>

definition demo_cbb :: CBB where
  "demo_cbb =
     \<lparr>base = Some \<lparr>b_buf = [0x30, 0] @ replicate 130 7 @ replicate 8 0, b_len = 132, b_cap = 140,
                    b_can_resize = False, b_error = False\<rparr>,
      chain = [\<lparr>offset = 1, pending_len_len = 1, pending_is_asn1 = True\<rparr>]\<rparr>"

definition demo_flushed :: CBB where
  "demo_flushed =
     \<lparr>base = Some \<lparr>b_buf = [0x30, 0x81, 130] @ replicate 130 7 @ replicate 7 0, b_len = 133, b_cap = 140,
                    b_can_resize = False, b_error = False\<rparr>,
      chain = []\<rparr>"

lemma demo_ready: "CBB_ready 0 demo_cbb"
  by (simp add: CBB_ready_def demo_cbb_def buf_ok_def)

lemmas cbb_eval = CBB_flush_def flush_asn1_def asn1_len_len_def write_length_def cbb_buffer_add_def
  cbb_buffer_reserve_def b_fail_def memmove_def store_def Let_def obind_def othen_def oret_def on_base_def

lemma demo_flush: "CBB_flush mall 0 demo_cbb = (Some (), demo_flushed)"
  by (simp add: demo_cbb_def demo_flushed_def cbb_eval)

theorem CBB_flush_implements_seal_witness:
  "seal (drop 0 (chain demo_cbb)) (CBB_bytes demo_cbb) = Some ([0x30, 0x81, 130] @ replicate 130 7)"
  using CBB_flush_implements_seal [OF demo_ready demo_flush]
  by (simp add: CBB_bytes_def b_bytes_def demo_flushed_def)

lemma demo_finish:
  "CBB_finish (\<lambda>_. True) 0 True True demo_cbb =
    (Some (Some ([0x30, 0x81, 130] @ replicate 130 7 @ replicate 7 0), Some 133),
     demo_flushed\<lparr>base := None\<rparr>)"
  unfolding CBB_finish_def obind_def demo_flush
  by (simp add: demo_flushed_def CBB_cleanup_def)

theorem CBB_finish_returns_contents_witness:
  "CBB_contents 0 demo_cbb = Some ([0x30, 0x81, 130] @ replicate 130 7)"
  using CBB_finish_returns_contents [OF demo_ready demo_finish] by simp

subsection \<open>Errors\<close>

lemma flush_chain_error: "flush_chain mall fs b = (False, fs', b') \<Longrightarrow> b_error b'"
proof (induction fs arbitrary: fs' b')
  case (Cons f fs)
  have wl: "write_length f p n l x = (None, y) \<Longrightarrow> b_error y" for p n l x y
    by (auto simp: write_length_def Let_def b_fail_def split: prod.splits if_splits)
  have "flush_asn1 mall f s l x = (None, y) \<Longrightarrow> b_error y" for s l x y
    by (auto simp: flush_asn1_def obind_def Let_def b_fail_def dest!: wl
        split: prod.splits if_splits option.splits)
  with Cons wl show ?case
    by (auto simp: Let_def split: prod.splits if_splits option.splits)
qed auto

lemma CBB_flush_error:
  "base c = Some b \<Longrightarrow> d \<le> length (chain c) \<Longrightarrow> CBB_flush mall d c = (None, c') \<Longrightarrow>
    \<exists>b'. base c' = Some b' \<and> b_error b'"
  by (auto simp: CBB_flush_def dest: flush_chain_error split: prod.splits if_splits)

lemma error_flush: "base c = Some b \<Longrightarrow> b_error b \<Longrightarrow> fst (CBB_flush mall d c) = None"
  by (cases "drop d (chain c)") (auto simp: CBB_flush_def split: prod.splits)

lemma reserve_error: "cbb_buffer_reserve mall n b = (None, b') \<Longrightarrow> b_error b'"
  by (auto simp: cbb_buffer_reserve_def Let_def b_fail_def split: if_splits option.splits)

lemma add_u_error: "cbb_buffer_add_u mall v n b = (None, b') \<Longrightarrow> b_error b'"
  by (auto simp: cbb_buffer_add_u_def cbb_buffer_add_def obind_def oret_def Let_def b_fail_def
      dest: reserve_error split: if_splits option.splits prod.splits)

subsection \<open>When writing succeeds\<close>

text \<open>
  In a buffer with room, and in a growable one while memory lasts, \<open>CBB_flush\<close> fails only
  when some child is too long for its length prefix.
\<close>

theorem CBB_flush_succeeds:
  assumes "CBB_ready d c" "base c = Some b" "fits mall N b"
    and "seal (drop d (chain c)) (CBB_bytes c) = Some r" "length r \<le> N"
  shows "\<exists>c'. CBB_flush mall d c = (Some (), c') \<and> CBB_bytes c' = r"
proof -
  from assms(1,2) have b: "buf_ok b" "\<not> b_error b" "d \<le> length (chain c)"
    "chain_ok 0 (chain c) (b_len b)" by (auto simp: CBB_ready_def)
  then have ck: "chain_ok (child_start_of (chain c) d) (drop d (chain c)) (b_len b)"
    using chain_ok_split [OF b(3)] by auto
  have s: "seal (drop d (chain c)) (b_bytes b) = Some r" using assms(2,4) by (simp add: CBB_bytes_def)
  from flush_chain_complete [OF s b(1,2) ck assms(5,3)] obtain b' where
    f: "flush_chain mall (drop d (chain c)) b = (True, [], b')" by blast
  from flush_chain_sound [OF f b(1) ck] s f assms(2) b(3) show ?thesis
    by (simp add: CBB_flush_def CBB_bytes_def)
qed

theorem CBB_flush_succeeds_witness:
  "\<exists>c'. CBB_flush (\<lambda>_. False) 0 demo_cbb = (Some (), c') \<and> CBB_bytes c' = [0x30, 0x81, 130] @ replicate 130 7"
proof -
  have "fits (\<lambda>_. False) 140 (the (base demo_cbb))" by (simp add: fits_def demo_cbb_def)
  moreover have "base demo_cbb = Some (the (base demo_cbb))" by (simp add: demo_cbb_def)
  moreover have "seal (drop 0 (chain demo_cbb)) (CBB_bytes demo_cbb) = Some ([0x30, 0x81, 130] @ replicate 130 7)"
    by (simp add: demo_cbb_def CBB_bytes_def b_bytes_def length_prefix_def der_len_def)
  ultimately show ?thesis
    using CBB_flush_succeeds [OF demo_ready, of "the (base demo_cbb)" "\<lambda>_. False" 140 "[0x30, 0x81, 130] @ replicate 130 7"]
    by simp
qed

end
