(* ===== verification/CBS_Properties.thy ===== *)
theory CBS_Properties
  imports CBB_Top
begin

text \<open>
  The properties of the reader, and of reader and writer together, stated over the code's functions
  and proved from the codecs of \<open>CBS\<close>, \<open>DER_Codec\<close>, \<open>DER_Types\<close> and \<open>DER_Fields\<close>.
\<close>

subsection \<open>Numbers and length prefixes\<close>

text \<open>
  The reader of a 24-bit length prefix accepts exactly the strings that start with a
  three-byte big-endian length and that many bytes; it returns those bytes and leaves the rest.
\<close>

theorem CBS_get_u24_length_prefixed_iff:
  assumes "wf_cbs c"
  shows "(\<exists>out c'. CBS_get_u24_length_prefixed c = (Some out, c') \<and> CBS_view out = xs \<and> CBS_view c' = rest) \<longleftrightarrow>
    length xs < 2 ^ 24 \<and> CBS_view c = be_bytes 3 (length xs) @ xs @ rest"
  using u24_prefixed.read_iff [OF assms, of xs rest]
  by (auto simp: as_view_def obind_eq_Some oret_def)

theorem CBS_get_u24_length_prefixed_iff_witness:
  "\<exists>out c'. CBS_get_u24_length_prefixed (cbs_of [0, 0, 2, 7, 8, 9]) = (Some out, c') \<and>
    CBS_view out = [7, 8] \<and> CBS_view c' = [9]"
  using CBS_get_u24_length_prefixed_iff [OF wf_cbs_of, of "[0, 0, 2, 7, 8, 9]" "[7, 8]" "[9]"]
  by (simp add: be_bytes_3)

lemma read_le:
  assumes "canonical_codec CBS_view wf_cbs cbs_of get (\<lambda>v. be_bytes n (unat v)) (\<lambda>_. True)"
    and "wf_cbs c"
    and "\<And>v. be_bytes n (unat (swap v)) = rev (be_bytes n (unat v))" "\<And>v. swap (swap v) = v"
  shows "(\<exists>c'. obind get (\<lambda>v. oret (swap v)) c = (Some v, c') \<and> CBS_view c' = rest) \<longleftrightarrow>
    CBS_view c = rev (be_bytes n (unat v)) @ rest"
proof -
  have "(\<exists>c'. obind get (\<lambda>v. oret (swap v)) c = (Some v, c') \<and> CBS_view c' = rest) \<longleftrightarrow>
      (\<exists>c'. get c = (Some (swap v), c') \<and> CBS_view c' = rest)"
    using assms(4) by (auto simp: obind_eq_Some oret_def)
  also have "\<dots> \<longleftrightarrow> CBS_view c = be_bytes n (unat (swap v)) @ rest"
    using canonical_codec.read_iff [OF assms(1,2), of "swap v" rest] by simp
  finally show ?thesis unfolding assms(3) .
qed

lemma bswap_inverse: "CRYPTO_bswap4 (CRYPTO_bswap4 v) = v"
proof -
  have "be_bytes 4 (unat (CRYPTO_bswap4 (CRYPTO_bswap4 v))) = be_bytes 4 (unat v)"
    by (simp add: bswap4_bytes)
  then show ?thesis using u32_codec.enc_inject by blast
qed

text \<open>
  \<open>CBS_get_u32le\<close>, which swaps a big-endian read, reads four bytes in little-endian order.
\<close>

theorem CBS_get_u32le_iff:
  assumes "wf_cbs c"
  shows "(\<exists>c'. CBS_get_u32le c = (Some v, c') \<and> CBS_view c' = rest) \<longleftrightarrow>
    CBS_view c = rev (be_bytes 4 (unat v)) @ rest"
  unfolding CBS_get_u32le_def
  by (rule read_le [OF u32_codec.canonical_codec_axioms assms bswap4_bytes bswap_inverse])

theorem CBS_get_u32le_iff_witness:
  "\<exists>c'. CBS_get_u32le (cbs_of [0x78, 0x56, 0x34, 0x12, 5]) = (Some 0x12345678, c') \<and> CBS_view c' = [5]"
  using CBS_get_u32le_iff [OF wf_cbs_of, of "[0x78, 0x56, 0x34, 0x12, 5]" "0x12345678" "[5]"]
  by (simp add: be_bytes_4)

subsection \<open>DER\<close>

text \<open>
  Property C6: the DER element reader is exactly the inverse of the DER encoding. It succeeds on the
  strings that start with a tag and a length in their minimal forms followed by that many bytes,
  and on no others; it returns the tag and the contents and leaves the rest.
\<close>

theorem CBS_get_any_asn1_iff:
  assumes "wf_cbs c"
  shows "(\<exists>out c'. CBS_get_any_asn1 c = (Some (out, tag), c') \<and> CBS_view out = xs \<and> CBS_view c' = rest) \<longleftrightarrow>
    length xs < 2 ^ 32 \<and> CBS_view c = der_element (tag, xs) @ rest"
  using element_codec.read_iff [OF assms, of "(tag, xs)" rest]
  by (auto simp: any_asn1_view_def obind_eq_Some oret_def)

theorem CBS_get_any_asn1_iff_witness:
  "\<exists>out c'. CBS_get_any_asn1 (cbs_of [0x30, 2, 5, 0, 9]) = (Some (out, CBS_ASN1_CONSTRUCTED OR 0x10), c') \<and>
    CBS_view out = [5, 0] \<and> CBS_view c' = [9]"
  using CBS_get_any_asn1_iff [OF wf_cbs_of, of "[0x30, 2, 5, 0, 9]" "CBS_ASN1_CONSTRUCTED OR 0x10" "[5, 0]" "[9]"]
  by (simp add: der_element_def der_tag_def der_len_def CONSTRUCTED_eq TAG_NUMBER_MASK_eq CBS_ASN1_TAG_SHIFT_def)

text \<open>
  A sequence of DER elements has one reading. No encoding is a prefix of another one, so
  two lists of elements with the same concatenated encodings are equal.
\<close>

theorem DER_unique_readability:
  assumes "\<forall>e\<in>set es. length (snd e) < 2 ^ 32" "\<forall>e\<in>set es'. length (snd e) < 2 ^ 32"
    and "concat (map der_element es) = concat (map der_element es')"
  shows "es = es'"
  by (rule element_stream.concat_unique [OF _ _ assms(3)]) (use assms in \<open>auto simp: case_prod_beta\<close>)

theorem DER_unique_readability_witness:
  "[(CBS_ASN1_INTEGER, [1 :: u8]), (CBS_ASN1_BOOLEAN, [0xff])] = [(CBS_ASN1_INTEGER, [1]), (CBS_ASN1_BOOLEAN, [0xff])]"
  by (rule DER_unique_readability) simp_all

text \<open>
  Property C25: \<open>CBS_get_asn1_int64\<close> accepts exactly the minimal two's-complement INTEGERs that fit 64
  bits, and returns their value.
\<close>

theorem CBS_get_asn1_int64_iff:
  assumes "wf_cbs c"
  shows "(\<exists>c'. CBS_get_asn1_int64 c = (Some v, c') \<and> CBS_view c' = rest) \<longleftrightarrow>
    CBS_view c = der_element (CBS_ASN1_INTEGER, der_int (sint v)) @ rest"
  using int64_codec.read_iff [OF assms, of v rest] by simp

theorem CBS_get_asn1_int64_iff_witness:
  "\<exists>c'. CBS_get_asn1_int64 (cbs_of [2, 2, 0xff, 0x7f, 1]) = (Some (- 129), c') \<and> CBS_view c' = [1]"
proof -
  have s: "sint (- 129 :: u64) = - 129"
    using sint_word_of_int_64 [of "- 129"] by simp
  have "der_int (- 129) = [0xff, 0x7f]" by (simp add: der_int_large der_int_small)
  then have "der_element (CBS_ASN1_INTEGER, der_int (- 129)) = [2, 2, 0xff, 0x7f]"
    by (simp add: der_element_def der_tag_def der_len_def CBS_ASN1_INTEGER_def TAG_NUMBER_MASK_eq CBS_ASN1_TAG_SHIFT_def)
  then show ?thesis
    using CBS_get_asn1_int64_iff [OF wf_cbs_of, of "[2, 2, 0xff, 0x7f, 1]" "- 129" "[1]"] by (simp add: s)
qed

text \<open>
  : \<open>CBS_get_asn1_uint64\<close> accepts exactly the minimal encodings of the non-negative numbers
  below \<open>2 ^ 64\<close>: it refuses negative, padded and longer INTEGERs.
\<close>

theorem CBS_get_asn1_uint64_iff:
  assumes "wf_cbs c"
  shows "(\<exists>c'. CBS_get_asn1_uint64 c = (Some v, c') \<and> CBS_view c' = rest) \<longleftrightarrow>
    CBS_view c = der_element (CBS_ASN1_INTEGER, der_int (int (unat v))) @ rest"
  using uint64_codec.read_iff [OF assms, of v rest] by simp

theorem CBS_get_asn1_uint64_iff_witness:
  "\<not> (\<exists>c' v. CBS_get_asn1_uint64 (cbs_of [2, 2, 0, 5]) = (Some v, c') \<and> CBS_view c' = [])"
proof -
  have "[2, 2, 0, 5] \<noteq> der_element (CBS_ASN1_INTEGER, der_int (int (unat v))) @ []" for v :: u64
  proof
    assume e: "[2, 2, 0, 5] = der_element (CBS_ASN1_INTEGER, der_int (int (unat v))) @ []"
    have "der_element (CBS_ASN1_INTEGER, [0, 5]) = [2, 2, 0, 5]"
      by (simp add: der_element_def der_tag_def der_len_def CBS_ASN1_INTEGER_def TAG_NUMBER_MASK_eq CBS_ASN1_TAG_SHIFT_def)
    with e have "der_element (CBS_ASN1_INTEGER, [0, 5]) = der_element (CBS_ASN1_INTEGER, der_int (int (unat v)))" by simp
    moreover have "length (der_int (int (unat v))) < 2 ^ 32" using length_der_int_unat [of v] by simp
    ultimately have "[0, 5] = der_int (int (unat v))"
      using element_codec.enc_inject [of "(CBS_ASN1_INTEGER, [0, 5])" "(CBS_ASN1_INTEGER, der_int (int (unat v)))"] by simp
    then have "minimal_int [0, 5]" using minimal_der_int by metis
    then show False by (simp add: minimal_int_def)
  qed
  then show ?thesis using CBS_get_asn1_uint64_iff [OF wf_cbs_of, of "[2, 2, 0, 5]" _ "[]"]
    unfolding view_cbs_of by blast
qed

text \<open>
  An OPTIONAL field with a default. A present field is decoded, whatever the default; when
  the next element has another tag, or there is none, the default is returned and nothing consumed.
\<close>

theorem CBS_get_optional_asn1_uint64_spec:
  assumes "wf_cbs c"
    and "CBS_view c = der_element (tag, der_element (CBS_ASN1_INTEGER, der_int (int (unat v)))) @ rest"
    and "wf_cbs e" "CBS_view e = [] \<or> (\<exists>t xs r. t \<noteq> tag \<and> CBS_view e = der_element (t, xs) @ r)"
  shows "(\<exists>c'. CBS_get_optional_asn1_uint64 tag dflt c = (Some v, c') \<and> CBS_view c' = rest) \<and>
    CBS_get_optional_asn1_uint64 tag dflt e = (Some dflt, e)"
proof
  show "\<exists>c'. CBS_get_optional_asn1_uint64 tag dflt c = (Some v, c') \<and> CBS_view c' = rest"
    by (rule optional_uint64_present [OF assms(1,2)])
  have "\<not> CBS_peek_asn1_tag e tag"
    using assms(4) peek_end [OF _ assms(3)] peek_element [OF assms(3)] by metis
  then show "CBS_get_optional_asn1_uint64 tag dflt e = (Some dflt, e)" by (rule optional_uint64_absent)
qed

lemma tag_a0: "der_element (CBS_ASN1_CONSTRUCTED OR 0x80000000, xs) = 0xa0 # der_len (length xs) @ xs"
  by (simp add: der_element_def der_tag_def CONSTRUCTED_eq TAG_NUMBER_MASK_eq CBS_ASN1_TAG_SHIFT_def Let_def)

lemma integer_5: "der_element (CBS_ASN1_INTEGER, der_int (int (unat (5 :: u64)))) = [2, 1, 5]"
  by (simp add: der_element_def der_tag_def der_len_def der_int_small CBS_ASN1_INTEGER_def TAG_NUMBER_MASK_eq
      CBS_ASN1_TAG_SHIFT_def)

theorem CBS_get_optional_asn1_uint64_spec_witness:
  "(\<exists>c'. CBS_get_optional_asn1_uint64 (CBS_ASN1_CONSTRUCTED OR 0x80000000) 7
      (cbs_of [0xa0, 3, 2, 1, 5, 9]) = (Some 5, c') \<and> CBS_view c' = [9]) \<and>
    CBS_get_optional_asn1_uint64 (CBS_ASN1_CONSTRUCTED OR 0x80000000) 7 (cbs_of []) = (Some 7, cbs_of [])"
  by (rule CBS_get_optional_asn1_uint64_spec [of _ _ 5 "[9]"])
    (simp_all only: wf_cbs_of view_cbs_of tag_a0 integer_5 simp_thms, simp add: der_len_def)

text \<open>
  The bits of a BIT STRING. \<open>CBS_asn1_bitstring_has_bit\<close> is bit \<open>i\<close> of the contents after
  the unused-bits byte, counted from the most significant bit, and false past the end.
\<close>

theorem CBS_asn1_bitstring_has_bit_correct:
  assumes "CBS_is_valid_asn1_bitstring c" "wf_cbs c"
  shows "CBS_asn1_bitstring_has_bit c i \<longleftrightarrow>
    unat i < 8 * (cbs_len c - 1) \<and> bitstring_bits (tl (CBS_view c)) ! unat i"
  by (rule has_bit_eq [OF assms])

theorem CBS_asn1_bitstring_has_bit_correct_witness:
  "CBS_asn1_bitstring_has_bit (cbs_of [4, 0x20, 0x10]) 11 \<and> \<not> CBS_asn1_bitstring_has_bit (cbs_of [4, 0x20, 0x10]) 32"
proof -
  have v: "CBS_is_valid_asn1_bitstring (cbs_of [4, 0x20, 0x10])" by code_simp
  have "bitstring_bits (tl [4, 0x20, 0x10]) ! unat (11 :: u32)" by code_simp
  then show ?thesis
    using CBS_asn1_bitstring_has_bit_correct [OF v wf_cbs_of, of 11] CBS_asn1_bitstring_has_bit_correct [OF v wf_cbs_of, of 32]
    by (simp add: cbs_of_def CBS_init_def CBS_view_def)
qed

end
