(* ===== verification/Qsort.thy ===== *)
theory Qsort
  imports Main "HOL-Library.Multiset"
begin

text \<open>
  \<open>qsort\<close> of the C library, as a stable insertion sort by the sign of the comparison function. The
  theorems about its callers rest on two facts only: the result is a permutation of the array, and
  it is sorted by any key that the comparison orders by.
\<close>

fun qsort_insert :: "('a \<Rightarrow> 'a \<Rightarrow> int) \<Rightarrow> 'a \<Rightarrow> 'a list \<Rightarrow> 'a list" where
  "qsort_insert cmp x [] = [x]"
| "qsort_insert cmp x (y # ys) = (if cmp x y \<le> 0 then x # y # ys else y # qsort_insert cmp x ys)"

definition qsort :: "('a \<Rightarrow> 'a \<Rightarrow> int) \<Rightarrow> 'a list \<Rightarrow> 'a list" where
  "qsort cmp xs = foldr (qsort_insert cmp) xs []"

lemma mset_qsort_insert [simp]: "mset (qsort_insert cmp x xs) = add_mset x (mset xs)"
  by (induction xs) auto

lemma mset_qsort [simp]: "mset (qsort cmp xs) = mset xs"
  unfolding qsort_def by (induction xs) auto

lemma set_qsort [simp]: "set (qsort cmp xs) = set xs"
  by (metis mset_qsort set_mset_mset)

lemma length_qsort [simp]: "length (qsort cmp xs) = length xs"
  by (metis mset_qsort size_mset)

text \<open>Sorting by a comparison that agrees with the order of a key sorts the keys.\<close>

lemma qsort_keys:
  fixes key :: "'a \<Rightarrow> 'b::linorder"
  assumes "\<And>x y. x \<in> set xs \<Longrightarrow> y \<in> set xs \<Longrightarrow> cmp x y \<le> 0 \<longleftrightarrow> key x \<le> key y"
  shows "map key (qsort cmp xs) = sort (map key xs)"
proof -
  have ins: "map key (qsort_insert cmp x ys) = insort (key x) (map key ys)"
    if "x \<in> set xs" "set ys \<subseteq> set xs" for x ys
    using that(2) by (induction ys) (use assms that(1) in auto)
  have "map key (foldr (qsort_insert cmp) ys []) = sort (map key ys) \<and>
      set (foldr (qsort_insert cmp) ys []) = set ys" if "set ys \<subseteq> set xs" for ys
    using that
  proof (induction ys)
    case (Cons y ys)
    have "set (foldr (qsort_insert cmp) (y # ys) []) = set (y # ys)"
      using set_qsort [of cmp "y # ys"] by (simp only: qsort_def)
    then show ?case using Cons ins by simp
  qed simp
  then show ?thesis by (simp add: qsort_def)
qed

text \<open>
  The contract of a comparison function that is passed to \<open>qsort\<close> or to a search: on the elements
  \<open>A\<close> it is used for, its sign is antisymmetric and transitive.
\<close>

locale comparator =
  fixes A :: "'a set" and cmp :: "'a \<Rightarrow> 'a \<Rightarrow> int"
  assumes sign_swap: "a \<in> A \<Longrightarrow> b \<in> A \<Longrightarrow> cmp a b \<le> 0 \<longleftrightarrow> 0 \<le> cmp b a"
    and le_trans: "a \<in> A \<Longrightarrow> b \<in> A \<Longrightarrow> c \<in> A \<Longrightarrow> cmp a b \<le> 0 \<Longrightarrow> cmp b c \<le> 0 \<Longrightarrow> cmp a c \<le> 0"
begin

lemma le_flip: "a \<in> A \<Longrightarrow> b \<in> A \<Longrightarrow> \<not> cmp a b \<le> 0 \<Longrightarrow> cmp b a \<le> 0"
  using sign_swap [of b a] by simp

lemma zero_swap: "a \<in> A \<Longrightarrow> b \<in> A \<Longrightarrow> cmp a b = 0 \<longleftrightarrow> cmp b a = 0"
  using sign_swap [of a b] sign_swap [of b a] by auto

lemma cmp_refl: "a \<in> A \<Longrightarrow> cmp a a = 0"
  using sign_swap [of a a] by linarith

lemma cmp_less_swap: "a \<in> A \<Longrightarrow> b \<in> A \<Longrightarrow> cmp a b < 0 \<longleftrightarrow> 0 < cmp b a"
  using sign_swap [of b a] by linarith

lemma cmp_trans: "a \<in> A \<Longrightarrow> b \<in> A \<Longrightarrow> c \<in> A \<Longrightarrow> cmp a b < 0 \<Longrightarrow> cmp b c \<le> 0 \<Longrightarrow> cmp a c < 0"
  using le_trans [of a b c] le_trans [of b c a] sign_swap [of c a] sign_swap [of b a] by linarith

lemma cmp_trans': "a \<in> A \<Longrightarrow> b \<in> A \<Longrightarrow> c \<in> A \<Longrightarrow> cmp a b \<le> 0 \<Longrightarrow> cmp b c < 0 \<Longrightarrow> cmp a c < 0"
  using le_trans [of a b c] le_trans [of c a b] sign_swap [of c a] sign_swap [of c b] by linarith

lemma cmp_strict_trans: "a \<in> A \<Longrightarrow> b \<in> A \<Longrightarrow> c \<in> A \<Longrightarrow> cmp a b < 0 \<Longrightarrow> cmp b c < 0 \<Longrightarrow> cmp a c < 0"
  using cmp_trans [of a b c] by simp

abbreviation ascending :: "'a list \<Rightarrow> bool" where
  "ascending \<equiv> sorted_wrt (\<lambda>a b. cmp a b \<le> 0)"

lemma ascending_insert:
  assumes "x \<in> A" "set ys \<subseteq> A" "ascending ys"
  shows "ascending (qsort_insert cmp x ys)"
  using assms(2, 3)
proof (induction ys)
  case (Cons y ys)
  have set: "set (qsort_insert cmp x ys) = insert x (set ys)"
    by (metis mset_qsort_insert set_mset_add_mset_insert set_mset_mset)
  show ?case
  proof (cases "cmp x y \<le> 0")
    case True
    then have "\<forall>z\<in>set ys. cmp x z \<le> 0"
      using Cons.prems assms(1) by (auto intro: le_trans [of x y])
    with True Cons.prems show ?thesis by simp
  next
    case False
    then have "cmp y x \<le> 0" using Cons.prems assms(1) le_flip by simp
    with False Cons show ?thesis by (simp add: set)
  qed
qed simp

lemma ascending_qsort: "set xs \<subseteq> A \<Longrightarrow> ascending (qsort cmp xs)"
proof (induction xs)
  case Nil
  then show ?case by (simp add: qsort_def)
next
  case (Cons x xs)
  have "set (qsort cmp xs) = set xs" by simp
  with Cons ascending_insert [of x "qsort cmp xs"] show ?case by (simp add: qsort_def)
qed

end

end
