(* ===== verification/SetOf.thy ===== *)
theory SetOf
  imports CBB_Top Qsort
begin

text \<open>
  \<open>CBB_flush_asn1_set_of\<close> of \<open>crypto/bytestring/cbb.c\<close> (lines 656 to 728): the elements written to a
  SET OF are put in ascending order of their encodings. \<open>qsort\<close> of the C library is modelled by a
  sort that depends on the comparison function only; the comparison is zero for equal encodings
  only, so every order that \<open>qsort\<close> may choose writes the same bytes.
\<close>

subsection \<open>The writer\<close>

definition compare_set_of_element :: "CBS \<Rightarrow> CBS \<Rightarrow> int" where
  "compare_set_of_element a b =
     (let a_len = CBS_len a; b_len = CBS_len b;
          min_len = (if a_len < b_len then a_len else b_len);
          ret = OPENSSL_memcmp (CBS_data a) (CBS_data b) min_len
      in if ret \<noteq> 0 then ret
         else if a_len = b_len then 0
         else if a_len < b_len then -1 else 1)"

definition sizeof_CBS :: nat where
  "sizeof_CBS = 16"

definition get_child :: "(CBS, CBS) prog" where
  "get_child = obind CBS_get_any_asn1_element (\<lambda>(out, _, _). oret out)"

fun get_children :: "nat \<Rightarrow> (CBS, CBS list) prog" where
  "get_children 0 = oret []"
| "get_children (Suc n) = obind get_child (\<lambda>c. obind (get_children n) (\<lambda>cs. oret (c # cs)))"

fun add_all_children :: "malloc \<Rightarrow> nat \<Rightarrow> CBS list \<Rightarrow> (CBB, unit) prog" where
  "add_all_children mall d [] = oret ()"
| "add_all_children mall d (c # cs) =
     othen (CBB_add_bytes mall d (CBS_data c) (CBS_len c)) (add_all_children mall d cs)"

definition rewind :: "nat \<Rightarrow> CBB \<Rightarrow> CBB" where
  "rewind d cbb = cbb\<lparr>base := map_option (\<lambda>b. b\<lparr>b_len := child_start_of (chain cbb) d\<rparr>) (base cbb)\<rparr>"

definition CBB_flush_asn1_set_of :: "malloc \<Rightarrow> nat \<Rightarrow> (CBB, unit) prog" where
  "CBB_flush_asn1_set_of mall d =
     othen (CBB_flush mall d) (\<lambda>cbb.
       let cbs = CBS_init (CBB_data d cbb) (CBB_len d cbb)
       in case read_list (\<lambda>c. CBS_len c = 0) get_child (CBS_len cbs) cbs of
            (None, _) \<Rightarrow> (None, cbb)
          | (Some found, _) \<Rightarrow>
              (let num_children = length found
               in if num_children < 2 then (Some (), cbb)
                  else if num_children > (size_mod - 1) div sizeof_CBS then (None, cbb)
                  else (let buf_len = CBB_len d cbb
                        in case OPENSSL_memdup mall (CBB_data d cbb) buf_len of
                             None \<Rightarrow> (None, cbb)
                           | Some buf \<Rightarrow>
                               if OPENSSL_malloc mall (num_children * sizeof_CBS) = None then (None, cbb)
                               else (case get_children num_children (CBS_init buf buf_len) of
                                       (None, _) \<Rightarrow> (None, cbb)
                                     | (Some children, _) \<Rightarrow>
                                         add_all_children mall d (qsort compare_set_of_element children)
                                           (rewind d cbb)))))"

subsection \<open>The order of the encodings\<close>

lemma compare_eq:
  assumes "wf_cbs a" "wf_cbs b"
  shows "compare_set_of_element a b =
    (if CBS_view a = CBS_view b then 0 else if CBS_view a < CBS_view b then -1 else 1)"
proof -
  let ?xs = "CBS_view a" and ?ys = "CBS_view b"
  define m where "m = min (length ?xs) (length ?ys)"
  have l: "CBS_len a = length ?xs" "CBS_len b = length ?ys" using assms by (simp_all add: CBS_len_def)
  have mm: "(if CBS_len a < CBS_len b then CBS_len a else CBS_len b) = m" by (simp add: l m_def)
  have v: "take m (CBS_data a) = take m ?xs" "take m (CBS_data b) = take m ?ys"
    using assms by (simp_all add: m_def CBS_data_def CBS_view_def wf_cbs_def min_absorb1 min.commute)
  have "OPENSSL_memcmp (CBS_data a) (CBS_data b) m = memcmp (take m (CBS_data a)) (take m (CBS_data b)) m"
    by (simp add: OPENSSL_memcmp_def memcmp_take)
  also have "\<dots> = memcmp ?xs ?ys m" unfolding v by (rule memcmp_take)
  finally have c: "OPENSSL_memcmp (CBS_data a) (CBS_data b) m = memcmp ?xs ?ys m" .
  show ?thesis
    unfolding compare_set_of_element_def Let_def mm c unfolding l m_def by (rule memcmp_then_length [unfolded Let_def])
qed

lemma compare_le_iff:
  assumes "wf_cbs a" "wf_cbs b"
  shows "compare_set_of_element a b \<le> 0 \<longleftrightarrow> CBS_view a \<le> CBS_view b"
  using assms by (auto simp: compare_eq)

interpretation set_of_order: comparator "Collect wf_cbs" compare_set_of_element
  by unfold_locales (auto simp: compare_eq split: if_splits)

subsection \<open>The writer sorts\<close>

lemma get_child_sound:
  assumes "wf_cbs c" "get_child c = (Some ch, c')"
  shows "\<exists>e. snd e \<in> {xs. length xs < 2 ^ 32} \<and> CBS_view c = der_element e @ CBS_view c' \<and> wf_cbs c' \<and>
    wf_cbs ch \<and> CBS_view ch = der_element e"
proof -
  from assms(2) obtain t hl where g: "CBS_get_any_asn1_element c = (Some (ch, t, hl), c')"
    by (auto simp: get_child_def obind_eq_Some oret_def)
  from element_sound [OF assms(1) g] obtain xs where "length xs < 2 ^ 32"
    "CBS_view c = der_element (t, xs) @ CBS_view c'" "wf_cbs c'" "wf_cbs ch" "CBS_view ch = der_element (t, xs)"
    by metis
  then show ?thesis by (intro exI [of _ "(t, xs)"]) simp
qed

lemma get_child_complete:
  assumes "wf_cbs c" "length (snd e) < 2 ^ 32" "CBS_view c = der_element e @ rest"
  shows "\<exists>ch c'. get_child c = (Some ch, c') \<and> wf_cbs c' \<and> CBS_view c' = rest \<and> wf_cbs ch \<and>
    CBS_view ch = der_element e"
proof -
  obtain t xs where e: "e = (t, xs)" by (cases e)
  have v: "CBS_view c = der_element (t, xs) @ rest" and l: "length xs < 2 ^ 32" using assms e by auto
  note r = element_read [OF assms(1) l v]
  let ?n = "length (der_tag t @ der_len (length xs)) + length xs"
  have n: "?n = length (der_element (t, xs))" by (simp add: der_element_def)
  have le: "?n \<le> cbs_len c" using v assms(1) unfolding n by (metis length_append length_view le_add1)
  have "CBS_view (CBS_init (cbs_data c) ?n) = der_element e"
    unfolding view_CBS_init_data [OF le] unfolding n using v e by simp
  moreover have "wf_cbs (CBS_init (cbs_data c) ?n)" using wf_CBS_init_data [OF assms(1) le] .
  moreover have "CBS_view (advance ?n c) = rest" unfolding n using v by simp
  moreover have "wf_cbs (advance ?n c)" using assms(1) by simp
  ultimately show ?thesis
    using r(1) unfolding get_child_def obind_def oret_def by auto
qed

lemma children_sound:
  "wf_cbs c \<Longrightarrow> read_list (\<lambda>c. CBS_len c = 0) get_child n c = (Some ch, c') \<Longrightarrow>
    \<exists>es. CBS_view c = concat (map der_element es) \<and> length es = length ch \<and> (\<forall>e\<in>set es. length (snd e) < 2 ^ 32)"
proof (induction n arbitrary: c ch)
  case 0
  then have "CBS_len c = 0" "ch = []" by (auto split: if_splits)
  then show ?case by (intro exI [of _ "[]"]) (simp add: CBS_len_def CBS_view_def)
next
  case (Suc n)
  show ?case
  proof (cases "CBS_len c = 0")
    case True
    then show ?thesis using Suc.prems by (intro exI [of _ "[]"]) (simp add: CBS_len_def CBS_view_def)
  next
    case False
    with Suc.prems(2) obtain a c1 as where g: "get_child c = (Some a, c1)"
      and l: "read_list (\<lambda>c. CBS_len c = 0) get_child n c1 = (Some as, c')" and ch: "ch = a # as"
      by (auto split: prod.splits option.splits)
    from get_child_sound [OF Suc.prems(1) g] obtain e where e: "length (snd e) < 2 ^ 32"
      "CBS_view c = der_element e @ CBS_view c1" "wf_cbs c1" by auto
    from Suc.IH [OF e(3) l] obtain es where "CBS_view c1 = concat (map der_element es)" "length es = length as"
      "\<forall>e\<in>set es. length (snd e) < 2 ^ 32" by blast
    then show ?thesis using e ch by (intro exI [of _ "e # es"]) simp
  qed
qed

lemma get_children_complete:
  "wf_cbs c \<Longrightarrow> CBS_view c = concat (map der_element es) \<Longrightarrow> \<forall>e\<in>set es. length (snd e) < 2 ^ 32 \<Longrightarrow>
    \<exists>ch c'. get_children (length es) c = (Some ch, c') \<and> (\<forall>x\<in>set ch. wf_cbs x) \<and>
      map CBS_view ch = map der_element es"
proof (induction es arbitrary: c)
  case Nil
  then show ?case by (simp add: oret_def)
next
  case (Cons e es)
  from get_child_complete [of c e "concat (map der_element es)"] Cons.prems obtain a c1 where
    g: "get_child c = (Some a, c1)" "wf_cbs c1" "CBS_view c1 = concat (map der_element es)" "wf_cbs a"
      "CBS_view a = der_element e" by auto
  from Cons.IH [OF g(2,3)] Cons.prems(3) obtain ch c2 where
    "get_children (length es) c1 = (Some ch, c2)" "\<forall>x\<in>set ch. wf_cbs x" "map CBS_view ch = map der_element es"
    by auto
  then show ?case using g by (simp add: oret_def)
qed

lemma chain_ok_end: "chain_ok lo fs n \<Longrightarrow>
  chain_ok lo fs (case rev fs of [] \<Rightarrow> lo | f # _ \<Rightarrow> offset f + pending_len_len f)"
proof (induction fs arbitrary: lo)
  case (Cons f fs)
  then show ?case by (cases fs rule: rev_cases) auto
qed simp

lemma rewind_ready:
  assumes "CBB_ready d c" "length (chain c) = d"
  shows "CBB_ready d (rewind d c) \<and> CBB_contents d (rewind d c) = Some [] \<and>
    CBB_bytes (rewind d c) = take (child_start_of (chain c) d) (CBB_bytes c) \<and> chain (rewind d c) = chain c"
proof -
  from assms obtain b where b: "base c = Some b" "buf_ok b" "\<not> b_error b" "chain_ok 0 (chain c) (b_len b)"
    by (auto simp: CBB_ready_def)
  let ?s = "child_start_of (chain c) d"
  have s: "?s \<le> length (CBB_bytes c)" by (rule flat_start [OF assms])
  then have sl: "?s \<le> b_len b" using b by (simp add: CBB_bytes_def)
  have "chain_ok 0 (chain c) ?s"
    using chain_ok_end [OF b(4)] rev_take_start [of d "chain c"] assms(2) by simp
  moreover have "CBB_bytes (rewind d c) = take ?s (CBB_bytes c)"
    using b sl by (simp add: rewind_def CBB_bytes_def b_bytes_def min_absorb1)
  ultimately show ?thesis using b sl assms(2)
    by (simp add: CBB_ready_def CBB_contents_def rewind_def buf_ok_def)
qed

lemma add_all_children_writes:
  "CBB_ready d c \<Longrightarrow> CBB_contents d c \<noteq> None \<Longrightarrow> \<forall>x\<in>set ch. wf_cbs x \<and> cbs_len x < size_mod \<Longrightarrow>
   add_all_children mall d ch c = (Some u, c') \<Longrightarrow> writes d c (concat (map CBS_view ch)) c'"
proof (induction ch arbitrary: c)
  case Nil
  then show ?case by (simp add: oret_def writes_nil)
next
  case (Cons a ch)
  from Cons.prems(4) obtain u1 c1 where a: "CBB_add_bytes mall d (CBS_data a) (CBS_len a) c = (Some u1, c1)"
    and r: "add_all_children mall d ch c1 = (Some u, c')" by (auto simp: othen_eq_Some)
  have l: "CBS_len a \<le> length (CBS_data a)" "CBS_len a < size_mod"
    using Cons.prems(3) by (auto simp: CBS_len_def CBS_data_def wf_cbs_def)
  have w: "writes d c (CBS_view a) c1"
    using CBB_add_bytes_writes [OF Cons.prems(1) l a] by (simp add: take_CBS_view)
  then have "CBB_contents d c1 \<noteq> None" by (auto simp: writes_def)
  from Cons.IH [OF writes_ready [OF w] this _ r] Cons.prems(3)
  have "writes d c1 (concat (map CBS_view ch)) c'" by simp
  from writes_trans [OF Cons.prems(1) w this] show ?case by simp
qed

text \<open>The part of the writer that runs on the flushed builder \<open>c0\<close>.\<close>

lemma flushed_slice:
  assumes rd: "CBB_ready d c" and l: "length (chain c) = d" and xs: "CBB_contents d c = Some xs"
  shows "take (CBB_len d c) (CBB_data d c) = xs \<and> CBB_len d c \<le> length (CBB_data d c) \<and>
    CBB_len d c = length xs \<and> length xs < size_mod"
proof -
  define start where "start = child_start_of (chain c) d"
  from rd obtain b where b: "base c = Some b" "buf_ok b" by (auto simp: CBB_ready_def)
  have X: "xs = drop start (take (b_len b) (b_buf b))"
    using contents_flat [OF l] xs b(1) by (simp add: CBB_bytes_def b_bytes_def start_def)
  have D: "CBB_data d c = drop start (b_buf b)" "CBB_len d c = b_len b - start"
    unfolding CBB_data_def CBB_len_def b(1) start_def by simp_all
  have B: "b_len b \<le> length (b_buf b)" "b_len b < size_mod"
    using b(2) unfolding buf_ok_def by linarith+
  show ?thesis unfolding D X using B by (simp add: drop_take diff_le_mono less_imp_diff_less)
qed

lemma children_sorted:
  assumes "\<forall>x\<in>set ch. wf_cbs x" "map CBS_view ch = map der_element es"
  shows "map CBS_view (qsort compare_set_of_element ch) = sort (map der_element es)"
proof -
  have "map CBS_view (qsort compare_set_of_element ch) = sort (map CBS_view ch)"
    by (rule qsort_keys) (use assms(1) compare_le_iff in blast)
  then show ?thesis using assms(2) by simp
qed

lemma children_small:
  assumes "\<forall>x\<in>set ch. wf_cbs x" "map CBS_view ch = map der_element es"
    and "xs = concat (map der_element es)" "length xs < n" "x \<in> set ch"
  shows "cbs_len x < n"
proof -
  have "CBS_view x \<in> set (map der_element es)" using assms(5) unfolding assms(2) [symmetric] by simp
  then have "length (CBS_view x) \<le> length xs" unfolding assms(3)
    by (auto simp: length_concat intro: member_le_sum_list)
  with assms show ?thesis by simp
qed

lemma rewrite_sorted:
  assumes rd: "CBB_ready d c" "length (chain c) = d"
    and ch: "\<forall>x\<in>set ch. wf_cbs x" "map CBS_view ch = map der_element es"
    and small: "length (concat (map der_element es)) < size_mod"
    and r: "add_all_children mall d (qsort compare_set_of_element ch) (rewind d c) = (Some u, c')"
  shows "CBB_contents d c' = Some (concat (sort (map der_element es))) \<and> CBB_ready d c' \<and>
    take (child_start_of (chain c) d) (CBB_bytes c') = take (child_start_of (chain c) d) (CBB_bytes c)"
proof -
  have rw: "CBB_ready d (rewind d c)" "CBB_contents d (rewind d c) = Some []"
    "CBB_bytes (rewind d c) = take (child_start_of (chain c) d) (CBB_bytes c)" "chain (rewind d c) = chain c"
    using rewind_ready [OF rd] by auto
  have "\<forall>x\<in>set (qsort compare_set_of_element ch). wf_cbs x \<and> cbs_len x < size_mod"
    using ch children_small [OF ch refl small] by simp
  from add_all_children_writes [OF rw(1) _ this r] rw(2)
  have "writes d (rewind d c) (concat (sort (map der_element es))) c'"
    by (simp add: children_sorted [OF ch])
  then show ?thesis using rw(2,3,4) by (auto simp: writes_def)
qed

lemma set_of_flushed:
  assumes rd: "CBB_ready d c" "length (chain c) = d" and xs: "CBB_contents d c = Some xs"
    and r: "(let cbs = CBS_init (CBB_data d c) (CBB_len d c)
       in case read_list (\<lambda>c. CBS_len c = 0) get_child (CBS_len cbs) cbs of
            (None, _) \<Rightarrow> (None, c)
          | (Some found, _) \<Rightarrow>
              (let num_children = length found
               in if num_children < 2 then (Some (), c)
                  else if num_children > (size_mod - 1) div sizeof_CBS then (None, c)
                  else (let buf_len = CBB_len d c
                        in case OPENSSL_memdup mall (CBB_data d c) buf_len of
                             None \<Rightarrow> (None, c)
                           | Some buf \<Rightarrow>
                               if OPENSSL_malloc mall (num_children * sizeof_CBS) = None then (None, c)
                               else (case get_children num_children (CBS_init buf buf_len) of
                                       (None, _) \<Rightarrow> (None, c)
                                     | (Some children, _) \<Rightarrow>
                                         add_all_children mall d (qsort compare_set_of_element children)
                                           (rewind d c))))) = (Some u, c')"
  shows "\<exists>es. xs = concat (map der_element es) \<and>
    CBB_contents d c' = Some (concat (sort (map der_element es))) \<and> CBB_ready d c' \<and>
    take (child_start_of (chain c) d) (CBB_bytes c') = take (child_start_of (chain c) d) (CBB_bytes c)"
proof -
  let ?cbs = "CBS_init (CBB_data d c) (CBB_len d c)"
  note dat = flushed_slice [OF rd xs]
  have wf: "wf_cbs ?cbs" "CBS_view ?cbs = xs"
    using dat wf_CBS_init [of "CBB_len d c" "CBB_data d c"] unfolding view_CBS_init by blast+
  from r obtain found cf where rl: "read_list (\<lambda>c. CBS_len c = 0) get_child (CBS_len ?cbs) ?cbs = (Some found, cf)"
    unfolding Let_def by (auto split: prod.splits option.splits)
  from children_sound [OF wf(1) rl] wf(2) obtain es where es: "xs = concat (map der_element es)"
    "length es = length found" "\<forall>e\<in>set es. length (snd e) < 2 ^ 32" by auto
  show ?thesis
  proof (cases "length found < 2")
    case True
    then have "c' = c" using r rl by (simp add: Let_def)
    moreover have "sort (map der_element es) = map der_element es"
      using True es(2) by (cases es; cases "tl es") auto
    ultimately show ?thesis using xs es(1) rd by auto
  next
    case False
    from r [unfolded rl Let_def prod.case option.case] False obtain buf ch cc where
      md: "OPENSSL_memdup mall (CBB_data d c) (CBB_len d c) = Some buf"
      and gc: "get_children (length found) (CBS_init buf (CBB_len d c)) = (Some ch, cc)"
      and ad: "add_all_children mall d (qsort compare_set_of_element ch) (rewind d c) = (Some u, c')"
      by (auto split: prod.splits option.splits if_splits)
    have "buf = xs" using OPENSSL_memdup_eq [OF md] dat by metis
    then have wb: "wf_cbs (CBS_init buf (CBB_len d c))" "CBS_view (CBS_init buf (CBB_len d c)) = xs"
      using dat by (simp_all add: wf_CBS_init view_CBS_init)
    from get_children_complete [OF wb(1) _ es(3)] wb(2) es(1,2) gc have
      ch: "\<forall>x\<in>set ch. wf_cbs x" "map CBS_view ch = map der_element es" by auto
    have "length (concat (map der_element es)) < size_mod" using dat unfolding es(1) by (elim conjE)
    from rewrite_sorted [OF rd ch this ad] es(1) show ?thesis by blast
  qed
qed

text \<open>
  Property C17: \<open>CBB_flush_asn1_set_of\<close> succeeds only on a sequence of whole DER elements, and leaves the
  same elements in ascending order of their encodings (X.690, 11.6), with everything written before
  the SET untouched.
\<close>

theorem CBB_flush_asn1_set_of_sorts:
  assumes rd: "CBB_ready d c" and r: "CBB_flush_asn1_set_of mall d c = (Some u, c')"
  shows "\<exists>es. CBB_contents d c = Some (concat (map der_element es)) \<and>
    CBB_contents d c' = Some (concat (sort (map der_element es))) \<and> CBB_ready d c' \<and>
    take (child_start_of (chain c) d) (CBB_bytes c') = take (child_start_of (chain c) d) (CBB_bytes c)"
proof -
  from r obtain u0 c0 where f: "CBB_flush mall d c = (Some u0, c0)"
    unfolding CBB_flush_asn1_set_of_def othen_eq_Some by blast
  note w0 = flush_writes [OF rd f]
  have st: "child_start_of (chain c0) d = child_start_of (chain c) d"
    using w0 rd by (intro same_child_start) (auto simp: writes_def CBB_ready_def)
  obtain xs where xs: "CBB_contents d c = Some xs" "CBB_contents d c0 = Some xs"
    using w0(1) by (auto simp: writes_def)
  from set_of_flushed [OF writes_ready [OF w0(1)] w0(2) xs(2), of mall u c'] r f
  obtain es where "xs = concat (map der_element es)"
    "CBB_contents d c' = Some (concat (sort (map der_element es)))" "CBB_ready d c'"
    "take (child_start_of (chain c0) d) (CBB_bytes c') = take (child_start_of (chain c0) d) (CBB_bytes c0)"
    unfolding CBB_flush_asn1_set_of_def by (simp add: othen_def obind_def) blast
  with xs(1) w0(1) st show ?thesis by (auto simp: writes_def)
qed

end
