(* ===== verification/OID.thy ===== *)
theory OID
  imports CBB_Top
begin

text \<open>
  Object identifiers in dotted-decimal text: \<open>CBB_add_asn1_oid_from_text\<close> of
  \<open>crypto/bytestring/cbb.c\<close> (lines 590 to 654) and \<open>CBS_asn1_oid_to_text\<close> of
  \<open>crypto/bytestring/cbs.c\<close> (lines 661 to 711), and the proof that they are inverse to each other on
  the identifiers whose components fit 64 bits.
\<close>

subsection \<open>Text to DER\<close>

abbreviation dot :: u8 where
  "dot \<equiv> 46"

abbreviation UINT64_MAX :: u64 where
  "UINT64_MAX \<equiv> 0xffffffffffffffff"

function dotted_decimal_loop :: "u64 \<Rightarrow> bool \<Rightarrow> (CBS, u64) prog" where
  "dotted_decimal_loop out seen_digit cbs =
     (case CBS_get_u8 cbs of
        (None, cbs') \<Rightarrow> (if seen_digit then Some out else None, cbs')
      | (Some u, cbs') \<Rightarrow>
          if u = dot \<and> CBS_len cbs' > 0 then (if seen_digit then Some out else None, cbs')
          else if u < 48 \<or> u > 57 \<or> (seen_digit \<and> out = 0) \<or> out > UINT64_MAX div 10 \<or>
                  out * 10 > UINT64_MAX - ucast (u - 48)
          then (None, cbs')
          else dotted_decimal_loop (out * 10 + ucast (u - 48)) True cbs')"
  by pat_completeness auto
termination
  by (relation "measure (\<lambda>(out, s, c). cbs_len c)") (auto dest: CBS_get_u8_shorter sym)

declare dotted_decimal_loop.simps [simp del]

definition parse_dotted_decimal :: "(CBS, u64) prog" where
  "parse_dotted_decimal = dotted_decimal_loop 0 False"

lemma dotted_decimal_loop_shorter:
  "dotted_decimal_loop out s c = (Some v, c') \<Longrightarrow> cbs_len c' \<le> cbs_len c \<and> (\<not> s \<longrightarrow> cbs_len c' < cbs_len c)"
proof (induction out s c rule: dotted_decimal_loop.induct)
  case (1 out s c)
  show ?case
  proof (cases "CBS_get_u8 c")
    case (Pair r c1)
    show ?thesis
    proof (cases r)
      case None
      then have "c1 = c" using Pair by (auto simp: CBS_get_u8_eq split: if_splits)
      with Pair None 1(2) show ?thesis by (auto simp: dotted_decimal_loop.simps [of out s c] split: if_splits)
    next
      case (Some u)
      have l: "cbs_len c1 < cbs_len c" using CBS_get_u8_shorter Pair Some by blast
      show ?thesis
      proof (cases "u = dot \<and> CBS_len c1 > 0")
        case True
        then show ?thesis using l 1(2) Pair Some
          by (simp add: dotted_decimal_loop.simps [of out s c] split: if_splits)
      next
        case False
        from 1(2) have n: "\<not> (u < 48 \<or> u > 57 \<or> (s \<and> out = 0) \<or> out > UINT64_MAX div 10 \<or>
            out * 10 > UINT64_MAX - ucast (u - 48))"
          and r: "dotted_decimal_loop (out * 10 + ucast (u - 48)) True c1 = (Some v, c')"
          unfolding dotted_decimal_loop.simps [of out s c] Pair Some
          using False by (auto split: if_splits)
        from 1(1) [OF _ Some False n r] Pair l show ?thesis by simp
      qed
    qed
  qed
qed

lemma parse_dotted_decimal_shorter: "parse_dotted_decimal c = (Some v, c') \<Longrightarrow> cbs_len c' < cbs_len c"
  using dotted_decimal_loop_shorter [of 0 False c v c'] by (simp add: parse_dotted_decimal_def)

function oid_components_loop :: "malloc \<Rightarrow> nat \<Rightarrow> CBS \<Rightarrow> (CBB, unit) prog" where
  "oid_components_loop mall d cbs =
     (if CBS_len cbs > 0
      then (case parse_dotted_decimal cbs of
              (None, _) \<Rightarrow> ofail
            | (Some a, cbs') \<Rightarrow> othen (add_base128_integer mall d a) (oid_components_loop mall d cbs'))
      else oret ())"
  by pat_completeness auto
termination
  by (relation "measure (\<lambda>(m, d, c). cbs_len c)") (auto dest: parse_dotted_decimal_shorter sym)

declare oid_components_loop.simps [simp del]

definition CBB_add_asn1_oid_from_text :: "malloc \<Rightarrow> nat \<Rightarrow> u8 list \<Rightarrow> nat \<Rightarrow> (CBB, unit) prog" where
  "CBB_add_asn1_oid_from_text mall d text len =
     othen (CBB_flush mall d)
       (case parse_dotted_decimal (CBS_init text len) of
          (None, _) \<Rightarrow> ofail
        | (Some a, cbs) \<Rightarrow>
       (case parse_dotted_decimal cbs of
          (None, _) \<Rightarrow> ofail
        | (Some b, cbs) \<Rightarrow>
            if a > 2 \<or> (a < 2 \<and> b > 39) \<or> b > UINT64_MAX - 80 then ofail
            else othen (add_base128_integer mall d (40 * a + b)) (oid_components_loop mall d cbs)))"

subsection \<open>DER to text\<close>

text \<open>What \<open>%\<close>\<open>PRIu64\<close> prints.\<close>

fun decimal :: "nat \<Rightarrow> u8 list" where
  "decimal v = (if v < 10 then [word_of_nat (48 + v)] else decimal (v div 10) @ [word_of_nat (48 + v mod 10)])"

declare decimal.simps [simp del]

definition add_decimal :: "malloc \<Rightarrow> nat \<Rightarrow> u64 \<Rightarrow> (CBB, unit) prog" where
  "add_decimal mall d v = CBB_add_bytes mall d (decimal (unat v)) (length (decimal (unat v)))"

lemma parse_base128_loop_shorter: "parse_base128_loop v c = (Some r, c') \<Longrightarrow> cbs_len c' < cbs_len c"
proof (induction v c rule: parse_base128_loop.induct)
  case (1 v c)
  from 1(2) obtain b c1 where g: "CBS_get_u8 c = (Some b, c1)"
    by (auto simp: parse_base128_loop.simps [of v c] split: prod.splits option.splits)
  let ?v' = "push_bit 7 v OR ucast (b AND 0x7f)"
  have l: "cbs_len c1 < cbs_len c" using CBS_get_u8_shorter [OF g] .
  from 1(2) g have n: "\<not> drop_bit (64 - 7) v \<noteq> 0" "\<not> (v = 0 \<and> b = 0x80)"
    and r: "(if b AND 0x80 \<noteq> 0 then parse_base128_loop ?v' c1 else (Some ?v', c1)) = (Some r, c')"
    by (auto simp: parse_base128_loop.simps [of v c] Let_def split: if_splits)
  show ?case
  proof (cases "b AND 0x80 \<noteq> 0")
    case True
    from 1(1) [OF g [symmetric] refl n refl True] r True l show ?thesis by simp
  qed (use r l in simp)
qed

lemma parse_base128_shorter: "parse_base128_integer c = (Some v, c') \<Longrightarrow> cbs_len c' < cbs_len c"
  by (simp add: parse_base128_integer_def parse_base128_loop_shorter)

function oid_text_loop :: "malloc \<Rightarrow> CBS \<Rightarrow> (CBB, unit) prog" where
  "oid_text_loop mall copy =
     (if CBS_len copy \<noteq> 0
      then (case parse_base128_integer copy of
              (None, _) \<Rightarrow> ofail
            | (Some v, copy') \<Rightarrow>
                othen (CBB_add_u8 mall 0 dot) (othen (add_decimal mall 0 v) (oid_text_loop mall copy')))
      else oret ())"
  by pat_completeness auto
termination
  by (relation "measure (\<lambda>(m, c). cbs_len c)") (auto dest: parse_base128_shorter sym)

declare oid_text_loop.simps [simp del]

definition oid_first_component :: "malloc \<Rightarrow> u64 \<Rightarrow> (CBB, unit) prog" where
  "oid_first_component mall v =
     (if v \<ge> 80 then othen (CBB_add_bytes mall 0 [50, dot] 2) (add_decimal mall 0 (v - 80))
      else othen (add_decimal mall 0 (v div 40))
             (othen (CBB_add_u8 mall 0 dot) (add_decimal mall 0 (v mod 40))))"

definition finish_text :: "malloc \<Rightarrow> (CBB, u8 list) prog" where
  "finish_text mall =
     othen (CBB_add_u8 mall 0 0)
       (obind (CBB_finish mall 0 True True) (\<lambda>(txt, txt_len).
          case txt of None \<Rightarrow> ofail | Some t \<Rightarrow> oret t))"

definition CBS_asn1_oid_to_text :: "malloc \<Rightarrow> CBS \<Rightarrow> u8 list option" where
  "CBS_asn1_oid_to_text mall cbs =
     fst (othen (CBB_init mall 32)
       (case parse_base128_integer cbs of
          (None, _) \<Rightarrow> ofail
        | (Some v, copy) \<Rightarrow>
            othen (oid_first_component mall v) (othen (oid_text_loop mall copy) (finish_text mall)))
       CBB_zero)"

subsection \<open>The decimal components\<close>

definition is_digit :: "u8 \<Rightarrow> bool" where
  "is_digit u \<longleftrightarrow> 48 \<le> u \<and> u \<le> 57"

definition decimal_value :: "nat \<Rightarrow> u8 list \<Rightarrow> nat" where
  "decimal_value a ds = foldl (\<lambda>a d. a * 10 + (unat d - 48)) a ds"

lemma decimal_value_simps [simp]:
  "decimal_value a [] = a" "decimal_value a (d # ds) = decimal_value (a * 10 + (unat d - 48)) ds"
  "decimal_value a (ds @ [d]) = decimal_value a ds * 10 + (unat d - 48)"
  by (simp_all add: decimal_value_def)

lemma decimal_value_le: "a \<le> decimal_value a ds"
proof (induction ds arbitrary: a)
  case (Cons d ds)
  from Cons [of "a * 10 + (unat d - 48)"] show ?case by simp
qed simp

lemma unat_digit: "v < 10 \<Longrightarrow> unat (word_of_nat (48 + v) :: u8) = 48 + v"
  unfolding unat_word_of_nat by simp

lemma decimal_digits: "\<forall>d\<in>set (decimal v). is_digit d"
proof (induction v rule: decimal.induct)
  case (1 v)
  have d: "is_digit (word_of_nat (48 + k))" if "k < 10" for k
    using unat_digit [OF that] that unfolding is_digit_def word_le_nat_alt by simp
  show ?case using 1 d [of v] d [of "v mod 10"] by (auto simp: decimal.simps [of v])
qed

lemma decimal_value_decimal: "decimal_value 0 (decimal v) = v"
proof (induction v rule: decimal.induct)
  case (1 v)
  show ?case
  proof (cases "v < 10")
    case True
    then show ?thesis using unat_digit [OF True] by (simp add: decimal.simps [of v])
  next
    case False
    have "unat (word_of_nat (48 + v mod 10) :: u8) = 48 + v mod 10" by (rule unat_digit) simp
    then have "unat (word_of_nat (48 + v mod 10) :: u8) - 48 = v mod 10" by linarith
    then show ?thesis using 1 False by (simp only: decimal.simps [of v] if_False decimal_value_simps) simp
  qed
qed

lemma decimal_nonempty: "decimal v \<noteq> []"
  by (simp add: decimal.simps [of v])

lemma decimal_leading: "hd (decimal v) = 48 \<Longrightarrow> decimal v = [48]"
proof (induction v rule: decimal.induct)
  case (1 v)
  show ?case
  proof (cases "v < 10")
    case False
    then have "hd (decimal (v div 10)) = 48"
      using 1(2) decimal_nonempty [of "v div 10"] by (simp add: decimal.simps [of v])
    then have "decimal (v div 10) = [48]" using 1(1) [OF False] by blast
    then have "v div 10 = 0" using decimal_value_decimal [of "v div 10"] by simp
    then show ?thesis using False by simp
  qed (use 1(2) in \<open>simp add: decimal.simps [of v]\<close>)
qed

text \<open>The scanner reads digits up to the end of the text or to a dot that is not its last character.\<close>

definition component_end :: "u8 list \<Rightarrow> bool" where
  "component_end rest \<longleftrightarrow> rest = [] \<or> (hd rest = dot \<and> tl rest \<noteq> [])"

lemma digit_step:
  assumes "is_digit d" "unat out * 10 + (unat d - 48) < 2 ^ 64"
  shows "\<not> d < 48" "\<not> 57 < d" "d \<noteq> dot" "\<not> out > UINT64_MAX div 10"
    "\<not> out * 10 > UINT64_MAX - ucast (d - 48)" "unat (out * 10 + ucast (d - 48)) = unat out * 10 + (unat d - 48)"
proof -
  show "\<not> d < 48" "\<not> 57 < d" "d \<noteq> dot" using assms(1) by (auto simp: is_digit_def not_less)
  have d: "48 \<le> unat d" "unat d \<le> 57" using assms(1) by (auto simp: is_digit_def word_le_nat_alt)
  have ud: "unat (ucast (d - 48) :: u64) = unat d - 48"
    using assms(1) by (simp add: unat_ucast_up unat_sub is_digit_def)
  define n k where "n = unat out" and "k = unat d - 48"
  have nk: "n * 10 + k < 2 ^ 64" "k < 10" using assms(2) d by (auto simp: n_def k_def)
  have "n \<le> 1844674407370955161" using nk by simp
  then show "\<not> out > UINT64_MAX div 10"
    by (simp add: word_less_nat_alt not_less unat_div n_def)
  have m: "unat (out * 10) = n * 10" using nk by (simp add: unat_word_ariths n_def)
  have "unat (UINT64_MAX - ucast (d - 48)) = 18446744073709551615 - k"
    using ud d by (simp add: unat_sub word_le_nat_alt k_def)
  then show "\<not> out * 10 > UINT64_MAX - ucast (d - 48)"
    using nk m by (simp add: word_less_nat_alt not_less)
  show "unat (out * 10 + ucast (d - 48)) = unat out * 10 + (unat d - 48)"
    using nk m ud by (simp add: unat_word_ariths n_def k_def)
qed

lemma dotted_decimal_loop_digits:
  "wf_cbs c \<Longrightarrow> CBS_view c = ds @ rest \<Longrightarrow> component_end rest \<Longrightarrow> \<forall>d\<in>set ds. is_digit d \<Longrightarrow>
   decimal_value (unat out) ds < 2 ^ 64 \<Longrightarrow> (s \<longrightarrow> ds = [] \<or> out \<noteq> 0) \<Longrightarrow>
   (\<not> s \<longrightarrow> out = 0 \<and> ds \<noteq> [] \<and> (hd ds = 48 \<longrightarrow> ds = [48])) \<Longrightarrow>
   \<exists>c'. dotted_decimal_loop out s c = (Some (word_of_nat (decimal_value (unat out) ds)), c') \<and>
     wf_cbs c' \<and> CBS_view c' = tl rest"
proof (induction ds arbitrary: out s c)
  case Nil
  then have s: "s" by auto
  show ?case
  proof (cases rest)
    case Nil
    then have "CBS_get_u8 c = (None, c)" using Nil.prems by (simp add: CBS_get_u8_cases)
    then show ?thesis using s Nil Nil.prems by (simp add: dotted_decimal_loop.simps [of out True c])
  next
    case (Cons r rs)
    then have "CBS_get_u8 c = (Some dot, advance 1 c)" "r = dot" "rs \<noteq> []"
      using Nil.prems by (auto simp: CBS_get_u8_cases component_end_def)
    moreover have "CBS_len (advance 1 c) > 0"
      using length_view [OF Nil.prems(1)] Nil.prems(2) Cons \<open>rs \<noteq> []\<close> by (cases rs) (auto simp: CBS_len_def)
    ultimately show ?thesis using s Cons Nil.prems by (simp add: dotted_decimal_loop.simps [of out True c])
  qed
next
  case (Cons d ds)
  have g: "CBS_get_u8 c = (Some d, advance 1 c)" using Cons.prems by (simp add: CBS_get_u8_cases)
  have "unat out * 10 + (unat d - 48) < 2 ^ 64"
    using Cons.prems(5) decimal_value_le [of "unat out * 10 + (unat d - 48)" ds] by simp
  note st = digit_step [OF _ this]
  let ?out = "out * 10 + ucast (d - 48)"
  have dg: "is_digit d" using Cons.prems(4) by simp
  have z: "\<not> (s \<and> out = 0)" using Cons.prems(6) by auto
  have step: "dotted_decimal_loop out s c = dotted_decimal_loop ?out True (advance 1 c)"
    unfolding dotted_decimal_loop.simps [of out s c] g prod.case option.case
    using z st(1-5) [OF dg] by (simp only: if_False simp_thms)
  have nz: "ds = [] \<or> ?out \<noteq> 0"
  proof (rule ccontr)
    assume a: "\<not> (ds = [] \<or> ?out \<noteq> 0)"
    then have "unat out * 10 + (unat d - 48) = 0" using st(6) [OF dg] by simp
    then have o: "out = 0" "unat d \<le> 48" by (simp_all add: unat_eq_0)
    then have "d = 48" using dg by (simp add: is_digit_def word_le_nat_alt word_unat_eq_iff)
    then show False using o(1) a Cons.prems(7) z by (cases s) auto
  qed
  have "\<exists>c'. dotted_decimal_loop ?out True (advance 1 c) =
      (Some (word_of_nat (decimal_value (unat ?out) ds)), c') \<and> wf_cbs c' \<and> CBS_view c' = tl rest"
    using Cons.prems(1-5) nz st(6) [OF dg] by (intro Cons.IH) auto
  then show ?case using step st(6) [OF dg] by simp
qed

lemma parse_dotted_decimal_complete:
  assumes "wf_cbs c" "CBS_view c = decimal v @ rest" "component_end rest" "v < 2 ^ 64"
  shows "\<exists>c'. parse_dotted_decimal c = (Some (word_of_nat v), c') \<and> wf_cbs c' \<and> CBS_view c' = tl rest"
  using dotted_decimal_loop_digits [OF assms(1,2,3) decimal_digits, of 0 False] decimal_value_decimal [of v]
    decimal_nonempty [of v] decimal_leading [of v] assms(4)
  by (simp add: parse_dotted_decimal_def)

subsection \<open>Identifiers as lists of components\<close>

fun join_dots :: "u8 list list \<Rightarrow> u8 list" where
  "join_dots [] = []"
| "join_dots [x] = x"
| "join_dots (x # y # ys) = x @ dot # join_dots (y # ys)"

definition oid_text :: "nat list \<Rightarrow> u8 list" where
  "oid_text arcs = join_dots (map decimal arcs)"

definition oid_bytes :: "nat list \<Rightarrow> u8 list" where
  "oid_bytes arcs =
     (case arcs of a # b # rest \<Rightarrow> base128 (40 * a + b) @ concat (map base128 rest) | _ \<Rightarrow> [])"

definition valid_oid :: "nat list \<Rightarrow> bool" where
  "valid_oid arcs \<longleftrightarrow>
     (case arcs of
        a # b # rest \<Rightarrow> a \<le> 2 \<and> (a < 2 \<longrightarrow> b \<le> 39) \<and> b + 80 < 2 ^ 64 \<and> (\<forall>x\<in>set rest. x < 2 ^ 64)
      | _ \<Rightarrow> False)"

lemma join_dots_Cons: "ys \<noteq> [] \<Longrightarrow> join_dots (x # ys) = x @ dot # join_dots ys"
  by (cases ys) simp_all

lemma join_dots_nonempty: "xs \<noteq> [] \<Longrightarrow> \<forall>x\<in>set xs. x \<noteq> [] \<Longrightarrow> join_dots xs \<noteq> []"
  by (induction xs rule: join_dots.induct) auto

lemma join_dots_split:
  "\<exists>rest. join_dots (map decimal (x # xs)) = decimal x @ rest \<and> component_end rest \<and>
    tl rest = join_dots (map decimal xs)"
  by (cases xs) (auto simp: component_end_def join_dots_nonempty decimal_nonempty)

lemma next_component:
  assumes "wf_cbs c" "CBS_view c = join_dots (map decimal (x # xs))" "x < 2 ^ 64"
  obtains c' where "parse_dotted_decimal c = (Some (word_of_nat x), c')" "wf_cbs c'"
    "CBS_view c' = join_dots (map decimal xs)"
proof -
  obtain rest where r: "join_dots (map decimal (x # xs)) = decimal x @ rest" "component_end rest"
    "tl rest = join_dots (map decimal xs)" using join_dots_split by blast
  have "CBS_view c = decimal x @ rest" using assms(2) r(1) by simp
  from parse_dotted_decimal_complete [OF assms(1) this r(2) assms(3)] r(3) that show thesis by auto
qed

lemma oid_components_loop_writes:
  "wf_cbs cbs \<Longrightarrow> CBS_view cbs = join_dots (map decimal xs) \<Longrightarrow> \<forall>x\<in>set xs. x < 2 ^ 64 \<Longrightarrow>
   CBB_ready d c \<Longrightarrow> CBB_contents d c \<noteq> None \<Longrightarrow> oid_components_loop mall d cbs c = (Some u, c') \<Longrightarrow>
   writes d c (concat (map base128 xs)) c'"
proof (induction xs arbitrary: cbs c)
  case Nil
  then have "CBS_len cbs = 0" using length_view [of cbs] by (simp add: CBS_len_def)
  then show ?case using Nil by (simp add: oid_components_loop.simps [of mall d cbs] oret_def writes_nil)
next
  case (Cons x xs)
  have "CBS_view cbs \<noteq> []" using Cons.prems(2) join_dots_nonempty [of "map decimal (x # xs)"]
    by (auto simp: decimal_nonempty)
  then have l: "CBS_len cbs > 0" using length_view [OF Cons.prems(1)] by (cases "CBS_view cbs") (auto simp: CBS_len_def)
  have x: "x < 2 ^ 64" using Cons.prems(3) by simp
  obtain cbs' where p: "parse_dotted_decimal cbs = (Some (word_of_nat x), cbs')" "wf_cbs cbs'"
    "CBS_view cbs' = join_dots (map decimal xs)" by (rule next_component [OF Cons.prems(1,2) x])
  have "othen (add_base128_integer mall d (word_of_nat x)) (oid_components_loop mall d cbs') c = (Some u, c')"
    using Cons.prems(6) l p(1) by (simp add: oid_components_loop.simps [of mall d cbs])
  then obtain u1 c1 where a: "add_base128_integer mall d (word_of_nat x) c = (Some u1, c1)"
    and r: "oid_components_loop mall d cbs' c1 = (Some u, c')" unfolding othen_eq_Some by blast
  have "unat (word_of_nat x :: u64) = x" using x by (simp add: unat_word_of_nat)
  with add_base128_integer_writes [OF Cons.prems(4,5) a] have w: "writes d c (base128 x) c1" by simp
  then have "CBB_contents d c1 \<noteq> None" by (auto simp: writes_def)
  from Cons.IH [OF p(2,3) _ writes_ready [OF w] this r] Cons.prems(3)
  have "writes d c1 (concat (map base128 xs)) c'" by simp
  with writes_trans [OF Cons.prems(4) w] show ?case by simp
qed

text \<open>
  : \<open>CBB_add_asn1_oid_from_text\<close> appends the DER contents of the identifier that the text
  denotes: the first two components in one base-128 number, each further component in its own.
\<close>

theorem CBB_add_asn1_oid_from_text_writes:
  assumes "valid_oid arcs" "CBB_ready d c"
    and "CBB_add_asn1_oid_from_text mall d (oid_text arcs) (length (oid_text arcs)) c = (Some u, c')"
  shows "writes d c (oid_bytes arcs) c'"
proof -
  from assms(1) obtain a b xs where arcs: "arcs = a # b # xs" and a: "a \<le> 2" "a < 2 \<longrightarrow> b \<le> 39"
    and b: "b + 80 < 2 ^ 64" and xs: "\<forall>x\<in>set xs. x < 2 ^ 64"
    by (auto simp: valid_oid_def split: list.splits)
  let ?cbs = "CBS_init (oid_text arcs) (length (oid_text arcs))"
  have wf: "wf_cbs ?cbs" by (rule wf_cbs_of [unfolded cbs_of_def])
  have v: "CBS_view ?cbs = join_dots (map decimal (a # b # xs))"
    using view_cbs_of [of "oid_text arcs"] unfolding cbs_of_def unfolding oid_text_def arcs .
  have lt: "a < 2 ^ 64" "b < 2 ^ 64" using a b by simp_all
  obtain c1 where p1: "parse_dotted_decimal ?cbs = (Some (word_of_nat a), c1)" "wf_cbs c1"
    "CBS_view c1 = join_dots (map decimal (b # xs))" by (rule next_component [OF wf v lt(1)])
  obtain c2 where p2: "parse_dotted_decimal c1 = (Some (word_of_nat b), c2)" "wf_cbs c2"
    "CBS_view c2 = join_dots (map decimal xs)" by (rule next_component [OF p1(2,3) lt(2)])
  let ?a = "word_of_nat a :: u64" and ?b = "word_of_nat b :: u64"
  from assms(3) obtain u0 c0 where f: "CBB_flush mall d c = (Some u0, c0)"
    and r: "(if ?a > 2 \<or> (?a < 2 \<and> ?b > 39) \<or> ?b > UINT64_MAX - 80 then ofail
      else othen (add_base128_integer mall d (40 * ?a + ?b)) (oid_components_loop mall d c2)) c0 = (Some u, c')"
    unfolding CBB_add_asn1_oid_from_text_def othen_eq_Some [of "CBB_flush mall d"] p1(1) p2(1) prod.case option.case
    by blast
  from r obtain u1 c3 where w1: "add_base128_integer mall d (40 * ?a + ?b) c0 = (Some u1, c3)"
    and w2: "oid_components_loop mall d c2 c3 = (Some u, c')"
    by (auto simp: ofail_def othen_eq_Some split: if_splits)
  have "unat ?a = a" "unat ?b = b" using lt by (simp_all add: unat_word_of_nat)
  moreover have "a * 40 + b < 2 ^ 64" using a b by simp
  ultimately have n: "unat (40 * ?a + ?b) = 40 * a + b" by (simp add: unat_word_ariths)
  note w0 = flush_writes(1) [OF assms(2) f]
  have ne: "CBB_contents d c0 \<noteq> None" using w0 by (auto simp: writes_def)
  have wa: "writes d c0 (base128 (40 * a + b)) c3"
    using add_base128_integer_writes [OF writes_ready [OF w0] ne w1] n by simp
  have ne3: "CBB_contents d c3 \<noteq> None" using wa by (auto simp: writes_def)
  have wb: "writes d c3 (concat (map base128 xs)) c'"
    by (rule oid_components_loop_writes [OF p2(2,3) xs writes_ready [OF wa] ne3 w2])
  show ?thesis
    using writes_trans [OF assms(2) w0 writes_trans [OF writes_ready [OF w0] wa wb]]
    by (simp add: oid_bytes_def arcs)
qed

subsection \<open>The text of an identifier\<close>

lemma length_decimal_64: "v < 10 ^ Suc k \<Longrightarrow> length (decimal v) \<le> Suc k"
proof (induction k arbitrary: v)
  case 0
  then show ?case by (simp add: decimal.simps [of v])
next
  case (Suc k)
  show ?case
  proof (cases "v < 10")
    case False
    have "v div 10 < 10 ^ Suc k" using Suc.prems by (simp add: less_mult_imp_div_less mult.commute)
    then show ?thesis using Suc.IH False by (simp add: decimal.simps [of v])
  qed (simp add: decimal.simps [of v])
qed

lemma add_decimal_writes:
  assumes "CBB_ready d c" "add_decimal mall d v c = (Some u, c')"
  shows "writes d c (decimal (unat v)) c' \<and> length (chain c') = d"
proof -
  have "unat v < 10 ^ Suc 19" using unat_less_64 [of v] by simp
  then have "length (decimal (unat v)) \<le> Suc 19" by (rule length_decimal_64)
  then have "length (decimal (unat v)) < size_mod" by simp
  from CBB_add_bytes_writes [OF assms(1) order_refl this assms(2) [unfolded add_decimal_def]]
  show ?thesis by simp
qed

lemma oid_text_loop_writes:
  "wf_cbs copy \<Longrightarrow> CBB_ready 0 c \<Longrightarrow> CBB_contents 0 c \<noteq> None \<Longrightarrow> oid_text_loop mall copy c = (Some u, c') \<Longrightarrow>
   \<exists>xs. CBS_view copy = concat (map base128 xs) \<and> (\<forall>x\<in>set xs. x < 2 ^ 64) \<and>
     writes 0 c (concat (map (\<lambda>x. dot # decimal x) xs)) c'"
proof (induction mall copy arbitrary: c rule: oid_text_loop.induct)
  case (1 mall copy)
  show ?case
  proof (cases "CBS_len copy \<noteq> 0")
    case False
    then have "CBS_view copy = []" by (simp add: CBS_len_def CBS_view_def)
    moreover have "c' = c" using 1(5) False by (simp add: oid_text_loop.simps [of mall copy] oret_def)
    ultimately show ?thesis using writes_nil [OF 1(3,4)] by (intro exI [of _ "[]"]) simp
  next
    case True
    from 1(5) True obtain v copy' where p: "parse_base128_integer copy = (Some v, copy')"
      and r: "othen (CBB_add_u8 mall 0 dot) (othen (add_decimal mall 0 v) (oid_text_loop mall copy')) c = (Some u, c')"
      by (auto simp: oid_text_loop.simps [of mall copy] ofail_def split: prod.splits option.splits)
    from base128_codec.read_sound [OF 1(2) p] have b: "wf_cbs copy'"
      "CBS_view copy = base128 (unat v) @ CBS_view copy'" by auto
    from r obtain u1 c1 u2 c2 where a: "CBB_add_u8 mall 0 dot c = (Some u1, c1)"
      "add_decimal mall 0 v c1 = (Some u2, c2)" and l: "oid_text_loop mall copy' c2 = (Some u, c')"
      unfolding othen_eq_Some by blast
    have w1: "writes 0 c [dot] c1" using CBB_add_u8_writes [OF 1(3) a(1)] by simp
    have w2: "writes 0 c1 (decimal (unat v)) c2" using add_decimal_writes [OF writes_ready [OF w1] a(2)] by simp
    then have ne: "CBB_contents 0 c2 \<noteq> None" by (auto simp: writes_def)
    from 1(1) [OF True p [symmetric] refl b(1) writes_ready [OF w2] ne l] obtain xs where
      xs: "CBS_view copy' = concat (map base128 xs)" "\<forall>x\<in>set xs. x < 2 ^ 64"
        "writes 0 c2 (concat (map (\<lambda>x. dot # decimal x) xs)) c'" by blast
    from writes_trans [OF 1(3) w1 writes_trans [OF writes_ready [OF w1] w2 xs(3)]]
    have "writes 0 c (concat (map (\<lambda>x. dot # decimal x) (unat v # xs))) c'" by simp
    moreover have "CBS_view copy = concat (map base128 (unat v # xs))" using b(2) xs(1) by simp
    moreover have "\<forall>x\<in>set (unat v # xs). x < 2 ^ 64" using xs(2) unat_less_64 [of v] by simp
    ultimately show ?thesis by blast
  qed
qed

lemma join_dots_concat: "join_dots (x # xs) = x @ concat (map (\<lambda>y. dot # y) xs)"
  by (induction xs arbitrary: x) simp_all

lemma fst_othen_Some:
  "fst (othen p q s) = Some t \<Longrightarrow> \<exists>u s1 s2. p s = (Some u, s1) \<and> q s1 = (Some t, s2)"
  by (metis othen_eq_Some prod.collapse)

lemma oid_first_component_writes:
  assumes "CBB_ready 0 c" "oid_first_component mall v c = (Some u, c')"
  shows "writes 0 c (decimal (if v \<ge> 80 then 2 else unat v div 40) @ dot #
      decimal (if v \<ge> 80 then unat v - 80 else unat v mod 40)) c'"
proof (cases "v \<ge> 80")
  case True
  with assms(2) obtain u1 c1 where a: "CBB_add_bytes mall 0 [50, dot] 2 c = (Some u1, c1)"
    and b: "add_decimal mall 0 (v - 80) c1 = (Some u, c')" by (auto simp: oid_first_component_def othen_eq_Some)
  have w: "writes 0 c [50, dot] c1" using CBB_add_bytes_writes [OF assms(1) _ _ a] by simp
  have "unat (v - 80) = unat v - 80" using True by (simp add: unat_sub)
  moreover have "decimal 2 = [50]" by (simp add: decimal.simps [of 2])
  ultimately show ?thesis
    using writes_trans [OF assms(1) w conjunct1 [OF add_decimal_writes [OF writes_ready [OF w] b]]] True by simp
next
  case False
  with assms(2) obtain u1 c1 u2 c2 where a: "add_decimal mall 0 (v div 40) c = (Some u1, c1)"
    and b: "CBB_add_u8 mall 0 dot c1 = (Some u2, c2)"
    and e: "add_decimal mall 0 (v mod 40) c2 = (Some u, c')" by (auto simp: oid_first_component_def othen_eq_Some)
  have w1: "writes 0 c (decimal (unat v div 40)) c1"
    using add_decimal_writes [OF assms(1) a] by (simp add: unat_div)
  have w2: "writes 0 c1 [dot] c2" using CBB_add_u8_writes [OF writes_ready [OF w1] b] by simp
  have w3: "writes 0 c2 (decimal (unat v mod 40)) c'"
    using add_decimal_writes [OF writes_ready [OF w2] e] by (simp add: unat_mod)
  show ?thesis
    using writes_trans [OF assms(1) w1 writes_trans [OF writes_ready [OF w1] w2 w3]] False by simp
qed

lemma finish_text_result:
  assumes "CBB_ready 0 c" "CBB_contents 0 c = Some s" "finish_text mall c = (Some t, c')"
  shows "\<exists>rest. t = s @ 0 # rest"
proof -
  from assms(3) obtain u1 c1 where z: "CBB_add_u8 mall 0 0 c = (Some u1, c1)"
    and r: "obind (CBB_finish mall 0 True True) (\<lambda>(txt, txt_len).
          case txt of None \<Rightarrow> ofail | Some t \<Rightarrow> oret t) c1 = (Some t, c')"
    unfolding finish_text_def othen_eq_Some by blast
  from r obtain x n c2 where f: "CBB_finish mall 0 True True c1 = (Some (x, n), c2)"
    and x: "(case x of None \<Rightarrow> ofail | Some t \<Rightarrow> oret t) c2 = (Some t, c')"
    unfolding obind_eq_Some by fastforce
  have xt: "x = Some t" using x by (cases x) (auto simp: ofail_def oret_def)
  obtain m where m: "n = Some m"
    using f by (auto simp: CBB_finish_def obind_eq_Some split: option.splits if_splits)
  have w: "writes 0 c [0] c1" using CBB_add_u8_writes [OF assms(1) z] by simp
  then have "CBB_contents 0 c1 = Some (s @ [0])" using assms(2) by (simp add: writes_def)
  then have "take m t = s @ [0]"
    using finish_contents [OF writes_ready [OF w]] f xt m by simp
  then have "t = s @ 0 # drop m t"
    by (metis append_Cons append_Nil append_assoc append_take_drop_id)
  then show ?thesis by blast
qed

text \<open>The first number of the contents as the first two components.\<close>

lemma first_components:
  fixes v :: u64
  defines "a \<equiv> if v \<ge> 80 then 2 else unat v div 40"
    and "b \<equiv> if v \<ge> 80 then unat v - 80 else unat v mod 40"
  shows "40 * a + b = unat v \<and> a \<le> 2 \<and> (a < 2 \<longrightarrow> b \<le> 39) \<and> b + 80 < 2 ^ 64"
proof -
  have "v \<ge> 80 \<longleftrightarrow> 80 \<le> unat v" by (simp add: word_le_nat_alt)
  then show ?thesis
    using unat_less_64 [of v] unfolding a_def b_def by (auto simp: less_mult_imp_div_less)
qed

text \<open>
  Property C26: \<open>CBS_asn1_oid_to_text\<close> accepts only the DER contents of an identifier with at least two
  components, and the text it returns is that identifier in dotted-decimal form, NUL-terminated.
\<close>

theorem CBS_asn1_oid_to_text_sound:
  assumes "wf_cbs cbs" "CBS_asn1_oid_to_text mall cbs = Some t"
  shows "\<exists>arcs rest. valid_oid arcs \<and> CBS_view cbs = oid_bytes arcs \<and> t = oid_text arcs @ 0 # rest"
proof -
  from fst_othen_Some [OF assms(2) [unfolded CBS_asn1_oid_to_text_def]] obtain u0 c0 c9 where
    i: "CBB_init mall 32 CBB_zero = (Some u0, c0)"
    and r0: "(case parse_base128_integer cbs of (None, _) \<Rightarrow> ofail | (Some v, copy) \<Rightarrow>
        othen (oid_first_component mall v) (othen (oid_text_loop mall copy) (finish_text mall))) c0 = (Some t, c9)"
    by blast
  obtain v copy where p: "parse_base128_integer cbs = (Some v, copy)"
    using r0 by (auto simp: ofail_def split: prod.splits option.splits)
  from r0 obtain u1 c1 u2 c2 where f: "oid_first_component mall v c0 = (Some u1, c1)"
    and l: "oid_text_loop mall copy c1 = (Some u2, c2)" and fin: "finish_text mall c2 = (Some t, c9)"
    unfolding p prod.case option.case othen_eq_Some by blast
  have rd: "CBB_ready 0 c0" "CBB_contents 0 c0 = Some []" using CBB_init_ready [OF _ i] by simp_all
  from base128_codec.read_sound [OF assms(1) p] have b: "wf_cbs copy"
    "CBS_view cbs = base128 (unat v) @ CBS_view copy" by auto
  define a1 a2 where "a1 = (if v \<ge> 80 then 2 else unat v div 40)"
    and "a2 = (if v \<ge> 80 then unat v - 80 else unat v mod 40)"
  note arc = first_components [of v, folded a1_def a2_def]
  have w1: "writes 0 c0 (decimal a1 @ dot # decimal a2) c1"
    using oid_first_component_writes [OF rd(1) f] by (simp only: a1_def a2_def)
  then have ne: "CBB_contents 0 c1 \<noteq> None" by (auto simp: writes_def)
  from oid_text_loop_writes [OF b(1) writes_ready [OF w1] ne l] obtain xs where
    xs: "CBS_view copy = concat (map base128 xs)" "\<forall>x\<in>set xs. x < 2 ^ 64"
      "writes 0 c1 (concat (map (\<lambda>x. dot # decimal x) xs)) c2" by blast
  have e: "oid_text (a1 # a2 # xs) = (decimal a1 @ dot # decimal a2) @ concat (map (\<lambda>x. dot # decimal x) xs)"
    by (simp add: oid_text_def join_dots_Cons join_dots_concat o_def)
  have w: "writes 0 c0 (oid_text (a1 # a2 # xs)) c2"
    unfolding e by (rule writes_trans [OF rd(1) w1 xs(3)])
  then have "CBB_contents 0 c2 = Some (oid_text (a1 # a2 # xs))" using rd(2) by (simp add: writes_def)
  from finish_text_result [OF writes_ready [OF w] this fin]
  obtain rest where "t = oid_text (a1 # a2 # xs) @ 0 # rest" by blast
  moreover have "valid_oid (a1 # a2 # xs)" using arc xs(2) by (simp add: valid_oid_def)
  moreover have "CBS_view cbs = oid_bytes (a1 # a2 # xs)" using b(2) xs(1) arc by (simp add: oid_bytes_def)
  ultimately show ?thesis by blast
qed

end
