(* ===== verification/Unicode.thy ===== *)
theory Unicode
  imports CBB_Top
begin

text \<open>
  Code points in UTF-8, Latin-1, UCS-2 and UTF-32 (\<open>crypto/bytestring/unicode.c\<close>). Each reader is
  the canonical codec of its encoding of the valid code points, and each writer appends that
  encoding.
\<close>

definition is_valid_code_point :: "u32 \<Rightarrow> bool" where
  "is_valid_code_point v \<longleftrightarrow>
     \<not> (v > 0x10ffff \<or> (v AND 0xfffe) = 0xfffe \<or> (v \<ge> 0xfdd0 \<and> v \<le> 0xfdef) \<or>
        (v \<ge> 0xd800 \<and> v \<le> 0xdfff))"

definition BOTTOM_BITS :: "nat \<Rightarrow> u8" where
  "BOTTOM_BITS n = push_bit n 1 - 1"

definition TOP_BITS :: "nat \<Rightarrow> u8" where
  "TOP_BITS n = NOT (BOTTOM_BITS (8 - n))"

fun utf8_continue :: "nat \<Rightarrow> u32 \<Rightarrow> (CBS, u32) prog" where
  "utf8_continue 0 v = oret v"
| "utf8_continue (Suc n) v =
     obind CBS_get_u8 (\<lambda>c.
       if c AND TOP_BITS 2 \<noteq> TOP_BITS 1 then ofail
       else utf8_continue n (push_bit 6 v OR ucast (c AND BOTTOM_BITS 6)))"

definition cbs_get_utf8 :: "(CBS, u32) prog" where
  "cbs_get_utf8 =
     obind CBS_get_u8 (\<lambda>c.
       if c \<le> 0x7f then oret (ucast c)
       else (case (if c AND TOP_BITS 3 = TOP_BITS 2 then Some (ucast (c AND BOTTOM_BITS 5), 1, 0x80)
                   else if c AND TOP_BITS 4 = TOP_BITS 3 then Some (ucast (c AND BOTTOM_BITS 4), 2, 0x800)
                   else if c AND TOP_BITS 5 = TOP_BITS 4 then Some (ucast (c AND BOTTOM_BITS 3), 3, 0x10000)
                   else None) of
               None \<Rightarrow> ofail
             | Some (v, len, lower_bound) \<Rightarrow>
                 obind (utf8_continue len v) (\<lambda>v.
                   if \<not> is_valid_code_point v \<or> v < lower_bound then ofail else oret v)))"

definition cbs_get_latin1 :: "(CBS, u32) prog" where
  "cbs_get_latin1 = obind CBS_get_u8 (\<lambda>c. oret (ucast c))"

definition cbs_get_ucs2_be :: "(CBS, u32) prog" where
  "cbs_get_ucs2_be =
     obind CBS_get_u16 (\<lambda>c. if \<not> is_valid_code_point (ucast c) then ofail else oret (ucast c))"

definition cbs_get_utf32_be :: "(CBS, u32) prog" where
  "cbs_get_utf32_be = obind CBS_get_u32 (\<lambda>v. if is_valid_code_point v then oret v else ofail)"

definition cbb_get_utf8_len :: "u32 \<Rightarrow> nat" where
  "cbb_get_utf8_len u = (if u \<le> 0x7f then 1 else if u \<le> 0x7ff then 2 else if u \<le> 0xffff then 3 else 4)"

definition cbb_add_utf8 :: "malloc \<Rightarrow> nat \<Rightarrow> u32 \<Rightarrow> (CBB, unit) prog" where
  "cbb_add_utf8 mall d u =
     (if \<not> is_valid_code_point u then ofail
      else if u \<le> 0x7f then CBB_add_u8 mall d (ucast u)
      else if u \<le> 0x7ff
      then othen (CBB_add_u8 mall d (TOP_BITS 2 OR ucast (drop_bit 6 u)))
             (CBB_add_u8 mall d (TOP_BITS 1 OR (ucast u AND BOTTOM_BITS 6)))
      else if u \<le> 0xffff
      then othen (CBB_add_u8 mall d (TOP_BITS 3 OR ucast (drop_bit 12 u)))
             (othen (CBB_add_u8 mall d (TOP_BITS 1 OR (ucast (drop_bit 6 u) AND BOTTOM_BITS 6)))
               (CBB_add_u8 mall d (TOP_BITS 1 OR (ucast u AND BOTTOM_BITS 6))))
      else if u \<le> 0x10ffff
      then othen (CBB_add_u8 mall d (TOP_BITS 4 OR ucast (drop_bit 18 u)))
             (othen (CBB_add_u8 mall d (TOP_BITS 1 OR (ucast (drop_bit 12 u) AND BOTTOM_BITS 6)))
               (othen (CBB_add_u8 mall d (TOP_BITS 1 OR (ucast (drop_bit 6 u) AND BOTTOM_BITS 6)))
                 (CBB_add_u8 mall d (TOP_BITS 1 OR (ucast u AND BOTTOM_BITS 6)))))
      else ofail)"

definition cbb_add_latin1 :: "malloc \<Rightarrow> nat \<Rightarrow> u32 \<Rightarrow> (CBB, unit) prog" where
  "cbb_add_latin1 mall d u = (if u \<le> 0xff then CBB_add_u8 mall d (ucast u) else ofail)"

definition cbb_add_ucs2_be :: "malloc \<Rightarrow> nat \<Rightarrow> u32 \<Rightarrow> (CBB, unit) prog" where
  "cbb_add_ucs2_be mall d u =
     (if u \<le> 0xffff \<and> is_valid_code_point u then CBB_add_u16 mall d (ucast u) else ofail)"

definition cbb_add_utf32_be :: "malloc \<Rightarrow> nat \<Rightarrow> u32 \<Rightarrow> (CBB, unit) prog" where
  "cbb_add_utf32_be mall d u = (if is_valid_code_point u then CBB_add_u32 mall d u else ofail)"

subsection \<open>The encoding\<close>

definition utf8 :: "nat \<Rightarrow> u8 list" where
  "utf8 v =
     (if v < 0x80 then [word_of_nat v]
      else if v < 0x800 then [word_of_nat (192 + v div 64), word_of_nat (128 + v mod 64)]
      else if v < 0x10000
      then [word_of_nat (224 + v div 4096), word_of_nat (128 + v div 64 mod 64), word_of_nat (128 + v mod 64)]
      else [word_of_nat (240 + v div 262144), word_of_nat (128 + v div 4096 mod 64),
            word_of_nat (128 + v div 64 mod 64), word_of_nat (128 + v mod 64)])"

lemma bits_consts:
  "BOTTOM_BITS 6 = mask 6" "BOTTOM_BITS 5 = mask 5" "BOTTOM_BITS 4 = mask 4" "BOTTOM_BITS 3 = mask 3"
  "TOP_BITS 1 = 0x80" "TOP_BITS 2 = 0xc0" "TOP_BITS 3 = 0xe0" "TOP_BITS 4 = 0xf0"
  "TOP_BITS 2 = NOT (mask 6)" "TOP_BITS 3 = NOT (mask 5)" "TOP_BITS 4 = NOT (mask 4)" "TOP_BITS 5 = NOT (mask 3)"
  by (simp_all add: BOTTOM_BITS_def TOP_BITS_def mask_eq_exp_minus_1)

lemma unat_and_not_mask: "unat ((c :: u8) AND NOT (mask k)) = unat c div 2 ^ k * 2 ^ k"
proof -
  have "c AND NOT (mask k) = push_bit k (drop_bit k c)"
    by (rule bit_word_eqI) (auto simp: bit_simps)
  then have "unat (c AND NOT (mask k)) = take_bit 8 (unat c div 2 ^ k * 2 ^ k)"
    by (simp add: unsigned_push_bit_eq unat_drop_bit push_bit_nat_def)
  moreover have "unat c div 2 ^ k * 2 ^ k < 256"
    using unat_less_256 [of c] div_times_less_eq_dividend [of "unat c" "2 ^ k"] by linarith
  ultimately show ?thesis by (simp add: take_bit_eq_mod)
qed

lemma and_not_mask_eq: "c AND NOT (mask k) = d \<longleftrightarrow> unat c div 2 ^ k * 2 ^ k = unat (d :: u8)"
  by (simp only: word_unat_eq_iff unat_and_not_mask)

lemma top_bits_iff:
  "c AND TOP_BITS 2 = TOP_BITS 1 \<longleftrightarrow> unat c div 64 = 2"
  "c AND TOP_BITS 3 = TOP_BITS 2 \<longleftrightarrow> unat c div 32 = 6"
  "c AND TOP_BITS 4 = TOP_BITS 3 \<longleftrightarrow> unat c div 16 = 14"
  "c AND TOP_BITS 5 = TOP_BITS 4 \<longleftrightarrow> unat c div 8 = 30"
proof -
  note n = bits_consts(9-12)
  have t: "unat (TOP_BITS 1) = 128" "unat (TOP_BITS 2) = 192" "unat (TOP_BITS 3) = 224" "unat (TOP_BITS 4) = 240"
    by (simp_all only: bits_consts(5-8)) simp_all
  show "c AND TOP_BITS 2 = TOP_BITS 1 \<longleftrightarrow> unat c div 64 = 2"
    unfolding n(1) and_not_mask_eq t by simp
  show "c AND TOP_BITS 3 = TOP_BITS 2 \<longleftrightarrow> unat c div 32 = 6"
    unfolding n(2) and_not_mask_eq t by simp
  show "c AND TOP_BITS 4 = TOP_BITS 3 \<longleftrightarrow> unat c div 16 = 14"
    unfolding n(3) and_not_mask_eq t by simp
  show "c AND TOP_BITS 5 = TOP_BITS 4 \<longleftrightarrow> unat c div 8 = 30"
    unfolding n(4) and_not_mask_eq t by simp
qed

lemma bottom_bits_unat: "unat (ucast (c AND mask k) :: u32) = unat (c :: u8) mod 2 ^ k"
  by (simp add: unat_ucast_up unat_and_mask)

definition continuation :: "u8 \<Rightarrow> bool" where
  "continuation c \<longleftrightarrow> unat c div 64 = 2"

definition continued :: "nat \<Rightarrow> u8 list \<Rightarrow> nat" where
  "continued v cs = foldl (\<lambda>a c. a * 64 + unat c mod 64) v cs"

lemma continued_simps [simp]: "continued v [] = v" "continued v (c # cs) = continued (v * 64 + unat c mod 64) cs"
  by (simp_all add: continued_def)

lemma continue_step:
  assumes "unat v < 2 ^ 20"
  shows "unat (push_bit 6 v OR ucast (c AND BOTTOM_BITS 6) :: u32) = unat v * 64 + unat c mod 64"
proof -
  have b: "unat (ucast (c AND BOTTOM_BITS 6) :: u32) = unat c mod 64"
    using bottom_bits_unat [of c 6] by (simp add: bits_consts(1))
  have "unat (push_bit 6 v OR ucast (c AND BOTTOM_BITS 6) :: u32) =
      unat v * 2 ^ 6 + unat (ucast (c AND BOTTOM_BITS 6) :: u32)"
    by (rule unat_or_push_bit) (use assms b in simp_all)
  then show ?thesis by (simp add: b)
qed

lemma continued_Cons_iff:
  assumes "continuation x"
  shows "(\<exists>cs. length cs = Suc n \<and> (\<forall>x\<in>set cs. continuation x) \<and> x # xs = cs @ r \<and> q \<and> w = continued v cs) \<longleftrightarrow>
    (\<exists>cs. length cs = n \<and> (\<forall>x\<in>set cs. continuation x) \<and> xs = cs @ r \<and> q \<and> w = continued (v * 64 + unat x mod 64) cs)"
  (is "?l \<longleftrightarrow> ?r")
proof
  assume ?l
  then obtain cs where cs: "length cs = Suc n" "\<forall>x\<in>set cs. continuation x" "x # xs = cs @ r" "q" "w = continued v cs"
    by blast
  then show ?r by (cases cs) auto
next
  assume ?r
  then obtain cs where "length cs = n" "\<forall>x\<in>set cs. continuation x" "xs = cs @ r" "q"
    "w = continued (v * 64 + unat x mod 64) cs" by blast
  with assms show ?l by (intro exI [of _ "x # cs"]) simp
qed

lemma utf8_continue_iff:
  "wf_cbs c \<Longrightarrow> n \<le> 3 \<Longrightarrow> unat v < 64 ^ (4 - n) \<Longrightarrow>
   utf8_continue n v c = (Some w, c') \<longleftrightarrow>
     (\<exists>cs. length cs = n \<and> (\<forall>x\<in>set cs. continuation x) \<and> CBS_view c = cs @ CBS_view c' \<and>
       c' = advance n c \<and> unat w = continued (unat v) cs)"
proof (induction n arbitrary: v c)
  case 0
  then show ?case by (auto simp: oret_def word_unat_eq_iff)
next
  case (Suc n)
  have n: "n = 0 \<or> n = 1 \<or> n = 2" using Suc.prems(2) by auto
  have v20: "unat v < 2 ^ 20" "unat v * 64 + m < 64 ^ (4 - n)" if "m < 64" for m
    using n Suc.prems(3) that by auto
  show ?case
  proof (cases "CBS_view c")
    case Nil
    then show ?thesis using Suc.prems(1) by (auto simp: obind_def CBS_get_u8_cases)
  next
    case (Cons x xs)
    let ?v' = "push_bit 6 v OR ucast (x AND BOTTOM_BITS 6)"
    have g: "CBS_get_u8 c = (Some x, advance 1 c)" using Cons Suc.prems(1) by (simp add: CBS_get_u8_cases)
    have v': "unat ?v' = unat v * 64 + unat x mod 64" by (rule continue_step [OF v20(1) [of 0]]) simp
    have "unat ?v' < 64 ^ (4 - n)" unfolding v' by (rule v20(2)) simp
    note IH = Suc.IH [OF wf_advance [OF Suc.prems(1)] _ this, of 1]
    show ?thesis
    proof (cases "continuation x")
      case True
      then have "utf8_continue (Suc n) v c = utf8_continue n ?v' (advance 1 c)"
        using g top_bits_iff(1) [of x] by (simp add: continuation_def)
      moreover have "CBS_view (advance 1 c) = xs" using Cons by simp
      ultimately show ?thesis
        using IH Suc.prems(2) v' unfolding Cons continued_Cons_iff [OF True] by simp
    next
      case False
      then have "utf8_continue (Suc n) v c = (None, advance 1 c)"
        using g top_bits_iff(1) [of x] by (simp add: continuation_def ofail_def)
      then show ?thesis using Cons False by (auto simp: Cons_eq_append_conv length_Suc_conv)
    qed
  qed
qed

definition utf8_lead :: "nat \<Rightarrow> (nat \<times> nat \<times> nat) option" where
  "utf8_lead c =
     (if c div 32 = 6 then Some (c mod 32, 1, 0x80)
      else if c div 16 = 14 then Some (c mod 16, 2, 0x800)
      else if c div 8 = 30 then Some (c mod 8, 3, 0x10000) else None)"

lemma split_sum: "k < n \<Longrightarrow> (m * n + k) div n = m \<and> (m * n + k) mod n = k" for k m n :: nat
  by simp

lemma join_sum: "m div n = q \<Longrightarrow> m = q * n + m mod n" for m n q :: nat
  by (metis div_mult_mod_eq)

lemma continuation_byte: "continuation x \<Longrightarrow> x = word_of_nat (128 + unat x mod 64)"
proof -
  assume "continuation x"
  then have "unat x = 128 + unat x mod 64" using join_sum [of "unat x" 64 2] by (simp add: continuation_def)
  then show ?thesis by (metis word_of_nat_unat)
qed

lemma continuation_of_nat:
  assumes "k < 64" "x = word_of_nat (128 + k)"
  shows "continuation x" "unat x mod 64 = k"
proof -
  have u: "unat x = 2 * 64 + k" unfolding assms(2) using assms(1) by (subst unat_word_of_nat_less) simp_all
  show "continuation x" "unat x mod 64 = k"
    unfolding continuation_def u using split_sum [OF assms(1), of 2] by blast+
qed

lemma lead_of_nat:
  assumes "utf8_lead k = l" "k < 256" "b = word_of_nat k"
  shows "utf8_lead (unat (b :: u8)) = l"
  unfolding assms(3) using assms(1,2) by (subst unat_word_of_nat_less) simp_all

lemma base64_digits:
  fixes w :: nat
  shows "w = w div 64 * 64 + w mod 64" "w div 4096 = w div 64 div 64" "w div 262144 = w div 64 div 64 div 64"
  by (simp_all add: div_mult2_eq [symmetric])

lemma utf8_split:
  assumes "utf8 w = b # cs" "w \<le> 0x10ffff" "128 \<le> w"
  shows "\<exists>v n lo. utf8_lead (unat b) = Some (v, n, lo) \<and> length cs = n \<and> (\<forall>x\<in>set cs. continuation x) \<and>
    w = continued v cs \<and> lo \<le> w"
proof -
  define q2 where "q2 = w div 64"
  define q1 where "q1 = q2 div 64"
  define q0 where "q0 = q1 div 64"
  define z where "z = w mod 64"
  define y where "y = q2 mod 64"
  define x where "x = q1 mod 64"
  have w: "w = q2 * 64 + z" "q2 = q1 * 64 + y" "q1 = q0 * 64 + x"
    by (simp_all add: q2_def q1_def q0_def x_def y_def z_def)
  have lt: "x < 64" "y < 64" "z < 64" by (simp_all add: x_def y_def z_def)
  have u: "utf8 w = (if w < 0x80 then [word_of_nat w]
      else if w < 0x800 then [word_of_nat (192 + q2), word_of_nat (128 + z)]
      else if w < 0x10000 then [word_of_nat (224 + q1), word_of_nat (128 + y), word_of_nat (128 + z)]
      else [word_of_nat (240 + q0), word_of_nat (128 + x), word_of_nat (128 + y), word_of_nat (128 + z)])"
    unfolding utf8_def base64_digits(2,3) q2_def q1_def q0_def x_def y_def z_def ..
  consider "w < 0x800" | "0x800 \<le> w" "w < 0x10000" | "0x10000 \<le> w" by linarith
  then show ?thesis
  proof cases
    case 1
    then have d: "q2 < 32" using w by linarith
    obtain c where b: "b = word_of_nat (192 + q2)" "cs = [c]" "c = word_of_nat (128 + z)"
      using assms u 1 by auto
    have "utf8_lead (192 + q2) = Some (q2, 1, 0x80)"
      using split_sum [OF d, of 6] by (simp add: utf8_lead_def)
    then have "utf8_lead (unat b) = Some (q2, 1, 0x80)" by (rule lead_of_nat) (use d b in simp_all)
    then show ?thesis using b continuation_of_nat [OF lt(3) b(3)] w(1) assms(3) by simp
  next
    case 2
    then have d: "q1 < 16" using w by linarith
    obtain c1 c where b: "b = word_of_nat (224 + q1)" "cs = [c1, c]"
      "c1 = word_of_nat (128 + y)" "c = word_of_nat (128 + z)"
      using assms u 2 by auto
    have "(224 + q1) div 32 = 7" using d by (intro div_nat_eqI) simp_all
    then have "utf8_lead (224 + q1) = Some (q1, 2, 0x800)"
      using split_sum [OF d, of 14] by (simp add: utf8_lead_def)
    then have "utf8_lead (unat b) = Some (q1, 2, 0x800)" by (rule lead_of_nat) (use d b in simp_all)
    then show ?thesis
      using b continuation_of_nat [OF lt(3) b(4)] continuation_of_nat [OF lt(2) b(3)] w(1,2) 2(1) by simp
  next
    case 3
    then have d: "q0 < 8" using assms(2) w by linarith
    obtain c2 c1 c where b: "b = word_of_nat (240 + q0)" "cs = [c2, c1, c]"
      "c2 = word_of_nat (128 + x)" "c1 = word_of_nat (128 + y)" "c = word_of_nat (128 + z)"
      using assms u 3 by auto
    have "(240 + q0) div 32 = 7" "(240 + q0) div 16 = 15" using d by (intro div_nat_eqI; simp)+
    then have "utf8_lead (240 + q0) = Some (q0, 3, 0x10000)"
      using split_sum [OF d, of 30] by (simp add: utf8_lead_def)
    then have "utf8_lead (unat b) = Some (q0, 3, 0x10000)" by (rule lead_of_nat) (use d b in simp_all)
    then show ?thesis
      using b continuation_of_nat [OF lt(3) b(5)] continuation_of_nat [OF lt(2) b(4)]
        continuation_of_nat [OF lt(1) b(3)] w 3
      by simp
  qed
qed

lemma utf8_join:
  assumes "utf8_lead (unat b) = Some (v, n, lo)" "length cs = n" "\<forall>x\<in>set cs. continuation x"
    and "w = continued v cs" "lo \<le> w" "w \<le> 0x10ffff"
  shows "utf8 w = b # cs"
proof -
  have l: "m mod 64 < 64" for m :: nat by simp
  consider "unat b div 32 = 6" "v = unat b mod 32" "n = 1" "lo = 0x80"
    | "unat b div 16 = 14" "v = unat b mod 16" "n = 2" "lo = 0x800"
    | "unat b div 8 = 30" "v = unat b mod 8" "n = 3" "lo = 0x10000"
    using assms(1) by (auto simp: utf8_lead_def split: if_splits)
  then show ?thesis
  proof cases
    case 1
    then obtain x where cs: "cs = [x]" using assms(2) by (metis One_nat_def length_0_conv length_Suc_conv)
    have x: "x = word_of_nat (128 + unat x mod 64)" using assms(3) cs continuation_byte by simp
    have w: "w = v * 64 + unat x mod 64" using assms(4) cs by simp
    have v: "v < 32" "unat b = 192 + v" using 1(2) join_sum [OF 1(1)] by simp_all
    have b: "b = word_of_nat (192 + v)" using v by (metis word_of_nat_unat)
    have "w div 64 = v" "w mod 64 = unat x mod 64" "w < 0x800" using w v(1) by auto
    then show ?thesis using assms(5) 1(4) b x by (simp add: utf8_def cs)
  next
    case 2
    then obtain x y where cs: "cs = [x, y]" using assms(2) by (auto simp: numeral_2_eq_2 length_Suc_conv)
    have x: "x = word_of_nat (128 + unat x mod 64)" "y = word_of_nat (128 + unat y mod 64)"
      using assms(3) cs continuation_byte by simp_all
    have w: "w = (v * 64 + unat x mod 64) * 64 + unat y mod 64" using assms(4) cs by simp
    have v: "v < 16" "unat b = 224 + v" using 2(2) join_sum [OF 2(1)] by simp_all
    have b: "b = word_of_nat (224 + v)" using v by (metis word_of_nat_unat)
    have d: "w div 64 = v * 64 + unat x mod 64" "w mod 64 = unat y mod 64"
      unfolding w using split_sum [OF l] by blast+
    have "w div 4096 = v" "w < 0x10000" using d(1) v(1) w by (simp_all add: base64_digits(2))
    then show ?thesis using assms(5) 2(4) b x d by (simp add: utf8_def cs)
  next
    case 3
    then obtain x y z where cs: "cs = [x, y, z]" using assms(2) by (auto simp: numeral_3_eq_3 length_Suc_conv)
    have x: "x = word_of_nat (128 + unat x mod 64)" "y = word_of_nat (128 + unat y mod 64)"
      "z = word_of_nat (128 + unat z mod 64)"
      using assms(3) cs continuation_byte by simp_all
    have w: "w = ((v * 64 + unat x mod 64) * 64 + unat y mod 64) * 64 + unat z mod 64" using assms(4) cs by simp
    have v: "v < 8" "unat b = 240 + v" using 3(2) join_sum [OF 3(1)] by simp_all
    have b: "b = word_of_nat (240 + v)" using v by (metis word_of_nat_unat)
    have d: "w div 64 = (v * 64 + unat x mod 64) * 64 + unat y mod 64" "w mod 64 = unat z mod 64"
      unfolding w using split_sum [OF l] by blast+
    have e: "w div 4096 = v * 64 + unat x mod 64" using d(1) by (simp add: base64_digits(2))
    have v0: "w div 262144 = v" using e by (simp add: base64_digits(2,3))
    have "w div 64 mod 64 = unat y mod 64" unfolding d(1) using split_sum [OF l] by blast
    moreover have "w div 4096 mod 64 = unat x mod 64" unfolding e using split_sum [OF l] by blast
    ultimately show ?thesis using v0 assms(5) 3(4) b x d(2) by (simp add: utf8_def cs)
  qed
qed

subsection \<open>The readers\<close>

lemma valid_bound: "is_valid_code_point v \<Longrightarrow> unat v \<le> 0x10ffff"
  by (simp add: is_valid_code_point_def not_less word_le_nat_alt)

lemma utf8_short: "utf8 v = b # cs \<Longrightarrow> v < 128 \<Longrightarrow> cs = [] \<and> b = word_of_nat v"
  by (simp add: utf8_def)

lemma utf8_nonempty: "utf8 v \<noteq> []"
  by (simp add: utf8_def)

lemma lead_128: "k < 128 \<Longrightarrow> utf8_lead k = None"
proof -
  assume k: "k < 128"
  then have "k div 32 < 6" "k div 16 < 14" "k div 8 < 30" by (simp_all add: div_less_iff_less_mult)
  then show ?thesis by (simp add: utf8_lead_def)
qed

lemma lead_bound: "utf8_lead c = Some (v, n, lo) \<Longrightarrow> n \<le> 3 \<and> v < 64 ^ (4 - n) \<and> 128 \<le> lo"
  by (auto simp: utf8_lead_def split: if_splits)

lemma cbs_get_utf8_lead:
  assumes "wf_cbs c" "CBS_view c = b # xs" "128 \<le> unat b"
  shows "cbs_get_utf8 c =
    (case utf8_lead (unat b) of
       None \<Rightarrow> (None, advance 1 c)
     | Some (v, n, lo) \<Rightarrow>
         obind (utf8_continue n (word_of_nat v))
           (\<lambda>w. if \<not> is_valid_code_point w \<or> unat w < lo then ofail else oret w) (advance 1 c))"
proof -
  have g: "CBS_get_u8 c = (Some b, advance 1 c)" by (rule get_u8_view [OF assms(1,2)])
  have b: "\<not> b \<le> 0x7f" using assms(3) by (simp add: word_le_nat_alt)
  have lead: "ucast (b AND mask k) = (word_of_nat (unat b mod 2 ^ k) :: u32)" for k
    by (metis bottom_bits_unat word_of_nat_unat)
  note m = lead [of 5] lead [of 4] lead [of 3]
  have w: "w < 128 \<longleftrightarrow> unat w < 128" "w < 2048 \<longleftrightarrow> unat w < 2048" "w < 65536 \<longleftrightarrow> unat w < 65536" for w :: u32
    by (simp_all add: word_less_nat_alt)
  show ?thesis
    unfolding cbs_get_utf8_def obind_Some [of CBS_get_u8, OF g] utf8_lead_def if_not_P [OF b]
      top_bits_iff(2-4) bits_consts(2-4) m
    by (auto simp: ofail_def w)
qed

lemma cbs_get_utf8_ascii:
  assumes "wf_cbs c" "CBS_view c = b # xs" "unat b < 128"
  shows "cbs_get_utf8 c = (Some (ucast b), advance 1 c)"
proof -
  have g: "CBS_get_u8 c = (Some b, advance 1 c)" by (rule get_u8_view [OF assms(1,2)])
  have "b \<le> 0x7f" using assms(3) by (simp add: word_le_nat_alt)
  then show ?thesis by (simp add: cbs_get_utf8_def obind_Some [of CBS_get_u8, OF g] oret_def)
qed

lemma utf8_ascii: "v < 128 \<Longrightarrow> utf8 v = [word_of_nat v]"
  by (simp add: utf8_def)

lemma ascii_code_point: "unat b < 128 \<Longrightarrow> is_valid_code_point (ucast (b :: u8))"
proof -
  assume b: "unat b < 128"
  have "unat (ucast b :: u32) < 128" using b by (simp add: unat_ucast_up)
  moreover have "(ucast b :: u32) AND 0xfffe \<noteq> 0xfffe"
  proof
    assume "(ucast b :: u32) AND 0xfffe = 0xfffe"
    then have "0xfffe \<le> (ucast b :: u32)" by (metis word_and_le2)
    then show False using b by (simp add: word_le_nat_alt unat_ucast_up)
  qed
  ultimately show ?thesis by (simp add: is_valid_code_point_def word_le_nat_alt word_less_nat_alt)
qed

lemma cbs_get_utf8_sound:
  assumes wf: "wf_cbs c" and get: "cbs_get_utf8 c = (Some w, c')"
  shows "is_valid_code_point w \<and> wf_cbs c' \<and> CBS_view c = utf8 (unat w) @ CBS_view c'"
proof (cases "CBS_view c")
  case Nil
  then show ?thesis using wf get by (simp add: cbs_get_utf8_def obind_def CBS_get_u8_cases)
next
  case (Cons b xs)
  show ?thesis
  proof (cases "unat b < 128")
    case True
    then have "w = ucast b" "c' = advance 1 c" using get cbs_get_utf8_ascii [OF wf Cons] by simp_all
    then show ?thesis using True wf Cons ascii_code_point [OF True] by (simp add: utf8_ascii unat_ucast_up)
  next
    case False
    then obtain v n lo where l: "utf8_lead (unat b) = Some (v, n, lo)"
      and "obind (utf8_continue n (word_of_nat v))
           (\<lambda>w. if \<not> is_valid_code_point w \<or> unat w < lo then ofail else oret w) (advance 1 c) = (Some w, c')"
      using get cbs_get_utf8_lead [OF wf Cons] by (auto split: option.splits)
    then have u: "utf8_continue n (word_of_nat v) (advance 1 c) = (Some w, c')" "is_valid_code_point w" "lo \<le> unat w"
      by (auto simp: obind_eq_Some oret_def ofail_def not_less split: if_splits)
    note lb = lead_bound [OF l]
    have "(64::nat) ^ (4 - n) \<le> 64 ^ 4" by (rule power_increasing) simp_all
    then have "v < 2 ^ 32" using lb by simp
    then have v: "unat (word_of_nat v :: u32) = v" by (intro unat_word_of_nat_less) simp
    obtain cs where cs: "length cs = n" "\<forall>x\<in>set cs. continuation x" "CBS_view (advance 1 c) = cs @ CBS_view c'"
      "c' = advance n (advance 1 c)" "unat w = continued v cs"
      using u(1) utf8_continue_iff [OF wf_advance [OF wf], of n "word_of_nat v" 1 w c'] lb unfolding v by blast
    have "utf8 (unat w) = b # cs"
      by (rule utf8_join [OF l cs(1,2,5)]) (use u valid_bound in simp_all)
    then show ?thesis using cs(3,4) wf Cons u(2) by simp
  qed
qed

lemma cbs_get_utf8_complete:
  assumes wf: "wf_cbs c" and w: "is_valid_code_point w" and view: "CBS_view c = utf8 (unat w) @ rest"
  shows "\<exists>c'. cbs_get_utf8 c = (Some w, c') \<and> wf_cbs c' \<and> CBS_view c' = rest"
proof -
  obtain b cs where u: "utf8 (unat w) = b # cs" using utf8_nonempty [of "unat w"] by (cases "utf8 (unat w)") auto
  then have v: "CBS_view c = b # (cs @ rest)" using view by simp
  show ?thesis
  proof (cases "unat w < 128")
    case True
    then have b: "cs = []" "b = word_of_nat (unat w)" using utf8_short [OF u] by simp_all
    have "unat b = unat w" unfolding b(2) using True by (intro unat_word_of_nat_less) simp
    then have "unat b < 128" "ucast b = w" using True by (simp_all add: word_unat_eq_iff unat_ucast_up)
    then show ?thesis using cbs_get_utf8_ascii [OF wf v] wf v b(1) by simp
  next
    case False
    then obtain v n lo where l: "utf8_lead (unat b) = Some (v, n, lo)" "length cs = n"
      "\<forall>x\<in>set cs. continuation x" "unat w = continued v cs" "lo \<le> unat w"
      using utf8_split [OF u valid_bound [OF w]] by auto
    note lb = lead_bound [OF l(1)]
    have "(64::nat) ^ (4 - n) \<le> 64 ^ 4" by (rule power_increasing) simp_all
    then have "v < 2 ^ 32" using lb by simp
    then have uv: "unat (word_of_nat v :: u32) = v" by (intro unat_word_of_nat_less) simp
    have "128 \<le> unat b" using lead_128 [of "unat b"] l(1) by fastforce
    note g = cbs_get_utf8_lead [OF wf v this, unfolded l(1) option.case prod.case]
    have "utf8_continue n (word_of_nat v) (advance 1 c) = (Some w, advance n (advance 1 c))"
      using utf8_continue_iff [OF wf_advance [OF wf], of n "word_of_nat v" 1 w "advance n (advance 1 c)"] lb l v
      unfolding uv by auto
    then have "cbs_get_utf8 c = (Some w, advance n (advance 1 c))"
      using g w l(5) by (simp add: oret_def)
    then show ?thesis using wf v l(2) by simp
  qed
qed

interpretation utf8_codec: canonical_codec CBS_view wf_cbs cbs_of cbs_get_utf8
  "\<lambda>w. utf8 (unat w)" is_valid_code_point
  by unfold_locales (auto dest: cbs_get_utf8_complete cbs_get_utf8_sound)

interpretation latin1_codec: canonical_codec CBS_view wf_cbs cbs_of cbs_get_latin1
  "\<lambda>w. [word_of_nat (unat w)]" "\<lambda>w. unat w < 256"
proof unfold_locales
  fix s rest and a :: u32
  assume "wf_cbs s" "unat a < 256" "CBS_view s = [word_of_nat (unat a)] @ rest"
  moreover have "ucast (word_of_nat (unat a) :: u8) = a"
    using \<open>unat a < 256\<close> by (simp only: word_unat_eq_iff unat_ucast_up) (simp add: unat_word_of_nat_less unat_ucast_mod)
  ultimately show "\<exists>s'. cbs_get_latin1 s = (Some a, s') \<and> wf_cbs s' \<and> CBS_view s' = rest"
    by (auto simp: cbs_get_latin1_def obind_def get_u8_view oret_def)
next
  fix s s' and a :: u32
  assume "wf_cbs s" "cbs_get_latin1 s = (Some a, s')"
  then show "unat a < 256 \<and> wf_cbs s' \<and> CBS_view s = [word_of_nat (unat a)] @ CBS_view s'"
    by (auto simp: cbs_get_latin1_def obind_eq_Some oret_def unat_ucast_up unat_less_256 get_u8_sound(1,2))
qed simp_all

text \<open>A reader that checks the value it has read is the codec of the values that pass.\<close>

lemma canonical_checked:
  assumes "canonical_codec CBS_view wf_cbs cbs_of read enc valid"
    and "\<And>a. Q a \<Longrightarrow> h a \<Longrightarrow> valid (f a) \<and> g (f a) = a"
    and "\<And>b. valid b \<Longrightarrow> f (g b) = b \<and> h (g b)"
  shows "canonical_codec CBS_view wf_cbs cbs_of
    (obind read (\<lambda>b. if Q (g b) then oret (g b) else ofail)) (\<lambda>a. enc (f a)) (\<lambda>a. Q a \<and> h a)"
proof unfold_locales
  note codec = canonical_codec.axioms(1) [OF assms(1)]
  fix s rest a assume s: "wf_cbs s" "Q a \<and> h a" "CBS_view s = enc (f a) @ rest"
  then obtain s' where "read s = (Some (f a), s')" "wf_cbs s'" "CBS_view s' = rest" "g (f a) = a"
    using stream_codec.read_enc [OF codec, of s "f a" rest] assms(2) [of a] by blast
  then show "\<exists>s'. obind read (\<lambda>b. if Q (g b) then oret (g b) else ofail) s = (Some a, s') \<and>
      wf_cbs s' \<and> CBS_view s' = rest"
    using s(2) by (simp add: obind_def oret_def)
next
  fix s a s' assume s: "wf_cbs s" and r: "obind read (\<lambda>b. if Q (g b) then oret (g b) else ofail) s = (Some a, s')"
  then obtain b where b: "read s = (Some b, s')" "Q (g b)" "a = g b"
    by (auto simp: obind_eq_Some oret_def ofail_def split: if_splits)
  from canonical_codec.read_sound [OF assms(1) s b(1)] assms(3) [of b] b(2,3)
  show "(Q a \<and> h a) \<and> wf_cbs s' \<and> CBS_view s = enc (f a) @ CBS_view s'" by simp
qed simp_all

interpretation ucs2_codec: canonical_codec CBS_view wf_cbs cbs_of cbs_get_ucs2_be
  "\<lambda>w. be_bytes 2 (unat (ucast w :: u16))" "\<lambda>w. is_valid_code_point w \<and> w \<le> 0xffff"
proof -
  have f: "cbs_get_ucs2_be = obind CBS_get_u16 (\<lambda>b. if is_valid_code_point (ucast b) then oret (ucast b) else ofail)"
    by (simp add: cbs_get_ucs2_be_def if_distrib cong: if_cong)
      (metis (mono_tags, opaque_lifting))
  have up: "ucast (ucast w :: u16) = w" if "w \<le> 0xffff" for w :: u32
    using that by (simp add: word_unat_eq_iff unat_ucast_mod unat_ucast_up word_le_nat_alt)
  have le: "unat b \<le> 65535" for b :: u16 using unat_less_16 [of b] by simp
  show "canonical_codec CBS_view wf_cbs cbs_of cbs_get_ucs2_be
      (\<lambda>w. be_bytes 2 (unat (ucast w :: u16))) (\<lambda>w. is_valid_code_point w \<and> w \<le> 0xffff)"
    unfolding f
    by (rule canonical_checked [OF u16_codec.canonical_codec_axioms])
      (use up le in \<open>auto simp: word_le_nat_alt unat_ucast_up\<close>)
qed

interpretation utf32_codec: canonical_codec CBS_view wf_cbs cbs_of cbs_get_utf32_be
  "\<lambda>w. be_bytes 4 (unat w)" is_valid_code_point
  using canonical_checked [OF u32_codec.canonical_codec_axioms, of is_valid_code_point "\<lambda>_. True" "\<lambda>w. w" "\<lambda>w. w"]
  by (simp add: cbs_get_utf32_be_def)

subsection \<open>The writers\<close>

lemma or_low_bits:
  fixes a x :: u8
  assumes "a = push_bit k h" "unat x < 2 ^ k" "unat h * 2 ^ k + unat x < 256"
  shows "a OR x = word_of_nat (unat h * 2 ^ k + unat x)"
proof -
  have "unat (a OR x) = unat h * 2 ^ k + unat x"
    using unat_or_push_bit [of x k h] assms(2,3) unfolding assms(1) by simp
  then show ?thesis by (metis word_of_nat_unat)
qed

lemma lead_bytes:
  assumes "unat (x :: u8) < n"
  shows "n \<le> 64 \<Longrightarrow> TOP_BITS 1 OR x = word_of_nat (128 + unat x)"
    "n \<le> 32 \<Longrightarrow> TOP_BITS 2 OR x = word_of_nat (192 + unat x)"
    "n \<le> 16 \<Longrightarrow> TOP_BITS 3 OR x = word_of_nat (224 + unat x)"
    "n \<le> 8 \<Longrightarrow> TOP_BITS 4 OR x = word_of_nat (240 + unat x)"
  using assms or_low_bits [of "TOP_BITS 1" 6 2 x] or_low_bits [of "TOP_BITS 2" 5 6 x]
    or_low_bits [of "TOP_BITS 3" 4 14 x] or_low_bits [of "TOP_BITS 4" 3 30 x]
  unfolding bits_consts(5-8) by simp_all

lemma continuation_digit:
  "TOP_BITS 1 OR (ucast (drop_bit k u) AND BOTTOM_BITS 6) = word_of_nat (128 + unat (u :: u32) div 2 ^ k mod 64)"
  "TOP_BITS 1 OR (ucast u AND BOTTOM_BITS 6) = word_of_nat (128 + unat u mod 64)"
proof -
  have m: "m mod 256 mod 64 = m mod 64" for m :: nat by (rule mod_mod_cancel) simp
  have d: "unat (ucast v AND BOTTOM_BITS 6 :: u8) = unat v mod 64" for v :: u32
    by (simp only: bits_consts(1) unat_and_mask unat_ucast_mod) (simp add: m)
  then have "unat (ucast v AND BOTTOM_BITS 6 :: u8) < 64" for v :: u32 by simp
  from lead_bytes(1) [OF this] have
    l: "TOP_BITS 1 OR (ucast v AND BOTTOM_BITS 6) = word_of_nat (128 + unat v mod 64)" for v :: u32
    unfolding d by blast
  show "TOP_BITS 1 OR (ucast (drop_bit k u) AND BOTTOM_BITS 6) = word_of_nat (128 + unat u div 2 ^ k mod 64)"
    unfolding l unat_drop_bit ..
  show "TOP_BITS 1 OR (ucast u AND BOTTOM_BITS 6) = word_of_nat (128 + unat u mod 64)" by (rule l)
qed

lemma lead_digit:
  assumes "unat (u :: u32) div 2 ^ k < n"
  shows "n \<le> 32 \<Longrightarrow> TOP_BITS 2 OR ucast (drop_bit k u) = word_of_nat (192 + unat u div 2 ^ k)"
    "n \<le> 16 \<Longrightarrow> TOP_BITS 3 OR ucast (drop_bit k u) = word_of_nat (224 + unat u div 2 ^ k)"
    "n \<le> 8 \<Longrightarrow> TOP_BITS 4 OR ucast (drop_bit k u) = word_of_nat (240 + unat u div 2 ^ k)"
proof -
  let ?x = "ucast (drop_bit k u) :: u8"
  have e: "unat ?x = unat u div 2 ^ k \<and> unat ?x < n" if "n \<le> 32"
    using assms that by (simp add: unat_ucast_mod unat_drop_bit)
  show "n \<le> 32 \<Longrightarrow> TOP_BITS 2 OR ?x = word_of_nat (192 + unat u div 2 ^ k)"
    using lead_bytes(2) [of ?x n] e by simp
  show "n \<le> 16 \<Longrightarrow> TOP_BITS 3 OR ?x = word_of_nat (224 + unat u div 2 ^ k)"
    using lead_bytes(3) [of ?x n] e by simp
  show "n \<le> 8 \<Longrightarrow> TOP_BITS 4 OR ?x = word_of_nat (240 + unat u div 2 ^ k)"
    using lead_bytes(4) [of ?x n] e by simp
qed

fun add_u8s :: "malloc \<Rightarrow> nat \<Rightarrow> u8 list \<Rightarrow> (CBB, unit) prog" where
  "add_u8s mall d [] = oret ()"
| "add_u8s mall d [b] = CBB_add_u8 mall d b"
| "add_u8s mall d (b # bs) = othen (CBB_add_u8 mall d b) (add_u8s mall d bs)"

lemma add_u8s_writes:
  "bs \<noteq> [] \<Longrightarrow> CBB_ready d c \<Longrightarrow> add_u8s mall d bs c = (Some (), c') \<Longrightarrow> writes d c bs c'"
proof (induction bs arbitrary: c rule: induct_list012)
  case (2 b)
  then show ?case using CBB_add_u8_writes [of d c mall b "()" c'] by simp
next
  case (3 b b' bs)
  then obtain c1 where s: "CBB_add_u8 mall d b c = (Some (), c1)" "add_u8s mall d (b' # bs) c1 = (Some (), c')"
    by (auto simp: othen_eq_Some)
  have w: "writes d c [b] c1" using CBB_add_u8_writes [OF "3.prems"(2) s(1)] by simp
  then have "CBB_ready d c1" by (simp add: writes_def)
  from writes_trans [OF "3.prems"(2) w "3.IH"(2) [OF _ this s(2)]] show ?case by simp
qed simp

lemma cbb_add_utf8_eq:
  "cbb_add_utf8 mall d u = (if is_valid_code_point u then add_u8s mall d (utf8 (unat u)) else ofail)"
proof (cases "is_valid_code_point u")
  case True
  note b = valid_bound [OF True]
  have d: "unat u div 2 ^ 6 < 32" if "unat u < 0x800" using that by (simp add: div_less_iff_less_mult)
  have d2: "unat u div 2 ^ 12 < 16" if "unat u < 0x10000" using that by (simp add: div_less_iff_less_mult)
  have d3: "unat u div 2 ^ 18 < 8" using b by (simp add: div_less_iff_less_mult)
  note digits = lead_digit(1) [OF d order_refl] lead_digit(2) [OF d2 order_refl] lead_digit(3) [OF d3 order_refl]
    continuation_digit [unfolded One_nat_def]
  consider "unat u < 0x80" | "0x80 \<le> unat u" "unat u < 0x800" | "0x800 \<le> unat u" "unat u < 0x10000"
    | "0x10000 \<le> unat u" by linarith
  then show ?thesis
  proof cases
    case 1
    moreover have "ucast u = (word_of_nat (unat u) :: u8)" by (metis word_of_nat_drop_bit drop_bit_0 id_apply power_0 div_by_1)
    ultimately show ?thesis using True by (simp add: cbb_add_utf8_def utf8_def word_le_nat_alt)
  qed (use True b in \<open>auto simp: cbb_add_utf8_def utf8_def word_le_nat_alt digits unat_drop_bit\<close>)
qed (simp add: cbb_add_utf8_def)

lemma cbb_add_utf8_writes:
  assumes "CBB_ready d c" "cbb_add_utf8 mall d u c = (Some (), c')"
  shows "is_valid_code_point u" "writes d c (utf8 (unat u)) c'"
proof -
  show v: "is_valid_code_point u" using assms(2) by (auto simp: cbb_add_utf8_eq ofail_def split: if_splits)
  then show "writes d c (utf8 (unat u)) c'"
    using add_u8s_writes [OF utf8_nonempty assms(1)] assms(2) by (simp add: cbb_add_utf8_eq)
qed

lemma length_utf8: "length (utf8 (unat u)) = cbb_get_utf8_len u"
  by (simp add: utf8_def cbb_get_utf8_len_def word_le_nat_alt)

lemma cbb_add_latin1_writes:
  assumes "CBB_ready d c" "cbb_add_latin1 mall d u c = (Some (), c')"
  shows "unat u < 256" "writes d c [word_of_nat (unat u)] c'"
proof -
  show v: "unat u < 256" using assms(2)
    by (auto simp: cbb_add_latin1_def ofail_def word_le_nat_alt split: if_splits)
  have "ucast u = (word_of_nat (unat u) :: u8)" by (metis word_of_nat_drop_bit drop_bit_0 id_apply power_0 div_by_1)
  then show "writes d c [word_of_nat (unat u)] c'"
    using CBB_add_u8_writes [OF assms(1)] assms(2) by (auto simp: cbb_add_latin1_def ofail_def split: if_splits)
qed

lemma cbb_add_ucs2_be_writes:
  assumes "CBB_ready d c" "cbb_add_ucs2_be mall d u c = (Some (), c')"
  shows "is_valid_code_point u \<and> u \<le> 0xffff" "writes d c (be_bytes 2 (unat (ucast u :: u16))) c'"
  using assms(2) CBB_add_u16_writes [OF assms(1)]
  by (auto simp: cbb_add_ucs2_be_def ofail_def split: if_splits)

lemma cbb_add_utf32_be_writes:
  assumes "CBB_ready d c" "cbb_add_utf32_be mall d u c = (Some (), c')"
  shows "is_valid_code_point u" "writes d c (be_bytes 4 (unat u)) c'"
  using assms(2) CBB_add_u32_writes [OF assms(1)]
  by (auto simp: cbb_add_utf32_be_def ofail_def split: if_splits)

subsection \<open>Properties\<close>

text \<open>
  Property C27: the UTF-8 reader accepts exactly the shortest encodings of the valid code points, so
  that overlong forms, surrogates, the noncharacters and numbers above 0x10ffff are refused, and it
  leaves exactly the bytes after the encoding.
\<close>

theorem cbs_get_utf8_iff:
  assumes "wf_cbs c"
  shows "(\<exists>c'. cbs_get_utf8 c = (Some w, c') \<and> CBS_view c' = rest) \<longleftrightarrow>
    is_valid_code_point w \<and> CBS_view c = utf8 (unat w) @ rest"
  by (rule utf8_codec.read_iff [OF assms])

theorem cbs_get_utf8_iff_witness:
  "(\<exists>c'. cbs_get_utf8 (cbs_of [0xe2, 0x82, 0xac, 7]) = (Some 0x20ac, c') \<and> CBS_view c' = [7]) \<and>
   \<not> (\<exists>c'. cbs_get_utf8 (cbs_of [0xc0, 0x80]) = (Some 0, c') \<and> CBS_view c' = [])"
proof -
  have v: "is_valid_code_point 0x20ac" by (simp add: is_valid_code_point_def)
  have "[0xe2, 0x82, 0xac, 7] = utf8 (unat (0x20ac :: u32)) @ [7]" by (simp add: utf8_def)
  then have "\<exists>c'. cbs_get_utf8 (cbs_of [0xe2, 0x82, 0xac, 7]) = (Some 0x20ac, c') \<and> CBS_view c' = [7]"
    using cbs_get_utf8_iff [OF wf_cbs_of, of "[0xe2, 0x82, 0xac, 7]" "0x20ac" "[7]"] v by simp
  moreover have "\<not> (\<exists>c'. cbs_get_utf8 (cbs_of [0xc0, 0x80]) = (Some 0, c') \<and> CBS_view c' = [])"
    using cbs_get_utf8_iff [OF wf_cbs_of, of "[0xc0, 0x80]" 0 "[]"] by (simp add: utf8_def)
  ultimately show ?thesis by blast
qed

text \<open>
  Whatever code point the UTF-8 writer accepts, it appends the shortest encoding, of the
  length that \<open>cbb_get_utf8_len\<close> announces, and reading those bytes back yields the code point and
  the bytes that follow.
\<close>

theorem cbb_add_utf8_roundtrip:
  assumes "CBB_ready d c" "cbb_add_utf8 mall d u c = (Some (), c')"
  shows "\<exists>bs. writes d c bs c' \<and> length bs = cbb_get_utf8_len u \<and>
    (\<exists>s. cbs_get_utf8 (cbs_of (bs @ rest)) = (Some u, s) \<and> CBS_view s = rest)"
  using cbb_add_utf8_writes [OF assms] length_utf8 [of u]
    utf8_codec.read_enc [OF wf_cbs_of _ view_cbs_of, of u rest] by blast

end
