(* ===== verification/CBB_Roundtrip.thy ===== *)
theory CBB_Roundtrip
  imports SetOf OID Unicode
begin

text \<open>
  Reader and writer together: what a builder finishes, the reader gives back.
\<close>

text \<open>
  Property C24: what the builder writes the reader reads back. An INTEGER appended by
  \<open>CBB_add_asn1_int64\<close> to a fresh builder is read by \<open>CBS_get_asn1_int64\<close> from the finished string, for
  every 64-bit value, and nothing is left over.
\<close>

theorem asn1_int64_roundtrip:
  assumes "n < 2 ^ 64" "CBB_init mall n c = (Some u, c0)" "CBB_add_asn1_int64 mall 0 v c0 = (Some w, c1)"
    and "CBB_finish mall 0 True True c1 = (Some (Some data, Some len), c2)"
  shows "\<exists>s. CBS_get_asn1_int64 (CBS_init data len) = (Some v, s) \<and> CBS_len s = 0"
proof -
  have rd: "CBB_ready 0 c0" "CBB_contents 0 c0 = Some []" using CBB_init_ready [OF _ assms(2)] assms(1) by simp_all
  have w: "writes 0 c0 (der_element (CBS_ASN1_INTEGER, der_int (sint v))) c1"
    by (rule CBB_add_asn1_int64_writes [OF rd(1) assms(3)])
  have f: "CBB_contents 0 c1 = Some (take len data)" "len \<le> length data"
    using finish_contents [OF writes_ready [OF w] assms(4)] by simp_all
  have "take len data = der_element (CBS_ASN1_INTEGER, der_int (sint v))"
    using w rd(2) f(1) by (simp add: writes_def)
  then have "CBS_view (CBS_init data len) = der_element (CBS_ASN1_INTEGER, der_int (sint v)) @ []"
    by (simp add: view_CBS_init)
  with int64_codec.read_enc [OF wf_CBS_init [OF f(2)] TrueI this] obtain s where
    "CBS_get_asn1_int64 (CBS_init data len) = (Some v, s)" "wf_cbs s" "CBS_view s = []" by blast
  then show ?thesis using length_view [of s] by (auto simp: CBS_len_def)
qed

theorem asn1_int64_roundtrip_witness:
  "\<exists>s. CBS_get_asn1_int64 (CBS_init ([2, 2, 0xff, 0x7f] @ replicate 12 0) 4) = (Some (- 129), s) \<and> CBS_len s = 0"
proof -
  let ?m = "\<lambda>_. True"
  define c0 where "c0 = snd (CBB_init ?m 16 CBB_zero)"
  have c0: "c0 = \<lparr>base = Some \<lparr>b_buf = replicate 16 0, b_len = 0, b_cap = 16, b_can_resize = True,
      b_error = False\<rparr>, chain = []\<rparr>" and i: "CBB_init ?m 16 CBB_zero = (Some (), c0)"
    unfolding c0_def by (simp_all add: CBB_init_def cbb_init_def CBB_zero_def OPENSSL_malloc_def
        OPENSSL_MALLOC_PREFIX_def sizeof_cbb_buffer_st_def)
  have a: "CBB_add_asn1_int64 ?m 0 (- 129) c0 = (Some (), snd (CBB_add_asn1_int64 ?m 0 (- 129) c0))"
    unfolding c0 by code_simp
  have f: "CBB_finish ?m 0 True True (snd (CBB_add_asn1_int64 ?m 0 (- 129) c0)) =
      (Some (Some ([2, 2, 0xff, 0x7f] @ replicate 12 0), Some 4), CBB_zero)"
    unfolding c0 by code_simp
  show ?thesis by (rule asn1_int64_roundtrip [OF _ i a f]) simp
qed

definition demo_builder :: "u8 list \<Rightarrow> CBB" where
  "demo_builder xs =
     \<lparr>base = Some \<lparr>b_buf = xs @ replicate 8 0, b_len = length xs, b_cap = length xs + 8, b_can_resize = False,
                    b_error = False\<rparr>, chain = []\<rparr>"

lemma demo_builder_ready: "length xs < 2 ^ 32 \<Longrightarrow> CBB_ready 0 (demo_builder xs)"
  "CBB_contents 0 (demo_builder xs) = Some xs"
  by (simp_all add: CBB_ready_def demo_builder_def buf_ok_def CBB_contents_def CBB_bytes_def b_bytes_def
      child_start_of_def)

theorem CBB_add_asn1_oid_from_text_writes_witness:
  "oid_text [1, 2, 840] = [49, 46, 50, 46, 56, 52, 48] \<and>
   writes 0 (demo_builder []) [0x2a, 0x86, 0x48]
     (snd (CBB_add_asn1_oid_from_text (\<lambda>_. True) 0 [49, 46, 50, 46, 56, 52, 48] 7 (demo_builder [])))"
proof -
  let ?r = "CBB_add_asn1_oid_from_text (\<lambda>_. True) 0 [49, 46, 50, 46, 56, 52, 48] 7 (demo_builder [])"
  have t: "oid_text [1, 2, 840] = [49, 46, 50, 46, 56, 52, 48]" by code_simp
  have b: "oid_bytes [1, 2, 840] = [0x2a, 0x86, 0x48]" by code_simp
  have "fst ?r = Some ()" by code_simp
  then have r: "?r = (Some (), snd ?r)" by (metis prod.collapse)
  have l: "length [49, 46, 50, 46, 56, 52, 48 :: u8] = 7" by simp
  have r': "CBB_add_asn1_oid_from_text (\<lambda>_. True) 0 (oid_text [1, 2, 840]) (length (oid_text [1, 2, 840]))
      (demo_builder []) = (Some (), snd ?r)"
    unfolding t l by (rule r)
  have v: "valid_oid [1, 2, 840]" by (simp add: valid_oid_def)
  have "writes 0 (demo_builder []) (oid_bytes [1, 2, 840]) (snd ?r)"
    by (rule CBB_add_asn1_oid_from_text_writes [OF v demo_builder_ready(1) r'], simp)
  then show ?thesis using t b by simp
qed

theorem CBS_asn1_oid_to_text_sound_witness:
  "\<exists>arcs rest. valid_oid arcs \<and> [0x2a, 0x86, 0x48] = oid_bytes arcs \<and>
    [49, 46, 50, 46, 56, 52, 48, 0] @ replicate 24 0 = oid_text arcs @ 0 # rest"
proof -
  have "CBS_asn1_oid_to_text (\<lambda>_. True) (cbs_of [0x2a, 0x86, 0x48]) =
      Some ([49, 46, 50, 46, 56, 52, 48, 0] @ replicate 24 0)" by code_simp
  from CBS_asn1_oid_to_text_sound [OF wf_cbs_of this] show ?thesis by simp
qed

theorem CBB_flush_asn1_set_of_sorts_witness:
  "\<exists>es. [2, 1, 5, 1, 1, 0] = concat (map der_element es) \<and> [1, 1, 0, 2, 1, 5] = concat (sort (map der_element es))"
proof -
  let ?r = "CBB_flush_asn1_set_of (\<lambda>_. True) 0 (demo_builder [2, 1, 5, 1, 1, 0])"
  have "fst ?r = Some ()" by code_simp
  then have r: "?r = (Some (), snd ?r)" by (metis prod.collapse)
  have c: "CBB_contents 0 (snd ?r) = Some [1, 1, 0, 2, 1, 5]" by code_simp
  have rd: "CBB_ready 0 (demo_builder [2, 1, 5, 1, 1, 0])" by (rule demo_builder_ready) simp
  show ?thesis using CBB_flush_asn1_set_of_sorts [OF rd r] unfolding demo_builder_ready(2) c by auto
qed

theorem cbb_add_utf8_roundtrip_witness:
  "\<exists>bs. writes 0 (demo_builder [1]) bs (snd (cbb_add_utf8 (\<lambda>_. True) 0 0x20ac (demo_builder [1]))) \<and> length bs = 3"
proof -
  let ?r = "cbb_add_utf8 (\<lambda>_. True) 0 0x20ac (demo_builder [1])"
  have "fst ?r = Some ()" by code_simp
  then have r: "?r = (Some (), snd ?r)" by (metis prod.collapse)
  have "CBB_ready 0 (demo_builder [1])" by (rule demo_builder_ready) simp
  then show ?thesis using cbb_add_utf8_roundtrip [OF _ r, of "[]"] by (auto simp: cbb_get_utf8_len_def)
qed

end
