(* ===== verification/CBB_Error.thy ===== *)
theory CBB_Error
  imports SetOf OID
begin

text \<open>
  The error flag of a builder (\<open>crypto/bytestring/cbb.c\<close>): which operations set it when they fail, and
  what is possible once it is set. The operations are those of the header that take a builder; a list of
  them is a program that ignores what they return.
\<close>

subsection \<open>The operations\<close>







subsection \<open>Failures set the flag\<close>

definition flagged :: "CBB \<Rightarrow> bool" where
  "flagged c \<longleftrightarrow> (\<exists>b. base c = Some b \<and> b_error b)"

text \<open>The builder at depth \<open>d\<close> exists: it has not been flushed away.\<close>

definition alive :: "nat \<Rightarrow> CBB \<Rightarrow> bool" where
  "alive d c \<longleftrightarrow> base c \<noteq> None \<and> d \<le> length (chain c)"

text \<open>A program that starts with the builder \<open>d\<close> alive ends with \<open>e\<close> alive, or sets the flag.\<close>

definition reports :: "nat \<Rightarrow> (CBB, 'a) prog \<Rightarrow> nat \<Rightarrow> bool" where
  "reports d p e \<longleftrightarrow> (\<forall>c r c'. alive d c \<longrightarrow> p c = (r, c') \<longrightarrow> (if r = None then flagged c' else alive e c'))"

lemma reports_othen: "reports d p e \<Longrightarrow> reports e q f \<Longrightarrow> reports d (othen p q) f"
  unfolding reports_def othen_def obind_def by (fastforce split: prod.splits option.splits if_splits)

lemma reports_obind: "reports d p e \<Longrightarrow> (\<And>a. reports e (q a) f) \<Longrightarrow> reports d (obind p q) f"
  unfolding reports_def obind_def by (fastforce split: prod.splits option.splits if_splits)

lemma reports_weaken: "reports d p e \<Longrightarrow> e' \<le> e \<Longrightarrow> reports d p e'"
  unfolding reports_def alive_def by (meson order.trans)

lemma reports_flush: "d \<le> e \<Longrightarrow> reports e (CBB_flush mall d) d"
  unfolding reports_def
proof (intro allI impI)
  fix c r c'
  assume "d \<le> e" "alive e c" "CBB_flush mall d c = (r, c')"
  then show "if r = None then flagged c' else alive d c'"
    by (cases "base c") (auto simp: alive_def flagged_def CBB_flush_def dest: flush_chain_error split: prod.splits if_splits)
qed

lemma reports_on_base: "(\<And>b b'. p b = (None, b') \<Longrightarrow> b_error b') \<Longrightarrow> reports d (on_base p) d"
  unfolding reports_def by (fastforce simp: on_base_def alive_def flagged_def split: prod.splits option.splits)

lemma reports_oret: "reports d (oret a) d"
  by (simp add: reports_def oret_def)

lemma reports_push: "reports d (push_child off n asn1) (d + 1)"
  by (auto simp: reports_def push_child_def alive_def)

lemma reports_len: "reports d (\<lambda>c. (map_option b_len (base c), c)) d"
  by (auto simp: reports_def alive_def)

lemma buffer_add_error: "cbb_buffer_add mall n b = (None, b') \<Longrightarrow> b_error b'"
  by (auto simp: cbb_buffer_add_def obind_def dest: reserve_error split: option.splits prod.splits)

lemma reports_if: "reports d p e \<Longrightarrow> reports d q e \<Longrightarrow> reports d (if b then p else q) e"
  by simp

named_theorems reports_rules

lemmas [reports_rules] = reports_othen reports_obind reports_flush [OF order_refl] reports_oret reports_push reports_len reports_if

lemma reports_buffer [reports_rules]:
  "reports d (on_base (cbb_buffer_add mall n)) d" "reports d (on_base (cbb_buffer_reserve mall n)) d"
  "reports d (on_base (cbb_buffer_add_u mall v n)) d" "reports d (on_base (\<lambda>b. (Some (), f b))) d"
  by (rule reports_on_base; auto dest: buffer_add_error reserve_error add_u_error)+

lemma reports_length_prefixed [reports_rules]: "reports d (cbb_add_length_prefixed mall d n) (d + 1)"
  unfolding cbb_add_length_prefixed_def by (rule reports_rules)+

lemma reports_bytes [reports_rules]: "reports d (CBB_add_bytes mall d data n) d" "reports d (CBB_add_space mall d n) d"
  "reports d (CBB_add_zeros mall d n) d" "reports d (CBB_reserve mall d n) d" "reports d (cbb_add_u mall d k n) d"
  unfolding CBB_add_bytes_def CBB_add_zeros_def CBB_add_space_def CBB_reserve_def cbb_add_u_def by (rule reports_rules)+

lemma reports_u8 [reports_rules]: "reports d (CBB_add_u8 mall d v) d"
  unfolding CBB_add_u8_def by (rule reports_rules)+

lemma reports_base128 [reports_rules]: "reports d (add_base128_loop mall d v n) d"
proof (induction n)
  case (Suc n)
  show ?case unfolding add_base128_loop.simps Let_def by (rule reports_rules Suc)+
qed (simp add: reports_oret)

lemma reports_asn1 [reports_rules]: "reports d (CBB_add_asn1 mall d tag) (d + 1)"
  unfolding CBB_add_asn1_def add_base128_integer_def Let_def by (rule reports_rules)+

lemma reports_uint64_bytes [reports_rules]: "reports d (asn1_uint64_bytes mall d v started is) d"
proof (induction "is" arbitrary: started)
  case (Cons i "is")
  show ?case unfolding asn1_uint64_bytes.simps Let_def by (rule reports_rules Cons)+
qed (simp add: reports_oret)

lemma reports_bytes_down [reports_rules]: "reports d (add_bytes_down mall d bytes n) d"
proof (induction n)
  case (Suc n)
  show ?case unfolding add_bytes_down.simps by (rule reports_rules Suc)+
qed (simp add: reports_u8)

lemma reports_uint64 [reports_rules]: "reports d (CBB_add_asn1_uint64 mall d v) d"
  unfolding CBB_add_asn1_uint64_def by (rule reports_rules reports_flush le_add1)+

lemma reports_der [reports_rules]: "reports d (CBB_add_asn1_int64 mall d v) d"
  "reports d (CBB_add_asn1_octet_string mall d data n) d" "reports d (CBB_add_asn1_bool mall d b) d"
  unfolding CBB_add_asn1_int64_def CBB_add_asn1_octet_string_def CBB_add_asn1_bool_def Let_def
  by (rule reports_rules reports_flush le_add1)+



subsection \<open>A set flag stays\<close>















end
