(* ===== verification/BER.thy ===== *)
theory BER
  imports CBB_Top
begin

text \<open>
  Conversion of BER to DER (\<open>crypto/bytestring/ber.c\<close>) and \<open>CBB_finish_i2d\<close>
  (\<open>crypto/bytestring/asn1_compat.c\<close>): the definitions. The reader \<open>CBS *in\<close> and the builder \<open>CBB *out\<close> of
  \<open>cbs_convert_ber\<close> form its state.
\<close>

definition kMaxDepth :: nat where
  "kMaxDepth = 2048"

definition is_string_type :: "u32 \<Rightarrow> bool" where
  "is_string_type tag \<longleftrightarrow>
     tag AND NOT CBS_ASN1_CONSTRUCTED \<in>
       {CBS_ASN1_OCTETSTRING, CBS_ASN1_UTF8STRING, CBS_ASN1_NUMERICSTRING, CBS_ASN1_PRINTABLESTRING,
        CBS_ASN1_T61STRING, CBS_ASN1_VIDEOTEXSTRING, CBS_ASN1_IA5STRING, CBS_ASN1_GRAPHICSTRING,
        CBS_ASN1_VISIBLESTRING, CBS_ASN1_GENERALSTRING, CBS_ASN1_UNIVERSALSTRING, CBS_ASN1_BMPSTRING}"

subsection \<open>Every element takes input\<close>

lemma base128_consumed:
  "parse_base128_loop v c = (Some r, c') \<Longrightarrow> 128 ^ k \<le> unat v \<Longrightarrow> cbs_len c \<le> cbs_len c' + (9 - k) \<and> k \<le> 8"
proof (induction v c arbitrary: k rule: parse_base128_loop.induct)
  case (1 v c)
  from "1.prems"(1) obtain b d where get: "CBS_get_u8 c = (Some b, d)"
    by (subst (asm) parse_base128_loop.simps) (auto split: prod.splits option.splits)
  have v: "drop_bit 57 v = 0" using "1.prems"(1) get
    by (subst (asm) parse_base128_loop.simps) (auto split: if_splits)
  then have "unat v < 2 ^ 57" by (metis div_eq_0_iff unat_drop_bit unat_0 power_not_zero zero_neq_numeral)
  then have lt: "(128::nat) ^ k < 128 ^ 9" using "1.prems"(2) by simp
  have k: "k \<le> 8"
  proof (rule ccontr)
    assume "\<not> k \<le> 8"
    then have "(128::nat) ^ 9 \<le> 128 ^ k" by (intro power_increasing) simp_all
    with lt show False by simp
  qed
  let ?v' = "push_bit 7 v OR ucast (b AND 0x7f)"
  have l: "cbs_len c \<le> Suc (cbs_len d)" using get by (auto simp: CBS_get_u8_eq split: if_splits)
  have n: "\<not> (v = 0 \<and> b = 0x80)" using "1.prems"(1) get
    by (subst (asm) parse_base128_loop.simps) (auto split: if_splits)
  show ?case
  proof (cases "b AND 0x80 = 0")
    case True
    then have "c' = d" using "1.prems"(1) get v n by (subst (asm) parse_base128_loop.simps) simp
    then show ?thesis using l k by simp
  next
    case False
    then have r: "parse_base128_loop ?v' d = (Some r, c')"
      using "1.prems"(1) parse_base128_more [OF get v n] by simp
    have step: "128 ^ Suc k \<le> unat ?v'" using parse_base128_step [OF v, of b] "1.prems"(2) by simp
    have "\<not> drop_bit (64 - 7) v \<noteq> 0" using v by simp
    then have "cbs_len d \<le> cbs_len c' + (9 - Suc k) \<and> Suc k \<le> 8"
      by (rule "1.IH" [OF get [symmetric] refl _ n refl False r step])
    then show ?thesis using l by linarith
  qed
qed

lemma base128_shorter: "parse_base128_loop v c = (Some r, c') \<Longrightarrow> cbs_len c' < cbs_len c"
proof (induction v c rule: parse_base128_loop.induct)
  case (1 v c)
  from "1.prems" obtain b d where get: "CBS_get_u8 c = (Some b, d)"
    by (subst (asm) parse_base128_loop.simps) (auto split: prod.splits option.splits)
  have l: "cbs_len d < cbs_len c" by (rule CBS_get_u8_shorter [OF get])
  let ?v' = "push_bit 7 v OR ucast (b AND 0x7f)"
  have n: "drop_bit 57 v = 0" "\<not> (v = 0 \<and> b = 0x80)" using "1.prems" get
    by (subst (asm) parse_base128_loop.simps, auto split: if_splits)+
  show ?case
  proof (cases "b AND 0x80 = 0")
    case True
    then show ?thesis using "1.prems" get n l by (subst (asm) parse_base128_loop.simps) simp
  next
    case False
    then have "parse_base128_loop ?v' d = (Some r, c')" using "1.prems" parse_base128_more [OF get n] by simp
    with "1.IH" [OF get [symmetric] refl _ n(2) refl False] n(1) l show ?thesis by simp
  qed
qed

lemma tag_consumed:
  assumes "parse_asn1_tag c = (Some t, h)"
  shows "cbs_len h < cbs_len c" "cbs_len c \<le> cbs_len h + 11"
proof -
  from assms obtain b d where get: "CBS_get_u8 c = (Some b, d)"
    by (auto simp: parse_asn1_tag_def obind_eq_Some)
  have l: "cbs_len c = Suc (cbs_len d)" using get by (auto simp: CBS_get_u8_eq split: if_splits)
  consider "h = d" | v where "parse_base128_loop 0 d = (Some v, h)"
    using assms get by (auto simp: parse_asn1_tag_def obind_eq_Some oret_def ofail_def Let_def parse_base128_integer_def
        split: if_splits)
  then have "cbs_len h < cbs_len c \<and> cbs_len c \<le> cbs_len h + 11"
  proof cases
    case 2
    from 2 obtain b' e where get': "CBS_get_u8 d = (Some b', e)"
      by (subst (asm) parse_base128_loop.simps) (auto split: prod.splits option.splits)
    have l': "cbs_len d = Suc (cbs_len e)" using get' by (auto simp: CBS_get_u8_eq split: if_splits)
    have n: "b' \<noteq> 0x80" using 2 get' by (subst (asm) parse_base128_loop.simps) (auto split: if_splits)
    show ?thesis
    proof (cases "b' AND 0x80 = 0")
      case True
      then have "h = e" using 2 get' n by (subst (asm) parse_base128_loop.simps) simp
      then show ?thesis using l l' by simp
    next
      case False
      let ?v = "push_bit 7 0 OR ucast (b' AND 0x7f) :: u64"
      have r: "parse_base128_loop ?v e = (Some v, h)"
        using 2 parse_base128_more [OF get', of 0] n False by simp
      have "128 \<le> unat b'" using False and_0x80 by blast
      then have "unat b' mod 128 \<noteq> 0" using n mod_128 [OF _ unat_less_256, of b'] by (auto simp: word_unat_eq_iff)
      moreover have "unat ?v = unat b' mod 128" using parse_base128_step [of 0 b'] by simp
      ultimately have "128 ^ 0 \<le> unat ?v" by simp
      from base128_consumed [OF r this] base128_shorter [OF r] l l' show ?thesis by simp
    qed
  qed (use l in simp)
  then show "cbs_len h < cbs_len c" "cbs_len c \<le> cbs_len h + 11" by blast+
qed


text \<open>The shape of every element read, in either mode.\<close>

lemma no_wrap: "\<not> (l + k) mod size_mod < l \<Longrightarrow> l < size_mod \<Longrightarrow> k < size_mod \<Longrightarrow> (l + k) mod size_mod = l + k"
proof -
  assume a: "\<not> (l + k) mod size_mod < l" "l < size_mod" "k < size_mod"
  show ?thesis
  proof (cases "l + k < size_mod")
    case False
    then have "(l + k) mod size_mod = l + k - size_mod" using a by (simp add: mod_if [of "l + k"])
    then show ?thesis using a False by linarith
  qed simp
qed

lemma element_shape:
  assumes "cbs_get_any_asn1_element ber_ok c = (Some (out, tag, hl, ber), c')"
  shows "\<exists>n. out = CBS_init (cbs_data c) n \<and> c' = advance n c \<and> 0 < hl \<and> hl \<le> n \<and> n \<le> cbs_len c"
proof -
  obtain h where p: "parse_asn1_tag c = (Some tag, h)"
    using assms by (auto simp: cbs_get_any_asn1_element_def Let_def obind_eq_Some oret_def split: prod.splits option.splits if_splits)
  obtain b d where get: "CBS_get_u8 h = (Some b, d)"
    using assms p by (auto simp: cbs_get_any_asn1_element_def split: prod.splits option.splits)
  define k where "k = CBS_len c - CBS_len d"
  have k: "0 < k" "k \<le> 12" using tag_consumed [OF p] get
    by (auto simp: k_def CBS_len_def CBS_get_u8_eq split: if_splits)
  note element = obind_eq_Some oret_def CBS_get_bytes_eq
  show ?thesis
  proof (cases "b AND 0x80 = 0")
    case True
    then show ?thesis using assms p get k(1)
      by (auto simp: cbs_get_any_asn1_element_def Let_def element simp flip: k_def split: if_splits)
  next
    case False
    define m where "m = unat (b AND 0x7f)"
    show ?thesis
    proof (cases "ber_ok \<and> tag AND CBS_ASN1_CONSTRUCTED \<noteq> 0 \<and> m = 0")
      case True
      then show ?thesis using assms p get k(1) False
        by (auto simp: cbs_get_any_asn1_element_def Let_def element simp flip: k_def m_def split: if_splits)
    next
      case long: False
      obtain len64 e where u: "cbs_get_u m d = (Some len64, e)" and m: "m \<le> 4"
        using assms p get long False
        by (auto simp: cbs_get_any_asn1_element_def Let_def ofail_def simp flip: k_def m_def split: if_splits prod.splits option.splits)
      let ?t = "(unat len64 + (k + m)) mod size_mod"
      have t: "\<not> ?t < unat len64" "out = CBS_init (cbs_data c) ?t" "c' = advance ?t c" "?t \<le> cbs_len c" "hl = k + m"
        using assms p get long False u
        by (auto simp: cbs_get_any_asn1_element_def Let_def element add.assoc simp flip: k_def m_def split: if_splits)
      have "?t = unat len64 + (k + m)"
        by (rule no_wrap [OF t(1)]) (use unat_less_64 [of len64] k m in simp_all)
      then show ?thesis using t k(1) by auto
    qed
  qed
qed

lemma ber_element_shorter:
  assumes "CBS_get_any_ber_asn1_element c = (Some (out, tag, hl, ber), c')"
  shows "cbs_len c' < cbs_len c" "CBS_skip hl out = (Some (), out') \<Longrightarrow> cbs_len out' < cbs_len c"
  using element_shape [OF assms [unfolded CBS_get_any_ber_asn1_element_def]]
  by (auto simp: CBS_skip_eq split: if_splits)

subsection \<open>Looking for BER\<close>

text \<open>
  The loop of \<open>cbs_find_ber\<close> at nesting \<open>depth\<close>, with \<open>*ber_found\<close> as the round before left it: the
  result is \<open>*ber_found\<close>, \<open>None\<close> for a zero return.
\<close>

function find_ber_loop :: "nat \<Rightarrow> bool \<Rightarrow> CBS \<Rightarrow> bool option" where
  "find_ber_loop depth found inp =
     (if CBS_len inp = 0 then Some found
      else (case CBS_get_any_ber_asn1_element inp of
              (None, _) \<Rightarrow> None
            | (Some (contents, tag, header_len, found), inp') \<Rightarrow>
                if found then Some True
                else if tag AND CBS_ASN1_CONSTRUCTED \<noteq> 0
                then (if is_string_type tag then Some True
                      else (case CBS_skip header_len contents of
                              (None, _) \<Rightarrow> None
                            | (Some _, contents') \<Rightarrow>
                                (case (if depth + 1 > kMaxDepth then None
                                       else find_ber_loop (depth + 1) False contents') of
                                   None \<Rightarrow> None
                                 | Some found \<Rightarrow> find_ber_loop depth found inp')))
                else find_ber_loop depth found inp'))"
  by pat_completeness auto
termination
  by (relation "measure (\<lambda>(depth, found, inp). cbs_len inp)") (auto dest: ber_element_shorter sym)

declare find_ber_loop.simps [simp del]

definition cbs_find_ber :: "CBS \<Rightarrow> nat \<Rightarrow> bool option" where
  "cbs_find_ber orig_in depth =
     (if depth > kMaxDepth then None
      else find_ber_loop depth False (CBS_init (CBS_data orig_in) (CBS_len orig_in)))"

definition is_eoc :: "nat \<Rightarrow> CBS \<Rightarrow> bool" where
  "is_eoc header_len contents \<longleftrightarrow>
     header_len = 2 \<and> CBS_len contents = 2 \<and> OPENSSL_memcmp (CBS_data contents) [0, 0] 2 = 0"

subsection \<open>Conversion\<close>

text \<open>Running a program on the reader or on the builder of the pair, and on another reader.\<close>

definition on_in :: "(CBS, 'a) prog \<Rightarrow> (CBS \<times> CBB, 'a) prog" where
  "on_in p s = (case p (fst s) of (r, inp) \<Rightarrow> (r, (inp, snd s)))"

definition on_out :: "(CBB, 'a) prog \<Rightarrow> (CBS \<times> CBB, 'a) prog" where
  "on_out p s = (case p (snd s) of (r, out) \<Rightarrow> (r, (fst s, out)))"

definition from_contents :: "CBS \<Rightarrow> (CBS \<times> CBB, 'a) prog \<Rightarrow> (CBS \<times> CBB, 'a) prog" where
  "from_contents contents p s = (case p (contents, snd s) of (r, (_, out)) \<Rightarrow> (r, (fst s, out)))"

text \<open>
  The loop of \<open>cbs_convert_ber\<close>. \<open>out\<close> is the builder at depth \<open>d\<close> of its chain, so \<open>out_contents\<close> is
  depth \<open>d\<close> or \<open>d + 1\<close>. A round reads an element before it goes on or recurses, so that the length
  of the input bounds the number \<open>n\<close> of rounds on any path.
\<close>

fun convert_loop :: "nat \<Rightarrow> malloc \<Rightarrow> nat \<Rightarrow> u32 \<Rightarrow> bool \<Rightarrow> nat \<Rightarrow> (CBS \<times> CBB, unit) prog" where
  "convert_loop 0 mall d string_tag looking_for_eoc depth s = (None, s)"
| "convert_loop (Suc n) mall d string_tag looking_for_eoc depth s =
     (if CBS_len (fst s) = 0 then oguard (\<not> looking_for_eoc) s
      else obind (on_in CBS_get_any_ber_asn1_element) (\<lambda>(contents, tag, header_len, _).
        if is_eoc header_len contents then oguard looking_for_eoc
        else if string_tag \<noteq> 0 \<and> tag AND NOT CBS_ASN1_CONSTRUCTED \<noteq> string_tag then ofail
        else
          (let constructed_string = string_tag = 0 \<and> tag AND CBS_ASN1_CONSTRUCTED \<noteq> 0 \<and> is_string_type tag;
               out_tag = (if constructed_string then tag AND NOT CBS_ASN1_CONSTRUCTED else tag);
               child_string_tag = (if constructed_string then out_tag else string_tag);
               d' = (if string_tag \<noteq> 0 then d else d + 1);
               convert_child = (\<lambda>looking_for_eoc.
                 if depth + 1 > kMaxDepth then ofail
                 else convert_loop n mall d' child_string_tag looking_for_eoc (depth + 1))
           in othen (if string_tag \<noteq> 0 then oret () else on_out (CBB_add_asn1 mall d out_tag))
                (othen
                  (if CBS_len contents = header_len \<and> header_len > 0 \<and>
                      CBS_data contents ! (header_len - 1) = 0x80
                   then convert_child True
                   else (case CBS_skip header_len contents of
                           (None, _) \<Rightarrow> ofail
                         | (Some _, contents) \<Rightarrow>
                             if tag AND CBS_ASN1_CONSTRUCTED \<noteq> 0
                             then from_contents contents (convert_child False)
                             else on_out (CBB_add_bytes mall d' (CBS_data contents) (CBS_len contents))))
                  (othen (on_out (CBB_flush mall d))
                    (convert_loop n mall d string_tag looking_for_eoc depth))))) s)"

declare convert_loop.simps(2) [simp del]

definition cbs_convert_ber :: "malloc \<Rightarrow> nat \<Rightarrow> u32 \<Rightarrow> bool \<Rightarrow> nat \<Rightarrow> (CBS \<times> CBB, unit) prog" where
  "cbs_convert_ber mall d string_tag looking_for_eoc depth s =
     (if depth > kMaxDepth then (None, s)
      else convert_loop (Suc (CBS_len (fst s))) mall d string_tag looking_for_eoc depth s)"

text \<open>The outputs \<open>*out\<close> and \<open>*out_storage\<close>.\<close>

definition CBS_asn1_ber_to_der :: "malloc \<Rightarrow> (CBS, CBS \<times> u8 list option) prog" where
  "CBS_asn1_ber_to_der mall inp =
     (case cbs_find_ber inp 0 of
        None \<Rightarrow> (None, inp)
      | Some conversion_needed \<Rightarrow>
          if \<not> conversion_needed
          then obind CBS_get_any_asn1_element (\<lambda>(out, _, _). oret (out, None)) inp
          else (case CBB_init mall (CBS_len inp) CBB_zero of
                  (None, _) \<Rightarrow> (None, inp)
                | (Some _, cbb) \<Rightarrow>
                    (case cbs_convert_ber mall 0 0 False 0 (inp, cbb) of
                       (None, inp', _) \<Rightarrow> (None, inp')
                     | (Some _, inp', cbb) \<Rightarrow>
                         (case CBB_finish mall 0 True True cbb of
                            (Some (Some storage, Some len), _) \<Rightarrow>
                              (Some (CBS_init storage len, Some storage), inp')
                          | _ \<Rightarrow> (None, inp')))))"

lemma CBS_get_asn1_shorter: "CBS_get_asn1 tag c = (Some out, c') \<Longrightarrow> cbs_len c' < cbs_len c"
  by (auto simp: CBS_get_asn1_def cbs_get_asn1_def CBS_get_any_asn1_element_def obind_eq_Some oret_def ofail_def
      skip_header_eq dest!: element_shape split: if_splits)

function implicit_string_loop :: "malloc \<Rightarrow> u32 \<Rightarrow> CBS \<Rightarrow> (CBB, unit) prog" where
  "implicit_string_loop mall inner_tag child result =
     (if CBS_len child = 0 then (Some (), result)
      else (case CBS_get_asn1 inner_tag child of
              (None, _) \<Rightarrow> (None, result)
            | (Some chunk, child') \<Rightarrow>
                othen (CBB_add_bytes mall 0 (CBS_data chunk) (CBS_len chunk))
                  (implicit_string_loop mall inner_tag child') result))"
  by pat_completeness auto
termination
  by (relation "measure (\<lambda>(mall, inner_tag, child, result). cbs_len child)") (auto dest: CBS_get_asn1_shorter sym)

declare implicit_string_loop.simps [simp del]

definition CBS_get_asn1_implicit_string :: "malloc \<Rightarrow> u32 \<Rightarrow> u32 \<Rightarrow> (CBS, CBS \<times> u8 list option) prog" where
  "CBS_get_asn1_implicit_string mall outer_tag inner_tag inp =
     (if CBS_peek_asn1_tag inp outer_tag
      then obind (CBS_get_asn1 outer_tag) (\<lambda>out. oret (out, None)) inp
      else (case CBB_init mall (CBS_len inp) CBB_zero of
              (None, _) \<Rightarrow> (None, inp)
            | (Some _, result) \<Rightarrow>
                obind (CBS_get_asn1 (outer_tag OR CBS_ASN1_CONSTRUCTED)) (\<lambda>child inp'.
                  case othen (implicit_string_loop mall inner_tag child) (CBB_finish mall 0 True True) result of
                    (Some (Some data, Some len), _) \<Rightarrow> (Some (CBS_init data len, Some data), inp')
                  | _ \<Rightarrow> (None, inp')) inp))"

subsection \<open>The i2d convention\<close>

text \<open>
  \<open>outp\<close> is NULL (\<open>None\<close>), points to NULL (\<open>Some None\<close>), or points to a buffer. The result is the
  length, with what \<open>*outp\<close> then points to before it was advanced and the offset it was
  advanced by; \<open>None\<close> is the return value -1.
\<close>

definition CBB_finish_i2d :: "malloc \<Rightarrow> u8 list option option \<Rightarrow> (CBB, nat \<times> (u8 list \<times> nat) option) prog" where
  "CBB_finish_i2d mall outp cbb =
     (case CBB_finish mall 0 True True cbb of
        (Some (Some der, Some n), cbb') \<Rightarrow>
          if n > INT_MAX then (None, cbb')
          else (Some (n, case outp of
                                 None \<Rightarrow> None
                               | Some None \<Rightarrow> Some (der, 0)
                               | Some (Some buf) \<Rightarrow> Some (store buf 0 (take n der), n)), cbb')
      | (_, cbb') \<Rightarrow> (None, CBB_cleanup 0 cbb'))"

end
