(* ===== verification/BER_Spec.thy ===== *)
theory BER_Spec
  imports BER
begin

text \<open>
  What the conversion of BER to DER means. A BER value is a tree, \<open>encodes\<close> relates it to its BER
  encodings (definite lengths of any form, indefinite lengths, constructed strings), and \<open>der\<close> is
  its one DER encoding, in which the fragments of a string are joined. The conversion turns an
  encoding of a sequence of trees into their DER encodings.
\<close>

subsection \<open>BER values\<close>

datatype ber = Primitive u32 "u8 list" | Constructed u32 "ber list"

definition constructed :: "u32 \<Rightarrow> bool" where
  "constructed tag \<longleftrightarrow> tag AND CBS_ASN1_CONSTRUCTED \<noteq> 0"

definition ber_len :: "nat \<Rightarrow> u8 list \<Rightarrow> bool" where
  "ber_len n ls \<longleftrightarrow>
     n < 128 \<and> ls = [word_of_nat n] \<or>
     (\<exists>bs. 1 \<le> length bs \<and> length bs \<le> 4 \<and> ls = word_of_nat (128 + length bs) # bs \<and> be_val bs = n)"

inductive encodes :: "ber list \<Rightarrow> u8 list \<Rightarrow> bool" where
  encodes_Nil: "encodes [] []"
| encodes_primitive: "\<lbrakk>\<not> constructed tag; ber_len (length xs) ls; encodes ts ys\<rbrakk> \<Longrightarrow>
    encodes (Primitive tag xs # ts) (der_tag tag @ ls @ xs @ ys)"
| encodes_definite: "\<lbrakk>constructed tag; ber_len (length xs) ls; encodes cs xs; encodes ts ys\<rbrakk> \<Longrightarrow>
    encodes (Constructed tag cs # ts) (der_tag tag @ ls @ xs @ ys)"
| encodes_indefinite: "\<lbrakk>constructed tag; encodes cs xs; encodes ts ys\<rbrakk> \<Longrightarrow>
    encodes (Constructed tag cs # ts) (der_tag tag @ [0x80] @ xs @ [0, 0] @ ys)"

text \<open>The contents of a string, and the fragments that may make up a string of type \<open>s\<close>.\<close>

fun fragments :: "ber \<Rightarrow> u8 list" where
  "fragments (Primitive tag xs) = xs"
| "fragments (Constructed tag ts) = concat (map fragments ts)"

fun string_of :: "u32 \<Rightarrow> ber \<Rightarrow> bool" where
  "string_of s (Primitive tag xs) \<longleftrightarrow> tag AND NOT CBS_ASN1_CONSTRUCTED = s"
| "string_of s (Constructed tag ts) \<longleftrightarrow> tag AND NOT CBS_ASN1_CONSTRUCTED = s \<and> (\<forall>t\<in>set ts. string_of s t)"

fun der :: "ber \<Rightarrow> u8 list" where
  "der (Primitive tag xs) = der_element (tag, xs)"
| "der (Constructed tag ts) =
     (if is_string_type tag then der_element (tag AND NOT CBS_ASN1_CONSTRUCTED, concat (map fragments ts))
      else der_element (tag, concat (map der ts)))"

fun strings_ok :: "ber \<Rightarrow> bool" where
  "strings_ok (Primitive tag xs) \<longleftrightarrow> True"
| "strings_ok (Constructed tag ts) \<longleftrightarrow>
     (if is_string_type tag then \<forall>t\<in>set ts. string_of (tag AND NOT CBS_ASN1_CONSTRUCTED) t
      else \<forall>t\<in>set ts. strings_ok t)"

text \<open>Sequences of DER elements without constructed strings, nested at most \<open>n\<close> deep.\<close>

inductive der_forest :: "nat \<Rightarrow> u8 list \<Rightarrow> bool" where
  forest_Nil: "der_forest n []"
| forest_primitive: "\<lbrakk>\<not> constructed tag; length xs < 2 ^ 32; der_forest n ys\<rbrakk> \<Longrightarrow>
    der_forest n (der_element (tag, xs) @ ys)"
| forest_constructed: "\<lbrakk>constructed tag; \<not> is_string_type tag; length xs < 2 ^ 32; der_forest n xs;
    der_forest (Suc n) ys\<rbrakk> \<Longrightarrow> der_forest (Suc n) (der_element (tag, xs) @ ys)"

lemma der_forest_mono: "der_forest n ys \<Longrightarrow> n \<le> m \<Longrightarrow> der_forest m ys"
proof (induction n ys arbitrary: m rule: der_forest.induct)
  case (forest_constructed tag xs n ys)
  then obtain k where "m = Suc k" by (cases m) auto
  then show ?case using forest_constructed by (auto intro: der_forest.forest_constructed)
qed (auto intro: der_forest.intros)

subsection \<open>Elements read in BER mode\<close>

lemma ber_element_sound:
  assumes wf: "wf_cbs c"
    and r: "cbs_get_any_asn1_element True c = (Some (out, tag, hl, ber), c')"
  obtains (definite) n ls where "ber_len n ls" "hl = length (der_tag tag @ ls)" "hl + n \<le> cbs_len c"
    "take hl (CBS_view c) = der_tag tag @ ls" "out = CBS_init (cbs_data c) (hl + n)" "c' = advance (hl + n) c"
  | (indefinite) "constructed tag" "hl = length (der_tag tag @ [0x80])" "hl \<le> cbs_len c"
    "take hl (CBS_view c) = der_tag tag @ [0x80]" "out = CBS_init (cbs_data c) hl" "c' = advance hl c"
proof -
  obtain h where p: "parse_asn1_tag c = (Some tag, h)"
    using r by (auto simp: cbs_get_any_asn1_element_def Let_def obind_eq_Some oret_def split: prod.splits option.splits if_splits)
  obtain b d where get: "CBS_get_u8 h = (Some b, d)"
    using r p by (auto simp: cbs_get_any_asn1_element_def split: prod.splits option.splits)
  have sh: "wf_cbs h" "CBS_view c = der_tag tag @ CBS_view h"
    using tag_codec.read_sound [OF wf p] by simp_all
  note sd = get_u8_sound [OF sh(1) get]
  have view: "CBS_view c = der_tag tag @ b # CBS_view d" using sh(2) sd(1) by simp
  have lens: "cbs_len c = length (der_tag tag) + 1 + cbs_len d"
    using length_view [OF wf] view length_view [OF sd(2)] by simp
  define h0 where "h0 = length (der_tag tag) + 1"
  have h0: "CBS_len c - CBS_len d = h0" "h0 \<le> 7"
    using lens length_der_tag [of tag] by (simp_all add: CBS_len_def h0_def)
  note element = obind_eq_Some oret_def CBS_get_bytes_eq
  show thesis
  proof (cases "b AND 0x80 = 0")
    case True
    then have n: "unat b < 128" using and_0x80 [of b] by auto
    from r p get True have "hl = h0" "h0 + unat b \<le> cbs_len c"
        "out = CBS_init (cbs_data c) (h0 + unat b)" "c' = advance (h0 + unat b) c"
      unfolding cbs_get_any_asn1_element_def
      by (auto simp: Let_def h0 element add.commute split: if_splits)
    then show thesis
      using n view by (intro definite [of "unat b" "[b]"]) (auto simp: h0_def ber_len_def)
  next
    case False
    define k where "k = unat (b AND 0x7f)"
    have b: "128 \<le> unat b" using False by (simp only: and_0x80)
    have bk: "unat b = 128 + k"
      using mod_128 [OF b unat_less_256] by (simp add: k_def and_0x7f)
    then have wb: "b = word_of_nat (128 + k)" by (metis word_of_nat_unat)
    show thesis
    proof (cases "tag AND CBS_ASN1_CONSTRUCTED \<noteq> 0 \<and> k = 0")
      case True
      then have "hl = h0" "h0 \<le> cbs_len c" "out = CBS_init (cbs_data c) h0" "c' = advance h0 c"
        using r p get False unfolding cbs_get_any_asn1_element_def
        by (auto simp: Let_def h0 element simp flip: k_def split: if_splits)
      then show thesis
        using True view wb by (intro indefinite) (auto simp: h0_def constructed_def)
    next
      case def: False
      from r p get False def have k: "1 \<le> k" "k \<le> 4"
        unfolding cbs_get_any_asn1_element_def
        by (auto simp: Let_def element simp flip: k_def split: if_splits)
      from r p get False def k obtain v e where gu: "cbs_get_u k d = (Some v, e)"
        unfolding cbs_get_any_asn1_element_def
        by (auto simp: Let_def element split: if_splits option.splits prod.splits simp flip: k_def)
      then have lk: "k \<le> cbs_len d" and v: "v = word_of_nat (be_val (take k (CBS_view d)))"
        using sd(2) k by (auto simp: cbs_get_u_eq split: if_splits)
      have lt: "length (take k (CBS_view d)) = k" using lk sd(2) by simp
      have "be_val (take k (CBS_view d)) < 256 ^ k" using be_val_less lt by metis
      moreover have "(256::nat) ^ k \<le> 256 ^ 4" using k by (intro power_increasing) auto
      ultimately have uv: "unat v = be_val (take k (CBS_view d))" "unat v < 2 ^ 32"
        using v by (simp_all add: unat_word_of_nat)
      have tot: "(unat v + h0 + k) mod 18446744073709551616 = h0 + k + unat v"
        using uv(2) h0(2) k by simp
      from r p get False def k gu have
        res: "hl = h0 + k" "h0 + k + unat v \<le> cbs_len c"
          "out = CBS_init (cbs_data c) (h0 + k + unat v)" "c' = advance (h0 + k + unat v) c"
        unfolding cbs_get_any_asn1_element_def
        by (auto simp: Let_def h0 tot element not_less split: if_splits simp flip: k_def)
      have "ber_len (unat v) (b # take k (CBS_view d))"
        unfolding ber_len_def wb using uv(1) lt k by (intro disjI2 exI [of _ "take k (CBS_view d)"]) simp
      then show thesis
        using view res lt by (intro definite [of "unat v" "b # take k (CBS_view d)"]) (auto simp: h0_def)
    qed
  qed
qed

lemma ber_len_zero:
  assumes "ber_len 0 ls"
  shows "ls \<noteq> []" "last ls = 0"
proof -
  have "bs \<noteq> [] \<Longrightarrow> be_val bs = 0 \<Longrightarrow> last bs = 0" for bs
    by (cases bs rule: rev_cases) (auto simp: word_unat_eq_iff)
  then show "ls \<noteq> []" "last ls = 0" using assms by (fastforce simp: ber_len_def)+
qed

text \<open>What the converter sees of an element, and how it tells an indefinite length.\<close>

definition indefinite :: "CBS \<Rightarrow> nat \<Rightarrow> bool" where
  "indefinite contents header_len \<longleftrightarrow>
     CBS_len contents = header_len \<and> header_len > 0 \<and> CBS_data contents ! (header_len - 1) = 0x80"

lemma header_byte:
  assumes "take hl (CBS_view c) = hdr" "length hdr = hl" "hdr \<noteq> []" "hl \<le> cbs_len c"
  shows "cbs_data c ! (hl - 1) = last hdr"
proof -
  have "hl - 1 < hl" "hl - 1 < cbs_len c" using assms by (cases hdr; auto)+
  then show ?thesis using assms by (auto simp: last_conv_nth nth_view)
qed

lemma element_cases:
  assumes wf: "wf_cbs c" and r: "CBS_get_any_ber_asn1_element c = (Some (out, tag, hl, ber), c')"
  obtains (definite) ls xs out' where "\<not> indefinite out hl" "ber_len (length xs) ls"
    "CBS_view c = der_tag tag @ ls @ xs @ CBS_view c'" "wf_cbs c'" "CBS_skip hl out = (Some (), out')"
    "wf_cbs out'" "CBS_view out' = xs" "cbs_len c' < cbs_len c" "cbs_len out' < cbs_len c"
  | (indefinite) "indefinite out hl" "constructed tag"
    "CBS_view c = der_tag tag @ [0x80] @ CBS_view c'" "wf_cbs c'" "cbs_len c' < cbs_len c"
proof -
  note sh = ber_element_shorter [OF r]
  from r have "cbs_get_any_asn1_element True c = (Some (out, tag, hl, ber), c')"
    by (simp add: CBS_get_any_ber_asn1_element_def)
  then show thesis
  proof (cases rule: ber_element_sound [OF wf, consumes 1, case_names definite indefinite])
    case (definite n ls)
    define xs where "xs = take n (drop hl (CBS_view c))"
    have l: "length xs = n" using definite(3) wf by (simp add: xs_def)
    have v: "take (hl + n) (CBS_view c) = der_tag tag @ ls @ xs"
      using definite(4) by (simp add: take_add xs_def)
    then have view: "CBS_view c = der_tag tag @ ls @ xs @ CBS_view c'"
      using append_take_drop_id [of "hl + n" "CBS_view c"] definite(6) by simp
    have ni: "\<not> indefinite out hl"
    proof
      assume i: "indefinite out hl"
      then have "n = 0" using definite(5) by (simp add: indefinite_def CBS_len_def)
      then have "ls \<noteq> []" "last ls = 0" using ber_len_zero definite(1) by simp_all
      then have "cbs_data c ! (hl - 1) = 0"
        using header_byte [OF definite(4) definite(2) [symmetric]] definite(3) by simp
      then show False using i definite(5) by (simp add: indefinite_def CBS_data_def CBS_init_def)
    qed
    have skip: "CBS_skip hl out = (Some (), advance hl out)" using definite(5) by (simp add: CBS_skip_eq)
    have "CBS_view (advance hl out) = xs"
      using definite(3,5) by (simp add: xs_def view_CBS_init_data drop_take)
    moreover have "wf_cbs (advance hl out)" using definite(3,5) wf_CBS_init_data [OF wf] by simp
    ultimately show thesis
      using that(1) [OF ni _ view _ skip] definite(1,6) l sh(1) sh(2) [OF skip] wf by simp
  next
    case indefinite
    have "cbs_data c ! (hl - 1) = 0x80"
      using header_byte [OF indefinite(4) indefinite(2) [symmetric]] indefinite(3) by simp
    then have "indefinite out hl"
      using indefinite(2,5) by (simp add: indefinite_def CBS_len_def CBS_data_def CBS_init_def)
    moreover have "CBS_view c = der_tag tag @ [0x80] @ CBS_view c'"
      using append_take_drop_id [of hl "CBS_view c"] indefinite(4,6) by simp
    ultimately show thesis using that(2) indefinite(1) sh(1) wf by (simp add: indefinite(6))
  qed
qed

lemma eoc_view:
  assumes "wf_cbs c" "CBS_get_any_ber_asn1_element c = (Some (out, tag, hl, ber), c')" "is_eoc hl out"
  shows "CBS_view c = [0, 0] @ CBS_view c'"
proof -
  obtain n where n: "out = CBS_init (cbs_data c) n" "c' = advance n c" "n \<le> cbs_len c"
    using element_shape [OF assms(2) [unfolded CBS_get_any_ber_asn1_element_def]] by blast
  have m: "n = 2" "OPENSSL_memcmp (cbs_data c) [0, 0] 2 = 0"
    using assms(3) n(1) by (auto simp: is_eoc_def CBS_len_def CBS_data_def CBS_init_def)
  then have "2 \<le> length (cbs_data c)" using n(3) assms(1) by (simp add: wf_cbs_def)
  then obtain a b r where d: "cbs_data c = a # b # r"
    by (metis Suc_le_length_iff numeral_2_eq_2)
  have "a = 0 \<and> b = 0" using m(2) unfolding d by (auto simp: OPENSSL_memcmp_def word_gt_0 split: if_splits)
  then have "take 2 (CBS_view c) = [0, 0]" using d n(3) m(1) by (simp add: CBS_view_def)
  then show ?thesis using n(2) m(1) by (metis append_take_drop_id view_advance)
qed

subsection \<open>A round of the conversion\<close>

lemma on_in_Some: "on_in p (i, out) = (Some a, s) \<longleftrightarrow> (\<exists>i'. p i = (Some a, i') \<and> s = (i', out))"
  by (auto simp: on_in_def split: prod.splits)

lemma on_out_Some: "on_out p (i, out) = (Some a, s) \<longleftrightarrow> (\<exists>out'. p out = (Some a, out') \<and> s = (i, out'))"
  by (auto simp: on_out_def split: prod.splits)

lemma from_contents_Some:
  "from_contents c p (i, out) = (Some a, s) \<longleftrightarrow> (\<exists>i' out'. p (c, out) = (Some a, (i', out')) \<and> s = (i, out'))"
  by (auto simp: from_contents_def split: prod.splits)

text \<open>The tags of an element in the output, and of the fragments below it.\<close>

definition is_string_element :: "u32 \<Rightarrow> u32 \<Rightarrow> bool" where
  "is_string_element string_tag tag \<longleftrightarrow> string_tag = 0 \<and> constructed tag \<and> is_string_type tag"

definition out_tag :: "u32 \<Rightarrow> u32 \<Rightarrow> u32" where
  "out_tag string_tag tag =
     (if is_string_element string_tag tag then tag AND NOT CBS_ASN1_CONSTRUCTED else tag)"

definition child_tag :: "u32 \<Rightarrow> u32 \<Rightarrow> u32" where
  "child_tag string_tag tag =
     (if is_string_element string_tag tag then out_tag string_tag tag else string_tag)"

definition child_depth :: "nat \<Rightarrow> u32 \<Rightarrow> nat" where
  "child_depth d string_tag = (if string_tag \<noteq> 0 then d else d + 1)"

lemmas round_defs = out_tag_def child_tag_def child_depth_def is_string_element_def constructed_def indefinite_def

text \<open>The conversion of the contents of one element, between \<open>CBB_add_asn1\<close> and \<open>CBB_flush\<close>.\<close>

definition convert_contents :: "nat \<Rightarrow> malloc \<Rightarrow> nat \<Rightarrow> u32 \<Rightarrow> nat \<Rightarrow> CBS \<Rightarrow> u32 \<Rightarrow> nat \<Rightarrow> (CBS \<times> CBB, unit) prog" where
  "convert_contents n mall d st depth contents tag hl =
     (if indefinite contents hl
            then (if depth + 1 > kMaxDepth then ofail
                  else convert_loop n mall (child_depth d st) (child_tag st tag) True (depth + 1))
            else (case CBS_skip hl contents of (None, _) \<Rightarrow> ofail
              | (Some _, contents) \<Rightarrow> if constructed tag
                  then from_contents contents (if depth + 1 > kMaxDepth then ofail
                    else convert_loop n mall (child_depth d st) (child_tag st tag) False (depth + 1))
                  else on_out (CBB_add_bytes mall (child_depth d st) (CBS_data contents) (CBS_len contents))))"

definition begin_element :: "malloc \<Rightarrow> nat \<Rightarrow> u32 \<Rightarrow> u32 \<Rightarrow> (CBS \<times> CBB, unit) prog" where
  "begin_element mall d st tag = (if st \<noteq> 0 then oret () else on_out (CBB_add_asn1 mall d (out_tag st tag)))"

lemma convert_loop_unfold:
  "convert_loop (Suc n) mall d st eoc depth s =
    (if CBS_len (fst s) = 0 then oguard (\<not> eoc) s
     else obind (on_in CBS_get_any_ber_asn1_element) (\<lambda>(contents, tag, hl, _).
       if is_eoc hl contents then oguard eoc
       else if st \<noteq> 0 \<and> tag AND NOT CBS_ASN1_CONSTRUCTED \<noteq> st then ofail
       else othen (begin_element mall d st tag)
        (othen (convert_contents n mall d st depth contents tag hl)
          (othen (on_out (CBB_flush mall d)) (convert_loop n mall d st eoc depth)))) s)"
  unfolding convert_loop.simps(2) Let_def convert_contents_def begin_element_def round_defs ..

lemma convert_round:
  assumes "convert_loop (Suc n) mall d st eoc depth (inp, out) = (Some (), (inp', out'))"
  obtains (finished) "CBS_len inp = 0" "\<not> eoc" "inp' = inp" "out' = out"
  | (eoc) contents tag hl f where "CBS_get_any_ber_asn1_element inp = (Some (contents, tag, hl, f), inp')"
      "is_eoc hl contents" "eoc" "out' = out"
  | (element) contents tag hl f inp1 out1 inp2 out2 out3 where
      "CBS_get_any_ber_asn1_element inp = (Some (contents, tag, hl, f), inp1)"
      "st = 0 \<or> tag AND NOT CBS_ASN1_CONSTRUCTED = st"
      "st = 0 \<and> CBB_add_asn1 mall d (out_tag st tag) out = (Some (), out1) \<or> st \<noteq> 0 \<and> out1 = out"
      "indefinite contents hl \<and> depth + 1 \<le> kMaxDepth \<and>
         convert_loop n mall (child_depth d st) (child_tag st tag) True (depth + 1) (inp1, out1) = (Some (), (inp2, out2)) \<or>
       \<not> indefinite contents hl \<and> inp2 = inp1 \<and>
         (\<exists>contents'. CBS_skip hl contents = (Some (), contents') \<and>
            (if constructed tag
             then depth + 1 \<le> kMaxDepth \<and>
               (\<exists>i. convert_loop n mall (child_depth d st) (child_tag st tag) False (depth + 1) (contents', out1) =
                  (Some (), (i, out2)))
             else CBB_add_bytes mall (child_depth d st) (CBS_data contents') (CBS_len contents') out1 = (Some (), out2)))"
      "CBB_flush mall d out2 = (Some (), out3)"
      "convert_loop n mall d st eoc depth (inp2, out3) = (Some (), (inp', out'))"
proof (cases "CBS_len inp = 0")
  case True
  then have "oguard (\<not> eoc) (inp, out) = (Some (), (inp', out'))"
    using assms unfolding convert_loop.simps(2) fst_conv by simp
  then show thesis using True by (intro finished) (simp_all add: oguard_def split: if_splits)
next
  case False
  note assms' = assms [unfolded convert_loop_unfold fst_conv if_not_P [OF False] obind_eq_Some on_in_Some]
  then obtain contents tag hl f inp1 where
    g: "CBS_get_any_ber_asn1_element inp = (Some (contents, tag, hl, f), inp1)" by auto
  note r = assms' [unfolded g]
  show thesis
  proof (cases "is_eoc hl contents")
    case True
    then have "oguard eoc (inp1, out) = (Some (), (inp', out'))" using r by simp
    then show thesis using g True by (intro eoc [of contents tag hl f]) (simp_all add: oguard_def split: if_splits)
  next
    case ne: False
    have st: "st = 0 \<or> tag AND NOT CBS_ASN1_CONSTRUCTED = st"
      using r ne by (simp add: ofail_def split: if_splits)
    have "othen (begin_element mall d st tag)
        (othen (convert_contents n mall d st depth contents tag hl)
          (othen (on_out (CBB_flush mall d)) (convert_loop n mall d st eoc depth))) (inp1, out) =
        (Some (), (inp', out'))"
      using r ne st by (simp split: if_splits)
    then obtain s1 s2 s3 where
      a: "begin_element mall d st tag (inp1, out) = (Some (), s1)" and
      b: "(convert_contents n mall d st depth contents tag hl) s1 =
          (Some (), s2)" and
      c: "on_out (CBB_flush mall d) s2 = (Some (), s3)" and
      e: "convert_loop n mall d st eoc depth s3 = (Some (), (inp', out'))"
      unfolding othen_eq_Some by auto
    obtain out1 where o1: "s1 = (inp1, out1)"
      "st = 0 \<and> CBB_add_asn1 mall d (out_tag st tag) out = (Some (), out1) \<or> st \<noteq> 0 \<and> out1 = out"
      using a by (auto simp: begin_element_def oret_def on_out_Some split: if_splits)
    obtain inp2 out2 where s2: "s2 = (inp2, out2)" by (cases s2)
    obtain out3 where o3: "CBB_flush mall d out2 = (Some (), out3)" "s3 = (inp2, out3)"
      using c s2 by (auto simp: on_out_Some)
    show thesis
    proof (rule element [OF g st o1(2) _ o3(1)])
      show "convert_loop n mall d st eoc depth (inp2, out3) = (Some (), (inp', out'))" using e o3(2) by simp
    qed (use b in \<open>auto simp: convert_contents_def o1(1) s2 ofail_def on_out_Some from_contents_Some split: if_splits prod.splits option.splits\<close>)
  qed
qed

subsection \<open>Soundness of the conversion\<close>

text \<open>What the converter appends for a tree, as an element or as part of a string.\<close>

definition emitted :: "u32 \<Rightarrow> ber \<Rightarrow> u8 list" where
  "emitted st t = (if st = 0 then der t else fragments t)"

lemma emitted_0 [simp]: "emitted 0 = der"
  by (rule ext) (simp add: emitted_def)

definition acceptable :: "u32 \<Rightarrow> ber \<Rightarrow> bool" where
  "acceptable st t \<longleftrightarrow> (if st = 0 then strings_ok t else string_of st t)"

definition converted :: "u32 \<Rightarrow> bool \<Rightarrow> nat \<Rightarrow> nat \<Rightarrow> CBS \<Rightarrow> CBB \<Rightarrow> CBS \<Rightarrow> CBB \<Rightarrow> bool" where
  "converted st eoc depth d inp out inp' out' \<longleftrightarrow>
     (\<exists>ts xs. encodes ts xs \<and> CBS_view inp = xs @ (if eoc then [0, 0] else []) @ CBS_view inp' \<and>
        wf_cbs inp' \<and> cbs_len inp' \<le> cbs_len inp \<and> (\<not> eoc \<longrightarrow> CBS_view inp' = []) \<and>
        (\<forall>t\<in>set ts. acceptable st t) \<and> writes d out (concat (map (emitted st) ts)) out' \<and>
        (st = 0 \<longrightarrow> der_forest (kMaxDepth - depth) (concat (map der ts))))"

lemma convertedI:
  "encodes ts xs \<Longrightarrow> CBS_view inp = xs @ (if eoc then [0, 0] else []) @ CBS_view inp' \<Longrightarrow>
   wf_cbs inp' \<Longrightarrow> cbs_len inp' \<le> cbs_len inp \<Longrightarrow> (\<not> eoc \<Longrightarrow> CBS_view inp' = []) \<Longrightarrow>
   (\<And>t. t \<in> set ts \<Longrightarrow> acceptable st t) \<Longrightarrow> writes d out (concat (map (emitted st) ts)) out' \<Longrightarrow>
   (st = 0 \<Longrightarrow> der_forest (kMaxDepth - depth) (concat (map der ts))) \<Longrightarrow>
   converted st eoc depth d inp out inp' out'"
  unfolding converted_def by blast

text \<open>The contents of the element that stands for a tree in the output.\<close>

fun payload :: "u32 \<Rightarrow> ber \<Rightarrow> u8 list" where
  "payload st (Primitive tag xs) = xs"
| "payload st (Constructed tag ts) = concat (map (emitted (child_tag st tag)) ts)"

lemma string_types_nonzero: "is_string_type tag \<Longrightarrow> tag AND NOT CBS_ASN1_CONSTRUCTED \<noteq> 0"
  by (auto simp: is_string_type_def tag_defs)

lemma not_constructed_out: "\<not> constructed (tag AND NOT CBS_ASN1_CONSTRUCTED)"
proof -
  have "(tag AND NOT CBS_ASN1_CONSTRUCTED) AND CBS_ASN1_CONSTRUCTED = 0"
    by (rule bit_word_eqI) (auto simp: bit_simps)
  then show ?thesis by (simp add: constructed_def)
qed

lemma child_tag_simps:
  "st \<noteq> 0 \<Longrightarrow> child_tag st tag = st" "\<not> constructed tag \<Longrightarrow> child_tag 0 tag = 0"
  "constructed tag \<Longrightarrow> is_string_type tag \<Longrightarrow> child_tag 0 tag = tag AND NOT CBS_ASN1_CONSTRUCTED"
  "\<not> is_string_type tag \<Longrightarrow> child_tag 0 tag = 0"
  by (auto simp: child_tag_def out_tag_def is_string_element_def)

lemma emitted_constructed:
  assumes c: "constructed tag" and cs: "\<forall>t\<in>set cs. acceptable (child_tag st tag) t"
    and st: "st = 0 \<or> tag AND NOT CBS_ASN1_CONSTRUCTED = st"
  shows "acceptable st (Constructed tag cs)"
    "emitted st (Constructed tag cs) =
      (if st = 0 then der_element (out_tag 0 tag, payload 0 (Constructed tag cs)) else payload st (Constructed tag cs))"
proof -
  show "acceptable st (Constructed tag cs)"
    using c cs st string_types_nonzero [of tag]
    by (cases "st = 0"; cases "is_string_type tag") (auto simp: acceptable_def child_tag_simps)
  show "emitted st (Constructed tag cs) =
      (if st = 0 then der_element (out_tag 0 tag, payload 0 (Constructed tag cs)) else payload st (Constructed tag cs))"
    using c string_types_nonzero [of tag]
    by (cases "st = 0"; cases "is_string_type tag")
      (auto simp: emitted_def [abs_def] child_tag_simps out_tag_def is_string_element_def)
qed

lemma emitted_primitive:
  assumes "\<not> constructed tag" "st = 0 \<or> tag AND NOT CBS_ASN1_CONSTRUCTED = st"
  shows "acceptable st (Primitive tag xs)"
    "emitted st (Primitive tag xs) =
      (if st = 0 then der_element (out_tag 0 tag, payload 0 (Primitive tag xs)) else payload st (Primitive tag xs))"
  using assms by (auto simp: acceptable_def emitted_def out_tag_def is_string_element_def)

text \<open>One element, with its contents converted.\<close>

definition element_converted where
  "element_converted st depth d tag inp out1 inp2 out2 \<longleftrightarrow>
     (\<exists>t pre. (\<forall>ts ys. encodes ts ys \<longrightarrow> encodes (t # ts) (pre @ ys)) \<and> CBS_view inp = pre @ CBS_view inp2 \<and>
        wf_cbs inp2 \<and> cbs_len inp2 < cbs_len inp \<and> acceptable st t \<and>
        emitted st t = (if st = 0 then der_element (out_tag 0 tag, payload 0 t) else payload st t) \<and>
        writes (child_depth d st) out1 (payload st t) out2 \<and>
        (st = 0 \<longrightarrow> length (payload 0 t) < 2 ^ 32 \<longrightarrow> (\<forall>ys. der_forest (kMaxDepth - depth) ys \<longrightarrow>
           der_forest (kMaxDepth - depth) (der t @ ys))))"

lemma forest_element:
  assumes c: "constructed tag" and p: "payload 0 (Constructed tag cs) = xs" "length xs < 2 ^ 32"
    and d: "depth + 1 \<le> kMaxDepth" and ys: "der_forest (kMaxDepth - depth) ys"
    and e: "emitted 0 (Constructed tag cs) = der_element (out_tag 0 tag, xs)"
    and f: "child_tag 0 tag = 0 \<Longrightarrow> der_forest (kMaxDepth - (depth + 1)) (concat (map der cs))"
  shows "der_forest (kMaxDepth - depth) (der (Constructed tag cs) @ ys)"
proof -
  have dt: "der (Constructed tag cs) = der_element (out_tag 0 tag, xs)" using e by (simp add: emitted_def)
  show ?thesis
  proof (cases "is_string_type tag")
    case True
    then have "\<not> constructed (out_tag 0 tag)"
      using c not_constructed_out by (simp add: out_tag_def is_string_element_def)
    then show ?thesis unfolding dt using p(2) ys by (rule forest_primitive)
  next
    case False
    then have z: "child_tag 0 tag = 0" "out_tag 0 tag = tag" by (simp_all add: child_tag_simps out_tag_def is_string_element_def)
    have k: "kMaxDepth - depth = Suc (kMaxDepth - (depth + 1))" using d by simp
    have "der_forest (kMaxDepth - (depth + 1)) xs" using f [OF z(1)] p(1) z(1) by simp
    then show ?thesis unfolding dt z(2) k using c False p(2) ys by (intro forest_constructed) (simp_all add: k)
  qed
qed

lemma payload_written:
  assumes "writes d out1 (concat (map (emitted (child_tag st tag)) cs)) out2"
  shows "writes d out1 (payload st (Constructed tag cs)) out2"
  using assms by simp

lemma element_constructed:
  assumes c: "constructed tag" and st: "st = 0 \<or> tag AND NOT CBS_ASN1_CONSTRUCTED = st" and d: "depth + 1 \<le> kMaxDepth"
    and enc: "\<And>ts ys. encodes ts ys \<Longrightarrow> encodes (Constructed tag cs # ts) (pre @ ys)"
    and view: "CBS_view inp = pre @ CBS_view inp2" "wf_cbs inp2" "cbs_len inp2 < cbs_len inp"
    and cs: "\<forall>t\<in>set cs. acceptable (child_tag st tag) t"
      "writes (child_depth d st) out1 (concat (map (emitted (child_tag st tag)) cs)) out2"
      "child_tag st tag = 0 \<longrightarrow> der_forest (kMaxDepth - (depth + 1)) (concat (map der cs))"
  shows "element_converted st depth d tag inp out1 inp2 out2"
proof -
  note e = emitted_constructed [OF c cs(1) st]
  have f: "der_forest (kMaxDepth - depth) (der (Constructed tag cs) @ ys)"
    if "st = 0" "length (payload 0 (Constructed tag cs)) < 2 ^ 32" "der_forest (kMaxDepth - depth) ys" for ys
    by (rule forest_element [OF c refl that(2) d that(3)]) (use e(2) cs(3) that(1) in simp_all)
  show ?thesis
    unfolding element_converted_def
    using enc view e f payload_written [OF cs(2)] by (intro exI [of _ "Constructed tag cs"] exI [of _ pre]) blast
qed

lemma element_indefinite:
  assumes c: "constructed tag" and st: "st = 0 \<or> tag AND NOT CBS_ASN1_CONSTRUCTED = st" and d: "depth + 1 \<le> kMaxDepth"
    and v: "CBS_view inp = der_tag tag @ [0x80] @ CBS_view inp1" "cbs_len inp1 < cbs_len inp"
    and conv: "converted (child_tag st tag) True (depth + 1) (child_depth d st) inp1 out1 inp2 out2"
  shows "element_converted st depth d tag inp out1 inp2 out2"
proof -
  from conv obtain cs xs where x: "encodes cs xs" "CBS_view inp1 = xs @ [0, 0] @ CBS_view inp2" "wf_cbs inp2"
    "cbs_len inp2 \<le> cbs_len inp1" and cs: "\<forall>t\<in>set cs. acceptable (child_tag st tag) t"
      "writes (child_depth d st) out1 (concat (map (emitted (child_tag st tag)) cs)) out2"
      "child_tag st tag = 0 \<longrightarrow> der_forest (kMaxDepth - (depth + 1)) (concat (map der cs))"
    unfolding converted_def by auto
  have "encodes (Constructed tag cs # ts) ((der_tag tag @ [0x80] @ xs @ [0, 0]) @ ys)" if "encodes ts ys" for ts ys
    using encodes_indefinite [OF c x(1) that] by simp
  then show ?thesis by (rule element_constructed [OF c st d _ _ x(3) _ cs]) (use v x(2,4) in simp_all)
qed

lemma element_definite:
  assumes c: "constructed tag" and st: "st = 0 \<or> tag AND NOT CBS_ASN1_CONSTRUCTED = st" and d: "depth + 1 \<le> kMaxDepth"
    and v: "CBS_view inp = der_tag tag @ ls @ xs @ CBS_view inp1" "ber_len (length xs) ls" "wf_cbs inp1"
      "cbs_len inp1 < cbs_len inp" "CBS_view contents = xs"
    and conv: "converted (child_tag st tag) False (depth + 1) (child_depth d st) contents out1 i out2"
  shows "element_converted st depth d tag inp out1 inp1 out2"
proof -
  from conv v(5) obtain cs where x: "encodes cs xs" and cs: "\<forall>t\<in>set cs. acceptable (child_tag st tag) t"
      "writes (child_depth d st) out1 (concat (map (emitted (child_tag st tag)) cs)) out2"
      "child_tag st tag = 0 \<longrightarrow> der_forest (kMaxDepth - (depth + 1)) (concat (map der cs))"
    unfolding converted_def by auto
  have "encodes (Constructed tag cs # ts) ((der_tag tag @ ls @ xs) @ ys)" if "encodes ts ys" for ts ys
    using encodes_definite [OF c v(2) x that] by simp
  then show ?thesis by (rule element_constructed [OF c st d _ _ v(3,4) cs]) (use v(1) in simp_all)
qed

lemma element_primitive:
  assumes c: "\<not> constructed tag" and st: "st = 0 \<or> tag AND NOT CBS_ASN1_CONSTRUCTED = st"
    and v: "CBS_view inp = der_tag tag @ ls @ xs @ CBS_view inp1" "ber_len (length xs) ls" "wf_cbs inp1"
      "cbs_len inp1 < cbs_len inp"
    and w: "writes (child_depth d st) out1 xs out2"
  shows "element_converted st depth d tag inp out1 inp1 out2"
proof -
  note e = emitted_primitive [OF c st, of xs]
  have "der_forest (kMaxDepth - depth) (der (Primitive tag xs) @ ys)"
    if "length xs < 2 ^ 32" "der_forest (kMaxDepth - depth) ys" for ys
    using forest_primitive [OF c that] by simp
  moreover have "encodes (Primitive tag xs # ts) ((der_tag tag @ ls @ xs) @ ys)" if "encodes ts ys" for ts ys
    using encodes_primitive [OF c v(2) that] by simp
  ultimately show ?thesis
    unfolding element_converted_def
    using e v w by (intro exI [of _ "Primitive tag xs"] exI [of _ "der_tag tag @ ls @ xs"]) simp
qed

text \<open>Going on after an element.\<close>

lemma converted_Cons:
  assumes rd: "CBB_ready d out" "CBB_contents d out \<noteq> None"
    and st: "st = 0 \<and> CBB_add_asn1 mall d (out_tag st tag) out = (Some (), out1) \<or> st \<noteq> 0 \<and> out1 = out"
    and el: "element_converted st depth d tag inp out1 inp2 out2"
    and fl: "CBB_flush mall d out2 = (Some (), out3)"
    and rest: "CBB_ready d out3 \<Longrightarrow> CBB_contents d out3 \<noteq> None \<Longrightarrow> converted st eoc depth d inp2 out3 inp' out'"
  shows "converted st eoc depth d inp out inp' out'"
proof -
  from el obtain t pre where t: "\<And>ts ys. encodes ts ys \<Longrightarrow> encodes (t # ts) (pre @ ys)"
    "CBS_view inp = pre @ CBS_view inp2" "cbs_len inp2 < cbs_len inp" "acceptable st t"
    "emitted st t = (if st = 0 then der_element (out_tag 0 tag, payload 0 t) else payload st t)"
    and w2: "writes (child_depth d st) out1 (payload st t) out2"
    and f: "st = 0 \<Longrightarrow> length (payload 0 t) < 2 ^ 32 \<Longrightarrow> der_forest (kMaxDepth - depth) ys \<Longrightarrow>
        der_forest (kMaxDepth - depth) (der t @ ys)" for ys
    unfolding element_converted_def by blast
  have w: "writes d out (emitted st t) out3 \<and> (st = 0 \<longrightarrow> length (payload 0 t) < 2 ^ 32)"
  proof (cases "st = 0")
    case True
    then have "CBB_add_asn1 mall d (out_tag 0 tag) out = (Some (), out1)" "writes (Suc d) out1 (payload 0 t) out2"
      using st w2 by (simp_all add: child_depth_def)
    from asn1_child_writes [OF rd(1) this fl] show ?thesis using True t(5) by simp
  next
    case False
    then have w1: "writes d out (payload st t) out2" using st w2 by (simp add: child_depth_def)
    from writes_trans [OF rd(1) this flush_writes(1) [OF writes_ready [OF w1] fl]]
    show ?thesis using False t(5) by simp
  qed
  then have w': "writes d out (emitted st t) out3" ..
  have "CBB_contents d out3 \<noteq> None" using w' by (auto simp: writes_def)
  from rest [OF writes_ready [OF w'] this] obtain ts xs where r: "encodes ts xs"
    "CBS_view inp2 = xs @ (if eoc then [0, 0] else []) @ CBS_view inp'" "wf_cbs inp'" "cbs_len inp' \<le> cbs_len inp2"
    "\<not> eoc \<longrightarrow> CBS_view inp' = []" "\<forall>t\<in>set ts. acceptable st t"
    "writes d out3 (concat (map (emitted st) ts)) out'"
    "st = 0 \<longrightarrow> der_forest (kMaxDepth - depth) (concat (map der ts))" unfolding converted_def by blast
  show ?thesis
  proof (rule convertedI [OF t(1) [OF r(1)]])
    show "writes d out (concat (map (emitted st) (t # ts))) out'" using writes_trans [OF rd(1) w' r(7)] by simp
    show "st = 0 \<Longrightarrow> der_forest (kMaxDepth - depth) (concat (map der (t # ts)))" using f r(8) w by simp
  qed (use r t in auto)
qed

lemma child_ready:
  assumes "CBB_ready d out" "CBB_contents d out \<noteq> None"
    and "st = 0 \<and> CBB_add_asn1 mall d tag out = (Some (), out1) \<or> st \<noteq> 0 \<and> out1 = out"
  shows "CBB_ready (child_depth d st) out1 \<and> CBB_contents (child_depth d st) out1 \<noteq> None"
  using assms asn1_child_start [OF assms(1), of mall tag "()" out1] by (auto simp: child_depth_def)

lemma convert_sound:
  "convert_loop n mall d st eoc depth (inp, out) = (Some (), (inp', out')) \<Longrightarrow> wf_cbs inp \<Longrightarrow>
   cbs_len inp < size_mod \<Longrightarrow> CBB_ready d out \<Longrightarrow> CBB_contents d out \<noteq> None \<Longrightarrow>
   converted st eoc depth d inp out inp' out'"
proof (induction n arbitrary: d st eoc depth inp out inp' out')
  case (Suc n)
  note wf = Suc.prems(2) and len = Suc.prems(3) and rd = Suc.prems(4,5)
  from Suc.prems(1) show ?case
  proof (cases rule: convert_round)
    case finished
    then have "CBS_view inp = []" by (simp add: CBS_view_def CBS_len_def)
    then show ?thesis using finished wf writes_nil [OF rd]
      by (intro convertedI [OF encodes_Nil]) (auto intro: forest_Nil)
  next
    case (eoc contents tag hl f)
    have "wf_cbs inp'" "cbs_len inp' \<le> cbs_len inp"
      using element_cases [OF wf eoc(1)] less_imp_le by metis+
    then show ?thesis using eoc(3,4) eoc_view [OF wf eoc(1,2)] writes_nil [OF rd]
      by (intro convertedI [OF encodes_Nil]) (auto intro: forest_Nil)
  next
    case (element contents tag hl f inp1 out1 inp2 out2 out3)
    note st = element(2) and st' = element(3)
    note cr = child_ready [OF rd st']
    have el: "element_converted st depth d tag inp out1 inp2 out2"
      using wf element(1)
    proof (cases rule: element_cases)
      case (definite ls xs contents')
      have i: "inp2 = inp1" using element(4) definite(1) by blast
      show ?thesis
      proof (cases "constructed tag")
        case True
        obtain j where j: "depth + 1 \<le> kMaxDepth" "convert_loop n mall (child_depth d st) (child_tag st tag) False (depth + 1)
            (contents', out1) = (Some (), (j, out2))"
          using element(4) definite(1,5) True by auto
        have "converted (child_tag st tag) False (depth + 1) (child_depth d st) contents' out1 j out2"
          by (rule Suc.IH [OF j(2) definite(6)]) (use definite(9) len cr in simp_all)
        then show ?thesis unfolding i by (rule element_definite [OF True st j(1) definite(3,2,4,8,7)])
      next
        case False
        have a: "CBB_add_bytes mall (child_depth d st) (CBS_data contents') (CBS_len contents') out1 = (Some (), out2)"
          using element(4) definite(1,5) False by auto
        have l: "CBS_len contents' \<le> length (CBS_data contents')" "CBS_len contents' < size_mod"
          using definite(6,9) len by (simp_all add: CBS_len_def CBS_data_def wf_cbs_def)
        have "writes (child_depth d st) out1 xs out2"
          using CBB_add_bytes_writes [OF conjunct1 [OF cr] l a] definite(7)
          by (simp add: CBS_len_def CBS_data_def CBS_view_def)
        then show ?thesis unfolding i by (rule element_primitive [OF False st definite(3,2,4,8)])
      qed
    next
      case indefinite
      have j: "depth + 1 \<le> kMaxDepth" "convert_loop n mall (child_depth d st) (child_tag st tag) True (depth + 1)
            (inp1, out1) = (Some (), (inp2, out2))"
        using element(4) indefinite(1) by auto
      have "converted (child_tag st tag) True (depth + 1) (child_depth d st) inp1 out1 inp2 out2"
        by (rule Suc.IH [OF j(2) indefinite(4)]) (use indefinite(5) len cr in simp_all)
      then show ?thesis by (rule element_indefinite [OF indefinite(2) st j(1) indefinite(3,5)])
    qed
    then have i2: "wf_cbs inp2" "cbs_len inp2 < cbs_len inp" unfolding element_converted_def by blast+
    show ?thesis
      by (rule converted_Cons [OF rd st' el element(5)], rule Suc.IH [OF element(6) i2(1)]) (use i2(2) len in simp_all)
  qed
qed simp

subsection \<open>The bound on the rounds\<close>

text \<open>With more rounds than input bytes the bound is never met: any two such bounds give the same result.\<close>

lemma convert_loop_shrinks:
  "convert_loop n mall d st eoc depth s = (Some (), s') \<Longrightarrow> cbs_len (fst s') \<le> cbs_len (fst s)"
proof (induction n arbitrary: d st eoc depth s s')
  case (Suc n)
  obtain inp out inp' out' where s: "s = (inp, out)" "s' = (inp', out')" by (cases s; cases s')
  from Suc.prems[unfolded s] show ?case unfolding s
  proof (cases rule: convert_round)
    case (eoc contents tag hl f)
    then show "cbs_len (fst (inp', out')) \<le> cbs_len (fst (inp, out))" using ber_element_shorter(1) [OF eoc(1)] by simp
  next
    case (element contents tag hl f inp1 out1 inp2 out2 out3)
    have "cbs_len inp2 \<le> cbs_len inp1" using element(4) Suc.IH [of _ _ _ _ "(inp1, out1)" "(inp2, out2)"] by auto
    then show "cbs_len (fst (inp', out')) \<le> cbs_len (fst (inp, out))"
      using Suc.IH [OF element(6)] ber_element_shorter(1) [OF element(1)] by simp
  qed simp
qed simp

lemma othen_cong_state:
  assumes "m s = m' s" "\<And>a t. m s = (Some a, t) \<Longrightarrow> k t = k' t"
  shows "othen m k s = othen m' k' s"
  using assms by (cases "m' s") (auto simp: othen_def obind_def split: option.split)

lemma obind_cong_state:
  assumes "m s = m' s" "\<And>a t. m s = (Some a, t) \<Longrightarrow> k a t = k' a t"
  shows "obind m k s = obind m' k' s"
  using assms by (cases "m' s") (auto simp: obind_def split: option.split)

lemma convert_loop_rounds:
  "cbs_len (fst s) < n \<Longrightarrow> cbs_len (fst s) < m \<Longrightarrow>
   convert_loop n mall d st eoc depth s = convert_loop m mall d st eoc depth s"
proof (induction n arbitrary: m d st eoc depth s)
  case (Suc n)
  then obtain m' where m: "m = Suc m'" by (cases m) auto
  have IH: "cbs_len (fst t) < cbs_len (fst s) \<Longrightarrow>
      convert_loop n mall d st eoc depth t = convert_loop m' mall d st eoc depth t" for d st eoc depth t
    using Suc.IH [of t m'] Suc.prems m by simp
  show ?case
    unfolding m convert_loop_unfold
  proof (rule if_cong [OF refl refl], rule obind_cong_state [OF refl])
    fix a t assume r: "on_in CBS_get_any_ber_asn1_element s = (Some a, t)"
    obtain contents tag hl f where a: "a = (contents, tag, hl, f)" by (cases a) 
    from r a have g: "CBS_get_any_ber_asn1_element (fst s) = (Some (contents, tag, hl, f), fst t)" "snd t = snd s"
      by (auto simp: on_in_def split: prod.splits)
    note sh = ber_element_shorter [OF g(1)]
    have child: "convert_loop n mall d st eoc depth t' = convert_loop m' mall d st eoc depth t'"
      if "fst t' = fst t" for d st eoc depth t' using IH [of t'] sh(1) that by simp
    have contents: "from_contents c (convert_loop n mall d st eoc depth) t' = from_contents c (convert_loop m' mall d st eoc depth) t'"
      if "CBS_skip hl contents = (Some (), c)" for c d st eoc depth t'
      using IH [of "(c, snd t')"] sh(2) [OF that] by (simp add: from_contents_def)
    let ?body = "\<lambda>k. convert_contents k mall d st depth contents tag hl"
    have body: "?body n t' = ?body m' t'" if "fst t' = fst t" for t'
      using child [OF that] contents by (auto simp: convert_contents_def split: prod.splits option.splits)
    have shrinks: "cbs_len (fst t3) \<le> cbs_len (fst t2)" if "?body n t2 = (Some (), t3)" for t2 t3
      using that convert_loop_shrinks [of n mall _ _ _ _ t2 t3]
      by (auto simp: convert_contents_def ofail_def on_out_def from_contents_def split: if_splits prod.splits option.splits)
    have "othen (begin_element mall d st tag) (othen (?body n) (othen (on_out (CBB_flush mall d))
          (convert_loop n mall d st eoc depth))) t =
      othen (begin_element mall d st tag) (othen (?body m') (othen (on_out (CBB_flush mall d))
          (convert_loop m' mall d st eoc depth))) t"
    proof (rule othen_cong_state [OF refl])
      fix u t2 assume "begin_element mall d st tag t = (Some u, t2)"
      then have t2: "fst t2 = fst t" by (auto simp: begin_element_def oret_def on_out_def split: if_splits prod.splits)
      show "othen (?body n) (othen (on_out (CBB_flush mall d)) (convert_loop n mall d st eoc depth)) t2 =
          othen (?body m') (othen (on_out (CBB_flush mall d)) (convert_loop m' mall d st eoc depth)) t2"
      proof (rule othen_cong_state, rule body [OF t2], rule othen_cong_state [OF refl])
        fix v t3 w t4 assume "?body n t2 = (Some v, t3)" "on_out (CBB_flush mall d) t3 = (Some w, t4)"
        then have "cbs_len (fst t4) < cbs_len (fst s)"
          using shrinks [of t2 t3] t2 sh(1) by (auto simp: on_out_def split: prod.splits)
        then show "convert_loop n mall d st eoc depth t4 = convert_loop m' mall d st eoc depth t4" by (rule IH)
      qed
    qed
    then show "(case a of (contents, tag, hl, uu) \<Rightarrow>
          if is_eoc hl contents then oguard eoc
          else if st \<noteq> 0 \<and> tag AND NOT CBS_ASN1_CONSTRUCTED \<noteq> st then ofail
          else othen (begin_element mall d st tag)
            (othen (convert_contents n mall d st depth contents tag hl)
              (othen (on_out (CBB_flush mall d)) (convert_loop n mall d st eoc depth)))) t =
        (case a of (contents, tag, hl, uu) \<Rightarrow>
          if is_eoc hl contents then oguard eoc
          else if st \<noteq> 0 \<and> tag AND NOT CBS_ASN1_CONSTRUCTED \<noteq> st then ofail
          else othen (begin_element mall d st tag)
            (othen (convert_contents m' mall d st depth contents tag hl)
              (othen (on_out (CBB_flush mall d)) (convert_loop m' mall d st eoc depth)))) t"
      unfolding a prod.case
      by (cases "is_eoc hl contents"; cases "st \<noteq> 0 \<and> tag AND NOT CBS_ASN1_CONSTRUCTED \<noteq> st")
        (simp_all only: if_P if_not_P if_True if_False simp_thms)
  qed
qed simp

subsection \<open>The output contains no BER\<close>

lemma ber_element_complete:
  assumes "wf_cbs c" "length xs < 2 ^ 32" "CBS_view c = der_element (tag, xs) @ rest"
  obtains out hl c' out' where "CBS_get_any_ber_asn1_element c = (Some (out, tag, hl, False), c')"
    "wf_cbs c'" "CBS_view c' = rest" "CBS_skip hl out = (Some (), out')" "wf_cbs out'" "CBS_view out' = xs"
proof -
  define hl where "hl = length (der_tag tag @ der_len (length xs))"
  note v = take_der_element [OF assms(1,3)]
  note e = element_read [OF assms, folded hl_def]
  let ?out = "CBS_init (cbs_data c) (hl + length xs)"
  have "CBS_get_any_ber_asn1_element c = (Some (?out, tag, hl, False), advance (hl + length xs) c)"
    using get_element_complete [OF assms(1,2) refl v(2)]
    by (simp add: CBS_get_any_ber_asn1_element_def hl_def)
  moreover have "CBS_skip hl ?out = (Some (), advance hl ?out)" by (simp add: CBS_skip_eq)
  ultimately show thesis using that e(3,5,6) assms(1) by (simp del: view_advance)
qed

lemma find_ber_forest:
  "der_forest n ys \<Longrightarrow> n \<le> kMaxDepth - depth \<Longrightarrow> depth \<le> kMaxDepth \<Longrightarrow> wf_cbs c \<Longrightarrow> CBS_view c = ys \<Longrightarrow>
   find_ber_loop depth False c = Some False"
proof (induction n ys arbitrary: depth c rule: der_forest.induct)
  case (forest_Nil n)
  then have "CBS_len c = 0" using length_view [of c] by (simp add: CBS_len_def)
  then show ?case by (simp add: find_ber_loop.simps)
next
  case (forest_primitive tag xs n ys)
  note p = forest_primitive
  obtain out hl c' out' where r: "CBS_get_any_ber_asn1_element c = (Some (out, tag, hl, False), c')"
    "wf_cbs c'" "CBS_view c' = ys" by (rule ber_element_complete [OF p(7,2,8)])
  have "CBS_len c \<noteq> 0" using ber_element_shorter(1) [OF r(1)] by (simp add: CBS_len_def)
  then have "find_ber_loop depth False c = find_ber_loop depth False c'"
    using r(1) p(1) by (subst find_ber_loop.simps) (simp add: constructed_def)
  then show ?case using p(4) [OF p(5,6) r(2,3)] by simp
next
  case (forest_constructed tag xs n ys)
  note p = forest_constructed
  obtain out hl c' out' where r: "CBS_get_any_ber_asn1_element c = (Some (out, tag, hl, False), c')"
    "wf_cbs c'" "CBS_view c' = ys" "CBS_skip hl out = (Some (), out')" "wf_cbs out'" "CBS_view out' = xs"
    by (rule ber_element_complete [OF p(10,3,11)])
  have "CBS_len c \<noteq> 0" using ber_element_shorter(1) [OF r(1)] by (simp add: CBS_len_def)
  moreover have "find_ber_loop (depth + 1) False out' = Some False" "depth + 1 \<le> kMaxDepth"
    using p(6) [of "depth + 1" out'] p(8,9) r(5,6) by auto
  ultimately have "find_ber_loop depth False c = find_ber_loop depth False c'"
    using r(1,4) p(1,2) by (subst find_ber_loop.simps) (simp add: constructed_def)
  then show ?case using p(7) [OF p(8,9) r(2,3)] by simp
qed

lemma CBS_init_id: "CBS_init (CBS_data c) (CBS_len c) = c"
  by (cases c) (simp add: CBS_init_def CBS_data_def CBS_len_def)

lemma cbs_find_ber_forest:
  "der_forest kMaxDepth (CBS_view c) \<Longrightarrow> wf_cbs c \<Longrightarrow> cbs_find_ber c 0 = Some False"
  using find_ber_forest [of kMaxDepth "CBS_view c" 0 c] by (simp add: cbs_find_ber_def CBS_init_id)

subsection \<open>The whole conversion\<close>

lemma ber_to_der_converted:
  assumes wf: "wf_cbs inp" "cbs_len inp < size_mod"
    and r: "CBS_asn1_ber_to_der mall inp = (Some (out, Some storage), inp')"
  shows "wf_cbs out \<and> (\<exists>ts. encodes ts (CBS_view inp) \<and> (\<forall>t\<in>set ts. strings_ok t) \<and>
    CBS_view out = concat (map der ts) \<and> der_forest kMaxDepth (CBS_view out))"
proof -
  from r obtain cbb0 cbb1 cbb2 len where i: "CBB_init mall (CBS_len inp) CBB_zero = (Some (), cbb0)"
    and c: "cbs_convert_ber mall 0 0 False 0 (inp, cbb0) = (Some (), (inp', cbb1))"
    and f: "CBB_finish mall 0 True True cbb1 = (Some (Some storage, Some len), cbb2)"
    and out: "out = CBS_init storage len"
    by (auto simp: CBS_asn1_ber_to_der_def obind_eq_Some oret_def split: option.splits prod.splits if_splits)
  have c0: "CBB_ready 0 cbb0" "CBB_contents 0 cbb0 = Some []"
    using CBB_init_ready [OF _ i] wf(2) by (simp_all add: CBS_len_def)
  have "convert_loop (Suc (CBS_len inp)) mall 0 0 False 0 (inp, cbb0) = (Some (), (inp', cbb1))"
    using c by (simp add: cbs_convert_ber_def)
  from convert_sound [OF this wf c0(1)] c0(2) have "converted 0 False 0 0 inp cbb0 inp' cbb1" by simp
  then obtain ts where t: "encodes ts (CBS_view inp)" "\<forall>t\<in>set ts. strings_ok t"
    "writes 0 cbb0 (concat (map der ts)) cbb1" "der_forest kMaxDepth (concat (map der ts))"
    unfolding converted_def by (auto simp: acceptable_def)
  have "CBB_contents 0 cbb1 = Some (concat (map der ts))" using t(3) c0(2) by (simp add: writes_def)
  then have s: "take len storage = concat (map der ts)" "len \<le> length storage"
    using finish_contents [OF writes_ready [OF t(3)] f] by simp_all
  then show ?thesis using t out by (auto simp: view_CBS_init wf_CBS_init)
qed

subsection \<open>BER that is overlooked\<close>

lemma find_ber_overwritten: "CBS_len c \<noteq> 0 \<Longrightarrow> find_ber_loop depth found c = find_ber_loop depth False c"
  by (simp add: find_ber_loop.simps [of depth found c] find_ber_loop.simps [of depth False c] cong: if_cong)

lemma find_ber_string:
  assumes "wf_cbs c" "length xs < 2 ^ 32" "CBS_view c = der_element (tag, xs) @ rest" "constructed tag" "is_string_type tag"
  shows "find_ber_loop depth found c = Some True"
proof -
  obtain out hl c' where r: "CBS_get_any_ber_asn1_element c = (Some (out, tag, hl, False), c')"
    by (rule ber_element_complete [OF assms(1-3)])
  have "CBS_len c \<noteq> 0" using ber_element_shorter(1) [OF r] by (simp add: CBS_len_def)
  then show ?thesis using r assms(4,5) by (subst find_ber_loop.simps) (simp add: constructed_def)
qed

lemma find_ber_element:
  assumes "wf_cbs c" "length xs < 2 ^ 32" "CBS_view c = der_element (tag, xs) @ rest"
    and "constructed tag" "\<not> is_string_type tag" "depth + 1 \<le> kMaxDepth"
  obtains d c' where "wf_cbs d" "CBS_view d = xs" "wf_cbs c'" "CBS_view c' = rest"
    "find_ber_loop depth found c =
      (case find_ber_loop (depth + 1) False d of None \<Rightarrow> None | Some f \<Rightarrow> find_ber_loop depth f c')"
proof -
  obtain out hl c' out' where r: "CBS_get_any_ber_asn1_element c = (Some (out, tag, hl, False), c')"
    "wf_cbs c'" "CBS_view c' = rest" "CBS_skip hl out = (Some (), out')" "wf_cbs out'" "CBS_view out' = xs"
    by (rule ber_element_complete [OF assms(1-3)])
  have "CBS_len c \<noteq> 0" using ber_element_shorter(1) [OF r(1)] by (simp add: CBS_len_def)
  then have "find_ber_loop depth found c =
      (case find_ber_loop (depth + 1) False out' of None \<Rightarrow> None | Some f \<Rightarrow> find_ber_loop depth f c')"
    using r(1,4) assms(4-6) by (subst find_ber_loop.simps) (simp add: constructed_def)
  then show thesis using that r by blast
qed

lemma find_ber_empty: "wf_cbs c \<Longrightarrow> CBS_view c = [] \<Longrightarrow> find_ber_loop depth found c = Some found"
  using length_view [of c] by (simp add: find_ber_loop.simps CBS_len_def)

lemma find_ber_overlooks:
  assumes wf: "wf_cbs c" and view: "CBS_view c = der_element (t1, der_element (t2, xs) @ ys) @ zs"
    and t: "constructed t1" "\<not> is_string_type t1" "constructed t2" "is_string_type t2"
    and len: "length xs < 2 ^ 32" "length (der_element (t2, xs) @ ys) < 2 ^ 32"
    and zs: "zs \<noteq> []" "der_forest (kMaxDepth - depth) zs" and d: "depth + 1 \<le> kMaxDepth"
  shows "find_ber_loop depth found c = Some False"
proof -
  obtain e c' where e: "wf_cbs e" "CBS_view e = der_element (t2, xs) @ ys" "wf_cbs c'" "CBS_view c' = zs"
    "find_ber_loop depth found c =
      (case find_ber_loop (depth + 1) False e of None \<Rightarrow> None | Some f \<Rightarrow> find_ber_loop depth f c')"
    by (rule find_ber_element [OF wf len(2) view t(1,2) d])
  have "find_ber_loop (depth + 1) False e = Some True" by (rule find_ber_string [OF e(1) len(1) e(2) t(3,4)])
  moreover have "CBS_len c' \<noteq> 0" using zs(1) e(4) length_view [OF e(3)] by (metis CBS_len_def length_0_conv)
  ultimately show ?thesis
    using e(5) find_ber_overwritten [of c' depth True] find_ber_forest [OF zs(2) _ _ e(3,4)] d by simp
qed

subsection \<open>Implicitly tagged strings\<close>

lemma implicit_string_loop_writes:
  "implicit_string_loop mall inner child r = (Some (), r') \<Longrightarrow> wf_cbs child \<Longrightarrow> cbs_len child < size_mod \<Longrightarrow>
   CBB_ready 0 r \<Longrightarrow> CBB_contents 0 r \<noteq> None \<Longrightarrow>
   \<exists>chunks. CBS_view child = concat (map (\<lambda>xs. der_element (inner, xs)) chunks) \<and> writes 0 r (concat chunks) r'"
proof (induction mall inner child r rule: implicit_string_loop.induct)
  case (1 mall inner child r)
  show ?case
  proof (cases "CBS_len child = 0")
    case True
    then have "CBS_view child = []" "r' = r" using "1.prems"(1)
      by (simp_all add: implicit_string_loop.simps CBS_view_def CBS_len_def)
    then show ?thesis using writes_nil "1.prems"(4,5) by (intro exI [of _ "[]"]) simp
  next
    case False
    then obtain chunk child' r1 where g: "CBS_get_asn1 inner child = (Some chunk, child')"
      and a: "CBB_add_bytes mall 0 (CBS_data chunk) (CBS_len chunk) r = (Some (), r1)"
      and l: "implicit_string_loop mall inner child' r1 = (Some (), r')"
      using "1.prems"(1) by (subst (asm) implicit_string_loop.simps) (auto simp: othen_eq_Some split: prod.splits option.splits)
    from CBS_get_asn1_sound [OF "1.prems"(2) g] have
      s: "CBS_view child = der_element (inner, CBS_view chunk) @ CBS_view child'" "wf_cbs child'" "wf_cbs chunk"
      by metis+
    have len: "cbs_len child = length (der_element (inner, CBS_view chunk)) + cbs_len child'"
      using s(1) length_view [OF "1.prems"(2)] length_view [OF s(2)] by simp
    then have "cbs_len chunk < size_mod" using "1.prems"(3) length_view [OF s(3)] by (simp add: der_element_def)
    then have "writes 0 r (take (CBS_len chunk) (CBS_data chunk)) r1"
      using CBB_add_bytes_writes [OF "1.prems"(4) _ _ a] s(3) by (simp add: CBS_len_def CBS_data_def wf_cbs_def)
    then have w: "writes 0 r (CBS_view chunk) r1" by (simp add: CBS_len_def CBS_data_def CBS_view_def)
    have "CBB_contents 0 r1 \<noteq> None" using w by (auto simp: writes_def)
    with "1.IH" [OF False g [symmetric] refl, of r1] obtain chunks where
      c: "CBS_view child' = concat (map (\<lambda>xs. der_element (inner, xs)) chunks)" "writes 0 r1 (concat chunks) r'"
      using l s(2) len "1.prems"(3) writes_ready [OF w] by auto
    show ?thesis
      using s(1) c writes_trans [OF "1.prems"(4) w c(2)] by (intro exI [of _ "CBS_view chunk # chunks"]) simp
  qed
qed

lemma implicit_string_cases:
  assumes wf: "wf_cbs inp" "cbs_len inp < size_mod"
    and r: "CBS_get_asn1_implicit_string mall outer inner inp = (Some (out, storage), inp')"
  shows "CBS_view inp = der_element (outer, CBS_view out) @ CBS_view inp' \<and> storage = None \<or>
    (\<exists>chunks. CBS_view inp = der_element (outer OR CBS_ASN1_CONSTRUCTED,
        concat (map (\<lambda>xs. der_element (inner, xs)) chunks)) @ CBS_view inp' \<and>
      CBS_view out = concat chunks \<and> storage \<noteq> None)"
proof (cases "CBS_peek_asn1_tag inp outer")
  case True
  then have "CBS_get_asn1 outer inp = (Some out, inp')" "storage = None"
    using r by (auto simp: CBS_get_asn1_implicit_string_def obind_eq_Some oret_def)
  then show ?thesis using CBS_get_asn1_sound [OF wf(1)] by metis
next
  case False
  from r False obtain r0 where i: "CBB_init mall (CBS_len inp) CBB_zero = (Some (), r0)" and
    "obind (CBS_get_asn1 (outer OR CBS_ASN1_CONSTRUCTED)) (\<lambda>child inp'.
      case othen (implicit_string_loop mall inner child) (CBB_finish mall 0 True True) r0 of
        (Some (Some data, Some len), _) \<Rightarrow> (Some (CBS_init data len, Some data), inp')
      | _ \<Rightarrow> (None, inp')) inp = (Some (out, storage), inp')"
    by (auto simp: CBS_get_asn1_implicit_string_def split: prod.splits option.splits)
  then obtain child inp1 where g1: "CBS_get_asn1 (outer OR CBS_ASN1_CONSTRUCTED) inp = (Some child, inp1)" and
    c1: "(case othen (implicit_string_loop mall inner child) (CBB_finish mall 0 True True) r0 of
        (Some (Some data, Some len), _) \<Rightarrow> (Some (CBS_init data len, Some data), inp1)
      | _ \<Rightarrow> (None, inp1)) = (Some (out, storage), inp')"
    unfolding obind_eq_Some by blast
  from c1 obtain data len r2 where
    c2: "othen (implicit_string_loop mall inner child) (CBB_finish mall 0 True True) r0 = (Some (Some data, Some len), r2)"
    and o: "out = CBS_init data len" "storage = Some data" "inp1 = inp'"
    by (auto split: prod.splits option.splits)
  note g = g1 [unfolded o(3)]
  from c2 obtain r1 where l: "implicit_string_loop mall inner child r0 = (Some (), r1)"
    and f: "CBB_finish mall 0 True True r1 = (Some (Some data, Some len), r2)"
    unfolding othen_eq_Some by auto
  from CBS_get_asn1_sound [OF wf(1) g] have
    s: "CBS_view inp = der_element (outer OR CBS_ASN1_CONSTRUCTED, CBS_view child) @ CBS_view inp'" "wf_cbs child"
    by metis+
  have "cbs_len child \<le> cbs_len inp"
    using arg_cong [OF s(1), of length] length_view [OF wf(1)] length_view [OF s(2)] by (simp add: der_element_def)
  then have len: "cbs_len child < size_mod" using wf(2) by simp
  have r0: "CBB_ready 0 r0" "CBB_contents 0 r0 = Some []" using CBB_init_ready [OF _ i] wf(2) by (simp_all add: CBS_len_def)
  from implicit_string_loop_writes [OF l s(2) len r0(1)] r0(2) obtain chunks where
    c: "CBS_view child = concat (map (\<lambda>xs. der_element (inner, xs)) chunks)" "writes 0 r0 (concat chunks) r1" by auto
  have "CBB_contents 0 r1 = Some (concat chunks)" using c(2) r0(2) by (simp add: writes_def)
  then have "take len data = concat chunks" using finish_contents [OF writes_ready [OF c(2)] f] by simp
  then show ?thesis using s(1) c(1) o by (intro disjI2 exI [of _ chunks]) (simp add: view_CBS_init)
qed

lemma CBB_finish_i2d_contents:
  assumes rd: "CBB_ready 0 c" and r: "CBB_finish_i2d mall outp c = (Some (n, res), c')"
  shows "\<exists>der spare. CBB_contents 0 c = Some der \<and> length der = n \<and> n \<le> INT_MAX \<and>
    res = (case outp of None \<Rightarrow> None | Some None \<Rightarrow> Some (der @ spare, 0)
           | Some (Some buf) \<Rightarrow> Some (der @ drop n buf, n))"
proof -
  from r obtain data c1 where f: "CBB_finish mall 0 True True c = (Some (Some data, Some n), c1)"
    and n: "n \<le> INT_MAX" and res: "res = (case outp of None \<Rightarrow> None | Some None \<Rightarrow> Some (data, 0)
      | Some (Some buf) \<Rightarrow> Some (store buf 0 (take n data), n))"
    by (auto simp: CBB_finish_i2d_def split: prod.splits option.splits if_splits)
  have c: "CBB_contents 0 c = Some (take n data)" "n \<le> length data" using finish_contents [OF rd f] by simp_all
  show ?thesis
    using c n by (intro exI [of _ "take n data"] exI [of _ "drop n data"])
      (simp add: res store_def split: option.split)
qed

end
