(* ===== verification/BER_Properties.thy ===== *)
theory BER_Properties
  imports BER_Spec
begin

text \<open>
  The properties of the conversion from BER to DER, and the inputs on which it is skipped although
  they contain BER.
\<close>

text \<open>
  Property C16: a successful conversion gives the DER encoding of the values that the input encodes
  in BER. The whole input is an encoding of a sequence of trees whose constructed strings
  consist of fragments of their own type, and the output is the concatenation of the DER
  encodings of these trees, with the fragments of each string joined.
\<close>

theorem CBS_asn1_ber_to_der_converts:
  assumes "wf_cbs inp" "cbs_len inp < size_mod" "CBS_asn1_ber_to_der mall inp = (Some (out, Some storage), inp')"
  shows "\<exists>ts. encodes ts (CBS_view inp) \<and> (\<forall>t\<in>set ts. strings_ok t) \<and> CBS_view out = concat (map der ts)"
  using ber_to_der_converted [OF assms] by blast

text \<open>
  Property C28: the output of a conversion needs no further one. \<open>cbs_find_ber\<close> accepts it within its
  nesting limit and finds no BER in it.
\<close>

theorem CBS_asn1_ber_to_der_output_is_der:
  assumes "wf_cbs inp" "cbs_len inp < size_mod" "CBS_asn1_ber_to_der mall inp = (Some (out, Some storage), inp')"
  shows "cbs_find_ber out 0 = Some False \<and> der_forest kMaxDepth (CBS_view out)"
  using ber_to_der_converted [OF assms] cbs_find_ber_forest by blast

text \<open>
  DER is handed back as it is. On an input of DER elements without constructed strings,
  nested within the limit, the function returns the first element in place, allocates nothing
  (so that it does not depend on \<open>malloc\<close>) and leaves the rest of the input.
\<close>

theorem CBS_asn1_ber_to_der_on_der:
  assumes "wf_cbs inp" "length xs < 2 ^ 32" "CBS_view inp = der_element (tag, xs) @ rest"
    and "der_forest kMaxDepth (CBS_view inp)"
  shows "\<exists>out inp'. CBS_asn1_ber_to_der mall inp = (Some (out, None), inp') \<and>
    CBS_view out = der_element (tag, xs) \<and> CBS_view inp' = rest"
  using cbs_find_ber_forest [OF assms(4,1)] element_read [OF assms(1-3)]
  by (simp add: CBS_asn1_ber_to_der_def obind_def oret_def del: view_advance)

text \<open>
  Property C29: the conversion always ends. A round takes an element from the input before it goes on
  or recurses, so with more rounds than input bytes the bound on the rounds is never met, and
  any larger bound gives the same result.
\<close>

theorem convert_loop_terminates:
  assumes "CBS_len (fst s) < n"
  shows "convert_loop n mall d string_tag eoc depth s =
    (if depth \<le> kMaxDepth then cbs_convert_ber mall d string_tag eoc depth s
     else convert_loop (Suc (CBS_len (fst s))) mall d string_tag eoc depth s)"
  using convert_loop_rounds [of s n "Suc (CBS_len (fst s))"] assms
  by (simp add: cbs_convert_ber_def CBS_len_def)

text \<open>
  Property C30: BER is overlooked when DER follows it. Inside an element, a constructed element whose
  contents start with a constructed string (which is legal in BER only) and which is followed by
  at least one DER sibling goes unnoticed: reading the sibling sets \<open>*ber_found\<close> back to zero, so the
  outer element is handed back unconverted, with the constructed string in it.
\<close>

theorem CBS_asn1_ber_to_der_overlooks_ber:
  assumes "wf_cbs c" "CBS_view c = der_element (t0, der_element (t1, der_element (t2, xs) @ ys) @ zs)"
    and "constructed t0" "\<not> is_string_type t0" "constructed t1" "\<not> is_string_type t1" "constructed t2" "is_string_type t2"
    and "length xs < 2 ^ 32" "length (der_element (t2, xs) @ ys) < 2 ^ 32"
      "length (der_element (t1, der_element (t2, xs) @ ys) @ zs) < 2 ^ 32"
    and "zs \<noteq> []" "der_forest 0 zs"
  shows "cbs_find_ber c 0 = Some False \<and>
    (\<exists>out c'. CBS_asn1_ber_to_der mall c = (Some (out, None), c') \<and> CBS_view out = CBS_view c)"
proof -
  have k: "0 + 1 \<le> kMaxDepth" "0 + 1 + 1 \<le> kMaxDepth" by (simp_all add: kMaxDepth_def)
  have v: "CBS_view c = der_element (t0, der_element (t1, der_element (t2, xs) @ ys) @ zs) @ []"
    using assms(2) by simp
  obtain d c' where d: "wf_cbs d" "CBS_view d = der_element (t1, der_element (t2, xs) @ ys) @ zs" "wf_cbs c'" "CBS_view c' = []"
    "find_ber_loop 0 False c = (case find_ber_loop (0 + 1) False d of None \<Rightarrow> None | Some f \<Rightarrow> find_ber_loop 0 f c')"
    by (rule find_ber_element [OF assms(1,11) v assms(3,4) k(1)])
  have "der_forest (kMaxDepth - (0 + 1)) zs" using der_forest_mono [OF assms(13)] by simp
  then have "find_ber_loop (0 + 1) False d = Some False"
    by (rule find_ber_overlooks [OF d(1,2) assms(5-10,12) _ k(2)])
  then have "find_ber_loop 0 False c = Some False" using d(5) find_ber_empty [OF d(3,4)] by simp
  then have f: "cbs_find_ber c 0 = Some False" by (simp add: cbs_find_ber_def CBS_init_id)
  then show ?thesis
    using element_read [OF assms(1,11) v] assms(2)
    by (simp add: CBS_asn1_ber_to_der_def obind_def oret_def)
qed

text \<open>
  An implicitly tagged string is accepted in primitive form, when its contents are
  returned in place, or as one constructed element, when the result is the concatenation of the
  chunks inside it, each a DER element with the inner tag.
\<close>

theorem CBS_get_asn1_implicit_string_cases:
  assumes "wf_cbs inp" "cbs_len inp < size_mod"
    and "CBS_get_asn1_implicit_string mall outer inner inp = (Some (out, storage), inp')"
  shows "CBS_view inp = der_element (outer, CBS_view out) @ CBS_view inp' \<and> storage = None \<or>
    (\<exists>chunks. CBS_view inp = der_element (outer OR CBS_ASN1_CONSTRUCTED,
        concat (map (\<lambda>xs. der_element (inner, xs)) chunks)) @ CBS_view inp' \<and>
      CBS_view out = concat chunks \<and> storage \<noteq> None)"
  by (rule implicit_string_cases [OF assms])

text \<open>
  \<open>CBB_finish_i2d\<close> follows the i2d convention. It returns the length of the contents of the
  builder, which an \<open>int\<close> can hold; it stores nothing through a NULL \<open>outp\<close>, hands the buffer over
  through a pointer to NULL, and otherwise overwrites the start of the caller's buffer and
  advances the pointer by the length.
\<close>

theorem CBB_finish_i2d_correct:
  assumes "CBB_ready 0 c" "CBB_finish_i2d mall outp c = (Some (n, res), c')"
  shows "\<exists>der spare. CBB_contents 0 c = Some der \<and> length der = n \<and> n \<le> INT_MAX \<and>
    res = (case outp of None \<Rightarrow> None | Some None \<Rightarrow> Some (der @ spare, 0)
           | Some (Some buf) \<Rightarrow> Some (der @ drop n buf, n))"
  by (rule CBB_finish_i2d_contents [OF assms])

subsection \<open>Witnesses\<close>

definition demo_ber :: "u8 list" where
  "demo_ber = [0x24, 0x80, 4, 1, 0xaa, 4, 0x81, 1, 0xbb, 0, 0]"

lemma demo_ber_run:
  obtains out storage inp' where "CBS_asn1_ber_to_der (\<lambda>_. True) (cbs_of demo_ber) = (Some (out, Some storage), inp')"
    "CBS_view out = [4, 2, 0xaa, 0xbb]"
proof -
  let ?r = "CBS_asn1_ber_to_der (\<lambda>_. True) (cbs_of demo_ber)"
  have "map_option (\<lambda>(out, st). (CBS_view out, st \<noteq> None)) (fst ?r) = Some ([4, 2, 0xaa, 0xbb], True)"
    by code_simp
  then show thesis using that by (cases ?r) auto
qed

lemma demo_ber_ok: "wf_cbs (cbs_of demo_ber)" "cbs_len (cbs_of demo_ber) < size_mod"
  by (simp_all add: demo_ber_def cbs_of_def CBS_init_def wf_cbs_def)

theorem CBS_asn1_ber_to_der_converts_witness:
  "\<exists>ts. encodes ts demo_ber \<and> concat (map der ts) = [4, 2, 0xaa, 0xbb]"
proof -
  obtain out storage inp' where r: "CBS_asn1_ber_to_der (\<lambda>_. True) (cbs_of demo_ber) = (Some (out, Some storage), inp')"
    "CBS_view out = [4, 2, 0xaa, 0xbb]" by (rule demo_ber_run)
  show ?thesis using CBS_asn1_ber_to_der_converts [OF demo_ber_ok r(1)] unfolding view_cbs_of r(2) by metis
qed

theorem CBS_asn1_ber_to_der_output_is_der_witness:
  "\<exists>out. CBS_view out = [4, 2, 0xaa, 0xbb] \<and> cbs_find_ber out 0 = Some False"
proof -
  obtain out storage inp' where r: "CBS_asn1_ber_to_der (\<lambda>_. True) (cbs_of demo_ber) = (Some (out, Some storage), inp')"
    "CBS_view out = [4, 2, 0xaa, 0xbb]" by (rule demo_ber_run)
  show ?thesis using CBS_asn1_ber_to_der_output_is_der [OF demo_ber_ok r(1)] r(2) by blast
qed

lemma demo_elements:
  "der_element (0x20000010, [2, 1, 5]) = [0x30, 3, 2, 1, 5]" "der_element (2, [5]) = [2, 1, 5]"
  "der_element (0x20000010, [0x24, 2, 4, 0]) = [0x30, 4, 0x24, 2, 4, 0]"
  "der_element (0x20000004, [4, 0]) = [0x24, 2, 4, 0]"
  by code_simp+

lemma demo_tags: "constructed 0x20000010" "\<not> is_string_type 0x20000010" "constructed 0x20000004" "is_string_type 0x20000004"
  "\<not> constructed 2"
  by code_simp+

lemma demo_forest: "der_forest 0 [2, 1, 5]"
  using forest_primitive [OF demo_tags(5), of "[5]", OF _ forest_Nil] by (simp add: demo_elements(2))

theorem CBS_asn1_ber_to_der_on_der_witness:
  "\<exists>out inp'. CBS_asn1_ber_to_der (\<lambda>_. False) (cbs_of [0x30, 3, 2, 1, 5, 2, 1, 5]) = (Some (out, None), inp') \<and>
    CBS_view out = [0x30, 3, 2, 1, 5] \<and> CBS_view inp' = [2, 1, 5]"
proof -
  have "der_forest kMaxDepth (der_element (0x20000010, [2, 1, 5]) @ [2, 1, 5])"
    using forest_constructed [OF demo_tags(1,2), of "[2, 1, 5]" "kMaxDepth - 1" "[2, 1, 5]"]
      der_forest_mono [OF demo_forest] by (simp add: kMaxDepth_def)
  then show ?thesis
    using CBS_asn1_ber_to_der_on_der [OF wf_cbs_of, of "[2, 1, 5]" "[0x30, 3, 2, 1, 5, 2, 1, 5]" "0x20000010" "[2, 1, 5]"]
    by (simp add: demo_elements)
qed

theorem convert_loop_terminates_witness:
  "convert_loop 100 (\<lambda>_. True) 0 0 False 0 (cbs_of [2, 1, 5], CBB_zero) =
   cbs_convert_ber (\<lambda>_. True) 0 0 False 0 (cbs_of [2, 1, 5], CBB_zero)"
  using convert_loop_terminates [of "(cbs_of [2, 1, 5], CBB_zero)" 100 "\<lambda>_. True" 0 0 False 0]
  by (simp add: CBS_len_def cbs_of_def CBS_init_def)

theorem CBS_asn1_ber_to_der_overlooks_ber_witness:
  "\<exists>out c'. CBS_asn1_ber_to_der (\<lambda>_. True) (cbs_of [0x30, 9, 0x30, 4, 0x24, 2, 4, 0, 2, 1, 5]) = (Some (out, None), c') \<and>
    CBS_view out = [0x30, 9, 0x30, 4, 0x24, 2, 4, 0, 2, 1, 5]"
proof -
  have e: "der_element (0x20000010, [0x30, 4, 0x24, 2, 4, 0, 2, 1, 5]) = [0x30, 9, 0x30, 4, 0x24, 2, 4, 0, 2, 1, 5]"
    by code_simp
  show ?thesis
    using CBS_asn1_ber_to_der_overlooks_ber [OF wf_cbs_of, of "[0x30, 9, 0x30, 4, 0x24, 2, 4, 0, 2, 1, 5]" "0x20000010"
        "0x20000010" "0x20000004" "[4, 0]" "[]" "[2, 1, 5]" "\<lambda>_. True"]
    by (simp add: demo_elements demo_tags demo_forest e)
qed

theorem CBS_get_asn1_implicit_string_cases_witness:
  "\<exists>chunks. [0xa0, 3, 4, 1, 9] = der_element (0xa0000000, concat (map (\<lambda>xs. der_element (4, xs)) chunks)) \<and>
    concat chunks = [9]"
proof -
  let ?r = "CBS_get_asn1_implicit_string (\<lambda>_. True) 0x80000000 4 (cbs_of [0xa0, 3, 4, 1, 9])"
  have "map_option (\<lambda>(out, st). (CBS_view out, st \<noteq> None)) (fst ?r) = Some ([9], True)"
    "CBS_view (snd ?r) = []"
    by code_simp+
  then obtain out storage where r: "?r = (Some (out, Some storage), snd ?r)" "CBS_view out = [9]" "CBS_view (snd ?r) = []"
    by (cases ?r) auto
  have "cbs_len (cbs_of [0xa0, 3, 4, 1, 9]) < size_mod" by (simp add: cbs_of_def CBS_init_def)
  moreover have "0x80000000 OR CBS_ASN1_CONSTRUCTED = 0xa0000000" by (simp add: CONSTRUCTED_eq)
  ultimately show ?thesis
    using CBS_get_asn1_implicit_string_cases [OF wf_cbs_of _ r(1)] r(2,3) by auto
qed

theorem CBB_finish_i2d_correct_witness:
  "\<exists>der spare. CBB_contents 0 demo_cbb = Some der \<and> length der = 133 \<and>
    (\<exists>c'. CBB_finish_i2d (\<lambda>_. True) (Some None) demo_cbb = (Some (133, Some (der @ spare, 0)), c'))"
proof -
  obtain res c' where r: "CBB_finish_i2d (\<lambda>_. True) (Some None) demo_cbb = (Some (133, res), c')"
    by (simp add: CBB_finish_i2d_def demo_finish INT_MAX_def)
  show ?thesis using CBB_finish_i2d_correct [OF demo_ready r] r by auto
qed

end
