(* ===== verification/Const_Time.thy ===== *)
theory Const_Time
  imports Prelude
begin

text \<open>
  The constant-time comparisons and selections of \<open>crypto/internal.h\<close>: masks of all ones or all zeros
  computed without branches, and the proof that they decide what their names say.
  \<open>crypto_word_t\<close> is 64 bits wide. The value barriers, an empty assembler statement with the value
  as its operand, return their argument.
\<close>

type_synonym crypto_word = u64

definition CONSTTIME_TRUE_W :: crypto_word where "CONSTTIME_TRUE_W = NOT 0"
definition CONSTTIME_FALSE_W :: crypto_word where "CONSTTIME_FALSE_W = 0"
definition CONSTTIME_TRUE_8 :: u8 where "CONSTTIME_TRUE_8 = 0xff"
definition CONSTTIME_FALSE_8 :: u8 where "CONSTTIME_FALSE_8 = 0"

definition value_barrier_w :: "crypto_word \<Rightarrow> crypto_word" where
  "value_barrier_w a = a"

definition value_barrier_u32 :: "u32 \<Rightarrow> u32" where
  "value_barrier_u32 a = a"

definition value_barrier_u64 :: "u64 \<Rightarrow> u64" where
  "value_barrier_u64 a = a"

definition constant_time_msb_w :: "crypto_word \<Rightarrow> crypto_word" where
  "constant_time_msb_w a = 0 - drop_bit 63 a"

definition constant_time_lt_w :: "crypto_word \<Rightarrow> crypto_word \<Rightarrow> crypto_word" where
  "constant_time_lt_w a b = constant_time_msb_w (a XOR ((a XOR b) OR ((a - b) XOR a)))"

definition constant_time_lt_8 :: "crypto_word \<Rightarrow> crypto_word \<Rightarrow> u8" where
  "constant_time_lt_8 a b = ucast (constant_time_lt_w a b)"

definition constant_time_ge_w :: "crypto_word \<Rightarrow> crypto_word \<Rightarrow> crypto_word" where
  "constant_time_ge_w a b = NOT (constant_time_lt_w a b)"

definition constant_time_ge_8 :: "crypto_word \<Rightarrow> crypto_word \<Rightarrow> u8" where
  "constant_time_ge_8 a b = ucast (constant_time_ge_w a b)"

definition constant_time_is_zero_w :: "crypto_word \<Rightarrow> crypto_word" where
  "constant_time_is_zero_w a = constant_time_msb_w (NOT a AND (a - 1))"

definition constant_time_is_zero_8 :: "crypto_word \<Rightarrow> u8" where
  "constant_time_is_zero_8 a = ucast (constant_time_is_zero_w a)"

definition constant_time_eq_w :: "crypto_word \<Rightarrow> crypto_word \<Rightarrow> crypto_word" where
  "constant_time_eq_w a b = constant_time_is_zero_w (a XOR b)"

definition constant_time_eq_8 :: "crypto_word \<Rightarrow> crypto_word \<Rightarrow> u8" where
  "constant_time_eq_8 a b = ucast (constant_time_eq_w a b)"

text \<open>An \<open>int\<close> is 32 bits wide, and converted to \<open>crypto_word_t\<close> by sign extension.\<close>

definition constant_time_eq_int :: "u32 \<Rightarrow> u32 \<Rightarrow> crypto_word" where
  "constant_time_eq_int a b = constant_time_eq_w (scast a) (scast b)"

definition constant_time_eq_int_8 :: "u32 \<Rightarrow> u32 \<Rightarrow> u8" where
  "constant_time_eq_int_8 a b = constant_time_eq_8 (scast a) (scast b)"

definition constant_time_select_w :: "crypto_word \<Rightarrow> crypto_word \<Rightarrow> crypto_word \<Rightarrow> crypto_word" where
  "constant_time_select_w msk a b = (value_barrier_w msk AND a) OR (value_barrier_w (NOT msk) AND b)"

definition constant_time_select_8 :: "u8 \<Rightarrow> u8 \<Rightarrow> u8 \<Rightarrow> u8" where
  "constant_time_select_8 msk a b = ucast (constant_time_select_w (ucast msk) (ucast a) (ucast b))"

definition constant_time_select_int :: "crypto_word \<Rightarrow> u32 \<Rightarrow> u32 \<Rightarrow> u32" where
  "constant_time_select_int msk a b = ucast (constant_time_select_w msk (scast a) (scast b))"

subsection \<open>Masks\<close>

definition mask_w :: "bool \<Rightarrow> crypto_word" where
  "mask_w p = (if p then CONSTTIME_TRUE_W else CONSTTIME_FALSE_W)"

definition mask_8 :: "bool \<Rightarrow> u8" where
  "mask_8 p = (if p then CONSTTIME_TRUE_8 else CONSTTIME_FALSE_8)"

lemmas mask_defs = mask_w_def mask_8_def CONSTTIME_TRUE_W_def CONSTTIME_FALSE_W_def
  CONSTTIME_TRUE_8_def CONSTTIME_FALSE_8_def

lemma all_ones_8: "(0xff :: u8) = - 1"
  by code_simp

lemma ucast_mask [simp]: "ucast (mask_w p) = mask_8 p"
  by (rule bit_word_eqI) (simp add: mask_defs all_ones_8 bit_simps)

lemma NOT_mask [simp]: "NOT (mask_w p) = mask_w (\<not> p)" "NOT (mask_8 p) = mask_8 (\<not> p)"
  by (simp_all add: mask_defs all_ones_8)

lemma mask_algebra:
  "mask_8 p OR mask_8 q = mask_8 (p \<or> q)" "mask_8 p AND mask_8 q = mask_8 (p \<and> q)"
  "mask_8 p AND x = (if p then x else 0)"
  "mask_w p AND y = (if p then y else 0)"
  by (simp_all add: mask_defs all_ones_8)

lemma bit_63: "bit (a :: crypto_word) 63 \<longleftrightarrow> 2 ^ 63 \<le> unat a"
proof -
  have "unat a div 2 ^ 63 < 2" using unat_less_64 [of a] by (simp add: div_less_iff_less_mult)
  then have "odd (unat a div 2 ^ 63) \<longleftrightarrow> unat a div 2 ^ 63 \<noteq> 0" by (cases "unat a div 2 ^ 63") auto
  moreover have "bit a 63 \<longleftrightarrow> bit (unat a) 63" by (simp add: bit_unsigned_iff)
  ultimately show ?thesis by (auto simp: bit_iff_odd div_eq_0_iff)
qed

lemma msb_w: "constant_time_msb_w a = mask_w (bit a 63)"
proof -
  have "unat (drop_bit 63 a) = (if bit a 63 then 1 else 0)"
  proof -
    have d: "unat (drop_bit 63 a) = unat a div 2 ^ 63" by (rule unat_drop_bit)
    show ?thesis
    proof (cases "bit a 63")
      case True
      then have "unat a div 2 ^ 63 = 1"
        using unat_less_64 [of a] by (intro div_nat_eqI) (simp_all add: bit_63)
      then show ?thesis using d True by simp
    next
      case False
      then have "unat a div 2 ^ 63 = 0" by (simp add: bit_63)
      then show ?thesis using d False by simp
    qed
  qed
  then have "drop_bit 63 a = (if bit a 63 then 1 else 0)" by (simp add: word_unat_eq_iff)
  then show ?thesis by (simp add: constant_time_msb_w_def mask_defs)
qed

lemma unat_diff: "unat (a - b :: crypto_word) = (if unat b \<le> unat a then unat a - unat b else unat a + 2 ^ 64 - unat b)"
  by (simp add: unat_sub_if')

lemma lt_w: "constant_time_lt_w a b = mask_w (a < b)"
proof -
  have "bit (a XOR ((a XOR b) OR ((a - b) XOR a))) 63 \<longleftrightarrow>
      (if bit a 63 = bit b 63 then bit (a - b) 63 else bit b 63)"
    by (auto simp: bit_xor_iff bit_or_iff)
  also have "\<dots> \<longleftrightarrow> a < b"
    using unat_less_64 [of a] unat_less_64 [of b]
    by (auto simp: bit_63 unat_diff word_less_nat_alt)
  finally show ?thesis by (simp add: constant_time_lt_w_def msb_w)
qed

lemma is_zero_w: "constant_time_is_zero_w a = mask_w (a = 0)"
proof -
  have "bit (NOT a AND (a - 1)) 63 \<longleftrightarrow> \<not> 2 ^ 63 \<le> unat a \<and> 2 ^ 63 \<le> unat (a - 1)"
    unfolding bit_63 [symmetric] by (simp add: bit_and_iff bit_not_iff)
  also have "\<dots> \<longleftrightarrow> a = 0" using unat_less_64 [of a] by (auto simp: unat_diff word_unat_eq_iff)
  finally show ?thesis by (simp add: constant_time_is_zero_w_def msb_w)
qed

lemma eq_w: "constant_time_eq_w a b = mask_w (a = b)"
proof -
  have "a XOR b = 0 \<longleftrightarrow> a = b" by (auto simp: bit_eq_iff bit_xor_iff)
  then show ?thesis by (simp add: constant_time_eq_w_def is_zero_w)
qed

lemma scast_int_eq: "scast (a :: u32) = (scast b :: crypto_word) \<longleftrightarrow> a = b"
proof
  assume "scast a = (scast b :: crypto_word)"
  then have "ucast (scast a :: crypto_word) = (ucast (scast b :: crypto_word) :: u32)" by simp
  moreover have "ucast (scast x :: crypto_word) = x" for x :: u32
    by (rule bit_word_eqI) (auto simp: bit_simps)
  ultimately show "a = b" by simp
qed simp

text \<open>The decisions, as masks.\<close>

lemmas constant_time_masks = msb_w lt_w is_zero_w eq_w

lemma constant_time_masks_8:
  "constant_time_lt_8 a b = mask_8 (a < b)" "constant_time_ge_w a b = mask_w (b \<le> a)"
  "constant_time_ge_8 a b = mask_8 (b \<le> a)" "constant_time_is_zero_8 a = mask_8 (a = 0)"
  "constant_time_eq_8 a b = mask_8 (a = b)" "constant_time_eq_int i j = mask_w (i = j)"
  "constant_time_eq_int_8 i j = mask_8 (i = j)"
  by (simp_all add: constant_time_lt_8_def constant_time_ge_w_def constant_time_ge_8_def constant_time_is_zero_8_def
      constant_time_eq_8_def constant_time_eq_int_def constant_time_eq_int_8_def constant_time_masks not_less scast_int_eq)

lemma select_w: "constant_time_select_w (mask_w p) a b = (if p then a else b)"
  by (simp add: constant_time_select_w_def value_barrier_w_def mask_algebra)

lemma select_8: "constant_time_select_8 (mask_8 p) a b = (if p then a else b)"
proof -
  have "constant_time_select_8 m a b = (m AND a) OR (NOT m AND b)" for m
    unfolding constant_time_select_8_def constant_time_select_w_def value_barrier_w_def
    by (rule bit_word_eqI) (auto simp: bit_simps)
  then show ?thesis by (simp add: mask_algebra)
qed

lemma select_int: "constant_time_select_int (mask_w p) a b = (if p then a else b)"
proof -
  have "ucast (scast x :: crypto_word) = x" for x :: u32 by (rule bit_word_eqI) (auto simp: bit_simps)
  then show ?thesis by (simp add: constant_time_select_int_def select_w)
qed

text \<open>
  The branch-free comparisons decide what they are named after, with an all-ones mask
  for yes and zero for no, on all 64-bit values (the signed \<open>int\<close> variants included), and selection
  by such a mask picks the argument it stands for.
\<close>

theorem constant_time_correct:
  "constant_time_lt_w a b = (if a < b then CONSTTIME_TRUE_W else CONSTTIME_FALSE_W) \<and>
   constant_time_ge_w a b = (if a < b then CONSTTIME_FALSE_W else CONSTTIME_TRUE_W) \<and>
   constant_time_is_zero_w a = (if a = 0 then CONSTTIME_TRUE_W else CONSTTIME_FALSE_W) \<and>
   constant_time_eq_8 a b = (if a = b then CONSTTIME_TRUE_8 else CONSTTIME_FALSE_8) \<and>
   constant_time_eq_int i j = (if i = j then CONSTTIME_TRUE_W else CONSTTIME_FALSE_W) \<and>
   constant_time_select_w (constant_time_lt_w a b) x y = (if a < b then x else y) \<and>
   constant_time_select_8 (constant_time_eq_8 a b) u v = (if a = b then u else v) \<and>
   constant_time_select_int (constant_time_ge_w a b) i j = (if b \<le> a then i else j)"
  unfolding constant_time_masks constant_time_masks_8 select_w select_8 select_int
  by (auto simp: mask_w_def mask_8_def not_less)

end
