(* ===== verification/Base64.thy ===== *)
theory Base64
  imports Mem Const_Time
begin

text \<open>
  Base64 (\<open>crypto/base64/base64.c\<close>). An output pointer is the list of the bytes written through it.
\<close>

definition constant_time_lt_args_8 :: "u8 \<Rightarrow> u8 \<Rightarrow> u8" where
  "constant_time_lt_args_8 a b = (let aw = ucast a; bw = ucast b in ucast (constant_time_msb_w (aw - bw)))"

definition constant_time_in_range_8 :: "u8 \<Rightarrow> u8 \<Rightarrow> u8 \<Rightarrow> u8" where
  "constant_time_in_range_8 a mn mx = constant_time_lt_args_8 (a - mn) (mx - mn + 1)"

subsection \<open>Encoding\<close>

definition conv_bin2ascii :: "u8 \<Rightarrow> u8" where
  "conv_bin2ascii a =
     (let a = a AND 0x3f;
          ret = constant_time_select_8 (constant_time_eq_8 (ucast a) 62) 0x2b 0x2f;
          ret = constant_time_select_8 (constant_time_lt_args_8 a 62) (a - 52 + 0x30) ret;
          ret = constant_time_select_8 (constant_time_lt_args_8 a 52) (a - 26 + 0x61) ret
      in constant_time_select_8 (constant_time_lt_args_8 a 26) (a + 0x41) ret)"

definition EVP_EncodedLength :: "nat \<Rightarrow> nat option" where
  "EVP_EncodedLength len =
     (if (len + 2) mod size_mod < len then None
      else (let len = (len + 2) mod size_mod div 3
            in if (len * 4 mod size_mod) div 4 \<noteq> len then None
               else (let len = len * 4 mod size_mod
                     in if (len + 1) mod size_mod < len then None else Some ((len + 1) mod size_mod))))"

record EVP_ENCODE_CTX =
  data_used :: nat
  enc_data :: "u8 list"
  eof_seen :: bool
  error_encountered :: bool

definition sizeof_data :: nat where
  "sizeof_data = 48"

definition EVP_EncodeInit :: "EVP_ENCODE_CTX" where
  "EVP_EncodeInit =
     \<lparr>data_used = 0, enc_data = replicate sizeof_data 0, eof_seen = False, error_encountered = False\<rparr>"

definition EVP_ENCODE_CTX_new :: "malloc \<Rightarrow> EVP_ENCODE_CTX option" where
  "EVP_ENCODE_CTX_new mall =
     (case OPENSSL_malloc mall 56 of None \<Rightarrow> None | Some _ \<Rightarrow> Some EVP_EncodeInit)"

text \<open>The loop of \<open>EVP_EncodeBlock\<close>, without the NUL that ends the output.\<close>

fun encode_block :: "u8 list \<Rightarrow> u8 list" where
  "encode_block [] = []"
| "encode_block [s0] =
     (let l = push_bit 16 (ucast s0) :: u32
      in [conv_bin2ascii (ucast (drop_bit 18 l)), conv_bin2ascii (ucast (drop_bit 12 l)), 0x3d, 0x3d])"
| "encode_block [s0, s1] =
     (let l = push_bit 16 (ucast s0) OR push_bit 8 (ucast s1) :: u32
      in [conv_bin2ascii (ucast (drop_bit 18 l)), conv_bin2ascii (ucast (drop_bit 12 l)),
          conv_bin2ascii (ucast (drop_bit 6 l)), 0x3d])"
| "encode_block (s0 # s1 # s2 # src) =
     (let l = push_bit 16 (ucast s0) OR push_bit 8 (ucast s1) OR ucast s2 :: u32
      in [conv_bin2ascii (ucast (drop_bit 18 l)), conv_bin2ascii (ucast (drop_bit 12 l)),
          conv_bin2ascii (ucast (drop_bit 6 l)), conv_bin2ascii (ucast l)] @ encode_block src)"

definition EVP_EncodeBlock :: "u8 list \<Rightarrow> u8 list \<times> nat" where
  "EVP_EncodeBlock src = (encode_block src @ [0], length (encode_block src))"

text \<open>A line: the characters that \<open>EVP_EncodeBlock\<close> reports, and a newline over its NUL.\<close>

definition encode_line :: "u8 list \<Rightarrow> u8 list" where
  "encode_line data = (case EVP_EncodeBlock data of (out, encoded) \<Rightarrow> take encoded out @ [0x0a])"

text \<open>
  The loop over the full lines: whether it ran to the end (it stops when \<open>total\<close> wraps around), the
  input left, the lines written, and \<open>total\<close>.
\<close>

function encode_lines :: "u8 list \<Rightarrow> nat \<Rightarrow> bool \<times> u8 list \<times> u8 list \<times> nat" where
  "encode_lines src tot =
     (if length src \<ge> sizeof_data
      then (let line = encode_line (take sizeof_data src);
                tot' = (tot + length line) mod size_mod
            in if tot' < tot then (False, drop sizeof_data src, line, tot)
               else (case encode_lines (drop sizeof_data src) tot' of (ok, rest, out, t) \<Rightarrow> (ok, rest, line @ out, t)))
      else (True, src, [], tot))"
  by pat_completeness auto
termination
  by (relation "measure (\<lambda>(src, tot). length src)") (auto simp: sizeof_data_def)

declare encode_lines.simps [simp del]

text \<open>The bytes written to \<open>out\<close> (with the NUL after the last line), \<open>*out_len\<close>, and the context.\<close>

definition EVP_EncodeUpdate :: "EVP_ENCODE_CTX \<Rightarrow> u8 list \<Rightarrow> u8 list \<times> nat \<times> EVP_ENCODE_CTX" where
  "EVP_EncodeUpdate ctx src =
     (let in_len = length src
      in if in_len = 0 then ([], 0, ctx)
         else if sizeof_data - data_used ctx > in_len
         then ([], 0, ctx\<lparr>enc_data := store (enc_data ctx) (data_used ctx) src, data_used := data_used ctx + in_len\<rparr>)
         else
           (let (ctx, src, first, tot) =
                (if data_used ctx \<noteq> 0
                 then (let todo = sizeof_data - data_used ctx;
                           ctx = ctx\<lparr>enc_data := store (enc_data ctx) (data_used ctx) (take todo src)\<rparr>;
                           line = encode_line (enc_data ctx)
                       in (ctx\<lparr>data_used := 0\<rparr>, drop todo src, line, length line))
                 else (ctx, src, [], 0))
            in case encode_lines src tot of
                 (False, _, out, _) \<Rightarrow> (first @ out @ [0], 0, ctx)
               | (True, rest, out, tot) \<Rightarrow>
                   (first @ out @ [0], if tot > INT_MAX then 0 else tot,
                    ctx\<lparr>enc_data := (if rest \<noteq> [] then store (enc_data ctx) 0 rest else enc_data ctx),
                        data_used := length rest\<rparr>)))"

definition EVP_EncodeFinal :: "EVP_ENCODE_CTX \<Rightarrow> u8 list \<times> nat \<times> EVP_ENCODE_CTX" where
  "EVP_EncodeFinal ctx =
     (if data_used ctx = 0 then ([], 0, ctx)
      else (let line = encode_line (take (data_used ctx) (enc_data ctx))
            in (line @ [0], length line, ctx\<lparr>data_used := 0\<rparr>)))"

subsection \<open>Decoding\<close>

definition EVP_DecodedLength :: "nat \<Rightarrow> nat option" where
  "EVP_DecodedLength len = (if len mod 4 \<noteq> 0 then None else Some (len div 4 * 3))"

definition EVP_DecodeInit :: EVP_ENCODE_CTX where
  "EVP_DecodeInit = EVP_EncodeInit"

definition base64_ascii_to_bin :: "u8 \<Rightarrow> u8" where
  "base64_ascii_to_bin a =
     (let is_upper = constant_time_in_range_8 a 0x41 0x5a;
          is_lower = constant_time_in_range_8 a 0x61 0x7a;
          is_digit = constant_time_in_range_8 a 0x30 0x39;
          is_plus = constant_time_eq_8 (ucast a) 0x2b;
          is_slash = constant_time_eq_8 (ucast a) 0x2f;
          is_equals = constant_time_eq_8 (ucast a) 0x3d;
          ret = (is_upper AND (a - 0x41)) OR (is_lower AND (a - 0x61 + 26)) OR (is_digit AND (a - 0x30 + 52)) OR
                (is_plus AND 62) OR (is_slash AND 63);
          is_valid = is_upper OR is_lower OR is_digit OR is_plus OR is_slash OR is_equals
      in ret OR NOT is_valid)"

text \<open>The bytes that a quad decodes to, \<open>*out_num_bytes\<close> of them.\<close>

definition base64_decode_quad :: "u8 \<Rightarrow> u8 \<Rightarrow> u8 \<Rightarrow> u8 \<Rightarrow> u8 list option" where
  "base64_decode_quad i0 i1 i2 i3 =
     (let a = base64_ascii_to_bin i0; b = base64_ascii_to_bin i1;
          c = base64_ascii_to_bin i2; d = base64_ascii_to_bin i3
      in if a = 0xff \<or> b = 0xff \<or> c = 0xff \<or> d = 0xff then None
         else
           (let v = push_bit 18 (ucast a) OR push_bit 12 (ucast b) OR push_bit 6 (ucast c) OR ucast d :: u32;
                padding_pattern = push_bit 3 (of_bool (i0 = 0x3d)) OR push_bit 2 (of_bool (i1 = 0x3d)) OR
                  push_bit 1 (of_bool (i2 = 0x3d)) OR of_bool (i3 = 0x3d) :: u32
            in if padding_pattern = 0 then Some [ucast (drop_bit 16 v), ucast (drop_bit 8 v), ucast v]
               else if padding_pattern = 1 then Some [ucast (drop_bit 16 v), ucast (drop_bit 8 v)]
               else if padding_pattern = 3 then Some [ucast (drop_bit 16 v)]
               else None))"

definition is_space :: "u8 \<Rightarrow> bool" where
  "is_space c \<longleftrightarrow> c = 0x20 \<or> c = 0x09 \<or> c = 0x0d \<or> c = 0x0a"

text \<open>The loop of \<open>EVP_DecodeUpdate\<close>: whether it ran to the end, the bytes written, and the context.\<close>

fun decode_update_loop :: "EVP_ENCODE_CTX \<Rightarrow> u8 list \<Rightarrow> bool \<times> u8 list \<times> EVP_ENCODE_CTX" where
  "decode_update_loop ctx [] = (True, [], ctx)"
| "decode_update_loop ctx (c # src) =
     (if is_space c then decode_update_loop ctx src
      else if eof_seen ctx then (False, [], ctx\<lparr>error_encountered := True\<rparr>)
      else
        (let ctx = ctx\<lparr>enc_data := (enc_data ctx)[data_used ctx := c], data_used := data_used ctx + 1\<rparr>
         in if data_used ctx = 4
            then (case base64_decode_quad (enc_data ctx ! 0) (enc_data ctx ! 1) (enc_data ctx ! 2) (enc_data ctx ! 3) of
                    None \<Rightarrow> (False, [], ctx\<lparr>error_encountered := True\<rparr>)
                  | Some bytes \<Rightarrow>
                      (case decode_update_loop
                          (ctx\<lparr>data_used := 0, eof_seen := (if length bytes < 3 then True else eof_seen ctx)\<rparr>) src of
                         (ok, out, ctx) \<Rightarrow> (ok, bytes @ out, ctx)))
            else decode_update_loop ctx src))"

text \<open>The return value, the bytes written, \<open>*out_len\<close> and the context.\<close>

definition EVP_DecodeUpdate :: "EVP_ENCODE_CTX \<Rightarrow> u8 list \<Rightarrow> int \<times> u8 list \<times> nat \<times> EVP_ENCODE_CTX" where
  "EVP_DecodeUpdate ctx src =
     (if error_encountered ctx then (-1, [], 0, ctx)
      else (case decode_update_loop ctx src of
              (False, out, ctx) \<Rightarrow> (-1, out, 0, ctx)
            | (True, out, ctx) \<Rightarrow>
                if length out > INT_MAX then (-1, out, 0, ctx\<lparr>error_encountered := True\<rparr>)
                else (if eof_seen ctx then 0 else 1, out, length out, ctx)))"

definition EVP_DecodeFinal :: "EVP_ENCODE_CTX \<Rightarrow> int" where
  "EVP_DecodeFinal ctx = (if error_encountered ctx \<or> data_used ctx \<noteq> 0 then -1 else 1)"

text \<open>The loop of \<open>EVP_DecodeBase64\<close> over the quads of an input whose length is a multiple of four.\<close>

fun decode_quads :: "u8 list \<Rightarrow> u8 list option" where
  "decode_quads [] = Some []"
| "decode_quads (a # b # c # d # src) =
     (case base64_decode_quad a b c d of
        None \<Rightarrow> None
      | Some bytes \<Rightarrow>
          if length bytes \<noteq> 3 \<and> src \<noteq> [] then None else map_option (\<lambda>out. bytes @ out) (decode_quads src))"
| "decode_quads _ = None"

definition EVP_DecodeBase64 :: "nat \<Rightarrow> u8 list \<Rightarrow> u8 list option" where
  "EVP_DecodeBase64 max_out src =
     (if length src mod 4 \<noteq> 0 then None
      else (case EVP_DecodedLength (length src) of
              None \<Rightarrow> None
            | Some max_len \<Rightarrow> if max_out < max_len then None else decode_quads src))"

text \<open>\<open>EVP_DecodeBlock\<close> returns the length of the bytes written, -1 for \<open>None\<close>.\<close>

definition EVP_DecodeBlock :: "u8 list \<Rightarrow> u8 list option" where
  "EVP_DecodeBlock src =
     (let src = dropWhile (\<lambda>c. c = 0x20 \<or> c = 0x09) src;
          src = rev (dropWhile is_space (rev src))
      in case EVP_DecodedLength (length src) of
           None \<Rightarrow> None
         | Some dst_len \<Rightarrow>
             if dst_len > INT_MAX then None
             else map_option (\<lambda>out. out @ replicate ((3 - length out mod 3) mod 3) 0) (EVP_DecodeBase64 dst_len src))"

end
