(* ===== verification/Base64_Spec.thy ===== *)
theory Base64_Spec
  imports Base64
begin

text \<open>
  The Base64 code against its tables: the constant-time conversions compute the alphabet and its
  inverse, a quad carries three bytes, encoding and decoding are inverse, and the streaming
  functions do not depend on how the input is cut.
\<close>

subsection \<open>The alphabet\<close>

definition b64_char :: "nat \<Rightarrow> nat" where
  "b64_char v = (if v < 26 then 65 + v else if v < 52 then 71 + v else if v < 62 then v - 4 else if v = 62 then 43 else 47)"

definition b64_value :: "nat \<Rightarrow> nat option" where
  "b64_value c =
     (if 65 \<le> c \<and> c \<le> 90 then Some (c - 65) else if 97 \<le> c \<and> c \<le> 122 then Some (c - 71)
      else if 48 \<le> c \<and> c \<le> 57 then Some (c + 4) else if c = 43 then Some 62 else if c = 47 then Some 63 else None)"

lemma b64_value_char: "v < 64 \<Longrightarrow> b64_value (b64_char v) = Some v"
  by (auto simp: b64_value_def b64_char_def)

lemma b64_char_value: "b64_value c = Some v \<Longrightarrow> b64_char v = c \<and> v < 64"
  by (auto simp: b64_value_def b64_char_def split: if_splits)

lemma b64_char_not_pad: "v < 64 \<Longrightarrow> b64_char v \<noteq> 61 \<and> b64_char v < 256"
  by (auto simp: b64_char_def)

lemma lt_args_8: "constant_time_lt_args_8 a b = mask_8 (a < b)"
proof -
  have u: "unat (ucast a :: u64) = unat a" "unat (ucast b :: u64) = unat b" by (simp_all add: unat_ucast_up)
  have "bit (ucast a - ucast b :: u64) 63 \<longleftrightarrow> a < b"
    using unat_less_256 [of a] unat_less_256 [of b] by (auto simp: bit_63 unat_diff u word_less_nat_alt)
  then show ?thesis by (simp add: constant_time_lt_args_8_def msb_w)
qed

lemma in_range_8:
  assumes "unat mn \<le> unat mx" "unat mx < 255"
  shows "constant_time_in_range_8 a mn mx = mask_8 (unat mn \<le> unat a \<and> unat a \<le> unat mx)"
proof -
  have s: "unat (mx - mn + 1) = unat mx - unat mn + 1" 
  proof -
    have "unat (mx - mn) = unat mx - unat mn" using assms(1) by (simp add: unat_sub_if')
    then show ?thesis using assms(2) by (simp add: unat_word_ariths)
  qed
  have "a - mn < mx - mn + 1 \<longleftrightarrow> unat mn \<le> unat a \<and> unat a \<le> unat mx"
    unfolding word_less_nat_alt s using assms unat_less_256 [of a] by (auto simp: unat_sub_if')
  then show ?thesis by (simp add: constant_time_in_range_8_def lt_args_8)
qed

lemma conv_bin2ascii_eq: "unat (conv_bin2ascii a) = b64_char (unat a mod 64)"
proof -
  define v where "v = a AND 0x3f"
  have v: "unat v = unat a mod 64"
    using unat_and_mask [of a 6] by (simp add: v_def mask_eq_exp_minus_1)
  have c: "conv_bin2ascii a =
      (if v < 26 then v + 0x41 else if v < 52 then v - 26 + 0x61 else if v < 62 then v - 52 + 0x30
       else if v = 62 then 0x2b else 0x2f)"
  proof -
    have "(ucast v :: u64) = 62 \<longleftrightarrow> v = 62" by (simp add: word_unat_eq_iff unat_ucast_up)
    then show ?thesis
      by (simp add: conv_bin2ascii_def Let_def constant_time_masks_8 lt_args_8 select_8 flip: v_def)
  qed
  have "unat v < 64" using v by simp
  then show ?thesis
    unfolding c b64_char_def v [symmetric]
    by (auto simp: word_less_nat_alt word_unat_eq_iff unat_word_ariths unat_sub_if')
qed

lemma ascii_to_bin_eq:
  "base64_ascii_to_bin a =
    (if a = 0x3d then 0 else case b64_value (unat a) of None \<Rightarrow> 0xff | Some v \<Rightarrow> word_of_nat v)"
proof -
  have e: "(ucast a :: u64) = 43 \<longleftrightarrow> unat a = 43" "(ucast a :: u64) = 47 \<longleftrightarrow> unat a = 47"
    "(ucast a :: u64) = 61 \<longleftrightarrow> unat a = 61" "a = 61 \<longleftrightarrow> unat a = 61"
    by (simp_all add: word_unat_eq_iff unat_ucast_up)
  have m: "mask_8 True = - 1" "mask_8 False = 0" by (simp_all add: mask_defs all_ones_8)
  show ?thesis
    unfolding base64_ascii_to_bin_def Let_def constant_time_masks_8
    by (simp add: in_range_8 constant_time_masks_8 e m b64_value_def)
qed

subsection \<open>Quads\<close>

lemma sextets_value:
  fixes a b c d :: u32
  assumes "unat a < 64" "unat b < 64" "unat c < 64" "unat d < 64"
  shows "unat (push_bit 18 a OR push_bit 12 b OR push_bit 6 c OR d) =
    unat a * 262144 + unat b * 4096 + unat c * 64 + unat d"
proof -
  have 1: "unat (push_bit 6 c OR d) = unat c * 64 + unat d"
    using unat_or_push_bit [of d 6 c] assms by simp
  have 2: "unat (push_bit 12 b OR (push_bit 6 c OR d)) = unat b * 4096 + (unat c * 64 + unat d)"
    using unat_or_push_bit [of "push_bit 6 c OR d" 12 b] assms 1 by simp
  have 3: "unat (push_bit 18 a OR (push_bit 12 b OR (push_bit 6 c OR d))) = unat a * 262144 + (unat b * 4096 + (unat c * 64 + unat d))"
    using unat_or_push_bit [of "push_bit 12 b OR (push_bit 6 c OR d)" 18 a] assms 2 by simp
  have "push_bit 18 a OR push_bit 12 b OR push_bit 6 c OR d = push_bit 18 a OR (push_bit 12 b OR (push_bit 6 c OR d))"
    by (simp only: or.assoc)
  then show ?thesis using 3 by simp
qed

definition quad_value :: "u8 \<Rightarrow> u8 \<Rightarrow> u8 \<Rightarrow> u8 \<Rightarrow> u8 list option" where
  "quad_value i0 i1 i2 i3 =
     (case (b64_value (unat i0), b64_value (unat i1)) of
        (Some v0, Some v1) \<Rightarrow>
          if i2 = 0x3d then (if i3 = 0x3d then Some (be_bytes 1 ((v0 * 64 + v1) div 16)) else None)
          else (case b64_value (unat i2) of
                  None \<Rightarrow> None
                | Some v2 \<Rightarrow>
                    if i3 = 0x3d then Some (be_bytes 2 ((v0 * 4096 + v1 * 64 + v2) div 4))
                    else map_option (\<lambda>v3. be_bytes 3 (v0 * 262144 + v1 * 4096 + v2 * 64 + v3)) (b64_value (unat i3)))
      | _ \<Rightarrow> None)"

lemma b64_value_less: "b64_value c = Some v \<Longrightarrow> v < 64"
  using b64_char_value by blast

lemma word_of_sextet: "v < 64 \<Longrightarrow> unat (ucast (word_of_nat v :: u8) :: u32) = v" "v < 64 \<Longrightarrow> (word_of_nat v :: u8) \<noteq> 0xff"
  by (simp_all add: unat_ucast_up unat_word_of_nat_less word_unat_eq_iff)

lemma ucast_drop_nat: "ucast (drop_bit k (v :: u32)) = (word_of_nat (unat v div 2 ^ k) :: u8)" "ucast v = (word_of_nat (unat v) :: u8)"
  by (rule word_of_nat_drop_bit [symmetric]) (metis word_of_nat_drop_bit drop_bit_0 id_apply power_0 div_by_1)

lemma padding_patterns:
  "push_bit 3 (of_bool p0) OR push_bit 2 (of_bool p1) OR push_bit 1 (of_bool p2) OR of_bool p3 = (0 :: u32) \<longleftrightarrow>
    \<not> p0 \<and> \<not> p1 \<and> \<not> p2 \<and> \<not> p3"
  "push_bit 3 (of_bool p0) OR push_bit 2 (of_bool p1) OR push_bit 1 (of_bool p2) OR of_bool p3 = (1 :: u32) \<longleftrightarrow>
    \<not> p0 \<and> \<not> p1 \<and> \<not> p2 \<and> p3"
  "push_bit 3 (of_bool p0) OR push_bit 2 (of_bool p1) OR push_bit 1 (of_bool p2) OR of_bool p3 = (3 :: u32) \<longleftrightarrow>
    \<not> p0 \<and> \<not> p1 \<and> p2 \<and> p3"
  by (cases p0; cases p1; cases p2; cases p3; simp)+

lemma word_of_nat_div_u8: "word_of_nat (m div 4 div 256) = (word_of_nat (m div 1024) :: u8)"
  by (simp add: div_mult2_eq [symmetric])

lemma decode_quad_value: "base64_decode_quad i0 i1 i2 i3 = quad_value i0 i1 i2 i3"
proof -
  have pad: "b64_value (unat (0x3d :: u8)) = None" "b64_value 61 = None" by (simp_all add: b64_value_def)
  have bad: "base64_ascii_to_bin i = 0xff \<longleftrightarrow> i \<noteq> 0x3d \<and> b64_value (unat i) = None" for i
    using b64_value_less word_of_sextet(2) by (auto simp: ascii_to_bin_eq split: option.splits)
  have val: "unat (ucast (base64_ascii_to_bin i) :: u32) = (case b64_value (unat i) of None \<Rightarrow> 0 | Some v \<Rightarrow> v)"
    if "base64_ascii_to_bin i \<noteq> 0xff" for i
    using that pad b64_value_less word_of_sextet(1) unfolding bad
    by (auto simp: ascii_to_bin_eq split: option.splits)
  show ?thesis
  proof (cases "base64_ascii_to_bin i0 = 0xff \<or> base64_ascii_to_bin i1 = 0xff \<or> base64_ascii_to_bin i2 = 0xff \<or> base64_ascii_to_bin i3 = 0xff")
    case True
    then show ?thesis by (auto simp: base64_decode_quad_def quad_value_def bad Let_def split: option.splits)
  next
    case good: False
    define x where "x i = (case b64_value (unat i) of None \<Rightarrow> 0 | Some v \<Rightarrow> v)" for i :: u8
    have x: "unat (ucast (base64_ascii_to_bin i0) :: u32) = x i0" "unat (ucast (base64_ascii_to_bin i1) :: u32) = x i1"
      "unat (ucast (base64_ascii_to_bin i2) :: u32) = x i2" "unat (ucast (base64_ascii_to_bin i3) :: u32) = x i3"
      unfolding x_def using good by (auto intro!: val)
    have x64: "x i < 64" for i using b64_value_less by (auto simp: x_def split: option.splits)
    define v :: u32 where "v = push_bit 18 (ucast (base64_ascii_to_bin i0)) OR push_bit 12 (ucast (base64_ascii_to_bin i1)) OR
      push_bit 6 (ucast (base64_ascii_to_bin i2)) OR ucast (base64_ascii_to_bin i3)"
    have V: "unat v = x i0 * 262144 + x i1 * 4096 + x i2 * 64 + x i3"
      unfolding v_def using x x64 by (subst sextets_value) simp_all
    have w16: "ucast (drop_bit 16 v) = (word_of_nat (unat v div 65536) :: u8)"
      "ucast (drop_bit 8 v) = (word_of_nat (unat v div 256) :: u8)"
      unfolding ucast_drop_nat(1) by simp_all
    have q: "base64_decode_quad i0 i1 i2 i3 =
      (if i0 = 0x3d \<or> i1 = 0x3d then None
       else if i2 = 0x3d then (if i3 = 0x3d then Some [word_of_nat (unat v div 65536)] else None)
       else if i3 = 0x3d then Some [word_of_nat (unat v div 65536), word_of_nat (unat v div 256)]
       else Some (be_bytes 3 (unat v)))"
      unfolding base64_decode_quad_def Let_def v_def [symmetric] w16 ucast_drop_nat(2) [of v] be_bytes_3 padding_patterns if_not_P [OF good]
      by (cases "i0 = 0x3d"; cases "i1 = 0x3d"; cases "i2 = 0x3d"; cases "i3 = 0x3d")
        (simp_all only: simp_thms if_True if_False)
    have some: "\<exists>w. b64_value (unat i) = Some w \<and> x i = w" if "i \<noteq> 0x3d" "base64_ascii_to_bin i \<noteq> 0xff" for i
      using that unfolding bad x_def by auto
    have d16: "(k * 4096) div 65536 = k div 16" "(m * 64) div 256 = m div 4" "(m * 64) div 65536 = m div 4 div 256" for k m :: nat
      using div_mult_mult2 [of 4096 k 16] div_mult_mult2 [of 64 m 4] div_mult_mult2 [of 64 m 1024]
      by (simp_all add: div_mult2_eq [symmetric])
    have one: "unat v div 65536 = (x i0 * 64 + x i1) div 16" if "i2 = 0x3d" "i3 = 0x3d"
    proof -
      have "unat v = (x i0 * 64 + x i1) * 4096" using V that pad by (simp add: x_def)
      then show ?thesis by (simp only: d16)
    qed
    have two: "unat v div 65536 = (x i0 * 4096 + x i1 * 64 + x i2) div 4 div 256"
      "unat v div 256 = (x i0 * 4096 + x i1 * 64 + x i2) div 4" if "i3 = 0x3d"
    proof -
      have "unat v = (x i0 * 4096 + x i1 * 64 + x i2) * 64" using V that pad by (simp add: x_def)
      then show "unat v div 65536 = (x i0 * 4096 + x i1 * 64 + x i2) div 4 div 256"
        "unat v div 256 = (x i0 * 4096 + x i1 * 64 + x i2) div 4" by (simp_all only: d16)
    qed
    show ?thesis
    proof (cases "i0 = 0x3d \<or> i1 = 0x3d")
      case True
      then show ?thesis unfolding q quad_value_def by (auto simp: pad split: option.splits)
    next
      case np: False
      then obtain w0 w1 where w: "b64_value (unat i0) = Some w0" "x i0 = w0" "b64_value (unat i1) = Some w1" "x i1 = w1"
        using some good by metis
      show ?thesis
      proof (cases "i2 = 0x3d")
        case True
        then show ?thesis using np w one unfolding q quad_value_def by simp
      next
        case np2: False
        then obtain w2 where w2: "b64_value (unat i2) = Some w2" "x i2 = w2" using some good by metis
        show ?thesis
        proof (cases "i3 = 0x3d")
          case True
          then show ?thesis using np np2 w w2 two unfolding q quad_value_def by (simp add: be_bytes_2)
        next
          case False
          then obtain w3 where "b64_value (unat i3) = Some w3" "x i3 = w3" using some good by metis
          then show ?thesis using np np2 False w w2 V unfolding q quad_value_def by simp
        qed
      qed
    qed
  qed
qed

subsection \<open>Encoding and decoding are inverse\<close>

definition ch :: "nat \<Rightarrow> u8" where
  "ch v = word_of_nat (b64_char v)"

lemma ch_value: "v < 64 \<Longrightarrow> b64_value (unat (ch v)) = Some v" "v < 64 \<Longrightarrow> ch v \<noteq> 0x3d"
proof -
  assume v: "v < 64"
  have u: "unat (ch v) = b64_char v" unfolding ch_def using b64_char_not_pad [OF v] by (intro unat_word_of_nat_less) simp
  then show "b64_value (unat (ch v)) = Some v" using b64_value_char [OF v] by simp
  show "ch v \<noteq> 0x3d" using u b64_char_not_pad [OF v] by (auto simp: word_unat_eq_iff)
qed

lemma conv_digit:
  "conv_bin2ascii (ucast (drop_bit k (l :: u32))) = ch (unat l div 2 ^ k mod 64)"
  "conv_bin2ascii (ucast l) = ch (unat l mod 64)"
proof -
  have m: "m mod 256 mod 64 = m mod 64" for m :: nat by (rule mod_mod_cancel) simp
  have c: "conv_bin2ascii (ucast l) = ch (unat l mod 64)" for l :: u32
  proof -
    have "unat (conv_bin2ascii (ucast l)) = b64_char (unat l mod 64)"
      unfolding conv_bin2ascii_eq unat_ucast_mod using m by simp
    then show ?thesis unfolding ch_def by (metis word_of_nat_unat)
  qed
  show "conv_bin2ascii (ucast (drop_bit k l)) = ch (unat l div 2 ^ k mod 64)"
    unfolding c unat_drop_bit ..
  show "conv_bin2ascii (ucast l) = ch (unat l mod 64)" by (rule c)
qed

lemma group_value:
  "unat (push_bit 16 (ucast (a :: u8)) OR push_bit 8 (ucast (b :: u8)) OR ucast (c :: u8) :: u32) =
    unat a * 65536 + unat b * 256 + unat c"
  "unat (push_bit 16 (ucast (a :: u8)) OR push_bit 8 (ucast (b :: u8)) :: u32) = unat a * 65536 + unat b * 256"
  "unat (push_bit 16 (ucast (a :: u8)) :: u32) = unat a * 65536"
proof -
  have lt: "unat a < 256" "unat b < 256" "unat c < 256" by (rule unat_less_256)+
  have u: "unat (ucast x :: u32) = unat x" for x :: u8 by (simp add: unat_ucast_up)
  have 1: "unat (push_bit 8 (ucast b) OR ucast c :: u32) = unat b * 256 + unat c" for b c :: u8
    using unat_or_push_bit [of "ucast c :: u32" 8 "ucast b"] unat_less_256 [of b] unat_less_256 [of c] by (simp add: u)
  have 2: "unat (push_bit 16 (ucast a) OR (push_bit 8 (ucast b) OR ucast c) :: u32) = unat a * 65536 + (unat b * 256 + unat c)" for b c :: u8
    using unat_or_push_bit [of "push_bit 8 (ucast b) OR ucast c :: u32" 16 "ucast a"] 1 [of b c] unat_less_256 [of b] unat_less_256 [of c] lt
    by (simp add: u)
  show "unat (push_bit 16 (ucast a) OR push_bit 8 (ucast b) OR ucast c :: u32) = unat a * 65536 + unat b * 256 + unat c"
    using 2 [of b c] by (simp only: or.assoc)
  show "unat (push_bit 16 (ucast a) OR push_bit 8 (ucast b) :: u32) = unat a * 65536 + unat b * 256"
    using 2 [of b 0] by simp
  show "unat (push_bit 16 (ucast a) :: u32) = unat a * 65536" using 2 [of 0 0] by simp
qed

lemma conv_digits:
  "conv_bin2ascii (ucast (drop_bit 18 (l :: u32))) = ch (unat l div 262144 mod 64)"
  "conv_bin2ascii (ucast (drop_bit 12 l)) = ch (unat l div 4096 mod 64)"
  "conv_bin2ascii (ucast (drop_bit 6 l)) = ch (unat l div 64 mod 64)"
  unfolding conv_digit(1) by simp_all

lemma scaled_digits:
  fixes k m :: nat
  shows "k * 4096 div 262144 = k div 64" "k * 4096 div 4096 = k"
    "m * 64 div 262144 = m div 4096" "m * 64 div 4096 = m div 64" "m * 64 div 64 = m"
  using div_mult_mult2 [of 4096 k 64] div_mult_mult2 [of 64 m 4096] div_mult_mult2 [of 64 m 64] by simp_all

lemma encode_block_digits:
  "encode_block [a] = (let v = unat a * 16 in [ch (v div 64 mod 64), ch (v mod 64), 0x3d, 0x3d])"
  "encode_block [a, b] = (let v = unat a * 1024 + unat b * 4 in
     [ch (v div 4096 mod 64), ch (v div 64 mod 64), ch (v mod 64), 0x3d])"
  "encode_block (a # b # c # src) = (let v = unat a * 65536 + unat b * 256 + unat c in
     [ch (v div 262144 mod 64), ch (v div 4096 mod 64), ch (v div 64 mod 64), ch (v mod 64)] @ encode_block src)"
proof -
  have a: "unat a * 65536 = (unat a * 16) * 4096" by simp
  show "encode_block [a] = (let v = unat a * 16 in [ch (v div 64 mod 64), ch (v mod 64), 0x3d, 0x3d])"
    unfolding encode_block.simps Let_def conv_digits group_value a scaled_digits ..
  have b: "unat a * 65536 + unat b * 256 = (unat a * 1024 + unat b * 4) * 64" by simp
  show "encode_block [a, b] = (let v = unat a * 1024 + unat b * 4 in
     [ch (v div 4096 mod 64), ch (v div 64 mod 64), ch (v mod 64), 0x3d])"
    unfolding encode_block.simps Let_def conv_digits group_value b scaled_digits ..
  show "encode_block (a # b # c # src) = (let v = unat a * 65536 + unat b * 256 + unat c in
     [ch (v div 262144 mod 64), ch (v div 4096 mod 64), ch (v div 64 mod 64), ch (v mod 64)] @ encode_block src)"
    unfolding encode_block.simps Let_def conv_digits unfolding conv_digit(2) group_value ..
qed

lemma digits_join:
  fixes v :: nat
  shows "v < 4096 \<Longrightarrow> v div 64 mod 64 * 64 + v mod 64 = v"
    "v < 262144 \<Longrightarrow> v div 4096 mod 64 * 4096 + v div 64 mod 64 * 64 + v mod 64 = v"
    "v < 16777216 \<Longrightarrow> v div 262144 mod 64 * 262144 + v div 4096 mod 64 * 4096 + v div 64 mod 64 * 64 + v mod 64 = v"
proof -
  define q1 where "q1 = v div 64"
  define q2 where "q2 = q1 div 64"
  define q3 where "q3 = q2 div 64"
  have q: "v div 4096 = q2" "v div 262144 = q3"
    unfolding q1_def q2_def q3_def by (simp_all add: div_mult2_eq [symmetric])
  have e: "v = q1 * 64 + v mod 64" "q1 = q2 * 64 + q1 mod 64" "q2 = q3 * 64 + q2 mod 64"
    by (simp_all add: q1_def q2_def q3_def)
  show "v < 4096 \<Longrightarrow> v div 64 mod 64 * 64 + v mod 64 = v"
    using e unfolding q1_def [symmetric] by simp
  show "v < 262144 \<Longrightarrow> v div 4096 mod 64 * 4096 + v div 64 mod 64 * 64 + v mod 64 = v"
    using e unfolding q q1_def [symmetric] by simp
  show "v < 16777216 \<Longrightarrow> v div 262144 mod 64 * 262144 + v div 4096 mod 64 * 4096 + v div 64 mod 64 * 64 + v mod 64 = v"
    using e unfolding q q1_def [symmetric] by simp
qed

lemma be_val_3: "be_val [a] = unat a" "be_val [a, b] = unat a * 256 + unat b"
  "be_val [a, b, c] = unat a * 65536 + unat b * 256 + unat c"
  by (simp_all add: be_val_def)

lemma decode_encode: "decode_quads (encode_block xs) = Some xs"
proof (induction xs rule: encode_block.induct)
  case (2 a)
  define v where "v = unat a * 16"
  have v: "v < 4096" using unat_less_256 [of a] by (simp add: v_def)
  have "be_bytes 1 ((v div 64 mod 64 * 64 + v mod 64) div 16) = [a]"
    unfolding digits_join(1) [OF v] using be_bytes_val [of "[a]" 1] by (simp add: v_def be_val_3)
  then show ?case
    unfolding encode_block_digits Let_def v_def [symmetric]
    by (simp add: decode_quad_value quad_value_def ch_value)
next
  case (3 a b)
  define v where "v = unat a * 1024 + unat b * 4"
  have v: "v < 262144" using unat_less_256 [of a] unat_less_256 [of b] by (simp add: v_def)
  have "v div 4 = unat a * 256 + unat b" unfolding v_def by simp
  then have "be_bytes 2 ((v div 4096 mod 64 * 4096 + v div 64 mod 64 * 64 + v mod 64) div 4) = [a, b]"
    unfolding digits_join(2) [OF v] using be_bytes_val [of "[a, b]" 2] by (simp add: be_val_3)
  then show ?case
    unfolding encode_block_digits Let_def v_def [symmetric]
    by (simp add: decode_quad_value quad_value_def ch_value)
next
  case (4 a b c src)
  define v where "v = unat a * 65536 + unat b * 256 + unat c"
  have v: "v < 16777216" using unat_less_256 [of a] unat_less_256 [of b] unat_less_256 [of c] by (simp add: v_def)
  have "be_bytes 3 (v div 262144 mod 64 * 262144 + v div 4096 mod 64 * 4096 + v div 64 mod 64 * 64 + v mod 64) = [a, b, c]"
    unfolding digits_join(3) [OF v] using be_bytes_val [of "[a, b, c]" 3] by (simp add: be_val_3 v_def)
  then show ?case
    using 4 unfolding encode_block_digits Let_def v_def [symmetric]
    by (simp add: decode_quad_value quad_value_def ch_value)
qed simp

lemma length_encode_block: "length (encode_block xs) = (length xs + 2) div 3 * 4"
proof (induction xs rule: encode_block.induct)
  case (4 a b c src)
  have "(Suc (Suc (Suc n)) + 2) div 3 = Suc ((n + 2) div 3)" for n :: nat by presburger
  then show ?case using 4 by (simp add: Let_def)
qed (simp_all add: Let_def)

subsection \<open>Streaming encoder\<close>

text \<open>The reference: lines of 48 bytes, the last one shorter.\<close>

function pem_lines :: "u8 list \<Rightarrow> u8 list" where
  "pem_lines xs = (if xs = [] then [] else encode_block (take 48 xs) @ [0x0a] @ pem_lines (drop 48 xs))"
  by pat_completeness auto
termination
  by (relation "measure length") auto

declare pem_lines.simps [simp del]

fun encode_updates :: "EVP_ENCODE_CTX \<Rightarrow> u8 list list \<Rightarrow> u8 list \<times> EVP_ENCODE_CTX" where
  "encode_updates ctx [] = ([], ctx)"
| "encode_updates ctx (src # srcs) =
     (case EVP_EncodeUpdate ctx src of
        (out, out_len, ctx) \<Rightarrow> (case encode_updates ctx srcs of (outs, ctx) \<Rightarrow> (take out_len out @ outs, ctx)))"

text \<open>The full lines at the start of the input, and what is left after them.\<close>

function full_lines :: "u8 list \<Rightarrow> u8 list" where
  "full_lines xs = (if 48 \<le> length xs then encode_line (take 48 xs) @ full_lines (drop 48 xs) else [])"
  by pat_completeness auto
termination
  by (relation "measure length") auto

declare full_lines.simps [simp del]

definition last_part :: "u8 list \<Rightarrow> u8 list" where
  "last_part xs = drop (48 * (length xs div 48)) xs"

lemma encode_line_eq: "encode_line xs = encode_block xs @ [0x0a]"
  by (simp add: encode_line_def EVP_EncodeBlock_def)

lemma last_part_simps:
  "length xs < 48 \<Longrightarrow> last_part xs = xs" "48 \<le> length xs \<Longrightarrow> last_part xs = last_part (drop 48 xs)"
proof -
  assume l: "48 \<le> length xs"
  then have "length xs div 48 = Suc ((length xs - 48) div 48)" by (simp add: le_div_geq)
  then show "last_part xs = last_part (drop 48 xs)" using l by (simp add: last_part_def add.commute)
qed (simp add: last_part_def)

lemma full_lines_short: "length xs < 48 \<Longrightarrow> full_lines xs = []"
  by (simp add: full_lines.simps)

lemma full_lines_long: "48 \<le> length xs \<Longrightarrow> full_lines xs = encode_line (take 48 xs) @ full_lines (drop 48 xs)"
  by (simp add: full_lines.simps [of xs])

lemma length_last_part: "length (last_part xs) < 48"
proof (induction "length xs" arbitrary: xs rule: less_induct)
  case less
  then show ?case by (cases "48 \<le> length xs") (simp_all add: last_part_simps)
qed

lemma full_lines_append:
  "full_lines (xs @ ys) = full_lines xs @ full_lines (last_part xs @ ys) \<and>
   last_part (xs @ ys) = last_part (last_part xs @ ys)"
proof (induction "length xs" arbitrary: xs rule: less_induct)
  case less
  show ?case
  proof (cases "48 \<le> length xs")
    case True
    then show ?thesis
      using less [of "drop 48 xs"] full_lines_long [of xs] full_lines_long [of "xs @ ys"]
        last_part_simps(2) [of xs] last_part_simps(2) [of "xs @ ys"] by simp
  qed (simp add: last_part_simps full_lines_short)
qed

lemma pem_lines_eq:
  "pem_lines xs = full_lines xs @ (if last_part xs = [] then [] else encode_line (last_part xs))"
proof (induction "length xs" arbitrary: xs rule: less_induct)
  case less
  show ?case
  proof (cases "48 \<le> length xs")
    case True
    then have "xs \<noteq> []" by auto
    then show ?thesis
      using less [of "drop 48 xs"] True pem_lines.simps [of xs] full_lines_long [OF True] last_part_simps(2) [OF True]
      by (simp add: encode_line_eq)
  next
    case False
    then show ?thesis
      by (cases "xs = []") (simp_all add: pem_lines.simps [of xs] pem_lines.simps [of "[]"] last_part_simps full_lines_short encode_line_eq)
  qed
qed

lemma length_full_line: "length xs = 48 \<Longrightarrow> length (encode_line xs) = 65"
  by (simp add: encode_line_eq length_encode_block)

lemma encode_lines_eq:
  "tot + 65 * (length xs div 48) < size_mod \<Longrightarrow>
   encode_lines xs tot = (True, last_part xs, full_lines xs, tot + 65 * (length xs div 48))"
proof (induction "length xs" arbitrary: xs tot rule: less_induct)
  case less
  show ?case
  proof (cases "48 \<le> length xs")
    case True
    then have d: "length xs div 48 = Suc (length (drop 48 xs) div 48)" by (simp add: le_div_geq)
    have l: "length (encode_line (take 48 xs)) = 65" using True by (simp add: length_full_line)
    have b: "tot + 65 + 65 * (length (drop 48 xs) div 48) < size_mod" using less.prems d by simp
    then have m: "(tot + 65) mod size_mod = tot + 65" by simp
    have "encode_lines (drop 48 xs) (tot + 65) =
        (True, last_part (drop 48 xs), full_lines (drop 48 xs), tot + 65 + 65 * (length (drop 48 xs) div 48))"
      by (rule less.hyps) (use True b in simp_all)
    then show ?thesis
      using True d l m
      by (subst encode_lines.simps)
        (simp add: sizeof_data_def Let_def full_lines_long last_part_simps(2) del: length_drop)
  next
    case False
    then show ?thesis
      by (subst encode_lines.simps) (simp add: sizeof_data_def last_part_simps full_lines_short)
  qed
qed

definition enc_ok :: "EVP_ENCODE_CTX \<Rightarrow> bool" where
  "enc_ok ctx \<longleftrightarrow> length (enc_data ctx) = 48 \<and> data_used ctx < 48"

definition pending :: "EVP_ENCODE_CTX \<Rightarrow> u8 list" where
  "pending ctx = take (data_used ctx) (enc_data ctx)"

lemma store_end: "k + length xs \<le> length buf \<Longrightarrow> take (k + length xs) (store buf k xs) = take k buf @ xs"
  "k + length xs \<le> length buf \<Longrightarrow> length (store buf k xs) = length buf"
  by (simp_all add: store_def)

lemma length_full_lines: "length (full_lines xs) = 65 * (length xs div 48)"
proof (induction "length xs" arbitrary: xs rule: less_induct)
  case less
  show ?case
  proof (cases "48 \<le> length xs")
    case True
    then show ?thesis using less [of "drop 48 xs"] by (simp add: full_lines_long length_full_line le_div_geq)
  qed (simp add: full_lines_short)
qed

lemma kept_part:
  fixes ctx :: EVP_ENCODE_CTX and xs :: "u8 list"
  assumes "length d = 48"
  defines "ctx' \<equiv> ctx\<lparr>enc_data := (if last_part xs \<noteq> [] then store d 0 (last_part xs) else d), data_used := length (last_part xs)\<rparr>"
  shows "enc_ok ctx' \<and> pending ctx' = last_part xs"
  using length_last_part [of xs] store_end [of 0 "last_part xs" d] assms(1)
  by (auto simp: ctx'_def enc_ok_def pending_def)

lemma encode_update_spec:
  assumes ok: "enc_ok ctx" and small: "65 * (length (pending ctx @ src) div 48) \<le> INT_MAX"
    and r: "EVP_EncodeUpdate ctx src = (out, n, ctx')"
  shows "enc_ok ctx' \<and> pending ctx' = last_part (pending ctx @ src) \<and> take n out = full_lines (pending ctx @ src)"
proof -
  let ?u = "data_used ctx" and ?d = "enc_data ctx"
  have ok': "length ?d = 48" "?u < 48" using ok by (simp_all add: enc_ok_def)
  have lp: "length (pending ctx) = ?u" using ok' by (simp add: pending_def)
  consider (empty) "src = []" | (keep) "src \<noteq> []" "length src < 48 - ?u" | (fresh) "48 - ?u \<le> length src" "?u = 0"
    | (fill) "48 - ?u \<le> length src" "0 < ?u" using ok' by (cases src) fastforce+
  then show ?thesis
  proof cases
    case empty
    then show ?thesis using r ok lp ok'(2)
      by (simp add: EVP_EncodeUpdate_def last_part_simps full_lines_short split: if_splits)
  next
    case keep
    then have l: "?u + length src \<le> length ?d" "length (pending ctx @ src) < 48" using lp ok' by simp_all
    have "ctx' = ctx\<lparr>enc_data := store ?d ?u src, data_used := ?u + length src\<rparr>" "n = 0"
      using r keep by (auto simp: EVP_EncodeUpdate_def sizeof_data_def split: if_splits)
    then show ?thesis using l store_end [OF l(1)] ok' lp
      by (simp add: enc_ok_def pending_def last_part_simps full_lines_short)
  next
    case fresh
    then have ne: "src \<noteq> []" using ok' by auto
    have p: "pending ctx = []" using fresh by (simp add: pending_def)
    have tot: "0 + 65 * (length src div 48) < size_mod" using small p by (simp add: INT_MAX_def)
    note e = encode_lines_eq [OF tot]
    let ?ctx = "ctx\<lparr>enc_data := (if last_part src \<noteq> [] then store ?d 0 (last_part src) else ?d), data_used := length (last_part src)\<rparr>"
    have "n = 65 * (length src div 48)" "out = full_lines src @ [0]" "ctx' = ?ctx"
      using r ne fresh e small p
      by (auto simp: EVP_EncodeUpdate_def sizeof_data_def Let_def split: if_splits)
    then show ?thesis using p length_full_lines [of src] kept_part [OF ok'(1), where ctx = ctx and xs = src] by simp
  next
    case fill
    define todo where "todo = 48 - ?u"
    define rest where "rest = drop todo src"
    define d where "d = store ?d ?u (take todo src)"
    have t: "todo \<le> length src" "?u + todo = 48" "src \<noteq> []" using fill ok' by (auto simp: todo_def)
    have d: "length d = 48" "d = pending ctx @ take todo src"
      using store_end [of ?u "take todo src" ?d] t ok' by (simp_all add: d_def pending_def)
    have split: "take 48 (pending ctx @ src) = d" "drop 48 (pending ctx @ src) = rest" "48 \<le> length (pending ctx @ src)"
      using lp t d by (simp_all add: rest_def todo_def)
    have "length (pending ctx @ src) div 48 = Suc (length rest div 48)"
      using split(3) unfolding split(2) [symmetric] length_drop by (rule le_div_geq [OF zero_less_numeral])
    then have small': "65 + 65 * (length rest div 48) \<le> INT_MAX" using small by simp
    then have tot: "65 + 65 * (length rest div 48) < size_mod" by (simp add: INT_MAX_def)
    note e = encode_lines_eq [OF tot]
    let ?ctx = "ctx\<lparr>enc_data := (if last_part rest \<noteq> [] then store d 0 (last_part rest) else d), data_used := length (last_part rest)\<rparr>"
    have "n = 65 + 65 * (length rest div 48)" "out = encode_line d @ full_lines rest @ [0]" "ctx' = ?ctx"
      using r t fill e small' length_full_line [OF d(1)]
      by (auto simp: EVP_EncodeUpdate_def sizeof_data_def Let_def simp flip: todo_def d_def rest_def split: if_splits)
    then show ?thesis
      using kept_part [OF d(1), where ctx = ctx and xs = rest] length_full_lines [of rest] length_full_line [OF d(1)]
        full_lines_long [OF split(3)] last_part_simps(2) [OF split(3)] split(1,2) by simp
  qed
qed

lemma div_48_mono: "length xs \<le> length ys \<Longrightarrow> 65 * (length ys div 48) \<le> k \<Longrightarrow> 65 * (length xs div 48) \<le> k"
  using div_le_mono [of "length xs" "length ys" 48] by linarith

lemma encode_updates_spec:
  "enc_ok ctx \<Longrightarrow> 65 * (length (pending ctx @ concat srcs) div 48) \<le> INT_MAX \<Longrightarrow>
   encode_updates ctx srcs = (out, ctx') \<Longrightarrow>
   enc_ok ctx' \<and> pending ctx' = last_part (pending ctx @ concat srcs) \<and> out = full_lines (pending ctx @ concat srcs)"
proof (induction srcs arbitrary: ctx out)
  case Nil
  have "length (pending ctx) < 48" using Nil(1) by (simp add: enc_ok_def pending_def)
  then show ?case using Nil by (simp add: last_part_simps full_lines_short)
next
  case (Cons src srcs)
  obtain o1 n c1 where u: "EVP_EncodeUpdate ctx src = (o1, n, c1)" by (cases "EVP_EncodeUpdate ctx src")
  obtain o2 where v: "encode_updates c1 srcs = (o2, ctx')" using Cons.prems(3) u by (auto split: prod.splits)
  have "65 * (length (pending ctx @ src) div 48) \<le> INT_MAX"
    by (rule div_48_mono [OF _ Cons.prems(2)]) simp
  note s1 = encode_update_spec [OF Cons.prems(1) this u]
  have "length (last_part (pending ctx @ src)) \<le> length (pending ctx @ src)" by (simp add: last_part_def)
  then have "length (pending c1 @ concat srcs) \<le> length (pending ctx @ concat (src # srcs))"
    using s1 by simp
  then have "65 * (length (pending c1 @ concat srcs) div 48) \<le> INT_MAX" by (rule div_48_mono [OF _ Cons.prems(2)])
  from Cons.IH [OF _ this v] s1 full_lines_append [of "pending ctx @ src" "concat srcs"] u v Cons.prems(3)
  show ?case by simp
qed

lemma encode_stream:
  assumes "65 * (length (concat srcs) div 48) \<le> INT_MAX" "encode_updates EVP_EncodeInit srcs = (out, ctx)"
    "EVP_EncodeFinal ctx = (last_line, n, ctx')"
  shows "out @ take n last_line = pem_lines (concat srcs)"
proof -
  have i: "enc_ok EVP_EncodeInit" "pending EVP_EncodeInit = []"
    by (simp_all add: enc_ok_def pending_def EVP_EncodeInit_def sizeof_data_def)
  have s: "enc_ok ctx" "pending ctx = last_part (concat srcs)" "out = full_lines (concat srcs)"
    using encode_updates_spec [OF i(1) _ assms(2)] assms(1) i(2) by simp_all
  have "data_used ctx = 0 \<longleftrightarrow> pending ctx = []" using s(1) by (auto simp: enc_ok_def pending_def)
  then have "take n last_line = (if last_part (concat srcs) = [] then [] else encode_line (last_part (concat srcs)))"
    using assms(3) s(2) by (auto simp: EVP_EncodeFinal_def Let_def simp flip: pending_def split: if_splits)
  then show ?thesis using s(3) pem_lines_eq by simp
qed

subsection \<open>Streaming decoder\<close>

definition dec_ok :: "EVP_ENCODE_CTX \<Rightarrow> bool" where
  "dec_ok ctx \<longleftrightarrow> length (enc_data ctx) = 48 \<and> data_used ctx < 4 \<and> (eof_seen ctx \<longrightarrow> data_used ctx = 0)"

definition not_space :: "u8 list \<Rightarrow> u8 list" where
  "not_space = filter (\<lambda>c. \<not> is_space c)"

lemma length_quad: "base64_decode_quad a b c d = Some bs \<Longrightarrow> 1 \<le> length bs \<and> length bs \<le> 3"
  by (auto simp: base64_decode_quad_def Let_def split: if_splits)

lemma take_4: "length ys = 4 \<Longrightarrow> ys = [ys ! 0, ys ! 1, ys ! 2, ys ! 3]"
  by (auto simp: length_Suc_conv numeral_eq_Suc)

lemma decode_step:
  assumes "\<not> is_space c" "\<not> eof_seen ctx"
  defines "d \<equiv> (enc_data ctx)[data_used ctx := c]"
  shows "data_used ctx + 1 \<noteq> 4 \<Longrightarrow>
      decode_update_loop ctx (c # src) = decode_update_loop (ctx\<lparr>enc_data := d, data_used := data_used ctx + 1\<rparr>) src"
    "data_used ctx + 1 = 4 \<Longrightarrow> decode_update_loop ctx (c # src) =
      (case base64_decode_quad (d ! 0) (d ! 1) (d ! 2) (d ! 3) of
         None \<Rightarrow> (False, [], ctx\<lparr>enc_data := d, data_used := data_used ctx + 1, error_encountered := True\<rparr>)
       | Some bs \<Rightarrow>
           (case decode_update_loop (ctx\<lparr>enc_data := d, data_used := 0,
                eof_seen := (if length bs < 3 then True else eof_seen ctx)\<rparr>) src of
              (ok, out, ctx) \<Rightarrow> (ok, bs @ out, ctx)))"
  unfolding d_def using assms(1,2) by (simp_all add: Let_def split: option.split)

lemma decode_keeps_error:
  "decode_update_loop ctx src = (True, out, ctx') \<Longrightarrow> error_encountered ctx' = error_encountered ctx"
proof (induction src arbitrary: ctx out)
  case (Cons c src)
  show ?case
  proof (cases "is_space c \<or> eof_seen ctx")
    case True
    then show ?thesis using Cons.prems Cons.IH [of ctx out] by (auto split: if_splits)
  next
    case False
    show ?thesis
    proof (cases "data_used ctx + 1 = 4")
      case True
      define d where "d = (enc_data ctx)[data_used ctx := c]"
      have st: "decode_update_loop ctx (c # src) =
        (case base64_decode_quad (d ! 0) (d ! 1) (d ! 2) (d ! 3) of
         None \<Rightarrow> (False, [], ctx\<lparr>enc_data := d, data_used := data_used ctx + 1, error_encountered := True\<rparr>)
       | Some bs \<Rightarrow>
           (case decode_update_loop (ctx\<lparr>enc_data := d, data_used := 0,
                eof_seen := (if length bs < 3 then True else eof_seen ctx)\<rparr>) src of
              (ok, out, ctx) \<Rightarrow> (ok, bs @ out, ctx)))"
        unfolding d_def using False True by (intro decode_step(2)) simp_all
      obtain bs where bs: "base64_decode_quad (d ! 0) (d ! 1) (d ! 2) (d ! 3) = Some bs"
        using Cons.prems unfolding st by (auto split: option.splits)
      obtain o2 where
        "decode_update_loop (ctx\<lparr>enc_data := d, data_used := 0,
                eof_seen := (if length bs < 3 then True else eof_seen ctx)\<rparr>) src = (True, o2, ctx')"
        using Cons.prems unfolding st bs by (auto split: prod.splits)
      from Cons.IH [OF this] show ?thesis by simp
    next
      case more: False
      then show ?thesis using Cons.prems False Cons.IH decode_step(1) [of c ctx src] by fastforce
    qed
  qed
qed simp

lemma decode_update_complete:
  "dec_ok ctx \<Longrightarrow>
   (\<exists>ctx'. decode_update_loop ctx src = (True, out, ctx') \<and> data_used ctx' = 0) \<longleftrightarrow>
   (if eof_seen ctx then not_space src = [] \<and> out = [] else decode_quads (pending ctx @ not_space src) = Some out)"
proof (induction src arbitrary: ctx out)
  case Nil
  then have "length (pending ctx) = data_used ctx" "data_used ctx < 4" by (auto simp: dec_ok_def pending_def)
  then show ?case using Nil
    by (cases "pending ctx" rule: decode_quads.cases) (auto simp: not_space_def dec_ok_def)
next
  case (Cons c src)
  note ok = Cons.prems
  show ?case
  proof (cases "is_space c \<or> eof_seen ctx")
    case True
    then show ?thesis using Cons.IH [OF ok] by (auto simp: not_space_def)
  next
    case False
    let ?c1 = "ctx\<lparr>enc_data := (enc_data ctx)[data_used ctx := c], data_used := data_used ctx + 1\<rparr>"
    have u: "data_used ctx < 48" "length (enc_data ctx) = 48" "\<not> eof_seen ctx" using ok False by (auto simp: dec_ok_def)
    have p: "take (data_used ctx + 1) ((enc_data ctx)[data_used ctx := c]) = pending ctx @ [c]"
      using u by (simp add: pending_def take_Suc_conv_app_nth)
    have ns: "not_space (c # src) = c # not_space src" using False by (simp add: not_space_def)
    show ?thesis
    proof (cases "data_used ctx + 1 = 4")
      case True
      define d where "d = (enc_data ctx)[data_used ctx := c]"
      have l: "length (pending ctx @ [c]) = 4" using True u by (simp add: pending_def)
      have nth: "(pending ctx @ [c]) ! i = d ! i" if "i < 4" for i
        using p [symmetric] True that by (simp add: d_def)
      have q: "pending ctx @ c # not_space src = d ! 0 # d ! 1 # d ! 2 # d ! 3 # not_space src"
        using take_4 [OF l] nth by (metis append.assoc append_Cons append_Nil one_less_numeral_iff
          semiring_norm(76,77,78,79,80,81) zero_less_numeral numeral_less_iff)
      have step: "decode_update_loop ctx (c # src) =
        (case base64_decode_quad (d ! 0) (d ! 1) (d ! 2) (d ! 3) of
         None \<Rightarrow> (False, [], ctx\<lparr>enc_data := d, data_used := data_used ctx + 1, error_encountered := True\<rparr>)
       | Some bs \<Rightarrow>
           (case decode_update_loop (ctx\<lparr>enc_data := d, data_used := 0,
                eof_seen := (if length bs < 3 then True else eof_seen ctx)\<rparr>) src of
              (ok, out, ctx) \<Rightarrow> (ok, bs @ out, ctx)))"
        unfolding d_def using False True by (intro decode_step(2)) simp_all
      show ?thesis
      proof (cases "base64_decode_quad (d ! 0) (d ! 1) (d ! 2) (d ! 3)")
        case None
        then show ?thesis unfolding step ns q using u(3) by simp
      next
        case (Some bs)
        let ?c2 = "ctx\<lparr>enc_data := d, data_used := 0, eof_seen := (if length bs < 3 then True else eof_seen ctx)\<rparr>"
        have l3: "length bs \<le> 3" using length_quad [OF Some] by simp
        have ok2: "dec_ok ?c2" "pending ?c2 = []" using u by (simp_all add: dec_ok_def pending_def d_def)
        note IH = Cons.IH [OF ok2(1)]
        have "(\<exists>ctx'. decode_update_loop ctx (c # src) = (True, out, ctx') \<and> data_used ctx' = 0) \<longleftrightarrow>
            (\<exists>o2. out = bs @ o2 \<and> (\<exists>ctx'. decode_update_loop ?c2 src = (True, o2, ctx') \<and> data_used ctx' = 0))"
          unfolding step using Some u(3) by (auto split: prod.splits)
        also have "\<dots> \<longleftrightarrow> decode_quads (pending ctx @ not_space (c # src)) = Some out"
          unfolding IH ns q using Some l3 u(3) ok2(2) by (cases "length bs = 3") auto
        finally show ?thesis using u(3) by simp
      qed
    next
      case more: False
      have ok1: "dec_ok ?c1" using u more ok by (simp add: dec_ok_def)
      have "pending ?c1 = pending ctx @ [c]" using p by (simp add: pending_def)
      then show ?thesis using Cons.IH [OF ok1] False more u(3) ns by (simp add: Let_def)
    qed
  qed
qed

lemma decode_quads_length: "decode_quads xs = Some out \<Longrightarrow> length out \<le> length xs div 4 * 3"
proof (induction xs arbitrary: out rule: decode_quads.induct)
  case (2 a b c d src)
  then obtain bs o2 where q: "base64_decode_quad a b c d = Some bs" "decode_quads src = Some o2" "out = bs @ o2"
    "length bs \<noteq> 3 \<longrightarrow> src = []"
    by (auto split: option.splits if_splits)
  have "(4 + n) div 4 = Suc (n div 4)" for n :: nat by simp
  then show ?case using 2(1) [OF q(1) _ q(2)] length_quad [OF q(1)] q by auto
qed simp_all

text \<open>The input may be cut anywhere: the context carries the characters of an unfinished quad.\<close>

lemma decode_update_loop_append:
  "decode_update_loop ctx (xs @ ys) =
    (case decode_update_loop ctx xs of
       (False, out, ctx) \<Rightarrow> (False, out, ctx)
     | (True, out, ctx) \<Rightarrow> (case decode_update_loop ctx ys of (ok, out', ctx) \<Rightarrow> (ok, out @ out', ctx)))"
proof (induction xs arbitrary: ctx)
  case (Cons c xs)
  show ?case
  proof (cases "is_space c \<or> eof_seen ctx")
    case True
    with Cons show ?thesis by auto
  next
    case False
    then have c: "\<not> is_space c" "\<not> eof_seen ctx" by simp_all
    show ?thesis
    proof (cases "data_used ctx + 1 = 4")
      case True
      note step = decode_step(2) [OF c True]
      show ?thesis unfolding append_Cons step Cons by (auto split: prod.splits bool.splits option.splits)
    next
      case more: False
      show ?thesis unfolding append_Cons decode_step(1) [OF c more] Cons ..
    qed
  qed
qed simp

lemma decode_loop_cases:
  assumes "decode_update_loop ctx (c # src) = (True, out, ctx')"
  obtains "decode_update_loop ctx src = (True, out, ctx')"
  | ctx1 where "data_used ctx + 1 \<noteq> 4" "data_used ctx1 = data_used ctx + 1" "decode_update_loop ctx1 src = (True, out, ctx')"
  | ctx2 bs o2 where "data_used ctx + 1 = 4" "data_used ctx2 = 0" "length bs \<le> 3" "out = bs @ o2"
      "decode_update_loop ctx2 src = (True, o2, ctx')"
proof (cases "is_space c \<or> eof_seen ctx")
  case True
  then show thesis using assms that(1) by (auto split: if_splits)
next
  case False
  then have c: "\<not> is_space c" "\<not> eof_seen ctx" by simp_all
  show thesis
  proof (cases "data_used ctx + 1 = 4")
    case True
    define d where "d = (enc_data ctx)[data_used ctx := c]"
    note step = decode_step(2) [OF c True, of src, folded d_def]
    obtain bs where bs: "base64_decode_quad (d ! 0) (d ! 1) (d ! 2) (d ! 3) = Some bs"
      using assms unfolding step by (auto split: option.splits)
    obtain o2 where o2: "decode_update_loop (ctx\<lparr>enc_data := d, data_used := 0,
        eof_seen := (if length bs < 3 then True else eof_seen ctx)\<rparr>) src = (True, o2, ctx')" and out: "out = bs @ o2"
      using assms unfolding step bs by (auto split: prod.splits)
    from that(3) [OF True _ _ out o2] length_quad [OF bs] show thesis by simp
  next
    case more: False
    show thesis by (rule that(2) [OF more _ assms [unfolded decode_step(1) [OF c more]]]) simp
  qed
qed

lemma decode_update_loop_bounds:
  "decode_update_loop ctx src = (True, out, ctx') \<Longrightarrow>
    4 * length out + 3 * data_used ctx' \<le> 3 * (data_used ctx + length src) \<and> (data_used ctx < 4 \<longrightarrow> data_used ctx' < 4)"
proof (induction src arbitrary: ctx out)
  case (Cons c src)
  from Cons.prems show ?case
  proof (cases rule: decode_loop_cases)
    case 1
    from Cons.IH [OF 1] show ?thesis by simp
  next
    case (2 ctx1)
    from Cons.IH [OF 2(3)] 2(1,2) show ?thesis by simp
  next
    case (3 ctx2 bs o2)
    from Cons.IH [OF 3(5)] 3(1-4) show ?thesis by simp
  qed
qed simp

text \<open>The calls of a client that stops at the first error: whether there was none, the bytes that it
  has been told of, and the context.\<close>

fun decode_updates :: "EVP_ENCODE_CTX \<Rightarrow> u8 list list \<Rightarrow> bool \<times> u8 list \<times> EVP_ENCODE_CTX" where
  "decode_updates ctx [] = (True, [], ctx)"
| "decode_updates ctx (src # srcs) =
     (case EVP_DecodeUpdate ctx src of
        (r, out, out_len, ctx) \<Rightarrow>
          if r = -1 then (False, [], ctx)
          else (case decode_updates ctx srcs of (ok, outs, ctx) \<Rightarrow> (ok, take out_len out @ outs, ctx)))"

lemma decode_updates_loop:
  "\<forall>src\<in>set srcs. length src \<le> INT_MAX \<Longrightarrow> \<not> error_encountered ctx \<Longrightarrow> data_used ctx < 4 \<Longrightarrow>
    decode_updates ctx srcs = (True, out, ctx') \<longleftrightarrow> decode_update_loop ctx (concat srcs) = (True, out, ctx')"
proof (induction srcs arbitrary: ctx out)
  case (Cons src srcs)
  obtain ok o1 c1 where l: "decode_update_loop ctx src = (ok, o1, c1)" by (metis prod_cases3)
  show ?case
  proof (cases ok)
    case True
    with l have l1: "decode_update_loop ctx src = (True, o1, c1)" by simp
    have "\<not> error_encountered c1" "data_used c1 < 4"
      using decode_keeps_error [OF l1] decode_update_loop_bounds [OF l1] Cons.prems by simp_all
    note IH = Cons.IH [OF _ this]
    have "length src \<le> INT_MAX" using Cons.prems(1) by simp
    then have "length o1 \<le> INT_MAX" using decode_update_loop_bounds [OF l1] Cons.prems(3) by (simp add: INT_MAX_def)
    then have "EVP_DecodeUpdate ctx src = (if eof_seen c1 then 0 else 1, o1, length o1, c1)"
      using l1 Cons.prems(2) by (simp add: EVP_DecodeUpdate_def)
    then have "decode_updates ctx (src # srcs) = (True, out, ctx') \<longleftrightarrow>
        (\<exists>o2. decode_updates c1 srcs = (True, o2, ctx') \<and> out = o1 @ o2)" by (auto split: prod.splits)
    also have "\<dots> \<longleftrightarrow> (\<exists>o2. decode_update_loop c1 (concat srcs) = (True, o2, ctx') \<and> out = o1 @ o2)"
      using IH Cons.prems(1) by simp
    also have "\<dots> \<longleftrightarrow> decode_update_loop ctx (concat (src # srcs)) = (True, out, ctx')"
      by (auto simp: decode_update_loop_append l1 split: prod.splits)
    finally show ?thesis .
  next
    case False
    then have "fst (EVP_DecodeUpdate ctx src) = -1" using l Cons.prems(2) by (simp add: EVP_DecodeUpdate_def)
    with False l show ?thesis by (auto simp: decode_update_loop_append split: prod.splits)
  qed
qed simp

lemma decode_updates_final:
  assumes "\<forall>src\<in>set srcs. length src \<le> INT_MAX"
  shows "(\<exists>ctx. decode_updates EVP_DecodeInit srcs = (True, out, ctx) \<and> EVP_DecodeFinal ctx = 1) \<longleftrightarrow>
    decode_quads (not_space (concat srcs)) = Some out"
proof -
  let ?i = "EVP_DecodeInit"
  have i: "dec_ok ?i" "pending ?i = []" "\<not> eof_seen ?i" "\<not> error_encountered ?i" "data_used ?i < 4"
    by (simp_all add: dec_ok_def pending_def EVP_DecodeInit_def EVP_EncodeInit_def sizeof_data_def)
  have "(\<exists>ctx. decode_updates ?i srcs = (True, out, ctx) \<and> EVP_DecodeFinal ctx = 1) \<longleftrightarrow>
      (\<exists>ctx. decode_update_loop ?i (concat srcs) = (True, out, ctx) \<and> data_used ctx = 0)"
    using i(4) decode_keeps_error [of ?i "concat srcs" out]
    by (auto simp: decode_updates_loop [OF assms i(4,5)] EVP_DecodeFinal_def split: if_splits)
  then show ?thesis using decode_update_complete [OF i(1), of "concat srcs" out] i(2,3) by simp
qed

subsection \<open>Composition\<close>

lemma encode_block_append: "length xs mod 3 = 0 \<Longrightarrow> encode_block (xs @ ys) = encode_block xs @ encode_block ys"
  by (induction xs rule: encode_block.induct) (auto simp: Let_def)

lemma b64_char_range: "v < 64 \<Longrightarrow> 43 \<le> b64_char v"
  by (auto simp: b64_char_def)

lemma ch_not_space: "v < 64 \<Longrightarrow> \<not> is_space (ch v) \<and> ch v \<noteq> 0x2d"
proof -
  assume v: "v < 64"
  have u: "unat (ch v) = b64_char v" unfolding ch_def using b64_char_not_pad [OF v] by (intro unat_word_of_nat_less) simp
  have "b64_char v \<noteq> 45" using v by (auto simp: b64_char_def)
  then show ?thesis using u b64_char_range [OF v] by (auto simp: is_space_def word_unat_eq_iff)
qed

lemma encode_block_chars: "c \<in> set (encode_block xs) \<Longrightarrow> \<not> is_space c"
proof (induction xs rule: encode_block.induct)
  case (4 a b c src)
  then show ?case using ch_not_space unfolding encode_block_digits Let_def by auto
qed (use ch_not_space in \<open>auto simp: encode_block_digits Let_def is_space_def simp del: encode_block.simps(2-)\<close>)

lemma not_space_encode: "not_space (encode_block xs) = encode_block xs"
  unfolding not_space_def by (rule filter_True) (use encode_block_chars in blast)

lemma not_space_lines: "not_space (pem_lines xs) = encode_block xs"
proof (induction xs rule: pem_lines.induct)
  case (1 xs)
  show ?case
  proof (cases "xs = []")
    case False
    have nl: "not_space [0x0a] = []" by (simp add: not_space_def is_space_def)
    have ap: "not_space (as @ bs) = not_space as @ not_space bs" for as bs by (simp add: not_space_def)
    have "not_space (pem_lines xs) = encode_block (take 48 xs) @ encode_block (drop 48 xs)"
      unfolding pem_lines.simps [of xs] using False 1 nl by (simp add: ap not_space_encode del: append_Cons)
    also have "\<dots> = encode_block xs"
    proof (cases "48 \<le> length xs")
      case True
      then have "length (take 48 xs) mod 3 = 0" by simp
      from encode_block_append [OF this, of "drop 48 xs"] show ?thesis by simp
    qed simp
    finally show ?thesis .
  qed (simp add: pem_lines.simps not_space_def)
qed

lemma encoded_length:
  assumes "length xs < 2 ^ 62"
  shows "EVP_EncodedLength (length xs) = Some (length (encode_block xs) + 1)"
proof -
  define n where "n = (length xs + 2) div 3"
  have n: "n < 2 ^ 62" using assms by (simp add: n_def)
  then have m: "(length xs + 2) mod size_mod = length xs + 2" "n * 4 mod size_mod = n * 4" "(n * 4 + 1) mod size_mod = n * 4 + 1"
    using assms by simp_all
  have "n * 4 div 4 = n" by simp
  then show ?thesis
    unfolding EVP_EncodedLength_def m n_def [symmetric] Let_def length_encode_block by simp
qed

lemma dropWhile_all: "(\<And>x. x \<in> set xs \<Longrightarrow> P x) \<Longrightarrow> dropWhile P (xs @ ys) = dropWhile P ys"
  by (induction xs) auto

lemma trim_encoded:
  assumes "\<And>c. c \<in> set pre \<Longrightarrow> c = 0x20 \<or> c = 0x09" "\<And>c. c \<in> set post \<Longrightarrow> is_space c" "xs \<noteq> []"
  shows "rev (dropWhile is_space (rev (dropWhile (\<lambda>c. c = 0x20 \<or> c = 0x09) (pre @ encode_block xs @ post)))) = encode_block xs"
proof -
  have "length (encode_block xs) \<noteq> 0" using assms(3) by (cases xs) (simp_all add: length_encode_block)
  then have ne: "encode_block xs \<noteq> []" by auto
  then have e: "\<not> is_space (hd (encode_block xs))" "\<not> is_space (last (encode_block xs))"
    using encode_block_chars [of "hd (encode_block xs)" xs] encode_block_chars [of "last (encode_block xs)" xs] by simp_all
  have "dropWhile (\<lambda>c. c = 0x20 \<or> c = 0x09) (pre @ encode_block xs @ post) = encode_block xs @ post"
    using dropWhile_all [of pre] assms(1) e(1) ne by (cases "encode_block xs") (auto simp: is_space_def)
  moreover have "dropWhile is_space (rev post @ rev (encode_block xs)) = rev (encode_block xs)"
    using dropWhile_all [of "rev post" is_space] assms(2) e(2) ne
    by (cases "encode_block xs" rule: rev_cases) auto
  ultimately show ?thesis by simp
qed

lemma decode_base64_encode: "EVP_DecodeBase64 (length (encode_block xs) div 4 * 3) (encode_block xs) = Some xs"
  by (simp add: EVP_DecodeBase64_def EVP_DecodedLength_def decode_encode) (simp add: length_encode_block)

lemmas base64_eval = encode_block_digits Let_def ch_def b64_char_def decode_quad_value quad_value_def b64_value_def
  be_bytes_2 be_bytes_3

subsection \<open>Properties\<close>

text \<open>
  Property C31: one-shot encoding. \<open>EVP_EncodeBlock\<close> writes as many bytes as \<open>EVP_EncodedLength\<close> announces,
  the last of them a NUL that its result does not count, and \<open>EVP_DecodeBase64\<close> takes the
  characters back to the bytes in a buffer of the size that \<open>EVP_DecodedLength\<close> asks for.
\<close>

theorem EVP_EncodeBlock_roundtrip:
  assumes "length xs < 2 ^ 62" "EVP_EncodeBlock xs = (dst, n)"
  shows "EVP_EncodedLength (length xs) = Some (length dst) \<and> dst ! n = 0 \<and>
    (\<exists>m. EVP_DecodedLength n = Some m \<and> EVP_DecodeBase64 m (take n dst) = Some xs)"
proof -
  have d: "dst = encode_block xs @ [0]" "n = length (encode_block xs)" using assms(2) by (simp_all add: EVP_EncodeBlock_def)
  have "EVP_DecodedLength n = Some (length (encode_block xs) div 4 * 3)"
    by (simp add: EVP_DecodedLength_def d(2) length_encode_block)
  then show ?thesis using encoded_length [OF assms(1)] decode_base64_encode [of xs] d by simp
qed

theorem EVP_EncodeBlock_roundtrip_witness:
  "EVP_EncodedLength 4 = Some 9 \<and>
   (\<exists>m. EVP_DecodedLength 8 = Some m \<and> EVP_DecodeBase64 m [0x41, 0x51, 0x49, 0x44, 0x2f, 0x77, 0x3d, 0x3d] = Some [1, 2, 3, 0xff])"
proof -
  have "encode_block [1, 2, 3, 0xff] = [0x41, 0x51, 0x49, 0x44, 0x2f, 0x77, 0x3d, 0x3d]"
    unfolding base64_eval by simp
  then have e: "EVP_EncodeBlock [1, 2, 3, 0xff] = ([0x41, 0x51, 0x49, 0x44, 0x2f, 0x77, 0x3d, 0x3d, 0], 8)"
    by (simp add: EVP_EncodeBlock_def)
  have l: "length [1, 2, 3, 0xff :: u8] = 4" "length [0x41, 0x51, 0x49, 0x44, 0x2f, 0x77, 0x3d, 0x3d, 0 :: u8] = 9" by simp_all
  show ?thesis using EVP_EncodeBlock_roundtrip [OF _ e, unfolded l] by simp
qed

text \<open>
  Property C32: the streaming encoder does not depend on how its input is cut. Whatever chunks the
  input comes in, the outputs of \<open>EVP_EncodeUpdate\<close> followed by that of \<open>EVP_EncodeFinal\<close> are the lines of
  48 bytes of the whole input, each encoded and ended by a newline (as long as the
  characters can be counted in an \<open>int\<close>).
\<close>

theorem EVP_EncodeUpdate_stream:
  assumes "65 * (length (concat srcs) div 48) \<le> INT_MAX"
    and "encode_updates EVP_EncodeInit srcs = (out, ctx)" "EVP_EncodeFinal ctx = (last_line, n, ctx')"
  shows "out @ take n last_line = pem_lines (concat srcs)"
  by (rule encode_stream [OF assms])

theorem EVP_EncodeUpdate_stream_witness:
  "pem_lines [1, 2, 3] = [0x41, 0x51, 0x49, 0x44, 0x0a]"
proof -
  let ?ctx = "\<lparr>data_used = 3, enc_data = [1, 2, 3] @ replicate 45 0, eof_seen = False, error_encountered = False\<rparr>"
  have u: "encode_updates EVP_EncodeInit [[1], [2, 3]] = ([], ?ctx)"
    by (simp add: EVP_EncodeUpdate_def EVP_EncodeInit_def sizeof_data_def store_def numeral_eq_Suc)
  have "encode_block [1, 2, 3] = [0x41, 0x51, 0x49, 0x44]" unfolding base64_eval by simp
  then have f: "EVP_EncodeFinal ?ctx = ([0x41, 0x51, 0x49, 0x44, 0x0a, 0], 5, ?ctx\<lparr>data_used := 0\<rparr>)"
    by (simp add: EVP_EncodeFinal_def encode_line_eq numeral_eq_Suc)
  show ?thesis using EVP_EncodeUpdate_stream [OF _ u f] by simp
qed

text \<open>
  Property C33. The streaming decoder does not depend on how its input is cut. A sequence of calls of
  \<open>EVP_DecodeUpdate\<close> in which none fails, followed by a successful \<open>EVP_DecodeFinal\<close>, yields exactly what the
  one-shot decoder makes of the whole input without its whitespace, and one of them fails if that is not an
  encoding; quads may be cut between calls. In particular the lines of the streaming encoder are taken back
  to its input in chunks of any size.
\<close>

theorem EVP_DecodeUpdate_stream:
  assumes "\<forall>src\<in>set srcs. length src \<le> INT_MAX"
  shows "((\<exists>ctx. decode_updates EVP_DecodeInit srcs = (True, out, ctx) \<and> EVP_DecodeFinal ctx = 1) \<longleftrightarrow>
      decode_quads (not_space (concat srcs)) = Some out) \<and>
    (concat srcs = pem_lines xs \<longrightarrow>
      (\<exists>ctx. decode_updates EVP_DecodeInit srcs = (True, xs, ctx) \<and> EVP_DecodeFinal ctx = 1))"
  using decode_updates_final [OF assms] by (auto simp: not_space_lines decode_encode)

text \<open>A quad that is cut in two places, with a newline in it.\<close>

theorem EVP_DecodeUpdate_stream_witness:
  "\<exists>ctx. decode_updates EVP_DecodeInit [[0x41, 0x51, 0x0a], [0x49], [0x3d, 0x0a]] = (True, [1, 2], ctx) \<and>
    EVP_DecodeFinal ctx = 1"
proof -
  have "decode_quads (not_space (concat [[0x41, 0x51, 0x0a], [0x49], [0x3d, 0x0a]])) = Some [1, 2]"
    unfolding not_space_def is_space_def by (simp add: base64_eval)
  then show ?thesis
    using EVP_DecodeUpdate_stream [of "[[0x41, 0x51, 0x0a], [0x49], [0x3d, 0x0a]]" "[1, 2]"]
    by (simp add: INT_MAX_def numeral_2_eq_2 del: decode_updates.simps)
qed

text \<open>
  : \<open>EVP_DecodeBlock\<close> skips spaces and tabs in front and whitespace at the end, and pads the
  result with zeros to whole groups of three bytes, so that its result does not tell how many
  bytes were encoded. Minuses at the end are not stripped, whatever the header file says: one
  minus after an encoding makes it fail.
\<close>

theorem EVP_DecodeBlock_trims:
  assumes "\<And>c. c \<in> set pre \<Longrightarrow> c = 0x20 \<or> c = 0x09" "\<And>c. c \<in> set post \<Longrightarrow> is_space c"
    and "xs \<noteq> []" "length (encode_block xs) \<le> INT_MAX"
  shows "EVP_DecodeBlock (pre @ encode_block xs @ post) = Some (xs @ replicate ((3 - length xs mod 3) mod 3) 0) \<and>
    EVP_DecodeBlock (encode_block xs @ [0x2d]) = None"
proof
  have l: "EVP_DecodedLength (length (encode_block xs)) = Some (length (encode_block xs) div 4 * 3)"
    by (simp add: EVP_DecodedLength_def length_encode_block)
  have t: "rev (dropWhile is_space (rev (dropWhile (\<lambda>c. c = 0x20 \<or> c = 0x09) (pre @ encode_block xs @ post)))) = encode_block xs"
    by (rule trim_encoded) (use assms(1-3) in auto)
  show "EVP_DecodeBlock (pre @ encode_block xs @ post) = Some (xs @ replicate ((3 - length xs mod 3) mod 3) 0)"
    unfolding EVP_DecodeBlock_def Let_def t l
    using assms(4) decode_base64_encode [of xs] by (simp add: not_less)
  have ne: "encode_block xs \<noteq> []" using assms(3) length_encode_block [of xs] by (cases xs) auto
  have "\<not> is_space (hd (encode_block xs))" using encode_block_chars [of "hd (encode_block xs)" xs] ne by simp
  then have "rev (dropWhile is_space (rev (dropWhile (\<lambda>c. c = 0x20 \<or> c = 0x09) (encode_block xs @ [0x2d])))) =
      encode_block xs @ [0x2d]"
    using ne by (cases "encode_block xs") (auto simp: is_space_def)
  moreover have "EVP_DecodedLength (length (encode_block xs @ [0x2d])) = None"
    by (simp add: EVP_DecodedLength_def length_encode_block) presburger
  ultimately show "EVP_DecodeBlock (encode_block xs @ [0x2d]) = None"
    unfolding EVP_DecodeBlock_def Let_def by simp
qed

theorem EVP_DecodeBlock_trims_witness:
  "EVP_DecodeBlock [0x20, 0x41, 0x51, 0x3d, 0x3d, 0x0a] = Some [1, 0, 0] \<and>
   EVP_DecodeBlock [0x41, 0x51, 0x3d, 0x3d, 0x2d] = None"
proof -
  have e: "encode_block [1] = [0x41, 0x51, 0x3d, 0x3d]" unfolding base64_eval by simp
  have "length (encode_block [1]) \<le> INT_MAX" unfolding e by (simp add: INT_MAX_def)
  moreover have "replicate ((3 - length [1 :: u8] mod 3) mod 3) (0 :: u8) = [0, 0]" by (simp add: numeral_2_eq_2)
  ultimately show ?thesis
    using EVP_DecodeBlock_trims [of "[0x20]" "[0x0a]" "[1]"] unfolding e by (simp add: is_space_def)
qed

end
