(* ===== verification/Stack.thy ===== *)
theory Stack
  imports Mem Qsort
begin

text \<open>
  The pointer array of \<open>crypto/stack/stack.c\<close>. An element is a pointer, \<open>None\<close> for a null one;
  \<open>sk_data\<close> holds the \<open>num_alloc\<close> slots of the allocated array, of which the first \<open>sk_num\<close> are in
  use. The \<open>comp\<close> field is a function pointer of the caller, of some type \<open>'c\<close> (only compared and
  passed on by this file), and \<open>call_cmp_func\<close>, a parameter of the operations that take it, is the
  type-specific wrapper that calls it. A \<open>_STACK *\<close> argument is an option. The functions that free
  elements return the pointers they pass to the caller's \<open>free_func\<close>, in order.
\<close>

subsection \<open>State and operations\<close>

record ('p, 'c) STACK =
  num :: nat
  sk_data :: "'p option list"
  sk_sorted :: bool
  num_alloc :: nat
  comp :: "'c option"

definition sizeof_ptr :: nat where
  "sizeof_ptr = 8"

definition sizeof_STACK :: nat where
  "sizeof_STACK = 40"

definition kMinSize :: nat where
  "kMinSize = 4"

text \<open>An array of \<open>n\<close> pointers, from a request of \<open>n * sizeof(void *)\<close> bytes.\<close>

definition alloc_ptrs :: "malloc \<Rightarrow> nat \<Rightarrow> 'p option list option" where
  "alloc_ptrs mall n =
     (if (n * sizeof_ptr mod size_mod + OPENSSL_MALLOC_PREFIX) mod size_mod < n * sizeof_ptr mod size_mod
         \<or> \<not> mall (n * sizeof_ptr mod size_mod + OPENSSL_MALLOC_PREFIX)
      then None else Some (replicate n None))"

definition sk_new :: "malloc \<Rightarrow> 'c option \<Rightarrow> ('p, 'c) STACK option" where
  "sk_new mall cmp =
     (if OPENSSL_malloc mall sizeof_STACK = None then None
      else (case alloc_ptrs mall kMinSize of
              None \<Rightarrow> None
            | Some data \<Rightarrow> Some \<lparr>num = 0, sk_data = data, sk_sorted = False,
                                num_alloc = kMinSize, comp = cmp\<rparr>))"

definition sk_new_null :: "malloc \<Rightarrow> ('p, 'c) STACK option" where
  "sk_new_null mall = sk_new mall None"

definition sk_num :: "('p, 'c) STACK option \<Rightarrow> nat" where
  "sk_num sk = (case sk of None \<Rightarrow> 0 | Some s \<Rightarrow> num s)"

definition sk_zero :: "('p, 'c) STACK option \<Rightarrow> ('p, 'c) STACK option" where
  "sk_zero sk = (case sk of None \<Rightarrow> None | Some s \<Rightarrow>
     if num s = 0 then Some s
     else Some (s\<lparr>sk_data := replicate (num s) None @ drop (num s) (sk_data s), num := 0,
                 sk_sorted := False\<rparr>))"

definition sk_value :: "('p, 'c) STACK option \<Rightarrow> nat \<Rightarrow> 'p option" where
  "sk_value sk i = (case sk of None \<Rightarrow> None | Some s \<Rightarrow>
     if num s \<le> i then None else sk_data s ! i)"

definition sk_set :: "('p, 'c) STACK option \<Rightarrow> nat \<Rightarrow> 'p option \<Rightarrow> 'p option \<times> ('p, 'c) STACK option" where
  "sk_set sk i v = (case sk of None \<Rightarrow> (None, None) | Some s \<Rightarrow>
     if num s \<le> i then (None, Some s) else (v, Some (s\<lparr>sk_data := (sk_data s)[i := v]\<rparr>)))"

definition sk_pop_free_ex :: "('p, 'c) STACK option \<Rightarrow> 'p list" where
  "sk_pop_free_ex sk = (case sk of None \<Rightarrow> [] | Some s \<Rightarrow>
     List.map_filter (\<lambda>i. sk_data s ! i) [0..<num s])"

text \<open>The new capacity of \<open>sk_insert\<close>: doubled, or one more where doubling overflows.\<close>

definition overflows :: "nat \<Rightarrow> nat \<Rightarrow> bool" where
  "overflows new_alloc old \<longleftrightarrow>
     new_alloc < old \<or> new_alloc * sizeof_ptr mod size_mod div sizeof_ptr \<noteq> new_alloc"

definition grow :: "malloc \<Rightarrow> ('p, 'c) STACK \<Rightarrow> ('p, 'c) STACK option" where
  "grow mall s =
     (let doubled = push_bit 1 (num_alloc s) mod size_mod;
          new_alloc = (if overflows doubled (num_alloc s) then (num_alloc s + 1) mod size_mod else doubled)
      in if overflows new_alloc (num_alloc s) then None
         else (case alloc_ptrs mall new_alloc of
                 None \<Rightarrow> None
               | Some fresh \<Rightarrow>
                   Some (s\<lparr>sk_data := sk_data s @ drop (num_alloc s) fresh, num_alloc := new_alloc\<rparr>)))"

definition insert_at :: "'p option \<Rightarrow> nat \<Rightarrow> ('p, 'c) STACK \<Rightarrow> ('p, 'c) STACK" where
  "insert_at p wh s =
     s\<lparr>sk_data :=
         (if num s \<le> wh then (sk_data s)[num s := p]
          else take wh (sk_data s) @ p # take (num s - wh) (drop wh (sk_data s)) @ drop (num s + 1) (sk_data s)),
       num := num s + 1, sk_sorted := False\<rparr>"

definition sk_insert ::
  "malloc \<Rightarrow> ('p, 'c) STACK option \<Rightarrow> 'p option \<Rightarrow> nat \<Rightarrow> nat \<times> ('p, 'c) STACK option" where
  "sk_insert mall sk p wh = (case sk of None \<Rightarrow> (0, None) | Some s \<Rightarrow>
     (case (if num_alloc s \<le> (num s + 1) mod size_mod then grow mall s else Some s) of
        None \<Rightarrow> (0, Some s)
      | Some s' \<Rightarrow> (num s' + 1, Some (insert_at p wh s'))))"

definition delete_at :: "nat \<Rightarrow> ('p, 'c) STACK \<Rightarrow> ('p, 'c) STACK" where
  "delete_at wh s =
     s\<lparr>sk_data :=
         (if wh \<noteq> num s - 1
          then take wh (sk_data s) @ take (num s - wh - 1) (drop (wh + 1) (sk_data s))
                 @ drop (num s - 1) (sk_data s)
          else sk_data s),
       num := num s - 1\<rparr>"

definition sk_delete :: "('p, 'c) STACK option \<Rightarrow> nat \<Rightarrow> 'p option \<times> ('p, 'c) STACK option" where
  "sk_delete sk wh = (case sk of None \<Rightarrow> (None, None) | Some s \<Rightarrow>
     if num s \<le> wh then (None, Some s) else (sk_data s ! wh, Some (delete_at wh s)))"

definition sk_delete_ptr ::
  "('p, 'c) STACK option \<Rightarrow> 'p option \<Rightarrow> 'p option \<times> ('p, 'c) STACK option" where
  "sk_delete_ptr sk p = (case sk of None \<Rightarrow> (None, None) | Some s \<Rightarrow>
     (case find (\<lambda>i. sk_data s ! i = p) [0..<num s] of
        None \<Rightarrow> (None, Some s)
      | Some i \<Rightarrow> sk_delete sk i))"

definition sk_is_sorted :: "('p, 'c) STACK option \<Rightarrow> bool" where
  "sk_is_sorted sk = (case sk of None \<Rightarrow> True | Some s \<Rightarrow> sk_sorted s)"

text \<open>
  The binary search of \<open>sk_find\<close>, with \<open>cmp i\<close> the comparison of the sought element with slot \<open>i\<close>.
  The range \<open>[lo, hi)\<close> holds the first match, if there is one.
\<close>

function find_sorted :: "(nat \<Rightarrow> int) \<Rightarrow> nat \<Rightarrow> nat \<Rightarrow> nat option" where
  "find_sorted cmp lo hi =
     (if lo < hi then
        (let mid = lo + (hi - lo - 1) div 2; r = cmp mid
         in if 0 < r then find_sorted cmp (mid + 1) hi
            else if r < 0 then find_sorted cmp lo mid
            else if hi - lo = 1 then Some mid
            else find_sorted cmp lo (mid + 1))
      else None)"
  by pat_completeness auto
termination
  by (relation "measure (\<lambda>(cmp, lo, hi). hi - lo)") auto

declare find_sorted.simps [simp del]

definition sk_find ::
  "('c \<Rightarrow> 'p option \<Rightarrow> 'p option \<Rightarrow> int) \<Rightarrow> ('p, 'c) STACK option \<Rightarrow> 'p option \<Rightarrow> nat option" where
  "sk_find call_cmp_func sk p = (case sk of None \<Rightarrow> None | Some s \<Rightarrow>
     (case comp s of
        None \<Rightarrow> find (\<lambda>i. sk_data s ! i = p) [0..<num s]
      | Some c \<Rightarrow>
          if p = None then None
          else if \<not> sk_is_sorted sk then find (\<lambda>i. call_cmp_func c p (sk_data s ! i) = 0) [0..<num s]
          else find_sorted (\<lambda>i. call_cmp_func c p (sk_data s ! i)) 0 (num s)))"

definition sk_shift :: "('p, 'c) STACK option \<Rightarrow> 'p option \<times> ('p, 'c) STACK option" where
  "sk_shift sk = (case sk of None \<Rightarrow> (None, None) | Some s \<Rightarrow>
     if num s = 0 then (None, Some s) else sk_delete sk 0)"

definition sk_push ::
  "malloc \<Rightarrow> ('p, 'c) STACK option \<Rightarrow> 'p option \<Rightarrow> nat \<times> ('p, 'c) STACK option" where
  "sk_push mall sk p = sk_insert mall sk p (sk_num sk)"

definition sk_pop :: "('p, 'c) STACK option \<Rightarrow> 'p option \<times> ('p, 'c) STACK option" where
  "sk_pop sk = (case sk of None \<Rightarrow> (None, None) | Some s \<Rightarrow>
     if num s = 0 then (None, Some s) else sk_delete sk (num s - 1))"

definition sk_dup :: "malloc \<Rightarrow> ('p, 'c) STACK option \<Rightarrow> ('p, 'c) STACK option" where
  "sk_dup mall sk = (case sk of None \<Rightarrow> None | Some s \<Rightarrow>
     if OPENSSL_malloc mall sizeof_STACK = None then None
     else (case alloc_ptrs mall (num_alloc s) of
             None \<Rightarrow> None
           | Some data \<Rightarrow>
               Some \<lparr>num = num s, sk_data = take (num s) (sk_data s) @ drop (num s) data,
                     sk_sorted = sk_sorted s, num_alloc = num_alloc s, comp = comp s\<rparr>))"

definition sk_sort ::
  "('c \<Rightarrow> 'p option \<Rightarrow> 'p option \<Rightarrow> int) \<Rightarrow> ('p, 'c) STACK option \<Rightarrow> ('p, 'c) STACK option" where
  "sk_sort call_cmp_func sk = (case sk of None \<Rightarrow> None | Some s \<Rightarrow>
     (case comp s of
        None \<Rightarrow> Some s
      | Some c \<Rightarrow>
          if sk_sorted s then Some s
          else Some (s\<lparr>sk_data :=
                        (if 2 \<le> num s
                         then qsort (call_cmp_func c) (take (num s) (sk_data s)) @ drop (num s) (sk_data s)
                         else sk_data s),
                      sk_sorted := True\<rparr>)))"

definition sk_set_cmp_func :: "('p, 'c) STACK \<Rightarrow> 'c option \<Rightarrow> 'c option \<times> ('p, 'c) STACK" where
  "sk_set_cmp_func s c =
     (comp s, s\<lparr>sk_sorted := (if comp s \<noteq> c then False else sk_sorted s), comp := c\<rparr>)"

text \<open>\<open>sk_deep_copy\<close>: the copy, and the pointers freed again when a copy fails half-way.\<close>

fun copy_elems :: "('p \<Rightarrow> 'p option) \<Rightarrow> nat \<Rightarrow> 'p option list \<Rightarrow> nat \<Rightarrow> 'p option list option \<times> 'p list" where
  "copy_elems copy i data 0 = (Some data, [])"
| "copy_elems copy i data (Suc n) =
     (case data ! i of
        None \<Rightarrow> copy_elems copy (i + 1) data n
      | Some p \<Rightarrow>
          (case copy p of
             None \<Rightarrow> (None, List.map_filter (\<lambda>j. data ! j) [0..<i])
           | Some q \<Rightarrow> copy_elems copy (i + 1) (data[i := Some q]) n))"

definition sk_deep_copy ::
  "malloc \<Rightarrow> ('p, 'c) STACK option \<Rightarrow> ('p \<Rightarrow> 'p option) \<Rightarrow> ('p, 'c) STACK option \<times> 'p list" where
  "sk_deep_copy mall sk copy =
     (case sk_dup mall sk of
        None \<Rightarrow> (None, [])
      | Some ret \<Rightarrow>
          (case copy_elems copy 0 (sk_data ret) (num ret) of
             (None, freed) \<Rightarrow> (None, freed)
           | (Some data, freed) \<Rightarrow> (Some (ret\<lparr>sk_data := data\<rparr>), freed)))"

end
