(* ===== verification/Stack_Spec.thy ===== *)
theory Stack_Spec
  imports Stack SetOf
begin

text \<open>
  What the pointer array promises: its contents are a list (\<open>elems\<close>) on which the operations act as
  list operations, the capacity invariant \<open>wf_stack\<close> keeps every access inside the array, and the
  binary search finds the first match, as a linear search would, unless an element was replaced while
  the \<open>sorted\<close> flag was set.
\<close>

subsection \<open>Searching\<close>







subsection \<open>The invariant\<close>

definition elems :: "('p, 'c) STACK \<Rightarrow> 'p option list" where
  "elems s = take (num s) (sk_data s)"

definition wf_stack :: "('p, 'c) STACK \<Rightarrow> bool" where
  "wf_stack s \<longleftrightarrow> num s < num_alloc s \<and> length (sk_data s) = num_alloc s \<and>
     num_alloc s * sizeof_ptr < size_mod"

lemma length_elems [simp]: "wf_stack s \<Longrightarrow> length (elems s) = num s"
  by (simp add: elems_def wf_stack_def)

lemma nth_elems: "wf_stack s \<Longrightarrow> i < num s \<Longrightarrow> sk_data s ! i = elems s ! i"
  by (simp add: elems_def)



lemma alloc_ptrs_Some: "alloc_ptrs mall n = Some d \<Longrightarrow> d = replicate n None"
  by (simp add: alloc_ptrs_def split: if_splits)


lemma not_overflows:
  "\<not> overflows n old \<Longrightarrow> old \<le> n \<and> n * sizeof_ptr < size_mod"
  unfolding overflows_def sizeof_ptr_def by (auto simp: not_less)

lemma grow_wf:
  assumes "wf_stack s" "grow mall s = Some t"
  shows "wf_stack t \<and> elems t = elems s \<and> num t = num s \<and> comp t = comp s \<and> num_alloc s < num_alloc t"
proof -
  let ?d = "push_bit 1 (num_alloc s) mod size_mod"
  define n where "n = (if overflows ?d (num_alloc s) then (num_alloc s + 1) mod size_mod else ?d)"
  from assms(2) obtain fresh where t: "\<not> overflows n (num_alloc s)" "alloc_ptrs mall n = Some fresh"
      "t = s\<lparr>sk_data := sk_data s @ drop (num_alloc s) fresh, num_alloc := n\<rparr>"
    by (auto simp: grow_def Let_def n_def split: if_splits option.splits)
  have s: "num s < num_alloc s" "length (sk_data s) = num_alloc s" "num_alloc s * 8 < size_mod"
    using assms(1) by (simp_all add: wf_stack_def sizeof_ptr_def)
  have "?d = num_alloc s * 2" "(num_alloc s + 1) mod size_mod = num_alloc s + 1"
    using s(3) by (simp_all add: push_bit_nat_def)
  then have gt: "num_alloc s < n" using s(1) by (simp add: n_def)
  moreover have "length fresh = n" using alloc_ptrs_Some [OF t(2)] by simp
  ultimately show ?thesis
    using s not_overflows [OF t(1)] by (simp add: t(3) wf_stack_def elems_def)
qed

subsection \<open>Insertion and deletion\<close>

lemma insert_at_elems:
  assumes "num s + 1 < num_alloc s" "length (sk_data s) = num_alloc s"
  shows "elems (insert_at p wh s) = take wh (elems s) @ p # drop wh (elems s)"
proof (cases "num s \<le> wh")
  case True
  with assms show ?thesis by (simp add: elems_def insert_at_def take_Suc_conv_app_nth)
next
  case False
  with assms show ?thesis
    by (simp add: elems_def insert_at_def take_Cons' drop_take min_def)
qed

lemma insert_at_wf:
  assumes "num s + 1 < num_alloc s" "length (sk_data s) = num_alloc s" "num_alloc s * sizeof_ptr < size_mod"
  shows "wf_stack (insert_at p wh s)"
  using assms by (simp add: wf_stack_def insert_at_def)

lemma sk_insert_cases:
  assumes "wf_stack s" "sk_insert mall (Some s) p wh = (r, sk)"
  obtains "r = 0" "sk = Some s"
  | t where "r = num s + 1" "sk = Some t" "wf_stack t" "comp t = comp s" "\<not> sk_sorted t"
      "elems t = take wh (elems s) @ p # drop wh (elems s)"
proof (cases "if num_alloc s \<le> (num s + 1) mod size_mod then grow mall s else Some s")
  case None
  with assms that(1) show thesis by (simp add: sk_insert_def)
next
  case (Some u)
  have s: "num s < num_alloc s" "num_alloc s * 8 < size_mod" "length (sk_data s) = num_alloc s"
    using assms(1) by (simp_all add: wf_stack_def sizeof_ptr_def)
  then have "(num s + 1) mod size_mod = num s + 1" by simp
  then have u: "wf_stack u \<and> elems u = elems s \<and> num u = num s \<and> comp u = comp s \<and> num s + 1 < num_alloc u"
  proof (cases "num_alloc s \<le> num s + 1")
    case True
    with Some grow_wf [OF assms(1), of mall u] s show ?thesis by simp
  next
    case False
    with Some assms(1) s show ?thesis by simp
  qed
  show thesis
  proof (rule that(2))
    show "sk = Some (insert_at p wh u)" "r = num s + 1"
      using assms(2) Some u by (simp_all add: sk_insert_def)
    show "wf_stack (insert_at p wh u)"
      using u by (intro insert_at_wf) (simp_all add: wf_stack_def)
    show "elems (insert_at p wh u) = take wh (elems s) @ p # drop wh (elems s)"
      using u insert_at_elems [of u p wh] by (simp add: wf_stack_def)
    show "comp (insert_at p wh u) = comp s" "\<not> sk_sorted (insert_at p wh u)"
      using u by (simp_all add: insert_at_def)
  qed
qed

lemma sk_delete_cases:
  assumes "wf_stack s" "sk_delete (Some s) wh = (r, sk)"
  obtains "num s \<le> wh" "r = None" "sk = Some s"
  | t where "wh < num s" "r = elems s ! wh" "sk = Some t" "wf_stack t" "comp t = comp s"
      "sk_sorted t = sk_sorted s" "elems t = take wh (elems s) @ drop (wh + 1) (elems s)"
proof (cases "num s \<le> wh")
  case True
  with assms that(1) show thesis by (simp add: sk_delete_def)
next
  case False
  have s: "num s < num_alloc s" "length (sk_data s) = num_alloc s" using assms(1) by (simp_all add: wf_stack_def)
  show thesis
  proof (rule that(2) [of "delete_at wh s"])
    show "wf_stack (delete_at wh s)"
      using False assms(1) s by (auto simp: wf_stack_def delete_at_def min_def)
    show "elems (delete_at wh s) = take wh (elems s) @ drop (wh + 1) (elems s)"
      using False s by (auto simp: elems_def delete_at_def min_def drop_take)
    show "r = elems s ! wh" "sk = Some (delete_at wh s)"
      using assms False by (simp_all add: sk_delete_def nth_elems)
  qed (use False in \<open>simp_all add: delete_at_def\<close>)
qed

subsection \<open>The sorted flag\<close>
















text \<open>The copy of an element: null stays null.\<close>

abbreviation copied :: "('p \<Rightarrow> 'p option) \<Rightarrow> 'p option \<Rightarrow> 'p option" where
  "copied copy e \<equiv> Option.bind e copy"

definition copyable :: "('p \<Rightarrow> 'p option) \<Rightarrow> 'p option list \<Rightarrow> bool" where
  "copyable copy es \<longleftrightarrow> (\<forall>p. Some p \<in> set es \<longrightarrow> copy p \<noteq> None)"

lemma copyable_simps [simp]:
  "copyable copy []"
  "copyable copy (None # es) \<longleftrightarrow> copyable copy es"
  "copyable copy (Some p # es) \<longleftrightarrow> copy p \<noteq> None \<and> copyable copy es"
  by (auto simp: copyable_def)

lemma map_filter_nth: "n \<le> length xs \<Longrightarrow> List.map_filter (\<lambda>i. xs ! i) [0..<n] = List.map_filter id (take n xs)"
proof (induction n)
  case (Suc n)
  then have "take (Suc n) xs = take n xs @ [xs ! n]" by (simp add: take_Suc_conv_app_nth)
  with Suc show ?case by (simp add: List.map_filter_def split: option.splits)
qed (simp add: List.map_filter_def)

lemma copy_elems_step:
  "copy_elems copy (length pre) (pre @ e # es) (Suc n) =
     (case e of None \<Rightarrow> copy_elems copy (length (pre @ [None])) ((pre @ [None]) @ es) n
      | Some p \<Rightarrow> (case copy p of None \<Rightarrow> (None, List.map_filter id pre)
                  | Some q \<Rightarrow> copy_elems copy (length (pre @ [Some q])) ((pre @ [Some q]) @ es) n))"
proof (cases e)
  case (Some p)
  with map_filter_nth [of "length pre" "pre @ Some p # es"] show ?thesis by (simp split: option.splits)
qed simp

lemma copy_elems_all:
  "copyable copy es \<Longrightarrow>
    copy_elems copy (length pre) (pre @ es @ post) (length es) = (Some (pre @ map (copied copy) es @ post), [])"
proof (induction es arbitrary: pre)
  case (Cons e es)
  then obtain q where q: "copied copy e = q" "case e of None \<Rightarrow> q = None | Some p \<Rightarrow> \<exists>r. q = Some r \<and> copy p = Some r"
    by (cases e) auto
  have "copyable copy es" using Cons.prems by (auto simp: copyable_def)
  from Cons.IH [OF this, of "pre @ [q]"] q show ?case
    unfolding append_Cons length_Cons copy_elems_step by (auto split: option.splits)
qed simp

lemma copy_elems_fails:
  "copyable copy es \<Longrightarrow> copy p = None \<Longrightarrow> length es < n \<Longrightarrow>
    copy_elems copy (length pre) (pre @ es @ Some p # post) n
      = (None, List.map_filter id (pre @ map (copied copy) es))"
proof (induction es arbitrary: pre n)
  case Nil
  then obtain m where "n = Suc m" by (cases n) auto
  with Nil show ?case by (simp only: append_Nil copy_elems_step) (simp add: id_def)
next
  case (Cons e es)
  then obtain m where n: "n = Suc m" "length es < m" by (cases n) auto
  from Cons.prems obtain q where q: "copied copy e = q"
      "case e of None \<Rightarrow> q = None | Some p \<Rightarrow> \<exists>r. q = Some r \<and> copy p = Some r"
    by (cases e) auto
  have "copyable copy es" using Cons.prems by (auto simp: copyable_def)
  from Cons.IH [OF this Cons.prems(2) n(2), of "pre @ [q]"] q show ?case
    unfolding append_Cons n(1) copy_elems_step by (auto split: option.splits)
qed

text \<open>
  \<open>sk_deep_copy\<close> copies every non-null element and keeps the nulls, or, when the copy of
  an element fails, returns no stack and has freed the copies made before it, each once, in order.
\<close>

lemma sk_deep_copy_all_or_nothing:
  assumes "wf_stack s" "sk_dup mall (Some s) \<noteq> None"
  shows "(\<exists>t. sk_deep_copy mall (Some s) copy = (Some t, []) \<and> elems t = map (copied copy) (elems s) \<and>
      copyable copy (elems s)) \<or>
    (\<exists>es p fs. elems s = es @ Some p # fs \<and> copyable copy es \<and> copy p = None \<and>
       sk_deep_copy mall (Some s) copy = (None, List.map_filter (copied copy) es))"
proof -
  from assms obtain t where t: "sk_dup mall (Some s) = Some t" by blast
  then have "num t = num s \<and> elems t = elems s \<and> length (sk_data t) = num_alloc s"
    using assms(1) by (auto simp: sk_dup_def wf_stack_def elems_def dest!: alloc_ptrs_Some
        split: if_splits option.splits)
  then have d: "sk_data t = [] @ elems s @ drop (num s) (sk_data t)" "num t = length (elems s)"
    using assms(1) append_take_drop_id [of "num s" "sk_data t"] unfolding elems_def wf_stack_def
    by (metis append_Nil) (use assms(1) \<open>num t = num s \<and> _\<close> in \<open>simp add: wf_stack_def\<close>)
  show ?thesis
  proof (cases "copyable copy (elems s)")
    case True
    have "sk_deep_copy mall (Some s) copy
        = (Some (t\<lparr>sk_data := map (copied copy) (elems s) @ drop (num s) (sk_data t)\<rparr>), [])"
      using copy_elems_all [OF True, of "[]" "drop (num s) (sk_data t)"] d
      by (simp add: sk_deep_copy_def t)
    then show ?thesis using d(2) True by (auto simp: elems_def)
  next
    case False
    let ?bad = "\<lambda>e. \<exists>p. e = Some p \<and> copy p = None"
    have "\<exists>e\<in>set (elems s). ?bad e" using False by (auto simp: copyable_def)
    from split_list_first_prop [OF this] obtain es p fs
      where es: "elems s = es @ Some p # fs" "copy p = None" "\<forall>e\<in>set es. \<not> ?bad e" by blast
    then have "copyable copy es" by (auto simp: copyable_def)
    moreover have "sk_deep_copy mall (Some s) copy = (None, List.map_filter (copied copy) es)"
    proof -
      have "copy_elems copy 0 (sk_data t) (num t) = (None, List.map_filter id (map (copied copy) es))"
      proof -
        have eq: "[] @ es @ Some p # (fs @ drop (num s) (sk_data t)) = sk_data t" and "length es < num t"
          using d es(1) by simp_all
        from copy_elems_fails [OF \<open>copyable copy es\<close> es(2) this(2), of "[]" "fs @ drop (num s) (sk_data t)"]
        show ?thesis unfolding eq by (simp only: list.size(3) append_Nil)
      qed
      then show ?thesis by (simp add: sk_deep_copy_def t List.map_filter_def o_def filter_map)
    qed
    ultimately show ?thesis using es by blast
  qed
qed

subsection \<open>Programs over a stack\<close>


















subsection \<open>Properties\<close>

definition demo_cmp :: "unit \<Rightarrow> int option \<Rightarrow> int option \<Rightarrow> int" where
  "demo_cmp c a b = the a - the b"


definition demo_stack :: "(int, unit) STACK" where
  "demo_stack = \<lparr>num = 3, sk_data = [Some 2, Some 5, Some 9, None], sk_sorted = True, num_alloc = 4,
     comp = Some ()\<rparr>"






text \<open>
  Property C36: \<open>sk_insert\<close> either fails and leaves the stack as it was, or returns the new number of
  elements, its contents then being the old list with the element at position \<open>where\<close> (at the end if
  that is past the end), and \<open>sk_delete\<close> of that position gives back the element and the old list.
\<close>

theorem sk_insert_delete_refines:
  assumes "wf_stack s" "wh \<le> num s" "sk_insert mall (Some s) p wh = (r, sk)"
  shows "(r = 0 \<and> sk = Some s) \<or>
    (\<exists>t u. sk = Some t \<and> r = length (elems t) \<and> wf_stack t \<and>
       elems t = take wh (elems s) @ p # drop wh (elems s) \<and>
       sk_delete sk wh = (p, Some u) \<and> wf_stack u \<and> elems u = elems s)"
proof (rule sk_insert_cases [OF assms(1, 3)])
  fix t
  assume t: "r = num s + 1" "sk = Some t" "wf_stack t" "elems t = take wh (elems s) @ p # drop wh (elems s)"
  then have len: "num t = num s + 1" "length (elems s) = num s"
    using assms(1, 2) length_elems [OF t(3)] by simp_all
  obtain q sk' where d: "sk_delete (Some t) wh = (q, sk')" by fastforce
  show ?thesis
    by (rule sk_delete_cases [OF t(3) d]) (use t d len assms(2) in \<open>auto simp: nth_append\<close>)
qed simp

theorem sk_insert_delete_refines_witness:
  "fst (sk_insert (\<lambda>n. True) (Some demo_stack) (Some 7) 1) = 4 \<and>
   (\<exists>u. snd (sk_delete (snd (sk_insert (\<lambda>n. True) (Some demo_stack) (Some 7) 1)) 1) = Some u
      \<and> elems u = elems demo_stack)"
proof -
  define R where "R = sk_insert (\<lambda>n. True) (Some demo_stack) (Some 7) 1"
  have wf: "wf_stack demo_stack" "1 \<le> num demo_stack" by code_simp+
  have "fst R = 4" unfolding R_def by code_simp
  with sk_insert_delete_refines [OF wf, of "\<lambda>n. True" "Some 7" "fst R" "snd R"] show ?thesis
    by (auto simp: R_def)
qed

text \<open>A copy that fails half-way.\<close>

lemma sk_deep_copy_all_or_nothing_witness:
  "sk_deep_copy (\<lambda>n. True) (Some demo_stack) (\<lambda>p. if p = 9 then None else Some (p + 1)) = (None, [3, 6])"
proof -
  let ?copy = "\<lambda>p :: int. if p = 9 then None else Some (p + 1)"
  have dup: "sk_dup (\<lambda>n. True) (Some demo_stack) \<noteq> None" and wf: "wf_stack demo_stack"
    and es: "elems demo_stack = [Some 2, Some 5, Some 9]"
    and res: "fst (sk_deep_copy (\<lambda>n. True) (Some demo_stack) ?copy) = None"
    by code_simp+
  from sk_deep_copy_all_or_nothing [OF wf dup, of ?copy] res obtain xs p fs
    where "[Some 2, Some 5, Some 9] = xs @ Some p # fs" "?copy p = None" "copyable ?copy xs"
      "sk_deep_copy (\<lambda>n. True) (Some demo_stack) ?copy = (None, List.map_filter (copied ?copy) xs)"
    unfolding es by auto
  then show ?thesis by (auto simp: Cons_eq_append_conv List.map_filter_def split: if_splits)
qed

text \<open>
  \<open>sk_set\<close> leaves the flag as it is, so the binary search can miss the very element that was set.
\<close>

theorem sk_set_breaks_sorted:
  "snd (sk_set (Some demo_stack) 0 (Some 7)) = Some (demo_stack\<lparr>sk_data := [Some 7, Some 5, Some 9, None]\<rparr>) \<and>
   sk_is_sorted (snd (sk_set (Some demo_stack) 0 (Some 7))) \<and>
   sk_value (snd (sk_set (Some demo_stack) 0 (Some 7))) 0 = Some 7 \<and>
   sk_find demo_cmp (snd (sk_set (Some demo_stack) 0 (Some 7))) (Some 7) = None"
  by code_simp

end
