(* ===== verification/LHash.thy ===== *)
theory LHash
  imports Mem
begin

text \<open>
  The chaining hash table of \<open>crypto/lhash/lhash.c\<close>. A chain is the list of its items; an item has
  an identity (\<open>it_ref\<close>, the address \<open>malloc\<close> gave it) because \<open>OPENSSL_lh_doall_arg\<close> holds on to
  the next item while the callback runs. The \<open>LHASH_ITEM **\<close> that the search functions return is the
  bucket and the position in its chain; it points to a null pointer if the position is the chain's
  length. The wrappers that call the caller's hash and comparison functions are parameters; the data
  pointers, of some type \<open>'d\<close>, are only passed to them. \<open>malloc\<close> hands out the addresses \<open>lh_next_ref\<close>,
  \<open>lh_next_ref + 1\<close> and so on.
\<close>

subsection \<open>State\<close>

record 'd LHASH_ITEM =
  it_ref :: nat
  it_data :: 'd
  it_hash :: u32

record 'd LHASH =
  num_items :: nat
  buckets :: "'d LHASH_ITEM list list"
  num_buckets :: nat
  callback_depth :: nat
  lh_next_ref :: nat

definition kMinNumBuckets :: nat where
  "kMinNumBuckets = 16"

definition kMaxAverageChainLength :: nat where
  "kMaxAverageChainLength = 2"

definition kMinAverageChainLength :: nat where
  "kMinAverageChainLength = 1"

definition UINT_MAX :: nat where
  "UINT_MAX = 4294967295"

definition sizeof_LHASH :: nat where
  "sizeof_LHASH = 48"

definition sizeof_LHASH_ITEM :: nat where
  "sizeof_LHASH_ITEM = 24"

definition sizeof_item_ptr :: nat where
  "sizeof_item_ptr = 8"

text \<open>Whether \<open>OPENSSL_malloc(sz)\<close> returns a block.\<close>

definition alloc_ok :: "malloc \<Rightarrow> nat \<Rightarrow> bool" where
  "alloc_ok mall sz \<longleftrightarrow> \<not> (sz + OPENSSL_MALLOC_PREFIX) mod size_mod < sz \<and> mall (sz + OPENSSL_MALLOC_PREFIX)"

lemma alloc_ok: "alloc_ok mall sz \<longleftrightarrow> OPENSSL_malloc mall sz \<noteq> None"
  by (auto simp: alloc_ok_def OPENSSL_malloc_def)

subsection \<open>Operations\<close>

definition OPENSSL_lh_new :: "malloc \<Rightarrow> 'd LHASH option" where
  "OPENSSL_lh_new mall =
     (if \<not> alloc_ok mall sizeof_LHASH then None
      else if \<not> alloc_ok mall (sizeof_item_ptr * kMinNumBuckets) then None
      else Some \<lparr>num_items = 0, buckets = replicate kMinNumBuckets [], num_buckets = kMinNumBuckets,
             callback_depth = 0, lh_next_ref = 0\<rparr>)"

definition OPENSSL_lh_num_items :: "'d LHASH \<Rightarrow> nat" where
  "OPENSSL_lh_num_items lh = num_items lh"

fun chain_pos :: "('d \<Rightarrow> bool) \<Rightarrow> 'd LHASH_ITEM list \<Rightarrow> nat" where
  "chain_pos eq [] = 0"
| "chain_pos eq (cur # rest) = (if eq (it_data cur) then 0 else Suc (chain_pos eq rest))"

definition get_next_ptr_and_hash ::
  "('d \<Rightarrow> u32) \<Rightarrow> ('d \<Rightarrow> 'd \<Rightarrow> int) \<Rightarrow> 'd LHASH \<Rightarrow> 'd \<Rightarrow> u32 \<times> nat \<times> nat" where
  "get_next_ptr_and_hash hash cmp lh data =
     (let h = hash data; b = unat h mod num_buckets lh
      in (h, b, chain_pos (\<lambda>d. cmp d data = 0) (buckets lh ! b)))"

definition get_next_ptr_by_key :: "'d LHASH \<Rightarrow> 'k \<Rightarrow> u32 \<Rightarrow> ('k \<Rightarrow> 'd \<Rightarrow> int) \<Rightarrow> nat \<times> nat" where
  "get_next_ptr_by_key lh key key_hash cmp_key =
     (let b = unat key_hash mod num_buckets lh
      in (b, chain_pos (\<lambda>d. cmp_key key d = 0) (buckets lh ! b)))"

definition item_at :: "'d LHASH \<Rightarrow> nat \<Rightarrow> nat \<Rightarrow> 'd LHASH_ITEM option" where
  "item_at lh b pos = (if pos < length (buckets lh ! b) then Some (buckets lh ! b ! pos) else None)"

definition OPENSSL_lh_retrieve ::
  "('d \<Rightarrow> u32) \<Rightarrow> ('d \<Rightarrow> 'd \<Rightarrow> int) \<Rightarrow> 'd LHASH \<Rightarrow> 'd \<Rightarrow> 'd option" where
  "OPENSSL_lh_retrieve hash cmp lh data =
     (case get_next_ptr_and_hash hash cmp lh data of (_, b, pos) \<Rightarrow> map_option it_data (item_at lh b pos))"

definition OPENSSL_lh_retrieve_key :: "'d LHASH \<Rightarrow> 'k \<Rightarrow> u32 \<Rightarrow> ('k \<Rightarrow> 'd \<Rightarrow> int) \<Rightarrow> 'd option" where
  "OPENSSL_lh_retrieve_key lh key key_hash cmp_key =
     (case get_next_ptr_by_key lh key key_hash cmp_key of (b, pos) \<Rightarrow> map_option it_data (item_at lh b pos))"

definition rebucket_item :: "nat \<Rightarrow> 'd LHASH_ITEM list list \<Rightarrow> 'd LHASH_ITEM \<Rightarrow> 'd LHASH_ITEM list list" where
  "rebucket_item n bs cur = (let b = unat (it_hash cur) mod n in bs[b := cur # bs ! b])"

definition lh_rebucket :: "malloc \<Rightarrow> nat \<Rightarrow> 'd LHASH \<Rightarrow> 'd LHASH" where
  "lh_rebucket mall new_num_buckets lh =
     (let alloc_size = sizeof_item_ptr * new_num_buckets mod size_mod
      in if alloc_size div sizeof_item_ptr \<noteq> new_num_buckets then lh
         else if \<not> alloc_ok mall alloc_size then lh
         else lh\<lparr>buckets := foldl (foldl (rebucket_item new_num_buckets)) (replicate new_num_buckets [])
                              (buckets lh),
                num_buckets := new_num_buckets\<rparr>)"

definition lh_maybe_resize :: "malloc \<Rightarrow> 'd LHASH \<Rightarrow> 'd LHASH" where
  "lh_maybe_resize mall lh =
     (if 0 < callback_depth lh then lh
      else (let avg_chain_length = num_items lh div num_buckets lh
            in if kMaxAverageChainLength < avg_chain_length then
                 (let new_num_buckets = num_buckets lh * 2 mod size_mod
                  in if num_buckets lh < new_num_buckets then lh_rebucket mall new_num_buckets lh else lh)
               else if avg_chain_length < kMinAverageChainLength \<and> kMinNumBuckets < num_buckets lh then
                 (let new_num_buckets = num_buckets lh div 2
                  in lh_rebucket mall
                       (if new_num_buckets < kMinNumBuckets then kMinNumBuckets else new_num_buckets) lh)
               else lh))"

definition set_chain :: "nat \<Rightarrow> 'd LHASH_ITEM list \<Rightarrow> 'd LHASH \<Rightarrow> 'd LHASH" where
  "set_chain b ch lh = lh\<lparr>buckets := (buckets lh)[b := ch]\<rparr>"

text \<open>The results of the insertion: success, and what \<open>*old_data\<close> is set to.\<close>

definition OPENSSL_lh_insert ::
  "malloc \<Rightarrow> ('d \<Rightarrow> u32) \<Rightarrow> ('d \<Rightarrow> 'd \<Rightarrow> int) \<Rightarrow> 'd LHASH \<Rightarrow> 'd \<Rightarrow> bool \<times> 'd option \<times> 'd LHASH" where
  "OPENSSL_lh_insert mall hash cmp lh data =
     (case get_next_ptr_and_hash hash cmp lh data of (h, b, pos) \<Rightarrow>
        (let ch = buckets lh ! b
         in case item_at lh b pos of
              Some it \<Rightarrow> (True, Some (it_data it), set_chain b (ch[pos := it\<lparr>it_data := data\<rparr>]) lh)
            | None \<Rightarrow>
                if \<not> alloc_ok mall sizeof_LHASH_ITEM then (False, None, lh)
                else (True, None,
                  lh_maybe_resize mall
                    (set_chain b (take pos ch @ [\<lparr>it_ref = lh_next_ref lh, it_data = data, it_hash = h\<rparr>])
                      (lh\<lparr>num_items := (num_items lh + 1) mod size_mod, lh_next_ref := lh_next_ref lh + 1\<rparr>)))))"

definition OPENSSL_lh_delete ::
  "malloc \<Rightarrow> ('d \<Rightarrow> u32) \<Rightarrow> ('d \<Rightarrow> 'd \<Rightarrow> int) \<Rightarrow> 'd LHASH \<Rightarrow> 'd \<Rightarrow> 'd option \<times> 'd LHASH" where
  "OPENSSL_lh_delete mall hash cmp lh data =
     (case get_next_ptr_and_hash hash cmp lh data of (_, b, pos) \<Rightarrow>
        (let ch = buckets lh ! b
         in case item_at lh b pos of
              None \<Rightarrow> (None, lh)
            | Some it \<Rightarrow>
                (Some (it_data it),
                 lh_maybe_resize mall
                   (set_chain b (take pos ch @ drop (pos + 1) ch) (lh\<lparr>num_items := (num_items lh + size_mod - 1) mod size_mod\<rparr>)))))"

text \<open>
  \<open>OPENSSL_lh_doall_arg\<close>: the callback gets the data and may change the table (the first component
  of its state) and the caller's argument (the second). \<open>doall_chain\<close> follows one chain from the item
  \<open>cur\<close>; its address is looked up again after each callback, and the result is \<open>None\<close> if that item is
  gone (the C code would read freed memory) or if the fuel \<open>n\<close> runs out (callbacks that keep adding
  items in front of the iteration).
\<close>

definition chain_from :: "nat \<Rightarrow> 'd LHASH_ITEM list \<Rightarrow> 'd LHASH_ITEM list" where
  "chain_from r ch = dropWhile (\<lambda>it. it_ref it \<noteq> r) ch"

definition next_ref :: "'d LHASH_ITEM list \<Rightarrow> nat option" where
  "next_ref ch = (case ch of _ # it # _ \<Rightarrow> Some (it_ref it) | _ \<Rightarrow> None)"

fun doall_chain :: "('d \<Rightarrow> 'd LHASH \<times> 's \<Rightarrow> 'd LHASH \<times> 's) \<Rightarrow> nat \<Rightarrow> nat \<Rightarrow> nat option \<Rightarrow> 'd LHASH \<times> 's
    \<Rightarrow> ('d LHASH \<times> 's) option" where
  "doall_chain func n b None st = Some st"
| "doall_chain func 0 b (Some r) st = None"
| "doall_chain func (Suc n) b (Some r) st =
     (let ch = chain_from r (buckets (fst st) ! b)
      in case ch of
           [] \<Rightarrow> None
         | cur # _ \<Rightarrow> doall_chain func n b (next_ref ch) (func (it_data cur) st))"

fun doall_buckets :: "('d \<Rightarrow> 'd LHASH \<times> 's \<Rightarrow> 'd LHASH \<times> 's) \<Rightarrow> nat \<Rightarrow> nat list \<Rightarrow> 'd LHASH \<times> 's
    \<Rightarrow> ('d LHASH \<times> 's) option" where
  "doall_buckets func n [] st = Some st"
| "doall_buckets func n (b # bs) st =
     Option.bind (doall_chain func n b
         (case buckets (fst st) ! b of [] \<Rightarrow> None | it # _ \<Rightarrow> Some (it_ref it)) st)
       (doall_buckets func n bs)"

definition enter_callbacks :: "'d LHASH \<Rightarrow> 'd LHASH" where
  "enter_callbacks lh =
     (if callback_depth lh < UINT_MAX then lh\<lparr>callback_depth := callback_depth lh + 1\<rparr> else lh)"

definition leave_callbacks :: "'d LHASH \<Rightarrow> 'd LHASH" where
  "leave_callbacks lh =
     (if callback_depth lh < UINT_MAX then lh\<lparr>callback_depth := callback_depth lh - 1\<rparr> else lh)"

definition OPENSSL_lh_doall_arg ::
  "malloc \<Rightarrow> nat \<Rightarrow> ('d \<Rightarrow> 'd LHASH \<times> 's \<Rightarrow> 'd LHASH \<times> 's) \<Rightarrow> 'd LHASH \<Rightarrow> 's \<Rightarrow> ('d LHASH \<times> 's) option" where
  "OPENSSL_lh_doall_arg mall n func lh arg =
     map_option (\<lambda>(lh', arg'). (lh_maybe_resize mall (leave_callbacks lh'), arg'))
       (doall_buckets func n [0..<num_buckets lh] (enter_callbacks lh, arg))"

end
