(* ===== verification/Pool.thy ===== *)
theory Pool
  imports LHash CBS
begin

text \<open>
  The intern table of certificate buffers of \<open>crypto/pool/pool.c\<close>, with the reference counts of
  \<open>crypto/refcount_c11.c\<close>. The state holds one pool, the heap of \<open>CRYPTO_BUFFER\<close> objects by address,
  and the next address \<open>malloc\<close> returns; address \<open>0\<close> is that of the \<open>tmp\<close> object on the stack of
  \<open>crypto_buffer_new\<close>. \<open>buf->pool\<close> is a flag: the pool of the state, or null. Every critical section
  of the code (its lock held for reading or writing) is one function on the state, so that a program
  of several threads is an interleaving of these functions; \<open>other\<close> is what the other threads do between
  the two sections of \<open>crypto_buffer_new\<close>. A reference count operation is a single atomic step, as the
  compare-and-exchange loops make it. \<open>None\<close> as a whole result is an access to a freed object, or the
  \<open>abort\<close> of a count that is already zero.
\<close>

record CRYPTO_BUFFER =
  cb_pool :: bool
  cb_data :: "u8 list"
  cb_len :: nat
  cb_references :: u32
  cb_static :: bool

type_synonym buf_heap = "nat \<Rightarrow> CRYPTO_BUFFER option"

record pool_state =
  heap :: buf_heap
  bufs :: "nat LHASH"
  next_addr :: nat

definition CRYPTO_REFCOUNT_MAX :: u32 where
  "CRYPTO_REFCOUNT_MAX = 0xffffffff"

definition CRYPTO_refcount_inc :: "u32 \<Rightarrow> u32" where
  "CRYPTO_refcount_inc count = (if count \<noteq> CRYPTO_REFCOUNT_MAX then count + 1 else count)"

definition CRYPTO_refcount_dec_and_test_zero :: "u32 \<Rightarrow> (bool \<times> u32) option" where
  "CRYPTO_refcount_dec_and_test_zero count =
     (if count = 0 then None
      else if count = CRYPTO_REFCOUNT_MAX then Some (False, count)
      else Some (count - 1 = 0, count - 1))"

definition sizeof_CRYPTO_BUFFER :: nat where
  "sizeof_CRYPTO_BUFFER = 32"

definition sizeof_CRYPTO_BUFFER_POOL :: nat where
  "sizeof_CRYPTO_BUFFER_POOL = 64"

subsection \<open>Hash and comparison\<close>

definition CRYPTO_BUFFER_hash :: "CRYPTO_BUFFER \<Rightarrow> u32" where
  "CRYPTO_BUFFER_hash buf = OPENSSL_hash32 (cb_data buf) (cb_len buf)"

definition CRYPTO_BUFFER_cmp :: "CRYPTO_BUFFER \<Rightarrow> CRYPTO_BUFFER \<Rightarrow> int" where
  "CRYPTO_BUFFER_cmp a b =
     (if cb_len a \<noteq> cb_len b then 1 else OPENSSL_memcmp (cb_data a) (cb_data b) (cb_len a))"

text \<open>The wrappers that the table calls, on addresses.\<close>

definition buf_hash :: "buf_heap \<Rightarrow> nat \<Rightarrow> u32" where
  "buf_hash h a = (case h a of None \<Rightarrow> 0 | Some b \<Rightarrow> CRYPTO_BUFFER_hash b)"

definition buf_cmp :: "buf_heap \<Rightarrow> nat \<Rightarrow> nat \<Rightarrow> int" where
  "buf_cmp h a b = (case (h a, h b) of (Some x, Some y) \<Rightarrow> CRYPTO_BUFFER_cmp x y | _ \<Rightarrow> 1)"

definition pool_retrieve :: "buf_heap \<Rightarrow> nat LHASH \<Rightarrow> nat \<Rightarrow> nat option" where
  "pool_retrieve h = OPENSSL_lh_retrieve (buf_hash h) (buf_cmp h)"

subsection \<open>Operations\<close>

definition CRYPTO_BUFFER_POOL_new :: "malloc \<Rightarrow> pool_state option" where
  "CRYPTO_BUFFER_POOL_new mall =
     (if \<not> alloc_ok mall sizeof_CRYPTO_BUFFER_POOL then None
      else map_option (\<lambda>lh. \<lparr>heap = Map.empty, bufs = lh, next_addr = 1\<rparr>) (OPENSSL_lh_new mall))"

definition set_refs :: "nat \<Rightarrow> u32 \<Rightarrow> pool_state \<Rightarrow> pool_state" where
  "set_refs a n st = st\<lparr>heap := (heap st)(a := map_option (\<lambda>b. b\<lparr>cb_references := n\<rparr>) (heap st a))\<rparr>"

definition crypto_buffer_free_object :: "nat \<Rightarrow> pool_state \<Rightarrow> pool_state" where
  "crypto_buffer_free_object a st = st\<lparr>heap := (heap st)(a := None)\<rparr>"

definition CRYPTO_BUFFER_up_ref :: "nat \<Rightarrow> pool_state \<Rightarrow> pool_state option" where
  "CRYPTO_BUFFER_up_ref a st =
     map_option (\<lambda>b. set_refs a (CRYPTO_refcount_inc (cb_references b)) st) (heap st a)"

text \<open>A duplicate is not used where a static buffer would replace one that is not.\<close>

definition usable :: "buf_heap \<Rightarrow> bool \<Rightarrow> nat option \<Rightarrow> nat option" where
  "usable h data_is_static dup =
     (case dup of
        None \<Rightarrow> None
      | Some a \<Rightarrow> (case h a of
                     None \<Rightarrow> None
                   | Some b \<Rightarrow> if data_is_static \<and> \<not> cb_static b then None else Some a))"

definition tmp_addr :: nat where
  "tmp_addr = 0"

text \<open>The section of \<open>crypto_buffer_new\<close> under the read lock.\<close>

definition lookup_section :: "u8 list \<Rightarrow> nat \<Rightarrow> bool \<Rightarrow> pool_state \<Rightarrow> (nat option \<times> pool_state) option" where
  "lookup_section data len data_is_static st =
     (let tmp = \<lparr>cb_pool = False, cb_data = data, cb_len = len, cb_references = 0, cb_static = False\<rparr>;
          duplicate = usable (heap st) data_is_static
                        (pool_retrieve ((heap st)(tmp_addr := Some tmp)) (bufs st) tmp_addr)
      in case duplicate of
           None \<Rightarrow> Some (None, st)
         | Some a \<Rightarrow> map_option (Pair (Some a)) (CRYPTO_BUFFER_up_ref a st))"

text \<open>The allocation of the new object, outside the locks.\<close>

definition alloc_buffer ::
  "malloc \<Rightarrow> u8 list \<Rightarrow> nat \<Rightarrow> bool \<Rightarrow> bool \<Rightarrow> pool_state \<Rightarrow> nat option \<times> pool_state" where
  "alloc_buffer mall data len data_is_static pool st =
     (let a = next_addr st;
          new = (\<lambda>d. st\<lparr>heap := (heap st)(a \<mapsto> \<lparr>cb_pool = pool, cb_data = d, cb_len = len,
                                              cb_references = 1, cb_static = data_is_static\<rparr>),
                       next_addr := a + 1\<rparr>)
      in if \<not> alloc_ok mall sizeof_CRYPTO_BUFFER then (None, st)
         else if data_is_static then (Some a, new data)
         else (case OPENSSL_memdup mall data len of
                 None \<Rightarrow> if len \<noteq> 0 then (None, st) else (Some a, new [])
               | Some d \<Rightarrow> (Some a, new d)))"

text \<open>The section under the write lock, and the release of the object that was not inserted.\<close>

definition insert_section :: "malloc \<Rightarrow> nat \<Rightarrow> pool_state \<Rightarrow> (nat option \<times> pool_state) option" where
  "insert_section mall buf st =
     (case heap st buf of
        None \<Rightarrow> None
      | Some b \<Rightarrow>
          (case usable (heap st) (cb_static b) (pool_retrieve (heap st) (bufs st) buf) of
             None \<Rightarrow>
               (case OPENSSL_lh_insert mall (buf_hash (heap st)) (buf_cmp (heap st)) (bufs st) buf of
                  (inserted, old, lh) \<Rightarrow>
                    if inserted then Some (Some buf, st\<lparr>bufs := lh\<rparr>)
                    else Some (None, crypto_buffer_free_object buf (st\<lparr>bufs := lh\<rparr>)))
           | Some dup \<Rightarrow>
               map_option (\<lambda>st'. (Some dup, crypto_buffer_free_object buf st'))
                 (CRYPTO_BUFFER_up_ref dup st)))"

definition crypto_buffer_new ::
  "malloc \<Rightarrow> (pool_state \<Rightarrow> pool_state) \<Rightarrow> u8 list \<Rightarrow> nat \<Rightarrow> bool \<Rightarrow> bool \<Rightarrow> pool_state
     \<Rightarrow> (nat option \<times> pool_state) option" where
  "crypto_buffer_new mall other data len data_is_static pool st =
     (let allocate = (\<lambda>st. case alloc_buffer mall data len data_is_static pool st of
                         (None, st') \<Rightarrow> Some (None, st')
                       | (Some buf, st') \<Rightarrow>
                           if \<not> pool then Some (Some buf, st') else insert_section mall buf (other st'))
      in if pool then
           (case lookup_section data len data_is_static st of
              None \<Rightarrow> None
            | Some (Some dup, st') \<Rightarrow> Some (Some dup, st')
            | Some (None, st') \<Rightarrow> allocate st')
         else allocate st)"

definition CRYPTO_BUFFER_new where
  "CRYPTO_BUFFER_new mall other data len pool st = crypto_buffer_new mall other data len False pool st"

definition CRYPTO_BUFFER_new_from_CBS where
  "CRYPTO_BUFFER_new_from_CBS mall other cbs pool st =
     CRYPTO_BUFFER_new mall other (CBS_data cbs) (CBS_len cbs) pool st"

definition CRYPTO_BUFFER_new_from_static_data_unsafe where
  "CRYPTO_BUFFER_new_from_static_data_unsafe mall other data len pool st =
     crypto_buffer_new mall other data len True pool st"

definition CRYPTO_BUFFER_alloc :: "malloc \<Rightarrow> nat \<Rightarrow> pool_state \<Rightarrow> nat option \<times> pool_state" where
  "CRYPTO_BUFFER_alloc mall len st =
     (let a = next_addr st in
      if \<not> alloc_ok mall sizeof_CRYPTO_BUFFER then (None, st)
      else (case OPENSSL_malloc mall len of
              None \<Rightarrow>
                if len \<noteq> 0 then (None, st)
                else (Some a, st\<lparr>heap := (heap st)(a \<mapsto> \<lparr>cb_pool = False, cb_data = [], cb_len = len,
                                         cb_references = 1, cb_static = False\<rparr>), next_addr := a + 1\<rparr>)
            | Some d \<Rightarrow>
                (Some a, st\<lparr>heap := (heap st)(a \<mapsto> \<lparr>cb_pool = False, cb_data = d, cb_len = len,
                                         cb_references = 1, cb_static = False\<rparr>), next_addr := a + 1\<rparr>)))"

definition CRYPTO_BUFFER_free :: "malloc \<Rightarrow> nat \<Rightarrow> pool_state \<Rightarrow> pool_state option" where
  "CRYPTO_BUFFER_free mall a st =
     (case heap st a of
        None \<Rightarrow> None
      | Some b \<Rightarrow>
          (case CRYPTO_refcount_dec_and_test_zero (cb_references b) of
             None \<Rightarrow> None
           | Some (False, n) \<Rightarrow> Some (set_refs a n st)
           | Some (True, n) \<Rightarrow>
               if \<not> cb_pool b then Some (crypto_buffer_free_object a (set_refs a n st))
               else (let st1 = set_refs a n st;
                         found = pool_retrieve (heap st1) (bufs st1) a;
                         st2 = (if found = Some a
                                then st1\<lparr>bufs := snd (OPENSSL_lh_delete mall (buf_hash (heap st1))
                                                    (buf_cmp (heap st1)) (bufs st1) a)\<rparr>
                                else st1)
                     in Some (crypto_buffer_free_object a st2))))"

definition CRYPTO_BUFFER_data :: "CRYPTO_BUFFER \<Rightarrow> u8 list" where
  "CRYPTO_BUFFER_data buf = cb_data buf"

definition CRYPTO_BUFFER_len :: "CRYPTO_BUFFER \<Rightarrow> nat" where
  "CRYPTO_BUFFER_len buf = cb_len buf"

definition CRYPTO_BUFFER_init_CBS :: "CRYPTO_BUFFER \<Rightarrow> CBS" where
  "CRYPTO_BUFFER_init_CBS buf = CBS_init (cb_data buf) (cb_len buf)"

end
