(* ===== verification/LHash_Spec.thy ===== *)
theory LHash_Spec
  imports LHash "HOL-Library.Multiset"
begin

text \<open>
  The hash table as a finite map. The contract of the caller's hash and comparison functions is the
  locale \<open>lh_compat\<close>: equality up to the comparison is an equivalence on the data in use, and equal
  data have equal hashes. Inside it, the operations are shown to keep the table's invariant and to act
  as lookup, update and removal on the map \<open>lh_lookup\<close> from data to the equal element of the table,
  whatever resizing they trigger.
\<close>

subsection \<open>Chains\<close>

definition items :: "'d LHASH \<Rightarrow> 'd LHASH_ITEM list" where
  "items lh = concat (buckets lh)"

lemma chain_pos_le: "chain_pos eq ch \<le> length ch"
  by (induction ch) auto

lemma chain_pos_found:
  "chain_pos eq ch < length ch \<Longrightarrow> eq (it_data (ch ! chain_pos eq ch))"
  by (induction ch) auto

lemma chain_pos_missing:
  "chain_pos eq ch = length ch \<longleftrightarrow> (\<forall>it\<in>set ch. \<not> eq (it_data it))"
  by (induction ch) auto

lemma mset_concat_update:
  "b < length xs \<Longrightarrow> mset (concat (xs[b := ch])) + mset (xs ! b) = mset (concat xs) + mset ch"
proof (induction xs arbitrary: b)
  case (Cons x xs)
  show ?case
  proof (cases b)
    case (Suc k)
    with Cons.IH [of k] Cons.prems show ?thesis by (simp add: ac_simps)
  qed (simp add: ac_simps)
qed simp

lemma find_SomeD: "find P xs = Some x \<Longrightarrow> x \<in> set xs \<and> P x"
  by (auto simp: find_Some_iff)

lemma exchange:
  fixes a b c d e f :: "'a multiset"
  assumes "a + c = b + d" "d + e = c + f"
  shows "a + e = b + f"
proof -
  have "(a + e) + c = (a + c) + e" by (simp only: ac_simps)
  also have "\<dots> = b + (d + e)" by (simp only: assms(1) add.assoc)
  also have "\<dots> = (b + f) + c" by (simp only: assms(2) ac_simps)
  finally show ?thesis by simp
qed

lemma mod_pred: "0 < m \<Longrightarrow> (Suc n mod m + m - 1) mod m = n mod (m :: nat)"
  by (auto simp: mod_Suc)

lemma foldl_foldl: "foldl (foldl f) a xss = foldl f a (concat xss)"
  by (induction xss arbitrary: a) auto

definition placed :: "'d LHASH_ITEM list list \<Rightarrow> bool" where
  "placed bs \<longleftrightarrow> (\<forall>b<length bs. \<forall>it\<in>set (bs ! b). unat (it_hash it) mod length bs = b)"

lemma rebucket_correct:
  assumes "0 < n" "length bs = n" "placed bs"
  shows "length (foldl (rebucket_item n) bs its) = n \<and> placed (foldl (rebucket_item n) bs its) \<and>
    mset (concat (foldl (rebucket_item n) bs its)) = mset (concat bs) + mset its"
  using assms(2, 3)
proof (induction its arbitrary: bs)
  case (Cons it its)
  define b where "b = unat (it_hash it) mod n"
  define bs' where "bs' = bs[b := it # bs ! b]"
  have b: "b < length bs" using assms(1) Cons.prems(1) by (simp add: b_def)
  have "placed bs'"
    using Cons.prems b by (auto simp: placed_def bs'_def b_def nth_list_update)
  moreover have "mset (concat bs') = mset (concat bs) + {#it#}"
    using mset_concat_update [OF b, of "it # bs ! b"] by (simp add: bs'_def)
  moreover have "rebucket_item n bs it = bs'" by (simp add: rebucket_item_def b_def bs'_def Let_def)
  moreover have "length bs' = n" using Cons.prems(1) by (simp add: bs'_def)
  ultimately show ?case using Cons.IH [of bs'] by simp
qed simp

definition lh_shape :: "'d LHASH \<Rightarrow> bool" where
  "lh_shape lh \<longleftrightarrow> length (buckets lh) = num_buckets lh \<and> kMinNumBuckets \<le> num_buckets lh \<and>
     sizeof_item_ptr * num_buckets lh < size_mod \<and> placed (buckets lh) \<and>
     num_items lh = length (items lh) mod size_mod"

lemma lh_shapeD:
  assumes "lh_shape lh"
  shows "length (buckets lh) = num_buckets lh" "0 < num_buckets lh" "placed (buckets lh)"
    "num_items lh = length (items lh) mod size_mod"
  using assms by (auto simp: lh_shape_def kMinNumBuckets_def)

lemma rebucket_shape:
  assumes "lh_shape lh" "kMinNumBuckets \<le> n" "n < size_mod"
  shows "lh_shape (lh_rebucket mall n lh) \<and> mset (items (lh_rebucket mall n lh)) = mset (items lh) \<and>
    num_items (lh_rebucket mall n lh) = num_items lh \<and> lh_next_ref (lh_rebucket mall n lh) = lh_next_ref lh"
proof (cases "sizeof_item_ptr * n mod size_mod div sizeof_item_ptr \<noteq> n \<or> \<not> alloc_ok mall (sizeof_item_ptr * n mod size_mod)")
  case True
  then show ?thesis using assms(1) by (auto simp: lh_rebucket_def Let_def)
next
  case False
  let ?bs = "foldl (rebucket_item n) (replicate n []) (items lh)"
  have "0 < n" using assms(2) by (simp add: kMinNumBuckets_def)
  moreover have "placed (replicate n [])" by (simp add: placed_def)
  ultimately have bs: "length ?bs = n \<and> placed ?bs \<and> mset (concat ?bs) = mset (items lh)"
    using rebucket_correct [of n "replicate n []" "items lh"] by simp
  then have "length (concat ?bs) = length (items lh)" by (metis size_mset)
  moreover have "sizeof_item_ptr * n < size_mod"
    using False by (auto simp: sizeof_item_ptr_def)
  moreover have "lh_rebucket mall n lh = lh\<lparr>buckets := ?bs, num_buckets := n\<rparr>"
    using False by (auto simp: lh_rebucket_def Let_def foldl_foldl items_def)
  ultimately show ?thesis
    using bs assms(1, 2) by (simp add: lh_shape_def items_def)
qed

lemma maybe_resize_shape:
  assumes "lh_shape lh"
  shows "lh_shape (lh_maybe_resize mall lh) \<and> mset (items (lh_maybe_resize mall lh)) = mset (items lh) \<and>
    num_items (lh_maybe_resize mall lh) = num_items lh \<and>
    lh_next_ref (lh_maybe_resize mall lh) = lh_next_ref lh"
proof -
  have n: "kMinNumBuckets \<le> num_buckets lh" "sizeof_item_ptr * num_buckets lh < size_mod"
    using assms by (simp_all add: lh_shape_def)
  have keep: "lh_shape lh \<and> mset (items lh) = mset (items lh) \<and> num_items lh = num_items lh \<and>
      lh_next_ref lh = lh_next_ref lh" using assms by simp
  have dbl: "kMinNumBuckets \<le> num_buckets lh * 2 mod size_mod" if "num_buckets lh < num_buckets lh * 2 mod size_mod"
    using that n by simp
  let ?h = "if num_buckets lh div 2 < kMinNumBuckets then kMinNumBuckets else num_buckets lh div 2"
  have half: "kMinNumBuckets \<le> ?h" "?h < size_mod"
    using n by (auto simp: kMinNumBuckets_def sizeof_item_ptr_def)
  show ?thesis
    unfolding lh_maybe_resize_def Let_def
    using keep rebucket_shape [OF assms dbl] rebucket_shape [OF assms half] by (simp split: if_splits)
qed

lemma set_chain_shape:
  assumes "lh_shape lh" "b < num_buckets lh"
    and "\<And>it. it \<in> set ch \<Longrightarrow> unat (it_hash it) mod num_buckets lh = b"
  shows "mset (items (set_chain b ch lh)) + mset (buckets lh ! b) = mset (items lh) + mset ch"
    and "length (buckets (set_chain b ch lh)) = num_buckets lh" "placed (buckets (set_chain b ch lh))"
proof -
  have b: "b < length (buckets lh)" using assms(1, 2) by (simp add: lh_shape_def)
  from mset_concat_update [OF b, of ch]
  show "mset (items (set_chain b ch lh)) + mset (buckets lh ! b) = mset (items lh) + mset ch"
    by (simp add: items_def set_chain_def)
  show "length (buckets (set_chain b ch lh)) = num_buckets lh"
    using assms(1) by (simp add: set_chain_def lh_shape_def)
  show "placed (buckets (set_chain b ch lh))"
    using assms b by (auto simp: placed_def set_chain_def lh_shape_def nth_list_update)
qed

lemma lh_shape_placed:
  "lh_shape lh \<Longrightarrow> b < num_buckets lh \<Longrightarrow> it \<in> set (buckets lh ! b) \<Longrightarrow> unat (it_hash it) mod num_buckets lh = b"
  by (auto simp: lh_shape_def placed_def)

definition table_good ::
  "'d set \<Rightarrow> ('d \<Rightarrow> u32) \<Rightarrow> ('d \<Rightarrow> 'd \<Rightarrow> int) \<Rightarrow> nat \<Rightarrow> 'd LHASH_ITEM list \<Rightarrow> bool" where
  "table_good U hash cmp nref its \<longleftrightarrow> distinct (map it_ref its) \<and>
     (\<forall>it\<in>set its. it_data it \<in> U \<and> it_hash it = hash (it_data it) \<and> it_ref it < nref) \<and>
     (\<forall>x\<in>set its. \<forall>y\<in>set its. cmp (it_data x) (it_data y) = 0 \<longrightarrow> x = y)"

definition table_inv :: "'d set \<Rightarrow> ('d \<Rightarrow> u32) \<Rightarrow> ('d \<Rightarrow> 'd \<Rightarrow> int) \<Rightarrow> 'd LHASH \<Rightarrow> bool" where
  "table_inv U hash cmp lh \<longleftrightarrow> lh_shape lh \<and> table_good U hash cmp (lh_next_ref lh) (items lh)"

definition table_lookup :: "('d \<Rightarrow> 'd \<Rightarrow> int) \<Rightarrow> 'd LHASH \<Rightarrow> 'd \<Rightarrow> 'd option" where
  "table_lookup cmp lh q = find (\<lambda>d. cmp d q = 0) (map it_data (items lh))"

subsection \<open>The contract of hash and comparison\<close>

locale lh_compat =
  fixes U :: "'d set" and hash :: "'d \<Rightarrow> u32" and cmp :: "'d \<Rightarrow> 'd \<Rightarrow> int"
  assumes cmp_refl: "d \<in> U \<Longrightarrow> cmp d d = 0"
    and cmp_sym: "d \<in> U \<Longrightarrow> e \<in> U \<Longrightarrow> cmp d e = 0 \<Longrightarrow> cmp e d = 0"
    and cmp_trans: "d \<in> U \<Longrightarrow> e \<in> U \<Longrightarrow> f \<in> U \<Longrightarrow> cmp d e = 0 \<Longrightarrow> cmp e f = 0 \<Longrightarrow> cmp d f = 0"
    and hash_cong: "d \<in> U \<Longrightarrow> e \<in> U \<Longrightarrow> cmp d e = 0 \<Longrightarrow> hash d = hash e"
begin

abbreviation good_items :: "nat \<Rightarrow> 'd LHASH_ITEM list \<Rightarrow> bool" where
  "good_items \<equiv> table_good U hash cmp"

abbreviation lh_inv :: "'d LHASH \<Rightarrow> bool" where
  "lh_inv \<equiv> table_inv U hash cmp"

abbreviation lh_lookup :: "'d LHASH \<Rightarrow> 'd \<Rightarrow> 'd option" where
  "lh_lookup \<equiv> table_lookup cmp"

lemma good_items_mset:
  assumes "mset its = mset its'"
  shows "good_items n its \<longleftrightarrow> good_items n its'"
proof -
  have "mset (map it_ref its) = mset (map it_ref its')" using assms by simp
  then have "distinct (map it_ref its) \<longleftrightarrow> distinct (map it_ref its')" by (rule mset_eq_imp_distinct_iff)
  with mset_eq_setD [OF assms] show ?thesis by (simp add: table_good_def)
qed

lemma maybe_resize_inv:
  "lh_inv lh \<Longrightarrow> lh_inv (lh_maybe_resize mall lh) \<and> mset (items (lh_maybe_resize mall lh)) = mset (items lh)"
  using maybe_resize_shape [of lh mall] good_items_mset [of "items (lh_maybe_resize mall lh)" "items lh"]
  by (simp add: table_inv_def)

lemma lh_invD:
  assumes "lh_inv lh"
  shows "lh_shape lh" "length (buckets lh) = num_buckets lh" "0 < num_buckets lh"
    "good_items (lh_next_ref lh) (items lh)"
    "it \<in> set (items lh) \<Longrightarrow> it_data it \<in> U"
    "it \<in> set (items lh) \<Longrightarrow> it_hash it = hash (it_data it)"
  using assms by (auto simp: table_inv_def table_good_def dest: lh_shapeD)

lemma lookup_iff:
  assumes "lh_inv lh" "q \<in> U"
  shows "lh_lookup lh q = Some d \<longleftrightarrow> (\<exists>it\<in>set (items lh). it_data it = d \<and> cmp d q = 0)"
proof
  assume "lh_lookup lh q = Some d"
  then show "\<exists>it\<in>set (items lh). it_data it = d \<and> cmp d q = 0"
    by (auto simp: table_lookup_def dest!: find_SomeD)
next
  assume "\<exists>it\<in>set (items lh). it_data it = d \<and> cmp d q = 0"
  then obtain it where it: "it \<in> set (items lh)" "it_data it = d" "cmp d q = 0" by blast
  then obtain e where e: "lh_lookup lh q = Some e"
    by (cases "lh_lookup lh q") (auto simp: table_lookup_def find_None_iff)
  then obtain it' where it': "it' \<in> set (items lh)" "it_data it' = e" "cmp e q = 0"
    by (auto simp: table_lookup_def dest!: find_SomeD)
  have U: "d \<in> U" "e \<in> U" using it it' lh_invD(5) [OF assms(1)] by auto
  then have "cmp d e = 0" using cmp_trans [OF U(1) assms(2) U(2) it(3)] cmp_sym [OF U(2) assms(2) it'(3)] by simp
  then have "it = it'" using lh_invD(4) [OF assms(1)] it it' by (auto simp: table_good_def)
  with it it' e show "lh_lookup lh q = Some d" by simp
qed

lemma lookup_None_iff:
  "lh_lookup lh q = None \<longleftrightarrow> (\<forall>it\<in>set (items lh). cmp (it_data it) q \<noteq> 0)"
  by (auto simp: table_lookup_def find_None_iff)

lemma in_items: "lh_shape lh \<Longrightarrow> it \<in> set (items lh) \<longleftrightarrow> (\<exists>b<num_buckets lh. it \<in> set (buckets lh ! b))"
  by (auto simp: items_def lh_shape_def in_set_conv_nth) (metis in_set_conv_nth)+

text \<open>The search of a chain, through the hash, finds what the whole table holds.\<close>

lemma search:
  assumes "lh_inv lh" "q \<in> U" "get_next_ptr_and_hash hash cmp lh q = (h, b, pos)"
  shows "b < num_buckets lh" "h = hash q" "b = unat (hash q) mod num_buckets lh"
    "item_at lh b pos = None \<Longrightarrow> lh_lookup lh q = None \<and> pos = length (buckets lh ! b)"
    "item_at lh b pos = Some it \<Longrightarrow>
       it \<in> set (items lh) \<and> cmp (it_data it) q = 0 \<and> lh_lookup lh q = Some (it_data it) \<and>
       pos < length (buckets lh ! b) \<and> it = buckets lh ! b ! pos"
proof -
  note inv = lh_invD [OF assms(1)]
  from assms(3) have g: "h = hash q" "b = unat (hash q) mod num_buckets lh"
      "pos = chain_pos (\<lambda>d. cmp d q = 0) (buckets lh ! b)"
    by (auto simp: get_next_ptr_and_hash_def Let_def)
  then show b: "b < num_buckets lh" and "h = hash q" "b = unat (hash q) mod num_buckets lh"
    using inv(3) by simp_all
  show "lh_lookup lh q = None \<and> pos = length (buckets lh ! b)" if n: "item_at lh b pos = None"
  proof
    show len: "pos = length (buckets lh ! b)"
      using n chain_pos_le [of "\<lambda>d. cmp d q = 0" "buckets lh ! b"] by (simp add: item_at_def g(3) split: if_splits)
    have "cmp (it_data it) q \<noteq> 0" if it: "it \<in> set (items lh)" for it
    proof
      assume "cmp (it_data it) q = 0"
      with hash_cong [OF inv(5) [OF it] assms(2)] inv(6) [OF it] have "it_hash it = hash q" by simp
      moreover obtain c where c: "c < num_buckets lh" "it \<in> set (buckets lh ! c)"
        using it in_items [OF inv(1)] by auto
      moreover have "unat (it_hash it) mod num_buckets lh = c"
        using lh_shapeD(3) [OF inv(1)] inv(2) c by (simp add: placed_def)
      ultimately have "it \<in> set (buckets lh ! b)" by (simp add: g(2))
      with len \<open>cmp (it_data it) q = 0\<close> chain_pos_missing [of "\<lambda>d. cmp d q = 0" "buckets lh ! b"]
      show False by (simp add: g(3))
    qed
    then show "lh_lookup lh q = None" by (simp add: lookup_None_iff)
  qed
  show "it \<in> set (items lh) \<and> cmp (it_data it) q = 0 \<and> lh_lookup lh q = Some (it_data it) \<and>
       pos < length (buckets lh ! b) \<and> it = buckets lh ! b ! pos" if s: "item_at lh b pos = Some it"
  proof -
    from s have p: "pos < length (buckets lh ! b)" "it = buckets lh ! b ! pos"
      by (simp_all add: item_at_def split: if_splits)
    then have "cmp (it_data it) q = 0"
      using chain_pos_found [of "\<lambda>d. cmp d q = 0" "buckets lh ! b"] by (simp add: g(3))
    moreover have "it \<in> set (items lh)" using p b in_items [OF inv(1)] by auto
    ultimately show ?thesis using p lookup_iff [OF assms(1, 2)] by auto
  qed
qed

lemma retrieve_lookup:
  assumes "lh_inv lh" "q \<in> U"
  shows "OPENSSL_lh_retrieve hash cmp lh q = lh_lookup lh q"
proof -
  obtain h b pos where g: "get_next_ptr_and_hash hash cmp lh q = (h, b, pos)" by (cases "get_next_ptr_and_hash hash cmp lh q")
  from search(4, 5) [OF assms g] show ?thesis
    by (cases "item_at lh b pos") (auto simp: OPENSSL_lh_retrieve_def g)
qed

lemma replace_inv:
  assumes "lh_inv lh" "d \<in> U" "get_next_ptr_and_hash hash cmp lh d = (h, b, pos)" "item_at lh b pos = Some it"
  defines "lh' \<equiv> set_chain b ((buckets lh ! b)[pos := it\<lparr>it_data := d\<rparr>]) lh"
  shows "lh_inv lh' \<and> set (items lh') = insert (it\<lparr>it_data := d\<rparr>) (set (items lh) - {it}) \<and>
    num_items lh' = num_items lh"
proof -
  note inv = lh_invD [OF assms(1)]
  note sr = search(1-3) [OF assms(1-3)]
  let ?it = "it\<lparr>it_data := d\<rparr>" and ?ch = "buckets lh ! b"
  have it: "it \<in> set (items lh)" "cmp (it_data it) d = 0" "pos < length ?ch" "?ch ! pos = it"
    using search(5) [OF assms(1-4)] by blast+
  have h: "hash (it_data it) = hash d" by (rule hash_cong [OF inv(5) [OF it(1)] assms(2) it(2)])
  have pl: "unat (it_hash x) mod num_buckets lh = b" if "x \<in> set (?ch[pos := ?it])" for x
    using that set_update_subset_insert [of ?ch pos ?it] lh_shape_placed [OF inv(1) sr(1)] sr it inv(6) h by auto
  have sh: "mset (items lh') + mset ?ch = mset (items lh) + mset (?ch[pos := ?it])"
      "length (buckets lh') = num_buckets lh" "placed (buckets lh')"
    unfolding lh'_def by (rule set_chain_shape [OF inv(1) sr(1)], rule pl, assumption)+
  have "it \<in># mset ?ch" using it(3, 4) by auto
  then have "mset (?ch[pos := ?it]) + {#it#} = mset ?ch + {#?it#}"
    by (simp add: mset_update [OF it(3)] it(4))
  from exchange [OF sh(1) this] have ms: "mset (items lh') + {#it#} = mset (items lh) + {#?it#}" .
  obtain rest where rest: "mset (items lh) = add_mset it (mset rest)"
    using it(1) by (metis ex_mset insert_DiffM set_mset_mset)
  have good: "good_items (lh_next_ref lh) (it # rest)"
    using good_items_mset [of "items lh" "it # rest"] rest inv(4) by simp
  from ms rest have ms': "mset (items lh') = mset (?it # rest)" by simp
  have apart: "x = it" if "x \<in> set (it # rest)" "cmp (it_data x) d = 0 \<or> cmp d (it_data x) = 0" for x
  proof -
    have "it_data x \<in> U" "it_data it \<in> U" using good that(1) by (auto simp: table_good_def)
    then have "cmp (it_data x) (it_data it) = 0"
      using that(2) it(2) cmp_sym [OF assms(2), of "it_data x"] cmp_sym [OF _ assms(2), of "it_data it"]
        cmp_trans [of "it_data x" d "it_data it"] assms(2) by blast
    then show ?thesis using good that(1) by (auto simp: table_good_def)
  qed
  have "it \<notin> set rest" using good by (auto simp: table_good_def)
  with good apart have "good_items (lh_next_ref lh) (?it # rest)"
    using assms(2) h by (auto simp: table_good_def)
  moreover have "lh_shape lh'"
    using sh(2, 3) inv(1) arg_cong [OF ms, of size] by (auto simp: lh_shape_def lh'_def set_chain_def)
  ultimately have "lh_inv lh'"
    using good_items_mset [OF ms'] by (simp add: table_inv_def lh'_def set_chain_def)
  moreover have "set (items lh') = insert ?it (set rest)" "set (items lh) = insert it (set rest)"
    using mset_eq_setD [OF ms'] mset_eq_setD [of "items lh" "it # rest"] rest by simp_all
  ultimately show ?thesis using \<open>it \<notin> set rest\<close> by (auto simp: lh'_def set_chain_def)
qed

lemma append_inv:
  assumes "lh_inv lh" "d \<in> U" "get_next_ptr_and_hash hash cmp lh d = (h, b, pos)" "item_at lh b pos = None"
  defines "it \<equiv> \<lparr>it_ref = lh_next_ref lh, it_data = d, it_hash = h\<rparr>"
  defines "lh' \<equiv> set_chain b (take pos (buckets lh ! b) @ [it])
      (lh\<lparr>num_items := (num_items lh + 1) mod size_mod, lh_next_ref := lh_next_ref lh + 1\<rparr>)"
  shows "lh_inv lh' \<and> set (items lh') = insert it (set (items lh)) \<and> length (items lh') = Suc (length (items lh))"
proof -
  note inv = lh_invD [OF assms(1)]
  note sr = search(1-3) [OF assms(1-3)]
  have none: "lh_lookup lh d = None" "take pos (buckets lh ! b) = buckets lh ! b"
    using search(4) [OF assms(1-4)] by simp_all
  have pl: "unat (it_hash x) mod num_buckets lh = b" if "x \<in> set (buckets lh ! b @ [it])" for x
    using that lh_shape_placed [OF inv(1) sr(1)] sr by (auto simp: it_def)
  have sh: "mset (items (set_chain b (buckets lh ! b @ [it]) lh)) + mset (buckets lh ! b)
        = mset (items lh) + mset (buckets lh ! b @ [it])"
      "length (buckets (set_chain b (buckets lh ! b @ [it]) lh)) = num_buckets lh"
      "placed (buckets (set_chain b (buckets lh ! b @ [it]) lh))"
    by (rule set_chain_shape [OF inv(1) sr(1)], rule pl, assumption)+
  have same: "buckets lh' = buckets (set_chain b (buckets lh ! b @ [it]) lh)"
    by (simp add: lh'_def set_chain_def none(2))
  then have ms: "mset (items lh') = mset (it # items lh)"
    using sh(1) by (simp add: items_def ac_simps)
  then have len: "length (items lh') = Suc (length (items lh))" using mset_eq_length [OF ms] by simp
  have "cmp (it_data x) d \<noteq> 0 \<and> cmp d (it_data x) \<noteq> 0 \<and> it_ref x < lh_next_ref lh" if x: "x \<in> set (items lh)" for x
    using x none(1) inv(4) cmp_sym [OF assms(2) inv(5) [OF x]]
    by (auto simp: lookup_None_iff table_good_def)
  then have "good_items (lh_next_ref lh + 1) (it # items lh)"
    using inv(4) assms(2) sr(2) by (fastforce simp: table_good_def it_def)
  then have "good_items (lh_next_ref lh') (items lh')"
    using good_items_mset [OF ms] by (simp add: lh'_def set_chain_def)
  moreover have "lh_shape lh'"
    using sh(2, 3) same len inv(1) lh_shapeD(4) [OF inv(1)]
    by (simp add: lh_shape_def lh'_def set_chain_def mod_Suc_eq)
  ultimately show ?thesis using mset_eq_setD [OF ms] len by (simp add: table_inv_def)
qed

lemma remove_inv:
  assumes "lh_inv lh" "d \<in> U" "get_next_ptr_and_hash hash cmp lh d = (h, b, pos)" "item_at lh b pos = Some it"
  defines "lh' \<equiv> set_chain b (take pos (buckets lh ! b) @ drop (pos + 1) (buckets lh ! b))
      (lh\<lparr>num_items := (num_items lh + size_mod - 1) mod size_mod\<rparr>)"
  shows "lh_inv lh' \<and> set (items lh') = set (items lh) - {it} \<and> Suc (length (items lh')) = length (items lh)"
proof -
  note inv = lh_invD [OF assms(1)]
  note sr = search(1-3) [OF assms(1-3)]
  let ?ch = "buckets lh ! b"
  let ?ch' = "take pos ?ch @ drop (pos + 1) ?ch"
  have it: "it \<in> set (items lh)" "pos < length ?ch" "?ch ! pos = it"
    using search(5) [OF assms(1-4)] by blast+
  have split: "?ch = take pos ?ch @ it # drop (pos + 1) ?ch"
    using id_take_nth_drop [OF it(2)] it(3) by simp
  have pl: "unat (it_hash x) mod num_buckets lh = b" if "x \<in> set ?ch'" for x
    using that lh_shape_placed [OF inv(1) sr(1)] by (auto dest: in_set_takeD in_set_dropD)
  have sh: "mset (items (set_chain b ?ch' lh)) + mset ?ch = mset (items lh) + mset ?ch'"
      "length (buckets (set_chain b ?ch' lh)) = num_buckets lh" "placed (buckets (set_chain b ?ch' lh))"
    by (rule set_chain_shape [OF inv(1) sr(1)], rule pl, assumption)+
  have same: "buckets lh' = buckets (set_chain b ?ch' lh)"
    by (simp add: lh'_def set_chain_def)
  have "mset ?ch = mset ?ch' + {#it#}" using arg_cong [OF split, of mset] by simp
  then have ms: "mset (it # items lh') = mset (items lh)"
    using sh(1) same by (simp add: items_def ac_simps)
  then have len: "Suc (length (items lh')) = length (items lh)" using mset_eq_length [OF ms] by simp
  have good: "good_items (lh_next_ref lh) (it # items lh')" using good_items_mset [OF ms] inv(4) by simp
  then have "good_items (lh_next_ref lh') (items lh')" "it \<notin> set (items lh')"
    by (auto simp: table_good_def lh'_def set_chain_def)
  moreover have "(length (items lh) mod size_mod + size_mod - 1) mod size_mod = length (items lh') mod size_mod"
    using mod_pred [of size_mod "length (items lh')"] len by simp
  then have "lh_shape lh'"
    using sh(2, 3) same inv(1) lh_shapeD(4) [OF inv(1)]
    by (simp add: lh_shape_def lh'_def set_chain_def)
  ultimately show ?thesis using mset_eq_setD [OF ms] len by (auto simp: table_inv_def)
qed

text \<open>The operations on the map of the table.\<close>

lemma option_eqI: "(\<And>e. x = Some e \<longleftrightarrow> y = Some e) \<Longrightarrow> x = y"
  by (cases x; cases y) auto

lemma lookup_replaced:
  assumes "lh_inv lh" "lh_inv lh'" "d \<in> U" "q \<in> U" "it_data it = d"
    and "old \<subseteq> set (items lh)" "\<And>x. x \<in> old \<Longrightarrow> cmp (it_data x) d = 0"
    and "set (items lh') = insert it (set (items lh) - old)"
  shows "lh_lookup lh' q = (if cmp d q = 0 then Some d else lh_lookup lh q)"
proof (cases "cmp d q = 0")
  case True
  with assms lookup_iff [OF assms(2, 4), of d] show ?thesis by auto
next
  case False
  have "cmp (it_data x) q \<noteq> 0" if x: "x \<in> old" for x
  proof
    assume "cmp (it_data x) q = 0"
    moreover have U: "it_data x \<in> U" using lh_invD(5) [OF assms(1)] x assms(6) by auto
    moreover have "cmp d (it_data x) = 0" using assms(7) [OF x] cmp_sym [OF U assms(3)] by simp
    ultimately show False using cmp_trans [OF assms(3) U assms(4)] False by simp
  qed
  then have "lh_lookup lh' q = Some e \<longleftrightarrow> lh_lookup lh q = Some e" for e
    using lookup_iff [OF assms(1, 4)] lookup_iff [OF assms(2, 4)] assms(5, 8) False by auto
  then have "lh_lookup lh' q = lh_lookup lh q" by (rule option_eqI)
  with False show ?thesis by simp
qed

lemma lookup_mset:
  assumes "lh_inv lh" "lh_inv lh'" "q \<in> U" "set (items lh') = set (items lh)"
  shows "lh_lookup lh' q = lh_lookup lh q"
  using lookup_iff [OF assms(1, 3)] lookup_iff [OF assms(2, 3)] assms(4) by (intro option_eqI) simp

lemma lookup_removed:
  assumes "lh_inv lh" "lh_inv lh'" "d \<in> U" "q \<in> U" "it \<in> set (items lh)" "cmp (it_data it) d = 0"
    and "set (items lh') = set (items lh) - {it}"
  shows "lh_lookup lh' q = (if cmp d q = 0 then None else lh_lookup lh q)"
proof -
  have U: "it_data it \<in> U" using lh_invD(5) [OF assms(1)] assms(5) by simp
  have eq: "cmp (it_data it) q = 0 \<longleftrightarrow> cmp d q = 0"
    using cmp_trans [OF U assms(3, 4, 6)] cmp_trans [OF assms(3) U assms(4) cmp_sym [OF U assms(3, 6)]] by blast
  have "lh_lookup lh q = Some (it_data it)" if "cmp d q = 0"
    using lookup_iff [OF assms(1, 4)] assms(5) eq that by auto
  then have only: "x = it" if "cmp d q = 0" "x \<in> set (items lh)" "cmp (it_data x) q = 0" for x
  proof -
    have "it_data x \<in> U" using lh_invD(5) [OF assms(1)] that(2) by simp
    then have "cmp (it_data x) (it_data it) = 0"
      using that U assms(4) eq cmp_sym [OF U assms(4)] cmp_trans [of "it_data x" q "it_data it"] by blast
    then show ?thesis using lh_invD(4) [OF assms(1)] that(2) assms(5) by (auto simp: table_good_def)
  qed
  show ?thesis
  proof (cases "cmp d q = 0")
    case True
    with only assms(7) show ?thesis by (auto simp: lookup_None_iff)
  next
    case False
    then have "lh_lookup lh' q = Some e \<longleftrightarrow> lh_lookup lh q = Some e" for e
      using lookup_iff [OF assms(1, 4)] lookup_iff [OF assms(2, 4)] assms(7) eq by auto
    then have "lh_lookup lh' q = lh_lookup lh q" by (rule option_eqI)
    with False show ?thesis by simp
  qed
qed

lemma insert_cases:
  assumes "lh_inv lh" "d \<in> U" "OPENSSL_lh_insert mall hash cmp lh d = (ok, old, lh')"
  obtains (failed) "\<not> ok" "old = None" "lh' = lh" "lh_lookup lh d = None"
  | (inserted) "ok" "old = lh_lookup lh d" "lh_inv lh'"
      "\<And>q. q \<in> U \<Longrightarrow> lh_lookup lh' q = (if cmp d q = 0 then Some d else lh_lookup lh q)"
      "set (map it_data (items lh')) \<subseteq> insert d (set (map it_data (items lh)))"
proof -
  obtain h b pos where g: "get_next_ptr_and_hash hash cmp lh d = (h, b, pos)"
    by (cases "get_next_ptr_and_hash hash cmp lh d")
  show thesis
  proof (cases "item_at lh b pos")
    case (Some it)
    let ?lh = "set_chain b ((buckets lh ! b)[pos := it\<lparr>it_data := d\<rparr>]) lh"
    have r: "ok" "old = Some (it_data it)" "lh' = ?lh"
      using assms(3) by (simp_all add: OPENSSL_lh_insert_def g Some Let_def)
    note f = search(5) [OF assms(1, 2) g Some]
    note rep = replace_inv [OF assms(1, 2) g Some, folded r(3)]
    show thesis
    proof (rule inserted)
      show "lh_lookup lh' q = (if cmp d q = 0 then Some d else lh_lookup lh q)" if "q \<in> U" for q
        using f rep by (intro lookup_replaced [OF assms(1) _ assms(2) that, of lh' "it\<lparr>it_data := d\<rparr>" "{it}"]) auto
    qed (use r f rep in auto)
  next
    case None
    have n: "lh_lookup lh d = None" using search(4) [OF assms(1, 2) g None] by simp
    define lh1 where "lh1 = set_chain b (take pos (buckets lh ! b) @ [\<lparr>it_ref = lh_next_ref lh, it_data = d, it_hash = h\<rparr>])
      (lh\<lparr>num_items := (num_items lh + 1) mod size_mod, lh_next_ref := lh_next_ref lh + 1\<rparr>)"
    note app = append_inv [OF assms(1, 2) g None, folded lh1_def]
    show thesis
    proof (cases "alloc_ok mall sizeof_LHASH_ITEM")
      case False
      with assms(3) n show thesis by (intro failed) (simp_all add: OPENSSL_lh_insert_def g None Let_def)
    next
      case True
      then have r: "ok" "old = None" "lh' = lh_maybe_resize mall lh1"
        using assms(3) by (simp_all add: OPENSSL_lh_insert_def g None Let_def lh1_def)
      have inv1: "lh_inv lh1" using app by simp
      have rs: "lh_inv lh'" "mset (items lh') = mset (items lh1)"
        using maybe_resize_inv [OF inv1] r(3) by auto
      have set': "set (items lh') = set (items lh1)" by (rule mset_eq_setD [OF rs(2)])
      show thesis
      proof (rule inserted)
        show "lh_lookup lh' q = (if cmp d q = 0 then Some d else lh_lookup lh q)" if "q \<in> U" for q
          using app set'
          by (intro lookup_replaced [OF assms(1) rs(1) assms(2) that,
                of "\<lparr>it_ref = lh_next_ref lh, it_data = d, it_hash = h\<rparr>" "{}"]) auto
      qed (use r n rs set' app in auto)
    qed
  qed
qed

lemma delete_cases:
  assumes "lh_inv lh" "d \<in> U" "OPENSSL_lh_delete mall hash cmp lh d = (ret, lh')"
  shows "ret = lh_lookup lh d \<and> lh_inv lh' \<and>
    (\<forall>q\<in>U. lh_lookup lh' q = (if cmp d q = 0 then None else lh_lookup lh q)) \<and>
    set (map it_data (items lh')) \<subseteq> set (map it_data (items lh))"
proof -
  obtain h b pos where g: "get_next_ptr_and_hash hash cmp lh d = (h, b, pos)"
    by (cases "get_next_ptr_and_hash hash cmp lh d")
  show ?thesis
  proof (cases "item_at lh b pos")
    case None
    then have "lh' = lh" "ret = None" using assms(3) by (simp_all add: OPENSSL_lh_delete_def g)
    moreover have none: "lh_lookup lh d = None" using search(4) [OF assms(1, 2) g None] by simp
    moreover have "lh_lookup lh q = None" if "q \<in> U" "cmp d q = 0" for q
      using none cmp_trans [OF _ that(1) assms(2) _ cmp_sym [OF assms(2) that]] lh_invD(5) [OF assms(1)]
      by (fastforce simp: lookup_None_iff)
    ultimately show ?thesis using assms(1) by auto
  next
    case (Some it)
    define lh1 where "lh1 = set_chain b (take pos (buckets lh ! b) @ drop (pos + 1) (buckets lh ! b))
      (lh\<lparr>num_items := (num_items lh + size_mod - 1) mod size_mod\<rparr>)"
    note f = search(5) [OF assms(1, 2) g Some]
    note rem = remove_inv [OF assms(1, 2) g Some, folded lh1_def]
    have r: "ret = Some (it_data it)" "lh' = lh_maybe_resize mall lh1"
      using assms(3) by (simp_all add: OPENSSL_lh_delete_def g Some Let_def lh1_def)
    have inv1: "lh_inv lh1" using rem by simp
    have rs: "lh_inv lh'" "mset (items lh') = mset (items lh1)"
      using maybe_resize_inv [OF inv1] r(2) by auto
    have set': "set (items lh') = set (items lh) - {it}"
      using mset_eq_setD [OF rs(2)] rem by simp
    have "lh_lookup lh' q = (if cmp d q = 0 then None else lh_lookup lh q)" if "q \<in> U" for q
      using f set' by (intro lookup_removed [OF assms(1) rs(1) assms(2) that]) auto
    with r f rs set' show ?thesis by auto
  qed
qed

end

subsection \<open>Iteration\<close>

text \<open>
  A callback that leaves the items behind the current one alone, under an invariant \<open>I\<close> of the table
  that keeps the addresses of its items distinct. It may change or remove the current item, and add
  items in front of it or to chains already visited.
\<close>

definition tame :: "('d LHASH \<Rightarrow> bool) \<Rightarrow> ('d \<Rightarrow> 'd LHASH \<times> 's \<Rightarrow> 'd LHASH \<times> 's) \<Rightarrow> bool" where
  "tame I f \<longleftrightarrow>
     (\<forall>lh. I lh \<longrightarrow> distinct (map it_ref (items lh)) \<and> length (buckets lh) = num_buckets lh) \<and>
     (\<forall>lh s b pre cur rest. I lh \<longrightarrow> b < num_buckets lh \<longrightarrow> buckets lh ! b = pre @ cur # rest \<longrightarrow>
        I (fst (f (it_data cur) (lh, s))) \<and>
        num_buckets (fst (f (it_data cur) (lh, s))) = num_buckets lh \<and>
        (\<exists>pre'. buckets (fst (f (it_data cur) (lh, s))) ! b = pre' @ rest) \<and>
        (\<forall>c. b < c \<longrightarrow> c < num_buckets lh \<longrightarrow> buckets (fst (f (it_data cur) (lh, s))) ! c = buckets lh ! c))"

lemma tameD:
  assumes "tame I f" "I (fst st)" "b < num_buckets (fst st)" "buckets (fst st) ! b = pre @ cur # rest"
  shows "I (fst (f (it_data cur) st))" "num_buckets (fst (f (it_data cur) st)) = num_buckets (fst st)"
    "\<exists>pre'. buckets (fst (f (it_data cur) st)) ! b = pre' @ rest"
    "\<forall>c. b < c \<longrightarrow> c < num_buckets (fst st) \<longrightarrow>
       buckets (fst (f (it_data cur) st)) ! c = buckets (fst st) ! c"
  using assms by (cases st; simp add: tame_def)+

definition visit :: "('d \<Rightarrow> 'd LHASH \<times> 's \<Rightarrow> 'd LHASH \<times> 's) \<Rightarrow> 'd LHASH_ITEM list \<Rightarrow> 'd LHASH \<times> 's \<Rightarrow> 'd LHASH \<times> 's" where
  "visit f its st = foldl (\<lambda>st it. f (it_data it) st) st its"

lemma visit_simps [simp]:
  "visit f [] st = st" "visit f (it # its) st = visit f its (f (it_data it) st)"
  "visit f (xs @ ys) st = visit f ys (visit f xs st)"
  by (simp_all add: visit_def)

lemma distinct_chain:
  "distinct (map it_ref (items lh)) \<Longrightarrow> b < length (buckets lh) \<Longrightarrow> distinct (map it_ref (buckets lh ! b))"
proof (induction "buckets lh" arbitrary: lh b)
  case (Cons ch chs)
  from Cons.hyps(2) have "distinct (map it_ref (items (lh\<lparr>buckets := chs\<rparr>)))" "distinct (map it_ref ch)"
    using Cons.prems(1) by (auto simp: items_def simp flip: Cons.hyps(2))
  with Cons.hyps(1) [of "lh\<lparr>buckets := chs\<rparr>" "b - 1"] Cons.hyps(2) Cons.prems(2) show ?case
    by (cases b) (auto simp flip: Cons.hyps(2))
qed simp

lemma chain_from_split:
  "distinct (map it_ref (pre @ cur # rest)) \<Longrightarrow> chain_from (it_ref cur) (pre @ cur # rest) = cur # rest"
  by (induction pre) (auto simp: chain_from_def)

definition head_ref :: "'d LHASH_ITEM list \<Rightarrow> nat option" where
  "head_ref ch = (case ch of [] \<Rightarrow> None | it # _ \<Rightarrow> Some (it_ref it))"

lemma next_ref_Cons: "next_ref (cur # rest) = head_ref rest"
  by (cases rest) (simp_all add: next_ref_def head_ref_def)

lemma doall_chain_visits:
  assumes "tame I f" "I (fst st)" "b < num_buckets (fst st)" "buckets (fst st) ! b = pre @ rest" "length rest \<le> n"
  shows "doall_chain f n b (head_ref rest) st = Some (visit f rest st) \<and> I (fst (visit f rest st)) \<and>
    num_buckets (fst (visit f rest st)) = num_buckets (fst st) \<and>
    (\<forall>c. b < c \<longrightarrow> c < num_buckets (fst st) \<longrightarrow> buckets (fst (visit f rest st)) ! c = buckets (fst st) ! c)"
  using assms(2-5)
proof (induction rest arbitrary: st pre n)
  case Nil
  then show ?case by (simp add: head_ref_def)
next
  case (Cons cur rest)
  obtain m where n: "n = Suc m" "length rest \<le> m" using Cons.prems(4) by (cases n) auto
  obtain lh s where st: "st = (lh, s)" by (cases st)
  have "distinct (map it_ref (buckets lh ! b))"
    using assms(1) Cons.prems(1, 2) by (intro distinct_chain) (auto simp: tame_def st)
  then have suf: "chain_from (it_ref cur) (buckets lh ! b) = cur # rest"
    using chain_from_split [of pre cur rest] Cons.prems(3) by (simp add: st)
  define st' where "st' = f (it_data cur) st"
  from assms(1) Cons.prems(1-3) obtain pre' where t: "I (fst st')" "num_buckets (fst st') = num_buckets lh"
      "buckets (fst st') ! b = pre' @ rest"
      "\<forall>c. b < c \<longrightarrow> c < num_buckets lh \<longrightarrow> buckets (fst st') ! c = buckets lh ! c"
    using tameD [OF assms(1), of st b pre cur rest] by (auto simp: st'_def st)
  have "doall_chain f n b (head_ref (cur # rest)) st = doall_chain f m b (head_ref rest) st'"
    using suf by (simp add: n(1) head_ref_def [of "cur # rest"] st next_ref_Cons st'_def)
  with Cons.IH [of st' pre' m] t n(2) Cons.prems(2) show ?case
    by (simp add: st flip: st'_def [unfolded st])
qed

lemma doall_buckets_visits:
  assumes "tame I f" "I (fst st)" "drop b (buckets (fst st)) = chs" "\<forall>ch\<in>set chs. length ch \<le> n"
  shows "doall_buckets f n [b..<num_buckets (fst st)] st = Some (visit f (concat chs) st) \<and>
    I (fst (visit f (concat chs) st))"
  using assms(2-4)
proof (induction chs arbitrary: b st)
  case Nil
  then have "num_buckets (fst st) \<le> b" using assms(1) by (auto simp: tame_def)
  with Nil show ?case by simp
next
  case (Cons ch chs)
  let ?N = "num_buckets (fst st)"
  have len: "length (buckets (fst st)) = ?N" using assms(1) Cons.prems(1) by (auto simp: tame_def)
  have b: "b < ?N" using Cons.prems(2) len by (metis drop_all linorder_not_le list.distinct(1))
  then have ch: "buckets (fst st) ! b = [] @ ch" "drop (Suc b) (buckets (fst st)) = chs"
    using Cons.prems(2) len by (simp_all add: Cons_nth_drop_Suc [symmetric])
  define st' where "st' = visit f ch st"
  have "length ch \<le> n" using Cons.prems(3) by simp
  note v = doall_chain_visits [of I f, OF assms(1) Cons.prems(1) b ch(1) this, folded st'_def]
  have len': "length (buckets (fst st')) = ?N" using assms(1) v by (auto simp: tame_def)
  have "drop (Suc b) (buckets (fst st')) = drop (Suc b) (buckets (fst st))"
    using v len len' by (intro nth_equalityI) auto
  with Cons.IH [of st' "Suc b"] ch(2) v Cons.prems(3)
  have "doall_buckets f n [Suc b..<?N] st' = Some (visit f (concat chs) st') \<and>
      I (fst (visit f (concat chs) st'))" by simp
  moreover have "doall_buckets f n [b..<?N] st = Option.bind (doall_chain f n b (head_ref ch) st) (doall_buckets f n [Suc b..<?N])"
    using b ch(1) by (simp add: upt_conv_Cons head_ref_def)
  ultimately show ?case using v by (simp add: st'_def)
qed

text \<open>A callback that deletes the element it is given, as the users of a table do to empty it.\<close>

definition drain ::
  "malloc \<Rightarrow> ('d \<Rightarrow> u32) \<Rightarrow> ('d \<Rightarrow> 'd \<Rightarrow> int) \<Rightarrow> ('d \<Rightarrow> 's \<Rightarrow> 's) \<Rightarrow> 'd \<Rightarrow> 'd LHASH \<times> 's \<Rightarrow> 'd LHASH \<times> 's" where
  "drain mall hash cmp g d st = (snd (OPENSSL_lh_delete mall hash cmp (fst st) d), g d (snd st))"

lemma callback_depth_frozen:
  "0 < callback_depth lh \<Longrightarrow> lh_maybe_resize mall lh = lh"
  by (simp add: lh_maybe_resize_def)

context lh_compat
begin

lemma delete_chain:
  assumes "lh_inv lh" "0 < callback_depth lh" "b < num_buckets lh" "buckets lh ! b = pre @ cur # rest"
  shows "snd (OPENSSL_lh_delete mall hash cmp lh (it_data cur))
    = set_chain b (pre @ rest) (lh\<lparr>num_items := (num_items lh + size_mod - 1) mod size_mod\<rparr>)"
proof -
  note inv = lh_invD [OF assms(1)]
  have cur: "cur \<in> set (items lh)" using in_items [OF inv(1)] assms(3, 4) by auto
  note U = inv(5) [OF cur]
  obtain h c pos where g: "get_next_ptr_and_hash hash cmp lh (it_data cur) = (h, c, pos)"
    by (cases "get_next_ptr_and_hash hash cmp lh (it_data cur)")
  have c: "c = b"
    using search(3) [OF assms(1) U g] lh_shape_placed [OF inv(1) assms(3), of cur] assms(4) inv(6) [OF cur] by simp
  obtain it where it: "item_at lh c pos = Some it"
    using search(4) [OF assms(1) U g] cmp_refl [OF U] cur by (cases "item_at lh c pos") (auto simp: lookup_None_iff)
  note f = search(5) [OF assms(1) U g it]
  have "it = cur" using f cur inv(4) by (auto simp: table_good_def)
  moreover have "distinct (map it_ref (buckets lh ! b))"
    using inv(2, 4) assms(3) by (intro distinct_chain) (simp_all add: table_good_def)
  ultimately have "pos = length pre"
    using f c assms(4) nth_eq_iff_index_eq [of "buckets lh ! b" pos "length pre"]
    by (auto simp: nth_append distinct_map)
  with it c assms(2, 4) g show ?thesis
    by (simp add: OPENSSL_lh_delete_def Let_def callback_depth_frozen set_chain_def)
qed

lemma drain_tame: "tame (\<lambda>lh. lh_inv lh \<and> 0 < callback_depth lh) (drain mall hash cmp g)"
  unfolding tame_def
proof (intro conjI allI impI)
  fix lh assume "lh_inv lh \<and> 0 < callback_depth lh"
  then show "distinct (map it_ref (items lh))" "length (buckets lh) = num_buckets lh"
    using lh_invD by (auto simp: table_good_def)
next
  fix lh :: "'d LHASH" and s b pre cur rest
  assume I: "lh_inv lh \<and> 0 < callback_depth lh" and b: "b < num_buckets lh" "buckets lh ! b = pre @ cur # rest"
  let ?lh = "fst (drain mall hash cmp g (it_data cur) (lh, s))"
  have lh: "?lh = set_chain b (pre @ rest) (lh\<lparr>num_items := (num_items lh + size_mod - 1) mod size_mod\<rparr>)"
    using delete_chain [OF conjunct1 [OF I] conjunct2 [OF I] b] by (simp add: drain_def)
  have len: "length (buckets lh) = num_buckets lh" using lh_invD I by blast
  have "it_data cur \<in> U" using lh_invD(5) [of lh cur] in_items [of lh cur] lh_invD(1) I b by auto
  moreover have "OPENSSL_lh_delete mall hash cmp lh (it_data cur)
      = (fst (OPENSSL_lh_delete mall hash cmp lh (it_data cur)), ?lh)" by (simp add: drain_def)
  ultimately show "lh_inv ?lh" using delete_cases I by blast
  show "0 < callback_depth ?lh" "num_buckets ?lh = num_buckets lh" using I by (simp_all add: lh set_chain_def)
  show "\<exists>pre'. buckets ?lh ! b = pre' @ rest" using b len by (simp add: lh set_chain_def)
  show "buckets ?lh ! c = buckets lh ! c" if "b < c" for c using that by (simp add: lh set_chain_def)
qed

lemma visit_drain:
  assumes "lh_inv lh" "\<forall>it\<in>set its. it_data it \<in> U"
  shows "snd (visit (drain mall hash cmp g) its (lh, s)) = foldl (\<lambda>s it. g (it_data it) s) s its \<and>
    lh_inv (fst (visit (drain mall hash cmp g) its (lh, s))) \<and>
    set (map it_data (items (fst (visit (drain mall hash cmp g) its (lh, s))))) \<subseteq> set (map it_data (items lh)) \<and>
    (\<forall>it\<in>set its. table_lookup cmp (fst (visit (drain mall hash cmp g) its (lh, s))) (it_data it) = None)"
  using assms
proof (induction its arbitrary: lh s)
  case (Cons it its)
  obtain ret lh1 where d: "OPENSSL_lh_delete mall hash cmp lh (it_data it) = (ret, lh1)" by fastforce
  have U: "it_data it \<in> U" using Cons.prems(2) by simp
  from delete_cases [OF Cons.prems(1) U d] have inv1: "lh_inv lh1"
    and gone: "table_lookup cmp lh1 (it_data it) = None"
    and sub: "set (map it_data (items lh1)) \<subseteq> set (map it_data (items lh))"
    using cmp_refl [OF U] U by auto
  let ?st = "visit (drain mall hash cmp g) its (lh1, g (it_data it) s)"
  have IH: "snd ?st = foldl (\<lambda>s it. g (it_data it) s) (g (it_data it) s) its" "lh_inv (fst ?st)"
      "set (map it_data (items (fst ?st))) \<subseteq> set (map it_data (items lh1))"
      "\<forall>it\<in>set its. table_lookup cmp (fst ?st) (it_data it) = None"
    using Cons.IH [OF inv1, of "g (it_data it) s"] Cons.prems(2) by auto
  have "table_lookup cmp (fst ?st) (it_data it) = None"
    using gone IH(3) unfolding lookup_None_iff by (auto simp: subset_iff image_iff)
  moreover have "drain mall hash cmp g (it_data it) (lh, s) = (lh1, g (it_data it) s)"
    by (simp add: drain_def d)
  ultimately show ?case using IH sub by auto
qed simp

lemma drained:
  assumes "lh_inv lh" "\<And>ch. ch \<in> set (buckets lh) \<Longrightarrow> length ch \<le> n"
  obtains lh' where "OPENSSL_lh_doall_arg mall n (drain mall hash cmp g) lh s
      = Some (lh', foldl (\<lambda>s it. g (it_data it) s) s (items lh))" "lh_inv lh'" "items lh' = []"
proof -
  let ?f = "drain mall hash cmp g" and ?lh0 = "enter_callbacks lh"
  have e: "buckets ?lh0 = buckets lh" "num_buckets ?lh0 = num_buckets lh" "0 < callback_depth ?lh0" "items ?lh0 = items lh"
    by (auto simp: enter_callbacks_def items_def UINT_MAX_def)
  have inv0: "lh_inv ?lh0" using assms(1) by (auto simp: enter_callbacks_def table_inv_def lh_shape_def items_def)
  define st where "st = visit ?f (items lh) (?lh0, s)"
  have v: "snd st = foldl (\<lambda>s it. g (it_data it) s) s (items lh)" "lh_inv (fst st)"
      "set (map it_data (items (fst st))) \<subseteq> set (map it_data (items lh))"
      "\<forall>it\<in>set (items lh). table_lookup cmp (fst st) (it_data it) = None"
    using visit_drain [OF inv0, of "items lh" mall g s] lh_invD(5) [OF assms(1)] by (auto simp: st_def e(4))
  have empty: "items (fst st) = []"
  proof (rule ccontr)
    assume "items (fst st) \<noteq> []"
    then obtain it where it: "it \<in> set (items (fst st))" by (cases "items (fst st)") auto
    with v(3) obtain it' where "it' \<in> set (items lh)" "it_data it' = it_data it" by force
    with v(4) it have "cmp (it_data it) (it_data it) \<noteq> 0" by (auto simp: lookup_None_iff)
    with cmp_refl [OF lh_invD(5) [OF v(2) it]] show False by simp
  qed
  have "doall_buckets ?f n [0..<num_buckets lh] (?lh0, s) = Some st"
    using doall_buckets_visits [OF drain_tame, of "(?lh0, s)" 0 "buckets lh" n mall g] inv0 e assms(2)
    by (simp add: st_def items_def)
  then have "OPENSSL_lh_doall_arg mall n ?f lh s = Some (lh_maybe_resize mall (leave_callbacks (fst st)), snd st)"
    by (simp add: OPENSSL_lh_doall_arg_def split: prod.splits)
  moreover have left: "lh_inv (leave_callbacks (fst st))" "items (leave_callbacks (fst st)) = []"
    using v(2) empty by (auto simp: leave_callbacks_def table_inv_def lh_shape_def items_def)
  moreover have "items (lh_maybe_resize mall (leave_callbacks (fst st))) = []"
    using maybe_resize_inv [OF left(1), of mall] left(2) by simp
  ultimately show thesis using that maybe_resize_inv [OF left(1), of mall] v(1) by metis
qed

end

subsection \<open>Properties\<close>

lemma new_table_inv:
  "OPENSSL_lh_new mall = Some lh \<Longrightarrow> table_inv U hash cmp lh \<and> items lh = []"
  by (auto simp: OPENSSL_lh_new_def table_inv_def table_good_def lh_shape_def items_def placed_def
      kMinNumBuckets_def sizeof_item_ptr_def split: if_splits)

definition demo_table :: "nat LHASH" where
  "demo_table = the (OPENSSL_lh_new (\<lambda>n. True))"

definition demo_hash :: "nat \<Rightarrow> u32" where
  "demo_hash d = word_of_nat (d mod 3)"

definition demo_eq :: "nat \<Rightarrow> nat \<Rightarrow> int" where
  "demo_eq a b = (if a mod 10 = b mod 10 then 0 else 1)"

lemma demo_compat: "lh_compat {..< 30} (\<lambda>d. demo_hash (d mod 10)) demo_eq"
  by unfold_locales (auto simp: demo_hash_def demo_eq_def split: if_splits)

lemma demo_table_inv: "table_inv {..< 30} (\<lambda>d. demo_hash (d mod 10)) demo_eq demo_table"
proof -
  have "OPENSSL_lh_new (\<lambda>n. True) = Some demo_table"
    by (simp add: demo_table_def OPENSSL_lh_new_def alloc_ok_def
        sizeof_LHASH_def sizeof_item_ptr_def kMinNumBuckets_def OPENSSL_MALLOC_PREFIX_def)
  then show ?thesis using new_table_inv by blast
qed

text \<open>
  Property C14: on a table with its invariant, \<open>OPENSSL_lh_retrieve\<close>, \<open>OPENSSL_lh_insert\<close> and
  \<open>OPENSSL_lh_delete\<close> are lookup, update and removal of a finite map keyed by the equality of the
  caller's comparison function, and keep the invariant, although they search one bucket by its hash
  and may grow or shrink the table; a failed allocation leaves the table as it was.
\<close>

theorem OPENSSL_lh_refines_map:
  assumes "lh_compat U hash cmp" "table_inv U hash cmp lh" "d \<in> U" "q \<in> U"
    and "OPENSSL_lh_insert mall hash cmp lh d = (ok, old, lh1)"
    and "OPENSSL_lh_delete mall hash cmp lh d = (ret, lh2)"
  shows "(if ok then old = OPENSSL_lh_retrieve hash cmp lh d \<and>
       OPENSSL_lh_retrieve hash cmp lh1 q = (if cmp d q = 0 then Some d else OPENSSL_lh_retrieve hash cmp lh q)
     else lh1 = lh) \<and>
    ret = OPENSSL_lh_retrieve hash cmp lh d \<and>
    OPENSSL_lh_retrieve hash cmp lh2 q = (if cmp d q = 0 then None else OPENSSL_lh_retrieve hash cmp lh q) \<and>
    table_inv U hash cmp lh1 \<and> table_inv U hash cmp lh2"
proof -
  note R = lh_compat.retrieve_lookup [OF assms(1)]
  note del = lh_compat.delete_cases [OF assms(1, 2, 3, 6)]
  have "(if ok then old = table_lookup cmp lh d \<and>
      table_lookup cmp lh1 q = (if cmp d q = 0 then Some d else table_lookup cmp lh q) else lh1 = lh) \<and>
      table_inv U hash cmp lh1"
    by (rule lh_compat.insert_cases [OF assms(1, 2, 3, 5)]) (use assms(2, 4) in auto)
  with del show ?thesis using R [of lh] R [of lh1] R [of lh2] assms(2-4) by auto
qed

theorem OPENSSL_lh_refines_map_witness:
  "\<exists>ok old lh1. OPENSSL_lh_insert (\<lambda>n. True) (\<lambda>d. demo_hash (d mod 10)) demo_eq demo_table 7 = (ok, old, lh1) \<and>
     (ok \<longrightarrow> OPENSSL_lh_retrieve (\<lambda>d. demo_hash (d mod 10)) demo_eq lh1 17 = Some 7)"
proof -
  let ?h = "\<lambda>d. demo_hash (d mod 10)"
  obtain ok old lh1 where i: "OPENSSL_lh_insert (\<lambda>n. True) ?h demo_eq demo_table 7 = (ok, old, lh1)"
    by (cases "OPENSSL_lh_insert (\<lambda>n. True) ?h demo_eq demo_table 7")
  obtain ret lh2 where d: "OPENSSL_lh_delete (\<lambda>n. True) ?h demo_eq demo_table 7 = (ret, lh2)" by fastforce
  from OPENSSL_lh_refines_map [OF demo_compat demo_table_inv _ _ i d, of 17] i show ?thesis
    by (auto simp: demo_eq_def)
qed

text \<open>
  Property C34: \<open>OPENSSL_lh_doall_arg\<close> with a callback that deletes the element it is given calls it once
  for each element, in the order of the buckets, never follows a pointer of a freed item, and leaves an
  empty table with its invariant. The fuel of a chain need only be its length.
\<close>

theorem OPENSSL_lh_doall_drains:
  assumes "lh_compat U hash cmp" "table_inv U hash cmp lh" "\<And>ch. ch \<in> set (buckets lh) \<Longrightarrow> length ch \<le> n"
  shows "\<exists>lh'. OPENSSL_lh_doall_arg mall n (drain mall hash cmp g) lh s
      = Some (lh', foldl (\<lambda>s it. g (it_data it) s) s (items lh)) \<and> table_inv U hash cmp lh' \<and> items lh' = []"
  by (rule lh_compat.drained [OF assms, where mall = mall and g = g and s = s]) auto

theorem OPENSSL_lh_doall_drains_witness:
  "\<exists>lh'. OPENSSL_lh_doall_arg (\<lambda>n. True) 1 (drain (\<lambda>n. True) (\<lambda>d. demo_hash (d mod 10)) demo_eq (#))
      (snd (snd (OPENSSL_lh_insert (\<lambda>n. True) (\<lambda>d. demo_hash (d mod 10)) demo_eq demo_table 7))) []
    = Some (lh', [7]) \<and> items lh' = []"
proof -
  let ?h = "\<lambda>d. demo_hash (d mod 10)"
  let ?r = "OPENSSL_lh_insert (\<lambda>n. True) ?h demo_eq demo_table 7"
  have eval: "map it_data (items (snd (snd ?r))) = [7]" "list_all (\<lambda>ch. length ch \<le> 1) (buckets (snd (snd ?r)))"
    by code_simp+
  obtain it where its: "items (snd (snd ?r)) = [it]" "it_data it = 7" using eval(1) by auto
  have "?r = (fst ?r, fst (snd ?r), snd (snd ?r))" by simp
  then have "table_inv {..< 30} ?h demo_eq (snd (snd ?r))"
    by (rule lh_compat.insert_cases [OF demo_compat demo_table_inv, rotated]) (use demo_table_inv in auto)
  from OPENSSL_lh_doall_drains [OF demo_compat this, of 1 "\<lambda>n. True" "(#)" "[]"] eval(2) its show ?thesis
    by (auto simp: list_all_iff)
qed

end
