(* ===== verification/Pool_Spec.thy ===== *)
theory Pool_Spec
  imports Pool LHash_Spec
begin

text \<open>
  The buffer pool under interleaved threads. The contract \<open>lh_compat\<close> of the hash table is met by the
  pool's hash and comparison; the ghost state of \<open>pool_reach\<close> counts the references that the clients
  hold and the objects allocated but not yet inserted. The invariant shows that no table entry dangles
  and that no critical section reads a freed object or drops a count below zero.
\<close>

subsection \<open>Contents\<close>

definition content :: "CRYPTO_BUFFER \<Rightarrow> u8 list" where
  "content b = take (cb_len b) (cb_data b)"

definition wf_buf :: "CRYPTO_BUFFER \<Rightarrow> bool" where
  "wf_buf b \<longleftrightarrow> cb_len b \<le> length (cb_data b)"

definition live :: "buf_heap \<Rightarrow> nat set" where
  "live h = {a. \<exists>b. h a = Some b \<and> wf_buf b}"

lemma cmp_content:
  assumes "wf_buf a" "wf_buf b"
  shows "CRYPTO_BUFFER_cmp a b = 0 \<longleftrightarrow> content a = content b"
proof
  assume z: "CRYPTO_BUFFER_cmp a b = 0"
  then have len: "cb_len a = cb_len b" by (auto simp: CRYPTO_BUFFER_cmp_def split: if_splits)
  with z have "memcmp (cb_data a) (cb_data b) (cb_len a) = 0"
    by (auto simp: CRYPTO_BUFFER_cmp_def OPENSSL_memcmp_def split: if_splits)
  from memcmp_0 [OF this] assms len show "content a = content b" by (simp add: content_def wf_buf_def)
next
  assume c: "content a = content b"
  have len: "cb_len a = cb_len b"
    using arg_cong [OF c, of length] assms by (simp add: content_def wf_buf_def)
  have "memcmp (cb_data a) (cb_data b) (cb_len a)
      = memcmp (take (cb_len a) (cb_data a)) (take (cb_len a) (cb_data b)) (cb_len a)"
    by (simp add: memcmp_take)
  also have "\<dots> = 0" using c len by (simp add: content_def)
  finally show "CRYPTO_BUFFER_cmp a b = 0" by (simp add: CRYPTO_BUFFER_cmp_def OPENSSL_memcmp_def len)
qed

lemma hash32_take: "OPENSSL_hash32 (take n xs) n = OPENSSL_hash32 xs n"
  unfolding OPENSSL_hash32_def by (intro foldl_cong) auto

lemma hash_content: "wf_buf b \<Longrightarrow> CRYPTO_BUFFER_hash b = OPENSSL_hash32 (content b) (length (content b))"
  by (simp add: CRYPTO_BUFFER_hash_def content_def wf_buf_def hash32_take min_def)

lemma buf_cmp_live:
  "a \<in> live h \<Longrightarrow> b \<in> live h \<Longrightarrow> buf_cmp h a b = 0 \<longleftrightarrow> map_option content (h a) = map_option content (h b)"
  by (auto simp: live_def buf_cmp_def cmp_content)

interpretation pool_table: lh_compat "live h" "buf_hash h" "buf_cmp h" for h
proof unfold_locales
  show "buf_hash h d = buf_hash h e" if "d \<in> live h" "e \<in> live h" "buf_cmp h d e = 0" for d e
    using that by (auto simp: buf_cmp_live buf_hash_def live_def hash_content)
qed (auto simp: buf_cmp_live)

lemma table_inv_cong:
  assumes "table_inv U hash cmp lh"
    and "\<And>d. d \<in> it_data ` set (items lh) \<Longrightarrow> d \<in> U' \<and> hash' d = hash d"
    and "\<And>d e. d \<in> it_data ` set (items lh) \<Longrightarrow> e \<in> it_data ` set (items lh) \<Longrightarrow> cmp' d e = cmp d e"
  shows "table_inv U' hash' cmp' lh"
  using assms by (fastforce simp: table_inv_def table_good_def)

subsection \<open>The invariant\<close>

definition members :: "pool_state \<Rightarrow> nat set" where
  "members st = it_data ` set (items (bufs st))"

definition pool_inv :: "pool_state \<Rightarrow> (nat \<Rightarrow> nat) \<Rightarrow> nat set \<Rightarrow> bool" where
  "pool_inv st own pen \<longleftrightarrow>
     tmp_addr < next_addr st \<and>
     (\<forall>a b. heap st a = Some b \<longrightarrow> a \<noteq> tmp_addr \<and> a < next_addr st \<and> wf_buf b \<and>
        (cb_references b = CRYPTO_REFCOUNT_MAX \<or> unat (cb_references b) = own a \<and> 0 < own a)) \<and>
     (\<forall>a. 0 < own a \<longrightarrow> heap st a \<noteq> None) \<and>
     table_inv (live (heap st)) (buf_hash (heap st)) (buf_cmp (heap st)) (bufs st) \<and>
     (\<forall>a\<in>members st. a \<notin> pen \<and> (\<exists>b. heap st a = Some b \<and> cb_pool b)) \<and>
     (\<forall>a\<in>pen. own a = 1 \<and> (\<exists>b. heap st a = Some b \<and> cb_pool b \<and> cb_references b = 1))"

lemma pool_invD:
  assumes "pool_inv st own pen"
  shows "tmp_addr < next_addr st"
    "heap st a = Some b \<Longrightarrow> a \<noteq> tmp_addr \<and> a < next_addr st \<and> wf_buf b \<and>
       (cb_references b = CRYPTO_REFCOUNT_MAX \<or> unat (cb_references b) = own a \<and> 0 < own a)"
    "0 < own a \<Longrightarrow> heap st a \<noteq> None"
    "table_inv (live (heap st)) (buf_hash (heap st)) (buf_cmp (heap st)) (bufs st)"
    "a \<in> members st \<Longrightarrow> a \<notin> pen \<and> (\<exists>b. heap st a = Some b \<and> cb_pool b)"
    "a \<in> pen \<Longrightarrow> own a = 1 \<and> (\<exists>b. heap st a = Some b \<and> cb_pool b \<and> cb_references b = 1)"
  using assms unfolding pool_inv_def by blast+

text \<open>Counting changes no contents.\<close>

lemma set_refs_same [simp]:
  "buf_hash (heap (set_refs a n st)) = buf_hash (heap st)"
  "buf_cmp (heap (set_refs a n st)) = buf_cmp (heap st)"
  "live (heap (set_refs a n st)) = live (heap st)"
  "bufs (set_refs a n st) = bufs st" "next_addr (set_refs a n st) = next_addr st"
  "members (set_refs a n st) = members st"
  by (auto simp: fun_eq_iff set_refs_def buf_hash_def buf_cmp_def live_def wf_buf_def members_def
      CRYPTO_BUFFER_hash_def CRYPTO_BUFFER_cmp_def split: option.splits)

lemma heap_set_refs:
  "heap (set_refs a n st) c
    = (if c = a then map_option (\<lambda>b. b\<lparr>cb_references := n\<rparr>) (heap st a) else heap st c)"
  by (simp add: set_refs_def)

lemma free_object_inv:
  assumes "table_inv (live (heap st)) (buf_hash (heap st)) (buf_cmp (heap st)) (bufs st)" "a \<notin> members st"
  defines "st' \<equiv> crypto_buffer_free_object a st"
  shows "table_inv (live (heap st')) (buf_hash (heap st')) (buf_cmp (heap st')) (bufs st')"
proof -
  have "bufs st' = bufs st" by (simp add: st'_def crypto_buffer_free_object_def)
  moreover have "table_inv (live (heap st')) (buf_hash (heap st')) (buf_cmp (heap st')) (bufs st)"
  proof (rule table_inv_cong [OF assms(1)])
    fix d assume d: "d \<in> it_data ` set (items (bufs st))"
    then have "d \<noteq> a" "d \<in> live (heap st)"
      using assms(2) pool_table.lh_invD(5) [OF assms(1)] by (auto simp: members_def)
    then show "d \<in> live (heap st') \<and> buf_hash (heap st') d = buf_hash (heap st) d"
      by (simp add: st'_def crypto_buffer_free_object_def live_def buf_hash_def)
    fix e assume "e \<in> it_data ` set (items (bufs st))"
    then have "e \<noteq> a" using assms(2) by (auto simp: members_def)
    with \<open>d \<noteq> a\<close> show "buf_cmp (heap st') d e = buf_cmp (heap st) d e"
      by (simp add: st'_def crypto_buffer_free_object_def buf_cmp_def)
  qed
  ultimately show ?thesis by simp
qed

lemma new_object_inv:
  assumes "table_inv (live h) (buf_hash h) (buf_cmp h) lh" "a \<notin> it_data ` set (items lh)"
  shows "table_inv (live (h(a \<mapsto> b))) (buf_hash (h(a \<mapsto> b))) (buf_cmp (h(a \<mapsto> b))) lh"
proof (rule table_inv_cong [OF assms(1)])
  fix d assume d: "d \<in> it_data ` set (items lh)"
  then have "d \<noteq> a" "d \<in> live h" using assms(2) pool_table.lh_invD(5) [OF assms(1)] by auto
  then show "d \<in> live (h(a \<mapsto> b)) \<and> buf_hash (h(a \<mapsto> b)) d = buf_hash h d"
    by (simp add: live_def buf_hash_def)
  fix e assume "e \<in> it_data ` set (items lh)"
  then have "e \<noteq> a" using assms(2) by auto
  with \<open>d \<noteq> a\<close> show "buf_cmp (h(a \<mapsto> b)) d e = buf_cmp h d e" by (simp add: buf_cmp_def)
qed

subsection \<open>The critical sections keep the invariant\<close>

lemma refcount_max: "CRYPTO_REFCOUNT_MAX = - 1"
  by code_simp

lemma refcount_inc_inv:
  assumes "cb_references b = CRYPTO_REFCOUNT_MAX \<or> unat (cb_references b) = k \<and> 0 < k"
  shows "CRYPTO_refcount_inc (cb_references b) = CRYPTO_REFCOUNT_MAX \<or>
    unat (CRYPTO_refcount_inc (cb_references b)) = k + 1"
proof (cases "cb_references b = CRYPTO_REFCOUNT_MAX")
  case False
  then have "cb_references b \<noteq> - 1" by (metis refcount_max)
  then have "cb_references b + 1 \<noteq> 0" by (metis eq_neg_iff_add_eq_0)
  then have "unat (cb_references b + 1) = unat (cb_references b) + 1"
    using unatSuc [of "cb_references b"] by (simp add: add.commute)
  with False assms show ?thesis by (simp add: CRYPTO_refcount_inc_def)
qed (simp add: CRYPTO_refcount_inc_def)

lemma up_ref_inv:
  assumes inv: "pool_inv st own pen" and "a \<notin> pen" and up: "CRYPTO_BUFFER_up_ref a st = Some st'"
  shows "pool_inv st' (own(a := own a + 1)) pen \<and> (\<forall>c. map_option content (heap st' c) = map_option content (heap st c))"
proof -
  from up obtain b where b: "heap st a = Some b" "st' = set_refs a (CRYPTO_refcount_inc (cb_references b)) st"
    by (auto simp: CRYPTO_BUFFER_up_ref_def)
  note D = pool_invD [OF inv]
  have "pool_inv st' (own(a := own a + 1)) pen"
    unfolding pool_inv_def
  proof (intro conjI allI impI ballI)
    fix c x assume c: "heap st' c = Some x"
    show "c \<noteq> tmp_addr" "c < next_addr st'" "wf_buf x"
      using c D(2) [of c] by (auto simp: b heap_set_refs wf_buf_def split: if_splits)
    show "cb_references x = CRYPTO_REFCOUNT_MAX \<or> unat (cb_references x) = (own(a := own a + 1)) c \<and>
        0 < (own(a := own a + 1)) c"
      using c D(2) [of c] refcount_inc_inv [of b "own a"] D(2) [OF b(1)]
      by (auto simp: b heap_set_refs split: if_splits)
  next
    fix c assume "0 < (own(a := own a + 1)) c"
    then show "heap st' c \<noteq> None" using D(3) [of c] b by (auto simp: heap_set_refs split: if_splits)
  next
    fix c assume "c \<in> members st'"
    then have "c \<in> members st" by (simp add: b)
    from D(5) [OF this] show "c \<notin> pen" "\<exists>x. heap st' c = Some x \<and> cb_pool x"
      by (auto simp: b heap_set_refs)
  next
    fix c assume "c \<in> pen"
    then show "(own(a := own a + 1)) c = 1" "\<exists>x. heap st' c = Some x \<and> cb_pool x \<and> cb_references x = 1"
      using D(6) [of c] assms(2) by (auto simp: b heap_set_refs)
  qed (use D(1, 4) in \<open>simp_all add: b\<close>)
  then show ?thesis by (simp add: b heap_set_refs content_def option.map_comp o_def)
qed

lemma new_buffer_inv:
  assumes inv: "pool_inv st own pen" and "a = next_addr st" and "wf_buf b" "cb_references b = 1"
    and st': "st' = st\<lparr>heap := (heap st)(a \<mapsto> b), next_addr := a + 1\<rparr>"
  shows "pool_inv st' (own(a := 1)) (if cb_pool b then insert a pen else pen)"
proof -
  note D = pool_invD [OF inv]
  have fresh: "heap st a = None" using D(2) [of a] assms(2) by (cases "heap st a") auto
  have out: "a \<notin> members st" using D(5) [of a] fresh by auto
  show ?thesis
    unfolding pool_inv_def
  proof (intro conjI allI impI ballI)
    show "table_inv (live (heap st')) (buf_hash (heap st')) (buf_cmp (heap st')) (bufs st')"
      using new_object_inv [OF D(4), of a b] out by (simp add: st' members_def)
  next
    fix c x assume c: "heap st' c = Some x"
    show "c \<noteq> tmp_addr" "c < next_addr st'" "wf_buf x"
      using c D(1) D(2) [of c] assms(2, 3) by (auto simp: st' split: if_splits)
    show "cb_references x = CRYPTO_REFCOUNT_MAX \<or> unat (cb_references x) = (own(a := 1)) c \<and> 0 < (own(a := 1)) c"
      using c D(2) [of c] assms(4) by (auto simp: st' split: if_splits)
  next
    fix c assume "0 < (own(a := 1)) c"
    then show "heap st' c \<noteq> None" using D(3) [of c] by (auto simp: st' split: if_splits)
  next
    fix c assume "c \<in> members st'"
    then have c: "c \<in> members st" by (simp add: st' members_def)
    with out have "c \<noteq> a" by auto
    with c show "c \<notin> (if cb_pool b then insert a pen else pen)" "\<exists>x. heap st' c = Some x \<and> cb_pool x"
      using D(5) [of c] by (auto simp: st')
  next
    fix c assume c: "c \<in> (if cb_pool b then insert a pen else pen)"
    show "(own(a := 1)) c = 1" "\<exists>x. heap st' c = Some x \<and> cb_pool x \<and> cb_references x = 1"
      using c D(6) [of c] assms(4) fresh by (auto simp: st' split: if_splits)
  qed (use D(1) in \<open>simp add: st' assms(2)\<close>)
qed

text \<open>Releasing an object that no client and no table entry refers to.\<close>

lemma free_object_pool_inv:
  assumes "tmp_addr < next_addr st" "a \<notin> members st" "a \<notin> pen" "own a = 0"
    and "\<And>c b. c \<noteq> a \<Longrightarrow> heap st c = Some b \<Longrightarrow> c \<noteq> tmp_addr \<and> c < next_addr st \<and> wf_buf b \<and>
       (cb_references b = CRYPTO_REFCOUNT_MAX \<or> unat (cb_references b) = own c \<and> 0 < own c)"
    and "\<And>c. c \<noteq> a \<Longrightarrow> 0 < own c \<Longrightarrow> heap st c \<noteq> None"
    and "table_inv (live (heap st)) (buf_hash (heap st)) (buf_cmp (heap st)) (bufs st)"
    and "\<And>c. c \<in> members st \<Longrightarrow> c \<notin> pen \<and> (\<exists>b. heap st c = Some b \<and> cb_pool b)"
    and "\<And>c. c \<in> pen \<Longrightarrow> own c = 1 \<and> (\<exists>b. heap st c = Some b \<and> cb_pool b \<and> cb_references b = 1)"
  shows "pool_inv (crypto_buffer_free_object a st) own pen"
  unfolding pool_inv_def
proof (intro conjI)
  show "\<forall>c\<in>members (crypto_buffer_free_object a st). c \<notin> pen \<and> (\<exists>b. heap (crypto_buffer_free_object a st) c = Some b \<and> cb_pool b)"
    using assms(2, 8) by (auto simp: crypto_buffer_free_object_def members_def)
  show "\<forall>c\<in>pen. own c = 1 \<and> (\<exists>b. heap (crypto_buffer_free_object a st) c = Some b \<and> cb_pool b \<and> cb_references b = 1)"
    using assms(3, 9) by (auto simp: crypto_buffer_free_object_def)
qed (use assms(1, 4, 5, 6) free_object_inv [OF assms(7, 2)] in \<open>auto simp: crypto_buffer_free_object_def\<close>)

lemma pool_retrieve_member:
  assumes "pool_inv st own pen"
  shows "a \<in> live (heap st) \<Longrightarrow> pool_retrieve (heap st) (bufs st) a = table_lookup (buf_cmp (heap st)) (bufs st) a"
    and "a \<in> live (heap st) \<Longrightarrow> pool_retrieve (heap st) (bufs st) a = Some d \<Longrightarrow>
      d \<in> members st \<and> map_option content (heap st d) = map_option content (heap st a)"
proof -
  note T = pool_invD(4) [OF assms]
  show r: "pool_retrieve (heap st) (bufs st) a = table_lookup (buf_cmp (heap st)) (bufs st) a" if "a \<in> live (heap st)"
    unfolding pool_retrieve_def by (rule pool_table.retrieve_lookup [OF T that])
  show "d \<in> members st \<and> map_option content (heap st d) = map_option content (heap st a)"
    if a: "a \<in> live (heap st)" and "pool_retrieve (heap st) (bufs st) a = Some d"
  proof -
    from that r have "table_lookup (buf_cmp (heap st)) (bufs st) a = Some d" by simp
    then obtain it where it: "it \<in> set (items (bufs st))" "it_data it = d" "buf_cmp (heap st) d a = 0"
      using pool_table.lookup_iff [OF T a] by auto
    moreover have "d \<in> live (heap st)" using pool_table.lh_invD(5) [OF T it(1)] it(2) by simp
    ultimately show ?thesis using a by (auto simp: members_def buf_cmp_live)
  qed
qed

lemma lookup_section_inv:
  assumes inv: "pool_inv st own pen" and len: "len \<le> length data"
  shows "\<exists>r st'. lookup_section data len static st = Some (r, st') \<and>
    (case r of None \<Rightarrow> st' = st
     | Some a \<Rightarrow> pool_inv st' (own(a := own a + 1)) pen \<and> map_option content (heap st' a) = Some (take len data) \<and>
         (static \<longrightarrow> (\<exists>b. heap st' a = Some b \<and> cb_static b)))"
proof -
  note D = pool_invD [OF inv]
  define tmp where "tmp = \<lparr>cb_pool = False, cb_data = data, cb_len = len, cb_references = 0, cb_static = False\<rparr>"
  let ?h = "(heap st)(tmp_addr \<mapsto> tmp)"
  have none: "heap st tmp_addr = None" using D(2) [of tmp_addr] by (cases "heap st tmp_addr") auto
  then have out: "tmp_addr \<notin> it_data ` set (items (bufs st))" using D(5) [of tmp_addr] by (auto simp: members_def)
  note T = new_object_inv [OF D(4) out, of tmp]
  have L: "tmp_addr \<in> live ?h" using len by (simp add: live_def wf_buf_def tmp_def)
  have found: "d \<in> members st \<and> map_option content (heap st d) = Some (take len data)"
    if "pool_retrieve ?h (bufs st) tmp_addr = Some d" for d
  proof -
    from that have "table_lookup (buf_cmp ?h) (bufs st) tmp_addr = Some d"
      unfolding pool_retrieve_def by (simp only: pool_table.retrieve_lookup [OF T L])
    then obtain it where it: "it \<in> set (items (bufs st))" "it_data it = d" "buf_cmp ?h d tmp_addr = 0"
      using pool_table.lookup_iff [OF T L] by auto
    moreover have "d \<in> live ?h" using pool_table.lh_invD(5) [OF T it(1)] it(2) by simp
    ultimately have "map_option content (?h d) = map_option content (?h tmp_addr)"
      using L by (simp add: buf_cmp_live)
    moreover have "d \<in> it_data ` set (items (bufs st))" using it by force
    moreover have "d \<noteq> tmp_addr" using calculation out by blast
    ultimately show ?thesis by (auto simp: members_def content_def tmp_def)
  qed
  show ?thesis
  proof (cases "usable (heap st) static (pool_retrieve ?h (bufs st) tmp_addr)")
    case None
    then show ?thesis by (simp add: lookup_section_def tmp_def [symmetric] Let_def)
  next
    case (Some a)
    then obtain b where a: "pool_retrieve ?h (bufs st) tmp_addr = Some a" "heap st a = Some b" "static \<longrightarrow> cb_static b"
      by (auto simp: usable_def split: option.splits if_splits)
    obtain st' where up: "CRYPTO_BUFFER_up_ref a st = Some st'" using a(2) by (simp add: CRYPTO_BUFFER_up_ref_def)
    have "a \<notin> pen" using found [OF a(1)] D(5) by blast
    from up_ref_inv [OF inv this up] found [OF a(1)] a(2, 3) up Some show ?thesis
      by (simp add: lookup_section_def tmp_def [symmetric] Let_def)
        (auto simp: CRYPTO_BUFFER_up_ref_def heap_set_refs)
  qed
qed

lemma insert_section_inv:
  assumes inv: "pool_inv st own pen" and a: "a \<in> pen"
  shows "\<exists>r st'. insert_section mall a st = Some (r, st') \<and>
    pool_inv st' (case r of None \<Rightarrow> own(a := 0) | Some d \<Rightarrow> (own(a := 0))(d := (own(a := 0)) d + 1)) (pen - {a}) \<and>
    (\<forall>d. r = Some d \<longrightarrow> map_option content (heap st' d) = map_option content (heap st a))"
proof -
  note D = pool_invD [OF inv]
  from D(6) [OF a] obtain b where b: "own a = 1" "heap st a = Some b" "cb_pool b" "cb_references b = 1" by auto
  have out: "a \<notin> members st" using D(5) [of a] a by blast
  have L: "a \<in> live (heap st)" using b(2) D(2) [OF b(2)] by (simp add: live_def)
  show ?thesis
  proof (cases "usable (heap st) (cb_static b) (pool_retrieve (heap st) (bufs st) a)")
    case (Some d)
    then obtain x where d: "pool_retrieve (heap st) (bufs st) a = Some d" "heap st d = Some x"
      by (auto simp: usable_def split: option.splits if_splits)
    note mem = pool_retrieve_member(2) [OF inv L d(1)]
    have dn: "d \<noteq> a" "d \<notin> pen" using mem out D(5) by blast+
    obtain st1 where up: "CRYPTO_BUFFER_up_ref d st = Some st1" using d(2) by (simp add: CRYPTO_BUFFER_up_ref_def)
    note U = up_ref_inv [OF inv dn(2) up]
    let ?own = "(own(a := 0))(d := own d + 1)"
    note E = pool_invD [OF conjunct1 [OF U]]
    have "a \<notin> members st1" using out up by (auto simp: CRYPTO_BUFFER_up_ref_def)
    then have "pool_inv (crypto_buffer_free_object a st1) ?own (pen - {a})"
    proof (rule free_object_pool_inv [OF E(1)])
      fix c y assume c: "c \<noteq> a" "heap st1 c = Some y"
      show "c \<noteq> tmp_addr \<and> c < next_addr st1 \<and> wf_buf y \<and>
          (cb_references y = CRYPTO_REFCOUNT_MAX \<or> unat (cb_references y) = ?own c \<and> 0 < ?own c)"
        using E(2) [OF c(2)] c(1) by (auto split: if_splits)
    next
      fix c assume "c \<noteq> a" "0 < ?own c"
      then show "heap st1 c \<noteq> None" using E(3) [of c] by (auto split: if_splits)
    next
      fix c assume "c \<in> members st1"
      then show "c \<notin> pen - {a} \<and> (\<exists>b. heap st1 c = Some b \<and> cb_pool b)" using E(5) by blast
    next
      fix c assume "c \<in> pen - {a}"
      then show "?own c = 1 \<and> (\<exists>b. heap st1 c = Some b \<and> cb_pool b \<and> cb_references b = 1)"
        using E(6) [of c] dn by auto
    qed (use dn E(4) in auto)
    moreover have "insert_section mall a st = Some (Some d, crypto_buffer_free_object a st1)"
      by (simp add: insert_section_def b(2) Some up)
    moreover have "map_option content (heap (crypto_buffer_free_object a st1) d) = map_option content (heap st a)"
      using U mem dn by (simp add: crypto_buffer_free_object_def)
    moreover have "(case Some d of None \<Rightarrow> own(a := 0) | Some d \<Rightarrow> (own(a := 0))(d := (own(a := 0)) d + 1)) = ?own"
      using dn by simp
    ultimately show ?thesis by (intro exI [of _ "Some d"] exI [of _ "crypto_buffer_free_object a st1"]) auto
  next
    case None
    obtain ok old lh where i: "OPENSSL_lh_insert mall (buf_hash (heap st)) (buf_cmp (heap st)) (bufs st) a = (ok, old, lh)"
      by (cases "OPENSSL_lh_insert mall (buf_hash (heap st)) (buf_cmp (heap st)) (bufs st) a")
    from D(4) L i show ?thesis
    proof (cases rule: pool_table.insert_cases)
      case failed
      have "pool_inv (crypto_buffer_free_object a st) (own(a := 0)) (pen - {a})"
        by (rule free_object_pool_inv [OF D(1) out _ _ _ _ D(4)]) (use D(2,3,5,6) in \<open>auto split: if_splits\<close>)
      moreover have "insert_section mall a st = Some (None, crypto_buffer_free_object a st)"
        using failed by (simp add: insert_section_def b(2) None i)
      ultimately show ?thesis by auto
    next
      case inserted
      have same: "(own(a := 0))(a := (own(a := 0)) a + 1) = own" using b(1) by (auto simp: fun_eq_iff)
      have sub: "members (st\<lparr>bufs := lh\<rparr>) \<subseteq> insert a (members st)"
        using inserted(5) by (auto simp: members_def)
      have "pool_inv (st\<lparr>bufs := lh\<rparr>) own (pen - {a})"
        unfolding pool_inv_def
      proof (intro conjI)
        show "\<forall>c\<in>members (st\<lparr>bufs := lh\<rparr>). c \<notin> pen - {a} \<and> (\<exists>b. heap (st\<lparr>bufs := lh\<rparr>) c = Some b \<and> cb_pool b)"
          using sub D(5) b by auto
      qed (use D(1-3, 6) inserted(3) in auto)
      moreover have "insert_section mall a st = Some (Some a, st\<lparr>bufs := lh\<rparr>)"
        using inserted(1) by (simp add: insert_section_def b(2) None i)
      ultimately show ?thesis using same by auto
    qed
  qed
qed

lemma free_inv:
  assumes inv: "pool_inv st own pen" and own: "0 < own a" and a: "a \<notin> pen"
  shows "\<exists>st'. CRYPTO_BUFFER_free mall a st = Some st' \<and> pool_inv st' (own(a := own a - 1)) pen"
proof -
  note D = pool_invD [OF inv]
  from D(3) [OF own] obtain b where b: "heap st a = Some b" by auto
  note Db = D(2) [OF b]
  let ?own = "own(a := own a - 1)"
  have pos: "cb_references b \<noteq> 0" using Db by (auto simp: CRYPTO_REFCOUNT_MAX_def)
  define n where "n = (if cb_references b = CRYPTO_REFCOUNT_MAX then cb_references b else cb_references b - 1)"
  define st1 where "st1 = set_refs a n st"
  have h1: "heap st1 a = Some (b\<lparr>cb_references := n\<rparr>)" "\<And>c. c \<noteq> a \<Longrightarrow> heap st1 c = heap st c"
    by (simp_all add: st1_def heap_set_refs b)
  have same: "buf_hash (heap st1) = buf_hash (heap st)" "buf_cmp (heap st1) = buf_cmp (heap st)"
      "live (heap st1) = live (heap st)" "bufs st1 = bufs st" "next_addr st1 = next_addr st" "members st1 = members st"
    by (simp_all add: st1_def)
  have un: "unat n = own a - 1" if "cb_references b \<noteq> CRYPTO_REFCOUNT_MAX"
    using that Db pos by (auto simp: n_def unat_minus_one)
  show ?thesis
  proof (cases "cb_references b = CRYPTO_REFCOUNT_MAX \<or> n \<noteq> 0")
    case True
    have "CRYPTO_BUFFER_free mall a st = Some st1"
      using True pos by (auto simp: CRYPTO_BUFFER_free_def b CRYPTO_refcount_dec_and_test_zero_def n_def st1_def)
    moreover have "pool_inv st1 ?own pen"
      unfolding pool_inv_def
    proof (intro conjI allI impI ballI)
      fix c x assume c: "heap st1 c = Some x"
      show "c \<noteq> tmp_addr" "c < next_addr st1" "wf_buf x"
        using c D(2) [of c] h1 Db b by (cases "c = a"; auto simp: same wf_buf_def)+
      show "cb_references x = CRYPTO_REFCOUNT_MAX \<or> unat (cb_references x) = ?own c \<and> 0 < ?own c"
      proof (cases "c = a")
        case True
        then have "cb_references x = n" using c h1(1) by auto
        moreover have "0 < unat n" if "n \<noteq> 0" using that by (simp add: unat_gt_0)
        ultimately show ?thesis
          using True un \<open>cb_references b = CRYPTO_REFCOUNT_MAX \<or> n \<noteq> 0\<close>
          by (cases "cb_references b = CRYPTO_REFCOUNT_MAX") (simp_all add: n_def del: unat_gt_0)
      qed (use c D(2) [of c] h1 in auto)
    next
      fix c assume "0 < ?own c"
      then show "heap st1 c \<noteq> None" using D(3) [of c] h1 by (cases "c = a") auto
    next
      fix c assume "c \<in> members st1"
      then have "c \<in> members st" by (simp add: same)
      from D(5) [OF this] show "c \<notin> pen" "\<exists>x. heap st1 c = Some x \<and> cb_pool x"
        using h1 b by (cases "c = a"; auto)+
    next
      fix c assume c: "c \<in> pen"
      with a have "c \<noteq> a" by blast
      with c D(6) [of c] show "?own c = 1" "\<exists>x. heap st1 c = Some x \<and> cb_pool x \<and> cb_references x = 1"
        using h1 by auto
    qed (use D(1, 4) in \<open>simp_all add: same\<close>)
    ultimately show ?thesis by blast
  next
    case False
    then have z: "cb_references b \<noteq> CRYPTO_REFCOUNT_MAX" "n = 0" "cb_references b - 1 = 0" by (auto simp: n_def)
    have own0: "?own a = 0" using un [OF z(1)] z(2) by simp
    have L: "a \<in> live (heap st1)" using h1 Db by (simp add: live_def wf_buf_def)
    have rest: "pool_inv (crypto_buffer_free_object a st2) ?own pen"
      if s: "heap st2 = heap st1" "next_addr st2 = next_addr st1" "a \<notin> members st2" "members st2 \<subseteq> members st1"
        "table_inv (live (heap st1)) (buf_hash (heap st1)) (buf_cmp (heap st1)) (bufs st2)" for st2
    proof (rule free_object_pool_inv)
      show "tmp_addr < next_addr st2" using D(1) s(2) by (simp add: same)
      fix c x assume "c \<noteq> a" "heap st2 c = Some x"
      then show "c \<noteq> tmp_addr \<and> c < next_addr st2 \<and> wf_buf x \<and>
          (cb_references x = CRYPTO_REFCOUNT_MAX \<or> unat (cb_references x) = ?own c \<and> 0 < ?own c)"
        using D(2) [of c] s(1, 2) h1 by (simp add: same)
    next
      fix c assume "c \<noteq> a" "0 < ?own c"
      then show "heap st2 c \<noteq> None" using D(3) [of c] s(1) h1 by simp
    next
      fix c assume "c \<in> members st2"
      then have "c \<in> members st" "c \<noteq> a" using s(3, 4) same by auto
      then show "c \<notin> pen \<and> (\<exists>b. heap st2 c = Some b \<and> cb_pool b)" using D(5) s(1) h1 by auto
    next
      fix c assume c: "c \<in> pen"
      with a have "c \<noteq> a" by blast
      with c D(6) [of c] s(1) h1 show "?own c = 1 \<and> (\<exists>b. heap st2 c = Some b \<and> cb_pool b \<and> cb_references b = 1)"
        by auto
    qed (use s a own0 in simp_all)
    have T1: "table_inv (live (heap st1)) (buf_hash (heap st1)) (buf_cmp (heap st1)) (bufs st1)"
      using D(4) by (simp add: same)
    have dec: "CRYPTO_refcount_dec_and_test_zero (cb_references b) = Some (True, n)"
      using z pos by (simp add: CRYPTO_refcount_dec_and_test_zero_def)
    show ?thesis
    proof (cases "cb_pool b")
      case False
      then have "a \<notin> members st1" using D(5) [of a] b by (auto simp: same)
      then have "pool_inv (crypto_buffer_free_object a st1) ?own pen" using T1 by (intro rest) auto
      moreover have "CRYPTO_BUFFER_free mall a st = Some (crypto_buffer_free_object a st1)"
        using False by (simp add: CRYPTO_BUFFER_free_def b dec st1_def)
      ultimately show ?thesis by blast
    next
      case True
      obtain ret lh where d: "OPENSSL_lh_delete mall (buf_hash (heap st1)) (buf_cmp (heap st1)) (bufs st1) a = (ret, lh)"
        by fastforce
      have refl: "buf_cmp (heap st1) a a = 0" using L by (simp add: buf_cmp_live)
      note del = pool_table.delete_cases [OF T1 L d]
      define st2 where "st2 = (if pool_retrieve (heap st1) (bufs st1) a = Some a then st1\<lparr>bufs := lh\<rparr> else st1)"
      have gone: "a \<notin> it_data ` set (items lh)"
      proof
        assume "a \<in> it_data ` set (items lh)"
        moreover have "table_lookup (buf_cmp (heap st1)) lh a = None" using del L refl by simp
        ultimately show False using refl by (auto simp: pool_table.lookup_None_iff)
      qed
      have "pool_retrieve (heap st1) (bufs st1) a = Some a" if "a \<in> members st1"
        using that pool_table.retrieve_lookup [OF T1 L] pool_table.lookup_iff [OF T1 L, of a] refl
        by (auto simp: pool_retrieve_def members_def)
      with gone have "a \<notin> members st2" by (auto simp: st2_def members_def)
      moreover have "members st2 \<subseteq> members st1" using del by (auto simp: st2_def members_def)
      moreover have "table_inv (live (heap st1)) (buf_hash (heap st1)) (buf_cmp (heap st1)) (bufs st2)"
        using del T1 by (simp add: st2_def)
      ultimately have "pool_inv (crypto_buffer_free_object a st2) ?own pen"
        by (intro rest) (simp_all add: st2_def)
      moreover have "CRYPTO_BUFFER_free mall a st = Some (crypto_buffer_free_object a st2)"
        using True by (simp add: CRYPTO_BUFFER_free_def b dec st1_def [symmetric] st2_def d Let_def del: set_refs_same)
      ultimately show ?thesis by blast
    qed
  qed
qed

lemma new_pool_inv:
  assumes "CRYPTO_BUFFER_POOL_new mall = Some st"
  shows "pool_inv st (\<lambda>a. 0) {}"
proof -
  from assms have st: "st = \<lparr>heap = Map.empty, bufs = \<lparr>num_items = 0, buckets = replicate kMinNumBuckets [],
      num_buckets = kMinNumBuckets, callback_depth = 0, lh_next_ref = 0\<rparr>, next_addr = 1\<rparr>"
    by (auto simp: CRYPTO_BUFFER_POOL_new_def OPENSSL_lh_new_def split: if_splits)
  have "items (bufs st) = []" by (simp add: st items_def)
  moreover have "lh_shape (bufs st)"
    by (simp add: st lh_shape_def items_def placed_def kMinNumBuckets_def sizeof_item_ptr_def)
  ultimately show ?thesis
    by (simp add: pool_inv_def table_inv_def table_good_def members_def) (simp add: st tmp_addr_def)
qed

lemma alloc_buffer_inv:
  assumes "pool_inv st own pen" "len \<le> length data" "alloc_buffer mall data len static pool st = (Some a, st')"
  shows "pool_inv st' (own(a := 1)) (if pool then insert a pen else pen) \<and>
    map_option content (heap st' a) = Some (take len data)"
proof -
  define d where "d = (if static then data else take len data)"
  have d: "a = next_addr st" "take len d = take len data" "len \<le> length d"
    "st' = st\<lparr>heap := (heap st)(a \<mapsto> \<lparr>cb_pool = pool, cb_data = d, cb_len = len,
        cb_references = 1, cb_static = static\<rparr>), next_addr := a + 1\<rparr>"
    using assms(2, 3) OPENSSL_memdup_eq [of mall data len]
    by (auto simp: alloc_buffer_def Let_def d_def split: if_splits option.splits)
  with new_buffer_inv [OF assms(1) d(1) _ _ d(4)] show ?thesis
    by (simp add: wf_buf_def content_def)
qed

lemma CRYPTO_BUFFER_alloc_inv:
  assumes "pool_inv st own pen" "CRYPTO_BUFFER_alloc mall len st = (Some a, st')"
  shows "pool_inv st' (own(a := 1)) pen"
proof -
  from assms(2) obtain d where d: "a = next_addr st" "len \<le> length d"
    "st' = st\<lparr>heap := (heap st)(a \<mapsto> \<lparr>cb_pool = False, cb_data = d, cb_len = len,
        cb_references = 1, cb_static = False\<rparr>), next_addr := a + 1\<rparr>"
    using length_OPENSSL_malloc [of mall len]
    by (auto simp: CRYPTO_BUFFER_alloc_def Let_def split: if_splits option.splits)
  with new_buffer_inv [OF assms(1) d(1) _ _ d(3)] show ?thesis by (simp add: wf_buf_def)
qed

subsection \<open>Interleaved threads\<close>

text \<open>
  The states that threads sharing the pool can reach. \<open>own a\<close> is the number of references to \<open>a\<close>
  held by clients, \<open>pen\<close> the objects that a thread has allocated and not yet tried to insert. A client
  frees or copies only references it holds.
\<close>

inductive pool_reach :: "pool_state \<Rightarrow> (nat \<Rightarrow> nat) \<Rightarrow> nat set \<Rightarrow> bool" where
  init: "CRYPTO_BUFFER_POOL_new mall = Some st \<Longrightarrow> pool_reach st (\<lambda>a. 0) {}"
| lookup: "pool_reach st own pen \<Longrightarrow> len \<le> length data \<Longrightarrow>
    lookup_section data len static st = Some (Some a, st') \<Longrightarrow> pool_reach st' (own(a := own a + 1)) pen"
| alloc: "pool_reach st own pen \<Longrightarrow> len \<le> length data \<Longrightarrow>
    alloc_buffer mall data len static pool st = (Some a, st') \<Longrightarrow>
    pool_reach st' (own(a := 1)) (if pool then insert a pen else pen)"
| alloc_raw: "pool_reach st own pen \<Longrightarrow> CRYPTO_BUFFER_alloc mall len st = (Some a, st') \<Longrightarrow>
    pool_reach st' (own(a := 1)) pen"
| insert: "pool_reach st own pen \<Longrightarrow> a \<in> pen \<Longrightarrow> insert_section mall a st = Some (r, st') \<Longrightarrow>
    pool_reach st' (case r of None \<Rightarrow> own(a := 0) | Some d \<Rightarrow> (own(a := 0))(d := (own(a := 0)) d + 1)) (pen - {a})"
| up_ref: "pool_reach st own pen \<Longrightarrow> 0 < own a \<Longrightarrow> a \<notin> pen \<Longrightarrow> CRYPTO_BUFFER_up_ref a st = Some st' \<Longrightarrow>
    pool_reach st' (own(a := own a + 1)) pen"
| free: "pool_reach st own pen \<Longrightarrow> 0 < own a \<Longrightarrow> a \<notin> pen \<Longrightarrow> CRYPTO_BUFFER_free mall a st = Some st' \<Longrightarrow>
    pool_reach st' (own(a := own a - 1)) pen"

lemma pool_reach_inv: "pool_reach st own pen \<Longrightarrow> pool_inv st own pen"
proof (induction rule: pool_reach.induct)
  case (lookup st own pen len data static a st')
  from lookup_section_inv [OF lookup.IH lookup.hyps(2), of static] lookup.hyps(3) show ?case
    by (auto simp: fun_upd_def)
next
  case (insert st own pen a mall r st')
  from insert_section_inv [OF insert.IH insert.hyps(2), of mall] insert.hyps(3) show ?case by auto
next
  case (free st own pen a mall st')
  from free_inv [OF free.IH free.hyps(2, 3), of mall] free.hyps(4) show ?case
    by (auto simp: fun_upd_def)
next
  case (up_ref st own pen a st')
  from up_ref_inv [OF up_ref.IH up_ref.hyps(3, 4)] show ?case by (simp add: fun_upd_def)
qed (use new_pool_inv alloc_buffer_inv CRYPTO_BUFFER_alloc_inv in blast)+

lemma pool_members_distinct:
  assumes "pool_inv st own pen" "a \<in> members st" "b \<in> members st"
    and "map_option content (heap st a) = map_option content (heap st b)"
  shows "a = b"
proof -
  note T = pool_invD(4) [OF assms(1)]
  from assms(2, 3) obtain x y where xy: "x \<in> set (items (bufs st))" "y \<in> set (items (bufs st))" "a = it_data x" "b = it_data y"
    by (auto simp: members_def)
  then have "a \<in> live (heap st)" "b \<in> live (heap st)" using pool_table.lh_invD(5) [OF T] by auto
  then have "buf_cmp (heap st) a b = 0" using assms(4) by (simp add: buf_cmp_live)
  then show ?thesis using xy pool_table.lh_invD(4) [OF T] by (auto simp: table_good_def)
qed

text \<open>
  Property C12: in every state that interleaved threads reach, the pool's table holds live, pooled
  objects with pairwise different contents, and every critical section runs: an insertion of an
  allocated buffer, a copy or a release of a reference that is held, and a lookup never read a freed
  object and never drop a count below zero.
\<close>

theorem pool_no_dangling:
  assumes "pool_reach st own pen"
  shows "(\<forall>a\<in>members st. \<exists>b. heap st a = Some b \<and> cb_pool b) \<and>
    (\<forall>a\<in>members st. \<forall>b\<in>members st. map_option content (heap st a) = map_option content (heap st b) \<longrightarrow> a = b) \<and>
    (\<forall>a. 0 < own a \<longrightarrow> a \<notin> pen \<longrightarrow> CRYPTO_BUFFER_up_ref a st \<noteq> None \<and> CRYPTO_BUFFER_free mall a st \<noteq> None) \<and>
    (\<forall>a\<in>pen. insert_section mall a st \<noteq> None) \<and>
    (\<forall>data len. len \<le> length data \<longrightarrow> lookup_section data len static st \<noteq> None)"
proof (intro conjI allI ballI impI)
  note inv = pool_reach_inv [OF assms]
  note D = pool_invD [OF inv]
  show "\<exists>b. heap st a = Some b \<and> cb_pool b" if "a \<in> members st" for a using D(5) [OF that] by blast
  show "a = b" if "a \<in> members st" "b \<in> members st" "map_option content (heap st a) = map_option content (heap st b)" for a b
    using pool_members_distinct [OF inv that] .
  show "CRYPTO_BUFFER_up_ref a st \<noteq> None" if "0 < own a" for a
    using D(3) [OF that] by (simp add: CRYPTO_BUFFER_up_ref_def)
  show "CRYPTO_BUFFER_free mall a st \<noteq> None" if "0 < own a" "a \<notin> pen" for a
    using free_inv [OF inv that, of mall] by auto
  show "insert_section mall a st \<noteq> None" if "a \<in> pen" for a
    using insert_section_inv [OF inv that, of mall] by auto
  show "lookup_section data len static st \<noteq> None" if "len \<le> length data" for data len
    using lookup_section_inv [OF inv that, of static] by auto
qed

definition demo_pool :: pool_state where
  "demo_pool = the (CRYPTO_BUFFER_POOL_new (\<lambda>n. True))"

lemma demo_pool_reach: "pool_reach demo_pool (\<lambda>a. 0) {}"
proof (rule pool_reach.init)
  show "CRYPTO_BUFFER_POOL_new (\<lambda>n. True) = Some demo_pool"
    by (simp add: demo_pool_def CRYPTO_BUFFER_POOL_new_def OPENSSL_lh_new_def alloc_ok_def
        sizeof_CRYPTO_BUFFER_POOL_def sizeof_LHASH_def sizeof_item_ptr_def kMinNumBuckets_def OPENSSL_MALLOC_PREFIX_def)
qed

theorem pool_no_dangling_witness:
  "\<exists>st. alloc_buffer (\<lambda>n. True) [1, 2] 2 False True demo_pool = (Some 1, st) \<and> insert_section (\<lambda>n. True) 1 st \<noteq> None"
proof -
  let ?st = "snd (alloc_buffer (\<lambda>n. True) [1, 2] 2 False True demo_pool)"
  have "fst (alloc_buffer (\<lambda>n. True) [1, 2] 2 False True demo_pool) = Some 1" by code_simp
  then have a: "alloc_buffer (\<lambda>n. True) [1, 2] 2 False True demo_pool = (Some 1, ?st)" by (metis prod.collapse)
  have "pool_reach ?st ((\<lambda>a. 0)(1 := 1)) {1}"
    using pool_reach.alloc [OF demo_pool_reach _ a] by simp
  from pool_no_dangling [OF this, of "\<lambda>n. True"] a show ?thesis by blast
qed

text \<open>
  Property C13: \<open>crypto_buffer_new\<close> with a pool returns no pointer, or a pointer to a live buffer with
  the requested contents to which the caller holds a reference, even if other threads run between its
  two critical sections and win the race to insert the same contents.
\<close>

theorem crypto_buffer_new_interns:
  assumes reach: "pool_reach st own pen" and len: "len \<le> length data"
    and other: "\<And>st own pen a. pool_reach st own pen \<Longrightarrow> a \<in> pen \<Longrightarrow>
      \<exists>own' pen'. pool_reach (other st) own' pen' \<and> a \<in> pen' \<and> heap (other st) a = heap st a"
  shows "\<exists>r st' own' pen'. crypto_buffer_new mall other data len static True st = Some (r, st') \<and>
    pool_reach st' own' pen' \<and>
    (\<forall>a. r = Some a \<longrightarrow> 0 < own' a \<and> map_option content (heap st' a) = Some (take len data))"
proof -
  from lookup_section_inv [OF pool_reach_inv [OF reach] len, of static] obtain r1 st1
    where l: "lookup_section data len static st = Some (r1, st1)"
      "case r1 of None \<Rightarrow> st1 = st | Some a \<Rightarrow> map_option content (heap st1 a) = Some (take len data)"
    by (auto split: option.splits)
  show ?thesis
  proof (cases r1)
    case (Some a)
    with l pool_reach.lookup [OF reach len, of static a st1] show ?thesis
      by (fastforce simp: crypto_buffer_new_def)
  next
    case None
    then have st1: "st1 = st" using l(2) by simp
    obtain r2 st2 where al: "alloc_buffer mall data len static True st = (r2, st2)" by fastforce
    show ?thesis
    proof (cases r2)
      case none: None
      then have "st2 = st" using al by (auto simp: alloc_buffer_def Let_def split: if_splits option.splits)
      with none None l st1 al reach show ?thesis by (fastforce simp: crypto_buffer_new_def)
    next
      case (Some a)
      note A = alloc_buffer_inv [OF pool_reach_inv [OF reach] len al [unfolded Some]]
      have "pool_reach st2 (own(a := 1)) (insert a pen)"
        using pool_reach.alloc [OF reach len al [unfolded Some]] by simp
      from other [OF this, of a] obtain own3 pen3
        where o: "pool_reach (other st2) own3 pen3" "a \<in> pen3" "heap (other st2) a = heap st2 a" by blast
      from insert_section_inv [OF pool_reach_inv [OF o(1)] o(2), of mall] obtain r st'
        where i: "insert_section mall a (other st2) = Some (r, st')"
          "\<forall>d. r = Some d \<longrightarrow> map_option content (heap st' d) = map_option content (heap (other st2) a)" by blast
      have "crypto_buffer_new mall other data len static True st = Some (r, st')"
        using None l st1 al Some i by (simp add: crypto_buffer_new_def)
      moreover note pool_reach.insert [OF o(1, 2) i(1)]
      moreover have "map_option content (heap st' d) = Some (take len data)" if "r = Some d" for d
        using i(2) that o(3) A by simp
      ultimately show ?thesis by fastforce
    qed
  qed
qed

theorem crypto_buffer_new_interns_witness:
  "\<exists>r st'. crypto_buffer_new (\<lambda>n. True) (\<lambda>st. st) [1, 2] 2 False True demo_pool = Some (r, st') \<and>
    (\<forall>a. r = Some a \<longrightarrow> map_option content (heap st' a) = Some [1, 2])"
  using crypto_buffer_new_interns [OF demo_pool_reach, of 2 "[1, 2]" "\<lambda>st. st" "\<lambda>n. True" False]
  by auto

end
