(* ===== verification/Buf.thy ===== *)
theory Buf
  imports Mem
begin

text \<open>
  The growable buffer of \<open>crypto/buf/buf.c\<close>. \<open>bm_data\<close> is the allocated array of \<open>bm_max\<close> bytes
  (\<open>None\<close> for the null pointer of a new buffer), of which the first \<open>bm_length\<close> are in use.
\<close>

subsection \<open>State and operations\<close>

record BUF_MEM =
  bm_length :: nat
  bm_data :: "u8 list option"
  bm_max :: nat

definition sizeof_BUF_MEM :: nat where
  "sizeof_BUF_MEM = 24"

definition bm_bytes :: "BUF_MEM \<Rightarrow> u8 list" where
  "bm_bytes buf = (case bm_data buf of None \<Rightarrow> [] | Some d \<Rightarrow> d)"

definition BUF_MEM_new :: "malloc \<Rightarrow> BUF_MEM option" where
  "BUF_MEM_new mall =
     (if OPENSSL_malloc mall sizeof_BUF_MEM = None then None
      else Some \<lparr>bm_length = 0, bm_data = None, bm_max = 0\<rparr>)"

definition BUF_MEM_reserve :: "malloc \<Rightarrow> nat \<Rightarrow> (BUF_MEM, unit) prog" where
  "BUF_MEM_reserve mall cap buf =
     (if cap \<le> bm_max buf then (Some (), buf)
      else (let n = (cap + 3) mod size_mod
            in if n < cap then (None, buf)
               else (let n = n div 3; alloc_size = n * 4 mod size_mod
                     in if alloc_size div 4 \<noteq> n then (None, buf)
                        else (case OPENSSL_realloc mall (bm_data buf) alloc_size of
                                None \<Rightarrow> (None, buf)
                              | Some new_buf \<Rightarrow>
                                  (Some (), buf\<lparr>bm_data := Some new_buf, bm_max := alloc_size\<rparr>)))))"

definition BUF_MEM_grow :: "malloc \<Rightarrow> nat \<Rightarrow> BUF_MEM \<Rightarrow> nat \<times> BUF_MEM" where
  "BUF_MEM_grow mall len buf =
     (case BUF_MEM_reserve mall len buf of
        (None, buf) \<Rightarrow> (0, buf)
      | (Some _, buf) \<Rightarrow>
          (let buf = (if bm_length buf < len
                      then buf\<lparr>bm_data := map_option (\<lambda>d. store d (bm_length buf)
                                                (replicate (len - bm_length buf) 0)) (bm_data buf)\<rparr>
                      else buf)
           in (len, buf\<lparr>bm_length := len\<rparr>)))"

definition BUF_MEM_grow_clean :: "malloc \<Rightarrow> nat \<Rightarrow> BUF_MEM \<Rightarrow> nat \<times> BUF_MEM" where
  "BUF_MEM_grow_clean mall len buf = BUF_MEM_grow mall len buf"

definition BUF_MEM_append :: "malloc \<Rightarrow> u8 list \<Rightarrow> nat \<Rightarrow> (BUF_MEM, unit) prog" where
  "BUF_MEM_append mall src len buf =
     (if len = 0 then (Some (), buf)
      else (let new_len = (bm_length buf + len) mod size_mod
            in if new_len < len then (None, buf)
               else (case BUF_MEM_reserve mall new_len buf of
                       (None, buf) \<Rightarrow> (None, buf)
                     | (Some _, buf) \<Rightarrow>
                         (Some (), buf\<lparr>bm_data := map_option (\<lambda>d. store d (bm_length buf) (take len src)) (bm_data buf),
                                      bm_length := new_len\<rparr>))))"

definition BUF_memdup :: "malloc \<Rightarrow> u8 list \<Rightarrow> nat \<Rightarrow> u8 list option" where
  "BUF_memdup mall data sz = OPENSSL_memdup mall data sz"

definition BUF_strdup where
  "BUF_strdup mall str = OPENSSL_strdup mall str"

definition BUF_strnlen where
  "BUF_strnlen str max_len = OPENSSL_strnlen str max_len"

definition BUF_strndup where
  "BUF_strndup mall str sz = OPENSSL_strndup mall str sz"

definition BUF_strlcpy where
  "BUF_strlcpy dst src dst_size = OPENSSL_strlcpy dst src dst_size"

definition BUF_strlcat where
  "BUF_strlcat dst src dst_size = OPENSSL_strlcat dst src dst_size"

subsection \<open>The contents\<close>

definition wf_buf_mem :: "BUF_MEM \<Rightarrow> bool" where
  "wf_buf_mem buf \<longleftrightarrow> length (bm_bytes buf) = bm_max buf \<and> bm_length buf \<le> bm_max buf \<and> bm_max buf < size_mod"

definition contents :: "BUF_MEM \<Rightarrow> u8 list" where
  "contents buf = take (bm_length buf) (bm_bytes buf)"

lemma BUF_MEM_new_contents: "BUF_MEM_new mall = Some buf \<Longrightarrow> wf_buf_mem buf \<and> contents buf = []"
  by (auto simp: BUF_MEM_new_def wf_buf_mem_def contents_def bm_bytes_def split: if_splits)

text \<open>Rounding up by a third: enough room for \<open>cap\<close> bytes, without wrap-around.\<close>

lemma reserve_size:
  assumes "\<not> (cap + 3) mod size_mod < cap" "cap < size_mod" "(cap + 3) mod size_mod div 3 * 4 mod size_mod div 4 = (cap + 3) mod size_mod div 3"
  shows "cap \<le> (cap + 3) mod size_mod div 3 * 4 mod size_mod"
proof -
  let ?n = "(cap + 3) mod size_mod"
  have n: "?n = cap + 3"
  proof (rule ccontr)
    assume "?n \<noteq> cap + 3"
    then have "\<not> cap + 3 < size_mod" by (metis mod_less)
    then have "?n = cap + 3 - size_mod" using assms(2) by (simp add: mod_if)
    with assms(1, 2) show False by simp
  qed
  have "?n div 3 * 4 mod size_mod = ?n div 3 * 4"
  proof -
    have "?n div 3 * 4 mod size_mod div 4 * 4 \<le> ?n div 3 * 4 mod size_mod" by simp
    then have "?n div 3 * 4 \<le> ?n div 3 * 4 mod size_mod" by (simp only: assms(3))
    moreover have "?n div 3 * 4 mod size_mod \<le> ?n div 3 * 4" by (rule mod_less_eq_dividend)
    ultimately show ?thesis by (rule antisym [rotated])
  qed
  moreover have "cap \<le> (cap + 3) div 3 * 4" by simp
  ultimately show ?thesis by (simp only: n)
qed

lemma BUF_MEM_reserve_cases:
  assumes "wf_buf_mem buf" "cap < size_mod"
  shows "case BUF_MEM_reserve mall cap buf of (None, buf') \<Rightarrow> buf' = buf
    | (Some _, buf') \<Rightarrow> wf_buf_mem buf' \<and> cap \<le> bm_max buf' \<and> bm_length buf' = bm_length buf \<and>
        contents buf' = contents buf"
proof (cases "cap \<le> bm_max buf")
  case True
  with assms show ?thesis by (simp add: BUF_MEM_reserve_def)
next
  case False
  define a where "a = (cap + 3) mod size_mod div 3 * 4 mod size_mod"
  show ?thesis
  proof (cases "(cap + 3) mod size_mod < cap \<or> a div 4 \<noteq> (cap + 3) mod size_mod div 3")
    case True
    with False show ?thesis by (auto simp: BUF_MEM_reserve_def Let_def a_def)
  next
    case ok: False
    then have le: "cap \<le> a" using reserve_size [of cap] assms(2) by (simp add: a_def)
    have step: "BUF_MEM_reserve mall cap buf = (case OPENSSL_realloc mall (bm_data buf) a of
        None \<Rightarrow> (None, buf) | Some new_buf \<Rightarrow> (Some (), buf\<lparr>bm_data := Some new_buf, bm_max := a\<rparr>))"
      using False ok unfolding BUF_MEM_reserve_def Let_def a_def [symmetric] by simp
    show ?thesis
    proof (cases "OPENSSL_realloc mall (bm_data buf) a")
      case None
      then show ?thesis by (simp add: step)
    next
      case (Some p)
      have len: "length p = a" using Some by (rule length_OPENSSL_realloc)
      have "take (bm_length buf) p = contents buf"
      proof (cases "bm_data buf")
        case None
        with assms(1) show ?thesis by (simp add: wf_buf_mem_def contents_def bm_bytes_def)
      next
        case d: (Some old)
        have "length old \<le> a" using assms(1) d False le by (simp add: wf_buf_mem_def bm_bytes_def)
        with Some d have "take (length old) p = old" by (simp add: OPENSSL_realloc_keeps)
        then have "take (bm_length buf) (take (length old) p) = take (bm_length buf) old" by simp
        with assms(1) d show ?thesis by (simp add: wf_buf_mem_def contents_def bm_bytes_def min_absorb1)
      qed
      moreover have "a < size_mod" by (simp add: a_def)
      ultimately show ?thesis
        using assms(1) False le len Some by (simp add: step wf_buf_mem_def bm_bytes_def contents_def)
    qed
  qed
qed

lemma store_bytes:
  assumes "pos + length xs \<le> length d"
  shows "length (store d pos xs) = length d" "take (pos + length xs) (store d pos xs) = take pos d @ xs"
  using assms by (simp_all add: store_def)

lemma wf_contents:
  "wf_buf_mem buf \<Longrightarrow> length (contents buf) = bm_length buf"
  by (simp add: wf_buf_mem_def contents_def)

text \<open>Writing behind the contents of a buffer that has the room.\<close>

lemma store_contents:
  assumes "wf_buf_mem buf" "bm_length buf + length xs \<le> bm_max buf" "xs \<noteq> []"
  defines "buf' \<equiv> buf\<lparr>bm_data := map_option (\<lambda>d. store d (bm_length buf) xs) (bm_data buf),
      bm_length := bm_length buf + length xs\<rparr>"
  shows "wf_buf_mem buf' \<and> contents buf' = contents buf @ xs"
proof -
  obtain d where d: "bm_data buf = Some d" "length d = bm_max buf"
    using assms(1-3) by (cases "bm_data buf") (auto simp: wf_buf_mem_def bm_bytes_def)
  with store_bytes [of "bm_length buf" xs d] assms(1, 2) show ?thesis
    by (simp add: buf'_def wf_buf_mem_def bm_bytes_def contents_def)
qed

definition demo_buf :: BUF_MEM where
  "demo_buf = \<lparr>bm_length = 2, bm_data = Some [1, 2, 9, 9], bm_max = 4\<rparr>"

text \<open>
  : \<open>BUF_MEM_append\<close> either fails and leaves the buffer as it was, on an overflow of the
  length or a failed allocation, or the contents are the old ones followed by the new bytes; and
  \<open>BUF_MEM_grow\<close> to \<open>len\<close> cuts the contents to \<open>len\<close> bytes or extends them by zeros.
\<close>

theorem BUF_MEM_append_grow:
  assumes wf: "wf_buf_mem buf" and len: "len < size_mod" "len \<le> length src"
  shows "(case BUF_MEM_append mall src len buf of (None, buf') \<Rightarrow> buf' = buf
      | (Some _, buf') \<Rightarrow> wf_buf_mem buf' \<and> contents buf' = contents buf @ take len src) \<and>
    (case BUF_MEM_grow mall len buf of (r, buf') \<Rightarrow>
      buf' = buf \<and> r = 0 \<or>
      wf_buf_mem buf' \<and> r = len \<and> contents buf' = take len (contents buf) @ replicate (len - length (contents buf)) 0)"
    (is "?A \<and> ?G")
proof
  let ?new = "(bm_length buf + len) mod size_mod"
  show ?A
  proof (cases "len = 0 \<or> ?new < len")
    case True
    with wf show ?thesis by (auto simp: BUF_MEM_append_def Let_def)
  next
    case False
    have new: "?new = bm_length buf + len"
    proof (rule ccontr)
      assume "?new \<noteq> bm_length buf + len"
      then have "?new = bm_length buf + len - size_mod"
        using wf len(1) by (auto simp: mod_if wf_buf_mem_def)
      with wf False show False by (auto simp: wf_buf_mem_def)
    qed
    have "?new < size_mod" by simp
    note R = BUF_MEM_reserve_cases [OF wf this, of mall]
    obtain r buf1 where r: "BUF_MEM_reserve mall ?new buf = (r, buf1)" by fastforce
    show ?thesis
    proof (cases r)
      case None
      with R r False show ?thesis by (simp add: BUF_MEM_append_def Let_def)
    next
      case (Some u)
      with R r have b: "wf_buf_mem buf1" "?new \<le> bm_max buf1" "bm_length buf1 = bm_length buf" "contents buf1 = contents buf"
        by simp_all
      have "take len src \<noteq> []" "length (take len src) = len" using False len(2) by auto
      moreover have room: "bm_length buf + len \<le> bm_max buf1" using b(2) by (simp only: new)
      moreover have "BUF_MEM_append mall src len buf = (Some (), buf1\<lparr>bm_data := map_option (\<lambda>d.
          store d (bm_length buf1) (take len src)) (bm_data buf1), bm_length := ?new\<rparr>)"
        using False r Some b(3) by (simp add: BUF_MEM_append_def Let_def)
      note this [unfolded new]
      ultimately show ?thesis using store_contents [OF b(1), of "take len src"] b(3, 4) by simp
    qed
  qed
next
  obtain r buf1 where r: "BUF_MEM_reserve mall len buf = (r, buf1)" by fastforce
  show ?G
  proof (cases r)
    case None
    with BUF_MEM_reserve_cases [OF wf len(1), of mall] r show ?thesis by (simp add: BUF_MEM_grow_def)
  next
    case (Some u)
    with BUF_MEM_reserve_cases [OF wf len(1), of mall] r
    have b: "wf_buf_mem buf1" "len \<le> bm_max buf1" "bm_length buf1 = bm_length buf" "contents buf1 = contents buf"
      by simp_all
    show ?thesis
    proof (cases "bm_length buf < len")
      case True
      with store_contents [OF b(1), of "replicate (len - bm_length buf) 0"] b r Some wf_contents [OF wf] show ?thesis
        by (simp add: BUF_MEM_grow_def Let_def)
    next
      case False
      have "contents (buf1\<lparr>bm_length := len\<rparr>) = take len (contents buf1)" "wf_buf_mem (buf1\<lparr>bm_length := len\<rparr>)"
        using False b(1-3) by (simp_all add: contents_def wf_buf_mem_def bm_bytes_def min_absorb1)
      with False b r Some wf_contents [OF wf] show ?thesis by (simp add: BUF_MEM_grow_def Let_def)
    qed
  qed
qed

theorem BUF_MEM_append_grow_witness:
  "contents (snd (BUF_MEM_append (\<lambda>n. True) [3, 4, 5] 3 demo_buf)) = [1, 2, 3, 4, 5]"
proof -
  have wf: "wf_buf_mem demo_buf" "contents demo_buf = [1, 2]"
    and ok: "fst (BUF_MEM_append (\<lambda>n. True) [3, 4, 5] 3 demo_buf) = Some ()" by code_simp+
  obtain buf' where "BUF_MEM_append (\<lambda>n. True) [3, 4, 5] 3 demo_buf = (Some (), buf')"
    using ok by (metis prod.collapse)
  with BUF_MEM_append_grow [OF wf(1), of 3 "[3, 4, 5]" "\<lambda>n. True"] wf(2) show ?thesis by simp
qed

end
