(* ===== verification/PB_Stream.thy ===== *)
theory PB_Stream
  imports Mem
begin

text \<open>
  The streams and the wire format of nanopb (\<open>src/TWTW/Pods/nanopb\<close>: \<open>pb_encode.c\<close>, \<open>pb_decode.c\<close>), the
  protocol-buffer codec under Firestore, as it is configured there: callbacks, error messages and
  64-bit integers enabled, \<open>uint_fast8_t\<close> of eight bits.

  A stream holds the callback that moves the bytes and its state, of any type \<open>'s\<close>. An output callback
  is null for a stream that only counts. An input callback takes the number of bytes and returns them,
  or nothing for an error; \<open>is_buf\<close> says that it is the library's own \<open>buf_read\<close>, which the code tests by
  comparing pointers. The functions return the outputs, or \<open>None\<close> for \<open>false\<close>, and the stream.
\<close>

subsection \<open>Output streams\<close>

record 's ostream =
  os_callback :: "('s \<Rightarrow> u8 list \<Rightarrow> bool \<times> 's) option"
  os_state :: 's
  os_max_size :: nat
  os_bytes_written :: nat
  os_errmsg :: "string option"

definition os_error :: "string \<Rightarrow> ('s ostream, 'a) prog" where
  "os_error msg st =
     (None, st\<lparr>os_errmsg := (case os_errmsg st of None \<Rightarrow> Some msg | Some m \<Rightarrow> Some m)\<rparr>)"

text \<open>\<open>buf_write\<close>: the state is the memory block and the position of the \<open>dest\<close> pointer in it.\<close>

definition buf_write :: "u8 list \<times> nat \<Rightarrow> u8 list \<Rightarrow> bool \<times> (u8 list \<times> nat)" where
  "buf_write s bs = (True, (store (fst s) (snd s) bs, snd s + length bs))"

definition pb_ostream_from_buffer :: "u8 list \<Rightarrow> nat \<Rightarrow> (u8 list \<times> nat) ostream" where
  "pb_ostream_from_buffer buf bufsize =
     \<lparr>os_callback = Some buf_write, os_state = (buf, 0), os_max_size = bufsize, os_bytes_written = 0,
      os_errmsg = None\<rparr>"

definition PB_OSTREAM_SIZING :: "'s \<Rightarrow> 's ostream" where
  "PB_OSTREAM_SIZING s =
     \<lparr>os_callback = None, os_state = s, os_max_size = 0, os_bytes_written = 0, os_errmsg = None\<rparr>"

definition pb_write :: "u8 list \<Rightarrow> nat \<Rightarrow> ('s ostream, unit) prog" where
  "pb_write buf count st =
     (let new = (os_bytes_written st + count) mod size_mod;
          finish = (\<lambda>st. (Some (), st\<lparr>os_bytes_written := (os_bytes_written st + count) mod size_mod\<rparr>))
      in case os_callback st of
           None \<Rightarrow> finish st
         | Some cb \<Rightarrow>
             if count = 0 then finish st
             else if new < os_bytes_written st \<or> os_max_size st < new then os_error ''stream full'' st
             else (case cb (os_state st) (take count buf) of
                     (False, s') \<Rightarrow> os_error ''io error'' (st\<lparr>os_state := s'\<rparr>)
                   | (True, s') \<Rightarrow> finish (st\<lparr>os_state := s'\<rparr>)))"

subsection \<open>Encoding scalars\<close>

function varint_bytes :: "u64 \<Rightarrow> u8 list" where
  "varint_bytes v = (if v = 0 then [] else ucast (v AND 0x7F OR 0x80) # varint_bytes (drop_bit 7 v))"
  by pat_completeness auto
termination
proof (relation "measure unat")
  fix v :: u64
  assume "v \<noteq> 0"
  then have "0 < unat v" by (simp add: unat_gt_0)
  then have "unat v div 2 ^ 7 < unat v" by (simp add: div_less_dividend)
  then show "(drop_bit 7 v, v) \<in> measure unat" by (simp add: unat_drop_bit)
qed simp

declare varint_bytes.simps [simp del]

definition pb_encode_varint :: "u64 \<Rightarrow> ('s ostream, unit) prog" where
  "pb_encode_varint value =
     (if value \<le> 0x7F then pb_write [ucast value] 1
      else (let buffer = varint_bytes value; i = length buffer;
                buffer = buffer[i - 1 := buffer ! (i - 1) AND 0x7F]
            in pb_write buffer i))"

definition pb_encode_svarint :: "u64 \<Rightarrow> ('s ostream, unit) prog" where
  "pb_encode_svarint value =
     (let zigzagged = (if sint value < 0 then NOT (push_bit 1 value) else push_bit 1 value)
      in pb_encode_varint zigzagged)"

definition pb_encode_fixed32 :: "u32 \<Rightarrow> ('s ostream, unit) prog" where
  "pb_encode_fixed32 val =
     pb_write [ucast (val AND 0xFF), ucast (drop_bit 8 val AND 0xFF), ucast (drop_bit 16 val AND 0xFF),
               ucast (drop_bit 24 val AND 0xFF)] 4"

definition pb_encode_fixed64 :: "u64 \<Rightarrow> ('s ostream, unit) prog" where
  "pb_encode_fixed64 val =
     pb_write [ucast (val AND 0xFF), ucast (drop_bit 8 val AND 0xFF), ucast (drop_bit 16 val AND 0xFF),
               ucast (drop_bit 24 val AND 0xFF), ucast (drop_bit 32 val AND 0xFF),
               ucast (drop_bit 40 val AND 0xFF), ucast (drop_bit 48 val AND 0xFF),
               ucast (drop_bit 56 val AND 0xFF)] 8"

definition PB_WT_VARINT :: u32 where
  "PB_WT_VARINT = 0"

definition PB_WT_64BIT :: u32 where
  "PB_WT_64BIT = 1"

definition PB_WT_STRING :: u32 where
  "PB_WT_STRING = 2"

definition PB_WT_32BIT :: u32 where
  "PB_WT_32BIT = 5"

definition pb_encode_tag :: "u32 \<Rightarrow> u32 \<Rightarrow> ('s ostream, unit) prog" where
  "pb_encode_tag wiretype field_number =
     pb_encode_varint (push_bit 3 (ucast field_number :: u64) OR ucast wiretype)"

definition pb_encode_string :: "u8 list \<Rightarrow> nat \<Rightarrow> ('s ostream, unit) prog" where
  "pb_encode_string buffer sz = othen (pb_encode_varint (word_of_nat sz)) (pb_write buffer sz)"

subsection \<open>Input streams\<close>

record 's istream =
  is_callback :: "'s \<Rightarrow> nat \<Rightarrow> u8 list option \<times> 's"
  is_buf :: bool
  is_state :: 's
  is_bytes_left :: nat
  is_errmsg :: "string option"

definition is_error :: "string \<Rightarrow> ('s istream, 'a) prog" where
  "is_error msg st =
     (None, st\<lparr>is_errmsg := (case is_errmsg st of None \<Rightarrow> Some msg | Some m \<Rightarrow> Some m)\<rparr>)"

text \<open>\<open>buf_read\<close>: the state is the bytes from the source pointer on.\<close>

definition buf_read :: "u8 list \<Rightarrow> nat \<Rightarrow> u8 list option \<times> u8 list" where
  "buf_read source count = (Some (take count source), drop count source)"

definition pb_istream_from_buffer :: "u8 list \<Rightarrow> nat \<Rightarrow> u8 list istream" where
  "pb_istream_from_buffer buf bufsize =
     \<lparr>is_callback = buf_read, is_buf = True, is_state = buf, is_bytes_left = bufsize, is_errmsg = None\<rparr>"

text \<open>
  \<open>pb_read\<close> with a buffer, and \<open>pb_read_null\<close> for a null one, which skips: at once by \<open>buf_read\<close>,
  in pieces of sixteen bytes by any other callback.
\<close>

definition pb_read :: "nat \<Rightarrow> ('s istream, u8 list) prog" where
  "pb_read count st =
     (if count = 0 then (Some [], st)
      else if is_bytes_left st < count then is_error ''end-of-stream'' st
      else (case is_callback st (is_state st) count of
              (None, s') \<Rightarrow> is_error ''io error'' (st\<lparr>is_state := s'\<rparr>)
            | (Some bs, s') \<Rightarrow> (Some bs, st\<lparr>is_state := s', is_bytes_left := is_bytes_left st - count\<rparr>)))"

function skip_pieces :: "nat \<Rightarrow> ('s istream, unit) prog" where
  "skip_pieces count st =
     (if 16 < count then
        (case pb_read 16 st of (None, st') \<Rightarrow> (None, st') | (Some _, st') \<Rightarrow> skip_pieces (count - 16) st')
      else (case pb_read count st of (None, st') \<Rightarrow> (None, st') | (Some _, st') \<Rightarrow> (Some (), st')))"
  by pat_completeness auto
termination
  by (relation "measure fst") auto

declare skip_pieces.simps [simp del]

definition pb_read_null :: "nat \<Rightarrow> ('s istream, unit) prog" where
  "pb_read_null count st =
     (if count = 0 then (Some (), st)
      else if \<not> is_buf st then skip_pieces count st
      else othen (pb_read count) (oret ()) st)"

definition pb_readbyte :: "('s istream, u8) prog" where
  "pb_readbyte st =
     (if is_bytes_left st = 0 then is_error ''end-of-stream'' st
      else (case is_callback st (is_state st) 1 of
              (None, s') \<Rightarrow> is_error ''io error'' (st\<lparr>is_state := s'\<rparr>)
            | (Some bs, s') \<Rightarrow> (Some (bs ! 0), st\<lparr>is_state := s', is_bytes_left := is_bytes_left st - 1\<rparr>)))"

lemma pb_readbyte_less: "pb_readbyte st = (Some b, st') \<Longrightarrow> is_bytes_left st' < is_bytes_left st"
  by (auto simp: pb_readbyte_def is_error_def split: if_splits prod.splits option.splits)

lemma pb_read_less: "pb_read n st = (Some bs, st') \<Longrightarrow> 0 < n \<Longrightarrow> is_bytes_left st' < is_bytes_left st"
  by (auto simp: pb_read_def is_error_def split: if_splits prod.splits option.splits)

subsection \<open>Decoding varints\<close>

function varint32_loop :: "u32 \<Rightarrow> u8 \<Rightarrow> ('s istream, u32) prog" where
  "varint32_loop result bitpos st =
     (case pb_readbyte st of
        (None, st') \<Rightarrow> (None, st')
      | (Some byte, st') \<Rightarrow>
          (let sign_extension = (if bitpos < 63 then 0xFF else 0x01);
               result' = (if 32 \<le> bitpos then result
                          else result OR push_bit (unat bitpos) (ucast (byte AND 0x7F)));
               bitpos' = bitpos + 7
           in if 32 \<le> bitpos \<and> byte AND 0x7F \<noteq> 0 \<and> (drop_bit 31 result = 0 \<or> byte \<noteq> sign_extension)
              then is_error ''varint overflow'' st'
              else if byte AND 0x80 \<noteq> 0 then varint32_loop result' bitpos' st'
              else if bitpos' = 35 \<and> byte AND 0x70 \<noteq> 0 then is_error ''varint overflow'' st'
              else (Some result', st')))"
  by pat_completeness auto
termination
  by (relation "measure (\<lambda>(r, b, st). is_bytes_left st)") (auto dest!: pb_readbyte_less [OF sym])

declare varint32_loop.simps [simp del]

definition pb_decode_varint32_eof :: "'s istream \<Rightarrow> u32 option \<times> bool \<times> 's istream" where
  "pb_decode_varint32_eof st =
     (case pb_readbyte st of
        (None, st') \<Rightarrow> (None, is_bytes_left st' = 0, st')
      | (Some byte, st') \<Rightarrow>
          if byte AND 0x80 = 0 then (Some (ucast byte), False, st')
          else (case varint32_loop (ucast (byte AND 0x7F)) 7 st' of (r, st'') \<Rightarrow> (r, False, st'')))"

definition pb_decode_varint32 :: "('s istream, u32) prog" where
  "pb_decode_varint32 st = (case pb_decode_varint32_eof st of (r, _, st') \<Rightarrow> (r, st'))"

function varint_loop :: "u64 \<Rightarrow> u8 \<Rightarrow> ('s istream, u64) prog" where
  "varint_loop result bitpos st =
     (if 64 \<le> bitpos then is_error ''varint overflow'' st
      else (case pb_readbyte st of
              (None, st') \<Rightarrow> (None, st')
            | (Some byte, st') \<Rightarrow>
                (let result' = result OR push_bit (unat bitpos) (ucast (byte AND 0x7F));
                     bitpos' = bitpos + 7
                 in if byte AND 0x80 \<noteq> 0 then varint_loop result' bitpos' st' else (Some result', st'))))"
  by pat_completeness auto
termination
  by (relation "measure (\<lambda>(r, b, st). is_bytes_left st)") (auto dest!: pb_readbyte_less [OF sym])

declare varint_loop.simps [simp del]

definition pb_decode_varint :: "('s istream, u64) prog" where
  "pb_decode_varint = varint_loop 0 0"

function pb_skip_varint :: "('s istream, unit) prog" where
  "pb_skip_varint st =
     (case pb_read 1 st of
        (None, st') \<Rightarrow> (None, st')
      | (Some bs, st') \<Rightarrow> if bs ! 0 AND 0x80 \<noteq> 0 then pb_skip_varint st' else (Some (), st'))"
  by pat_completeness auto
termination
  by (relation "measure is_bytes_left") (auto dest!: pb_read_less [OF sym])

declare pb_skip_varint.simps [simp del]

definition pb_skip_string :: "('s istream, unit) prog" where
  "pb_skip_string = obind pb_decode_varint32 (\<lambda>length. pb_read_null (unat length))"

text \<open>The outputs of \<open>pb_decode_tag\<close> are set on failure too: success, wire type, tag and \<open>eof\<close>.\<close>

definition pb_decode_tag :: "'s istream \<Rightarrow> (bool \<times> u32 \<times> u32 \<times> bool) \<times> 's istream" where
  "pb_decode_tag st =
     (case pb_decode_varint32_eof st of
        (None, eof, st') \<Rightarrow> ((False, 0, 0, eof), st')
      | (Some temp, eof, st') \<Rightarrow>
          if temp = 0 then ((False, 0, 0, True), st')
          else ((True, temp AND 7, drop_bit 3 temp, eof), st'))"

definition pb_skip_field :: "u32 \<Rightarrow> ('s istream, unit) prog" where
  "pb_skip_field wire_type =
     (if wire_type = PB_WT_VARINT then pb_skip_varint
      else if wire_type = PB_WT_64BIT then pb_read_null 8
      else if wire_type = PB_WT_STRING then pb_skip_string
      else if wire_type = PB_WT_32BIT then pb_read_null 4
      else is_error ''invalid wire_type'')"

fun raw_varint :: "nat \<Rightarrow> ('s istream, u8 list) prog" where
  "raw_varint 0 st = (None, st)"
| "raw_varint (Suc left) st =
     (case pb_read 1 st of
        (None, st') \<Rightarrow> (None, st')
      | (Some bs, st') \<Rightarrow>
          if bs ! 0 AND 0x80 \<noteq> 0
          then (case raw_varint left st' of
                  (None, st'') \<Rightarrow> (None, st'')
                | (Some rest, st'') \<Rightarrow> (Some (bs ! 0 # rest), st''))
          else (Some [bs ! 0], st'))"

definition read_raw_value :: "u32 \<Rightarrow> nat \<Rightarrow> ('s istream, u8 list) prog" where
  "read_raw_value wire_type max_size =
     (if wire_type = PB_WT_VARINT then raw_varint max_size
      else if wire_type = PB_WT_64BIT then pb_read 8
      else if wire_type = PB_WT_32BIT then pb_read 4
      else is_error ''invalid wire_type'')"

subsection \<open>Substreams\<close>

definition pb_make_string_substream :: "('s istream, 's istream) prog" where
  "pb_make_string_substream =
     obind pb_decode_varint32 (\<lambda>sz st.
       if is_bytes_left st < unat sz then is_error ''parent stream too short'' st
       else (Some (st\<lparr>is_bytes_left := unat sz\<rparr>), st\<lparr>is_bytes_left := is_bytes_left st - unat sz\<rparr>))"

definition pb_close_string_substream :: "'s istream \<Rightarrow> ('s istream, unit) prog" where
  "pb_close_string_substream substream st =
     (case (if is_bytes_left substream \<noteq> 0 then pb_read_null (is_bytes_left substream) substream
            else (Some (), substream)) of
        (None, _) \<Rightarrow> (None, st)
      | (Some _, substream') \<Rightarrow>
          (Some (), st\<lparr>is_state := is_state substream', is_errmsg := is_errmsg substream'\<rparr>))"

subsection \<open>Decoding scalars\<close>

definition pb_decode_svarint :: "('s istream, u64) prog" where
  "pb_decode_svarint =
     obind pb_decode_varint (\<lambda>value.
       oret (if value AND 1 \<noteq> 0 then NOT (drop_bit 1 value) else drop_bit 1 value))"

definition pb_decode_bool :: "('s istream, bool) prog" where
  "pb_decode_bool = obind pb_decode_varint32 (\<lambda>value. oret (value \<noteq> 0))"

definition pb_decode_fixed32 :: "('s istream, u32) prog" where
  "pb_decode_fixed32 =
     obind (pb_read 4) (\<lambda>bytes.
       oret (push_bit 0 (ucast (bytes ! 0)) OR push_bit 8 (ucast (bytes ! 1)) OR
             push_bit 16 (ucast (bytes ! 2)) OR push_bit 24 (ucast (bytes ! 3))))"

definition pb_decode_fixed64 :: "('s istream, u64) prog" where
  "pb_decode_fixed64 =
     obind (pb_read 8) (\<lambda>bytes.
       oret (push_bit 0 (ucast (bytes ! 0)) OR push_bit 8 (ucast (bytes ! 1)) OR
             push_bit 16 (ucast (bytes ! 2)) OR push_bit 24 (ucast (bytes ! 3)) OR
             push_bit 32 (ucast (bytes ! 4)) OR push_bit 40 (ucast (bytes ! 5)) OR
             push_bit 48 (ucast (bytes ! 6)) OR push_bit 56 (ucast (bytes ! 7))))"

end
