(* ===== verification/Varint.thy ===== *)
theory Varint
  imports Codec
begin

text \<open>
  The number formats that nanopb and LevelDB share: varints, a sequence of bytes with the top bit set,
  closed by one without, whose value is the number with the low seven bits as its digits to the base
  128, the least significant first; and numbers of four and eight bytes, the least significant first.
\<close>

subsection \<open>Varints\<close>

definition is_varint :: "u8 list \<Rightarrow> bool" where
  "is_varint bs \<longleftrightarrow> bs \<noteq> [] \<and> list_all (\<lambda>b. 128 \<le> unat b) (butlast bs) \<and> unat (last bs) < 128"

fun group_val :: "u8 list \<Rightarrow> nat" where
  "group_val [] = 0"
| "group_val (b # bs) = unat b mod 128 + 128 * group_val bs"

fun varint_enc :: "nat \<Rightarrow> u8 list" where
  "varint_enc v = (if v < 128 then [word_of_nat v] else word_of_nat (v mod 128 + 128) # varint_enc (v div 128))"

declare varint_enc.simps [simp del]

lemma is_varint_simps [simp]:
  "\<not> is_varint []"
  "is_varint [b] \<longleftrightarrow> unat b < 128"
  "is_varint (b # c # bs) \<longleftrightarrow> 128 \<le> unat b \<and> is_varint (c # bs)"
  by (simp_all add: is_varint_def)

lemma is_varint_Cons: "is_varint (b # bs) \<longleftrightarrow> (if bs = [] then unat b < 128 else 128 \<le> unat b \<and> is_varint bs)"
  by (cases bs) simp_all

lemma unat_word_of_nat_8: "n < 256 \<Longrightarrow> unat (word_of_nat n :: u8) = n"
  by (simp add: unat_word_of_nat)

lemma varint_enc_is_varint: "is_varint (varint_enc v) \<and> varint_enc v \<noteq> [] \<and> group_val (varint_enc v) = v"
proof (induction v rule: varint_enc.induct)
  case (1 v)
  show ?case
  proof (cases "v < 128")
    case True
    then show ?thesis by (simp add: varint_enc.simps [of v] unat_word_of_nat_8)
  next
    case False
    have "unat (word_of_nat (v mod 128 + 128) :: u8) = v mod 128 + 128" by (rule unat_word_of_nat_8) simp
    with False "1.IH" [OF False] show ?thesis
      by (simp add: varint_enc.simps [of v] is_varint_Cons)
  qed
qed

lemma length_varint_enc: "v < 128 ^ Suc k \<Longrightarrow> length (varint_enc v) \<le> Suc k"
proof (induction k arbitrary: v)
  case 0
  then show ?case by (simp add: varint_enc.simps [of v])
next
  case (Suc k)
  then have "v div 128 < 128 ^ Suc k" by (simp add: less_mult_imp_div_less mult.commute)
  with Suc.IH show ?case by (simp add: varint_enc.simps [of v])
qed

text \<open>A varint is determined by its value up to zero groups at the end; the encoder has none.\<close>

lemma is_varint_prefix:
  "is_varint bs \<Longrightarrow> is_varint cs \<Longrightarrow> bs @ xs = cs @ ys \<Longrightarrow> bs = cs \<and> xs = ys"
proof (induction bs arbitrary: cs)
  case (Cons b bs)
  then obtain c cs' where cs: "cs = c # cs'" by (cases cs) auto
  with Cons.prems Cons.IH [of cs'] show ?case
    by (cases "bs = []"; cases "cs' = []") (auto simp: is_varint_Cons)
qed simp

lemma and_7f: "unat (b AND 0x7F :: 'a::len word) = unat b mod 128" if "7 \<le> LENGTH('a)"
proof -
  have "(0x7F :: 'a word) = Bit_Operations.mask 7"
    using that by (simp add: mask_eq_exp_minus_1)
  then have "unat (b AND 0x7F) = unat (b AND Bit_Operations.mask 7)" by simp
  also have "\<dots> = unat b mod 2 ^ 7" by (rule unat_and_mask)
  finally show ?thesis by simp
qed

lemma len8: "7 \<le> LENGTH(8)"
  by simp

lemma varint_group: "ucast (v AND 0x7F OR 0x80 :: u64) = (word_of_nat (unat v mod 128 + 128) :: u8)"
proof -
  have "(v AND 0x7F OR 0x80) = word_of_nat (unat v mod 128 + 128)"
  proof -
    have "push_bit 7 (1 :: u64) = 0x80" by (simp add: push_bit_eq_mult)
    moreover have "unat (push_bit 7 (1 :: u64) OR (v AND 0x7F)) = unat (1 :: u64) * 2 ^ 7 + unat (v AND 0x7F)"
      by (rule unat_or_push_bit) (simp_all add: and_7f)
    ultimately have "unat (v AND 0x7F OR 0x80) = unat v mod 128 + 128"
      by (simp add: and_7f or.commute)
    then show ?thesis by (metis word_of_nat_unat)
  qed
  then show ?thesis by (simp only:) (rule ucast_word_of_nat, simp)
qed

subsection \<open>Groups\<close>

text \<open>Joining a group to the groups below it.\<close>

lemma or_shift:
  assumes "a < 2 ^ j"
  shows "(word_of_nat a :: 'a::len word) OR push_bit j (word_of_nat x) = word_of_nat (a + x * 2 ^ j)"
proof -
  have "\<not> bit a n" if "j \<le> n" for n
    using assms that by (metis bit_take_bit_iff not_less take_bit_nat_eq_self)
  then have "a OR push_bit j x = a + push_bit j x"
    by (intro disjunctive_add [symmetric]) (auto simp: bit_push_bit_iff not_le)
  then have "(word_of_nat (a + x * 2 ^ j) :: 'a word) = word_of_nat (a OR push_bit j x)"
    by (simp add: push_bit_nat_def)
  then show ?thesis by (simp only: of_nat_or_eq push_bit_of_nat)
qed

lemma group_word: "ucast (b AND 0x7F :: u8) = (word_of_nat (unat b mod 128) :: 'a::len word)"
  by (metis and_7f len8 unsigned_of_nat word_of_nat_unat of_nat_unat)

lemma top_bit: "b AND 0x80 = 0 \<longleftrightarrow> unat (b :: u8) < 128"
proof -
  have "push_bit 7 (1 :: u8) = 0x80" by (simp add: push_bit_eq_mult)
  then have "b AND 0x80 = 0 \<longleftrightarrow> \<not> bit b 7"
    by (metis and_exp_eq_0_iff_not_bit push_bit_eq_mult mult_1)
  also have "bit b 7 \<longleftrightarrow> bit (unat b) 7" by (simp add: bit_unsigned_iff)
  also have "\<not> bit (unat b) 7 \<longleftrightarrow> even (unat b div 128)" by (simp add: bit_iff_odd)
  also have "\<dots> \<longleftrightarrow> unat b < 128"
  proof -
    have "unat b div 128 < 2" using unat_less_256 [of b] by simp
    then have "even (unat b div 128) \<longleftrightarrow> unat b div 128 = 0" by (cases "unat b div 128") auto
    then show ?thesis by auto
  qed
  finally show ?thesis .
qed

lemma varint_split:
  obtains cs rest where "bs = cs @ rest" "is_varint cs"
  | "\<forall>b\<in>set bs. 128 \<le> unat b"
proof (induction bs arbitrary: thesis)
  case (Cons b bs)
  show ?case
  proof (cases "unat b < 128")
    case True
    then show ?thesis using Cons.prems(1) [of "[b]" bs] by simp
  next
    case False
    show ?thesis
    proof (rule Cons.IH)
      fix cs rest
      assume "bs = cs @ rest" "is_varint cs"
      moreover from this have "is_varint (b # cs)" using False by (cases cs) (simp_all add: is_varint_Cons)
      ultimately show ?thesis using Cons.prems(1) [of "b # cs" rest] by simp
    next
      assume "\<forall>b\<in>set bs. 128 \<le> unat b"
      then show ?thesis using False Cons.prems(2) by simp
    qed
  qed
qed simp

lemma is_varint_high: "is_varint bs \<Longrightarrow> n < length bs \<Longrightarrow> b \<in> set (take n bs) \<Longrightarrow> 128 \<le> unat b"
proof (induction bs arbitrary: n)
  case (Cons a bs)
  show ?case
  proof (cases n)
    case (Suc m)
    then show ?thesis using Cons.prems Cons.IH [of m] by (auto simp: is_varint_Cons split: if_splits)
  qed (use Cons.prems in simp)
qed simp

lemma is_varint_not_high: "is_varint bs \<Longrightarrow> \<exists>b\<in>set bs. unat b < 128"
  by (induction bs) (auto simp: is_varint_Cons split: if_splits)

lemma group_bound: "a < 2 ^ (7 * k) \<Longrightarrow> a + unat (b :: u8) mod 128 * 2 ^ (7 * k) < 2 ^ (7 * Suc k)"
proof -
  assume a: "a < 2 ^ (7 * k)"
  have "unat b mod 128 * 2 ^ (7 * k) \<le> 127 * 2 ^ (7 * k)" by (intro mult_right_mono) simp_all
  with a have "a + unat b mod 128 * 2 ^ (7 * k) < 128 * 2 ^ (7 * k)" by linarith
  also have "\<dots> = 2 ^ (7 * Suc k)" by (simp add: power_add)
  finally show ?thesis .
qed

lemma group_val_step:
  "a + unat b mod 128 * 2 ^ (7 * k) + group_val bs * 2 ^ (7 * Suc k) = a + group_val (b # bs) * 2 ^ (7 * k)"
  by (simp add: power_add algebra_simps)

lemma low_byte: "b AND 0x80 = 0 \<Longrightarrow> (ucast (b AND 0x7F) :: 'a::len word) = ucast (b :: u8)"
proof -
  assume "b AND 0x80 = 0"
  then have "unat b mod 128 = unat b" by (simp add: top_bit)
  then have "b AND 0x7F = b" by (metis and_7f len8 word_unat_eq_iff)
  then show ?thesis by simp
qed

lemma varint_enc_split:
  "0 < v div 128 ^ k \<Longrightarrow> \<exists>ys. varint_enc v = ys @ varint_enc (v div 128 ^ k) \<and> length ys = k \<and>
    (\<forall>y\<in>set ys. 128 \<le> unat y) \<and> group_val ys = v mod 128 ^ k"
proof (induction k arbitrary: v)
  case (Suc k)
  have "0 < v div 128 div 128 ^ k" using Suc.prems by (simp add: div_mult2_eq)
  from Suc.IH [OF this] obtain ys where ys: "varint_enc (v div 128) = ys @ varint_enc (v div 128 div 128 ^ k)"
    "length ys = k" "\<forall>y\<in>set ys. 128 \<le> unat y" "group_val ys = v div 128 mod 128 ^ k" by blast
  let ?b = "word_of_nat (v mod 128 + 128) :: u8"
  have b: "unat ?b = v mod 128 + 128" by (rule unat_word_of_nat_8) simp
  have "0 < v div 128" using Suc.prems by (simp add: div_mult2_eq) (metis div_0 not_gr_zero)
  then have "\<not> v < 128" by simp
  then have e: "varint_enc v = (?b # ys) @ varint_enc (v div 128 ^ Suc k)"
    using ys(1) by (simp add: varint_enc.simps [of v] div_mult2_eq)
  show ?case
    by (rule exI [of _ "?b # ys"]) (use e ys b in \<open>simp add: mod_mult2_eq\<close>)
qed simp

subsection \<open>Numbers of fixed size\<close>

definition fixed32_enc :: "u32 \<Rightarrow> u8 list" where
  "fixed32_enc v = map (\<lambda>i. ucast (drop_bit (8 * i) v)) [0..<4]"

definition fixed64_enc :: "u64 \<Rightarrow> u8 list" where
  "fixed64_enc v = map (\<lambda>i. ucast (drop_bit (8 * i) v)) [0..<8]"

lemma length_fixed_enc [simp]: "length (fixed32_enc v) = 4" "length (fixed64_enc w) = 8"
  by (simp_all add: fixed32_enc_def fixed64_enc_def)

lemma byte_at:
  "bit (push_bit k (ucast (ucast (drop_bit k v) :: u8)) :: 'a::len word) n \<longleftrightarrow> k \<le> n \<and> n < k + 8 \<and> bit (v :: 'a word) n"
  using bit_imp_le_length [of v n] by (auto simp: bit_simps)

lemma bytes_join_32:
  "push_bit 0 (ucast (fixed32_enc v ! 0)) OR push_bit 8 (ucast (fixed32_enc v ! 1)) OR
   push_bit 16 (ucast (fixed32_enc v ! 2)) OR push_bit 24 (ucast (fixed32_enc v ! 3)) = (v :: u32)"
proof (rule bit_word_eqI)
  fix n
  assume "n < LENGTH(32)"
  then have "n < 32" by simp
  have e: "fixed32_enc v ! i = ucast (drop_bit (8 * i) v)" if "i < 4" for i
    using that by (simp add: fixed32_enc_def)
  show "bit (push_bit 0 (ucast (fixed32_enc v ! 0)) OR push_bit 8 (ucast (fixed32_enc v ! 1)) OR
      push_bit 16 (ucast (fixed32_enc v ! 2)) OR push_bit 24 (ucast (fixed32_enc v ! 3)) :: u32) n = bit v n"
    using \<open>n < 32\<close> by (simp only: e bit_or_iff byte_at rel_simps mult_zero_right mult_1_right arith_simps) (cases "bit v n"; auto)
qed

lemma bytes_join_64:
  "push_bit 0 (ucast (fixed64_enc v ! 0)) OR push_bit 8 (ucast (fixed64_enc v ! 1)) OR
   push_bit 16 (ucast (fixed64_enc v ! 2)) OR push_bit 24 (ucast (fixed64_enc v ! 3)) OR
   push_bit 32 (ucast (fixed64_enc v ! 4)) OR push_bit 40 (ucast (fixed64_enc v ! 5)) OR
   push_bit 48 (ucast (fixed64_enc v ! 6)) OR push_bit 56 (ucast (fixed64_enc v ! 7)) = (v :: u64)"
proof (rule bit_word_eqI)
  fix n
  assume "n < LENGTH(64)"
  then have "n < 64" by simp
  have e: "fixed64_enc v ! i = ucast (drop_bit (8 * i) v)" if "i < 8" for i
    using that by (simp add: fixed64_enc_def)
  show "bit (push_bit 0 (ucast (fixed64_enc v ! 0)) OR push_bit 8 (ucast (fixed64_enc v ! 1)) OR
      push_bit 16 (ucast (fixed64_enc v ! 2)) OR push_bit 24 (ucast (fixed64_enc v ! 3)) OR
      push_bit 32 (ucast (fixed64_enc v ! 4)) OR push_bit 40 (ucast (fixed64_enc v ! 5)) OR
      push_bit 48 (ucast (fixed64_enc v ! 6)) OR push_bit 56 (ucast (fixed64_enc v ! 7)) :: u64) n = bit v n"
    using \<open>n < 64\<close> by (simp only: e bit_or_iff byte_at rel_simps mult_zero_right mult_1_right arith_simps) (cases "bit v n"; auto)
qed

lemma and_FF: "(ucast (v AND 0xFF :: u32) :: u8) = ucast v" "(ucast (w AND 0xFF :: u64) :: u8) = ucast w"
proof -
  have m: "(0xFF :: u32) = Bit_Operations.mask 8" "(0xFF :: u64) = Bit_Operations.mask 8"
    by (simp_all add: mask_eq_exp_minus_1)
  show "(ucast (v AND 0xFF :: u32) :: u8) = ucast v" "(ucast (w AND 0xFF :: u64) :: u8) = ucast w"
    unfolding m by (rule bit_word_eqI; auto simp: bit_simps)+
qed

end
