(* ===== verification/PB_Wire.thy ===== *)
theory PB_Wire
  imports PB_Stream Varint
begin

text \<open>
  The wire format of protocol buffers and the nanopb routines on it. A source is a callback that
  delivers the bytes of its state in order (\<open>byte_source\<close>); the lemmas on the input streams hold for
  every such callback and are instantiated on \<open>buf_read\<close>.
\<close>

subsection \<open>The encoder\<close>

lemma varint_bytes_groups:
  assumes "v \<noteq> 0"
  shows "varint_bytes v \<noteq> [] \<and>
    (varint_bytes v)[length (varint_bytes v) - 1 := varint_bytes v ! (length (varint_bytes v) - 1) AND 0x7F]
      = varint_enc (unat v)"
  using assms
proof (induction v rule: varint_bytes.induct)
  case (1 v)
  have step: "varint_bytes v = word_of_nat (unat v mod 128 + 128) # varint_bytes (drop_bit 7 v)"
    using "1.prems" by (simp add: varint_bytes.simps [of v] varint_group)
  have d: "unat (drop_bit 7 v) = unat v div 128" by (simp add: unat_drop_bit)
  show ?case
  proof (cases "drop_bit 7 v = 0")
    case True
    then have "unat v div 128 = 0" using d by simp
    then have lt: "unat v < 128" by simp
    have w: "unat (word_of_nat (unat v mod 128 + 128) :: u8) = unat v mod 128 + 128"
      by (rule unat_word_of_nat_8) simp
    have "unat (word_of_nat (unat v mod 128 + 128) AND 0x7F :: u8) = unat v mod 128"
      by (simp only: and_7f len8 w) simp
    also have "\<dots> = unat (word_of_nat (unat v) :: u8)" by (subst unat_word_of_nat_8) (use lt in simp_all)
    finally have "word_of_nat (unat v mod 128 + 128) AND 0x7F = (word_of_nat (unat v) :: u8)"
      by (rule word_unat_eq_iff [THEN iffD2])
    with step True lt show ?thesis
      by (simp add: varint_bytes.simps [of "0 :: u64"] varint_enc.simps [of "unat v"])
  next
    case False
    then have "\<not> unat v < 128" using d by (metis div_less unat_0 word_unat_eq_iff)
    with "1.IH" [OF "1.prems" False] step d show ?thesis
      by (cases "varint_bytes (drop_bit 7 v)") (auto simp: varint_enc.simps [of "unat v"])
  qed
qed

lemma pb_encode_varint_eq:
  "pb_encode_varint v = pb_write (varint_enc (unat v)) (length (varint_enc (unat v)))"
proof (cases "v \<le> 0x7F")
  case True
  then have "unat v < 128" by (simp add: word_le_nat_alt)
  moreover have "ucast v = (word_of_nat (unat v) :: u8)" 
    using ucast_word_of_nat [where 'a = 64 and 'b = 8, of "unat v"] by simp
  ultimately show ?thesis using True by (simp add: pb_encode_varint_def varint_enc.simps [of "unat v"])
next
  case False
  then have "v \<noteq> 0" by auto
  from varint_bytes_groups [OF this] have e:
    "(varint_bytes v)[length (varint_bytes v) - 1 := varint_bytes v ! (length (varint_bytes v) - 1) AND 0x7F]
      = varint_enc (unat v)" by simp
  then have "length (varint_bytes v) = length (varint_enc (unat v))" by (metis length_list_update)
  with False e show ?thesis by (simp add: pb_encode_varint_def Let_def)
qed

subsection \<open>Sources\<close>

text \<open>
  A stream over a source, of which \<open>src\<close> gives the bytes that are left, and that does not announce more
  bytes than the source has; the bytes it will deliver.
\<close>

definition stream_ok :: "('s \<Rightarrow> nat \<Rightarrow> u8 list option \<times> 's) \<Rightarrow> ('s \<Rightarrow> u8 list) \<Rightarrow> 's istream \<Rightarrow> bool" where
  "stream_ok cb src st \<longleftrightarrow> is_callback st = cb \<and> is_bytes_left st \<le> length (src (is_state st))"

definition stream_view :: "('s \<Rightarrow> u8 list) \<Rightarrow> 's istream \<Rightarrow> u8 list" where
  "stream_view src st = take (is_bytes_left st) (src (is_state st))"

locale byte_source =
  fixes cb :: "'s \<Rightarrow> nat \<Rightarrow> u8 list option \<times> 's" and src :: "'s \<Rightarrow> u8 list"
  assumes deliver: "n \<le> length (src s) \<Longrightarrow> \<exists>s'. cb s n = (Some (take n (src s)), s') \<and> src s' = drop n (src s)"
begin

abbreviation ok :: "'s istream \<Rightarrow> bool" where
  "ok \<equiv> stream_ok cb src"

abbreviation view :: "'s istream \<Rightarrow> u8 list" where
  "view \<equiv> stream_view src"

lemma length_stream: "ok st \<Longrightarrow> length (view st) = is_bytes_left st"
  by (simp add: stream_ok_def stream_view_def)

lemma pb_read_ok:
  assumes "ok st" "n \<le> is_bytes_left st"
  shows "\<exists>st'. pb_read n st = (Some (take n (view st)), st') \<and> ok st' \<and>
    view st' = drop n (view st) \<and> is_buf st' = is_buf st \<and> is_bytes_left st' = is_bytes_left st - n \<and>
    src (is_state st') = drop n (src (is_state st))"
proof (cases "n = 0")
  case True
  with assms show ?thesis by (simp add: pb_read_def)
next
  case False
  have "n \<le> length (src (is_state st))" using assms by (simp add: stream_ok_def)
  from deliver [OF this] obtain s' where s': "cb (is_state st) n = (Some (take n (src (is_state st))), s')"
      "src s' = drop n (src (is_state st))" by blast
  with False assms show ?thesis
    by (auto simp: pb_read_def stream_ok_def stream_view_def drop_take min_def)
qed

lemma pb_read_short: "is_bytes_left st < n \<Longrightarrow> fst (pb_read n st) = None"
  by (simp add: pb_read_def is_error_def)

lemma pb_readbyte_ok:
  assumes "ok st" "view st = b # bs"
  shows "\<exists>st'. pb_readbyte st = (Some b, st') \<and> ok st' \<and> view st' = bs \<and> is_buf st' = is_buf st \<and>
    src (is_state st') = drop 1 (src (is_state st))"
proof -
  have len: "is_bytes_left st = Suc (length bs)" using length_stream [OF assms(1)] assms(2) by simp
  from pb_read_ok [OF assms(1), of 1] len obtain st' where st':
    "pb_read 1 st = (Some [b], st')" "ok st'" "view st' = bs" "is_buf st' = is_buf st"
    "src (is_state st') = drop 1 (src (is_state st))"
    by (auto simp: assms(2))
  then have "pb_readbyte st = (Some b, st')"
    using len by (auto simp: pb_read_def pb_readbyte_def is_error_def split: option.splits prod.splits)
  with st' show ?thesis by blast
qed

lemma pb_readbyte_empty: "ok st \<Longrightarrow> view st = [] \<Longrightarrow> fst (pb_readbyte st) = None"
  using length_stream [of st] by (simp add: pb_readbyte_def is_error_def)

lemma skip_pieces_ok:
  "ok st \<Longrightarrow> n \<le> is_bytes_left st \<Longrightarrow>
    \<exists>st'. skip_pieces n st = (Some (), st') \<and> ok st' \<and> view st' = drop n (view st) \<and>
      is_bytes_left st' = is_bytes_left st - n \<and> src (is_state st') = drop n (src (is_state st))"
proof (induction n st rule: skip_pieces.induct)
  case (1 n st)
  show ?case
  proof (cases "16 < n")
    case True
    with pb_read_ok [OF "1.prems"(1), of 16] "1.prems"(2) obtain st' where st':
      "pb_read 16 st = (Some (take 16 (view st)), st')" "ok st'"
      "view st' = drop 16 (view st)" "is_bytes_left st' = is_bytes_left st - 16"
      "src (is_state st') = drop 16 (src (is_state st))" by auto
    have "n - 16 \<le> is_bytes_left st'" using st'(4) "1.prems"(2) by simp
    from "1.IH" [OF True st'(1) [symmetric] refl st'(2) this] st' True "1.prems"(2)
    show ?thesis by (auto simp: skip_pieces.simps [of n st])
  next
    case False
    with pb_read_ok [OF "1.prems"] show ?thesis by (auto simp: skip_pieces.simps [of n st])
  qed
qed

lemma pb_read_null_ok:
  assumes "ok st" "n \<le> is_bytes_left st"
  shows "\<exists>st'. pb_read_null n st = (Some (), st') \<and> ok st' \<and> view st' = drop n (view st) \<and>
    is_bytes_left st' = is_bytes_left st - n \<and> src (is_state st') = drop n (src (is_state st))"
proof (cases "n = 0 \<or> is_buf st")
  case True
  with assms pb_read_ok [OF assms] show ?thesis
    by (auto simp: pb_read_null_def oret_def)
next
  case False
  with skip_pieces_ok [OF assms] show ?thesis by (simp add: pb_read_null_def)
qed

end

text \<open>The library's own callback on a memory buffer.\<close>

interpretation buffer: byte_source buf_read "\<lambda>s. s"
  by unfold_locales (simp add: buf_read_def)

subsection \<open>Decoding varints\<close>

lemma bitpos_8: "k \<le> 9 \<Longrightarrow> unat (word_of_nat (7 * k) :: u8) = 7 * k"
  by (rule unat_word_of_nat_8) simp

lemma bitpos_Suc: "(word_of_nat (7 * k) :: u8) + 7 = word_of_nat (7 * Suc k)"
  by (simp add: algebra_simps)

context byte_source
begin

lemma varint_loop_ok:
  "is_varint bs \<Longrightarrow> ok st \<Longrightarrow> view st = bs @ rest \<Longrightarrow> k + length bs \<le> 10 \<Longrightarrow> a < 2 ^ (7 * k) \<Longrightarrow>
    \<exists>st'. varint_loop (word_of_nat a) (word_of_nat (7 * k)) st =
        (Some (word_of_nat (a + group_val bs * 2 ^ (7 * k))), st') \<and> ok st' \<and> view st' = rest"
proof (induction bs arbitrary: st k a)
  case (Cons b bs)
  from Cons.prems(2,3) obtain st1 where st1: "pb_readbyte st = (Some b, st1)" "ok st1" "view st1 = bs @ rest"
    using pb_readbyte_ok [of st b "bs @ rest"] by auto
  have k: "k \<le> 9" using Cons.prems(4) by simp
  then have pos: "unat (word_of_nat (7 * k) :: u8) = 7 * k" by (rule bitpos_8)
  then have lt: "\<not> 64 \<le> (word_of_nat (7 * k) :: u8)" using k by (simp add: word_le_nat_alt)
  let ?a = "a + unat b mod 128 * 2 ^ (7 * k)"
  have acc: "(word_of_nat a :: u64) OR push_bit (7 * k) (ucast (b AND 0x7F)) = word_of_nat ?a"
    unfolding group_word by (rule or_shift [OF Cons.prems(5)])
  have step: "varint_loop (word_of_nat a) (word_of_nat (7 * k)) st =
      (if unat b < 128 then (Some (word_of_nat ?a), st1) else varint_loop (word_of_nat ?a) (word_of_nat (7 * Suc k)) st1)"
    by (subst varint_loop.simps, simp only: lt if_False st1(1) prod.case option.case Let_def pos acc bitpos_Suc top_bit if_not_P not_not)
      (cases "unat b < 128", simp_all only: if_P if_not_P simp_thms)
  show ?case
  proof (cases "bs = []")
    case True
    then show ?thesis using step st1 Cons.prems(1) by (simp add: is_varint_Cons)
  next
    case False
    then have b: "\<not> unat b < 128" "is_varint bs" using Cons.prems(1) by (simp_all add: is_varint_Cons)
    have "\<exists>st'. varint_loop (word_of_nat ?a) (word_of_nat (7 * Suc k)) st1 =
        (Some (word_of_nat (?a + group_val bs * 2 ^ (7 * Suc k))), st') \<and> ok st' \<and> view st' = rest"
      by (rule Cons.IH [OF b(2) st1(2,3) _ group_bound [OF Cons.prems(5)]]) (use Cons.prems(4) in simp)
    then show ?thesis unfolding group_val_step step using b(1) by (simp only: if_False)
  qed
qed simp

lemma varint_loop_fails:
  "ok st \<Longrightarrow> n \<le> 10 \<Longrightarrow> \<forall>b\<in>set (take n (view st)). 128 \<le> unat b \<Longrightarrow>
    fst (varint_loop r (word_of_nat (7 * (10 - n))) st) = None"
proof (induction n arbitrary: st r)
  case 0
  then show ?case by (subst varint_loop.simps) (simp add: is_error_def)
next
  case (Suc n)
  have pos: "\<not> 64 \<le> (word_of_nat (7 * (10 - Suc n)) :: u8)"
    by (simp only: word_le_nat_alt bitpos_8) simp
  have nxt: "Suc (10 - Suc n) = 10 - n" using Suc.prems(2) by simp
  show ?case
  proof (cases "view st")
    case Nil
    obtain st1 where "pb_readbyte st = (None, st1)"
      using pb_readbyte_empty [OF Suc.prems(1) Nil] by (metis prod.collapse)
    with pos show ?thesis by (subst varint_loop.simps) simp
  next
    case (Cons b bs)
    obtain st1 where st1: "pb_readbyte st = (Some b, st1)" "ok st1" "view st1 = bs"
      using pb_readbyte_ok [OF Suc.prems(1) Cons] by blast
    have b: "b AND 0x80 \<noteq> 0" using Suc.prems(3) Cons by (simp add: top_bit)
    have "fst (varint_loop r' (word_of_nat (7 * (10 - n))) st1) = None" for r'
      by (rule Suc.IH [OF st1(2)]) (use Suc.prems Cons st1(3) in auto)
    then show ?thesis using b
      by (subst varint_loop.simps) (simp only: pos if_False st1(1) prod.case option.case Let_def bitpos_Suc nxt if_True simp_thms)
  qed
qed

lemma pb_decode_varint_ok:
  assumes "is_varint bs" "length bs \<le> 10" "ok st" "view st = bs @ rest"
  shows "\<exists>st'. pb_decode_varint st = (Some (word_of_nat (group_val bs)), st') \<and> ok st' \<and> view st' = rest"
  using varint_loop_ok [OF assms(1,3,4), of 0 0] assms(2) by (simp add: pb_decode_varint_def)

lemma pb_decode_varint_iff_view:
  assumes "ok st"
  shows "(\<exists>st'. pb_decode_varint st = (Some v, st') \<and> view st' = rest) \<longleftrightarrow>
    (\<exists>bs. view st = bs @ rest \<and> is_varint bs \<and> length bs \<le> 10 \<and> v = word_of_nat (group_val bs))"
    (is "?L \<longleftrightarrow> ?R")
proof
  assume ?R
  then show ?L using pb_decode_varint_ok [OF _ _ assms] by blast
next
  assume L: ?L
  have no: "\<not> (\<forall>b\<in>set (take 10 (view st)). 128 \<le> unat b)"
  proof
    assume "\<forall>b\<in>set (take 10 (view st)). 128 \<le> unat b"
    then have "fst (varint_loop 0 (word_of_nat (7 * (10 - 10))) st) = None"
      by (intro varint_loop_fails assms) simp_all
    with L show False by (auto simp: pb_decode_varint_def)
  qed
  show ?R
  proof (rule varint_split [of "view st"])
    fix cs r
    assume cs: "view st = cs @ r" "is_varint cs"
    have len: "length cs \<le> 10"
    proof (rule ccontr)
      assume "\<not> length cs \<le> 10"
      then show False using no is_varint_high [OF cs(2), of 10] cs(1) by auto
    qed
    from pb_decode_varint_ok [OF cs(2) len assms cs(1)] L
    show ?R using cs len by auto
  next
    assume "\<forall>b\<in>set (view st). 128 \<le> unat b"
    then show ?R using no by (auto dest: in_set_takeD)
  qed
qed

end


subsection \<open>Decoding 32-bit varints\<close>

text \<open>The code treats the first byte apart, to report the end of the stream; the loop would do the same.\<close>

lemma pb_decode_varint32_loop: "pb_decode_varint32 st = varint32_loop 0 0 st"
proof (cases "pb_readbyte st")
  case (Pair r st')
  show ?thesis
  proof (cases r)
    case None
    with Pair show ?thesis
      by (subst varint32_loop.simps) (simp add: pb_decode_varint32_def pb_decode_varint32_eof_def)
  next
    case (Some b)
    with Pair show ?thesis
      by (subst varint32_loop.simps)
        (auto simp: pb_decode_varint32_def pb_decode_varint32_eof_def Let_def low_byte split: prod.splits)
  qed
qed

lemma high_bits: "unat b < 16 \<Longrightarrow> (b :: u8) AND 0x70 = 0"
proof -
  assume "unat b < 16"
  then have "take_bit 4 b = b" by (simp add: word_unat_eq_iff unsigned_take_bit_eq take_bit_nat_eq_self)
  then have "b AND Bit_Operations.mask 4 = b" by (simp add: take_bit_eq_mask)
  then have "b AND 0x0F = b" by (simp add: mask_eq_exp_minus_1)
  then have "b AND 0x70 = b AND (0x0F AND 0x70)" by (metis and.assoc)
  then show ?thesis by simp
qed

context byte_source
begin

lemma varint32_step:
  assumes "ok st" "view st = b # bs" "k \<le> 4" "a < 2 ^ (7 * k)"
  shows "\<exists>st1. ok st1 \<and> view st1 = bs \<and>
    varint32_loop (word_of_nat a) (word_of_nat (7 * k)) st =
      (if 128 \<le> unat b then
         varint32_loop (word_of_nat (a + unat b mod 128 * 2 ^ (7 * k))) (word_of_nat (7 * Suc k)) st1
       else if k = 4 \<and> b AND 0x70 \<noteq> 0 then is_error ''varint overflow'' st1
       else (Some (word_of_nat (a + unat b mod 128 * 2 ^ (7 * k))), st1))"
proof -
  obtain st1 where st1: "pb_readbyte st = (Some b, st1)" "ok st1" "view st1 = bs"
    using pb_readbyte_ok [OF assms(1,2)] by blast
  have pos: "unat (word_of_nat (7 * k) :: u8) = 7 * k" by (rule bitpos_8) (use assms(3) in simp)
  then have lt: "\<not> 32 \<le> (word_of_nat (7 * k) :: u8)" using assms(3) by (simp add: word_le_nat_alt)
  have acc: "(word_of_nat a :: u32) OR push_bit (7 * k) (ucast (b AND 0x7F)) =
      word_of_nat (a + unat b mod 128 * 2 ^ (7 * k))"
    unfolding group_word by (rule or_shift [OF assms(4)])
  have "unat (word_of_nat (7 * Suc k) :: u8) = 7 * Suc k" by (rule bitpos_8) (use assms(3) in simp)
  then have last: "(word_of_nat (7 * Suc k) :: u8) = 35 \<longleftrightarrow> k = 4" by (auto simp: word_unat_eq_iff)
  show ?thesis
    by (rule exI [of _ st1], subst varint32_loop.simps)
      (simp only: st1 prod.case option.case Let_def lt pos acc bitpos_Suc last top_bit if_not_P not_less
        simp_thms if_False not_le split: if_splits)
qed

lemma varint32_loop_ok:
  "is_varint bs \<Longrightarrow> ok st \<Longrightarrow> view st = bs @ rest \<Longrightarrow> k + length bs \<le> 5 \<Longrightarrow> a < 2 ^ (7 * k) \<Longrightarrow>
    a + group_val bs * 2 ^ (7 * k) < 2 ^ 32 \<Longrightarrow>
    \<exists>st'. varint32_loop (word_of_nat a) (word_of_nat (7 * k)) st =
        (Some (word_of_nat (a + group_val bs * 2 ^ (7 * k))), st') \<and> ok st' \<and> view st' = rest"
proof (induction bs arbitrary: st k a)
  case (Cons b bs)
  let ?a = "a + unat b mod 128 * 2 ^ (7 * k)"
  have k: "k \<le> 4" using Cons.prems(4) by simp
  obtain st1 where st1: "ok st1" "view st1 = bs @ rest"
    and step: "varint32_loop (word_of_nat a) (word_of_nat (7 * k)) st =
      (if 128 \<le> unat b then varint32_loop (word_of_nat ?a) (word_of_nat (7 * Suc k)) st1
       else if k = 4 \<and> b AND 0x70 \<noteq> 0 then is_error ''varint overflow'' st1
       else (Some (word_of_nat ?a), st1))"
    using varint32_step [OF Cons.prems(2) _ k Cons.prems(5), of b "bs @ rest"] Cons.prems(3) by auto
  show ?case
  proof (cases "bs = []")
    case True
    then have b: "unat b < 128" using Cons.prems(1) by simp
    have "b AND 0x70 = 0" if "k = 4"
    proof (rule high_bits)
      have "unat b * 2 ^ 28 < 2 ^ 32" using Cons.prems(6) True b that by simp
      then show "unat b < 16" by simp
    qed
    then show ?thesis using True b step st1 by auto
  next
    case False
    then have b: "128 \<le> unat b" "is_varint bs" using Cons.prems(1) by (simp_all add: is_varint_Cons)
    have "\<exists>st'. varint32_loop (word_of_nat ?a) (word_of_nat (7 * Suc k)) st1 =
        (Some (word_of_nat (?a + group_val bs * 2 ^ (7 * Suc k))), st') \<and> ok st' \<and> view st' = rest"
      by (rule Cons.IH [OF b(2) st1 _ group_bound [OF Cons.prems(5)]])
        (use Cons.prems(4,6) group_val_step [of a b k bs] in simp_all)
    then show ?thesis unfolding group_val_step step using b(1) by (simp only: if_True)
  qed
qed simp

end


text \<open>
  Negative numbers are sent as varints of ten bytes. The groups above bit 32 have to repeat the sign;
  the decoder keeps the result of the five groups below.
\<close>

context byte_source
begin

lemma varint32_prefix:
  "\<forall>y\<in>set ys. 128 \<le> unat y \<Longrightarrow> ok st \<Longrightarrow> view st = ys @ rest \<Longrightarrow> k + length ys \<le> 5 \<Longrightarrow> a < 2 ^ (7 * k) \<Longrightarrow>
    \<exists>st1. ok st1 \<and> view st1 = rest \<and> varint32_loop (word_of_nat a) (word_of_nat (7 * k)) st =
      varint32_loop (word_of_nat (a + group_val ys * 2 ^ (7 * k))) (word_of_nat (7 * (k + length ys))) st1"
proof (induction ys arbitrary: st k a)
  case (Cons b ys)
  have k: "k \<le> 4" using Cons.prems(4) by simp
  let ?a = "a + unat b mod 128 * 2 ^ (7 * k)"
  obtain st1 where st1: "ok st1" "view st1 = ys @ rest"
    and step: "varint32_loop (word_of_nat a) (word_of_nat (7 * k)) st =
      varint32_loop (word_of_nat ?a) (word_of_nat (7 * Suc k)) st1"
    using varint32_step [OF Cons.prems(2) _ k Cons.prems(5), of b "ys @ rest"] Cons.prems(1,3) by auto
  have "\<exists>st2. ok st2 \<and> view st2 = rest \<and> varint32_loop (word_of_nat ?a) (word_of_nat (7 * Suc k)) st1 =
      varint32_loop (word_of_nat (?a + group_val ys * 2 ^ (7 * Suc k))) (word_of_nat (7 * (Suc k + length ys))) st2"
    by (rule Cons.IH [OF _ st1 _ group_bound [OF Cons.prems(5)]]) (use Cons.prems(1,4) in simp_all)
  then show ?case unfolding group_val_step step by simp
qed auto

lemma varint32_sign_step:
  assumes "ok st" "view st = (if p < 63 then 0xFF else 0x01) # bs" "32 \<le> p" "drop_bit 31 r \<noteq> 0"
  shows "\<exists>st1. ok st1 \<and> view st1 = bs \<and>
    varint32_loop r p st = (if p < 63 then varint32_loop r (p + 7) st1 else (Some r, st1))"
proof -
  obtain st1 where st1: "pb_readbyte st = (Some (if p < 63 then 0xFF else 0x01), st1)" "ok st1" "view st1 = bs"
    using pb_readbyte_ok [OF assms(1,2)] by blast
  have "p = 28" if "p + 7 = 35"
  proof -
    have "p = (p + 7) - 7" by simp
    then show ?thesis unfolding that by simp
  qed
  then have "p + 7 \<noteq> 35" if "\<not> p < 63" using that by auto
  with st1 assms(3,4) show ?thesis
    by (intro exI [of _ st1], subst varint32_loop.simps) (simp add: Let_def)
qed

lemma varint32_sign_tail:
  assumes "ok st" "view st = [0xFF, 0xFF, 0xFF, 0xFF, 0x01] @ rest" "drop_bit 31 r \<noteq> 0"
  shows "\<exists>st'. varint32_loop r 35 st = (Some r, st') \<and> ok st' \<and> view st' = rest"
proof -
  obtain st1 where 1: "ok st1" "view st1 = [0xFF, 0xFF, 0xFF, 0x01] @ rest"
      "varint32_loop r 35 st = varint32_loop r 42 st1"
    using varint32_sign_step [OF assms(1) _ _ assms(3), of 35] assms(2) by auto
  obtain st2 where 2: "ok st2" "view st2 = [0xFF, 0xFF, 0x01] @ rest"
      "varint32_loop r 42 st1 = varint32_loop r 49 st2"
    using varint32_sign_step [OF 1(1) _ _ assms(3), of 42] 1(2) by auto
  obtain st3 where 3: "ok st3" "view st3 = [0xFF, 0x01] @ rest"
      "varint32_loop r 49 st2 = varint32_loop r 56 st3"
    using varint32_sign_step [OF 2(1) _ _ assms(3), of 49] 2(2) by auto
  obtain st4 where 4: "ok st4" "view st4 = [0x01] @ rest"
      "varint32_loop r 56 st3 = varint32_loop r 63 st4"
    using varint32_sign_step [OF 3(1) _ _ assms(3), of 56] 3(2) by auto
  show ?thesis
    using varint32_sign_step [OF 4(1) _ _ assms(3), of 63] 4(2) 1(3) 2(3) 3(3) 4(3) by auto
qed

lemma pb_decode_varint32_ok:
  assumes "is_varint bs" "length bs \<le> 5" "group_val bs < 2 ^ 32" "ok st" "view st = bs @ rest"
  shows "\<exists>st'. pb_decode_varint32 st = (Some (word_of_nat (group_val bs)), st') \<and> ok st' \<and> view st' = rest"
  using varint32_loop_ok [OF assms(1,4,5), of 0 0] assms(2,3) by (simp add: pb_decode_varint32_loop)

lemma pb_decode_varint32_enc:
  assumes "v < 2 ^ 32" "ok st" "view st = varint_enc v @ rest"
  shows "\<exists>st'. pb_decode_varint32 st = (Some (word_of_nat v), st') \<and> ok st' \<and> view st' = rest"
proof -
  have "length (varint_enc v) \<le> 5" using length_varint_enc [of v 4] assms(1) by simp
  from pb_decode_varint32_ok [OF _ this _ assms(2,3)] assms(1) varint_enc_is_varint [of v]
  show ?thesis by simp
qed

lemma pb_decode_varint32_negative:
  assumes "2 ^ 64 - 2 ^ 31 \<le> v" "v < 2 ^ 64" "ok st" "view st = varint_enc v @ rest"
  shows "\<exists>st'. pb_decode_varint32 st = (Some (word_of_nat v), st') \<and> ok st' \<and> view st' = rest"
proof -
  have d: "v div 128 ^ 5 = 536870911" using assms(1,2) by simp
  then have "0 < v div 128 ^ 5" by simp
  from varint_enc_split [OF this] d obtain ys where ys: "varint_enc v = ys @ varint_enc 536870911"
    "length ys = 5" "\<forall>y\<in>set ys. 128 \<le> unat y" "group_val ys = v mod 128 ^ 5" by auto
  have t: "varint_enc 536870911 = [0xFF, 0xFF, 0xFF, 0xFF, 0x01]" by code_simp
  have v: "view st = ys @ ([0xFF, 0xFF, 0xFF, 0xFF, 0x01] @ rest)" using assms(4) ys(1) t by simp
  obtain st1 where st1: "ok st1" "view st1 = [0xFF, 0xFF, 0xFF, 0xFF, 0x01] @ rest"
      "varint32_loop 0 0 st = varint32_loop (word_of_nat (v mod 128 ^ 5)) 35 st1"
    using varint32_prefix [OF ys(3) assms(3) v, of 0 0] ys(2,4) by auto
  have w: "(word_of_nat (v mod 128 ^ 5) :: u32) = word_of_nat v"
    by (rule word_unat_eq_iff [THEN iffD2]) (simp add: unat_word_of_nat mod_mod_cancel)
  define d where "d = v - (2 ^ 64 - 2 ^ 31)"
  then have "v = (2147483648 + d) + 4294967295 * 4294967296" "d < 2147483648" using assms(1,2) by simp_all
  then have "v mod 4294967296 = 2147483648 + d" by (simp only: mod_mult_self1) simp
  then have "unat (word_of_nat v :: u32) = 2147483648 + d" by (simp add: unat_word_of_nat)
  then have "unat (drop_bit 31 (word_of_nat v :: u32)) = 1" using \<open>d < 2147483648\<close> by (simp add: unat_drop_bit)
  then have "drop_bit 31 (word_of_nat v :: u32) \<noteq> 0" by (metis unat_0 zero_neq_one)
  from varint32_sign_tail [OF st1(1,2) this] st1(3) w show ?thesis
    by (simp add: pb_decode_varint32_loop)
qed

end


subsection \<open>What the 32-bit decoder accepts\<close>

text \<open>
  The bytes behind the fifth one, from position \<open>k\<close> on: each is padding, or, if the result so far is
  negative as a 32-bit number, the sign.
\<close>

fun sign_groups :: "bool \<Rightarrow> nat \<Rightarrow> u8 list \<Rightarrow> bool" where
  "sign_groups neg k [] \<longleftrightarrow> True"
| "sign_groups neg k (b # bs) \<longleftrightarrow>
     (unat b mod 128 = 0 \<or> neg \<and> unat b = (if k < 9 then 255 else 1)) \<and> sign_groups neg (Suc k) bs"

definition varint32_accepts :: "u8 list \<Rightarrow> bool" where
  "varint32_accepts bs \<longleftrightarrow>
     (if length bs \<le> 5 then group_val bs < 2 ^ 32
      else sign_groups (2 ^ 31 \<le> group_val (take 5 bs) mod 2 ^ 32) 5 (drop 5 bs))"

lemma bits_4_to_6: "unat (b :: u8) < 128 \<Longrightarrow> b AND 0x70 = 0 \<longleftrightarrow> unat b < 16"
proof
  assume b: "unat b < 128" and z: "b AND 0x70 = 0"
  have "(0x70 :: u8) = push_bit 4 (Bit_Operations.mask 3)" by (simp add: push_bit_eq_mult mask_eq_exp_minus_1)
  moreover have "b AND push_bit 4 (Bit_Operations.mask 3) = push_bit 4 (take_bit 3 (drop_bit 4 b))"
    by (rule bit_word_eqI) (auto simp: bit_simps)
  ultimately have "push_bit 4 (take_bit 3 (drop_bit 4 b)) = 0" using z by simp
  then have "unat (push_bit 4 (take_bit 3 (drop_bit 4 b))) = 0" by simp
  moreover have "unat (take_bit 3 (drop_bit 4 b)) = unat b div 16"
    using b by (simp add: unsigned_take_bit_eq unat_drop_bit take_bit_nat_eq_self)
  ultimately have "take_bit 8 (unat b div 16 * 16) = 0" by (simp add: unsigned_push_bit_eq push_bit_nat_def)
  then show "unat b < 16" using b by (simp add: take_bit_nat_eq_self)
qed (rule high_bits)

lemma group_val_less: "group_val bs < 128 ^ length bs"
proof (induction bs)
  case (Cons b bs)
  have "unat b mod 128 < 128" by simp
  with Cons show ?case by simp
qed simp

lemma group_val_append: "group_val (xs @ ys) = group_val xs + 128 ^ length xs * group_val ys"
  by (induction xs) (simp_all add: algebra_simps)

lemma is_varint_drop: "is_varint bs \<Longrightarrow> n < length bs \<Longrightarrow> is_varint (drop n bs)"
proof (induction n arbitrary: bs)
  case (Suc n)
  then show ?case by (cases bs) (auto simp: is_varint_Cons split: if_splits)
qed simp

lemma sign_groups_zero: "group_val bs = 0 \<Longrightarrow> sign_groups neg k bs"
  by (induction bs arbitrary: k) auto

text \<open>Every number below \<open>2 ^ 32\<close> is accepted, with whatever padding.\<close>

lemma varint32_accepts_small:
  assumes "group_val bs < 2 ^ 32"
  shows "varint32_accepts bs \<and> group_val (take 5 bs) = group_val bs"
proof (cases "length bs \<le> 5")
  case False
  have "group_val bs = group_val (take 5 bs) + 128 ^ 5 * group_val (drop 5 bs)"
    using group_val_append [of "take 5 bs" "drop 5 bs"] False by simp
  moreover from this have "group_val (drop 5 bs) = 0" using assms by (cases "group_val (drop 5 bs)") auto
  ultimately show ?thesis using False sign_groups_zero by (simp add: varint32_accepts_def)
qed (use assms in \<open>simp add: varint32_accepts_def\<close>)

context byte_source
begin

lemma varint32_tail:
  "is_varint bs \<Longrightarrow> ok st \<Longrightarrow> view st = bs @ rest \<Longrightarrow> 5 \<le> k \<Longrightarrow> k + length bs \<le> 37 \<Longrightarrow>
    if sign_groups (drop_bit 31 r \<noteq> 0) k bs
    then \<exists>st'. varint32_loop r (word_of_nat (7 * k)) st = (Some r, st') \<and> ok st' \<and> view st' = rest
    else fst (varint32_loop r (word_of_nat (7 * k)) st) = None"
proof (induction bs arbitrary: st k)
  case (Cons b bs)
  define p q where "p = (word_of_nat (7 * k) :: u8)" and "q = (word_of_nat (7 * Suc k) :: u8)"
  obtain st1 where st1: "pb_readbyte st = (Some b, st1)" "ok st1" "view st1 = bs @ rest"
    using pb_readbyte_ok [OF Cons.prems(2), of b "bs @ rest"] Cons.prems(3) by auto
  have pos: "unat p = 7 * k" unfolding p_def by (rule unat_word_of_nat_8) (use Cons.prems(5) in simp)
  have hi: "32 \<le> p" and sgn: "p < 63 \<longleftrightarrow> k < 9"
    unfolding word_le_nat_alt word_less_nat_alt pos using Cons.prems(4) by auto
  have q: "p + 7 = q" unfolding p_def q_def by (rule bitpos_Suc)
  have last: "q \<noteq> 35"
  proof
    assume "q = 35"
    moreover have "p = q - 7" by (simp add: q [symmetric])
    ultimately have "p = 28" by simp
    then show False using pos Cons.prems(4) by simp
  qed
  define E where "E \<longleftrightarrow> unat b = (if k < 9 then 255 else 1)"
  let ?ok = "unat b mod 128 = 0 \<or> drop_bit 31 r \<noteq> 0 \<and> E"
  have pay: "b AND 0x7F = 0 \<longleftrightarrow> unat b mod 128 = 0" using and_7f [OF len8, of b] by (metis unat_0 word_unat_eq_iff)
  have ext: "b = (if p < 63 then 0xFF else 0x01) \<longleftrightarrow> E"
    unfolding sgn E_def by (auto simp: word_unat_eq_iff)
  have step: "varint32_loop r p st =
      (if \<not> ?ok then is_error ''varint overflow'' st1
       else if 128 \<le> unat b then varint32_loop r q st1 else (Some r, st1))"
    by (subst varint32_loop.simps)
      (simp only: st1(1) prod.case option.case Let_def hi pay ext top_bit q last if_True if_False simp_thms not_less de_Morgan_disj de_Morgan_conj)
  note folds = p_def [symmetric] E_def [symmetric]
  show ?case
  proof (cases ?ok)
    case False
    then show ?thesis unfolding folds sign_groups.simps step by (auto simp: is_error_def)
  next
    case True
    show ?thesis
    proof (cases "bs = []")
      case True
      then have "\<not> 128 \<le> unat b" using Cons.prems(1) by simp
      with \<open>?ok\<close> True st1 show ?thesis unfolding folds sign_groups.simps step by auto
    next
      case False
      then have b: "128 \<le> unat b" "is_varint bs" using Cons.prems(1) by (simp_all add: is_varint_Cons)
      have "if sign_groups (drop_bit 31 r \<noteq> 0) (Suc k) bs
          then \<exists>st'. varint32_loop r q st1 = (Some r, st') \<and> ok st' \<and> view st' = rest
          else fst (varint32_loop r q st1) = None"
        unfolding q_def by (rule Cons.IH [OF b(2) st1(2,3)]) (use Cons.prems(4,5) in simp_all)
      with \<open>?ok\<close> b(1) show ?thesis unfolding folds sign_groups.simps step by (simp only: simp_thms if_True if_False)
    qed
  qed
qed simp

lemma varint32_last:
  assumes "is_varint bs" "length bs = 5" "2 ^ 32 \<le> group_val bs" "ok st" "view st = bs @ rest"
  shows "fst (varint32_loop 0 0 st) = None"
proof -
  obtain ys b where bs: "bs = ys @ [b]" using assms(1) by (cases bs rule: rev_cases) auto
  then have ys: "length ys = 4" using assms(2) by simp
  have high: "\<forall>y\<in>set ys. 128 \<le> unat y" and b: "unat b < 128"
    using is_varint_high [OF assms(1), of 4] assms(1,2) bs ys by (auto simp: is_varint_def)
  have view: "view st = ys @ (b # rest)" using assms(5) bs by simp
  obtain st1 where st1: "ok st1" "view st1 = b # rest"
    "varint32_loop 0 0 st = varint32_loop (word_of_nat (group_val ys)) (word_of_nat (7 * 4)) st1"
    using varint32_prefix [OF high assms(4) view, of 0 0] ys by auto
  have lt: "group_val ys < 2 ^ (7 * 4)" using group_val_less [of ys] ys by (simp add: power_mult)
  have "group_val bs = group_val ys + unat b * 2 ^ 28" using b by (simp add: bs group_val_append ys)
  then have "\<not> unat b < 16" using assms(3) lt by simp
  then have "b AND 0x70 \<noteq> 0" using bits_4_to_6 [OF b] by simp
  with varint32_step [OF st1(1,2) _ lt] b st1(3) show ?thesis by (auto simp: is_error_def)
qed

text \<open>A varint of at most 37 bytes; behind those the eight-bit position wraps around.\<close>

lemma pb_decode_varint32_cases:
  assumes bs: "is_varint bs" "length bs \<le> 37" and st: "ok st" "view st = bs @ rest"
  shows "if varint32_accepts bs
    then \<exists>st'. pb_decode_varint32 st = (Some (word_of_nat (group_val (take 5 bs))), st') \<and> ok st' \<and> view st' = rest
    else fst (pb_decode_varint32 st) = None"
proof (cases "length bs \<le> 5")
  case True
  show ?thesis
  proof (cases "group_val bs < 2 ^ 32")
    case less: True
    from pb_decode_varint32_ok [OF bs(1) True less st] show ?thesis using True less by (simp add: varint32_accepts_def)
  next
    case False
    have "length bs = 5"
    proof (rule ccontr)
      assume "length bs \<noteq> 5"
      then have "(128 :: nat) ^ length bs \<le> 128 ^ 4" using True by (intro power_increasing) simp_all
      with group_val_less [of bs] False show False by simp
    qed
    from varint32_last [OF bs(1) this _ st] show ?thesis using False True
      by (simp add: varint32_accepts_def pb_decode_varint32_loop)
  qed
next
  case False
  let ?r = "word_of_nat (group_val (take 5 bs)) :: u32"
  have high: "\<forall>y\<in>set (take 5 bs). 128 \<le> unat y" using is_varint_high [OF bs(1), of 5] False by auto
  have "view st = take 5 bs @ (drop 5 bs @ rest)" using st(2) by simp
  from varint32_prefix [OF high st(1) this, of 0 0] False obtain st1
    where st1: "ok st1" "view st1 = drop 5 bs @ rest" "varint32_loop 0 0 st = varint32_loop ?r (word_of_nat (7 * 5)) st1" by auto
  have tail: "is_varint (drop 5 bs)" using is_varint_drop [OF bs(1)] False by simp
  have neg: "drop_bit 31 ?r \<noteq> 0 \<longleftrightarrow> 2 ^ 31 \<le> group_val (take 5 bs) mod 2 ^ 32"
    by (simp add: word_unat_eq_iff unat_drop_bit unat_word_of_nat div_eq_0_iff not_less)
  have "if sign_groups (drop_bit 31 ?r \<noteq> 0) 5 (drop 5 bs)
      then \<exists>st'. varint32_loop ?r (word_of_nat (7 * 5)) st1 = (Some ?r, st') \<and> ok st' \<and> view st' = rest
      else fst (varint32_loop ?r (word_of_nat (7 * 5)) st1) = None"
    by (rule varint32_tail [OF tail st1(1,2) order_refl]) (use bs(2) in simp)
  then show ?thesis unfolding pb_decode_varint32_loop st1(3) neg using False by (simp only: varint32_accepts_def if_False)
qed

end

end
