(* ===== verification/PB_Fields.thy ===== *)
theory PB_Fields
  imports PB_Wire
begin

text \<open>
  The nanopb routines on whole fields: what every reader leaves of its stream, skipping, substreams,
  and the encoding of tagged fields with their readers as codecs and the output streams as sinks.
\<close>

subsection \<open>Readers only consume\<close>

text \<open>
  The stream after a reader: some bytes have been taken from the source, and the count of the bytes
  that are left has gone down by as many.
\<close>

definition stream_after :: "('s \<Rightarrow> u8 list) \<Rightarrow> 's istream \<Rightarrow> 's istream \<Rightarrow> bool" where
  "stream_after src st st' \<longleftrightarrow> is_callback st' = is_callback st \<and> is_buf st' = is_buf st \<and>
     is_bytes_left st' \<le> is_bytes_left st \<and>
     src (is_state st') = drop (is_bytes_left st - is_bytes_left st') (src (is_state st))"

definition stream_op ::
  "('s \<Rightarrow> nat \<Rightarrow> u8 list option \<times> 's) \<Rightarrow> ('s \<Rightarrow> u8 list) \<Rightarrow> ('s istream, 'a) prog \<Rightarrow> bool" where
  "stream_op cb src f \<longleftrightarrow> (\<forall>st. stream_ok cb src st \<longrightarrow> stream_after src st (snd (f st)))"

lemma stream_after_refl [simp]: "stream_after src st st"
  by (simp add: stream_after_def)

lemma stream_after_trans:
  "stream_after src st st' \<Longrightarrow> stream_after src st' st'' \<Longrightarrow> stream_after src st st''"
  by (auto simp: stream_after_def)

lemma stream_after_ok: "stream_ok cb src st \<Longrightarrow> stream_after src st st' \<Longrightarrow> stream_ok cb src st'"
  by (auto simp: stream_ok_def stream_after_def)

lemma stream_after_view:
  "stream_after src st st' \<Longrightarrow> stream_view src st' = drop (is_bytes_left st - is_bytes_left st') (stream_view src st)"
  by (auto simp: stream_view_def stream_after_def drop_take)

lemma stream_opD: "stream_op cb src f \<Longrightarrow> stream_ok cb src st \<Longrightarrow> f st = (r, st') \<Longrightarrow> stream_after src st st'"
  unfolding stream_op_def by (metis snd_conv)

lemma stream_opI:
  "(\<And>st r st'. stream_ok cb src st \<Longrightarrow> f st = (r, st') \<Longrightarrow> stream_after src st st') \<Longrightarrow> stream_op cb src f"
  unfolding stream_op_def by (metis prod.collapse)

lemma is_error_after [simp]: "stream_after src st (snd (is_error msg st))"
  by (simp add: stream_after_def is_error_def)

named_theorems stream_ops "operations that only consume"

lemma stream_op_oret [stream_ops]: "stream_op cb src (oret a)"
  by (simp add: stream_op_def oret_def)

lemma stream_op_error [stream_ops]: "stream_op cb src (is_error msg)"
  by (simp add: stream_op_def)

lemma stream_op_obind [stream_ops]:
  assumes f: "stream_op cb src f" and g: "\<And>a. stream_op cb src (g a)"
  shows "stream_op cb src (obind f g)"
proof (rule stream_opI)
  fix st r st'
  assume ok: "stream_ok cb src st" and run: "obind f g st = (r, st')"
  obtain x st1 where st1: "f st = (x, st1)" by (metis prod.collapse)
  have a1: "stream_after src st st1" by (rule stream_opD [OF f ok st1])
  show "stream_after src st st'"
  proof (cases x)
    case None
    with run st1 a1 show ?thesis by simp
  next
    case (Some a)
    with run st1 have "g a st1 = (r, st')" by simp
    then show ?thesis using stream_after_trans [OF a1] stream_opD [OF g stream_after_ok [OF ok a1]] by blast
  qed
qed

lemma stream_op_othen [stream_ops]: "stream_op cb src f \<Longrightarrow> stream_op cb src g \<Longrightarrow> stream_op cb src (othen f g)"
  unfolding othen_def by (rule stream_op_obind)

context byte_source
begin

abbreviation consumes :: "('s istream, 'a) prog \<Rightarrow> bool" where
  "consumes \<equiv> stream_op cb src"

lemma pb_read_consumes [stream_ops]: "consumes (pb_read n)"
proof (rule stream_opI)
  fix st r st'
  assume ok: "ok st" and run: "pb_read n st = (r, st')"
  show "stream_after src st st'"
  proof (cases "n \<le> is_bytes_left st")
    case True
    have "is_callback st' = is_callback st"
      using run by (auto simp: pb_read_def is_error_def split: if_splits option.splits prod.splits)
    with pb_read_ok [OF ok True] run True show ?thesis by (auto simp: stream_after_def)
  next
    case False
    then have "pb_read n st = is_error ''end-of-stream'' st" by (simp add: pb_read_def)
    with run is_error_after [of src st] show ?thesis by (metis snd_conv)
  qed
qed

lemma pb_readbyte_read: "ok st \<Longrightarrow> pb_readbyte st = (case pb_read 1 st of (r, st') \<Rightarrow> (map_option (\<lambda>bs. bs ! 0) r, st'))"
  by (auto simp: pb_readbyte_def pb_read_def is_error_def split: option.splits prod.splits)

lemma pb_readbyte_consumes [stream_ops]: "consumes pb_readbyte"
  by (rule stream_opI) (auto simp: pb_readbyte_read split: prod.splits intro: stream_opD [OF pb_read_consumes])

lemma skip_pieces_consumes: "ok st \<Longrightarrow> skip_pieces n st = (r, st') \<Longrightarrow> stream_after src st st'"
proof (induction n st rule: skip_pieces.induct)
  case (1 n st)
  obtain x st1 where st1: "pb_read (min n 16) st = (x, st1)" by (metis prod.collapse)
  have a: "stream_after src st st1" by (rule stream_opD [OF pb_read_consumes "1.prems"(1) st1])
  show ?case
  proof (cases "16 < n \<and> x \<noteq> None")
    case True
    then obtain bs where bs: "pb_read 16 st = (Some bs, st1)" using st1 by (auto simp: min_def)
    have "skip_pieces (n - 16) st1 = (r, st')" using "1.prems"(2) bs True by (simp add: skip_pieces.simps [of n])
    from "1.IH" [OF conjunct1 [OF True] bs [symmetric] refl stream_after_ok [OF "1.prems"(1) a] this]
    show ?thesis by (rule stream_after_trans [OF a])
  next
    case False
    with "1.prems"(2) st1 have "st' = st1"
      by (auto simp: skip_pieces.simps [of n] min_def split: if_splits option.splits prod.splits)
    with a show ?thesis by simp
  qed
qed

lemma pb_read_null_consumes [stream_ops]: "consumes (pb_read_null n)"
proof (rule stream_opI)
  fix st r st'
  assume ok: "ok st" and run: "pb_read_null n st = (r, st')"
  have o: "consumes (othen (pb_read n) (oret ()))" by (intro stream_ops)
  show "stream_after src st st'"
  proof (cases "n = 0 \<or> \<not> is_buf st")
    case True
    then show ?thesis
    proof (cases "n = 0")
      case False
      with True run have "skip_pieces n st = (r, st')" by (simp add: pb_read_null_def)
      then show ?thesis by (rule skip_pieces_consumes [OF ok])
    qed (use run in \<open>simp add: pb_read_null_def\<close>)
  next
    case False
    with run have "othen (pb_read n) (oret ()) st = (r, st')" by (simp add: pb_read_null_def)
    then show ?thesis by (rule stream_opD [OF o ok])
  qed
qed

lemma varint_loop_consumes: "ok st \<Longrightarrow> varint_loop r p st = (x, st') \<Longrightarrow> stream_after src st st'"
proof (induction r p st rule: varint_loop.induct)
  case (1 r p st)
  obtain y st1 where st1: "pb_readbyte st = (y, st1)" by (metis prod.collapse)
  have a: "stream_after src st st1" by (rule stream_opD [OF pb_readbyte_consumes "1.prems"(1) st1])
  show ?case
  proof (cases "64 \<le> p")
    case True
    then have "varint_loop r p st = is_error ''varint overflow'' st" by (simp add: varint_loop.simps [of r p st])
    with "1.prems"(2) is_error_after [of src st] show ?thesis by (metis snd_conv)
  next
    case False
    show ?thesis
    proof (cases "\<exists>b. y = Some b \<and> b AND 0x80 \<noteq> 0")
      case True
      then obtain b where b: "y = Some b" "b AND 0x80 \<noteq> 0" by blast
      from "1.prems"(2) b st1 False
      have "varint_loop (r OR push_bit (unat p) (ucast (b AND 0x7F))) (p + 7) st1 = (x, st')"
        by (simp add: varint_loop.simps [of r] Let_def)
      with "1.IH" [OF False st1 [symmetric, unfolded b(1)] refl refl refl b(2)] stream_after_ok [OF "1.prems"(1) a]
      show ?thesis using stream_after_trans [OF a] by blast
    next
      case no: False
      with "1.prems"(2) st1 False have "st' = st1"
        by (auto simp: varint_loop.simps [of r] Let_def split: option.splits)
      with a show ?thesis by simp
    qed
  qed
qed

lemma varint32_loop_consumes: "ok st \<Longrightarrow> varint32_loop r p st = (x, st') \<Longrightarrow> stream_after src st st'"
proof (induction r p st rule: varint32_loop.induct)
  case (1 r p st)
  obtain y st1 where st1: "pb_readbyte st = (y, st1)" by (metis prod.collapse)
  have a: "stream_after src st st1" by (rule stream_opD [OF pb_readbyte_consumes "1.prems"(1) st1])
  let ?over = "\<lambda>b. 32 \<le> p \<and> b AND 0x7F \<noteq> 0 \<and> (drop_bit 31 r = 0 \<or> b \<noteq> (if p < 63 then 0xFF else 0x01))"
  show ?case
  proof (cases "\<exists>b. y = Some b \<and> \<not> ?over b \<and> b AND 0x80 \<noteq> 0")
    case True
    then obtain b where b: "y = Some b" "\<not> ?over b" "b AND 0x80 \<noteq> 0" by blast
    from "1.prems"(2) b st1
    have "varint32_loop (if 32 \<le> p then r else r OR push_bit (unat p) (ucast (b AND 0x7F))) (p + 7) st1 = (x, st')"
      by (subst (asm) varint32_loop.simps) (simp only: prod.case option.case Let_def if_not_P if_P simp_thms)
    with "1.IH" [OF st1 [symmetric, unfolded b(1)] refl refl refl refl b(2,3)] stream_after_ok [OF "1.prems"(1) a]
    show ?thesis using stream_after_trans [OF a] by blast
  next
    case False
    have e: "st' = st1 \<or> st' = snd (is_error ''varint overflow'' st1 :: u32 option \<times> _)"
      using "1.prems"(2) st1 False
      by (subst (asm) varint32_loop.simps) (auto simp: Let_def split: option.splits if_splits)
    show ?thesis using stream_after_trans [OF a is_error_after] a e by metis
  qed
qed

lemma pb_decode_varint_consumes [stream_ops]: "consumes pb_decode_varint"
  unfolding pb_decode_varint_def by (rule stream_opI) (rule varint_loop_consumes)

lemma pb_decode_varint32_consumes [stream_ops]: "consumes pb_decode_varint32"
  by (rule stream_opI) (auto simp: pb_decode_varint32_loop intro: varint32_loop_consumes)

lemma pb_skip_varint_consumes [stream_ops]: "consumes pb_skip_varint"
proof -
  have "ok st \<Longrightarrow> pb_skip_varint st = (x, st') \<Longrightarrow> stream_after src st st'" for st x st'
  proof (induction st rule: pb_skip_varint.induct)
    case (1 st)
    obtain y st1 where st1: "pb_read 1 st = (y, st1)" by (metis prod.collapse)
    have a: "stream_after src st st1" by (rule stream_opD [OF pb_read_consumes "1.prems"(1) st1])
    show ?case
    proof (cases "\<exists>bs. y = Some bs \<and> bs ! 0 AND 0x80 \<noteq> 0")
      case True
      then obtain bs where b: "y = Some bs" "bs ! 0 AND 0x80 \<noteq> 0" by blast
      from "1.prems"(2) b st1 have "pb_skip_varint st1 = (x, st')" by (simp add: pb_skip_varint.simps [of st])
      with "1.IH" [OF st1 [symmetric, unfolded b(1)] refl b(2)] stream_after_ok [OF "1.prems"(1) a]
      show ?thesis using stream_after_trans [OF a] by blast
    next
      case False
      with "1.prems"(2) st1 have "st' = st1" by (auto simp: pb_skip_varint.simps [of st] split: option.splits)
      with a show ?thesis by simp
    qed
  qed
  then show ?thesis by (rule stream_opI)
qed

lemma pb_skip_string_consumes [stream_ops]: "consumes pb_skip_string"
  unfolding pb_skip_string_def by (intro stream_ops)

lemma pb_skip_field_consumes [stream_ops]: "consumes (pb_skip_field wt)"
  unfolding pb_skip_field_def by (auto intro: stream_ops)

lemma raw_varint_consumes: "ok st \<Longrightarrow> raw_varint n st = (x, st') \<Longrightarrow> stream_after src st st'"
proof (induction n arbitrary: st x)
  case (Suc n)
  obtain y st1 where st1: "pb_read 1 st = (y, st1)" by (metis prod.collapse)
  have a: "stream_after src st st1" by (rule stream_opD [OF pb_read_consumes Suc.prems(1) st1])
  have "st' = st1 \<or> (\<exists>x'. raw_varint n st1 = (x', st'))"
    using Suc.prems(2) st1 by (auto split: option.splits if_splits prod.splits)
  then show ?case
    using a Suc.IH [OF stream_after_ok [OF Suc.prems(1) a]] stream_after_trans [OF a] by blast
qed simp

lemma read_raw_value_consumes [stream_ops]: "consumes (read_raw_value wt n)"
proof -
  have "consumes (raw_varint n)" by (rule stream_opI) (rule raw_varint_consumes)
  then show ?thesis unfolding read_raw_value_def by (auto intro: stream_ops)
qed

lemma pb_decode_svarint_consumes [stream_ops]: "consumes pb_decode_svarint"
  unfolding pb_decode_svarint_def by (intro stream_ops)

lemma pb_decode_bool_consumes [stream_ops]: "consumes pb_decode_bool"
  unfolding pb_decode_bool_def by (intro stream_ops)

lemma pb_decode_fixed32_consumes [stream_ops]: "consumes pb_decode_fixed32"
  unfolding pb_decode_fixed32_def by (intro stream_ops)

lemma pb_decode_fixed64_consumes [stream_ops]: "consumes pb_decode_fixed64"
  unfolding pb_decode_fixed64_def by (intro stream_ops)

end


subsection \<open>Tagged fields\<close>

text \<open>
  A field of a message on the wire: its number and its value in one of the four wire types. The field
  is written with the functions of the encoder, and read with those of the decoder, a string through a
  substream as the field decoders do it.
\<close>

datatype wire_value = Varint u64 | Fixed64 u64 | Bytes "u8 list" | Fixed32 u32

fun wire_type :: "wire_value \<Rightarrow> u32" where
  "wire_type (Varint v) = PB_WT_VARINT"
| "wire_type (Fixed64 v) = PB_WT_64BIT"
| "wire_type (Bytes bs) = PB_WT_STRING"
| "wire_type (Fixed32 v) = PB_WT_32BIT"

fun enc_value :: "wire_value \<Rightarrow> u8 list" where
  "enc_value (Varint v) = varint_enc (unat v)"
| "enc_value (Fixed64 v) = fixed64_enc v"
| "enc_value (Bytes bs) = varint_enc (length bs) @ bs"
| "enc_value (Fixed32 v) = fixed32_enc v"

definition enc_tag :: "u32 \<Rightarrow> wire_value \<Rightarrow> u8 list" where
  "enc_tag n x = varint_enc (8 * unat n + unat (wire_type x))"

fun enc_field :: "u32 \<times> wire_value \<Rightarrow> u8 list" where
  "enc_field (n, x) = enc_tag n x @ enc_value x"

fun field_ok :: "u32 \<times> wire_value \<Rightarrow> bool" where
  "field_ok (n, x) \<longleftrightarrow> 0 < unat n \<and> unat n < 2 ^ 29 \<and>
     (case x of Bytes bs \<Rightarrow> length bs < 2 ^ 32 | _ \<Rightarrow> True)"

fun write_value :: "wire_value \<Rightarrow> ('s ostream, unit) prog" where
  "write_value (Varint v) = pb_encode_varint v"
| "write_value (Fixed64 v) = pb_encode_fixed64 v"
| "write_value (Bytes bs) = pb_encode_string bs (length bs)"
| "write_value (Fixed32 v) = pb_encode_fixed32 v"

fun write_field :: "u32 \<times> wire_value \<Rightarrow> ('s ostream, unit) prog" where
  "write_field (n, x) = othen (pb_encode_tag (wire_type x) n) (write_value x)"

definition read_bytes :: "('s istream, u8 list) prog" where
  "read_bytes = obind pb_make_string_substream (\<lambda>sub.
     case pb_read (is_bytes_left sub) sub of
       (None, _) \<Rightarrow> ofail
     | (Some bs, sub') \<Rightarrow> othen (pb_close_string_substream sub') (oret bs))"

definition read_value :: "u32 \<Rightarrow> ('s istream, wire_value) prog" where
  "read_value wt =
     (if wt = PB_WT_VARINT then obind pb_decode_varint (\<lambda>v. oret (Varint v))
      else if wt = PB_WT_64BIT then obind pb_decode_fixed64 (\<lambda>v. oret (Fixed64 v))
      else if wt = PB_WT_STRING then obind read_bytes (\<lambda>bs. oret (Bytes bs))
      else if wt = PB_WT_32BIT then obind pb_decode_fixed32 (\<lambda>v. oret (Fixed32 v))
      else ofail)"

definition read_field :: "('s istream, u32 \<times> wire_value) prog" where
  "read_field st =
     (case pb_decode_tag st of
        ((False, _), st') \<Rightarrow> (None, st')
      | ((True, wt, n, _), st') \<Rightarrow> obind (read_value wt) (\<lambda>x. oret (n, x)) st')"

lemmas wire_types = PB_WT_VARINT_def PB_WT_64BIT_def PB_WT_STRING_def PB_WT_32BIT_def

lemma wire_type_less: "unat (wire_type x) < 8"
  by (cases x) (simp_all add: wire_types)

lemma enc_tag_nonempty [simp]: "enc_tag n x \<noteq> []"
  using varint_enc_is_varint by (simp add: enc_tag_def)

subsection \<open>Writing\<close>

lemma pb_encode_fixed_eq:
  "pb_encode_fixed32 v = pb_write (fixed32_enc v) (length (fixed32_enc v))"
  "pb_encode_fixed64 w = pb_write (fixed64_enc w) (length (fixed64_enc w))"
  by (simp_all add: pb_encode_fixed32_def pb_encode_fixed64_def fixed32_enc_def fixed64_enc_def and_FF upt_rec eval_nat_numeral)

lemma tag_word:
  assumes "t < 8"
  shows "unat (push_bit 3 (ucast n :: u64) OR ucast t) = 8 * unat (n :: u32) + unat (t :: u32)"
proof -
  have u: "unat (ucast n :: u64) = unat n" "unat (ucast t :: u64) = unat t" by (simp_all add: unat_ucast_up)
  have "unat t < 8" using assms by (simp add: word_less_nat_alt)
  moreover have "unat n < 2 ^ 32" using unsigned_less [of n] by simp
  ultimately show ?thesis using unat_or_push_bit [of "ucast t :: u64" 3 "ucast n"] u by simp
qed

lemma pb_encode_tag_eq: "pb_encode_tag (wire_type x) n = pb_write (enc_tag n x) (length (enc_tag n x))"
  using wire_type_less [of x]
  by (simp add: pb_encode_tag_def pb_encode_varint_eq tag_word enc_tag_def word_less_nat_alt)

abbreviation put_bytes :: "u8 list \<Rightarrow> ('s ostream, unit) prog" where
  "put_bytes bs \<equiv> pb_write bs (length bs)"

lemma othen_oret [simp]: "othen f (oret ()) = f"
proof -
  have "(\<lambda>_ :: unit. oret ()) = (oret :: unit \<Rightarrow> ('a, unit) prog)" by (rule ext) simp
  then show ?thesis by (simp add: othen_def)
qed

lemma write_field_pieces:
  assumes "field_ok (n, x)"
  shows "\<exists>ps. write_field (n, x) = put_all put_bytes ps \<and> concat ps = enc_field (n, x)"
proof (cases x)
  case (Bytes bs)
  then have "unat (word_of_nat (length bs) :: u64) = length bs" using assms by (simp add: unat_word_of_nat)
  then show ?thesis using Bytes
    by (intro exI [of _ "[enc_tag n x, varint_enc (length bs), bs]"])
      (simp add: pb_encode_tag_eq [symmetric] pb_encode_string_def pb_encode_varint_eq)
qed (rule exI [of _ "[enc_tag n x, enc_value x]"],
    simp add: pb_encode_tag_eq [symmetric] pb_encode_varint_eq pb_encode_fixed_eq)+

text \<open>A stream on a memory block: what has been written is at its start, the rest is untouched.\<close>

definition out_ok :: "u8 list \<Rightarrow> nat \<Rightarrow> (u8 list \<times> nat) ostream \<Rightarrow> bool" where
  "out_ok block n st \<longleftrightarrow> os_callback st = Some buf_write \<and> os_max_size st = n \<and> n \<le> length block \<and> n < size_mod \<and>
     snd (os_state st) = os_bytes_written st \<and> os_bytes_written st \<le> n \<and>
     length (fst (os_state st)) = length block \<and>
     drop (os_bytes_written st) (fst (os_state st)) = drop (os_bytes_written st) block"

definition out_bytes :: "(u8 list \<times> nat) ostream \<Rightarrow> u8 list" where
  "out_bytes st = take (os_bytes_written st) (fst (os_state st))"

lemma length_out_bytes: "out_ok block n st \<Longrightarrow> length (out_bytes st) = os_bytes_written st"
  by (simp add: out_ok_def out_bytes_def)

lemma out_ok_from_buffer:
  "n \<le> length block \<Longrightarrow> n < size_mod \<Longrightarrow> out_ok block n (pb_ostream_from_buffer block n)"
  by (simp add: out_ok_def pb_ostream_from_buffer_def)

lemma pb_write_fits:
  assumes "out_ok block n st" "os_bytes_written st + length bs \<le> n"
  shows "\<exists>st'. put_bytes bs st = (Some (), st') \<and> out_ok block n st' \<and> out_bytes st' = out_bytes st @ bs"
proof -
  have m: "(os_bytes_written st + length bs) mod size_mod = os_bytes_written st + length bs"
    using assms by (simp add: out_ok_def)
  show ?thesis
  proof (cases "bs = []")
    case True
    with assms m show ?thesis
      by (simp add: pb_write_def out_ok_def out_bytes_def Let_def)
  next
    case False
    then have e: "put_bytes bs st = (Some (), st\<lparr>os_state := (store (fst (os_state st)) (os_bytes_written st) bs,
        os_bytes_written st + length bs), os_bytes_written := os_bytes_written st + length bs\<rparr>)"
      using assms m by (simp add: pb_write_def out_ok_def Let_def buf_write_def)
    have "os_bytes_written st + length bs \<le> length (fst (os_state st))" using assms by (simp add: out_ok_def)
    moreover have "drop (os_bytes_written st + length bs) (fst (os_state st)) = drop (os_bytes_written st + length bs) block"
      using assms by (metis (no_types, lifting) add.commute drop_drop out_ok_def)
    ultimately show ?thesis unfolding e using assms
      by (simp add: out_ok_def out_bytes_def store_def)
  qed
qed

lemma pb_write_full:
  assumes "out_ok block n st" "n < os_bytes_written st + length bs" "length bs < size_mod"
  shows "\<exists>st'. put_bytes bs st = (None, st') \<and> out_ok block n st'"
proof -
  have w: "os_bytes_written st < size_mod" "os_bytes_written st \<le> n" using assms by (simp_all add: out_ok_def)
  have "(os_bytes_written st + length bs) mod size_mod < os_bytes_written st \<or>
      n < (os_bytes_written st + length bs) mod size_mod"
  proof (cases "os_bytes_written st + length bs < size_mod")
    case False
    then have "(os_bytes_written st + length bs) mod size_mod = os_bytes_written st + length bs - size_mod"
      using w assms(3) by (simp add: mod_if)
    then show ?thesis using False assms(3) w by linarith
  qed (use assms in simp)
  moreover have "bs \<noteq> []" using assms(2) w by auto
  ultimately show ?thesis using assms(1)
    by (auto simp: pb_write_def Let_def out_ok_def os_error_def)
qed

lemma put_all_fits:
  "out_ok block n st \<Longrightarrow> os_bytes_written st + length (concat ps) \<le> n \<Longrightarrow>
    \<exists>st'. put_all put_bytes ps st = (Some (), st') \<and> out_ok block n st' \<and> out_bytes st' = out_bytes st @ concat ps"
proof (induction ps arbitrary: st)
  case (Cons p ps)
  then obtain st1 where st1: "put_bytes p st = (Some (), st1)" "out_ok block n st1" "out_bytes st1 = out_bytes st @ p"
    using pb_write_fits [OF Cons.prems(1), of p] by auto
  have "os_bytes_written st1 = os_bytes_written st + length p"
    using length_out_bytes [OF Cons.prems(1)] length_out_bytes [OF st1(2)] st1(3) by simp
  with Cons.IH [OF st1(2)] Cons.prems(2) st1(1,3) show ?case by simp
qed (simp add: oret_def)

lemma put_all_safe:
  "out_ok block n st \<Longrightarrow> length (concat ps) < size_mod \<Longrightarrow> out_ok block n (snd (put_all put_bytes ps st)) \<and>
    (n < os_bytes_written st + length (concat ps) \<longrightarrow> fst (put_all put_bytes ps st) = None)"
proof (induction ps arbitrary: st)
  case Nil
  then show ?case by (auto simp: oret_def out_ok_def)
next
  case (Cons p ps)
  show ?case
  proof (cases "os_bytes_written st + length p \<le> n")
    case True
    with pb_write_fits [OF Cons.prems(1)] obtain st1
      where st1: "put_bytes p st = (Some (), st1)" "out_ok block n st1" "out_bytes st1 = out_bytes st @ p" by blast
    have "os_bytes_written st1 = os_bytes_written st + length p"
      using length_out_bytes [OF Cons.prems(1)] length_out_bytes [OF st1(2)] st1(3) by simp
    with Cons.IH [OF st1(2)] Cons.prems(2) st1(1) show ?thesis by (simp add: add.assoc)
  next
    case False
    then obtain st1 where st1: "put_bytes p st = (None, st1)" "out_ok block n st1"
      using pb_write_full [OF Cons.prems(1), of p] Cons.prems(2) by auto
    then show ?thesis by simp
  qed
qed

lemma put_all_sizing:
  "os_callback st = None \<Longrightarrow> os_bytes_written st + length (concat ps) < size_mod \<Longrightarrow>
    \<exists>st'. put_all put_bytes ps st = (Some (), st') \<and> os_bytes_written st' = os_bytes_written st + length (concat ps)"
proof (induction ps arbitrary: st)
  case Nil
  then show ?case by (simp add: oret_def)
next
  case (Cons p ps)
  let ?st = "st\<lparr>os_bytes_written := os_bytes_written st + length p\<rparr>"
  have "put_bytes p st = (Some (), ?st)" using Cons.prems by (simp add: pb_write_def Let_def)
  with Cons.IH [of ?st] Cons.prems show ?case by (simp add: add.assoc)
qed

fun write_fields :: "(u32 \<times> wire_value) list \<Rightarrow> ('s ostream, unit) prog" where
  "write_fields [] = oret ()"
| "write_fields (f # fs) = othen (write_field f) (write_fields fs)"

lemma put_all_append: "put_all put (ps @ qs) = othen (put_all put ps) (put_all put qs)"
  by (induction ps) (simp_all add: othen_def obind_assoc)

lemma write_fields_pieces:
  "\<forall>f\<in>set fs. field_ok f \<Longrightarrow>
    \<exists>ps. (write_fields fs :: ('s ostream, unit) prog) = put_all put_bytes ps \<and> concat ps = concat (map enc_field fs)"
proof (induction fs)
  case Nil
  show ?case by (rule exI [of _ "[]"]) simp
next
  case (Cons f fs)
  obtain n x where f: "f = (n, x)" by (cases f)
  from Cons obtain ps where ps: "(write_fields fs :: ('s ostream, unit) prog) = put_all put_bytes ps"
    "concat ps = concat (map enc_field fs)" by auto
  obtain qs where qs: "(write_field (n, x) :: ('s ostream, unit) prog) = put_all put_bytes qs"
    "concat qs = enc_field (n, x)"
    using write_field_pieces [of n x] Cons.prems f by auto
  show ?case
    by (rule exI [of _ "qs @ ps"]) (simp add: f ps qs put_all_append del: write_field.simps enc_field.simps)
qed

subsection \<open>Reading\<close>

lemma eof_only_on_failure: "pb_decode_varint32_eof st = (Some r, e, st') \<Longrightarrow> \<not> e"
  by (auto simp: pb_decode_varint32_eof_def split: prod.splits option.splits if_splits)

lemma tag_parts:
  assumes "unat n < 2 ^ 29" "unat t < 8" "w = (word_of_nat (8 * unat n + unat t) :: u32)"
  shows "w AND 7 = t" "drop_bit 3 w = n" "0 < unat n \<Longrightarrow> w \<noteq> 0"
proof -
  have "8 * unat n + unat t < 2 ^ 32" using assms by simp
  then have w: "unat w = 8 * unat n + unat t" unfolding assms(3) by (simp only: unat_word_of_nat) simp
  have "(7 :: u32) = Bit_Operations.mask 3" by (simp add: mask_eq_exp_minus_1)
  then have "unat (w AND 7) = unat w mod 2 ^ 3" by (simp only: unat_and_mask)
  then show "w AND 7 = t" using w assms(2) by (simp add: word_unat_eq_iff)
  have "unat (drop_bit 3 w) = unat n" using w assms(2) by (simp add: unat_drop_bit)
  then show "drop_bit 3 w = n" by (simp add: word_unat_eq_iff)
  show "0 < unat n \<Longrightarrow> w \<noteq> 0" using w by auto
qed

context byte_source
begin

lemma pb_decode_tag_ok:
  assumes "ok st" "view st = enc_tag n x @ rest" "0 < unat n" "unat n < 2 ^ 29"
  shows "\<exists>st'. pb_decode_tag st = ((True, wire_type x, n, False), st') \<and> ok st' \<and> view st' = rest"
proof -
  have "8 * unat n + unat (wire_type x) < 2 ^ 32" using assms(4) wire_type_less [of x] by simp
  from pb_decode_varint32_enc [OF this assms(1)] assms(2) obtain st'
    where st': "pb_decode_varint32 st = (Some (word_of_nat (8 * unat n + unat (wire_type x))), st')"
      "ok st'" "view st' = rest" by (auto simp: enc_tag_def)
  then have "pb_decode_varint32_eof st = (Some (word_of_nat (8 * unat n + unat (wire_type x))), False, st')"
    using eof_only_on_failure [of st] by (auto simp: pb_decode_varint32_def split: prod.splits)
  with st' tag_parts [OF assms(4) wire_type_less refl] assms(3) show ?thesis
    by (simp add: pb_decode_tag_def)
qed

lemma pb_skip_varint_ok:
  "is_varint bs \<Longrightarrow> ok st \<Longrightarrow> view st = bs @ rest \<Longrightarrow>
    \<exists>st'. pb_skip_varint st = (Some (), st') \<and> ok st' \<and> view st' = rest"
proof (induction bs arbitrary: st)
  case (Cons b bs)
  have "1 \<le> is_bytes_left st" using length_stream [OF Cons.prems(2)] Cons.prems(3) by simp
  from pb_read_ok [OF Cons.prems(2) this] Cons.prems(3) obtain st1
    where st1: "pb_read 1 st = (Some [b], st1)" "ok st1" "view st1 = bs @ rest" by auto
  show ?case
  proof (cases "bs = []")
    case True
    then have "b AND 0x80 = 0" using Cons.prems(1) by (simp add: top_bit)
    with st1 True show ?thesis by (simp add: pb_skip_varint.simps [of st])
  next
    case False
    then have "b AND 0x80 \<noteq> 0" "is_varint bs" using Cons.prems(1) by (simp_all add: is_varint_Cons top_bit)
    with Cons.IH [OF _ st1(2,3)] st1(1) show ?thesis by (simp add: pb_skip_varint.simps [of st])
  qed
qed simp

lemma pb_read_prefix:
  assumes "ok st" "view st = bs @ rest"
  shows "\<exists>st'. pb_read (length bs) st = (Some bs, st') \<and> ok st' \<and> view st' = rest"
    "\<exists>st'. pb_read_null (length bs) st = (Some (), st') \<and> ok st' \<and> view st' = rest"
proof -
  have "length bs \<le> is_bytes_left st" using length_stream [OF assms(1)] assms(2) by simp
  from pb_read_ok [OF assms(1) this] pb_read_null_ok [OF assms(1) this] assms(2)
  show "\<exists>st'. pb_read (length bs) st = (Some bs, st') \<and> ok st' \<and> view st' = rest"
    "\<exists>st'. pb_read_null (length bs) st = (Some (), st') \<and> ok st' \<and> view st' = rest" by auto
qed

lemma pb_decode_length:
  assumes "ok st" "view st = varint_enc (length bs) @ bs @ rest" "length bs < 2 ^ 32"
  obtains st1 where "pb_decode_varint32 st = (Some (word_of_nat (length bs)), st1)" "ok st1" "view st1 = bs @ rest"
    "unat (word_of_nat (length bs) :: u32) = length bs"
  using pb_decode_varint32_enc [OF assms(3,1,2)] assms(3) by (auto simp: unat_word_of_nat)

lemma pb_skip_value_ok:
  assumes "ok st" "view st = enc_value x @ rest" "field_ok (n, x)"
  shows "\<exists>st'. pb_skip_field (wire_type x) st = (Some (), st') \<and> ok st' \<and> view st' = rest"
proof (cases x)
  case (Varint v)
  with pb_skip_varint_ok [OF conjunct1 [OF varint_enc_is_varint] assms(1)] assms(2)
  show ?thesis by (auto simp: pb_skip_field_def)
next
  case (Fixed64 v)
  with pb_read_prefix(2) [OF assms(1), of "fixed64_enc v"] assms(2)
  show ?thesis by (simp add: pb_skip_field_def wire_types)
next
  case (Fixed32 v)
  with pb_read_prefix(2) [OF assms(1), of "fixed32_enc v"] assms(2)
  show ?thesis by (simp add: pb_skip_field_def wire_types)
next
  case (Bytes bs)
  obtain st1 where st1: "pb_decode_varint32 st = (Some (word_of_nat (length bs)), st1)" "ok st1" "view st1 = bs @ rest"
    "unat (word_of_nat (length bs) :: u32) = length bs"
    using pb_decode_length [OF assms(1), of bs rest] assms(2,3) Bytes by auto
  with pb_read_prefix(2) [OF st1(2,3)] Bytes show ?thesis
    by (simp add: pb_skip_field_def wire_types pb_skip_string_def)
qed

lemma substream_framing:
  assumes "ok st" "view st = varint_enc (length bs) @ bs @ rest" "length bs < 2 ^ 32"
  shows "\<exists>sub st1. pb_make_string_substream st = (Some sub, st1) \<and> ok sub \<and> view sub = bs \<and>
    is_bytes_left sub = length bs \<and>
    (\<forall>sub'. stream_after src sub sub' \<longrightarrow>
      (\<exists>st2. pb_close_string_substream sub' st1 = (Some (), st2) \<and> ok st2 \<and> view st2 = rest))"
proof -
  obtain st0 where st0: "pb_decode_varint32 st = (Some (word_of_nat (length bs)), st0)" "ok st0" "view st0 = bs @ rest"
    "unat (word_of_nat (length bs) :: u32) = length bs"
    by (rule pb_decode_length [OF assms])
  have len: "is_bytes_left st0 = length bs + length rest" using length_stream [OF st0(2)] st0(3) by simp
  define sub where "sub = st0\<lparr>is_bytes_left := length bs\<rparr>"
  define st1 where "st1 = st0\<lparr>is_bytes_left := is_bytes_left st0 - length bs\<rparr>"
  have make: "pb_make_string_substream st = (Some sub, st1)"
    using st0(1,4) len by (simp add: pb_make_string_substream_def sub_def st1_def)
  have sub: "ok sub" "is_bytes_left sub = length bs" "is_state sub = is_state st0"
    using st0(2) len by (simp_all add: sub_def stream_ok_def)
  have src0: "take (length bs + length rest) (src (is_state st0)) = bs @ rest"
    using st0(3) len by (simp add: stream_view_def)
  then have bs: "take (length bs) (src (is_state st0)) = bs"
    by (metis append_eq_conv_conj le_add1 min.absorb1 take_take)
  have rest: "take (length rest) (drop (length bs) (src (is_state st0))) = rest"
    using src0 by (metis add_diff_cancel_left' append_eq_conv_conj drop_take)
  have "\<exists>st2. pb_close_string_substream sub' st1 = (Some (), st2) \<and> ok st2 \<and> view st2 = rest"
    if a: "stream_after src sub sub'" for sub'
  proof -
    have left: "is_bytes_left sub' \<le> length bs"
      "src (is_state sub') = drop (length bs - is_bytes_left sub') (src (is_state st0))"
      using a sub by (simp_all add: stream_after_def)
    have "\<exists>e. (if is_bytes_left sub' \<noteq> 0 then pb_read_null (is_bytes_left sub') sub' else (Some (), sub')) = (Some (), e) \<and>
        src (is_state e) = drop (length bs) (src (is_state st0))"
      using pb_read_null_ok [OF stream_after_ok [OF sub(1) a] order_refl] left by auto
    then obtain e where e: "(if is_bytes_left sub' \<noteq> 0 then pb_read_null (is_bytes_left sub') sub' else (Some (), sub')) = (Some (), e)"
        "src (is_state e) = drop (length bs) (src (is_state st0))" by blast
    have "length bs + length rest \<le> length (src (is_state st0))" using st0(2) len by (simp add: stream_ok_def)
    with e rest st0(2) len show ?thesis
      by (simp add: pb_close_string_substream_def st1_def stream_ok_def stream_view_def)
  qed
  moreover have "view sub = bs" using bs sub by (simp add: stream_view_def)
  ultimately show ?thesis using make sub by blast
qed

lemma read_bytes_ok:
  assumes "ok st" "view st = varint_enc (length bs) @ bs @ rest" "length bs < 2 ^ 32"
  shows "\<exists>st'. read_bytes st = (Some bs, st') \<and> ok st' \<and> view st' = rest"
proof -
  from substream_framing [OF assms] obtain sub st1
    where f: "pb_make_string_substream st = (Some sub, st1)" "ok sub" "view sub = bs" "is_bytes_left sub = length bs"
      and close: "\<And>sub'. stream_after src sub sub' \<Longrightarrow>
        \<exists>st2. pb_close_string_substream sub' st1 = (Some (), st2) \<and> ok st2 \<and> view st2 = rest" by blast
  obtain sub' where r: "pb_read (length bs) sub = (Some bs, sub')"
    using pb_read_prefix(1) [of sub bs "[]"] f by auto
  from close [OF stream_opD [OF pb_read_consumes f(2) r]] f r show ?thesis
    by (auto simp: read_bytes_def oret_def)
qed

lemma read_value_ok:
  assumes "ok st" "view st = enc_value x @ rest" "field_ok (n, x)"
  shows "\<exists>st'. read_value (wire_type x) st = (Some x, st') \<and> ok st' \<and> view st' = rest"
proof (cases x)
  case (Varint v)
  have "unat v < 2 ^ LENGTH(64)" by (rule unsigned_less)
  then have "unat v < 128 ^ 10" by simp
  then have "length (varint_enc (unat v)) \<le> 10" using length_varint_enc [of "unat v" 9] by simp
  with pb_decode_varint_ok [of "varint_enc (unat v)" st rest] varint_enc_is_varint [of "unat v"] assms(1,2) Varint
  show ?thesis by (auto simp: read_value_def oret_def)
next
  case (Fixed64 v)
  with pb_read_prefix(1) [OF assms(1), of "fixed64_enc v"] assms(2) show ?thesis
    by (auto simp: read_value_def wire_types pb_decode_fixed64_def oret_def bytes_join_64 [simplified])
next
  case (Fixed32 v)
  with pb_read_prefix(1) [OF assms(1), of "fixed32_enc v"] assms(2) show ?thesis
    by (auto simp: read_value_def wire_types pb_decode_fixed32_def oret_def bytes_join_32 [simplified])
next
  case (Bytes bs)
  with read_bytes_ok [OF assms(1), of bs rest] assms(2,3) show ?thesis
    by (auto simp: read_value_def wire_types oret_def)
qed

lemma read_field_ok:
  assumes "ok st" "view st = enc_field (n, x) @ rest" "field_ok (n, x)"
  shows "\<exists>st'. read_field st = (Some (n, x), st') \<and> ok st' \<and> view st' = rest"
proof -
  obtain st1 where st1: "pb_decode_tag st = ((True, wire_type x, n, False), st1)" "ok st1"
      "view st1 = enc_value x @ rest"
    using pb_decode_tag_ok [OF assms(1), of n x "enc_value x @ rest"] assms(2,3) by auto
  with read_value_ok [OF st1(2,3) assms(3)] show ?thesis by (auto simp: read_field_def oret_def)
qed

end

interpretation wire: progressing_codec "stream_view (\<lambda>s. s)" "stream_ok buf_read (\<lambda>s. s)"
    "\<lambda>xs. pb_istream_from_buffer xs (length xs)" read_field enc_field field_ok
proof unfold_locales
  fix xs :: "u8 list"
  show "stream_ok buf_read (\<lambda>s. s) (pb_istream_from_buffer xs (length xs))"
    "stream_view (\<lambda>s. s) (pb_istream_from_buffer xs (length xs)) = xs"
    by (simp_all add: stream_ok_def stream_view_def pb_istream_from_buffer_def)
next
  fix s f and rest :: "u8 list"
  assume a: "stream_ok buf_read (\<lambda>s. s) s" "field_ok f" "stream_view (\<lambda>s. s) s = enc_field f @ rest"
  show "\<exists>s'. read_field s = (Some f, s') \<and> stream_ok buf_read (\<lambda>s. s) s' \<and> stream_view (\<lambda>s. s) s' = rest"
    using buffer.read_field_ok [OF a(1), of "fst f" "snd f" rest] a(2,3) by simp
next
  fix f
  show "enc_field f \<noteq> []" by (cases f) simp
qed

end
