(* ===== verification/PB_Properties.thy ===== *)
theory PB_Properties
  imports PB_Fields
begin

text \<open>The properties of the nanopb streams and of its wire format.\<close>

subsection \<open>Sources\<close>

text \<open>
  Property C38. A reader leaves its stream in order: whatever it is given, on success and on failure, it
  has taken some bytes from the front of the source and lowered the count of the bytes that are left by
  as many; callback and kind of the stream stay. So no reader runs past the end that the stream
  announces, for every callback that delivers its bytes in order.
\<close>

theorem pb_readers_only_consume:
  assumes "byte_source cb src"
  shows "stream_op cb src (pb_read n) \<and> stream_op cb src (pb_read_null n) \<and> stream_op cb src pb_readbyte \<and>
    stream_op cb src pb_decode_varint \<and> stream_op cb src pb_decode_varint32 \<and>
    stream_op cb src pb_decode_svarint \<and> stream_op cb src pb_decode_bool \<and>
    stream_op cb src pb_decode_fixed32 \<and> stream_op cb src pb_decode_fixed64 \<and>
    stream_op cb src pb_skip_varint \<and> stream_op cb src pb_skip_string \<and> stream_op cb src (pb_skip_field wt) \<and>
    stream_op cb src (read_raw_value wt n)"
  by (intro conjI assms byte_source.pb_read_consumes byte_source.pb_read_null_consumes
      byte_source.pb_readbyte_consumes byte_source.pb_decode_varint_consumes byte_source.pb_decode_varint32_consumes
      byte_source.pb_decode_svarint_consumes byte_source.pb_decode_bool_consumes
      byte_source.pb_decode_fixed32_consumes byte_source.pb_decode_fixed64_consumes
      byte_source.pb_skip_varint_consumes byte_source.pb_skip_string_consumes
      byte_source.pb_skip_field_consumes byte_source.read_raw_value_consumes)

lemma pb_readers_only_consume_witness:
  "stream_after (\<lambda>s. s) (pb_istream_from_buffer [0x80, 0x80, 5] 2)
     (snd (pb_decode_varint (pb_istream_from_buffer [0x80, 0x80, 5] 2)))"
proof -
  have "stream_ok buf_read (\<lambda>s. s) (pb_istream_from_buffer [0x80, 0x80, 5] 2)"
    by (simp add: stream_ok_def pb_istream_from_buffer_def)
  then show ?thesis
    using pb_readers_only_consume [OF buffer.byte_source_axioms, of 0 0] by (simp add: stream_op_def)
qed

subsection \<open>Varints\<close>

text \<open>
  Property C19. The 64-bit varint decoder succeeds exactly on a varint of at most ten bytes at the front
  of the stream. It takes just these bytes and returns the value of the groups modulo \<open>2 ^ 64\<close>: the
  padding of a longer form than necessary is accepted, and bits of the tenth byte above the 64th are
  dropped. A stream that ends inside a varint and one of eleven bytes are refused.
\<close>

theorem pb_decode_varint_iff:
  assumes "byte_source cb src" "stream_ok cb src st"
  shows "(\<exists>st'. pb_decode_varint st = (Some v, st') \<and> stream_view src st' = rest) \<longleftrightarrow>
    (\<exists>bs. stream_view src st = bs @ rest \<and> is_varint bs \<and> length bs \<le> 10 \<and> v = word_of_nat (group_val bs))"
  by (rule byte_source.pb_decode_varint_iff_view [OF assms])

lemma pb_decode_varint_iff_witness:
  "\<exists>st'. pb_decode_varint (pb_istream_from_buffer [0xAC, 0x02, 0x07] 3) = (Some 300, st') \<and>
     stream_view (\<lambda>s. s) st' = [0x07]"
proof -
  have ok: "stream_ok buf_read (\<lambda>s. s) (pb_istream_from_buffer [0xAC, 0x02, 0x07] 3)"
    by (simp add: stream_ok_def pb_istream_from_buffer_def)
  show ?thesis
    by (subst pb_decode_varint_iff [OF buffer.byte_source_axioms ok], rule exI [of _ "[0xAC, 0x02]"])
      (simp add: stream_view_def pb_istream_from_buffer_def)
qed

text \<open>
  The 32-bit decoder reads back every value that the encoder writes for a 32-bit field:
  the unsigned numbers below \<open>2 ^ 32\<close> in their one to five bytes, and the negative numbers from
  \<open>-2 ^ 31\<close> on, which are encoded in ten bytes as 64-bit numbers and cut to 32 bits.
\<close>

theorem pb_decode_varint32_reads:
  assumes "byte_source cb src" "stream_ok cb src st"
    and "unat v < 2 ^ 32 \<or> 2 ^ 64 - 2 ^ 31 \<le> unat (v :: u64)"
    and "stream_view src st = varint_enc (unat v) @ rest"
  shows "\<exists>st'. pb_decode_varint32 st = (Some (ucast v), st') \<and> stream_ok cb src st' \<and> stream_view src st' = rest"
proof -
  have u: "(word_of_nat (unat v) :: u32) = ucast v"
    by (rule word_unat_eq_iff [THEN iffD2]) (simp add: unat_word_of_nat unsigned_ucast_eq take_bit_eq_mod)
  have "unat v < 2 ^ LENGTH(64)" by (rule unsigned_less)
  then show ?thesis
    using byte_source.pb_decode_varint32_enc [OF assms(1) _ assms(2,4)]
      byte_source.pb_decode_varint32_negative [OF assms(1) _ _ assms(2,4)] assms(3) unfolding u by auto
qed

lemma pb_decode_varint32_reads_witness:
  "\<exists>st'. pb_decode_varint32 (pb_istream_from_buffer [0xFE, 0xFF, 0xFF, 0xFF, 0xFF, 0xFF, 0xFF, 0xFF, 0xFF, 0x01, 0x09] 11)
     = (Some 0xFFFFFFFE, st') \<and> stream_view (\<lambda>s. s) st' = [0x09]"
proof -
  let ?st = "pb_istream_from_buffer [0xFE, 0xFF, 0xFF, 0xFF, 0xFF, 0xFF, 0xFF, 0xFF, 0xFF, 0x01, 0x09] 11"
  have ok: "stream_ok buf_read (\<lambda>s. s) ?st"
    by (simp add: stream_ok_def pb_istream_from_buffer_def)
  have e: "varint_enc (unat (0xFFFFFFFFFFFFFFFE :: u64)) = [0xFE, 0xFF, 0xFF, 0xFF, 0xFF, 0xFF, 0xFF, 0xFF, 0xFF, 0x01]"
    by code_simp
  have "\<exists>st'. pb_decode_varint32 ?st = (Some (ucast (0xFFFFFFFFFFFFFFFE :: u64)), st') \<and>
      stream_ok buf_read (\<lambda>s. s) st' \<and> stream_view (\<lambda>s. s) st' = [0x09]"
    by (rule pb_decode_varint32_reads [OF buffer.byte_source_axioms ok])
      (simp_all only: e, simp_all add: stream_view_def pb_istream_from_buffer_def)
  then show ?thesis by auto
qed

lemma varint32_padding:
  assumes "byte_source cb src"
  shows "stream_ok cb src st \<Longrightarrow> stream_view src st = replicate n 0x80 @ rest \<Longrightarrow>
    \<exists>st1. stream_ok cb src st1 \<and> stream_view src st1 = rest \<and>
      varint32_loop r p st = varint32_loop r (p + 7 * word_of_nat n) st1"
proof (induction n arbitrary: st p)
  case (Suc n)
  have "stream_view src st = 0x80 # replicate n 0x80 @ rest" using Suc.prems(2) by simp
  from byte_source.pb_readbyte_ok [OF assms Suc.prems(1) this] obtain st1
    where st1: "pb_readbyte st = (Some 0x80, st1)" "stream_ok cb src st1"
      "stream_view src st1 = replicate n 0x80 @ rest" by blast
  have "varint32_loop r p st = varint32_loop r (p + 7) st1"
    by (subst varint32_loop.simps) (simp add: st1(1) Let_def)
  with Suc.IH [OF st1(2,3), of "p + 7"] show ?case by (simp add: algebra_simps)
qed auto



text \<open>
  The overflow checks are incomplete in three ways: bits of a fifth byte that is not the last are not
  checked; the position is kept in eight bits and wraps around after 37 bytes, so padding shifts the next
  group back into the result; and of a number above \<open>2 ^ 32\<close> with bit 31 set the last group is taken for a sign.
\<close>

lemma pb_decode_varint32_accepts_overflow:
  "fst (pb_decode_varint32 (pb_istream_from_buffer [0x80, 0x80, 0x80, 0x80, 0xC0, 0x00] 6)) = Some 0 \<and>
   group_val [0x80, 0x80, 0x80, 0x80, 0xC0, 0x00] = 2 ^ 34 \<and>
   fst (pb_decode_varint32 (pb_istream_from_buffer (replicate 37 0x80 @ [0x01]) 38)) = Some 8 \<and>
   fst (pb_decode_varint32 (pb_istream_from_buffer (varint_enc (2 ^ 63 + 2 ^ 31)) 10)) = Some 0x80000000"
proof (intro conjI)
  let ?st = "pb_istream_from_buffer (replicate 37 0x80 @ [0x01]) 38"
  have ok: "stream_ok buf_read (\<lambda>s. s) ?st" "stream_view (\<lambda>s. s) ?st = replicate 37 0x80 @ [0x01]"
    by (simp_all add: stream_ok_def stream_view_def pb_istream_from_buffer_def)
  have wrap: "(259 :: u8) = 3" by simp
  obtain st1 where st1: "stream_ok buf_read (\<lambda>s. s) st1" "stream_view (\<lambda>s. s) st1 = [0x01]"
      "varint32_loop 0 0 ?st = varint32_loop 0 3 st1"
    using varint32_padding [OF buffer.byte_source_axioms ok, of 0 0] wrap by auto
  obtain st2 where "pb_readbyte st1 = (Some 0x01, st2)"
    using buffer.pb_readbyte_ok [OF st1(1,2)] by blast
  then show "fst (pb_decode_varint32 ?st) = Some 8"
    by (simp add: pb_decode_varint32_loop st1(3) varint32_loop.simps [of 0 3] Let_def)
qed (simp_all add: varint_enc.simps pb_decode_varint32_loop pb_istream_from_buffer_def varint32_loop.simps
    pb_readbyte_def buf_read_def Let_def)

subsection \<open>Fields\<close>

text \<open>
  A field that the decoder does not know is passed over exactly: on the encoding of any
  field the tag decoder returns its number and wire type, and skipping a value of that wire type leaves
  the stream at the end of the field.
\<close>

theorem pb_skip_field_exact:
  assumes "byte_source cb src" "stream_ok cb src st" "field_ok (n, x)"
    and "stream_view src st = enc_field (n, x) @ rest"
  shows "\<exists>st1 st2. pb_decode_tag st = ((True, wire_type x, n, False), st1) \<and>
    pb_skip_field (wire_type x) st1 = (Some (), st2) \<and> stream_ok cb src st2 \<and> stream_view src st2 = rest"
proof -
  have "stream_view src st = enc_tag n x @ (enc_value x @ rest)" using assms(4) by simp
  from byte_source.pb_decode_tag_ok [OF assms(1,2) this] assms(3) obtain st1
    where "pb_decode_tag st = ((True, wire_type x, n, False), st1)" "stream_ok cb src st1"
      "stream_view src st1 = enc_value x @ rest" by auto
  with byte_source.pb_skip_value_ok [OF assms(1) _ _ assms(3)] show ?thesis by blast
qed

lemma pb_skip_field_exact_witness:
  "\<exists>st1 st2. pb_decode_tag (pb_istream_from_buffer [0x12, 0x02, 0x61, 0x62, 0x08] 5) = ((True, PB_WT_STRING, 2, False), st1) \<and>
    pb_skip_field PB_WT_STRING st1 = (Some (), st2) \<and> stream_view (\<lambda>s. s) st2 = [0x08]"
proof -
  have ok: "stream_ok buf_read (\<lambda>s. s) (pb_istream_from_buffer [0x12, 0x02, 0x61, 0x62, 0x08] 5)"
    by (simp add: stream_ok_def pb_istream_from_buffer_def)
  have v: "stream_view (\<lambda>s. s) (pb_istream_from_buffer [0x12, 0x02, 0x61, 0x62, 0x08] 5) =
      enc_field (2, Bytes [0x61, 0x62]) @ [0x08]"
    by (simp add: stream_view_def pb_istream_from_buffer_def enc_tag_def varint_enc.simps wire_types)
  show ?thesis
    using pb_skip_field_exact [OF buffer.byte_source_axioms ok _ v] by auto
qed

subsection \<open>Nested decoders\<close>

text \<open>
  The programs over the readers, which stop at the first failure. A submessage closes its substream
  whatever its decoder returned (\<open>pb_dec_submessage\<close>); a callback field leaves it as it is when the callback
  fails (\<open>decode_callback_field\<close>; the readers are those of all the calls of the callback).
\<close>

datatype pb_reader =
    R_read nat | R_skip nat | R_varint | R_varint32 | R_svarint | R_bool | R_fixed32 | R_fixed64
  | R_skip_field u32 | R_raw u32 nat
  | R_submessage "pb_reader list" | R_callback "pb_reader list"

definition done_by :: "('s istream, 'a) prog \<Rightarrow> ('s istream, unit) prog" where
  "done_by p = othen p (oret ())"

fun run_reader :: "pb_reader \<Rightarrow> ('s istream, unit) prog" and run_readers :: "pb_reader list \<Rightarrow> ('s istream, unit) prog" where
  "run_reader (R_read n) st = done_by (pb_read n) st"
| "run_reader (R_skip n) st = pb_read_null n st"
| "run_reader R_varint st = done_by pb_decode_varint st"
| "run_reader R_varint32 st = done_by pb_decode_varint32 st"
| "run_reader R_svarint st = done_by pb_decode_svarint st"
| "run_reader R_bool st = done_by pb_decode_bool st"
| "run_reader R_fixed32 st = done_by pb_decode_fixed32 st"
| "run_reader R_fixed64 st = done_by pb_decode_fixed64 st"
| "run_reader (R_skip_field wt) st = pb_skip_field wt st"
| "run_reader (R_raw wt n) st = done_by (read_raw_value wt n) st"
| "run_reader (R_submessage rs) st =
     (case pb_make_string_substream st of
        (None, st1) \<Rightarrow> (None, st1)
      | (Some sub, st1) \<Rightarrow>
          (case run_readers rs sub of
             (status, sub') \<Rightarrow>
               (case pb_close_string_substream sub' st1 of
                  (None, st2) \<Rightarrow> (None, st2)
                | (Some _, st2) \<Rightarrow> (status, st2))))"
| "run_reader (R_callback rs) st =
     (case pb_make_string_substream st of
        (None, st1) \<Rightarrow> (None, st1)
      | (Some sub, st1) \<Rightarrow>
          (case run_readers rs sub of
             (None, _) \<Rightarrow> is_error ''callback failed'' st1
           | (Some _, sub') \<Rightarrow> pb_close_string_substream sub' st1))"
| "run_readers [] st = (Some (), st)"
| "run_readers (r # rs) st =
     (case run_reader r st of (None, st1) \<Rightarrow> (None, st1) | (Some _, st1) \<Rightarrow> run_readers rs st1)"

fun has_callback :: "pb_reader \<Rightarrow> bool" where
  "has_callback (R_submessage rs) \<longleftrightarrow> (\<exists>r\<in>set rs. has_callback r)"
| "has_callback (R_callback rs) \<longleftrightarrow> True"
| "has_callback _ \<longleftrightarrow> False"

context byte_source
begin

lemma done_by_consumes: "consumes p \<Longrightarrow> consumes (done_by p)"
  unfolding done_by_def by (intro stream_ops)

text \<open>A substream and its parent, before and after closing.\<close>

lemma make_substream:
  assumes "ok st" "pb_make_string_substream st = (r, st1)"
  shows "if r = None then stream_after src st st1
    else \<exists>st0 n. stream_after src st st0 \<and> n \<le> is_bytes_left st0 \<and> r = Some (st0\<lparr>is_bytes_left := n\<rparr>) \<and>
      st1 = st0\<lparr>is_bytes_left := is_bytes_left st0 - n\<rparr>"
proof -
  obtain x st0 where x: "pb_decode_varint32 st = (x, st0)" by (metis prod.collapse)
  have a: "stream_after src st st0" by (rule stream_opD [OF pb_decode_varint32_consumes assms(1) x])
  show ?thesis
    using assms(2) x a stream_after_trans [OF a is_error_after]
    by (cases x) (auto simp: pb_make_string_substream_def obind_def is_error_def not_less split: if_splits)
qed

lemma close_substream:
  assumes "ok st0" "n \<le> is_bytes_left st0" "stream_after src (st0\<lparr>is_bytes_left := n\<rparr>) sub"
  shows "\<exists>st2. pb_close_string_substream sub (st0\<lparr>is_bytes_left := is_bytes_left st0 - n\<rparr>) = (Some (), st2) \<and>
    stream_after src st0 st2"
proof -
  have left: "is_bytes_left sub \<le> n" "src (is_state sub) = drop (n - is_bytes_left sub) (src (is_state st0))"
    using assms(3) by (simp_all add: stream_after_def)
  have "ok (st0\<lparr>is_bytes_left := n\<rparr>)" using assms(1,2) by (simp add: stream_ok_def)
  note sub = stream_after_ok [OF this assms(3)]
  have "\<exists>e. (if is_bytes_left sub \<noteq> 0 then pb_read_null (is_bytes_left sub) sub else (Some (), sub)) = (Some (), e) \<and>
      src (is_state e) = drop n (src (is_state st0))"
    using pb_read_null_ok [OF sub order_refl] left by auto
  then obtain e where e: "(if is_bytes_left sub \<noteq> 0 then pb_read_null (is_bytes_left sub) sub else (Some (), sub)) = (Some (), e)"
    "src (is_state e) = drop n (src (is_state st0))" by blast
  then show ?thesis using assms(2) by (simp add: pb_close_string_substream_def stream_after_def)
qed

text \<open>A program that succeeds, or that has no callback field, only consumes.\<close>

lemma run_readers_consume:
  "ok st \<Longrightarrow> run_reader r st = (x, st') \<Longrightarrow> x \<noteq> None \<or> \<not> has_callback r \<Longrightarrow> stream_after src st st'"
  "ok st \<Longrightarrow> run_readers rs st = (x, st') \<Longrightarrow> x \<noteq> None \<or> (\<forall>r\<in>set rs. \<not> has_callback r) \<Longrightarrow> stream_after src st st'"
proof (induction r st and rs st arbitrary: x st' and x st' rule: run_reader_run_readers.induct)
  case (11 rs st)
  obtain y st1 where make: "pb_make_string_substream st = (y, st1)" by (metis prod.collapse)
  note m = make_substream [OF "11.prems"(1) make]
  show ?case
  proof (cases y)
    case None
    then show ?thesis using m "11.prems"(2) make by simp
  next
    case (Some sub)
    with m obtain st0 n where s: "stream_after src st st0" "n \<le> is_bytes_left st0" "sub = st0\<lparr>is_bytes_left := n\<rparr>"
      "st1 = st0\<lparr>is_bytes_left := is_bytes_left st0 - n\<rparr>" by auto
    have ok0: "ok st0" by (rule stream_after_ok [OF "11.prems"(1) s(1)])
    then have ok_sub: "ok sub" using s(2,3) by (simp add: stream_ok_def)
    obtain status sub' where run: "run_readers rs sub = (status, sub')" by (metis prod.collapse)
    have "status \<noteq> None \<or> (\<forall>r\<in>set rs. \<not> has_callback r)"
      using "11.prems"(2,3) make Some run by (auto split: prod.splits option.splits)
    from "11.IH" [OF make [symmetric] Some ok_sub run this] have "stream_after src (st0\<lparr>is_bytes_left := n\<rparr>) sub'"
      unfolding s(3) .
    from close_substream [OF ok0 s(2) this] obtain st2 where "pb_close_string_substream sub' st1 = (Some (), st2)"
      "stream_after src st0 st2" unfolding s(4) by blast
    moreover from this have "st' = st2" using "11.prems"(2) make Some run by simp
    ultimately show ?thesis using stream_after_trans [OF s(1)] by blast
  qed
next
  case (12 rs st)
  obtain y st1 where make: "pb_make_string_substream st = (y, st1)" by (metis prod.collapse)
  note m = make_substream [OF "12.prems"(1) make]
  show ?case
  proof (cases y)
    case None
    then show ?thesis using m "12.prems"(2) make by simp
  next
    case (Some sub)
    with m obtain st0 n where s: "stream_after src st st0" "n \<le> is_bytes_left st0" "sub = st0\<lparr>is_bytes_left := n\<rparr>"
      "st1 = st0\<lparr>is_bytes_left := is_bytes_left st0 - n\<rparr>" by auto
    have ok0: "ok st0" by (rule stream_after_ok [OF "12.prems"(1) s(1)])
    then have ok_sub: "ok sub" using s(2,3) by (simp add: stream_ok_def)
    obtain status sub' where run: "run_readers rs sub = (status, sub')" by (metis prod.collapse)
    have "x \<noteq> None" using "12.prems"(3) by simp
    then have ran: "status \<noteq> None" and closed: "pb_close_string_substream sub' st1 = (x, st')"
      using "12.prems"(2) make Some run by (auto simp: is_error_def split: option.splits)
    from "12.IH" [OF make [symmetric] Some ok_sub run] ran have "stream_after src (st0\<lparr>is_bytes_left := n\<rparr>) sub'"
      unfolding s(3) by blast
    from close_substream [OF ok0 s(2) this] closed show ?thesis
      unfolding s(4) using stream_after_trans [OF s(1)] by auto
  qed
next
  case (14 r rs st)
  obtain y st1 where y: "run_reader r st = (y, st1)" by (metis prod.collapse)
  show ?case
  proof (cases y)
    case None
    with "14.prems" y "14.IH"(1) [OF "14.prems"(1) y] show ?thesis by auto
  next
    case (Some u)
    then have a: "stream_after src st st1" using "14.IH"(1) [OF "14.prems"(1) y] by simp
    have "run_readers rs st1 = (x, st')" using "14.prems"(2) y Some by simp
    from "14.IH"(2) [OF y [symmetric] Some stream_after_ok [OF "14.prems"(1) a] this] "14.prems"(3)
    show ?thesis using stream_after_trans [OF a] by auto
  qed
qed (auto intro: stream_opD [rotated 2] stream_opD [OF done_by_consumes, rotated 2] stream_ops)

end



subsection \<open>Zigzag numbers\<close>

lemma zigzag_value:
  "unat (if sint v < 0 then NOT (push_bit 1 v) else push_bit 1 v) =
    nat (if sint v < 0 then - 2 * sint v - 1 else 2 * sint (v :: u64))"
proof -
  have p: "push_bit 1 v = word_of_int (2 * sint v)"
    by (simp add: push_bit_eq_mult)
  have n: "NOT (push_bit 1 v) = word_of_int (- 2 * sint v - 1)"
    by (simp add: p not_eq_complement)
  have r: "- (2 ^ 63) \<le> sint v" "sint v < 2 ^ 63"
    using sint_greater_eq [of v] sint_less [of v] by simp_all
  have w: "unat (word_of_int k :: u64) = nat k" if "0 \<le> k" "k < 2 ^ 64" for k
    using that by (simp add: unsigned_of_int take_bit_int_eq_self)
  have "unat (word_of_int (- 2 * sint v - 1) :: u64) = nat (- 2 * sint v - 1)" if "sint v < 0"
    by (rule w) (use r that in simp_all)
  moreover have "unat (word_of_int (2 * sint v) :: u64) = nat (2 * sint v)" if "\<not> sint v < 0"
    by (rule w) (use r that in simp_all)
  ultimately show ?thesis by (cases "sint v < 0") (simp_all only: n if_True if_False simp_thms, simp_all only: p)
qed

lemma zigzag_inverse:
  defines "z v \<equiv> (if sint v < 0 then NOT (push_bit 1 v) else push_bit 1 (v :: u64))"
  shows "(if z v AND 1 \<noteq> 0 then NOT (drop_bit 1 (z v)) else drop_bit 1 (z v)) = v"
proof -
  have s: "sint v < 0 \<longleftrightarrow> bit v 63" using bit_last_iff [of v] by simp
  note bits = bit_not_iff bit_drop_bit_eq o_apply bit_push_bit_iff possible_bit_word
  have o: "w AND 1 \<noteq> 0 \<longleftrightarrow> bit w 0" for w :: u64
    by (simp add: and_one_eq bit_0 odd_iff_mod_2_eq_one)
  show ?thesis
  proof (cases "sint v < 0")
    case True
    have "NOT (drop_bit 1 (NOT (push_bit 1 v))) = v"
    proof (rule bit_word_eqI)
      fix n
      assume "n < LENGTH(64)"
      then have "n = 63 \<or> n < 63" by auto
      then show "bit (NOT (drop_bit 1 (NOT (push_bit 1 v)))) n = bit v n"
        using True s by (simp only: bits) auto
    qed
    moreover have "bit (NOT (push_bit 1 v)) 0" by (simp only: bits) simp
    ultimately show ?thesis using True by (simp only: z_def o if_True if_P)
  next
    case False
    have "drop_bit 1 (push_bit 1 v) = v"
    proof (rule bit_word_eqI)
      fix n
      assume "n < LENGTH(64)"
      then have "n = 63 \<or> n < 63" by auto
      then show "bit (drop_bit 1 (push_bit 1 v)) n = bit v n"
        using False s by (simp only: bits) auto
    qed
    moreover have "\<not> bit (push_bit 1 v) 0" by (simp only: bits) simp
    ultimately show ?thesis using False by (simp only: z_def o if_False if_not_P)
  qed
qed

text \<open>
  Signed fields: a number is written as the varint of its zigzag code, twice the number or
  one less than twice its absolute value, so that small negative numbers are short, and the decoder
  gives the number back and stops behind it, for all 64-bit values.
\<close>

theorem pb_svarint_roundtrip:
  assumes "byte_source cb src" "stream_ok cb src st"
    and "z = nat (if sint v < 0 then - 2 * sint v - 1 else 2 * sint v)"
    and "stream_view src st = varint_enc z @ rest"
  shows "pb_encode_svarint v = pb_write (varint_enc z) (length (varint_enc z)) \<and>
    (\<exists>st'. pb_decode_svarint st = (Some v, st') \<and> stream_ok cb src st' \<and> stream_view src st' = rest)"
proof
  let ?z = "if sint v < 0 then NOT (push_bit 1 v) else push_bit 1 v"
  have z: "unat ?z = z" unfolding assms(3) by (rule zigzag_value)
  show "pb_encode_svarint v = pb_write (varint_enc z) (length (varint_enc z))"
    unfolding pb_encode_svarint_def Let_def pb_encode_varint_eq z by (rule refl)
  have "unat ?z < 2 ^ LENGTH(64)" by (rule unsigned_less)
  then have "z < 128 ^ Suc 9" unfolding z by simp
  then have len: "length (varint_enc z) \<le> 10" using length_varint_enc [of z 9] by simp
  have e: "is_varint (varint_enc z)" "group_val (varint_enc z) = z" using varint_enc_is_varint [of z] by simp_all
  have w: "(word_of_nat z :: u64) = ?z" unfolding z [symmetric] by (rule word_of_nat_unat)
  show "\<exists>st'. pb_decode_svarint st = (Some v, st') \<and> stream_ok cb src st' \<and> stream_view src st' = rest"
    using byte_source.pb_decode_varint_ok [OF assms(1) e(1) len assms(2,4)] zigzag_inverse [of v]
    unfolding e(2) w by (auto simp: pb_decode_svarint_def oret_def)
qed

lemma pb_svarint_roundtrip_witness:
  "\<exists>st'. pb_decode_svarint (pb_istream_from_buffer [0x03, 0x05] 2) = (Some (- 2), st') \<and> stream_view (\<lambda>s. s) st' = [0x05]"
proof -
  have ok: "stream_ok buf_read (\<lambda>s. s) (pb_istream_from_buffer [0x03, 0x05] 2)"
    by (simp add: stream_ok_def pb_istream_from_buffer_def)
  have "sint (- 2 :: u64) = - 2" by code_simp
  then have z: "3 = nat (if sint (- 2 :: u64) < 0 then - 2 * sint (- 2 :: u64) - 1 else 2 * sint (- 2 :: u64))" by simp
  have v: "stream_view (\<lambda>s. s) (pb_istream_from_buffer [0x03, 0x05] 2) = varint_enc 3 @ [0x05]"
    by (simp add: stream_view_def pb_istream_from_buffer_def varint_enc.simps)
  show ?thesis using pb_svarint_roundtrip [OF buffer.byte_source_axioms ok z v] by blast
qed

subsection \<open>Messages of fields\<close>

text \<open>
  Sizing is exact and writing stays inside the buffer: a sizing stream counts the length of
  the encoding of a list of fields, writing the fields to a buffer succeeds exactly when they fit in the
  size that was given for it, on success the buffer starts with their encoding, and bytes behind that
  size are never touched, on failure either.
\<close>

theorem pb_sizing_exact:
  assumes "\<forall>f\<in>set fs. field_ok f" "total_len = length (concat (map enc_field fs))" "total_len < size_mod"
    and "n \<le> length block" "n < size_mod"
  shows "(\<exists>st. write_fields fs (PB_OSTREAM_SIZING (s :: 's)) = (Some (), st) \<and> os_bytes_written st = total_len) \<and>
    (\<exists>r st. write_fields fs (pb_ostream_from_buffer block n) = (r, st) \<and>
      (r \<noteq> None \<longleftrightarrow> total_len \<le> n) \<and> drop n (fst (os_state st)) = drop n block \<and>
      (r \<noteq> None \<longrightarrow> os_bytes_written st = total_len \<and>
        fst (os_state st) = concat (map enc_field fs) @ drop total_len block))"
proof
  obtain ps where ps: "(write_fields fs :: ('s ostream, unit) prog) = put_all put_bytes ps"
    "concat ps = concat (map enc_field fs)" using write_fields_pieces [OF assms(1)] by blast
  show "\<exists>st. write_fields fs (PB_OSTREAM_SIZING (s :: 's)) = (Some (), st) \<and> os_bytes_written st = total_len"
    using put_all_sizing [of "PB_OSTREAM_SIZING s" ps] assms(2,3) ps by (simp add: PB_OSTREAM_SIZING_def)
next
  obtain ps where ps: "(write_fields fs :: ((u8 list \<times> nat) ostream, unit) prog) = put_all put_bytes ps"
    "concat ps = concat (map enc_field fs)" using write_fields_pieces [OF assms(1)] by blast
  let ?st = "pb_ostream_from_buffer block n"
  have ok: "out_ok block n ?st" by (rule out_ok_from_buffer [OF assms(4,5)])
  have z: "os_bytes_written ?st = 0" "out_bytes ?st = []" by (simp_all add: pb_ostream_from_buffer_def out_bytes_def)
  obtain r st where run: "write_fields fs ?st = (r, st)" by (metis prod.collapse)
  have safe: "out_ok block n st" "n < total_len \<Longrightarrow> r = None"
    using put_all_safe [OF ok, of ps] assms(2,3) ps run z by auto
  have fits: "r = Some () \<and> out_bytes st = concat ps" if "total_len \<le> n"
    using put_all_fits [OF ok, of ps] assms(2) ps run z that by auto
  have d: "drop n (fst (os_state st)) = drop n block"
  proof -
    have "drop n xs = drop (n - os_bytes_written st) (drop (os_bytes_written st) xs)" for xs :: "u8 list"
      using safe(1) by (simp add: out_ok_def)
    then show ?thesis using safe(1) by (simp only: out_ok_def)
  qed
  have "os_bytes_written st = total_len \<and> fst (os_state st) = concat (map enc_field fs) @ drop total_len block"
    if "r \<noteq> None"
  proof -
    have "total_len \<le> n" using safe(2) that by fastforce
    then have o: "out_bytes st = concat ps" using fits by simp
    then have l: "os_bytes_written st = total_len" using length_out_bytes [OF safe(1)] ps(2) assms(2) by simp
    have "fst (os_state st) = out_bytes st @ drop (os_bytes_written st) block"
      using safe(1) by (metis append_take_drop_id out_bytes_def out_ok_def)
    then show ?thesis using o l ps(2) by simp
  qed
  moreover have "r \<noteq> None \<longleftrightarrow> total_len \<le> n" using safe(2) fits by fastforce
  ultimately show "\<exists>r st. write_fields fs ?st = (r, st) \<and>
      (r \<noteq> None \<longleftrightarrow> total_len \<le> n) \<and> drop n (fst (os_state st)) = drop n block \<and>
      (r \<noteq> None \<longrightarrow> os_bytes_written st = total_len \<and>
        fst (os_state st) = concat (map enc_field fs) @ drop total_len block)"
    using run d by blast
qed

lemma pb_sizing_exact_witness:
  "\<exists>r st. write_fields [(1, Fixed32 7), (2, Bytes [0x61])] (pb_ostream_from_buffer (replicate 9 0xFF) 8) = (r, st) \<and>
    r \<noteq> None \<and> fst (os_state st) = [0x0D, 7, 0, 0, 0, 0x12, 1, 0x61, 0xFF]"
proof -
  let ?fs = "[(1, Fixed32 7), (2, Bytes [0x61])]"
  have e: "concat (map enc_field ?fs) = [0x0D, 7, 0, 0, 0, 0x12, 1, 0x61]"
    by (simp add: enc_tag_def varint_enc.simps wire_types fixed32_enc_def upt_rec drop_bit_eq_div)
  have "\<forall>f\<in>set ?fs. field_ok f" "8 = length (concat (map enc_field ?fs))" "(8::nat) < size_mod"
    "8 \<le> length (replicate 9 (0xFF :: u8))"
    by (simp_all only: e) simp_all
  from conjunct2 [OF pb_sizing_exact [OF this(1,2,3,4,3)]] obtain r st
    where r: "write_fields ?fs (pb_ostream_from_buffer (replicate 9 0xFF) 8) = (r, st)"
      and i: "r \<noteq> None \<longleftrightarrow> 8 \<le> (8 :: nat)"
      and t: "r \<noteq> None \<longrightarrow> os_bytes_written st = 8 \<and>
        fst (os_state st) = concat (map enc_field ?fs) @ drop 8 (replicate 9 (0xFF :: u8))"
    by (elim exE conjE) (rule that)
  have n: "r \<noteq> None" using i by simp
  have b: "fst (os_state st) = concat (map enc_field ?fs) @ drop 8 (replicate 9 (0xFF :: u8))"
    using mp [OF t n] by (rule conjunct2)
  have "fst (os_state st) = [0x0D, 7, 0, 0, 0, 0x12, 1, 0x61, 0xFF]"
    unfolding b e by simp
  with r n show ?thesis by (intro exI conjI)
qed

text \<open>
  Property C37. What was written can be read: after a list of fields has been written to a buffer, reading
  fields from the bytes written until none is left gives the same numbers and values in the same order.
\<close>

theorem pb_fields_roundtrip:
  assumes "\<forall>f\<in>set fs. field_ok f" "length (concat (map enc_field fs)) \<le> n" "n \<le> length block" "n < size_mod"
  shows "\<exists>st st'. write_fields fs (pb_ostream_from_buffer block n) = (Some (), st) \<and>
    read_list (\<lambda>st. is_bytes_left st = 0) read_field (length fs)
      (pb_istream_from_buffer (fst (os_state st)) (os_bytes_written st)) = (Some fs, st')"
proof -
  obtain ps where ps: "(write_fields fs :: ((u8 list \<times> nat) ostream, unit) prog) = put_all put_bytes ps"
    "concat ps = concat (map enc_field fs)" using write_fields_pieces [OF assms(1)] by blast
  have ok: "out_ok block n (pb_ostream_from_buffer block n)" by (rule out_ok_from_buffer [OF assms(3,4)])
  from put_all_fits [OF ok, of ps] assms(2) ps obtain st
    where st: "write_fields fs (pb_ostream_from_buffer block n) = (Some (), st)" "out_ok block n st"
      "out_bytes st = concat (map enc_field fs)"
    by (auto simp: pb_ostream_from_buffer_def out_bytes_def)
  let ?in = "pb_istream_from_buffer (fst (os_state st)) (os_bytes_written st)"
  have in_ok: "stream_ok buf_read (\<lambda>s. s) ?in" "stream_view (\<lambda>s. s) ?in = concat (map enc_field fs)"
    using st(2,3) by (auto simp: stream_ok_def stream_view_def pb_istream_from_buffer_def out_ok_def out_bytes_def)
  have fin: "is_bytes_left s = 0 \<longleftrightarrow> stream_view (\<lambda>s. s) s = []" if "stream_ok buf_read (\<lambda>s. s) s" for s
    using buffer.length_stream [OF that] by (metis length_0_conv)
  from wire.read_list_concat [OF fin in_ok(1) assms(1) in_ok(2) order_refl] st(1) show ?thesis by blast
qed

lemma pb_fields_roundtrip_witness:
  "\<exists>st st'. write_fields [(1, Varint 300), (3, Fixed64 1)] (pb_ostream_from_buffer (replicate 20 0) 20) = (Some (), st) \<and>
    read_list (\<lambda>st. is_bytes_left st = 0) read_field 2
      (pb_istream_from_buffer (fst (os_state st)) (os_bytes_written st)) = (Some [(1, Varint 300), (3, Fixed64 1)], st')"
proof -
  have "length (concat (map enc_field [(1, Varint 300), (3, Fixed64 1)])) \<le> 20"
    by (simp add: enc_tag_def varint_enc.simps wire_types)
  then have "\<exists>st st'. write_fields [(1, Varint 300), (3, Fixed64 1)] (pb_ostream_from_buffer (replicate 20 0) 20) = (Some (), st) \<and>
      read_list (\<lambda>st. is_bytes_left st = 0) read_field (length [(1 :: u32, Varint 300), (3, Fixed64 1)])
        (pb_istream_from_buffer (fst (os_state st)) (os_bytes_written st)) = (Some [(1, Varint 300), (3, Fixed64 1)], st')"
    by (intro pb_fields_roundtrip) simp_all
  moreover have "length [(1 :: u32, Varint 300), (3, Fixed64 1)] = 2" by simp
  ultimately show ?thesis by (simp only:)
qed

end
