(* ===== verification/LDB_Coding.thy ===== *)
theory LDB_Coding
  imports Mem Varint
begin

text \<open>
  The number and string encodings of LevelDB (\<open>src/TWTW/Pods/leveldb-library/util/coding.cc\<close>,
  \<open>coding.h\<close>). A slice, and a pair of pointers \<open>p\<close> and \<open>limit\<close>, is the list of the bytes between; a
  \<open>std::string\<close> is the list of its bytes. The machine is little-endian, where the code copies the
  number as it lies in memory.
\<close>

type_synonym slice = "u8 list"

subsection \<open>Encoding\<close>

definition EncodeFixed32 :: "u32 \<Rightarrow> u8 list" where
  "EncodeFixed32 value =
     [ucast (value AND 0xFF), ucast (drop_bit 8 value AND 0xFF), ucast (drop_bit 16 value AND 0xFF),
      ucast (drop_bit 24 value AND 0xFF)]"

definition EncodeFixed64 :: "u64 \<Rightarrow> u8 list" where
  "EncodeFixed64 value =
     [ucast (value AND 0xFF), ucast (drop_bit 8 value AND 0xFF), ucast (drop_bit 16 value AND 0xFF),
      ucast (drop_bit 24 value AND 0xFF), ucast (drop_bit 32 value AND 0xFF), ucast (drop_bit 40 value AND 0xFF),
      ucast (drop_bit 48 value AND 0xFF), ucast (drop_bit 56 value AND 0xFF)]"

definition PutFixed32 :: "u8 list \<Rightarrow> u32 \<Rightarrow> u8 list" where
  "PutFixed32 dst value = dst @ EncodeFixed32 value"

definition PutFixed64 :: "u8 list \<Rightarrow> u64 \<Rightarrow> u8 list" where
  "PutFixed64 dst value = dst @ EncodeFixed64 value"

definition EncodeVarint32 :: "u32 \<Rightarrow> u8 list" where
  "EncodeVarint32 v =
     (if v < 2 ^ 7 then [ucast v]
      else if v < 2 ^ 14 then [ucast (v OR 128), ucast (drop_bit 7 v)]
      else if v < 2 ^ 21 then [ucast (v OR 128), ucast (drop_bit 7 v OR 128), ucast (drop_bit 14 v)]
      else if v < 2 ^ 28 then
        [ucast (v OR 128), ucast (drop_bit 7 v OR 128), ucast (drop_bit 14 v OR 128), ucast (drop_bit 21 v)]
      else
        [ucast (v OR 128), ucast (drop_bit 7 v OR 128), ucast (drop_bit 14 v OR 128), ucast (drop_bit 21 v OR 128),
         ucast (drop_bit 28 v)])"

definition PutVarint32 :: "u8 list \<Rightarrow> u32 \<Rightarrow> u8 list" where
  "PutVarint32 dst v = dst @ EncodeVarint32 v"

lemma drop_bit_7_less: "128 \<le> v \<Longrightarrow> unat (drop_bit 7 (v :: u64)) < unat v"
proof -
  assume "128 \<le> v"
  then have "128 \<le> unat v" by (simp add: word_le_nat_alt)
  then show ?thesis by (simp add: unat_drop_bit)
qed

function EncodeVarint64 :: "u64 \<Rightarrow> u8 list" where
  "EncodeVarint64 v = (if 128 \<le> v then ucast (v OR 128) # EncodeVarint64 (drop_bit 7 v) else [ucast v])"
  by pat_completeness auto
termination
  by (relation "measure unat") (simp_all add: drop_bit_7_less)

declare EncodeVarint64.simps [simp del]

definition PutVarint64 :: "u8 list \<Rightarrow> u64 \<Rightarrow> u8 list" where
  "PutVarint64 dst v = dst @ EncodeVarint64 v"

text \<open>\<open>PutLengthPrefixedSlice\<close> passes the size on as 32 bits.\<close>

definition PutLengthPrefixedSlice :: "u8 list \<Rightarrow> slice \<Rightarrow> u8 list" where
  "PutLengthPrefixedSlice dst value = PutVarint32 dst (word_of_nat (length value)) @ value"

function VarintLength :: "u64 \<Rightarrow> nat" where
  "VarintLength v = (if 128 \<le> v then Suc (VarintLength (drop_bit 7 v)) else 1)"
  by pat_completeness auto
termination
  by (relation "measure unat") (simp_all add: drop_bit_7_less)

declare VarintLength.simps [simp del]

subsection \<open>Decoding\<close>

definition DecodeFixed32 :: "u8 list \<Rightarrow> u32" where
  "DecodeFixed32 ptr =
     ucast (ptr ! 0) OR push_bit 8 (ucast (ptr ! 1)) OR push_bit 16 (ucast (ptr ! 2)) OR push_bit 24 (ucast (ptr ! 3))"

definition DecodeFixed64 :: "u8 list \<Rightarrow> u64" where
  "DecodeFixed64 ptr =
     (let lo = ucast (DecodeFixed32 ptr); hi = ucast (DecodeFixed32 (drop 4 ptr)) in push_bit 32 hi OR lo)"

text \<open>The pointer-based readers return the value and the bytes behind it, or nothing for a null pointer.\<close>

fun varint_ptr_loop :: "nat \<Rightarrow> 'a::len word \<Rightarrow> nat \<Rightarrow> slice \<Rightarrow> ('a word \<times> slice) option" where
  "varint_ptr_loop last_shift result shift [] = None"
| "varint_ptr_loop last_shift result shift (byte # p) =
     (if last_shift < shift then None
      else if byte AND 128 \<noteq> 0
      then varint_ptr_loop last_shift (result OR push_bit shift (ucast (byte AND 127))) (shift + 7) p
      else Some (result OR push_bit shift (ucast byte), p))"

definition GetVarint32PtrFallback :: "slice \<Rightarrow> (u32 \<times> slice) option" where
  "GetVarint32PtrFallback p = varint_ptr_loop 28 0 0 p"

definition GetVarint32Ptr :: "slice \<Rightarrow> (u32 \<times> slice) option" where
  "GetVarint32Ptr p =
     (case p of
        [] \<Rightarrow> GetVarint32PtrFallback p
      | b # q \<Rightarrow> if b AND 128 = 0 then Some (ucast b, q) else GetVarint32PtrFallback p)"

definition GetVarint32 :: "(slice, u32) prog" where
  "GetVarint32 input = (case GetVarint32Ptr input of None \<Rightarrow> (None, input) | Some (v, q) \<Rightarrow> (Some v, q))"

definition GetVarint64Ptr :: "slice \<Rightarrow> (u64 \<times> slice) option" where
  "GetVarint64Ptr p = varint_ptr_loop 63 0 0 p"

definition GetVarint64 :: "(slice, u64) prog" where
  "GetVarint64 input = (case GetVarint64Ptr input of None \<Rightarrow> (None, input) | Some (v, q) \<Rightarrow> (Some v, q))"

definition GetLengthPrefixedSlicePtr :: "slice \<Rightarrow> (slice \<times> slice) option" where
  "GetLengthPrefixedSlicePtr p =
     (case GetVarint32Ptr p of
        None \<Rightarrow> None
      | Some (len, q) \<Rightarrow> if length q < unat len then None else Some (take (unat len) q, drop (unat len) q))"

definition GetLengthPrefixedSlice :: "(slice, slice) prog" where
  "GetLengthPrefixedSlice =
     obind GetVarint32 (\<lambda>len input.
       if unat len \<le> length input then (Some (take (unat len) input), drop (unat len) input) else (None, input))"

subsection \<open>The encoders write varints\<close>

lemma or_128: "(ucast (v OR 128 :: 'a::len word) :: u8) = word_of_nat (unat v mod 128 + 128)"
  if "8 \<le> LENGTH('a)"
proof -
  have p: "push_bit 7 (1 :: u8) = 128" by (simp add: push_bit_eq_mult)
  have a: "(word_of_nat (unat v mod 128) :: u8) OR push_bit 7 (word_of_nat 1) = word_of_nat (unat v mod 128 + 1 * 2 ^ 7)"
    by (rule or_shift) simp
  have "(ucast (v OR 128) :: u8) = ucast v OR 128"
    by (rule bit_word_eqI) (use that in \<open>auto simp: bit_simps\<close>)
  also have "\<dots> = word_of_nat (unat v mod 128) OR 128"
  proof (rule bit_word_eqI)
    fix n
    assume n: "n < LENGTH(8)"
    have "bit (unat v mod 128) n \<longleftrightarrow> n < 7 \<and> bit (unat v) n"
      using bit_take_bit_iff [of 7 "unat v" n] by (simp add: take_bit_eq_mod)
    moreover have "bit (128 :: u8) n \<longleftrightarrow> n = 7"
      unfolding p [symmetric] using n by (simp only: bit_push_bit_iff bit_1_iff possible_bit_word) auto
    moreover have "bit (ucast v :: u8) n = bit (unat v) n" "bit (word_of_nat (unat v mod 128) :: u8) n = bit (unat v mod 128) n"
      using n that by (simp_all add: bit_unsigned_iff bit_of_nat_iff possible_bit_word)
    ultimately show "bit (ucast v OR 128 :: u8) n = bit (word_of_nat (unat v mod 128) OR 128 :: u8) n"
      unfolding bit_or_iff using n by auto
  qed
  finally show ?thesis using a p by simp
qed

lemma ucast_word_nat: "(ucast (v :: 'a::len word) :: 'b::len word) = word_of_nat (unat v)"
  by (simp add: unsigned_of_nat)

lemma EncodeVarint64_eq: "EncodeVarint64 v = varint_enc (unat v)"
proof (induction v rule: EncodeVarint64.induct)
  case (1 v)
  show ?case
  proof (cases "128 \<le> v")
    case True
    then have "\<not> unat v < 128" by (simp add: word_le_nat_alt)
    with True "1.IH" show ?thesis
      by (simp add: EncodeVarint64.simps [of v] varint_enc.simps [of "unat v"] or_128 unat_drop_bit)
  next
    case False
    then have "unat v < 128" by (simp add: word_le_nat_alt)
    with False show ?thesis
      by (simp add: EncodeVarint64.simps [of v] varint_enc.simps [of "unat v"])
  qed
qed

lemma VarintLength_eq: "VarintLength v = length (varint_enc (unat v))"
proof (induction v rule: VarintLength.induct)
  case (1 v)
  then show ?case
    by (cases "128 \<le> v") (simp_all add: VarintLength.simps [of v] varint_enc.simps [of "unat v"]
        word_le_nat_alt unat_drop_bit)
qed

lemma EncodeVarint32_eq: "EncodeVarint32 v = varint_enc (unat v)"
proof -
  have l: "v < 128 \<longleftrightarrow> unat v < 128" "v < 16384 \<longleftrightarrow> unat v < 16384" "v < 2097152 \<longleftrightarrow> unat v < 2097152"
    "v < 268435456 \<longleftrightarrow> unat v < 268435456" by (simp_all add: word_less_nat_alt)
  have c: "(ucast (drop_bit k v) :: u8) = word_of_nat (unat v div 2 ^ k)" for k
    by (simp only: ucast_word_nat unat_drop_bit)
  note cs = c [of 7, simplified] c [of 14, simplified] c [of 21, simplified] c [of 28, simplified]
  have d: "unat v div 128 div 128 = unat v div 16384" "unat v div 16384 div 128 = unat v div 2097152"
    "unat v div 2097152 div 128 = unat v div 268435456" by (simp_all add: div_mult2_eq [symmetric])
  have "unat v < 2 ^ LENGTH(32)" by (rule unsigned_less)
  then have m: "unat v div 268435456 < 128" by simp
  show ?thesis
    using m by (simp add: EncodeVarint32_def l varint_enc.simps or_128 unat_drop_bit d less_mult_imp_div_less
        div_less_iff_less_mult cs)
qed

subsection \<open>The decoders read them\<close>

lemma varint_ptr_loop_ok:
  "is_varint bs \<Longrightarrow> k + length bs \<le> Suc K \<Longrightarrow> a < 2 ^ (7 * k) \<Longrightarrow>
    varint_ptr_loop (7 * K) (word_of_nat a) (7 * k) (bs @ rest) =
      Some (word_of_nat (a + group_val bs * 2 ^ (7 * k)) :: 'a::len word, rest)"
proof (induction bs arbitrary: k a)
  case (Cons b bs)
  let ?a = "a + unat b mod 128 * 2 ^ (7 * k)"
  have lt: "\<not> 7 * K < 7 * k" using Cons.prems(2) by simp
  have t: "b AND 128 = 0 \<longleftrightarrow> unat b < 128" using top_bit [of b] by simp
  have nxt: "7 * k + 7 = 7 * Suc k" by simp
  have acc: "(word_of_nat a :: 'a word) OR push_bit (7 * k) (ucast (b AND 127)) = word_of_nat ?a"
    unfolding group_word by (rule or_shift [OF Cons.prems(3)])
  show ?case
  proof (cases "bs = []")
    case True
    then have b: "b AND 128 = 0" using Cons.prems(1) t by simp
    then have "ucast b = (ucast (b AND 127) :: 'a word)" by (intro low_byte [symmetric])
    with acc lt b True show ?thesis by simp
  next
    case False
    then have b: "b AND 128 \<noteq> 0" "is_varint bs" using Cons.prems(1) t by (simp_all add: is_varint_Cons)
    have "varint_ptr_loop (7 * K) (word_of_nat ?a) (7 * Suc k) (bs @ rest) =
        Some (word_of_nat (?a + group_val bs * 2 ^ (7 * Suc k)) :: 'a word, rest)"
      by (rule Cons.IH [OF b(2) _ group_bound [OF Cons.prems(3)]]) (use Cons.prems(2) in simp)
    then show ?thesis unfolding group_val_step
      using b(1) lt by (simp only: append_Cons varint_ptr_loop.simps if_False if_P acc nxt simp_thms)
  qed
qed simp

lemma varint_ptr_loop_fails:
  "\<forall>b\<in>set (take n p). 128 \<le> unat b \<Longrightarrow> k + n = Suc K \<Longrightarrow> varint_ptr_loop (7 * K) (r :: 'a::len word) (7 * k) p = None"
proof (induction n arbitrary: p k r)
  case 0
  then show ?case by (cases p) simp_all
next
  case (Suc n)
  show ?case
  proof (cases p)
    case (Cons b q)
    have nxt: "7 * k + 7 = 7 * Suc k" by simp
    have b: "b AND 128 \<noteq> 0" using Suc.prems(1) Cons top_bit [of b] by simp
    have "varint_ptr_loop (7 * K) r' (7 * Suc k) q = None" for r' :: "'a word"
      by (rule Suc.IH) (use Suc.prems Cons in simp_all)
    then show ?thesis using Cons b by (simp only: varint_ptr_loop.simps if_P nxt simp_thms if_cancel)
  qed simp
qed

lemma varint_ptr_loop_iff:
  "varint_ptr_loop (7 * K) 0 0 p = Some (v :: 'a::len word, rest) \<longleftrightarrow>
    (\<exists>bs. p = bs @ rest \<and> is_varint bs \<and> length bs \<le> Suc K \<and> v = word_of_nat (group_val bs))"
    (is "?L \<longleftrightarrow> ?R")
proof
  assume ?R
  then show ?L using varint_ptr_loop_ok [of _ 0 K 0 rest] by auto
next
  assume L: ?L
  have no: "\<not> (\<forall>b\<in>set (take (Suc K) p). 128 \<le> unat b)"
  proof
    assume "\<forall>b\<in>set (take (Suc K) p). 128 \<le> unat b"
    from varint_ptr_loop_fails [OF this, of 0 K "0 :: 'a word"] L show False by simp
  qed
  show ?R
  proof (rule varint_split [of p])
    fix cs r
    assume cs: "p = cs @ r" "is_varint cs"
    have len: "length cs \<le> Suc K"
    proof (rule ccontr)
      assume "\<not> length cs \<le> Suc K"
      then show False using no is_varint_high [OF cs(2), of "Suc K"] cs(1) by auto
    qed
    have "varint_ptr_loop (7 * K) (0 :: 'a word) 0 p = Some (word_of_nat (group_val cs), r)"
      using varint_ptr_loop_ok [OF cs(2) _, of 0 K 0 r] len cs(1) by simp
    with L len cs show ?R by auto
  next
    assume "\<forall>b\<in>set p. 128 \<le> unat b"
    then show ?R using no by (auto dest: in_set_takeD)
  qed
qed

lemma GetVarint32Ptr_eq: "GetVarint32Ptr p = varint_ptr_loop 28 0 0 p"
  by (auto simp: GetVarint32Ptr_def GetVarint32PtrFallback_def split: list.splits)

lemma GetVarint32_iff:
  "GetVarint32 p = (Some v, rest) \<longleftrightarrow>
    (\<exists>bs. p = bs @ rest \<and> is_varint bs \<and> length bs \<le> 5 \<and> v = word_of_nat (group_val bs))"
  using varint_ptr_loop_iff [of 4 p v rest]
  by (auto simp: GetVarint32_def GetVarint32Ptr_eq numeral_eq_Suc split: option.splits)

lemma GetVarint64_iff:
  "GetVarint64 p = (Some v, rest) \<longleftrightarrow>
    (\<exists>bs. p = bs @ rest \<and> is_varint bs \<and> length bs \<le> 10 \<and> v = word_of_nat (group_val bs))"
  using varint_ptr_loop_iff [of 9 p v rest]
  by (auto simp: GetVarint64_def GetVarint64Ptr_def numeral_eq_Suc split: option.splits)

lemma word_of_nat_group: "word_of_nat (group_val (varint_enc (unat v))) = (v :: 'a::len word)"
  using varint_enc_is_varint [of "unat v"] by simp

lemma GetVarint32_enc: "GetVarint32 (EncodeVarint32 v @ rest) = (Some v, rest)"
proof -
  have "unat v < 2 ^ LENGTH(32)" by (rule unsigned_less)
  then have "length (varint_enc (unat v)) \<le> 5" using length_varint_enc [of "unat v" 4] by simp
  then show ?thesis unfolding GetVarint32_iff EncodeVarint32_eq
    using varint_enc_is_varint [of "unat v"] word_of_nat_group [of v] by metis
qed

lemma GetVarint64_enc: "GetVarint64 (EncodeVarint64 v @ rest) = (Some v, rest)"
proof -
  have "unat v < 2 ^ LENGTH(64)" by (rule unsigned_less)
  then have "length (varint_enc (unat v)) \<le> 10" using length_varint_enc [of "unat v" 9] by simp
  then show ?thesis unfolding GetVarint64_iff EncodeVarint64_eq
    using varint_enc_is_varint [of "unat v"] word_of_nat_group [of v] by metis
qed

lemma GetLengthPrefixedSlice_put:
  assumes "length s < 2 ^ 32"
  shows "GetLengthPrefixedSlice (PutLengthPrefixedSlice [] s @ rest) = (Some s, rest)"
proof -
  have "unat (word_of_nat (length s) :: u32) = length s" using assms by (simp add: unat_word_of_nat)
  with GetVarint32_enc [of "word_of_nat (length s)" "s @ rest"] show ?thesis
    by (simp add: GetLengthPrefixedSlice_def PutLengthPrefixedSlice_def PutVarint32_def)
qed

interpretation varint32: progressing_codec "\<lambda>s. s" "\<lambda>_. True" "\<lambda>s. s" GetVarint32 EncodeVarint32 "\<lambda>_. True"
  by unfold_locales (use GetVarint32_enc varint_enc_is_varint in \<open>auto simp: EncodeVarint32_eq\<close>)

interpretation varint64: progressing_codec "\<lambda>s. s" "\<lambda>_. True" "\<lambda>s. s" GetVarint64 EncodeVarint64 "\<lambda>_. True"
  by unfold_locales (use GetVarint64_enc varint_enc_is_varint in \<open>auto simp: EncodeVarint64_eq\<close>)

interpretation prefixed_slice: progressing_codec "\<lambda>s. s" "\<lambda>_. True" "\<lambda>s. s" GetLengthPrefixedSlice
    "PutLengthPrefixedSlice []" "\<lambda>s. length s < 2 ^ 32"
  by unfold_locales (use GetLengthPrefixedSlice_put varint_enc_is_varint in
      \<open>auto simp: PutLengthPrefixedSlice_def PutVarint32_def EncodeVarint32_eq\<close>)

lemma EncodeFixed32_eq: "EncodeFixed32 v = fixed32_enc v"
  by (simp add: EncodeFixed32_def fixed32_enc_def and_FF upt_rec)

lemma EncodeFixed64_eq: "EncodeFixed64 v = fixed64_enc v"
  by (simp add: EncodeFixed64_def fixed64_enc_def and_FF upt_rec)

lemma length_EncodeFixed [simp]: "length (EncodeFixed32 v) = 4" "length (EncodeFixed64 w) = 8"
  by (simp_all add: EncodeFixed32_def EncodeFixed64_def)

lemma DecodeFixed32_enc [simp]: "DecodeFixed32 (EncodeFixed32 v @ rest) = v"
  using bytes_join_32 [of v] by (simp add: DecodeFixed32_def EncodeFixed32_eq nth_append)

text \<open>Arrays of fixed-width numbers.\<close>

lemma foldl_PutFixed32: "foldl PutFixed32 buf ws = buf @ concat (map EncodeFixed32 ws)"
  by (induction ws arbitrary: buf) (simp_all add: PutFixed32_def)

lemma length_fixed_array: "length (concat (map EncodeFixed32 ws)) = 4 * length ws"
  by (induction ws) simp_all

lemma DecodeFixed32_nth:
  "j < length ws \<Longrightarrow> DecodeFixed32 (drop (4 * j) (concat (map EncodeFixed32 ws) @ rest)) = ws ! j"
proof (induction ws arbitrary: j)
  case (Cons w ws)
  then show ?case by (cases j) (simp_all add: drop_append)
qed simp

lemma DecodeFixed64_enc [simp]: "DecodeFixed64 (EncodeFixed64 v @ rest) = v"
proof -
  have j: "push_bit 32 (ucast (DecodeFixed32 (drop 4 p))) OR ucast (DecodeFixed32 p) =
      (push_bit 0 (ucast (p ! 0)) OR push_bit 8 (ucast (p ! 1)) OR
       push_bit 16 (ucast (p ! 2)) OR push_bit 24 (ucast (p ! 3)) OR
       push_bit 32 (ucast (p ! 4)) OR push_bit 40 (ucast (p ! 5)) OR
       push_bit 48 (ucast (p ! 6)) OR push_bit 56 (ucast (p ! 7)) :: u64)" if "8 \<le> length p" for p
  proof (rule bit_word_eqI)
    fix n
    assume "n < LENGTH(64)"
    then have n: "n < 64" by simp
    have u: "bit (ucast b :: 'b::len word) k \<longleftrightarrow> k < 8 \<and> bit b k" if "8 \<le> LENGTH('b)" for b :: u8 and k
      using that bit_imp_le_length [of b k] by (auto simp: bit_simps)
    have d: "bit (DecodeFixed32 q) k \<longleftrightarrow> (k < 8 \<and> bit (q ! 0) k) \<or> (8 \<le> k \<and> k < 16 \<and> bit (q ! 1) (k - 8)) \<or>
        (16 \<le> k \<and> k < 24 \<and> bit (q ! 2) (k - 16)) \<or> (24 \<le> k \<and> k < 32 \<and> bit (q ! 3) (k - 24))" for q k
      by (auto simp: DecodeFixed32_def bit_or_iff bit_push_bit_iff u possible_bit_word)
    have w: "bit (ucast x :: u64) k \<longleftrightarrow> bit x k" for x :: u32 and k
      using bit_imp_le_length [of x k] by (auto simp: bit_simps)
    have s: "bit (push_bit j (ucast b) :: u64) n \<longleftrightarrow> j \<le> n \<and> n < j + 8 \<and> bit b (n - j)" for b :: u8 and j
      using n by (auto simp: bit_push_bit_iff u possible_bit_word)
    have h: "bit (push_bit 32 (ucast x) :: u64) n \<longleftrightarrow> 32 \<le> n \<and> bit x (n - 32)" for x :: u32
      using n by (auto simp: bit_push_bit_iff w possible_bit_word)
    show "bit (push_bit 32 (ucast (DecodeFixed32 (drop 4 p))) OR ucast (DecodeFixed32 p) :: u64) n =
      bit (push_bit 0 (ucast (p ! 0)) OR push_bit 8 (ucast (p ! 1)) OR
       push_bit 16 (ucast (p ! 2)) OR push_bit 24 (ucast (p ! 3)) OR
       push_bit 32 (ucast (p ! 4)) OR push_bit 40 (ucast (p ! 5)) OR
       push_bit 48 (ucast (p ! 6)) OR push_bit 56 (ucast (p ! 7)) :: u64) n"
    proof (cases "n < 32")
      case True
      then show ?thesis by (simp only: bit_or_iff s h w d) auto
    next
      case False
      then obtain m where m: "n = m + 32" by (metis le_add_diff_inverse2 not_less)
      have q: "drop 4 p ! 0 = p ! 4" "drop 4 p ! 1 = p ! 5" "drop 4 p ! 2 = p ! 6" "drop 4 p ! 3 = p ! 7"
        using \<open>8 \<le> length p\<close> by simp_all
      have "\<not> bit (DecodeFixed32 p) n" using m by (simp add: d)
      moreover have "m < 32" using n m by simp
      ultimately show ?thesis
        unfolding bit_or_iff s h w by (simp only: d q m) auto
    qed
  qed
  show ?thesis unfolding DecodeFixed64_def Let_def
    by (subst j) (simp_all add: EncodeFixed64_eq nth_append bytes_join_64 [simplified])
qed

end
