(* ===== verification/LDB_Log.thy ===== *)
theory LDB_Log
  imports LDB_CRC
begin

text \<open>
  LevelDB's write-ahead log (\<open>db/log_writer.cc\<close>, \<open>db/log_reader.cc\<close>, \<open>db/log_format.h\<close>). The file is
  cut into blocks; a record is written as fragments that do not cross a block, each with a checksum, a
  length and a type.

  The file of the writer is its contents. \<open>wr file data\<close> says how appending \<open>data\<close> ends, with success
  (\<open>None\<close>) or with an error after that many bytes, and \<open>fl\<close> how flushing does; both are arbitrary. The
  file of the reader is the bytes behind its position; \<open>rd\<close> says whether a read succeeds with so many
  bytes left, \<open>sk\<close> the same for skipping. A successful read is short only at the end of the file, which
  the code relies on. The calls of the reporter are kept in a list. Checksums do not depend on the
  address of the data (\<open>crc32c_Extend_eq\<close>), which is given as 0.
\<close>

subsection \<open>The format\<close>

definition kFullType :: u32 where "kFullType = 1"

definition kFirstType :: u32 where "kFirstType = 2"

definition kMiddleType :: u32 where "kMiddleType = 3"

definition kLastType :: u32 where "kLastType = 4"

definition kEof :: u32 where "kEof = 5"

definition kBadRecord :: u32 where "kBadRecord = 6"

definition kBlockSize :: nat where "kBlockSize = 32768"

definition kHeaderSize :: nat where "kHeaderSize = 4 + 2 + 1"

subsection \<open>The writer\<close>

record log_writer =
  lw_dest :: "u8 list"
  lw_block_offset :: nat
  lw_type_crc :: "u32 list"

type_synonym file_io = "u8 list \<Rightarrow> u8 list \<Rightarrow> nat option"

definition InitTypeCrc :: "u32 list" where
  "InitTypeCrc = map (\<lambda>i. crc32c_Value 0 [word_of_nat i]) [0..<5]"

definition Writer :: "u8 list \<Rightarrow> nat \<Rightarrow> log_writer" where
  "Writer dest dest_length =
     \<lparr>lw_dest = dest, lw_block_offset = dest_length mod kBlockSize, lw_type_crc = InitTypeCrc\<rparr>"

definition file_append :: "file_io \<Rightarrow> u8 list \<Rightarrow> log_writer \<Rightarrow> bool \<times> log_writer" where
  "file_append wr data w =
     (case wr (lw_dest w) data of
        None \<Rightarrow> (True, w\<lparr>lw_dest := lw_dest w @ data\<rparr>)
      | Some k \<Rightarrow> (False, w\<lparr>lw_dest := lw_dest w @ take k data\<rparr>))"

definition EmitPhysicalRecord ::
  "file_io \<Rightarrow> (u8 list \<Rightarrow> bool) \<Rightarrow> u32 \<Rightarrow> slice \<Rightarrow> log_writer \<Rightarrow> bool \<times> log_writer" where
  "EmitPhysicalRecord wr fl t ptr w =
     (let length = word_of_nat (List.length ptr) :: u64;
          crc = crc32c_Extend 0 (lw_type_crc w ! unat t) ptr;
          crc = crc32c_Mask crc;
          buf = EncodeFixed32 crc @ [ucast (length AND 0xFF), ucast (drop_bit 8 length), ucast t];
          (s, w) = file_append wr buf w;
          (s, w) = (if s then (let (s, w) = file_append wr ptr w in if s then (fl (lw_dest w), w) else (s, w)) else (s, w))
      in (s, w\<lparr>lw_block_offset := lw_block_offset w + (kHeaderSize + List.length ptr)\<rparr>))"

text \<open>One round of \<open>AddRecord\<close>: the status, how much of the record is written, and the writer.\<close>

definition switch_block :: "file_io \<Rightarrow> log_writer \<Rightarrow> log_writer" where
  "switch_block wr w =
     (let leftover = kBlockSize - lw_block_offset w
      in if leftover < kHeaderSize
         then (let w = (if 0 < leftover then snd (file_append wr (replicate leftover 0) w) else w)
               in w\<lparr>lw_block_offset := 0\<rparr>)
         else w)"

definition fragment_type :: "bool \<Rightarrow> bool \<Rightarrow> u32" where
  "fragment_type begin end =
     (if begin \<and> end then kFullType else if begin then kFirstType else if end then kLastType else kMiddleType)"

definition add_fragment ::
  "file_io \<Rightarrow> (u8 list \<Rightarrow> bool) \<Rightarrow> bool \<Rightarrow> slice \<Rightarrow> log_writer \<Rightarrow> bool \<times> slice \<times> log_writer" where
  "add_fragment wr fl begin ptr w =
     (let w = switch_block wr w;
          avail = kBlockSize - lw_block_offset w - kHeaderSize;
          fragment_length = (if length ptr < avail then length ptr else avail);
          end = (length ptr = fragment_length);
          (s, w) = EmitPhysicalRecord wr fl (fragment_type begin end) (take fragment_length ptr) w
      in (s, drop fragment_length ptr, w))"

lemma EmitPhysicalRecord_offset:
  "lw_block_offset (snd (EmitPhysicalRecord wr fl t p w)) = lw_block_offset w + (kHeaderSize + length p)"
  by (auto simp: EmitPhysicalRecord_def file_append_def Let_def split: option.splits prod.splits)

lemma switch_block_offset:
  "lw_block_offset (switch_block wr w) =
    (if kBlockSize - lw_block_offset w < kHeaderSize then 0 else lw_block_offset w)"
  by (simp add: switch_block_def Let_def)

lemma add_fragment_shrinks:
  assumes "add_fragment wr fl begin ptr w = (s, ptr', w')" "ptr' \<noteq> []"
  shows "2 * length ptr' + (if kBlockSize - lw_block_offset w' = kHeaderSize then 1 else 0) <
    2 * length ptr + (if kBlockSize - lw_block_offset w = kHeaderSize then 1 else 0)"
proof -
  let ?off = "lw_block_offset (switch_block wr w)" and ?len = "length ptr"
  define avail where "avail = kBlockSize - ?off - kHeaderSize"
  define flen where "flen = (if ?len < avail then ?len else avail)"
  obtain x y where e: "EmitPhysicalRecord wr fl (fragment_type begin (?len = flen)) (take flen ptr) (switch_block wr w) = (x, y)"
    by (metis prod.collapse)
  then have a: "add_fragment wr fl begin ptr w = (x, drop flen ptr, y)"
    unfolding add_fragment_def Let_def flen_def avail_def by (simp only: prod.case)
  have ptr': "ptr' = drop flen ptr" using a assms(1) by simp
  have off': "lw_block_offset w' = ?off + (kHeaderSize + length (take flen ptr))"
    using a assms(1) EmitPhysicalRecord_offset [of wr fl] e by (metis prod.inject snd_conv)
  have "flen < ?len" using assms(2) ptr' by (simp add: not_le)
  then have flen: "flen = avail" "avail < ?len" by (auto simp: flen_def split: if_splits)
  show ?thesis
  proof (cases "avail = 0")
    case False
    then have "2 * length ptr' + 1 < 2 * length ptr" using flen ptr' by simp
    then show ?thesis by auto
  next
    case True
    then have "lw_block_offset w' = ?off + kHeaderSize" using off' flen by simp
    then show ?thesis
      using True ptr' flen switch_block_offset [of wr w]
      by (auto simp: avail_def kBlockSize_def kHeaderSize_def split: if_splits)
  qed
qed

function add_record_loop ::
  "file_io \<Rightarrow> (u8 list \<Rightarrow> bool) \<Rightarrow> bool \<Rightarrow> slice \<Rightarrow> log_writer \<Rightarrow> bool \<times> log_writer" where
  "add_record_loop wr fl begin ptr w =
     (case add_fragment wr fl begin ptr w of
        (s, ptr', w') \<Rightarrow> if s \<and> ptr' \<noteq> [] then add_record_loop wr fl False ptr' w' else (s, w'))"
  by pat_completeness auto
termination
  by (relation "measure (\<lambda>(wr, fl, begin, ptr, w).
      2 * length ptr + (if kBlockSize - lw_block_offset w = kHeaderSize then 1 else 0))")
    (auto dest: add_fragment_shrinks [OF sym])

declare add_record_loop.simps [simp del]

definition AddRecord :: "file_io \<Rightarrow> (u8 list \<Rightarrow> bool) \<Rightarrow> slice \<Rightarrow> log_writer \<Rightarrow> bool \<times> log_writer" where
  "AddRecord wr fl data w = add_record_loop wr fl True data w"

subsection \<open>The reader\<close>

record log_reader =
  lr_file :: "u8 list"
  lr_reporter :: bool
  lr_checksum :: bool
  lr_buffer :: slice
  lr_eof :: bool
  lr_last_record_offset :: u64
  lr_end_of_buffer_offset :: u64
  lr_initial_offset :: u64
  lr_resyncing :: bool
  lr_reports :: "(u64 \<times> string) list"

definition Reader :: "u8 list \<Rightarrow> bool \<Rightarrow> bool \<Rightarrow> u64 \<Rightarrow> log_reader" where
  "Reader file reporter checksum initial_offset =
     \<lparr>lr_file = file, lr_reporter = reporter, lr_checksum = checksum, lr_buffer = [], lr_eof = False,
      lr_last_record_offset = 0, lr_end_of_buffer_offset = 0, lr_initial_offset = initial_offset,
      lr_resyncing = (0 < initial_offset), lr_reports = []\<rparr>"

definition ReportDrop :: "u64 \<Rightarrow> string \<Rightarrow> log_reader \<Rightarrow> log_reader" where
  "ReportDrop bytes reason r =
     (if lr_reporter r \<and>
         lr_initial_offset r \<le> lr_end_of_buffer_offset r - word_of_nat (length (lr_buffer r)) - bytes
      then r\<lparr>lr_reports := lr_reports r @ [(bytes, reason)]\<rparr> else r)"

text \<open>\<open>ReportCorruption\<close> wraps the reason in a status.\<close>

definition ReportCorruption :: "u64 \<Rightarrow> string \<Rightarrow> log_reader \<Rightarrow> log_reader" where
  "ReportCorruption bytes reason r = ReportDrop bytes reason r"

definition SkipToInitialBlock :: "(nat \<Rightarrow> bool) \<Rightarrow> log_reader \<Rightarrow> bool \<times> log_reader" where
  "SkipToInitialBlock sk r =
     (let offset_in_block = lr_initial_offset r mod word_of_nat kBlockSize;
          block_start_location = lr_initial_offset r - offset_in_block;
          block_start_location =
            (if word_of_nat (kBlockSize - 6) < offset_in_block then block_start_location + word_of_nat kBlockSize
             else block_start_location);
          r = r\<lparr>lr_end_of_buffer_offset := block_start_location\<rparr>
      in if 0 < block_start_location
         then (if sk (length (lr_file r)) then (True, r\<lparr>lr_file := drop (unat block_start_location) (lr_file r)\<rparr>)
               else (False, ReportDrop block_start_location ''skip'' r))
         else (True, r))"

text \<open>
  \<open>ReadPhysicalRecord\<close> returns the type and the fragment; the code leaves the fragment of the call before
  in place for \<open>kEof\<close> and for most bad records and does not look at it then, here it is empty.
\<close>

definition parse_physical :: "log_reader \<Rightarrow> (u32 \<times> slice) \<times> log_reader" where
  "parse_physical r =
     (let header = lr_buffer r;
          a = ucast (header ! 4) AND 0xFF :: u32;
          b = ucast (header ! 5) AND 0xFF :: u32;
          type = scast (header ! 6) :: u32;
          len = unat (a OR push_bit 8 b)
      in if length (lr_buffer r) < kHeaderSize + len
         then (let drop_size = length (lr_buffer r); r = r\<lparr>lr_buffer := []\<rparr>
               in if \<not> lr_eof r
                  then ((kBadRecord, []), ReportCorruption (word_of_nat drop_size) ''bad record length'' r)
                  else ((kEof, []), r))
         else if type = 0 \<and> len = 0 then ((kBadRecord, []), r\<lparr>lr_buffer := []\<rparr>)
         else if lr_checksum r \<and>
              crc32c_Value 0 (take (1 + len) (drop 6 header)) \<noteq> crc32c_Unmask (DecodeFixed32 header)
         then (let drop_size = length (lr_buffer r); r = r\<lparr>lr_buffer := []\<rparr>
               in ((kBadRecord, []), ReportCorruption (word_of_nat drop_size) ''checksum mismatch'' r))
         else
           (let r = r\<lparr>lr_buffer := drop (kHeaderSize + len) (lr_buffer r)\<rparr>
            in if lr_end_of_buffer_offset r - word_of_nat (length (lr_buffer r)) - word_of_nat kHeaderSize - word_of_nat len
                   < lr_initial_offset r
               then ((kBadRecord, []), r)
               else ((type, take len (drop kHeaderSize header)), r)))"

text \<open>The block read when less than a header is left; a short one is the last.\<close>

definition read_block :: "(nat \<Rightarrow> bool) \<Rightarrow> log_reader \<Rightarrow> bool \<times> log_reader" where
  "read_block rd r =
     (let ok = rd (length (lr_file r));
          buffer = (if ok then take kBlockSize (lr_file r) else []);
          r = r\<lparr>lr_buffer := buffer, lr_file := drop (length buffer) (lr_file r),
                lr_end_of_buffer_offset := lr_end_of_buffer_offset r + word_of_nat (length buffer)\<rparr>
      in if \<not> ok then (False, (ReportDrop (word_of_nat kBlockSize) ''read'' (r\<lparr>lr_buffer := []\<rparr>))\<lparr>lr_eof := True\<rparr>)
         else if length buffer < kBlockSize then (True, r\<lparr>lr_eof := True\<rparr>)
         else (True, r))"

function ReadPhysicalRecord :: "(nat \<Rightarrow> bool) \<Rightarrow> log_reader \<Rightarrow> (u32 \<times> slice) \<times> log_reader" where
  "ReadPhysicalRecord rd r =
     (if length (lr_buffer r) < kHeaderSize then
        (if \<not> lr_eof r then
           (case read_block rd r of
              (ok, r') \<Rightarrow> if \<not> ok then ((kEof, []), r') else ReadPhysicalRecord rd r')
         else ((kEof, []), r\<lparr>lr_buffer := []\<rparr>))
      else parse_physical r)"
  by pat_completeness auto
termination
  by (relation "measure (\<lambda>(rd, r). (if lr_eof r then 0 else 1) + (if length (lr_buffer r) < kHeaderSize then 1 else 0))")
    (auto simp: read_block_def Let_def kHeaderSize_def kBlockSize_def split: if_splits)

declare ReadPhysicalRecord.simps [simp del]

lemma parse_physical_left:
  assumes "parse_physical r = ((t, p), r')" "t \<noteq> kEof" "kHeaderSize \<le> length (lr_buffer r)"
  shows "lr_file r' = lr_file r \<and> length (lr_buffer r') < length (lr_buffer r)"
  using assms
  by (auto simp: parse_physical_def Let_def ReportCorruption_def ReportDrop_def kHeaderSize_def split: if_splits)

lemma ReadPhysicalRecord_left:
  "ReadPhysicalRecord rd r = ((t, p), r') \<Longrightarrow> t \<noteq> kEof \<Longrightarrow>
    length (lr_file r') + length (lr_buffer r') < length (lr_file r) + length (lr_buffer r)"
proof (induction rd r rule: ReadPhysicalRecord.induct)
  case (1 rd r)
  show ?case
  proof (cases "length (lr_buffer r) < kHeaderSize")
    case False
    with 1 show ?thesis using parse_physical_left [of r t p r'] by (simp add: ReadPhysicalRecord.simps [of rd r])
  next
    case True
    obtain ok r1 where r1: "read_block rd r = (ok, r1)" by (metis prod.collapse)
    with "1.prems" True have eof: "\<not> lr_eof r" and ok: "ok" and run: "ReadPhysicalRecord rd r1 = ((t, p), r')"
      by (auto simp: ReadPhysicalRecord.simps [of rd r] split: if_splits)
    have "length (lr_file r1) + length (lr_buffer r1) \<le> length (lr_file r) + length (lr_buffer r)"
      using r1 ok by (auto simp: read_block_def Let_def split: if_splits)
    moreover have "\<not> \<not> ok" using ok by simp
    ultimately show ?thesis using "1.IH" [OF True eof r1 [symmetric] _ run "1.prems"(2)] ok by simp
  qed
qed

text \<open>What \<open>ReadRecord\<close> does with a physical record: it ends with a result or goes on with a new state.\<close>

definition record_step ::
  "bool \<Rightarrow> slice \<Rightarrow> u64 \<Rightarrow> u32 \<Rightarrow> slice \<Rightarrow> log_reader \<Rightarrow> (slice option + bool \<times> slice \<times> u64) \<times> log_reader" where
  "record_step in_fragmented_record scratch prospective_record_offset record_type fragment r =
     (let physical_record_offset =
            lr_end_of_buffer_offset r - word_of_nat (length (lr_buffer r)) - word_of_nat kHeaderSize -
            word_of_nat (length fragment)
      in if lr_resyncing r \<and> record_type = kMiddleType
         then (Inr (in_fragmented_record, scratch, prospective_record_offset), r)
         else if lr_resyncing r \<and> record_type = kLastType
         then (Inr (in_fragmented_record, scratch, prospective_record_offset), r\<lparr>lr_resyncing := False\<rparr>)
         else
           (let r = r\<lparr>lr_resyncing := False\<rparr>
            in if record_type = kFullType then
                 (let r = (if in_fragmented_record \<and> scratch \<noteq> []
                           then ReportCorruption (word_of_nat (length scratch)) ''partial record without end(1)'' r else r)
                  in (Inl (Some fragment), r\<lparr>lr_last_record_offset := physical_record_offset\<rparr>))
               else if record_type = kFirstType then
                 (let r = (if in_fragmented_record \<and> scratch \<noteq> []
                           then ReportCorruption (word_of_nat (length scratch)) ''partial record without end(2)'' r else r)
                  in (Inr (True, fragment, physical_record_offset), r))
               else if record_type = kMiddleType then
                 (if \<not> in_fragmented_record
                  then (Inr (in_fragmented_record, scratch, prospective_record_offset),
                        ReportCorruption (word_of_nat (length fragment)) ''missing start of fragmented record(1)'' r)
                  else (Inr (in_fragmented_record, scratch @ fragment, prospective_record_offset), r))
               else if record_type = kLastType then
                 (if \<not> in_fragmented_record
                  then (Inr (in_fragmented_record, scratch, prospective_record_offset),
                        ReportCorruption (word_of_nat (length fragment)) ''missing start of fragmented record(2)'' r)
                  else (Inl (Some (scratch @ fragment)), r\<lparr>lr_last_record_offset := prospective_record_offset\<rparr>))
               else if record_type = kEof then (Inl None, r)
               else if record_type = kBadRecord then
                 (if in_fragmented_record
                  then (Inr (False, [], prospective_record_offset),
                        ReportCorruption (word_of_nat (length scratch)) ''error in middle of record'' r)
                  else (Inr (in_fragmented_record, scratch, prospective_record_offset), r))
               else
                 (Inr (False, [], prospective_record_offset),
                  ReportCorruption (word_of_nat (length fragment + (if in_fragmented_record then length scratch else 0)))
                    ''unknown record type'' r)))"

lemmas record_types = kFullType_def kFirstType_def kMiddleType_def kLastType_def kEof_def kBadRecord_def

lemma ReportCorruption_simps [simp]:
  "lr_file (ReportCorruption n m r) = lr_file r" "lr_buffer (ReportCorruption n m r) = lr_buffer r"
  by (simp_all add: ReportCorruption_def ReportDrop_def)

lemma record_step_left:
  "lr_file (snd (record_step f s off t p r)) = lr_file r" "lr_buffer (snd (record_step f s off t p r)) = lr_buffer r"
  by (simp_all add: record_step_def Let_def if_distrib [of snd] if_distrib [of lr_file] if_distrib [of lr_buffer]
      split del: if_split cong: if_cong)

lemma record_step_eof: "record_step f s off kEof p r = (x, r') \<Longrightarrow> x = Inl None"
  by (auto simp: record_step_def Let_def record_types split: if_splits)

function read_record_loop ::
  "(nat \<Rightarrow> bool) \<Rightarrow> bool \<Rightarrow> slice \<Rightarrow> u64 \<Rightarrow> log_reader \<Rightarrow> slice option \<times> log_reader" where
  "read_record_loop rd in_frag scratch prospective r =
     (case ReadPhysicalRecord rd r of
        ((t, fragment), r1) \<Rightarrow>
          (case record_step in_frag scratch prospective t fragment r1 of
             (Inl result, r2) \<Rightarrow> (result, r2)
           | (Inr (in_frag, scratch, prospective), r2) \<Rightarrow> read_record_loop rd in_frag scratch prospective r2))"
  by pat_completeness auto
termination
proof (relation "measure (\<lambda>(rd, f, s, p, r). length (lr_file r) + length (lr_buffer r))", goal_cases)
  case (2 rd f s pr r y r1 t fragment z r2 st f' y' s' pr')
  then have "ReadPhysicalRecord rd r = ((t, fragment), r1)" "record_step f s pr t fragment r1 = (Inr (f', s', pr'), r2)"
    by auto
  moreover from this have "t \<noteq> kEof" using record_step_eof by blast
  ultimately show ?case
    using ReadPhysicalRecord_left record_step_left [of f s pr t fragment r1] by auto
qed simp

declare read_record_loop.simps [simp del]

definition ReadRecord :: "(nat \<Rightarrow> bool) \<Rightarrow> (nat \<Rightarrow> bool) \<Rightarrow> log_reader \<Rightarrow> slice option \<times> log_reader" where
  "ReadRecord rd sk r =
     (let (ok, r) = (if lr_last_record_offset r < lr_initial_offset r then SkipToInitialBlock sk r else (True, r))
      in if \<not> ok then (None, r) else read_record_loop rd False [] 0 r)"

definition LastRecordOffset :: "log_reader \<Rightarrow> u64" where
  "LastRecordOffset r = lr_last_record_offset r"

end
