(* ===== verification/LDB_Log_Spec.thy ===== *)
theory LDB_Log_Spec
  imports LDB_Log
begin

text \<open>
  The layout of the log, as a relation between a record, the offset in the block and the bytes written,
  and the proof that the reader gets back the records of every prefix of the file that has all of their
  bytes: what a crash leaves of the log is read without an error report up to the last whole record.
\<close>

subsection \<open>Physical records\<close>

definition log_header :: "u32 \<Rightarrow> slice \<Rightarrow> u8 list" where
  "log_header t p = EncodeFixed32 (crc32c_Mask (crc32c 0 (ucast t # p))) @
     [word_of_nat (length p mod 256), word_of_nat (length p div 256), ucast t]"

definition valid_type :: "u32 \<Rightarrow> bool" where
  "valid_type t \<longleftrightarrow> t \<in> {kFullType, kFirstType, kMiddleType, kLastType}"

lemma length_log_header [simp]: "length (log_header t p) = 7"
  by (simp add: log_header_def)

lemma log_sizes: "kHeaderSize = 7" "kBlockSize = 32768"
  by (simp_all add: kHeaderSize_def kBlockSize_def)

lemma valid_typeD:
  assumes "valid_type t"
  shows "unat t < 5" "t \<noteq> 0" "word_of_nat (unat t) = (ucast t :: u8)" "scast (ucast t :: u8) = t" "t \<noteq> kEof" "t \<noteq> kBadRecord"
  using assms by (auto simp: valid_type_def record_types)

lemma valid_fragment_type [simp]: "valid_type (fragment_type b e)"
  by (simp add: valid_type_def fragment_type_def)

lemma type_crc:
  assumes "valid_type t"
  shows "InitTypeCrc ! unat t = crc32c 0 [ucast t]"
  using valid_typeD [OF assms] by (simp add: InitTypeCrc_def crc32c_Value_def crc32c_Extend_eq)

lemma length_bytes:
  assumes "n < 65536"
  shows "ucast ((word_of_nat n :: u64) AND 0xFF) = (word_of_nat (n mod 256) :: u8)"
    "ucast (drop_bit 8 (word_of_nat n :: u64)) = (word_of_nat (n div 256) :: u8)"
proof -
  show "ucast ((word_of_nat n :: u64) AND 0xFF) = (word_of_nat (n mod 256) :: u8)"
    unfolding and_FF by (rule word_unat_eq_iff [THEN iffD2]) (simp add: unat_word_of_nat unsigned_ucast_eq take_bit_eq_mod assms mod_mod_cancel)
  have "unat (drop_bit 8 (word_of_nat n :: u64)) = n div 256"
    using assms by (simp add: unat_drop_bit unat_word_of_nat)
  then show "ucast (drop_bit 8 (word_of_nat n :: u64)) = (word_of_nat (n div 256) :: u8)"
    by (simp only: ucast_word_nat)
qed

lemma length_join:
  assumes "n < 65536"
  shows "unat ((ucast (word_of_nat (n mod 256) :: u8) AND 0xFF :: u32) OR push_bit 8 (ucast (word_of_nat (n div 256) :: u8) AND 0xFF)) = n"
proof -
  have a: "ucast (b :: u8) AND 0xFF = (ucast b :: u32)" for b
  proof -
    have "take_bit 8 (ucast b :: u32) = ucast b" by (rule bit_word_eqI) (auto simp: bit_simps dest: bit_imp_le_length)
    then show ?thesis by (simp only: and_FF_take_bit)
  qed
  have w: "(ucast (word_of_nat k :: u8) :: u32) = word_of_nat k" if "k < 256" for k
    using that by (simp only: ucast_word_nat unat_word_of_nat_8)
  have "n div 256 < 256" using assms by (simp add: less_mult_imp_div_less)
  then have "unat ((word_of_nat (n mod 256) :: u32) OR push_bit 8 (word_of_nat (n div 256))) = unat (word_of_nat (n mod 256 + n div 256 * 2 ^ 8) :: u32)"
    by (subst or_shift) simp_all
  also have "\<dots> = n" using assms by (simp add: unat_word_of_nat mult.commute)
  finally show ?thesis unfolding a using \<open>n div 256 < 256\<close> by (simp only: w mod_less_divisor zero_less_numeral)
qed

lemma EmitPhysicalRecord_ok:
  assumes "\<And>f s. wr f s = None" "lw_type_crc w = InitTypeCrc" "valid_type t" "length p < 65536"
  shows "EmitPhysicalRecord wr fl t p w =
    (fl (lw_dest w @ log_header t p @ p),
     w\<lparr>lw_dest := lw_dest w @ log_header t p @ p, lw_block_offset := lw_block_offset w + (7 + length p)\<rparr>)"
  using assms(1) length_bytes [OF assms(4)] type_crc [OF assms(3)]
  by (simp add: EmitPhysicalRecord_def file_append_def Let_def assms(2) log_header_def crc32c_Extend_eq crc32c_append log_sizes)

lemma parse_physical_ok:
  assumes "lr_buffer r = log_header t p @ p @ rest" "valid_type t" "length p < 65536" "lr_initial_offset r = 0"
  shows "parse_physical r = ((t, p), r\<lparr>lr_buffer := rest\<rparr>)"
proof -
  note v = valid_typeD [OF assms(2)]
  have h: "(log_header t p @ q) ! 4 = word_of_nat (length p mod 256)" "(log_header t p @ q) ! 5 = word_of_nat (length p div 256)"
    "(log_header t p @ q) ! 6 = ucast t" "DecodeFixed32 (log_header t p @ q) = crc32c_Mask (crc32c 0 (ucast t # p))"
    "drop 6 (log_header t p @ q) = ucast t # q" for q
    by (simp_all add: log_header_def nth_append)
  have e: "crc32c_Value 0 (take (1 + length p) (ucast t # p @ rest)) = crc32c 0 (ucast t # p)"
    by (simp add: crc32c_Value_def crc32c_Extend_eq)
  show ?thesis
    unfolding parse_physical_def Let_def assms(1) h length_join [OF assms(3)] e crc32c_Unmask_Mask
    using v assms(4) by (simp add: log_sizes)
qed

subsection \<open>The layout of a record\<close>

definition block_pad :: "nat \<Rightarrow> nat" where
  "block_pad off = (if kBlockSize - off < kHeaderSize then kBlockSize - off else 0)"

definition block_start :: "nat \<Rightarrow> nat" where
  "block_start off = (if kBlockSize - off < kHeaderSize then 0 else off)"

definition block_avail :: "nat \<Rightarrow> nat" where
  "block_avail off = kBlockSize - block_start off - kHeaderSize"

definition fragment_bytes :: "nat \<Rightarrow> u32 \<Rightarrow> slice \<Rightarrow> u8 list" where
  "fragment_bytes off t p = replicate (block_pad off) 0 @ log_header t p @ p"

inductive fragments :: "bool \<Rightarrow> nat \<Rightarrow> slice \<Rightarrow> u8 list \<Rightarrow> nat \<Rightarrow> bool" where
  final: "length p \<le> block_avail off \<Longrightarrow>
    fragments b off p (fragment_bytes off (fragment_type b True) p) (block_start off + (7 + length p))"
| more: "block_avail off < length p \<Longrightarrow> q = take (block_avail off) p \<Longrightarrow>
    fragments False (block_start off + (7 + length q)) (drop (block_avail off) p) bs off' \<Longrightarrow>
    fragments b off p (fragment_bytes off (fragment_type b False) q @ bs) off'"

lemma block_start_room: "off \<le> kBlockSize \<Longrightarrow> block_start off + 7 + block_avail off = kBlockSize"
  by (simp add: block_start_def block_avail_def log_sizes)

lemma fragments_off: "fragments b off p bs off' \<Longrightarrow> off \<le> kBlockSize \<Longrightarrow> off' \<le> kBlockSize"
proof (induction rule: fragments.induct)
  case (final p off b)
  then show ?case using block_start_room [of off] by simp
next
  case (more off p q bs off' b)
  then show ?case using block_start_room [of off] by simp
qed

lemma switch_block_ok:
  assumes "\<And>f s. wr f s = None"
  shows "switch_block wr w =
    w\<lparr>lw_dest := lw_dest w @ replicate (block_pad (lw_block_offset w)) 0, lw_block_offset := block_start (lw_block_offset w)\<rparr>"
  using assms by (simp add: switch_block_def Let_def file_append_def block_pad_def block_start_def)

lemma add_fragment_ok:
  assumes "\<And>f s. wr f s = None" "lw_type_crc w = InitTypeCrc" "lw_block_offset w \<le> kBlockSize"
    and n: "n = min (length p) (block_avail (lw_block_offset w))"
    and bs: "bs = fragment_bytes (lw_block_offset w) (fragment_type b (length p = n)) (take n p)"
  shows "add_fragment wr fl b p w = (fl (lw_dest w @ bs), drop n p,
    w\<lparr>lw_dest := lw_dest w @ bs, lw_block_offset := block_start (lw_block_offset w) + (7 + n)\<rparr>)"
proof -
  let ?w1 = "w\<lparr>lw_dest := lw_dest w @ replicate (block_pad (lw_block_offset w)) 0,
    lw_block_offset := block_start (lw_block_offset w)\<rparr>"
  have "n \<le> block_avail (lw_block_offset w)" using n by simp
  then have "length (take n p) < 65536" using block_start_room [OF assms(3)] by (simp add: log_sizes)
  moreover have l: "length (take n p) = n" using n by simp
  ultimately have e: "EmitPhysicalRecord wr fl (fragment_type b (length p = n)) (take n p) ?w1 =
      (fl (lw_dest w @ bs), w\<lparr>lw_dest := lw_dest w @ bs, lw_block_offset := block_start (lw_block_offset w) + (7 + n)\<rparr>)"
    by (subst EmitPhysicalRecord_ok [OF assms(1)]) (simp_all add: assms(2) bs fragment_bytes_def)
  have av: "kBlockSize - lw_block_offset ?w1 - kHeaderSize = block_avail (lw_block_offset w)"
    by (simp add: block_avail_def)
  have fl: "(if length p < block_avail (lw_block_offset w) then length p else block_avail (lw_block_offset w)) = n"
    using n by simp
  show ?thesis
    unfolding add_fragment_def Let_def switch_block_ok [OF assms(1)] av fl by (simp only: e prod.case)
qed

lemma add_record_loop_fragments:
  "(\<forall>f s. wr f s = None) \<Longrightarrow> lw_type_crc w = InitTypeCrc \<Longrightarrow> lw_block_offset w \<le> kBlockSize \<Longrightarrow>
    add_record_loop wr fl b p w = (True, w') \<Longrightarrow>
    \<exists>bs. fragments b (lw_block_offset w) p bs (lw_block_offset w') \<and> lw_dest w' = lw_dest w @ bs \<and>
      lw_type_crc w' = InitTypeCrc"
proof (induction wr fl b p w arbitrary: w' rule: add_record_loop.induct)
  case (1 wr fl b p w)
  have io: "wr f s = None" for f s using "1.prems"(1) by blast
  let ?off = "lw_block_offset w"
  define n where "n = min (length p) (block_avail ?off)"
  define bs where "bs = fragment_bytes ?off (fragment_type b (length p = n)) (take n p)"
  let ?w = "w\<lparr>lw_dest := lw_dest w @ bs, lw_block_offset := block_start ?off + (7 + n)\<rparr>"
  note f = add_fragment_ok [OF io "1.prems"(2,3) n_def bs_def, where fl = fl]
  show ?case
  proof (cases "length p \<le> block_avail ?off")
    case True
    then have n: "n = length p" by (simp add: n_def)
    then have "w' = ?w" using "1.prems"(4) f by (simp add: add_record_loop.simps [of wr])
    then show ?thesis using fragments.final [OF True, of b] "1.prems"(2) n by (auto simp: bs_def)
  next
    case False
    then have n: "n = block_avail ?off" and len: "block_avail ?off < length p" by (simp_all add: n_def)
    have ok: "fl (lw_dest w @ bs)" "add_record_loop wr fl False (drop n p) ?w = (True, w')"
      using "1.prems"(4) f n len by (auto simp: add_record_loop.simps [of wr fl b] split: if_splits)
    have "block_start ?off + (7 + n) \<le> kBlockSize" using block_start_room [OF "1.prems"(3)] n by simp
    then obtain cs where cs: "fragments False (block_start ?off + (7 + n)) (drop n p) cs (lw_block_offset w')"
        "lw_dest w' = lw_dest w @ bs @ cs" "lw_type_crc w' = InitTypeCrc"
      using "1.IH" [OF f [symmetric] refl _ "1.prems"(1) _ _ ok(2)] ok(1) "1.prems"(2) n len by auto
    have "fragments b ?off p (bs @ cs) (lw_block_offset w')"
      using fragments.more [OF len refl, of cs "lw_block_offset w'" b] cs(1) n len by (simp add: bs_def)
    with cs show ?thesis by blast
  qed
qed

subsection \<open>The reader in the file\<close>

text \<open>
  The reader stands at an offset of the file when its buffer holds the bytes from there to a block
  boundary, or to the end of the file when it has seen it; so far nothing has been reported.
\<close>

definition reader_at :: "u8 list \<Rightarrow> nat \<Rightarrow> log_reader \<Rightarrow> bool" where
  "reader_at F pos r \<longleftrightarrow>
     (let e = pos + length (lr_buffer r) in
      e \<le> length F \<and> lr_buffer r = take (length (lr_buffer r)) (drop pos F) \<and> lr_file r = drop e F \<and>
      (if lr_eof r then e = length F else e mod kBlockSize = 0) \<and>
      length (lr_buffer r) \<le> kBlockSize - pos mod kBlockSize) \<and>
     lr_initial_offset r = 0 \<and> \<not> lr_resyncing r \<and> lr_reports r = []"

lemma reader_at_start: "reader_at F 0 (Reader F rep chk 0)"
  by (simp add: reader_at_def Reader_def)

lemma block_mod:
  assumes "0 < n" "n \<le> kBlockSize - pos mod kBlockSize" "(pos + n) mod kBlockSize = 0"
  shows "n = kBlockSize - pos mod kBlockSize"
proof (rule ccontr)
  assume "n \<noteq> kBlockSize - pos mod kBlockSize"
  then have "pos mod kBlockSize + n < kBlockSize" using assms(2) by simp
  then have "(pos + n) mod kBlockSize = pos mod kBlockSize + n" by (metis mod_add_left_eq mod_less)
  with assms(1,3) show False by simp
qed

lemma block_step:
  assumes "pos mod kBlockSize + k \<le> kBlockSize" "k + n \<le> kBlockSize - pos mod kBlockSize"
  shows "n \<le> kBlockSize - (pos + k) mod kBlockSize"
proof (cases "pos mod kBlockSize + k = kBlockSize")
  case True
  with assms(2) show ?thesis by simp
next
  case False
  with assms(1) have "(pos + k) mod kBlockSize = pos mod kBlockSize + k" by (metis le_neq_implies_less mod_add_left_eq mod_less)
  with assms show ?thesis by simp
qed

lemma parse_at:
  assumes at: "reader_at F pos r" and bytes: "drop pos F = log_header t p @ p @ rest"
    and room: "pos mod kBlockSize + 7 + length p \<le> kBlockSize" and t: "valid_type t" and buf: "7 \<le> length (lr_buffer r)"
  shows "\<exists>r'. parse_physical r = ((t, p), r') \<and> reader_at F (pos + (7 + length p)) r'"
proof -
  let ?n = "length (lr_buffer r)"
  have a: "pos + ?n \<le> length F" "lr_buffer r = take ?n (drop pos F)" "lr_file r = drop (pos + ?n) F"
    "if lr_eof r then pos + ?n = length F else (pos + ?n) mod kBlockSize = 0"
    "?n \<le> kBlockSize - pos mod kBlockSize" "lr_initial_offset r = 0" "\<not> lr_resyncing r" "lr_reports r = []"
    using at by (simp_all add: reader_at_def Let_def)
  have "length F = pos + (7 + length p + length rest)"
    using arg_cong [OF bytes, of length] a(1) buf by simp
  moreover have "?n = kBlockSize - pos mod kBlockSize" if "\<not> lr_eof r"
  proof (rule block_mod)
    show "0 < ?n" using buf by linarith
  qed (use a(4,5) that in simp_all)
  ultimately have n: "7 + length p \<le> ?n" using a(4) room by (cases "lr_eof r") simp_all
  have b: "lr_buffer r = log_header t p @ p @ take (?n - (7 + length p)) rest"
    using a(2) n unfolding bytes by simp
  have "length p < 65536" using room by (simp add: log_sizes)
  from parse_physical_ok [OF b t this a(6)]
  have parse: "parse_physical r = ((t, p), r\<lparr>lr_buffer := take (?n - (7 + length p)) rest\<rparr>)" .
  have len: "length (take (?n - (7 + length p)) rest) = ?n - (7 + length p)"
    using arg_cong [OF b, of length] n by simp
  have "drop (pos + (7 + length p)) F = rest"
    using bytes by (metis (no_types, lifting) add.commute append_assoc append_eq_conv_conj drop_drop length_append length_log_header)
  moreover have "?n - (7 + length p) \<le> kBlockSize - (pos + (7 + length p)) mod kBlockSize"
    by (rule block_step) (use room n a(5) in simp_all)
  ultimately have "reader_at F (pos + (7 + length p)) (r\<lparr>lr_buffer := take (?n - (7 + length p)) rest\<rparr>)"
    using a n len by (simp add: reader_at_def Let_def)
  with parse show ?thesis by blast
qed

lemma read_block_at:
  assumes at: "reader_at F pos r" and eof: "\<not> lr_eof r" and buf: "length (lr_buffer r) < 7" and rd: "\<And>n. rd n"
  obtains e r1 where "read_block rd r = (True, r1)" "e = pos + length (lr_buffer r)" "pos \<le> e" "e mod kBlockSize = 0" "e \<le> length F"
    "reader_at F e r1" "lr_buffer r1 = take kBlockSize (drop e F)" "lr_eof r1 \<longleftrightarrow> length F - e < kBlockSize"
    "e - pos = (if pos mod kBlockSize = 0 then 0 else kBlockSize - pos mod kBlockSize)"
proof -
  define e where "e = pos + length (lr_buffer r)"
  have a: "e \<le> length F" "lr_file r = drop e F" "e mod kBlockSize = 0"
    "length (lr_buffer r) \<le> kBlockSize - pos mod kBlockSize" "lr_initial_offset r = 0" "\<not> lr_resyncing r" "lr_reports r = []"
    using at eof by (simp_all add: reader_at_def Let_def e_def)
  let ?r1 = "snd (read_block rd r)"
  have run: "read_block rd r = (True, ?r1)" "lr_buffer ?r1 = take kBlockSize (drop e F)"
    "lr_eof ?r1 \<longleftrightarrow> length F - e < kBlockSize"
    using rd eof a(2) by (simp_all add: read_block_def Let_def min_def log_sizes)
  have "reader_at F e ?r1"
    using rd eof a by (auto simp: read_block_def Let_def reader_at_def min_def add.commute)
  moreover have "length (lr_buffer r) = (if pos mod kBlockSize = 0 then 0 else kBlockSize - pos mod kBlockSize)"
  proof (cases "length (lr_buffer r) = 0")
    case True
    with a(3) show ?thesis by (simp add: e_def)
  next
    case False
    then have "length (lr_buffer r) = kBlockSize - pos mod kBlockSize"
      using block_mod [of "length (lr_buffer r)" pos] a(3,4) by (simp add: e_def)
    with buf show ?thesis by (simp add: log_sizes split: if_splits)
  qed
  ultimately show thesis using that [of ?r1 e] run a(1,3) by (simp add: e_def)
qed

lemma off_cases:
  assumes "off \<le> kBlockSize" "off mod kBlockSize = pos mod kBlockSize"
  shows "block_pad off = (if kBlockSize - pos mod kBlockSize < 7 then kBlockSize - pos mod kBlockSize else 0)"
    "block_start off = (if kBlockSize - pos mod kBlockSize < 7 then 0 else pos mod kBlockSize)"
    "kBlockSize - pos mod kBlockSize < 7 \<Longrightarrow> pos mod kBlockSize \<noteq> 0"
proof -
  have "off = kBlockSize \<and> pos mod kBlockSize = 0 \<or> off = pos mod kBlockSize"
    using assms by (metis le_neq_implies_less mod_less mod_self)
  then show "block_pad off = (if kBlockSize - pos mod kBlockSize < 7 then kBlockSize - pos mod kBlockSize else 0)"
    "block_start off = (if kBlockSize - pos mod kBlockSize < 7 then 0 else pos mod kBlockSize)"
    by (auto simp: block_pad_def block_start_def log_sizes)
  show "kBlockSize - pos mod kBlockSize < 7 \<Longrightarrow> pos mod kBlockSize \<noteq> 0"
    by (auto simp: log_sizes)
qed

lemma ReadPhysicalRecord_parse: "7 \<le> length (lr_buffer r) \<Longrightarrow> ReadPhysicalRecord rd r = parse_physical r"
  by (simp add: ReadPhysicalRecord.simps [of rd r] log_sizes)

lemma ReadPhysicalRecord_block:
  "length (lr_buffer r) < 7 \<Longrightarrow> \<not> lr_eof r \<Longrightarrow> read_block rd r = (True, r1) \<Longrightarrow>
    ReadPhysicalRecord rd r = ReadPhysicalRecord rd r1"
  by (subst ReadPhysicalRecord.simps) (simp add: log_sizes)

lemma ReadPhysicalRecord_end:
  "length (lr_buffer r) < 7 \<Longrightarrow> lr_eof r \<Longrightarrow> ReadPhysicalRecord rd r = ((kEof, []), r\<lparr>lr_buffer := []\<rparr>)"
  by (simp add: ReadPhysicalRecord.simps [of rd r] log_sizes)

lemma length_fragment_bytes [simp]: "length (fragment_bytes off t p) = block_pad off + (7 + length p)"
  by (simp add: fragment_bytes_def)

text \<open>A fragment that is in the file is read, across the padding at the end of a block.\<close>

lemma physical_at:
  assumes at: "reader_at F pos r" and bytes: "drop pos F = fragment_bytes off t p @ rest"
    and off: "off \<le> kBlockSize" "off mod kBlockSize = pos mod kBlockSize"
    and room: "length p \<le> block_avail off" and t: "valid_type t" and rd: "\<And>n. rd n"
  shows "\<exists>r'. ReadPhysicalRecord rd r = ((t, p), r') \<and> reader_at F (pos + length (fragment_bytes off t p)) r'"
proof (cases "7 \<le> length (lr_buffer r)")
  case True
  have "length (lr_buffer r) \<le> kBlockSize - pos mod kBlockSize" using at by (simp add: reader_at_def Let_def)
  then have pad: "block_pad off = 0" "block_start off = pos mod kBlockSize" using off_cases [OF off] True by simp_all
  then have "pos mod kBlockSize + 7 + length p \<le> kBlockSize" using block_start_room [OF off(1)] room by simp
  from parse_at [OF at _ this t True] bytes pad show ?thesis
    by (simp add: ReadPhysicalRecord_parse [OF True] fragment_bytes_def)
next
  case False
  have "\<not> lr_eof r"
  proof
    assume "lr_eof r"
    then have "lr_buffer r = drop pos F" using at by (auto simp: reader_at_def Let_def)
    then show False using False bytes by simp
  qed
  have small: "length (lr_buffer r) < 7" using False by simp
  obtain e r1
    where e: "read_block rd r = (True, r1)" and buf: "e = pos + length (lr_buffer r)" and pe: "pos \<le> e"
      and e0: "e mod kBlockSize = 0" and le: "e \<le> length F" and at1: "reader_at F e r1"
      and b1: "lr_buffer r1 = take kBlockSize (drop e F)" and eof1: "lr_eof r1 \<longleftrightarrow> length F - e < kBlockSize"
      and ep: "e - pos = (if pos mod kBlockSize = 0 then 0 else kBlockSize - pos mod kBlockSize)"
    by (rule read_block_at [OF at \<open>\<not> lr_eof r\<close> small rd])
  have pad: "block_pad off = e - pos" using off_cases [OF off] ep small buf by (auto split: if_splits)
  have "drop e F = drop (e - pos) (drop pos F)" using pe by simp
  also have "\<dots> = log_header t p @ p @ rest" unfolding bytes fragment_bytes_def pad [symmetric] by simp
  finally have d: "drop e F = log_header t p @ p @ rest" .
  have big: "7 \<le> length (lr_buffer r1)" by (simp add: b1 d log_sizes)
  have "length p + 7 \<le> kBlockSize" using room block_start_room [OF off(1)] by simp
  then have "e mod kBlockSize + 7 + length p \<le> kBlockSize" using e0 by simp
  from parse_at [OF at1 d this t big] obtain r' where "parse_physical r1 = ((t, p), r')" "reader_at F (e + (7 + length p)) r'" by blast
  moreover have "e + (7 + length p) = pos + length (fragment_bytes off t p)" using pad pe by simp
  ultimately show ?thesis
    using ReadPhysicalRecord_block [OF small \<open>\<not> lr_eof r\<close> e] ReadPhysicalRecord_parse [OF big] by auto
qed

text \<open>A fragment that is cut off by the end of the file ends the log, without a report.\<close>

lemma parse_cut:
  assumes "lr_buffer r @ x = log_header t p @ p" "x \<noteq> []" "7 \<le> length (lr_buffer r)" "lr_eof r" "length p < 65536"
  shows "parse_physical r = ((kEof, []), r\<lparr>lr_buffer := []\<rparr>)"
proof -
  have "lr_buffer r = log_header t p @ take (length (lr_buffer r) - 7) p"
    using arg_cong [OF assms(1), of "take (length (lr_buffer r))"] assms(3) by simp
  then obtain q where b: "lr_buffer r = log_header t p @ q" by blast
  have "length (lr_buffer r) + length x = 7 + length p" using arg_cong [OF assms(1), of length] by simp
  moreover have "0 < length x" using assms(2) by simp
  ultimately have "length (lr_buffer r) < 7 + length p" by linarith
  then have l: "length (log_header t p @ q) < kHeaderSize + length p" by (simp add: b log_sizes)
  have h: "(log_header t p @ q) ! 4 = word_of_nat (length p mod 256)" "(log_header t p @ q) ! 5 = word_of_nat (length p div 256)"
    by (simp_all add: log_header_def nth_append)
  show ?thesis unfolding parse_physical_def Let_def b h length_join [OF assms(5)] using l assms(4) by simp
qed

lemma physical_cut:
  assumes at: "reader_at F pos r" and bytes: "drop pos F @ x = fragment_bytes off t p" "x \<noteq> []"
    and off: "off \<le> kBlockSize" "off mod kBlockSize = pos mod kBlockSize"
    and room: "length p \<le> block_avail off" and rd: "\<And>n. rd n"
  shows "\<exists>r'. ReadPhysicalRecord rd r = ((kEof, []), r') \<and> lr_reports r' = [] \<and> \<not> lr_resyncing r'"
proof -
  have cut: "\<exists>r'. ReadPhysicalRecord rd s = ((kEof, []), r') \<and> lr_reports r' = [] \<and> \<not> lr_resyncing r'"
    if "lr_eof s" "reader_at F e s" "drop e F @ x = log_header t p @ p \<or> length (drop e F) < 7" for s e
  proof -
    have b: "lr_buffer s = drop e F" "lr_reports s = []" "\<not> lr_resyncing s"
      using that(1,2) by (auto simp: reader_at_def Let_def)
    have "length p < 65536" using room block_start_room [OF off(1)] by (simp add: log_sizes)
    then show ?thesis
      using parse_cut [of s x t p] ReadPhysicalRecord_end [of s rd] ReadPhysicalRecord_parse [of s rd] that(1,3) b bytes(2)
      by (cases "7 \<le> length (lr_buffer s)") auto
  qed
  have len: "length (drop pos F) < block_pad off + (7 + length p)"
    using arg_cong [OF bytes(1), of length] bytes(2) by simp (metis add_less_cancel_left length_greater_0_conv less_add_same_cancel1)
  show ?thesis
  proof (cases "lr_eof r")
    case True
    have "drop pos F @ x = log_header t p @ p \<or> length (drop pos F) < 7"
    proof (cases "block_pad off = 0")
      case True
      then show ?thesis using bytes(1) by (simp add: fragment_bytes_def)
    next
      case False
      have "length (lr_buffer r) \<le> kBlockSize - pos mod kBlockSize" "lr_buffer r = drop pos F"
        using at \<open>lr_eof r\<close> by (auto simp: reader_at_def Let_def)
      then show ?thesis using False off_cases [OF off] by (auto split: if_splits)
    qed
    then show ?thesis by (rule cut [OF True at])
  next
    case False
    have le: "pos + length (lr_buffer r) \<le> length F" "length (lr_buffer r) \<le> kBlockSize - pos mod kBlockSize"
      "(pos + length (lr_buffer r)) mod kBlockSize = 0"
      using at False by (simp_all add: reader_at_def Let_def)
    have small: "length (lr_buffer r) < 7"
    proof (rule ccontr)
      assume big: "\<not> length (lr_buffer r) < 7"
      then have "0 < length (lr_buffer r)" by linarith
      then have n: "length (lr_buffer r) = kBlockSize - pos mod kBlockSize" by (rule block_mod [OF _ le(2,3)])
      then have "block_pad off = 0" "block_start off = pos mod kBlockSize" using big off_cases [OF off] by simp_all
      then show False using len le(1) n room block_start_room [OF off(1)] by simp
    qed
    obtain e r1
    where e: "read_block rd r = (True, r1)" and buf: "e = pos + length (lr_buffer r)" and pe: "pos \<le> e"
      and e0: "e mod kBlockSize = 0" and ele: "e \<le> length F" and at1: "reader_at F e r1"
      and b1: "lr_buffer r1 = take kBlockSize (drop e F)" and eof1: "lr_eof r1 \<longleftrightarrow> length F - e < kBlockSize"
      and ep: "e - pos = (if pos mod kBlockSize = 0 then 0 else kBlockSize - pos mod kBlockSize)"
      by (rule read_block_at [OF at False small rd])
    have pad: "block_pad off = e - pos" using off_cases [OF off] ep small buf by (auto split: if_splits)
    have "drop e F @ x = drop (e - pos) (drop pos F @ x)" using ele pe by simp
    also have "\<dots> = log_header t p @ p" unfolding bytes fragment_bytes_def pad [symmetric] by simp
    finally have d: "drop e F @ x = log_header t p @ p" .
    have "length (drop e F) < 7 + length p" using arg_cong [OF d, of length] bytes(2) by simp (metis add_less_cancel_left length_greater_0_conv less_add_same_cancel1)
    then have "lr_eof r1" using eof1 room block_start_room [OF off(1)] by simp
    from cut [OF this at1] d show ?thesis using ReadPhysicalRecord_block [OF small False e] by simp
  qed
qed

subsection \<open>Records\<close>

lemma record_step_fragment:
  assumes "\<not> lr_resyncing r" "b \<longrightarrow> s = []"
  shows "\<exists>off'. record_step (\<not> b) s off (fragment_type b e) p r =
    (if e then (Inl (Some (s @ p)), r\<lparr>lr_last_record_offset := off'\<rparr>) else (Inr (True, s @ p, off'), r))"
proof -
  have r: "r\<lparr>lr_resyncing := False\<rparr> = r" using assms(1) by simp
  show ?thesis
    using assms by (cases b; cases e) (auto simp: record_step_def fragment_type_def record_types Let_def r)
qed

lemma reader_at_last [simp]: "reader_at F pos (r\<lparr>lr_last_record_offset := v\<rparr>) = reader_at F pos r"
  by (simp add: reader_at_def Let_def)

lemma reader_atD: "reader_at F pos r \<Longrightarrow> \<not> lr_resyncing r" "reader_at F pos r \<Longrightarrow> lr_reports r = []"
  "reader_at F pos r \<Longrightarrow> lr_initial_offset r = 0"
  by (simp_all add: reader_at_def)

lemma off_next:
  assumes "off \<le> kBlockSize" "off mod kBlockSize = pos mod kBlockSize"
  shows "(block_start off + n) mod kBlockSize = (pos + (block_pad off + n)) mod kBlockSize"
proof -
  have "block_start off mod kBlockSize = (off + block_pad off) mod kBlockSize"
    using assms(1) by (auto simp: block_start_def block_pad_def log_sizes)
  then have "(block_start off + n) mod kBlockSize = (off + block_pad off + n) mod kBlockSize"
    by (metis mod_add_left_eq)
  also have "\<dots> = (pos + (block_pad off + n)) mod kBlockSize"
    using assms(2) by (metis add.assoc mod_add_left_eq)
  finally show ?thesis .
qed

lemma next_off_le: "off \<le> kBlockSize \<Longrightarrow> n \<le> block_avail off \<Longrightarrow> block_start off + (7 + n) \<le> kBlockSize"
  using block_start_room [of off] by simp

lemma record_at:
  assumes rd: "\<And>n. rd n"
  shows "fragments b off p bs off' \<Longrightarrow> reader_at F pos r \<Longrightarrow> drop pos F = bs @ rest \<Longrightarrow> off \<le> kBlockSize \<Longrightarrow>
    off mod kBlockSize = pos mod kBlockSize \<Longrightarrow> b \<longrightarrow> s = [] \<Longrightarrow>
    \<exists>r'. read_record_loop rd (\<not> b) s pr r = (Some (s @ p), r') \<and> reader_at F (pos + length bs) r' \<and>
      off' mod kBlockSize = (pos + length bs) mod kBlockSize"
proof (induction arbitrary: pos r s pr rule: fragments.induct)
  case (final p off b)
  from physical_at [where rd = rd, OF final.prems(1,2) final.prems(3,4) final.hyps valid_fragment_type rd] obtain r1
    where r1: "ReadPhysicalRecord rd r = ((fragment_type b True, p), r1)"
      "reader_at F (pos + length (fragment_bytes off (fragment_type b True) p)) r1" by blast
  from record_step_fragment [OF reader_atD(1) [OF r1(2)] final.prems(5), of pr True p] r1 off_next [OF final.prems(3,4), of "7 + length p"]
  show ?case by (auto simp: read_record_loop.simps [of rd "\<not> b"])
next
  case (more off p q bs off' b)
  have q: "length q \<le> block_avail off" using more.hyps(2) by simp
  have "drop pos F = fragment_bytes off (fragment_type b False) q @ bs @ rest" using more.prems(2) by simp
  from physical_at [where rd = rd, OF more.prems(1) this more.prems(3,4) q valid_fragment_type rd] obtain r1
    where r1: "ReadPhysicalRecord rd r = ((fragment_type b False, q), r1)"
      "reader_at F (pos + length (fragment_bytes off (fragment_type b False) q)) r1" by blast
  let ?pos = "pos + length (fragment_bytes off (fragment_type b False) q)"
  have d: "drop ?pos F = bs @ rest" using more.prems(2) by (metis add.commute append_assoc append_eq_conv_conj drop_drop)
  have m: "(block_start off + (7 + length q)) mod kBlockSize = ?pos mod kBlockSize"
    using off_next [OF more.prems(3,4)] by simp
  obtain off'' where step: "record_step (\<not> b) s pr (fragment_type b False) q r1 = (Inr (True, s @ q, off''), r1)"
    using record_step_fragment [OF reader_atD(1) [OF r1(2)] more.prems(5), of pr False q] by auto
  from more.IH [OF r1(2) d next_off_le [OF more.prems(3) q] m, of "s @ q" off''] obtain r'
    where r': "read_record_loop rd True (s @ q) off'' r1 = (Some ((s @ q) @ drop (block_avail off) p), r')"
      "reader_at F (?pos + length bs) r'" "off' mod kBlockSize = (?pos + length bs) mod kBlockSize" by auto
  have "(s @ q) @ drop (block_avail off) p = s @ p" by (simp add: more.hyps(2))
  with r' r1(1) step show ?case by (simp add: read_record_loop.simps [of rd "\<not> b"] add.assoc)
qed

lemma record_cut:
  assumes rd: "\<And>n. rd n"
  shows "fragments b off p bs off' \<Longrightarrow> reader_at F pos r \<Longrightarrow> drop pos F @ x = bs \<Longrightarrow> x \<noteq> [] \<Longrightarrow> off \<le> kBlockSize \<Longrightarrow>
    off mod kBlockSize = pos mod kBlockSize \<Longrightarrow> b \<longrightarrow> s = [] \<Longrightarrow>
    \<exists>r'. read_record_loop rd (\<not> b) s pr r = (None, r') \<and> lr_reports r' = []"
proof (induction arbitrary: pos r s pr rule: fragments.induct)
  case (final p off b)
  from physical_cut [where rd = rd, OF final.prems(1,2,3,4,5) final.hyps rd] obtain r1
    where r1: "ReadPhysicalRecord rd r = ((kEof, []), r1)" "lr_reports r1 = []" "\<not> lr_resyncing r1" by blast
  then show ?case
    by (auto simp: read_record_loop.simps [of rd "\<not> b"] record_step_def record_types Let_def)
next
  case (more off p q bs off' b)
  have q: "length q \<le> block_avail off" using more.hyps(2) by simp
  let ?fb = "fragment_bytes off (fragment_type b False) q"
  show ?case
  proof (cases "length (drop pos F) < length ?fb")
    case True
    have "drop pos F = take (length (drop pos F)) ?fb"
      using arg_cong [OF more.prems(2), of "take (length (drop pos F))"] True by simp
    then have y: "drop pos F @ drop (length (drop pos F)) ?fb = ?fb" "drop (length (drop pos F)) ?fb \<noteq> []"
      using True by (metis append_take_drop_id, simp)
    from physical_cut [where rd = rd, OF more.prems(1) y more.prems(4,5) q rd] obtain r1
      where r1: "ReadPhysicalRecord rd r = ((kEof, []), r1)" "lr_reports r1 = []" "\<not> lr_resyncing r1" by blast
    then show ?thesis
      by (auto simp: read_record_loop.simps [of rd "\<not> b"] record_step_def record_types Let_def)
  next
    case False
    define rest where "rest = drop (length ?fb) (drop pos F)"
    have "take (length ?fb) (drop pos F) = ?fb"
      using arg_cong [OF more.prems(2), of "take (length ?fb)"] False by simp
    then have rest: "drop pos F = ?fb @ rest" by (metis append_take_drop_id rest_def)
    then have rest_x: "rest @ x = bs" using more.prems(2) by simp
    from physical_at [where rd = rd, OF more.prems(1) rest more.prems(4,5) q valid_fragment_type rd] obtain r1
      where r1: "ReadPhysicalRecord rd r = ((fragment_type b False, q), r1)" "reader_at F (pos + length ?fb) r1" by blast
    have d: "drop (pos + length ?fb) F @ x = bs"
      unfolding rest_x [symmetric] using rest by (metis add.commute append_eq_conv_conj drop_drop)
    have m: "(block_start off + (7 + length q)) mod kBlockSize = (pos + length ?fb) mod kBlockSize"
      using off_next [OF more.prems(4,5)] by simp
    obtain off'' where step: "record_step (\<not> b) s pr (fragment_type b False) q r1 = (Inr (True, s @ q, off''), r1)"
      using record_step_fragment [OF reader_atD(1) [OF r1(2)] more.prems(6), of pr False q] by auto
    from more.IH [OF r1(2) d more.prems(3) next_off_le [OF more.prems(4) q] m, of "s @ q" off''] r1(1) step
    show ?thesis by (auto simp: read_record_loop.simps [of rd "\<not> b"])
  qed
qed

lemma ReadRecord_at: "reader_at F pos r \<Longrightarrow> ReadRecord rd sk r = read_record_loop rd False [] 0 r"
  by (simp add: ReadRecord_def reader_atD(3))

subsection \<open>The log\<close>

fun write_log :: "file_io \<Rightarrow> (u8 list \<Rightarrow> bool) \<Rightarrow> slice list \<Rightarrow> log_writer \<Rightarrow> log_writer option" where
  "write_log wr fl [] w = Some w"
| "write_log wr fl (p # ps) w =
     (case AddRecord wr fl p w of (s, w') \<Rightarrow> if s then write_log wr fl ps w' else None)"

fun read_log :: "nat \<Rightarrow> (nat \<Rightarrow> bool) \<Rightarrow> (nat \<Rightarrow> bool) \<Rightarrow> log_reader \<Rightarrow> slice list \<times> log_reader" where
  "read_log 0 rd sk r = ([], r)"
| "read_log (Suc k) rd sk r =
     (case ReadRecord rd sk r of
        (None, r') \<Rightarrow> ([], r')
      | (Some p, r') \<Rightarrow> (case read_log k rd sk r' of (ps, r'') \<Rightarrow> (p # ps, r'')))"

inductive log_layout :: "nat \<Rightarrow> slice list \<Rightarrow> u8 list list \<Rightarrow> bool" where
  Nil: "log_layout off [] []"
| Cons: "fragments True off p bs off' \<Longrightarrow> log_layout off' ps bss \<Longrightarrow> log_layout off (p # ps) (bs # bss)"

inductive_cases log_layout_ConsE: "log_layout off (p # ps) bss"

lemma write_log_layout:
  assumes "\<forall>f s. wr f s = None"
  shows "write_log wr fl ps w = Some w' \<Longrightarrow> lw_type_crc w = InitTypeCrc \<Longrightarrow> lw_block_offset w \<le> kBlockSize \<Longrightarrow>
    \<exists>bss. log_layout (lw_block_offset w) ps bss \<and>
      (\<forall>j wj. write_log wr fl (take j ps) w = Some wj \<longrightarrow> lw_dest wj = lw_dest w @ concat (take j bss))"
proof (induction ps arbitrary: w)
  case Nil
  then show ?case by (auto intro: log_layout.Nil)
next
  case (Cons p ps)
  obtain w1 where w1: "AddRecord wr fl p w = (True, w1)" "write_log wr fl ps w1 = Some w'"
    using Cons.prems(1) by (auto split: prod.splits if_splits)
  obtain bs where bs: "fragments True (lw_block_offset w) p bs (lw_block_offset w1)" "lw_dest w1 = lw_dest w @ bs"
      "lw_type_crc w1 = InitTypeCrc"
    using add_record_loop_fragments [OF assms Cons.prems(2,3) w1(1) [unfolded AddRecord_def]] by blast
  obtain bss where bss: "log_layout (lw_block_offset w1) ps bss"
    "\<And>j wj. write_log wr fl (take j ps) w1 = Some wj \<Longrightarrow> lw_dest wj = lw_dest w1 @ concat (take j bss)"
    using Cons.IH [OF w1(2) bs(3) fragments_off [OF bs(1) Cons.prems(3)]] by blast
  have "lw_dest wj = lw_dest w @ concat (take j (bs # bss))"
    if "write_log wr fl (take j (p # ps)) w = Some wj" for j wj
    using that w1(1) bs(2) bss(2) by (cases j) auto
  with log_layout.Cons [OF bs(1) bss(1)] show ?case by blast
qed

lemma log_layout_length: "log_layout off ps bss \<Longrightarrow> length bss = length ps"
  by (induction rule: log_layout.induct) simp_all

text \<open>Reading what is left of the layout in the first \<open>n\<close> bytes.\<close>

lemma read_log_prefix:
  assumes rd: "\<And>n. rd n"
  shows "log_layout off ps bss \<Longrightarrow> reader_at (take n D) pos r \<Longrightarrow> drop pos D = concat bss \<Longrightarrow> pos \<le> n \<Longrightarrow>
    off \<le> kBlockSize \<Longrightarrow> off mod kBlockSize = pos mod kBlockSize \<Longrightarrow> length ps < k \<Longrightarrow>
    \<exists>m r'. read_log k rd sk r = (take m ps, r') \<and> lr_reports r' = [] \<and> m \<le> length ps \<and>
      (\<forall>j\<le>length ps. j \<le> m \<longleftrightarrow> pos + length (concat (take j bss)) \<le> n)"
proof (induction arbitrary: pos r k rule: log_layout.induct)
  case (Nil off)
  from Nil.prems(6) obtain k' where k: "k = Suc k'" by (cases k) auto
  have "drop pos (take n D) = []" using Nil.prems(2) by (simp add: drop_take)
  then obtain r1 where r1: "ReadRecord rd sk r = (None, r1)" "lr_reports r1 = []"
    using record_cut [where rd = rd, OF rd fragments.final [of "[]" off True] Nil.prems(1) _ _ Nil.prems(4,5), of _ "[]" 0]
    by (auto simp: ReadRecord_at [OF Nil.prems(1)] fragment_bytes_def log_header_def)
  then show ?case using Nil.prems(3) by (auto simp: k)
next
  case (Cons off p bs off' ps bss)
  from Cons.prems(6) obtain k' where k: "k = Suc k'" "length ps < k'" by (cases k) auto
  note R = ReadRecord_at [OF Cons.prems(1), of rd sk]
  have D: "drop pos D = bs @ concat bss" using Cons.prems(2) by simp
  have F: "drop pos (take n D) = take (n - pos) (bs @ concat bss)" unfolding D [symmetric] by (rule drop_take)
  show ?case
  proof (cases "pos + length bs \<le> n")
    case True
    then have "drop pos (take n D) = bs @ take (n - pos - length bs) (concat bss)" unfolding F by simp
    from record_at [where rd = rd and s = "[]" and pr = 0, OF rd Cons.hyps(1) Cons.prems(1) this Cons.prems(4,5)] obtain r1
      where r1: "ReadRecord rd sk r = (Some p, r1)" "reader_at (take n D) (pos + length bs) r1"
        "off' mod kBlockSize = (pos + length bs) mod kBlockSize"
      unfolding R by auto
    have "drop (pos + length bs) D = concat bss" using D by (metis add.commute append_eq_conv_conj drop_drop)
    from Cons.IH [OF r1(2) this True fragments_off [OF Cons.hyps(1) Cons.prems(4)] r1(3) k(2)] obtain m r'
      where m: "read_log k' rd sk r1 = (take m ps, r')" "lr_reports r' = []" "m \<le> length ps"
        "\<And>j. j \<le> length ps \<Longrightarrow> j \<le> m \<longleftrightarrow> pos + length bs + length (concat (take j bss)) \<le> n" by blast
    have "j \<le> Suc m \<longleftrightarrow> pos + length (concat (take j (bs # bss))) \<le> n" if "j \<le> length (p # ps)" for j
      using that m(4) [of "j - 1"] Cons.prems(3) by (cases j) (auto simp: add.assoc)
    then show ?thesis
      using m r1(1) by (intro exI [of _ "Suc m"] exI [of _ r']) (simp add: k)
  next
    case False
    have x: "drop pos (take n D) @ drop (n - pos) bs = bs" "drop (n - pos) bs \<noteq> []"
      unfolding F using False Cons.prems(3) by simp_all
    from record_cut [where rd = rd and s = "[]" and pr = 0, OF rd Cons.hyps(1) Cons.prems(1) x Cons.prems(4,5)]
    obtain r1 where r1: "ReadRecord rd sk r = (None, r1)" "lr_reports r1 = []"
      unfolding R by auto
    have "j \<le> 0 \<longleftrightarrow> pos + length (concat (take j (bs # bss))) \<le> n" for j
      using False Cons.prems(3) by (cases j) auto
    then show ?thesis using r1 by (intro exI [of _ 0] exI [of _ r1]) (simp add: k)
  qed
qed

subsection \<open>Recovery after a crash\<close>

lemma log_prefix_recovery:
  assumes io: "\<forall>f s. wr f s = None" "\<forall>left. rd left"
    and wrote: "write_log wr fl ps (Writer [] 0) = Some w" and k: "length ps < k"
  shows "\<exists>m r. read_log k rd sk (Reader (take n (lw_dest w)) rep chk 0) = (take m ps, r) \<and> lr_reports r = [] \<and>
    m \<le> length ps \<and>
    (\<forall>j wj. j \<le> length ps \<and> write_log wr fl (take j ps) (Writer [] 0) = Some wj \<longrightarrow>
      (j \<le> m \<longleftrightarrow> length (lw_dest wj) \<le> n))"
proof -
  obtain bss where bss: "log_layout 0 ps bss"
    and dest: "\<And>j wj. write_log wr fl (take j ps) (Writer [] 0) = Some wj \<Longrightarrow> lw_dest wj = concat (take j bss)"
    using write_log_layout [OF io(1) wrote] by (auto simp: Writer_def log_sizes)
  have "lw_dest w = concat bss" using dest [of "length ps" w] wrote log_layout_length [OF bss] by simp
  then have "drop 0 (lw_dest w) = concat bss" by simp
  from read_log_prefix [where rd = rd and sk = sk, OF io(2) [rule_format] bss reader_at_start this le0 le0 refl k, of n rep chk]
  obtain m r where m: "read_log k rd sk (Reader (take n (lw_dest w)) rep chk 0) = (take m ps, r)" "lr_reports r = []"
      "m \<le> length ps" "\<And>j. j \<le> length ps \<Longrightarrow> j \<le> m \<longleftrightarrow> length (concat (take j bss)) \<le> n"
    unfolding add_0 by blast
  have "j \<le> m \<longleftrightarrow> length (lw_dest wj) \<le> n"
    if "j \<le> length ps" "write_log wr fl (take j ps) (Writer [] 0) = Some wj" for j wj
    using m(4) [OF that(1)] dest [OF that(2)] by simp
  with m(1-3) show ?thesis by blast
qed

text \<open>
  Property C9. Recovery: what a crash leaves of a log, any prefix of the bytes its writer has appended, is
  read back as the records whose bytes are all there, in order, then the end of the log, and nothing is
  reported as corrupted, with checksums on or off. It holds of records of every length, of the fragments
  they are cut into and of the padding at the end of a block.
\<close>

theorem log_crash_recovery:
  assumes io: "\<forall>f s. wr f s = None" "\<forall>left. rd left"
    and wrote: "write_log wr fl ps (Writer [] 0) = Some w" and k: "length ps < k"
  shows "\<exists>m r. read_log k rd sk (Reader (take n (lw_dest w)) rep chk 0) = (take m ps, r) \<and> lr_reports r = [] \<and>
    m \<le> length ps \<and>
    (\<forall>j wj. j \<le> length ps \<and> write_log wr fl (take j ps) (Writer [] 0) = Some wj \<longrightarrow>
      (j \<le> m \<longleftrightarrow> length (lw_dest wj) \<le> n))"
  by (rule log_prefix_recovery [OF assms])

text \<open>At a log of an empty record and a record of two bytes, cut off in the last byte.\<close>

lemma log_crash_recovery_witness:
  "\<exists>w r. write_log (\<lambda>_ _. None) (\<lambda>_. True) [[], [1, 2]] (Writer [] 0) = Some w \<and> length (lw_dest w) = 16 \<and>
    read_log 3 (\<lambda>_. True) (\<lambda>_. True) (Reader (take 15 (lw_dest w)) True True 0) = ([[]], r) \<and> lr_reports r = []"
proof -
  let ?wr = "\<lambda>_ _. None :: nat option" and ?fl = "\<lambda>_. True" and ?ps = "[[], [1, 2]] :: slice list"
  have "AddRecord ?wr ?fl p w = (True, w\<lparr>lw_dest := lw_dest w @ fragment_bytes (lw_block_offset w) kFullType p,
      lw_block_offset := lw_block_offset w + (7 + length p)\<rparr>)"
    if "lw_type_crc w = InitTypeCrc" "lw_block_offset w + 7 + length p \<le> kBlockSize" for p w
    using that add_fragment_ok [of ?wr w "length p" p _ True ?fl, OF _ _ _ _ refl]
    by (simp add: AddRecord_def add_record_loop.simps [of ?wr] block_avail_def block_start_def log_sizes fragment_type_def)
  then obtain w w1 where w: "write_log ?wr ?fl ?ps (Writer [] 0) = Some w" "length (lw_dest w) = 16"
    and w1: "write_log ?wr ?fl (take 1 ?ps) (Writer [] 0) = Some w1" "length (lw_dest w1) = 7"
    by (simp add: Writer_def log_sizes block_pad_def)
  have h: "\<forall>f s. ?wr f s = None" "\<forall>left. ?fl left" "length ?ps < 3" by simp_all
  obtain m r where r: "read_log 3 ?fl ?fl (Reader (take 15 (lw_dest w)) True True 0) = (take m ?ps, r)" "lr_reports r = []"
    and m: "\<And>j wj. j \<le> length ?ps \<Longrightarrow> write_log ?wr ?fl (take j ?ps) (Writer [] 0) = Some wj \<Longrightarrow> j \<le> m \<longleftrightarrow> length (lw_dest wj) \<le> 15"
    using log_crash_recovery [OF h(1,2) w(1) h(3), of ?fl 15 True True] by blast
  have "m = 1" using m [OF _ w1(1)] m [of 2 w] w w1(2) by simp
  with r w show ?thesis by auto
qed

end
