(* ===== verification/LDB_SkipList.thy ===== *)
theory LDB_SkipList
  imports Prelude Qsort
begin

text \<open>
  The skip list under LevelDB's memory table (\<open>db/skiplist.h\<close>) and its random numbers
  (\<open>util/random.h\<close>). Nodes have addresses, the head has address 0; the arena hands out the addresses in
  order. Reading through a pointer that is not a node, or a link above the height of a node, gives
  \<open>None\<close>, as does a loop that does not end.
\<close>

subsection \<open>Random numbers\<close>

definition new_Random :: "u32 \<Rightarrow> u32" where
  "new_Random s = (let seed = s AND 0x7fffffff in if seed = 0 \<or> seed = 2147483647 then 1 else seed)"

definition Random_Next :: "u32 \<Rightarrow> u32 \<times> u32" where
  "Random_Next seed =
     (let M = 2147483647 :: u32; A = 16807 :: u64;
          product = ucast seed * A;
          seed = ucast (drop_bit 31 product + (product AND ucast M)) :: u32;
          seed = (if M < seed then seed - M else seed)
      in (seed, seed))"

subsection \<open>The list\<close>

record 'k sl_node =
  sl_key :: 'k
  sl_next :: "nat option list"

record 'k skiplist =
  sl_nodes :: "nat \<Rightarrow> 'k sl_node option"
  sl_arena :: nat
  sl_max_height :: nat
  sl_rnd :: u32

definition kMaxHeight :: nat where
  "kMaxHeight = 12"

definition node_next :: "'k skiplist \<Rightarrow> nat \<Rightarrow> nat \<Rightarrow> nat option option" where
  "node_next s x n =
     (case sl_nodes s x of
        None \<Rightarrow> None
      | Some nd \<Rightarrow> if n < length (sl_next nd) then Some (sl_next nd ! n) else None)"

definition set_next :: "nat \<Rightarrow> nat \<Rightarrow> nat option \<Rightarrow> 'k skiplist \<Rightarrow> 'k skiplist" where
  "set_next x n y s =
     (case sl_nodes s x of
        None \<Rightarrow> s
      | Some nd \<Rightarrow> s\<lparr>sl_nodes := (sl_nodes s)(x \<mapsto> nd\<lparr>sl_next := (sl_next nd)[n := y]\<rparr>)\<rparr>)"

text \<open>A new node; its links are not initialised in the code, here they are null.\<close>

definition NewNode :: "'k \<Rightarrow> nat \<Rightarrow> 'k skiplist \<Rightarrow> nat \<times> 'k skiplist" where
  "NewNode key height s =
     (sl_arena s,
      s\<lparr>sl_nodes := (sl_nodes s)(sl_arena s \<mapsto> \<lparr>sl_key = key, sl_next = replicate height None\<rparr>),
        sl_arena := Suc (sl_arena s)\<rparr>)"

definition new_SkipList :: "'k \<Rightarrow> 'k skiplist" where
  "new_SkipList any_key =
     (let (head, s) = NewNode any_key kMaxHeight
            \<lparr>sl_nodes = (\<lambda>_. None), sl_arena = 0, sl_max_height = 1, sl_rnd = new_Random 0xdeadbeef\<rparr>
      in foldl (\<lambda>s i. set_next head i None s) s [0..<kMaxHeight])"

function random_height_loop :: "nat \<Rightarrow> u32 \<Rightarrow> nat \<times> u32" where
  "random_height_loop height rnd =
     (if height < kMaxHeight
      then (let (r, rnd) = Random_Next rnd
            in if r mod 4 = 0 then random_height_loop (height + 1) rnd else (height, rnd))
      else (height, rnd))"
  by pat_completeness auto
termination
  by (relation "measure (\<lambda>(height, rnd). kMaxHeight - height)") auto

declare random_height_loop.simps [simp del]

definition RandomHeight :: "u32 \<Rightarrow> nat \<times> u32" where
  "RandomHeight rnd = random_height_loop 1 rnd"

definition node_key :: "'k skiplist \<Rightarrow> nat \<Rightarrow> 'k" where
  "node_key s n = sl_key (the (sl_nodes s n))"

definition KeyIsAfterNode :: "('k \<Rightarrow> 'k \<Rightarrow> int) \<Rightarrow> 'k skiplist \<Rightarrow> 'k \<Rightarrow> nat option \<Rightarrow> bool" where
  "KeyIsAfterNode cmp s key n = (case n of None \<Rightarrow> False | Some n \<Rightarrow> cmp (node_key s n) key < 0)"

text \<open>
  The three searches go right or down. \<open>prev\<close> is the array that \<open>FindGreaterOrEqual\<close> fills; where the
  caller passes a null pointer it is empty, and stays so.
\<close>

partial_function (option) find_ge_loop ::
  "('k \<Rightarrow> 'k \<Rightarrow> int) \<Rightarrow> 'k skiplist \<Rightarrow> 'k \<Rightarrow> nat \<Rightarrow> nat \<Rightarrow> nat list \<Rightarrow> (nat option \<times> nat list) option" where
  "find_ge_loop cmp s key x level prev =
     Option.bind (node_next s x level) (\<lambda>next.
       if KeyIsAfterNode cmp s key next then find_ge_loop cmp s key (the next) level prev
       else if level = 0 then Some (next, prev[level := x])
       else find_ge_loop cmp s key x (level - 1) (prev[level := x]))"

definition FindGreaterOrEqual ::
  "('k \<Rightarrow> 'k \<Rightarrow> int) \<Rightarrow> 'k skiplist \<Rightarrow> 'k \<Rightarrow> nat list \<Rightarrow> (nat option \<times> nat list) option" where
  "FindGreaterOrEqual cmp s key prev = find_ge_loop cmp s key 0 (sl_max_height s - 1) prev"

partial_function (option) find_less_loop ::
  "('k \<Rightarrow> 'k \<Rightarrow> int) \<Rightarrow> 'k skiplist \<Rightarrow> 'k \<Rightarrow> nat \<Rightarrow> nat \<Rightarrow> nat option" where
  "find_less_loop cmp s key x level =
     Option.bind (node_next s x level) (\<lambda>next.
       if next = None \<or> 0 \<le> cmp (node_key s (the next)) key
       then (if level = 0 then Some x else find_less_loop cmp s key x (level - 1))
       else find_less_loop cmp s key (the next) level)"

definition FindLessThan :: "('k \<Rightarrow> 'k \<Rightarrow> int) \<Rightarrow> 'k skiplist \<Rightarrow> 'k \<Rightarrow> nat option" where
  "FindLessThan cmp s key = find_less_loop cmp s key 0 (sl_max_height s - 1)"

partial_function (option) find_last_loop :: "'k skiplist \<Rightarrow> nat \<Rightarrow> nat \<Rightarrow> nat option" where
  "find_last_loop s x level =
     Option.bind (node_next s x level) (\<lambda>next.
       if next = None then (if level = 0 then Some x else find_last_loop s x (level - 1))
       else find_last_loop s (the next) level)"

definition FindLast :: "'k skiplist \<Rightarrow> nat option" where
  "FindLast s = find_last_loop s 0 (sl_max_height s - 1)"

definition Contains :: "('k \<Rightarrow> 'k \<Rightarrow> int) \<Rightarrow> 'k skiplist \<Rightarrow> 'k \<Rightarrow> bool option" where
  "Contains cmp s key =
     Option.bind (FindGreaterOrEqual cmp s key []) (\<lambda>(x, _).
       Some (case x of None \<Rightarrow> False | Some n \<Rightarrow> cmp key (node_key s n) = 0))"

text \<open>The steps of an insertion: the height, the new node, and its link at each level.\<close>

definition raise_height :: "nat \<Rightarrow> nat list \<Rightarrow> 'k skiplist \<Rightarrow> nat list \<times> 'k skiplist" where
  "raise_height height prev s =
     (if sl_max_height s < height
      then (foldl (\<lambda>prev i. prev[i := 0]) prev [sl_max_height s..<height], s\<lparr>sl_max_height := height\<rparr>)
      else (prev, s))"

definition link_own :: "nat \<Rightarrow> nat list \<Rightarrow> nat \<Rightarrow> 'k skiplist \<Rightarrow> 'k skiplist option" where
  "link_own x prev i s = Option.bind (node_next s (prev ! i) i) (\<lambda>n. Some (set_next x i n s))"

definition link_publish :: "nat \<Rightarrow> nat list \<Rightarrow> nat \<Rightarrow> 'k skiplist \<Rightarrow> 'k skiplist" where
  "link_publish x prev i s = set_next (prev ! i) i (Some x) s"

definition link_level :: "nat \<Rightarrow> nat list \<Rightarrow> nat \<Rightarrow> 'k skiplist \<Rightarrow> 'k skiplist option" where
  "link_level x prev i s = Option.bind (link_own x prev i s) (\<lambda>s. Some (link_publish x prev i s))"

fun link_levels :: "nat \<Rightarrow> nat list \<Rightarrow> nat list \<Rightarrow> 'k skiplist \<Rightarrow> 'k skiplist option" where
  "link_levels x prev [] s = Some s"
| "link_levels x prev (i # is) s = Option.bind (link_level x prev i s) (link_levels x prev is)"

definition Insert :: "('k \<Rightarrow> 'k \<Rightarrow> int) \<Rightarrow> 'k \<Rightarrow> 'k skiplist \<Rightarrow> 'k skiplist option" where
  "Insert cmp key s =
     Option.bind (FindGreaterOrEqual cmp s key (replicate kMaxHeight (sl_arena s))) (\<lambda>(_, prev).
       let (height, rnd) = RandomHeight (sl_rnd s);
           (prev, s) = raise_height height prev (s\<lparr>sl_rnd := rnd\<rparr>);
           (x, s) = NewNode key height s
       in link_levels x prev [0..<height] s)"

text \<open>The iterator is the node it stands at, a null pointer when it is not valid.\<close>

definition iter_Seek :: "('k \<Rightarrow> 'k \<Rightarrow> int) \<Rightarrow> 'k skiplist \<Rightarrow> 'k \<Rightarrow> nat option option" where
  "iter_Seek cmp s target = map_option fst (FindGreaterOrEqual cmp s target [])"

definition iter_SeekToFirst :: "'k skiplist \<Rightarrow> nat option option" where
  "iter_SeekToFirst s = node_next s 0 0"

definition iter_SeekToLast :: "'k skiplist \<Rightarrow> nat option option" where
  "iter_SeekToLast s = map_option (\<lambda>n. if n = 0 then None else Some n) (FindLast s)"

definition iter_Next :: "'k skiplist \<Rightarrow> nat \<Rightarrow> nat option option" where
  "iter_Next s n = node_next s n 0"

definition iter_Prev :: "('k \<Rightarrow> 'k \<Rightarrow> int) \<Rightarrow> 'k skiplist \<Rightarrow> nat \<Rightarrow> nat option option" where
  "iter_Prev cmp s n = map_option (\<lambda>n. if n = 0 then None else Some n) (FindLessThan cmp s (node_key s n))"

subsection \<open>The invariant\<close>

text \<open>
  \<open>ns\<close> are the nodes in order and \<open>lk\<close> says at how many levels each of them is linked. The link of a node
  at a level leads to the next node that is linked there.
\<close>

definition sl_links :: "'k skiplist \<Rightarrow> (nat \<Rightarrow> nat) \<Rightarrow> nat list \<Rightarrow> bool" where
  "sl_links s lk ns \<longleftrightarrow>
     (\<forall>pre x post i. 0 # ns = pre @ x # post \<and> i < kMaxHeight \<and> (x = 0 \<or> i < lk x) \<longrightarrow>
        node_next s x i = Some (find (\<lambda>n. i < lk n) post))"

definition sl_ok :: "'k set \<Rightarrow> ('k \<Rightarrow> 'k \<Rightarrow> int) \<Rightarrow> 'k skiplist \<Rightarrow> (nat \<Rightarrow> nat) \<Rightarrow> nat list \<Rightarrow> bool" where
  "sl_ok A cmp s lk ns \<longleftrightarrow>
     sl_links s lk ns \<and> distinct (0 # ns) \<and>
     (\<forall>n\<in>set (0 # ns). n < sl_arena s \<and> sl_nodes s n \<noteq> None) \<and>
     (\<forall>n\<in>set ns. node_key s n \<in> A \<and> 0 < lk n \<and> lk n \<le> sl_max_height s) \<and>
     sorted_wrt (\<lambda>m n. cmp (node_key s m) (node_key s n) < 0) ns \<and>
     0 < sl_max_height s \<and> sl_max_height s \<le> kMaxHeight"

definition sl_pred :: "(nat \<Rightarrow> nat) \<Rightarrow> nat list \<Rightarrow> nat \<Rightarrow> nat" where
  "sl_pred lk ls i = last (0 # filter (\<lambda>n. i < lk n) ls)"

lemma filter_none_find: "find P (xs @ ys) = (if filter P xs = [] then find P ys else Some (hd (filter P xs)))"
  by (induction xs) auto

text \<open>Any of the searches, going right while \<open>adv\<close> holds of the next node, ends at the last node where it does.\<close>

lemma descend:
  assumes links: "sl_links s lk (ls @ gs)"
    and lk: "\<forall>n\<in>set (ls @ gs). 0 < lk n" and dist: "distinct (0 # ls @ gs)"
    and unfold: "\<And>x level acc. f x level acc = Option.bind (node_next s x level) (\<lambda>next.
        if next \<noteq> None \<and> adv (the next) then f (the next) level acc
        else if level = 0 then Some (res x next (upd acc level x))
        else f x (level - 1) (upd acc level x))"
    and adv: "\<forall>n\<in>set ls. adv n" "\<forall>n\<in>set gs. \<not> adv n"
  shows "0 # ls = pre @ x # post \<Longrightarrow> level < kMaxHeight \<Longrightarrow> x = 0 \<or> level < lk x \<Longrightarrow>
    f x level acc = Some (res (last (0 # ls)) (case gs of [] \<Rightarrow> None | g # _ \<Rightarrow> Some g)
      (foldl (\<lambda>acc i. upd acc i (sl_pred lk ls i)) acc (rev [0..<Suc level])))"
proof (induction "level + length post" arbitrary: pre x post level acc rule: less_induct)
  case less
  note pos = less.prems(1) and lev = less.prems(2) and here = less.prems(3)
  have "0 # ls @ gs = pre @ x # (post @ gs)" using pos by (simp add: append_eq_Cons_conv)
  then have nx: "node_next s x level = Some (find (\<lambda>n. level < lk n) (post @ gs))"
    using links lev here unfolding sl_links_def by blast
  have sub: "set post \<subseteq> set ls"
    using pos by (cases pre) auto
  show ?case
  proof (cases "filter (\<lambda>n. level < lk n) post")
    case (Cons n q)
    then have find: "find (\<lambda>n. level < lk n) (post @ gs) = Some n" by (simp add: filter_none_find)
    from Cons obtain us vs where split: "post = us @ n # vs" "level < lk n"
      by (auto simp: filter_eq_Cons_iff)
    then have "adv n" using adv(1) sub by auto
    have "0 # ls = (pre @ x # us) @ n # vs" using pos split by simp
    from less.hyps [OF _ this lev] split have
      "f n level acc = Some (res (last (0 # ls)) (case gs of [] \<Rightarrow> None | g # _ \<Rightarrow> Some g)
        (foldl (\<lambda>acc i. upd acc i (sl_pred lk ls i)) acc (rev [0..<Suc level])))" by simp
    then show ?thesis using \<open>adv n\<close> by (simp only: unfold [of x level] nx find) simp
  next
    case Nil
    have "filter (\<lambda>n. level < lk n) ls = filter (\<lambda>n. level < lk n) (tl (pre @ [x]))"
    proof -
      have "ls = tl (pre @ [x]) @ post" using pos by (cases pre) auto
      then show ?thesis using Nil by (metis append_Nil2 filter_append)
    qed
    then have pred: "sl_pred lk ls level = x"
      using pos here dist by (cases pre) (auto simp: sl_pred_def)
    define g where "g = find (\<lambda>n. level < lk n) gs"
    have find: "find (\<lambda>n. level < lk n) (post @ gs) = g" using Nil by (simp add: filter_none_find g_def)
    have "n \<in> set gs" if "g = Some n" for n using that by (auto simp: g_def find_Some_iff)
    then have stop: "\<not> (g \<noteq> None \<and> adv (the g))" using adv(2) by auto
    show ?thesis
    proof (cases level)
      case 0
      have "post = []"
      proof (rule ccontr)
        assume "post \<noteq> []"
        then have "hd post \<in> set post" by simp
        moreover from this have "0 < lk (hd post)" using sub lk by auto
        ultimately show False using Nil 0 by (auto simp: filter_empty_conv)
      qed
      moreover have "g = (case gs of [] \<Rightarrow> None | g # _ \<Rightarrow> Some g)"
        using lk 0 by (auto simp: g_def split: list.splits)
      ultimately show ?thesis
        unfolding unfold [of x level] nx find Option.bind.simps(2) if_not_P [OF stop] using pos pred 0 by simp
    next
      case (Suc l)
      from less.hyps [OF _ pos, of l] lev here Suc
      have "f x l (upd acc level x) = Some (res (last (0 # ls)) (case gs of [] \<Rightarrow> None | g # _ \<Rightarrow> Some g)
          (foldl (\<lambda>acc i. upd acc i (sl_pred lk ls i)) (upd acc level x) (rev [0..<Suc l])))" by auto
      then show ?thesis
        unfolding unfold [of x level] nx find Option.bind.simps(2) if_not_P [OF stop] using pred Suc by simp
    qed
  qed
qed

lemma sl_pred_0: "\<forall>n\<in>set ls. 0 < lk n \<Longrightarrow> sl_pred lk ls 0 = last (0 # ls)"
  by (simp add: sl_pred_def)

lemma sl_okD:
  assumes "sl_ok A cmp s lk ns"
  shows "sl_links s lk ns" "distinct (0 # ns)" "\<forall>n\<in>set ns. 0 < lk n" "sl_max_height s - 1 < kMaxHeight"
    "\<And>n. n \<in> set ns \<Longrightarrow> node_key s n \<in> A" "sorted_wrt (\<lambda>m n. cmp (node_key s m) (node_key s n) < 0) ns"
    "\<And>n. n \<in> set (0 # ns) \<Longrightarrow> n < sl_arena s \<and> sl_nodes s n \<noteq> None" "\<And>n. n \<in> set ns \<Longrightarrow> lk n \<le> sl_max_height s"
    "0 < sl_max_height s" "sl_max_height s \<le> kMaxHeight"
  using assms by (auto simp: sl_ok_def)

text \<open>A key cuts the list into the nodes below it and the others.\<close>

definition below :: "('k \<Rightarrow> 'k \<Rightarrow> int) \<Rightarrow> 'k skiplist \<Rightarrow> 'k \<Rightarrow> nat list \<Rightarrow> nat list" where
  "below cmp s key ns = filter (\<lambda>n. cmp (node_key s n) key < 0) ns"

definition above :: "('k \<Rightarrow> 'k \<Rightarrow> int) \<Rightarrow> 'k skiplist \<Rightarrow> 'k \<Rightarrow> nat list \<Rightarrow> nat list" where
  "above cmp s key ns = filter (\<lambda>n. \<not> cmp (node_key s n) key < 0) ns"

context comparator
begin

lemma sl_split:
  assumes "sl_ok A cmp s lk ns" "key \<in> A"
  shows "ns = below cmp s key ns @ above cmp s key ns"
proof -
  have "sorted_wrt (\<lambda>m n. cmp (node_key s m) (node_key s n) < 0) ms \<Longrightarrow> \<forall>n\<in>set ms. node_key s n \<in> A \<Longrightarrow>
      ms = below cmp s key ms @ above cmp s key ms" for ms
  proof (induction ms)
    case (Cons m ms)
    show ?case
    proof (cases "cmp (node_key s m) key < 0")
      case False
      have "\<not> cmp (node_key s n) key < 0" if "n \<in> set ms" for n
        using Cons.prems that False assms(2) cmp_strict_trans [of "node_key s m" "node_key s n" key] by auto
      with False show ?thesis by (auto simp: below_def above_def)
    qed (use Cons in \<open>simp add: below_def above_def\<close>)
  qed (simp add: below_def above_def)
  with sl_okD [OF assms(1)] show ?thesis by blast
qed

text \<open>What the searches return: the neighbours of the key, whatever the heights of the nodes.\<close>

lemma FindGreaterOrEqual_ok:
  assumes ok: "sl_ok A cmp s lk ns" and key: "key \<in> A"
  shows "FindGreaterOrEqual cmp s key prev =
    Some (case above cmp s key ns of [] \<Rightarrow> None | g # _ \<Rightarrow> Some g,
      foldl (\<lambda>prev i. prev[i := sl_pred lk (below cmp s key ns) i]) prev (rev [0..<sl_max_height s]))"
proof -
  let ?ls = "below cmp s key ns" and ?gs = "above cmp s key ns"
  have ns: "ns = ?ls @ ?gs" by (rule sl_split [OF assms])
  have "find_ge_loop cmp s key 0 (sl_max_height s - 1) prev =
      Some (case ?gs of [] \<Rightarrow> None | g # _ \<Rightarrow> Some g,
        foldl (\<lambda>prev i. prev[i := sl_pred lk ?ls i]) prev (rev [0..<Suc (sl_max_height s - 1)]))"
  proof (rule descend [where f = "find_ge_loop cmp s key" and adv = "\<lambda>n. cmp (node_key s n) key < 0"
        and res = "\<lambda>x next acc. (next, acc)" and upd = "\<lambda>acc i x. acc[i := x]" and pre = "[]" and post = ?ls])
    show "find_ge_loop cmp s key x level acc = Option.bind (node_next s x level) (\<lambda>next.
        if next \<noteq> None \<and> cmp (node_key s (the next)) key < 0 then find_ge_loop cmp s key (the next) level acc
        else if level = 0 then Some (next, acc[level := x])
        else find_ge_loop cmp s key x (level - 1) (acc[level := x]))" for x level acc
      by (subst find_ge_loop.simps) (auto simp: KeyIsAfterNode_def split: option.splits intro!: Option.bind_cong)
  qed (use sl_okD [OF ok] ns in \<open>auto simp: below_def above_def\<close>)
  then show ?thesis using sl_okD(9) [OF ok] by (simp add: FindGreaterOrEqual_def)
qed

lemma FindLessThan_ok:
  assumes ok: "sl_ok A cmp s lk ns" and key: "key \<in> A"
  shows "FindLessThan cmp s key = Some (last (0 # below cmp s key ns))"
proof -
  let ?ls = "below cmp s key ns" and ?gs = "above cmp s key ns"
  have ns: "ns = ?ls @ ?gs" by (rule sl_split [OF assms])
  have "find_less_loop cmp s key 0 (sl_max_height s - 1) = Some (last (0 # ?ls))"
  proof (rule descend [where f = "\<lambda>x level (acc :: unit). find_less_loop cmp s key x level"
        and adv = "\<lambda>n. cmp (node_key s n) key < 0" and res = "\<lambda>x next acc. x" and upd = "\<lambda>acc i x. acc"
        and pre = "[]" and post = ?ls and gs = ?gs])
    show "find_less_loop cmp s key x level = Option.bind (node_next s x level) (\<lambda>next.
        if next \<noteq> None \<and> cmp (node_key s (the next)) key < 0 then find_less_loop cmp s key (the next) level
        else if level = 0 then Some x else find_less_loop cmp s key x (level - 1))" for x level
      by (subst find_less_loop.simps) (auto intro!: Option.bind_cong)
  qed (use sl_okD [OF ok] ns in \<open>auto simp: below_def above_def\<close>)
  then show ?thesis by (simp add: FindLessThan_def)
qed

lemma FindLast_ok:
  assumes ok: "sl_ok A cmp s lk ns"
  shows "FindLast s = Some (last (0 # ns))"
proof -
  have "find_last_loop s 0 (sl_max_height s - 1) = Some (last (0 # ns))"
  proof (rule descend [where f = "\<lambda>x level (acc :: unit). find_last_loop s x level"
        and adv = "\<lambda>n. True" and res = "\<lambda>x next acc. x" and upd = "\<lambda>acc i x. acc"
        and pre = "[]" and post = ns and gs = "[]"])
    show "find_last_loop s x level = Option.bind (node_next s x level) (\<lambda>next.
        if next \<noteq> None \<and> True then find_last_loop s (the next) level
        else if level = 0 then Some x else find_last_loop s x (level - 1))" for x level
      by (subst find_last_loop.simps) (auto intro!: Option.bind_cong)
  qed (use sl_okD [OF ok] in auto)
  then show ?thesis by (simp add: FindLast_def)
qed

lemma above_Cons:
  assumes "sl_ok A cmp s lk ns" "key \<in> A" "above cmp s key ns = g # gs"
  shows "node_key s g \<in> A" "\<not> cmp (node_key s g) key < 0" "\<And>n. n \<in> set ns \<Longrightarrow> cmp (node_key s n) key = 0 \<Longrightarrow> n = g"
proof -
  have g: "g \<in> set (above cmp s key ns)" using assms(3) by simp
  then show "node_key s g \<in> A" "\<not> cmp (node_key s g) key < 0"
    using sl_okD(5) [OF assms(1)] by (auto simp: above_def)
  fix n
  assume n: "n \<in> set ns" "cmp (node_key s n) key = 0"
  show "n = g"
  proof (rule ccontr)
    assume "n \<noteq> g"
    have "n \<in> set (above cmp s key ns)" using n by (simp add: above_def)
    then have "n \<in> set gs" using assms(3) \<open>n \<noteq> g\<close> by simp
    moreover have "sorted_wrt (\<lambda>m n. cmp (node_key s m) (node_key s n) < 0) (above cmp s key ns)"
      unfolding above_def by (rule sorted_wrt_filter [OF sl_okD(6) [OF assms(1)]])
    ultimately have "cmp (node_key s g) (node_key s n) < 0" using assms(3) by simp
    then have "cmp (node_key s g) key < 0"
      using cmp_trans [of "node_key s g" "node_key s n" key] n assms(2) sl_okD(5) [OF assms(1)] g by (auto simp: above_def)
    then show False using g by (simp add: above_def)
  qed
qed

lemma Contains_ok:
  assumes ok: "sl_ok A cmp s lk ns" and key: "key \<in> A"
  shows "Contains cmp s key = Some (\<exists>n\<in>set ns. cmp key (node_key s n) = 0)"
proof (cases "above cmp s key ns")
  case Nil
  then have "\<forall>n\<in>set ns. cmp (node_key s n) key < 0" by (simp add: above_def filter_empty_conv)
  then have "\<not> (\<exists>n\<in>set ns. cmp key (node_key s n) = 0)"
    using zero_swap [OF key] sl_okD(5) [OF ok] by fastforce
  then show ?thesis using Nil by (simp add: Contains_def FindGreaterOrEqual_ok [OF assms])
next
  case (Cons g gs)
  have "g \<in> set ns" using Cons by (metis above_def filter_is_subset list.set_intros(1) subsetD)
  with above_Cons [OF assms Cons] zero_swap [OF key] sl_okD(5) [OF ok]
  have "(\<exists>n\<in>set ns. cmp key (node_key s n) = 0) \<longleftrightarrow> cmp key (node_key s g) = 0" by metis
  then show ?thesis using Cons by (simp add: Contains_def FindGreaterOrEqual_ok [OF assms])
qed

end

subsection \<open>Linking a node\<close>

lemma node_next_set [simp]:
  "node_next (set_next x n y s) a m =
    (if a = x \<and> m = n \<and> node_next s x n \<noteq> None then Some y else node_next s a m)"
  by (auto simp: node_next_def set_next_def split: option.splits)

lemma node_key_set [simp]: "node_key (set_next x n y s) a = node_key s a"
  by (auto simp: node_key_def set_next_def split: option.splits)

lemma set_next_simps [simp]:
  "sl_arena (set_next x n y s) = sl_arena s" "sl_max_height (set_next x n y s) = sl_max_height s"
  "sl_rnd (set_next x n y s) = sl_rnd s" "sl_nodes (set_next x n y s) a = None \<longleftrightarrow> sl_nodes s a = None"
  by (auto simp: set_next_def split: option.splits)

lemma set_next_same: "node_next s x i = Some n \<Longrightarrow> set_next x i n s = s"
  by (cases s) (auto simp: set_next_def node_next_def fun_eq_iff split: option.splits if_splits)

lemma sl_pred_in: "sl_pred lk ls j \<in> set (0 # ls)"
  unfolding sl_pred_def using last_in_set [of "0 # filter (\<lambda>n. j < lk n) ls"] by auto

lemma sl_links_append:
  "sl_links s lk (ls @ ms) \<longleftrightarrow>
    (\<forall>pre y post i. 0 # ls = pre @ y # post \<and> i < kMaxHeight \<and> (y = 0 \<or> i < lk y) \<longrightarrow>
      node_next s y i = Some (find (\<lambda>n. i < lk n) (post @ ms))) \<and>
    (\<forall>pre y post i. ms = pre @ y # post \<and> i < kMaxHeight \<and> (y = 0 \<or> i < lk y) \<longrightarrow>
      node_next s y i = Some (find (\<lambda>n. i < lk n) post))" (is "?L \<longleftrightarrow> ?R1 \<and> ?R2")
proof
  assume L: ?L
  have ?R1
  proof (intro allI impI, elim conjE)
    fix pre y post i
    assume "0 # ls = pre @ y # post" "i < kMaxHeight" "y = 0 \<or> i < lk y"
    moreover from this(1) have "0 # ls @ ms = pre @ y # (post @ ms)" by (metis append_Cons append_assoc)
    ultimately show "node_next s y i = Some (find (\<lambda>n. i < lk n) (post @ ms))" using L unfolding sl_links_def by blast
  qed
  moreover have ?R2
  proof (intro allI impI, elim conjE)
    fix pre y post i
    assume "ms = pre @ y # post" "i < kMaxHeight" "y = 0 \<or> i < lk y"
    moreover from this(1) have "0 # ls @ ms = (0 # ls @ pre) @ y # post" by simp
    ultimately show "node_next s y i = Some (find (\<lambda>n. i < lk n) post)" using L unfolding sl_links_def by blast
  qed
  ultimately show "?R1 \<and> ?R2" ..
next
  assume R: "?R1 \<and> ?R2"
  show ?L
    unfolding sl_links_def
  proof (intro allI impI, elim conjE)
    fix pre x post i
    assume e: "0 # ls @ ms = pre @ x # post" and i: "i < kMaxHeight" "x = 0 \<or> i < lk x"
    have "(0 # ls) @ ms = pre @ x # post" using e by simp
    then obtain vs where "0 # ls = pre @ vs \<and> vs @ ms = x # post \<or> pre = (0 # ls) @ vs \<and> ms = vs @ x # post"
      by (metis append_eq_append_conv2)
    then consider us where "0 # ls = pre @ x # us" "post = us @ ms" | us where "ms = us @ x # post"
      by (cases vs) auto
    then show "node_next s x i = Some (find (\<lambda>n. i < lk n) post)"
      using R i by cases blast+
  qed
qed

lemma find_app: "find P (xs @ ys) = (if \<exists>x\<in>set xs. P x then find P xs else find P ys)"
  by (induction xs) auto

lemma find_mid: "find P (us @ x # vs) = (if \<exists>u\<in>set us. P u then find P us else if P x then Some x else find P vs)"
  by (induction us) auto

lemma split_at_unique:
  "us @ p # vs = pre @ y # post \<Longrightarrow> p \<notin> set post \<Longrightarrow> y \<notin> set vs \<Longrightarrow> y = p \<and> post = vs"
proof (induction us arbitrary: pre)
  case Nil
  then show ?case by (cases pre) auto
next
  case (Cons u us)
  then show ?case by (cases pre) auto
qed

lemma find_cong_set: "(\<And>x. x \<in> set xs \<Longrightarrow> P x \<longleftrightarrow> Q x) \<Longrightarrow> find P xs = find Q xs"
  by (induction xs) auto

lemma sl_pred_split:
  assumes "distinct (0 # ls)"
  obtains us vs where "0 # ls = us @ sl_pred lk ls i # vs" "\<forall>v\<in>set vs. \<not> i < lk v" "sl_pred lk ls i = 0 \<or> i < lk (sl_pred lk ls i)"
proof (cases "filter (\<lambda>n. i < lk n) ls = []")
  case True
  then show thesis using that [of "[]" ls] by (simp add: sl_pred_def filter_empty_conv)
next
  case False
  then obtain zs z where z: "filter (\<lambda>n. i < lk n) ls = zs @ [z]" by (metis rev_exhaust)
  then have "filter (\<lambda>n. i < lk n) (rev ls) = z # rev zs" by (metis rev_eq_Cons_iff rev_filter rev_rev_ident rev.simps(2))
  then obtain us vs where "rev ls = us @ z # vs" "\<forall>u\<in>set us. \<not> i < lk u" "i < lk z"
    by (auto simp: filter_eq_Cons_iff)
  moreover from this(1) have "ls = rev vs @ z # rev us" by (metis append.assoc append_Cons append_Nil rev.simps(2) rev_append rev_rev_ident)
  ultimately show thesis using that [of "0 # rev vs" "rev us"] z by (simp add: sl_pred_def)
qed

text \<open>One level of an insertion. Before the first the node is not in the list, after it it is linked once.\<close>

lemma link_level_links:
  assumes links: "sl_links s lk (if i = 0 then ls @ gs else ls @ x # gs)" and lkx: "0 < i \<Longrightarrow> lk x = i"
    and dist: "distinct (0 # ls @ x # gs)" and i: "i < kMaxHeight"
    and prev: "prev ! i = sl_pred lk ls i" and x: "node_next s x i \<noteq> None"
  shows "\<exists>s'. link_level x prev i s = Some s' \<and> sl_links s' (lk(x := Suc i)) (ls @ x # gs) \<and>
    (\<forall>a m. (node_next s' a m = None \<longleftrightarrow> node_next s a m = None) \<and> (m \<noteq> i \<longrightarrow> node_next s' a m = node_next s a m)) \<and>
    (\<forall>a. node_key s' a = node_key s a \<and> (sl_nodes s' a = None \<longleftrightarrow> sl_nodes s a = None)) \<and>
    sl_arena s' = sl_arena s \<and> sl_max_height s' = sl_max_height s \<and> sl_rnd s' = sl_rnd s"
proof -
  define ms where "ms = (if i = 0 then gs else x # gs)"
  define p where "p = sl_pred lk ls i"
  have links': "sl_links s lk (ls @ ms)" using links by (simp add: ms_def split: if_splits)
  note old = links' [unfolded sl_links_append, THEN conjunct1, rule_format, OF conjI [OF _ conjI]]
    and old2 = links' [unfolded sl_links_append, THEN conjunct2, rule_format, OF conjI [OF _ conjI]]
  obtain us vs where p: "0 # ls = us @ p # vs" "\<forall>v\<in>set vs. \<not> i < lk v" "p = 0 \<or> i < lk p"
    using sl_pred_split [of ls lk i] dist unfolding p_def by auto
  have "p \<in> set (0 # ls)" unfolding p(1) by simp
  then have px: "p \<noteq> x" "p \<notin> set gs" "x \<notin> set gs" "x \<notin> set ls"
    using dist \<open>p \<in> set (0 # ls)\<close> by auto
  have find_ms: "find (\<lambda>n. j < lk n) ms = (if j < i then Some x else find (\<lambda>n. j < lk n) gs)" for j
    using lkx by (auto simp: ms_def)
  define nx where "nx = find (\<lambda>n. i < lk n) gs"
  have np: "node_next s p i = Some nx"
    using old [OF p(1) i p(3)] p(2) find_ms [of i] by (simp add: filter_none_find filter_empty_conv nx_def)
  define s' where "s' = set_next p i (Some x) (set_next x i nx s)"
  have s': "link_level x prev i s = Some s'" using np by (simp add: link_level_def link_own_def link_publish_def prev p_def s'_def)
  have next': "node_next s' a m = (if a = p \<and> m = i then Some (Some x) else if a = x \<and> m = i then Some nx else node_next s a m)" for a m
    using np x px(1) by (auto simp: s'_def)
  have lk': "find (\<lambda>n. j < (lk(x := Suc i)) n) zs = find (\<lambda>n. j < lk n) zs" if "x \<notin> set zs" for j zs
    using that by (intro find_cong_set) auto
  have "sl_links s' (lk(x := Suc i)) (ls @ x # gs)"
    unfolding sl_links_append
  proof (intro conjI allI impI, goal_cases)
    case (1 pre y post j)
    then have y: "0 # ls = pre @ y # post" "j < kMaxHeight" "y = 0 \<or> j < lk y"
      using dist px(4) by (auto simp: Cons_eq_append_conv split: if_splits)
    then have post: "x \<notin> set post" "set post \<subseteq> set ls" using px(4) by (auto simp: Cons_eq_append_conv)
    have new: "find (\<lambda>n. j < (lk(x := Suc i)) n) (post @ x # gs) =
        (if \<exists>u\<in>set post. j < lk u then find (\<lambda>n. j < lk n) post else if j < Suc i then Some x else find (\<lambda>n. j < lk n) gs)"
    proof -
      have "(\<exists>u\<in>set post. j < (lk(x := Suc i)) u) = (\<exists>u\<in>set post. j < lk u)" using post(1) by auto
      then show ?thesis unfolding find_mid lk' [OF post(1)] lk' [OF px(3)] by simp
    qed
    have same: "y = p \<and> post = vs" if "j = i" "\<forall>u\<in>set post. \<not> j < lk u"
    proof -
      have "p \<notin> set post" using that p(3) dist y(1) by (auto simp: Cons_eq_append_conv)
      moreover have "y \<notin> set vs" using that(1) p(1,2) y(3) dist by (auto simp: Cons_eq_append_conv)
      moreover have "us @ p # vs = pre @ y # post" using p(1) y(1) by simp
      ultimately show ?thesis by (intro split_at_unique)
    qed
    show ?case
    proof (cases "y = p \<and> j = i")
      case True
      have "post = vs"
      proof -
        have e: "us @ p # vs = pre @ p # post" using p(1) y(1) True by simp
        have "distinct (0 # ls)" using dist by simp
        then have d: "distinct (us @ p # vs)" unfolding p(1) .
        then have "p \<notin> set vs" by simp
        moreover have "p \<notin> set post" using d unfolding e by simp
        ultimately show ?thesis using split_at_unique [OF e] by blast
      qed
      then show ?thesis unfolding new next' using True p(2) by simp
    next
      case False
      have "y \<noteq> x" using y(1) px(4) dist by (auto simp: Cons_eq_append_conv)
      then have "node_next s' y j = Some (find (\<lambda>n. j < lk n) (post @ ms))"
        using False old [OF y] by (auto simp: next')
      moreover have "find (\<lambda>n. j < lk n) (post @ ms) =
          (if \<exists>u\<in>set post. j < lk u then find (\<lambda>n. j < lk n) post else if j < i then Some x else find (\<lambda>n. j < lk n) gs)"
        unfolding find_app find_ms ..
      ultimately show ?thesis unfolding new using same False by (auto simp: less_Suc_eq)
    qed
  next
    case (2 pre y post j)
    then have e: "x # gs = pre @ y # post" and j: "j < kMaxHeight" "y = 0 \<or> j < (lk(x := Suc i)) y" by blast+
    from e consider "y = x" "post = gs" | pre' where "gs = pre' @ y # post"
      unfolding Cons_eq_append_conv by blast
    then show ?case
    proof cases
      case 1
      have "find (\<lambda>n. j < (lk(x := Suc i)) n) post = find (\<lambda>n. j < lk n) gs" using 1 lk' [OF px(3)] by simp
      moreover have "node_next s x j = Some (find (\<lambda>n. j < lk n) gs)" if "j < i"
        by (rule old2 [of "[]" x gs j]) (use that lkx i in \<open>auto simp: ms_def\<close>)
      moreover have "j < Suc i" using j(2) 1 dist by auto
      ultimately show ?thesis using 1 px(1) by (auto simp: next' nx_def less_Suc_eq)
    next
      case (2 pre')
      have y: "y \<noteq> p" "y \<noteq> x" "y \<noteq> 0" "x \<notin> set post" using 2 px dist by auto
      then have "node_next s y j = Some (find (\<lambda>n. j < lk n) post)"
        using j 2
        by (intro old2 [of "if i = 0 then pre' else x # pre'" y post j]) (auto simp: ms_def)
      then show ?thesis using y lk' [OF y(4)] by (simp add: next')
    qed
  qed
  moreover have "node_next s' a m = None \<longleftrightarrow> node_next s a m = None" for a m
    using np x by (auto simp: next')
  ultimately show ?thesis using s' next' px by (intro exI [of _ s']) (auto simp: s'_def)
qed

subsection \<open>Insertion\<close>

lemma foldl_update:
  "length (foldl (\<lambda>p i. p[i := f i]) p is) = length p \<and>
   (j < length p \<longrightarrow> foldl (\<lambda>p i. p[i := f i]) p is ! j = (if j \<in> set is then f j else p ! j))"
  by (induction "is" arbitrary: p) (auto simp: nth_list_update)

lemma random_height_range: "height \<le> kMaxHeight \<Longrightarrow> height \<le> fst (random_height_loop height rnd) \<and> fst (random_height_loop height rnd) \<le> kMaxHeight"
proof (induction height rnd rule: random_height_loop.induct)
  case (1 height rnd)
  obtain r rnd' where r: "Random_Next rnd = (r, rnd')" by (metis prod.collapse)
  show ?case
  proof (cases "height < kMaxHeight \<and> r mod 4 = 0")
    case True
    then have "random_height_loop height rnd = random_height_loop (height + 1) rnd'"
      using r by (simp add: random_height_loop.simps [of height rnd])
    then show ?thesis using "1.IH" [OF _ r [symmetric] refl] True by auto
  next
    case False
    then have "random_height_loop height rnd = (height, if height < kMaxHeight then rnd' else rnd)"
      unfolding random_height_loop.simps [of height rnd] r Let_def prod.case by (cases "height < kMaxHeight"; simp only: simp_thms if_True if_False)
    then show ?thesis using "1.prems" by simp
  qed
qed

lemma RandomHeight_range: "0 < fst (RandomHeight rnd)" "fst (RandomHeight rnd) \<le> kMaxHeight"
  using random_height_range [of 1 rnd] by (simp_all add: RandomHeight_def kMaxHeight_def)

text \<open>The nodes that an insertion leaves alone.\<close>

definition same_nodes :: "'k skiplist \<Rightarrow> 'k skiplist \<Rightarrow> bool" where
  "same_nodes s s' \<longleftrightarrow>
     (\<forall>a. sl_nodes s a \<noteq> None \<longrightarrow> sl_nodes s' a \<noteq> None \<and> node_key s' a = node_key s a) \<and> sl_arena s \<le> sl_arena s'"

lemma same_nodes_trans: "same_nodes s t \<Longrightarrow> same_nodes t u \<Longrightarrow> same_nodes s u"
  unfolding same_nodes_def by (metis order.trans)

lemma same_nodes_refl [simp]: "same_nodes s s"
  by (simp add: same_nodes_def)

lemma link_level_ok:
  assumes ok: "sl_ok A cmp s lk (if i = 0 then ls @ gs else ls @ x # gs)" and lkx: "0 < i \<Longrightarrow> lk x = i"
    and new: "x \<notin> set (0 # ls @ gs)" "x < sl_arena s" "sl_nodes s x \<noteq> None" "node_key s x \<in> A" "node_next s x i \<noteq> None"
    and ord: "\<forall>n\<in>set ls. cmp (node_key s n) (node_key s x) < 0" "\<forall>n\<in>set gs. cmp (node_key s x) (node_key s n) < 0"
    and i: "i < sl_max_height s" and prev: "prev ! i = sl_pred lk ls i"
  shows "\<exists>s'. link_level x prev i s = Some s' \<and> sl_ok A cmp s' (lk(x := Suc i)) (ls @ x # gs) \<and> same_nodes s s' \<and>
    (\<forall>m. m \<noteq> i \<longrightarrow> node_next s' x m = node_next s x m) \<and> sl_max_height s' = sl_max_height s \<and> sl_arena s' = sl_arena s \<and>
    (\<forall>a. sl_nodes s' a = None \<longleftrightarrow> sl_nodes s a = None)"
proof -
  have d: "distinct (0 # ls @ x # gs)" using sl_okD(2) [OF ok] new(1) by (auto split: if_splits)
  have "i < kMaxHeight" using i sl_okD(10) [OF ok] by simp
  from link_level_links [where prev = prev, OF sl_okD(1) [OF ok] lkx d this prev new(5)] obtain s'
    where s': "link_level x prev i s = Some s'" "sl_links s' (lk(x := Suc i)) (ls @ x # gs)"
      "\<And>a m. m \<noteq> i \<Longrightarrow> node_next s' a m = node_next s a m"
      "\<And>a. node_key s' a = node_key s a" "\<And>a. sl_nodes s' a = None \<longleftrightarrow> sl_nodes s a = None"
      "sl_arena s' = sl_arena s" "sl_max_height s' = sl_max_height s" by blast
  have "sorted_wrt (\<lambda>m n. cmp (node_key s m) (node_key s n) < 0) (ls @ x # gs)"
    using sl_okD(6) [OF ok] ord by (auto simp: sorted_wrt_append split: if_splits)
  moreover have "\<forall>n\<in>set (0 # ls @ x # gs). n < sl_arena s \<and> sl_nodes s n \<noteq> None"
    using sl_okD(7) [OF ok] new(2,3) by (auto split: if_splits)
  moreover have "\<forall>n\<in>set (ls @ x # gs). node_key s n \<in> A \<and> 0 < (lk(x := Suc i)) n \<and> (lk(x := Suc i)) n \<le> sl_max_height s"
    using sl_okD(3,5,8) [OF ok] new(4) i by (auto split: if_splits)
  ultimately have "sl_ok A cmp s' (lk(x := Suc i)) (ls @ x # gs)"
    unfolding sl_ok_def s'(4-7) using s'(2) d sl_okD(9,10) [OF ok] by blast
  then show ?thesis using s' by (intro exI [of _ s']) (auto simp: same_nodes_def)
qed

lemma sl_pred_upd [simp]: "x \<notin> set ls \<Longrightarrow> sl_pred (lk(x := k)) ls j = sl_pred lk ls j"
  unfolding sl_pred_def by (intro arg_cong [where f = last] arg_cong [where f = "(#) 0"] filter_cong) auto

lemma link_levels_ok:
  assumes x: "x \<notin> set (0 # ls @ gs)"
  shows "sl_ok A cmp s lk (if i = 0 then ls @ gs else ls @ x # gs) \<Longrightarrow> (0 < i \<Longrightarrow> lk x = i) \<Longrightarrow>
    x < sl_arena s \<Longrightarrow> sl_nodes s x \<noteq> None \<Longrightarrow> node_key s x \<in> A \<Longrightarrow>
    \<forall>n\<in>set ls. cmp (node_key s n) (node_key s x) < 0 \<Longrightarrow> \<forall>n\<in>set gs. cmp (node_key s x) (node_key s n) < 0 \<Longrightarrow>
    \<forall>j<height. node_next s x j \<noteq> None \<Longrightarrow> \<forall>j<height. prev ! j = sl_pred lk ls j \<Longrightarrow>
    height \<le> sl_max_height s \<Longrightarrow> i \<le> height \<Longrightarrow> 0 < height \<Longrightarrow>
    \<exists>s'. link_levels x prev [i..<height] s = Some s' \<and> sl_ok A cmp s' (lk(x := height)) (ls @ x # gs) \<and> same_nodes s s' \<and>
      sl_arena s' = sl_arena s \<and> (\<forall>a. sl_nodes s' a = None \<longleftrightarrow> sl_nodes s a = None)"
proof (induction "height - i" arbitrary: i s lk)
  case 0
  then have "i = height" by simp
  then have "lk(x := height) = lk" using 0 by (auto simp: fun_eq_iff)
  then show ?case using 0 \<open>i = height\<close> by (intro exI [of _ s]) auto
next
  case (Suc d)
  then have i: "i < height" "i < sl_max_height s" by simp_all
  from link_level_ok [OF Suc.prems(1,2) x Suc.prems(3-5) _ Suc.prems(6,7) i(2), of prev] obtain s1
    where s1: "link_level x prev i s = Some s1" "sl_ok A cmp s1 (lk(x := Suc i)) (ls @ x # gs)" "same_nodes s s1"
      "\<forall>m. m \<noteq> i \<longrightarrow> node_next s1 x m = node_next s x m" "sl_max_height s1 = sl_max_height s" "sl_arena s1 = sl_arena s"
      "\<forall>a. sl_nodes s1 a = None \<longleftrightarrow> sl_nodes s a = None"
    using Suc.prems(8,9) i(1) by blast
  have keys: "node_key s1 n = node_key s n" if "n \<in> set (ls @ gs) \<or> n = x" for n
    using that s1(3) sl_okD(7) [OF Suc.prems(1)] Suc.prems(4) by (auto simp: same_nodes_def split: if_splits)
  have "\<exists>s'. link_levels x prev [Suc i..<height] s1 = Some s' \<and> sl_ok A cmp s' ((lk(x := Suc i))(x := height)) (ls @ x # gs) \<and>
      same_nodes s1 s' \<and> sl_arena s' = sl_arena s1 \<and> (\<forall>a. sl_nodes s' a = None \<longleftrightarrow> sl_nodes s1 a = None)"
  proof (rule Suc.hyps(1))
    show "\<forall>j<height. node_next s1 x j \<noteq> None"
    proof (intro allI impI)
      fix j
      assume "j < height"
      have "node_next s1 x i \<noteq> None"
        using sl_okD(1) [OF s1(2)] i(2) sl_okD(10) [OF s1(2)] s1(5) unfolding sl_links_def
        by (metis append_Cons fun_upd_same lessI less_le_trans option.distinct(1))
      then show "node_next s1 x j \<noteq> None" using s1(4) Suc.prems(8) \<open>j < height\<close> by (cases "j = i") auto
    qed
    show "\<forall>j<height. prev ! j = sl_pred (lk(x := Suc i)) ls j" using Suc.prems(9) x by simp
  qed (use Suc.prems Suc.hyps(2) s1 keys i x in \<open>auto simp: same_nodes_def\<close>)
  then show ?case
    using s1 i(1) same_nodes_trans by (auto simp: upt_conv_Cons)
qed

context comparator
begin

text \<open>The cut at the key of a node that compares equal to none of the others.\<close>

lemma sl_cut_strict:
  assumes ok: "sl_ok A cmp s lk ns" and key: "key \<in> A" and fresh: "\<forall>n\<in>set ns. cmp (node_key s n) key \<noteq> 0"
  shows "\<forall>n\<in>set (below cmp s key ns). cmp (node_key s n) key < 0" "\<forall>n\<in>set (above cmp s key ns). cmp key (node_key s n) < 0"
proof -
  show "\<forall>n\<in>set (below cmp s key ns). cmp (node_key s n) key < 0" by (simp add: below_def)
  show "\<forall>n\<in>set (above cmp s key ns). cmp key (node_key s n) < 0"
  proof
    fix n
    assume "n \<in> set (above cmp s key ns)"
    then have "n \<in> set ns" "\<not> cmp (node_key s n) key < 0" by (auto simp: above_def)
    with fresh have "0 < cmp (node_key s n) key" by force
    then show "cmp key (node_key s n) < 0"
      using cmp_less_swap [OF key sl_okD(5) [OF ok \<open>n \<in> set ns\<close>]] by simp
  qed
qed

end

lemma raise_height_ok:
  assumes ok: "sl_ok A cmp s lk ns" and h: "0 < height" "height \<le> kMaxHeight" and len: "length prev = kMaxHeight"
    and ns: "ns = ls @ gs" and prev: "\<forall>j < sl_max_height s. prev ! j = sl_pred lk ls j"
    and r: "raise_height height prev s = (prev', s')"
  shows "sl_ok A cmp s' lk ns \<and> same_nodes s s' \<and> height \<le> sl_max_height s' \<and> (\<forall>j<height. prev' ! j = sl_pred lk ls j) \<and>
    sl_arena s' = sl_arena s \<and> sl_nodes s' = sl_nodes s"
proof (cases "sl_max_height s < height")
  case False
  with assms show ?thesis by (auto simp: raise_height_def)
next
  case True
  then have s': "s' = s\<lparr>sl_max_height := height\<rparr>" and p: "prev' = foldl (\<lambda>prev i. prev[i := 0]) prev [sl_max_height s..<height]"
    using r by (auto simp: raise_height_def)
  have "sl_pred lk ls j = 0" if "sl_max_height s \<le> j" for j
  proof -
    have "filter (\<lambda>n. j < lk n) ls = []" using sl_okD(8) [OF ok] that ns by (fastforce simp: filter_empty_conv)
    then show ?thesis by (simp add: sl_pred_def)
  qed
  then have "\<forall>j<height. prev' ! j = sl_pred lk ls j"
    using prev h(2) len by (auto simp: p foldl_update)
  moreover have "sl_ok A cmp s' lk ns"
    using ok True h by (fastforce simp: sl_ok_def s' sl_links_def node_next_def node_key_def)
  ultimately show ?thesis by (simp add: s' same_nodes_def node_key_def)
qed

lemma NewNode_ok:
  assumes ok: "sl_ok A cmp s lk ns" and n: "NewNode key height s = (x, s')" and free: "sl_nodes s (sl_arena s) = None"
  shows "sl_ok A cmp s' lk ns \<and> same_nodes s s' \<and> x = sl_arena s \<and> x \<notin> set (0 # ns) \<and> x < sl_arena s' \<and>
    sl_nodes s' x \<noteq> None \<and> node_key s' x = key \<and> (\<forall>j<height. node_next s' x j \<noteq> None) \<and>
    sl_max_height s' = sl_max_height s \<and> (\<forall>a. sl_nodes s' a = None \<longleftrightarrow> sl_nodes s a = None \<and> a \<noteq> x) \<and> sl_arena s' = Suc (sl_arena s)"
proof -
  have x: "x = sl_arena s" "s' = s\<lparr>sl_nodes := (sl_nodes s)(sl_arena s \<mapsto> \<lparr>sl_key = key, sl_next = replicate height None\<rparr>),
      sl_arena := Suc (sl_arena s)\<rparr>"
    using n by (auto simp: NewNode_def)
  have notin: "x \<notin> set (0 # ns)" using sl_okD(7) [OF ok] x(1) by blast
  have same: "node_next s' a m = node_next s a m" "node_key s' a = node_key s a" if "a \<noteq> x" for a m
    using that x by (simp_all add: node_next_def node_key_def)
  have "sl_links s' lk ns"
    unfolding sl_links_def
  proof (intro allI impI)
    fix pre y post i
    assume a: "0 # ns = pre @ y # post \<and> i < kMaxHeight \<and> (y = 0 \<or> i < lk y)"
    then have "y \<in> set (0 # ns)" by (metis in_set_conv_decomp)
    then have "y \<noteq> x" using notin by auto
    with a sl_okD(1) [OF ok] same(1) show "node_next s' y i = Some (find (\<lambda>n. i < lk n) post)"
      unfolding sl_links_def by simp
  qed
  moreover have "sorted_wrt (\<lambda>m n. cmp (node_key s' m) (node_key s' n) < 0) ns"
  proof (rule sorted_wrt_mono_rel [rotated, OF sl_okD(6) [OF ok]])
    fix m n
    assume "m \<in> set ns" "n \<in> set ns" "cmp (node_key s m) (node_key s n) < 0"
    moreover from this(1,2) notin have "m \<noteq> x" "n \<noteq> x" by auto
    ultimately show "cmp (node_key s' m) (node_key s' n) < 0" by (simp add: same(2))
  qed
  moreover have "\<forall>n\<in>set ns. node_key s' n \<in> A \<and> 0 < lk n \<and> lk n \<le> sl_max_height s'"
  proof
    fix n
    assume "n \<in> set ns"
    moreover from this notin have "n \<noteq> x" by auto
    ultimately show "node_key s' n \<in> A \<and> 0 < lk n \<and> lk n \<le> sl_max_height s'"
      using sl_okD(3,5,8) [OF ok] by (simp add: same(2)) (simp add: x(2))
  qed
  moreover have "\<forall>n\<in>set (0 # ns). n < sl_arena s' \<and> sl_nodes s' n \<noteq> None"
    using sl_okD(7) [OF ok] by (auto simp: x(2) less_Suc_eq)
  ultimately have "sl_ok A cmp s' lk ns"
    using sl_okD(2,9,10) [OF ok] unfolding sl_ok_def by (simp add: x(2))
  moreover have "same_nodes s s'" using same(2) free by (auto simp: same_nodes_def x)
  moreover have "node_key s' x = key" "\<forall>j<height. node_next s' x j \<noteq> None"
    by (simp_all add: x node_key_def node_next_def)
  ultimately show ?thesis using notin by (auto simp: x)
qed

subsection \<open>The list as an ordered list of keys\<close>

text \<open>
  The state of the list at rest: the invariant holds, and no address is in use that the arena has not
  handed out. \<open>sl_list\<close> relates it to the keys in order.
\<close>

definition sl_list :: "'k set \<Rightarrow> ('k \<Rightarrow> 'k \<Rightarrow> int) \<Rightarrow> 'k skiplist \<Rightarrow> 'k list \<Rightarrow> bool" where
  "sl_list A cmp s ks \<longleftrightarrow>
     (\<exists>lk ns. sl_ok A cmp s lk ns \<and> ks = map (node_key s) ns) \<and> (\<forall>a\<ge>sl_arena s. sl_nodes s a = None)"

context comparator
begin

lemma Insert_ok:
  assumes ok: "sl_ok A cmp s lk ns" and free: "\<forall>a\<ge>sl_arena s. sl_nodes s a = None" and key: "key \<in> A"
    and fresh: "\<forall>n\<in>set ns. cmp (node_key s n) key \<noteq> 0"
  shows "\<exists>s' lk' x. Insert cmp key s = Some s' \<and> sl_ok A cmp s' lk' (below cmp s key ns @ x # above cmp s key ns) \<and>
    (\<forall>a\<ge>sl_arena s'. sl_nodes s' a = None) \<and> same_nodes s s' \<and> node_key s' x = key"
proof -
  let ?ls = "below cmp s key ns" and ?gs = "above cmp s key ns"
  have ns: "ns = ?ls @ ?gs" by (rule sl_split [OF ok key])
  obtain prev where find: "FindGreaterOrEqual cmp s key (replicate kMaxHeight (sl_arena s)) = Some (case ?gs of [] \<Rightarrow> None | g # _ \<Rightarrow> Some g, prev)"
    and prev: "length prev = kMaxHeight" "\<forall>j < sl_max_height s. prev ! j = sl_pred lk ?ls j"
    using FindGreaterOrEqual_ok [OF ok key, of "replicate kMaxHeight (sl_arena s)"] sl_okD(10) [OF ok] by (simp add: foldl_update)
  obtain height rnd where height: "RandomHeight (sl_rnd s) = (height, rnd)" by (metis prod.collapse)
  then have h: "0 < height" "height \<le> kMaxHeight" using RandomHeight_range [of "sl_rnd s"] by simp_all
  have rnd: "sl_ok A cmp (s\<lparr>sl_rnd := rnd\<rparr>) lk ns"
    using ok by (simp add: sl_ok_def sl_links_def node_next_def node_key_def)
  obtain prev' s1 where r: "raise_height height prev (s\<lparr>sl_rnd := rnd\<rparr>) = (prev', s1)" by (metis prod.collapse)
  from raise_height_ok [OF rnd h prev(1) ns _ r] prev(2)
  have s1: "sl_ok A cmp s1 lk ns" "same_nodes s s1" "height \<le> sl_max_height s1" "\<forall>j<height. prev' ! j = sl_pred lk ?ls j"
    "sl_arena s1 = sl_arena s" "sl_nodes s1 = sl_nodes s"
    by (auto simp: same_nodes_def node_key_def)
  obtain x s2 where n: "NewNode key height s1 = (x, s2)" by (metis prod.collapse)
  have "sl_nodes s1 (sl_arena s1) = None" using free s1(5,6) by simp
  from NewNode_ok [OF s1(1) n this] have s2: "sl_ok A cmp s2 lk ns" "same_nodes s1 s2" "x \<notin> set (0 # ns)" "x < sl_arena s2"
    "sl_nodes s2 x \<noteq> None" "node_key s2 x = key" "\<forall>j<height. node_next s2 x j \<noteq> None" "height \<le> sl_max_height s2"
    "\<forall>a\<ge>sl_arena s2. sl_nodes s2 a = None"
    using s1(3,5,6) free by auto
  have same: "same_nodes s s2" by (rule same_nodes_trans [OF s1(2) s2(2)])
  have keys: "node_key s2 n = node_key s n" if "n \<in> set ns" for n
    using same sl_okD(7) [OF ok] that by (auto simp: same_nodes_def)
  have "\<exists>s'. link_levels x prev' [0..<height] s2 = Some s' \<and> sl_ok A cmp s' (lk(x := height)) (?ls @ x # ?gs) \<and> same_nodes s2 s' \<and>
      sl_arena s' = sl_arena s2 \<and> (\<forall>a. sl_nodes s' a = None \<longleftrightarrow> sl_nodes s2 a = None)"
  proof (rule link_levels_ok)
    show "\<forall>n\<in>set ?ls. cmp (node_key s2 n) (node_key s2 x) < 0" "\<forall>n\<in>set ?gs. cmp (node_key s2 x) (node_key s2 n) < 0"
      using sl_cut_strict [OF ok key fresh] keys by (auto simp: s2(6) below_def above_def)
    show "sl_ok A cmp s2 lk (if 0 = 0 then ?ls @ ?gs else ?ls @ x # ?gs)" using s2(1) ns by simp
    show "x \<notin> set (0 # ?ls @ ?gs)" using s2(3) ns by metis
  qed (use s2 s1(4) h key in auto)
  then obtain s' where s': "link_levels x prev' [0..<height] s2 = Some s'" "sl_ok A cmp s' (lk(x := height)) (?ls @ x # ?gs)"
    "same_nodes s2 s'" "sl_arena s' = sl_arena s2" "\<forall>a. sl_nodes s' a = None \<longleftrightarrow> sl_nodes s2 a = None" by blast
  have "Insert cmp key s = Some s'"
    by (simp add: Insert_def find height r n s'(1))
  moreover have "node_key s' x = key" using s'(3) s2(5,6) by (auto simp: same_nodes_def)
  ultimately show ?thesis using s' s2(9) same_nodes_trans [OF same s'(3)] by auto
qed

end

lemma new_SkipList_eq:
  "new_SkipList k = \<lparr>sl_nodes = (\<lambda>_. None)(0 \<mapsto> \<lparr>sl_key = k, sl_next = replicate kMaxHeight None\<rparr>), sl_arena = Suc 0,
    sl_max_height = 1, sl_rnd = new_Random 0xdeadbeef\<rparr>" (is "_ = ?s")
proof -
  have "set_next 0 i None ?s = ?s" for i
    by (simp add: set_next_def fun_eq_iff) (metis list_update_id list_update_beyond not_le nth_replicate length_replicate)
  then have "foldl (\<lambda>s i. set_next 0 i None s) ?s is = ?s" for "is"
    by (induction "is") simp_all
  then show ?thesis by (simp add: new_SkipList_def NewNode_def)
qed

lemma new_SkipList_ok: "sl_ok A cmp (new_SkipList k) lk [] \<and> (\<forall>a\<ge>sl_arena (new_SkipList k). sl_nodes (new_SkipList k) a = None)"
  by (auto simp: new_SkipList_eq sl_ok_def sl_links_def node_next_def Cons_eq_append_conv kMaxHeight_def)

lemma sl_links_at:
  assumes "sl_links s lk ns" "i < length ns" "0 < lk (ns ! i)" "\<forall>n\<in>set ns. 0 < lk n"
  shows "node_next s (ns ! i) 0 = Some (if Suc i < length ns then Some (ns ! Suc i) else None)"
proof -
  have "0 # ns = (0 # take i ns) @ ns ! i # drop (Suc i) ns" using assms(2) by (simp add: Cons_nth_drop_Suc)
  then have "node_next s (ns ! i) 0 = Some (find (\<lambda>n. 0 < lk n) (drop (Suc i) ns))"
    using assms(1,3) unfolding sl_links_def by (metis kMaxHeight_def zero_less_numeral)
  also have "find (\<lambda>n. 0 < lk n) (drop (Suc i) ns) = (if Suc i < length ns then Some (ns ! Suc i) else None)"
  proof (cases "Suc i < length ns")
    case True
    then show ?thesis using assms(4) by (simp add: Cons_nth_drop_Suc [symmetric])
  qed simp
  finally show ?thesis .
qed

context comparator
begin

text \<open>The iterator over the nodes in order.\<close>

lemma iter_Seek_ok:
  assumes "sl_ok A cmp s lk ns" "t \<in> A"
  shows "iter_Seek cmp s t = Some (find (\<lambda>n. \<not> cmp (node_key s n) t < 0) ns)"
proof -
  have "(case filter P xs of [] \<Rightarrow> None | g # _ \<Rightarrow> Some g) = find P xs" for P and xs :: "nat list"
    by (induction xs) auto
  then show ?thesis by (simp add: iter_Seek_def FindGreaterOrEqual_ok [OF assms] above_def)
qed

lemma iter_Next_ok:
  "sl_ok A cmp s lk ns \<Longrightarrow> i < length ns \<Longrightarrow> iter_Next s (ns ! i) = Some (if Suc i < length ns then Some (ns ! Suc i) else None)"
  unfolding iter_Next_def using sl_okD(1,3) [of A cmp s lk ns] by (intro sl_links_at [of s lk]) auto

lemma iter_SeekToFirst_ok:
  assumes "sl_ok A cmp s lk ns"
  shows "iter_SeekToFirst s = Some (case ns of [] \<Rightarrow> None | n # _ \<Rightarrow> Some n)"
proof -
  have "node_next s 0 0 = Some (find (\<lambda>n. 0 < lk n) ns)"
    using sl_okD(1) [OF assms] unfolding sl_links_def by (metis append_Nil kMaxHeight_def zero_less_numeral)
  then show ?thesis using sl_okD(3) [OF assms] by (cases ns) (simp_all add: iter_SeekToFirst_def)
qed

lemma iter_SeekToLast_ok:
  assumes "sl_ok A cmp s lk ns"
  shows "iter_SeekToLast s = Some (if ns = [] then None else Some (last ns))"
proof -
  have "ns \<noteq> [] \<Longrightarrow> last ns \<noteq> 0" using sl_okD(2) [OF assms] by (metis distinct.simps(2) last_in_set)
  then show ?thesis by (cases "ns = []") (simp_all add: iter_SeekToLast_def FindLast_ok [OF assms])
qed

lemma iter_Prev_ok:
  assumes ok: "sl_ok A cmp s lk ns" and i: "i < length ns"
  shows "iter_Prev cmp s (ns ! i) = Some (if i = 0 then None else Some (ns ! (i - 1)))"
proof -
  have k: "node_key s (ns ! i) \<in> A" using sl_okD(5) [OF ok] i by simp
  have less: "cmp (node_key s (ns ! j)) (node_key s (ns ! i)) < 0 \<longleftrightarrow> j < i" if "j < length ns" for j
  proof -
    have kj: "node_key s (ns ! j) \<in> A" using sl_okD(5) [OF ok] that by simp
    consider "j < i" | "j = i" | "i < j" by linarith
    then show ?thesis
    proof cases
      case 3
      then have "cmp (node_key s (ns ! i)) (node_key s (ns ! j)) < 0"
        using sl_okD(6) [OF ok] that by (simp add: sorted_wrt_iff_nth_less)
      then show ?thesis using cmp_less_swap [OF k kj] 3 by simp
    qed (use sl_okD(6) [OF ok] i cmp_refl [OF k] in \<open>simp_all add: sorted_wrt_iff_nth_less\<close>)
  qed
  have "below cmp s (node_key s (ns ! i)) ns = take i ns"
  proof -
    have "filter (\<lambda>n. cmp (node_key s n) (node_key s (ns ! i)) < 0) (take i ns) = take i ns"
      using i by (intro filter_True) (auto simp: in_set_conv_nth less)
    moreover have "filter (\<lambda>n. cmp (node_key s n) (node_key s (ns ! i)) < 0) (drop i ns) = []"
      using i by (intro filter_False) (auto simp: in_set_conv_nth less)
    ultimately show ?thesis unfolding below_def by (metis append_Nil2 append_take_drop_id filter_append)
  qed
  then have "FindLessThan cmp s (node_key s (ns ! i)) = Some (last (0 # take i ns))"
    using FindLessThan_ok [OF ok k] by simp
  moreover have "last (0 # take i ns) = (if i = 0 then 0 else ns ! (i - 1))"
    using i by (cases i) (simp_all add: take_Suc_conv_app_nth)
  moreover have "ns ! (i - 1) \<noteq> 0" using sl_okD(2) [OF ok] i nth_mem [of "i - 1" ns] by (metis distinct.simps(2) less_imp_diff_less)
  ultimately show ?thesis by (simp add: iter_Prev_def)
qed

text \<open>What is known of the list \<open>ks\<close> of keys.\<close>

lemma Insert_list:
  assumes l: "sl_list A cmp s ks" and key: "key \<in> A" "\<forall>k\<in>set ks. cmp k key \<noteq> 0"
  shows "\<exists>s'. Insert cmp key s = Some s' \<and>
    sl_list A cmp s' (filter (\<lambda>k. cmp k key < 0) ks @ key # filter (\<lambda>k. \<not> cmp k key < 0) ks)"
proof -
  obtain lk ns where ok: "sl_ok A cmp s lk ns" "ks = map (node_key s) ns" and free: "\<forall>a\<ge>sl_arena s. sl_nodes s a = None"
    using l unfolding sl_list_def by blast
  have "\<forall>n\<in>set ns. cmp (node_key s n) key \<noteq> 0" using key(2) ok(2) by simp
  from Insert_ok [OF ok(1) free key(1) this] obtain s' lk' x where s': "Insert cmp key s = Some s'"
    "sl_ok A cmp s' lk' (below cmp s key ns @ x # above cmp s key ns)" "\<forall>a\<ge>sl_arena s'. sl_nodes s' a = None"
    "same_nodes s s'" "node_key s' x = key" by blast
  have keys: "map (node_key s') xs = map (node_key s) xs" if "set xs \<subseteq> set ns" for xs
    using s'(4) sl_okD(7) [OF ok(1)] that by (auto simp: same_nodes_def)
  have "map (node_key s') (below cmp s key ns @ x # above cmp s key ns) =
      filter (\<lambda>k. cmp k key < 0) ks @ key # filter (\<lambda>k. \<not> cmp k key < 0) ks"
    using keys [of "below cmp s key ns"] keys [of "above cmp s key ns"]
    by (simp add: s'(5) ok(2) below_def above_def filter_map o_def)
  with s'(1-3) show ?thesis unfolding sl_list_def by metis
qed

lemma sl_list_sorted: "sl_list A cmp s ks \<Longrightarrow> sorted_wrt (\<lambda>a b. cmp a b < 0) ks \<and> set ks \<subseteq> A"
  unfolding sl_list_def using sl_okD(5,6) by (fastforce simp: sorted_wrt_map)

lemma Seek_list:
  assumes "sl_list A cmp s ks" "t \<in> A"
  obtains n where "iter_Seek cmp s t = Some n" "map_option (node_key s) n = find (\<lambda>k. \<not> cmp k t < 0) ks"
proof -
  have mf: "map_option f (find (\<lambda>x. P (f x)) xs) = find P (map f xs)" for f P and xs :: "nat list"
    by (induction xs) auto
  obtain lk ns where ok: "sl_ok A cmp s lk ns" "ks = map (node_key s) ns"
    using assms(1) unfolding sl_list_def by blast
  from that [OF iter_Seek_ok [OF ok(1) assms(2)]] mf [of "node_key s" "\<lambda>k. \<not> cmp k t < 0" ns] show thesis
    by (simp add: ok(2))
qed

end

lemma new_SkipList_list: "sl_list A cmp (new_SkipList k) []"
  using new_SkipList_ok [of A cmp k] by (auto simp: sl_list_def)

subsection \<open>Properties\<close>

fun insert_all :: "('k \<Rightarrow> 'k \<Rightarrow> int) \<Rightarrow> 'k list \<Rightarrow> 'k skiplist \<Rightarrow> 'k skiplist option" where
  "insert_all cmp [] s = Some s"
| "insert_all cmp (k # ks) s = Option.bind (Insert cmp k s) (insert_all cmp ks)"

lemma mset_cut: "mset (filter P ks @ k # filter (\<lambda>k. \<not> P k) ks) = add_mset k (mset ks)"
  by (induction ks) auto

context comparator
begin

lemma insert_all_list:
  "sl_list A cmp s ks \<Longrightarrow> set ls \<subseteq> A \<Longrightarrow> \<forall>k\<in>set ks. \<forall>l\<in>set ls. cmp k l \<noteq> 0 \<Longrightarrow> sorted_wrt (\<lambda>k l. cmp k l \<noteq> 0) ls \<Longrightarrow>
    \<exists>s' ms. insert_all cmp ls s = Some s' \<and> sl_list A cmp s' ms \<and> mset ms = mset ks + mset ls"
proof (induction ls arbitrary: s ks)
  case Nil
  then show ?case by auto
next
  case (Cons l ls)
  have "l \<in> A" "\<forall>k\<in>set ks. cmp k l \<noteq> 0" using Cons.prems(2,3) by auto
  from Insert_list [OF Cons.prems(1) this] obtain s1 where s1: "Insert cmp l s = Some s1"
    "sl_list A cmp s1 (filter (\<lambda>k. cmp k l < 0) ks @ l # filter (\<lambda>k. \<not> cmp k l < 0) ks)" by blast
  from Cons.IH [OF s1(2)] Cons.prems obtain s' ms where "insert_all cmp ls s1 = Some s'" "sl_list A cmp s' ms"
    "mset ms = mset (filter (\<lambda>k. cmp k l < 0) ks @ l # filter (\<lambda>k. \<not> cmp k l < 0) ks) + mset ls" by auto
  then show ?case using s1(1) unfolding mset_cut by auto
qed

end

text \<open>
  Property C8. The skip list is an ordered list of the keys: whatever heights the random numbers give to
  the nodes, inserting keys that do not compare equal to each other succeeds, and then there is a list of
  nodes with exactly those keys in ascending order such that the iterator walks along it in both
  directions and from both ends, seeking finds the first key that is not below the target, and
  \<open>Contains\<close> tells whether a key is there. No search runs forever or leaves the nodes.
\<close>

theorem SkipList_refines_sorted_list:
  assumes "comparator A cmp" "set ks \<subseteq> A" "sorted_wrt (\<lambda>k l. cmp k l \<noteq> 0) ks"
  shows "\<exists>s ns. insert_all cmp ks (new_SkipList any) = Some s \<and> mset (map (node_key s) ns) = mset ks \<and>
    sorted_wrt (\<lambda>k l. cmp k l < 0) (map (node_key s) ns) \<and>
    iter_SeekToFirst s = Some (case ns of [] \<Rightarrow> None | n # _ \<Rightarrow> Some n) \<and>
    iter_SeekToLast s = Some (if ns = [] then None else Some (last ns)) \<and>
    (\<forall>i<length ns. iter_Next s (ns ! i) = Some (if Suc i < length ns then Some (ns ! Suc i) else None) \<and>
      iter_Prev cmp s (ns ! i) = Some (if i = 0 then None else Some (ns ! (i - 1)))) \<and>
    (\<forall>t\<in>A. iter_Seek cmp s t = Some (find (\<lambda>n. \<not> cmp (node_key s n) t < 0) ns) \<and>
      Contains cmp s t = Some (\<exists>k\<in>set ks. cmp t k = 0))"
proof -
  obtain s ms where s: "insert_all cmp ks (new_SkipList any) = Some s" "sl_list A cmp s ms" "mset ms = mset ks"
    using comparator.insert_all_list [OF assms(1) new_SkipList_list [of A cmp any] assms(2) _ assms(3)] by auto
  then obtain lk ns where ok: "sl_ok A cmp s lk ns" and ms: "ms = map (node_key s) ns" unfolding sl_list_def by blast
  have "set ms = set ks" by (rule mset_eq_setD [OF s(3)])
  then have "set ks = node_key s ` set ns" by (simp add: ms)
  then have "(\<exists>n\<in>set ns. cmp t (node_key s n) = 0) = (\<exists>k\<in>set ks. cmp t k = 0)" for t by auto
  moreover have "sorted_wrt (\<lambda>k l. cmp k l < 0) (map (node_key s) ns)"
    using comparator.sl_list_sorted [OF assms(1) s(2)] ms by simp
  ultimately show ?thesis
    using s ms comparator.iter_SeekToFirst_ok [OF assms(1) ok] comparator.iter_SeekToLast_ok [OF assms(1) ok]
      comparator.iter_Next_ok [OF assms(1) ok] comparator.iter_Prev_ok [OF assms(1) ok]
      comparator.iter_Seek_ok [OF assms(1) ok] comparator.Contains_ok [OF assms(1) ok]
    by (intro exI [of _ s] exI [of _ ns]) simp
qed

text \<open>At three numbers, in the order of the integers.\<close>

lemma SkipList_refines_sorted_list_witness:
  "\<exists>s ns. insert_all (-) [5, 1, 3] (new_SkipList (0 :: int)) = Some s \<and> length ns = 3 \<and>
    iter_Seek (-) s 2 = Some (find (\<lambda>n. 2 \<le> node_key s n) ns) \<and> Contains (-) s 3 = Some True \<and> Contains (-) s 4 = Some False"
proof -
  have c: "comparator UNIV ((-) :: int \<Rightarrow> int \<Rightarrow> int)" by unfold_locales auto
  have d: "sorted_wrt (\<lambda>k l. k - l \<noteq> 0) [5, 1, 3 :: int]" by simp
  obtain s ns where s: "insert_all (-) [5, 1, 3] (new_SkipList (0 :: int)) = Some s"
    "mset (map (node_key s) ns) = mset [5, 1, 3]"
    "\<forall>t. iter_Seek (-) s t = Some (find (\<lambda>n. \<not> node_key s n - t < 0) ns) \<and>
      Contains (-) s t = Some (\<exists>k\<in>set [5, 1, 3]. t - k = 0)"
    using SkipList_refines_sorted_list [OF c _ d, of 0] by auto
  from arg_cong [OF s(2), of size] have "length ns = 3" by simp
  with s(1,3) show ?thesis by (auto simp: not_less)
qed

end
