(* ===== verification/LDB_SkipList_Conc.thy ===== *)
theory LDB_SkipList_Conc
  imports LDB_SkipList
begin

text \<open>
  Readers of the skip list (\<open>db/skiplist.h\<close>) need no lock: while one writer inserts, any number of readers
  search. A step of a reader is one turn of the loop of \<open>FindGreaterOrEqual\<close>, which reads one link; the
  steps of the writer are those that readers can see, the store of the maximal height and, at each level of
  the new node, first the store of its own link and then the store of the link that leads to it. Loads and stores of links are atomic, as in the code.
\<close>

subsection \<open>Steps\<close>

datatype 'k writer_pc =
    Idle
  | Placing 'k "nat list" nat
  | Linking nat "nat list" nat nat
  | Publishing nat "nat list" nat nat

datatype 'k reader_pc =
    Resting
  | Searching 'k nat nat
  | Found 'k "nat option"

record 'k sl_state =
  st_list :: "'k skiplist"
  st_writer :: "'k writer_pc"
  st_readers :: "nat \<Rightarrow> 'k reader_pc"
  st_begun :: "'k list"

definition find_step :: "('k \<Rightarrow> 'k \<Rightarrow> int) \<Rightarrow> 'k skiplist \<Rightarrow> 'k \<Rightarrow> nat \<Rightarrow> nat \<Rightarrow> 'k reader_pc option" where
  "find_step cmp s key x level =
     Option.bind (node_next s x level) (\<lambda>next.
       Some (if KeyIsAfterNode cmp s key next then Searching key (the next) level
             else if level = 0 then Found key next
             else Searching key x (level - 1)))"

text \<open>The steps are those of the sequential code.\<close>

lemma find_ge_loop_steps:
  "find_ge_loop cmp s key x level [] =
     (case find_step cmp s key x level of
        None \<Rightarrow> None
      | Some Resting \<Rightarrow> None
      | Some (Searching _ x' level') \<Rightarrow> find_ge_loop cmp s key x' level' []
      | Some (Found _ n) \<Rightarrow> Some (n, []))"
  by (subst find_ge_loop.simps) (simp add: find_step_def split: bind_splits)

inductive sl_step :: "'k set \<Rightarrow> ('k \<Rightarrow> 'k \<Rightarrow> int) \<Rightarrow> 'k sl_state \<Rightarrow> 'k sl_state \<Rightarrow> bool" for A cmp where
  begin_insert: "st_writer st = Idle \<Longrightarrow> key \<in> A \<Longrightarrow> \<forall>k\<in>set (st_begun st). cmp k key \<noteq> 0 \<Longrightarrow>
    FindGreaterOrEqual cmp (st_list st) key (replicate kMaxHeight (sl_arena (st_list st))) = Some (n, prev) \<Longrightarrow>
    RandomHeight (sl_rnd (st_list st)) = (height, rnd) \<Longrightarrow>
    sl_step A cmp st (st\<lparr>st_list := (st_list st)\<lparr>sl_rnd := rnd\<rparr>, st_writer := Placing key prev height,
      st_begun := st_begun st @ [key]\<rparr>)"
| new_node: "st_writer st = Placing key prev height \<Longrightarrow>
    raise_height height prev (st_list st) = (prev', s1) \<Longrightarrow> NewNode key height s1 = (x, s2) \<Longrightarrow>
    sl_step A cmp st (st\<lparr>st_list := s2, st_writer := Linking x prev' height 0\<rparr>)"
| link: "st_writer st = Linking x prev height i \<Longrightarrow> i < height \<Longrightarrow> link_own x prev i (st_list st) = Some s' \<Longrightarrow>
    sl_step A cmp st (st\<lparr>st_list := s', st_writer := Publishing x prev height i\<rparr>)"
| publish: "st_writer st = Publishing x prev height i \<Longrightarrow>
    sl_step A cmp st (st\<lparr>st_list := link_publish x prev i (st_list st), st_writer := Linking x prev height (Suc i)\<rparr>)"
| end_insert: "st_writer st = Linking x prev height height \<Longrightarrow> sl_step A cmp st (st\<lparr>st_writer := Idle\<rparr>)"
| begin_search: "t \<in> A \<Longrightarrow>
    sl_step A cmp st (st\<lparr>st_readers := (st_readers st)(r := Searching t 0 (sl_max_height (st_list st) - 1))\<rparr>)"
| search: "st_readers st r = Searching t x level \<Longrightarrow> find_step cmp (st_list st) t x level = Some pc \<Longrightarrow>
    sl_step A cmp st (st\<lparr>st_readers := (st_readers st)(r := pc)\<rparr>)"

definition sl_init :: "'k \<Rightarrow> 'k sl_state" where
  "sl_init k = \<lparr>st_list = new_SkipList k, st_writer = Idle, st_readers = (\<lambda>_. Resting), st_begun = []\<rparr>"

inductive sl_reach :: "'k set \<Rightarrow> ('k \<Rightarrow> 'k \<Rightarrow> int) \<Rightarrow> 'k \<Rightarrow> 'k sl_state \<Rightarrow> bool" for A cmp k where
  init: "sl_reach A cmp k (sl_init k)"
| step: "sl_reach A cmp k st \<Longrightarrow> sl_step A cmp st st' \<Longrightarrow> sl_reach A cmp k st'"

text \<open>The keys whose insertion has ended.\<close>

definition ended :: "'k sl_state \<Rightarrow> 'k set" where
  "ended st = (if st_writer st = Idle then set (st_begun st) else set (butlast (st_begun st)))"

subsection \<open>The invariant\<close>

text \<open>The nodes that are linked, and what the writer holds, at each of its steps.\<close>

definition linking_ok ::
  "('k \<Rightarrow> 'k \<Rightarrow> int) \<Rightarrow> 'k skiplist \<Rightarrow> 'k list \<Rightarrow> (nat \<Rightarrow> nat) \<Rightarrow> nat list \<Rightarrow> nat \<Rightarrow> nat list \<Rightarrow> nat \<Rightarrow> nat \<Rightarrow>
    nat list \<Rightarrow> nat list \<Rightarrow> bool" where
  "linking_ok cmp s begun lk ns x prev height i ls gs \<longleftrightarrow>
     ns = (if i = 0 then ls @ gs else ls @ x # gs) \<and> (0 < i \<longrightarrow> lk x = i) \<and> i \<le> height \<and>
     x \<notin> set (0 # ls @ gs) \<and> x < sl_arena s \<and> sl_nodes s x \<noteq> None \<and>
     (\<exists>ks. begun = ks @ [node_key s x] \<and> node_key s ` set (ls @ gs) = set ks) \<and>
     (\<forall>n\<in>set ls. cmp (node_key s n) (node_key s x) < 0) \<and> (\<forall>n\<in>set gs. cmp (node_key s x) (node_key s n) < 0) \<and>
     (\<forall>j<height. node_next s x j \<noteq> None) \<and> (\<forall>j<height. prev ! j = sl_pred lk ls j) \<and> 0 < height \<and>
     height \<le> sl_max_height s"

lemma linking_okI:
  assumes "ns = (if i = 0 then ls @ gs else ls @ x # gs)" "0 < i \<longrightarrow> lk x = i" "i \<le> height"
    "x \<notin> set (0 # ls @ gs)" "x < sl_arena s" "sl_nodes s x \<noteq> None"
    "begun = ks @ [node_key s x]" "node_key s ` set (ls @ gs) = set ks"
    "\<forall>n\<in>set ls. cmp (node_key s n) (node_key s x) < 0" "\<forall>n\<in>set gs. cmp (node_key s x) (node_key s n) < 0"
    "\<forall>j<height. node_next s x j \<noteq> None" "\<forall>j<height. prev ! j = sl_pred lk ls j" "0 < height" "height \<le> sl_max_height s"
  shows "linking_ok cmp s begun lk ns x prev height i ls gs"
  unfolding linking_ok_def by (intro conjI exI [of _ ks]) (fact assms)+

definition writer_ok :: "('k \<Rightarrow> 'k \<Rightarrow> int) \<Rightarrow> 'k sl_state \<Rightarrow> (nat \<Rightarrow> nat) \<Rightarrow> nat list \<Rightarrow> bool" where
  "writer_ok cmp st lk ns =
     (let s = st_list st
      in case st_writer st of
           Idle \<Rightarrow> node_key s ` set ns = set (st_begun st)
         | Placing key prev height \<Rightarrow>
             (\<exists>ks. st_begun st = ks @ [key] \<and> node_key s ` set ns = set ks \<and> (\<forall>k\<in>set ks. cmp k key \<noteq> 0)) \<and>
             length prev = kMaxHeight \<and> 0 < height \<and> height \<le> kMaxHeight \<and>
             (\<forall>j < sl_max_height s. prev ! j = sl_pred lk (below cmp s key ns) j)
         | Linking x prev height i \<Rightarrow> (\<exists>ls gs. linking_ok cmp s (st_begun st) lk ns x prev height i ls gs)
         | Publishing x prev height i \<Rightarrow>
             i < height \<and> node_next s (prev ! i) i = node_next s x i \<and>
             (\<exists>ls gs. linking_ok cmp s (st_begun st) lk ns x prev height i ls gs))"

definition reader_ok :: "'k set \<Rightarrow> ('k \<Rightarrow> 'k \<Rightarrow> int) \<Rightarrow> 'k skiplist \<Rightarrow> (nat \<Rightarrow> nat) \<Rightarrow> nat list \<Rightarrow> 'k reader_pc \<Rightarrow> bool" where
  "reader_ok A cmp s lk ns pc =
     (case pc of
        Searching t x level \<Rightarrow> t \<in> A \<and> level < kMaxHeight \<and>
          (x = 0 \<or> x \<in> set ns \<and> level < lk x \<and> cmp (node_key s x) t < 0)
      | _ \<Rightarrow> True)"

definition conc_ok :: "'k set \<Rightarrow> ('k \<Rightarrow> 'k \<Rightarrow> int) \<Rightarrow> 'k sl_state \<Rightarrow> (nat \<Rightarrow> nat) \<Rightarrow> nat list \<Rightarrow> bool" where
  "conc_ok A cmp st lk ns \<longleftrightarrow>
     sl_ok A cmp (st_list st) lk ns \<and> (\<forall>a\<ge>sl_arena (st_list st). sl_nodes (st_list st) a = None) \<and>
     set (st_begun st) \<subseteq> A \<and> writer_ok cmp st lk ns \<and> (\<forall>r. reader_ok A cmp (st_list st) lk ns (st_readers st r))"

lemma linking_keys:
  assumes "linking_ok cmp s begun lk ns x prev height i ls gs"
  obtains ks where "begun = ks @ [node_key s x]" "node_key s ` set ns = (if i = 0 then set ks else insert (node_key s x) (set ks))"
proof -
  obtain ks where *: "ns = (if i = 0 then ls @ gs else ls @ x # gs)" "begun = ks @ [node_key s x]" "node_key s ` set (ls @ gs) = set ks"
    using assms by (auto simp: linking_ok_def)
  have "node_key s ` set ns = (if i = 0 then set ks else insert (node_key s x) (set ks))"
    unfolding *(3) [symmetric] by (simp add: *(1))
  with *(2) that show thesis by blast
qed

lemma conc_keys:
  assumes "conc_ok A cmp st lk ns"
  shows "ended st \<subseteq> node_key (st_list st) ` set ns" "node_key (st_list st) ` set ns \<subseteq> set (st_begun st)"
proof -
  let ?K = "node_key (st_list st)"
  have w: "writer_ok cmp st lk ns" using assms by (simp add: conc_ok_def)
  have "ended st \<subseteq> ?K ` set ns \<and> ?K ` set ns \<subseteq> set (st_begun st)"
  proof (cases "st_writer st")
    case (Linking x prev height i)
    then obtain ls gs where "linking_ok cmp (st_list st) (st_begun st) lk ns x prev height i ls gs"
      using w by (auto simp: writer_ok_def Let_def)
    from linking_keys [OF this] obtain ks where "st_begun st = ks @ [?K x]"
      "?K ` set ns = (if i = 0 then set ks else insert (?K x) (set ks))" .
    then show ?thesis using Linking by (auto simp: ended_def)
  next
    case (Publishing x prev height i)
    then obtain ls gs where "linking_ok cmp (st_list st) (st_begun st) lk ns x prev height i ls gs"
      using w by (auto simp: writer_ok_def Let_def)
    from linking_keys [OF this] obtain ks where "st_begun st = ks @ [?K x]"
      "?K ` set ns = (if i = 0 then set ks else insert (?K x) (set ks))" .
    then show ?thesis using Publishing by (auto simp: ended_def)
  qed (use w in \<open>auto simp: writer_ok_def ended_def Let_def\<close>)
  then show "ended st \<subseteq> ?K ` set ns" "?K ` set ns \<subseteq> set (st_begun st)" by simp_all
qed

text \<open>A reader stays where it is right when the list grows.\<close>

lemma reader_ok_mono:
  assumes "reader_ok A cmp s lk ns pc" "set ns \<subseteq> set ns'" "\<And>n. n \<in> set ns \<Longrightarrow> lk n \<le> lk' n"
    "\<And>n. n \<in> set ns \<Longrightarrow> node_key s' n = node_key s n"
  shows "reader_ok A cmp s' lk' ns' pc"
  using assms by (cases pc) (auto simp: reader_ok_def intro: less_le_trans)

lemma writer_ok_readers [simp]: "writer_ok cmp (st\<lparr>st_readers := f\<rparr>) lk ns = writer_ok cmp st lk ns"
  by (cases "st_writer st") (simp_all add: writer_ok_def Let_def split del: if_split)

context comparator
begin

lemma conc_begin_search:
  assumes "conc_ok A cmp st lk ns" "t \<in> A"
  shows "conc_ok A cmp (st\<lparr>st_readers := (st_readers st)(r := Searching t 0 (sl_max_height (st_list st) - 1))\<rparr>) lk ns"
  using assms sl_okD(4) [of A cmp "st_list st" lk ns] by (auto simp: conc_ok_def reader_ok_def)

lemma conc_begin_insert:
  assumes ok: "conc_ok A cmp st lk ns" and w: "st_writer st = Idle" and key: "key \<in> A"
    "\<forall>k\<in>set (st_begun st). cmp k key \<noteq> 0"
    and f: "FindGreaterOrEqual cmp (st_list st) key (replicate kMaxHeight (sl_arena (st_list st))) = Some (n, prev)"
    and h: "RandomHeight (sl_rnd (st_list st)) = (height, rnd)"
  shows "conc_ok A cmp (st\<lparr>st_list := (st_list st)\<lparr>sl_rnd := rnd\<rparr>, st_writer := Placing key prev height,
      st_begun := st_begun st @ [key]\<rparr>) lk ns"
proof -
  have l: "sl_ok A cmp (st_list st) lk ns" using ok by (simp add: conc_ok_def)
  have same: "node_next ((st_list st)\<lparr>sl_rnd := rnd\<rparr>) = node_next (st_list st)" "node_key ((st_list st)\<lparr>sl_rnd := rnd\<rparr>) = node_key (st_list st)"
    by (simp_all add: fun_eq_iff node_next_def node_key_def)
  have "length prev = kMaxHeight" "\<forall>j < sl_max_height (st_list st). prev ! j = sl_pred lk (below cmp (st_list st) key ns) j"
    using FindGreaterOrEqual_ok [OF l key(1), of "replicate kMaxHeight (sl_arena (st_list st))"] f sl_okD(10) [OF l] by (auto simp: foldl_update)
  moreover have "0 < height" "height \<le> kMaxHeight" using RandomHeight_range [of "sl_rnd (st_list st)"] h by simp_all
  moreover have "sl_ok A cmp ((st_list st)\<lparr>sl_rnd := rnd\<rparr>) lk ns"
    using l unfolding sl_ok_def sl_links_def same by simp
  ultimately show ?thesis
    using ok w key by (simp add: conc_ok_def writer_ok_def reader_ok_def same below_def cong: reader_pc.case_cong)
qed

lemma conc_new_node:
  assumes ok: "conc_ok A cmp st lk ns" and w: "st_writer st = Placing key prev height"
    and r: "raise_height height prev (st_list st) = (prev', s1)" and n: "NewNode key height s1 = (x, s2)"
  shows "conc_ok A cmp (st\<lparr>st_list := s2, st_writer := Linking x prev' height 0\<rparr>) lk ns"
proof -
  let ?s = "st_list st"
  define ls gs where lg: "ls = below cmp ?s key ns" "gs = above cmp ?s key ns"
  have l: "sl_ok A cmp ?s lk ns" and free: "\<forall>a\<ge>sl_arena ?s. sl_nodes ?s a = None" and key: "key \<in> A"
    using ok w by (auto simp: conc_ok_def writer_ok_def Let_def)
  obtain ks where ks: "st_begun st = ks @ [key]" "node_key ?s ` set ns = set ks" "\<forall>k\<in>set ks. cmp k key \<noteq> 0"
    and p: "length prev = kMaxHeight" "0 < height" "height \<le> kMaxHeight" "\<forall>j < sl_max_height ?s. prev ! j = sl_pred lk ls j"
    using ok w by (auto simp: conc_ok_def writer_ok_def Let_def lg)
  have split: "ns = ls @ gs" unfolding lg by (rule sl_split [OF l key])
  from raise_height_ok [OF l p(2,3,1) split p(4) r]
  have s1: "sl_ok A cmp s1 lk ns" "same_nodes ?s s1" "height \<le> sl_max_height s1" "\<forall>j<height. prev' ! j = sl_pred lk ls j"
    "sl_arena s1 = sl_arena ?s" "sl_nodes s1 = sl_nodes ?s" by blast+
  have "sl_nodes s1 (sl_arena s1) = None" using free s1(5,6) by simp
  from NewNode_ok [OF s1(1) n this] have s2: "sl_ok A cmp s2 lk ns" "same_nodes s1 s2" "x \<notin> set (0 # ns)" "x < sl_arena s2"
    "sl_nodes s2 x \<noteq> None" "node_key s2 x = key" "\<forall>j<height. node_next s2 x j \<noteq> None" "height \<le> sl_max_height s2"
    "\<forall>a\<ge>sl_arena s2. sl_nodes s2 a = None"
    using s1(3,5,6) free by auto
  have same: "same_nodes ?s s2" by (rule same_nodes_trans [OF s1(2) s2(2)])
  have keys: "node_key s2 n = node_key ?s n" if "n \<in> set ns" for n
    using same sl_okD(7) [OF l] that by (auto simp: same_nodes_def)
  have "\<forall>n\<in>set ns. cmp (node_key ?s n) key \<noteq> 0" using ks(2,3) by auto
  note cut = sl_cut_strict [OF l key this, folded lg]
  have "node_key s2 ` set ns = set ks" using ks(2) keys by (metis image_cong)
  then have img: "node_key s2 ` set (ls @ gs) = set ks" using split by metis
  have "\<forall>n\<in>set ls. cmp (node_key s2 n) (node_key s2 x) < 0" "\<forall>n\<in>set gs. cmp (node_key s2 x) (node_key s2 n) < 0"
    using cut keys by (auto simp: s2(6) split)
  moreover have "x \<notin> set (0 # ls @ gs)" using s2(3) split by metis
  ultimately have "linking_ok cmp s2 (st_begun st) lk ns x prev' height 0 ls gs"
    by (intro linking_okI [where ks = ks] s2(7) s1(4))
      (simp_all only: s2(4-6,8) img ks(1) p(2) split if_True less_irrefl le0 simp_thms)
  then have "writer_ok cmp (st\<lparr>st_list := s2, st_writer := Linking x prev' height 0\<rparr>) lk ns"
    by (auto simp: writer_ok_def Let_def)
  moreover have "reader_ok A cmp ?s lk ns (st_readers st r)" for r using ok unfolding conc_ok_def by blast
  from reader_ok_mono [OF this subset_refl le_refl keys]
  have "reader_ok A cmp s2 lk ns (st_readers st r)" for r by blast
  ultimately show ?thesis using ok s2 by (simp add: conc_ok_def)
qed

text \<open>
  The first store of a level: the new node is not linked there yet, so no reader follows the link. The
  second store has the effect of both, since the first is there already.
\<close>

lemma conc_own:
  assumes ok: "conc_ok A cmp st lk ns" and w: "st_writer st = Linking x prev height i" "i < height"
    and l: "link_own x prev i (st_list st) = Some s'"
  shows "conc_ok A cmp (st\<lparr>st_list := s', st_writer := Publishing x prev height i\<rparr>) lk ns"
proof -
  let ?s = "st_list st"
  obtain n where n: "node_next ?s (prev ! i) i = Some n" "s' = set_next x i n ?s"
    using l by (auto simp: link_own_def bind_eq_Some_conv)
  obtain ls gs where lo: "linking_ok cmp ?s (st_begun st) lk ns x prev height i ls gs"
    using ok w(1) by (auto simp: conc_ok_def writer_ok_def Let_def)
  then have x: "x \<noteq> 0" "x \<in> set ns \<Longrightarrow> lk x = i" "node_next ?s x i \<noteq> None" "prev ! i = sl_pred lk ls i" "x \<notin> set (0 # ls)"
    using w(2) by (auto simp: linking_ok_def split: if_splits)
  have "prev ! i \<noteq> x" using x(5) sl_pred_in [of lk ls i] x(4) by metis
  note next' = node_next_set [of x i n ?s]
  have same: "node_next s' y j = node_next ?s y j" if "y \<noteq> x \<or> j \<noteq> i" for y j
    using that by (auto simp: n(2) next')
  have keys: "node_key s' = node_key ?s" by (simp add: n(2) fun_eq_iff)
  have links: "sl_links ?s lk ns" using ok by (simp add: conc_ok_def sl_ok_def)
  have "sl_links s' lk ns" unfolding sl_links_def
  proof (intro allI impI)
    fix pre y post j
    assume y: "0 # ns = pre @ y # post \<and> j < kMaxHeight \<and> (y = 0 \<or> j < lk y)"
    then have "y \<in> set (0 # ns)" by simp
    then have "y = 0 \<or> y \<in> set ns" by simp
    then have "y \<noteq> x \<or> j \<noteq> i" using conjunct2 [OF conjunct2 [OF y]] x(1,2) by blast
    then show "node_next s' y j = Some (find (\<lambda>n. j < lk n) post)"
      using links y same unfolding sl_links_def by metis
  qed
  moreover have rest: "sl_nodes s' a = None \<longleftrightarrow> sl_nodes ?s a = None" "sl_arena s' = sl_arena ?s" "sl_max_height s' = sl_max_height ?s" for a
    by (simp_all add: n(2))
  ultimately have "sl_ok A cmp s' lk ns" using ok unfolding conc_ok_def sl_ok_def keys rest by blast
  moreover have "node_next s' x j \<noteq> None" if "node_next ?s x j \<noteq> None" for j
    using that x(3) by (auto simp: n(2) next')
  then have "linking_ok cmp s' (st_begun st) lk ns x prev height i ls gs"
    using lo unfolding linking_ok_def keys rest by blast
  moreover have "node_next s' (prev ! i) i = node_next s' x i"
    using same [of "prev ! i"] \<open>prev ! i \<noteq> x\<close> n(1) x(3) by (simp add: n(2) next')
  ultimately show ?thesis using ok w(2)
    by (auto simp: conc_ok_def writer_ok_def reader_ok_def Let_def keys rest simp del: not_None_eq cong: reader_pc.case_cong)
qed

lemma conc_publish:
  assumes ok: "conc_ok A cmp st lk ns" and w: "st_writer st = Publishing x prev height i"
    and l: "s' = link_publish x prev i (st_list st)"
  shows "\<exists>lk' ns'. conc_ok A cmp (st\<lparr>st_list := s', st_writer := Linking x prev height (Suc i)\<rparr>) lk' ns'"
proof -
  let ?s = "st_list st"
  have ok': "sl_ok A cmp ?s lk ns" and free: "\<forall>a\<ge>sl_arena ?s. sl_nodes ?s a = None" and begun: "set (st_begun st) \<subseteq> A"
    using ok by (auto simp: conc_ok_def)
  obtain ls gs ks where ns: "ns = (if i = 0 then ls @ gs else ls @ x # gs)" and lkx: "0 < i \<longrightarrow> lk x = i"
    and x: "x \<notin> set (0 # ls @ gs)" "x < sl_arena ?s" "sl_nodes ?s x \<noteq> None"
    and ks: "st_begun st = ks @ [node_key ?s x]" "node_key ?s ` set (ls @ gs) = set ks"
    and ord: "\<forall>n\<in>set ls. cmp (node_key ?s n) (node_key ?s x) < 0" "\<forall>n\<in>set gs. cmp (node_key ?s x) (node_key ?s n) < 0"
    and lev: "\<forall>j<height. node_next ?s x j \<noteq> None" "\<forall>j<height. prev ! j = sl_pred lk ls j" and h: "0 < height" "height \<le> sl_max_height ?s"
  proof -
    obtain ls gs where "linking_ok cmp ?s (st_begun st) lk ns x prev height i ls gs"
      using ok w by (auto simp: conc_ok_def writer_ok_def Let_def)
    then show thesis unfolding linking_ok_def using that by blast
  qed
  have i: "i < height" "node_next ?s (prev ! i) i = node_next ?s x i"
    using ok w by (auto simp: conc_ok_def writer_ok_def Let_def)
  obtain n where "node_next ?s x i = Some n" using i(1) lev(1) by blast
  then have "link_own x prev i ?s = Some ?s" by (simp add: link_own_def i(2) set_next_same)
  then have level: "link_level x prev i ?s = Some s'" by (simp add: link_level_def l)
  have "node_key ?s x \<in> A" using begun ks(1) by simp
  moreover have "i < sl_max_height ?s" using i(1) h(2) by simp
  ultimately obtain s1 where s1: "link_level x prev i ?s = Some s1" "sl_ok A cmp s1 (lk(x := Suc i)) (ls @ x # gs)"
    "same_nodes ?s s1" "\<forall>m. m \<noteq> i \<longrightarrow> node_next s1 x m = node_next ?s x m" "sl_max_height s1 = sl_max_height ?s"
    "sl_arena s1 = sl_arena ?s" "\<forall>a. sl_nodes s1 a = None \<longleftrightarrow> sl_nodes ?s a = None"
    using link_level_ok [OF ok' [unfolded ns] _ x _ _ ord, where prev = prev] lkx lev i(1) by blast
  have s': "s' = s1" using level s1(1) by simp
  have keys: "node_key s1 n = node_key ?s n" if "n \<in> set (ls @ gs) \<or> n = x" for n
    using that s1(3) sl_okD(7) [OF ok'] x(3) by (auto simp: same_nodes_def ns split: if_splits)
  have k: "node_key s1 x = node_key ?s x" "node_key s1 ` set (ls @ gs) = set ks"
    using keys ks(2) by (simp, metis image_cong)
  have "\<forall>j<height. node_next s1 x j \<noteq> None"
  proof (intro allI impI)
    fix j
    assume "j < height"
    show "node_next s1 x j \<noteq> None"
    proof (cases "j = i")
      case True
      have "0 # ls @ x # gs = (0 # ls) @ x # gs" by simp
      then show ?thesis
        using sl_okD(1) [OF s1(2)] True i(1) h(2) s1(5) sl_okD(10) [OF s1(2)] unfolding sl_links_def
        by (metis fun_upd_same lessI less_le_trans option.distinct(1))
    qed (use s1(4) lev \<open>j < height\<close> in auto)
  qed
  moreover have "\<forall>j<height. prev ! j = sl_pred (lk(x := Suc i)) ls j" using lev x(1) by simp
  moreover have "\<forall>n\<in>set ls. cmp (node_key s1 n) (node_key s1 x) < 0" "\<forall>n\<in>set gs. cmp (node_key s1 x) (node_key s1 n) < 0"
    using ord keys by auto
  moreover have "x < sl_arena s1" "sl_nodes s1 x \<noteq> None" using x s1(6,7) by auto
  ultimately have "linking_ok cmp s' (st_begun st) (lk(x := Suc i)) (ls @ x # gs) x prev height (Suc i) ls gs"
    using x(1) ks(1) k h s1(5) i(1) unfolding linking_ok_def s' by auto
  then have "writer_ok cmp (st\<lparr>st_list := s', st_writer := Linking x prev height (Suc i)\<rparr>) (lk(x := Suc i)) (ls @ x # gs)"
    by (auto simp: writer_ok_def Let_def)
  moreover have "reader_ok A cmp s' (lk(x := Suc i)) (ls @ x # gs) (st_readers st r)" for r
  proof (rule reader_ok_mono)
    show "reader_ok A cmp ?s lk ns (st_readers st r)" using ok by (simp add: conc_ok_def)
    show "set ns \<subseteq> set (ls @ x # gs)" by (auto simp: ns)
    show "lk n \<le> (lk(x := Suc i)) n" if "n \<in> set ns" for n using that lkx x(1) by (auto simp: ns)
    show "node_key s' n = node_key ?s n" if "n \<in> set ns" for n
      using that keys by (auto simp: ns s' split: if_splits)
  qed
  ultimately have "conc_ok A cmp (st\<lparr>st_list := s', st_writer := Linking x prev height (Suc i)\<rparr>) (lk(x := Suc i)) (ls @ x # gs)"
    using s1(2,6,7) free begun by (simp add: conc_ok_def s')
  then show ?thesis by blast
qed

lemma conc_search:
  assumes ok: "conc_ok A cmp st lk ns" and r: "st_readers st r = Searching t x level"
  shows "\<exists>pc. find_step cmp (st_list st) t x level = Some pc \<and> reader_ok A cmp (st_list st) lk ns pc \<and>
    (\<forall>t' n. pc = Found t' n \<longrightarrow> t' = t \<and> n = find (\<lambda>n. \<not> cmp (node_key (st_list st) n) t < 0) ns)"
proof -
  let ?s = "st_list st"
  have l: "sl_ok A cmp ?s lk ns" and t: "t \<in> A" "level < kMaxHeight"
    and x: "x = 0 \<or> x \<in> set ns \<and> level < lk x \<and> cmp (node_key ?s x) t < 0"
    using ok r by (auto simp: conc_ok_def reader_ok_def split: reader_pc.splits dest: spec [of _ r])
  obtain pre post where pos: "0 # ns = pre @ x # post" using x split_list [of x "0 # ns"] by auto
  have next': "node_next ?s x level = Some (find (\<lambda>n. level < lk n) post)"
    using sl_okD(1) [OF l] pos t(2) x unfolding sl_links_def by blast
  define n where "n = find (\<lambda>n. level < lk n) post"
  have sub: "set post \<subseteq> set ns" using pos by (cases pre) auto
  have n: "m \<in> set post \<and> level < lk m" if "n = Some m" for m using that by (auto simp: n_def find_Some_iff)
  have step: "find_step cmp ?s t x level = Some (if KeyIsAfterNode cmp ?s t n then Searching t (the n) level
      else if level = 0 then Found t n else Searching t x (level - 1))"
    by (simp add: find_step_def next' n_def)
  have found: "n = find (\<lambda>n. \<not> cmp (node_key ?s n) t < 0) ns" if "\<not> KeyIsAfterNode cmp ?s t n" "level = 0"
  proof -
    have less: "cmp (node_key ?s m) t < 0" if m: "ns = us @ x # post" "m \<in> set (us @ [x])" "x \<in> set ns" "cmp (node_key ?s x) t < 0" for us m
    proof (cases "m = x")
      case False
      then have "m \<in> set us" using m(2) by simp
      then have "cmp (node_key ?s m) (node_key ?s x) < 0" using sl_okD(6) [OF l] by (simp add: m(1) sorted_wrt_append)
      moreover have "m \<in> set ns" using m by auto
      ultimately show ?thesis using cmp_strict_trans sl_okD(5) [OF l] m(3,4) t(1) by blast
    qed (use m in simp)
    have post: "find P ns = find P post" if "\<And>m. cmp (node_key ?s m) t < 0 \<Longrightarrow> \<not> P m" for P
    proof (cases pre)
      case Nil
      then show ?thesis using pos by simp
    next
      case (Cons z us)
      then have ns: "ns = us @ x # post" using pos by simp
      then have "x \<noteq> 0" "x \<in> set ns" using sl_okD(2) [OF l] by auto
      then have "\<not> P m" if "m \<in> set (us @ [x])" for m using less [OF ns that] x that \<open>\<And>m. cmp (node_key ?s m) t < 0 \<Longrightarrow> \<not> P m\<close> by blast
      then show ?thesis unfolding ns find_app by auto
    qed
    have "n = (case post of [] \<Rightarrow> None | m # _ \<Rightarrow> Some m)"
      using sl_okD(3) [OF l] sub that(2) by (cases post) (auto simp: n_def)
    then show ?thesis using that(1) post by (cases post) (auto simp: KeyIsAfterNode_def)
  qed
  show ?thesis unfolding step using n sub t x found
    by (cases n) (auto simp: reader_ok_def KeyIsAfterNode_def)
qed

end

lemma sl_reach_ok:
  assumes "comparator A cmp"
  shows "sl_reach A cmp k st \<Longrightarrow> \<exists>lk ns. conc_ok A cmp st lk ns"
proof (induction rule: sl_reach.induct)
  case init
  show ?case using new_SkipList_ok [of A cmp k]
    by (auto simp: conc_ok_def sl_init_def writer_ok_def reader_ok_def Let_def intro!: exI [of _ "[]"])
next
  case (step st st')
  then obtain lk ns where ok: "conc_ok A cmp st lk ns" by blast
  from step.hyps(2) show ?case
  proof cases
    case (begin_insert key n prev height rnd)
    then show ?thesis using comparator.conc_begin_insert [OF assms ok] by blast
  next
    case (new_node key prev height prev' s1 x s2)
    then show ?thesis using comparator.conc_new_node [OF assms ok] by blast
  next
    case (link x prev height i s')
    then show ?thesis using comparator.conc_own [OF assms ok] by blast
  next
    case (publish x prev height i)
    then show ?thesis using comparator.conc_publish [OF assms ok] by blast
  next
    case (end_insert x prev height)
    then obtain ls gs where l: "linking_ok cmp (st_list st) (st_begun st) lk ns x prev height height ls gs"
      using ok by (auto simp: conc_ok_def writer_ok_def Let_def)
    then have "0 < height" by (simp add: linking_ok_def)
    have "writer_ok cmp (st\<lparr>st_writer := Idle\<rparr>) lk ns"
      by (rule linking_keys [OF l]) (use \<open>0 < height\<close> in \<open>simp add: writer_ok_def Let_def\<close>)
    then show ?thesis using end_insert ok unfolding conc_ok_def by auto
  next
    case (begin_search t r)
    then show ?thesis using comparator.conc_begin_search [OF assms ok] by blast
  next
    case (search r t x level pc)
    obtain pc' where "find_step cmp (st_list st) t x level = Some pc'" "reader_ok A cmp (st_list st) lk ns pc'"
      using comparator.conc_search [OF assms ok search(2)] by blast
    then have "reader_ok A cmp (st_list st) lk ns pc" using search(3) by simp
    then show ?thesis using search(1) ok by (intro exI [of _ lk] exI [of _ ns]) (simp add: conc_ok_def)
  qed
qed

subsection \<open>Properties\<close>

text \<open>
  Property C3. Readers without locks: in every interleaving of one inserting writer and any number of
  readers, a step of a reader finds its link, and when a search ends, its result is exact for the list at
  that moment: the first key that is not below the target, among keys that include all whose insertion
  has ended and none whose insertion has not begun.
\<close>

theorem SkipList_reads_linearizable:
  assumes "comparator A cmp" "sl_reach A cmp any st" "st_readers st r = Searching t x level"
  shows "\<exists>pc. find_step cmp (st_list st) t x level = Some pc \<and>
    (\<forall>t' n. pc = Found t' n \<longrightarrow> t' = t \<and>
      (\<exists>K. ended st \<subseteq> K \<and> K \<subseteq> set (st_begun st) \<and>
        (case n of
           None \<Rightarrow> \<forall>k\<in>K. cmp k t < 0
         | Some n \<Rightarrow> node_key (st_list st) n \<in> K \<and> \<not> cmp (node_key (st_list st) n) t < 0 \<and>
             (\<forall>k\<in>K. \<not> cmp k t < 0 \<longrightarrow> cmp (node_key (st_list st) n) k \<le> 0))))"
proof -
  let ?K = "node_key (st_list st)"
  obtain lk ns where ok: "conc_ok A cmp st lk ns" using sl_reach_ok [OF assms(1,2)] by blast
  then have l: "sl_ok A cmp (st_list st) lk ns" by (simp add: conc_ok_def)
  obtain pc where pc: "find_step cmp (st_list st) t x level = Some pc"
    "\<And>t' n. pc = Found t' n \<Longrightarrow> t' = t \<and> n = find (\<lambda>n. \<not> cmp (?K n) t < 0) ns"
    using comparator.conc_search [OF assms(1) ok assms(3)] by blast
  have first: "(case n of None \<Rightarrow> \<forall>k\<in>?K ` set ns. cmp k t < 0
      | Some n \<Rightarrow> ?K n \<in> ?K ` set ns \<and> \<not> cmp (?K n) t < 0 \<and> (\<forall>k\<in>?K ` set ns. \<not> cmp k t < 0 \<longrightarrow> cmp (?K n) k \<le> 0))"
    if n: "n = find (\<lambda>n. \<not> cmp (?K n) t < 0) ns" for n
  proof (cases n)
    case None
    then have "\<forall>m\<in>set ns. cmp (?K m) t < 0" using n by (auto simp: find_None_iff dest: sym)
    then show ?thesis by (simp add: None)
  next
    case (Some m)
    then obtain i where i: "i < length ns" "m = ns ! i" "\<not> cmp (?K m) t < 0" "\<And>j. j < i \<Longrightarrow> cmp (?K (ns ! j)) t < 0"
      using n by (auto simp: find_Some_iff)
    have "cmp (?K m) (?K (ns ! j)) \<le> 0" if "j < length ns" "\<not> cmp (?K (ns ! j)) t < 0" for j
    proof (cases "j = i")
      case True
      then show ?thesis using i comparator.cmp_refl [OF assms(1)] sl_okD(5) [OF l] by simp
    next
      case False
      then have "i < j" using that i(4) by (meson linorder_neqE_nat)
      then show ?thesis using sl_okD(6) [OF l] that(1) i(2) by (simp add: sorted_wrt_iff_nth_less less_imp_le)
    qed
    moreover have "m \<in> set ns" using i(1,2) by simp
    ultimately show ?thesis using i(3) Some by (auto simp: in_set_conv_nth)
  qed
  show ?thesis
  proof (intro exI [of _ pc] conjI pc(1) allI impI)
    fix t' n
    assume "pc = Found t' n"
    note n = pc(2) [OF this]
    then show "t' = t" by blast
    from first [OF conjunct2 [OF n]] conc_keys [OF ok]
    show "\<exists>K. ended st \<subseteq> K \<and> K \<subseteq> set (st_begun st) \<and> (case n of
           None \<Rightarrow> \<forall>k\<in>K. cmp k t < 0
         | Some n \<Rightarrow> ?K n \<in> K \<and> \<not> cmp (?K n) t < 0 \<and> (\<forall>k\<in>K. \<not> cmp k t < 0 \<longrightarrow> cmp (?K n) k \<le> 0))"
      by blast
  qed
qed

text \<open>A reader that starts while the first key is being inserted.\<close>

lemma SkipList_reads_linearizable_witness:
  "\<exists>st pc. sl_reach UNIV (-) (0 :: int) st \<and> st_begun st = [5] \<and> ended st = {} \<and> st_readers st 0 = Searching 3 0 0 \<and>
    find_step (-) (st_list st) 3 0 0 = Some pc"
proof -
  have c: "comparator UNIV ((-) :: int \<Rightarrow> int \<Rightarrow> int)" by unfold_locales auto
  let ?s = "new_SkipList (0 :: int)"
  obtain n prev where f: "FindGreaterOrEqual (-) ?s 5 (replicate kMaxHeight (sl_arena ?s)) = Some (n, prev)"
    using comparator.FindGreaterOrEqual_ok [OF c conjunct1 [OF new_SkipList_ok]] by blast
  obtain height rnd where h: "RandomHeight (sl_rnd ?s) = (height, rnd)" by (metis prod.collapse)
  define st1 where "st1 = (sl_init (0 :: int))\<lparr>st_list := ?s\<lparr>sl_rnd := rnd\<rparr>, st_writer := Placing 5 prev height, st_begun := [5]\<rparr>"
  define st2 where "st2 = st1\<lparr>st_readers := (st_readers st1)(0 := Searching 3 0 (sl_max_height (st_list st1) - 1))\<rparr>"
  have "sl_step UNIV (-) (sl_init (0 :: int)) st1"
    using sl_step.begin_insert [of "sl_init 0" 5 UNIV "(-)" n prev height rnd] f h by (simp add: st1_def sl_init_def)
  then have "sl_reach UNIV (-) 0 st1" using sl_reach.init sl_reach.step by metis
  moreover have "sl_step UNIV (-) st1 st2" unfolding st2_def by (intro sl_step.begin_search) simp
  ultimately have r: "sl_reach UNIV (-) 0 st2" by (rule sl_reach.step)
  have "sl_max_height ?s = 1" by (simp add: new_SkipList_eq)
  then have s: "st_readers st2 0 = Searching 3 0 0" by (simp add: st2_def st1_def)
  from SkipList_reads_linearizable [OF c r s] obtain pc where "find_step (-) (st_list st2) 3 0 0 = Some pc" by blast
  with r s show ?thesis by (intro exI [of _ st2] exI [of _ pc]) (simp add: st2_def st1_def ended_def)
qed

end
