(* ===== verification/LDB_Format.thy ===== *)
theory LDB_Format
  imports LDB_Coding Qsort
begin

text \<open>
  Keys of LevelDB: slices and their order (\<open>include/leveldb/slice.h\<close>, \<open>util/comparator.cc\<close>), and internal
  keys, which carry a sequence number and a type behind the user's key (\<open>db/dbformat.h\<close>,
  \<open>db/dbformat.cc\<close>). The contract of a comparator (\<open>include/leveldb/comparator.h\<close>) is the locale
  \<open>key_comparator\<close>; the order of internal keys meets it if the order of the user's keys does.
\<close>

subsection \<open>Slices and their order\<close>

definition slice_compare :: "slice \<Rightarrow> slice \<Rightarrow> int" where
  "slice_compare a b =
     (let min_len = (if length a < length b then length a else length b);
          r = memcmp a b min_len
      in if r = 0 then (if length a < length b then -1 else if length b < length a then 1 else r) else r)"

definition Bytewise_Compare :: "slice \<Rightarrow> slice \<Rightarrow> int" where
  "Bytewise_Compare a b = slice_compare a b"

text \<open>The loop that looks for the end of the common prefix, also used by the block builder.\<close>

fun shared_prefix :: "slice \<Rightarrow> slice \<Rightarrow> nat" where
  "shared_prefix (x # xs) (y # ys) = (if x = y then Suc (shared_prefix xs ys) else 0)"
| "shared_prefix _ _ = 0"

definition Bytewise_FindShortestSeparator :: "slice \<Rightarrow> slice \<Rightarrow> slice" where
  "Bytewise_FindShortestSeparator start limit =
     (let min_length = min (length start) (length limit);
          diff_index = shared_prefix start limit
      in if min_length \<le> diff_index then start
         else (let diff_byte = start ! diff_index
               in if diff_byte < 0xff \<and> unat diff_byte + 1 < unat (limit ! diff_index)
                  then take (diff_index + 1) (start[diff_index := start ! diff_index + 1])
                  else start))"

fun Bytewise_FindShortSuccessor :: "slice \<Rightarrow> slice" where
  "Bytewise_FindShortSuccessor [] = []"
| "Bytewise_FindShortSuccessor (byte # key) =
     (if byte \<noteq> 0xff then [byte + 1] else byte # Bytewise_FindShortSuccessor key)"

lemma slice_compare_eq: "slice_compare a b = (if a = b then 0 else if a < b then -1 else 1)"
proof -
  have "(if length a < length b then length a else length b) = min (length a) (length b)" by simp
  then show ?thesis using memcmp_then_length [of a b] by (auto simp: slice_compare_def Let_def split: if_splits)
qed

lemma shared_prefix_le: "shared_prefix a b \<le> min (length a) (length b)"
  by (induction a b rule: shared_prefix.induct) auto

lemma shared_prefix_take: "take (shared_prefix a b) a = take (shared_prefix a b) b"
  by (induction a b rule: shared_prefix.induct) auto

lemma shared_prefix_less:
  "shared_prefix a b < min (length a) (length b) \<Longrightarrow> a < b \<longleftrightarrow> a ! shared_prefix a b < b ! shared_prefix a b"
  by (induction a b rule: shared_prefix.induct) auto

lemma less_byte:
  "n < length xs \<Longrightarrow> n < length ys \<Longrightarrow> take n xs = take n ys \<Longrightarrow> xs ! n < ys ! n \<Longrightarrow> xs < (ys :: u8 list)"
proof (induction xs arbitrary: n ys)
  case (Cons x xs)
  then show ?case by (cases ys; cases n) auto
qed simp

lemma byte_succ:
  assumes "(b :: u8) \<noteq> 0xff"
  shows "unat (b + 1) = unat b + 1"
proof -
  have "unat b \<noteq> unat (0xff :: u8)" using assms word_unat_eq_iff [of b "0xff"] by blast
  then have "unat b + 1 < 256" using unat_less_256 [of b] by simp
  then show ?thesis by (simp add: unat_word_ariths)
qed

lemma Bytewise_FindShortSuccessor_le: "k \<le> Bytewise_FindShortSuccessor k"
proof (induction k)
  case (Cons b k)
  show ?case
  proof (cases "b = 0xff")
    case False
    from byte_succ [OF False] have "b < b + 1" by (simp add: word_less_nat_alt)
    with False show ?thesis by simp
  qed (use Cons in simp)
qed simp

lemma Bytewise_FindShortSuccessor_id: "\<not> k < Bytewise_FindShortSuccessor k \<Longrightarrow> Bytewise_FindShortSuccessor k = k"
  using Bytewise_FindShortSuccessor_le [of k] by simp

lemma Bytewise_FindShortestSeparator_between:
  assumes "a < b"
  shows "a \<le> Bytewise_FindShortestSeparator a b \<and> Bytewise_FindShortestSeparator a b < b"
proof -
  define n where "n = shared_prefix a b"
  show ?thesis
  proof (cases "n < min (length a) (length b) \<and> a ! n < 0xff \<and> unat (a ! n) + 1 < unat (b ! n)")
    case False
    then have "Bytewise_FindShortestSeparator a b = a"
      unfolding Bytewise_FindShortestSeparator_def Let_def n_def by (auto simp: min_le_iff_disj)
    with assms show ?thesis by simp
  next
    case True
    define s where "s = take (n + 1) (a[n := a ! n + 1])"
    have e: "Bytewise_FindShortestSeparator a b = s"
      using True by (simp add: Bytewise_FindShortestSeparator_def Let_def n_def s_def min_le_iff_disj)
    have l: "n < length s" "take n s = take n a" "s ! n = a ! n + 1" using True by (auto simp: s_def)
    have "a ! n \<noteq> 0xff" using True by auto
    from byte_succ [OF this] have "unat (s ! n) = unat (a ! n) + 1" by (simp add: l)
    then have "a ! n < s ! n" "s ! n < b ! n" using True by (simp_all add: word_less_nat_alt)
    then have "a < s" "s < b"
      using less_byte [of n a s] less_byte [of n s b] l True shared_prefix_take [of a b] by (simp_all add: n_def)
    then show ?thesis using e by simp
  qed
qed

lemma Bytewise_FindShortestSeparator_id:
  assumes "\<not> a < b"
  shows "Bytewise_FindShortestSeparator a b = a"
proof -
  have "\<not> unat (a ! shared_prefix a b) + 1 < unat (b ! shared_prefix a b)" if "shared_prefix a b < min (length a) (length b)"
    using shared_prefix_less [OF that] assms by (simp add: word_less_nat_alt)
  then show ?thesis unfolding Bytewise_FindShortestSeparator_def Let_def by (simp only: not_le [symmetric]) auto
qed

subsection \<open>The contract of a comparator\<close>

locale key_comparator = comparator A cmp
  for A :: "slice set" and cmp :: "slice \<Rightarrow> slice \<Rightarrow> int" +
  fixes separator :: "slice \<Rightarrow> slice \<Rightarrow> slice" and successor :: "slice \<Rightarrow> slice"
  assumes cmp_0: "a \<in> A \<Longrightarrow> b \<in> A \<Longrightarrow> cmp a b = 0 \<Longrightarrow> a = b"
    and separator_between: "a \<in> A \<Longrightarrow> b \<in> A \<Longrightarrow> cmp a b < 0 \<Longrightarrow>
      separator a b \<in> A \<and> cmp a (separator a b) \<le> 0 \<and> cmp (separator a b) b < 0"
    and separator_id: "a \<in> A \<Longrightarrow> b \<in> A \<Longrightarrow> \<not> cmp a b < 0 \<Longrightarrow> separator a b = a"
    and successor_above: "a \<in> A \<Longrightarrow> successor a \<in> A \<and> cmp a (successor a) \<le> 0"
begin

lemma cmp_eq_0: "a \<in> A \<Longrightarrow> b \<in> A \<Longrightarrow> cmp a b = 0 \<longleftrightarrow> a = b"
  using cmp_0 cmp_refl by blast

end

interpretation bytewise: key_comparator UNIV Bytewise_Compare Bytewise_FindShortestSeparator Bytewise_FindShortSuccessor
proof unfold_locales
  fix a b :: slice
  assume "Bytewise_Compare a b < 0"
  then have "a < b" by (simp add: Bytewise_Compare_def slice_compare_eq split: if_splits)
  from Bytewise_FindShortestSeparator_between [OF this]
  show "Bytewise_FindShortestSeparator a b \<in> UNIV \<and> Bytewise_Compare a (Bytewise_FindShortestSeparator a b) \<le> 0 \<and>
      Bytewise_Compare (Bytewise_FindShortestSeparator a b) b < 0"
    by (auto simp: Bytewise_Compare_def slice_compare_eq)
qed (auto simp: Bytewise_Compare_def slice_compare_eq Bytewise_FindShortestSeparator_id
    Bytewise_FindShortSuccessor_id split: if_splits)

subsection \<open>Internal keys\<close>

datatype ValueType = kTypeDeletion | kTypeValue

definition type_num :: "ValueType \<Rightarrow> u64" where
  "type_num t = (case t of kTypeDeletion \<Rightarrow> 0 | kTypeValue \<Rightarrow> 1)"

definition kValueTypeForSeek :: ValueType where
  "kValueTypeForSeek = kTypeValue"

type_synonym SequenceNumber = u64

definition kMaxSequenceNumber :: SequenceNumber where
  "kMaxSequenceNumber = push_bit 56 1 - 1"

record ParsedInternalKey =
  ik_user_key :: slice
  ik_sequence :: SequenceNumber
  ik_type :: ValueType

definition PackSequenceAndType :: "u64 \<Rightarrow> ValueType \<Rightarrow> u64" where
  "PackSequenceAndType seq t = push_bit 8 seq OR type_num t"

definition InternalKeyEncodingLength :: "ParsedInternalKey \<Rightarrow> nat" where
  "InternalKeyEncodingLength key = length (ik_user_key key) + 8"

definition AppendInternalKey :: "u8 list \<Rightarrow> ParsedInternalKey \<Rightarrow> u8 list" where
  "AppendInternalKey result key =
     PutFixed64 (result @ ik_user_key key) (PackSequenceAndType (ik_sequence key) (ik_type key))"

text \<open>On failure the code leaves the result undefined.\<close>

definition ParseInternalKey :: "slice \<Rightarrow> ParsedInternalKey option" where
  "ParseInternalKey internal_key =
     (let n = length internal_key
      in if n < 8 then None
         else (let num = DecodeFixed64 (drop (n - 8) internal_key); c = ucast (num AND 0xff) :: u8
               in if c \<le> 1
                  then Some \<lparr>ik_user_key = take (n - 8) internal_key, ik_sequence = drop_bit 8 num,
                             ik_type = (if c = 0 then kTypeDeletion else kTypeValue)\<rparr>
                  else None))"

definition ExtractUserKey :: "slice \<Rightarrow> slice" where
  "ExtractUserKey internal_key = take (length internal_key - 8) internal_key"

definition Internal_Compare :: "(slice \<Rightarrow> slice \<Rightarrow> int) \<Rightarrow> slice \<Rightarrow> slice \<Rightarrow> int" where
  "Internal_Compare user_cmp akey bkey =
     (let r = user_cmp (ExtractUserKey akey) (ExtractUserKey bkey)
      in if r = 0
         then (let anum = DecodeFixed64 (drop (length akey - 8) akey);
                   bnum = DecodeFixed64 (drop (length bkey - 8) bkey)
               in if bnum < anum then -1 else if anum < bnum then 1 else r)
         else r)"

definition Internal_FindShortestSeparator ::
  "(slice \<Rightarrow> slice \<Rightarrow> int) \<Rightarrow> (slice \<Rightarrow> slice \<Rightarrow> slice) \<Rightarrow> slice \<Rightarrow> slice \<Rightarrow> slice" where
  "Internal_FindShortestSeparator user_cmp user_sep start limit =
     (let user_start = ExtractUserKey start; user_limit = ExtractUserKey limit;
          tmp = user_sep user_start user_limit
      in if length tmp < length user_start \<and> user_cmp user_start tmp < 0
         then PutFixed64 tmp (PackSequenceAndType kMaxSequenceNumber kValueTypeForSeek)
         else start)"

definition Internal_FindShortSuccessor ::
  "(slice \<Rightarrow> slice \<Rightarrow> int) \<Rightarrow> (slice \<Rightarrow> slice) \<Rightarrow> slice \<Rightarrow> slice" where
  "Internal_FindShortSuccessor user_cmp user_succ key =
     (let user_key = ExtractUserKey key; tmp = user_succ user_key
      in if length tmp < length user_key \<and> user_cmp user_key tmp < 0
         then PutFixed64 tmp (PackSequenceAndType kMaxSequenceNumber kValueTypeForSeek)
         else key)"

text \<open>The key of a lookup: the buffer from \<open>start_\<close> to \<open>end_\<close>, and where \<open>kstart_\<close> is in it.\<close>

record LookupKey =
  lk_start :: "u8 list"
  lk_kstart :: nat

definition new_LookupKey :: "slice \<Rightarrow> SequenceNumber \<Rightarrow> LookupKey" where
  "new_LookupKey user_key s =
     (let usize = length user_key; dst = EncodeVarint32 (word_of_nat (usize + 8))
      in \<lparr>lk_start = dst @ user_key @ EncodeFixed64 (PackSequenceAndType s kValueTypeForSeek), lk_kstart = length dst\<rparr>)"

definition memtable_key :: "LookupKey \<Rightarrow> slice" where
  "memtable_key k = lk_start k"

definition internal_key :: "LookupKey \<Rightarrow> slice" where
  "internal_key k = drop (lk_kstart k) (lk_start k)"

definition user_key :: "LookupKey \<Rightarrow> slice" where
  "user_key k = take (length (lk_start k) - lk_kstart k - 8) (drop (lk_kstart k) (lk_start k))"

subsection \<open>What internal keys encode\<close>

lemma PackSequenceAndType_bits:
  "PackSequenceAndType s t AND 0xff = type_num t" "drop_bit 8 (PackSequenceAndType s t) = take_bit 56 s"
proof -
  have "PackSequenceAndType s t AND mask 8 = type_num t"
    by (rule bit_word_eqI) (cases t; auto simp: PackSequenceAndType_def type_num_def bit_simps)
  then show "PackSequenceAndType s t AND 0xff = type_num t" by (simp add: mask_eq_exp_minus_1)
  show "drop_bit 8 (PackSequenceAndType s t) = take_bit 56 s"
    by (rule bit_word_eqI) (cases t; auto simp: PackSequenceAndType_def type_num_def bit_simps)
qed

lemma unat_Pack:
  assumes "s \<le> kMaxSequenceNumber"
  shows "unat (PackSequenceAndType s t) = unat s * 256 + unat (type_num t)"
proof -
  have "unat s < 2 ^ 56" using assms by (simp add: kMaxSequenceNumber_def word_le_nat_alt)
  then show ?thesis
    unfolding PackSequenceAndType_def by (subst unat_or_push_bit) (cases t; simp add: type_num_def)+
qed

lemma drop_Append: "drop (length (AppendInternalKey [] k) - 8) (AppendInternalKey [] k) =
    EncodeFixed64 (PackSequenceAndType (ik_sequence k) (ik_type k))"
  by (simp add: AppendInternalKey_def PutFixed64_def)

lemma Extract_Append [simp]: "ExtractUserKey (AppendInternalKey [] k) = ik_user_key k"
  by (simp add: ExtractUserKey_def AppendInternalKey_def PutFixed64_def)

lemma Decode_Encode64 [simp]: "DecodeFixed64 (EncodeFixed64 v) = v"
  using DecodeFixed64_enc [of v "[]"] by simp

lemma Parse_Append:
  assumes "ik_sequence k \<le> kMaxSequenceNumber"
  shows "ParseInternalKey (AppendInternalKey [] k) = Some k"
proof -
  have n: "length (AppendInternalKey [] k) = length (ik_user_key k) + 8"
    by (simp add: AppendInternalKey_def PutFixed64_def)
  have "unat (ik_sequence k) < 2 ^ 56" using assms by (simp add: kMaxSequenceNumber_def word_le_nat_alt)
  then have s: "take_bit 56 (ik_sequence k) = ik_sequence k"
    by (simp add: word_unat_eq_iff unsigned_take_bit_eq take_bit_nat_eq_self)
  have u: "take (length (ik_user_key k)) (AppendInternalKey [] k) = ik_user_key k"
    by (simp add: AppendInternalKey_def PutFixed64_def)
  show ?thesis
    unfolding ParseInternalKey_def Let_def drop_Append Decode_Encode64 PackSequenceAndType_bits s
    unfolding n by (cases "ik_type k") (simp_all add: type_num_def u)
qed

text \<open>The order of internal keys, as the pair of the user's key and the packed number.\<close>

definition internal_keys :: "slice set \<Rightarrow> slice set" where
  "internal_keys A = {AppendInternalKey [] k |k. ik_user_key k \<in> A \<and> ik_sequence k \<le> kMaxSequenceNumber}"

lemma internal_keysE:
  assumes "x \<in> internal_keys A"
  obtains k where "x = AppendInternalKey [] k" "ik_user_key k \<in> A" "ik_sequence k \<le> kMaxSequenceNumber"
  using assms by (auto simp: internal_keys_def)

lemma internal_keysI:
  "u \<in> A \<Longrightarrow> s \<le> kMaxSequenceNumber \<Longrightarrow> PutFixed64 u (PackSequenceAndType s t) \<in> internal_keys A"
  unfolding internal_keys_def
  by (auto simp: AppendInternalKey_def intro!: exI [of _ "\<lparr>ik_user_key = u, ik_sequence = s, ik_type = t\<rparr>"])

abbreviation packed :: "ParsedInternalKey \<Rightarrow> u64" where
  "packed k \<equiv> PackSequenceAndType (ik_sequence k) (ik_type k)"

lemma packed_less:
  assumes "ik_sequence a \<le> kMaxSequenceNumber" "ik_sequence b \<le> kMaxSequenceNumber"
  shows "packed a < packed b \<longleftrightarrow> ik_sequence a < ik_sequence b \<or>
    ik_sequence a = ik_sequence b \<and> ik_type a = kTypeDeletion \<and> ik_type b = kTypeValue"
proof -
  have "unat (type_num t) \<le> 1" for t by (cases t) (simp_all add: type_num_def)
  from this [of "ik_type a"] this [of "ik_type b"] show ?thesis
    unfolding word_less_nat_alt unat_Pack [OF assms(1)] unat_Pack [OF assms(2)] word_unat_eq_iff
    by (cases "ik_type a"; cases "ik_type b"; simp add: type_num_def; linarith)
qed

lemma packed_inject:
  assumes "ik_sequence a \<le> kMaxSequenceNumber" "ik_sequence b \<le> kMaxSequenceNumber" "packed a = packed b"
  shows "ik_sequence a = ik_sequence b \<and> ik_type a = ik_type b"
  using packed_less [OF assms(1,2)] packed_less [OF assms(2,1)] assms(3)
  by (cases "ik_type a"; cases "ik_type b"; auto simp: not_less_iff_gr_or_eq)

lemma Internal_Compare_Append:
  "Internal_Compare cmp (AppendInternalKey [] a) (AppendInternalKey [] b) =
    (if cmp (ik_user_key a) (ik_user_key b) = 0
     then (if packed b < packed a then -1 else if packed a < packed b then 1 else 0)
     else cmp (ik_user_key a) (ik_user_key b))"
  by (simp add: Internal_Compare_def Let_def drop_Append)

text \<open>Internal keys over the keys of any comparator meet the contract again.\<close>

locale user_comparator = key_comparator
begin

lemma internal_le_trans:
  assumes "x \<in> internal_keys A" "y \<in> internal_keys A" "z \<in> internal_keys A"
    and "Internal_Compare cmp x y \<le> 0" "Internal_Compare cmp y z \<le> 0"
  shows "Internal_Compare cmp x z \<le> 0"
proof -
  obtain a b c where k: "x = AppendInternalKey [] a" "y = AppendInternalKey [] b" "z = AppendInternalKey [] c"
    and A: "ik_user_key a \<in> A" "ik_user_key b \<in> A" "ik_user_key c \<in> A"
    by (metis assms(1-3) internal_keysE)
  have "cmp (ik_user_key a) (ik_user_key b) \<le> 0" "cmp (ik_user_key b) (ik_user_key c) \<le> 0"
    using assms(4,5) by (simp_all add: k Internal_Compare_Append split: if_splits)
  then consider "cmp (ik_user_key a) (ik_user_key b) < 0" "cmp (ik_user_key b) (ik_user_key c) \<le> 0"
    | "cmp (ik_user_key a) (ik_user_key b) \<le> 0" "cmp (ik_user_key b) (ik_user_key c) < 0"
    | "cmp (ik_user_key a) (ik_user_key b) = 0" "cmp (ik_user_key b) (ik_user_key c) = 0" by linarith
  then show ?thesis
  proof cases
    case 3
    then have "ik_user_key a = ik_user_key b" "ik_user_key b = ik_user_key c" using cmp_0 A by blast+
    with assms(4,5) have "packed b \<le> packed a" "packed c \<le> packed b"
      by (simp_all add: k Internal_Compare_Append A cmp_refl split: if_splits)
    then have "packed c \<le> packed a" by (rule order.trans [rotated])
    with 3 \<open>ik_user_key a = ik_user_key b\<close> show ?thesis by (auto simp: k Internal_Compare_Append)
  qed (use cmp_trans [OF A] cmp_trans' [OF A] in \<open>force simp: k Internal_Compare_Append\<close>)+
qed

lemma internal_sign_swap:
  assumes "x \<in> internal_keys A" "y \<in> internal_keys A"
  shows "Internal_Compare cmp x y \<le> 0 \<longleftrightarrow> 0 \<le> Internal_Compare cmp y x"
proof -
  obtain a b where k: "x = AppendInternalKey [] a" "y = AppendInternalKey [] b"
    and A: "ik_user_key a \<in> A" "ik_user_key b \<in> A"
    by (metis assms internal_keysE)
  show ?thesis using sign_swap [OF A] zero_swap [OF A] by (auto simp: k Internal_Compare_Append)
qed

lemma internal_cmp_0:
  assumes "x \<in> internal_keys A" "y \<in> internal_keys A" "Internal_Compare cmp x y = 0"
  shows "x = y"
proof -
  obtain a b where k: "x = AppendInternalKey [] a" "y = AppendInternalKey [] b"
    and A: "ik_user_key a \<in> A" "ik_user_key b \<in> A"
    by (metis assms(1,2) internal_keysE)
  have "ik_user_key a = ik_user_key b" "packed a = packed b"
    using assms(3) cmp_0 [OF A] unfolding k Internal_Compare_Append by (auto split: if_splits)
  then show ?thesis by (simp add: k AppendInternalKey_def)
qed

lemma internal_shorter:
  assumes "u \<in> A" "x \<in> internal_keys A" "cmp (ExtractUserKey x) u < 0"
  shows "PutFixed64 u (PackSequenceAndType kMaxSequenceNumber kValueTypeForSeek) \<in> internal_keys A \<and>
    ExtractUserKey (PutFixed64 u (PackSequenceAndType kMaxSequenceNumber kValueTypeForSeek)) = u \<and>
    Internal_Compare cmp x (PutFixed64 u (PackSequenceAndType kMaxSequenceNumber kValueTypeForSeek)) < 0"
  using assms internal_keysI [of u A kMaxSequenceNumber]
  by (simp add: Internal_Compare_def Let_def ExtractUserKey_def PutFixed64_def)

lemma internal_user_key: "x \<in> internal_keys A \<Longrightarrow> ExtractUserKey x \<in> A"
  by (auto elim: internal_keysE)

lemma internal_less_user: "cmp (ExtractUserKey x) (ExtractUserKey y) < 0 \<Longrightarrow> Internal_Compare cmp x y < 0"
  by (simp add: Internal_Compare_def Let_def)

lemma internal_user_le: "Internal_Compare cmp x y < 0 \<Longrightarrow> cmp (ExtractUserKey x) (ExtractUserKey y) \<le> 0"
  by (simp add: Internal_Compare_def Let_def split: if_splits)

end

sublocale user_comparator \<subseteq> internal: key_comparator "internal_keys A" "Internal_Compare cmp"
  "Internal_FindShortestSeparator cmp separator" "Internal_FindShortSuccessor cmp successor"
proof unfold_locales
  fix x y
  assume x: "x \<in> internal_keys A" and y: "y \<in> internal_keys A"
  note u = internal_user_key [OF x] internal_user_key [OF y]
  let ?tmp = "separator (ExtractUserKey x) (ExtractUserKey y)"
  show "Internal_Compare cmp x y < 0 \<Longrightarrow> Internal_FindShortestSeparator cmp separator x y \<in> internal_keys A \<and>
      Internal_Compare cmp x (Internal_FindShortestSeparator cmp separator x y) \<le> 0 \<and>
      Internal_Compare cmp (Internal_FindShortestSeparator cmp separator x y) y < 0"
  proof -
    assume less: "Internal_Compare cmp x y < 0"
    show ?thesis
    proof (cases "length ?tmp < length (ExtractUserKey x) \<and> cmp (ExtractUserKey x) ?tmp < 0")
      case True
      then have "cmp (ExtractUserKey x) (ExtractUserKey y) < 0"
        using separator_id [OF u] by (metis less_irrefl)
      from separator_between [OF u this] internal_shorter [OF _ x, of ?tmp] True show ?thesis
        by (auto simp: Internal_FindShortestSeparator_def Let_def intro!: internal_less_user)
    qed (use x less in \<open>auto simp: Internal_FindShortestSeparator_def Let_def Internal_Compare_def cmp_refl [OF u(1)]\<close>)
  qed
  show "Internal_FindShortestSeparator cmp separator x y = x" if "\<not> Internal_Compare cmp x y < 0"
  proof -
    have "?tmp = ExtractUserKey x" using that internal_less_user [of x y] separator_id [OF u] by blast
    then show ?thesis by (simp add: Internal_FindShortestSeparator_def Let_def)
  qed
next
  fix x
  assume x: "x \<in> internal_keys A"
  note u = internal_user_key [OF x]
  from successor_above [OF u] internal_shorter [OF _ x] x
  show "Internal_FindShortSuccessor cmp successor x \<in> internal_keys A \<and>
      Internal_Compare cmp x (Internal_FindShortSuccessor cmp successor x) \<le> 0"
    by (auto simp: Internal_FindShortSuccessor_def Let_def Internal_Compare_def cmp_refl [OF u] intro: less_imp_le)
qed (fact internal_sign_swap internal_le_trans internal_cmp_0)+

interpretation bytewise_internal: user_comparator UNIV Bytewise_Compare Bytewise_FindShortestSeparator Bytewise_FindShortSuccessor
  by unfold_locales

subsection \<open>Properties\<close>

lemma LookupKey_parts:
  "internal_key (new_LookupKey u s) = AppendInternalKey [] \<lparr>ik_user_key = u, ik_sequence = s, ik_type = kValueTypeForSeek\<rparr>"
  "user_key (new_LookupKey u s) = u"
  "memtable_key (new_LookupKey u s) = EncodeVarint32 (word_of_nat (length (internal_key (new_LookupKey u s)))) @ internal_key (new_LookupKey u s)"
  by (simp_all add: internal_key_def user_key_def memtable_key_def new_LookupKey_def Let_def AppendInternalKey_def PutFixed64_def)

text \<open>
  Property C40. Internal keys, with the built-in order of the user's keys: they parse back, they are
  ordered by user key, then from the newest to the oldest sequence number, values before deletions; the
  key of a lookup at a snapshot comes before exactly the entries of its user key that the snapshot sees.
\<close>

theorem internal_key_order:
  assumes "ik_sequence a \<le> kMaxSequenceNumber" "ik_sequence b \<le> kMaxSequenceNumber" "s \<le> kMaxSequenceNumber"
  shows "ParseInternalKey (AppendInternalKey [] a) = Some a \<and>
    (Internal_Compare Bytewise_Compare (AppendInternalKey [] a) (AppendInternalKey [] b) < 0 \<longleftrightarrow>
      ik_user_key a < ik_user_key b \<or> ik_user_key a = ik_user_key b \<and>
       (ik_sequence b < ik_sequence a \<or>
        ik_sequence a = ik_sequence b \<and> ik_type a = kTypeValue \<and> ik_type b = kTypeDeletion)) \<and>
    (Internal_Compare Bytewise_Compare (internal_key (new_LookupKey u s)) (AppendInternalKey [] b) \<le> 0 \<longleftrightarrow>
      u < ik_user_key b \<or> u = ik_user_key b \<and> ik_sequence b \<le> s)"
proof -
  let ?k = "\<lparr>ik_user_key = u, ik_sequence = s, ik_type = kValueTypeForSeek\<rparr>"
  have "packed ?k < packed b \<longleftrightarrow> s < ik_sequence b"
    using packed_less [of ?k b] assms(2,3) by (simp add: kValueTypeForSeek_def)
  moreover have "Internal_Compare Bytewise_Compare (AppendInternalKey [] a) (AppendInternalKey [] b) < 0 \<longleftrightarrow>
      ik_user_key a < ik_user_key b \<or> ik_user_key a = ik_user_key b \<and> packed b < packed a"
    "Internal_Compare Bytewise_Compare (AppendInternalKey [] ?k) (AppendInternalKey [] b) \<le> 0 \<longleftrightarrow>
      u < ik_user_key b \<or> u = ik_user_key b \<and> \<not> packed ?k < packed b"
    by (auto simp: Internal_Compare_Append Bytewise_Compare_def slice_compare_eq)
  ultimately show ?thesis
    using packed_less [OF assms(2,1)] Parse_Append [OF assms(1)] by (auto simp: LookupKey_parts not_less)
qed

lemma internal_key_order_witness:
  "Internal_Compare Bytewise_Compare (internal_key (new_LookupKey [7] 5))
     (AppendInternalKey [] \<lparr>ik_user_key = [7], ik_sequence = 4, ik_type = kTypeDeletion\<rparr>) \<le> 0 \<and>
   \<not> Internal_Compare Bytewise_Compare (internal_key (new_LookupKey [7] 5))
     (AppendInternalKey [] \<lparr>ik_user_key = [7], ik_sequence = 6, ik_type = kTypeValue\<rparr>) \<le> 0"
proof -
  let ?a = "\<lparr>ik_user_key = [7], ik_sequence = 4, ik_type = kTypeDeletion\<rparr>"
  let ?b = "\<lparr>ik_user_key = [7], ik_sequence = 6, ik_type = kTypeValue\<rparr>"
  have m: "ik_sequence ?a \<le> kMaxSequenceNumber" "ik_sequence ?b \<le> kMaxSequenceNumber" "5 \<le> kMaxSequenceNumber"
    by (simp_all add: kMaxSequenceNumber_def)
  from internal_key_order [OF m(2,1,3), of "[7]"] internal_key_order [OF m(1,2,3), of "[7]"] show ?thesis by simp
qed

text \<open>
  Property C23. The short keys that index blocks are built from lie where the contract says: a separator
  of two internal keys is not below the first and below the second, a successor is not below its key,
  and both are internal keys again.
\<close>

theorem internal_separators:
  assumes "x \<in> internal_keys UNIV" "y \<in> internal_keys UNIV"
  shows "Internal_FindShortSuccessor Bytewise_Compare Bytewise_FindShortSuccessor x \<in> internal_keys UNIV \<and>
    Internal_Compare Bytewise_Compare x (Internal_FindShortSuccessor Bytewise_Compare Bytewise_FindShortSuccessor x) \<le> 0 \<and>
    (let z = Internal_FindShortestSeparator Bytewise_Compare Bytewise_FindShortestSeparator x y
     in if Internal_Compare Bytewise_Compare x y < 0
        then z \<in> internal_keys UNIV \<and> Internal_Compare Bytewise_Compare x z \<le> 0 \<and> Internal_Compare Bytewise_Compare z y < 0
        else z = x)"
  using bytewise_internal.internal.separator_between [OF assms] bytewise_internal.internal.separator_id [OF assms]
    bytewise_internal.internal.successor_above [OF assms(1)]
  by (simp add: Let_def)

lemma internal_separators_witness:
  "\<exists>x y. Internal_Compare Bytewise_Compare x y < 0 \<and>
    (let z = Internal_FindShortestSeparator Bytewise_Compare Bytewise_FindShortestSeparator x y
     in z \<in> internal_keys UNIV \<and> Internal_Compare Bytewise_Compare x z \<le> 0 \<and>
        Internal_Compare Bytewise_Compare z y < 0 \<and> z \<noteq> x)"
proof -
  let ?x = "AppendInternalKey [] \<lparr>ik_user_key = [1, 2, 3], ik_sequence = 4, ik_type = kTypeValue\<rparr>"
  let ?y = "AppendInternalKey [] \<lparr>ik_user_key = [1, 5], ik_sequence = 9, ik_type = kTypeValue\<rparr>"
  have in_keys: "?x \<in> internal_keys UNIV" "?y \<in> internal_keys UNIV"
    by (auto simp: internal_keys_def kMaxSequenceNumber_def intro!: exI)
  have less: "Internal_Compare Bytewise_Compare ?x ?y < 0"
    by (simp add: Internal_Compare_Append Bytewise_Compare_def slice_compare_eq)
  have "Internal_FindShortestSeparator Bytewise_Compare Bytewise_FindShortestSeparator ?x ?y \<noteq> ?x"
    unfolding Internal_FindShortestSeparator_def Extract_Append
    by (simp add: Let_def Bytewise_FindShortestSeparator_def Bytewise_Compare_def slice_compare_eq
        AppendInternalKey_def PutFixed64_def)
  with internal_separators [OF in_keys] less show ?thesis by (auto simp: Let_def)
qed

end
