(* ===== verification/LDB_MemTable.thy ===== *)
theory LDB_MemTable
  imports LDB_Format LDB_SkipList
begin

text \<open>
  The memory table of LevelDB (\<open>db/memtable.cc\<close>, \<open>db/memtable.h\<close>): a skip list of entries, each the
  length and bytes of an internal key and the length and bytes of a value. A pointer to an entry is the
  list of the bytes from there on.
\<close>

subsection \<open>The table\<close>

text \<open>The code assumes that the length is not corrupted; the pointer would be null.\<close>

definition entry_slice :: "u8 list \<Rightarrow> slice" where
  "entry_slice data =
     (case GetVarint32Ptr (take 5 data) of
        None \<Rightarrow> []
      | Some (len, q) \<Rightarrow> take (unat len) (drop (length (take 5 data) - length q) data))"

definition KeyComparator :: "(slice \<Rightarrow> slice \<Rightarrow> int) \<Rightarrow> u8 list \<Rightarrow> u8 list \<Rightarrow> int" where
  "KeyComparator user_cmp aptr bptr = Internal_Compare user_cmp (entry_slice aptr) (entry_slice bptr)"

definition EncodeKey :: "slice \<Rightarrow> u8 list" where
  "EncodeKey target = PutVarint32 [] (word_of_nat (length target)) @ target"

type_synonym memtable = "u8 list skiplist"

definition MemTable :: memtable where
  "MemTable = new_SkipList []"

text \<open>The buffer has \<open>encoded_len\<close> bytes; \<open>Add_buf_length\<close> shows that the entry fills it.\<close>

definition Add_buf :: "SequenceNumber \<Rightarrow> ValueType \<Rightarrow> slice \<Rightarrow> slice \<Rightarrow> u8 list" where
  "Add_buf s type key value =
     (let key_size = length key; val_size = length value; internal_key_size = key_size + 8
      in EncodeVarint32 (word_of_nat internal_key_size) @ key @ EncodeFixed64 (push_bit 8 s OR type_num type) @
         EncodeVarint32 (word_of_nat val_size) @ value)"

definition encoded_len :: "slice \<Rightarrow> slice \<Rightarrow> nat" where
  "encoded_len key value =
     (let key_size = length key; val_size = length value; internal_key_size = key_size + 8
      in VarintLength (word_of_nat internal_key_size) + internal_key_size + VarintLength (word_of_nat val_size) + val_size)"

definition MemTable_Add ::
  "(slice \<Rightarrow> slice \<Rightarrow> int) \<Rightarrow> SequenceNumber \<Rightarrow> ValueType \<Rightarrow> slice \<Rightarrow> slice \<Rightarrow> memtable \<Rightarrow> memtable option" where
  "MemTable_Add user_cmp s type key value mem = Insert (KeyComparator user_cmp) (Add_buf s type key value) mem"

text \<open>
  A lookup does not find the key, finds a value, or finds a deletion (\<open>NotFound\<close> in the status). The
  outer option is a search that fails in the list.
\<close>

datatype get_result = Absent | Value slice | Deleted

definition MemTable_Get :: "(slice \<Rightarrow> slice \<Rightarrow> int) \<Rightarrow> LookupKey \<Rightarrow> memtable \<Rightarrow> get_result option" where
  "MemTable_Get user_cmp key mem =
     Option.bind (iter_Seek (KeyComparator user_cmp) mem (memtable_key key)) (\<lambda>node.
       case node of
         None \<Rightarrow> Some Absent
       | Some n \<Rightarrow>
           (let entry = node_key mem n
            in case GetVarint32Ptr (take 5 entry) of
                 None \<Rightarrow> None
               | Some (key_length, q) \<Rightarrow>
                   (let key_ptr = drop (length (take 5 entry) - length q) entry
                    in if user_cmp (take (unat key_length - 8) key_ptr) (user_key key) = 0
                       then (let tag = DecodeFixed64 (drop (unat key_length - 8) key_ptr); type = tag AND 0xff
                             in if type = type_num kTypeValue
                                then Some (Value (entry_slice (drop (unat key_length) key_ptr)))
                                else if type = type_num kTypeDeletion then Some Deleted
                                else Some Absent)
                       else Some Absent)))"

text \<open>The iterator.\<close>

definition MemTableIterator_Seek :: "(slice \<Rightarrow> slice \<Rightarrow> int) \<Rightarrow> memtable \<Rightarrow> slice \<Rightarrow> nat option option" where
  "MemTableIterator_Seek user_cmp mem k = iter_Seek (KeyComparator user_cmp) mem (EncodeKey k)"

definition MemTableIterator_key :: "memtable \<Rightarrow> nat \<Rightarrow> slice" where
  "MemTableIterator_key mem n = entry_slice (node_key mem n)"

definition MemTableIterator_value :: "memtable \<Rightarrow> nat \<Rightarrow> slice" where
  "MemTableIterator_value mem n =
     (let entry = node_key mem n;
          key_start = (case GetVarint32Ptr (take 5 entry) of None \<Rightarrow> 0 | Some (len, q) \<Rightarrow> length (take 5 entry) - length q)
      in entry_slice (drop (key_start + length (entry_slice entry)) entry))"

subsection \<open>Entries\<close>

lemma GetVarint32Ptr_enc:
  "GetVarint32Ptr (take 5 (EncodeVarint32 v @ rest)) = Some (v, drop (length (EncodeVarint32 v)) (take 5 (EncodeVarint32 v @ rest)))"
  "length (EncodeVarint32 v) \<le> 5"
proof -
  have "unat v < 2 ^ LENGTH(32)" by (rule unsigned_less)
  then show l: "length (EncodeVarint32 v) \<le> 5"
    using length_varint_enc [of "unat v" 4] by (simp add: EncodeVarint32_eq)
  then have "take 5 (EncodeVarint32 v @ rest) = EncodeVarint32 v @ take (5 - length (EncodeVarint32 v)) rest" by simp
  moreover have "GetVarint32Ptr (EncodeVarint32 v @ r) = Some (v, r)" for r
    using GetVarint32_enc [of v r] by (simp add: GetVarint32_def split: option.splits prod.splits)
  ultimately show "GetVarint32Ptr (take 5 (EncodeVarint32 v @ rest)) = Some (v, drop (length (EncodeVarint32 v)) (take 5 (EncodeVarint32 v @ rest)))"
    by simp
qed

lemma drop_varint:
  "drop (length (take 5 (EncodeVarint32 v @ rest)) - length (drop (length (EncodeVarint32 v)) (take 5 (EncodeVarint32 v @ rest))))
    (EncodeVarint32 v @ rest) = rest"
  using GetVarint32Ptr_enc(2) [of v] by simp

lemma entry_slice_enc:
  assumes "length p < 2 ^ 32"
  shows "entry_slice (EncodeVarint32 (word_of_nat (length p)) @ p @ rest) = p"
proof -
  have "unat (word_of_nat (length p) :: u32) = length p" using assms by (simp add: unat_word_of_nat)
  then show ?thesis
    unfolding entry_slice_def GetVarint32Ptr_enc option.case prod.case drop_varint by simp
qed

text \<open>The entry of an internal key and a value, and the keys that searches may use: an entry or the start of one.\<close>

definition entry_enc :: "ParsedInternalKey \<Rightarrow> slice \<Rightarrow> u8 list" where
  "entry_enc k v = EncodeVarint32 (word_of_nat (length (AppendInternalKey [] k))) @ AppendInternalKey [] k @
     EncodeVarint32 (word_of_nat (length v)) @ v"

definition mt_keys :: "slice set \<Rightarrow> u8 list set" where
  "mt_keys A = {EncodeVarint32 (word_of_nat (length p)) @ p @ rest |p rest. p \<in> internal_keys A \<and> length p < 2 ^ 32}"

lemma mt_keysI:
  "p \<in> internal_keys A \<Longrightarrow> length p < 2 ^ 32 \<Longrightarrow> EncodeVarint32 (word_of_nat (length p)) @ p @ rest \<in> mt_keys A"
  unfolding mt_keys_def by blast

lemma length_Append: "length (AppendInternalKey [] k) = length (ik_user_key k) + 8"
  by (simp add: AppendInternalKey_def PutFixed64_def)

lemma Add_buf_eq: "Add_buf s t u v = entry_enc \<lparr>ik_user_key = u, ik_sequence = s, ik_type = t\<rparr> v"
  by (simp add: Add_buf_def entry_enc_def length_Append AppendInternalKey_def PutFixed64_def PackSequenceAndType_def Let_def)

lemma Add_buf_length:
  assumes "length u + 8 < 2 ^ 32" "length v < 2 ^ 32"
  shows "length (Add_buf s t u v) = encoded_len u v"
proof -
  have "length (EncodeVarint32 (word_of_nat n)) = VarintLength (word_of_nat n)" if "n < 2 ^ 32" for n
  proof -
    have "unat (word_of_nat n :: u32) = n" "unat (word_of_nat n :: u64) = n" using that by (simp_all add: unat_word_of_nat)
    then show ?thesis by (simp add: EncodeVarint32_eq VarintLength_eq)
  qed
  from this [OF assms(1)] this [OF assms(2)] show ?thesis by (simp add: Add_buf_def encoded_len_def Let_def)
qed

lemma entry_slice_entry: "length (ik_user_key k) + 8 < 2 ^ 32 \<Longrightarrow> entry_slice (entry_enc k v) = AppendInternalKey [] k"
  unfolding entry_enc_def by (rule entry_slice_enc) (simp add: length_Append)

lemma entry_in_keys:
  assumes "ik_user_key k \<in> A" "ik_sequence k \<le> kMaxSequenceNumber" "length (ik_user_key k) + 8 < 2 ^ 32"
  shows "entry_enc k v \<in> mt_keys A"
proof -
  have "AppendInternalKey [] k \<in> internal_keys A" using assms by (auto simp: internal_keys_def)
  moreover have "length (AppendInternalKey [] k) < 2 ^ 32" using assms(3) by (simp add: length_Append)
  ultimately show ?thesis unfolding mt_keys_def entry_enc_def by blast
qed

lemma lookup_key_eq:
  assumes "length u + 8 < 2 ^ 32"
  shows "memtable_key (new_LookupKey u s) = EncodeVarint32 (word_of_nat (length (AppendInternalKey [] \<lparr>ik_user_key = u, ik_sequence = s, ik_type = kValueTypeForSeek\<rparr>))) @
      AppendInternalKey [] \<lparr>ik_user_key = u, ik_sequence = s, ik_type = kValueTypeForSeek\<rparr> @ []"
  by (simp add: LookupKey_parts)

subsection \<open>The table as a list of entries\<close>

type_synonym mt_entry = "ParsedInternalKey \<times> slice"

fun entry_bytes :: "mt_entry \<Rightarrow> u8 list" where
  "entry_bytes (k, v) = entry_enc k v"

fun entry_result :: "mt_entry \<Rightarrow> get_result" where
  "entry_result (k, v) = (case ik_type k of kTypeValue \<Rightarrow> Value v | kTypeDeletion \<Rightarrow> Deleted)"

fun entry_ok :: "slice set \<Rightarrow> mt_entry \<Rightarrow> bool" where
  "entry_ok A (k, v) \<longleftrightarrow> ik_user_key k \<in> A \<and> ik_sequence k \<le> kMaxSequenceNumber \<and>
     length (ik_user_key k) + 8 < 2 ^ 32 \<and> length v < 2 ^ 32"

definition mt_list :: "slice set \<Rightarrow> (slice \<Rightarrow> slice \<Rightarrow> int) \<Rightarrow> memtable \<Rightarrow> mt_entry list \<Rightarrow> bool" where
  "mt_list A cmp mem es \<longleftrightarrow>
     sl_list (mt_keys A) (KeyComparator cmp) mem (map entry_bytes es) \<and> (\<forall>e\<in>set es. entry_ok A e)"

lemma MemTable_list: "mt_list A cmp MemTable []"
  by (simp add: mt_list_def MemTable_def new_SkipList_list)

text \<open>What \<open>Get\<close> reads of an entry.\<close>

lemma Get_entry:
  assumes "entry_ok A (k, v)" "iter_Seek (KeyComparator cmp) mem (memtable_key lk) = Some (Some n)" "node_key mem n = entry_enc k v"
  shows "MemTable_Get cmp lk mem = Some (if cmp (ik_user_key k) (user_key lk) = 0 then entry_result (k, v) else Absent)"
proof -
  define w :: u32 where "w = word_of_nat (length (AppendInternalKey [] k))"
  define rest where "rest = AppendInternalKey [] k @ EncodeVarint32 (word_of_nat (length v)) @ v"
  have e: "entry_enc k v = EncodeVarint32 w @ rest" by (simp add: entry_enc_def w_def rest_def)
  have w: "unat w = length (ik_user_key k) + 8" unfolding w_def length_Append
    by (rule unat_word_of_nat_less) (use assms(1) in simp)
  have "drop (unat w - 8) rest = EncodeFixed64 (packed k) @ EncodeVarint32 (word_of_nat (length v)) @ v"
    "take (unat w - 8) rest = ik_user_key k" "drop (unat w) rest = EncodeVarint32 (word_of_nat (length v)) @ v @ []"
    by (simp_all add: w rest_def AppendInternalKey_def PutFixed64_def)
  moreover have "entry_slice (EncodeVarint32 (word_of_nat (length v)) @ v @ []) = v"
    by (rule entry_slice_enc) (use assms(1) in simp)
  ultimately show ?thesis
    unfolding MemTable_Get_def assms(2,3) e Option.bind.simps option.case Let_def GetVarint32Ptr_enc drop_varint prod.case
    by (cases "ik_type k") (simp_all add: PackSequenceAndType_bits type_num_def)
qed

text \<open>A lookup sees the newest entry of its key that is not newer than its snapshot.\<close>

definition visible :: "mt_entry set \<Rightarrow> slice \<Rightarrow> SequenceNumber \<Rightarrow> mt_entry set" where
  "visible E u s = {e \<in> E. ik_user_key (fst e) = u \<and> ik_sequence (fst e) \<le> s}"

fun add_all :: "(slice \<Rightarrow> slice \<Rightarrow> int) \<Rightarrow> mt_entry list \<Rightarrow> memtable \<Rightarrow> memtable option" where
  "add_all cmp [] mem = Some mem"
| "add_all cmp ((k, v) # ops) mem =
     Option.bind (MemTable_Add cmp (ik_sequence k) (ik_type k) (ik_user_key k) v mem) (add_all cmp ops)"

lemma MemTableIterator_entry:
  assumes "entry_ok A (k, v)" "node_key mem n = entry_enc k v"
  shows "MemTableIterator_key mem n = AppendInternalKey [] k \<and> MemTableIterator_value mem n = v"
proof -
  define w :: u32 where "w = word_of_nat (length (AppendInternalKey [] k))"
  define rest where "rest = AppendInternalKey [] k @ EncodeVarint32 (word_of_nat (length v)) @ v @ []"
  have e: "entry_enc k v = EncodeVarint32 w @ rest" by (simp add: entry_enc_def w_def rest_def)
  have k: "entry_slice (entry_enc k v) = AppendInternalKey [] k" using assms(1) by (simp add: entry_slice_entry)
  have "length (take 5 (EncodeVarint32 w @ rest)) - length (drop (length (EncodeVarint32 w)) (take 5 (EncodeVarint32 w @ rest))) =
      length (EncodeVarint32 w)"
    using GetVarint32Ptr_enc(2) [of w] by simp
  then have "MemTableIterator_value mem n = entry_slice (drop (length (AppendInternalKey [] k)) rest)"
    using k unfolding MemTableIterator_value_def assms(2) e Let_def GetVarint32Ptr_enc option.case prod.case by simp
  also have "\<dots> = v" unfolding rest_def using entry_slice_enc [of v "[]"] assms(1) by simp
  finally show ?thesis using k by (simp add: MemTableIterator_key_def assms(2))
qed

context user_comparator
begin

lemma mt_comparator: "comparator (mt_keys A) (KeyComparator cmp)"
proof
  fix a b c
  assume "a \<in> mt_keys A" "b \<in> mt_keys A"
  moreover have slice: "entry_slice x \<in> internal_keys A" if "x \<in> mt_keys A" for x
    using that by (auto simp: mt_keys_def entry_slice_enc)
  ultimately show "KeyComparator cmp a b \<le> 0 \<longleftrightarrow> 0 \<le> KeyComparator cmp b a"
    unfolding KeyComparator_def by (intro internal_sign_swap)
  show "KeyComparator cmp a b \<le> 0 \<Longrightarrow> KeyComparator cmp b c \<le> 0 \<Longrightarrow> KeyComparator cmp a c \<le> 0" if "c \<in> mt_keys A"
    using internal_le_trans slice \<open>a \<in> mt_keys A\<close> \<open>b \<in> mt_keys A\<close> that unfolding KeyComparator_def by blast
qed

lemma KeyComparator_entries:
  assumes "entry_ok A (a, v)" "entry_ok A (b, w)"
  shows "KeyComparator cmp (entry_enc a v) (entry_enc b w) = Internal_Compare cmp (AppendInternalKey [] a) (AppendInternalKey [] b)"
  using assms by (simp add: KeyComparator_def entry_slice_entry)

lemma entry_bytes_keys: "entry_ok A e \<Longrightarrow> entry_bytes e \<in> mt_keys A"
  by (cases e) (auto intro: entry_in_keys)

text \<open>Adding an entry whose internal key is new.\<close>

lemma MemTable_Add_ok:
  assumes l: "mt_list A cmp mem es" and e: "entry_ok A (k, v)" and new: "k \<notin> fst ` set es"
  shows "\<exists>mem' es'. MemTable_Add cmp (ik_sequence k) (ik_type k) (ik_user_key k) v mem = Some mem' \<and> mt_list A cmp mem' es' \<and>
    set es' = insert (k, v) (set es)"
proof -
  have key: "entry_enc k v \<in> mt_keys A" using entry_bytes_keys [OF e] by simp
  have "KeyComparator cmp x (entry_enc k v) \<noteq> 0" if x: "x \<in> set (map entry_bytes es)" for x
  proof
    assume zero: "KeyComparator cmp x (entry_enc k v) = 0"
    obtain k' v' where k': "(k', v') \<in> set es" "x = entry_enc k' v'" using x by auto
    then have e': "entry_ok A (k', v')" using l by (auto simp: mt_list_def)
    have "Internal_Compare cmp (AppendInternalKey [] k') (AppendInternalKey [] k) = 0"
      using zero KeyComparator_entries [OF e' e] k'(2) by simp
    moreover have "AppendInternalKey [] k' \<in> internal_keys A" "AppendInternalKey [] k \<in> internal_keys A"
      using e e' by (auto simp: internal_keys_def)
    ultimately have "AppendInternalKey [] k' = AppendInternalKey [] k" using internal_cmp_0 by blast
    then have "k' = k" using Parse_Append [of k] Parse_Append [of k'] e e' by simp
    then show False using new k'(1) by force
  qed
  moreover have "Add_buf (ik_sequence k) (ik_type k) (ik_user_key k) v = entry_enc k v"
    by (cases k) (simp add: Add_buf_eq)
  ultimately obtain mem' where mem': "MemTable_Add cmp (ik_sequence k) (ik_type k) (ik_user_key k) v mem = Some mem'"
    "sl_list (mt_keys A) (KeyComparator cmp) mem'
      (filter (\<lambda>x. KeyComparator cmp x (entry_enc k v) < 0) (map entry_bytes es) @ entry_enc k v #
       filter (\<lambda>x. \<not> KeyComparator cmp x (entry_enc k v) < 0) (map entry_bytes es))"
    using comparator.Insert_list [OF mt_comparator _ key, of mem "map entry_bytes es"] l
    unfolding mt_list_def MemTable_Add_def by auto
  let ?P = "\<lambda>e. KeyComparator cmp (entry_bytes e) (entry_enc k v) < 0"
  define es' where "es' = filter ?P es @ (k, v) # filter (\<lambda>e. \<not> ?P e) es"
  have "mt_list A cmp mem' es'"
    using mem'(2) l e by (auto simp: mt_list_def es'_def filter_map o_def)
  moreover have "set es' = insert (k, v) (set es)" by (auto simp: es'_def)
  ultimately show ?thesis using mem'(1) by blast
qed

lemma lookup_order:
  assumes e: "entry_ok A (k, v)" and u: "u \<in> A" "length u + 8 < 2 ^ 32" and s: "s \<le> kMaxSequenceNumber"
  shows "KeyComparator cmp (entry_enc k v) (memtable_key (new_LookupKey u s)) < 0 \<longleftrightarrow>
    cmp (ik_user_key k) u < 0 \<or> ik_user_key k = u \<and> s < ik_sequence k"
proof -
  let ?k = "\<lparr>ik_user_key = u, ik_sequence = s, ik_type = kValueTypeForSeek\<rparr>"
  have "entry_slice (memtable_key (new_LookupKey u s)) = AppendInternalKey [] ?k"
    unfolding lookup_key_eq [OF u(2)] by (rule entry_slice_enc) (use u(2) in \<open>simp add: length_Append\<close>)
  then have "KeyComparator cmp (entry_enc k v) (memtable_key (new_LookupKey u s)) =
      Internal_Compare cmp (AppendInternalKey [] k) (AppendInternalKey [] ?k)"
    using e by (simp add: KeyComparator_def entry_slice_entry)
  moreover have "packed ?k < packed k \<longleftrightarrow> s < ik_sequence k"
    using packed_less [of ?k k] e s by (simp add: kValueTypeForSeek_def)
  ultimately show ?thesis
    using cmp_eq_0 [of "ik_user_key k" u] e u(1) by (auto simp: Internal_Compare_Append)
qed

lemma MemTable_Get_ok:
  assumes l: "mt_list A cmp mem es" and u: "u \<in> A" "length u + 8 < 2 ^ 32" and s: "s \<le> kMaxSequenceNumber"
  shows "MemTable_Get cmp (new_LookupKey u s) mem = Some Absent \<and> visible (set es) u s = {} \<or>
    (\<exists>e\<in>visible (set es) u s. MemTable_Get cmp (new_LookupKey u s) mem = Some (entry_result e) \<and>
      (\<forall>e'\<in>visible (set es) u s. packed (fst e') \<le> packed (fst e)))"
proof -
  let ?lk = "new_LookupKey u s"
  let ?P = "\<lambda>e. \<not> KeyComparator cmp (entry_bytes e) (memtable_key ?lk) < 0"
  have sl: "sl_list (mt_keys A) (KeyComparator cmp) mem (map entry_bytes es)" and valid: "\<And>e. e \<in> set es \<Longrightarrow> entry_ok A e"
    using l by (auto simp: mt_list_def)
  have "AppendInternalKey [] \<lparr>ik_user_key = u, ik_sequence = s, ik_type = kValueTypeForSeek\<rparr> \<in> internal_keys A"
    using u(1) s by (auto simp: internal_keys_def)
  then have "memtable_key ?lk \<in> mt_keys A"
    unfolding lookup_key_eq [OF u(2)] by (rule mt_keysI) (use u(2) in \<open>simp add: length_Append\<close>)
  then obtain n where n: "iter_Seek (KeyComparator cmp) mem (memtable_key ?lk) = Some n"
    "map_option (node_key mem) n = find (\<lambda>k. \<not> KeyComparator cmp k (memtable_key ?lk) < 0) (map entry_bytes es)"
    using comparator.Seek_list [OF mt_comparator sl] by blast
  have mf: "find P (map f xs) = map_option f (find (P \<circ> f) xs)" for P and f :: "mt_entry \<Rightarrow> u8 list" and xs
    by (induction xs) auto
  have P: "?P (k, v) \<longleftrightarrow> \<not> cmp (ik_user_key k) u < 0 \<and> (ik_user_key k = u \<longrightarrow> ik_sequence k \<le> s)" if "(k, v) \<in> set es" for k v
    using lookup_order [OF valid [OF that] u s] by auto
  have refl: "cmp u u = 0" by (rule cmp_refl [OF u(1)])
  show ?thesis
  proof (cases "find ?P es")
    case None
    then have "n = None" using n(2) by (simp add: mf o_def)
    then have "MemTable_Get cmp ?lk mem = Some Absent" by (simp add: MemTable_Get_def n(1))
    moreover have "visible (set es) u s = {}"
    proof (rule ccontr)
      assume "visible (set es) u s \<noteq> {}"
      then obtain k v where "(k, v) \<in> set es" "ik_user_key k = u" "ik_sequence k \<le> s" by (auto simp: visible_def)
      moreover from this(1) have "\<not> ?P (k, v)" using None unfolding find_None_iff by blast
      ultimately show False using P [of k v] refl by simp
    qed
    ultimately show ?thesis by blast
  next
    case (Some e)
    obtain k v where e: "e = (k, v)" by (cases e)
    obtain m where m: "n = Some m" "node_key mem m = entry_enc k v"
      using n(2) Some e by (auto simp: mf o_def)
    obtain i where i: "i < length es" "es ! i = (k, v)" "?P (k, v)" "\<And>j. j < i \<Longrightarrow> \<not> ?P (es ! j)"
    proof -
      from Some [unfolded find_Some_iff] obtain i
        where "i < length es" "?P (es ! i)" "e = es ! i" "\<forall>j<i. \<not> ?P (es ! j)" by blast
      then show thesis using that [of i] e by simp
    qed
    have mem_e: "(k, v) \<in> set es" using i(1,2) by (metis nth_mem)
    have after: "\<exists>j\<ge>i. j < length es \<and> es ! j = e'" if "e' \<in> visible (set es) u s" for e'
    proof -
      have "e' \<in> set es" using that by (simp add: visible_def)
      then obtain j where j: "j < length es" "es ! j = e'" by (auto simp: in_set_conv_nth)
      obtain k' v' where e': "e' = (k', v')" by (cases e')
      have "(k', v') \<in> set es" "ik_user_key k' = u" "ik_sequence k' \<le> s" using that by (auto simp: visible_def e')
      then have "?P (k', v')" using P [of k' v'] refl by simp
      then have "\<not> j < i" using i(4) [of j] j(2) e' by metis
      with j show ?thesis by (intro exI [of _ j]) simp
    qed
    have less: "Internal_Compare cmp (AppendInternalKey [] k) (AppendInternalKey [] (fst (es ! j))) < 0" if "i < j" "j < length es" for j
    proof -
      obtain k' v' where e': "es ! j = (k', v')" by (cases "es ! j")
      then have "(k', v') \<in> set es" using that(2) by (metis nth_mem)
      have "KeyComparator cmp (entry_bytes (es ! i)) (entry_bytes (es ! j)) < 0"
        using conjunct1 [OF comparator.sl_list_sorted [OF mt_comparator sl]] that i(1) by (simp add: sorted_wrt_iff_nth_less)
      then have "KeyComparator cmp (entry_enc k v) (entry_enc k' v') < 0" by (simp add: i(2) e')
      then show ?thesis using KeyComparator_entries [OF valid [OF mem_e] valid [OF \<open>(k', v') \<in> set es\<close>]] by (simp add: e')
    qed
    have get: "MemTable_Get cmp ?lk mem = Some (if cmp (ik_user_key k) u = 0 then entry_result (k, v) else Absent)"
      using Get_entry [OF valid [OF mem_e] _ m(2)] n(1) m(1) by (simp add: LookupKey_parts)
    have uk: "ik_user_key k \<in> A" using valid [OF mem_e] by simp
    show ?thesis
    proof (cases "ik_user_key k = u")
      case True
      have "(k, v) \<in> visible (set es) u s" using mem_e i(3) P [OF mem_e] True by (auto simp: visible_def)
      moreover have "packed (fst e') \<le> packed k" if e': "e' \<in> visible (set es) u s" for e'
      proof -
        obtain j where j: "j \<ge> i" "j < length es" "es ! j = e'" using after [OF e'] by blast
        show ?thesis
        proof (cases "j = i")
          case False
          with less [of j] j e' True refl show ?thesis
            by (auto simp: Internal_Compare_Append visible_def split: if_splits)
        qed (use j i(2) in auto)
      qed
      ultimately show ?thesis using get True refl by (intro disjI2 bexI [of _ "(k, v)"]) auto
    next
      case False
      then have above: "0 < cmp (ik_user_key k) u"
        using i(3) P [OF mem_e] cmp_0 [OF uk u(1)] by (meson linorder_neqE_linordered_idom)
      have "visible (set es) u s = {}"
      proof (rule ccontr)
        assume "visible (set es) u s \<noteq> {}"
        then obtain e' where e': "e' \<in> visible (set es) u s" by blast
        obtain j where j: "j \<ge> i" "j < length es" "es ! j = e'" using after [OF e'] by blast
        then have "j \<noteq> i" using False i(2) e' by (auto simp: visible_def)
        then have "cmp (ik_user_key k) u \<le> 0" using internal_user_le [OF less [of j]] j e' by (simp add: visible_def)
        with above show False by simp
      qed
      moreover have "cmp (ik_user_key k) u \<noteq> 0" using above by simp
      ultimately show ?thesis using get by simp
    qed
  qed
qed

lemma add_all_ok:
  "mt_list A cmp mem es \<Longrightarrow> \<forall>e\<in>set ops. entry_ok A e \<Longrightarrow> \<forall>e\<in>set ops. fst e \<notin> fst ` set es \<Longrightarrow> distinct (map fst ops) \<Longrightarrow>
    \<exists>mem' es'. add_all cmp ops mem = Some mem' \<and> mt_list A cmp mem' es' \<and> set es' = set es \<union> set ops"
proof (induction ops arbitrary: mem es)
  case Nil
  then show ?case by auto
next
  case (Cons e ops)
  obtain k v where e: "e = (k, v)" by (cases e)
  from MemTable_Add_ok [OF Cons.prems(1), of k v] Cons.prems(2,3) obtain mem1 es1
    where 1: "MemTable_Add cmp (ik_sequence k) (ik_type k) (ik_user_key k) v mem = Some mem1" "mt_list A cmp mem1 es1"
      "set es1 = insert (k, v) (set es)"
    unfolding e by auto
  have "\<forall>e\<in>set ops. fst e \<notin> fst ` set es1" using Cons.prems(3,4) unfolding 1(3) e by auto
  from Cons.IH [OF 1(2) _ this] Cons.prems(2,4) obtain mem' es' where "add_all cmp ops mem1 = Some mem'" "mt_list A cmp mem' es'"
    "set es' = set es1 \<union> set ops" by auto
  with 1 show ?case by (intro exI [of _ mem'] exI [of _ es']) (simp add: e)
qed

end

lemma last_greatest:
  assumes "sorted_wrt (\<lambda>a b. f a < (f b :: 'b::linorder)) xs" "x \<in> set xs" "f (last xs) \<le> f x"
  shows "x = last xs"
proof -
  obtain ys z where xs: "xs = ys @ [z]" using assms(2) by (cases xs rule: rev_cases) auto
  with assms show ?thesis by (auto simp: sorted_wrt_append)
qed

lemma MemTable_Get_last:
  assumes "user_comparator A cmp sep succ" "\<forall>e\<in>set ops. entry_ok A e"
    and "sorted_wrt (\<lambda>a b. ik_sequence (fst a) < ik_sequence (fst b)) ops"
    and "u \<in> A" "length u + 8 < 2 ^ 32" "s \<le> kMaxSequenceNumber"
  shows "\<exists>mem. add_all cmp ops MemTable = Some mem \<and> MemTable_Get cmp (new_LookupKey u s) mem =
    Some (case filter (\<lambda>e. ik_user_key (fst e) = u \<and> ik_sequence (fst e) \<le> s) ops of [] \<Rightarrow> Absent | es \<Rightarrow> entry_result (last es))"
proof -
  let ?es = "filter (\<lambda>e. ik_user_key (fst e) = u \<and> ik_sequence (fst e) \<le> s) ops"
  have "sorted_wrt (<) (map (ik_sequence \<circ> fst) ops)" using assms(3) by (simp add: sorted_wrt_map)
  then have "distinct (map (ik_sequence \<circ> fst) ops)" by (simp only: strict_sorted_iff)
  then have "distinct (map fst ops)" by (metis distinct_map map_map)
  then obtain mem es where mem: "add_all cmp ops MemTable = Some mem" "mt_list A cmp mem es" "set es = set ops"
    using user_comparator.add_all_ok [OF assms(1) MemTable_list assms(2)] by auto
  have vis: "visible (set es) u s = set ?es" by (auto simp: visible_def mem(3))
  have sorted: "sorted_wrt (\<lambda>a b. ik_sequence (fst a) < ik_sequence (fst b)) ?es" by (rule sorted_wrt_filter [OF assms(3)])
  from user_comparator.MemTable_Get_ok [OF assms(1) mem(2) assms(4-6)]
  have "MemTable_Get cmp (new_LookupKey u s) mem = Some (case ?es of [] \<Rightarrow> Absent | es \<Rightarrow> entry_result (last es))"
  proof (elim disjE bexE conjE)
    assume "MemTable_Get cmp (new_LookupKey u s) mem = Some Absent" "visible (set es) u s = {}"
    then show ?thesis unfolding vis by (simp only: set_empty list.case)
  next
    fix e
    assume e: "e \<in> visible (set es) u s" "MemTable_Get cmp (new_LookupKey u s) mem = Some (entry_result e)"
      "\<forall>e'\<in>visible (set es) u s. packed (fst e') \<le> packed (fst e)"
    have ne: "?es \<noteq> []" using e(1) unfolding vis by (metis list.set(1) empty_iff)
    then have last: "last ?es \<in> set ?es" by (rule last_in_set)
    then have "\<not> packed (fst e) < packed (fst (last ?es))" using bspec [OF e(3) [unfolded vis] last] by (simp only: not_less)
    moreover have "ik_sequence (fst e) \<le> kMaxSequenceNumber" "ik_sequence (fst (last ?es)) \<le> kMaxSequenceNumber"
      using e(1) last assms(6) unfolding vis by (auto dest: order.trans)
    ultimately have "ik_sequence (fst (last ?es)) \<le> ik_sequence (fst e)" using packed_less by (meson not_less)
    then have "e = last ?es" using last_greatest [OF sorted, of e] e(1) unfolding vis by simp
    with e(2) ne show ?thesis by (simp split: list.splits)
  qed
  with mem(1) show ?thesis by blast
qed

text \<open>
  The memory table is a multi-version map: after any sequence of additions with increasing
  sequence numbers, a lookup of a key at a snapshot succeeds and gives the last addition of that key that
  the snapshot includes, its value or the fact that it deletes the key, and nothing if there is none;
  for every order of the user's keys that meets the contract of a comparator.
\<close>

theorem MemTable_Get_newest:
  assumes "user_comparator A cmp sep succ" "\<forall>e\<in>set ops. entry_ok A e"
    and "sorted_wrt (\<lambda>a b. ik_sequence (fst a) < ik_sequence (fst b)) ops"
    and "u \<in> A" "length u + 8 < 2 ^ 32" "s \<le> kMaxSequenceNumber"
  shows "\<exists>mem. add_all cmp ops MemTable = Some mem \<and> MemTable_Get cmp (new_LookupKey u s) mem =
    Some (case filter (\<lambda>e. ik_user_key (fst e) = u \<and> ik_sequence (fst e) \<le> s) ops of [] \<Rightarrow> Absent | es \<Rightarrow> entry_result (last es))"
  by (rule MemTable_Get_last [OF assms])

lemma MemTable_Get_newest_witness:
  "\<exists>mem. add_all Bytewise_Compare
      [(\<lparr>ik_user_key = [7], ik_sequence = 1, ik_type = kTypeValue\<rparr>, [1]), (\<lparr>ik_user_key = [7], ik_sequence = 2, ik_type = kTypeDeletion\<rparr>, [])]
      MemTable = Some mem \<and>
    MemTable_Get Bytewise_Compare (new_LookupKey [7] 1) mem = Some (Value [1])"
proof -
  let ?a = "(\<lparr>ik_user_key = [7], ik_sequence = 1, ik_type = kTypeValue\<rparr>, [1]) :: mt_entry"
  let ?b = "(\<lparr>ik_user_key = [7], ik_sequence = 2, ik_type = kTypeDeletion\<rparr>, []) :: mt_entry"
  have h: "\<forall>e\<in>set [?a, ?b]. entry_ok UNIV e" "sorted_wrt (\<lambda>a b. ik_sequence (fst a) < ik_sequence (fst b)) [?a, ?b]"
    "[7] \<in> (UNIV :: slice set)" "length ([7] :: slice) + 8 < 2 ^ 32" "1 \<le> kMaxSequenceNumber"
    by (simp_all add: kMaxSequenceNumber_def)
  have "\<not> (2 :: u64) \<le> 1" by (simp add: word_le_nat_alt)
  then have f: "filter (\<lambda>e. ik_user_key (fst e) = [7] \<and> ik_sequence (fst e) \<le> 1) [?a, ?b] = [?a]" by simp
  obtain mem where "add_all Bytewise_Compare [?a, ?b] MemTable = Some mem" and
    "MemTable_Get Bytewise_Compare (new_LookupKey [7] 1) mem = Some (case [?a] of [] \<Rightarrow> Absent | es \<Rightarrow> entry_result (last es))"
    using MemTable_Get_newest [OF bytewise_internal.user_comparator_axioms h, unfolded f] by blast
  then show ?thesis by auto
qed

end
