(* ===== verification/LDB_Batch.thy ===== *)
theory LDB_Batch
  imports LDB_MemTable
begin

text \<open>
  Write batches (\<open>db/write_batch.cc\<close>, \<open>db/write_batch_internal.h\<close>): a sequence number, a count and the
  operations, in the bytes that also go to the log. A batch is its \<open>rep_\<close>. A handler of \<open>Iterate\<close> is a pair
  of functions on its state.
\<close>

subsection \<open>Batches\<close>

type_synonym write_batch = "u8 list"

datatype Status = OK | NotFound string | Corruption string | NotSupported string | InvalidArgument string | IOError string

definition kHeader :: nat where
  "kHeader = 12"

definition Batch_Clear :: write_batch where
  "Batch_Clear = replicate kHeader 0"

definition ApproximateSize :: "write_batch \<Rightarrow> nat" where
  "ApproximateSize b = length b"

definition Batch_Count :: "write_batch \<Rightarrow> u32" where
  "Batch_Count b = DecodeFixed32 (drop 8 b)"

definition SetCount :: "u32 \<Rightarrow> write_batch \<Rightarrow> write_batch" where
  "SetCount n b = store b 8 (EncodeFixed32 n)"

definition Batch_Sequence :: "write_batch \<Rightarrow> SequenceNumber" where
  "Batch_Sequence b = DecodeFixed64 b"

definition SetSequence :: "SequenceNumber \<Rightarrow> write_batch \<Rightarrow> write_batch" where
  "SetSequence s b = store b 0 (EncodeFixed64 s)"

definition Batch_Put :: "slice \<Rightarrow> slice \<Rightarrow> write_batch \<Rightarrow> write_batch" where
  "Batch_Put key value b =
     (let b = SetCount (Batch_Count b + 1) b;
          rep = b @ [ucast (type_num kTypeValue)];
          rep = PutLengthPrefixedSlice rep key
      in PutLengthPrefixedSlice rep value)"

definition Batch_Delete :: "slice \<Rightarrow> write_batch \<Rightarrow> write_batch" where
  "Batch_Delete key b =
     (let b = SetCount (Batch_Count b + 1) b;
          rep = b @ [ucast (type_num kTypeDeletion)]
      in PutLengthPrefixedSlice rep key)"

definition SetContents :: "slice \<Rightarrow> write_batch" where
  "SetContents contents = contents"

definition Batch_Append :: "write_batch \<Rightarrow> write_batch \<Rightarrow> write_batch" where
  "Batch_Append dst src = SetCount (Batch_Count dst + Batch_Count src) dst @ drop kHeader src"

lemma varint_ptr_loop_shorter: "varint_ptr_loop K r s p = Some (v, q) \<Longrightarrow> length q < length p"
  by (induction K r s p rule: varint_ptr_loop.induct) (auto split: if_splits)

lemma GetLengthPrefixedSlice_shorter: "GetLengthPrefixedSlice p = (Some s, q) \<Longrightarrow> length q < length p"
  by (auto simp: GetLengthPrefixedSlice_def GetVarint32_def GetVarint32Ptr_eq obind_def
      dest!: varint_ptr_loop_shorter split: option.splits prod.splits if_splits)

function iterate_loop ::
  "(slice \<Rightarrow> slice \<Rightarrow> 'h \<Rightarrow> 'h) \<Rightarrow> (slice \<Rightarrow> 'h \<Rightarrow> 'h) \<Rightarrow> nat \<Rightarrow> slice \<Rightarrow> 'h \<Rightarrow> (Status + nat) \<times> 'h" where
  "iterate_loop put del found [] h = (Inr found, h)"
| "iterate_loop put del found (tag # input) h =
     (if tag = ucast (type_num kTypeValue) then
        (case GetLengthPrefixedSlice input of
           (None, _) \<Rightarrow> (Inl (Corruption ''bad WriteBatch Put''), h)
         | (Some key, input1) \<Rightarrow>
             (case GetLengthPrefixedSlice input1 of
                (None, _) \<Rightarrow> (Inl (Corruption ''bad WriteBatch Put''), h)
              | (Some value, input2) \<Rightarrow> iterate_loop put del (found + 1) input2 (put key value h)))
      else if tag = ucast (type_num kTypeDeletion) then
        (case GetLengthPrefixedSlice input of
           (None, _) \<Rightarrow> (Inl (Corruption ''bad WriteBatch Delete''), h)
         | (Some key, input1) \<Rightarrow> iterate_loop put del (found + 1) input1 (del key h))
      else (Inl (Corruption ''unknown WriteBatch tag''), h))"
  by pat_completeness auto
termination
  by (relation "measure (\<lambda>(put, del, found, input, h). length input)") (force dest: GetLengthPrefixedSlice_shorter [OF sym])+

declare iterate_loop.simps(2) [simp del]

definition Batch_Iterate ::
  "(slice \<Rightarrow> slice \<Rightarrow> 'h \<Rightarrow> 'h) \<Rightarrow> (slice \<Rightarrow> 'h \<Rightarrow> 'h) \<Rightarrow> write_batch \<Rightarrow> 'h \<Rightarrow> Status \<times> 'h" where
  "Batch_Iterate put del b h =
     (if length b < kHeader then (Corruption ''malformed WriteBatch (too small)'', h)
      else (case iterate_loop put del 0 (drop kHeader b) h of
              (Inl s, h) \<Rightarrow> (s, h)
            | (Inr found, h) \<Rightarrow>
                if int found \<noteq> sint (Batch_Count b) then (Corruption ''WriteBatch has wrong count'', h) else (OK, h)))"

text \<open>The handler that inserts into a memory table: the next sequence number and the table.\<close>

type_synonym inserter = "(SequenceNumber \<times> memtable) option"

definition MemTableInserter_add ::
  "(slice \<Rightarrow> slice \<Rightarrow> int) \<Rightarrow> ValueType \<Rightarrow> slice \<Rightarrow> slice \<Rightarrow> inserter \<Rightarrow> inserter" where
  "MemTableInserter_add user_cmp type key value h =
     Option.bind h (\<lambda>(sequence, mem).
       map_option (Pair (sequence + 1)) (MemTable_Add user_cmp sequence type key value mem))"

definition InsertInto :: "(slice \<Rightarrow> slice \<Rightarrow> int) \<Rightarrow> write_batch \<Rightarrow> memtable \<Rightarrow> Status \<times> inserter" where
  "InsertInto user_cmp b mem =
     Batch_Iterate (MemTableInserter_add user_cmp kTypeValue) (\<lambda>key. MemTableInserter_add user_cmp kTypeDeletion key [])
       b (Some (Batch_Sequence b, mem))"

subsection \<open>The bytes of a batch\<close>

datatype batch_op = PutOp slice slice | DeleteOp slice

fun op_bytes :: "batch_op \<Rightarrow> u8 list" where
  "op_bytes (PutOp key value) = 1 # PutLengthPrefixedSlice [] key @ PutLengthPrefixedSlice [] value"
| "op_bytes (DeleteOp key) = 0 # PutLengthPrefixedSlice [] key"

fun op_fits :: "batch_op \<Rightarrow> bool" where
  "op_fits (PutOp key value) \<longleftrightarrow> length key + 8 < 2 ^ 32 \<and> length value < 2 ^ 32"
| "op_fits (DeleteOp key) \<longleftrightarrow> length key + 8 < 2 ^ 32"

fun do_op :: "batch_op \<Rightarrow> write_batch \<Rightarrow> write_batch" where
  "do_op (PutOp key value) b = Batch_Put key value b"
| "do_op (DeleteOp key) b = Batch_Delete key b"

definition batch_of :: "batch_op list \<Rightarrow> write_batch" where
  "batch_of ops = fold do_op ops Batch_Clear"

definition batch_rep :: "SequenceNumber \<Rightarrow> u32 \<Rightarrow> batch_op list \<Rightarrow> write_batch" where
  "batch_rep s n ops = EncodeFixed64 s @ EncodeFixed32 n @ concat (map op_bytes ops)"

lemma tag_bytes: "ucast (type_num kTypeValue) = (1 :: u8)" "ucast (type_num kTypeDeletion) = (0 :: u8)"
  by (simp_all add: type_num_def)

lemma PutLengthPrefixedSlice_append: "PutLengthPrefixedSlice dst s = dst @ PutLengthPrefixedSlice [] s"
  by (simp add: PutLengthPrefixedSlice_def PutVarint32_def)

lemma batch_rep_header [simp]:
  "Batch_Sequence (batch_rep s n ops) = s"
  "Batch_Count (batch_rep s n ops) = n"
  "SetSequence s' (batch_rep s n ops) = batch_rep s' n ops"
  "SetCount n' (batch_rep s n ops) = batch_rep s n' ops"
  "drop kHeader (batch_rep s n ops) = concat (map op_bytes ops)"
  "length (batch_rep s n ops) = 12 + length (concat (map op_bytes ops))"
  by (simp_all add: batch_rep_def Batch_Sequence_def Batch_Count_def SetSequence_def SetCount_def store_def kHeader_def)

lemma Batch_Clear_rep: "Batch_Clear = batch_rep 0 0 []"
  by (simp add: Batch_Clear_def batch_rep_def kHeader_def EncodeFixed64_def EncodeFixed32_def numeral_eq_Suc)

lemma do_op_rep: "do_op x (batch_rep s n ops) = batch_rep s (n + 1) (ops @ [x])"
  by (cases x) (simp_all add: Batch_Put_def Batch_Delete_def Let_def PutLengthPrefixedSlice_append [of "_ @ _"]
      PutLengthPrefixedSlice_append [of "batch_rep s n ops @ _" for s n ops] tag_bytes, simp_all add: batch_rep_def)

lemma Batch_Append_rep: "Batch_Append (batch_rep s n xs) (batch_rep t m ys) = batch_rep s (n + m) (xs @ ys)"
  by (simp add: Batch_Append_def, simp add: batch_rep_def)

lemma batch_of_rep: "batch_of ops = batch_rep 0 (word_of_nat (length ops)) ops"
proof -
  have "fold do_op ops (batch_rep s n xs) = batch_rep s (n + word_of_nat (length ops)) (xs @ ops)" for s n xs
    by (induction ops arbitrary: n xs) (simp_all add: do_op_rep ac_simps)
  from this [of 0 0 "[]"] show ?thesis by (simp add: batch_of_def Batch_Clear_rep)
qed

subsection \<open>Iteration\<close>

fun handle :: "(slice \<Rightarrow> slice \<Rightarrow> 'h \<Rightarrow> 'h) \<Rightarrow> (slice \<Rightarrow> 'h \<Rightarrow> 'h) \<Rightarrow> batch_op \<Rightarrow> 'h \<Rightarrow> 'h" where
  "handle put del (PutOp key value) = put key value"
| "handle put del (DeleteOp key) = del key"

lemma iterate_loop_op:
  assumes "op_fits x"
  shows "iterate_loop put del found (op_bytes x @ input) h = iterate_loop put del (found + 1) input (handle put del x h)"
  using assms by (cases x) (simp_all add: iterate_loop.simps(2) tag_bytes GetLengthPrefixedSlice_put)

lemma iterate_loop_ops:
  "\<forall>x\<in>set ops. op_fits x \<Longrightarrow>
    iterate_loop put del found (concat (map op_bytes ops)) h = (Inr (found + length ops), fold (handle put del) ops h)"
  by (induction ops arbitrary: found h) (simp_all add: iterate_loop_op)

lemma sint_word_of_nat: "n < 2 ^ 31 \<Longrightarrow> sint (word_of_nat n :: u32) = int n"
proof -
  assume n: "n < 2 ^ 31"
  then have "take_bit 31 (int n) = int n" by (simp add: take_bit_int_eq_self)
  moreover have "\<not> bit (int n) 31" using n by (simp add: bit_iff_odd)
  ultimately show ?thesis by (simp add: signed_of_nat signed_take_bit_eq_if_positive)
qed

lemma Batch_Iterate_rep:
  assumes "\<forall>x\<in>set ops. op_fits x" "length ops < 2 ^ 31"
  shows "Batch_Iterate put del (batch_rep s (word_of_nat (length ops)) ops) h = (OK, fold (handle put del) ops h)"
  using assms by (simp add: Batch_Iterate_def iterate_loop_ops sint_word_of_nat, simp add: kHeader_def)

text \<open>
  Property C18. A batch replays its operations: iterating a batch that was built with \<open>Put\<close> and \<open>Delete\<close>,
  extended by \<open>Append\<close> and given a sequence number calls the handler once for each operation, in order
  and with the same slices, ends with OK, and the header holds the number of operations.
\<close>

theorem Batch_Iterate_replays:
  assumes "\<forall>x\<in>set (xs @ ys). op_fits x" "length (xs @ ys) < 2 ^ 31"
  shows "let b = SetSequence s (Batch_Append (batch_of xs) (batch_of ys)) in
    Batch_Iterate put del b h = (OK, fold (handle put del) (xs @ ys) h) \<and>
    sint (Batch_Count b) = int (length (xs @ ys)) \<and> Batch_Sequence b = s"
proof -
  have rep: "SetSequence s (Batch_Append (batch_of xs) (batch_of ys)) = batch_rep s (word_of_nat (length (xs @ ys))) (xs @ ys)"
    by (simp add: batch_of_rep Batch_Append_rep)
  show ?thesis
    unfolding rep Let_def batch_rep_header
    by (intro conjI Batch_Iterate_rep [OF assms] sint_word_of_nat [OF assms(2)] refl)
qed

text \<open>Two operations and one more, replayed into a list of keys.\<close>

lemma Batch_Iterate_replays_witness:
  "Batch_Iterate (\<lambda>k v h. h @ [(k, Some v)]) (\<lambda>k h. h @ [(k, None)])
     (SetSequence 9 (Batch_Append (batch_of [PutOp [1] [2], DeleteOp []]) (batch_of [DeleteOp [3]]))) [] =
   (OK, [([1], Some [2]), ([], None), ([3], None)])"
proof -
  have h: "\<forall>x\<in>set ([PutOp [1] [2], DeleteOp []] @ [DeleteOp [3]]). op_fits x"
    "length ([PutOp [1] [2], DeleteOp []] @ [DeleteOp [3]]) < 2 ^ 31" by simp_all
  show ?thesis using Batch_Iterate_replays [OF h, of 9 "\<lambda>k v h. h @ [(k, Some v)]" "\<lambda>k h. h @ [(k, None)]" "[]"]
    unfolding Let_def by simp
qed

subsection \<open>Insertion into a memory table\<close>

fun op_entry :: "SequenceNumber \<Rightarrow> batch_op \<Rightarrow> mt_entry" where
  "op_entry s (PutOp key value) = (\<lparr>ik_user_key = key, ik_sequence = s, ik_type = kTypeValue\<rparr>, value)"
| "op_entry s (DeleteOp key) = (\<lparr>ik_user_key = key, ik_sequence = s, ik_type = kTypeDeletion\<rparr>, [])"

fun entries_of :: "SequenceNumber \<Rightarrow> batch_op list \<Rightarrow> mt_entry list" where
  "entries_of s [] = []"
| "entries_of s (x # xs) = op_entry s x # entries_of (s + 1) xs"

lemma length_entries_of [simp]: "length (entries_of s xs) = length xs"
  by (induction xs arbitrary: s) simp_all

lemma entries_of_append: "entries_of s (xs @ ys) = entries_of s xs @ entries_of (s + word_of_nat (length xs)) ys"
  by (induction xs arbitrary: s) (simp_all add: ac_simps)

lemma add_all_append: "add_all cmp (xs @ ys) mem = Option.bind (add_all cmp xs mem) (add_all cmp ys)"
  by (induction xs arbitrary: mem) (auto simp: bind_assoc split: Option.bind_splits)

abbreviation inserter_handle :: "(slice \<Rightarrow> slice \<Rightarrow> int) \<Rightarrow> batch_op \<Rightarrow> inserter \<Rightarrow> inserter" where
  "inserter_handle cmp \<equiv>
     handle (MemTableInserter_add cmp kTypeValue) (\<lambda>key. MemTableInserter_add cmp kTypeDeletion key [])"

lemma inserter_op:
  "inserter_handle cmp x (Some (s, mem)) = map_option (Pair (s + 1)) (add_all cmp [op_entry s x] mem)"
  by (cases x) (auto simp: MemTableInserter_add_def split: Option.bind_splits)

lemma inserter_None: "inserter_handle cmp x None = None"
  by (cases x) (simp_all add: MemTableInserter_add_def)

lemma fold_inserter:
  "fold (inserter_handle cmp) xs (Some (s, mem)) =
    map_option (Pair (s + word_of_nat (length xs))) (add_all cmp (entries_of s xs) mem)"
proof (induction xs arbitrary: s mem)
  case (Cons x xs)
  have none: "fold (inserter_handle cmp) xs None = None" by (induction xs) (simp_all add: inserter_None)
  have split: "add_all cmp (entries_of s (x # xs)) mem = Option.bind (add_all cmp [op_entry s x] mem) (add_all cmp (entries_of (s + 1) xs))"
    using add_all_append [of cmp "[op_entry s x]" "entries_of (s + 1) xs" mem] by (simp only: entries_of.simps append.simps)
  show ?case
  proof (cases "add_all cmp [op_entry s x] mem")
    case None
    with split show ?thesis by (simp only: fold_Cons o_apply inserter_op none option.simps Option.bind.simps)
  next
    case (Some mem1)
    have "s + 1 + word_of_nat (length xs) = s + word_of_nat (length (x # xs))" by simp
    with Some split show ?thesis
      by (simp only: fold_Cons o_apply inserter_op Cons.IH option.simps Option.bind.simps)
  qed
qed simp

lemma InsertInto_rep:
  assumes "\<forall>x\<in>set ops. op_fits x" "length ops < 2 ^ 31"
  shows "InsertInto cmp (batch_rep s (word_of_nat (length ops)) ops) mem =
    (OK, map_option (Pair (s + word_of_nat (length ops))) (add_all cmp (entries_of s ops) mem))"
  unfolding InsertInto_def Batch_Iterate_rep [OF assms] fold_inserter batch_rep_header by simp

end
