(* ===== verification/LDB_Write.thy ===== *)
theory LDB_Write
  imports LDB_Batch LDB_Log_Spec "HOL-Library.Sublist"
begin

text \<open>
  The write path of a database (\<open>db/db_impl.cc\<close>, \<open>DBImpl::Write\<close>, \<open>BuildBatchGroup\<close>): threads queue up as
  writers; the one at the front takes the batches of a group of them, appends the group to the log and
  inserts it into the memory table. While it does so the mutex is free and further writers may queue up.

  A writer is known by its address. Its condition variable is a flag: \<open>dw_waiting\<close> says that its thread is
  blocked in \<open>Wait\<close>, which only a \<open>Signal\<close> or a spurious wakeup ends. What \<open>MakeRoomForWrite\<close> returns is an
  argument of the step; the switch to a new memory table and log is not modelled.
\<close>

subsection \<open>Writers and the queue\<close>

record db_writer =
  dw_batch :: "write_batch option"
  dw_sync :: bool
  dw_done :: bool
  dw_status :: Status
  dw_waiting :: bool
  dw_returned :: bool

text \<open>The leader's locals while the mutex is free: itself, whether it uses \<open>tmp_batch_\<close>, the batch, the
  sequence number after it, and the last writer of the group.\<close>

record write_group =
  wg_leader :: nat
  wg_tmp :: bool
  wg_updates :: write_batch
  wg_last_sequence :: SequenceNumber
  wg_last_writer :: nat

record db =
  db_writers :: "nat list"
  db_heap :: "nat \<Rightarrow> db_writer option"
  db_tmp_batch :: write_batch
  db_log :: log_writer
  db_mem :: memtable
  db_last_sequence :: SequenceNumber
  db_bg_error :: Status
  db_active :: "write_group option"

abbreviation writer_at :: "db \<Rightarrow> nat \<Rightarrow> db_writer" where
  "writer_at d i \<equiv> the (db_heap d i)"

text \<open>The loop over the writers behind the first: the sizes so far, whether \<open>result\<close> is still the first
  writer's batch, the result and the last writer.\<close>

fun group_loop ::
  "(nat \<Rightarrow> db_writer) \<Rightarrow> bool \<Rightarrow> nat \<Rightarrow> write_batch \<Rightarrow> nat \<Rightarrow> bool \<Rightarrow> write_batch \<Rightarrow> nat \<Rightarrow> nat list \<Rightarrow>
    bool \<times> write_batch \<times> nat" where
  "group_loop heap first_sync max_size tmp sz in_place result last_writer [] = (\<not> in_place, result, last_writer)"
| "group_loop heap first_sync max_size tmp sz in_place result last_writer (i # ws) =
     (let w = heap i
      in if dw_sync w \<and> \<not> first_sync then (\<not> in_place, result, last_writer)
         else case dw_batch w of
           None \<Rightarrow> group_loop heap first_sync max_size tmp sz in_place result i ws
         | Some b \<Rightarrow>
             (let sz = sz + length b
              in if max_size < sz then (\<not> in_place, result, last_writer)
                 else (let result = (if in_place then Batch_Append tmp result else result);
                           result = Batch_Append result b
                       in group_loop heap first_sync max_size tmp sz False result i ws)))"

definition group_limit :: "nat \<Rightarrow> nat" where
  "group_limit sz =
     (let max_size = push_bit 20 1
      in if sz \<le> push_bit 7 (2 ^ 10) then sz + push_bit 7 (2 ^ 10) else max_size)"

definition BuildBatchGroup :: "db \<Rightarrow> bool \<times> write_batch \<times> nat" where
  "BuildBatchGroup d =
     (let i = hd (db_writers d);
          first = writer_at d i;
          result = the (dw_batch first);
          sz = length result;
          max_size = group_limit sz
      in group_loop (writer_at d) (dw_sync first) max_size (db_tmp_batch d) sz True result i (tl (db_writers d)))"

subsection \<open>The steps of \<open>Write\<close>\<close>

text \<open>A thread enters and queues up; it waits unless it is at the front.\<close>

definition write_enqueue :: "nat \<Rightarrow> write_batch option \<Rightarrow> bool \<Rightarrow> db \<Rightarrow> db" where
  "write_enqueue i updates sync d =
     (let writers = db_writers d @ [i];
          w = \<lparr>dw_batch = updates, dw_sync = sync, dw_done = False, dw_status = OK,
               dw_waiting = (i \<noteq> hd writers), dw_returned = False\<rparr>
      in d\<lparr>db_heap := (db_heap d)(i \<mapsto> w), db_writers := writers\<rparr>)"

definition cv_Signal :: "nat \<Rightarrow> (nat \<Rightarrow> db_writer option) \<Rightarrow> (nat \<Rightarrow> db_writer option)" where
  "cv_Signal i heap = heap(i := map_option (\<lambda>w. w\<lparr>dw_waiting := False\<rparr>) (heap i))"

text \<open>Its thread has woken up from \<open>Wait\<close> and waits again, or returns.\<close>

definition write_wait :: "nat \<Rightarrow> db \<Rightarrow> db" where
  "write_wait i d = d\<lparr>db_heap := (db_heap d)(i := map_option (\<lambda>w. w\<lparr>dw_waiting := True\<rparr>) (db_heap d i))\<rparr>"

definition write_return :: "nat \<Rightarrow> db \<Rightarrow> db" where
  "write_return i d = d\<lparr>db_heap := (db_heap d)(i := map_option (\<lambda>w. w\<lparr>dw_returned := True\<rparr>) (db_heap d i))\<rparr>"

text \<open>
  Popping the group of the leader \<open>l\<close> off the queue. The writers behind the leader are woken; the leader
  returns its result, which is recorded like the others'. Then the new head of the queue is woken.
\<close>

fun finish_writers ::
  "Status \<Rightarrow> nat \<Rightarrow> nat \<Rightarrow> nat list \<Rightarrow> (nat \<Rightarrow> db_writer option) \<Rightarrow> nat list \<times> (nat \<Rightarrow> db_writer option)" where
  "finish_writers status l last_writer [] heap = ([], heap)"
| "finish_writers status l last_writer (ready # ws) heap =
     (let heap = heap(ready \<mapsto> (the (heap ready))\<lparr>dw_status := status, dw_done := True\<rparr>);
          heap = (if ready \<noteq> l then cv_Signal ready heap
                  else heap(ready \<mapsto> (the (heap ready))\<lparr>dw_returned := True\<rparr>))
      in if ready = last_writer then (ws, heap) else finish_writers status l last_writer ws heap)"

definition pop_group :: "Status \<Rightarrow> nat \<Rightarrow> nat \<Rightarrow> db \<Rightarrow> db" where
  "pop_group status l last_writer d =
     (let (ws, heap) = finish_writers status l last_writer (db_writers d) (db_heap d);
          heap = (if ws \<noteq> [] then cv_Signal (hd ws) heap else heap)
      in d\<lparr>db_writers := ws, db_heap := heap\<rparr>)"

text \<open>The thread at the front starts. It is done at once if there is no room or it has no batch.\<close>

definition write_start :: "Status \<Rightarrow> db \<Rightarrow> db" where
  "write_start status d =
     (let i = hd (db_writers d)
      in if status = OK \<and> dw_batch (writer_at d i) \<noteq> None
         then (let (tmp, updates, last_writer) = BuildBatchGroup d;
                   updates = SetSequence (db_last_sequence d + 1) updates;
                   last_sequence = db_last_sequence d + scast (Batch_Count updates)
               in d\<lparr>db_tmp_batch := (if tmp then updates else db_tmp_batch d),
                    db_heap := (if tmp then db_heap d else (db_heap d)(i \<mapsto> (writer_at d i)\<lparr>dw_batch := Some updates\<rparr>)),
                    db_active := Some \<lparr>wg_leader = i, wg_tmp = tmp, wg_updates = updates,
                      wg_last_sequence = last_sequence, wg_last_writer = last_writer\<rparr>\<rparr>)
         else pop_group status i i d)"

text \<open>The texts of I/O errors are not modelled.\<close>

definition io_status :: "bool \<Rightarrow> Status" where
  "io_status ok = (if ok then OK else IOError [])"

definition RecordBackgroundError :: "Status \<Rightarrow> db \<Rightarrow> db" where
  "RecordBackgroundError s d = (if db_bg_error d = OK then d\<lparr>db_bg_error := s\<rparr> else d)"

text \<open>The leader writes the log, inserts and wakes the group. The step has no result if the insertion does not return.\<close>

definition write_finish ::
  "file_io \<Rightarrow> (u8 list \<Rightarrow> bool) \<Rightarrow> (u8 list \<Rightarrow> bool) \<Rightarrow> (slice \<Rightarrow> slice \<Rightarrow> int) \<Rightarrow> write_group \<Rightarrow> db \<Rightarrow> db option" where
  "write_finish wr fl sy user_cmp g d =
     (let (ok, log) = AddRecord wr fl (wg_updates g) (db_log d);
          status = io_status ok;
          do_sync = (status = OK \<and> dw_sync (writer_at d (wg_leader g)));
          sync_error = (do_sync \<and> \<not> sy (lw_dest log));
          status = (if do_sync then io_status (sy (lw_dest log)) else status);
          inserted = (if status = OK then map_prod id (map_option snd) (InsertInto user_cmp (wg_updates g) (db_mem d))
                      else (status, Some (db_mem d)))
      in case inserted of (status, mem) \<Rightarrow> map_option (\<lambda>mem.
           (let d = d\<lparr>db_log := log, db_mem := mem\<rparr>;
                d = (if sync_error then RecordBackgroundError status d else d);
                d = (if wg_tmp g then d\<lparr>db_tmp_batch := Batch_Clear\<rparr> else d);
                d = d\<lparr>db_last_sequence := wg_last_sequence g, db_active := None\<rparr>
            in pop_group status (wg_leader g) (wg_last_writer g) d)) mem)"

text \<open>A read at the latest sequence number, from the memory table.\<close>

definition mem_get :: "(slice \<Rightarrow> slice \<Rightarrow> int) \<Rightarrow> slice \<Rightarrow> db \<Rightarrow> get_result option" where
  "mem_get user_cmp key d = MemTable_Get user_cmp (new_LookupKey key (db_last_sequence d)) (db_mem d)"

subsection \<open>Interleavings\<close>

text \<open>The requests of the clients: the operations of a batch, or none, and whether to sync.\<close>

type_synonym request = "batch_op list option \<times> bool"

definition db_init :: db where
  "db_init = \<lparr>db_writers = [], db_heap = (\<lambda>_. None), db_tmp_batch = Batch_Clear, db_log = Writer [] 0,
     db_mem = MemTable, db_last_sequence = 0, db_bg_error = OK, db_active = None\<rparr>"

text \<open>\<open>MakeRoomForWrite\<close> yields an earlier background error; otherwise it succeeds or fails to create a log.\<close>

definition room_status :: "db \<Rightarrow> Status \<Rightarrow> bool" where
  "room_status d status \<longleftrightarrow> (db_bg_error d \<noteq> OK \<longrightarrow> status = db_bg_error d)"

text \<open>
  The events: a thread enters, wakes up although nobody has signalled it, or goes on. A thread that is not
  blocked goes on by checking the condition of its loop again: it leads a group if it is at the front, it
  returns if its writer is done, and otherwise it waits.
\<close>

datatype write_event = Enter nat | Spurious nat | Run nat

fun entering :: "write_event \<Rightarrow> nat list" where
  "entering (Enter i) = [i]"
| "entering _ = []"

inductive write_step ::
  "file_io \<Rightarrow> (u8 list \<Rightarrow> bool) \<Rightarrow> (u8 list \<Rightarrow> bool) \<Rightarrow> (slice \<Rightarrow> slice \<Rightarrow> int) \<Rightarrow> request list \<Rightarrow> db \<Rightarrow> write_event \<Rightarrow> db \<Rightarrow> bool"
  for wr fl sy user_cmp rqs where
  enqueue: "i < length rqs \<Longrightarrow> db_heap d i = None \<Longrightarrow>
    write_step wr fl sy user_cmp rqs d (Enter i)
      (write_enqueue i (map_option batch_of (fst (rqs ! i))) (snd (rqs ! i)) d)"
| spurious: "db_heap d i = Some w \<Longrightarrow> dw_waiting w \<Longrightarrow>
    write_step wr fl sy user_cmp rqs d (Spurious i) (d\<lparr>db_heap := cv_Signal i (db_heap d)\<rparr>)"
| wait: "db_heap d i = Some w \<Longrightarrow> \<not> dw_waiting w \<Longrightarrow> \<not> dw_done w \<Longrightarrow> i \<noteq> hd (db_writers d) \<Longrightarrow>
    write_step wr fl sy user_cmp rqs d (Run i) (write_wait i d)"
| return: "db_heap d i = Some w \<Longrightarrow> \<not> dw_waiting w \<Longrightarrow> dw_done w \<Longrightarrow> \<not> dw_returned w \<Longrightarrow>
    write_step wr fl sy user_cmp rqs d (Run i) (write_return i d)"
| start: "db_active d = None \<Longrightarrow> db_writers d \<noteq> [] \<Longrightarrow> \<not> dw_waiting (writer_at d (hd (db_writers d))) \<Longrightarrow>
    room_status d status \<Longrightarrow> write_step wr fl sy user_cmp rqs d (Run (hd (db_writers d))) (write_start status d)"
| finish: "db_active d = Some g \<Longrightarrow> write_finish wr fl sy user_cmp g d = Some d' \<Longrightarrow>
    write_step wr fl sy user_cmp rqs d (Run (wg_leader g)) d'"

text \<open>The states that the interleavings reach, with the threads in the order in which they entered.\<close>

inductive write_reach ::
  "file_io \<Rightarrow> (u8 list \<Rightarrow> bool) \<Rightarrow> (u8 list \<Rightarrow> bool) \<Rightarrow> (slice \<Rightarrow> slice \<Rightarrow> int) \<Rightarrow> request list \<Rightarrow> nat list \<Rightarrow> db \<Rightarrow> bool"
  for wr fl sy user_cmp rqs where
  init: "write_reach wr fl sy user_cmp rqs [] db_init"
| step: "write_reach wr fl sy user_cmp rqs entered d \<Longrightarrow> write_step wr fl sy user_cmp rqs d e d' \<Longrightarrow>
    write_reach wr fl sy user_cmp rqs (entered @ entering e) d'"

subsection \<open>Groups\<close>

abbreviation batch_at :: "SequenceNumber \<Rightarrow> batch_op list \<Rightarrow> write_batch" where
  "batch_at s ops \<equiv> batch_rep s (word_of_nat (length ops)) ops"

fun op_key :: "batch_op \<Rightarrow> slice" where
  "op_key (PutOp key value) = key"
| "op_key (DeleteOp key) = key"

fun op_result :: "batch_op \<Rightarrow> get_result" where
  "op_result (PutOp key value) = Value value"
| "op_result (DeleteOp key) = Deleted"

definition rq_ops :: "request list \<Rightarrow> nat \<Rightarrow> batch_op list" where
  "rq_ops rqs i = (case fst (rqs ! i) of None \<Rightarrow> [] | Some ops \<Rightarrow> ops)"

text \<open>A writer that holds its request: its batch may have been given a sequence number.\<close>

definition holds_request :: "request list \<Rightarrow> nat \<Rightarrow> db_writer \<Rightarrow> bool" where
  "holds_request rqs i w \<longleftrightarrow> dw_sync w = snd (rqs ! i) \<and>
     (case fst (rqs ! i) of None \<Rightarrow> dw_batch w = None | Some ops \<Rightarrow> \<exists>s. dw_batch w = Some (batch_at s ops))"

lemma Batch_Append_at: "Batch_Append (batch_at s xs) (batch_at t ys) = batch_at s (xs @ ys)"
  by (simp add: Batch_Append_rep)

lemma length_op_bytes: "length xs \<le> length (concat (map op_bytes xs))"
proof (induction xs)
  case (Cons x xs)
  then show ?case by (cases x) simp_all
qed simp

text \<open>A group is the batches of a prefix of the queue, in order; when there are several it is bounded in size.\<close>

lemma group_loop_in_tmp:
  assumes "group_loop heap fs mx tmp sz False (batch_at s xs) lw ws = (t, res, lw')"
    and "\<forall>i\<in>set ws. holds_request rqs i (heap i)" "length (batch_at s xs) \<le> sz" "sz \<le> mx"
  shows "\<exists>pre. prefix pre ws \<and> t \<and> res = batch_at s (xs @ concat (map (rq_ops rqs) pre)) \<and>
    lw' = last (lw # pre) \<and> length res \<le> mx"
  using assms
proof (induction ws arbitrary: sz xs lw)
  case Nil
  then show ?case by simp
next
  case (Cons i ws)
  have hold: "holds_request rqs i (heap i)" using Cons.prems(2) by simp
  show ?case
  proof (cases "dw_sync (heap i) \<and> \<not> fs")
    case True
    with Cons.prems show ?thesis by (intro exI [of _ "[]"]) simp
  next
    case sync: False
    show ?thesis
    proof (cases "fst (rqs ! i)")
      case None
      then have "dw_batch (heap i) = None" using hold by (simp add: holds_request_def)
      with sync Cons.prems(1) have "group_loop heap fs mx tmp sz False (batch_at s xs) i ws = (t, res, lw')" by auto
      from Cons.IH [OF this _ Cons.prems(3,4)] Cons.prems(2) obtain pre where "prefix pre ws" "t"
        "res = batch_at s (xs @ concat (map (rq_ops rqs) pre))" "lw' = last (i # pre)" "length res \<le> mx" by auto
      moreover have "rq_ops rqs i = []" using None by (simp add: rq_ops_def)
      ultimately show ?thesis by (intro exI [of _ "i # pre"]) simp
    next
      case (Some ops)
      then obtain s' where b: "dw_batch (heap i) = Some (batch_at s' ops)" using hold by (auto simp: holds_request_def)
      show ?thesis
      proof (cases "mx < sz + length (batch_at s' ops)")
        case True
        with sync b Cons.prems show ?thesis by (intro exI [of _ "[]"]) auto
      next
        case False
        with sync b Cons.prems(1) have run: "group_loop heap fs mx tmp (sz + length (batch_at s' ops)) False
            (batch_at s (xs @ ops)) i ws = (t, res, lw')" by (auto simp: Let_def Batch_Append_at simp del: batch_rep_header(6))
        have "length (batch_at s (xs @ ops)) \<le> sz + length (batch_at s' ops)" using Cons.prems(3) by simp
        from Cons.IH [OF run _ this] False Cons.prems(2) obtain pre where "prefix pre ws" "t"
          "res = batch_at s ((xs @ ops) @ concat (map (rq_ops rqs) pre))" "lw' = last (i # pre)" "length res \<le> mx"
          by (auto simp del: append_assoc)
        moreover have "rq_ops rqs i = ops" using Some by (simp add: rq_ops_def)
        ultimately show ?thesis by (intro exI [of _ "i # pre"]) simp
      qed
    qed
  qed
qed

lemma group_loop_in_place:
  assumes "group_loop heap fs mx Batch_Clear sz True (batch_at s xs) lw ws = (t, res, lw')"
    and "\<forall>i\<in>set ws. holds_request rqs i (heap i)" "length (batch_at s xs) \<le> sz"
  shows "\<exists>pre s'. prefix pre ws \<and> res = batch_at s' (xs @ concat (map (rq_ops rqs) pre)) \<and>
    lw' = last (lw # pre) \<and> (if t then length res \<le> mx else concat (map (rq_ops rqs) pre) = [])"
  using assms
proof (induction ws arbitrary: lw)
  case Nil
  then show ?case by auto
next
  case (Cons i ws)
  have hold: "holds_request rqs i (heap i)" using Cons.prems(2) by simp
  show ?case
  proof (cases "dw_sync (heap i) \<and> \<not> fs")
    case True
    with Cons.prems show ?thesis by (intro exI [of _ "[]"]) auto
  next
    case sync: False
    show ?thesis
    proof (cases "fst (rqs ! i)")
      case None
      then have "dw_batch (heap i) = None" using hold by (simp add: holds_request_def)
      with sync Cons.prems(1) have "group_loop heap fs mx Batch_Clear sz True (batch_at s xs) i ws = (t, res, lw')" by auto
      from Cons.IH [OF this _ Cons.prems(3)] Cons.prems(2) obtain pre s' where "prefix pre ws"
        "res = batch_at s' (xs @ concat (map (rq_ops rqs) pre))" "lw' = last (i # pre)"
        "if t then length res \<le> mx else concat (map (rq_ops rqs) pre) = []" by auto
      moreover have "rq_ops rqs i = []" using None by (simp add: rq_ops_def)
      ultimately show ?thesis
        by (intro exI [of _ "i # pre"] exI [of _ s']) (simp del: batch_rep_header(6) split: if_splits)
    next
      case (Some ops)
      then obtain s' where b: "dw_batch (heap i) = Some (batch_at s' ops)" using hold by (auto simp: holds_request_def)
      show ?thesis
      proof (cases "mx < sz + length (batch_at s' ops)")
        case True
        with sync b Cons.prems show ?thesis by (intro exI [of _ "[]"]) auto
      next
        case False
        have "Batch_Append Batch_Clear (batch_at s xs) = batch_at 0 xs" using Batch_Append_at [of 0 "[]"]
          by (simp add: Batch_Clear_rep)
        with False sync b Cons.prems(1) have run: "group_loop heap fs mx Batch_Clear (sz + length (batch_at s' ops)) False
            (batch_at 0 (xs @ ops)) i ws = (t, res, lw')" by (auto simp: Let_def Batch_Append_at simp del: batch_rep_header(6))
        have "length (batch_at 0 (xs @ ops)) \<le> sz + length (batch_at s' ops)" using Cons.prems(3) by simp
        from group_loop_in_tmp [where rqs = rqs, OF run _ this] False Cons.prems(2) obtain pre where "prefix pre ws" "t"
          "res = batch_at 0 ((xs @ ops) @ concat (map (rq_ops rqs) pre))" "lw' = last (i # pre)" "length res \<le> mx"
          by (auto simp del: append_assoc)
        moreover have "rq_ops rqs i = ops" using Some by (simp add: rq_ops_def)
        ultimately show ?thesis
          by (intro exI [of _ "i # pre"] exI [of _ 0]) (simp del: batch_rep_header(6))
      qed
    qed
  qed
qed

lemma group_limit_le: "group_limit sz \<le> 2 ^ 20"
  by (simp add: group_limit_def Let_def push_bit_eq_mult)

text \<open>The group that the leader builds.\<close>

lemma BuildBatchGroup_ops:
  assumes "db_writers d = i # ws" "\<forall>j\<in>set (i # ws). holds_request rqs j (writer_at d j)" "dw_batch (writer_at d i) \<noteq> None"
    and "db_tmp_batch d = Batch_Clear" "\<forall>j\<in>set (i # ws). length (rq_ops rqs j) < 2 ^ 31"
    and "BuildBatchGroup d = (t, res, lw)"
  shows "\<exists>pre s. prefix (i # pre) (db_writers d) \<and> res = batch_at s (concat (map (rq_ops rqs) (i # pre))) \<and>
    lw = last (i # pre) \<and> length (concat (map (rq_ops rqs) (i # pre))) < 2 ^ 31 \<and>
    (\<not> t \<longrightarrow> concat (map (rq_ops rqs) (i # pre)) = rq_ops rqs i)"
proof -
  obtain s where b: "dw_batch (writer_at d i) = Some (batch_at s (rq_ops rqs i))" "fst (rqs ! i) \<noteq> None"
    using assms(2,3) by (auto simp: holds_request_def rq_ops_def split: option.splits)
  have "group_loop (writer_at d) (dw_sync (writer_at d i)) (group_limit (length (batch_at s (rq_ops rqs i)))) Batch_Clear
      (length (batch_at s (rq_ops rqs i))) True (batch_at s (rq_ops rqs i)) i ws = (t, res, lw)"
    using assms(6) by (simp add: BuildBatchGroup_def assms(1,4) b(1) Let_def del: batch_rep_header(6))
  from group_loop_in_place [where rqs = rqs, OF this _ le_refl] assms(2) obtain pre s'
    where pre: "prefix pre ws" "res = batch_at s' (rq_ops rqs i @ concat (map (rq_ops rqs) pre))" "lw = last (i # pre)"
      "if t then length res \<le> group_limit (length (batch_at s (rq_ops rqs i))) else concat (map (rq_ops rqs) pre) = []" by auto
  have "length (concat (map (rq_ops rqs) (i # pre))) < 2 ^ 31"
  proof (cases t)
    case True
    have "length (concat (map (rq_ops rqs) (i # pre))) \<le> length res"
      using length_op_bytes [of "concat (map (rq_ops rqs) (i # pre))"] by (simp add: pre(2))
    also have "\<dots> \<le> 2 ^ 20" using pre(4) True group_limit_le [of "length (batch_at s (rq_ops rqs i))"] by simp
    finally show ?thesis by simp
  next
    case False
    then have "concat (map (rq_ops rqs) (i # pre)) = rq_ops rqs i"
      using pre(4) by (simp only: list.map concat.simps if_False append_Nil2)
    moreover have "length (rq_ops rqs i) < 2 ^ 31" using assms(5) by simp
    ultimately show ?thesis by (simp only:)
  qed
  with pre show ?thesis by (intro exI [of _ pre] exI [of _ s']) (auto simp: assms(1))
qed

text \<open>A writer of a group when the group is popped.\<close>

definition finished :: "Status \<Rightarrow> nat \<Rightarrow> nat \<Rightarrow> db_writer \<Rightarrow> db_writer" where
  "finished st l j w = w\<lparr>dw_status := st, dw_done := True, dw_waiting := j = l \<and> dw_waiting w,
     dw_returned := j = l \<or> dw_returned w\<rparr>"

lemma finished_simps [simp]:
  "dw_batch (finished st l j w) = dw_batch w" "dw_sync (finished st l j w) = dw_sync w" "dw_done (finished st l j w)"
  "dw_status (finished st l j w) = st" "dw_waiting (finished st l j w) \<longleftrightarrow> j = l \<and> dw_waiting w"
  "dw_returned (finished st l j w) \<longleftrightarrow> j = l \<or> dw_returned w"
  by (simp_all add: finished_def)

lemma finish_writers_step:
  "finish_writers st l lw (j # ws) heap =
    (if j = lw then (ws, heap(j \<mapsto> finished st l j (the (heap j))))
     else finish_writers st l lw ws (heap(j \<mapsto> finished st l j (the (heap j)))))"
  by (simp add: Let_def cv_Signal_def finished_def)

lemma finish_writers_prefix:
  "ids \<noteq> [] \<Longrightarrow> distinct ids \<Longrightarrow> finish_writers st l (last ids) (ids @ ws) heap =
    (ws, \<lambda>j. if j \<in> set ids then Some (finished st l j (the (heap j))) else heap j)"
proof (induction ids arbitrary: heap)
  case (Cons i ids)
  show ?case
  proof (cases "ids = []")
    case True
    then show ?thesis by (auto simp: fun_eq_iff finish_writers_step simp del: finish_writers.simps)
  next
    case False
    then have "i \<noteq> last ids" using Cons.prems(2) by auto
    with False Cons show ?thesis by (auto simp: fun_eq_iff finish_writers_step simp del: finish_writers.simps)
  qed
qed simp

subsection \<open>The history of the groups\<close>

text \<open>Each group with the number of the last operation before it.\<close>

type_synonym history = "(nat \<times> nat list) list"

definition hist_entries :: "request list \<Rightarrow> history \<Rightarrow> mt_entry list" where
  "hist_entries rqs hist =
     concat (map (\<lambda>(n, ids). entries_of (word_of_nat n + 1) (concat (map (rq_ops rqs) ids))) hist)"

fun numbered :: "request list \<Rightarrow> nat \<Rightarrow> history \<Rightarrow> nat \<Rightarrow> bool" where
  "numbered rqs lo [] hi \<longleftrightarrow> lo \<le> hi"
| "numbered rqs lo ((n, ids) # hist) hi \<longleftrightarrow> lo \<le> n \<and> length (concat (map (rq_ops rqs) ids)) < 2 ^ 31 \<and>
     numbered rqs (n + length (concat (map (rq_ops rqs) ids))) hist hi"

lemma numbered_append:
  "numbered rqs lo (h @ [(n, ids)]) hi \<longleftrightarrow> numbered rqs lo h n \<and>
    length (concat (map (rq_ops rqs) ids)) < 2 ^ 31 \<and> n + length (concat (map (rq_ops rqs) ids)) \<le> hi"
  by (induction rqs lo h n rule: numbered.induct) auto

lemma numbered_mono: "numbered rqs lo h hi \<Longrightarrow> hi \<le> hi' \<Longrightarrow> numbered rqs lo h hi'"
  by (induction rqs lo h hi rule: numbered.induct) auto

text \<open>What is in the log when the file never fails: the groups with a batch.\<close>

definition group_logged :: "request list \<Rightarrow> nat \<times> nat list \<Rightarrow> bool" where
  "group_logged rqs = (\<lambda>(n, ids). \<exists>i\<in>set ids. fst (rqs ! i) \<noteq> None)"

definition log_records :: "request list \<Rightarrow> history \<Rightarrow> slice list" where
  "log_records rqs hist =
     map (\<lambda>(n, ids). batch_at (word_of_nat n + 1) (concat (map (rq_ops rqs) ids)))
       (filter (group_logged rqs) hist)"

definition io_reliable :: "file_io \<Rightarrow> (u8 list \<Rightarrow> bool) \<Rightarrow> (u8 list \<Rightarrow> bool) \<Rightarrow> bool" where
  "io_reliable wr fl sy \<longleftrightarrow> (\<forall>f s. wr f s = None) \<and> (\<forall>f. fl f) \<and> (\<forall>f. sy f)"

text \<open>The writers that are finished, in order, and the groups.\<close>

definition group_ok :: "request list \<Rightarrow> db \<Rightarrow> write_group \<Rightarrow> nat list \<Rightarrow> bool" where
  "group_ok rqs d g ids \<longleftrightarrow> ids \<noteq> [] \<and> fst (rqs ! hd ids) \<noteq> None \<and> prefix ids (db_writers d) \<and> wg_leader g = hd ids \<and> wg_last_writer g = last ids \<and>
     wg_updates g = batch_at (db_last_sequence d + 1) (concat (map (rq_ops rqs) ids)) \<and>
     wg_last_sequence g = db_last_sequence d + word_of_nat (length (concat (map (rq_ops rqs) ids))) \<and>
     length (concat (map (rq_ops rqs) ids)) < 2 ^ 31 \<and> (\<not> wg_tmp g \<longrightarrow> db_tmp_batch d = Batch_Clear)"

definition write_inv ::
  "file_io \<Rightarrow> (u8 list \<Rightarrow> bool) \<Rightarrow> (u8 list \<Rightarrow> bool) \<Rightarrow> (slice \<Rightarrow> slice \<Rightarrow> int) \<Rightarrow> request list \<Rightarrow> db \<Rightarrow> nat list \<Rightarrow> history \<Rightarrow> bool" where
  "write_inv wr fl sy cmp rqs d fin hist \<longleftrightarrow>
     distinct (fin @ db_writers d) \<and> set (fin @ db_writers d) = dom (db_heap d) \<and> dom (db_heap d) \<subseteq> {..<length rqs} \<and>
     (\<forall>i\<in>set (db_writers d). holds_request rqs i (writer_at d i) \<and> \<not> dw_done (writer_at d i)) \<and>
     (\<forall>i\<in>set fin. dw_done (writer_at d i)) \<and>
     concat (map snd hist) = filter (\<lambda>i. dw_status (writer_at d i) = OK) fin \<and>
     add_all cmp (hist_entries rqs hist) MemTable = Some (db_mem d) \<and>
     numbered rqs 0 hist (unat (db_last_sequence d)) \<and>
     unat (db_last_sequence d) \<le> length (concat (map (rq_ops rqs) fin)) \<and>
     (io_reliable wr fl sy \<longrightarrow> write_log wr fl (log_records rqs hist) (Writer [] 0) = Some (db_log d)) \<and>
     (case db_active d of None \<Rightarrow> db_tmp_batch d = Batch_Clear | Some g \<Rightarrow> \<exists>ids. group_ok rqs d g ids)"

definition requests_ok :: "slice set \<Rightarrow> request list \<Rightarrow> bool" where
  "requests_ok A rqs \<longleftrightarrow>
     (\<forall>i<length rqs. length (rq_ops rqs i) < 2 ^ 31 \<and> (\<forall>x\<in>set (rq_ops rqs i). op_fits x \<and> op_key x \<in> A)) \<and>
     (\<Sum>i<length rqs. length (rq_ops rqs i)) < 2 ^ 56"

subsection \<open>The invariant is kept\<close>

lemma requests_total:
  assumes "distinct xs" "set xs \<subseteq> {..<length rqs}" "requests_ok A rqs"
  shows "length (concat (map (rq_ops rqs) xs)) < 2 ^ 56"
proof -
  have "length (concat (map (rq_ops rqs) xs)) = (\<Sum>i\<in>set xs. length (rq_ops rqs i))"
    by (simp only: length_concat map_map o_def sum_list_distinct_conv_sum_set [OF assms(1)])
  also have "\<dots> \<le> (\<Sum>i<length rqs. length (rq_ops rqs i))" using assms(2) by (intro sum_mono2) auto
  finally show ?thesis using assms(3) by (simp add: requests_ok_def)
qed

lemma write_inv_init: "write_inv wr fl sy cmp rqs db_init [] []"
  by (auto simp: write_inv_def db_init_def hist_entries_def log_records_def)

lemma write_invD:
  assumes "write_inv wr fl sy cmp rqs d fin hist"
  shows "distinct (fin @ db_writers d)" "set (fin @ db_writers d) = dom (db_heap d)" "dom (db_heap d) \<subseteq> {..<length rqs}"
    "\<And>i. i \<in> set (db_writers d) \<Longrightarrow> holds_request rqs i (writer_at d i)"
    "\<And>i. i \<in> set (db_writers d) \<Longrightarrow> \<not> dw_done (writer_at d i)"
    "\<And>i. i \<in> set fin \<Longrightarrow> dw_done (writer_at d i)"
    "concat (map snd hist) = filter (\<lambda>i. dw_status (writer_at d i) = OK) fin"
    "add_all cmp (hist_entries rqs hist) MemTable = Some (db_mem d)"
    "numbered rqs 0 hist (unat (db_last_sequence d))"
    "unat (db_last_sequence d) \<le> length (concat (map (rq_ops rqs) fin))"
    "io_reliable wr fl sy \<longrightarrow> write_log wr fl (log_records rqs hist) (Writer [] 0) = Some (db_log d)"
    "db_active d = None \<Longrightarrow> db_tmp_batch d = Batch_Clear"
    "\<And>g. db_active d = Some g \<Longrightarrow> \<exists>ids. group_ok rqs d g ids"
  using assms unfolding write_inv_def by auto

lemma write_inv_total:
  assumes inv: "write_inv wr fl sy cmp rqs d fin hist" and "requests_ok A rqs"
  shows "length (concat (map (rq_ops rqs) fin)) < 2 ^ 56"
  by (rule requests_total [OF _ _ assms(2)]) (use write_invD(1-3) [OF inv] in auto)

lemma write_inv_enqueue:
  assumes inv: "write_inv wr fl sy cmp rqs d fin hist" and i: "i < length rqs" "db_heap d i = None"
  shows "write_inv wr fl sy cmp rqs (write_enqueue i (map_option batch_of (fst (rqs ! i))) (snd (rqs ! i)) d) fin hist"
proof -
  let ?d = "write_enqueue i (map_option batch_of (fst (rqs ! i))) (snd (rqs ! i)) d"
  have new: "i \<notin> set fin" "i \<notin> set (db_writers d)" using i(2) write_invD(2) [OF inv] by auto
  have same: "writer_at ?d j = writer_at d j" if "j \<noteq> i" for j using that by (simp add: write_enqueue_def Let_def)
  have "filter (\<lambda>j. dw_status (writer_at ?d j) = OK) fin = filter (\<lambda>j. dw_status (writer_at d j) = OK) fin"
  proof (intro filter_cong refl)
    fix j
    assume "j \<in> set fin"
    then have "j \<noteq> i" using new(1) by metis
    then show "(dw_status (writer_at ?d j) = OK) = (dw_status (writer_at d j) = OK)" by (simp only: same [OF \<open>j \<noteq> i\<close>])
  qed
  then have served: "concat (map snd hist) = filter (\<lambda>j. dw_status (writer_at ?d j) = OK) fin"
    using write_invD(7) [OF inv] by (simp only:)
  have fin_done: "dw_done (writer_at ?d j)" if "j \<in> set fin" for j
  proof -
    have "j \<noteq> i" using that new(1) by metis
    then show ?thesis using write_invD(6) [OF inv that] by (simp only: same [OF \<open>j \<noteq> i\<close>])
  qed
  have i_ok: "holds_request rqs i (writer_at ?d i)" "\<not> dw_done (writer_at ?d i)"
    by (auto simp: write_enqueue_def Let_def holds_request_def batch_of_rep split: option.splits)
  have wait: "holds_request rqs j (writer_at ?d j) \<and> \<not> dw_done (writer_at ?d j)" if "j \<in> set (db_writers d @ [i])" for j
  proof (cases "j = i")
    case True
    with i_ok show ?thesis by (simp only: simp_thms)
  next
    case False
    with that have "j \<in> set (db_writers d)" by simp
    then show ?thesis using write_invD(4,5) [OF inv] by (simp only: same [OF False] simp_thms)
  qed
  have active: "case db_active d of None \<Rightarrow> db_tmp_batch d = Batch_Clear | Some g \<Rightarrow> \<exists>ids. group_ok rqs ?d g ids"
  proof (cases "db_active d")
    case None
    with write_invD(12) [OF inv] show ?thesis by simp
  next
    case (Some g)
    with write_invD(13) [OF inv Some] obtain ids where "group_ok rqs d g ids" by blast
    then have "group_ok rqs ?d g ids" by (simp add: group_ok_def write_enqueue_def Let_def prefix_prefix)
    with Some show ?thesis by auto
  qed
  have eqs: "db_writers ?d = db_writers d @ [i]" "db_mem ?d = db_mem d" "db_last_sequence ?d = db_last_sequence d"
    "db_active ?d = db_active d" "db_tmp_batch ?d = db_tmp_batch d" "db_log ?d = db_log d" "dom (db_heap ?d) = insert i (dom (db_heap d))"
    by (auto simp: write_enqueue_def Let_def)
  have "distinct (fin @ db_writers d @ [i])" "set (fin @ db_writers d @ [i]) = insert i (dom (db_heap d))"
    "insert i (dom (db_heap d)) \<subseteq> {..<length rqs}"
    using write_invD(1-3) [OF inv] i new by auto
  then show ?thesis
    unfolding write_inv_def eqs using served fin_done wait active write_invD(8-11) [OF inv] by blast
qed

text \<open>Finishing a prefix of the queue.\<close>

lemma pop_group_eq:
  assumes "db_writers d = ids @ ws" "ids \<noteq> []" "distinct ids"
  shows "pop_group st l (last ids) d = d\<lparr>db_writers := ws, db_heap :=
    (let heap = (\<lambda>j. if j \<in> set ids then Some (finished st l j (writer_at d j)) else db_heap d j)
     in if ws \<noteq> [] then cv_Signal (hd ws) heap else heap)\<rparr>"
  by (simp add: pop_group_def assms finish_writers_prefix)

lemma cv_Signal_simps [simp]:
  "dom (cv_Signal i heap) = dom heap" "j \<noteq> i \<Longrightarrow> cv_Signal i heap j = heap j"
  "dw_batch (the (cv_Signal i heap j)) = dw_batch (the (heap j))" "dw_sync (the (cv_Signal i heap j)) = dw_sync (the (heap j))"
  "dw_done (the (cv_Signal i heap j)) = dw_done (the (heap j))" "dw_status (the (cv_Signal i heap j)) = dw_status (the (heap j))"
  by (cases "heap j"; force simp: cv_Signal_def)+

lemma pop_group_heap:
  assumes "db_writers d = ids @ ws" "ids \<noteq> []" "distinct (ids @ ws)"
  shows "\<And>j. j \<in> set ids \<Longrightarrow> db_heap (pop_group st l (last ids) d) j = Some (finished st l j (writer_at d j))"
    "\<And>j. j \<notin> set ids \<Longrightarrow> dw_batch (writer_at (pop_group st l (last ids) d) j) = dw_batch (writer_at d j)"
    "\<And>j. j \<notin> set ids \<Longrightarrow> dw_sync (writer_at (pop_group st l (last ids) d) j) = dw_sync (writer_at d j)"
    "\<And>j. j \<notin> set ids \<Longrightarrow> dw_done (writer_at (pop_group st l (last ids) d) j) = dw_done (writer_at d j)"
    "\<And>j. j \<notin> set ids \<Longrightarrow> dw_status (writer_at (pop_group st l (last ids) d) j) = dw_status (writer_at d j)"
    "dom (db_heap (pop_group st l (last ids) d)) = set ids \<union> dom (db_heap d)"
proof -
  have "distinct ids" using assms(3) by simp
  note eq = pop_group_eq [OF assms(1,2) this, of st l]
  fix j
  assume j: "j \<in> set ids"
  then have "ws = [] \<or> j \<noteq> hd ws" using assms(3) by (cases ws) auto
  with j show "db_heap (pop_group st l (last ids) d) j = Some (finished st l j (writer_at d j))"
    unfolding eq by (auto simp: Let_def)
qed (auto simp: pop_group_eq [OF assms(1,2)] Let_def assms(3) [simplified])

lemma write_inv_pop:
  assumes inv: "write_inv wr fl sy cmp rqs d fin hist" and ids: "db_writers d = ids @ ws" "ids \<noteq> []"
    and d': "db_mem d' = mem" "db_log d' = log" "db_last_sequence d' = s" "db_active d' = None" "db_tmp_batch d' = Batch_Clear"
      "db_writers d' = db_writers d" "db_heap d' = db_heap d"
    and hist': "if st = OK then hist' = hist @ [(n, ids)] else hist' = hist"
    and mem: "add_all cmp (hist_entries rqs hist') MemTable = Some mem"
    and log: "io_reliable wr fl sy \<longrightarrow> write_log wr fl (log_records rqs hist') (Writer [] 0) = Some log"
    and seq: "numbered rqs 0 hist' (unat s)" "unat s \<le> unat (db_last_sequence d) + length (concat (map (rq_ops rqs) ids))"
  shows "write_inv wr fl sy cmp rqs (pop_group st l (last ids) d') (fin @ ids) hist' \<and>
    (fin @ ids) @ db_writers (pop_group st l (last ids) d') = fin @ db_writers d \<and> prefix fin (fin @ ids) \<and> prefix hist hist'"
proof -
  let ?d = "pop_group st l (last ids) d'"
  have dist: "distinct ids" "set ids \<inter> set fin = {}" "set ids \<inter> set ws = {}" and all_dist: "distinct (ids @ ws)"
    using write_invD(1) [OF inv] unfolding ids(1) by auto
  have q: "db_writers d' = ids @ ws" using d'(6) ids(1) by simp
  have pop: "db_writers ?d = ws" "db_active ?d = None" "db_tmp_batch ?d = Batch_Clear" "db_mem ?d = mem" "db_log ?d = log" "db_last_sequence ?d = s"
    using pop_group_eq [OF q ids(2) dist(1), of st] d' by simp_all
  note heap = pop_group_heap [OF q ids(2) all_dist, where st = st and l = l, unfolded d'(7)]
  have "filter (\<lambda>i. dw_status (writer_at ?d i) = OK) fin = filter (\<lambda>i. dw_status (writer_at d i) = OK) fin"
  proof (intro filter_cong refl)
    fix j
    assume "j \<in> set fin"
    then have "j \<notin> set ids" using dist(2) by blast
    then show "(dw_status (writer_at ?d j) = OK) = (dw_status (writer_at d j) = OK)" by (simp only: heap(5) [OF \<open>j \<notin> set ids\<close>])
  qed
  moreover have "filter (\<lambda>i. dw_status (writer_at ?d i) = OK) ids = (if st = OK then ids else [])"
    using heap(1) by (auto simp: filter_id_conv filter_empty_conv)
  ultimately have served: "concat (map snd hist') = filter (\<lambda>i. dw_status (writer_at ?d i) = OK) (fin @ ids)"
    using hist' write_invD(7) [OF inv] by (auto split: if_splits)
  have "set ids \<subseteq> dom (db_heap d)" using write_invD(2) [OF inv] unfolding ids(1) by auto
  then have dom: "dom (db_heap ?d) = dom (db_heap d)" unfolding heap(6) by blast
  have fin_done: "dw_done (writer_at ?d i)" if "i \<in> set (fin @ ids)" for i
    using that heap(1,4) write_invD(6) [OF inv] by (cases "i \<in> set ids") auto
  have wait: "holds_request rqs i (writer_at ?d i)" "\<not> dw_done (writer_at ?d i)" if "i \<in> set ws" for i
  proof -
    have "i \<notin> set ids" "i \<in> set (db_writers d)" using that dist(3) unfolding ids(1) by auto
    with write_invD(4,5) [OF inv] show "holds_request rqs i (writer_at ?d i)" "\<not> dw_done (writer_at ?d i)"
      by (simp_all only: holds_request_def heap(2-4) [OF \<open>i \<notin> set ids\<close>] simp_thms)
  qed
  have "unat s \<le> length (concat (map (rq_ops rqs) (fin @ ids)))" using seq(2) write_invD(10) [OF inv] by simp
  moreover have "distinct ((fin @ ids) @ ws)" "set ((fin @ ids) @ ws) = dom (db_heap d)" "dom (db_heap d) \<subseteq> {..<length rqs}"
    using write_invD(1-3) [OF inv] by (simp_all add: ids(1))
  ultimately have "write_inv wr fl sy cmp rqs ?d (fin @ ids) hist'"
    unfolding write_inv_def pop option.case dom using served fin_done wait mem log seq(1) by blast
  moreover have "prefix hist hist'" using hist' by (auto split: if_splits)
  ultimately show ?thesis by (simp add: pop(1) ids(1))
qed

lemma scast_count: "n < 2 ^ 31 \<Longrightarrow> (scast (word_of_nat n :: u32) :: u64) = word_of_nat n"
  unfolding scast_eq by (simp only: sint_word_of_nat of_int_of_nat_eq)

lemma write_inv_active:
  assumes inv: "write_inv wr fl sy cmp rqs d fin hist"
    and d': "db_writers d' = db_writers d" "db_mem d' = db_mem d" "db_last_sequence d' = db_last_sequence d" "db_log d' = db_log d"
      "dom (db_heap d') = dom (db_heap d)" "\<And>j. dw_done (writer_at d' j) = dw_done (writer_at d j)"
      "\<And>j. dw_status (writer_at d' j) = dw_status (writer_at d j)"
    and hold: "\<And>j. j \<in> set (db_writers d) \<Longrightarrow> holds_request rqs j (writer_at d' j)"
    and g: "db_active d' = Some g" "group_ok rqs d' g ids"
  shows "write_inv wr fl sy cmp rqs d' fin hist"
  unfolding write_inv_def d' g(1) option.case using write_invD(1-11) [OF inv] hold g(2) by blast

lemma numbered_hi: "numbered rqs lo h hi \<Longrightarrow> lo \<le> hi"
  by (induction rqs lo h hi rule: numbered.induct) auto

lemma write_inv_start:
  assumes inv: "write_inv wr fl sy cmp rqs d fin hist" and rq: "requests_ok A rqs"
    and d: "db_active d = None" "db_writers d \<noteq> []"
  shows "\<exists>fin' hist'. write_inv wr fl sy cmp rqs (write_start status d) fin' hist' \<and>
    fin' @ db_writers (write_start status d) = fin @ db_writers d \<and> prefix fin fin' \<and> prefix hist hist'"
proof -
  obtain i ws where q: "db_writers d = i # ws" using d(2) by (cases "db_writers d") auto
  have hold: "\<forall>j\<in>set (i # ws). holds_request rqs j (writer_at d j)" using write_invD(4) [OF inv] q by simp
  have tmp: "db_tmp_batch d = Batch_Clear" using write_invD(12) [OF inv d(1)] .
  show ?thesis
  proof (cases "status = OK \<and> dw_batch (writer_at d i) \<noteq> None")
    case False
    have no_batch: "rq_ops rqs i = [] \<and> fst (rqs ! i) = None" if "status = OK"
      using False that hold by (auto simp: holds_request_def rq_ops_def split: option.splits)
    then have "\<exists>hist'. (if status = OK then hist' = hist @ [(unat (db_last_sequence d), [i])] else hist' = hist) \<and>
        add_all cmp (hist_entries rqs hist') MemTable = Some (db_mem d) \<and>
        (io_reliable wr fl sy \<longrightarrow> write_log wr fl (log_records rqs hist') (Writer [] 0) = Some (db_log d)) \<and>
        numbered rqs 0 hist' (unat (db_last_sequence d))"
      using write_invD(8,9,11) [OF inv] no_batch
      by (cases "status = OK") (auto simp: hist_entries_def numbered_append log_records_def group_logged_def)
    then obtain hist' where h: "if status = OK then hist' = hist @ [(unat (db_last_sequence d), [i])] else hist' = hist"
      "add_all cmp (hist_entries rqs hist') MemTable = Some (db_mem d)"
      "io_reliable wr fl sy \<longrightarrow> write_log wr fl (log_records rqs hist') (Writer [] 0) = Some (db_log d)"
      "numbered rqs 0 hist' (unat (db_last_sequence d))" by blast
    have "write_inv wr fl sy cmp rqs (pop_group status i (last [i]) d) (fin @ [i]) hist' \<and>
        (fin @ [i]) @ db_writers (pop_group status i (last [i]) d) = fin @ db_writers d \<and> prefix fin (fin @ [i]) \<and> prefix hist hist'"
      by (rule write_inv_pop [OF inv _ _ refl refl refl d(1) tmp refl refl h]) (simp_all add: q)
    moreover have "write_start status d = pop_group status i (last [i]) d"
      unfolding write_start_def q list.sel Let_def if_not_P [OF False] by simp
    ultimately show ?thesis by metis
  next
    case True
    obtain t res lw where b: "BuildBatchGroup d = (t, res, lw)" by (metis prod_cases3)
    have "\<forall>j\<in>set (i # ws). length (rq_ops rqs j) < 2 ^ 31"
      using rq write_invD(2,3) [OF inv] unfolding q requests_ok_def by auto
    from BuildBatchGroup_ops [OF q hold conjunct2 [OF True] tmp this b] obtain pre s
      where g: "prefix (i # pre) (db_writers d)" "res = batch_at s (concat (map (rq_ops rqs) (i # pre)))" "lw = last (i # pre)"
        "length (concat (map (rq_ops rqs) (i # pre))) < 2 ^ 31"
        "\<not> t \<longrightarrow> concat (map (rq_ops rqs) (i # pre)) = rq_ops rqs i" by blast
    define ops where "ops = concat (map (rq_ops rqs) (i # pre))"
    let ?u = "batch_at (db_last_sequence d + 1) ops"
    let ?g = "\<lparr>wg_leader = i, wg_tmp = t, wg_updates = ?u,
      wg_last_sequence = db_last_sequence d + word_of_nat (length ops), wg_last_writer = last (i # pre)\<rparr>"
    let ?d = "d\<lparr>db_tmp_batch := (if t then ?u else db_tmp_batch d),
      db_heap := (if t then db_heap d else (db_heap d)(i \<mapsto> (writer_at d i)\<lparr>dw_batch := Some ?u\<rparr>)),
      db_active := Some ?g\<rparr>"
    have ops: "length ops < 2 ^ 31" "res = batch_at s ops" "\<not> t \<longrightarrow> ops = rq_ops rqs i" using g by (simp_all only: ops_def)
    have eq: "write_start status d = ?d"
      unfolding write_start_def q list.sel Let_def b prod.case if_P [OF True] ops(2) batch_rep_header(2,3)
        scast_count [OF ops(1)] g(3) by simp
    have batch: "fst (rqs ! i) \<noteq> None" using hold True by (auto simp: holds_request_def split: option.splits)
    have "group_ok rqs ?d ?g (i # pre)" unfolding group_ok_def ops_def [symmetric] using g(1) ops(1) tmp batch by simp
    moreover have "i \<in> dom (db_heap d)" using write_invD(2) [OF inv] q by auto
    then have "dom (db_heap ?d) = dom (db_heap d)" by auto
    moreover have "holds_request rqs i (writer_at ?d i)"
    proof (cases t)
      case False
      with ops(3) True hold show ?thesis by (auto simp: holds_request_def rq_ops_def split: option.splits)
    qed (use hold in simp)
    then have "holds_request rqs j (writer_at ?d j)" if "j \<in> set (db_writers d)" for j
      using write_invD(4) [OF inv that] by auto
    ultimately have "write_inv wr fl sy cmp rqs ?d fin hist"
      by (intro write_inv_active [OF inv, of ?d]) (auto simp del: concat.simps)
    moreover have "db_writers ?d = db_writers d" by simp
    ultimately show ?thesis unfolding eq by (metis prefix_order.refl)
  qed
qed

lemma add_record_loop_reliable:
  "\<forall>f s. wr f s = None \<Longrightarrow> \<forall>f. fl f \<Longrightarrow> lw_type_crc w = InitTypeCrc \<Longrightarrow> lw_block_offset w \<le> kBlockSize \<Longrightarrow>
    \<exists>w'. add_record_loop wr fl b p w = (True, w')"
proof (induction wr fl b p w rule: add_record_loop.induct)
  case (1 wr fl b p w)
  let ?n = "min (length p) (block_avail (lw_block_offset w))"
  let ?bs = "fragment_bytes (lw_block_offset w) (fragment_type b (length p = ?n)) (take ?n p)"
  let ?w = "w\<lparr>lw_dest := lw_dest w @ ?bs, lw_block_offset := block_start (lw_block_offset w) + (7 + ?n)\<rparr>"
  have a: "add_fragment wr fl b p w = (True, drop ?n p, ?w)"
    using add_fragment_ok [where wr = wr and fl = fl and b = b and p = p and w = w, OF 1(2) [rule_format] 1(4,5) refl refl] 1(3) by simp
  have "block_start (lw_block_offset w) + (7 + ?n) \<le> kBlockSize" using block_start_room [OF 1(5)] by simp
  then have "drop ?n p \<noteq> [] \<Longrightarrow> \<exists>w'. add_record_loop wr fl False (drop ?n p) ?w = (True, w')"
    by (intro 1(1) [OF a [symmetric] refl]) (use 1 in simp_all)
  with a show ?case by (auto simp: add_record_loop.simps [of wr])
qed

lemma write_log_append:
  "write_log wr fl (ps @ qs) w = Option.bind (write_log wr fl ps w) (write_log wr fl qs)"
  by (induction ps arbitrary: w) (auto split: prod.splits)

lemma write_log_writer:
  "\<forall>f s. wr f s = None \<Longrightarrow> write_log wr fl ps w = Some w' \<Longrightarrow> lw_type_crc w = InitTypeCrc \<Longrightarrow>
    lw_block_offset w \<le> kBlockSize \<Longrightarrow> lw_type_crc w' = InitTypeCrc \<and> lw_block_offset w' \<le> kBlockSize"
proof (induction ps arbitrary: w)
  case (Cons p ps)
  from Cons.prems(2) obtain w1 where w1: "AddRecord wr fl p w = (True, w1)" "write_log wr fl ps w1 = Some w'"
    by (auto split: prod.splits if_splits)
  obtain bs where "fragments True (lw_block_offset w) p bs (lw_block_offset w1)" "lw_type_crc w1 = InitTypeCrc"
    using add_record_loop_fragments [OF Cons.prems(1,3,4) w1(1) [unfolded AddRecord_def]] by blast
  with Cons.IH [OF Cons.prems(1) w1(2)] fragments_off [OF _ Cons.prems(4)] show ?case by blast
qed simp

lemma write_log_snoc:
  assumes "\<forall>f s. wr f s = None" "\<forall>f. fl f" "write_log wr fl ps (Writer [] 0) = Some w"
  shows "fst (AddRecord wr fl p w) \<and> write_log wr fl (ps @ [p]) (Writer [] 0) = Some (snd (AddRecord wr fl p w))"
proof -
  have "lw_type_crc w = InitTypeCrc" "lw_block_offset w \<le> kBlockSize"
    using write_log_writer [OF assms(1,3)] by (simp_all add: Writer_def)
  from add_record_loop_reliable [OF assms(1,2) this] obtain w' where "AddRecord wr fl p w = (True, w')"
    unfolding AddRecord_def by blast
  then show ?thesis by (simp add: write_log_append assms(3))
qed

lemma write_inv_finish:
  assumes inv: "write_inv wr fl sy cmp rqs d fin hist" and rq: "requests_ok A rqs"
    and g: "db_active d = Some g" and run: "write_finish wr fl sy cmp g d = Some d'"
  shows "\<exists>fin' hist'. write_inv wr fl sy cmp rqs d' fin' hist' \<and> fin' @ db_writers d' = fin @ db_writers d \<and>
    prefix fin fin' \<and> prefix hist hist'"
proof -
  obtain ids where ids: "group_ok rqs d g ids" using write_invD(13) [OF inv g] by blast
  define ops where "ops = concat (map (rq_ops rqs) ids)"
  note G = ids [unfolded group_ok_def ops_def [symmetric]]
  obtain ws where q: "db_writers d = ids @ ws" using G by (auto simp: prefix_def)
  have fits: "\<forall>x\<in>set ops. op_fits x"
    using rq write_invD(2,3) [OF inv] unfolding ops_def q requests_ok_def by auto
  have insert: "InsertInto cmp (wg_updates g) (db_mem d) = (OK, map_option (Pair (db_last_sequence d + 1 + word_of_nat (length ops)))
      (add_all cmp (entries_of (db_last_sequence d + 1) ops) (db_mem d)))"
    using G fits by (simp add: InsertInto_rep)
  obtain ok log where al: "AddRecord wr fl (wg_updates g) (db_log d) = (ok, log)" by (metis prod.collapse)
  obtain st mem d0 where d0: "d' = pop_group st (wg_leader g) (last ids) d0" "db_mem d0 = mem" "db_log d0 = log"
      "db_last_sequence d0 = wg_last_sequence g" "db_active d0 = None" "db_tmp_batch d0 = Batch_Clear"
      "db_writers d0 = db_writers d" "db_heap d0 = db_heap d"
    and st: "if st = OK then add_all cmp (entries_of (db_last_sequence d + 1) ops) (db_mem d) = Some mem else mem = db_mem d"
    and io: "io_reliable wr fl sy \<longrightarrow> ok \<longrightarrow> st = OK"
  proof -
    have tmp: "\<not> wg_tmp g \<longrightarrow> db_tmp_batch d = Batch_Clear" "wg_last_writer g = last ids" using G by simp_all
    define do_sync where "do_sync = (io_status ok = OK \<and> dw_sync (writer_at d (wg_leader g)))"
    define status where "status = (if do_sync then io_status (sy (lw_dest log)) else io_status ok)"
    define inserted where "inserted =
      (if status = OK then map_prod id (map_option snd) (InsertInto cmp (wg_updates g) (db_mem d)) else (status, Some (db_mem d)))"
    define E where "E st mem = (let d = d\<lparr>db_log := log, db_mem := mem\<rparr>;
        d = (if do_sync \<and> \<not> sy (lw_dest log) then RecordBackgroundError st d else d);
        d = (if wg_tmp g then d\<lparr>db_tmp_batch := Batch_Clear\<rparr> else d)
      in d\<lparr>db_last_sequence := wg_last_sequence g, db_active := None\<rparr>)" for st mem
    have "map_option (\<lambda>mem. pop_group (fst inserted) (wg_leader g) (wg_last_writer g) (E (fst inserted) mem)) (snd inserted) = Some d'"
      using run unfolding write_finish_def al Let_def prod.case E_def inserted_def status_def do_sync_def
      by (simp only: case_prod_beta)
    then obtain mem where mem: "snd inserted = Some mem" "d' = pop_group (fst inserted) (wg_leader g) (last ids) (E (fst inserted) mem)"
      using tmp(2) by auto
    have E: "db_mem (E st mem) = mem" "db_log (E st mem) = log" "db_last_sequence (E st mem) = wg_last_sequence g"
      "db_active (E st mem) = None" "db_tmp_batch (E st mem) = Batch_Clear" "db_writers (E st mem) = db_writers d"
      "db_heap (E st mem) = db_heap d" for st
      using tmp(1) by (auto simp: E_def Let_def RecordBackgroundError_def)
    have "if fst inserted = OK then add_all cmp (entries_of (db_last_sequence d + 1) ops) (db_mem d) = Some mem else mem = db_mem d"
      using mem(1) by (auto simp: inserted_def insert)
    moreover have "io_reliable wr fl sy \<longrightarrow> ok \<longrightarrow> fst inserted = OK"
      by (auto simp: inserted_def insert status_def io_status_def io_reliable_def)
    ultimately show thesis by (rule that [OF mem(2) E])
  qed
  define n where "n = unat (db_last_sequence d)"
  define hist' where "hist' = (if st = OK then hist @ [(n, ids)] else hist)"
  have "distinct (fin @ ids)" "set (fin @ ids) \<subseteq> {..<length rqs}"
    using write_invD(1-3) [OF inv] unfolding q by auto
  from requests_total [OF this rq] have less: "n + length ops < 2 ^ 56"
    using write_invD(10) [OF inv] by (simp add: n_def ops_def)
  have seq: "wg_last_sequence g = word_of_nat (n + length ops)" "unat (wg_last_sequence g) = n + length ops"
  proof -
    show *: "wg_last_sequence g = word_of_nat (n + length ops)" using G by (simp add: n_def)
    show "unat (wg_last_sequence g) = n + length ops" unfolding * by (rule unat_word_of_nat_less) (use less in simp)
  qed
  have mem: "add_all cmp (hist_entries rqs hist') MemTable = Some mem"
    using st write_invD(8) [OF inv]
    by (cases "st = OK") (simp_all add: hist'_def hist_entries_def add_all_append n_def ops_def)
  have small: "length ops < 2 ^ 31" using G by simp
  have num: "numbered rqs 0 hist' (unat (wg_last_sequence g))"
    using numbered_mono [OF write_invD(9) [OF inv], of "n + length ops"] write_invD(9) [OF inv] small
    by (cases "st = OK") (simp_all add: hist'_def numbered_append seq(2) n_def [symmetric] ops_def [symmetric])
  have log: "io_reliable wr fl sy \<longrightarrow> write_log wr fl (log_records rqs hist') (Writer [] 0) = Some log"
  proof
    assume rel: "io_reliable wr fl sy"
    then have "write_log wr fl (log_records rqs hist) (Writer [] 0) = Some (db_log d)" using write_invD(11) [OF inv] by blast
    note app = write_log_snoc [OF _ _ this, of "wg_updates g"]
    have rel': "\<forall>f s. wr f s = None" "\<forall>f. fl f" using rel by (auto simp: io_reliable_def)
    have ok using app [OF rel'] by (simp add: al)
    then have "st = OK" using io rel by blast
    moreover have logged: "group_logged rqs (n, ids)" using G by (auto simp: group_logged_def intro: bexI [of _ "hd ids"])
    ultimately have rec: "log_records rqs hist' = log_records rqs hist @ [wg_updates g]"
      using G by (simp add: hist'_def log_records_def n_def ops_def logged)
    then show "write_log wr fl (log_records rqs hist') (Writer [] 0) = Some log"
      using app [OF rel'] rec by (simp add: al)
  qed
  have "write_inv wr fl sy cmp rqs (pop_group st (wg_leader g) (last ids) d0) (fin @ ids) hist' \<and>
      (fin @ ids) @ db_writers (pop_group st (wg_leader g) (last ids) d0) = fin @ db_writers d \<and> prefix fin (fin @ ids) \<and> prefix hist hist'"
  proof (rule write_inv_pop [OF inv q _ d0(2-8) _ mem log num])
    show "ids \<noteq> []" using G by simp
    show "if st = OK then hist' = hist @ [(n, ids)] else hist' = hist" by (simp add: hist'_def)
    show "unat (wg_last_sequence g) \<le> unat (db_last_sequence d) + length (concat (map (rq_ops rqs) ids))"
      unfolding seq(2) n_def ops_def by simp
  qed
  with d0(1) show ?thesis by blast
qed

text \<open>Waiting, waking up and returning change nothing that the invariant speaks of.\<close>

lemma write_inv_heap:
  assumes inv: "write_inv wr fl sy cmp rqs d fin hist" and dom: "dom heap = dom (db_heap d)"
    and same: "\<And>j. dw_batch (the (heap j)) = dw_batch (writer_at d j)" "\<And>j. dw_sync (the (heap j)) = dw_sync (writer_at d j)"
      "\<And>j. dw_done (the (heap j)) = dw_done (writer_at d j)" "\<And>j. dw_status (the (heap j)) = dw_status (writer_at d j)"
  shows "write_inv wr fl sy cmp rqs (d\<lparr>db_heap := heap\<rparr>) fin hist"
proof -
  have "holds_request rqs j (the (heap j)) = holds_request rqs j (writer_at d j)" for j
    by (simp only: holds_request_def same)
  moreover have "group_ok rqs (d\<lparr>db_heap := heap\<rparr>) g = group_ok rqs d g" for g by (simp add: group_ok_def fun_eq_iff)
  ultimately show ?thesis using inv by (cases "db_active d") (simp_all add: write_inv_def dom same)
qed

lemma update_writer:
  assumes "\<And>w. dw_batch (f w) = dw_batch w" "\<And>w. dw_sync (f w) = dw_sync w" "\<And>w. dw_done (f w) = dw_done w"
    "\<And>w. dw_status (f w) = dw_status w"
  shows "dom (heap(i := map_option f (heap i))) = dom heap"
    "dw_batch (the ((heap(i := map_option f (heap i))) j)) = dw_batch (the (heap j))"
    "dw_sync (the ((heap(i := map_option f (heap i))) j)) = dw_sync (the (heap j))"
    "dw_done (the ((heap(i := map_option f (heap i))) j)) = dw_done (the (heap j))"
    "dw_status (the ((heap(i := map_option f (heap i))) j)) = dw_status (the (heap j))"
  by (cases "heap i"; auto simp: assms)+

lemma write_step_inv:
  assumes rq: "requests_ok A rqs" and inv: "write_inv wr fl sy cmp rqs d fin hist"
    and step: "write_step wr fl sy cmp rqs d e d'"
  shows "\<exists>fin' hist'. write_inv wr fl sy cmp rqs d' fin' hist' \<and> fin' @ db_writers d' = (fin @ db_writers d) @ entering e \<and>
    prefix fin fin' \<and> prefix hist hist'"
  using step
proof cases
  case (enqueue i)
  have "write_inv wr fl sy cmp rqs d' fin hist"
    unfolding enqueue(2) by (rule write_inv_enqueue [OF inv enqueue(3,4)])
  moreover have "fin @ db_writers d' = (fin @ db_writers d) @ entering e" by (simp add: enqueue(1,2) write_enqueue_def Let_def)
  ultimately show ?thesis by blast
next
  case (spurious i w)
  have "write_inv wr fl sy cmp rqs d' fin hist" unfolding spurious(2) by (rule write_inv_heap [OF inv]) simp_all
  then show ?thesis using spurious(1,2) by auto
next
  case (wait i w)
  have "write_inv wr fl sy cmp rqs d' fin hist"
    unfolding wait(2) write_wait_def by (rule write_inv_heap [OF inv]; rule update_writer) simp_all
  then show ?thesis using wait(1,2) by (auto simp: write_wait_def)
next
  case (return i w)
  have "write_inv wr fl sy cmp rqs d' fin hist"
    unfolding return(2) write_return_def by (rule write_inv_heap [OF inv]; rule update_writer) simp_all
  then show ?thesis using return(1,2) by (auto simp: write_return_def)
next
  case (start status)
  then show ?thesis using write_inv_start [OF inv rq start(3,4), of status] by auto
next
  case (finish g)
  then show ?thesis using write_inv_finish [OF inv rq finish(2,3)] by auto
qed

lemma write_reach_inv:
  assumes rq: "requests_ok A rqs" and "write_reach wr fl sy cmp rqs entered d"
  shows "\<exists>fin hist. write_inv wr fl sy cmp rqs d fin hist \<and> fin @ db_writers d = entered"
  using assms(2)
proof induction
  case init
  then show ?case using write_inv_init [of wr fl sy cmp rqs] by (auto simp: db_init_def)
next
  case (step entered d e d')
  then show ?case using write_step_inv [OF rq _ step.hyps(2)] by blast
qed

text \<open>The writes that have returned OK, in the order in which their threads entered, and the last
  operation of a list of writes on a key.\<close>

definition acked :: "nat list \<Rightarrow> db \<Rightarrow> nat list" where
  "acked entered d = filter (\<lambda>i. dw_done (writer_at d i) \<and> dw_status (writer_at d i) = OK) entered"

definition last_result :: "request list \<Rightarrow> slice \<Rightarrow> nat list \<Rightarrow> get_result" where
  "last_result rqs u ids =
     (case filter (\<lambda>x. op_key x = u) (concat (map (rq_ops rqs) ids)) of [] \<Rightarrow> Absent | xs \<Rightarrow> op_result (last xs))"

lemma write_inv_acked:
  assumes inv: "write_inv wr fl sy cmp rqs d fin hist"
  shows "concat (map snd hist) = acked (fin @ db_writers d) d"
proof -
  have "filter (\<lambda>i. dw_done (writer_at d i) \<and> dw_status (writer_at d i) = OK) (db_writers d) = []"
    using write_invD(5) [OF inv] by (auto simp: filter_empty_conv)
  moreover have "filter (\<lambda>i. dw_done (writer_at d i) \<and> dw_status (writer_at d i) = OK) fin =
      filter (\<lambda>i. dw_status (writer_at d i) = OK) fin"
    using write_invD(6) [OF inv] by (intro filter_cong) auto
  ultimately show ?thesis using write_invD(7) [OF inv] by (simp add: acked_def)
qed

subsection \<open>What a read sees\<close>

lemma entries_of_seq:
  "unat s + length xs < 2 ^ 64 \<Longrightarrow> e \<in> set (entries_of s xs) \<Longrightarrow>
    unat s \<le> unat (ik_sequence (fst e)) \<and> unat (ik_sequence (fst e)) < unat s + length xs"
proof (induction xs arbitrary: s)
  case (Cons x xs)
  have "unat (s + 1) = unat s + 1" using Cons.prems(1) by (simp add: unat_word_ariths)
  moreover have "ik_sequence (fst (op_entry s x)) = s" by (cases x) simp_all
  ultimately show ?case using Cons.prems Cons.IH [of "s + 1"] by (cases "e = op_entry s x") auto
qed simp

lemma entries_of_sorted:
  "unat s + length xs < 2 ^ 64 \<Longrightarrow> sorted_wrt (\<lambda>a b. ik_sequence (fst a) < ik_sequence (fst b)) (entries_of s xs)"
proof (induction xs arbitrary: s)
  case (Cons x xs)
  have s1: "unat (s + 1) = unat s + 1" using Cons.prems by (simp add: unat_word_ariths)
  have "s < ik_sequence (fst e)" if "e \<in> set (entries_of (s + 1) xs)" for e
    using entries_of_seq [OF _ that] Cons.prems s1 by (simp add: word_less_nat_alt)
  moreover have "ik_sequence (fst (op_entry s x)) = s" by (cases x) simp_all
  ultimately show ?case using Cons.IH [of "s + 1"] Cons.prems s1 by simp
qed simp

lemma hist_entries_sorted:
  "numbered rqs lo hist hi \<Longrightarrow> hi < 2 ^ 56 \<Longrightarrow>
    sorted_wrt (\<lambda>a b. ik_sequence (fst a) < ik_sequence (fst b)) (hist_entries rqs hist) \<and>
    (\<forall>e\<in>set (hist_entries rqs hist). lo < unat (ik_sequence (fst e)) \<and> unat (ik_sequence (fst e)) \<le> hi)"
proof (induction rqs lo hist hi rule: numbered.induct)
  case (2 rqs lo n ids hist hi)
  let ?xs = "concat (map (rq_ops rqs) ids)"
  have le: "n + length ?xs \<le> hi" using 2 numbered_hi by auto
  have n: "unat (word_of_nat n + 1 :: u64) = n + 1"
  proof -
    have "unat (word_of_nat (n + 1) :: u64) = n + 1" by (rule unat_word_of_nat_less) (use le 2 in simp)
    then show ?thesis by (simp add: add.commute)
  qed
  have here: "n < unat (ik_sequence (fst e)) \<and> unat (ik_sequence (fst e)) \<le> n + length ?xs"
    if "e \<in> set (entries_of (word_of_nat n + 1) ?xs)" for e
    using entries_of_seq [OF _ that] n le 2(3) by auto
  moreover have "sorted_wrt (\<lambda>a b. ik_sequence (fst a) < ik_sequence (fst b)) (entries_of (word_of_nat n + 1) ?xs)"
    by (rule entries_of_sorted) (use n le 2(3) in simp)
  moreover have "hist_entries rqs ((n, ids) # hist) = entries_of (word_of_nat n + 1) ?xs @ hist_entries rqs hist"
    by (simp add: hist_entries_def)
  ultimately show ?case using 2 le by (fastforce simp: sorted_wrt_append word_less_nat_alt)
qed (simp add: hist_entries_def)

lemma filter_entries_of:
  "map entry_result (filter (\<lambda>e. ik_user_key (fst e) = u) (entries_of s xs)) =
    map op_result (filter (\<lambda>x. op_key x = u) xs)"
proof (induction xs arbitrary: s)
  case (Cons x xs)
  then show ?case by (cases x) simp_all
qed simp

lemma filter_hist_entries:
  "map entry_result (filter (\<lambda>e. ik_user_key (fst e) = u) (hist_entries rqs hist)) =
    map op_result (filter (\<lambda>x. op_key x = u) (concat (map (rq_ops rqs) (concat (map snd hist)))))"
  unfolding hist_entries_def by (induction hist) (auto simp: filter_entries_of)

lemma entries_of_ok:
  "\<forall>x\<in>set xs. op_fits x \<and> op_key x \<in> A \<Longrightarrow> unat s + length xs \<le> 2 ^ 56 \<Longrightarrow> \<forall>e\<in>set (entries_of s xs). entry_ok A e"
proof (induction xs arbitrary: s)
  case (Cons x xs)
  have "unat (s + 1) = unat s + 1" using Cons.prems(2) by (simp add: unat_word_ariths)
  then have "\<forall>e\<in>set (entries_of (s + 1) xs). entry_ok A e" using Cons.prems by (intro Cons.IH) simp_all
  moreover have "s \<le> kMaxSequenceNumber" using Cons.prems(2) by (simp add: kMaxSequenceNumber_def word_le_nat_alt)
  then have "entry_ok A (op_entry s x)" using Cons.prems(1) by (cases x) simp_all
  ultimately show ?case by simp
qed simp

text \<open>
  The operations of the history are entries with increasing sequence numbers that a memory table takes.
\<close>

lemma numbered_entries_ok:
  assumes "numbered rqs lo hist hi" "hi < 2 ^ 56" "\<forall>i\<in>set (concat (map snd hist)). \<forall>x\<in>set (rq_ops rqs i). op_fits x \<and> op_key x \<in> A"
  shows "\<forall>e\<in>set (hist_entries rqs hist). entry_ok A e"
  using assms
proof (induction rqs lo hist hi rule: numbered.induct)
  case (2 rqs lo n ids hist hi)
  let ?xs = "concat (map (rq_ops rqs) ids)"
  have le: "n + length ?xs \<le> hi" using 2(2) numbered_hi by auto
  have "unat (word_of_nat (n + 1) :: u64) = n + 1" by (rule unat_word_of_nat_less) (use le 2(3) in simp)
  then have n: "unat (word_of_nat n + 1 :: u64) = n + 1" by (simp add: add.commute)
  have "hist_entries rqs ((n, ids) # hist) = entries_of (word_of_nat n + 1) ?xs @ hist_entries rqs hist"
    by (simp add: hist_entries_def)
  moreover have "\<forall>e\<in>set (entries_of (word_of_nat n + 1) ?xs). entry_ok A e"
  proof (rule entries_of_ok)
    show "\<forall>x\<in>set ?xs. op_fits x \<and> op_key x \<in> A" using 2(4) by auto
    show "unat (word_of_nat n + 1 :: u64) + length ?xs \<le> 2 ^ 56" unfolding n using le 2(3) by simp
  qed
  moreover have "\<forall>e\<in>set (hist_entries rqs hist). entry_ok A e"
    by (rule 2(1)) (use 2(2-4) in auto)
  ultimately show ?case by auto
qed (simp add: hist_entries_def)

lemma last_result_map:
  "map f xs = map g ys \<Longrightarrow> (case xs of [] \<Rightarrow> a | xs \<Rightarrow> f (last xs)) = (case ys of [] \<Rightarrow> a | ys \<Rightarrow> g (last ys))"
  using last_map [of xs f] last_map [of ys g] by (cases xs; cases ys) auto

text \<open>A memory table with the entries of a history.\<close>

lemma history_get:
  assumes cmp: "user_comparator A cmp sep succ" and num: "numbered rqs lo hist hi" and hi: "hi < 2 ^ 56" "hi \<le> unat s"
    and s: "s \<le> kMaxSequenceNumber" and u: "u \<in> A" "length u + 8 < 2 ^ 32"
    and keys: "\<forall>i\<in>set (concat (map snd hist)). \<forall>x\<in>set (rq_ops rqs i). op_fits x \<and> op_key x \<in> A"
  shows "\<exists>mem. add_all cmp (hist_entries rqs hist) MemTable = Some mem \<and>
    MemTable_Get cmp (new_LookupKey u s) mem = Some (last_result rqs u (concat (map snd hist)))"
proof -
  note ok = numbered_entries_ok [OF num hi(1) keys]
  note sorted = hist_entries_sorted [OF num hi(1)]
  let ?es = "filter (\<lambda>e. ik_user_key (fst e) = u) (hist_entries rqs hist)"
  have vis: "filter (\<lambda>e. ik_user_key (fst e) = u \<and> ik_sequence (fst e) \<le> s) (hist_entries rqs hist) = ?es"
  proof (intro filter_cong refl)
    fix e
    assume "e \<in> set (hist_entries rqs hist)"
    then have "unat (ik_sequence (fst e)) \<le> unat s" using sorted hi(2) by fastforce
    then show "(ik_user_key (fst e) = u \<and> ik_sequence (fst e) \<le> s) = (ik_user_key (fst e) = u)" by (simp add: word_le_nat_alt)
  qed
  have "map entry_result ?es = map op_result (filter (\<lambda>x. op_key x = u) (concat (map (rq_ops rqs) (concat (map snd hist)))))"
    by (rule filter_hist_entries)
  then have "(case ?es of [] \<Rightarrow> Absent | es \<Rightarrow> entry_result (last es)) = last_result rqs u (concat (map snd hist))"
    unfolding last_result_def by (rule last_result_map)
  with MemTable_Get_last [OF cmp ok conjunct1 [OF sorted] u s] show ?thesis unfolding vis by simp
qed

lemma write_inv_keys:
  assumes "write_inv wr fl sy cmp rqs d fin hist" "requests_ok A rqs"
  shows "\<forall>i\<in>set (concat (map snd hist)). \<forall>x\<in>set (rq_ops rqs i). op_fits x \<and> op_key x \<in> A"
  using assms(2) write_invD(2,3) [OF assms(1)] unfolding write_invD(7) [OF assms(1)] requests_ok_def by auto

lemma write_inv_sequence:
  assumes inv: "write_inv wr fl sy cmp rqs d fin hist" and "requests_ok A rqs"
  shows "unat (db_last_sequence d) < 2 ^ 56" "db_last_sequence d \<le> kMaxSequenceNumber"
proof -
  show "unat (db_last_sequence d) < 2 ^ 56" using write_inv_total [OF assms] write_invD(10) [OF inv] by simp
  then show "db_last_sequence d \<le> kMaxSequenceNumber" by (simp add: kMaxSequenceNumber_def word_le_nat_alt)
qed

text \<open>
  Property C2. Concurrent writes are serialised in the order in which their threads entered: in every
  interleaving, with any outcome of the file operations, the writers that are done are those that entered
  first, and a read at the current sequence number gives the last operation on its key among the batches
  whose write has returned OK, in that order. Merging batches into a group makes no difference, a batch
  whose write returned an error is not seen, and no read sees a part of a group that is being written.
\<close>

theorem Write_serializable:
  assumes "user_comparator A cmp sep succ" "requests_ok A rqs" "write_reach wr fl sy cmp rqs entered d"
    and "u \<in> A" "length u + 8 < 2 ^ 32"
  shows "distinct entered \<and> (\<exists>fin. entered = fin @ db_writers d \<and> (\<forall>i\<in>set entered. dw_done (writer_at d i) \<longleftrightarrow> i \<in> set fin)) \<and>
    mem_get cmp u d = Some (last_result rqs u (acked entered d))"
proof -
  obtain fin hist where inv: "write_inv wr fl sy cmp rqs d fin hist" and q: "fin @ db_writers d = entered"
    using write_reach_inv [OF assms(2,3)] by blast
  note s = write_inv_sequence [OF inv assms(2)]
  have "mem_get cmp u d = Some (last_result rqs u (acked entered d))"
    using history_get [OF assms(1) write_invD(9) [OF inv] s(1) le_refl s(2) assms(4,5) write_inv_keys [OF inv assms(2)]]
      write_invD(8) [OF inv] by (simp add: mem_get_def write_inv_acked [OF inv] q)
  moreover have "\<forall>i\<in>set entered. dw_done (writer_at d i) \<longleftrightarrow> i \<in> set fin"
    using write_invD(1,5,6) [OF inv] unfolding q [symmetric] by auto
  ultimately show ?thesis using q write_invD(1) [OF inv] by blast
qed

subsection \<open>Every write ends\<close>

lemma write_finish_returns:
  assumes cmp: "user_comparator A cmp sep succ" and rq: "requests_ok A rqs"
    and inv: "write_inv wr fl sy cmp rqs d fin hist" and g: "db_active d = Some g"
  shows "\<exists>d'. write_finish wr fl sy cmp g d = Some d'"
proof -
  obtain ids where ids: "group_ok rqs d g ids" using write_invD(13) [OF inv g] by blast
  define ops where "ops = concat (map (rq_ops rqs) ids)"
  note G = ids [unfolded group_ok_def ops_def [symmetric]]
  obtain ws where q: "db_writers d = ids @ ws" using G by (auto simp: prefix_def)
  let ?n = "unat (db_last_sequence d)" and ?hist = "hist @ [(unat (db_last_sequence d), ids)]"
  have idx: "distinct (fin @ ids)" "set (fin @ ids) \<subseteq> {..<length rqs}"
    using write_invD(1-3) [OF inv] unfolding q by auto
  have less: "?n + length ops < 2 ^ 56"
    using requests_total [OF idx rq] write_invD(10) [OF inv] by (simp add: ops_def)
  have num: "numbered rqs 0 ?hist (?n + length ops)"
    using write_invD(9) [OF inv] G by (simp add: numbered_append ops_def [symmetric])
  have keys: "\<forall>i\<in>set (concat (map snd ?hist)). \<forall>x\<in>set (rq_ops rqs i). op_fits x \<and> op_key x \<in> A"
    using rq idx(2) write_invD(7) [OF inv] unfolding requests_ok_def by auto
  have "sorted_wrt (<) (map (ik_sequence \<circ> fst) (hist_entries rqs ?hist))"
    using conjunct1 [OF hist_entries_sorted [OF num less]] by (simp add: sorted_wrt_map)
  then have "distinct (map (ik_sequence \<circ> fst) (hist_entries rqs ?hist))" by (simp only: strict_sorted_iff)
  then have "distinct (map fst (hist_entries rqs ?hist))" by (metis distinct_map map_map)
  then obtain mem where "add_all cmp (hist_entries rqs ?hist) MemTable = Some mem"
    using user_comparator.add_all_ok [OF cmp MemTable_list numbered_entries_ok [OF num less keys]] by auto
  moreover have "hist_entries rqs ?hist = hist_entries rqs hist @ entries_of (db_last_sequence d + 1) ops"
    by (simp add: hist_entries_def ops_def)
  ultimately have "add_all cmp (entries_of (db_last_sequence d + 1) ops) (db_mem d) = Some mem"
    using write_invD(8) [OF inv] by (simp add: add_all_append)
  moreover have "\<forall>x\<in>set ops. op_fits x" using keys by (auto simp: ops_def)
  ultimately have "\<exists>s. InsertInto cmp (wg_updates g) (db_mem d) = (OK, Some (s, mem))"
    using G by (simp add: InsertInto_rep)
  then show ?thesis by (auto simp: write_finish_def Let_def case_prod_beta)
qed

text \<open>
  No wakeup is lost: a thread whose writer is done is not blocked, nor is the thread at the front, whether
  it leads a group or is still to start.
\<close>

definition wake_inv :: "db \<Rightarrow> bool" where
  "wake_inv d \<longleftrightarrow> (\<forall>i w. db_heap d i = Some w \<longrightarrow> dw_done w \<longrightarrow> \<not> dw_waiting w) \<and>
     (\<forall>i\<in>set (db_writers d). \<not> dw_returned (writer_at d i)) \<and>
     (db_writers d \<noteq> [] \<longrightarrow> \<not> dw_waiting (writer_at d (hd (db_writers d))))"

text \<open>How often a thread can still go on.\<close>

definition writer_work :: "db \<Rightarrow> nat \<Rightarrow> nat" where
  "writer_work d i = (case db_heap d i of None \<Rightarrow> 0
     | Some w \<Rightarrow> if dw_returned w then 0 else if dw_done w then 1
                else if dw_waiting w \<or> i = hd (db_writers d) then 2 else 3)"

lemma writer_work_cong:
  "db_heap d' i = db_heap d i \<Longrightarrow> hd (db_writers d') = hd (db_writers d) \<Longrightarrow> writer_work d' i = writer_work d i"
  by (simp only: writer_work_def)

definition queue_work :: "nat \<Rightarrow> db \<Rightarrow> nat" where
  "queue_work n d = (\<Sum>i<n. writer_work d i)"

definition busy :: "db \<Rightarrow> nat" where
  "busy d = (if db_active d = None then 0 else 1)"

lemma sum_less_at:
  fixes f g :: "nat \<Rightarrow> nat"
  assumes "x < n" "\<And>i. i < n \<Longrightarrow> i \<noteq> x \<Longrightarrow> f i \<le> g i" "f x + a \<le> g x + b"
  shows "(\<Sum>i<n. f i) + a \<le> (\<Sum>i<n. g i) + b"
proof -
  have "(\<Sum>i<n. f i) = f x + (\<Sum>i\<in>{..<n} - {x}. f i)" "(\<Sum>i<n. g i) = g x + (\<Sum>i\<in>{..<n} - {x}. g i)"
    using assms(1) by (simp_all add: sum.remove)
  moreover have "(\<Sum>i\<in>{..<n} - {x}. f i) \<le> (\<Sum>i\<in>{..<n} - {x}. g i)" by (rule sum_mono) (use assms(2) in auto)
  ultimately show ?thesis using assms(3) by linarith
qed

lemma queue_work_update:
  assumes "i < n" "db_heap d' = (db_heap d)(i \<mapsto> w)" "db_writers d' = db_writers d" "writer_work d' i + a \<le> writer_work d i + b"
  shows "queue_work n d' + a \<le> queue_work n d + b"
  unfolding queue_work_def
proof (rule sum_less_at [where x = i])
  show "i < n" "writer_work d' i + a \<le> writer_work d i + b" by (rule assms)+
  fix j
  assume "j \<noteq> i"
  then have "db_heap d' j = db_heap d j" unfolding assms(2) by (rule fun_upd_other)
  then have "writer_work d' j = writer_work d j" by (rule writer_work_cong) (simp only: assms(3))
  then show "writer_work d' j \<le> writer_work d j" by (rule eq_refl)
qed

text \<open>When a group is popped, its writers and the new head of the queue are woken.\<close>

lemma pop_group_wakes:
  assumes inv: "write_inv wr fl sy cmp rqs d fin hist" and wake: "wake_inv d"
    and d0: "db_writers d0 = db_writers d" "db_heap d0 = db_heap d" and ids: "db_writers d = ids @ ws" "ids \<noteq> []"
  shows "wake_inv (pop_group st (hd ids) (last ids) d0)"
    "queue_work (length rqs) (pop_group st (hd ids) (last ids) d0) + 2 \<le> queue_work (length rqs) d"
    "db_active (pop_group st (hd ids) (last ids) d0) = db_active d0"
proof -
  let ?d = "pop_group st (hd ids) (last ids) d0"
  let ?heap = "\<lambda>j. if j \<in> set ids then Some (finished st (hd ids) j (writer_at d j)) else db_heap d j"
  have dist: "distinct ids" "set ids \<inter> set ws = {}" "distinct ws"
    using write_invD(1) [OF inv] unfolding ids(1) by auto
  have eq: "?d = d0\<lparr>db_writers := ws, db_heap := (if ws \<noteq> [] then cv_Signal (hd ws) ?heap else ?heap)\<rparr>"
    by (rule pop_group_eq [OF trans [OF d0(1) ids(1)] ids(2) dist(1), of st "hd ids", unfolded d0(2) Let_def])
  show "db_active ?d = db_active d0" by (simp add: eq)
  have hd: "hd ids = hd (db_writers d)" "hd ids \<in> set ids" using ids by auto
  have awake: "\<not> dw_waiting (writer_at d (hd ids))" using wake ids by (simp add: wake_inv_def)
  have waiting: "\<forall>i\<in>set ids. \<not> dw_done (writer_at d i) \<and> \<not> dw_returned (writer_at d i)"
    using wake write_invD(5) [OF inv] unfolding wake_inv_def ids(1) by auto
  have heap: "db_heap ?d j = (if j \<in> set ids then Some (finished st (hd ids) j (writer_at d j))
      else if ws \<noteq> [] \<and> j = hd ws then map_option (\<lambda>w. w\<lparr>dw_waiting := False\<rparr>) (db_heap d j) else db_heap d j)" for j
  proof -
    have "ws \<noteq> [] \<Longrightarrow> hd ws \<notin> set ids" using dist(2) by (cases ws) auto
    then show ?thesis by (auto simp: eq cv_Signal_def)
  qed
  show "wake_inv ?d"
    unfolding wake_inv_def
  proof (intro conjI allI impI ballI)
    fix i w
    assume "db_heap ?d i = Some w" "dw_done w"
    then show "\<not> dw_waiting w" using wake awake by (auto simp: heap wake_inv_def split: if_splits)
  next
    fix i
    assume "i \<in> set (db_writers ?d)"
    then have "i \<in> set ws" "i \<notin> set ids" using dist(2) by (auto simp: eq)
    moreover from this have "\<not> dw_returned (writer_at d i)" using wake unfolding wake_inv_def ids(1) by simp
    ultimately show "\<not> dw_returned (writer_at ?d i)" by (cases "db_heap d i") (auto simp: heap)
  next
    assume "db_writers ?d \<noteq> []"
    then have "ws \<noteq> []" by (simp add: eq)
    then have "hd ws \<in> dom (db_heap d)" "hd ws \<notin> set ids"
      using write_invD(2) [OF inv] dist(2) unfolding ids(1) by (auto simp: disjoint_iff)
    with \<open>ws \<noteq> []\<close> show "\<not> dw_waiting (writer_at ?d (hd (db_writers ?d)))" by (auto simp: eq heap [unfolded eq, simplified] cv_Signal_def)
  qed
  have "queue_work (length rqs) ?d + 2 \<le> queue_work (length rqs) d + 0"
    unfolding queue_work_def
  proof (rule sum_less_at [of "hd ids"])
    show "hd ids < length rqs" using write_invD(2,3) [OF inv] hd(2) unfolding ids(1) by auto
    have queued: "2 \<le> writer_work d i" if "i \<in> set ids" for i
    proof -
      have "i \<in> dom (db_heap d)" using that write_invD(2) [OF inv] unfolding ids(1) by auto
      then obtain w where w: "db_heap d i = Some w" by blast
      then have "\<not> dw_done w" "\<not> dw_returned w" using waiting that by (metis option.sel)+
      with w show ?thesis by (simp add: writer_work_def)
    qed
    have "writer_work ?d (hd ids) = 0" using heap [of "hd ids"] hd(2) by (simp add: writer_work_def)
    then show "writer_work ?d (hd ids) + 2 \<le> writer_work d (hd ids) + 0" using queued [OF hd(2)] by simp
    show "writer_work ?d i \<le> writer_work d i" if "i < length rqs" "i \<noteq> hd ids" for i
    proof (cases "i \<in> set ids")
      case True
      then have "writer_work ?d i \<le> 1" using heap [of i] by (simp add: writer_work_def)
      then show ?thesis using queued [OF True] by simp
    next
      case False
      then have n: "i \<noteq> hd (db_writers d)" using hd by metis
      have fin: "ws = [] \<Longrightarrow> \<forall>w. db_heap d i = Some w \<longrightarrow> dw_done w"
        using False write_invD(2,6) [OF inv] unfolding ids(1) by (metis Un_iff append_Nil2 domI option.sel set_append)
      show ?thesis
      proof (cases "db_heap d i")
        case None
        then have "db_heap ?d i = None" using heap [of i] False by auto
        then show ?thesis by (simp add: writer_work_def)
      next
        case (Some w)
        then have "db_heap ?d i = Some (if ws \<noteq> [] \<and> i = hd ws then w\<lparr>dw_waiting := False\<rparr> else w)"
          using heap [of i] False by (simp only: if_False option.map if_distrib [of Some])
        moreover have "db_writers ?d = ws" by (simp add: eq)
        ultimately show ?thesis using Some n fin by (cases "ws = []") (auto simp: writer_work_def)
      qed
    qed
  qed
  then show "queue_work (length rqs) ?d + 2 \<le> queue_work (length rqs) d" by simp
qed


lemma write_start_wakes:
  assumes inv: "write_inv wr fl sy cmp rqs d fin hist" and wake: "wake_inv d"
    and d: "db_active d = None" "db_writers d \<noteq> []"
  shows "wake_inv (write_start status d) \<and>
    queue_work (length rqs) (write_start status d) + busy d + 1 \<le> queue_work (length rqs) d + busy (write_start status d)"
proof -
  obtain i ws where q: "db_writers d = i # ws" using d(2) by (cases "db_writers d") auto
  show ?thesis
  proof (cases "status = OK \<and> dw_batch (writer_at d i) \<noteq> None")
    case False
    then have "write_start status d = pop_group status i i d" unfolding write_start_def q by (simp only: Let_def list.sel if_False)
    then show ?thesis using pop_group_wakes [OF inv wake refl refl, of "[i]" ws status] q by (simp add: busy_def)
  next
    case True
    obtain t res lw where b: "BuildBatchGroup d = (t, res, lw)" by (metis prod_cases3)
    from True obtain w where w: "db_heap d i = Some w" using q write_invD(2) [OF inv] by (metis UnCI domD list.set_intros(1) set_append)
    define u where "u = SetSequence (db_last_sequence d + 1) res"
    have queue: "db_writers (write_start status d) = db_writers d" using True by (simp add: write_start_def q Let_def b)
    have heap: "db_heap (write_start status d) j = (if \<not> t \<and> j = i then Some (w\<lparr>dw_batch := Some u\<rparr>) else db_heap d j)" for j
      using True w by (simp add: write_start_def q Let_def b u_def)
    have work: "writer_work (write_start status d) j = writer_work d j" for j
    proof (cases "\<not> t \<and> j = i")
      case True
      with w show ?thesis by (simp add: writer_work_def queue heap)
    next
      case False
      then have "db_heap (write_start status d) j = db_heap d j" by (simp only: heap if_False)
      then show ?thesis by (rule writer_work_cong) (simp only: queue)
    qed
    have "wake_inv (write_start status d)"
      using wake w by (auto simp: wake_inv_def queue heap q)
    moreover have "busy (write_start status d) = 1" using True by (simp add: write_start_def q Let_def b busy_def)
    ultimately show ?thesis by (simp add: queue_work_def work busy_def d(1))
  qed
qed

lemma write_finish_pop:
  assumes "write_finish wr fl sy cmp g d = Some d'"
  shows "\<exists>st d0. d' = pop_group st (wg_leader g) (wg_last_writer g) d0 \<and> db_writers d0 = db_writers d \<and>
    db_heap d0 = db_heap d \<and> db_active d0 = None"
proof -
  show ?thesis using assms unfolding write_finish_def Let_def case_prod_beta map_option_eq_Some
    apply (elim exE conjE)
    apply (rule exI, rule exI, rule conjI, erule sym)
    apply (simp add: RecordBackgroundError_def)
    done
qed

lemma write_finish_wakes:
  assumes inv: "write_inv wr fl sy cmp rqs d fin hist" and wake: "wake_inv d"
    and g: "db_active d = Some g" and run: "write_finish wr fl sy cmp g d = Some d'"
  shows "wake_inv d' \<and> queue_work (length rqs) d' + busy d + 1 \<le> queue_work (length rqs) d + busy d'"
proof -
  obtain ids where ids: "group_ok rqs d g ids" using write_invD(13) [OF inv g] by blast
  then obtain ws where q: "db_writers d = ids @ ws" "ids \<noteq> []" "wg_leader g = hd ids" "wg_last_writer g = last ids"
    by (auto simp: group_ok_def prefix_def)
  obtain st d0 where d0: "d' = pop_group st (hd ids) (last ids) d0" "db_writers d0 = db_writers d" "db_heap d0 = db_heap d"
    "db_active d0 = None" using write_finish_pop [OF run] q(3,4) by auto
  show ?thesis using pop_group_wakes [OF inv wake d0(2,3) q(1,2), of st] d0(1,4) g by (simp add: busy_def)
qed

text \<open>What an event costs.\<close>

fun event_cost :: "write_event \<Rightarrow> nat" where
  "event_cost (Enter i) = 2"
| "event_cost (Spurious i) = 1"
| "event_cost (Run i) = 0"

fun is_run :: "write_event \<Rightarrow> bool" where
  "is_run (Run i) \<longleftrightarrow> True"
| "is_run _ \<longleftrightarrow> False"

lemma write_step_wakes:
  assumes inv: "write_inv wr fl sy cmp rqs d fin hist" and wake: "wake_inv d" and step: "write_step wr fl sy cmp rqs d e d'"
  shows "wake_inv d' \<and>
    queue_work (length rqs) d' + busy d + (if is_run e then 1 else 0) \<le> queue_work (length rqs) d + busy d' + event_cost e"
  using step
proof cases
  case (enqueue i)
  have new: "i \<notin> set (db_writers d)" using enqueue(4) write_invD(2) [OF inv] by auto
  have "wake_inv d'"
    using wake new unfolding enqueue(2) by (cases "db_writers d") (auto simp: wake_inv_def write_enqueue_def Let_def)
  moreover have "queue_work (length rqs) d' + 0 \<le> queue_work (length rqs) d + 2"
    unfolding queue_work_def
  proof (rule sum_less_at [OF enqueue(3)])
    show "writer_work d' i + 0 \<le> writer_work d i + 2"
      unfolding enqueue(2) by (simp add: writer_work_def write_enqueue_def Let_def)
    show "writer_work d' j \<le> writer_work d j" if "j < length rqs" "j \<noteq> i" for j
    proof (cases "db_writers d")
      case Nil
      then have "\<forall>w. db_heap d j = Some w \<longrightarrow> dw_done w"
        using write_invD(2,6) [OF inv] by (metis append_Nil2 domI option.sel)
      with that(2) show ?thesis
        unfolding enqueue(2) by (cases "db_heap d j") (simp_all add: writer_work_def write_enqueue_def Let_def Nil)
    next
      case (Cons k ks)
      then have "db_heap d' j = db_heap d j" "hd (db_writers d') = hd (db_writers d)"
        using that(2) by (simp_all add: enqueue(2) write_enqueue_def Let_def)
      then show ?thesis using writer_work_cong [of d' j d] by (simp only: le_refl)
    qed
  qed
  moreover have "busy d' = busy d" unfolding enqueue(2) by (simp add: busy_def write_enqueue_def Let_def)
  ultimately show ?thesis by (simp add: enqueue(1))
next
  case (spurious i w)
  have i: "i < length rqs" using spurious(3) write_invD(3) [OF inv] by auto
  have heap: "db_heap d' = (db_heap d)(i \<mapsto> w\<lparr>dw_waiting := False\<rparr>)" "db_writers d' = db_writers d" "db_active d' = db_active d"
    by (simp_all add: spurious(2,3) cv_Signal_def)
  have "wake_inv d'" using wake spurious(3) by (auto simp: wake_inv_def heap)
  moreover have "queue_work (length rqs) d' + 0 \<le> queue_work (length rqs) d + 1"
    by (rule queue_work_update [OF i heap(1,2)]) (use spurious(3,4) in \<open>simp add: writer_work_def heap\<close>)
  ultimately show ?thesis by (simp add: spurious(1) busy_def heap)
next
  case (wait i w)
  have i: "i < length rqs" using wait(3) write_invD(3) [OF inv] by auto
  have heap: "db_heap d' = (db_heap d)(i \<mapsto> w\<lparr>dw_waiting := True\<rparr>)" "db_writers d' = db_writers d" "db_active d' = db_active d"
    by (simp_all add: wait(2,3) write_wait_def)
  have "i \<in> set (db_writers d)"
    using wait(3,5) write_invD(2,6) [OF inv] by (metis Un_iff domI option.sel set_append)
  then have active: "\<not> dw_returned w" using wake wait(3) unfolding wake_inv_def by (metis option.sel)
  have "queue_work (length rqs) d' + 1 \<le> queue_work (length rqs) d + 0"
    by (rule queue_work_update [OF i heap(1,2)]) (use wait(3-6) active in \<open>simp add: writer_work_def heap\<close>)
  moreover have "wake_inv d'" using wake wait(3,5,6) by (auto simp: wake_inv_def heap)
  ultimately show ?thesis by (simp add: wait(1) busy_def heap)
next
  case (return i w)
  have i: "i < length rqs" using return(3) write_invD(3) [OF inv] by auto
  have heap: "db_heap d' = (db_heap d)(i \<mapsto> w\<lparr>dw_returned := True\<rparr>)" "db_writers d' = db_writers d" "db_active d' = db_active d"
    by (simp_all add: return(2,3) write_return_def)
  have "i \<notin> set (db_writers d)" using return(3,5) write_invD(5) [OF inv] by fastforce
  then have "wake_inv d'" using wake return(3) by (auto simp: wake_inv_def heap)
  moreover have "queue_work (length rqs) d' + 1 \<le> queue_work (length rqs) d + 0"
    by (rule queue_work_update [OF i heap(1,2)]) (use return(3-6) in \<open>simp add: writer_work_def heap\<close>)
  ultimately show ?thesis by (simp add: return(1) busy_def heap)
next
  case (start status)
  then show ?thesis using write_start_wakes [OF inv wake start(3,4), of status] by simp
next
  case (finish g)
  then show ?thesis using write_finish_wakes [OF inv wake finish(2,3)] by simp
qed

text \<open>The executions, with their events.\<close>

inductive write_execution ::
  "file_io \<Rightarrow> (u8 list \<Rightarrow> bool) \<Rightarrow> (u8 list \<Rightarrow> bool) \<Rightarrow> (slice \<Rightarrow> slice \<Rightarrow> int) \<Rightarrow> request list \<Rightarrow> write_event list \<Rightarrow> db \<Rightarrow> bool"
  for wr fl sy user_cmp rqs where
  init: "write_execution wr fl sy user_cmp rqs [] db_init"
| step: "write_execution wr fl sy user_cmp rqs es d \<Longrightarrow> write_step wr fl sy user_cmp rqs d e d' \<Longrightarrow>
    write_execution wr fl sy user_cmp rqs (es @ [e]) d'"

lemma write_execution_reach:
  "write_execution wr fl sy cmp rqs es d \<Longrightarrow> write_reach wr fl sy cmp rqs (concat (map entering es)) d"
proof (induction rule: write_execution.induct)
  case (step es d e d')
  from write_reach.step [OF step.IH step.hyps(2)] show ?case by simp
qed (simp add: write_reach.init)

lemma busy_le_work:
  assumes inv: "write_inv wr fl sy cmp rqs d fin hist" and "wake_inv d"
  shows "busy d \<le> queue_work (length rqs) d"
proof (cases "db_active d")
  case (Some g)
  then obtain i ws where q: "db_writers d = i # ws" using write_invD(13) [OF inv]
    by (cases "db_writers d") (auto simp: group_ok_def)
  then have "i \<in> dom (db_heap d)" "i < length rqs" using write_invD(2,3) [OF inv] by auto
  then obtain w where w: "db_heap d i = Some w" by blast
  then have "\<not> dw_done w" "\<not> dw_returned w" using write_invD(5) [OF inv, of i] assms(2) q by (auto simp: wake_inv_def)
  then have "1 \<le> writer_work d i" using w by (simp add: writer_work_def)
  also have "\<dots> \<le> queue_work (length rqs) d"
    unfolding queue_work_def by (rule member_le_sum) (use \<open>i < length rqs\<close> in simp_all)
  finally show ?thesis by (simp add: busy_def)
qed (simp add: busy_def)

lemma write_execution_wakes:
  assumes rq: "requests_ok A rqs" and "write_execution wr fl sy cmp rqs es d"
  shows "\<exists>fin hist. write_inv wr fl sy cmp rqs d fin hist \<and> fin @ db_writers d = concat (map entering es) \<and> wake_inv d \<and>
    queue_work (length rqs) d + length (filter is_run es) \<le> busy d + sum_list (map event_cost es)"
  using assms(2)
proof induction
  case init
  have "queue_work (length rqs) db_init = 0" by (simp add: queue_work_def writer_work_def db_init_def)
  then show ?case using write_inv_init [of wr fl sy cmp rqs] by (auto simp: db_init_def wake_inv_def busy_def)
next
  case (step es d e d')
  then obtain fin hist where h: "write_inv wr fl sy cmp rqs d fin hist" "fin @ db_writers d = concat (map entering es)" "wake_inv d"
    "queue_work (length rqs) d + length (filter is_run es) \<le> busy d + sum_list (map event_cost es)" by blast
  from write_step_inv [OF rq h(1) step.hyps(2)] h(2) obtain fin' hist'
    where "write_inv wr fl sy cmp rqs d' fin' hist'" "fin' @ db_writers d' = concat (map entering (es @ [e]))" by auto
  moreover note write_step_wakes [OF h(1,3) step.hyps(2)]
  ultimately show ?case using h(4) by (intro exI [of _ fin'] exI [of _ hist']) (auto split: if_splits)
qed

text \<open>A thread that has not returned is in the queue or done; one of them can go on.\<close>

lemma write_progress:
  assumes cmp: "user_comparator A cmp sep succ" and rq: "requests_ok A rqs"
    and inv: "write_inv wr fl sy cmp rqs d fin hist" and wake: "wake_inv d"
    and stuck: "\<nexists>i d'. write_step wr fl sy cmp rqs d (Run i) d'"
  shows "db_writers d = [] \<and> db_active d = None \<and> (\<forall>i\<in>set fin. dw_done (writer_at d i) \<and> dw_returned (writer_at d i))"
proof -
  have active: "db_active d = None"
    using stuck write_finish_returns [OF cmp rq inv] write_step.finish by (cases "db_active d") blast+
  have queue: "db_writers d = []"
  proof (rule ccontr)
    assume "db_writers d \<noteq> []"
    moreover from this have "\<not> dw_waiting (writer_at d (hd (db_writers d)))" using wake by (simp add: wake_inv_def)
    moreover have "room_status d (db_bg_error d)" by (simp add: room_status_def)
    ultimately show False using stuck write_step.start [OF active] by blast
  qed
  have "dw_done (writer_at d i) \<and> dw_returned (writer_at d i)" if "i \<in> set fin" for i
  proof -
    have "i \<in> dom (db_heap d)" using that write_invD(2) [OF inv] by auto
    then obtain w where w: "db_heap d i = Some w" by blast
    then have "dw_done w" using write_invD(6) [OF inv that] by simp
    moreover from this have "\<not> dw_waiting w" using wake w by (simp add: wake_inv_def)
    ultimately show ?thesis using stuck write_step.return [OF w] w by fastforce
  qed
  with active queue show ?thesis by blast
qed

text \<open>
  Property C5. Every write ends, and no wakeup is lost. A thread that is blocked is queued behind the front.
  The threads that have entered go on at most twice each, and once more for each spurious wakeup; and as
  long as one of them can go on, one that is not blocked can: in a state in which no thread can go on the
  queue is empty and every thread that has entered is done and has returned. This rests on
  \<open>MakeRoomForWrite\<close> and the file operations returning; that the insertion returns is proved.
\<close>

theorem Write_queue_drains:
  assumes "user_comparator A cmp sep succ" "requests_ok A rqs" "write_execution wr fl sy cmp rqs es d"
  shows "(\<forall>i. Enter i \<in> set es \<longrightarrow> dw_waiting (writer_at d i) \<longrightarrow> i \<in> set (tl (db_writers d))) \<and>
    length (filter is_run es) \<le> sum_list (map event_cost es) \<and>
    ((\<exists>i d'. write_step wr fl sy cmp rqs d (Run i) d') \<or>
     db_writers d = [] \<and> db_active d = None \<and>
     (\<forall>i. Enter i \<in> set es \<longrightarrow> dw_done (writer_at d i) \<and> dw_returned (writer_at d i)))"
proof -
  obtain fin hist where inv: "write_inv wr fl sy cmp rqs d fin hist" and q: "fin @ db_writers d = concat (map entering es)"
    and wake: "wake_inv d" and work: "queue_work (length rqs) d + length (filter is_run es) \<le> busy d + sum_list (map event_cost es)"
    using write_execution_wakes [OF assms(2,3)] by blast
  have entered: "i \<in> set fin \<or> i \<in> set (db_writers d)" if "Enter i \<in> set es" for i
  proof -
    have "i \<in> set (concat (map entering es))" using that by (auto intro: bexI [of _ "Enter i"])
    then show ?thesis unfolding q [symmetric] by auto
  qed
  have blocked: "i \<in> set (tl (db_writers d))" if "Enter i \<in> set es" "dw_waiting (writer_at d i)" for i
  proof -
    have "i \<in> dom (db_heap d)" using entered [OF that(1)] write_invD(2) [OF inv] by auto
    then have "i \<notin> set fin" using wake that(2) write_invD(6) [OF inv, of i] by (auto simp: wake_inv_def)
    then have i: "i \<in> set (db_writers d)" using entered [OF that(1)] by blast
    then have "i \<noteq> hd (db_writers d)" using wake that(2) by (auto simp: wake_inv_def)
    with i show ?thesis by (cases "db_writers d") auto
  qed
  have "length (filter is_run es) \<le> sum_list (map event_cost es)" using busy_le_work [OF inv wake] work by simp
  with blocked write_progress [OF assms(1,2) inv wake] entered show ?thesis by (metis empty_iff empty_set)
qed

text \<open>Two writers: the second one is blocked, the first one can go on.\<close>

lemma Write_queue_drains_witness:
  "\<exists>d. write_execution (\<lambda>_ _. None) (\<lambda>_. True) (\<lambda>_. True) Bytewise_Compare
      [(Some [PutOp [1] [7]], True), (None, False)] [Enter 0, Enter 1] d \<and>
    dw_waiting (writer_at d 1) \<and> db_writers d \<noteq> [] \<and>
    (\<exists>i d'. write_step (\<lambda>_ _. None) (\<lambda>_. True) (\<lambda>_. True) Bytewise_Compare
      [(Some [PutOp [1] [7]], True), (None, False)] d (Run i) d')"
proof -
  let ?rqs = "[(Some [PutOp [1] [7]], True), (None, False)] :: request list"
  let ?wr = "\<lambda>_ _. None :: nat option" and ?ok = "\<lambda>_. True"
  have rq: "requests_ok UNIV ?rqs" by (auto simp: requests_ok_def rq_ops_def less_Suc_eq lessThan_Suc)
  define d1 where "d1 = write_enqueue 0 (map_option batch_of (fst (?rqs ! 0))) (snd (?rqs ! 0)) db_init"
  define d2 where "d2 = write_enqueue 1 (map_option batch_of (fst (?rqs ! 1))) (snd (?rqs ! 1)) d1"
  have "write_step ?wr ?ok ?ok Bytewise_Compare ?rqs db_init (Enter 0) d1"
    unfolding d1_def by (rule write_step.enqueue) (simp_all add: db_init_def)
  from write_execution.step [OF write_execution.init this]
  have e1: "write_execution ?wr ?ok ?ok Bytewise_Compare ?rqs [Enter 0] d1" by simp
  have "write_step ?wr ?ok ?ok Bytewise_Compare ?rqs d1 (Enter 1) d2"
    unfolding d2_def by (rule write_step.enqueue) (simp_all add: d1_def write_enqueue_def Let_def db_init_def)
  from write_execution.step [OF e1 this]
  have e2: "write_execution ?wr ?ok ?ok Bytewise_Compare ?rqs [Enter 0, Enter 1] d2" by simp
  have "dw_waiting (writer_at d2 1)" "db_writers d2 \<noteq> []"
    by (simp_all add: d2_def d1_def write_enqueue_def Let_def db_init_def)
  with Write_queue_drains [OF bytewise_internal.user_comparator_axioms rq e2] e2 show ?thesis by blast
qed

text \<open>The same writer after its two steps.\<close>

lemma single_write:
  "\<exists>d. write_reach (\<lambda>_ _. None) (\<lambda>_. True) (\<lambda>_. True) Bytewise_Compare [(Some [PutOp [1] [7]], False)] [0] d \<and>
    db_writers d = [] \<and> acked [0] d = [0]"
proof -
  let ?ops = "[PutOp [1] [7]]"
  let ?rqs = "[(Some ?ops, False)] :: request list"
  let ?wr = "\<lambda>_ _. None :: nat option" and ?ok = "\<lambda>_. True"
  have rq: "requests_ok UNIV ?rqs" by (simp add: requests_ok_def rq_ops_def)
  note cmp = bytewise_internal.user_comparator_axioms
  let ?d = "write_enqueue 0 (Some (batch_at 0 ?ops)) False db_init"
  have "batch_of ?ops = batch_at 0 ?ops" by (rule batch_of_rep)
  then have "write_step ?wr ?ok ?ok Bytewise_Compare ?rqs db_init (Enter 0) ?d"
    using write_step.enqueue [of 0 ?rqs db_init ?wr ?ok ?ok Bytewise_Compare] by (simp add: db_init_def del: batch_rep_header(6))
  from write_reach.step [OF write_reach.init this] have reach: "write_reach ?wr ?ok ?ok Bytewise_Compare ?rqs [0] ?d" by simp
  let ?g = "\<lparr>wg_leader = 0, wg_tmp = False, wg_updates = batch_at 1 ?ops, wg_last_sequence = 1, wg_last_writer = 0\<rparr>"
  define d1 where "d1 = write_start OK ?d"
  have d1: "db_active d1 = Some ?g" "db_writers d1 = [0]" "db_log d1 = Writer [] 0" "db_heap d1 0 =
      Some \<lparr>dw_batch = Some (batch_at 1 ?ops), dw_sync = False, dw_done = False, dw_status = OK, dw_waiting = False, dw_returned = False\<rparr>"
    using scast_count [of 1] by (simp_all add: d1_def write_start_def write_enqueue_def Let_def db_init_def BuildBatchGroup_def Let_def
        del: batch_rep_header(6))
  have reach1: "write_reach ?wr ?ok ?ok Bytewise_Compare ?rqs [0] d1"
    using write_reach.step [OF reach write_step.start [of ?d OK]] by (simp add: d1_def room_status_def write_enqueue_def Let_def db_init_def)
  obtain fin hist where inv: "write_inv ?wr ?ok ?ok Bytewise_Compare ?rqs d1 fin hist" using write_reach_inv [OF rq reach1] by blast
  obtain d2 where d2: "write_finish ?wr ?ok ?ok Bytewise_Compare ?g d1 = Some d2"
    using write_finish_returns [OF cmp rq inv d1(1)] by blast
  obtain log where log: "AddRecord ?wr ?ok (batch_at 1 ?ops) (Writer [] 0) = (True, log)"
    using write_log_snoc [of ?wr ?ok "[]" "Writer [] 0" "batch_at 1 ?ops"] by (cases "AddRecord ?wr ?ok (batch_at 1 ?ops) (Writer [] 0)") simp
  have "fst (InsertInto Bytewise_Compare (batch_at 1 ?ops) m) = OK" for m
    using InsertInto_rep [of ?ops Bytewise_Compare 1 m] by simp
  then have st: "db_writers d2 = []" "dw_status (writer_at d2 0) = OK" "dw_done (writer_at d2 0)"
    using d2 d1 log by (auto simp: write_finish_def io_status_def Let_def case_prod_beta pop_group_def)
  have reach2: "write_reach ?wr ?ok ?ok Bytewise_Compare ?rqs [0] d2"
    using write_reach.step [OF reach1 write_step.finish [OF d1(1) d2]] by simp
  with st show ?thesis by (auto simp: acked_def)
qed

text \<open>A read gives what it wrote.\<close>

lemma Write_serializable_witness:
  "\<exists>d. write_reach (\<lambda>_ _. None) (\<lambda>_. True) (\<lambda>_. True) Bytewise_Compare [(Some [PutOp [1] [7]], False)] [0] d \<and>
    db_writers d = [] \<and> mem_get Bytewise_Compare [1] d = Some (Value [7])"
proof -
  let ?rqs = "[(Some [PutOp [1] [7]], False)] :: request list"
  have rq: "requests_ok UNIV ?rqs" by (simp add: requests_ok_def rq_ops_def)
  obtain d where d: "write_reach (\<lambda>_ _. None) (\<lambda>_. True) (\<lambda>_. True) Bytewise_Compare ?rqs [0] d" "db_writers d = []"
    "acked [0] d = [0]" using single_write by blast
  have "mem_get Bytewise_Compare [1] d = Some (last_result ?rqs [1] (acked [0] d))"
    using Write_serializable [OF bytewise_internal.user_comparator_axioms rq d(1), of "[1]"] by simp
  with d show ?thesis by (auto simp: rq_ops_def last_result_def)
qed

text \<open>
  A writer without a batch, with which \<open>TEST_CompactMemTable\<close> and \<open>CompactRange\<close> ask for the
  memory table to be flushed, is taken into the group of a writer in front of it: it is finished with OK and
  \<open>MakeRoomForWrite\<close> is never called with \<open>force\<close> for it.
\<close>

lemma BuildBatchGroup_absorbs_flush:
  assumes "db_writers d = [i, j]" "dw_batch (writer_at d i) = Some b" "dw_batch (writer_at d j) = None"
    and "dw_sync (writer_at d i) \<or> \<not> dw_sync (writer_at d j)"
  shows "BuildBatchGroup d = (False, b, j)"
  using assms by (auto simp: BuildBatchGroup_def Let_def)

end
