(* ===== verification/LDB_Recover.thy ===== *)
theory LDB_Recover
  imports LDB_Write
begin

text \<open>
  The recovery of a database from its log (\<open>db/db_impl.cc\<close>, \<open>DBImpl::RecoverLogFile\<close>): the batches in the
  log are inserted into memory tables again. The size test of a memory table (\<open>ApproximateMemoryUsage\<close>
  against \<open>write_buffer_size\<close>) and \<open>WriteLevel0Table\<close>, which turns a memory table into a table file and
  records it in the edit, are parameters, and so are the outcomes of the calls of the environment.
\<close>

subsection \<open>The loop over the records\<close>

record 'e recovery =
  rc_status :: Status
  rc_mem :: "memtable option"
  rc_max_sequence :: SequenceNumber
  rc_edit :: 'e
  rc_save_manifest :: bool
  rc_compactions :: nat

record 'e recover_env =
  re_paranoid_checks :: bool
  re_full :: "memtable \<Rightarrow> bool"
  re_level0 :: "memtable \<Rightarrow> 'e \<Rightarrow> Status \<times> 'e"

definition MaybeIgnoreError :: "bool \<Rightarrow> Status \<Rightarrow> Status" where
  "MaybeIgnoreError paranoid_checks s = (if s = OK \<or> paranoid_checks then s else OK)"

text \<open>The reporter keeps the first corruption in the status, with paranoid checks only. The reports that
  the reader added during a call come out of its list.\<close>

definition reporter_Corruption :: "bool \<Rightarrow> string \<Rightarrow> Status \<Rightarrow> Status" where
  "reporter_Corruption paranoid_checks reason status =
     (if paranoid_checks \<and> status = OK then Corruption reason else status)"

definition new_reports :: "bool \<Rightarrow> log_reader \<Rightarrow> log_reader \<Rightarrow> Status \<Rightarrow> Status" where
  "new_reports paranoid_checks r r' status =
     fold (\<lambda>(n, reason). reporter_Corruption paranoid_checks reason) (drop (length (lr_reports r)) (lr_reports r')) status"

text \<open>What the loop does with a record: it ends or goes on. The outer option is an insertion that does not return.\<close>

definition recover_record ::
  "'e recover_env \<Rightarrow> (slice \<Rightarrow> slice \<Rightarrow> int) \<Rightarrow> slice \<Rightarrow> 'e recovery \<Rightarrow> (bool \<times> 'e recovery) option" where
  "recover_record env user_cmp record c =
     (if length record < 12
      then Some (True, c\<lparr>rc_status := reporter_Corruption (re_paranoid_checks env) ''log record too small'' (rc_status c)\<rparr>)
      else
        (let batch = SetContents record;
             mem = (case rc_mem c of None \<Rightarrow> MemTable | Some mem \<Rightarrow> mem);
             (status, inserted) = InsertInto user_cmp batch mem;
             status = MaybeIgnoreError (re_paranoid_checks env) status
         in map_option (\<lambda>(_, mem).
              (let c = c\<lparr>rc_status := status, rc_mem := Some mem\<rparr>
               in if status \<noteq> OK then (False, c)
                  else
                    (let last_seq = Batch_Sequence batch + scast (Batch_Count batch) - 1;
                         c = (if rc_max_sequence c < last_seq then c\<lparr>rc_max_sequence := last_seq\<rparr> else c)
                     in if re_full env mem
                        then (let (status, edit) = re_level0 env mem (rc_edit c);
                                  c = c\<lparr>rc_compactions := rc_compactions c + 1, rc_save_manifest := True,
                                        rc_status := status, rc_edit := edit, rc_mem := None\<rparr>
                              in (status = OK, c))
                        else (True, c)))) inserted))"

lemma record_left:
  "ReadRecord rd sk r = (Some p, r') \<Longrightarrow>
    length (lr_file r') + length (lr_buffer r') < length (lr_file r) + length (lr_buffer r)"
proof -
  have loop: "read_record_loop rd f s pr r = (Some p, r') \<Longrightarrow>
    length (lr_file r') + length (lr_buffer r') < length (lr_file r) + length (lr_buffer r)" for f s pr r
  proof (induction rd f s pr r rule: read_record_loop.induct)
    case (1 rd f s pr r)
    obtain t q r1 where r1: "ReadPhysicalRecord rd r = ((t, q), r1)" by (metis prod_cases3 prod.collapse)
    obtain x r2 where r2: "record_step f s pr t q r1 = (x, r2)" by (metis prod.collapse)
    have left: "lr_file r2 = lr_file r1" "lr_buffer r2 = lr_buffer r1" using record_step_left [of f s pr t q r1] r2 by simp_all
    have "t \<noteq> kEof"
    proof
      assume "t = kEof"
      then have "x = Inl None" using r2 record_step_eof by blast
      with "1.prems" r1 r2 show False by (simp add: read_record_loop.simps [of rd f])
    qed
    then have less: "length (lr_file r1) + length (lr_buffer r1) < length (lr_file r) + length (lr_buffer r)"
      using ReadPhysicalRecord_left [OF r1] by blast
    show ?case
    proof (cases x)
      case (Inl a)
      with "1.prems" r1 r2 less left show ?thesis by (auto simp: read_record_loop.simps [of rd f])
    next
      case (Inr y)
      obtain f' s' pr' where y: "y = (f', s', pr')" by (metis prod_cases3)
      have "read_record_loop rd f' s' pr' r2 = (Some p, r')"
        using "1.prems" r1 r2 Inr y by (simp add: read_record_loop.simps [of rd f])
      from "1.IH" [OF r1 [symmetric] refl r2 [symmetric] Inr [unfolded y] refl refl this] less left show ?thesis by simp
    qed
  qed
  assume "ReadRecord rd sk r = (Some p, r')"
  then obtain r0 where "read_record_loop rd False [] 0 r0 = (Some p, r')"
    "length (lr_file r0) + length (lr_buffer r0) \<le> length (lr_file r) + length (lr_buffer r)"
    by (auto simp: ReadRecord_def SkipToInitialBlock_def ReportDrop_def Let_def split: if_splits prod.splits)
  with loop [of False "[]" 0 r0] show ?thesis by simp
qed

function recover_loop ::
  "'e recover_env \<Rightarrow> (slice \<Rightarrow> slice \<Rightarrow> int) \<Rightarrow> (nat \<Rightarrow> bool) \<Rightarrow> (nat \<Rightarrow> bool) \<Rightarrow> log_reader \<Rightarrow> 'e recovery \<Rightarrow> 'e recovery option" where
  "recover_loop env user_cmp rd sk reader c =
     (case ReadRecord rd sk reader of
        (record, reader') \<Rightarrow>
          (let c = c\<lparr>rc_status := new_reports (re_paranoid_checks env) reader reader' (rc_status c)\<rparr>
           in case record of
                None \<Rightarrow> Some c
              | Some record \<Rightarrow>
                  if rc_status c \<noteq> OK then Some c
                  else (case recover_record env user_cmp record c of
                          None \<Rightarrow> None
                        | Some (go, c) \<Rightarrow> if go then recover_loop env user_cmp rd sk reader' c else Some c)))"
  by pat_completeness auto
termination
  by (relation "measure (\<lambda>(env, cmp, rd, sk, r, c). length (lr_file r) + length (lr_buffer r))")
    (auto dest: record_left [OF sym])

declare recover_loop.simps [simp del]

text \<open>The log is reused (with the memory table) or the memory table is written to a table file.\<close>

definition RecoverLogFile ::
  "'e recover_env \<Rightarrow> (slice \<Rightarrow> slice \<Rightarrow> int) \<Rightarrow> (nat \<Rightarrow> bool) \<Rightarrow> (nat \<Rightarrow> bool) \<Rightarrow> Status \<Rightarrow> bool \<Rightarrow> bool \<Rightarrow> bool \<Rightarrow>
    u8 list \<Rightarrow> 'e \<Rightarrow> SequenceNumber \<Rightarrow> (Status \<times> 'e recovery \<times> (log_writer \<times> memtable) option) option" where
  "RecoverLogFile env user_cmp rd sk open_status last_log reuse_logs append_ok file edit max_sequence =
     (let c = \<lparr>rc_status = OK, rc_mem = None, rc_max_sequence = max_sequence, rc_edit = edit,
               rc_save_manifest = False, rc_compactions = 0\<rparr>
      in if open_status \<noteq> OK then Some (MaybeIgnoreError (re_paranoid_checks env) open_status, c, None)
         else map_option (\<lambda>c.
           (let (reused, mem) =
                  (if rc_status c = OK \<and> reuse_logs \<and> last_log \<and> rc_compactions c = 0 \<and> append_ok
                   then (Some (Writer file (length file), case rc_mem c of None \<Rightarrow> MemTable | Some mem \<Rightarrow> mem), None)
                   else (None, rc_mem c))
            in case mem of
                 None \<Rightarrow> (rc_status c, c, reused)
               | Some mem \<Rightarrow>
                   if rc_status c = OK
                   then (let (status, edit) = re_level0 env mem (rc_edit c)
                         in (status, c\<lparr>rc_save_manifest := True, rc_edit := edit\<rparr>, reused))
                   else (rc_status c, c, reused)))
           (recover_loop env user_cmp rd sk (Reader file True True 0) c))"

subsection \<open>The loop on a list of records\<close>

fun recover_list :: "'e recover_env \<Rightarrow> (slice \<Rightarrow> slice \<Rightarrow> int) \<Rightarrow> slice list \<Rightarrow> 'e recovery \<Rightarrow> 'e recovery option" where
  "recover_list env cmp [] c = Some c"
| "recover_list env cmp (p # ps) c =
     (case recover_record env cmp p c of
        None \<Rightarrow> None
      | Some (go, c) \<Rightarrow> if go then recover_list env cmp ps c else Some c)"

text \<open>The reader only adds reports.\<close>

lemma ReportDrop_prefix: "prefix (lr_reports r) (lr_reports (ReportDrop n m r))"
  by (simp add: ReportDrop_def)

lemma prefix_ReportDrop: "prefix xs (lr_reports r) \<Longrightarrow> prefix xs (lr_reports (ReportDrop n m r))"
  using ReportDrop_prefix prefix_order.trans by blast

lemma parse_physical_reports: "prefix (lr_reports r) (lr_reports (snd (parse_physical r)))"
  by (simp add: parse_physical_def Let_def ReportCorruption_def prefix_ReportDrop)

lemma read_block_reports: "prefix (lr_reports r) (lr_reports (snd (read_block rd r)))"
  by (simp add: read_block_def Let_def prefix_ReportDrop)

lemma ReadPhysicalRecord_reports: "prefix (lr_reports r) (lr_reports (snd (ReadPhysicalRecord rd r)))"
proof (induction rd r rule: ReadPhysicalRecord.induct)
  case (1 rd r)
  obtain ok r' where b: "read_block rd r = (ok, r')" by (metis prod.collapse)
  have "prefix (lr_reports r) (lr_reports r')" using read_block_reports [of r rd] b by simp
  with 1 b show ?case
    by (auto simp: ReadPhysicalRecord.simps [of rd r] parse_physical_reports intro: prefix_order.trans)
qed

lemma record_step_reports: "prefix (lr_reports r) (lr_reports (snd (record_step f s off t p r)))"
  by (simp add: record_step_def Let_def ReportCorruption_def prefix_ReportDrop)

lemma read_record_loop_reports: "prefix (lr_reports r) (lr_reports (snd (read_record_loop rd f s pr r)))"
proof (induction rd f s pr r rule: read_record_loop.induct)
  case (1 rd f s pr r)
  obtain t q r1 where r1: "ReadPhysicalRecord rd r = ((t, q), r1)" by (metis prod_cases3 prod.collapse)
  obtain x r2 where r2: "record_step f s pr t q r1 = (x, r2)" by (metis prod.collapse)
  have p: "prefix (lr_reports r) (lr_reports r2)"
    using ReadPhysicalRecord_reports [of r rd] record_step_reports [of r1 f s pr t q] r1 r2 by (auto intro: prefix_order.trans)
  show ?case
  proof (cases x)
    case (Inl a)
    with p r1 r2 show ?thesis by (simp add: read_record_loop.simps [of rd f])
  next
    case (Inr y)
    obtain f' s' pr' where y: "y = (f', s', pr')" by (metis prod_cases3)
    have "prefix (lr_reports r2) (lr_reports (snd (read_record_loop rd f' s' pr' r2)))"
      by (rule "1.IH" [OF r1 [symmetric] refl r2 [symmetric] Inr [unfolded y] refl refl])
    with p have "prefix (lr_reports r) (lr_reports (snd (read_record_loop rd f' s' pr' r2)))" by (rule prefix_order.trans)
    then show ?thesis by (simp add: read_record_loop.simps [of rd f] r1 r2 Inr y)
  qed
qed

lemma ReadRecord_reports: "prefix (lr_reports r) (lr_reports (snd (ReadRecord rd sk r)))"
  using read_record_loop_reports [of r rd]
  by (auto simp: ReadRecord_def SkipToInitialBlock_def Let_def ReportDrop_prefix prefix_ReportDrop split: prod.splits
      intro: prefix_order.trans [OF _ read_record_loop_reports])

lemma read_log_reports: "read_log k rd sk r = (ps, r') \<Longrightarrow> prefix (lr_reports r) (lr_reports r')"
proof (induction k arbitrary: r ps)
  case (Suc k)
  obtain x r1 where r1: "ReadRecord rd sk r = (x, r1)" by (metis prod.collapse)
  have p: "prefix (lr_reports r) (lr_reports r1)" using ReadRecord_reports [of r rd sk] r1 by simp
  show ?case
  proof (cases x)
    case None
    with Suc.prems r1 p show ?thesis by simp
  next
    case (Some q)
    obtain qs r2 where r2: "read_log k rd sk r1 = (qs, r2)" by (metis prod.collapse)
    with Suc.prems r1 Some have "r' = r2" by simp
    with Suc.IH [of r1 qs] r2 p show ?thesis by (auto intro: prefix_order.trans)
  qed
qed simp

lemma recover_record_go:
  assumes "recover_record env cmp p c = Some (True, c')" "12 \<le> length p"
  shows "rc_status c' = OK"
  using assms by (auto simp: recover_record_def Let_def not_less [symmetric] split: prod.splits if_splits)

text \<open>If the reader reports nothing the loop works on the list of the records.\<close>

lemma recover_loop_list:
  assumes "read_log k rd sk r = (ps, r')" "lr_reports r' = lr_reports r" "length ps < k" "rc_status c = OK"
    and "\<forall>p\<in>set ps. 12 \<le> length p"
  shows "recover_loop env cmp rd sk r c = recover_list env cmp ps c"
  using assms
proof (induction k arbitrary: r ps c)
  case (Suc k)
  obtain x r1 where r1: "ReadRecord rd sk r = (x, r1)" by (metis prod.collapse)
  have p1: "prefix (lr_reports r) (lr_reports r1)" using ReadRecord_reports [of r rd sk] r1 by simp
  show ?case
  proof (cases x)
    case None
    with Suc.prems r1 have "lr_reports r1 = lr_reports r" "ps = []" by auto
    moreover from this have "new_reports (re_paranoid_checks env) r r1 (rc_status c) = rc_status c" by (simp add: new_reports_def)
    ultimately show ?thesis using None r1 by (simp add: recover_loop.simps [of env cmp rd sk r])
  next
    case (Some q)
    obtain qs r2 where r2: "read_log k rd sk r1 = (qs, r2)" by (metis prod.collapse)
    with Suc.prems r1 Some have qs: "r' = r2" "ps = q # qs" by simp_all
    then have same: "lr_reports r1 = lr_reports r" "lr_reports r2 = lr_reports r1"
      using p1 read_log_reports [OF r2] Suc.prems(2) by (metis prefix_order.antisym)+
    have "new_reports (re_paranoid_checks env) r r1 (rc_status c) = rc_status c" using same(1) by (simp add: new_reports_def)
    then have status: "c\<lparr>rc_status := new_reports (re_paranoid_checks env) r r1 (rc_status c)\<rparr> = c" by simp
    have go: "recover_loop env cmp rd sk r1 c' = recover_list env cmp qs c'" if "recover_record env cmp q c = Some (True, c')" for c'
      using Suc.IH [of r1 qs c'] r2 same(2) Suc.prems(3,5) recover_record_go [OF that] qs by simp
    show ?thesis
    proof (cases "recover_record env cmp q c")
      case None
      then show ?thesis unfolding recover_loop.simps [of env cmp rd sk r] r1 prod.case Let_def status Some option.case
        using Suc.prems(4) by (simp add: qs)
    next
      case (Some y)
      obtain b c' where "y = (b, c')" by (metis prod.collapse)
      with Some \<open>x = Some q\<close> go [of c'] show ?thesis
        unfolding recover_loop.simps [of env cmp rd sk r] r1 prod.case Let_def status option.case
        using Suc.prems(4) by (cases b) (simp_all add: qs)
    qed
  qed
qed simp

subsection \<open>Batches in the log\<close>

text \<open>A well-formed batch is inserted into the current memory table or a new one.\<close>

lemma recover_record_batch:
  assumes "\<forall>x\<in>set ops. op_fits x" "length ops < 2 ^ 31"
    and "add_all cmp (entries_of s ops) (case rc_mem c of None \<Rightarrow> MemTable | Some mem \<Rightarrow> mem) = Some mem"
  shows "recover_record env cmp (batch_at s ops) c =
    (let last_seq = s + word_of_nat (length ops) - 1;
         c = c\<lparr>rc_status := OK, rc_mem := Some mem, rc_max_sequence := max (rc_max_sequence c) last_seq\<rparr>
     in if re_full env mem
        then (let (status, edit) = re_level0 env mem (rc_edit c)
              in Some (status = OK, c\<lparr>rc_compactions := rc_compactions c + 1, rc_save_manifest := True,
                                      rc_status := status, rc_edit := edit, rc_mem := None\<rparr>))
        else Some (True, c))"
proof -
  have "\<not> length (batch_at s ops) < 12" by simp
  moreover have "max m l = (if m < l then l else m)" for m l :: u64 by (auto simp: max_def)
  ultimately show ?thesis
    using assms(3)
    by (simp add: recover_record_def SetContents_def InsertInto_rep [OF assms(1,2)] MaybeIgnoreError_def Let_def
        scast_count [OF assms(2)] case_prod_beta del: batch_rep_header(6))
qed

subsection \<open>Recovery of a history\<close>

lemma numbered_split:
  "numbered rqs lo (xs @ ys) hi \<Longrightarrow> numbered rqs lo xs hi \<and> numbered rqs lo ys hi"
proof (induction rqs lo xs hi rule: numbered.induct)
  case (1 rqs lo hi)
  then show ?case using numbered_hi by auto
next
  case (2 rqs lo n ids hist hi)
  have low: "numbered rqs lo' ys hi \<Longrightarrow> lo \<le> lo' \<Longrightarrow> numbered rqs lo ys hi" for lo lo'
    by (cases ys) auto
  from 2 have "numbered rqs (n + length (concat (map (rq_ops rqs) ids))) hist hi"
    "numbered rqs (n + length (concat (map (rq_ops rqs) ids))) ys hi" by auto
  with 2(2) low [of "n + length (concat (map (rq_ops rqs) ids))" lo] show ?case by simp
qed

fun batch_of_group :: "request list \<Rightarrow> nat \<times> nat list \<Rightarrow> write_batch" where
  "batch_of_group rqs (n, ids) = batch_at (word_of_nat n + 1) (concat (map (rq_ops rqs) ids))"

lemma log_records_eq: "log_records rqs hist = map (batch_of_group rqs) (filter (group_logged rqs) hist)"
  by (auto simp: log_records_def)

text \<open>Tables that are written out one after the other, as \<open>WriteLevel0Table\<close> records them.\<close>

definition keeps_tables :: "memtable list recover_env \<Rightarrow> bool" where
  "keeps_tables env \<longleftrightarrow> (\<forall>mem tables. re_level0 env mem tables = (OK, tables @ [mem]))"

definition table_of :: "(slice \<Rightarrow> slice \<Rightarrow> int) \<Rightarrow> request list \<Rightarrow> history \<Rightarrow> memtable \<Rightarrow> bool" where
  "table_of cmp rqs h mem \<longleftrightarrow> add_all cmp (hist_entries rqs h) MemTable = Some mem"

definition keys_ok :: "slice set \<Rightarrow> request list \<Rightarrow> history \<Rightarrow> bool" where
  "keys_ok A rqs hist \<longleftrightarrow> (\<forall>i\<in>set (concat (map snd hist)). \<forall>x\<in>set (rq_ops rqs i). op_fits x \<and> op_key x \<in> A)"

lemma keys_ok_subset: "keys_ok A rqs hist \<Longrightarrow> set h \<subseteq> set hist \<Longrightarrow> keys_ok A rqs h"
  unfolding keys_ok_def set_concat set_map by blast

lemma table_of_step:
  assumes cmp: "user_comparator A cmp sep succ" and num: "numbered rqs lo (h @ [(n, ids)]) hi" "hi < 2 ^ 56"
    and keys: "keys_ok A rqs (h @ [(n, ids)])" and c: "table_of cmp rqs h mem"
  shows "\<exists>mem'. add_all cmp (entries_of (word_of_nat n + 1) (concat (map (rq_ops rqs) ids))) mem = Some mem' \<and>
    table_of cmp rqs (h @ [(n, ids)]) mem'"
proof -
  have "\<forall>e\<in>set (hist_entries rqs (h @ [(n, ids)])). entry_ok A e"
    using numbered_entries_ok [OF num] keys unfolding keys_ok_def by blast
  moreover have "sorted_wrt (<) (map (ik_sequence \<circ> fst) (hist_entries rqs (h @ [(n, ids)])))"
    using conjunct1 [OF hist_entries_sorted [OF num]] by (simp add: sorted_wrt_map)
  then have "distinct (map (ik_sequence \<circ> fst) (hist_entries rqs (h @ [(n, ids)])))" by (simp only: strict_sorted_iff)
  then have "distinct (map fst (hist_entries rqs (h @ [(n, ids)])))" by (metis distinct_map map_map)
  ultimately obtain mem' where "table_of cmp rqs (h @ [(n, ids)]) mem'"
    using user_comparator.add_all_ok [OF cmp MemTable_list, of "hist_entries rqs (h @ [(n, ids)])"]
    unfolding table_of_def by (metis empty_iff image_empty list.set(1))
  with c show ?thesis unfolding table_of_def by (simp add: hist_entries_def add_all_append)
qed

text \<open>The state of the loop: the tables written so far and the current one hold the history up to here.\<close>

definition recovered ::
  "(slice \<Rightarrow> slice \<Rightarrow> int) \<Rightarrow> request list \<Rightarrow> memtable list recovery \<Rightarrow> history \<Rightarrow> nat \<Rightarrow> bool" where
  "recovered cmp rqs c hist hi \<longleftrightarrow> rc_status c = OK \<and>
     (\<exists>chunks h. list_all2 (table_of cmp rqs) chunks (rc_edit c) \<and> concat chunks @ h = hist \<and>
       (case rc_mem c of None \<Rightarrow> h = [] | Some mem \<Rightarrow> table_of cmp rqs h mem)) \<and>
     unat (rc_max_sequence c) \<le> hi \<and>
     (\<forall>(n, ids)\<in>set hist. n + length (concat (map (rq_ops rqs) ids)) \<le> unat (rc_max_sequence c))"

lemma recovered_step:
  assumes cmp: "user_comparator A cmp sep succ" and num: "numbered rqs lo (hist @ [(n, ids)]) hi" "hi < 2 ^ 56"
    and keys: "keys_ok A rqs (hist @ [(n, ids)])" and env: "keeps_tables env" and c: "recovered cmp rqs c hist hi"
  shows "\<exists>c'. recover_record env cmp (batch_of_group rqs (n, ids)) c = Some (True, c') \<and> recovered cmp rqs c' (hist @ [(n, ids)]) hi"
proof -
  let ?ops = "concat (map (rq_ops rqs) ids)"
  obtain chunks h where h: "list_all2 (table_of cmp rqs) chunks (rc_edit c)" "concat chunks @ h = hist"
    "case rc_mem c of None \<Rightarrow> h = [] | Some mem \<Rightarrow> table_of cmp rqs h mem"
    and max: "unat (rc_max_sequence c) \<le> hi" "\<forall>(n, ids)\<in>set hist. n + length (concat (map (rq_ops rqs) ids)) \<le> unat (rc_max_sequence c)"
    using c unfolding recovered_def by blast
  define mem where "mem = (case rc_mem c of None \<Rightarrow> MemTable | Some mem \<Rightarrow> mem)"
  have "table_of cmp rqs h mem" using h(3) by (auto simp: mem_def table_of_def hist_entries_def split: option.splits)
  moreover have "numbered rqs lo (h @ [(n, ids)]) hi"
    using numbered_split [of rqs lo "concat chunks" "h @ [(n, ids)]" hi] num(1) h(2) by auto
  moreover have "keys_ok A rqs (h @ [(n, ids)])" using keys unfolding h(2) [symmetric] keys_ok_def by (simp add: ball_Un)
  ultimately obtain mem' where mem': "add_all cmp (entries_of (word_of_nat n + 1) ?ops) mem = Some mem'"
    "table_of cmp rqs (h @ [(n, ids)]) mem'"
    using table_of_step [OF cmp _ num(2)] by blast
  have n: "length ?ops < 2 ^ 31" "n + length ?ops \<le> hi" using num(1) by (auto simp: numbered_append)
  have seq: "word_of_nat n + 1 + word_of_nat (length ?ops) - 1 = (word_of_nat (n + length ?ops) :: u64)"
    "unat (word_of_nat (n + length ?ops) :: u64) = n + length ?ops"
    by simp (rule unat_word_of_nat_less, use n num(2) in simp)
  have fits: "\<forall>x\<in>set ?ops. op_fits x" using keys by (auto simp: keys_ok_def)
  define s where "s = max (rc_max_sequence c) (word_of_nat (n + length ?ops))"
  have s: "unat s \<le> hi" "\<forall>(n, ids)\<in>set (hist @ [(n, ids)]). n + length (concat (map (rq_ops rqs) ids)) \<le> unat s"
    using max n seq(2) by (auto simp: s_def max_def word_le_nat_alt)
  define c1 where "c1 = c\<lparr>rc_status := OK, rc_mem := Some mem', rc_max_sequence := s\<rparr>"
  define c2 where "c2 = c1\<lparr>rc_compactions := rc_compactions c + 1, rc_save_manifest := True,
    rc_status := OK, rc_edit := rc_edit c @ [mem'], rc_mem := None\<rparr>"
  have run: "recover_record env cmp (batch_of_group rqs (n, ids)) c = Some (True, if re_full env mem' then c2 else c1)"
    using recover_record_batch [OF fits n(1) mem'(1) [unfolded mem_def], of env] env
    by (simp add: keeps_tables_def c1_def c2_def s_def seq(1) Let_def)
  have "recovered cmp rqs c1 (hist @ [(n, ids)]) hi"
    unfolding recovered_def c1_def using s h(1) mem'(2) h(2)
    by (simp, intro exI [of _ chunks] conjI exI [of _ "h @ [(n, ids)]"], simp_all)
  moreover have "recovered cmp rqs c2 (hist @ [(n, ids)]) hi"
    unfolding recovered_def c2_def c1_def using s h(1) mem'(2) h(2)
    by (simp, intro exI [of _ "chunks @ [h @ [(n, ids)]]"], simp add: list_all2_appendI)
  ultimately show ?thesis using run by auto
qed

lemma recovered_list:
  assumes cmp: "user_comparator A cmp sep succ" and env: "keeps_tables env"
  shows "numbered rqs lo (hist @ hs) hi \<Longrightarrow> hi < 2 ^ 56 \<Longrightarrow> keys_ok A rqs (hist @ hs) \<Longrightarrow> recovered cmp rqs c hist hi \<Longrightarrow>
    \<exists>c'. recover_list env cmp (map (batch_of_group rqs) hs) c = Some c' \<and> recovered cmp rqs c' (hist @ hs) hi"
proof (induction hs arbitrary: hist c)
  case (Cons g hs)
  obtain n ids where g: "g = (n, ids)" by (cases g)
  have "numbered rqs lo (hist @ [(n, ids)]) hi" "keys_ok A rqs (hist @ [(n, ids)])"
    using numbered_split [of rqs lo "hist @ [g]" hs hi] Cons.prems(1,3) by (auto simp: g keys_ok_def)
  from recovered_step [OF cmp this(1) Cons.prems(2) this(2) env Cons.prems(4)] obtain c1
    where c1: "recover_record env cmp (batch_of_group rqs (n, ids)) c = Some (True, c1)" "recovered cmp rqs c1 (hist @ [(n, ids)]) hi"
    by blast
  with Cons.IH [of "hist @ [g]" c1] Cons.prems show ?case by (simp add: g del: batch_of_group.simps)
qed simp

subsection \<open>Reads after a recovery\<close>

text \<open>A read looks in the tables in turn, the newest first, like \<open>DBImpl::Get\<close> does.\<close>

fun tables_get :: "(slice \<Rightarrow> slice \<Rightarrow> int) \<Rightarrow> LookupKey \<Rightarrow> memtable list \<Rightarrow> get_result option" where
  "tables_get cmp key [] = Some Absent"
| "tables_get cmp key (mem # mems) =
     (case MemTable_Get cmp key mem of Some Absent \<Rightarrow> tables_get cmp key mems | r \<Rightarrow> r)"

lemma last_result_if:
  "last_result rqs u ids =
    (let xs = filter (\<lambda>x. op_key x = u) (concat (map (rq_ops rqs) ids)) in if xs = [] then Absent else op_result (last xs))"
  by (simp add: last_result_def Let_def split: list.splits)

lemma last_result_append:
  "last_result rqs u (xs @ ys) = (case last_result rqs u ys of Absent \<Rightarrow> last_result rqs u xs | r \<Rightarrow> r)"
proof (cases "filter (\<lambda>x. op_key x = u) (concat (map (rq_ops rqs) ys))" rule: rev_cases)
  case Nil
  then show ?thesis by (simp add: last_result_if)
next
  case (snoc zs z)
  have "op_result z \<noteq> Absent" by (cases z) simp_all
  with snoc show ?thesis by (simp add: last_result_if Let_def split: get_result.splits)
qed

lemma tables_get_chunks:
  assumes cmp: "user_comparator A cmp sep succ" and s: "hi < 2 ^ 56" "hi \<le> unat s" "s \<le> kMaxSequenceNumber"
    and u: "u \<in> A" "length u + 8 < 2 ^ 32"
  shows "list_all2 (table_of cmp rqs) chunks tables \<Longrightarrow> numbered rqs lo (concat chunks) hi \<Longrightarrow> keys_ok A rqs (concat chunks) \<Longrightarrow>
    tables_get cmp (new_LookupKey u s) (rev tables) = Some (last_result rqs u (concat (map snd (concat chunks))))"
proof (induction chunks arbitrary: tables rule: rev_induct)
  case Nil
  then show ?case by (simp add: last_result_def)
next
  case (snoc h chunks)
  obtain tables' mem where t: "tables = tables' @ [mem]" "list_all2 (table_of cmp rqs) chunks tables'" "table_of cmp rqs h mem"
    using snoc.prems(1) by (auto simp: list_all2_append1 list_all2_Cons1)
  have num: "numbered rqs lo (concat chunks) hi" "numbered rqs lo h hi"
    using numbered_split [of rqs lo "concat chunks" h hi] snoc.prems(2) by simp_all
  have keys: "keys_ok A rqs (concat chunks)" "keys_ok A rqs h" using snoc.prems(3) by (auto simp: keys_ok_def ball_Un)
  have "MemTable_Get cmp (new_LookupKey u s) mem = Some (last_result rqs u (concat (map snd h)))"
    using history_get [OF cmp num(2) s u keys(2) [unfolded keys_ok_def]] t(3) unfolding table_of_def by auto
  with snoc.IH [OF t(2) num(1) keys(1)] show ?case
    by (auto simp: t(1) last_result_append split: get_result.splits)
qed

lemma logged_prefix:
  "m \<le> length (filter P xs) \<Longrightarrow> \<exists>ys. prefix ys xs \<and> filter P ys = take m (filter P xs) \<and>
    (\<forall>zs. prefix zs xs \<and> length (filter P zs) \<le> m \<longrightarrow> prefix zs ys)"
proof (induction xs arbitrary: m)
  case (Cons x xs)
  show ?case
  proof (cases "P x \<and> m = 0")
    case True
    have "zs = []" if "prefix zs (x # xs)" "length (filter P zs) \<le> m" for zs
      using that True by (cases zs) auto
    with True show ?thesis by (intro exI [of _ "[]"]) auto
  next
    case False
    define m' where "m' = (if P x then m - 1 else m)"
    have "m' \<le> length (filter P xs)" using Cons.prems by (auto simp: m'_def)
    from Cons.IH [OF this] obtain ys where ys: "prefix ys xs" "filter P ys = take m' (filter P xs)"
      "\<forall>zs. prefix zs xs \<and> length (filter P zs) \<le> m' \<longrightarrow> prefix zs ys" by blast
    have "prefix zs (x # ys)" if "prefix zs (x # xs)" "length (filter P zs) \<le> m" for zs
      using that ys(3) False by (cases zs) (auto simp: m'_def split: if_splits)
    moreover have "filter P (x # ys) = take m (filter P (x # xs))" using ys(2) False by (cases m) (auto simp: m'_def)
    ultimately show ?thesis using ys(1) by (intro exI [of _ "x # ys"]) auto
  qed
qed simp

lemma unlogged_entries: "\<not> group_logged rqs g \<Longrightarrow> concat (map (rq_ops rqs) (snd g)) = []"
  by (cases g) (auto simp: group_logged_def rq_ops_def)

lemma last_result_logged:
  "last_result rqs u (concat (map snd (filter (group_logged rqs) hist))) = last_result rqs u (concat (map snd hist))"
proof -
  have "concat (map (rq_ops rqs) (concat (map snd (filter (group_logged rqs) hist)))) =
      concat (map (rq_ops rqs) (concat (map snd hist)))"
    using unlogged_entries by (induction hist) auto
  then show ?thesis by (simp add: last_result_def)
qed

lemma numbered_filter: "numbered rqs lo hist hi \<Longrightarrow> numbered rqs lo (filter P hist) hi"
proof (induction rqs lo hist hi rule: numbered.induct)
  case (2 rqs lo n ids hist hi)
  have low: "numbered rqs lo' ys hi \<Longrightarrow> lo \<le> lo' \<Longrightarrow> numbered rqs lo ys hi" for lo lo' ys
    by (cases ys) (auto dest: order.trans)
  from 2 have "numbered rqs (n + length (concat (map (rq_ops rqs) ids))) (filter P hist) hi" by simp
  with 2(2) low [of "n + length (concat (map (rq_ops rqs) ids))" _ lo] show ?case by simp
qed simp

text \<open>A run from a state, with the threads that enter.\<close>

inductive write_run ::
  "file_io \<Rightarrow> (u8 list \<Rightarrow> bool) \<Rightarrow> (u8 list \<Rightarrow> bool) \<Rightarrow> (slice \<Rightarrow> slice \<Rightarrow> int) \<Rightarrow> request list \<Rightarrow> db \<Rightarrow> nat list \<Rightarrow> db \<Rightarrow> bool"
  for wr fl sy user_cmp rqs d where
  refl: "write_run wr fl sy user_cmp rqs d [] d"
| step: "write_run wr fl sy user_cmp rqs d es d1 \<Longrightarrow> write_step wr fl sy user_cmp rqs d1 e d2 \<Longrightarrow>
    write_run wr fl sy user_cmp rqs d (es @ entering e) d2"

lemma write_run_inv:
  assumes rq: "requests_ok A rqs" and run: "write_run wr fl sy cmp rqs d0 es d"
    and inv: "write_inv wr fl sy cmp rqs d0 fin0 hist0"
  shows "\<exists>fin hist. write_inv wr fl sy cmp rqs d fin hist \<and> fin @ db_writers d = (fin0 @ db_writers d0) @ es \<and> prefix hist0 hist"
  using run
proof induction
  case refl
  then show ?case using inv by auto
next
  case (step es d1 e d2)
  then obtain fin hist where h: "write_inv wr fl sy cmp rqs d1 fin hist" "fin @ db_writers d1 = (fin0 @ db_writers d0) @ es"
    "prefix hist0 hist" by blast
  from write_step_inv [OF rq h(1) step.hyps(2)] obtain fin' hist' where "write_inv wr fl sy cmp rqs d2 fin' hist'"
    "fin' @ db_writers d2 = (fin @ db_writers d1) @ entering e" "prefix hist hist'" by blast
  moreover have "prefix hist0 hist'" by (rule prefix_order.trans [OF h(3) \<open>prefix hist hist'\<close>])
  ultimately show ?case using h(2) by (metis append.assoc)
qed

text \<open>The served writers, from the state alone.\<close>

lemma write_inv_served:
  assumes "write_inv wr fl sy cmp rqs d fin hist" "fin @ db_writers d = entered"
  shows "concat (map snd hist) = acked entered d"
  using write_inv_acked [OF assms(1)] assms(2) by simp

text \<open>What the loop makes of the log of a history, cut off anywhere.\<close>

lemma recover_loop_history:
  assumes cmp: "user_comparator A cmp sep succ" and env: "keeps_tables env" and rd: "\<forall>n. rd n"
    and num: "numbered rqs 0 hist hi" "hi < 2 ^ 56" and keys: "keys_ok A rqs hist"
    and io: "\<forall>f s. wr f s = None" and log: "write_log wr fl (log_records rqs hist) (Writer [] 0) = Some w"
    and c: "recovered cmp rqs c [] hi"
  shows "\<exists>h c'. prefix h hist \<and> recover_loop env cmp rd sk (Reader (take n (lw_dest w)) True True 0) c = Some c' \<and>
    recovered cmp rqs c' (filter (group_logged rqs) h) hi \<and>
    (\<forall>h0 w0. prefix h0 hist \<and> write_log wr fl (log_records rqs h0) (Writer [] 0) = Some w0 \<and> length (lw_dest w0) \<le> n \<longrightarrow>
      prefix h0 h)"
proof -
  let ?ps = "log_records rqs hist" and ?r = "Reader (take n (lw_dest w)) True True 0"
  obtain m r where m: "read_log (Suc (length ?ps)) rd sk ?r = (take m ?ps, r)" "lr_reports r = []" "m \<le> length ?ps"
    "\<And>j wj. j \<le> length ?ps \<Longrightarrow> write_log wr fl (take j ?ps) (Writer [] 0) = Some wj \<Longrightarrow> j \<le> m \<longleftrightarrow> length (lw_dest wj) \<le> n"
    using log_prefix_recovery [OF io rd log lessI, of sk n True True] by blast
  have "m \<le> length (filter (group_logged rqs) hist)" using m(3) by (simp add: log_records_eq)
  from logged_prefix [OF this] obtain h where h: "prefix h hist"
    "filter (group_logged rqs) h = take m (filter (group_logged rqs) hist)"
    "\<And>zs. prefix zs hist \<Longrightarrow> length (filter (group_logged rqs) zs) \<le> m \<Longrightarrow> prefix zs h" by blast
  have ps: "take m ?ps = map (batch_of_group rqs) (filter (group_logged rqs) h)"
    unfolding log_records_eq h(2) by (rule take_map)
  have big: "\<forall>p\<in>set (take m ?ps). 12 \<le> length p" unfolding ps by auto
  have no_reports: "lr_reports ?r = []" by (simp add: Reader_def)
  have loop: "recover_loop env cmp rd sk ?r c = recover_list env cmp (take m ?ps) c"
  proof (rule recover_loop_list [OF m(1) _ _ _ big])
    show "rc_status c = OK" using c by (simp add: recovered_def)
  qed (use m(2,3) no_reports in simp_all)
  obtain rest where rest: "hist = h @ rest" using h(1) by (auto simp: prefix_def)
  have "numbered rqs 0 (filter (group_logged rqs) h) hi"
    using numbered_filter numbered_split [of rqs 0 h rest hi] num(1) rest by blast
  moreover have "keys_ok A rqs (filter (group_logged rqs) h)" by (rule keys_ok_subset [OF keys]) (auto simp: rest)
  ultimately obtain c' where "recover_list env cmp (map (batch_of_group rqs) (filter (group_logged rqs) h)) c = Some c'"
    "recovered cmp rqs c' (filter (group_logged rqs) h) hi"
    using recovered_list [OF cmp env, of rqs 0 "[]" "filter (group_logged rqs) h" hi c] num(2) c by auto
  moreover have "prefix h0 h" if h0: "prefix h0 hist" "write_log wr fl (log_records rqs h0) (Writer [] 0) = Some w0"
    "length (lw_dest w0) \<le> n" for h0 w0
  proof -
    let ?j = "length (log_records rqs h0)"
    have "take ?j ?ps = log_records rqs h0" "?j \<le> length ?ps" using h0(1) by (auto simp: prefix_def log_records_eq)
    then have "?j \<le> m" using m(4) [of ?j w0] h0(2,3) by simp
    then show ?thesis using h(3) [OF h0(1)] by (simp add: log_records_eq)
  qed
  ultimately show ?thesis using h(1) loop ps by auto
qed

lemma numbered_lower:
  "numbered rqs lo hist hi \<Longrightarrow> lo \<le> hi' \<Longrightarrow> \<forall>(n, ids)\<in>set hist. n + length (concat (map (rq_ops rqs) ids)) \<le> hi' \<Longrightarrow>
    numbered rqs lo hist hi'"
  by (induction rqs lo hist hi rule: numbered.induct) auto

text \<open>The tables that a recovery leaves, the newest first.\<close>

definition recovered_tables :: "memtable list recovery \<Rightarrow> (log_writer \<times> memtable) option \<Rightarrow> memtable list" where
  "recovered_tables c reused = (case reused of None \<Rightarrow> [] | Some (log, mem) \<Rightarrow> [mem]) @ rev (rc_edit c)"

lemma RecoverLogFile_recovered:
  assumes loop: "recover_loop env cmp rd sk (Reader file True True 0)
      \<lparr>rc_status = OK, rc_mem = None, rc_max_sequence = m, rc_edit = [], rc_save_manifest = False, rc_compactions = 0\<rparr> = Some c"
    and c: "recovered cmp rqs c hist hi" and env: "keeps_tables env"
  shows "\<exists>c' reused chunks. RecoverLogFile env cmp rd sk OK last_log reuse_logs append_ok file [] m = Some (OK, c', reused) \<and>
    list_all2 (table_of cmp rqs) chunks (rev (recovered_tables c' reused)) \<and> concat chunks = hist \<and>
    rc_max_sequence c' = rc_max_sequence c"
proof -
  obtain chunks h where h: "list_all2 (table_of cmp rqs) chunks (rc_edit c)" "concat chunks @ h = hist"
    "case rc_mem c of None \<Rightarrow> h = [] | Some mem \<Rightarrow> table_of cmp rqs h mem" and st: "rc_status c = OK"
    using c unfolding recovered_def by blast
  let ?reuse = "reuse_logs \<and> last_log \<and> rc_compactions c = 0 \<and> append_ok"
  have fresh: "table_of cmp rqs [] MemTable" by (simp add: table_of_def hist_entries_def)
  have more: "list_all2 (table_of cmp rqs) (chunks @ [h]) (rc_edit c @ [mem])" if "table_of cmp rqs h mem" for mem
    using h(1) that by (intro list_all2_appendI) simp_all
  show ?thesis
  proof (cases "?reuse")
    case True
    define mem where "mem = (case rc_mem c of None \<Rightarrow> MemTable | Some mem \<Rightarrow> mem)"
    have "table_of cmp rqs h mem" using h(3) fresh by (auto simp: mem_def split: option.splits)
    moreover have "RecoverLogFile env cmp rd sk OK last_log reuse_logs append_ok file [] m =
        Some (OK, c, Some (Writer file (length file), mem))"
      using True st by (simp add: RecoverLogFile_def loop mem_def)
    ultimately show ?thesis using more h(2) by (intro exI [of _ c] exI [of _ "Some (Writer file (length file), mem)"]
          exI [of _ "chunks @ [h]"]) (simp add: recovered_tables_def)
  next
    case False
    show ?thesis
    proof (cases "rc_mem c")
      case None
      then have "RecoverLogFile env cmp rd sk OK last_log reuse_logs append_ok file [] m = Some (OK, c, None)"
        using False st by (auto simp: RecoverLogFile_def loop)
      with None h show ?thesis by (intro exI [of _ c] exI [of _ None] exI [of _ chunks]) (simp add: recovered_tables_def)
    next
      case (Some mem)
      define c' where "c' = c\<lparr>rc_save_manifest := True, rc_edit := rc_edit c @ [mem]\<rparr>"
      have "RecoverLogFile env cmp rd sk OK last_log reuse_logs append_ok file [] m = Some (OK, c', None)"
        using False Some st env by (auto simp: RecoverLogFile_def loop c'_def keeps_tables_def)
      with more [of mem] Some h(2,3) show ?thesis
        by (intro exI [of _ c'] exI [of _ None] exI [of _ "chunks @ [h]"]) (simp add: recovered_tables_def c'_def)
    qed
  qed
qed

text \<open>
  Property C1. No acknowledged write is lost in a crash, and no batch is recovered in part: if the file
  operations do not fail, the recovery of any first part of the log that contains what was written when the
  database was in an earlier state succeeds, and every read from the recovered tables gives the last
  operation on its key of a list of writes that starts with all that had returned OK in the earlier state
  and goes on with some that returned OK later, in their order; whatever memory tables are flushed during
  the recovery, with or without paranoid checks, and whether or not the log is reused.
\<close>

theorem crash_recovery:
  assumes "user_comparator A cmp sep succ" "requests_ok A rqs" "io_reliable wr fl sy" "\<forall>n. rd n" "keeps_tables env"
    and "write_reach wr fl sy cmp rqs entered d0" "write_run wr fl sy cmp rqs d0 es d" "length (lw_dest (db_log d0)) \<le> n"
  shows "\<exists>c reused served.
    RecoverLogFile env cmp rd sk OK last_log reuse_logs append_ok (take n (lw_dest (db_log d))) [] 0 = Some (OK, c, reused) \<and>
    prefix (acked entered d0) served \<and> prefix served (acked (entered @ es) d) \<and>
    (\<forall>u\<in>A. length u + 8 < 2 ^ 32 \<longrightarrow>
      tables_get cmp (new_LookupKey u (rc_max_sequence c)) (recovered_tables c reused) = Some (last_result rqs u served))"
proof -
  obtain fin0 hist0 where inv0: "write_inv wr fl sy cmp rqs d0 fin0 hist0" "fin0 @ db_writers d0 = entered"
    using write_reach_inv [OF assms(2,6)] by blast
  obtain fin hist where inv: "write_inv wr fl sy cmp rqs d fin hist" "fin @ db_writers d = entered @ es" "prefix hist0 hist"
    using write_run_inv [OF assms(2,7) inv0(1)] unfolding inv0(2) by blast
  note num = write_invD(9) [OF inv(1)] and small = write_inv_sequence(1) [OF inv(1) assms(2)]
  have keys: "keys_ok A rqs hist" using write_inv_keys [OF inv(1) assms(2)] by (simp only: keys_ok_def)
  have io: "\<forall>f s. wr f s = None" using assms(3) by (simp add: io_reliable_def)
  have log: "write_log wr fl (log_records rqs hist) (Writer [] 0) = Some (db_log d)"
    "write_log wr fl (log_records rqs hist0) (Writer [] 0) = Some (db_log d0)"
    using write_invD(11) [OF inv(1)] write_invD(11) [OF inv0(1)] assms(3) by blast+
  let ?c = "\<lparr>rc_status = OK, rc_mem = None, rc_max_sequence = 0, rc_edit = [], rc_save_manifest = False, rc_compactions = 0\<rparr>"
  have "recovered cmp rqs ?c [] (unat (db_last_sequence d))" by (auto simp: recovered_def intro: exI [of _ "[]"])
  from recover_loop_history [OF assms(1,5,4) num small keys io log(1) this, of sk n] obtain h c
    where h: "prefix h hist" "recover_loop env cmp rd sk (Reader (take n (lw_dest (db_log d))) True True 0) ?c = Some c"
      "recovered cmp rqs c (filter (group_logged rqs) h) (unat (db_last_sequence d))"
      "\<And>h0 w0. prefix h0 hist \<Longrightarrow> write_log wr fl (log_records rqs h0) (Writer [] 0) = Some w0 \<Longrightarrow>
        length (lw_dest w0) \<le> n \<Longrightarrow> prefix h0 h" by blast
  let ?h = "filter (group_logged rqs) h" and ?served = "concat (map snd h)"
  obtain c' reused chunks where r:
    "RecoverLogFile env cmp rd sk OK last_log reuse_logs append_ok (take n (lw_dest (db_log d))) [] 0 = Some (OK, c', reused)"
    "list_all2 (table_of cmp rqs) chunks (rev (recovered_tables c' reused))" "concat chunks = ?h"
    "rc_max_sequence c' = rc_max_sequence c"
    using RecoverLogFile_recovered [OF h(2,3) assms(5)] by blast
  obtain rest where rest: "hist = h @ rest" using h(1) by (auto simp: prefix_def)
  have max: "unat (rc_max_sequence c) \<le> unat (db_last_sequence d)"
    "\<forall>(n, ids)\<in>set ?h. n + length (concat (map (rq_ops rqs) ids)) \<le> unat (rc_max_sequence c)"
    using h(3) by (auto simp: recovered_def)
  have "numbered rqs 0 ?h (unat (db_last_sequence d))"
    using numbered_filter numbered_split [of rqs 0 h rest] num unfolding rest by blast
  then have num_h: "numbered rqs 0 ?h (unat (rc_max_sequence c))" by (rule numbered_lower) (use max(2) in simp_all)
  have keys_h: "keys_ok A rqs ?h" by (rule keys_ok_subset [OF keys]) (auto simp: rest)
  have s: "unat (rc_max_sequence c) < 2 ^ 56" "rc_max_sequence c \<le> kMaxSequenceNumber"
    using max(1) small by (auto simp: kMaxSequenceNumber_def word_le_nat_alt)
  have "tables_get cmp (new_LookupKey u (rc_max_sequence c')) (recovered_tables c' reused) = Some (last_result rqs u ?served)"
    if "u \<in> A" "length u + 8 < 2 ^ 32" for u
    using tables_get_chunks [OF assms(1) s(1) le_refl s(2) that r(2)] num_h keys_h
    by (simp add: r(3,4) last_result_logged)
  moreover have "prefix hist0 h" by (rule h(4) [OF inv(3) log(2) assms(8)])
  then have "prefix (acked entered d0) ?served"
    unfolding write_inv_served [OF inv0, symmetric] by (auto simp: prefix_def)
  moreover have "prefix ?served (acked (entered @ es) d)"
    unfolding write_inv_served [OF inv(1,2), symmetric] rest by simp
  ultimately show ?thesis using r(1) by blast
qed

text \<open>A write that has returned is read back after the recovery of its log.\<close>

lemma crash_recovery_witness:
  "\<exists>d c reused. write_reach (\<lambda>_ _. None) (\<lambda>_. True) (\<lambda>_. True) Bytewise_Compare [(Some [PutOp [1] [7]], False)] [0] d \<and>
    RecoverLogFile \<lparr>re_paranoid_checks = True, re_full = (\<lambda>_. True), re_level0 = (\<lambda>mem tables. (OK, tables @ [mem]))\<rparr>
      Bytewise_Compare (\<lambda>_. True) (\<lambda>_. True) OK True True True (lw_dest (db_log d)) [] 0 = Some (OK, c, reused) \<and>
    tables_get Bytewise_Compare (new_LookupKey [1] (rc_max_sequence c)) (recovered_tables c reused) = Some (Value [7])"
proof -
  let ?rqs = "[(Some [PutOp [1] [7]], False)] :: request list"
  let ?env = "\<lparr>re_paranoid_checks = True, re_full = (\<lambda>_. True), re_level0 = (\<lambda>mem tables. (OK, tables @ [mem]))\<rparr>"
  have rq: "requests_ok UNIV ?rqs" by (simp add: requests_ok_def rq_ops_def)
  have h: "io_reliable (\<lambda>_ _. None) (\<lambda>_. True) (\<lambda>_. True)" "\<forall>n::nat. (\<lambda>_. True) n" "keeps_tables ?env"
    by (simp_all add: io_reliable_def keeps_tables_def)
  obtain d where d: "write_reach (\<lambda>_ _. None) (\<lambda>_. True) (\<lambda>_. True) Bytewise_Compare ?rqs [0] d" "acked [0] d = [0]"
    using single_write by blast
  obtain c reused served where r: "RecoverLogFile ?env Bytewise_Compare (\<lambda>_. True) (\<lambda>_. True) OK True True True
      (take (length (lw_dest (db_log d))) (lw_dest (db_log d))) [] 0 = Some (OK, c, reused)"
    "prefix (acked [0] d) served" "prefix served (acked ([0] @ []) d)"
    "\<forall>u\<in>UNIV. length u + 8 < 2 ^ 32 \<longrightarrow>
      tables_get Bytewise_Compare (new_LookupKey u (rc_max_sequence c)) (recovered_tables c reused) = Some (last_result ?rqs u served)"
    using crash_recovery [OF bytewise_internal.user_comparator_axioms rq h d(1) write_run.refl le_refl] by blast
  have "served = [0]" using r(2,3) d(2) by (simp add: prefix_order.eq_iff)
  then have "tables_get Bytewise_Compare (new_LookupKey [1] (rc_max_sequence c)) (recovered_tables c reused) = Some (Value [7])"
    using r(4) by (simp add: last_result_def rq_ops_def)
  with r(1) d(1) show ?thesis by auto
qed

end
