(* ===== verification/LDB_VersionEdit.thy ===== *)
theory LDB_VersionEdit
  imports LDB_Batch "HOL-Library.Product_Lexorder"
begin

text \<open>
  Version edits (\<open>db/version_edit.cc\<close>, \<open>db/version_edit.h\<close>): the records of the manifest, each a change of
  the set of table files. An internal key is the bytes of its \<open>rep_\<close>; the set of deleted files is a set of
  pairs, which \<open>std::set\<close> iterates in ascending order.
\<close>

subsection \<open>Edits\<close>

definition kComparator :: u32 where "kComparator = 1"

definition kLogNumber :: u32 where "kLogNumber = 2"

definition kNextFileNumber :: u32 where "kNextFileNumber = 3"

definition kLastSequence :: u32 where "kLastSequence = 4"

definition kCompactPointer :: u32 where "kCompactPointer = 5"

definition kDeletedFile :: u32 where "kDeletedFile = 6"

definition kNewFile :: u32 where "kNewFile = 7"

definition kPrevLogNumber :: u32 where "kPrevLogNumber = 9"

definition kNumLevels :: nat where "kNumLevels = 7"

record FileMetaData =
  fm_refs :: int
  fm_allowed_seeks :: int
  fm_number :: u64
  fm_file_size :: u64
  fm_smallest :: slice
  fm_largest :: slice

record VersionEdit =
  ve_comparator :: slice
  ve_log_number :: u64
  ve_prev_log_number :: u64
  ve_next_file_number :: u64
  ve_last_sequence :: SequenceNumber
  ve_has_comparator :: bool
  ve_has_log_number :: bool
  ve_has_prev_log_number :: bool
  ve_has_next_file_number :: bool
  ve_has_last_sequence :: bool
  ve_compact_pointers :: "(int \<times> slice) list"
  ve_deleted_files :: "(int \<times> u64) set"
  ve_new_files :: "(int \<times> FileMetaData) list"

text \<open>\<open>Clear\<close> leaves the compaction pointers as they are.\<close>

definition VersionEdit_Clear :: "VersionEdit \<Rightarrow> VersionEdit" where
  "VersionEdit_Clear e =
     e\<lparr>ve_comparator := [], ve_log_number := 0, ve_prev_log_number := 0, ve_last_sequence := 0, ve_next_file_number := 0,
       ve_has_comparator := False, ve_has_log_number := False, ve_has_prev_log_number := False,
       ve_has_next_file_number := False, ve_has_last_sequence := False, ve_deleted_files := {}, ve_new_files := []\<rparr>"

definition new_FileMetaData :: "u64 \<Rightarrow> u64 \<Rightarrow> slice \<Rightarrow> slice \<Rightarrow> FileMetaData" where
  "new_FileMetaData number file_size smallest largest =
     \<lparr>fm_refs = 0, fm_allowed_seeks = push_bit 30 1, fm_number = number, fm_file_size = file_size,
      fm_smallest = smallest, fm_largest = largest\<rparr>"

definition SetComparatorName :: "slice \<Rightarrow> VersionEdit \<Rightarrow> VersionEdit" where
  "SetComparatorName name e = e\<lparr>ve_has_comparator := True, ve_comparator := name\<rparr>"

definition SetLogNumber :: "u64 \<Rightarrow> VersionEdit \<Rightarrow> VersionEdit" where
  "SetLogNumber num e = e\<lparr>ve_has_log_number := True, ve_log_number := num\<rparr>"

definition SetPrevLogNumber :: "u64 \<Rightarrow> VersionEdit \<Rightarrow> VersionEdit" where
  "SetPrevLogNumber num e = e\<lparr>ve_has_prev_log_number := True, ve_prev_log_number := num\<rparr>"

definition SetNextFile :: "u64 \<Rightarrow> VersionEdit \<Rightarrow> VersionEdit" where
  "SetNextFile num e = e\<lparr>ve_has_next_file_number := True, ve_next_file_number := num\<rparr>"

definition SetLastSequence :: "SequenceNumber \<Rightarrow> VersionEdit \<Rightarrow> VersionEdit" where
  "SetLastSequence seq e = e\<lparr>ve_has_last_sequence := True, ve_last_sequence := seq\<rparr>"

definition SetCompactPointer :: "int \<Rightarrow> slice \<Rightarrow> VersionEdit \<Rightarrow> VersionEdit" where
  "SetCompactPointer level key e = e\<lparr>ve_compact_pointers := ve_compact_pointers e @ [(level, key)]\<rparr>"

definition AddFile :: "int \<Rightarrow> u64 \<Rightarrow> u64 \<Rightarrow> slice \<Rightarrow> slice \<Rightarrow> VersionEdit \<Rightarrow> VersionEdit" where
  "AddFile level file file_size smallest largest e =
     e\<lparr>ve_new_files := ve_new_files e @ [(level, new_FileMetaData file file_size smallest largest)]\<rparr>"

definition DeleteFile :: "int \<Rightarrow> u64 \<Rightarrow> VersionEdit \<Rightarrow> VersionEdit" where
  "DeleteFile level file e = e\<lparr>ve_deleted_files := insert (level, file) (ve_deleted_files e)\<rparr>"

subsection \<open>Encoding\<close>

text \<open>An \<open>int\<close> that is passed on as an unsigned number.\<close>

definition put_compact_pointer :: "u8 list \<Rightarrow> int \<times> slice \<Rightarrow> u8 list" where
  "put_compact_pointer dst p =
     PutLengthPrefixedSlice (PutVarint32 (PutVarint32 dst kCompactPointer) (word_of_int (fst p))) (snd p)"

definition put_deleted_file :: "u8 list \<Rightarrow> int \<times> u64 \<Rightarrow> u8 list" where
  "put_deleted_file dst p = PutVarint64 (PutVarint32 (PutVarint32 dst kDeletedFile) (word_of_int (fst p))) (snd p)"

definition put_new_file :: "u8 list \<Rightarrow> int \<times> FileMetaData \<Rightarrow> u8 list" where
  "put_new_file dst p =
     (let f = snd p;
          dst = PutVarint32 dst kNewFile;
          dst = PutVarint32 dst (word_of_int (fst p));
          dst = PutVarint64 dst (fm_number f);
          dst = PutVarint64 dst (fm_file_size f);
          dst = PutLengthPrefixedSlice dst (fm_smallest f)
      in PutLengthPrefixedSlice dst (fm_largest f))"

definition EncodeTo :: "VersionEdit \<Rightarrow> u8 list \<Rightarrow> u8 list" where
  "EncodeTo e dst =
     (let dst = (if ve_has_comparator e then PutLengthPrefixedSlice (PutVarint32 dst kComparator) (ve_comparator e) else dst);
          dst = (if ve_has_log_number e then PutVarint64 (PutVarint32 dst kLogNumber) (ve_log_number e) else dst);
          dst = (if ve_has_prev_log_number e then PutVarint64 (PutVarint32 dst kPrevLogNumber) (ve_prev_log_number e) else dst);
          dst = (if ve_has_next_file_number e then PutVarint64 (PutVarint32 dst kNextFileNumber) (ve_next_file_number e) else dst);
          dst = (if ve_has_last_sequence e then PutVarint64 (PutVarint32 dst kLastSequence) (ve_last_sequence e) else dst);
          dst = foldl put_compact_pointer dst (ve_compact_pointers e);
          dst = foldl put_deleted_file dst (sorted_list_of_set (ve_deleted_files e))
      in foldl put_new_file dst (ve_new_files e))"

subsection \<open>Decoding\<close>

definition GetInternalKey :: "(slice, slice) prog" where
  "GetInternalKey = GetLengthPrefixedSlice"

definition GetLevel :: "(slice, int) prog" where
  "GetLevel = obind GetVarint32 (\<lambda>v input. if unat v < kNumLevels then (Some (uint v), input) else (None, input))"

text \<open>One field after its tag: the error message or the edit.\<close>

definition get_field ::
  "(slice, 'a) prog \<Rightarrow> ('a \<Rightarrow> VersionEdit) \<Rightarrow> string \<Rightarrow> slice \<Rightarrow> (string + VersionEdit) \<times> slice" where
  "get_field get upd msg input =
     (case get input of (Some x, input) \<Rightarrow> (Inr (upd x), input) | (None, input) \<Rightarrow> (Inl msg, input))"

definition decode_field :: "u32 \<Rightarrow> VersionEdit \<Rightarrow> slice \<Rightarrow> (string + VersionEdit) \<times> slice" where
  "decode_field tag e =
     (if tag = kComparator then get_field GetLengthPrefixedSlice (\<lambda>str. SetComparatorName str e) ''comparator name''
      else if tag = kLogNumber then get_field GetVarint64 (\<lambda>n. SetLogNumber n e) ''log number''
      else if tag = kPrevLogNumber then get_field GetVarint64 (\<lambda>n. SetPrevLogNumber n e) ''previous log number''
      else if tag = kNextFileNumber then get_field GetVarint64 (\<lambda>n. SetNextFile n e) ''next file number''
      else if tag = kLastSequence then get_field GetVarint64 (\<lambda>n. SetLastSequence n e) ''last sequence number''
      else if tag = kCompactPointer then
        get_field (obind GetLevel (\<lambda>level. obind GetInternalKey (\<lambda>key. oret (level, key))))
          (\<lambda>(level, key). SetCompactPointer level key e) ''compaction pointer''
      else if tag = kDeletedFile then
        get_field (obind GetLevel (\<lambda>level. obind GetVarint64 (\<lambda>number. oret (level, number))))
          (\<lambda>(level, number). DeleteFile level number e) ''deleted file''
      else if tag = kNewFile then
        get_field (obind GetLevel (\<lambda>level. obind GetVarint64 (\<lambda>number. obind GetVarint64 (\<lambda>file_size.
            obind GetInternalKey (\<lambda>smallest. obind GetInternalKey (\<lambda>largest. oret (level, number, file_size, smallest, largest)))))))
          (\<lambda>(level, number, file_size, smallest, largest). AddFile level number file_size smallest largest e) ''new-file entry''
      else Pair (Inl ''unknown tag''))"

text \<open>The readers do not lengthen the input.\<close>

definition shrinking :: "(slice, 'a) prog \<Rightarrow> bool" where
  "shrinking m \<longleftrightarrow> (\<forall>p. length (snd (m p)) \<le> length p)"

lemma shrinking_obind [intro]: "shrinking m \<Longrightarrow> (\<And>a. shrinking (f a)) \<Longrightarrow> shrinking (obind m f)"
proof -
  assume m: "shrinking m" and f: "\<And>a. shrinking (f a)"
  have "length (snd (obind m f p)) \<le> length p" for p
  proof -
    obtain x q where x: "m p = (x, q)" by (metis prod.collapse)
    then have q: "length q \<le> length p" using m by (metis shrinking_def snd_conv)
    show ?thesis
    proof (cases x)
      case None
      with x q show ?thesis by (simp add: obind_def)
    next
      case (Some a)
      have "length (snd (f a q)) \<le> length q" using f by (simp add: shrinking_def)
      with x q Some show ?thesis by (simp add: obind_def)
    qed
  qed
  then show ?thesis by (simp add: shrinking_def)
qed

lemma shrinking_oret [intro]: "shrinking (oret a)"
  by (simp add: shrinking_def oret_def)

lemma shrinking_GetVarint [intro]: "shrinking GetVarint32" "shrinking GetVarint64"
  by (auto simp: shrinking_def GetVarint32_def GetVarint64_def GetVarint32Ptr_eq GetVarint64Ptr_def
      dest!: varint_ptr_loop_shorter split: option.splits)

lemma shrinking_GetLengthPrefixedSlice [intro]: "shrinking GetLengthPrefixedSlice"
  unfolding GetLengthPrefixedSlice_def by (intro shrinking_obind shrinking_GetVarint) (simp add: shrinking_def)

lemma shrinking_GetLevel [intro]: "shrinking GetLevel"
  unfolding GetLevel_def by (intro shrinking_obind shrinking_GetVarint) (simp add: shrinking_def)

lemma get_field_left: "shrinking m \<Longrightarrow> length (snd (get_field m upd msg input)) \<le> length input"
  by (auto simp: shrinking_def get_field_def split: option.splits prod.splits) (metis snd_conv)+

lemma decode_field_left: "length (snd (decode_field tag e input)) \<le> length input"
  unfolding decode_field_def GetInternalKey_def
  by (auto intro!: get_field_left shrinking_obind shrinking_oret)

lemma GetVarint32_less: "GetVarint32 p = (Some v, q) \<Longrightarrow> length q < length p"
  by (auto simp: GetVarint32_def GetVarint32Ptr_eq dest!: varint_ptr_loop_shorter split: option.splits)

function decode_loop :: "VersionEdit \<Rightarrow> slice \<Rightarrow> string option \<times> VersionEdit \<times> slice" where
  "decode_loop e input =
     (case GetVarint32 input of
        (None, input) \<Rightarrow> (None, e, input)
      | (Some tag, input) \<Rightarrow>
          (case decode_field tag e input of
             (Inl msg, input) \<Rightarrow> (Some msg, e, input)
           | (Inr e, input) \<Rightarrow> decode_loop e input))"
  by pat_completeness auto
termination
proof (relation "measure (\<lambda>(e, input). length input)", goal_cases)
  case (2 e input r input1 tag x input2 e')
  then have "GetVarint32 input = (Some tag, input1)" "decode_field tag e input1 = (Inr e', input2)" by simp_all
  then show ?case using GetVarint32_less decode_field_left [of tag e input1] by fastforce
qed simp

declare decode_loop.simps [simp del]

definition VersionEdit_DecodeFrom :: "slice \<Rightarrow> VersionEdit \<Rightarrow> Status \<times> VersionEdit" where
  "VersionEdit_DecodeFrom src e =
     (let (msg, e, input) = decode_loop (VersionEdit_Clear e) src;
          msg = (if msg = None \<and> input \<noteq> [] then Some ''invalid tag'' else msg)
      in case msg of None \<Rightarrow> (OK, e) | Some msg \<Rightarrow> (Corruption (''VersionEdit: '' @ msg), e))"

subsection \<open>What is written is read back\<close>

lemma decode_loop_tag:
  "decode_loop e (PutVarint32 [] tag @ input) =
    (case decode_field tag e input of (Inl msg, input) \<Rightarrow> (Some msg, e, input) | (Inr e, input) \<Rightarrow> decode_loop e input)"
  by (subst decode_loop.simps) (simp add: PutVarint32_def GetVarint32_enc)

lemmas version_tags = kComparator_def kLogNumber_def kNextFileNumber_def kLastSequence_def kCompactPointer_def
  kDeletedFile_def kNewFile_def kPrevLogNumber_def

lemma GetLevel_put:
  assumes "0 \<le> level" "level < int kNumLevels"
  shows "GetLevel (PutVarint32 [] (word_of_int level) @ rest) = (Some level, rest)"
proof -
  have "uint (word_of_int level :: u32) = level"
    using assms by (simp add: uint_word_of_int kNumLevels_def)
  moreover from this have "unat (word_of_int level :: u32) < kNumLevels" using assms unfolding unat_eq_nat_uint by linarith
  ultimately show ?thesis by (simp add: GetLevel_def obind_def PutVarint32_def GetVarint32_enc)
qed

lemma GetVarint64_put: "GetVarint64 (PutVarint64 [] v @ rest) = (Some v, rest)"
  by (simp add: PutVarint64_def GetVarint64_enc)

lemma Put_append:
  "PutVarint32 dst v = dst @ PutVarint32 [] v" "PutVarint64 dst w = dst @ PutVarint64 [] w"
  by (simp_all add: PutVarint32_def PutVarint64_def)

text \<open>The bytes of the fields, each behind its tag.\<close>

definition opt_field :: "bool \<Rightarrow> u32 \<Rightarrow> u8 list \<Rightarrow> u8 list" where
  "opt_field has tag bytes = (if has then PutVarint32 [] tag @ bytes else [])"

definition pointer_bytes :: "int \<times> slice \<Rightarrow> u8 list" where
  "pointer_bytes p = PutVarint32 [] kCompactPointer @ PutVarint32 [] (word_of_int (fst p)) @ PutLengthPrefixedSlice [] (snd p)"

definition deleted_bytes :: "int \<times> u64 \<Rightarrow> u8 list" where
  "deleted_bytes p = PutVarint32 [] kDeletedFile @ PutVarint32 [] (word_of_int (fst p)) @ PutVarint64 [] (snd p)"

definition file_bytes :: "int \<times> FileMetaData \<Rightarrow> u8 list" where
  "file_bytes p = PutVarint32 [] kNewFile @ PutVarint32 [] (word_of_int (fst p)) @ PutVarint64 [] (fm_number (snd p)) @
     PutVarint64 [] (fm_file_size (snd p)) @ PutLengthPrefixedSlice [] (fm_smallest (snd p)) @
     PutLengthPrefixedSlice [] (fm_largest (snd p))"

lemma foldl_append_bytes:
  assumes "\<And>dst x. f dst x = dst @ g x"
  shows "foldl f dst xs = dst @ concat (map g xs)"
  by (induction xs arbitrary: dst) (simp_all add: assms)

lemma put_bytes:
  "put_compact_pointer dst p = dst @ pointer_bytes p"
  "put_deleted_file dst q = dst @ deleted_bytes q"
  "put_new_file dst r = dst @ file_bytes r"
  by (simp_all add: put_compact_pointer_def put_deleted_file_def put_new_file_def pointer_bytes_def deleted_bytes_def
      file_bytes_def Let_def PutLengthPrefixedSlice_def PutVarint32_def PutVarint64_def)

lemma EncodeTo_bytes:
  "EncodeTo e dst = dst @
    opt_field (ve_has_comparator e) kComparator (PutLengthPrefixedSlice [] (ve_comparator e)) @
    opt_field (ve_has_log_number e) kLogNumber (PutVarint64 [] (ve_log_number e)) @
    opt_field (ve_has_prev_log_number e) kPrevLogNumber (PutVarint64 [] (ve_prev_log_number e)) @
    opt_field (ve_has_next_file_number e) kNextFileNumber (PutVarint64 [] (ve_next_file_number e)) @
    opt_field (ve_has_last_sequence e) kLastSequence (PutVarint64 [] (ve_last_sequence e)) @
    concat (map pointer_bytes (ve_compact_pointers e)) @
    concat (map deleted_bytes (sorted_list_of_set (ve_deleted_files e))) @
    concat (map file_bytes (ve_new_files e))"
proof -
  have s: "PutLengthPrefixedSlice (d @ b) x = d @ PutLengthPrefixedSlice b x" "PutVarint64 (d @ b) y = d @ PutVarint64 b y" for d b x y
    by (simp_all add: PutLengthPrefixedSlice_def PutVarint32_def PutVarint64_def)
  have o: "(if has then PutLengthPrefixedSlice (PutVarint32 d tag) x else d) = d @ opt_field has tag (PutLengthPrefixedSlice [] x)"
    "(if has then PutVarint64 (PutVarint32 d tag) y else d) = d @ opt_field has tag (PutVarint64 [] y)" for has d tag x y
    by (simp_all add: opt_field_def PutLengthPrefixedSlice_def PutVarint32_def PutVarint64_def)
  show ?thesis
    unfolding EncodeTo_def Let_def o foldl_append_bytes [of put_compact_pointer, OF put_bytes(1)]
      foldl_append_bytes [of put_deleted_file, OF put_bytes(2)] foldl_append_bytes [of put_new_file, OF put_bytes(3)] by simp
qed

lemma decode_opt_field:
  assumes "\<And>e rest. has \<Longrightarrow> decode_field tag e (bytes @ rest) = (Inr (upd e), rest)"
  shows "decode_loop e (opt_field has tag bytes @ rest) = decode_loop (if has then upd e else e) rest"
  using assms by (simp add: opt_field_def decode_loop_tag)

lemma decode_pointers:
  "\<forall>(level, key)\<in>set ps. 0 \<le> level \<and> level < int kNumLevels \<and> length key < 2 ^ 32 \<Longrightarrow>
    decode_loop e (concat (map pointer_bytes ps) @ rest) =
    decode_loop (e\<lparr>ve_compact_pointers := ve_compact_pointers e @ ps\<rparr>) rest"
proof (induction ps arbitrary: e)
  case (Cons p ps)
  obtain level key where p: "p = (level, key)" by (cases p)
  have "decode_field kCompactPointer e (PutVarint32 [] (word_of_int level) @ PutLengthPrefixedSlice [] key @ r) =
      (Inr (SetCompactPointer level key e), r)" for e r
    using Cons.prems by (simp add: decode_field_def version_tags get_field_def obind_def oret_def GetLevel_put GetInternalKey_def
        GetLengthPrefixedSlice_put p)
  with Cons show ?case by (simp add: p pointer_bytes_def decode_loop_tag SetCompactPointer_def)
qed simp

lemma decode_deleted:
  "\<forall>(level, n)\<in>set ps. 0 \<le> level \<and> level < int kNumLevels \<Longrightarrow>
    decode_loop e (concat (map deleted_bytes ps) @ rest) =
    decode_loop (e\<lparr>ve_deleted_files := ve_deleted_files e \<union> set ps\<rparr>) rest"
proof (induction ps arbitrary: e)
  case (Cons p ps)
  obtain level n where p: "p = (level, n)" by (cases p)
  have "decode_field kDeletedFile e (PutVarint32 [] (word_of_int level) @ PutVarint64 [] n @ r) =
      (Inr (DeleteFile level n e), r)" for e r
    using Cons.prems by (simp add: decode_field_def version_tags get_field_def obind_def oret_def GetLevel_put GetVarint64_put p)
  with Cons show ?case by (simp add: p deleted_bytes_def decode_loop_tag DeleteFile_def)
qed simp

definition file_ok :: "int \<times> FileMetaData \<Rightarrow> bool" where
  "file_ok p \<longleftrightarrow> 0 \<le> fst p \<and> fst p < int kNumLevels \<and> length (fm_smallest (snd p)) < 2 ^ 32 \<and>
     length (fm_largest (snd p)) < 2 ^ 32 \<and>
     snd p = new_FileMetaData (fm_number (snd p)) (fm_file_size (snd p)) (fm_smallest (snd p)) (fm_largest (snd p))"

lemma decode_files:
  "\<forall>p\<in>set ps. file_ok p \<Longrightarrow>
    decode_loop e (concat (map file_bytes ps) @ rest) = decode_loop (e\<lparr>ve_new_files := ve_new_files e @ ps\<rparr>) rest"
proof (induction ps arbitrary: e)
  case (Cons p ps)
  obtain level f where p: "p = (level, f)" by (cases p)
  have ok: "0 \<le> level" "level < int kNumLevels" "length (fm_smallest f) < 2 ^ 32" "length (fm_largest f) < 2 ^ 32"
    "new_FileMetaData (fm_number f) (fm_file_size f) (fm_smallest f) (fm_largest f) = f"
    using Cons.prems by (simp_all add: p file_ok_def)
  have "decode_field kNewFile e (PutVarint32 [] (word_of_int level) @ PutVarint64 [] (fm_number f) @ PutVarint64 [] (fm_file_size f) @
      PutLengthPrefixedSlice [] (fm_smallest f) @ PutLengthPrefixedSlice [] (fm_largest f) @ r) =
      (Inr (AddFile level (fm_number f) (fm_file_size f) (fm_smallest f) (fm_largest f) e), r)" for e r
    using ok(1-4) by (simp add: decode_field_def version_tags get_field_def obind_def oret_def GetLevel_put GetVarint64_put
        GetInternalKey_def GetLengthPrefixedSlice_put)
  with Cons ok(5) show ?case by (simp add: p file_bytes_def decode_loop_tag AddFile_def)
qed simp

text \<open>The edits that the setters build: levels in range, lengths that fit, and defaults where nothing was set.\<close>

definition edit_ok :: "VersionEdit \<Rightarrow> bool" where
  "edit_ok e \<longleftrightarrow> length (ve_comparator e) < 2 ^ 32 \<and>
     (\<forall>(level, key)\<in>set (ve_compact_pointers e). 0 \<le> level \<and> level < int kNumLevels \<and> length key < 2 ^ 32) \<and>
     finite (ve_deleted_files e) \<and> (\<forall>(level, n)\<in>ve_deleted_files e. 0 \<le> level \<and> level < int kNumLevels) \<and>
     (\<forall>p\<in>set (ve_new_files e). file_ok p) \<and>
     (\<not> ve_has_comparator e \<longrightarrow> ve_comparator e = []) \<and> (\<not> ve_has_log_number e \<longrightarrow> ve_log_number e = 0) \<and>
     (\<not> ve_has_prev_log_number e \<longrightarrow> ve_prev_log_number e = 0) \<and>
     (\<not> ve_has_next_file_number e \<longrightarrow> ve_next_file_number e = 0) \<and> (\<not> ve_has_last_sequence e \<longrightarrow> ve_last_sequence e = 0)"

lemma decode_numbers:
  "decode_field kLogNumber e (PutVarint64 [] n @ rest) = (Inr (SetLogNumber n e), rest)"
  "decode_field kPrevLogNumber e (PutVarint64 [] n @ rest) = (Inr (SetPrevLogNumber n e), rest)"
  "decode_field kNextFileNumber e (PutVarint64 [] n @ rest) = (Inr (SetNextFile n e), rest)"
  "decode_field kLastSequence e (PutVarint64 [] n @ rest) = (Inr (SetLastSequence n e), rest)"
  by (simp_all add: decode_field_def version_tags get_field_def GetVarint64_put)

lemma decode_comparator:
  "length s < 2 ^ 32 \<Longrightarrow> decode_field kComparator e (PutLengthPrefixedSlice [] s @ rest) = (Inr (SetComparatorName s e), rest)"
  by (simp add: decode_field_def version_tags get_field_def GetLengthPrefixedSlice_put)

text \<open>
  Property C11. The records of the manifest are read back: for every edit that the setters can build,
  decoding what it encodes gives the edit, whatever the target of the decoding held before, except that
  the compaction pointers that the target held stay in front of the decoded ones, since \<open>Clear\<close> forgets them.
\<close>

theorem VersionEdit_roundtrip:
  assumes "edit_ok e"
  shows "VersionEdit_DecodeFrom (EncodeTo e []) e0 =
    (OK, e\<lparr>ve_compact_pointers := ve_compact_pointers e0 @ ve_compact_pointers e\<rparr>)"
proof -
  have e: "length (ve_comparator e) < 2 ^ 32"
    "\<forall>(level, key)\<in>set (ve_compact_pointers e). 0 \<le> level \<and> level < int kNumLevels \<and> length key < 2 ^ 32"
    "\<forall>(level, n)\<in>set (sorted_list_of_set (ve_deleted_files e)). 0 \<le> level \<and> level < int kNumLevels"
    "\<forall>p\<in>set (ve_new_files e). file_ok p" "set (sorted_list_of_set (ve_deleted_files e)) = ve_deleted_files e"
    using assms by (simp_all add: edit_ok_def)
  note numbers = decode_opt_field [OF decode_numbers(1)] decode_opt_field [OF decode_numbers(2)]
    decode_opt_field [OF decode_numbers(3)] decode_opt_field [OF decode_numbers(4)]
  have stop: "decode_loop e [] = (None, e, [])" for e
    by (subst decode_loop.simps) (simp add: GetVarint32_def GetVarint32Ptr_eq numeral_eq_Suc)
  have "decode_loop (VersionEdit_Clear e0) (EncodeTo e []) =
      (None, e\<lparr>ve_compact_pointers := ve_compact_pointers e0 @ ve_compact_pointers e\<rparr>, [])"
    unfolding EncodeTo_bytes append_Nil decode_opt_field [OF decode_comparator [OF e(1)]] numbers
      decode_pointers [OF e(2)] decode_deleted [OF e(3)] decode_files [OF e(4), of _ "[]", unfolded append_Nil2] stop e(5)
    using assms by (cases e) (simp add: edit_ok_def VersionEdit_Clear_def SetComparatorName_def SetLogNumber_def
        SetPrevLogNumber_def SetNextFile_def SetLastSequence_def)
  then show ?thesis by (simp add: VersionEdit_DecodeFrom_def)
qed

text \<open>An edit read into a target that holds a compaction pointer.\<close>

lemma VersionEdit_roundtrip_witness:
  "\<forall>e0. let e = AddFile 2 7 1000 [1] [9] (DeleteFile 1 5 (SetCompactPointer 1 [4]
        (SetLogNumber 3 (VersionEdit_Clear (e0\<lparr>ve_compact_pointers := []\<rparr>)))))
    in VersionEdit_DecodeFrom (EncodeTo e []) (e0\<lparr>ve_compact_pointers := [(0, [8])]\<rparr>) =
      (OK, e\<lparr>ve_compact_pointers := [(0, [8]), (1, [4])]\<rparr>)"
  unfolding Let_def
  by (intro allI, subst VersionEdit_roundtrip) (simp_all add: edit_ok_def file_ok_def kNumLevels_def AddFile_def DeleteFile_def
      SetCompactPointer_def SetLogNumber_def VersionEdit_Clear_def new_FileMetaData_def)

end
