(* ===== verification/LDB_Block.thy ===== *)
theory LDB_Block
  imports LDB_Batch
begin

text \<open>
  The blocks of a table file (\<open>table/block_builder.cc\<close>, \<open>table/block.cc\<close>): entries whose keys share a
  prefix with the key before, restart points with whole keys, and an iterator that searches the restart
  points by bisection. Offsets are natural numbers; the sums that the code computes with 32 bits wrap
  around here as well. A slice into the block is its offset and its size.
\<close>

subsection \<open>The builder\<close>

record block_builder =
  bb_buffer :: "u8 list"
  bb_restarts :: "u32 list"
  bb_counter :: nat
  bb_finished :: bool
  bb_last_key :: slice

definition BlockBuilder :: block_builder where
  "BlockBuilder = \<lparr>bb_buffer = [], bb_restarts = [0], bb_counter = 0, bb_finished = False, bb_last_key = []\<rparr>"

definition BlockBuilder_Reset :: "block_builder \<Rightarrow> block_builder" where
  "BlockBuilder_Reset b =
     b\<lparr>bb_buffer := [], bb_restarts := [0], bb_counter := 0, bb_finished := False, bb_last_key := []\<rparr>"

definition CurrentSizeEstimate :: "block_builder \<Rightarrow> nat" where
  "CurrentSizeEstimate b = length (bb_buffer b) + length (bb_restarts b) * 4 + 4"

definition BlockBuilder_Finish :: "block_builder \<Rightarrow> slice \<times> block_builder" where
  "BlockBuilder_Finish b =
     (let buffer = foldl PutFixed32 (bb_buffer b) (bb_restarts b);
          buffer = PutFixed32 buffer (word_of_nat (length (bb_restarts b)))
      in (buffer, b\<lparr>bb_buffer := buffer, bb_finished := True\<rparr>))"

fun shared_bytes :: "slice \<Rightarrow> slice \<Rightarrow> nat" where
  "shared_bytes (x # xs) (y # ys) = (if x = y then Suc (shared_bytes xs ys) else 0)"
| "shared_bytes _ _ = 0"

definition BlockBuilder_Add :: "nat \<Rightarrow> slice \<Rightarrow> slice \<Rightarrow> block_builder \<Rightarrow> block_builder" where
  "BlockBuilder_Add block_restart_interval key value b =
     (let (shared, b) =
            (if bb_counter b < block_restart_interval then (shared_bytes (bb_last_key b) key, b)
             else (0, b\<lparr>bb_restarts := bb_restarts b @ [word_of_nat (length (bb_buffer b))], bb_counter := 0\<rparr>));
          non_shared = length key - shared;
          buffer = PutVarint32 (bb_buffer b) (word_of_nat shared);
          buffer = PutVarint32 buffer (word_of_nat non_shared);
          buffer = PutVarint32 buffer (word_of_nat (length value));
          buffer = buffer @ take non_shared (drop shared key);
          buffer = buffer @ value
      in b\<lparr>bb_buffer := buffer, bb_last_key := take shared (bb_last_key b) @ take non_shared (drop shared key),
           bb_counter := bb_counter b + 1\<rparr>)"

subsection \<open>The block\<close>

record block =
  blk_data :: "u8 list"
  blk_size :: nat
  blk_restart_offset :: nat

definition NumRestarts :: "u8 list \<Rightarrow> nat \<Rightarrow> u32" where
  "NumRestarts data size' = DecodeFixed32 (drop (size' - 4) data)"

text \<open>A block that is too small is marked by the size zero; \<open>restart_offset_\<close> is then not set.\<close>

definition Block :: "u8 list \<Rightarrow> block" where
  "Block contents =
     (let size' = length contents
      in if size' < 4 then \<lparr>blk_data = contents, blk_size = 0, blk_restart_offset = 0\<rparr>
         else (let max_restarts_allowed = (size' - 4) div 4
               in if max_restarts_allowed < unat (NumRestarts contents size')
                  then \<lparr>blk_data = contents, blk_size = 0, blk_restart_offset = 0\<rparr>
                  else \<lparr>blk_data = contents, blk_size = size',
                        blk_restart_offset = (size' - unat (1 + NumRestarts contents size') * 4) mod 2 ^ 32\<rparr>))"

text \<open>The bytes from \<open>p\<close> to \<open>limit\<close>: the three numbers and the bytes behind them.\<close>

definition DecodeEntry :: "slice \<Rightarrow> (u32 \<times> u32 \<times> u32 \<times> slice) option" where
  "DecodeEntry p =
     (if length p < 3 then None
      else
        (let shared = ucast (p ! 0); non_shared = ucast (p ! 1); value_length = ucast (p ! 2)
         in case (if (shared OR non_shared OR value_length) < 128 then Some (shared, non_shared, value_length, drop 3 p)
                  else Option.bind (GetVarint32Ptr p) (\<lambda>(shared, p).
                    Option.bind (GetVarint32Ptr p) (\<lambda>(non_shared, p).
                      map_option (\<lambda>(value_length, p). (shared, non_shared, value_length, p)) (GetVarint32Ptr p)))) of
              None \<Rightarrow> None
            | Some (shared, non_shared, value_length, p) \<Rightarrow>
                if word_of_nat (length p) < non_shared + value_length then None
                else Some (shared, non_shared, value_length, p)))"

subsection \<open>The iterator\<close>

text \<open>The parts that do not change: the data, the offset of the restart array and its length.\<close>

record block_view =
  bv_data :: "u8 list"
  bv_restarts :: nat
  bv_num_restarts :: nat

record block_iter =
  bi_current :: nat
  bi_restart_index :: nat
  bi_key :: slice
  bi_value_start :: nat
  bi_value_size :: nat
  bi_status :: Status

definition Iter :: "block_view \<Rightarrow> block_iter" where
  "Iter v = \<lparr>bi_current = bv_restarts v, bi_restart_index = bv_num_restarts v, bi_key = [], bi_value_start = 0,
             bi_value_size = 0, bi_status = OK\<rparr>"

definition NextEntryOffset :: "block_iter \<Rightarrow> nat" where
  "NextEntryOffset it = (bi_value_start it + bi_value_size it) mod 2 ^ 32"

definition GetRestartPoint :: "block_view \<Rightarrow> nat \<Rightarrow> nat" where
  "GetRestartPoint v index = unat (DecodeFixed32 (drop (bv_restarts v + index * 4) (bv_data v)))"

definition SeekToRestartPoint :: "block_view \<Rightarrow> nat \<Rightarrow> block_iter \<Rightarrow> block_iter" where
  "SeekToRestartPoint v index it =
     it\<lparr>bi_key := [], bi_restart_index := index, bi_value_start := GetRestartPoint v index, bi_value_size := 0\<rparr>"

definition Iter_Valid :: "block_view \<Rightarrow> block_iter \<Rightarrow> bool" where
  "Iter_Valid v it \<longleftrightarrow> bi_current it < bv_restarts v"

definition Iter_value :: "block_view \<Rightarrow> block_iter \<Rightarrow> slice" where
  "Iter_value v it = take (bi_value_size it) (drop (bi_value_start it) (bv_data v))"

definition CorruptionError :: "block_view \<Rightarrow> block_iter \<Rightarrow> block_iter" where
  "CorruptionError v it =
     it\<lparr>bi_current := bv_restarts v, bi_restart_index := bv_num_restarts v, bi_status := Corruption ''bad entry in block'',
        bi_key := [], bi_value_start := 0, bi_value_size := 0\<rparr>"

function restart_loop :: "block_view \<Rightarrow> nat \<Rightarrow> nat \<Rightarrow> nat" where
  "restart_loop v current index =
     (if index + 1 < bv_num_restarts v \<and> GetRestartPoint v (index + 1) < current then restart_loop v current (index + 1)
      else index)"
  by pat_completeness auto
termination
  by (relation "measure (\<lambda>(v, current, index). bv_num_restarts v - index)") auto

declare restart_loop.simps [simp del]

definition ParseNextKey :: "block_view \<Rightarrow> block_iter \<Rightarrow> bool \<times> block_iter" where
  "ParseNextKey v it =
     (let it = it\<lparr>bi_current := NextEntryOffset it\<rparr>
      in if bv_restarts v \<le> bi_current it
         then (False, it\<lparr>bi_current := bv_restarts v, bi_restart_index := bv_num_restarts v\<rparr>)
         else (case DecodeEntry (drop (bi_current it) (take (bv_restarts v) (bv_data v))) of
                 None \<Rightarrow> (False, CorruptionError v it)
               | Some (shared, non_shared, value_length, q) \<Rightarrow>
                   if length (bi_key it) < unat shared then (False, CorruptionError v it)
                   else
                     (let p = bv_restarts v - length q
                      in (True, it\<lparr>bi_key := take (unat shared) (bi_key it) @ take (unat non_shared) (drop p (bv_data v)),
                                   bi_value_start := p + unat non_shared, bi_value_size := unat value_length,
                                   bi_restart_index := restart_loop v (bi_current it) (bi_restart_index it)\<rparr>))))"

definition Iter_Next :: "block_view \<Rightarrow> block_iter \<Rightarrow> block_iter" where
  "Iter_Next v it = snd (ParseNextKey v it)"

definition Iter_SeekToFirst :: "block_view \<Rightarrow> block_iter \<Rightarrow> block_iter" where
  "Iter_SeekToFirst v it = snd (ParseNextKey v (SeekToRestartPoint v 0 it))"

text \<open>The loops over the entries: a corrupted block could make them run for ever.\<close>

partial_function (option) skip_to :: "block_view \<Rightarrow> nat \<Rightarrow> block_iter \<Rightarrow> block_iter option" where
  "skip_to v limit it =
     (case ParseNextKey v it of
        (ok, it) \<Rightarrow> if ok \<and> NextEntryOffset it < limit then skip_to v limit it else Some it)"

definition Iter_SeekToLast :: "block_view \<Rightarrow> block_iter \<Rightarrow> block_iter option" where
  "Iter_SeekToLast v it = skip_to v (bv_restarts v) (SeekToRestartPoint v (bv_num_restarts v - 1) it)"

fun restart_before :: "block_view \<Rightarrow> nat \<Rightarrow> nat \<Rightarrow> nat option" where
  "restart_before v original 0 = (if original \<le> GetRestartPoint v 0 then None else Some 0)"
| "restart_before v original (Suc i) =
     (if original \<le> GetRestartPoint v (Suc i) then restart_before v original i else Some (Suc i))"

definition Iter_Prev :: "block_view \<Rightarrow> block_iter \<Rightarrow> block_iter option" where
  "Iter_Prev v it =
     (let original = bi_current it
      in case restart_before v original (bi_restart_index it) of
           None \<Rightarrow> Some (it\<lparr>bi_current := bv_restarts v, bi_restart_index := bv_num_restarts v\<rparr>)
         | Some i \<Rightarrow> skip_to v original (SeekToRestartPoint v i it))"

function seek_restart ::
  "(slice \<Rightarrow> slice \<Rightarrow> int) \<Rightarrow> block_view \<Rightarrow> slice \<Rightarrow> nat \<Rightarrow> nat \<Rightarrow> nat option" where
  "seek_restart cmp v target left right =
     (if left < right
      then
        (let mid = (left + right + 1) div 2;
             region_offset = GetRestartPoint v mid
         in case DecodeEntry (drop region_offset (take (bv_restarts v) (bv_data v))) of
              None \<Rightarrow> None
            | Some (shared, non_shared, value_length, q) \<Rightarrow>
                if shared \<noteq> 0 then None
                else if cmp (take (unat non_shared) (drop (bv_restarts v - length q) (bv_data v))) target < 0
                then seek_restart cmp v target mid right
                else seek_restart cmp v target left (mid - 1))
      else Some left)"
  by pat_completeness auto
termination
  by (relation "measure (\<lambda>(cmp, v, target, left, right). right - left)") auto

declare seek_restart.simps [simp del]

partial_function (option) seek_linear ::
  "(slice \<Rightarrow> slice \<Rightarrow> int) \<Rightarrow> block_view \<Rightarrow> slice \<Rightarrow> block_iter \<Rightarrow> block_iter option" where
  "seek_linear cmp v target it =
     (case ParseNextKey v it of
        (ok, it) \<Rightarrow> if \<not> ok then Some it else if 0 \<le> cmp (bi_key it) target then Some it else seek_linear cmp v target it)"

definition Iter_Seek :: "(slice \<Rightarrow> slice \<Rightarrow> int) \<Rightarrow> block_view \<Rightarrow> slice \<Rightarrow> block_iter \<Rightarrow> block_iter option" where
  "Iter_Seek cmp v target it =
     (case seek_restart cmp v target 0 (bv_num_restarts v - 1) of
        None \<Rightarrow> Some (CorruptionError v it)
      | Some left \<Rightarrow> seek_linear cmp v target (SeekToRestartPoint v left it))"

text \<open>\<open>NewIterator\<close>: an iterator that only has a status, or one on the entries.\<close>

datatype new_iterator = ErrorIterator Status | EmptyIterator | BlockIterator block_view block_iter

definition Block_NewIterator :: "block \<Rightarrow> new_iterator" where
  "Block_NewIterator b =
     (if blk_size b < 4 then ErrorIterator (Corruption ''bad block contents'')
      else
        (let num_restarts = unat (NumRestarts (blk_data b) (blk_size b));
             v = \<lparr>bv_data = blk_data b, bv_restarts = blk_restart_offset b, bv_num_restarts = num_restarts\<rparr>
         in if num_restarts = 0 then EmptyIterator else BlockIterator v (Iter v)))"

end
