(* ===== verification/LDB_Block_Spec.thy ===== *)
theory LDB_Block_Spec
  imports LDB_Block
begin

text \<open>
  A block and the list of the entries that were added to it: where each entry lies, what the iterator reads
  there, and that the iterator is a cursor on the list.
\<close>

subsection \<open>The layout of a block\<close>

type_synonym entries = "(slice \<times> slice) list"

definition entry_shared :: "nat \<Rightarrow> entries \<Rightarrow> nat \<Rightarrow> nat" where
  "entry_shared k es i = (if i mod k = 0 then 0 else shared_bytes (fst (es ! (i - 1))) (fst (es ! i)))"

definition entry_head :: "nat \<Rightarrow> entries \<Rightarrow> nat \<Rightarrow> u8 list" where
  "entry_head k es i =
     EncodeVarint32 (word_of_nat (entry_shared k es i)) @
     EncodeVarint32 (word_of_nat (length (fst (es ! i)) - entry_shared k es i)) @
     EncodeVarint32 (word_of_nat (length (snd (es ! i))))"

definition blk_entry :: "nat \<Rightarrow> entries \<Rightarrow> nat \<Rightarrow> u8 list" where
  "blk_entry k es i = entry_head k es i @ drop (entry_shared k es i) (fst (es ! i)) @ snd (es ! i)"

definition blk_entries :: "nat \<Rightarrow> entries \<Rightarrow> nat \<Rightarrow> u8 list" where
  "blk_entries k es n = concat (map (blk_entry k es) [0..<n])"

abbreviation offset :: "nat \<Rightarrow> entries \<Rightarrow> nat \<Rightarrow> nat" where
  "offset k es i \<equiv> length (blk_entries k es i)"

definition restart_count :: "nat \<Rightarrow> entries \<Rightarrow> nat" where
  "restart_count k es = (length es - 1) div k + 1"

definition restart_array :: "nat \<Rightarrow> entries \<Rightarrow> u32 list" where
  "restart_array k es = map (\<lambda>j. word_of_nat (offset k es (j * k))) [0..<restart_count k es]"

lemma shared_bytes_take: "take (shared_bytes a b) a = take (shared_bytes a b) b"
  by (induction a b rule: shared_bytes.induct) auto

lemma shared_bytes_le: "shared_bytes a b \<le> length a" "shared_bytes a b \<le> length b"
  by (induction a b rule: shared_bytes.induct) auto

lemma entry_shared_le: "entry_shared k es i \<le> length (fst (es ! i))"
  by (simp add: entry_shared_def shared_bytes_le)

lemma blk_entries_Suc: "blk_entries k es (Suc n) = blk_entries k es n @ blk_entry k es n"
  by (simp add: blk_entries_def)

lemma blk_entry_snoc: "i < length es \<Longrightarrow> blk_entry k (es @ xs) i = blk_entry k es i"
  by (simp add: blk_entry_def entry_head_def entry_shared_def nth_append)

lemma blk_entries_snoc: "n \<le> length es \<Longrightarrow> blk_entries k (es @ xs) n = blk_entries k es n"
  by (induction n) (simp_all add: blk_entries_Suc blk_entry_snoc, simp add: blk_entries_def)

lemma entry_head_pos: "3 \<le> length (entry_head k es i)"
proof -
  have "1 \<le> length (EncodeVarint32 v)" for v by (simp add: EncodeVarint32_def)
  from add_mono [OF this add_mono [OF this this]] show ?thesis by (simp add: entry_head_def numeral_3_eq_3)
qed

lemma offset_less: "i < j \<Longrightarrow> offset k es i < offset k es j"
proof (induction j)
  case (Suc j)
  have "0 < length (blk_entry k es j)" using entry_head_pos [of k es j] by (auto simp: blk_entry_def)
  with Suc show ?case by (cases "i = j") (auto simp: blk_entries_Suc)
qed simp

lemma offset_less_iff: "offset k es i < offset k es j \<longleftrightarrow> i < j"
  using offset_less [of i j k es] offset_less [of j i k es] by (metis linorder_neqE_nat order_less_asym)

lemma offset_0 [simp]: "blk_entries k es 0 = []"
  by (simp add: blk_entries_def)

subsection \<open>The builder makes this layout\<close>

definition build_block :: "nat \<Rightarrow> entries \<Rightarrow> block_builder" where
  "build_block k es = fold (\<lambda>(key, value). BlockBuilder_Add k key value) es BlockBuilder"

lemma build_block_snoc: "build_block k (es @ [(key, value)]) = BlockBuilder_Add k key value (build_block k es)"
  by (simp add: build_block_def)

lemma build_block_layout:
  assumes k: "1 \<le> k"
  shows "build_block k es = \<lparr>bb_buffer = blk_entries k es (length es), bb_restarts = restart_array k es,
    bb_counter = (if es = [] then 0 else (length es - 1) mod k + 1), bb_finished = False,
    bb_last_key = (if es = [] then [] else fst (last es))\<rparr>"
proof (induction es rule: rev_induct)
  case Nil
  show ?case by (simp add: build_block_def BlockBuilder_def restart_array_def restart_count_def)
next
  case (snoc e es)
  obtain key val where e: "e = (key, val)" by (cases e)
  let ?n = "length es" and ?b = "build_block k es"
  define s where "s = entry_shared k (es @ [e]) ?n"
  define m where "m = (?n - 1) mod k"
  have modn: "?n mod k = (if Suc m = k then 0 else Suc m)" if "es \<noteq> []"
    using mod_Suc [of "?n - 1" k] that unfolding m_def by (cases es) simp_all
  have less: "m < k" unfolding m_def using k by simp
  have count: "bb_counter ?b = (if es = [] then 0 else m + 1)" unfolding snoc.IH m_def by simp
  have full: "bb_counter ?b < k \<longleftrightarrow> ?n mod k \<noteq> 0 \<or> es = []"
    using modn less k unfolding count by (cases "es = []") auto
  have s_eq: "s = (if bb_counter ?b < k then shared_bytes (bb_last_key ?b) key else 0)"
  proof (cases "es = []")
    case True
    have "bb_last_key ?b = []" unfolding snoc.IH by (simp add: True)
    with True show ?thesis by (simp add: s_def entry_shared_def)
  next
    case False
    then have "bb_last_key ?b = fst (es ! (?n - 1))" "bb_counter ?b < k \<longleftrightarrow> ?n mod k \<noteq> 0"
      using full by (simp_all add: snoc.IH last_conv_nth)
    with False show ?thesis by (simp only: s_def entry_shared_def) (simp add: e nth_append)
  qed
  have entry: "blk_entries k (es @ [e]) (length (es @ [e])) = blk_entries k es ?n @ EncodeVarint32 (word_of_nat s) @
      EncodeVarint32 (word_of_nat (length key - s)) @ EncodeVarint32 (word_of_nat (length val)) @ drop s key @ val"
    unfolding s_def by (simp add: blk_entries_Suc blk_entries_snoc blk_entry_def entry_head_def e)
  have tk: "take (length key - s) (drop s key) = drop s key" by simp
  have last: "take s (bb_last_key ?b) @ drop s key = key"
  proof (cases "bb_counter ?b < k")
    case True
    then show ?thesis unfolding s_eq by (simp add: shared_bytes_take)
  qed (simp add: s_eq)
  have cnt: "(if es @ [e] = [] then 0 else (length (es @ [e]) - 1) mod k + 1) = (if bb_counter ?b < k then bb_counter ?b else 0) + 1"
    using modn less k unfolding count by (cases "es = []") auto
  have rst: "restart_array k (es @ [e]) = (if bb_counter ?b < k then restart_array k es
      else restart_array k es @ [word_of_nat (offset k es ?n)])"
  proof -
    have same: "offset k (es @ [e]) (j * k) = offset k es (j * k)" if "j \<le> ?n div k" for j
    proof -
      have "j * k \<le> ?n" using that k by (simp add: less_eq_div_iff_mult_less_eq)
      then show ?thesis by (simp add: blk_entries_snoc)
    qed
    have all: "restart_array k (es @ [e]) = map (\<lambda>j. word_of_nat (offset k es (j * k))) [0..<?n div k + 1]"
      unfolding restart_array_def restart_count_def using same by (intro map_cong) auto
    show ?thesis
    proof (cases "bb_counter ?b < k")
      case True
      then have "?n div k = (?n - 1) div k" unfolding full using k by (cases es) (auto simp: div_Suc)
      then show ?thesis using True unfolding all by (simp add: restart_array_def restart_count_def)
    next
      case False
      then have n: "?n mod k = 0" "es \<noteq> []" using full by auto
      then have "?n div k = (?n - 1) div k + 1" using k by (cases es) (auto simp: div_Suc)
      moreover have "?n div k * k = ?n" using n(1) by auto
      ultimately show ?thesis using False unfolding all by (simp add: restart_array_def restart_count_def)
    qed
  qed
  have "key = fst e" by (simp add: e)
  then show ?case
    unfolding e build_block_snoc unfolding e [symmetric]
    using entry last cnt rst s_eq tk
    by (simp add: BlockBuilder_Add_def Let_def snoc.IH PutVarint32_def split: if_splits)
qed

subsection \<open>Reading the layout\<close>

text \<open>Blocks whose offsets fit into 32 bits, and the parts of the block and of its iterator.\<close>

definition block_fits :: "nat \<Rightarrow> entries \<Rightarrow> bool" where
  "block_fits k es \<longleftrightarrow> 1 \<le> k \<and> offset k es (length es) + 4 * restart_count k es + 4 < 2 ^ 32 \<and>
     (\<forall>(key, val)\<in>set es. length key < 2 ^ 32 \<and> length val < 2 ^ 32)"

definition block_view_of :: "nat \<Rightarrow> entries \<Rightarrow> block_view" where
  "block_view_of k es =
     \<lparr>bv_data = blk_entries k es (length es) @ concat (map EncodeFixed32 (restart_array k es)) @
        EncodeFixed32 (word_of_nat (restart_count k es)),
      bv_restarts = offset k es (length es), bv_num_restarts = restart_count k es\<rparr>"

lemma block_view_of_parts [simp]:
  "bv_restarts (block_view_of k es) = offset k es (length es)" "bv_num_restarts (block_view_of k es) = restart_count k es"
  by (simp_all add: block_view_of_def)

lemma length_restart_array [simp]: "length (restart_array k es) = restart_count k es"
  by (simp add: restart_array_def)

lemma BlockBuilder_Finish_layout:
  assumes "1 \<le> k"
  shows "fst (BlockBuilder_Finish (build_block k es)) = bv_data (block_view_of k es)"
  using build_block_layout [OF assms, of es]
  by (simp add: BlockBuilder_Finish_def Let_def foldl_PutFixed32 PutFixed32_def block_view_of_def)

lemma Block_layout:
  assumes "block_fits k es"
  shows "Block_NewIterator (Block (bv_data (block_view_of k es))) = BlockIterator (block_view_of k es) (Iter (block_view_of k es))"
proof -
  let ?B = "offset k es (length es)" and ?m = "restart_count k es" and ?data = "bv_data (block_view_of k es)"
  have len: "length ?data = ?B + 4 * ?m + 4" by (simp add: block_view_of_def length_fixed_array)
  have "drop (length ?data - 4) ?data = EncodeFixed32 (word_of_nat ?m)"
    unfolding len by (simp add: block_view_of_def length_fixed_array)
  then have "NumRestarts ?data (length ?data) = word_of_nat ?m"
    using DecodeFixed32_enc [of "word_of_nat ?m" "[]"] by (simp add: NumRestarts_def)
  moreover have "unat (word_of_nat ?m :: u32) = ?m"
    by (rule unat_word_of_nat_less) (use assms in \<open>simp add: block_fits_def\<close>)
  moreover have "unat (1 + word_of_nat ?m :: u32) = Suc ?m"
  proof -
    have "1 + word_of_nat ?m = (word_of_nat (Suc ?m) :: u32)" by simp
    then show ?thesis
      unfolding \<open>1 + word_of_nat ?m = (word_of_nat (Suc ?m) :: u32)\<close>
      by (intro unat_word_of_nat_less) (use assms in \<open>simp add: block_fits_def\<close>)
  qed
  moreover have "?m \<le> (length ?data - 4) div 4" unfolding len by simp
  moreover have "0 < ?m" by (simp add: restart_count_def)
  moreover have "?B mod 4294967296 = ?B" using assms by (simp add: block_fits_def)
  ultimately show ?thesis
    by (simp add: Block_def Block_NewIterator_def len Let_def) (simp add: block_view_of_def)
qed

lemma restart_point:
  assumes "block_fits k es" "j < restart_count k es"
  shows "GetRestartPoint (block_view_of k es) j = offset k es (j * k)" "j * k \<le> length es"
proof -
  have "j \<le> (length es - 1) div k" using assms(2) by (simp add: restart_count_def)
  then have "j * k \<le> length es - 1" using assms(1) by (simp add: less_eq_div_iff_mult_less_eq block_fits_def)
  then show le: "j * k \<le> length es" by simp
  have "offset k es (j * k) \<le> offset k es (length es)"
    using offset_less [of "j * k" "length es" k es] le by (cases "j * k = length es") auto
  then have "offset k es (j * k) < 2 ^ 32" using assms(1) by (simp add: block_fits_def)
  then have u: "unat (word_of_nat (offset k es (j * k)) :: u32) = offset k es (j * k)" by (intro unat_word_of_nat_less) simp
  have "restart_array k es ! j = word_of_nat (offset k es (j * k))" using assms(2) by (simp add: restart_array_def)
  moreover have "DecodeFixed32 (drop (offset k es (length es) + j * 4) (bv_data (block_view_of k es))) = restart_array k es ! j"
    using DecodeFixed32_nth [of j "restart_array k es"] assms(2) by (simp add: block_view_of_def mult.commute)
  ultimately show "GetRestartPoint (block_view_of k es) j = offset k es (j * k)"
    using u by (simp add: GetRestartPoint_def)
qed

lemma restart_count_le: "block_fits k es \<Longrightarrow> i < length es \<Longrightarrow> i div k < restart_count k es"
  by (simp add: restart_count_def block_fits_def div_le_mono le_imp_less_Suc)

text \<open>The bytes from an entry on.\<close>

lemma blk_entries_split:
  assumes "i < n"
  shows "blk_entries k es n = blk_entries k es i @ blk_entry k es i @ concat (map (blk_entry k es) [Suc i..<n])"
proof -
  have "[0..<n] = [0..<i] @ i # [Suc i..<n]" using assms by (metis append_Cons le_add_diff_inverse less_imp_le upt_add_eq_append upt_conv_Cons zero_le)
  then show ?thesis by (simp add: blk_entries_def)
qed

lemma GetVarint32Ptr_put: "GetVarint32Ptr (EncodeVarint32 v @ rest) = Some (v, rest)"
  using GetVarint32_enc [of v rest] by (simp add: GetVarint32_def split: option.splits prod.splits)

lemma EncodeVarint32_cases:
  obtains "v < 128" "EncodeVarint32 v = [ucast v]" | bs where "EncodeVarint32 v = (ucast v OR 128) # bs"
proof -
  have "ucast (v OR 128) = (ucast v OR 128 :: u8)" by (rule bit_word_eqI) (auto simp: bit_simps)
  then have "\<not> v < 128 \<Longrightarrow> EncodeVarint32 v = (ucast v OR 128) # tl (EncodeVarint32 v)"
    by (simp add: EncodeVarint32_def)
  moreover have "v < 128 \<Longrightarrow> EncodeVarint32 v = [ucast v]" by (simp add: EncodeVarint32_def)
  ultimately show thesis using that by blast
qed

lemma OR_128_ge: "128 \<le> (x OR (ucast (b OR 128 :: u8) OR y) :: u32)"
proof (rule ccontr)
  let ?w = "x OR (ucast (b OR 128 :: u8) OR y)"
  assume "\<not> 128 \<le> ?w"
  then have "unat ?w < 2 ^ 7" by (simp add: word_le_nat_alt)
  then have "take_bit 7 (unat ?w) = unat ?w" by (simp add: take_bit_nat_eq_self)
  then have "\<not> bit (unat ?w) 7" by (metis bit_take_bit_iff less_irrefl)
  then have "\<not> bit ?w 7" by (simp add: bit_unsigned_iff)
  moreover have "bit (128 :: u8) 7" by (simp add: bit_numeral_rec)
  then have "bit ?w 7" by (simp add: bit_simps)
  ultimately show False by contradiction
qed

lemma ucast_back: "(v :: u32) < 128 \<Longrightarrow> ucast (ucast v :: u8) = v"
  by (simp add: word_unat_eq_iff unsigned_ucast_eq take_bit_eq_mod word_less_nat_alt unat_mod_distrib)

text \<open>An entry is decoded, whether its three numbers take one byte each or more.\<close>

lemma DecodeEntry_put:
  fixes s n v :: u32
  assumes "unat n + unat v \<le> length q" "length q < 2 ^ 32"
  shows "DecodeEntry (EncodeVarint32 s @ EncodeVarint32 n @ EncodeVarint32 v @ q) = Some (s, n, v, q)"
proof -
  let ?p = "EncodeVarint32 s @ EncodeVarint32 n @ EncodeVarint32 v @ q"
  define fast where "fast = ((ucast (?p ! 0) OR ucast (?p ! 1) OR ucast (?p ! 2) :: u32) < 128)"
  have len: "3 \<le> length ?p"
  proof -
    have "1 \<le> length (EncodeVarint32 x)" for x by (simp add: EncodeVarint32_def)
    from add_mono [OF this [of s] add_mono [OF this [of n] this [of v]]] show ?thesis by simp
  qed
  have small: "ucast (?p ! 0) = s \<and> ucast (?p ! 1) = n \<and> ucast (?p ! 2) = v \<and> drop 3 ?p = q" if fast
  proof -
    note small_or = that [unfolded fast_def]
    have no: "\<not> (x OR (ucast (b OR 128 :: u8) OR y) :: u32) < 128" for x b y using OR_128_ge [of x b y] by (simp add: not_less)
    obtain s1: "s < 128" "EncodeVarint32 s = [ucast s]"
      using small_or no [of 0 "ucast s"] by (cases s rule: EncodeVarint32_cases) auto
    moreover obtain n1: "n < 128" "EncodeVarint32 n = [ucast n]"
      using small_or no [of _ "ucast n"] s1 by (cases n rule: EncodeVarint32_cases) auto
    moreover obtain v1: "v < 128" "EncodeVarint32 v = [ucast v]"
      using small_or no [of _ "ucast v" 0] s1 n1
      by (cases v rule: EncodeVarint32_cases) (auto simp: or.assoc [symmetric])
    ultimately show ?thesis by (simp add: ucast_back numeral_2_eq_2 numeral_3_eq_3)
  qed
  have sum: "\<not> (word_of_nat (length q) :: u32) < n + v"
  proof -
    have "unat (n + v) = unat n + unat v" using assms by (simp add: unat_word_ariths)
    moreover have "unat (word_of_nat (length q) :: u32) = length q" by (rule unat_word_of_nat_less) (use assms(2) in simp)
    ultimately show ?thesis using assms(1) by (simp add: word_less_nat_alt)
  qed
  have main: "(if fast then Some (ucast (?p ! 0), ucast (?p ! 1), ucast (?p ! 2), drop 3 ?p)
      else Option.bind (GetVarint32Ptr ?p) (\<lambda>(shared, p). Option.bind (GetVarint32Ptr p) (\<lambda>(non_shared, p).
        map_option (\<lambda>(value_length, p). (shared, non_shared, value_length, p)) (GetVarint32Ptr p)))) = Some (s, n, v, q)"
    using small by (simp add: GetVarint32Ptr_put)
  have "\<not> length ?p < 3" using len by simp
  then show ?thesis
    unfolding DecodeEntry_def Let_def fast_def [symmetric] main option.case prod.case if_not_P [OF sum] by (rule if_not_P)
qed

subsection \<open>The iterator at an entry\<close>

definition restart_ok :: "nat \<Rightarrow> entries \<Rightarrow> nat \<Rightarrow> nat \<Rightarrow> bool" where
  "restart_ok k es i r \<longleftrightarrow> r < restart_count k es \<and> r * k \<le> i"

text \<open>The iterator is at entry \<open>i\<close>, or is about to parse it.\<close>

definition at_entry :: "nat \<Rightarrow> entries \<Rightarrow> nat \<Rightarrow> block_iter \<Rightarrow> bool" where
  "at_entry k es i it \<longleftrightarrow> i < length es \<and> bi_current it = offset k es i \<and> bi_key it = fst (es ! i) \<and>
     bi_value_start it + bi_value_size it = offset k es (Suc i) \<and> bi_value_size it = length (snd (es ! i)) \<and>
     restart_ok k es i (bi_restart_index it) \<and> bi_status it = OK"

definition before_entry :: "nat \<Rightarrow> entries \<Rightarrow> nat \<Rightarrow> block_iter \<Rightarrow> bool" where
  "before_entry k es i it \<longleftrightarrow> i \<le> length es \<and> NextEntryOffset it = offset k es i \<and>
     (i < length es \<longrightarrow> entry_shared k es i \<le> length (bi_key it) \<and>
       take (entry_shared k es i) (bi_key it) = take (entry_shared k es i) (fst (es ! i))) \<and>
     restart_ok k es i (bi_restart_index it) \<and> bi_status it = OK"

definition past_end :: "nat \<Rightarrow> entries \<Rightarrow> block_iter \<Rightarrow> bool" where
  "past_end k es it \<longleftrightarrow> bi_current it = offset k es (length es) \<and> bi_status it = OK"

lemma offset_le: "i \<le> j \<Longrightarrow> offset k es i \<le> offset k es j"
  using offset_less [of i j k es] by (cases "i = j") auto

lemma offset_bound:
  assumes "block_fits k es" "i \<le> length es"
  shows "offset k es i < 2 ^ 32" "offset k es i mod 2 ^ 32 = offset k es i"
proof -
  show "offset k es i < 2 ^ 32" using offset_le [OF assms(2), of k es] assms(1) by (simp add: block_fits_def)
  then show "offset k es i mod 2 ^ 32 = offset k es i" by simp
qed

lemma entry_lengths:
  assumes "block_fits k es" "i < length es"
  shows "length (fst (es ! i)) < 2 ^ 32" "length (snd (es ! i)) < 2 ^ 32"
    "length (fst (es ! i)) - j < 2 ^ 32" "entry_shared k es i < 2 ^ 32"
proof -
  have "\<forall>e\<in>set es. length (fst e) < 2 ^ 32 \<and> length (snd e) < 2 ^ 32" using assms(1) by (auto simp: block_fits_def)
  then show l: "length (fst (es ! i)) < 2 ^ 32" "length (snd (es ! i)) < 2 ^ 32" using nth_mem [OF assms(2)] by blast+
  then show "length (fst (es ! i)) - j < 2 ^ 32" by simp
  show "entry_shared k es i < 2 ^ 32" using l(1) entry_shared_le [of k es i] by simp
qed

lemma restart_loop_ok:
  assumes "block_fits k es"
  shows "restart_ok k es i r \<Longrightarrow> restart_ok k es i (restart_loop (block_view_of k es) (offset k es i) r)"
proof (induction "block_view_of k es" "offset k es i" r rule: restart_loop.induct)
  case (1 r)
  show ?case
  proof (cases "r + 1 < restart_count k es \<and> GetRestartPoint (block_view_of k es) (r + 1) < offset k es i")
    case True
    then have "offset k es ((r + 1) * k) < offset k es i" using restart_point [OF assms, of "r + 1"] by simp
    then have "restart_ok k es i (r + 1)" using True by (simp add: restart_ok_def offset_less_iff)
    then show ?thesis
      unfolding restart_loop.simps [of "block_view_of k es" "offset k es i" r] using 1(1) True by simp
  next
    case False
    then have "restart_loop (block_view_of k es) (offset k es i) r = r"
      unfolding restart_loop.simps [of "block_view_of k es" "offset k es i" r] by auto
    with 1(2) show ?thesis by simp
  qed
qed

lemma at_entry_before_next:
  assumes "block_fits k es" "at_entry k es i it"
  shows "before_entry k es (Suc i) it"
proof -
  have le: "Suc i \<le> length es" "bi_value_start it + bi_value_size it = offset k es (Suc i)"
    using assms(2) by (simp_all add: at_entry_def)
  have "NextEntryOffset it = offset k es (Suc i)"
    unfolding NextEntryOffset_def le(2) by (rule offset_bound(2) [OF assms(1) le(1)])
  moreover have "entry_shared k es (Suc i) \<le> length (fst (es ! i))"
    "take (entry_shared k es (Suc i)) (fst (es ! i)) = take (entry_shared k es (Suc i)) (fst (es ! Suc i))"
    using shared_bytes_take [of "fst (es ! i)" "fst (es ! Suc i)"] by (auto simp: entry_shared_def shared_bytes_le)
  ultimately show ?thesis using assms(2) by (auto simp: before_entry_def at_entry_def restart_ok_def)
qed

lemma seek_restart_before:
  assumes "block_fits k es" "r < restart_count k es" "bi_status it = OK"
  shows "before_entry k es (r * k) (SeekToRestartPoint (block_view_of k es) r it)"
  using restart_point [OF assms(1,2)] offset_bound [OF assms(1), of "r * k"] assms(2,3)
  by (auto simp: before_entry_def SeekToRestartPoint_def NextEntryOffset_def restart_ok_def entry_shared_def)

lemma ParseNextKey_end:
  assumes "before_entry k es (length es) it"
  shows "\<not> fst (ParseNextKey (block_view_of k es) it)" "past_end k es (snd (ParseNextKey (block_view_of k es) it))"
  using assms by (simp_all add: ParseNextKey_def before_entry_def past_end_def block_view_of_def)

lemma DecodeEntry_entry:
  assumes fits: "block_fits k es" and i: "i < length es"
  shows "\<exists>tail more. DecodeEntry (drop (offset k es i) (take (offset k es (length es)) (bv_data (block_view_of k es)))) =
      Some (word_of_nat (entry_shared k es i), word_of_nat (length (fst (es ! i)) - entry_shared k es i),
        word_of_nat (length (snd (es ! i))), tail) \<and>
    offset k es (length es) - length tail = offset k es i + length (entry_head k es i) \<and>
    drop (offset k es (length es) - length tail) (bv_data (block_view_of k es)) =
      drop (entry_shared k es i) (fst (es ! i)) @ snd (es ! i) @ more"
proof -
  let ?v = "block_view_of k es" and ?B = "offset k es (length es)" and ?s = "entry_shared k es i"
  let ?key = "fst (es ! i)" and ?val = "snd (es ! i)"
  define tail where "tail = drop ?s ?key @ ?val @ concat (map (blk_entry k es) [Suc i..<length es])"
  have split: "blk_entries k es (length es) = blk_entries k es i @ entry_head k es i @ tail"
    using blk_entries_split [OF i, of k es] by (simp add: blk_entry_def tail_def)
  have "length tail \<le> ?B" unfolding split by simp
  moreover have "length ?key - ?s + length ?val \<le> length tail" by (simp add: tail_def)
  moreover have "?B < 2 ^ 32" using fits by (simp add: block_fits_def)
  moreover have "unat (word_of_nat (length ?key - ?s) :: u32) = length ?key - ?s" "unat (word_of_nat (length ?val) :: u32) = length ?val"
    by (rule unat_word_of_nat_less, use entry_lengths [OF fits i] in simp)+
  ultimately have "DecodeEntry (entry_head k es i @ tail) =
      Some (word_of_nat ?s, word_of_nat (length ?key - ?s), word_of_nat (length ?val), tail)"
    using DecodeEntry_put [of "word_of_nat (length ?key - ?s)" "word_of_nat (length ?val)" tail "word_of_nat ?s"]
    by (simp add: entry_head_def)
  moreover have "drop (offset k es i) (take ?B (bv_data ?v)) = entry_head k es i @ tail"
    by (simp add: block_view_of_def split)
  moreover have "?B - length tail = offset k es i + length (entry_head k es i)" by (simp add: split)
  moreover have "drop (?B - length tail) (bv_data ?v) = tail @ drop ?B (bv_data ?v)" by (simp add: block_view_of_def split)
  ultimately show ?thesis by (intro exI [of _ tail] exI) (auto simp: tail_def)
qed

lemma ParseNextKey_entry:
  assumes fits: "block_fits k es" and before: "before_entry k es i it" and i: "i < length es"
  shows "fst (ParseNextKey (block_view_of k es) it)" "at_entry k es i (snd (ParseNextKey (block_view_of k es) it))"
proof -
  let ?v = "block_view_of k es" and ?B = "offset k es (length es)" and ?s = "entry_shared k es i"
  obtain key val where e: "es ! i = (key, val)" by (metis prod.collapse)
  obtain tail more where dec: "DecodeEntry (drop (offset k es i) (take ?B (bv_data ?v))) =
      Some (word_of_nat ?s, word_of_nat (length key - ?s), word_of_nat (length val), tail)"
    and p: "?B - length tail = offset k es i + length (entry_head k es i)"
      "drop (?B - length tail) (bv_data ?v) = drop ?s key @ val @ more"
    using DecodeEntry_entry [OF fits i] unfolding e fst_conv snd_conv by blast
  have off: "offset k es i < ?B" by (rule offset_less [OF i])
  have s: "?s \<le> length key" using entry_shared_le [of k es i] by (simp add: e)
  have u: "unat (word_of_nat ?s :: u32) = ?s" "unat (word_of_nat (length key - ?s) :: u32) = length key - ?s"
    "unat (word_of_nat (length val) :: u32) = length val"
    by (rule unat_word_of_nat_less, use entry_lengths [OF fits i] s in \<open>simp add: e\<close>)+
  define p where "p = ?B - length tail"
  have key: "take ?s (bi_key it) @ take (length key - ?s) (drop p (bv_data ?v)) = key"
    using before i s unfolding p_def p(2) by (simp add: before_entry_def e)
  have next_off: "p + (length key - ?s) + length val = offset k es (Suc i)"
    unfolding p_def p(1) blk_entries_Suc by (simp add: blk_entry_def e)
  have cur: "NextEntryOffset it = offset k es i" "?s \<le> length (bi_key it)" "restart_ok k es i (bi_restart_index it)"
    "bi_status it = OK"
    using before i by (simp_all add: before_entry_def)
  have parse: "ParseNextKey ?v it = (True, it\<lparr>bi_current := offset k es i, bi_key := key, bi_value_start := p + (length key - ?s),
      bi_value_size := length val, bi_restart_index := restart_loop ?v (offset k es i) (bi_restart_index it)\<rparr>)"
    using off cur(2) key by (simp add: ParseNextKey_def Let_def cur(1) dec u p_def [symmetric])
  show "fst (ParseNextKey ?v it)" by (simp add: parse)
  show "at_entry k es i (snd (ParseNextKey ?v it))"
    unfolding parse using restart_loop_ok [OF fits cur(3)] next_off i cur(4) by (simp add: at_entry_def e)
qed

subsection \<open>The iterator is a cursor\<close>

definition block_cursor :: "nat \<Rightarrow> entries \<Rightarrow> block_iter \<Rightarrow> nat option \<Rightarrow> bool" where
  "block_cursor k es it pos \<longleftrightarrow> (case pos of None \<Rightarrow> past_end k es it | Some i \<Rightarrow> at_entry k es i it)"

lemma skip_to_ok:
  assumes fits: "block_fits k es"
  shows "before_entry k es i it \<Longrightarrow> i < m \<Longrightarrow> m \<le> length es \<Longrightarrow>
    \<exists>it'. skip_to (block_view_of k es) (offset k es m) it = Some it' \<and> at_entry k es (m - 1) it'"
proof (induction "m - i" arbitrary: i it)
  case (Suc d)
  let ?v = "block_view_of k es"
  have i: "i < length es" using Suc.prems by simp
  obtain it' where it': "ParseNextKey ?v it = (True, it')" "at_entry k es i it'"
    using ParseNextKey_entry [OF fits Suc.prems(1) i] by (metis prod.collapse)
  note before = at_entry_before_next [OF fits it'(2)]
  have off: "NextEntryOffset it' = offset k es (Suc i)" using before by (simp add: before_entry_def)
  show ?case
  proof (cases "Suc i = m")
    case True
    then show ?thesis using it' off by (auto simp: skip_to.simps [of ?v _ it])
  next
    case False
    then have "Suc i < m" "NextEntryOffset it' < offset k es m" using Suc.prems(2) off by (simp_all add: offset_less_iff)
    with Suc.hyps(1) [of "Suc i" it'] Suc.hyps(2) before Suc.prems(3) it'(1) show ?thesis
      by (simp add: skip_to.simps [of ?v _ it])
  qed
qed simp

lemma SeekToLast_ok:
  assumes fits: "block_fits k es" and ok: "bi_status it = OK"
  shows "\<exists>it'. Iter_SeekToLast (block_view_of k es) it = Some it' \<and>
    block_cursor k es it' (if es = [] then None else Some (length es - 1))"
proof -
  let ?v = "block_view_of k es" and ?r = "restart_count k es - 1"
  have r: "?r < restart_count k es" by (simp add: restart_count_def)
  note before = seek_restart_before [OF fits r ok]
  show ?thesis
  proof (cases "es = []")
    case True
    then have "before_entry k es (length es) (SeekToRestartPoint ?v ?r it)" using before by (simp add: restart_count_def)
    note stop = ParseNextKey_end [OF this]
    have "skip_to ?v (bv_restarts ?v) (SeekToRestartPoint ?v ?r it) = Some (snd (ParseNextKey ?v (SeekToRestartPoint ?v ?r it)))"
      using stop(1) by (subst skip_to.simps) (simp add: case_prod_beta)
    with stop(2) True show ?thesis by (simp add: Iter_SeekToLast_def block_cursor_def)
  next
    case False
    have "?r * k \<le> length es - 1" by (simp add: restart_count_def)
    then have "?r * k < length es" using False by (cases es) auto
    from skip_to_ok [OF fits before this le_refl] False show ?thesis by (simp add: Iter_SeekToLast_def block_cursor_def)
  qed
qed

lemma restart_before_ok:
  assumes fits: "block_fits k es"
  shows "restart_ok k es i r \<Longrightarrow>
    (case restart_before (block_view_of k es) (offset k es i) r of
       None \<Rightarrow> i = 0 | Some j \<Rightarrow> j < restart_count k es \<and> j * k < i)"
proof (induction r)
  case 0
  then show ?case using restart_point(1) [OF fits, of 0] offset_less [of 0 i k es]
    by (cases "i = 0") (auto simp: restart_ok_def)
next
  case (Suc r)
  have "restart_ok k es i r" using Suc.prems by (simp add: restart_ok_def)
  moreover have "offset k es i \<le> offset k es (Suc r * k) \<longleftrightarrow> i \<le> Suc r * k"
    using offset_less_iff [of k es "Suc r * k" i] by (simp only: not_less [symmetric])
  ultimately show ?case using Suc restart_point(1) [OF fits, of "Suc r"] by (auto simp: restart_ok_def simp del: mult_Suc)
qed

lemma Prev_ok:
  assumes fits: "block_fits k es" and it: "at_entry k es i it"
  shows "\<exists>it'. Iter_Prev (block_view_of k es) it = Some it' \<and> block_cursor k es it' (if i = 0 then None else Some (i - 1))"
proof -
  let ?v = "block_view_of k es"
  have cur: "bi_current it = offset k es i" "restart_ok k es i (bi_restart_index it)" "i < length es"
    "bi_status it = OK"
    using it by (simp_all add: at_entry_def)
  show ?thesis
  proof (cases "restart_before ?v (offset k es i) (bi_restart_index it)")
    case None
    then show ?thesis using restart_before_ok [OF fits cur(2)]
      by (simp add: Iter_Prev_def cur(1,4) block_cursor_def past_end_def)
  next
    case (Some j)
    then have j: "j < restart_count k es" "j * k < i" using restart_before_ok [OF fits cur(2)] by simp_all
    from skip_to_ok [OF fits seek_restart_before [OF fits j(1) cur(4)] j(2)] cur(3) Some j(2) show ?thesis
      by (simp add: Iter_Prev_def cur(1) block_cursor_def)
  qed
qed

lemma SeekToFirst_ok:
  assumes fits: "block_fits k es" and ok: "bi_status it = OK"
  shows "block_cursor k es (Iter_SeekToFirst (block_view_of k es) it) (if es = [] then None else Some 0)"
proof -
  have "before_entry k es 0 (SeekToRestartPoint (block_view_of k es) 0 it)"
    using seek_restart_before [OF fits _ ok, of 0] by (simp add: restart_count_def)
  then show ?thesis
    using ParseNextKey_entry [OF fits, of 0] ParseNextKey_end [of k es]
    by (cases "es = []") (auto simp: Iter_SeekToFirst_def block_cursor_def)
qed

lemma Next_ok:
  assumes fits: "block_fits k es" and it: "at_entry k es i it"
  shows "block_cursor k es (Iter_Next (block_view_of k es) it) (if Suc i = length es then None else Some (Suc i))"
proof -
  have "Suc i \<le> length es" using it by (simp add: at_entry_def)
  with at_entry_before_next [OF fits it] show ?thesis
    using ParseNextKey_entry [OF fits, of "Suc i" it] ParseNextKey_end [of k es it]
    by (auto simp: Iter_Next_def block_cursor_def)
qed

text \<open>What the iterator shows at an entry.\<close>

lemma at_entry_reads:
  assumes "at_entry k es i it"
  shows "Iter_Valid (block_view_of k es) it \<and> bi_key it = fst (es ! i) \<and> Iter_value (block_view_of k es) it = snd (es ! i)"
proof -
  have i: "i < length es" and v: "bi_value_start it = offset k es (Suc i) - length (snd (es ! i))"
    "bi_value_size it = length (snd (es ! i))" and c: "bi_current it = offset k es i" "bi_key it = fst (es ! i)"
    using assms by (auto simp: at_entry_def)
  have "blk_entries k es (length es) = blk_entries k es (Suc i) @ concat (map (blk_entry k es) [Suc i..<length es])"
    using blk_entries_split [OF i, of k es] by (simp add: blk_entries_Suc)
  moreover have "blk_entries k es (Suc i) =
      (blk_entries k es i @ entry_head k es i @ drop (entry_shared k es i) (fst (es ! i))) @ snd (es ! i)"
    by (simp add: blk_entries_Suc blk_entry_def)
  ultimately have "Iter_value (block_view_of k es) it = snd (es ! i)"
    unfolding Iter_value_def v by (simp add: block_view_of_def)
  with offset_less [OF i, of k es] c show ?thesis by (simp add: Iter_Valid_def)
qed

subsection \<open>Seek\<close>

definition seek_pos :: "(slice \<Rightarrow> slice \<Rightarrow> int) \<Rightarrow> entries \<Rightarrow> slice \<Rightarrow> nat option" where
  "seek_pos cmp es target =
     (let i = length (takeWhile (\<lambda>e. cmp (fst e) target < 0) es) in if i < length es then Some i else None)"

lemma takeWhile_prefix:
  assumes "i < length (takeWhile P xs)"
  shows "P (xs ! i)"
  using assms by (metis nth_mem set_takeWhileD takeWhile_nth)

lemma takeWhile_stop: "i < length xs \<Longrightarrow> \<not> P (xs ! i) \<Longrightarrow> length (takeWhile P xs) \<le> i"
  using takeWhile_prefix [of i P xs] by (metis not_le)

text \<open>The bisection ends at a restart point whose key is before the target, or at the first one.\<close>

lemma seek_restart_ok:
  assumes fits: "block_fits k es"
  shows "left \<le> right \<Longrightarrow> right < restart_count k es \<Longrightarrow>
    left = 0 \<or> left * k < length es \<and> cmp (fst (es ! (left * k))) target < 0 \<Longrightarrow>
    \<exists>j < restart_count k es. seek_restart cmp (block_view_of k es) target left right = Some j \<and>
      (j = 0 \<or> j * k < length es \<and> cmp (fst (es ! (j * k))) target < 0)"
proof (induction cmp "block_view_of k es" target left right rule: seek_restart.induct)
  case (1 cmp target left right)
  let ?v = "block_view_of k es" and ?mid = "(left + right + 1) div 2"
  show ?case
  proof (cases "left < right")
    case False
    then have "seek_restart cmp ?v target left right = Some left" by (subst seek_restart.simps) simp
    moreover have "left < restart_count k es" using 1(3,4) by simp
    ultimately show ?thesis using 1(5) by blast
  next
    case True
    then have mid: "left < ?mid" "?mid \<le> right" "?mid < restart_count k es" "1 \<le> ?mid" using 1(4) by auto
    have k: "1 \<le> k" using fits by (simp add: block_fits_def)
    have "?mid \<le> (length es - 1) div k" using mid(3) by (simp add: restart_count_def)
    then have last: "?mid * k \<le> length es - 1" using k by (simp add: less_eq_div_iff_mult_less_eq)
    have "1 * 1 \<le> ?mid * k" using mid(4) k by (rule mult_le_mono)
    with last have in_es: "?mid * k < length es" by linarith
    let ?key = "fst (es ! (?mid * k))"
    have shared: "entry_shared k es (?mid * k) = 0" by (simp add: entry_shared_def)
    obtain tail more where dec: "DecodeEntry (drop (GetRestartPoint ?v ?mid) (take (offset k es (length es)) (bv_data ?v))) =
        Some (0, word_of_nat (length ?key), word_of_nat (length (snd (es ! (?mid * k)))), tail)"
      and p: "drop (offset k es (length es) - length tail) (bv_data ?v) = ?key @ snd (es ! (?mid * k)) @ more"
      using DecodeEntry_entry [OF fits in_es] restart_point(1) [OF fits mid(3)] unfolding shared by auto
    have "unat (word_of_nat (length ?key) :: u32) = length ?key"
      by (rule unat_word_of_nat_less) (use entry_lengths(1) [OF fits in_es] in simp)
    then have key: "take (unat (word_of_nat (length ?key) :: u32)) (drop (offset k es (length es) - length tail) (bv_data ?v)) = ?key"
      unfolding p by simp
    have step: "seek_restart cmp ?v target left right = (if cmp ?key target < 0 then seek_restart cmp ?v target ?mid right
        else seek_restart cmp ?v target left (?mid - 1))"
      unfolding seek_restart.simps [of cmp ?v target left right] if_P [OF True] Let_def block_view_of_parts dec option.case prod.case
        key by simp
    show ?thesis
    proof (cases "cmp ?key target < 0")
      case True
      have "\<exists>j < restart_count k es. seek_restart cmp ?v target ?mid right = Some j \<and>
          (j = 0 \<or> j * k < length es \<and> cmp (fst (es ! (j * k))) target < 0)"
        by (rule 1(1) [OF \<open>left < right\<close> refl refl dec [simplified block_view_of_parts(1) [symmetric]] refl refl refl])
          (use mid True in_es 1(4) key in simp_all)
      with True step show ?thesis by simp
    next
      case False
      have "\<exists>j < restart_count k es. seek_restart cmp ?v target left (?mid - 1) = Some j \<and>
          (j = 0 \<or> j * k < length es \<and> cmp (fst (es ! (j * k))) target < 0)"
        by (rule 1(2) [OF \<open>left < right\<close> refl refl dec [simplified block_view_of_parts(1) [symmetric]] refl refl refl])
          (use mid False 1(4,5) key in simp_all)
      with False step show ?thesis by simp
    qed
  qed
qed

lemma seek_linear_ok:
  assumes fits: "block_fits k es"
  shows "before_entry k es i it \<Longrightarrow> i \<le> length (takeWhile (\<lambda>e. cmp (fst e) target < 0) es) \<Longrightarrow>
    \<exists>it'. seek_linear cmp (block_view_of k es) target it = Some it' \<and> block_cursor k es it' (seek_pos cmp es target)"
proof (induction "length es - i" arbitrary: i it)
  case 0
  have "length (takeWhile (\<lambda>e. cmp (fst e) target < 0) es) \<le> length es" by (rule length_takeWhile_le)
  with 0 have i: "i = length es" "length (takeWhile (\<lambda>e. cmp (fst e) target < 0) es) = length es"
    by (auto simp: before_entry_def)
  from ParseNextKey_end [OF "0.prems"(1) [unfolded i(1)]] show ?case
    by (subst seek_linear.simps) (simp add: case_prod_beta block_cursor_def seek_pos_def i(2))
next
  case (Suc d)
  then have i: "i < length es" by simp
  obtain it' where it': "ParseNextKey (block_view_of k es) it = (True, it')" "at_entry k es i it'"
    using ParseNextKey_entry [OF fits Suc.prems(1) i] by (metis prod.collapse)
  have key: "bi_key it' = fst (es ! i)" using it'(2) by (simp add: at_entry_def)
  have run: "seek_linear cmp (block_view_of k es) target it =
      (if 0 \<le> cmp (fst (es ! i)) target then Some it' else seek_linear cmp (block_view_of k es) target it')"
    using it'(1) key by (subst seek_linear.simps) simp
  show ?case
  proof (cases "0 \<le> cmp (fst (es ! i)) target")
    case True
    then have "length (takeWhile (\<lambda>e. cmp (fst e) target < 0) es) = i"
      using takeWhile_stop [OF i, of "\<lambda>e. cmp (fst e) target < 0"] Suc.prems(2) by simp
    with True run i it'(2) show ?thesis by (simp add: seek_pos_def block_cursor_def)
  next
    case False
    have "i \<noteq> length (takeWhile (\<lambda>e. cmp (fst e) target < 0) es)"
    proof
      assume eq: "i = length (takeWhile (\<lambda>e. cmp (fst e) target < 0) es)"
      then have "\<not> cmp (fst (es ! i)) target < 0"
        using nth_length_takeWhile [of "\<lambda>e. cmp (fst e) target < 0" es] i by simp
      with False show False by simp
    qed
    then have "Suc i \<le> length (takeWhile (\<lambda>e. cmp (fst e) target < 0) es)" using Suc.prems(2) by simp
    moreover have "d = length es - Suc i" using Suc.hyps(2) by simp
    ultimately show ?thesis using Suc.hyps(1) [of "Suc i" it'] at_entry_before_next [OF fits it'(2)] False run by simp
  qed
qed

lemma Iter_Seek_ok:
  assumes fits: "block_fits k es" and cmp: "comparator A cmp" and keys: "fst ` set es \<subseteq> A" "target \<in> A"
    and sorted: "sorted_wrt (\<lambda>a b. cmp (fst a) (fst b) < 0) es" and ok: "bi_status it = OK"
  shows "\<exists>it'. Iter_Seek cmp (block_view_of k es) target it = Some it' \<and> block_cursor k es it' (seek_pos cmp es target)"
proof -
  have c: "0 < restart_count k es" by (simp add: restart_count_def)
  obtain j where j: "j < restart_count k es" "seek_restart cmp (block_view_of k es) target 0 (restart_count k es - 1) = Some j"
    "j = 0 \<or> j * k < length es \<and> cmp (fst (es ! (j * k))) target < 0"
    using seek_restart_ok [OF fits, of 0 "restart_count k es - 1" cmp target] c by auto
  let ?m = "length (takeWhile (\<lambda>e. cmp (fst e) target < 0) es)"
  have "j * k \<le> ?m"
  proof (cases "j = 0")
    case False
    then have jk: "j * k < length es" "cmp (fst (es ! (j * k))) target < 0" using j(3) by auto
    show ?thesis
    proof (rule ccontr)
      assume "\<not> j * k \<le> ?m"
      then have m: "?m < j * k" "?m < length es" using jk(1) by simp_all
      then have "\<not> cmp (fst (es ! ?m)) target < 0" using nth_length_takeWhile by blast
      moreover have "cmp (fst (es ! ?m)) (fst (es ! (j * k))) < 0"
        using sorted m(1) jk(1) by (simp add: sorted_wrt_iff_nth_less)
      moreover have "fst (es ! ?m) \<in> A" "fst (es ! (j * k)) \<in> A" using keys(1) m(2) jk(1) nth_mem by blast+
      ultimately show False using comparator.cmp_strict_trans [OF cmp _ _ keys(2) _ jk(2)] by blast
    qed
  qed simp
  then show ?thesis
    using seek_linear_ok [where cmp = cmp and target = target, OF fits seek_restart_before [OF fits j(1) ok]]
    unfolding Iter_Seek_def block_view_of_parts j(2) option.case by blast
qed

text \<open>
  Property C4. A block is a sorted list and its iterator is a cursor on it: a block that was built from
  entries with ascending keys, at any restart interval, opens without an error, and on it \<open>SeekToFirst\<close>,
  \<open>SeekToLast\<close>, \<open>Next\<close> and \<open>Prev\<close> move as on the list, \<open>Seek\<close> goes to the first entry that is not before
  the target, and at an entry the iterator shows its key, put together from shared prefixes, and its value.
\<close>

theorem Block_iterator_is_cursor:
  assumes "block_fits k es" "comparator A cmp" "fst ` set es \<subseteq> A" "sorted_wrt (\<lambda>a b. cmp (fst a) (fst b) < 0) es"
  shows "\<exists>v. Block_NewIterator (Block (fst (BlockBuilder_Finish (build_block k es)))) = BlockIterator v (Iter v) \<and>
    bi_status (Iter v) = OK \<and>
    (\<forall>it. bi_status it = OK \<longrightarrow> block_cursor k es (Iter_SeekToFirst v it) (if es = [] then None else Some 0)) \<and>
    (\<forall>it. bi_status it = OK \<longrightarrow> (\<exists>it'. Iter_SeekToLast v it = Some it' \<and> block_cursor k es it' (if es = [] then None else Some (length es - 1)))) \<and>
    (\<forall>it. \<forall>target\<in>A. bi_status it = OK \<longrightarrow> (\<exists>it'. Iter_Seek cmp v target it = Some it' \<and> block_cursor k es it' (seek_pos cmp es target))) \<and>
    (\<forall>it. block_cursor k es it None \<longrightarrow> \<not> Iter_Valid v it) \<and>
    (\<forall>it pos. block_cursor k es it pos \<longrightarrow> bi_status it = OK) \<and>
    (\<forall>it i. block_cursor k es it (Some i) \<longrightarrow> i < length es \<and> Iter_Valid v it \<and> bi_key it = fst (es ! i) \<and>
      Iter_value v it = snd (es ! i) \<and>
      block_cursor k es (Iter_Next v it) (if Suc i = length es then None else Some (Suc i)) \<and>
      (\<exists>it'. Iter_Prev v it = Some it' \<and> block_cursor k es it' (if i = 0 then None else Some (i - 1))))"
proof -
  note fits = assms(1)
  let ?v = "block_view_of k es"
  have "1 \<le> k" using fits by (simp add: block_fits_def)
  then have new: "Block_NewIterator (Block (fst (BlockBuilder_Finish (build_block k es)))) = BlockIterator ?v (Iter ?v)"
    unfolding BlockBuilder_Finish_layout [OF \<open>1 \<le> k\<close>] by (intro Block_layout fits)
  have "\<not> Iter_Valid ?v it" if "block_cursor k es it None" for it
    using that by (simp add: block_cursor_def past_end_def Iter_Valid_def)
  moreover have "bi_status it = OK" if "block_cursor k es it pos" for it pos
    using that by (auto simp: block_cursor_def past_end_def at_entry_def split: option.splits)
  moreover have "bi_status (Iter ?v) = OK" by (simp add: Iter_def)
  moreover have "i < length es \<and> Iter_Valid ?v it \<and> bi_key it = fst (es ! i) \<and> Iter_value ?v it = snd (es ! i) \<and>
      block_cursor k es (Iter_Next ?v it) (if Suc i = length es then None else Some (Suc i)) \<and>
      (\<exists>it'. Iter_Prev ?v it = Some it' \<and> block_cursor k es it' (if i = 0 then None else Some (i - 1)))"
    if "block_cursor k es it (Some i)" for it i
  proof -
    have at: "at_entry k es i it" using that by (simp add: block_cursor_def)
    then have "i < length es" by (simp add: at_entry_def)
    then show ?thesis using at_entry_reads [OF at] Next_ok [OF fits at] Prev_ok [OF fits at] by blast
  qed
  ultimately show ?thesis
    using new SeekToFirst_ok [OF fits] SeekToLast_ok [OF fits] Iter_Seek_ok [OF fits assms(2,3) _ assms(4)]
    by (intro exI [of _ ?v] conjI allI impI ballI) blast+
qed


lemma Block_iterator_is_cursor_witness:
  "\<exists>v it it'. Block_NewIterator (Block (fst (BlockBuilder_Finish (build_block 2 [([1], [7]), ([1, 2], [8])])))) =
      BlockIterator v (Iter v) \<and>
    Iter_Seek Bytewise_Compare v [1, 1] (Iter v) = Some it \<and> bi_key it = [1, 2] \<and> Iter_value v it = [8] \<and>
    Iter_Prev v it = Some it' \<and> bi_key it' = [1] \<and> Iter_value v it' = [7]"
proof -
  let ?es = "[([1], [7]), ([1, 2], [8])] :: entries"
  have entries: "offset 2 ?es (length ?es) = 10" "restart_count 2 ?es = 1"
    by (simp_all add: blk_entries_def blk_entry_def entry_head_def entry_shared_def restart_count_def EncodeVarint32_def)
  have fits: "block_fits 2 ?es" unfolding block_fits_def entries by simp
  have sorted: "sorted_wrt (\<lambda>a b. Bytewise_Compare (fst a) (fst b) < 0) ?es"
    by (simp add: Bytewise_Compare_def slice_compare_eq)
  have pos: "seek_pos Bytewise_Compare ?es [1, 1] = Some 1"
    by (simp add: seek_pos_def Bytewise_Compare_def slice_compare_eq)
  obtain v where v: "Block_NewIterator (Block (fst (BlockBuilder_Finish (build_block 2 ?es)))) = BlockIterator v (Iter v)"
    and start: "bi_status (Iter v) = OK"
    and seek: "\<forall>it. \<forall>target\<in>UNIV. bi_status it = OK \<longrightarrow> (\<exists>it'. Iter_Seek Bytewise_Compare v target it = Some it' \<and>
        block_cursor 2 ?es it' (seek_pos Bytewise_Compare ?es target))"
    and at: "\<forall>it i. block_cursor 2 ?es it (Some i) \<longrightarrow> i < length ?es \<and> Iter_Valid v it \<and> bi_key it = fst (?es ! i) \<and>
      Iter_value v it = snd (?es ! i) \<and>
      block_cursor 2 ?es (Iter_Next v it) (if Suc i = length ?es then None else Some (Suc i)) \<and>
      (\<exists>it'. Iter_Prev v it = Some it' \<and> block_cursor 2 ?es it' (if i = 0 then None else Some (i - 1)))"
    using Block_iterator_is_cursor [OF fits bytewise.comparator_axioms subset_UNIV sorted] by blast
  obtain it where it: "Iter_Seek Bytewise_Compare v [1, 1] (Iter v) = Some it" "block_cursor 2 ?es it (Some 1)"
    using seek start pos by (metis UNIV_I)
  note last = at [THEN spec, THEN spec, THEN mp, OF it(2)]
  then obtain it' where it': "Iter_Prev v it = Some it'" "block_cursor 2 ?es it' (Some 0)" by auto
  note first = at [THEN spec, THEN spec, THEN mp, OF it'(2)]
  from last first have "bi_key it = [1, 2] \<and> Iter_value v it = [8]" "bi_key it' = [1] \<and> Iter_value v it' = [7]"
    by simp_all
  with v it(1) it'(1) show ?thesis by blast
qed

lemma GetVarint32Ptr_shorter: "GetVarint32Ptr p = Some (v, q) \<Longrightarrow> length q < length p"
proof -
  have "varint_ptr_loop n s r p = Some (v, q) \<Longrightarrow> length q < length p" for n s r
    by (induction n s r p rule: varint_ptr_loop.induct) (auto simp: Let_def split: if_splits)
  then show "GetVarint32Ptr p = Some (v, q) \<Longrightarrow> length q < length p" by (simp add: GetVarint32Ptr_eq)
qed

lemma DecodeEntry_Some:
  assumes "DecodeEntry p = Some (shared, non_shared, value_length, rest)"
  shows "length rest + 3 \<le> length p" "non_shared + value_length \<le> word_of_nat (length rest)"
  using assms
  by (auto dest!: GetVarint32Ptr_shorter simp: DecodeEntry_def Let_def bind_eq_Some_conv not_less split: if_splits option.splits)

text \<open>
  Property C21. What the bound check of \<open>DecodeEntry\<close> gives. An entry that is accepted has its key's and its
  value's bytes inside the block as long as the two sizes do not add up to \<open>2^32\<close>; the check adds them in 32
  bits, so beyond that it is void: there is an accepted entry whose key alone reaches past the end.
\<close>

theorem DecodeEntry_bounds:
  "(\<forall>p shared non_shared value_length rest.
      DecodeEntry p = Some (shared, non_shared, value_length, rest) \<and> length p < 2 ^ 32 \<and>
      unat non_shared + unat value_length < 2 ^ 32 \<longrightarrow>
      length rest + 3 \<le> length p \<and> unat non_shared + unat value_length \<le> length rest) \<and>
   (\<exists>p shared non_shared value_length rest.
      DecodeEntry p = Some (shared, non_shared, value_length, rest) \<and> length rest < unat non_shared)"
proof (intro conjI allI impI)
  fix p rest and shared non_shared value_length :: u32
  assume *: "DecodeEntry p = Some (shared, non_shared, value_length, rest) \<and> length p < 2 ^ 32 \<and>
    unat non_shared + unat value_length < 2 ^ 32"
  then show "length rest + 3 \<le> length p" using DecodeEntry_Some(1) by blast
  then have "unat (word_of_nat (length rest) :: u32) = length rest"
    by (intro unat_word_of_nat_less) (use * in simp)
  moreover have "unat (non_shared + value_length) = unat non_shared + unat value_length"
    using * by (simp add: unat_plus_if')
  ultimately show "unat non_shared + unat value_length \<le> length rest"
    using * DecodeEntry_Some(2) by (metis word_le_nat_alt)
next
  have "DecodeEntry [0, 255, 255, 255, 255, 15, 2, 9] = Some (0, 4294967295, 2, [9])"
    by (simp add: DecodeEntry_def GetVarint32Ptr_def GetVarint32PtrFallback_def)
  then show "\<exists>p shared non_shared value_length rest.
      DecodeEntry p = Some (shared, non_shared, value_length, rest) \<and> length rest < unat non_shared"
    by (intro exI conjI) (assumption, simp)
qed

lemma DecodeEntry_bounds_witness:
  "DecodeEntry [0, 1, 1, 9, 8] = Some (0, 1, 1, [9, 8]) \<and> unat (1 :: u32) + unat (1 :: u32) \<le> length [9, 8 :: u8]"
proof -
  have "DecodeEntry [0, 1, 1, 9, 8] = Some (0, 1, 1, [9, 8])" by (simp add: DecodeEntry_def)
  with DecodeEntry_bounds show ?thesis by simp
qed

end
