(* ===== verification/LDB_Iterator.thy ===== *)
theory LDB_Iterator
  imports LDB_Block_Spec
begin

text \<open>
  The interface of iterators (\<open>include/leveldb/iterator.h\<close>): the virtual methods of an iterator class are a
  record of functions on its objects. A method that does not return has no result. The contract that the
  header states is the locale \<open>cursor\<close>: an iterator walks on a list of entries in the order of their keys.
  The iterators of blocks keep it.
\<close>

subsection \<open>The methods\<close>

record 'i iterator_ops =
  it_Valid :: "'i \<Rightarrow> bool"
  it_SeekToFirst :: "'i \<Rightarrow> 'i option"
  it_SeekToLast :: "'i \<Rightarrow> 'i option"
  it_Seek :: "slice \<Rightarrow> 'i \<Rightarrow> 'i option"
  it_Next :: "'i \<Rightarrow> 'i option"
  it_Prev :: "'i \<Rightarrow> 'i option"
  it_key :: "'i \<Rightarrow> slice"
  it_value :: "'i \<Rightarrow> slice"
  it_status :: "'i \<Rightarrow> Status"

text \<open>
  \<open>alive it\<close>: an iterator on the list \<open>es\<close> in any state; \<open>at it p\<close>: it is at the entry \<open>p\<close>, or not at
  an entry.
\<close>

locale cursor = comparator A cmp
  for A :: "slice set" and cmp :: "slice \<Rightarrow> slice \<Rightarrow> int" +
  fixes es :: entries and ops :: "'i iterator_ops" and alive :: "'i \<Rightarrow> bool" and at :: "'i \<Rightarrow> nat option \<Rightarrow> bool"
  assumes keys_sorted: "sorted_wrt (\<lambda>a b. cmp (fst a) (fst b) < 0) es"
    and keys_in: "fst ` set es \<subseteq> A"
    and at_alive: "at it p \<Longrightarrow> alive it"
    and at_valid: "at it p \<Longrightarrow> it_Valid ops it \<longleftrightarrow> p \<noteq> None"
    and at_shows: "at it (Some i) \<Longrightarrow> i < length es \<and> it_key ops it = fst (es ! i) \<and> it_value ops it = snd (es ! i)"
    and alive_status: "alive it \<Longrightarrow> it_status ops it = OK"
    and to_first: "alive it \<Longrightarrow> \<exists>it'. it_SeekToFirst ops it = Some it' \<and> at it' (if es = [] then None else Some 0)"
    and to_last: "alive it \<Longrightarrow> \<exists>it'. it_SeekToLast ops it = Some it' \<and> at it' (if es = [] then None else Some (length es - 1))"
    and to_target: "alive it \<Longrightarrow> target \<in> A \<Longrightarrow> \<exists>it'. it_Seek ops target it = Some it' \<and> at it' (seek_pos cmp es target)"
    and to_next: "at it (Some i) \<Longrightarrow> \<exists>it'. it_Next ops it = Some it' \<and> at it' (if Suc i = length es then None else Some (Suc i))"
    and to_prev: "at it (Some i) \<Longrightarrow> \<exists>it'. it_Prev ops it = Some it' \<and> at it' (if i = 0 then None else Some (i - 1))"
begin

lemma key_in: "i < length es \<Longrightarrow> fst (es ! i) \<in> A"
  using keys_in nth_mem by blast

lemma key_less: "i < j \<Longrightarrow> j < length es \<Longrightarrow> cmp (fst (es ! i)) (fst (es ! j)) < 0"
  using keys_sorted by (simp add: sorted_wrt_iff_nth_less)

end

subsection \<open>The iterators of blocks\<close>

fun any_Valid :: "new_iterator \<Rightarrow> bool" where
  "any_Valid (BlockIterator v it) = Iter_Valid v it"
| "any_Valid _ = False"

fun any_SeekToFirst :: "new_iterator \<Rightarrow> new_iterator option" where
  "any_SeekToFirst (BlockIterator v it) = Some (BlockIterator v (Iter_SeekToFirst v it))"
| "any_SeekToFirst it = Some it"

fun any_SeekToLast :: "new_iterator \<Rightarrow> new_iterator option" where
  "any_SeekToLast (BlockIterator v it) = map_option (BlockIterator v) (Iter_SeekToLast v it)"
| "any_SeekToLast it = Some it"

fun any_Seek :: "(slice \<Rightarrow> slice \<Rightarrow> int) \<Rightarrow> slice \<Rightarrow> new_iterator \<Rightarrow> new_iterator option" where
  "any_Seek cmp target (BlockIterator v it) = map_option (BlockIterator v) (Iter_Seek cmp v target it)"
| "any_Seek cmp target it = Some it"

text \<open>The other methods are only called on valid iterators.\<close>

fun any_Next :: "new_iterator \<Rightarrow> new_iterator option" where
  "any_Next (BlockIterator v it) = Some (BlockIterator v (Iter_Next v it))"
| "any_Next _ = None"

fun any_Prev :: "new_iterator \<Rightarrow> new_iterator option" where
  "any_Prev (BlockIterator v it) = map_option (BlockIterator v) (Iter_Prev v it)"
| "any_Prev _ = None"

fun any_key :: "new_iterator \<Rightarrow> slice" where
  "any_key (BlockIterator v it) = bi_key it"
| "any_key _ = []"

fun any_value :: "new_iterator \<Rightarrow> slice" where
  "any_value (BlockIterator v it) = Iter_value v it"
| "any_value _ = []"

fun any_status :: "new_iterator \<Rightarrow> Status" where
  "any_status (BlockIterator v it) = bi_status it"
| "any_status EmptyIterator = OK"
| "any_status (ErrorIterator s) = s"

definition block_ops :: "(slice \<Rightarrow> slice \<Rightarrow> int) \<Rightarrow> new_iterator iterator_ops" where
  "block_ops cmp = \<lparr>it_Valid = any_Valid, it_SeekToFirst = any_SeekToFirst, it_SeekToLast = any_SeekToLast,
     it_Seek = any_Seek cmp, it_Next = any_Next, it_Prev = any_Prev, it_key = any_key, it_value = any_value,
     it_status = any_status\<rparr>"

definition block_alive :: "nat \<Rightarrow> entries \<Rightarrow> new_iterator \<Rightarrow> bool" where
  "block_alive k es x \<longleftrightarrow> (\<exists>it. x = BlockIterator (block_view_of k es) it \<and> bi_status it = OK)"

definition block_at :: "nat \<Rightarrow> entries \<Rightarrow> new_iterator \<Rightarrow> nat option \<Rightarrow> bool" where
  "block_at k es x p \<longleftrightarrow> (\<exists>it. x = BlockIterator (block_view_of k es) it \<and> block_cursor k es it p)"

lemma block_is_cursor:
  assumes fits: "block_fits k es" and cmp: "comparator A cmp" and keys: "fst ` set es \<subseteq> A"
    and sorted: "sorted_wrt (\<lambda>a b. cmp (fst a) (fst b) < 0) es"
  shows "cursor A cmp es (block_ops cmp) (block_alive k es) (block_at k es)"
proof (intro cursor.intro cmp cursor_axioms.intro sorted keys)
  let ?v = "block_view_of k es"
  fix x p
  assume "block_at k es x p"
  then obtain it where it: "x = BlockIterator ?v it" "block_cursor k es it p" by (auto simp: block_at_def)
  have "bi_status it = OK" using it(2) by (auto simp: block_cursor_def past_end_def at_entry_def split: option.splits)
  then show "block_alive k es x" by (simp add: block_alive_def it(1))
  show "it_Valid (block_ops cmp) x \<longleftrightarrow> p \<noteq> None"
    using it(2) at_entry_reads [of k es _ it]
    by (auto simp: block_ops_def it(1) block_cursor_def past_end_def Iter_Valid_def split: option.splits)
next
  fix x i
  assume "block_at k es x (Some i)"
  then obtain it where it: "x = BlockIterator (block_view_of k es) it" "at_entry k es i it"
    by (auto simp: block_at_def block_cursor_def)
  have "i < length es" using it(2) by (simp add: at_entry_def)
  then show "i < length es \<and> it_key (block_ops cmp) x = fst (es ! i) \<and> it_value (block_ops cmp) x = snd (es ! i)"
    using at_entry_reads [OF it(2)] by (simp add: block_ops_def it(1))
  show "\<exists>x'. it_Next (block_ops cmp) x = Some x' \<and> block_at k es x' (if Suc i = length es then None else Some (Suc i))"
    using Next_ok [OF fits it(2)] by (simp add: block_ops_def it(1) block_at_def)
  show "\<exists>x'. it_Prev (block_ops cmp) x = Some x' \<and> block_at k es x' (if i = 0 then None else Some (i - 1))"
    using Prev_ok [OF fits it(2)] by (auto simp: block_ops_def it(1) block_at_def)
next
  fix x
  assume "block_alive k es x"
  then obtain it where it: "x = BlockIterator (block_view_of k es) it" "bi_status it = OK" by (auto simp: block_alive_def)
  show "it_status (block_ops cmp) x = OK" by (simp add: block_ops_def it)
  show "\<exists>x'. it_SeekToFirst (block_ops cmp) x = Some x' \<and> block_at k es x' (if es = [] then None else Some 0)"
    using SeekToFirst_ok [OF fits it(2)] by (simp add: block_ops_def it(1) block_at_def)
  show "\<exists>x'. it_SeekToLast (block_ops cmp) x = Some x' \<and> block_at k es x' (if es = [] then None else Some (length es - 1))"
    using SeekToLast_ok [OF fits it(2)] by (auto simp: block_ops_def it(1) block_at_def)
  show "\<exists>x'. it_Seek (block_ops cmp) target x = Some x' \<and> block_at k es x' (seek_pos cmp es target)" if "target \<in> A" for target
    using Iter_Seek_ok [OF fits cmp keys that sorted it(2)] by (auto simp: block_ops_def it(1) block_at_def)
qed

text \<open>For every list of entries that makes a block, here with the built-in comparator.\<close>

definition block_entries :: "nat \<Rightarrow> entries \<Rightarrow> entries" where
  "block_entries k es =
     (if block_fits k es \<and> sorted_wrt (\<lambda>a b. Bytewise_Compare (fst a) (fst b) < 0) es then es else [])"

lemma block_fits_Nil: "block_fits (Suc k) []"
  by (simp add: block_fits_def restart_count_def)

interpretation bytewise_block: cursor UNIV Bytewise_Compare "block_entries (Suc k) es" "block_ops Bytewise_Compare"
  "block_alive (Suc k) (block_entries (Suc k) es)" "block_at (Suc k) (block_entries (Suc k) es)" for k es
  by (rule block_is_cursor) (simp_all add: block_entries_def block_fits_Nil bytewise.comparator_axioms)

end
