(* ===== verification/LDB_Merge.thy ===== *)
theory LDB_Merge
  imports LDB_Iterator "HOL-Library.Multiset"
begin

text \<open>
  The merging iterator (\<open>table/merger.cc\<close>): a cursor on the merge of the lists of its children, in both
  directions, for children of any kind that keep the contract \<open>cursor\<close>.
\<close>

subsection \<open>The iterator\<close>

datatype Direction = kForward | kReverse

text \<open>The child \<open>current_\<close> is known by its index.\<close>

record 'i merging_iter =
  mi_children :: "'i list"
  mi_current :: "nat option"
  mi_direction :: Direction

definition MergingIterator :: "'i list \<Rightarrow> 'i merging_iter" where
  "MergingIterator children = \<lparr>mi_children = children, mi_current = None, mi_direction = kForward\<rparr>"

fun for_children :: "(nat \<Rightarrow> 'i \<Rightarrow> 'i option) \<Rightarrow> nat \<Rightarrow> 'i list \<Rightarrow> 'i list option" where
  "for_children f i [] = Some []"
| "for_children f i (child # cs) =
     Option.bind (f i child) (\<lambda>child. map_option ((#) child) (for_children f (Suc i) cs))"

definition FindSmallest :: "'i iterator_ops \<Rightarrow> (slice \<Rightarrow> slice \<Rightarrow> int) \<Rightarrow> 'i list \<Rightarrow> nat option" where
  "FindSmallest ops cmp children =
     foldl (\<lambda>smallest i. if it_Valid ops (children ! i)
         then (case smallest of
                 None \<Rightarrow> Some i
               | Some j \<Rightarrow> if cmp (it_key ops (children ! i)) (it_key ops (children ! j)) < 0 then Some i else smallest)
         else smallest) None [0..<length children]"

definition FindLargest :: "'i iterator_ops \<Rightarrow> (slice \<Rightarrow> slice \<Rightarrow> int) \<Rightarrow> 'i list \<Rightarrow> nat option" where
  "FindLargest ops cmp children =
     foldl (\<lambda>largest i. if it_Valid ops (children ! i)
         then (case largest of
                 None \<Rightarrow> Some i
               | Some j \<Rightarrow> if cmp (it_key ops (children ! i)) (it_key ops (children ! j)) > 0 then Some i else largest)
         else largest) None (rev [0..<length children])"

definition merging_Valid :: "'i merging_iter \<Rightarrow> bool" where
  "merging_Valid m \<longleftrightarrow> mi_current m \<noteq> None"

definition merging_SeekToFirst ::
  "'i iterator_ops \<Rightarrow> (slice \<Rightarrow> slice \<Rightarrow> int) \<Rightarrow> 'i merging_iter \<Rightarrow> 'i merging_iter option" where
  "merging_SeekToFirst ops cmp m =
     map_option (\<lambda>children. m\<lparr>mi_children := children, mi_current := FindSmallest ops cmp children, mi_direction := kForward\<rparr>)
       (for_children (\<lambda>i. it_SeekToFirst ops) 0 (mi_children m))"

definition merging_SeekToLast ::
  "'i iterator_ops \<Rightarrow> (slice \<Rightarrow> slice \<Rightarrow> int) \<Rightarrow> 'i merging_iter \<Rightarrow> 'i merging_iter option" where
  "merging_SeekToLast ops cmp m =
     map_option (\<lambda>children. m\<lparr>mi_children := children, mi_current := FindLargest ops cmp children, mi_direction := kReverse\<rparr>)
       (for_children (\<lambda>i. it_SeekToLast ops) 0 (mi_children m))"

definition merging_Seek ::
  "'i iterator_ops \<Rightarrow> (slice \<Rightarrow> slice \<Rightarrow> int) \<Rightarrow> slice \<Rightarrow> 'i merging_iter \<Rightarrow> 'i merging_iter option" where
  "merging_Seek ops cmp target m =
     map_option (\<lambda>children. m\<lparr>mi_children := children, mi_current := FindSmallest ops cmp children, mi_direction := kForward\<rparr>)
       (for_children (\<lambda>i. it_Seek ops target) 0 (mi_children m))"

definition merging_key :: "'i iterator_ops \<Rightarrow> 'i merging_iter \<Rightarrow> slice" where
  "merging_key ops m = it_key ops (mi_children m ! the (mi_current m))"

definition merging_value :: "'i iterator_ops \<Rightarrow> 'i merging_iter \<Rightarrow> slice" where
  "merging_value ops m = it_value ops (mi_children m ! the (mi_current m))"

definition merging_Next ::
  "'i iterator_ops \<Rightarrow> (slice \<Rightarrow> slice \<Rightarrow> int) \<Rightarrow> 'i merging_iter \<Rightarrow> 'i merging_iter option" where
  "merging_Next ops cmp m =
     (case mi_current m of
        None \<Rightarrow> None
      | Some c \<Rightarrow>
          Option.bind
            (if mi_direction m \<noteq> kForward
             then for_children (\<lambda>i child.
                 if i \<noteq> c
                 then Option.bind (it_Seek ops (merging_key ops m) child) (\<lambda>child.
                   if it_Valid ops child \<and> cmp (merging_key ops m) (it_key ops child) = 0 then it_Next ops child else Some child)
                 else Some child) 0 (mi_children m)
             else Some (mi_children m)) (\<lambda>children.
          map_option (\<lambda>child.
            (let children = children[c := child]
             in \<lparr>mi_children = children, mi_current = FindSmallest ops cmp children, mi_direction = kForward\<rparr>))
            (it_Next ops (children ! c))))"

definition merging_Prev ::
  "'i iterator_ops \<Rightarrow> (slice \<Rightarrow> slice \<Rightarrow> int) \<Rightarrow> 'i merging_iter \<Rightarrow> 'i merging_iter option" where
  "merging_Prev ops cmp m =
     (case mi_current m of
        None \<Rightarrow> None
      | Some c \<Rightarrow>
          Option.bind
            (if mi_direction m \<noteq> kReverse
             then for_children (\<lambda>i child.
                 if i \<noteq> c
                 then Option.bind (it_Seek ops (merging_key ops m) child) (\<lambda>child.
                   if it_Valid ops child then it_Prev ops child else it_SeekToLast ops child)
                 else Some child) 0 (mi_children m)
             else Some (mi_children m)) (\<lambda>children.
          map_option (\<lambda>child.
            (let children = children[c := child]
             in \<lparr>mi_children = children, mi_current = FindLargest ops cmp children, mi_direction = kReverse\<rparr>))
            (it_Prev ops (children ! c))))"

text \<open>The first status that is not OK, if there is one.\<close>

fun first_error :: "Status list \<Rightarrow> Status" where
  "first_error [] = OK"
| "first_error (s # ss) = (if s \<noteq> OK then s else first_error ss)"

definition merging_status :: "'i iterator_ops \<Rightarrow> 'i merging_iter \<Rightarrow> Status" where
  "merging_status ops m = first_error (map (it_status ops) (mi_children m))"

definition merging_ops :: "'i iterator_ops \<Rightarrow> (slice \<Rightarrow> slice \<Rightarrow> int) \<Rightarrow> 'i merging_iter iterator_ops" where
  "merging_ops ops cmp = \<lparr>it_Valid = merging_Valid, it_SeekToFirst = merging_SeekToFirst ops cmp,
     it_SeekToLast = merging_SeekToLast ops cmp, it_Seek = merging_Seek ops cmp, it_Next = merging_Next ops cmp,
     it_Prev = merging_Prev ops cmp, it_key = merging_key ops, it_value = merging_value ops,
     it_status = merging_status ops\<rparr>"

subsection \<open>Cuts of sorted lists\<close>

text \<open>A set of keys that is closed downwards cuts a sorted list: the positions after and before the cut.\<close>

definition cut_at :: "(slice \<Rightarrow> bool) \<Rightarrow> entries \<Rightarrow> nat" where
  "cut_at low xs = length (takeWhile (\<lambda>e. low (fst e)) xs)"

definition after_cut :: "(slice \<Rightarrow> bool) \<Rightarrow> entries \<Rightarrow> nat option" where
  "after_cut low xs = (if cut_at low xs < length xs then Some (cut_at low xs) else None)"

definition before_cut :: "(slice \<Rightarrow> bool) \<Rightarrow> entries \<Rightarrow> nat option" where
  "before_cut low xs = (if cut_at low xs = 0 then None else Some (cut_at low xs - 1))"

lemma cut_at_le: "cut_at low xs \<le> length xs"
  by (simp add: cut_at_def length_takeWhile_le)

lemma cut_at_cong: "(\<And>e. e \<in> set xs \<Longrightarrow> low (fst e) = low' (fst e)) \<Longrightarrow> cut_at low xs = cut_at low' xs"
  unfolding cut_at_def by (rule arg_cong [where f = length], rule takeWhile_cong) simp_all

lemma seek_pos_cut: "seek_pos cmp xs t = after_cut (\<lambda>k. cmp k t < 0) xs"
  by (simp add: seek_pos_def after_cut_def cut_at_def Let_def)

lemma for_children_map:
  "(\<And>j. j < length cs \<Longrightarrow> f (i + j) (cs ! j) = Some (g j)) \<Longrightarrow>
    for_children f i cs = Some (map g [0..<length cs])"
proof (induction cs arbitrary: i g)
  case (Cons c cs)
  have "for_children f (Suc i) cs = Some (map (\<lambda>j. g (Suc j)) [0..<length cs])"
    using Cons.prems [of "Suc _"] by (intro Cons.IH) simp
  moreover have "map g [0..<length (c # cs)] = g 0 # map (\<lambda>j. g (Suc j)) [0..<length cs]"
    by (simp only: length_Cons upt_conv_Cons map_Suc_upt [symmetric] list.map map_map zero_less_Suc) (simp add: comp_def)
  ultimately show ?case using Cons.prems [of 0] by simp
qed simp

lemma for_children_ex:
  assumes "\<And>j. j < length cs \<Longrightarrow> \<exists>c. f j (cs ! j) = Some c \<and> P j c"
  shows "\<exists>cs'. for_children f 0 cs = Some cs' \<and> length cs' = length cs \<and> (\<forall>j<length cs. P j (cs' ! j))"
proof -
  from assms obtain g where "\<And>j. j < length cs \<Longrightarrow> f j (cs ! j) = Some (g j) \<and> P j (g j)" by metis
  with for_children_map [of cs f 0 g] show ?thesis by simp
qed

lemma first_error_OK: "(\<And>s. s \<in> set ss \<Longrightarrow> s = OK) \<Longrightarrow> first_error ss = OK"
  by (induction ss) auto

lemma distinct_concat_nth:
  "distinct (concat xss) \<Longrightarrow> i < length xss \<Longrightarrow> j < length xss \<Longrightarrow> x \<in> set (xss ! i) \<Longrightarrow> x \<in> set (xss ! j) \<Longrightarrow> i = j"
proof (induction xss arbitrary: i j)
  case (Cons xs xss)
  have "x \<in> set (concat xss)" if "Suc k < length (xs # xss)" "x \<in> set (xss ! k)" for k
    using that nth_mem [of k xss] by auto
  with Cons show ?case by (cases i; cases j) auto
qed simp

subsection \<open>The merge of the children's lists\<close>

definition merges ::
  "slice set \<Rightarrow> (slice \<Rightarrow> slice \<Rightarrow> int) \<Rightarrow> entries list \<Rightarrow> entries \<Rightarrow> 'i iterator_ops \<Rightarrow> (nat \<Rightarrow> 'i \<Rightarrow> bool) \<Rightarrow>
    (nat \<Rightarrow> 'i \<Rightarrow> nat option \<Rightarrow> bool) \<Rightarrow> bool" where
  "merges A cmp ess es ops alive at \<longleftrightarrow>
     (\<forall>j<length ess. cursor A cmp (ess ! j) ops (alive j) (at j)) \<and> comparator A cmp \<and> fst ` set es \<subseteq> A \<and>
     sorted_wrt (\<lambda>a b. cmp (fst a) (fst b) < 0) es \<and> mset es = mset (concat ess)"

definition downward :: "slice set \<Rightarrow> (slice \<Rightarrow> slice \<Rightarrow> int) \<Rightarrow> (slice \<Rightarrow> bool) \<Rightarrow> bool" where
  "downward A cmp low \<longleftrightarrow> (\<forall>a\<in>A. \<forall>b\<in>A. cmp a b \<le> 0 \<and> low b \<longrightarrow> low a)"

lemma downward_less: "comparator A cmp \<Longrightarrow> t \<in> A \<Longrightarrow> downward A cmp (\<lambda>k. cmp k t < 0)"
  using comparator.cmp_trans' [of A cmp] unfolding downward_def by blast

lemma downward_le: "comparator A cmp \<Longrightarrow> t \<in> A \<Longrightarrow> downward A cmp (\<lambda>k. cmp k t \<le> 0)"
  using comparator.le_trans [of A cmp] unfolding downward_def by blast

lemma downward_const: "downward A cmp (\<lambda>k. b)"
  by (simp add: downward_def)

lemma low_iff_cut:
  assumes "downward A cmp low" "fst ` set xs \<subseteq> A" "sorted_wrt (\<lambda>a b. cmp (fst a) (fst b) < 0) xs" "i < length xs"
  shows "low (fst (xs ! i)) \<longleftrightarrow> i < cut_at low xs"
proof
  assume "i < cut_at low xs"
  then show "low (fst (xs ! i))" unfolding cut_at_def by (rule takeWhile_prefix)
next
  assume low: "low (fst (xs ! i))"
  show "i < cut_at low xs"
  proof (rule ccontr)
    assume "\<not> i < cut_at low xs"
    then have c: "cut_at low xs \<le> i" "cut_at low xs < length xs" using assms(4) by simp_all
    then have not_low: "\<not> low (fst (xs ! cut_at low xs))"
      unfolding cut_at_def using nth_length_takeWhile [of "\<lambda>e. low (fst e)" xs] by simp
    have "cmp (fst (xs ! cut_at low xs)) (fst (xs ! i)) < 0" if "cut_at low xs < i"
      using assms(3,4) that by (simp add: sorted_wrt_iff_nth_less)
    moreover have "fst (xs ! cut_at low xs) \<in> A" "fst (xs ! i) \<in> A" using assms(2,4) c(2) by (meson image_subset_iff nth_mem)+
    ultimately have "cut_at low xs \<noteq> i \<longrightarrow> low (fst (xs ! cut_at low xs))"
      using low assms(1) c(1) unfolding downward_def by (meson le_neq_implies_less less_imp_le)
    with not_low low show False by auto
  qed
qed

text \<open>The two searches: the child they choose is valid and has a smallest, or a largest, key.\<close>

definition best :: "(slice \<Rightarrow> slice \<Rightarrow> bool) \<Rightarrow> 'i iterator_ops \<Rightarrow> 'i list \<Rightarrow> nat set \<Rightarrow> nat option \<Rightarrow> bool" where
  "best le ops children I r \<longleftrightarrow>
     (case r of
        None \<Rightarrow> \<forall>i\<in>I. \<not> it_Valid ops (children ! i)
      | Some c \<Rightarrow> c \<in> I \<and> it_Valid ops (children ! c) \<and>
          (\<forall>i\<in>I. it_Valid ops (children ! i) \<longrightarrow> le (it_key ops (children ! c)) (it_key ops (children ! i))))"

lemma best_step:
  assumes "best le ops children I r" "\<And>k. k \<in> K \<Longrightarrow> le k k"
    and trans: "\<And>a b c. a \<in> K \<Longrightarrow> b \<in> K \<Longrightarrow> c \<in> K \<Longrightarrow> le a b \<Longrightarrow> le b c \<Longrightarrow> le a c"
    and total': "\<And>a b. a \<in> K \<Longrightarrow> b \<in> K \<Longrightarrow> better a b \<Longrightarrow> le a b" "\<And>a b. a \<in> K \<Longrightarrow> b \<in> K \<Longrightarrow> \<not> better a b \<Longrightarrow> le b a"
    and K: "\<And>j. j \<in> insert i I \<Longrightarrow> it_Valid ops (children ! j) \<Longrightarrow> it_key ops (children ! j) \<in> K"
  shows "best le ops children (insert i I)
    (if it_Valid ops (children ! i)
     then (case r of None \<Rightarrow> Some i
           | Some j \<Rightarrow> if better (it_key ops (children ! i)) (it_key ops (children ! j)) then Some i else r)
     else r)"
proof (cases r)
  case None
  then show ?thesis using assms(1,2) K by (auto simp: best_def)
next
  case (Some c)
  then have c: "c \<in> I" "it_Valid ops (children ! c)"
    "\<forall>j\<in>I. it_Valid ops (children ! j) \<longrightarrow> le (it_key ops (children ! c)) (it_key ops (children ! j))"
    using assms(1) by (auto simp: best_def)
  have kc: "it_key ops (children ! c) \<in> K" using K c(1,2) by blast
  show ?thesis
  proof (cases "it_Valid ops (children ! i)")
    case False
    then show ?thesis using Some c by (simp add: best_def)
  next
    case True
    then have ki: "it_key ops (children ! i) \<in> K" using K by blast
    show ?thesis
    proof (cases "better (it_key ops (children ! i)) (it_key ops (children ! c))")
      case better: True
      have "le (it_key ops (children ! i)) (it_key ops (children ! j))" if "j \<in> insert i I" "it_Valid ops (children ! j)" for j
        using that assms(2) [OF ki] trans [OF ki kc K [OF that] total'(1) [OF ki kc better]] c(3) by blast
      with True better Some show ?thesis by (simp add: best_def)
    next
      case False
      then show ?thesis using True Some c total'(2) [OF ki kc] by (simp add: best_def)
    qed
  qed
qed

lemma fold_best:
  assumes refl: "\<And>k. k \<in> K \<Longrightarrow> le k k"
    and trans: "\<And>a b c. a \<in> K \<Longrightarrow> b \<in> K \<Longrightarrow> c \<in> K \<Longrightarrow> le a b \<Longrightarrow> le b c \<Longrightarrow> le a c"
    and total': "\<And>a b. a \<in> K \<Longrightarrow> b \<in> K \<Longrightarrow> better a b \<Longrightarrow> le a b" "\<And>a b. a \<in> K \<Longrightarrow> b \<in> K \<Longrightarrow> \<not> better a b \<Longrightarrow> le b a"
    and K: "\<And>j. j \<in> set is \<Longrightarrow> it_Valid ops (children ! j) \<Longrightarrow> it_key ops (children ! j) \<in> K"
  shows "best le ops children (set is)
    (foldl (\<lambda>r i. if it_Valid ops (children ! i)
       then (case r of None \<Rightarrow> Some i
             | Some j \<Rightarrow> if better (it_key ops (children ! i)) (it_key ops (children ! j)) then Some i else r)
       else r) None is)"
  using K
proof (induction "is" rule: rev_induct)
  case Nil
  then show ?case by (simp add: best_def)
next
  case (snoc i "is")
  have K: "\<And>j. j \<in> insert i (set is) \<Longrightarrow> it_Valid ops (children ! j) \<Longrightarrow> it_key ops (children ! j) \<in> K"
    using snoc.prems by simp
  have "best le ops children (set is) (foldl (\<lambda>r i. if it_Valid ops (children ! i)
       then (case r of None \<Rightarrow> Some i
             | Some j \<Rightarrow> if better (it_key ops (children ! i)) (it_key ops (children ! j)) then Some i else r)
       else r) None is)" by (rule snoc.IH) (use K in simp)
  from best_step [where better = better and K = K, OF this refl trans total' K] show ?case by simp
qed

lemma FindSmallest_best:
  assumes cmp: "comparator A cmp"
    and K: "\<And>j. j < length children \<Longrightarrow> it_Valid ops (children ! j) \<Longrightarrow> it_key ops (children ! j) \<in> A"
  shows "best (\<lambda>a b. cmp a b \<le> 0) ops children {..<length children} (FindSmallest ops cmp children)"
proof -
  have "best (\<lambda>a b. cmp a b \<le> 0) ops children (set [0..<length children]) (FindSmallest ops cmp children)"
    unfolding FindSmallest_def
  proof (rule fold_best [where K = A and better = "\<lambda>a b. cmp a b < 0"])
    fix a b assume "a \<in> A" "b \<in> A" "\<not> cmp a b < 0"
    then show "cmp b a \<le> 0" using comparator.sign_swap [OF cmp, of b a] by simp
  next
    fix a b c assume "a \<in> A" "b \<in> A" "c \<in> A" "cmp a b \<le> 0" "cmp b c \<le> 0"
    then show "cmp a c \<le> 0" using comparator.le_trans [OF cmp, of a b c] by blast
  qed (use comparator.cmp_refl [OF cmp] K in simp_all)
  then show ?thesis by (simp add: lessThan_atLeast0)
qed

lemma FindLargest_best:
  assumes cmp: "comparator A cmp"
    and K: "\<And>j. j < length children \<Longrightarrow> it_Valid ops (children ! j) \<Longrightarrow> it_key ops (children ! j) \<in> A"
  shows "best (\<lambda>a b. cmp b a \<le> 0) ops children {..<length children} (FindLargest ops cmp children)"
proof -
  have "best (\<lambda>a b. cmp b a \<le> 0) ops children (set (rev [0..<length children])) (FindLargest ops cmp children)"
    unfolding FindLargest_def
  proof (rule fold_best [where K = A and better = "\<lambda>a b. cmp a b > 0"])
    fix a b c assume "a \<in> A" "b \<in> A" "c \<in> A" "cmp b a \<le> 0" "cmp c b \<le> 0"
    then show "cmp c a \<le> 0" using comparator.le_trans [OF cmp, of c b a] by blast
  next
    fix a b assume "a \<in> A" "b \<in> A" "cmp a b > 0"
    then show "cmp b a \<le> 0" using comparator.sign_swap [OF cmp, of b a] by simp
  qed (use comparator.cmp_refl [OF cmp] K in simp_all)
  then show ?thesis by (simp add: lessThan_atLeast0)
qed

lemma mergesD:
  assumes "merges A cmp ess es ops alive at"
  shows "comparator A cmp" "fst ` set es \<subseteq> A" "sorted_wrt (\<lambda>a b. cmp (fst a) (fst b) < 0) es"
    and "j < length ess \<Longrightarrow> cursor A cmp (ess ! j) ops (alive j) (at j)"
    and "set es = (\<Union>j<length ess. set (ess ! j))"
proof -
  show "comparator A cmp" "fst ` set es \<subseteq> A" "sorted_wrt (\<lambda>a b. cmp (fst a) (fst b) < 0) es"
    "j < length ess \<Longrightarrow> cursor A cmp (ess ! j) ops (alive j) (at j)"
    using assms by (simp_all add: merges_def)
  have "set es = set (concat ess)" using assms by (metis merges_def set_mset_mset)
  then show "set es = (\<Union>j<length ess. set (ess ! j))" by (auto simp: set_conv_nth [of ess])
qed

lemma sorted_le_index:
  assumes "comparator A cmp" "fst ` set xs \<subseteq> A" "sorted_wrt (\<lambda>a b. cmp (fst a) (fst b) < 0) xs"
    and "i < length xs" "j < length xs" "cmp (fst (xs ! i)) (fst (xs ! j)) \<le> 0"
  shows "i \<le> j"
proof (rule ccontr)
  assume "\<not> i \<le> j"
  then have "cmp (fst (xs ! j)) (fst (xs ! i)) < 0" using assms(3,4) by (simp add: sorted_wrt_iff_nth_less)
  moreover have "fst (xs ! i) \<in> A" "fst (xs ! j) \<in> A" using assms(2,4,5) nth_mem by blast+
  ultimately show False using comparator.cmp_less_swap [OF assms(1), of "fst (xs ! j)" "fst (xs ! i)"] assms(6) by simp
qed

text \<open>If all children are behind the cut, the smallest is at the entry behind the cut of the merge.\<close>

lemma FindSmallest_ok:
  assumes m: "merges A cmp ess es ops alive at" and low: "downward A cmp low" and len: "length children = length ess"
    and at: "\<And>j. j < length ess \<Longrightarrow> at j (children ! j) (after_cut low (ess ! j))"
  shows "case after_cut low es of
      None \<Rightarrow> FindSmallest ops cmp children = None
    | Some i \<Rightarrow> \<exists>c<length ess. \<exists>p. FindSmallest ops cmp children = Some c \<and> after_cut low (ess ! c) = Some p \<and> ess ! c ! p = es ! i"
proof -
  note cmp = mergesD(1) [OF m] and cur = mergesD(4) [OF m] and es = mergesD(2,3) [OF m]
  note child = cursor.keys_in [OF cur] cursor.keys_sorted [OF cur]
  have valid: "it_Valid ops (children ! j) \<longleftrightarrow> cut_at low (ess ! j) < length (ess ! j)" if "j < length ess" for j
    using cursor.at_valid [OF cur [OF that] at [OF that]] by (simp add: after_cut_def)
  have key: "it_key ops (children ! j) = fst (ess ! j ! cut_at low (ess ! j))"
    if "j < length ess" "cut_at low (ess ! j) < length (ess ! j)" for j
    using cursor.at_shows [OF cur [OF that(1)]] at [OF that(1)] that(2) by (simp add: after_cut_def)
  have mem: "ess ! j ! q \<in> set es" if "j < length ess" "q < length (ess ! j)" for j q
    unfolding mergesD(5) [OF m] using that by (auto intro!: bexI [of _ j])
  have "it_key ops (children ! j) \<in> A" if "j < length children" "it_Valid ops (children ! j)" for j
    using that key [of j] valid [of j] mem [of j] es(1) len by auto
  from FindSmallest_best [OF cmp this] have best: "best (\<lambda>a b. cmp a b \<le> 0) ops children {..<length ess} (FindSmallest ops cmp children)"
    by (simp add: len)
  have high: "\<not> low (fst (ess ! j ! cut_at low (ess ! j)))" if "j < length ess" "cut_at low (ess ! j) < length (ess ! j)" for j
    using low_iff_cut [OF low child(1,2) that(2)] that(1) by simp
  show ?thesis
  proof (cases "cut_at low es < length es")
    case False
    have "\<not> cut_at low (ess ! j) < length (ess ! j)" if j: "j < length ess" for j
    proof
      assume c: "cut_at low (ess ! j) < length (ess ! j)"
      then obtain i where "i < length es" "es ! i = ess ! j ! cut_at low (ess ! j)" using mem [OF j c] by (auto simp: in_set_conv_nth)
      with high [OF j c] low_iff_cut [OF low es, of i] False show False by simp
    qed
    then have "FindSmallest ops cmp children = None"
      using best valid by (auto simp: best_def split: option.splits)
    with False show ?thesis by (simp add: after_cut_def)
  next
    case True
    let ?i = "cut_at low es"
    have i_high: "\<not> low (fst (es ! ?i))" using low_iff_cut [OF low es True] by simp
    obtain j q where j: "j < length ess" "q < length (ess ! j)" "ess ! j ! q = es ! ?i"
      using nth_mem [OF True] unfolding mergesD(5) [OF m] by (auto simp: in_set_conv_nth)
    have "cut_at low (ess ! j) \<le> q"
      using low_iff_cut [OF low child(1,2) j(2)] j(1,3) i_high by simp
    then have vj: "cut_at low (ess ! j) < length (ess ! j)" "cmp (fst (ess ! j ! cut_at low (ess ! j))) (fst (es ! ?i)) \<le> 0"
      using j(2) cursor.key_less [OF cur [OF j(1)], of "cut_at low (ess ! j)" q] cursor.key_in [OF cur [OF j(1)] j(2)]
        comparator.cmp_refl [OF cmp] by (cases "cut_at low (ess ! j) = q"; simp add: j(3))+
    obtain c where c: "FindSmallest ops cmp children = Some c" "c < length ess" "it_Valid ops (children ! c)"
      "cmp (it_key ops (children ! c)) (it_key ops (children ! j)) \<le> 0"
      using best valid [OF j(1)] vj(1) j(1) by (auto simp: best_def split: option.splits)
    note vc = c(3) [unfolded valid [OF c(2)]]
    obtain i' where i': "i' < length es" "es ! i' = ess ! c ! cut_at low (ess ! c)"
      using mem [OF c(2) vc] by (auto simp: in_set_conv_nth)
    have "?i \<le> i'" using high [OF c(2) vc] low_iff_cut [OF low es i'(1)] i'(2) by simp
    moreover have "cmp (fst (es ! i')) (fst (es ! ?i)) \<le> 0"
    proof -
      have "cmp (fst (es ! i')) (fst (ess ! j ! cut_at low (ess ! j))) \<le> 0"
        using c(4) key [OF c(2) vc] key [OF j(1) vj(1)] by (simp add: i'(2))
      moreover have "fst (es ! i') \<in> A" "fst (es ! ?i) \<in> A" using es(1) i'(1) True nth_mem by blast+
      ultimately show ?thesis
        using comparator.le_trans [OF cmp _ cursor.key_in [OF cur [OF j(1)] vj(1)]] vj(2) by blast
    qed
    then have "i' \<le> ?i" by (rule sorted_le_index [OF cmp es i'(1) True])
    ultimately have "es ! ?i = ess ! c ! cut_at low (ess ! c)" using i'(2) by simp
    with c(1,2) vc True show ?thesis by (auto simp: after_cut_def)
  qed
qed

lemma FindLargest_ok:
  assumes m: "merges A cmp ess es ops alive at" and low: "downward A cmp low" and len: "length children = length ess"
    and at: "\<And>j. j < length ess \<Longrightarrow> at j (children ! j) (before_cut low (ess ! j))"
  shows "case before_cut low es of
      None \<Rightarrow> FindLargest ops cmp children = None
    | Some i \<Rightarrow> \<exists>c<length ess. \<exists>p. FindLargest ops cmp children = Some c \<and> before_cut low (ess ! c) = Some p \<and> ess ! c ! p = es ! i"
proof -
  note cmp = mergesD(1) [OF m] and cur = mergesD(4) [OF m] and es = mergesD(2,3) [OF m]
  note child = cursor.keys_in [OF cur] cursor.keys_sorted [OF cur]
  have valid: "it_Valid ops (children ! j) \<longleftrightarrow> 0 < cut_at low (ess ! j)" if "j < length ess" for j
    using cursor.at_valid [OF cur [OF that] at [OF that]] by (simp add: before_cut_def)
  have key: "it_key ops (children ! j) = fst (ess ! j ! (cut_at low (ess ! j) - 1))"
    if "j < length ess" "0 < cut_at low (ess ! j)" for j
    using cursor.at_shows [OF cur [OF that(1)]] at [OF that(1)] that(2) by (simp add: before_cut_def)
  have mem: "ess ! j ! q \<in> set es" if "j < length ess" "q < length (ess ! j)" for j q
    unfolding mergesD(5) [OF m] using that by (auto intro!: bexI [of _ j])
  have last: "cut_at low xs - 1 < length xs" if "0 < cut_at low xs" for xs using that cut_at_le [of low xs] by simp
  have "it_key ops (children ! j) \<in> A" if "j < length children" "it_Valid ops (children ! j)" for j
    using that key [of j] valid [of j] mem [OF _ last, of j] es(1) len by auto
  from FindLargest_best [OF cmp this] have best: "best (\<lambda>a b. cmp b a \<le> 0) ops children {..<length ess} (FindLargest ops cmp children)"
    by (simp add: len)
  have below: "low (fst (ess ! j ! (cut_at low (ess ! j) - 1)))" if "j < length ess" "0 < cut_at low (ess ! j)" for j
    using low_iff_cut [OF low child(1,2) last] that by simp
  show ?thesis
  proof (cases "0 < cut_at low es")
    case False
    have "\<not> 0 < cut_at low (ess ! j)" if j: "j < length ess" for j
    proof
      assume c: "0 < cut_at low (ess ! j)"
      then obtain i where "i < length es" "es ! i = ess ! j ! (cut_at low (ess ! j) - 1)"
        using mem [OF j last [OF c]] by (auto simp: in_set_conv_nth)
      with below [OF j c] low_iff_cut [OF low es, of i] False show False by simp
    qed
    then have "FindLargest ops cmp children = None"
      using best valid by (auto simp: best_def split: option.splits)
    with False show ?thesis by (simp add: before_cut_def)
  next
    case True
    let ?i = "cut_at low es - 1"
    have i_low: "low (fst (es ! ?i))" using low_iff_cut [OF low es last [OF True]] True by simp
    obtain j q where j: "j < length ess" "q < length (ess ! j)" "ess ! j ! q = es ! ?i"
      using nth_mem [OF last [OF True]] unfolding mergesD(5) [OF m] by (auto simp: in_set_conv_nth)
    have q: "q < cut_at low (ess ! j)"
      using low_iff_cut [OF low child(1,2) j(2)] j(1,3) i_low by simp
    then have vj: "0 < cut_at low (ess ! j)" by simp
    have "q \<le> cut_at low (ess ! j) - 1" using q by simp
    have le: "cmp (fst (es ! ?i)) (fst (ess ! j ! (cut_at low (ess ! j) - 1))) \<le> 0"
    proof (cases "q = cut_at low (ess ! j) - 1")
      case True
      then have "ess ! j ! (cut_at low (ess ! j) - 1) = es ! ?i" using j(3) by simp
      with comparator.cmp_refl [OF cmp cursor.key_in [OF cur [OF j(1)] j(2)]] show ?thesis by (simp add: j(3))
    next
      case False
      with \<open>q \<le> cut_at low (ess ! j) - 1\<close> cursor.key_less [OF cur [OF j(1)] _ last [OF vj], of q] show ?thesis by (simp add: j(3))
    qed
    obtain c where c: "FindLargest ops cmp children = Some c" "c < length ess" "it_Valid ops (children ! c)"
      "cmp (it_key ops (children ! j)) (it_key ops (children ! c)) \<le> 0"
      using best valid [OF j(1)] vj j(1) by (auto simp: best_def split: option.splits)
    note vc = c(3) [unfolded valid [OF c(2)]]
    obtain i' where i': "i' < length es" "es ! i' = ess ! c ! (cut_at low (ess ! c) - 1)"
      using mem [OF c(2) last [OF vc]] by (auto simp: in_set_conv_nth)
    have "i' \<le> ?i" using below [OF c(2) vc] low_iff_cut [OF low es i'(1)] i'(2) by simp
    moreover have "cmp (fst (es ! ?i)) (fst (es ! i')) \<le> 0"
    proof -
      have "cmp (fst (ess ! j ! (cut_at low (ess ! j) - 1))) (fst (es ! i')) \<le> 0"
        using c(4) key [OF c(2) vc] key [OF j(1) vj] by (simp add: i'(2))
      moreover have "fst (es ! i') \<in> A" "fst (es ! ?i) \<in> A" using es(1) i'(1) last [OF True] nth_mem by blast+
      ultimately show ?thesis
        using comparator.le_trans [OF cmp _ cursor.key_in [OF cur [OF j(1)] last [OF vj]]] le by blast
    qed
    then have "?i \<le> i'" by (rule sorted_le_index [OF cmp es last [OF True] i'(1)])
    ultimately have "es ! ?i = ess ! c ! (cut_at low (ess ! c) - 1)" using i'(2) by simp
    with c(1,2) vc True show ?thesis by (auto simp: before_cut_def)
  qed
qed

subsection \<open>The iterator is a cursor on the merge\<close>

definition merge_alive :: "entries list \<Rightarrow> (nat \<Rightarrow> 'i \<Rightarrow> bool) \<Rightarrow> 'i merging_iter \<Rightarrow> bool" where
  "merge_alive ess alive m \<longleftrightarrow> length (mi_children m) = length ess \<and> (\<forall>j<length ess. alive j (mi_children m ! j))"

text \<open>The children of a valid iterator: forwards they are at or after the key, backwards at or before it.\<close>

definition child_pos :: "(slice \<Rightarrow> slice \<Rightarrow> int) \<Rightarrow> Direction \<Rightarrow> slice \<Rightarrow> entries \<Rightarrow> nat option" where
  "child_pos cmp d key xs =
     (case d of kForward \<Rightarrow> after_cut (\<lambda>k. cmp k key < 0) xs | kReverse \<Rightarrow> before_cut (\<lambda>k. cmp k key \<le> 0) xs)"

definition merge_at ::
  "(slice \<Rightarrow> slice \<Rightarrow> int) \<Rightarrow> entries list \<Rightarrow> entries \<Rightarrow> (nat \<Rightarrow> 'i \<Rightarrow> bool) \<Rightarrow> (nat \<Rightarrow> 'i \<Rightarrow> nat option \<Rightarrow> bool) \<Rightarrow>
    'i merging_iter \<Rightarrow> nat option \<Rightarrow> bool" where
  "merge_at cmp ess es alive at m p \<longleftrightarrow>
     merge_alive ess alive m \<and>
     (case p of
        None \<Rightarrow> mi_current m = None
      | Some i \<Rightarrow> i < length es \<and>
          (\<exists>c<length ess. \<exists>q<length (ess ! c). mi_current m = Some c \<and> ess ! c ! q = es ! i) \<and>
          (\<forall>j<length ess. at j (mi_children m ! j) (child_pos cmp (mi_direction m) (fst (es ! i)) (ess ! j))))"

lemma cut_at_entry:
  assumes cmp: "comparator A cmp" and xs: "fst ` set xs \<subseteq> A" "sorted_wrt (\<lambda>a b. cmp (fst a) (fst b) < 0) xs" and q: "q < length xs"
  shows "cut_at (\<lambda>k. cmp k (fst (xs ! q)) < 0) xs = q" "cut_at (\<lambda>k. cmp k (fst (xs ! q)) \<le> 0) xs = Suc q"
proof -
  have A: "fst (xs ! i) \<in> A" if "i < length xs" for i using xs(1) that nth_mem by blast
  have less: "cmp (fst (xs ! i)) (fst (xs ! q)) < 0 \<longleftrightarrow> i < q" if "i < length xs" for i
  proof (cases i q rule: linorder_cases)
    case less
    then show ?thesis using xs(2) q by (simp add: sorted_wrt_iff_nth_less)
  next
    case equal
    then show ?thesis using comparator.cmp_refl [OF cmp A [OF q]] by simp
  next
    case greater
    then have "cmp (fst (xs ! q)) (fst (xs ! i)) < 0" using xs(2) that by (simp add: sorted_wrt_iff_nth_less)
    then show ?thesis using greater comparator.cmp_less_swap [OF cmp A [OF q] A [OF that]] by simp
  qed
  have le: "cmp (fst (xs ! i)) (fst (xs ! q)) \<le> 0 \<longleftrightarrow> i \<le> q" if "i < length xs" for i
    using sorted_le_index [OF cmp xs that q] less [OF that] comparator.cmp_refl [OF cmp A [OF q]]
    by (cases "i = q") auto
  have eq: "n = n'" if "\<And>i. i < length xs \<Longrightarrow> i < n \<longleftrightarrow> i < n'" "n \<le> length xs" "n' \<le> length xs" for n n'
    using that by (metis le_neq_implies_less less_irrefl linorder_neqE_nat order.strict_trans2)
  show "cut_at (\<lambda>k. cmp k (fst (xs ! q)) < 0) xs = q"
    using low_iff_cut [OF downward_less [OF cmp A [OF q]] xs] less q cut_at_le by (intro eq) auto
  show "cut_at (\<lambda>k. cmp k (fst (xs ! q)) \<le> 0) xs = Suc q"
    using low_iff_cut [OF downward_le [OF cmp A [OF q]] xs] le q cut_at_le by (intro eq) (auto simp: less_Suc_eq_le)
qed

lemma merges_unique:
  assumes m: "merges A cmp ess es ops alive at" and j: "j < length ess" "e \<in> set (ess ! j)"
    and c: "c < length ess" "f \<in> set (ess ! c)" and zero: "cmp (fst e) (fst f) = 0"
  shows "j = c \<and> e = f"
proof -
  note cmp = mergesD(1) [OF m] and es = mergesD(2,3) [OF m]
  have "e \<in> set es" "f \<in> set es" unfolding mergesD(5) [OF m] using j c by blast+
  then obtain a b where ab: "a < length es" "es ! a = e" "b < length es" "es ! b = f" by (auto simp: in_set_conv_nth)
  then have A: "fst e \<in> A" "fst f \<in> A" using es(1) nth_mem by blast+
  have "cmp (fst f) (fst e) = 0" using comparator.zero_swap [OF cmp A] zero by simp
  then have "a = b" using sorted_le_index [OF cmp es ab(1,3)] sorted_le_index [OF cmp es ab(3,1)] zero ab by simp
  then have ef: "e = f" using ab by simp
  have "distinct es"
    unfolding distinct_conv_nth
  proof (intro allI impI)
    fix i k assume ik: "i < length es" "k < length es" "i \<noteq> k"
    have "fst (es ! i) \<in> A" using es(1) ik(1) nth_mem by blast
    then show "es ! i \<noteq> es ! k"
      using es(2) ik comparator.cmp_refl [OF cmp, of "fst (es ! i)"] unfolding sorted_wrt_iff_nth_less
      by (metis less_irrefl linorder_neqE_nat)
  qed
  then have "distinct (concat ess)" using m by (metis merges_def mset_eq_imp_distinct_iff)
  from distinct_concat_nth [OF this j(1) c(1), of e] j(2) c(2) ef show ?thesis by blast
qed

text \<open>The cut of a child's list at a key of another child.\<close>

lemma cut_other_child:
  assumes m: "merges A cmp ess es ops alive at" and c: "c < length ess" "q < length (ess ! c)" and j: "j < length ess" "j \<noteq> c"
  shows "cut_at (\<lambda>k. cmp k (fst (ess ! c ! q)) \<le> 0) (ess ! j) = cut_at (\<lambda>k. cmp k (fst (ess ! c ! q)) < 0) (ess ! j)"
proof (rule cut_at_cong)
  fix e assume "e \<in> set (ess ! j)"
  then have "cmp (fst e) (fst (ess ! c ! q)) \<noteq> 0" using merges_unique [OF m j(1) _ c(1) nth_mem [OF c(2)]] j(2) by blast
  then show "cmp (fst e) (fst (ess ! c ! q)) \<le> 0 \<longleftrightarrow> cmp (fst e) (fst (ess ! c ! q)) < 0" by (auto simp: le_less)
qed

lemma merge_at_smallest:
  assumes m: "merges A cmp ess es ops alive at" and low: "downward A cmp low" and len: "length children = length ess"
    and at: "\<And>j. j < length ess \<Longrightarrow> at j (children ! j) (after_cut low (ess ! j))"
  shows "merge_at cmp ess es alive at
    \<lparr>mi_children = children, mi_current = FindSmallest ops cmp children, mi_direction = kForward\<rparr> (after_cut low es)"
proof -
  note cmp = mergesD(1) [OF m] and cur = mergesD(4) [OF m] and es = mergesD(2,3) [OF m]
  have alive: "merge_alive ess alive \<lparr>mi_children = children, mi_current = x, mi_direction = d\<rparr>" for x d
    using len cursor.at_alive [OF cur at] by (simp add: merge_alive_def)
  show ?thesis
  proof (cases "after_cut low es")
    case None
    with FindSmallest_ok [OF m low len at] alive show ?thesis by (simp add: merge_at_def)
  next
    case (Some i)
    then have i: "i < length es" "i = cut_at low es" by (auto simp: after_cut_def split: if_splits)
    obtain c p where c: "c < length ess" "FindSmallest ops cmp children = Some c" "after_cut low (ess ! c) = Some p" "ess ! c ! p = es ! i"
      using FindSmallest_ok [OF m low len at] Some by auto
    have "p < length (ess ! c)" using c(3) by (auto simp: after_cut_def split: if_splits)
    moreover have "cut_at low (ess ! j) = cut_at (\<lambda>k. cmp k (fst (es ! i)) < 0) (ess ! j)" if "j < length ess" for j
    proof (rule cut_at_cong)
      fix e assume "e \<in> set (ess ! j)"
      then have "e \<in> set es" unfolding mergesD(5) [OF m] using that by blast
      then obtain a where a: "a < length es" "es ! a = e" by (auto simp: in_set_conv_nth)
      have "fst (es ! i) \<in> A" using es(1) i(1) nth_mem by blast
      from low_iff_cut [OF low es a(1)] low_iff_cut [OF downward_less [OF cmp this] es a(1)] cut_at_entry(1) [OF cmp es i(1)]
      show "low (fst e) = (cmp (fst e) (fst (es ! i)) < 0)" by (simp add: a(2) i(2))
    qed
    then have "after_cut (\<lambda>k. cmp k (fst (es ! i)) < 0) (ess ! j) = after_cut low (ess ! j)" if "j < length ess" for j
      using that by (simp add: after_cut_def)
    ultimately show ?thesis using alive i(1) c(1,2,4) at Some by (auto simp: merge_at_def child_pos_def)
  qed
qed

lemma merge_at_largest:
  assumes m: "merges A cmp ess es ops alive at" and low: "downward A cmp low" and len: "length children = length ess"
    and at: "\<And>j. j < length ess \<Longrightarrow> at j (children ! j) (before_cut low (ess ! j))"
  shows "merge_at cmp ess es alive at
    \<lparr>mi_children = children, mi_current = FindLargest ops cmp children, mi_direction = kReverse\<rparr> (before_cut low es)"
proof -
  note cmp = mergesD(1) [OF m] and cur = mergesD(4) [OF m] and es = mergesD(2,3) [OF m]
  have alive: "merge_alive ess alive \<lparr>mi_children = children, mi_current = x, mi_direction = d\<rparr>" for x d
    using len cursor.at_alive [OF cur at] by (simp add: merge_alive_def)
  show ?thesis
  proof (cases "before_cut low es")
    case None
    with FindLargest_ok [OF m low len at] alive show ?thesis by (simp add: merge_at_def)
  next
    case (Some i)
    then have i: "i < length es" "cut_at low es = Suc i" using cut_at_le [of low es] by (auto simp: before_cut_def split: if_splits)
    obtain c p where c: "c < length ess" "FindLargest ops cmp children = Some c" "before_cut low (ess ! c) = Some p" "ess ! c ! p = es ! i"
      using FindLargest_ok [OF m low len at] Some by auto
    have "p < length (ess ! c)" using c(3) cut_at_le [of low "ess ! c"] by (auto simp: before_cut_def split: if_splits)
    moreover have "cut_at low (ess ! j) = cut_at (\<lambda>k. cmp k (fst (es ! i)) \<le> 0) (ess ! j)" if "j < length ess" for j
    proof (rule cut_at_cong)
      fix e assume "e \<in> set (ess ! j)"
      then have "e \<in> set es" unfolding mergesD(5) [OF m] using that by blast
      then obtain a where a: "a < length es" "es ! a = e" by (auto simp: in_set_conv_nth)
      have "fst (es ! i) \<in> A" using es(1) i(1) nth_mem by blast
      from low_iff_cut [OF low es a(1)] low_iff_cut [OF downward_le [OF cmp this] es a(1)] cut_at_entry(2) [OF cmp es i(1)]
      show "low (fst e) = (cmp (fst e) (fst (es ! i)) \<le> 0)" by (simp add: a(2) i(2))
    qed
    then have "before_cut (\<lambda>k. cmp k (fst (es ! i)) \<le> 0) (ess ! j) = before_cut low (ess ! j)" if "j < length ess" for j
      using that by (simp add: before_cut_def)
    ultimately show ?thesis using alive i(1) c(1,2,4) at Some by (auto simp: merge_at_def child_pos_def)
  qed
qed

lemma cut_ends:
  "after_cut (\<lambda>k. False) xs = (if xs = [] then None else Some 0)"
  "before_cut (\<lambda>k. True) xs = (if xs = [] then None else Some (length xs - 1))"
proof -
  have t: "takeWhile (\<lambda>e. False) xs = []" "takeWhile (\<lambda>e. True) xs = xs" by (cases xs) (simp_all add: takeWhile_eq_all_conv)
  show "after_cut (\<lambda>k. False) xs = (if xs = [] then None else Some 0)"
    "before_cut (\<lambda>k. True) xs = (if xs = [] then None else Some (length xs - 1))"
    unfolding after_cut_def before_cut_def cut_at_def t by simp_all
qed

lemma merge_current:
  assumes m: "merges A cmp ess es ops alive at" and at: "merge_at cmp ess es alive at x (Some i)"
  obtains c q where "mi_current x = Some c" "c < length ess" "q < length (ess ! c)" "ess ! c ! q = es ! i"
    "at c (mi_children x ! c) (Some q)" "i < length es" "length (mi_children x) = length ess"
    "\<And>j. j < length ess \<Longrightarrow> at j (mi_children x ! j) (child_pos cmp (mi_direction x) (fst (es ! i)) (ess ! j))"
proof -
  obtain c q where c: "mi_current x = Some c" "c < length ess" "q < length (ess ! c)" "ess ! c ! q = es ! i"
    using at unfolding merge_at_def option.case by blast
  have x: "i < length es" "length (mi_children x) = length ess"
    "\<And>j. j < length ess \<Longrightarrow> at j (mi_children x ! j) (child_pos cmp (mi_direction x) (fst (es ! i)) (ess ! j))"
    using at unfolding merge_at_def merge_alive_def option.case by blast+
  note cur = mergesD(4) [OF m c(2)]
  have "child_pos cmp (mi_direction x) (fst (es ! i)) (ess ! c) = Some q"
    using cut_at_entry [OF mergesD(1) [OF m] cursor.keys_in [OF cur] cursor.keys_sorted [OF cur] c(3)] c(3)
    by (cases "mi_direction x") (simp_all add: child_pos_def after_cut_def before_cut_def c(4))
  with x(3) [OF c(2)] have "at c (mi_children x ! c) (Some q)" by simp
  from that [OF c this x] show thesis .
qed

text \<open>\<open>Next\<close>: the other children are at or after the key in both cases, and no one of them is at it.\<close>

lemma merging_Next_ok:
  assumes m: "merges A cmp ess es ops alive at" and at: "merge_at cmp ess es alive at x (Some i)"
  shows "\<exists>x'. merging_Next ops cmp x = Some x' \<and> merge_at cmp ess es alive at x' (if Suc i = length es then None else Some (Suc i))"
proof -
  note cmp = mergesD(1) [OF m] and cur = mergesD(4) [OF m] and es = mergesD(2,3) [OF m]
  obtain c q where c: "mi_current x = Some c" "c < length ess" "q < length (ess ! c)" "ess ! c ! q = es ! i"
    "at c (mi_children x ! c) (Some q)" "i < length es" "length (mi_children x) = length ess"
    "\<And>j. j < length ess \<Longrightarrow> at j (mi_children x ! j) (child_pos cmp (mi_direction x) (fst (es ! i)) (ess ! j))"
    by (rule merge_current [OF m at]) blast
  let ?key = "fst (es ! i)"
  have A: "?key \<in> A" using es(1) c(6) nth_mem by blast
  have key: "merging_key ops x = ?key" using cursor.at_shows [OF cur [OF c(2)] c(5)] by (simp add: merging_key_def c(1,4))
  define other where "other = (\<lambda>i child. if i \<noteq> c
      then Option.bind (it_Seek ops (merging_key ops x) child) (\<lambda>child.
        if it_Valid ops child \<and> cmp (merging_key ops x) (it_key ops child) = 0 then it_Next ops child else Some child)
      else Some child)"
  have "\<exists>children. (if mi_direction x \<noteq> kForward then for_children other 0 (mi_children x) else Some (mi_children x)) = Some children \<and>
    length children = length ess \<and> children ! c = mi_children x ! c \<and>
    (\<forall>j<length ess. j \<noteq> c \<longrightarrow> at j (children ! j) (after_cut (\<lambda>k. cmp k ?key < 0) (ess ! j)))"
  proof (cases "mi_direction x")
    case kForward
    with c(7,8) show ?thesis by (auto simp: child_pos_def)
  next
    case kReverse
    have "\<exists>child. other j (mi_children x ! j) = Some child \<and> (if j = c then child = mi_children x ! c
        else at j child (after_cut (\<lambda>k. cmp k ?key < 0) (ess ! j)))" if "j < length (mi_children x)" for j
    proof (cases "j = c")
      case False
      have j: "j < length ess" using that c(7) by simp
      obtain child where child: "it_Seek ops ?key (mi_children x ! j) = Some child" "at j child (after_cut (\<lambda>k. cmp k ?key < 0) (ess ! j))"
        using cursor.to_target [OF cur [OF j] cursor.at_alive [OF cur [OF j] c(8) [OF j]] A] unfolding seek_pos_cut by blast
      have "cmp ?key (it_key ops child) \<noteq> 0" if v: "it_Valid ops child"
      proof -
        obtain p where p: "at j child (Some p)" using child(2) v cursor.at_valid [OF cur [OF j] child(2)] by auto
        note entry = cursor.at_shows [OF cur [OF j] p]
        show ?thesis
        proof
          assume "cmp ?key (it_key ops child) = 0"
          then have "cmp (fst (ess ! c ! q)) (fst (ess ! j ! p)) = 0" using entry by (simp add: c(4))
          from merges_unique [OF m c(2) _ j _ this] entry c(3) False show False by simp
        qed
      qed
      with child False show ?thesis by (auto simp: other_def key)
    qed (simp add: other_def)
    from for_children_ex [of "mi_children x" other, OF this] obtain children
      where *: "for_children other 0 (mi_children x) = Some children" "length children = length (mi_children x)"
        "\<And>j. j < length (mi_children x) \<Longrightarrow> if j = c then children ! j = mi_children x ! c
          else at j (children ! j) (after_cut (\<lambda>k. cmp k ?key < 0) (ess ! j))" by blast
    then have "children ! c = mi_children x ! c" using *(3) [of c] c(2,7) by simp
    moreover have "at j (children ! j) (after_cut (\<lambda>k. cmp k ?key < 0) (ess ! j))" if "j < length ess" "j \<noteq> c" for j
      using *(3) [of j] that c(7) by simp
    ultimately show ?thesis using kReverse *(1,2) c(7) by simp
  qed
  then obtain children where ch: "(if mi_direction x \<noteq> kForward then for_children other 0 (mi_children x) else Some (mi_children x)) = Some children"
    "length children = length ess" "children ! c = mi_children x ! c"
    "\<And>j. j < length ess \<Longrightarrow> j \<noteq> c \<Longrightarrow> at j (children ! j) (after_cut (\<lambda>k. cmp k ?key < 0) (ess ! j))" by blast
  obtain child where child: "it_Next ops (children ! c) = Some child" "at c child (if Suc q = length (ess ! c) then None else Some (Suc q))"
    using cursor.to_next [OF cur [OF c(2)] c(5)] unfolding ch(3) by blast
  let ?low = "\<lambda>k. cmp k ?key \<le> 0"
  have "at j (children[c := child] ! j) (after_cut ?low (ess ! j))" if j: "j < length ess" for j
  proof (cases "j = c")
    case True
    have "after_cut ?low (ess ! c) = (if Suc q = length (ess ! c) then None else Some (Suc q))"
      using cut_at_entry(2) [OF cmp cursor.keys_in [OF cur [OF c(2)]] cursor.keys_sorted [OF cur [OF c(2)]] c(3)] c(3)
      unfolding after_cut_def c(4) by auto
    then show ?thesis using True child(2) c(2) ch(2) by simp
  next
    case False
    from cut_other_child [OF m c(2,3) j False] have "after_cut ?low (ess ! j) = after_cut (\<lambda>k. cmp k ?key < 0) (ess ! j)"
      unfolding after_cut_def c(4) by simp
    with ch(4) [OF j False] False show ?thesis by simp
  qed
  from merge_at_smallest [OF m downward_le [OF cmp A] _ this] ch(2)
  have "merge_at cmp ess es alive at \<lparr>mi_children = children[c := child],
      mi_current = FindSmallest ops cmp (children[c := child]), mi_direction = kForward\<rparr> (after_cut ?low es)" by simp
  moreover have "after_cut ?low es = (if Suc i = length es then None else Some (Suc i))"
    using cut_at_entry(2) [OF cmp es c(6)] c(6) by (auto simp: after_cut_def)
  ultimately show ?thesis
    using ch(1) child(1) unfolding merging_Next_def other_def by (simp add: c(1) Let_def)
qed

text \<open>\<open>Prev\<close>: the other children step back to before the key, those that had no entry from it on to their last.\<close>

lemma merging_Prev_ok:
  assumes m: "merges A cmp ess es ops alive at" and at: "merge_at cmp ess es alive at x (Some i)"
  shows "\<exists>x'. merging_Prev ops cmp x = Some x' \<and> merge_at cmp ess es alive at x' (if i = 0 then None else Some (i - 1))"
proof -
  note cmp = mergesD(1) [OF m] and cur = mergesD(4) [OF m] and es = mergesD(2,3) [OF m]
  obtain c q where c: "mi_current x = Some c" "c < length ess" "q < length (ess ! c)" "ess ! c ! q = es ! i"
    "at c (mi_children x ! c) (Some q)" "i < length es" "length (mi_children x) = length ess"
    "\<And>j. j < length ess \<Longrightarrow> at j (mi_children x ! j) (child_pos cmp (mi_direction x) (fst (es ! i)) (ess ! j))"
    by (rule merge_current [OF m at]) blast
  let ?key = "fst (es ! i)"
  have A: "?key \<in> A" using es(1) c(6) nth_mem by blast
  have key: "merging_key ops x = ?key" using cursor.at_shows [OF cur [OF c(2)] c(5)] by (simp add: merging_key_def c(1,4))
  define other where "other = (\<lambda>i child. if i \<noteq> c
      then Option.bind (it_Seek ops (merging_key ops x) child) (\<lambda>child.
        if it_Valid ops child then it_Prev ops child else it_SeekToLast ops child)
      else Some child)"
  let ?low = "\<lambda>k. cmp k ?key < 0"
  have "\<exists>children. (if mi_direction x \<noteq> kReverse then for_children other 0 (mi_children x) else Some (mi_children x)) = Some children \<and>
    length children = length ess \<and> children ! c = mi_children x ! c \<and>
    (\<forall>j<length ess. j \<noteq> c \<longrightarrow> at j (children ! j) (before_cut ?low (ess ! j)))"
  proof (cases "mi_direction x")
    case kReverse
    have "before_cut (\<lambda>k. cmp k ?key \<le> 0) (ess ! j) = before_cut ?low (ess ! j)" if "j < length ess" "j \<noteq> c" for j
      using cut_other_child [OF m c(2,3) that] unfolding before_cut_def c(4) by simp
    then have "at j (mi_children x ! j) (before_cut ?low (ess ! j))" if "j < length ess" "j \<noteq> c" for j
      using c(8) [OF that(1)] that kReverse by (simp add: child_pos_def)
    with kReverse c(7) show ?thesis by simp
  next
    case kForward
    have "\<exists>child. other j (mi_children x ! j) = Some child \<and> (if j = c then child = mi_children x ! c
        else at j child (before_cut ?low (ess ! j)))" if "j < length (mi_children x)" for j
    proof (cases "j = c")
      case False
      have j: "j < length ess" using that c(7) by simp
      obtain child where child: "it_Seek ops ?key (mi_children x ! j) = Some child" "at j child (after_cut ?low (ess ! j))"
        using cursor.to_target [OF cur [OF j] cursor.at_alive [OF cur [OF j] c(8) [OF j]] A] unfolding seek_pos_cut by blast
      have "\<exists>child'. (if it_Valid ops child then it_Prev ops child else it_SeekToLast ops child) = Some child' \<and>
          at j child' (before_cut ?low (ess ! j))"
      proof (cases "cut_at ?low (ess ! j) < length (ess ! j)")
        case True
        then have at: "at j child (Some (cut_at ?low (ess ! j)))" using child(2) by (simp add: after_cut_def)
        from cursor.to_prev [OF cur [OF j] at] cursor.at_valid [OF cur [OF j] at] show ?thesis by (simp add: before_cut_def)
      next
        case False
        then have end_cut: "cut_at ?low (ess ! j) = length (ess ! j)" using cut_at_le [of ?low "ess ! j"] by simp
        then have at: "at j child None" using child(2) by (simp add: after_cut_def)
        from cursor.to_last [OF cur [OF j] cursor.at_alive [OF cur [OF j] at]] cursor.at_valid [OF cur [OF j] at]
        show ?thesis by (auto simp: before_cut_def end_cut)
      qed
      with child(1) False show ?thesis by (auto simp: other_def key)
    qed (simp add: other_def)
    from for_children_ex [of "mi_children x" other, OF this] obtain children
      where *: "for_children other 0 (mi_children x) = Some children" "length children = length (mi_children x)"
        "\<And>j. j < length (mi_children x) \<Longrightarrow> if j = c then children ! j = mi_children x ! c
          else at j (children ! j) (before_cut ?low (ess ! j))" by blast
    then have "children ! c = mi_children x ! c" using *(3) [of c] c(2,7) by simp
    moreover have "at j (children ! j) (before_cut ?low (ess ! j))" if "j < length ess" "j \<noteq> c" for j
      using *(3) [of j] that c(7) by simp
    ultimately show ?thesis using kForward *(1,2) c(7) by simp
  qed
  then obtain children where ch: "(if mi_direction x \<noteq> kReverse then for_children other 0 (mi_children x) else Some (mi_children x)) = Some children"
    "length children = length ess" "children ! c = mi_children x ! c"
    "\<And>j. j < length ess \<Longrightarrow> j \<noteq> c \<Longrightarrow> at j (children ! j) (before_cut ?low (ess ! j))" by blast
  obtain child where child: "it_Prev ops (children ! c) = Some child" "at c child (if q = 0 then None else Some (q - 1))"
    using cursor.to_prev [OF cur [OF c(2)] c(5)] unfolding ch(3) by blast
  have "at j (children[c := child] ! j) (before_cut ?low (ess ! j))" if j: "j < length ess" for j
  proof (cases "j = c")
    case True
    have "before_cut ?low (ess ! c) = (if q = 0 then None else Some (q - 1))"
      using cut_at_entry(1) [OF cmp cursor.keys_in [OF cur [OF c(2)]] cursor.keys_sorted [OF cur [OF c(2)]] c(3)]
      unfolding before_cut_def c(4) by simp
    then show ?thesis using True child(2) c(2) ch(2) by simp
  qed (use ch(4) [OF j] in simp)
  from merge_at_largest [OF m downward_less [OF cmp A] _ this] ch(2)
  have "merge_at cmp ess es alive at \<lparr>mi_children = children[c := child],
      mi_current = FindLargest ops cmp (children[c := child]), mi_direction = kReverse\<rparr> (before_cut ?low es)" by simp
  moreover have "before_cut ?low es = (if i = 0 then None else Some (i - 1))"
    using cut_at_entry(1) [OF cmp es c(6)] by (simp add: before_cut_def)
  ultimately show ?thesis
    using ch(1) child(1) unfolding merging_Prev_def other_def by (simp add: c(1) Let_def)
qed

lemma merging_is_cursor:
  assumes m: "merges A cmp ess es ops alive at"
  shows "cursor A cmp es (merging_ops ops cmp) (merge_alive ess alive) (merge_at cmp ess es alive at)"
proof (intro cursor.intro cursor_axioms.intro mergesD [OF m])
  note cmp = mergesD(1) [OF m] and cur = mergesD(4) [OF m] and es = mergesD(2,3) [OF m]
  fix x p
  assume at: "merge_at cmp ess es alive at x p"
  then show "merge_alive ess alive x" by (simp add: merge_at_def)
  show "it_Valid (merging_ops ops cmp) x \<longleftrightarrow> p \<noteq> None"
    using at by (auto simp: merging_ops_def merging_Valid_def merge_at_def split: option.splits)
next
  fix x i
  assume at: "merge_at cmp ess es alive at x (Some i)"
  show "\<exists>x'. it_Next (merging_ops ops cmp) x = Some x' \<and> merge_at cmp ess es alive at x' (if Suc i = length es then None else Some (Suc i))"
    using merging_Next_ok [OF m at] by (simp add: merging_ops_def)
  show "\<exists>x'. it_Prev (merging_ops ops cmp) x = Some x' \<and> merge_at cmp ess es alive at x' (if i = 0 then None else Some (i - 1))"
    using merging_Prev_ok [OF m at] by (simp add: merging_ops_def)
  show "i < length es \<and> it_key (merging_ops ops cmp) x = fst (es ! i) \<and> it_value (merging_ops ops cmp) x = snd (es ! i)"
  proof -
    obtain c q where "mi_current x = Some c" "c < length ess" "ess ! c ! q = es ! i" "at c (mi_children x ! c) (Some q)" "i < length es"
      by (rule merge_current [OF m at]) blast
    then show ?thesis using cursor.at_shows [OF mergesD(4) [OF m]] by (simp add: merging_ops_def merging_key_def merging_value_def)
  qed
next
  note cmp = mergesD(1) [OF m] and cur = mergesD(4) [OF m] and es = mergesD(2,3) [OF m]
  fix x
  assume "merge_alive ess alive x"
  then have len: "length (mi_children x) = length ess" and alive: "\<And>j. j < length ess \<Longrightarrow> alive j (mi_children x ! j)"
    by (simp_all add: merge_alive_def)
  show "it_status (merging_ops ops cmp) x = OK"
    using cursor.alive_status [OF cur alive] len
    by (auto simp: merging_ops_def merging_status_def in_set_conv_nth intro!: first_error_OK)
  have first: "\<exists>child. it_SeekToFirst ops (mi_children x ! j) = Some child \<and> at j child (after_cut (\<lambda>k. False) (ess ! j))"
    if "j < length (mi_children x)" for j
    using cursor.to_first [OF cur alive] that unfolding len cut_ends by blast
  from for_children_ex [of "mi_children x" "\<lambda>i. it_SeekToFirst ops", OF first] obtain children
    where "for_children (\<lambda>i. it_SeekToFirst ops) 0 (mi_children x) = Some children" "length children = length ess"
      "\<And>j. j < length ess \<Longrightarrow> at j (children ! j) (after_cut (\<lambda>k. False) (ess ! j))" unfolding len by blast
  with merge_at_smallest [OF m downward_const [of A cmp False] this(2,3)]
  show "\<exists>x'. it_SeekToFirst (merging_ops ops cmp) x = Some x' \<and> merge_at cmp ess es alive at x' (if es = [] then None else Some 0)"
    by (cases x) (simp add: merging_ops_def merging_SeekToFirst_def cut_ends)
  have last: "\<exists>child. it_SeekToLast ops (mi_children x ! j) = Some child \<and> at j child (before_cut (\<lambda>k. True) (ess ! j))"
    if "j < length (mi_children x)" for j
    using cursor.to_last [OF cur alive] that unfolding len cut_ends by blast
  from for_children_ex [of "mi_children x" "\<lambda>i. it_SeekToLast ops", OF last] obtain children
    where "for_children (\<lambda>i. it_SeekToLast ops) 0 (mi_children x) = Some children" "length children = length ess"
      "\<And>j. j < length ess \<Longrightarrow> at j (children ! j) (before_cut (\<lambda>k. True) (ess ! j))" unfolding len by blast
  with merge_at_largest [OF m downward_const [of A cmp True] this(2,3)]
  show "\<exists>x'. it_SeekToLast (merging_ops ops cmp) x = Some x' \<and>
      merge_at cmp ess es alive at x' (if es = [] then None else Some (length es - 1))"
    by (cases x) (simp add: merging_ops_def merging_SeekToLast_def cut_ends)
  show "\<exists>x'. it_Seek (merging_ops ops cmp) target x = Some x' \<and> merge_at cmp ess es alive at x' (seek_pos cmp es target)"
    if t: "target \<in> A" for target
  proof -
    have seek: "\<exists>child. it_Seek ops target (mi_children x ! j) = Some child \<and> at j child (after_cut (\<lambda>k. cmp k target < 0) (ess ! j))"
      if "j < length (mi_children x)" for j
      using cursor.to_target [OF cur alive t] that unfolding len seek_pos_cut by blast
    from for_children_ex [of "mi_children x" "\<lambda>i. it_Seek ops target", OF seek] obtain children
      where "for_children (\<lambda>i. it_Seek ops target) 0 (mi_children x) = Some children" "length children = length ess"
        "\<And>j. j < length ess \<Longrightarrow> at j (children ! j) (after_cut (\<lambda>k. cmp k target < 0) (ess ! j))" unfolding len by blast
    with merge_at_smallest [OF m downward_less [OF cmp t] this(2,3)] show ?thesis
      by (cases x) (simp add: merging_ops_def merging_Seek_def seek_pos_cut)
  qed
qed

subsection \<open>Properties\<close>

text \<open>
  The merging iterator is a cursor on the merge: if its children, of whatever kind, are cursors
  on lists whose keys are all different, then, moved in any way and turned around at any time, it walks on
  the sorted list of all their entries, and a search finds the first entry that is not before the target.
\<close>

theorem MergingIterator_is_cursor:
  assumes "\<And>j. j < length ess \<Longrightarrow> cursor A cmp (ess ! j) ops (alive j) (at j)"
    and "comparator A cmp" "fst ` set es \<subseteq> A" "sorted_wrt (\<lambda>a b. cmp (fst a) (fst b) < 0) es" "mset es = mset (concat ess)"
    and "length children = length ess" "\<And>j. j < length ess \<Longrightarrow> alive j (children ! j)"
  shows "cursor A cmp es (merging_ops ops cmp) (merge_alive ess alive) (merge_at cmp ess es alive at) \<and>
    merge_alive ess alive (MergingIterator children)"
proof
  have "merges A cmp ess es ops alive at" using assms(1-5) by (simp add: merges_def)
  then show "cursor A cmp es (merging_ops ops cmp) (merge_alive ess alive) (merge_at cmp ess es alive at)"
    by (rule merging_is_cursor)
  show "merge_alive ess alive (MergingIterator children)" using assms(6,7) by (simp add: merge_alive_def MergingIterator_def)
qed

text \<open>Two blocks: a search, a step back and a step forward again.\<close>

lemma MergingIterator_is_cursor_witness:
  "\<exists>m m1 m2 m3. let ops = merging_ops (block_ops Bytewise_Compare) Bytewise_Compare in
    it_Seek ops [2] m = Some m1 \<and> it_key ops m1 = [3] \<and> it_Prev ops m1 = Some m2 \<and> it_key ops m2 = [1] \<and>
    it_Next ops m2 = Some m3 \<and> it_key ops m3 = [3] \<and> it_value ops m3 = [30]"
proof -
  let ?e1 = "[([1], [10]), ([5], [50])] :: entries" and ?e2 = "[([3], [30])] :: entries"
  let ?ess = "[?e1, ?e2]" and ?es = "[([1], [10]), ([3], [30]), ([5], [50])] :: entries"
  have fits: "block_fits 16 ?e1" "block_fits 16 ?e2"
    by (simp_all add: block_fits_def blk_entries_def blk_entry_def entry_head_def entry_shared_def restart_count_def EncodeVarint32_def)
  have sorted: "sorted_wrt (\<lambda>a b. Bytewise_Compare (fst a) (fst b) < 0) xs" if "xs \<in> {?e1, ?e2, ?es}" for xs
    using that by (auto simp: Bytewise_Compare_def slice_compare_eq)
  have cursors: "cursor UNIV Bytewise_Compare (?ess ! j) (block_ops Bytewise_Compare) (block_alive 16 (?ess ! j)) (block_at 16 (?ess ! j))"
    if "j < length ?ess" for j
    using that fits by (intro block_is_cursor bytewise.comparator_axioms subset_UNIV sorted) (auto simp: less_Suc_eq)
  let ?children = "map (\<lambda>es. BlockIterator (block_view_of 16 es) (Iter (block_view_of 16 es))) ?ess"
  have alive: "block_alive 16 (?ess ! j) (?children ! j)" if "j < length ?ess" for j
    using that by (auto simp: block_alive_def Iter_def less_Suc_eq)
  let ?ops = "merging_ops (block_ops Bytewise_Compare) Bytewise_Compare"
  let ?alive = "\<lambda>j. block_alive 16 (?ess ! j)" and ?at' = "\<lambda>j. block_at 16 (?ess ! j)"
  let ?at = "merge_at Bytewise_Compare ?ess ?es ?alive ?at'"
  have "cursor UNIV Bytewise_Compare ?es ?ops (merge_alive ?ess ?alive) ?at \<and> merge_alive ?ess ?alive (MergingIterator ?children)"
  proof (rule MergingIterator_is_cursor)
    show "sorted_wrt (\<lambda>a b. Bytewise_Compare (fst a) (fst b) < 0) ?es" by (rule sorted) simp
    show "mset ?es = mset (concat ?ess)" by simp
  qed (use cursors alive bytewise.comparator_axioms in \<open>simp_all only: length_map subset_UNIV\<close>)
  then obtain alive at where cur: "cursor UNIV Bytewise_Compare ?es ?ops alive at" and start: "alive (MergingIterator ?children)"
    by blast
  have pos: "seek_pos Bytewise_Compare ?es [2] = Some 1" by (simp add: seek_pos_def Bytewise_Compare_def slice_compare_eq)
  obtain m1 where m1: "it_Seek ?ops [2] (MergingIterator ?children) = Some m1" "at m1 (Some 1)"
    using cursor.to_target [where target = "[2]", OF cur start UNIV_I] unfolding pos by blast
  obtain m2 where m2: "it_Prev ?ops m1 = Some m2" "at m2 (Some 0)"
    using cursor.to_prev [OF cur m1(2)] by auto
  obtain m3 where m3: "it_Next ?ops m2 = Some m3" "at m3 (Some 1)"
    using cursor.to_next [OF cur m2(2)] by auto
  note entries = cursor.at_shows [OF cur m1(2)] cursor.at_shows [OF cur m2(2)] cursor.at_shows [OF cur m3(2)]
  then have "it_key ?ops m1 = [3]" "it_key ?ops m2 = [1]" "it_key ?ops m3 = [3]" "it_value ?ops m3 = [30]" by simp_all
  with m1(1) m2(1) m3(1) show ?thesis unfolding Let_def by blast
qed

end
