(* ===== verification/LDB_Filter.thy ===== *)
theory LDB_Filter
  imports LDB_Format
begin

text \<open>
  Filters (\<open>util/hash.cc\<close>, \<open>util/bloom.cc\<close>, \<open>table/filter_block.cc\<close> and the wrapper for internal keys in
  \<open>db/dbformat.cc\<close>): a filter is a string that tells for a key that it is certainly not among those the
  filter was made of. The contract of a policy (\<open>include/leveldb/filter_policy.h\<close>) is the locale
  \<open>filter_policy\<close>; the Bloom filter meets it, and so does the wrapper around any policy.
\<close>

subsection \<open>The hash\<close>

fun hash_words :: "u32 \<Rightarrow> slice \<Rightarrow> u32 \<times> slice" where
  "hash_words h (b0 # b1 # b2 # b3 # data) =
     (let m = 0xc6a4a793;
          w = DecodeFixed32 [b0, b1, b2, b3];
          h = h + w;
          h = h * m;
          h = h XOR drop_bit 16 h
      in hash_words h data)"
| "hash_words h data = (h, data)"

definition Hash :: "slice \<Rightarrow> u32 \<Rightarrow> u32" where
  "Hash data seed =
     (let m = 0xc6a4a793 :: u32;
          r = 24;
          h = ucast (ucast seed XOR (word_of_nat (length data) * ucast m :: u64));
          (h, rest) = hash_words h data;
          h = (if length rest = 3 then h + push_bit 16 (ucast (rest ! 2)) else h);
          h = (if 2 \<le> length rest then h + push_bit 8 (ucast (rest ! 1)) else h)
      in if 1 \<le> length rest
         then (let h = h + ucast (rest ! 0); h = h * m in h XOR drop_bit r h)
         else h)"

subsection \<open>The Bloom filter\<close>

definition BloomHash :: "slice \<Rightarrow> u32" where
  "BloomHash key = Hash key 0xbc9f1d34"

text \<open>The policy is its two numbers; \<open>bits_per_key * 0.69\<close> is rounded down
  (below 100 the rounding of the floating-point product does not matter, and from 45 on the result is 30).\<close>

record bloom_policy =
  bf_bits_per_key :: nat
  bf_k :: nat

definition BloomFilterPolicy :: "nat \<Rightarrow> bloom_policy" where
  "BloomFilterPolicy bits_per_key =
     (let k = bits_per_key * 69 div 100;
          k = (if k < 1 then 1 else k);
          k = (if 30 < k then 30 else k)
      in \<lparr>bf_bits_per_key = bits_per_key, bf_k = k\<rparr>)"

definition bloom_delta :: "u32 \<Rightarrow> u32" where
  "bloom_delta h = drop_bit 17 h OR push_bit 15 h"

text \<open>The two loops over the probes: setting the bits and testing them.\<close>

fun bloom_set :: "nat \<Rightarrow> nat \<Rightarrow> u32 \<Rightarrow> u32 \<Rightarrow> u8 list \<Rightarrow> u8 list" where
  "bloom_set bits 0 h delta array = array"
| "bloom_set bits (Suc j) h delta array =
     (let bitpos = unat h mod bits
      in bloom_set bits j (h + delta) delta
           (array[bitpos div 8 := array ! (bitpos div 8) OR push_bit (bitpos mod 8) 1]))"

fun bloom_test :: "nat \<Rightarrow> nat \<Rightarrow> u32 \<Rightarrow> u32 \<Rightarrow> u8 list \<Rightarrow> bool" where
  "bloom_test bits 0 h delta array = True"
| "bloom_test bits (Suc j) h delta array =
     (let bitpos = unat h mod bits
      in if array ! (bitpos div 8) AND push_bit (bitpos mod 8) 1 = 0 then False
         else bloom_test bits j (h + delta) delta array)"

definition bloom_size :: "bloom_policy \<Rightarrow> nat \<Rightarrow> nat" where
  "bloom_size p n =
     (let bits = n * bf_bits_per_key p;
          bits = (if bits < 64 then 64 else bits)
      in (bits + 7) div 8)"

definition bloom_CreateFilter :: "bloom_policy \<Rightarrow> slice list \<Rightarrow> slice \<Rightarrow> slice" where
  "bloom_CreateFilter p keys dst =
     (let bytes = bloom_size p (length keys);
          bits = bytes * 8;
          array = foldl (\<lambda>array key. let h = BloomHash key in bloom_set bits (bf_k p) h (bloom_delta h) array)
            (replicate bytes 0) keys
      in dst @ array @ [word_of_nat (bf_k p)])"

definition bloom_KeyMayMatch :: "slice \<Rightarrow> slice \<Rightarrow> bool" where
  "bloom_KeyMayMatch key bloom_filter =
     (let len = length bloom_filter
      in if len < 2 then False
         else (let bits = (len - 1) * 8;
                   k = unat (bloom_filter ! (len - 1))
               in if 30 < k then True
                  else (let h = BloomHash key in bloom_test bits k h (bloom_delta h) bloom_filter)))"

subsection \<open>The contract of a policy\<close>

locale filter_policy =
  fixes K :: "slice set" and CreateFilter :: "slice list \<Rightarrow> slice \<Rightarrow> slice" and KeyMayMatch :: "slice \<Rightarrow> slice \<Rightarrow> bool"
  assumes CreateFilter_matches: "set keys \<subseteq> K \<Longrightarrow>
    \<exists>f. CreateFilter keys dst = dst @ f \<and> (\<forall>key\<in>set keys. KeyMayMatch key f)"
begin

lemma CreateFilterE:
  assumes "set keys \<subseteq> K"
  obtains f where "CreateFilter keys dst = dst @ f" "\<And>key. key \<in> set keys \<Longrightarrow> KeyMayMatch key f"
  using CreateFilter_matches [OF assms] by blast

end

lemma length_bloom_set [simp]: "length (bloom_set bits j h delta array) = length array"
  by (induction bits j h delta array rule: bloom_set.induct) (simp_all add: Let_def)

text \<open>Bits are only ever set.\<close>

definition bits_le :: "u8 list \<Rightarrow> u8 list \<Rightarrow> bool" where
  "bits_le a b \<longleftrightarrow> length a = length b \<and> (\<forall>i n. i < length a \<and> bit (a ! i) n \<longrightarrow> bit (b ! i) n)"

lemma bits_le_refl [simp]: "bits_le a a"
  by (simp add: bits_le_def)

lemma bits_le_trans: "bits_le a b \<Longrightarrow> bits_le b c \<Longrightarrow> bits_le a c"
  by (auto simp: bits_le_def)

lemma bits_le_set: "bits_le a (a[i := a ! i OR x])"
  by (cases "i < length a") (auto simp: bits_le_def nth_list_update bit_or_iff)

lemma bloom_set_le: "bits_le array (bloom_set bits j h delta array)"
  by (induction bits j h delta array rule: bloom_set.induct)
    (auto simp: Let_def intro: bits_le_trans [OF bits_le_set])

lemma test_bit_byte: "(x :: u8) AND push_bit n 1 = 0 \<longleftrightarrow> \<not> bit x n" if "n < 8"
  using that by (simp add: and_exp_eq_0_iff_not_bit)

lemma bloom_test_mono:
  assumes le: "bits_le a b" and bits: "0 < bits" "bits \<le> 8 * length a"
  shows "bloom_test bits j h delta a \<Longrightarrow> bloom_test bits j h delta b"
proof (induction j arbitrary: h)
  case (Suc j)
  let ?p = "unat h mod bits"
  have p: "?p div 8 < length a" "?p mod 8 < 8" using bits mod_less_divisor [OF bits(1), of "unat h"] by auto
  from Suc.prems have "bit (a ! (?p div 8)) (?p mod 8)" "bloom_test bits j (h + delta) delta a"
    using test_bit_byte [OF p(2)] by (auto simp: Let_def split: if_splits)
  moreover from this(1) have "bit (b ! (?p div 8)) (?p mod 8)" using le p(1) by (simp add: bits_le_def)
  ultimately show ?case using Suc.IH test_bit_byte [OF p(2)] by (simp add: Let_def)
qed simp

lemma bloom_set_test:
  assumes bits: "0 < bits" "bits \<le> 8 * length array"
  shows "bloom_test bits j h delta (bloom_set bits j h delta array)"
  using bits(2)
proof (induction j arbitrary: h array)
  case (Suc j)
  let ?p = "unat h mod bits"
  let ?a = "array[?p div 8 := array ! (?p div 8) OR push_bit (?p mod 8) 1]"
  have p: "?p div 8 < length array" "?p mod 8 < 8" using bits(1) Suc.prems mod_less_divisor [OF bits(1), of "unat h"] by auto
  have "bit (?a ! (?p div 8)) (?p mod 8)" using p by (simp add: bit_or_iff bit_exp_iff)
  then have "bit (bloom_set bits j (h + delta) delta ?a ! (?p div 8)) (?p mod 8)"
    using bloom_set_le [of ?a bits j "h + delta" delta] p(1) by (simp add: bits_le_def)
  moreover have "bloom_test bits j (h + delta) delta (bloom_set bits j (h + delta) delta ?a)"
    using Suc.IH [of ?a "h + delta"] Suc.prems by simp
  ultimately show ?case using test_bit_byte [OF p(2)] by (simp add: Let_def)
qed simp

lemma bloom_test_append: "0 < bits \<Longrightarrow> bits \<le> 8 * length a \<Longrightarrow> bloom_test bits j h delta (a @ r) = bloom_test bits j h delta a"
proof (induction j arbitrary: h)
  case (Suc j)
  have "unat h mod bits < length a * 8" using Suc.prems mod_less_divisor [of bits "unat h"] by linarith
  then have "unat h mod bits div 8 < length a" by (rule less_mult_imp_div_less)
  with Suc show ?case by (simp add: Let_def nth_append)
qed simp

lemma bloom_keys_set:
  fixes keys :: "slice list" and k :: nat
  assumes "0 < bits" "bits \<le> 8 * length array"
  defines "add \<equiv> \<lambda>array key. let h = BloomHash key in bloom_set bits k h (bloom_delta h) array"
  shows "length (foldl add array keys) = length array \<and> bits_le array (foldl add array keys) \<and>
    (\<forall>key\<in>set keys. bloom_test bits k (BloomHash key) (bloom_delta (BloomHash key)) (foldl add array keys))"
proof (induction keys rule: rev_induct)
  case (snoc key keys)
  let ?b = "foldl add array keys"
  have len: "length ?b = length array" and le: "bits_le ?b (add ?b key)" and "length (add ?b key) = length ?b"
    using snoc.IH by (simp_all add: add_def Let_def bloom_set_le)
  moreover have "bloom_test bits k (BloomHash key) (bloom_delta (BloomHash key)) (add ?b key)"
    using bloom_set_test [of bits ?b k] assms(1,2) len by (simp add: add_def Let_def)
  moreover have "bloom_test bits k (BloomHash key') (bloom_delta (BloomHash key')) (add ?b key)" if "key' \<in> set keys" for key'
    using bloom_test_mono [OF le assms(1)] assms(2) len that snoc.IH by simp
  ultimately show ?case using snoc.IH bits_le_trans by auto
qed simp

lemma bloom_k: "1 \<le> bf_k (BloomFilterPolicy n) \<and> bf_k (BloomFilterPolicy n) \<le> 30"
  by (simp add: BloomFilterPolicy_def Let_def)

interpretation bloom: filter_policy UNIV "bloom_CreateFilter (BloomFilterPolicy n)" bloom_KeyMayMatch for n
proof
  fix keys :: "slice list" and dst
  let ?p = "BloomFilterPolicy n"
  let ?bytes = "bloom_size ?p (length keys)" and ?k = "bf_k ?p"
  let ?array = "foldl (\<lambda>array key. let h = BloomHash key in bloom_set (?bytes * 8) ?k h (bloom_delta h) array)
    (replicate ?bytes 0) keys"
  have "0 < ((if x < 64 then 64 else x) + 7) div 8" for x :: nat by (simp add: div_greater_zero_iff)
  then have pos: "0 < ?bytes" by (simp only: bloom_size_def Let_def)
  have run: "length ?array = ?bytes"
    "\<forall>key\<in>set keys. bloom_test (?bytes * 8) ?k (BloomHash key) (bloom_delta (BloomHash key)) ?array"
    using bloom_keys_set [of "?bytes * 8" "replicate ?bytes 0" ?k keys] pos by auto
  have k: "unat (word_of_nat ?k :: u8) = ?k"
    by (rule unat_word_of_nat_less) (use bloom_k [of n] in simp)
  have "bloom_KeyMayMatch key (?array @ [word_of_nat ?k])" if "key \<in> set keys" for key
    using run that pos bloom_k [of n] k by (simp add: bloom_KeyMayMatch_def Let_def nth_append bloom_test_append)
  then show "\<exists>f. bloom_CreateFilter ?p keys dst = dst @ f \<and> (\<forall>key\<in>set keys. bloom_KeyMayMatch key f)"
    by (auto simp: bloom_CreateFilter_def Let_def)
qed

subsection \<open>The filters of a table\<close>

text \<open>The builder makes a filter for the keys of every 2 KB of data.\<close>

definition kFilterBaseLg :: nat where
  "kFilterBaseLg = 11"

definition kFilterBase :: nat where
  "kFilterBase = push_bit kFilterBaseLg 1"

record filter_builder =
  fb_keys :: "u8 list"
  fb_start :: "nat list"
  fb_result :: slice
  fb_filter_offsets :: "u32 list"

definition FilterBlockBuilder :: filter_builder where
  "FilterBlockBuilder = \<lparr>fb_keys = [], fb_start = [], fb_result = [], fb_filter_offsets = []\<rparr>"

definition GenerateFilter :: "(slice list \<Rightarrow> slice \<Rightarrow> slice) \<Rightarrow> filter_builder \<Rightarrow> filter_builder" where
  "GenerateFilter CreateFilter b =
     (let num_keys = length (fb_start b)
      in if num_keys = 0
         then b\<lparr>fb_filter_offsets := fb_filter_offsets b @ [word_of_nat (length (fb_result b))]\<rparr>
         else
           (let start = fb_start b @ [length (fb_keys b)];
                tmp_keys = map (\<lambda>i. take (start ! (i + 1) - start ! i) (drop (start ! i) (fb_keys b))) [0..<num_keys]
            in b\<lparr>fb_filter_offsets := fb_filter_offsets b @ [word_of_nat (length (fb_result b))],
                 fb_result := CreateFilter tmp_keys (fb_result b), fb_keys := [], fb_start := []\<rparr>))"

lemma GenerateFilter_offsets [simp]:
  "length (fb_filter_offsets (GenerateFilter c b)) = Suc (length (fb_filter_offsets b))"
  by (simp add: GenerateFilter_def Let_def)

function generate_until :: "(slice list \<Rightarrow> slice \<Rightarrow> slice) \<Rightarrow> nat \<Rightarrow> filter_builder \<Rightarrow> filter_builder" where
  "generate_until CreateFilter filter_index b =
     (if length (fb_filter_offsets b) < filter_index
      then generate_until CreateFilter filter_index (GenerateFilter CreateFilter b)
      else b)"
  by pat_completeness auto
termination
  by (relation "measure (\<lambda>(c, i, b). i - length (fb_filter_offsets b))") auto

declare generate_until.simps [simp del]

definition StartBlock :: "(slice list \<Rightarrow> slice \<Rightarrow> slice) \<Rightarrow> u64 \<Rightarrow> filter_builder \<Rightarrow> filter_builder" where
  "StartBlock CreateFilter block_offset b =
     (let filter_index = unat block_offset div kFilterBase in generate_until CreateFilter filter_index b)"

definition AddKey :: "slice \<Rightarrow> filter_builder \<Rightarrow> filter_builder" where
  "AddKey key b = b\<lparr>fb_start := fb_start b @ [length (fb_keys b)], fb_keys := fb_keys b @ key\<rparr>"

definition FilterBlock_Finish :: "(slice list \<Rightarrow> slice \<Rightarrow> slice) \<Rightarrow> filter_builder \<Rightarrow> slice \<times> filter_builder" where
  "FilterBlock_Finish CreateFilter b =
     (let b = (if fb_start b \<noteq> [] then GenerateFilter CreateFilter b else b);
          array_offset = word_of_nat (length (fb_result b));
          result = foldl PutFixed32 (fb_result b) (fb_filter_offsets b);
          result = PutFixed32 result array_offset;
          result = result @ [word_of_nat kFilterBaseLg]
      in (result, b\<lparr>fb_result := result\<rparr>))"

text \<open>
  The reader: the contents, the offset of the array in them, its length and the parameter. A parameter of
  64 or more, for which the code's shift is undefined, shifts to zero here.
\<close>

record filter_reader =
  fr_data :: slice
  fr_offset :: nat
  fr_num :: nat
  fr_base_lg :: nat

definition FilterBlockReader :: "slice \<Rightarrow> filter_reader" where
  "FilterBlockReader contents =
     (let n = length contents; r = \<lparr>fr_data = [], fr_offset = 0, fr_num = 0, fr_base_lg = 0\<rparr>
      in if n < 5 then r
         else (let r = r\<lparr>fr_base_lg := unat (contents ! (n - 1))\<rparr>;
                   last_word = unat (DecodeFixed32 (drop (n - 5) contents))
               in if n - 5 < last_word then r
                  else r\<lparr>fr_data := contents, fr_offset := last_word, fr_num := (n - 5 - last_word) div 4\<rparr>))"

definition FilterBlock_KeyMayMatch :: "(slice \<Rightarrow> slice \<Rightarrow> bool) \<Rightarrow> u64 \<Rightarrow> slice \<Rightarrow> filter_reader \<Rightarrow> bool" where
  "FilterBlock_KeyMayMatch KeyMayMatch block_offset key r =
     (let index = unat (drop_bit (fr_base_lg r) block_offset)
      in if index < fr_num r
         then (let start = unat (DecodeFixed32 (drop (fr_offset r + index * 4) (fr_data r)));
                   limit = unat (DecodeFixed32 (drop (fr_offset r + index * 4 + 4) (fr_data r)))
               in if start \<le> limit \<and> limit \<le> fr_offset r
                  then KeyMayMatch key (take (limit - start) (drop start (fr_data r)))
                  else if start = limit then False
                  else True)
         else True)"

text \<open>The policy for internal keys asks the user's policy for their user keys.\<close>

definition Internal_CreateFilter :: "(slice list \<Rightarrow> slice \<Rightarrow> slice) \<Rightarrow> slice list \<Rightarrow> slice \<Rightarrow> slice" where
  "Internal_CreateFilter CreateFilter keys dst = CreateFilter (map ExtractUserKey keys) dst"

definition Internal_KeyMayMatch :: "(slice \<Rightarrow> slice \<Rightarrow> bool) \<Rightarrow> slice \<Rightarrow> slice \<Rightarrow> bool" where
  "Internal_KeyMayMatch KeyMayMatch key f = KeyMayMatch (ExtractUserKey key) f"

locale user_filter_policy = filter_policy

sublocale user_filter_policy \<subseteq> internal: filter_policy "{key. ExtractUserKey key \<in> K}"
  "Internal_CreateFilter CreateFilter" "Internal_KeyMayMatch KeyMayMatch"
proof
  fix keys dst
  assume "set keys \<subseteq> {key. ExtractUserKey key \<in> K}"
  then show "\<exists>f. Internal_CreateFilter CreateFilter keys dst = dst @ f \<and>
      (\<forall>key\<in>set keys. Internal_KeyMayMatch KeyMayMatch key f)"
    using CreateFilter_matches [of "map ExtractUserKey keys" dst]
    by (auto simp: Internal_CreateFilter_def Internal_KeyMayMatch_def)
qed

interpretation bloom_internal: user_filter_policy UNIV "bloom_CreateFilter (BloomFilterPolicy n)" bloom_KeyMayMatch for n
  by unfold_locales

subsection \<open>What the builder writes\<close>

text \<open>The keys of the filters that are made, and those that wait for the next one.\<close>

definition starts_of :: "'a list list \<Rightarrow> nat list" where
  "starts_of xss = map (\<lambda>i. length (concat (take i xss))) [0..<length xss]"

lemma starts_of_snoc: "starts_of (xss @ [xs]) = starts_of xss @ [length (concat xss)]"
  by (simp add: starts_of_def)

lemma starts_of_pieces:
  "map (\<lambda>i. take ((starts_of xss @ [length (concat xss)]) ! (i + 1) - (starts_of xss @ [length (concat xss)]) ! i)
      (drop ((starts_of xss @ [length (concat xss)]) ! i) (concat xss))) [0..<length xss] = xss"
proof (rule nth_equalityI)
  fix i assume "i < length (map (\<lambda>i. take ((starts_of xss @ [length (concat xss)]) ! (i + 1) -
      (starts_of xss @ [length (concat xss)]) ! i) (drop ((starts_of xss @ [length (concat xss)]) ! i) (concat xss)))
      [0..<length xss])"
  then have i: "i < length xss" by simp
  have at: "(starts_of xss @ [length (concat xss)]) ! j = length (concat (take j xss))" if "j \<le> length xss" for j
    using that by (cases "j = length xss") (simp_all add: starts_of_def nth_append)
  have "concat xss = concat (take i xss) @ xss ! i @ concat (drop (Suc i) xss)"
    by (metis concat.simps(2) concat_append id_take_nth_drop [OF i])
  moreover have "concat (take (Suc i) xss) = concat (take i xss) @ xss ! i" using i by (simp add: take_Suc_conv_app_nth)
  ultimately show "map (\<lambda>i. take ((starts_of xss @ [length (concat xss)]) ! (i + 1) -
      (starts_of xss @ [length (concat xss)]) ! i) (drop ((starts_of xss @ [length (concat xss)]) ! i) (concat xss)))
      [0..<length xss] ! i = xss ! i"
    using i at by simp
qed simp

definition fb_ok :: "(slice \<Rightarrow> slice \<Rightarrow> bool) \<Rightarrow> slice list list \<Rightarrow> slice list \<Rightarrow> filter_builder \<Rightarrow> bool" where
  "fb_ok KeyMayMatch groups pend b \<longleftrightarrow>
     (\<exists>fs. length fs = length groups \<and> fb_result b = concat fs \<and>
       fb_filter_offsets b = map word_of_nat (starts_of fs) \<and>
       (\<forall>i<length fs. \<forall>key\<in>set (groups ! i). KeyMayMatch key (fs ! i))) \<and>
     fb_keys b = concat pend \<and> fb_start b = starts_of pend"

lemma fb_ok_init: "fb_ok KeyMayMatch [] [] FilterBlockBuilder"
  by (simp add: fb_ok_def FilterBlockBuilder_def starts_of_def)

lemma fb_ok_AddKey: "fb_ok KeyMayMatch groups pend b \<Longrightarrow> fb_ok KeyMayMatch groups (pend @ [key]) (AddKey key b)"
  by (auto simp: fb_ok_def AddKey_def starts_of_snoc)

lemma fb_ok_offsets: "fb_ok KeyMayMatch groups pend b \<Longrightarrow> length (fb_filter_offsets b) = length groups"
  by (auto simp: fb_ok_def starts_of_def)

context filter_policy
begin

lemma fb_ok_Generate:
  assumes ok: "fb_ok KeyMayMatch groups pend b" and K: "set pend \<subseteq> K"
  shows "fb_ok KeyMayMatch (groups @ [pend]) [] (GenerateFilter CreateFilter b)"
proof -
  obtain fs where fs: "length fs = length groups" "fb_result b = concat fs" "fb_filter_offsets b = map word_of_nat (starts_of fs)"
    "\<forall>i<length fs. \<forall>key\<in>set (groups ! i). KeyMayMatch key (fs ! i)"
    and pend: "fb_keys b = concat pend" "fb_start b = starts_of pend"
    using ok unfolding fb_ok_def by blast
  have len: "length (starts_of pend) = length pend" by (simp add: starts_of_def)
  have step: "\<exists>f. (\<forall>key\<in>set pend. KeyMayMatch key f) \<and> GenerateFilter CreateFilter b =
      b\<lparr>fb_filter_offsets := map word_of_nat (starts_of (fs @ [f])), fb_result := concat (fs @ [f]), fb_keys := [], fb_start := []\<rparr>"
  proof (cases "pend = []")
    case True
    then show ?thesis using fs pend by (intro exI [of _ "[]"]) (simp add: GenerateFilter_def starts_of_snoc, simp add: starts_of_def)
  next
    case False
    obtain f where f: "CreateFilter pend (concat fs) = concat fs @ f" "\<And>key. key \<in> set pend \<Longrightarrow> KeyMayMatch key f"
      using CreateFilterE [OF K] by blast
    have "GenerateFilter CreateFilter b = b\<lparr>fb_filter_offsets := map word_of_nat (starts_of (fs @ [f])),
        fb_result := CreateFilter pend (concat fs), fb_keys := [], fb_start := []\<rparr>"
      unfolding GenerateFilter_def Let_def pend fs(2,3) len starts_of_pieces using False by (simp add: starts_of_snoc)
    with f show ?thesis by auto
  qed
  then obtain f where f: "\<forall>key\<in>set pend. KeyMayMatch key f" "GenerateFilter CreateFilter b =
      b\<lparr>fb_filter_offsets := map word_of_nat (starts_of (fs @ [f])), fb_result := concat (fs @ [f]), fb_keys := [], fb_start := []\<rparr>"
    by blast
  have "\<forall>i<length (fs @ [f]). \<forall>key\<in>set ((groups @ [pend]) ! i). KeyMayMatch key ((fs @ [f]) ! i)"
    using fs(1,4) f(1) by (auto simp: nth_append less_Suc_eq)
  then show ?thesis unfolding f(2) fb_ok_def using fs(1)
    by (intro conjI exI [of _ "fs @ [f]"]) (simp_all add: starts_of_def)
qed

text \<open>A key that was added is in the group of the index of its block, or waits for it.\<close>

definition holds_key :: "slice list list \<Rightarrow> slice list \<Rightarrow> nat \<Rightarrow> slice \<Rightarrow> bool" where
  "holds_key groups pend i key \<longleftrightarrow> i < length groups \<and> key \<in> set (groups ! i) \<or> i = length groups \<and> key \<in> set pend"

lemma generate_until_ok:
  "fb_ok KeyMayMatch groups pend b \<Longrightarrow> set pend \<subseteq> K \<Longrightarrow>
    \<exists>groups' pend'. fb_ok KeyMayMatch groups' pend' (generate_until CreateFilter i b) \<and> set pend' \<subseteq> K \<and>
      length groups' = max i (length groups) \<and> (\<forall>j key. holds_key groups pend j key \<longrightarrow> holds_key groups' pend' j key)"
proof (induction "i - length groups" arbitrary: groups pend b)
  case 0
  then show ?case using fb_ok_offsets [OF "0.prems"(1)]
    by (subst generate_until.simps) (auto simp: max_def)
next
  case (Suc d)
  have *: "fb_ok KeyMayMatch (groups @ [pend]) [] (GenerateFilter CreateFilter b)" by (rule fb_ok_Generate [OF Suc.prems])
  have "d = i - length (groups @ [pend])" using Suc.hyps(2) by simp
  from Suc.hyps(1) [OF this *] obtain groups' pend'
    where g: "fb_ok KeyMayMatch groups' pend' (generate_until CreateFilter i (GenerateFilter CreateFilter b))" "set pend' \<subseteq> K"
      "length groups' = max i (length (groups @ [pend]))"
      "\<forall>j key. holds_key (groups @ [pend]) [] j key \<longrightarrow> holds_key groups' pend' j key" by auto
  have "generate_until CreateFilter i b = generate_until CreateFilter i (GenerateFilter CreateFilter b)"
    using Suc.hyps(2) fb_ok_offsets [OF Suc.prems(1)] by (subst generate_until.simps) simp
  moreover have "holds_key groups pend j key \<longrightarrow> holds_key (groups @ [pend]) [] j key" for j key
    by (auto simp: holds_key_def nth_append)
  moreover have "max i (length (groups @ [pend])) = max i (length groups)" using Suc.hyps(2) by simp
  ultimately show ?case using g by metis
qed

end

text \<open>The calls that build a filter block: every block starts at its offset and then adds its keys.\<close>

definition build_filters :: "(slice list \<Rightarrow> slice \<Rightarrow> slice) \<Rightarrow> (u64 \<times> slice list) list \<Rightarrow> filter_builder" where
  "build_filters CreateFilter blocks =
     fold (\<lambda>(offset, keys) b. fold AddKey keys (StartBlock CreateFilter offset b)) blocks FilterBlockBuilder"

context filter_policy
begin

lemma fold_AddKey_ok: "fb_ok KeyMayMatch groups pend b \<Longrightarrow> fb_ok KeyMayMatch groups (pend @ keys) (fold AddKey keys b)"
proof (induction keys arbitrary: pend b)
  case (Cons key keys)
  from Cons.IH [OF fb_ok_AddKey [OF Cons.prems]] show ?case by simp
qed simp

lemma build_filters_ok:
  assumes "sorted (map (\<lambda>(offset, keys). unat offset) blocks)" "\<Union> ((\<lambda>(offset, keys). set keys) ` set blocks) \<subseteq> K"
  shows "\<exists>groups pend. fb_ok KeyMayMatch groups pend (build_filters CreateFilter blocks) \<and> set pend \<subseteq> K \<and>
    (blocks \<noteq> [] \<longrightarrow> length groups = unat (fst (last blocks)) div kFilterBase) \<and> (blocks = [] \<longrightarrow> groups = []) \<and>
    (\<forall>(offset, keys)\<in>set blocks. \<forall>key\<in>set keys. holds_key groups pend (unat offset div kFilterBase) key)"
  using assms
proof (induction blocks rule: rev_induct)
  case Nil
  have "fb_ok KeyMayMatch [] [] FilterBlockBuilder" by (rule fb_ok_init)
  then show ?case by (auto simp: build_filters_def intro!: exI [of _ "[]"])
next
  case (snoc blk blocks)
  obtain offset keys where blk: "blk = (offset, keys)" by (cases blk)
  have sorted: "sorted (map (\<lambda>(offset, keys). unat offset) blocks)" "\<forall>(o', k')\<in>set blocks. unat o' \<le> unat offset"
    and K: "\<Union> ((\<lambda>(offset, keys). set keys) ` set blocks) \<subseteq> K" "set keys \<subseteq> K"
    using snoc.prems by (auto simp: sorted_append blk)
  obtain groups pend where g: "fb_ok KeyMayMatch groups pend (build_filters CreateFilter blocks)" "set pend \<subseteq> K"
    "blocks \<noteq> [] \<longrightarrow> length groups = unat (fst (last blocks)) div kFilterBase" "blocks = [] \<longrightarrow> groups = []"
    "\<forall>(offset, keys)\<in>set blocks. \<forall>key\<in>set keys. holds_key groups pend (unat offset div kFilterBase) key"
    using snoc.IH [OF sorted(1) K(1)] by blast
  let ?i = "unat offset div kFilterBase"
  obtain groups' pend' where g': "fb_ok KeyMayMatch groups' pend' (StartBlock CreateFilter offset (build_filters CreateFilter blocks))"
    "set pend' \<subseteq> K" "length groups' = max ?i (length groups)"
    "\<forall>j key. holds_key groups pend j key \<longrightarrow> holds_key groups' pend' j key"
    using generate_until_ok [OF g(1,2), of ?i] by (auto simp: StartBlock_def)
  have "length groups \<le> ?i"
  proof (cases "blocks = []")
    case False
    obtain o' ks where "last blocks = (o', ks)" by (cases "last blocks")
    with last_in_set [OF False] sorted(2) have "unat (fst (last blocks)) \<le> unat offset" by auto
    with False g(3) show ?thesis by (simp add: div_le_mono)
  qed (simp add: g(4))
  then have len: "length groups' = ?i" using g'(3) by simp
  have more: "holds_key groups' (pend' @ keys) j key" if "holds_key groups pend j key \<or> j = ?i \<and> key \<in> set keys" for j key
    using that g'(4) len by (auto simp: holds_key_def)
  have all: "holds_key groups' (pend' @ keys) (unat o' div kFilterBase) key"
    if blk': "(o', ks) \<in> set (blocks @ [blk])" and key: "key \<in> set ks" for o' ks key
  proof -
    consider "(o', ks) \<in> set blocks" | "o' = offset" "ks = keys" using blk' by (auto simp: blk)
    then show ?thesis
    proof cases
      case 1
      then have "holds_key groups pend (unat o' div kFilterBase) key" using g(5) key by blast
      then show ?thesis using more by blast
    qed (use more key in blast)
  qed
  show ?case
  proof (intro exI conjI)
    show "fb_ok KeyMayMatch groups' (pend' @ keys) (build_filters CreateFilter (blocks @ [blk]))"
      using fold_AddKey_ok [OF g'(1)] by (simp add: build_filters_def blk)
    show "set (pend' @ keys) \<subseteq> K" using g'(2) K(2) by simp
    show "\<forall>(o', ks)\<in>set (blocks @ [blk]). \<forall>key\<in>set ks. holds_key groups' (pend' @ keys) (unat o' div kFilterBase) key"
      using all by blast
  qed (simp_all add: len blk)
qed


lemma FilterBlock_reads:
  assumes ok: "fb_ok KeyMayMatch groups [] b" and len: "length (fb_result b) + 4 * length groups + 5 < 2 ^ 32"
    and i: "unat offset div kFilterBase < length groups" "key \<in> set (groups ! (unat offset div kFilterBase))"
    and contents: "contents = foldl PutFixed32 (fb_result b) (fb_filter_offsets b) @
      EncodeFixed32 (word_of_nat (length (fb_result b))) @ [word_of_nat kFilterBaseLg]"
  shows "FilterBlock_KeyMayMatch KeyMayMatch offset key (FilterBlockReader contents)"
proof -
  obtain fs where fs: "length fs = length groups" "fb_result b = concat fs" "fb_filter_offsets b = map word_of_nat (starts_of fs)"
    "\<forall>i<length fs. \<forall>key\<in>set (groups ! i). KeyMayMatch key (fs ! i)"
    using ok unfolding fb_ok_def by blast
  let ?i = "unat offset div kFilterBase" and ?r = "concat fs" and ?m = "length fs"
  let ?ws = "map word_of_nat (starts_of fs @ [length ?r]) :: u32 list"
  have c: "contents = ?r @ concat (map EncodeFixed32 ?ws) @ [word_of_nat kFilterBaseLg]"
    unfolding contents fs(2,3) by (simp add: foldl_PutFixed32)
  have lens: "length (concat (map EncodeFixed32 ws)) = 4 * length ws" for ws by (induction ws) simp_all
  have n: "length contents = length ?r + 4 * ?m + 5" unfolding c by (simp only: length_append length_fixed_array length_map) (simp add: starts_of_def)
  have lens: "length (starts_of fs) = ?m" by (simp add: starts_of_def)
  have word: "DecodeFixed32 (drop (length ?r + 4 * j) contents) = ?ws ! j" if "j \<le> ?m" for j
    unfolding c using DecodeFixed32_nth [of j ?ws "[word_of_nat kFilterBaseLg]"] that lens by simp
  have at: "(starts_of fs @ [length ?r]) ! j = length (concat (take j fs))" if "j \<le> ?m" for j
    using that by (cases "j = ?m") (simp_all add: starts_of_def nth_append)
  have split: "?r = concat (take j fs) @ concat (drop j fs)" for j by (metis append_take_drop_id concat_append)
  have nat: "unat (?ws ! j) = length (concat (take j fs))" if "j \<le> ?m" for j
  proof -
    have "length (concat (take j fs)) \<le> length ?r" by (subst split [of j]) simp
    then have "length (concat (take j fs)) < 2 ^ 32" using len fs(1,2) by simp
    then have "unat (word_of_nat (length (concat (take j fs))) :: u32) = length (concat (take j fs))"
      by (intro unat_word_of_nat_less) simp
    then show ?thesis using that lens at [OF that] by (simp add: nth_append split: if_splits)
  qed
  have last: "unat (DecodeFixed32 (drop (length contents - 5) contents)) = length ?r"
    using word [of ?m] nat [of ?m] by (simp add: n)
  have lg: "unat (contents ! (length contents - 1)) = 11" unfolding c by (simp add: kFilterBaseLg_def nth_append)
  have r: "FilterBlockReader contents = \<lparr>fr_data = contents, fr_offset = length ?r, fr_num = ?m, fr_base_lg = 11\<rparr>"
    unfolding FilterBlockReader_def Let_def last lg by (simp add: n)
  have i': "?i < ?m" using i(1) fs(1) by simp
  have index: "unat (drop_bit 11 offset) = ?i" by (simp add: unat_drop_bit kFilterBase_def kFilterBaseLg_def drop_bit_eq_div unat_div)
  have "concat (take (Suc ?i) fs) = concat (take ?i fs) @ fs ! ?i" using i' by (simp add: take_Suc_conv_app_nth)
  then have piece: "contents = concat (take ?i fs) @ fs ! ?i @ concat (drop (Suc ?i) fs) @ concat (map EncodeFixed32 ?ws) @ [word_of_nat kFilterBaseLg]"
    unfolding c by (subst split [of "Suc ?i"]) simp
  have start: "unat (DecodeFixed32 (drop (length ?r + ?i * 4) contents)) = length (concat (take ?i fs))"
    using word [of ?i] nat [of ?i] i' by (simp add: mult.commute)
  have limit: "unat (DecodeFixed32 (drop (length ?r + ?i * 4 + 4) contents)) = length (concat (take ?i fs)) + length (fs ! ?i)"
    using word [of "Suc ?i"] nat [of "Suc ?i"] i' by (simp add: mult.commute algebra_simps take_Suc_conv_app_nth)
  have bound: "length (concat (take ?i fs)) + length (fs ! ?i) \<le> length ?r"
    by (subst split [of "Suc ?i"]) (use i' in \<open>simp add: take_Suc_conv_app_nth\<close>)
  have "take (length (fs ! ?i)) (drop (length (concat (take ?i fs))) contents) = fs ! ?i"
    by (subst piece) simp
  moreover have "KeyMayMatch key (fs ! ?i)" using fs(4) i' i(2) by blast
  ultimately show ?thesis
    unfolding r FilterBlock_KeyMayMatch_def Let_def using index i' start limit bound by simp
qed

lemma filter_block_matches:
  assumes "sorted (map (\<lambda>(offset, keys). unat offset) blocks)" "\<Union> ((\<lambda>(offset, keys). set keys) ` set blocks) \<subseteq> K"
    and len: "length (fst (FilterBlock_Finish CreateFilter (build_filters CreateFilter blocks))) < 2 ^ 32"
    and key: "(offset, keys) \<in> set blocks" "key \<in> set keys"
  shows "FilterBlock_KeyMayMatch KeyMayMatch offset key
    (FilterBlockReader (fst (FilterBlock_Finish CreateFilter (build_filters CreateFilter blocks))))"
proof -
  let ?b = "build_filters CreateFilter blocks"
  obtain groups pend where g: "fb_ok KeyMayMatch groups pend ?b" "set pend \<subseteq> K"
    "\<forall>(offset, keys)\<in>set blocks. \<forall>key\<in>set keys. holds_key groups pend (unat offset div kFilterBase) key"
    using build_filters_ok [OF assms(1,2)] by blast
  have holds: "holds_key groups pend (unat offset div kFilterBase) key" using g(3) key by blast
  let ?b' = "if fb_start ?b \<noteq> [] then GenerateFilter CreateFilter ?b else ?b"
  define groups' where "groups' = (if pend = [] then groups else groups @ [pend])"
  have "fb_start ?b = [] \<longleftrightarrow> pend = []" using g(1) by (auto simp: fb_ok_def starts_of_def)
  then have ok: "fb_ok KeyMayMatch groups' [] ?b'"
    using g(1) fb_ok_Generate [OF g(1,2)] by (auto simp: groups'_def)
  have i: "unat offset div kFilterBase < length groups'" "key \<in> set (groups' ! (unat offset div kFilterBase))"
    using holds by (auto simp: holds_key_def groups'_def nth_append)
  have finish: "fst (FilterBlock_Finish CreateFilter ?b) = foldl PutFixed32 (fb_result ?b') (fb_filter_offsets ?b') @
      EncodeFixed32 (word_of_nat (length (fb_result ?b'))) @ [word_of_nat kFilterBaseLg]"
    by (simp add: FilterBlock_Finish_def Let_def PutFixed32_def)
  have "length (fb_filter_offsets ?b') = length groups'" by (rule fb_ok_offsets [OF ok])
  then have "length (fb_result ?b') + 4 * length groups' + 5 < 2 ^ 32"
    using len unfolding finish by (simp add: foldl_PutFixed32 length_fixed_array)
  from FilterBlock_reads [OF ok this i finish] show ?thesis .
qed

end

subsection \<open>Properties\<close>

text \<open>
  Filters give no false negatives: for every policy that keeps the contract, such as the Bloom
  filter behind the wrapper for internal keys, a filter block that was built for data blocks at ascending
  offsets says for every key of every block, looked up with the offset of its block, that it may be there.
\<close>

theorem filters_have_no_false_negatives:
  assumes "filter_policy K CreateFilter KeyMayMatch"
    and "sorted (map (\<lambda>(offset, keys). unat offset) blocks)" "\<Union> ((\<lambda>(offset, keys). set keys) ` set blocks) \<subseteq> K"
    and "length (fst (FilterBlock_Finish CreateFilter (build_filters CreateFilter blocks))) < 2 ^ 32"
    and "(offset, keys) \<in> set blocks" "key \<in> set keys"
  shows "FilterBlock_KeyMayMatch KeyMayMatch offset key
    (FilterBlockReader (fst (FilterBlock_Finish CreateFilter (build_filters CreateFilter blocks))))"
  by (rule filter_policy.filter_block_matches [OF assms])

lemma filters_have_no_false_negatives_witness:
  "FilterBlock_KeyMayMatch (Internal_KeyMayMatch bloom_KeyMayMatch) 5000 [7, 0, 0, 0, 0, 0, 0, 0, 0]
    (FilterBlockReader (fst (FilterBlock_Finish (Internal_CreateFilter (bloom_CreateFilter (BloomFilterPolicy 10)))
      (build_filters (Internal_CreateFilter (bloom_CreateFilter (BloomFilterPolicy 10)))
        [(0, []), (5000, [[7, 0, 0, 0, 0, 0, 0, 0, 0]])]))))"
proof -
  let ?key = "[7, 0, 0, 0, 0, 0, 0, 0, 0] :: slice" and ?p = "BloomFilterPolicy 10"
  let ?create = "Internal_CreateFilter (bloom_CreateFilter ?p)"
  let ?blocks = "[(0, []), (5000, [?key])] :: (u64 \<times> slice list) list"
  have size: "length (bloom_CreateFilter ?p [u] []) = 9" for u
    by (simp add: bloom_CreateFilter_def bloom_size_def BloomFilterPolicy_def Let_def)
  have build: "build_filters ?create ?blocks = \<lparr>fb_keys = ?key, fb_start = [0], fb_result = [], fb_filter_offsets = [0, 0]\<rparr>"
    by (simp add: build_filters_def StartBlock_def generate_until.simps GenerateFilter_def AddKey_def FilterBlockBuilder_def
        kFilterBase_def kFilterBaseLg_def)
  have "length (fst (FilterBlock_Finish ?create (build_filters ?create ?blocks))) < 2 ^ 32"
    unfolding build using size [of "[7]"]
    by (simp add: FilterBlock_Finish_def GenerateFilter_def Internal_CreateFilter_def ExtractUserKey_def PutFixed32_def Let_def)
  from filters_have_no_false_negatives [OF bloom_internal.internal.filter_policy_axioms _ _ this] show ?thesis
    by (auto simp: ExtractUserKey_def)
qed

end
