(* ===== verification/Spec2Isabelle.thy ===== *)
theory Spec2Isabelle
  imports CBS_Properties CBB_Roundtrip CBB_Error BER_Properties Base64_Spec Stack_Spec Pool_Spec Buf PB_Properties LDB_Log_Spec LDB_SkipList_Conc LDB_Recover LDB_VersionEdit LDB_Merge LDB_Filter
begin

text \<open>
  A verification library for the C code that the TWTW iOS application ships with.

  The application itself (\<open>src/TWTW/TWTW\<close>) is Swift; its C code is the vendored BoringSSL (the TLS
  and encoding library under gRPC, Firestore and Firebase), under
  \<open>src/TWTW/Pods/BoringSSL-GRPC/src\<close>, and nanopb (the protocol-buffer codec under Firestore), under
  \<open>src/TWTW/Pods/nanopb\<close>, and the C++ of LevelDB (Firestore's local store), under
  \<open>src/TWTW/Pods/leveldb-library\<close>. The library models the encoding layer of BoringSSL's libcrypto, the
  containers it is built on, the wire format of nanopb, and of LevelDB the on-disk formats, the memory table
  and the path of a write through log and memory table to its recovery after a crash. Paths below are
  relative to \<open>src/crypto\<close> in BoringSSL and to the directories of nanopb and LevelDB.

  Layers, from the bottom:

  \<^item> \<open>Prelude\<close>: C integers as words, programs over a state with an error result (\<open>prog\<close>), big-endian
    numbers. \<open>Codec\<close>: the interfaces (locales) between readers, writers and encodings. \<open>Qsort\<close>: the C
    library's sort, and the contract \<open>comparator\<close> of comparison functions.
  \<^item> \<open>Mem\<close> (\<open>mem.c\<close>, parts of \<open>internal.h\<close>): allocation, comparison, hashing, C strings. \<open>Const_Time\<close>
    (\<open>internal.h\<close>): the constant-time masks, used by \<open>Base64\<close>.
  \<^item> \<open>CBS\<close>, \<open>CBS_ASN1\<close> (\<open>bytestring/cbs.c\<close>): the byte-string reader. A \<open>CBS\<close> is the bytes from its
    data pointer on and its length. \<open>DER_Codec\<close>, \<open>DER_Types\<close>, \<open>DER_Fields\<close>: the encodings it reads, as
    functions, and the proofs that the readers invert them; \<open>CBS_Properties\<close> states the results.
  \<^item> \<open>CBB\<close> (\<open>bytestring/cbb.c\<close>): the byte-string builder, a shared growing buffer with a chain of
    pending children. \<open>CBB_Spec\<close>, \<open>CBB_DER\<close>, \<open>CBB_Top\<close>: its abstract specification (a tree of
    finished bytes and open children), the simulation, and the theorems on complete builds.
    \<open>CBB_Error\<close>: the error flag across arbitrary sequences of the builder's operations.
  \<^item> \<open>SetOf\<close>, \<open>OID\<close>, \<open>Unicode\<close>, \<open>CBB_Roundtrip\<close>: SET OF sorting, object identifiers as text
    (\<open>cbb.c\<close>, \<open>cbs.c\<close>), code points (\<open>bytestring/unicode.c\<close>), and what is written is read back.
  \<^item> \<open>BER\<close>, \<open>BER_Spec\<close>, \<open>BER_Properties\<close> (\<open>bytestring/ber.c\<close>, \<open>asn1_compat.c\<close>): the conversion of
    BER to DER, which reads with \<open>CBS\<close> and writes with \<open>CBB\<close>.
  \<^item> \<open>Base64\<close>, \<open>Base64_Spec\<close> (\<open>base64/base64.c\<close>): one-shot and streaming encoder and decoder.
  \<^item> \<open>Stack\<close>, \<open>Stack_Spec\<close> (\<open>stack/stack.c\<close>), \<open>LHash\<close>, \<open>LHash_Spec\<close> (\<open>lhash/lhash.c\<close>), \<open>Buf\<close>
    (\<open>buf/buf.c\<close>): the pointer array, the hash table and the growable buffer. The states of a stack that
    \<open>stack_reach\<close> derives carry whether its flag \<open>sorted\<close> may be stale, which \<open>sk_set\<close> alone can cause.
  \<^item> \<open>Pool\<close>, \<open>Pool_Spec\<close> (\<open>pool/pool.c\<close>, \<open>refcount_c11.c\<close>): the table of interned, reference-counted
    buffers shared by threads, a client of \<open>LHash\<close>.
  \<^item> \<open>PB_Stream\<close> (\<open>pb_encode.c\<close>, \<open>pb_decode.c\<close>): nanopb's streams, over callbacks of any kind, and its
    scalar encoders and decoders. \<open>PB_Wire\<close>: varints, the contract \<open>byte_source\<close> of an input callback and
    what the readers do on it. \<open>PB_Fields\<close>: readers only consume, substreams, tagged fields as a codec,
    output streams; \<open>PB_Properties\<close> states the results, on nested decoders for all programs of reader calls
    (\<open>pb_reader\<close>), with submessages and callback fields inside.
  \<^item> \<open>Varint\<close>: the varint of a number and its decoders' invariant, shared by nanopb and LevelDB.
    \<open>LDB_Coding\<close> (\<open>util/coding.cc\<close>): LevelDB's numbers and slices. \<open>LDB_CRC\<close> (\<open>util/crc32c.cc\<close>): the
    checksum. \<open>LDB_Log\<close>, \<open>LDB_Log_Spec\<close> (\<open>db/log_writer.cc\<close>, \<open>db/log_reader.cc\<close>): the write-ahead log, and
    the recovery of every prefix of it.
  \<^item> \<open>LDB_Format\<close> (\<open>util/comparator.cc\<close>, \<open>db/dbformat.cc\<close>): comparators and internal keys.
    \<open>LDB_SkipList\<close> (\<open>db/skiplist.h\<close>): the skip list, nodes by their addresses, as a sorted list;
    \<open>LDB_SkipList_Conc\<close>: its readers, which take no lock, beside the writer; a step is one load of a link by
    a reader or one store by the writer. \<open>LDB_MemTable\<close>
    (\<open>db/memtable.cc\<close>): the memory table as a multi-version map, a client of the skip list.
  \<^item> \<open>LDB_Batch\<close> (\<open>db/write_batch.cc\<close>), \<open>LDB_Write\<close>, \<open>LDB_Recover\<close> (\<open>db/db_impl.cc\<close>): batches; the
    queue of writers with group commit and its condition variables, as a step relation; and the replay of
    the log, which joins all of the above: what is read after a crash is a prefix of the writes in their
    order. While the leader of a group writes the log and the memory table without the mutex, other threads
    can enter and wait; the leader's own work is one step, since nothing else writes what it touches.
  \<^item> \<open>LDB_VersionEdit\<close> (\<open>db/version_edit.cc\<close>): the records of the manifest. \<open>LDB_Block\<close>,
    \<open>LDB_Block_Spec\<close> (\<open>table/block_builder.cc\<close>, \<open>table/block.cc\<close>): the blocks of table files and their
    iterator as a cursor on a sorted list. \<open>LDB_Iterator\<close> (\<open>include/leveldb/iterator.h\<close>,
    \<open>table/iterator.cc\<close>): the interface of iterators; \<open>LDB_Merge\<close> (\<open>table/merger.cc\<close>): the iterator that merges
    others is a cursor on the merge of their lists. \<open>LDB_Filter\<close> (\<open>util/hash.cc\<close>, \<open>util/bloom.cc\<close>,
    \<open>table/filter_block.cc\<close>): Bloom filters and the filter blocks of table files, without false negatives.

  How the state is modelled. A struct is a record; a pointer to bytes is the list of bytes from it on;
  \<open>size_t\<close> is a natural number with the wrap-around written out where it can happen, the other integers
  are words. A function that returns one or zero is a \<open>prog\<close>: the outputs, or \<open>None\<close>, and the state left
  behind, on failure too. \<open>malloc\<close> is a predicate on the requested size, arbitrary in every theorem, so
  that each failure is covered. Objects that are shared (the pool's buffers, the hash table's items) have
  addresses. A pointer to a parent or child object of a builder is its index in the chain.

  What the lemmas show. Readers are equivalent to "the input starts with an encoding" (\<open>stream_codec\<close>,
  \<open>canonical_codec\<close>), which gives unique readability and the inverse direction; the builder refines its
  abstract tree operation by operation; conversions preserve the tree a BER string denotes; the streaming
  Base64 routines do not depend on how the input is cut; the pointer array acts as a list, the hash table
  as a finite map under the contract \<open>lh_compat\<close> of its hash function, which the pool's hash meets; the
  pool's invariant holds in every interleaving of its critical sections. The nanopb decoders are
  characterised for every callback that delivers its bytes in order: what they accept, what they leave in
  the stream, and that they read back what the encoders write.

  Locales and their interpretations: \<open>stream_codec\<close>, \<open>progressing_codec\<close>, \<open>canonical_codec\<close> on the DER
  elements, integers, length prefixes and code points; \<open>byte_sink\<close> on the builder; \<open>comparator\<close> on the
  order of SET OF; \<open>lh_compat\<close> on the pool's buffers, for every heap; \<open>byte_source\<close> on the callback of
  memory buffers, \<open>progressing_codec\<close> on the fields of a message and on LevelDB's varints and slices;
  \<open>key_comparator\<close> (a \<open>comparator\<close> with separators and successors) on the bytewise order and, as a
  \<open>sublocale\<close> of \<open>user_comparator\<close>, on internal keys over any user order. The skip list, the memory table
  and the blocks are proved for every \<open>comparator\<close>. \<open>cursor\<close>, the contract of iterators, holds of the iterator
  of a block, and the merging iterator is proved for all children that keep it; \<open>filter_policy\<close> and
  \<open>user_filter_policy\<close> hold of Bloom filters.

  Bounds and fuel. \<open>read_list\<close>, \<open>convert_loop\<close> and the loops over elements take the length of the input
  as fuel, which is enough as each round takes a byte (\<open>convert_loop_terminates\<close>); \<open>cbs_convert_ber\<close>
  recurses to the code's own \<open>kMaxDepth\<close>; the iteration of a hash table takes the length of its chains
  (\<open>OPENSSL_lh_doall_drains\<close>). The loops of the nanopb decoders terminate because each round takes a byte
  of the stream, those of the log because each round writes or reads some of what is left. The loops of the
  skip list and of the block iterator follow links that could form a cycle: they are partial functions, and
  every theorem about them includes that they return.

  Not modelled: deallocation (\<open>OPENSSL_free\<close> and the \<open>_free\<close> functions, which have no result) except
  where a freed object could be used again (\<open>Pool\<close>); the error queue (\<open>OPENSSL_PUT_ERROR\<close> only
  records); printf-style formatting; nanopb's message layer (field descriptors and C structs); LevelDB's
  versions and compactions, the index and the reader of whole table files, the switch of the memory table and log,
  and its environment; the rest of libcrypto (bignum and curve arithmetic, ciphers, X.509),
  libssl (C++), and the Swift, Objective-C and C++ pods.
\<close>

end
